(* ===== verification/Prelude.thy ===== *)
theory Prelude
  imports Main "HOL-Library.Word" "HOL-Library.Monad_Syntax"
begin

text \<open>
  Shared vocabulary of the development: the machine types of the C code, pointers, the
  theorem collections that the component theories fill, and the generic lemmas on lists
  and words they use. The target is the SAM3X8E (a 32-bit ARM), so \<open>int\<close>, \<open>unsigned
  int\<close>, \<open>unsigned long\<close> and pointers are 32 bits wide.
\<close>

unbundle bit_operations_syntax

type_synonym u8 = "8 word"
type_synonym u16 = "16 word"
type_synonym u32 = "32 word"

text \<open>Addresses of objects; \<open>NULL\<close> is 0, as in \<open>list.c\<close>.\<close>

type_synonym ptr = nat

abbreviation (input) NULL :: ptr where
  "NULL \<equiv> 0"

named_theorems model_defs
  \<open>definitions of operations, for unfolding a whole component\<close>

named_theorems inv_intros
  \<open>preservation of a component's invariant by its operations\<close>

section \<open>Lists\<close>

lemma remove1_notin [simp]: "x \<notin> set xs \<Longrightarrow> remove1 x xs = xs"
  by (induction xs) auto

lemma remove1_middle: "x \<notin> set ys \<Longrightarrow> remove1 x (ys @ x # zs) = ys @ zs"
  by (induction ys) auto

lemma distinct_remove1_append:
  "distinct xs \<Longrightarrow> distinct (remove1 x xs @ [x])"
  by auto

lemma length_remove1_append:
  "length (remove1 x xs @ [x]) = (if x \<in> set xs then length xs else Suc (length xs))"
  by (auto simp: length_remove1 dest: length_pos_if_in_set)

lemma set_remove1_distinct: "distinct xs \<Longrightarrow> set (remove1 x xs) = set xs - {x}"
  by auto

lemma nth_update_split: "i < length xs \<Longrightarrow> xs[i := v] = take i xs @ v # drop (Suc i) xs"
  by (rule upd_conv_take_nth_drop)

lemma nth_list_update_if:
  "xs[k := c] ! i = (if i = k \<and> k < length xs then c else xs ! i)"
  by (cases "k < length xs") (auto simp: list_update_beyond)

lemma filter_remove1_distinct:
  "distinct xs \<Longrightarrow> remove1 x xs = filter (\<lambda>y. y \<noteq> x) xs"
  by (induction xs) (auto simp: filter_id_conv)

section \<open>Byte arrays\<close>

text \<open>\<open>memcpy\<close> or \<open>memmove\<close> of \<open>bs\<close> to offset \<open>d\<close> of a buffer that has room for it.\<close>

definition write_at :: "nat \<Rightarrow> 'a list \<Rightarrow> 'a list \<Rightarrow> 'a list" where
  "write_at d bs mem = take d mem @ bs @ drop (d + length bs) mem"

definition read_at :: "nat \<Rightarrow> nat \<Rightarrow> 'a list \<Rightarrow> 'a list" where
  "read_at d n mem = take n (drop d mem)"

lemma length_write_at [simp]:
  "d + length bs \<le> length mem \<Longrightarrow> length (write_at d bs mem) = length mem"
  by (simp add: write_at_def)

lemma length_read_at [simp]: "d + n \<le> length mem \<Longrightarrow> length (read_at d n mem) = n"
  by (simp add: read_at_def)

lemma read_write_same: "d + length bs \<le> length mem \<Longrightarrow> read_at d (length bs) (write_at d bs mem) = bs"
  by (simp add: read_at_def write_at_def)

lemma read_write_before: "e + n \<le> d \<Longrightarrow> d \<le> length mem \<Longrightarrow> read_at e n (write_at d bs mem) = read_at e n mem"
  by (simp add: read_at_def write_at_def take_drop min_def)

lemma read_write_after:
  "d + length bs \<le> e \<Longrightarrow> d + length bs \<le> length mem \<Longrightarrow>
    read_at e n (write_at d bs mem) = read_at e n mem"
  by (simp add: read_at_def write_at_def)

lemma read_write_inside:
  assumes "d \<le> length mem" and "k + n \<le> length bs"
  shows "read_at (d + k) n (write_at d bs mem) = read_at k n bs"
proof -
  have "drop (d + k) (take d mem @ bs @ drop (d + length bs) mem) =
      drop k bs @ drop (d + length bs) mem"
    using assms by simp
  then show ?thesis using assms by (simp add: read_at_def write_at_def)
qed

lemma read_read: "k + n \<le> m \<Longrightarrow> read_at k n (read_at d m mem) = read_at (d + k) n mem"
  by (simp add: read_at_def take_drop min_def add.commute add.left_commute)

section \<open>Running a sequence of operations\<close>

text \<open>\<open>None\<close> of a step (a traversal that does not return) is \<open>None\<close> of the run.\<close>

fun run_ops :: "('s \<Rightarrow> 'o \<Rightarrow> 's option) \<Rightarrow> 's \<Rightarrow> 'o list \<Rightarrow> 's option" where
  "run_ops f s [] = Some s"
| "run_ops f s (x # xs) = Option.bind (f s x) (\<lambda>t. run_ops f t xs)"

text \<open>A deterministic machine that emits outputs.\<close>

fun run_out :: "('s \<Rightarrow> 'i \<Rightarrow> 's \<times> 'o) \<Rightarrow> 's \<Rightarrow> 'i list \<Rightarrow> 's \<times> 'o list" where
  "run_out f s [] = (s, [])"
| "run_out f s (x # xs) =
     (let (t, y) = f s x; (u, ys) = run_out f t xs in (u, y # ys))"

section \<open>Words\<close>

lemma unat_lt_2p: "unat (w :: 'a::len word) < 2 ^ LENGTH('a)"
  by simp

lemma unat_of_nat_small:
  "k < 2 ^ LENGTH('a) \<Longrightarrow> unat (of_nat k :: 'a::len word) = k"
  by (simp add: unsigned_of_nat take_bit_nat_eq_self)

lemma unat_of_nat_u8: "k < 256 \<Longrightarrow> unat (of_nat k :: u8) = k"
  by (simp add: unat_of_nat_small)

lemma unat_of_nat_u16: "k < 65536 \<Longrightarrow> unat (of_nat k :: u16) = k"
  by (simp add: unat_of_nat_small)

lemma unat_of_nat_u32: "k < 4294967296 \<Longrightarrow> unat (of_nat k :: u32) = k"
  by (simp add: unat_of_nat_small)

lemma unat_ucast_8_16: "unat (ucast (x :: u8) :: u16) = unat x"
  using unat_lt_2p [of x] by (simp add: unsigned_ucast_eq take_bit_nat_eq_self)

lemma ucast_8_16_inj: "(ucast (x :: u8) :: u16) = ucast y \<longleftrightarrow> x = y"
  by (metis unat_ucast_8_16 word_unat_eq_iff)

end
