(* ===== verification/Interfaces.thy ===== *)
theory Interfaces
  imports Prelude "HOL-Library.Sublist"
begin

text \<open>
  The contracts between components that are not lists: a bounded first-in first-out queue
  (provided by the byte ring of \<open>ringbuf.c\<close> and the event ring of \<open>process.c\<close>) and a pool of
  equal blocks (provided by \<open>memb.c\<close>). What a client may conclude is proved here once, inside
  the locales.
\<close>

section \<open>Bounded queues\<close>

datatype 'a queue_op = Put 'a | Get

text \<open>Runs of a queue: the accepted elements and the delivered elements, in order.\<close>

fun queue_run :: "('s \<Rightarrow> 'a \<Rightarrow> bool \<times> 's) \<Rightarrow> ('s \<Rightarrow> 'a option \<times> 's) \<Rightarrow> 's \<Rightarrow> 'a queue_op list \<Rightarrow>
  's \<times> 'a list \<times> 'a list" where
  "queue_run p g s [] = (s, [], [])"
| "queue_run p g s (Put x # ops) =
     (let (ok, t) = p s x; (u, acc, del) = queue_run p g t ops
      in (u, (if ok then x # acc else acc), del))"
| "queue_run p g s (Get # ops) =
     (let (r, t) = g s; (u, acc, del) = queue_run p g t ops
      in (u, acc, (case r of None \<Rightarrow> del | Some x \<Rightarrow> x # del)))"

locale fifo =
  fixes inv :: "'s \<Rightarrow> bool"
    and contents :: "'s \<Rightarrow> 'a list"
    and capacity :: "'s \<Rightarrow> nat"
    and put :: "'s \<Rightarrow> 'a \<Rightarrow> bool \<times> 's"
    and get :: "'s \<Rightarrow> 'a option \<times> 's"
  assumes put_law: "inv s \<Longrightarrow> put s x = (ok, t) \<Longrightarrow>
      inv t \<and> capacity t = capacity s \<and> ok = (length (contents s) < capacity s) \<and>
      contents t = (if ok then contents s @ [x] else contents s)"
    and get_law: "inv s \<Longrightarrow> get s = (r, t) \<Longrightarrow>
      inv t \<and> capacity t = capacity s \<and>
      r = (case contents s of [] \<Rightarrow> None | x # xs \<Rightarrow> Some x) \<and> contents t = tl (contents s)"
    and bound: "inv s \<Longrightarrow> length (contents s) \<le> capacity s"
begin

text \<open>Nothing is lost, duplicated or reordered between what was accepted and what is delivered.\<close>

lemma run_order:
  "inv s \<Longrightarrow> queue_run put get s ops = (t, acc, del) \<Longrightarrow>
    inv t \<and> capacity t = capacity s \<and> contents s @ acc = del @ contents t"
proof (induction ops arbitrary: s t acc del)
  case Nil
  then show ?case by simp
next
  case (Cons x ops)
  show ?case
  proof (cases x)
    case (Put a)
    obtain ok u where pu: "put s a = (ok, u)" by (cases "put s a")
    obtain v acc' del' where rec: "queue_run put get u ops = (v, acc', del')"
      by (cases "queue_run put get u ops")
    note law = put_law [OF Cons.prems(1) pu]
    have "inv v \<and> capacity v = capacity u \<and> contents u @ acc' = del' @ contents v"
      using Cons.IH rec law by blast
    with law Cons.prems(2) Put pu rec show ?thesis by (auto split: if_splits)
  next
    case Get
    obtain r u where ge: "get s = (r, u)" by (cases "get s")
    obtain v acc' del' where rec: "queue_run put get u ops = (v, acc', del')"
      by (cases "queue_run put get u ops")
    note law = get_law [OF Cons.prems(1) ge]
    have "inv v \<and> capacity v = capacity u \<and> contents u @ acc' = del' @ contents v"
      using Cons.IH rec law by blast
    with law Cons.prems(2) Get ge rec show ?thesis
      by (cases "contents s") (auto split: option.splits)
  qed
qed

lemma run_prefix:
  assumes "inv s" and "contents s = []" and "queue_run put get s ops = (t, acc, del)"
  shows "acc = del @ contents t \<and> length (contents t) \<le> capacity s"
  using run_order [OF assms(1,3)] bound [of t] assms(2) by auto

end

section \<open>Pools of blocks\<close>

datatype pool_op = Alloc | Free ptr

text \<open>
  A client of a pool: \<open>held\<close> is the set of blocks it was given and has not returned.
\<close>

fun pool_run :: "('s \<Rightarrow> ptr \<times> 's) \<Rightarrow> ('s \<Rightarrow> ptr \<Rightarrow> 's) \<Rightarrow> 's \<Rightarrow> ptr set \<Rightarrow> pool_op list \<Rightarrow>
  's \<times> ptr set" where
  "pool_run al fr s held [] = (s, held)"
| "pool_run al fr s held (Alloc # ops) =
     (let (p, t) = al s in pool_run al fr t (if p = NULL then held else insert p held) ops)"
| "pool_run al fr s held (Free p # ops) = pool_run al fr (fr s p) (held - {p}) ops"

locale block_pool =
  fixes inv :: "'s \<Rightarrow> bool"
    and used :: "'s \<Rightarrow> ptr set"
    and blocks :: "'s \<Rightarrow> ptr set"
    and alloc :: "'s \<Rightarrow> ptr \<times> 's"
    and free :: "'s \<Rightarrow> ptr \<Rightarrow> 's"
  assumes used_blocks: "inv s \<Longrightarrow> used s \<subseteq> blocks s"
    and finite_blocks: "inv s \<Longrightarrow> finite (blocks s)"
    and null_block: "inv s \<Longrightarrow> NULL \<notin> blocks s"
    and alloc_law: "inv s \<Longrightarrow> alloc s = (p, t) \<Longrightarrow> inv t \<and> blocks t = blocks s \<and>
      (if used s = blocks s then p = NULL \<and> used t = used s
       else p \<in> blocks s \<and> p \<notin> used s \<and> used t = insert p (used s))"
    and free_law: "inv s \<Longrightarrow> inv (free s p) \<and> blocks (free s p) = blocks s \<and>
      used (free s p) = used s - {p}"
begin

text \<open>Whatever a client does, the blocks in use are exactly those it holds.\<close>

lemma run_used:
  "inv s \<Longrightarrow> pool_run alloc free s (used s) ops = (t, held) \<Longrightarrow>
    inv t \<and> blocks t = blocks s \<and> used t = held"
proof (induction ops arbitrary: s)
  case (Cons x ops)
  show ?case
  proof (cases x)
    case Alloc
    obtain p u where al: "alloc s = (p, u)" by (cases "alloc s")
    note law = alloc_law [OF Cons.prems(1) al]
    have "(if p = NULL then used s else insert p (used s)) = used u"
      using law null_block [OF Cons.prems(1)] by (auto split: if_splits)
    with Cons Alloc al law show ?thesis by auto
  next
    case (Free p)
    with Cons free_law [of s p] show ?thesis by auto
  qed
qed simp

lemma alloc_fails_iff:
  assumes "inv s" and "alloc s = (p, t)"
  shows "p = NULL \<longleftrightarrow> card (used s) = card (blocks s)"
  using alloc_law [OF assms] null_block [OF assms(1)] used_blocks [OF assms(1)]
    finite_blocks [OF assms(1)] card_subset_eq [of "blocks s" "used s"]
  by (auto split: if_splits)

end

section \<open>Stores of values behind handles\<close>

datatype 'v store_op = New 'v | Release ptr

text \<open>A client that releases only handles it holds; \<open>m\<close> is what it put behind each of them.\<close>

fun store_run :: "('v \<Rightarrow> 's \<Rightarrow> ptr \<times> 's) \<Rightarrow> (ptr \<Rightarrow> 's \<Rightarrow> 's) \<Rightarrow> ('v \<Rightarrow> 'c) \<Rightarrow> 's \<Rightarrow> (ptr \<Rightarrow> 'c option) \<Rightarrow>
  'v store_op list \<Rightarrow> 's \<times> (ptr \<Rightarrow> 'c option)" where
  "store_run new free val s m [] = (s, m)"
| "store_run new free val s m (New v # ops) =
     (let (b, t) = new v s
      in store_run new free val t (if b = NULL then m else m(b \<mapsto> val v)) ops)"
| "store_run new free val s m (Release b # ops) =
     (if m b = None then store_run new free val s m ops
      else store_run new free val (free b s) (m(b := None)) ops)"

locale handle_store =
  fixes inv :: "'s \<Rightarrow> bool"
    and valid :: "'v \<Rightarrow> bool"
    and val :: "'v \<Rightarrow> 'c"
    and contents :: "'s \<Rightarrow> ptr \<Rightarrow> 'c option"
    and new :: "'v \<Rightarrow> 's \<Rightarrow> ptr \<times> 's"
    and free :: "ptr \<Rightarrow> 's \<Rightarrow> 's"
  assumes new_law: "inv s \<Longrightarrow> valid v \<Longrightarrow> new v s = (b, t) \<Longrightarrow> inv t \<and>
      (if b = NULL then contents t = contents s
       else contents s b = None \<and> contents t = (contents s)(b \<mapsto> val v))"
    and free_law: "inv s \<Longrightarrow> contents s b \<noteq> None \<Longrightarrow>
      inv (free b s) \<and> contents (free b s) = (contents s)(b := None)"
begin

text \<open>Every handle the client holds still has the value it was created with.\<close>

lemma run_contents:
  "inv s \<Longrightarrow> list_all (\<lambda>x. \<forall>v. x = New v \<longrightarrow> valid v) ops \<Longrightarrow>
    store_run new free val s (contents s) ops = (t, m) \<Longrightarrow> inv t \<and> contents t = m"
proof (induction ops arbitrary: s)
  case (Cons x ops)
  show ?case
  proof (cases x)
    case (New v)
    obtain b u where nw: "new v s = (b, u)" by (cases "new v s")
    have v: "valid v" "list_all (\<lambda>x. \<forall>v. x = New v \<longrightarrow> valid v) ops" using Cons.prems(2) New by auto
    note law = new_law [OF Cons.prems(1) v(1) nw]
    then have "(if b = NULL then contents s else (contents s)(b \<mapsto> val v)) = contents u"
      by (auto split: if_splits)
    with Cons.IH [OF conjunct1 [OF law] v(2)] Cons.prems(3) New nw show ?thesis by simp
  next
    case (Release b)
    with Cons free_law [of s b] show ?thesis by (auto split: if_splits)
  qed
qed simp

end

end
