(* ===== verification/ContikiList.thy ===== *)
theory ContikiList
  imports Prelude
begin

text \<open>
  The linked-list library (\<open>core/lib/list.c\<close>). A list is a head pointer and the
  \<open>next\<close> field of every object, since the C lists are intrusive: the state is the head
  \<open>*list\<close> and a heap of \<open>next\<close> pointers. The traversals are
  \<^theory_text>\<open>partial_function (option)\<close>: they diverge (value \<open>None\<close>) on a cyclic
  chain, and the refinement lemmas prove that they return on every proper chain, with the
  effect of the corresponding operation on HOL lists. The locale \<open>list_service\<close> is the
  contract the other components rely on when they keep their objects in a list.
\<close>

record lheap =
  lh_head :: ptr
  lh_next :: "ptr \<Rightarrow> ptr"

section \<open>The operations of \<open>list.c\<close>\<close>

definition list_init :: "lheap \<Rightarrow> lheap" where
  "list_init s = s\<lparr>lh_head := NULL\<rparr>"

definition list_head :: "lheap \<Rightarrow> ptr" where
  "list_head s = lh_head s"

text \<open>\<open>*dest = *src\<close>; both lists live in the same heap of objects.\<close>

definition list_copy :: "lheap \<Rightarrow> lheap \<Rightarrow> lheap" where
  "list_copy dest src = dest\<lparr>lh_head := lh_head src\<rparr>"

partial_function (option) list_tail_loop :: "(ptr \<Rightarrow> ptr) \<Rightarrow> ptr \<Rightarrow> ptr option" where
  "list_tail_loop nx l = (if nx l \<noteq> NULL then list_tail_loop nx (nx l) else Some l)"

definition list_tail :: "lheap \<Rightarrow> ptr option" where
  "list_tail s = (if lh_head s = NULL then Some NULL
     else list_tail_loop (lh_next s) (lh_head s))"

partial_function (option) list_remove_loop ::
  "lheap \<Rightarrow> ptr \<Rightarrow> ptr \<Rightarrow> ptr \<Rightarrow> lheap option" where
  "list_remove_loop s item r l =
     (if l = NULL then Some s
      else if l = item then
        Some (let s1 = (if r = NULL then s\<lparr>lh_head := lh_next s l\<rparr>
                        else s\<lparr>lh_next := (lh_next s)(r := lh_next s l)\<rparr>)
              in s1\<lparr>lh_next := (lh_next s1)(l := NULL)\<rparr>)
      else list_remove_loop s item l (lh_next s l))"

definition list_remove :: "lheap \<Rightarrow> ptr \<Rightarrow> lheap option" where
  "list_remove s item = (if lh_head s = NULL then Some s
     else list_remove_loop s item NULL (lh_head s))"

definition list_add :: "lheap \<Rightarrow> ptr \<Rightarrow> lheap option" where
  "list_add s item = do {
     s1 \<leftarrow> list_remove s item;
     let s2 = s1\<lparr>lh_next := (lh_next s1)(item := NULL)\<rparr>;
     l \<leftarrow> list_tail s2;
     Some (if l = NULL then s2\<lparr>lh_head := item\<rparr>
           else s2\<lparr>lh_next := (lh_next s2)(l := item)\<rparr>)
   }"

definition list_push :: "lheap \<Rightarrow> ptr \<Rightarrow> lheap option" where
  "list_push s item = do {
     s1 \<leftarrow> list_remove s item;
     Some (s1\<lparr>lh_next := (lh_next s1)(item := lh_head s1), lh_head := item\<rparr>)
   }"

partial_function (option) list_chop_loop :: "(ptr \<Rightarrow> ptr) \<Rightarrow> ptr \<Rightarrow> ptr option" where
  "list_chop_loop nx l = (if nx (nx l) \<noteq> NULL then list_chop_loop nx (nx l) else Some l)"

definition list_chop :: "lheap \<Rightarrow> (ptr \<times> lheap) option" where
  "list_chop s =
     (if lh_head s = NULL then Some (NULL, s)
      else if lh_next s (lh_head s) = NULL then Some (lh_head s, s\<lparr>lh_head := NULL\<rparr>)
      else do {
        l \<leftarrow> list_chop_loop (lh_next s) (lh_head s);
        Some (lh_next s l, s\<lparr>lh_next := (lh_next s)(l := NULL)\<rparr>)
      })"

definition list_pop :: "lheap \<Rightarrow> (ptr \<times> lheap) option" where
  "list_pop s = Some (lh_head s,
     if lh_head s \<noteq> NULL then s\<lparr>lh_head := lh_next s (lh_head s)\<rparr> else s)"

partial_function (option) list_length_loop :: "(ptr \<Rightarrow> ptr) \<Rightarrow> ptr \<Rightarrow> nat \<Rightarrow> nat option" where
  "list_length_loop nx l n =
     (if l \<noteq> NULL then list_length_loop nx (nx l) (Suc n) else Some n)"

definition list_length :: "lheap \<Rightarrow> nat option" where
  "list_length s = list_length_loop (lh_next s) (lh_head s) 0"

definition list_insert :: "lheap \<Rightarrow> ptr \<Rightarrow> ptr \<Rightarrow> lheap option" where
  "list_insert s previtem newitem =
     (if previtem = NULL then list_push s newitem
      else let s1 = s\<lparr>lh_next := (lh_next s)(newitem := lh_next s previtem)\<rparr>
           in Some (s1\<lparr>lh_next := (lh_next s1)(previtem := newitem)\<rparr>))"

definition list_item_next :: "lheap \<Rightarrow> ptr \<Rightarrow> ptr" where
  "list_item_next s item = (if item = NULL then NULL else lh_next s item)"

section \<open>Chains: the abstraction to HOL lists\<close>

text \<open>
  \<open>seg nx p xs q\<close>: following \<open>next\<close> from \<open>p\<close> passes the objects \<open>xs\<close> in this order and
  arrives at \<open>q\<close>. A list represents \<open>xs\<close> when its chain ends at \<open>NULL\<close>.
\<close>

fun seg :: "(ptr \<Rightarrow> ptr) \<Rightarrow> ptr \<Rightarrow> ptr list \<Rightarrow> ptr \<Rightarrow> bool" where
  "seg nx p [] q \<longleftrightarrow> p = q"
| "seg nx p (x # xs) q \<longleftrightarrow> p = x \<and> x \<noteq> NULL \<and> seg nx (nx x) xs q"

abbreviation chain :: "(ptr \<Rightarrow> ptr) \<Rightarrow> ptr \<Rightarrow> ptr list \<Rightarrow> bool" where
  "chain nx p xs \<equiv> seg nx p xs NULL"

definition repr :: "lheap \<Rightarrow> ptr list \<Rightarrow> bool" where
  "repr s xs \<longleftrightarrow> chain (lh_next s) (lh_head s) xs"

lemma seg_append [simp]:
  "seg nx p (xs @ ys) q \<longleftrightarrow> (\<exists>m. seg nx p xs m \<and> seg nx m ys q)"
  by (induction xs arbitrary: p) auto

lemma chain_NULL [simp]: "chain nx NULL xs \<longleftrightarrow> xs = []"
  by (cases xs) auto

lemma chain_unique: "chain nx p xs \<Longrightarrow> chain nx p ys \<Longrightarrow> xs = ys"
proof (induction xs arbitrary: p ys)
  case (Cons x xs)
  then show ?case by (cases ys) auto
qed simp

lemma seg_not_NULL: "seg nx p xs q \<Longrightarrow> NULL \<notin> set xs"
  by (induction xs arbitrary: p) auto

text \<open>A chain ends, so no object occurs twice on it.\<close>

lemma chain_distinct: "chain nx p xs \<Longrightarrow> distinct xs"
proof (induction xs arbitrary: p)
  case (Cons x xs)
  have "x \<notin> set xs"
  proof
    assume "x \<in> set xs"
    then obtain ys zs where xs: "xs = ys @ x # zs" by (meson split_list)
    have "chain nx x (x # zs)" and "chain nx x (x # xs)"
      using Cons.prems by (auto simp: xs)
    then have "x # zs = x # xs" by (rule chain_unique)
    then show False by (simp add: xs)
  qed
  then show ?case using Cons by auto
qed simp

lemma seg_upd [simp]: "x \<notin> set xs \<Longrightarrow> seg (nx(x := v)) p xs q = seg nx p xs q"
  by (induction xs arbitrary: p) auto

lemma seg_last: "seg nx p xs q \<Longrightarrow> xs \<noteq> [] \<Longrightarrow> nx (last xs) = q"
  by (induction xs arbitrary: p) auto

text \<open>Redirecting the \<open>next\<close> of the last object redirects the end of the segment.\<close>

lemma seg_redirect:
  "seg nx p xs q \<Longrightarrow> distinct xs \<Longrightarrow> xs \<noteq> [] \<Longrightarrow> seg (nx(last xs := q')) p xs q'"
proof (induction xs arbitrary: p)
  case (Cons x xs)
  then show ?case by (cases xs) auto
qed simp

lemma repr_unique: "repr s xs \<Longrightarrow> repr s ys \<Longrightarrow> xs = ys"
  unfolding repr_def by (rule chain_unique)

lemma repr_distinct: "repr s xs \<Longrightarrow> distinct xs"
  unfolding repr_def by (rule chain_distinct)

lemma repr_not_NULL: "repr s xs \<Longrightarrow> NULL \<notin> set xs"
  unfolding repr_def by (rule seg_not_NULL)

lemma repr_head: "repr s xs \<Longrightarrow> lh_head s = (if xs = [] then NULL else hd xs)"
  by (cases xs) (auto simp: repr_def)

section \<open>Each operation returns and refines its counterpart on lists\<close>

lemma list_tail_loop_chain:
  "chain nx p xs \<Longrightarrow> xs \<noteq> [] \<Longrightarrow> list_tail_loop nx p = Some (last xs)"
proof (induction xs arbitrary: p)
  case (Cons x xs)
  then show ?case by (cases xs) (auto simp: list_tail_loop.simps)
qed simp

lemma list_tail_repr: "repr s xs \<Longrightarrow> list_tail s = Some (if xs = [] then NULL else last xs)"
  using list_tail_loop_chain [of "lh_next s" "lh_head s" xs]
  by (cases "xs = []") (auto simp: list_tail_def repr_def)

text \<open>What a removal leaves behind: the list without the object, its link cleared, and every
  object that was on no link of the list untouched.\<close>

definition removed :: "lheap \<Rightarrow> ptr \<Rightarrow> ptr list \<Rightarrow> lheap \<Rightarrow> bool" where
  "removed s item xs s' \<longleftrightarrow> repr s' (remove1 item xs) \<and>
     (\<forall>y. y \<notin> set xs \<longrightarrow> lh_next s' y = lh_next s y) \<and>
     (item \<in> set xs \<longrightarrow> lh_next s' item = NULL)"

lemma list_remove_loop_chain:
  assumes "seg (lh_next s) (lh_head s) ys l" and "chain (lh_next s) l zs"
    and "distinct (ys @ zs)" and "item \<notin> set ys"
    and "r = (if ys = [] then NULL else last ys)"
  shows "\<exists>s'. list_remove_loop s item r l = Some s' \<and> removed s item (ys @ zs) s'"
  using assms
proof (induction zs arbitrary: ys r l)
  case Nil
  then have "list_remove_loop s item r l = Some s"
    by (simp add: list_remove_loop.simps)
  with Nil show ?case by (auto simp: removed_def repr_def)
next
  case (Cons z zs)
  let ?nx = "lh_next s"
  from Cons.prems have l: "l = z" "z \<noteq> NULL" and tl: "chain ?nx (?nx z) zs" by auto
  show ?case
  proof (cases "z = item")
    case False
    have "\<exists>s'. list_remove_loop s item z (?nx z) = Some s' \<and> removed s item ((ys @ [z]) @ zs) s'"
      by (rule Cons.IH) (use Cons.prems l False in auto)
    with l False show ?thesis by (simp add: list_remove_loop.simps [of s item r z])
  next
    case True
    show ?thesis
    proof (cases "ys = []")
      case yes: True
      have "list_remove_loop s item r l =
          Some (s\<lparr>lh_head := ?nx z, lh_next := ?nx(z := NULL)\<rparr>)"
        using yes True l Cons.prems by (simp add: list_remove_loop.simps [of s item NULL item])
      with yes True tl Cons.prems show ?thesis
        by (auto simp: removed_def repr_def)
    next
      case no: False
      have lys: "last ys \<in> set ys" using no by simp
      then have "last ys \<noteq> NULL" using seg_not_NULL [OF Cons.prems(1)] by metis
      moreover have "last ys \<notin> set (z # zs)" using lys Cons.prems(3) by auto
      ultimately have nn: "last ys \<noteq> NULL" "last ys \<notin> set zs" "last ys \<noteq> z" by auto
      have "seg (?nx(last ys := ?nx z)) (lh_head s) ys (?nx z)"
        using Cons.prems no by (intro seg_redirect) auto
      then have seg2: "seg (?nx(last ys := ?nx z, z := NULL)) (lh_head s) ys (?nx z)"
        using Cons.prems by simp
      have "chain (?nx(last ys := ?nx z, z := NULL)) (?nx z) zs"
        using tl nn Cons.prems by simp
      with seg2 True l no nn Cons.prems show ?thesis
        by (auto simp: list_remove_loop.simps [of s item _ item] removed_def repr_def Let_def
            remove1_append)
    qed
  qed
qed

lemma list_remove_repr:
  assumes "repr s xs"
  shows "\<exists>s'. list_remove s item = Some s' \<and> removed s item xs s'"
proof (cases "lh_head s = NULL")
  case True
  with assms have "xs = []" by (simp add: repr_def)
  with True assms show ?thesis by (simp add: list_remove_def removed_def)
next
  case False
  with assms list_remove_loop_chain [of s "[]" "lh_head s" xs item NULL]
  show ?thesis by (auto simp: list_remove_def repr_def chain_distinct)
qed

lemma list_add_repr:
  assumes "repr s xs" and "item \<noteq> NULL"
  shows "\<exists>s'. list_add s item = Some s' \<and> repr s' (remove1 item xs @ [item])"
proof -
  obtain s1 where s1: "list_remove s item = Some s1" and rm: "removed s item xs s1"
    using list_remove_repr [OF assms(1)] by blast
  let ?ys = "remove1 item xs" and ?s2 = "s1\<lparr>lh_next := (lh_next s1)(item := NULL)\<rparr>"
  have notin: "item \<notin> set ?ys" using repr_distinct [OF assms(1)] by simp
  have r1: "repr s1 ?ys" using rm by (simp add: removed_def)
  then have r2: "repr ?s2 ?ys" using notin by (simp add: repr_def)
  show ?thesis
  proof (cases "?ys = []")
    case True
    with s1 assms(2) r2 show ?thesis
      by (simp add: list_add_def list_tail_repr [OF r2]) (simp add: repr_def)
  next
    case False
    let ?l = "last ?ys"
    have lin: "?l \<in> set ?ys" using False by simp
    then have l: "?l \<noteq> NULL" "?l \<noteq> item" using repr_not_NULL [OF r2] notin by metis+
    have "seg ((lh_next ?s2)(?l := item)) (lh_head ?s2) ?ys item"
      using r2 False repr_distinct [OF r2] unfolding repr_def by (intro seg_redirect) auto
    with l have "repr (?s2\<lparr>lh_next := (lh_next ?s2)(?l := item)\<rparr>) (?ys @ [item])"
      using assms(2) by (simp add: repr_def)
    with s1 l False show ?thesis by (simp add: list_add_def list_tail_repr [OF r2])
  qed
qed

lemma list_push_repr:
  assumes "repr s xs" and "item \<noteq> NULL"
  shows "\<exists>s'. list_push s item = Some s' \<and> repr s' (item # remove1 item xs)"
proof -
  obtain s1 where s1: "list_remove s item = Some s1" and rm: "removed s item xs s1"
    using list_remove_repr [OF assms(1)] by blast
  have "item \<notin> set (remove1 item xs)" using repr_distinct [OF assms(1)] by simp
  with s1 rm assms(2) show ?thesis by (simp add: list_push_def removed_def repr_def)
qed

lemma list_pop_repr:
  assumes "repr s xs"
  shows "\<exists>s'. list_pop s = Some (if xs = [] then NULL else hd xs, s') \<and> repr s' (tl xs)"
  using assms by (cases xs) (auto simp: list_pop_def repr_def)

lemma list_chop_loop_chain:
  "chain nx p (xs @ [y, z]) \<Longrightarrow> list_chop_loop nx p = Some y"
proof (induction xs arbitrary: p)
  case Nil
  then show ?case by (auto simp: list_chop_loop.simps [of nx y])
next
  case (Cons x xs)
  have "nx (nx x) \<noteq> NULL"
    using Cons.prems by (cases xs; cases "tl xs") auto
  with Cons show ?case by (auto simp: list_chop_loop.simps [of nx x])
qed

lemma list_chop_repr:
  assumes "repr s xs"
  shows "\<exists>s'. list_chop s = Some (if xs = [] then NULL else last xs, s') \<and> repr s' (butlast xs)"
proof (cases xs rule: rev_cases)
  case Nil
  with assms show ?thesis by (auto simp: list_chop_def repr_def)
next
  case (snoc ys z)
  show ?thesis
  proof (cases ys rule: rev_cases)
    case Nil
    with snoc assms show ?thesis by (auto simp: list_chop_def repr_def)
  next
    case (snoc ws y)
    with \<open>xs = ys @ [z]\<close> have xs: "xs = ws @ [y, z]" by simp
    let ?nx = "lh_next s" and ?h = "lh_head s"
    from assms have ch: "chain ?nx ?h (ws @ [y, z])" by (simp add: repr_def xs)
    then have d: "distinct (ws @ [y, z])" by (rule chain_distinct)
    from ch have h: "?h \<noteq> NULL" "?nx ?h \<noteq> NULL" by (cases ws; auto; cases "tl ws"; auto)+
    have y: "list_chop_loop ?nx ?h = Some y" using ch by (rule list_chop_loop_chain)
    have "chain (?nx(y := NULL)) ?h (ws @ [y])" using ch d by auto
    with h y ch show ?thesis by (auto simp: list_chop_def repr_def xs butlast_append)
  qed
qed

lemma list_length_loop_chain:
  "chain nx p xs \<Longrightarrow> list_length_loop nx p n = Some (n + length xs)"
  by (induction xs arbitrary: p n) (auto simp: list_length_loop.simps)

lemma list_length_repr: "repr s xs \<Longrightarrow> list_length s = Some (length xs)"
  by (simp add: list_length_def repr_def list_length_loop_chain)

lemma list_init_repr: "repr (list_init s) []"
  by (simp add: list_init_def repr_def)

text \<open>
  \<open>list_insert\<close> after an object of the list. Unlike \<open>list_add\<close> and \<open>list_push\<close> it does not
  take the new object out of the list first, so the new object must not be on it already.
\<close>

lemma list_insert_repr:
  assumes "repr s (xs @ p # ys)" and "item \<noteq> NULL" and "item \<notin> set (xs @ p # ys)"
  shows "\<exists>s'. list_insert s p item = Some s' \<and> repr s' (xs @ p # item # ys)"
proof -
  have "p \<noteq> NULL" and "distinct (xs @ p # ys)"
    using repr_not_NULL [OF assms(1)] repr_distinct [OF assms(1)] by auto
  with assms show ?thesis by (auto simp: list_insert_def repr_def Let_def)
qed

lemma repr_item_next:
  assumes "repr s (xs @ x # ys)"
  shows "list_item_next s x = (if ys = [] then NULL else hd ys)"
  using assms by (cases ys) (auto simp: list_item_next_def repr_def)

section \<open>The contract of a list provider\<close>

text \<open>
  What the components that keep their objects in a list rely on: each call returns, and acts
  on the represented list as the HOL function on the right. \<open>run_ops\<close> of the prelude runs a
  whole sequence of calls.
\<close>

datatype list_op = Add ptr | Push ptr | Remove ptr | Pop | Chop

fun op_ptr_ok :: "list_op \<Rightarrow> bool" where
  "op_ptr_ok (Add p) \<longleftrightarrow> p \<noteq> NULL"
| "op_ptr_ok (Push p) \<longleftrightarrow> p \<noteq> NULL"
| "op_ptr_ok _ \<longleftrightarrow> True"

fun seq_op :: "ptr list \<Rightarrow> list_op \<Rightarrow> ptr list" where
  "seq_op xs (Add p) = remove1 p xs @ [p]"
| "seq_op xs (Push p) = p # remove1 p xs"
| "seq_op xs (Remove p) = remove1 p xs"
| "seq_op xs Pop = tl xs"
| "seq_op xs Chop = butlast xs"

lemma seq_op_distinct: "distinct xs \<Longrightarrow> distinct (seq_op xs x)"
  by (cases x) (auto simp: distinct_tl distinct_butlast)

fun list_call :: "('s \<Rightarrow> ptr \<Rightarrow> 's option) \<Rightarrow> ('s \<Rightarrow> ptr \<Rightarrow> 's option) \<Rightarrow>
  ('s \<Rightarrow> ptr \<Rightarrow> 's option) \<Rightarrow> ('s \<Rightarrow> (ptr \<times> 's) option) \<Rightarrow> ('s \<Rightarrow> (ptr \<times> 's) option) \<Rightarrow>
  's \<Rightarrow> list_op \<Rightarrow> 's option" where
  "list_call add psh rem pp chp s (Add p) = add s p"
| "list_call add psh rem pp chp s (Push p) = psh s p"
| "list_call add psh rem pp chp s (Remove p) = rem s p"
| "list_call add psh rem pp chp s Pop = map_option snd (pp s)"
| "list_call add psh rem pp chp s Chop = map_option snd (chp s)"

locale list_service =
  fixes rep :: "'s \<Rightarrow> ptr list \<Rightarrow> bool"
    and add :: "'s \<Rightarrow> ptr \<Rightarrow> 's option"
    and psh :: "'s \<Rightarrow> ptr \<Rightarrow> 's option"
    and rem :: "'s \<Rightarrow> ptr \<Rightarrow> 's option"
    and pp :: "'s \<Rightarrow> (ptr \<times> 's) option"
    and chp :: "'s \<Rightarrow> (ptr \<times> 's) option"
    and len :: "'s \<Rightarrow> nat option"
  assumes rep_distinct: "rep s xs \<Longrightarrow> distinct xs"
    and add_law: "rep s xs \<Longrightarrow> p \<noteq> NULL \<Longrightarrow> \<exists>t. add s p = Some t \<and> rep t (remove1 p xs @ [p])"
    and push_law: "rep s xs \<Longrightarrow> p \<noteq> NULL \<Longrightarrow> \<exists>t. psh s p = Some t \<and> rep t (p # remove1 p xs)"
    and remove_law: "rep s xs \<Longrightarrow> \<exists>t. rem s p = Some t \<and> rep t (remove1 p xs)"
    and pop_law: "rep s xs \<Longrightarrow>
      \<exists>t. pp s = Some (if xs = [] then NULL else hd xs, t) \<and> rep t (tl xs)"
    and chop_law: "rep s xs \<Longrightarrow>
      \<exists>t. chp s = Some (if xs = [] then NULL else last xs, t) \<and> rep t (butlast xs)"
    and len_law: "rep s xs \<Longrightarrow> len s = Some (length xs)"
begin

lemma call_law:
  assumes "rep s xs" and "op_ptr_ok x"
  shows "\<exists>t. list_call add psh rem pp chp s x = Some t \<and> rep t (seq_op xs x)"
  using assms add_law push_law remove_law
  by (cases x) (auto dest: pop_law chop_law)

lemma run_law:
  assumes "rep s xs" and "list_all op_ptr_ok ops"
  shows "\<exists>t. run_ops (list_call add psh rem pp chp) s ops = Some t \<and> rep t (foldl seq_op xs ops)"
  using assms
proof (induction ops arbitrary: s xs)
  case (Cons x ops)
  then obtain t where "list_call add psh rem pp chp s x = Some t" "rep t (seq_op xs x)"
    using call_law [of s xs x] by auto
  with Cons show ?case by simp
qed simp

lemma run_len:
  assumes "rep s xs" and "list_all op_ptr_ok ops"
    and "run_ops (list_call add psh rem pp chp) s ops = Some t"
  shows "len t = Some (length (foldl seq_op xs ops)) \<and> distinct (foldl seq_op xs ops)"
  using run_law [OF assms(1,2)] assms(3) len_law rep_distinct by auto

end

interpretation heap_list: list_service repr list_add list_push list_remove list_pop list_chop
  list_length
proof
  fix s xs p assume r: "repr s xs"
  show "distinct xs" using r by (rule repr_distinct)
  show "\<exists>t. list_remove s p = Some t \<and> repr t (remove1 p xs)"
    using list_remove_repr [OF r, of p] by (auto simp: removed_def)
  show "\<exists>t. list_pop s = Some (if xs = [] then NULL else hd xs, t) \<and> repr t (tl xs)"
    using r by (rule list_pop_repr)
  show "\<exists>t. list_chop s = Some (if xs = [] then NULL else last xs, t) \<and> repr t (butlast xs)"
    using r by (rule list_chop_repr)
  show "list_length s = Some (length xs)" using r by (rule list_length_repr)
  assume p: "p \<noteq> NULL"
  show "\<exists>t. list_add s p = Some t \<and> repr t (remove1 p xs @ [p])"
    using r p by (rule list_add_repr)
  show "\<exists>t. list_push s p = Some t \<and> repr t (p # remove1 p xs)"
    using r p by (rule list_push_repr)
qed

section \<open>Properties\<close>

abbreviation list_run :: "lheap \<Rightarrow> list_op list \<Rightarrow> lheap option" where
  "list_run \<equiv> run_ops (list_call list_add list_push list_remove list_pop list_chop)"

text \<open>
  C34. Starting from an initialised list, every sequence of calls of \<open>list_add\<close>,
  \<open>list_push\<close>, \<open>list_remove\<close>, \<open>list_pop\<close> and \<open>list_chop\<close> with non-null objects returns (no
  traversal ever diverges), and the linked objects are exactly those of the same operations on
  HOL lists, in the same order and without repetition; \<open>list_length\<close> counts them.
\<close>

theorem list_run_refines:
  assumes "list_all op_ptr_ok ops"
  shows "\<exists>t. list_run (list_init s) ops = Some t \<and> repr t (foldl seq_op [] ops) \<and>
    distinct (foldl seq_op [] ops) \<and> list_length t = Some (length (foldl seq_op [] ops))"
proof -
  obtain t where t: "list_run (list_init s) ops = Some t" "repr t (foldl seq_op [] ops)"
    using heap_list.run_law [OF list_init_repr assms] by blast
  then show ?thesis using heap_list.run_len [OF list_init_repr assms t(1)] by simp
qed

theorem list_run_refines_witness:
  "\<exists>t. list_run (list_init \<lparr>lh_head = 9, lh_next = (\<lambda>_. 9)\<rparr>)
       [Add 4, Push 5, Add 6, Add 5, Remove 4, Chop] = Some t \<and> repr t [6] \<and>
     list_length t = Some 1"
  using list_run_refines [of "[Add 4, Push 5, Add 6, Add 5, Remove 4, Chop]"
      "\<lparr>lh_head = 9, lh_next = (\<lambda>_. 9)\<rparr>"]
  by auto

text \<open>A traversal to \<open>NULL\<close> returns exactly on the proper chains.\<close>

lemma list_length_loop_returns:
  assumes "list_length_loop nx l n = Some r"
  shows "\<exists>xs. chain nx l xs"
proof (rule list_length_loop.raw_induct [where P = "\<lambda>nx l n r. \<exists>xs. chain nx l xs", OF _ assms])
  fix f nx l n r
  assume IH: "\<And>nx l n r. f nx l n = Some r \<Longrightarrow> \<exists>xs. chain nx l xs"
    and eq: "(if l \<noteq> NULL then f nx (nx l) (Suc n) else Some n) = Some r"
  show "\<exists>xs. chain nx l xs"
  proof (cases "l = NULL")
    case True
    then show ?thesis by (intro exI [of _ "[]"]) simp
  next
    case False
    with eq have "f nx (nx l) (Suc n) = Some r" by simp
    from IH [OF this] obtain xs where "chain nx (nx l) xs" by blast
    with False show ?thesis by (intro exI [of _ "l # xs"]) simp
  qed
qed

text \<open>
  \<open>list_insert\<close> does not unlink the new item first, as \<open>list_add\<close> and \<open>list_push\<close> do
  ("Make sure not to add the same element twice"): inserting an object after itself closes a
  cycle. From then on no chain is represented and \<open>list_length\<close> never returns.
\<close>

theorem list_insert_self_diverges:
  assumes "repr s (xs @ p # ys)"
  shows "\<exists>t. list_insert s p p = Some t \<and> (\<nexists>zs. repr t zs) \<and> list_length t = None"
proof -
  let ?nx = "(lh_next s)(p := p)" and ?t = "s\<lparr>lh_next := (lh_next s)(p := p)\<rparr>"
  have p: "p \<noteq> NULL" and px: "p \<notin> set xs"
    using repr_not_NULL [OF assms] repr_distinct [OF assms] by auto
  then have ins: "list_insert s p p = Some ?t" by (simp add: list_insert_def Let_def)
  have no: "\<nexists>zs. repr ?t zs"
  proof
    assume "\<exists>zs. repr ?t zs"
    then obtain zs where zs: "chain ?nx (lh_head s) zs" by (auto simp: repr_def)
    have "seg (lh_next s) (lh_head s) xs p" using assms by (auto simp: repr_def)
    then have sg: "seg ?nx (lh_head s) xs p" using px by simp
    have cyc: "\<not> chain ?nx p ws" for ws by (induction ws) (use p in auto)
    have "chain ?nx q us \<Longrightarrow> seg ?nx q xs p \<Longrightarrow> \<exists>ws. chain ?nx p ws" for q us
    proof (induction xs arbitrary: q us)
      case (Cons x xs)
      then show ?case by (cases us) auto
    qed auto
    with zs sg cyc show False by blast
  qed
  then have "list_length ?t = None"
    using list_length_loop_returns [of ?nx "lh_head s" 0]
    by (cases "list_length ?t") (auto simp: list_length_def repr_def)
  with ins no show ?thesis by blast
qed

theorem list_insert_self_diverges_witness:
  "\<exists>t. list_insert \<lparr>lh_head = 2, lh_next = (\<lambda>_. 0)(2 := 3)\<rparr> 3 3 = Some t \<and> list_length t = None"
  using list_insert_self_diverges [of "\<lparr>lh_head = 2, lh_next = (\<lambda>_. 0)(2 := 3)\<rparr>" "[2]" 3 "[]"]
  by (auto simp: repr_def)

end
