(* ===== verification/RingBuf.thy ===== *)
theory RingBuf
  imports Interfaces
begin

text \<open>
  The byte ring buffer (\<open>core/lib/ringbuf.c\<close>): \<open>uint8_t\<close> indices into a buffer whose size
  is a power of two, all arithmetic modulo the mask. The theory shows that the code is a bounded
  first-in first-out queue of \<open>mask\<close> bytes.
\<close>

record ringbuf =
  rb_data :: "u8 list"
  rb_mask :: u8
  rb_put :: u8
  rb_get :: u8

definition ringbuf_init :: "u8 list \<Rightarrow> u8 \<Rightarrow> ringbuf" where
  "ringbuf_init dataptr sz =
     \<lparr>rb_data = dataptr, rb_mask = sz - 1, rb_put = 0, rb_get = 0\<rparr>"

text \<open>1 and 0 of the C code are \<open>True\<close> and \<open>False\<close>.\<close>

definition ringbuf_put :: "ringbuf \<Rightarrow> u8 \<Rightarrow> bool \<times> ringbuf" where
  "ringbuf_put r c =
     (if (rb_put r - rb_get r) AND rb_mask r = rb_mask r then (False, r)
      else (True, r\<lparr>rb_data := (rb_data r)[unat (rb_put r) := c],
                    rb_put := (rb_put r + 1) AND rb_mask r\<rparr>))"

text \<open>The byte, or \<open>-1\<close> when the buffer is empty.\<close>

definition ringbuf_get :: "ringbuf \<Rightarrow> int \<times> ringbuf" where
  "ringbuf_get r =
     (if (rb_put r - rb_get r) AND rb_mask r > 0
      then (uint (rb_data r ! unat (rb_get r)), r\<lparr>rb_get := (rb_get r + 1) AND rb_mask r\<rparr>)
      else (-1, r))"

definition ringbuf_size :: "ringbuf \<Rightarrow> int" where
  "ringbuf_size r = uint (rb_mask r) + 1"

definition ringbuf_elements :: "ringbuf \<Rightarrow> int" where
  "ringbuf_elements r = uint ((rb_put r - rb_get r) AND rb_mask r)"

section \<open>The queue a ring represents\<close>

definition rb_inv :: "ringbuf \<Rightarrow> bool" where
  "rb_inv r \<longleftrightarrow> (\<exists>n \<le> 8. rb_mask r = mask n) \<and> unat (rb_mask r) < length (rb_data r) \<and>
     rb_put r \<le> rb_mask r \<and> rb_get r \<le> rb_mask r"

definition rb_contents :: "ringbuf \<Rightarrow> u8 list" where
  "rb_contents r = map (\<lambda>k. rb_data r ! unat ((rb_get r + of_nat k) AND rb_mask r))
     [0 ..< unat ((rb_put r - rb_get r) AND rb_mask r)]"

lemma unat_and_mask8:
  fixes w :: u8 shows "unat (w AND mask n) = unat w mod 2 ^ n"
proof -
  have "unat (take_bit n w) = take_bit n (unat w)" by (rule unsigned_take_bit_eq)
  then show ?thesis by (simp only: take_bit_eq_mask) (simp flip: take_bit_eq_mask take_bit_eq_mod)
qed

lemma unat_mask8: "n \<le> 8 \<Longrightarrow> unat (mask n :: u8) = 2 ^ n - 1"
proof -
  assume "n \<le> 8"
  then have "n = 0 \<or> n = 1 \<or> n = 2 \<or> n = 3 \<or> n = 4 \<or> n = 5 \<or> n = 6 \<or> n = 7 \<or> n = 8"
    by arith
  then show ?thesis by (elim disjE) (simp_all add: mask_eq_exp_minus_1)
qed

lemma unat_ring_add:
  fixes g :: u8 assumes "n \<le> 8"
  shows "unat ((g + of_nat k) AND mask n) = (unat g + k) mod 2 ^ n"
proof -
  have "unat (g + of_nat k) mod 2 ^ n = (unat g + k) mod 2 ^ 8 mod 2 ^ n"
    by (simp add: unat_word_ariths unat_of_nat mod_simps)
  also have "\<dots> = (unat g + k) mod 2 ^ n"
    using assms by (intro mod_mod_cancel le_imp_power_dvd)
  finally show ?thesis using assms by (simp add: unat_and_mask8)
qed

lemma unat_ring_sub:
  fixes p g :: u8 assumes "n \<le> 8" and "unat g < 2 ^ n"
  shows "unat ((p - g) AND mask n) = (unat p + 2 ^ n - unat g) mod 2 ^ n"
proof -
  have "int (unat (p - g) mod 2 ^ n) = (uint p - uint g) mod 2 ^ 8 mod 2 ^ n"
    by (simp add: zmod_int uint_word_ariths flip: uint_nat)
  also have "\<dots> = (uint p - uint g) mod 2 ^ n"
    using assms(1) by (intro mod_mod_cancel le_imp_power_dvd)
  also have "\<dots> = (uint p + 2 ^ n - uint g) mod 2 ^ n"
    by (metis add_diff_eq diff_add_eq mod_add_self2)
  also have "\<dots> = int ((unat p + 2 ^ n - unat g) mod 2 ^ n)"
    using assms(2) by (simp add: zmod_int of_nat_diff flip: uint_nat)
  finally show ?thesis using assms(1) by (simp add: unat_and_mask8)
qed

text \<open>Positions on a ring of \<open>N\<close> slots.\<close>

lemma ring_distance_cases:
  fixes p g N :: nat
  assumes "p < N" and "g < N"
  shows "(p + N - g) mod N = (if g \<le> p then p - g else p + N - g)"
proof (cases "g \<le> p")
  case True
  then have "p + N - g = (p - g) + N" by simp
  also have "\<dots> mod N = p - g" using assms by simp
  finally show ?thesis using True by simp
qed (use assms in simp)

lemma mod_Suc_wrap: "p < N \<Longrightarrow> (p + 1) mod N = (if p + 1 = N then 0 else p + 1 :: nat)"
  by auto

lemma ring_distance_end:
  fixes p g N :: nat
  assumes "p < N" and "g < N"
  shows "(g + (p + N - g) mod N) mod N = p"
  using assms by (auto simp: ring_distance_cases)

lemma ring_distance_inner:
  fixes p g N :: nat
  assumes "p < N" and "g < N" and "k < (p + N - g) mod N"
  shows "(g + k) mod N \<noteq> p"
proof (cases "g + k < N")
  case True
  then show ?thesis using assms by (auto simp: ring_distance_cases split: if_splits)
next
  case False
  then have "(g + k) mod N = g + k - N"
    using assms by (auto simp: ring_distance_cases le_mod_geq split: if_splits)
  then show ?thesis using False assms by (auto simp: ring_distance_cases split: if_splits)
qed

lemma ring_distance_Suc:
  fixes p g N :: nat
  assumes "p < N" and "g < N" and "(p + N - g) mod N \<noteq> N - 1"
  shows "((p + 1) mod N + N - g) mod N = Suc ((p + N - g) mod N)"
proof -
  have "(p + 1) mod N < N" using assms by simp
  note e = ring_distance_cases [OF this assms(2)] ring_distance_cases [OF assms(1,2)]
  show ?thesis
    using assms unfolding e unfolding mod_Suc_wrap [OF assms(1)] by (auto split: if_splits)
qed

lemma ring_distance_drop:
  fixes p g N :: nat
  assumes "p < N" and "g < N" and "0 < (p + N - g) mod N"
  shows "Suc ((p + N - (g + 1) mod N) mod N) = (p + N - g) mod N"
proof -
  have "(g + 1) mod N < N" using assms by simp
  note e = ring_distance_cases [OF assms(1) this] ring_distance_cases [OF assms(1,2)]
  show ?thesis
    using assms unfolding e unfolding mod_Suc_wrap [OF assms(2)] by (auto split: if_splits)
qed

section \<open>The ring is a bounded queue\<close>

text \<open>The facts of \<open>rb_inv\<close> on natural numbers: \<open>N\<close> slots, of which \<open>mask = N - 1\<close> are usable.\<close>

lemma rb_invE:
  assumes "rb_inv r"
  obtains n where "n \<le> 8" "rb_mask r = mask n" "unat (rb_mask r) = 2 ^ n - 1"
    "unat (rb_put r) < 2 ^ n" "unat (rb_get r) < 2 ^ n" "2 ^ n \<le> length (rb_data r)"
proof -
  from assms obtain n where n: "n \<le> 8" "rb_mask r = mask n" by (auto simp: rb_inv_def)
  have "unat (rb_mask r) = 2 ^ n - 1" using n by (simp add: unat_mask8)
  moreover have "0 < (2::nat) ^ n" by simp
  ultimately show ?thesis
    using that [OF n] assms unfolding rb_inv_def word_le_nat_alt by linarith
qed

lemma and_mask_le_mask:
  fixes w :: u8 shows "n \<le> 8 \<Longrightarrow> w AND mask n \<le> mask n"
  unfolding word_le_nat_alt unat_and_mask8
  using mod_less_divisor [of "2 ^ n" "unat w"] by (simp add: unat_mask8 del: mod_less_divisor)

lemma length_rb_contents: "length (rb_contents r) = unat ((rb_put r - rb_get r) AND rb_mask r)"
  by (simp add: rb_contents_def)

lemma ringbuf_put_law:
  assumes inv: "rb_inv r" and put: "ringbuf_put r c = (ok, t)"
  shows "rb_inv t \<and> unat (rb_mask t) = unat (rb_mask r) \<and>
    ok = (length (rb_contents r) < unat (rb_mask r)) \<and>
    rb_contents t = (if ok then rb_contents r @ [c] else rb_contents r)"
proof -
  from inv obtain n where n: "n \<le> 8" "rb_mask r = mask n" "unat (rb_mask r) = 2 ^ n - 1"
    and p: "unat (rb_put r) < 2 ^ n" and g: "unat (rb_get r) < 2 ^ n"
    and len: "2 ^ n \<le> length (rb_data r)"
    by (rule rb_invE)
  let ?E = "unat ((rb_put r - rb_get r) AND rb_mask r)"
  have E: "?E = (unat (rb_put r) + 2 ^ n - unat (rb_get r)) mod 2 ^ n"
    using n g by (simp add: unat_ring_sub)
  then have "?E < 2 ^ n" by simp
  show ?thesis
  proof (cases "(rb_put r - rb_get r) AND rb_mask r = rb_mask r")
    case True
    with put inv show ?thesis by (auto simp: ringbuf_put_def length_rb_contents)
  next
    case False
    then have ne: "?E \<noteq> 2 ^ n - 1" using n by (metis word_unat_eq_iff)
    with \<open>?E < 2 ^ n\<close> have lt: "?E < 2 ^ n - 1" by linarith
    from False put have ok: "ok" and t: "t = r\<lparr>rb_data := (rb_data r)[unat (rb_put r) := c],
        rb_put := (rb_put r + 1) AND rb_mask r\<rparr>"
      by (auto simp: ringbuf_put_def)
    have put': "unat ((rb_put r + 1) AND mask n) = (unat (rb_put r) + 1) mod 2 ^ n"
      using unat_ring_add [OF n(1), of "rb_put r" 1] by simp
    have E': "unat ((rb_put t - rb_get t) AND rb_mask t) = Suc ?E"
      using ring_distance_Suc [OF p g] ne E n g
      by (simp add: t unat_ring_sub put')
    have idx: "unat ((rb_get r + of_nat k) AND mask n) = (unat (rb_get r) + k) mod 2 ^ n" for k
      by (rule unat_ring_add [OF n(1)])
    have last: "(unat (rb_get r) + ?E) mod 2 ^ n = unat (rb_put r)"
      unfolding E using p g by (rule ring_distance_end)
    have inner: "k < ?E \<Longrightarrow> unat (rb_put r) \<noteq> (unat (rb_get r) + k) mod 2 ^ n" for k
      using ring_distance_inner [OF p g, of k] by (auto simp: E)
    have con: "rb_contents t = rb_contents r @ [c]"
      unfolding rb_contents_def E' using n last inner p len
      by (simp add: t idx nth_list_update)
    have "rb_inv t" using inv n and_mask_le_mask [OF n(1)] by (auto simp: rb_inv_def t)
    with ok con lt n show ?thesis by (simp add: t length_rb_contents)
  qed
qed

text \<open>\<open>ringbuf_get\<close> with the C result \<open>-1\<close> read as "nothing".\<close>

definition ringbuf_take :: "ringbuf \<Rightarrow> u8 option \<times> ringbuf" where
  "ringbuf_take r = (let (v, t) = ringbuf_get r
     in (if v = -1 then None else Some (word_of_int v), t))"

lemma ringbuf_get_law:
  assumes inv: "rb_inv r" and get: "ringbuf_take r = (v, t)"
  shows "rb_inv t \<and> unat (rb_mask t) = unat (rb_mask r) \<and>
    v = (case rb_contents r of [] \<Rightarrow> None | x # xs \<Rightarrow> Some x) \<and>
    rb_contents t = tl (rb_contents r)"
proof -
  from inv obtain n where n: "n \<le> 8" "rb_mask r = mask n" "unat (rb_mask r) = 2 ^ n - 1"
    and p: "unat (rb_put r) < 2 ^ n" and g: "unat (rb_get r) < 2 ^ n"
    and len: "2 ^ n \<le> length (rb_data r)"
    by (rule rb_invE)
  let ?E = "unat ((rb_put r - rb_get r) AND rb_mask r)"
  have E: "?E = (unat (rb_put r) + 2 ^ n - unat (rb_get r)) mod 2 ^ n"
    using n g by (simp add: unat_ring_sub)
  show ?thesis
  proof (cases "0 < ?E")
    case False
    then have "\<not> (rb_put r - rb_get r) AND rb_mask r > 0"
      by (simp add: word_less_nat_alt)
    with False get inv show ?thesis
      by (auto simp: ringbuf_take_def ringbuf_get_def rb_contents_def)
  next
    case True
    then have pos: "(rb_put r - rb_get r) AND rb_mask r > 0" by (simp add: word_less_nat_alt)
    have nn: "uint (w :: u8) \<noteq> -1" for w using uint_ge_0 [of w] by linarith
    from pos get nn have v: "v = Some (rb_data r ! unat (rb_get r))"
      and t: "t = r\<lparr>rb_get := (rb_get r + 1) AND rb_mask r\<rparr>"
      by (auto simp: ringbuf_take_def ringbuf_get_def)
    have get': "unat ((rb_get r + 1) AND mask n) = (unat (rb_get r) + 1) mod 2 ^ n"
      using unat_ring_add [OF n(1), of "rb_get r" 1] by simp
    have E': "Suc (unat ((rb_put t - rb_get t) AND rb_mask t)) = ?E"
      using ring_distance_drop [OF p g] True E n g
      by (simp add: t unat_ring_sub get')
    have idx: "unat ((rb_get r + of_nat k) AND mask n) = (unat (rb_get r) + k) mod 2 ^ n" for k
      by (rule unat_ring_add [OF n(1)])
    have idx': "unat (((rb_get r + 1) AND mask n) + of_nat k AND mask n) =
        (unat (rb_get r) + Suc k) mod 2 ^ n" for k
      by (simp add: unat_ring_add [OF n(1)] get' mod_simps)
    have "rb_contents r = rb_data r ! unat (rb_get r) # rb_contents t"
      unfolding rb_contents_def E' [symmetric] using n g
      by (simp add: t idx idx' upt_conv_Cons o_def del: upt_Suc of_nat_Suc flip: map_Suc_upt)
    moreover have "rb_inv t" using inv n and_mask_le_mask [OF n(1)] by (auto simp: rb_inv_def t)
    ultimately show ?thesis by (simp add: v t)
  qed
qed

lemma rb_bound: "rb_inv r \<Longrightarrow> length (rb_contents r) \<le> unat (rb_mask r)"
  by (metis length_rb_contents word_and_le1 word_le_nat_alt)

interpretation byte_ring: fifo rb_inv rb_contents "\<lambda>r. unat (rb_mask r)" ringbuf_put ringbuf_take
  using ringbuf_put_law ringbuf_get_law rb_bound by unfold_locales blast+

lemma ringbuf_init_inv:
  assumes "n \<le> 7" and "2 ^ n \<le> length d"
  shows "rb_inv (ringbuf_init d (2 ^ n))" and "rb_contents (ringbuf_init d (2 ^ n)) = []"
    and "unat (rb_mask (ringbuf_init d (2 ^ n))) = 2 ^ n - 1"
proof -
  have m: "(2 ^ n - 1 :: u8) = mask n" by (simp add: mask_eq_exp_minus_1)
  show "unat (rb_mask (ringbuf_init d (2 ^ n))) = 2 ^ n - 1"
    using assms by (simp add: ringbuf_init_def m unat_mask8)
  have "0 < (2::nat) ^ n" by simp
  then have "n \<le> 8" "2 ^ n - 1 < length d" using assms by linarith+
  then show "rb_inv (ringbuf_init d (2 ^ n))"
    unfolding rb_inv_def ringbuf_init_def m by (auto simp: unat_mask8)
  show "rb_contents (ringbuf_init d (2 ^ n)) = []"
    by (simp add: rb_contents_def ringbuf_init_def)
qed

section \<open>Properties\<close>

text \<open>
  A ring initialised with a power-of-two size delivers, under every interleaving of
  \<open>ringbuf_put\<close> and \<open>ringbuf_get\<close>, exactly the accepted bytes in the order they were accepted;
  the bytes not yet delivered are the ring's contents, \<open>ringbuf_elements\<close> of them and never more
  than \<open>size - 1\<close>.
\<close>

theorem ringbuf_run_fifo:
  assumes "n \<le> 7" and "2 ^ n \<le> length d"
    and "queue_run ringbuf_put ringbuf_take (ringbuf_init d (2 ^ n)) ops = (t, acc, del)"
  shows "acc = del @ rb_contents t \<and> ringbuf_elements t = int (length (rb_contents t)) \<and>
    length (rb_contents t) \<le> 2 ^ n - 1"
  using byte_ring.run_prefix [OF ringbuf_init_inv(1,2) assms(3)] ringbuf_init_inv(3) assms(1,2)
  by (simp add: ringbuf_elements_def length_rb_contents)

theorem ringbuf_run_fifo_witness:
  "queue_run ringbuf_put ringbuf_take (ringbuf_init [0, 0] (2 ^ 1)) [Put 7, Put 8, Get, Put 9] =
     (\<lparr>rb_data = [7, 9], rb_mask = 1, rb_put = 0, rb_get = 1\<rparr>, [7, 9], [7]) \<and>
   rb_contents \<lparr>rb_data = [7, 9], rb_mask = 1, rb_put = 0, rb_get = 1\<rparr> = [9]"
proof -
  let ?t = "\<lparr>rb_data = [7, 9], rb_mask = 1, rb_put = 0, rb_get = 1\<rparr> :: ringbuf"
  have run: "queue_run ringbuf_put ringbuf_take (ringbuf_init [0, 0] (2 ^ 1))
      [Put 7, Put 8, Get, Put 9] = (?t, [7, 9], [7])"
    by (simp add: ringbuf_init_def ringbuf_put_def ringbuf_take_def ringbuf_get_def)
  from ringbuf_run_fifo [OF _ _ this] run show ?thesis by simp
qed

end
