(* ===== verification/Memb.thy ===== *)
theory Memb
  imports Interfaces
begin

text \<open>
  The block allocator (\<open>core/lib/memb.c\<close>): \<open>mb_num\<close> blocks of \<open>mb_size\<close> bytes starting
  at address \<open>mb_mem\<close>, with one reference count per block. Block pointers are the addresses
  \<open>mem + i * size\<close>. \<open>mb_data\<close> holds the bytes of the pool.
\<close>

record memb =
  mb_size :: nat
  mb_num :: nat
  mb_count :: "u8 list"
  mb_mem :: ptr
  mb_data :: "u8 list"

definition memb_init :: "memb \<Rightarrow> memb" where
  "memb_init m = m\<lparr>mb_count := replicate (mb_num m) 0,
     mb_data := replicate (mb_size m * mb_num m) 0\<rparr>"

function memb_alloc_loop :: "memb \<Rightarrow> nat \<Rightarrow> ptr \<times> memb" where
  "memb_alloc_loop m i =
     (if i < mb_num m then
        (if mb_count m ! i = 0
         then (mb_mem m + i * mb_size m, m\<lparr>mb_count := (mb_count m)[i := mb_count m ! i + 1]\<rparr>)
         else memb_alloc_loop m (Suc i))
      else (NULL, m))"
  by pat_completeness auto
termination by (relation "measure (\<lambda>(m, i). mb_num m - i)") auto

definition memb_alloc :: "memb \<Rightarrow> ptr \<times> memb" where
  "memb_alloc m = memb_alloc_loop m 0"

text \<open>The result is a \<open>char\<close>: the new reference count, or \<open>-1\<close> for a foreign pointer.\<close>

function memb_free_loop :: "memb \<Rightarrow> ptr \<Rightarrow> nat \<Rightarrow> ptr \<Rightarrow> u8 \<times> memb" where
  "memb_free_loop m p i p2 =
     (if i < mb_num m then
        (if p2 = p
         then (let m1 = (if mb_count m ! i > 0
                         then m\<lparr>mb_count := (mb_count m)[i := mb_count m ! i - 1]\<rparr> else m)
               in (mb_count m1 ! i, m1))
         else memb_free_loop m p (Suc i) (p2 + mb_size m))
      else (-1, m))"
  by pat_completeness auto
termination by (relation "measure (\<lambda>(m, p, i, p2). mb_num m - i)") auto

definition memb_free :: "memb \<Rightarrow> ptr \<Rightarrow> u8 \<times> memb" where
  "memb_free m p = memb_free_loop m p 0 (mb_mem m)"

definition memb_inmemb :: "memb \<Rightarrow> ptr \<Rightarrow> bool" where
  "memb_inmemb m p \<longleftrightarrow> mb_mem m \<le> p \<and> p < mb_mem m + mb_num m * mb_size m"

declare memb_alloc_loop.simps [simp del] memb_free_loop.simps [simp del]

section \<open>Invariant and abstraction\<close>

definition memb_wf :: "memb \<Rightarrow> bool" where
  "memb_wf m \<longleftrightarrow> length (mb_count m) = mb_num m \<and> 0 < mb_size m \<and> mb_mem m \<noteq> NULL \<and>
     (\<forall>i < mb_num m. mb_count m ! i \<le> 1)"

abbreviation block :: "memb \<Rightarrow> nat \<Rightarrow> ptr" where
  "block m i \<equiv> mb_mem m + i * mb_size m"

definition memb_blocks :: "memb \<Rightarrow> ptr set" where
  "memb_blocks m = block m ` {i. i < mb_num m}"

definition memb_used :: "memb \<Rightarrow> ptr set" where
  "memb_used m = block m ` {i. i < mb_num m \<and> mb_count m ! i \<noteq> 0}"

lemma block_inj: "0 < mb_size m \<Longrightarrow> block m i = block m j \<longleftrightarrow> i = j"
  by simp

lemma word8_le_1: "(w :: u8) \<le> 1 \<longleftrightarrow> w = 0 \<or> w = 1"
  by (metis word_coorder.extremum word_gt_0_no word_le_less_eq word_not_simps(1) less_one unat_1
      word_less_nat_alt unat_0 word_neq_0_conv le_less word_less_1 order_refl)

lemma memb_alloc_loop_result:
  assumes "memb_alloc_loop m i = (p, t)" and "\<forall>j < i. mb_count m ! j \<noteq> 0" and "i \<le> mb_num m"
  shows "(p = NULL \<and> t = m \<and> (\<forall>j < mb_num m. mb_count m ! j \<noteq> 0)) \<or>
    (\<exists>k < mb_num m. mb_count m ! k = 0 \<and> (\<forall>j < k. mb_count m ! j \<noteq> 0) \<and> p = block m k \<and>
       t = m\<lparr>mb_count := (mb_count m)[k := 1]\<rparr>)"
  using assms
proof (induction m i rule: memb_alloc_loop.induct)
  case (1 m i)
  show ?case
  proof (cases "i < mb_num m \<and> mb_count m ! i \<noteq> 0")
    case True
    with "1.IH" "1.prems" show ?thesis
      by (simp add: memb_alloc_loop.simps [of m i] less_Suc_eq)
  next
    case False
    with "1.prems" show ?thesis
      by (auto simp: memb_alloc_loop.simps [of m i] split: if_splits)
  qed
qed

lemma memb_free_loop_result:
  assumes "memb_free_loop m p i p2 = (v, t)" and "p2 = block m i" and "memb_wf m"
    and "\<forall>j < i. p \<noteq> block m j"
  shows "(v = -1 \<and> t = m \<and> p \<notin> memb_blocks m) \<or>
    (\<exists>k < mb_num m. p = block m k \<and> v = 0 \<and> t = m\<lparr>mb_count := (mb_count m)[k := 0]\<rparr>)"
  using assms
proof (induction m p i p2 rule: memb_free_loop.induct)
  case (1 m p i p2)
  have size0: "0 < mb_size m" and len: "length (mb_count m) = mb_num m"
    using "1.prems" by (auto simp: memb_wf_def)
  consider "\<not> i < mb_num m" | "i < mb_num m" "p2 \<noteq> p" | "i < mb_num m" "p2 = p" by blast
  then show ?case
  proof cases
    case 1
    have "p \<notin> memb_blocks m"
    proof
      assume "p \<in> memb_blocks m"
      then obtain k where "k < mb_num m" "p = block m k" by (auto simp: memb_blocks_def)
      moreover from this 1 have "k < i" by simp
      ultimately show False using "1.prems"(4) by blast
    qed
    with 1 "1.prems" show ?thesis
      by (auto simp: memb_free_loop.simps [of m p i "block m i"])
  next
    case 2
    with "1.IH" "1.prems" show ?thesis
      by (auto simp: memb_free_loop.simps [of m p i "block m i"] less_Suc_eq)
  next
    case 3
    have "mb_count m ! i = 0 \<or> mb_count m ! i = 1"
      using "1.prems" 3 word8_le_1 by (auto simp: memb_wf_def)
    moreover have "mb_count m ! i = 0 \<Longrightarrow> m\<lparr>mb_count := (mb_count m)[i := 0]\<rparr> = m"
      by (metis list_update_id memb.surjective memb.update_convs(3))
    ultimately show ?thesis
      using "1.prems" 3 len by (auto simp: memb_free_loop.simps [of m "block m i" i "block m i"] Let_def)
  qed
qed

lemma memb_alloc_cases:
  assumes "memb_wf m" and "memb_alloc m = (p, t)"
  obtains (full) "p = NULL" "t = m" "memb_used m = memb_blocks m"
  | (got) k where "k < mb_num m" "mb_count m ! k = 0" "\<forall>j < k. mb_count m ! j \<noteq> 0"
      "p = block m k" "t = m\<lparr>mb_count := (mb_count m)[k := 1]\<rparr>"
  using memb_alloc_loop_result [of m 0 p t] assms
  by (auto simp: memb_alloc_def memb_used_def memb_blocks_def)

lemma memb_used_upd:
  assumes "memb_wf m" and "k < mb_num m"
  shows "memb_used (m\<lparr>mb_count := (mb_count m)[k := 1]\<rparr>) = insert (block m k) (memb_used m)"
    and "memb_used (m\<lparr>mb_count := (mb_count m)[k := 0]\<rparr>) = memb_used m - {block m k}"
  using assms by (auto simp: memb_used_def memb_wf_def nth_list_update block_inj)

lemma memb_wf_upd: "memb_wf m \<Longrightarrow> c \<le> 1 \<Longrightarrow> memb_wf (m\<lparr>mb_count := (mb_count m)[k := c]\<rparr>)"
  by (auto simp: memb_wf_def nth_list_update_if)

lemma memb_alloc_law:
  assumes wf: "memb_wf m" and al: "memb_alloc m = (p, t)"
  shows "memb_wf t \<and> memb_blocks t = memb_blocks m \<and>
    (if memb_used m = memb_blocks m then p = NULL \<and> memb_used t = memb_used m
     else p \<in> memb_blocks m \<and> p \<notin> memb_used m \<and> memb_used t = insert p (memb_used m))"
  using wf al
proof (cases rule: memb_alloc_cases)
  case full
  with wf show ?thesis by simp
next
  case (got k)
  have "memb_blocks t = memb_blocks m" by (simp add: got memb_blocks_def)
  moreover have "p \<in> memb_blocks m" and "p \<notin> memb_used m"
    using got wf by (auto simp: memb_blocks_def memb_used_def memb_wf_def block_inj)
  ultimately show ?thesis
    using got wf memb_used_upd(1) [OF wf got(1)] memb_wf_upd [OF wf, of 1 k] by auto
qed

lemma memb_free_law:
  assumes wf: "memb_wf m"
  shows "memb_wf (snd (memb_free m p)) \<and> memb_blocks (snd (memb_free m p)) = memb_blocks m \<and>
    memb_used (snd (memb_free m p)) = memb_used m - {p}"
proof -
  obtain v t where f: "memb_free m p = (v, t)" by (cases "memb_free m p")
  from memb_free_loop_result [of m p 0 "mb_mem m" v t] f wf
  consider "t = m" "p \<notin> memb_blocks m"
    | k where "k < mb_num m" "p = block m k" "t = m\<lparr>mb_count := (mb_count m)[k := 0]\<rparr>"
    by (auto simp: memb_free_def)
  then show ?thesis
  proof cases
    case 1
    then show ?thesis using f wf by (auto simp: memb_blocks_def memb_used_def)
  next
    case 2
    then show ?thesis
      using f memb_used_upd(2) [OF wf 2(1)] memb_wf_upd [OF wf, of 0 k]
      by (simp add: memb_blocks_def)
  qed
qed

interpretation memb_pool: block_pool memb_wf memb_used memb_blocks memb_alloc
  "\<lambda>m p. snd (memb_free m p)"
proof
  fix m p t assume wf: "memb_wf m"
  show "memb_used m \<subseteq> memb_blocks m" by (auto simp: memb_used_def memb_blocks_def)
  show "finite (memb_blocks m)" by (simp add: memb_blocks_def)
  show "NULL \<notin> memb_blocks m" using wf by (auto simp: memb_blocks_def memb_wf_def)
  show "memb_wf (snd (memb_free m p)) \<and> memb_blocks (snd (memb_free m p)) = memb_blocks m \<and>
      memb_used (snd (memb_free m p)) = memb_used m - {p}"
    using wf by (rule memb_free_law)
  assume "memb_alloc m = (p, t)"
  then show "memb_wf t \<and> memb_blocks t = memb_blocks m \<and>
      (if memb_used m = memb_blocks m then p = NULL \<and> memb_used t = memb_used m
       else p \<in> memb_blocks m \<and> p \<notin> memb_used m \<and> memb_used t = insert p (memb_used m))"
    by (rule memb_alloc_law [OF wf])
qed

lemma memb_init_wf:
  assumes "0 < mb_size m" and "mb_mem m \<noteq> NULL"
  shows "memb_wf (memb_init m)" and "memb_used (memb_init m) = {}"
  using assms by (auto simp: memb_init_def memb_wf_def memb_used_def)

lemma card_memb_blocks: "memb_wf m \<Longrightarrow> card (memb_blocks m) = mb_num m"
  unfolding memb_blocks_def by (subst card_image) (auto simp: inj_on_def memb_wf_def)

section \<open>Properties\<close>

text \<open>The state a run of allocations and frees leaves, and the blocks the client holds.\<close>

definition memb_run :: "memb \<Rightarrow> pool_op list \<Rightarrow> memb \<times> ptr set" where
  "memb_run m ops = pool_run memb_alloc (\<lambda>s p. snd (memb_free s p)) (memb_init m) {} ops"

text \<open>
  C39. Whatever sequence of \<open>memb_alloc\<close> and \<open>memb_free\<close> calls a client makes on an initialised
  pool (foreign and repeated frees included), the blocks marked in use are exactly those it was
  handed and has not returned, and the next \<open>memb_alloc\<close> fails exactly when all \<open>num\<close> blocks are
  held and otherwise returns a block of the pool that nobody holds.
\<close>

theorem memb_run_exclusive:
  assumes "0 < mb_size m" and "mb_mem m \<noteq> NULL"
    and "memb_run m ops = (t, held)" and "memb_alloc t = (p, u)"
  shows "memb_used t = held \<and> (p = NULL \<longleftrightarrow> card held = mb_num m) \<and>
    (p \<noteq> NULL \<longrightarrow> memb_inmemb t p \<and> p \<notin> held)"
proof -
  note init = memb_init_wf [OF assms(1,2)]
  have run: "memb_wf t" "memb_blocks t = memb_blocks (memb_init m)" "memb_used t = held"
    using memb_pool.run_used [OF init(1)] assms(3) init(2) by (auto simp: memb_run_def)
  have "card (memb_blocks t) = mb_num m"
    unfolding run(2) using card_memb_blocks [OF init(1)] by (simp add: memb_init_def)
  with memb_pool.alloc_fails_iff [OF run(1) assms(4)] have "p = NULL \<longleftrightarrow> card held = mb_num m"
    by (simp add: run(3))
  moreover have "p \<noteq> NULL \<Longrightarrow> p \<in> memb_blocks t \<and> p \<notin> held"
    using memb_pool.alloc_law [OF run(1) assms(4)] run(3) by (auto split: if_splits)
  moreover have "memb_inmemb t p" if "p \<in> memb_blocks t"
    using that run(1) by (auto simp: memb_blocks_def memb_inmemb_def memb_wf_def)
  ultimately show ?thesis using run(3) by blast
qed

abbreviation pool2 :: memb where
  "pool2 \<equiv> \<lparr>mb_size = 4, mb_num = 2, mb_count = [], mb_mem = 100, mb_data = []\<rparr>"

theorem memb_run_exclusive_witness:
  "memb_run pool2 [Alloc, Alloc, Free 100] =
     (\<lparr>mb_size = 4, mb_num = 2, mb_count = [0, 1], mb_mem = 100, mb_data = replicate 8 0\<rparr>, {104})
   \<and> memb_used (fst (memb_run pool2 [Alloc, Alloc, Free 100])) = {104}"
proof -
  let ?t = "\<lparr>mb_size = 4, mb_num = 2, mb_count = [0, 1], mb_mem = 100, mb_data = replicate 8 0\<rparr>"
  have run: "memb_run pool2 [Alloc, Alloc, Free 100] = (?t, {104})"
    by (simp add: memb_run_def memb_init_def memb_alloc_def memb_alloc_loop.simps memb_free_def
        memb_free_loop.simps insert_Diff_if numeral_2_eq_2)
  obtain p u where "memb_alloc ?t = (p, u)" by (cases "memb_alloc ?t")
  from memb_run_exclusive [OF _ _ run this] run show ?thesis by simp
qed

end
