(* ===== verification/Timers.thy ===== *)
theory Timers
  imports Prelude
begin

text \<open>
  The two passive timer libraries, \<open>core/sys/timer.c\<close> (ticks) and \<open>core/sys/stimer.c\<close>
  (seconds). Times are 32-bit and wrap around; the current time (\<open>clock_time()\<close>,
  \<open>clock_seconds()\<close>) is the argument \<open>now\<close>. Both provide the contract of the locale
  \<open>timer_service\<close>, within the window in which wrapped differences can be told apart.
\<close>

record timer =
  tm_start :: u32
  tm_interval :: u32

section \<open>\<open>timer.c\<close>\<close>

definition timer_set :: "u32 \<Rightarrow> timer \<Rightarrow> u32 \<Rightarrow> timer" where
  "timer_set now t interval = t\<lparr>tm_interval := interval, tm_start := now\<rparr>"

definition timer_reset :: "timer \<Rightarrow> timer" where
  "timer_reset t = t\<lparr>tm_start := tm_start t + tm_interval t\<rparr>"

definition timer_restart :: "u32 \<Rightarrow> timer \<Rightarrow> timer" where
  "timer_restart now t = t\<lparr>tm_start := now\<rparr>"

definition timer_expired :: "u32 \<Rightarrow> timer \<Rightarrow> bool" where
  "timer_expired now t \<longleftrightarrow> (let diff = (now - tm_start t) + 1 in tm_interval t < diff)"

definition timer_remaining :: "u32 \<Rightarrow> timer \<Rightarrow> u32" where
  "timer_remaining now t = tm_start t + tm_interval t - now"

section \<open>\<open>stimer.c\<close>\<close>

text \<open>The \<open>struct stimer\<close> has the same two fields, \<open>unsigned long\<close>.\<close>

definition SCLOCK_GEQ :: "u32 \<Rightarrow> u32 \<Rightarrow> bool" where
  "SCLOCK_GEQ a b \<longleftrightarrow> a - b < drop_bit 1 (NOT 0)"

definition stimer_set :: "u32 \<Rightarrow> timer \<Rightarrow> u32 \<Rightarrow> timer" where
  "stimer_set now t interval = t\<lparr>tm_interval := interval, tm_start := now\<rparr>"

definition stimer_reset :: "timer \<Rightarrow> timer" where
  "stimer_reset t = t\<lparr>tm_start := tm_start t + tm_interval t\<rparr>"

definition stimer_restart :: "u32 \<Rightarrow> timer \<Rightarrow> timer" where
  "stimer_restart now t = t\<lparr>tm_start := now\<rparr>"

definition stimer_expired :: "u32 \<Rightarrow> timer \<Rightarrow> bool" where
  "stimer_expired now t \<longleftrightarrow> SCLOCK_GEQ now (tm_start t + tm_interval t)"

definition stimer_remaining :: "u32 \<Rightarrow> timer \<Rightarrow> u32" where
  "stimer_remaining now t = tm_start t + tm_interval t - now"

definition stimer_elapsed :: "u32 \<Rightarrow> timer \<Rightarrow> u32" where
  "stimer_elapsed now t = now - tm_start t"

lemmas timer_ops = timer_set_def timer_reset_def timer_restart_def timer_remaining_def
  stimer_set_def stimer_reset_def stimer_restart_def stimer_remaining_def stimer_elapsed_def

section \<open>The contract\<close>

text \<open>
  \<open>start + k\<close> is the time \<open>k\<close> ticks after the timer's start, on the wrapped clock. Within
  \<open>window\<close> ticks, and for intervals up to \<open>window\<close>, "expired" means that the interval has passed.
\<close>

locale timer_service =
  fixes tset :: "u32 \<Rightarrow> timer \<Rightarrow> u32 \<Rightarrow> timer"
    and reset :: "timer \<Rightarrow> timer"
    and restart :: "u32 \<Rightarrow> timer \<Rightarrow> timer"
    and expired :: "u32 \<Rightarrow> timer \<Rightarrow> bool"
    and remaining :: "u32 \<Rightarrow> timer \<Rightarrow> u32"
    and window :: nat
  assumes window32: "window < 2 ^ 32"
    and tset_law: "tm_start (tset now t i) = now \<and> tm_interval (tset now t i) = i"
    and reset_law: "tm_start (reset t) = tm_start t + tm_interval t \<and>
      tm_interval (reset t) = tm_interval t"
    and restart_law: "tm_start (restart now t) = now \<and> tm_interval (restart now t) = tm_interval t"
    and expired_law: "k \<le> window \<Longrightarrow> unat (tm_interval t) \<le> window \<Longrightarrow>
      expired (tm_start t + of_nat k) t \<longleftrightarrow> unat (tm_interval t) \<le> k"
    and remaining_law: "remaining now t = tm_start t + tm_interval t - now"
begin

lemma set_expires:
  assumes "k \<le> window" and "unat i \<le> window"
  shows "expired (now + of_nat k) (tset now t i) \<longleftrightarrow> unat i \<le> k"
  using expired_law [of k "tset now t i"] tset_law [of now t i] assms by simp

text \<open>Waiting for the remaining time is exactly long enough.\<close>

lemma remaining_exact:
  assumes "k \<le> unat (tm_interval t)" and "unat (tm_interval t) \<le> window"
  shows "unat (remaining (tm_start t + of_nat k) t) = unat (tm_interval t) - k"
    and "expired ((tm_start t + of_nat k) + remaining (tm_start t + of_nat k) t) t"
proof -
  have k32: "k < 2 ^ 32" using assms window32 by linarith
  then have uk: "unat (of_nat k :: u32) = k" by (simp add: unat_of_nat_u32)
  have r: "remaining (tm_start t + of_nat k) t = tm_interval t - of_nat k"
    by (simp add: remaining_law)
  show "unat (remaining (tm_start t + of_nat k) t) = unat (tm_interval t) - k"
    unfolding r using assms(1) uk by (simp add: unat_sub word_le_nat_alt)
  show "expired ((tm_start t + of_nat k) + remaining (tm_start t + of_nat k) t) t"
    using expired_law [of "unat (tm_interval t)" t] assms(2) by (simp add: r)
qed

text \<open>Resetting keeps the period: after \<open>n\<close> resets the timer starts \<open>n\<close> intervals later.\<close>

lemma reset_period:
  "tm_start ((reset ^^ n) t) = tm_start t + of_nat n * tm_interval t \<and>
   tm_interval ((reset ^^ n) t) = tm_interval t"
  by (induction n) (auto simp: reset_law algebra_simps)

end

lemma timer_expired_law:
  assumes "k \<le> 2 ^ 31 - 2" and "unat (tm_interval t) \<le> 2 ^ 31 - 2"
  shows "timer_expired (tm_start t + of_nat k) t \<longleftrightarrow> unat (tm_interval t) \<le> k"
proof -
  have "unat (of_nat (Suc k) :: u32) = Suc k"
    using assms(1) by (intro unat_of_nat_u32) simp
  then have "unat (of_nat k + 1 :: u32) = Suc k" by (simp add: add.commute)
  then show ?thesis by (simp add: timer_expired_def Let_def word_less_nat_alt less_Suc_eq_le)
qed

lemma stimer_expired_law:
  assumes "k \<le> 2 ^ 31 - 2" and "unat (tm_interval t) \<le> 2 ^ 31 - 2"
  shows "stimer_expired (tm_start t + of_nat k) t \<longleftrightarrow> unat (tm_interval t) \<le> k"
proof -
  let ?i = "tm_interval t"
  have uk: "unat (of_nat k :: u32) = k" using assms(1) by (simp add: unat_of_nat_u32)
  have half: "unat (mask 31 :: u32) = 2 ^ 31 - 1" by (simp add: mask_eq_exp_minus_1)
  have "stimer_expired (tm_start t + of_nat k) t \<longleftrightarrow> unat (of_nat k - ?i) < 2 ^ 31 - 1"
    by (simp add: stimer_expired_def SCLOCK_GEQ_def word_less_nat_alt half)
  also have "\<dots> \<longleftrightarrow> unat ?i \<le> k"
    using assms unat_lt_2p [of ?i] by (auto simp: unat_sub_if_size word_size uk)
  finally show ?thesis .
qed

interpretation tick: timer_service timer_set timer_reset timer_restart timer_expired
  timer_remaining "2 ^ 31 - 2"
  by unfold_locales (use timer_expired_law in \<open>simp_all add: timer_ops\<close>)

interpretation second: timer_service stimer_set stimer_reset stimer_restart stimer_expired
  stimer_remaining "2 ^ 31 - 2"
  by unfold_locales (use stimer_expired_law in \<open>simp_all add: timer_ops\<close>)

section \<open>Properties\<close>

text \<open>
  The tick timer: set at \<open>now\<close> with interval \<open>i\<close>, it is reported expired \<open>k\<close> ticks later
  exactly when \<open>k\<close> has reached \<open>i\<close>, however the 32-bit clock wraps in between; waiting for
  \<open>timer_remaining\<close> is exactly long enough; and after \<open>n\<close> calls of \<open>timer_reset\<close> the start is \<open>n\<close>
  intervals after the first, so a periodic timer does not drift.
\<close>

theorem timer_service_correct:
  assumes "unat i \<le> 2 ^ 31 - 2" and "k \<le> 2 ^ 31 - 2"
  shows "(timer_expired (now + of_nat k) (timer_set now t i) \<longleftrightarrow> unat i \<le> k) \<and>
    (k \<le> unat i \<longrightarrow>
      unat (timer_remaining (now + of_nat k) (timer_set now t i)) = unat i - k) \<and>
    tm_start ((timer_reset ^^ n) (timer_set now t i)) = now + of_nat n * i"
  using tick.set_expires [OF assms(2,1), of now t]
    tick.remaining_exact(1) [of k "timer_set now t i"]
    tick.reset_period [of n "timer_set now t i"] tick.tset_law [of now t i] assms
  by simp

theorem timer_service_correct_witness:
  "timer_expired (4294967290 + of_nat 10) (timer_set 4294967290 \<lparr>tm_start = 0, tm_interval = 0\<rparr> 10)
   \<and> \<not> timer_expired (4294967290 + of_nat 9)
        (timer_set 4294967290 \<lparr>tm_start = 0, tm_interval = 0\<rparr> 10)"
  using timer_service_correct [of 10 10 4294967290 "\<lparr>tm_start = 0, tm_interval = 0\<rparr>"]
    timer_service_correct [of 10 9 4294967290 "\<lparr>tm_start = 0, tm_interval = 0\<rparr>"]
  by simp

text \<open>
  The \<open>+ 1\<close> that works around a compiler error makes \<open>timer_expired\<close> miss one tick in every
  wrap: exactly one tick before the clock returns to the start time, every timer (even one with
  interval 0) is reported as not expired.
\<close>

theorem timer_expired_blind_tick:
  "\<not> timer_expired (tm_start t - 1) t \<and>
   (now \<noteq> tm_start t - 1 \<longrightarrow>
      (timer_expired now t \<longleftrightarrow> unat (tm_interval t) \<le> unat (now - tm_start t)))"
proof -
  have "\<not> timer_expired (tm_start t - 1) t" by (simp add: timer_expired_def)
  moreover have "timer_expired now t \<longleftrightarrow> unat (tm_interval t) \<le> unat (now - tm_start t)"
    if "now \<noteq> tm_start t - 1"
  proof -
    have "1 + (now - tm_start t) \<noteq> 0" using that by (simp add: add_eq_0_iff diff_eq_eq)
    then have "unat ((now - tm_start t) + 1) = Suc (unat (now - tm_start t))"
      by (simp add: unatSuc add.commute [of _ 1])
    then show ?thesis by (simp add: timer_expired_def Let_def word_less_nat_alt less_Suc_eq_le)
  qed
  ultimately show ?thesis by blast
qed

theorem timer_expired_blind_tick_witness:
  "\<not> timer_expired 99 \<lparr>tm_start = 100, tm_interval = 0\<rparr> \<and>
   timer_expired 100 \<lparr>tm_start = 100, tm_interval = 0\<rparr>"
  using timer_expired_blind_tick [of "\<lparr>tm_start = 100, tm_interval = 0\<rparr>" 100] by simp

text \<open>
  The seconds timer keeps the same contract in the same window; \<open>stimer_elapsed\<close> is the time
  since the start. Outside the window the signed-style comparison gives up: \<open>2 ^ 31 - 1\<close> seconds
  after the expiration time the timer counts as not expired again.
\<close>

theorem stimer_service_correct:
  assumes "unat i \<le> 2 ^ 31 - 2" and "k \<le> 2 ^ 31 - 2"
  shows "(stimer_expired (now + of_nat k) (stimer_set now t i) \<longleftrightarrow> unat i \<le> k) \<and>
    unat (stimer_elapsed (now + of_nat k) (stimer_set now t i)) = k \<and>
    \<not> stimer_expired (now + i + (2 ^ 31 - 1)) (stimer_set now t i)"
proof -
  have "unat (of_nat k :: u32) = k" using assms(2) by (simp add: unat_of_nat_u32)
  then show ?thesis
    using second.set_expires [OF assms(2,1), of now t]
    by (simp add: stimer_elapsed_def stimer_set_def stimer_expired_def SCLOCK_GEQ_def
        mask_eq_exp_minus_1)
qed

theorem stimer_service_correct_witness:
  "stimer_expired (4294967290 + of_nat 10) (stimer_set 4294967290 \<lparr>tm_start = 0, tm_interval = 0\<rparr> 10)"
  using stimer_service_correct [of 10 10 4294967290 "\<lparr>tm_start = 0, tm_interval = 0\<rparr>"] by simp

end
