(* ===== verification/Crc16.thy ===== *)
theory Crc16
  imports Prelude
begin

text \<open>
  The CRC of \<open>core/lib/crc16.c\<close>. The C expression works on \<open>unsigned short\<close> with the integer
  promotions; every intermediate value is assigned back to 16 bits, and right shifts only see
  16-bit values, so 16-bit words model it exactly. The theory relates the table-free shortcut
  to the shift register of the polynomial it implements, and derives what the checksum detects.
\<close>

definition crc16_add :: "u8 \<Rightarrow> u16 \<Rightarrow> u16" where
  "crc16_add b acc =
     (let acc = acc XOR ucast b;
          acc = drop_bit 8 acc OR push_bit 8 acc;
          acc = acc XOR push_bit 4 (acc AND 0xff00);
          acc = acc XOR drop_bit 4 (drop_bit 8 acc);
          acc = acc XOR drop_bit 5 (acc AND 0xff00)
      in acc)"

fun crc16_data :: "u8 list \<Rightarrow> u16 \<Rightarrow> u16" where
  "crc16_data [] acc = acc"
| "crc16_data (x # xs) acc = crc16_data xs (crc16_add x acc)"

section \<open>The reference: a bit-serial shift register\<close>

text \<open>
  One step of the shift register of \<open>x^16 + x^12 + x^5 + 1\<close> with the least significant bit
  first: shift right, and subtract the (reflected) polynomial when a bit falls out. A byte is
  added at the low end and followed by eight steps.
\<close>

definition crc_shift :: "u16 \<Rightarrow> u16" where
  "crc_shift a = (if bit a 0 then drop_bit 1 a XOR 0x8408 else drop_bit 1 a)"

definition crc_byte :: "u8 \<Rightarrow> u16 \<Rightarrow> u16" where
  "crc_byte b acc = (crc_shift ^^ 8) (acc XOR ucast b)"

section \<open>Linearity\<close>

definition linear16 :: "(u16 \<Rightarrow> u16) \<Rightarrow> bool" where
  "linear16 f \<longleftrightarrow> (\<forall>a b. f (a XOR b) = f a XOR f b)"

lemma linear16_0: "linear16 f \<Longrightarrow> f 0 = 0"
  unfolding linear16_def by (metis xor_self_eq)

lemma linear16_comp: "linear16 f \<Longrightarrow> linear16 g \<Longrightarrow> linear16 (\<lambda>x. f (g x))"
  by (simp add: linear16_def)

lemma linear16_funpow: "linear16 f \<Longrightarrow> linear16 (f ^^ n)"
  by (induction n) (auto simp: linear16_def)

lemma take_bit_Suc_xor:
  "take_bit (Suc n) (a :: u16) = take_bit n a XOR (if bit a n then push_bit n 1 else 0)"
  by (rule bit_word_eqI) (auto simp: bit_simps less_Suc_eq)

text \<open>Linear maps that agree on the sixteen single-bit words are equal.\<close>

lemma linear16_ext:
  assumes "linear16 f" and "linear16 g" and "\<forall>n < 16. f (push_bit n 1) = g (push_bit n 1)"
  shows "f a = g a"
proof -
  have "f (take_bit n a) = g (take_bit n a)" if "n \<le> 16" for n
    using that
  proof (induction n)
    case 0
    then show ?case using assms by (simp add: linear16_0)
  next
    case (Suc n)
    then have IH: "f (take_bit n a) = g (take_bit n a)" and n: "n < 16" by simp_all
    have "f (take_bit n a XOR x) = f (take_bit n a) XOR f x"
      "g (take_bit n a XOR x) = g (take_bit n a) XOR g x" for x
      using assms(1,2) by (auto simp: linear16_def)
    moreover have "f (push_bit n 1) = g (push_bit n 1)" using assms(3) n by blast
    moreover have "f 0 = g 0" using assms(1,2) by (simp add: linear16_0)
    ultimately show ?case using IH by (simp add: take_bit_Suc_xor del: push_bit_of_1)
  qed
  from this [of 16] have "f (take_bit 16 a) = g (take_bit 16 a)" by simp
  moreover have "take_bit 16 a = a" by (rule bit_word_eqI) (simp add: bit_simps)
  ultimately show ?thesis by simp
qed

lemma linear16_shift: "linear16 crc_shift"
  unfolding linear16_def crc_shift_def
  by (auto simp: bit_xor_iff ac_simps intro: bit_word_eqI)

text \<open>The four stages of the shortcut, each linear.\<close>

definition swap16 :: "u16 \<Rightarrow> u16" where
  "swap16 a = drop_bit 8 a OR push_bit 8 a"

lemma linear16_swap: "linear16 swap16"
  unfolding linear16_def swap16_def
proof (intro allI bit_word_eqI)
  fix a b :: u16 and n assume "n < LENGTH(16)"
  then show "bit (drop_bit 8 (a XOR b) OR push_bit 8 (a XOR b)) n =
      bit ((drop_bit 8 a OR push_bit 8 a) XOR (drop_bit 8 b OR push_bit 8 b)) n"
    by (cases "n < 8") (auto simp: bit_simps dest: bit_imp_le_length)
qed

definition stage_up :: "u16 \<Rightarrow> u16" where
  "stage_up a = a XOR push_bit 4 (a AND 0xff00)"

definition stage_mid :: "u16 \<Rightarrow> u16" where
  "stage_mid a = a XOR drop_bit 4 (drop_bit 8 a)"

definition stage_down :: "u16 \<Rightarrow> u16" where
  "stage_down a = a XOR drop_bit 5 (a AND 0xff00)"

lemma linear16_stages: "linear16 stage_up" "linear16 stage_mid" "linear16 stage_down"
  by (simp_all add: linear16_def stage_up_def stage_mid_def stage_down_def push_bit_xor
      drop_bit_xor push_bit_and drop_bit_and bit.conj_xor_distrib2 ac_simps)

lemma crc16_add_stages:
  "crc16_add b acc = stage_down (stage_mid (stage_up (swap16 (acc XOR ucast b))))"
  by (simp only: crc16_add_def swap16_def stage_up_def stage_mid_def stage_down_def Let_def)

lemma linear16_add: "linear16 (crc16_add 0)"
  unfolding crc16_add_stages
  using linear16_comp [OF linear16_stages(3) linear16_comp [OF linear16_stages(2)
        linear16_comp [OF linear16_stages(1) linear16_swap]]]
  by (simp add: linear16_def)

lemma funpow_8: "(f ^^ 8) x = f (f (f (f (f (f (f (f x)))))))"
  by (simp add: numeral_eq_Suc)

lemma upt_16: "[0..<16] = [0, 1, 2, 3, 4, 5, 6, 7, 8, 9, 10, 11, 12, 13, 14, 15]"
  by (simp add: upt_rec)

lemma crc16_add_basis:
  "list_all (\<lambda>n. crc16_add 0 (push_bit n 1) = (crc_shift ^^ 8) (push_bit n 1)) [0..<16]"
  unfolding upt_16 by (simp add: funpow_8 crc16_add_def crc_shift_def)

lemma crc16_add_byte: "crc16_add b acc = crc_byte b acc"
proof -
  have "\<forall>n < 16. crc16_add 0 (push_bit n 1) = (crc_shift ^^ 8) (push_bit n 1)"
    using crc16_add_basis by (simp add: list_all_iff)
  then have "crc16_add 0 x = (crc_shift ^^ 8) x" for x
    by (intro linear16_ext linear16_add linear16_funpow linear16_shift)
  moreover have "crc16_add b acc = crc16_add 0 (acc XOR ucast b)"
    by (simp add: crc16_add_stages)
  ultimately show ?thesis by (simp add: crc_byte_def)
qed

section \<open>Injectivity of the register\<close>

lemma crc_shift_kernel: "crc_shift a = 0 \<Longrightarrow> a = 0"
proof -
  assume z: "crc_shift a = 0"
  have b0: "\<not> bit a 0"
  proof
    assume "bit a 0"
    then have "bit (crc_shift a) 15" by (auto simp: crc_shift_def bit_simps dest: bit_imp_le_length)
    with z show False by simp
  qed
  with z have d: "drop_bit 1 a = 0" by (simp add: crc_shift_def)
  show "a = 0"
  proof (rule bit_word_eqI)
    fix n assume "n < LENGTH(16)"
    have "bit a (Suc m) \<longleftrightarrow> bit (drop_bit 1 a) m" for m by (simp add: bit_drop_bit_eq)
    then show "bit a n \<longleftrightarrow> bit 0 n" using b0 d by (cases n) simp_all
  qed
qed

lemma crc_shift_inj: "crc_shift a = crc_shift b \<longleftrightarrow> a = b"
proof
  assume "crc_shift a = crc_shift b"
  then have "crc_shift (a XOR b) = 0" using linear16_shift by (simp add: linear16_def)
  then have "a XOR b = 0" by (rule crc_shift_kernel)
  then have "b XOR (b XOR a) = b" by (simp add: xor.commute)
  then show "a = b" by simp
qed simp

lemma crc_shift_funpow_inj: "(crc_shift ^^ n) a = (crc_shift ^^ n) b \<longleftrightarrow> a = b"
  by (induction n) (simp_all add: crc_shift_inj)

lemma crc16_add_inj: "crc16_add x a = crc16_add y b \<longleftrightarrow> a XOR ucast x = b XOR ucast y"
  by (simp add: crc16_add_byte crc_byte_def crc_shift_funpow_inj)

lemma xor_cancel: "(a :: u16) XOR b = a XOR c \<longleftrightarrow> b = c"
  by (metis bit.xor_left_self)

lemma crc16_data_append: "crc16_data (xs @ ys) a = crc16_data ys (crc16_data xs a)"
  by (induction xs arbitrary: a) auto

lemma crc16_data_inj: "crc16_data xs a = crc16_data xs b \<longleftrightarrow> a = b"
proof (induction xs arbitrary: a b)
  case (Cons x xs)
  then show ?case by (simp add: crc16_add_inj xor_cancel xor.commute [of _ "ucast x"])
qed simp

section \<open>Properties\<close>

text \<open>
  C40. The shift-and-mask shortcut of \<open>crc16_add\<close> computes, for every byte and every register
  value, eight steps of the bit-serial CRC register of the polynomial named in the source
  (in its least-significant-bit-first form); hence \<open>crc16_data\<close> is that CRC of the data.
\<close>

theorem crc16_is_crc: "crc16_data xs acc = fold crc_byte xs acc"
  by (induction xs arbitrary: acc) (simp_all add: crc16_add_byte)

text \<open>
  Any corruption confined to one byte changes the checksum, whatever surrounds it, and
  checksumming the same data from different start values never collides.
\<close>

theorem crc16_detects_byte:
  "crc16_data (xs @ x # ys) acc = crc16_data (xs @ y # ys) acc \<longleftrightarrow> x = y"
  by (simp add: crc16_data_append crc16_data_inj crc16_add_inj xor_cancel ucast_8_16_inj)

end
