(* ===== verification/Mmem.thy ===== *)
theory Mmem
  imports ContikiList
begin

text \<open>
  The managed memory allocator (\<open>core/lib/mmem.c\<close>). Blocks are laid out one after the
  other in \<open>memory\<close>, in the order of the list \<open>mmemlist\<close> (an intrusive list of \<open>ContikiList\<close>);
  freeing a block slides every later block down and adjusts its pointer. Pointers into \<open>memory\<close>
  are offsets.
\<close>

definition MMEM_SIZE :: nat where
  "MMEM_SIZE = 4096"

record mmem =
  mm_list :: lheap
  mm_size :: "ptr \<Rightarrow> nat"
  mm_ptr :: "ptr \<Rightarrow> nat"
  mm_memory :: "u8 list"
  mm_avail :: nat

definition mmem_init :: "mmem \<Rightarrow> mmem" where
  "mmem_init s = s\<lparr>mm_list := list_init (mm_list s), mm_avail := MMEM_SIZE\<rparr>"

definition mmem_alloc :: "mmem \<Rightarrow> ptr \<Rightarrow> nat \<Rightarrow> (bool \<times> mmem) option" where
  "mmem_alloc s m sz =
     (if mm_avail s < sz then Some (False, s)
      else do {
        l \<leftarrow> list_add (mm_list s) m;
        let s1 = s\<lparr>mm_list := l, mm_ptr := (mm_ptr s)(m := MMEM_SIZE - mm_avail s)\<rparr>;
        let s2 = s1\<lparr>mm_size := (mm_size s1)(m := sz)\<rparr>;
        Some (True, s2\<lparr>mm_avail := mm_avail s2 - sz\<rparr>)
      })"

text \<open>\<open>for(n = m->next; n != NULL; n = n->next) n->ptr -= m->size\<close>\<close>

partial_function (option) mmem_slide ::
  "(ptr \<Rightarrow> ptr) \<Rightarrow> nat \<Rightarrow> ptr \<Rightarrow> (ptr \<Rightarrow> nat) \<Rightarrow> (ptr \<Rightarrow> nat) option" where
  "mmem_slide nx sz n p =
     (if n \<noteq> NULL then mmem_slide nx sz (nx n) (p(n := p n - sz)) else Some p)"

definition mmem_free :: "mmem \<Rightarrow> ptr \<Rightarrow> mmem option" where
  "mmem_free s m = do {
     let n = lh_next (mm_list s) m;
     s1 \<leftarrow> (if n \<noteq> NULL then do {
              let len = (MMEM_SIZE - mm_avail s) - mm_ptr s n;
              let mem = write_at (mm_ptr s m) (read_at (mm_ptr s n) len (mm_memory s)) (mm_memory s);
              p \<leftarrow> mmem_slide (lh_next (mm_list s)) (mm_size s m) n (mm_ptr s);
              Some (s\<lparr>mm_memory := mem, mm_ptr := p\<rparr>)
            } else Some s);
     let s2 = s1\<lparr>mm_avail := mm_avail s1 + mm_size s1 m\<rparr>;
     l \<leftarrow> list_remove (mm_list s2) m;
     Some (s2\<lparr>mm_list := l\<rparr>)
   }"

section \<open>Layout invariant\<close>

fun laid :: "(ptr \<Rightarrow> nat) \<Rightarrow> (ptr \<Rightarrow> nat) \<Rightarrow> nat \<Rightarrow> ptr list \<Rightarrow> bool" where
  "laid p sz b [] \<longleftrightarrow> True"
| "laid p sz b (x # xs) \<longleftrightarrow> p x = b \<and> laid p sz (b + sz x) xs"

definition mmem_wf :: "mmem \<Rightarrow> ptr list \<Rightarrow> bool" where
  "mmem_wf s xs \<longleftrightarrow> repr (mm_list s) xs \<and> laid (mm_ptr s) (mm_size s) 0 xs \<and>
     sum_list (map (mm_size s) xs) + mm_avail s = MMEM_SIZE \<and>
     length (mm_memory s) = MMEM_SIZE"

text \<open>The bytes of a block.\<close>

definition mmem_block :: "mmem \<Rightarrow> ptr \<Rightarrow> u8 list" where
  "mmem_block s x = read_at (mm_ptr s x) (mm_size s x) (mm_memory s)"

lemma laid_append:
  "laid p sz b (xs @ ys) \<longleftrightarrow> laid p sz b xs \<and> laid p sz (b + sum_list (map sz xs)) ys"
  by (induction xs arbitrary: b) (auto simp: add.assoc)

lemma laid_cong:
  "(\<And>x. x \<in> set xs \<Longrightarrow> p x = q x \<and> sz x = tz x) \<Longrightarrow> laid p sz b xs = laid q tz b xs"
  by (induction xs arbitrary: b) auto

lemma laid_bounds:
  "laid p sz b xs \<Longrightarrow> x \<in> set xs \<Longrightarrow> b \<le> p x \<and> p x + sz x \<le> b + sum_list (map sz xs)"
  by (induction xs arbitrary: b) fastforce+

lemma laid_slide:
  "laid p sz (b + d) xs \<Longrightarrow> distinct xs \<Longrightarrow> laid (\<lambda>x. if x \<in> set xs then p x - d else p x) sz b xs"
proof (induction xs arbitrary: b)
  case (Cons x xs)
  then have "laid p sz (b + sz x + d) xs" by (simp add: ac_simps)
  with Cons have "laid (\<lambda>y. if y \<in> set xs then p y - d else p y) sz (b + sz x) xs" by simp
  then have "laid (\<lambda>y. if y \<in> set (x # xs) then p y - d else p y) sz (b + sz x) xs"
    by (subst laid_cong [where q = "\<lambda>y. if y \<in> set xs then p y - d else p y" and tz = sz]) auto
  with Cons show ?case by simp
qed simp

lemma mmem_slide_chain:
  "chain nx n xs \<Longrightarrow> mmem_slide nx d n p = Some (\<lambda>x. if x \<in> set xs then p x - d else p x)"
proof (induction xs arbitrary: n p)
  case Nil
  then show ?case by (simp add: mmem_slide.simps)
next
  case (Cons x xs)
  then have "x \<notin> set xs" using chain_distinct [of nx n "x # xs"] by simp
  with Cons show ?case by (auto simp: mmem_slide.simps [of nx d x] fun_eq_iff)
qed

section \<open>Allocation and compaction\<close>

lemma mmem_alloc_wf:
  assumes wf: "mmem_wf s xs" and m: "m \<noteq> NULL" "m \<notin> set xs" and sz: "sz \<le> mm_avail s"
  shows "\<exists>t. mmem_alloc s m sz = Some (True, t) \<and> mmem_wf t (xs @ [m]) \<and> mm_size t m = sz \<and>
    (\<forall>x \<in> set xs. mmem_block t x = mmem_block s x)"
proof -
  from wf have r: "repr (mm_list s) xs" and la: "laid (mm_ptr s) (mm_size s) 0 xs"
    and sum: "sum_list (map (mm_size s) xs) + mm_avail s = MMEM_SIZE"
    and len: "length (mm_memory s) = MMEM_SIZE" by (auto simp: mmem_wf_def)
  obtain l where l: "list_add (mm_list s) m = Some l" "repr l (xs @ [m])"
    using heap_list.add_law [OF r m(1)] m(2) by auto
  let ?p = "(mm_ptr s)(m := MMEM_SIZE - mm_avail s)" and ?z = "(mm_size s)(m := sz)"
  have "laid ?p ?z 0 xs" using la m(2) by (subst laid_cong [of xs _ "mm_ptr s" _ "mm_size s"]) auto
  moreover have "map ?z xs = map (mm_size s) xs" using m(2) by auto
  then have zs: "sum_list (map ?z xs) = sum_list (map (mm_size s) xs)" by (simp only:)
  ultimately have la': "laid ?p ?z 0 (xs @ [m])" using sum by (simp add: laid_append zs)
  let ?t = "s\<lparr>mm_list := l, mm_ptr := ?p, mm_size := ?z, mm_avail := mm_avail s - sz\<rparr>"
  have "mmem_alloc s m sz = Some (True, ?t)"
    using sz by (simp add: mmem_alloc_def l(1) Let_def)
  moreover have "mmem_wf ?t (xs @ [m])"
    using l(2) la' sum sz len zs by (simp add: mmem_wf_def)
  moreover have "\<forall>x \<in> set xs. mmem_block ?t x = mmem_block s x"
    using m(2) by (auto simp: mmem_block_def)
  ultimately show ?thesis by auto
qed

text \<open>The bytes moved by \<open>mmem_free\<close>: earlier blocks stay, later blocks keep their contents.\<close>

lemma mmem_compact_bytes:
  assumes la: "laid p sz 0 (ys @ m # zs)"
    and used: "sum_list (map sz (ys @ m # zs)) = used" "used \<le> length mem"
    and n: "n = p m + sz m"
    and mem': "mem' = write_at (p m) (read_at n (used - n) mem) mem"
  shows "x \<in> set ys \<Longrightarrow> read_at (p x) (sz x) mem' = read_at (p x) (sz x) mem"
    and "x \<in> set zs \<Longrightarrow> read_at (p x - sz m) (sz x) mem' = read_at (p x) (sz x) mem"
    and "length mem' = length mem"
proof -
  have pm: "p m = sum_list (map sz ys)" and lz: "laid p sz n zs"
    using la by (auto simp: laid_append n)
  have nu: "n \<le> used" "used = n + sum_list (map sz zs)" using used pm n by auto
  let ?bs = "read_at n (used - n) mem"
  have lb: "length ?bs = used - n" using used nu by (simp add: read_at_def)
  show "length mem' = length mem" unfolding mem' using lb nu n used by (intro length_write_at) simp
  show "read_at (p x) (sz x) mem' = read_at (p x) (sz x) mem" if "x \<in> set ys"
  proof -
    have "p x + sz x \<le> p m" using laid_bounds [of p sz 0 ys x] la that by (simp add: laid_append pm)
    then show ?thesis unfolding mem' using nu n used by (intro read_write_before) simp_all
  qed
  show "read_at (p x - sz m) (sz x) mem' = read_at (p x) (sz x) mem" if "x \<in> set zs"
  proof -
    have b: "n \<le> p x" "p x + sz x \<le> used" using laid_bounds [OF lz that] nu by auto
    have e: "p x - sz m = p m + (p x - n)" using b n by simp
    have "read_at (p m + (p x - n)) (sz x) mem' = read_at (p x - n) (sz x) ?bs"
      unfolding mem' using b nu n used lb by (intro read_write_inside) simp_all
    also have "\<dots> = read_at (n + (p x - n)) (sz x) mem" using b by (intro read_read) simp
    finally show ?thesis using b by (simp add: e)
  qed
qed

lemma mmem_free_wf:
  assumes wf: "mmem_wf s (ys @ m # zs)"
  shows "\<exists>t. mmem_free s m = Some t \<and> mmem_wf t (ys @ zs) \<and>
    mm_avail t = mm_avail s + mm_size s m \<and>
    (\<forall>x \<in> set (ys @ zs). mm_size t x = mm_size s x \<and> mmem_block t x = mmem_block s x)"
proof -
  let ?p = "mm_ptr s" and ?z = "mm_size s" and ?n = "lh_next (mm_list s) m"
  from wf have r: "repr (mm_list s) (ys @ m # zs)" and la: "laid ?p ?z 0 (ys @ m # zs)"
    and sum: "sum_list (map ?z (ys @ m # zs)) + mm_avail s = MMEM_SIZE"
    and len: "length (mm_memory s) = MMEM_SIZE" by (auto simp: mmem_wf_def)
  have dist: "distinct (ys @ m # zs)" using r by (rule repr_distinct)
  have chn: "chain (lh_next (mm_list s)) ?n zs" using r by (auto simp: repr_def)
  obtain l where l: "list_remove (mm_list s) m = Some l" "repr l (ys @ zs)"
    using heap_list.remove_law [OF r, of m] dist by (auto simp: remove1_append)
  have zero: "sum_list (map ?z (ys @ m # zs)) = MMEM_SIZE - mm_avail s" using sum by simp
  show ?thesis
  proof (cases "zs = []")
    case True
    with chn have n: "?n = NULL" by simp
    let ?t = "s\<lparr>mm_avail := mm_avail s + ?z m, mm_list := l\<rparr>"
    have "mmem_free s m = Some ?t" using n l by (simp add: mmem_free_def)
    moreover have "mmem_wf ?t (ys @ zs)"
      using True l(2) la sum len by (simp add: mmem_wf_def laid_append)
    ultimately show ?thesis by (auto simp: mmem_block_def)
  next
    case False
    then obtain z zs' where zs: "zs = z # zs'" by (cases zs) auto
    with chn have n: "?n = z" "z \<noteq> NULL" by auto
    have pz: "?p z = ?p m + ?z m" using la by (simp add: laid_append zs)
    let ?p' = "\<lambda>x. if x \<in> set zs then ?p x - ?z m else ?p x"
    let ?mem = "write_at (?p m) (read_at (?p z) (MMEM_SIZE - mm_avail s - ?p z) (mm_memory s))
      (mm_memory s)"
    let ?t = "s\<lparr>mm_memory := ?mem, mm_ptr := ?p', mm_avail := mm_avail s + ?z m, mm_list := l\<rparr>"
    have "mmem_slide (lh_next (mm_list s)) (?z m) z ?p = Some ?p'"
      using mmem_slide_chain [OF chn] n by simp
    then have free: "mmem_free s m = Some ?t" using n l by (simp add: mmem_free_def Let_def)
    note bytes = mmem_compact_bytes [OF la zero _ pz refl, of "mm_memory s"]
    have lm: "length ?mem = MMEM_SIZE" using bytes(3) len by simp
    have "laid ?p ?z (sum_list (map ?z ys) + ?z m) zs" using la by (simp add: laid_append)
    then have "laid ?p' ?z (sum_list (map ?z ys)) zs" using dist by (intro laid_slide) simp_all
    moreover have "laid ?p' ?z 0 ys"
      using la dist by (subst laid_cong [of ys _ ?p _ ?z]) (auto simp: laid_append)
    ultimately have "laid ?p' ?z 0 (ys @ zs)" by (simp add: laid_append)
    then have "mmem_wf ?t (ys @ zs)"
      using l(2) sum lm by (simp add: mmem_wf_def)
    moreover have "\<forall>x \<in> set (ys @ zs). mmem_block ?t x = mmem_block s x"
      using bytes(1,2) dist len by (auto simp: mmem_block_def)
    ultimately show ?thesis using free by auto
  qed
qed

section \<open>Properties\<close>

text \<open>
  Freeing a managed block compacts the memory without losing anything: \<open>mmem_free\<close>
  returns, the remaining blocks keep their order, sizes and every byte of their contents,
  they again lie back to back from offset 0, and exactly the freed size becomes available.
\<close>

theorem mmem_free_preserves:
  assumes "mmem_wf s (ys @ m # zs)"
  shows "\<exists>t. mmem_free s m = Some t \<and> mmem_wf t (ys @ zs) \<and>
    mm_avail t = mm_avail s + mm_size s m \<and>
    (\<forall>x \<in> set (ys @ zs). mm_size t x = mm_size s x \<and> mmem_block t x = mmem_block s x)"
  by (rule mmem_free_wf [OF assms])

abbreviation mmem_example :: mmem where
  "mmem_example \<equiv> \<lparr>mm_list = \<lparr>lh_head = 1, lh_next = (\<lambda>_. 0)(1 := 2)\<rparr>,
     mm_size = (\<lambda>_. 0)(1 := 3, 2 := 4), mm_ptr = (\<lambda>_. 0)(2 := 3),
     mm_memory = [1, 1, 1, 2, 2, 2, 2] @ replicate 4089 0, mm_avail = 4089\<rparr>"

theorem mmem_free_preserves_witness:
  "mmem_wf mmem_example [1, 2] \<and>
   (\<exists>t. mmem_free mmem_example 1 = Some t \<and> mmem_wf t [2] \<and> mmem_block t 2 = [2, 2, 2, 2])"
proof -
  have wf: "mmem_wf mmem_example ([] @ 1 # [2])"
    by (simp add: mmem_wf_def repr_def MMEM_SIZE_def)
  from mmem_free_preserves [OF this] wf show ?thesis
    by (auto simp: mmem_block_def read_at_def)
qed

text \<open>
  \<open>mmem_alloc\<close> succeeds exactly when enough memory is left; the new block is placed after
  all others and their contents are untouched. A failed allocation changes nothing.
\<close>

theorem mmem_alloc_correct:
  assumes "mmem_wf s xs" and "m \<noteq> NULL" and "m \<notin> set xs"
  shows "if mm_avail s < sz then mmem_alloc s m sz = Some (False, s)
    else \<exists>t. mmem_alloc s m sz = Some (True, t) \<and> mmem_wf t (xs @ [m]) \<and> mm_size t m = sz \<and>
      (\<forall>x \<in> set xs. mmem_block t x = mmem_block s x)"
  using mmem_alloc_wf [OF assms, of sz] by (auto simp: mmem_alloc_def not_less)

theorem mmem_alloc_correct_witness:
  "\<exists>t. mmem_alloc mmem_example 3 89 = Some (True, t) \<and> mmem_wf t [1, 2, 3] \<and>
     mmem_block t 1 = [1, 1, 1]"
proof -
  have wf: "mmem_wf mmem_example [1, 2]" by (simp add: mmem_wf_def repr_def MMEM_SIZE_def)
  from mmem_alloc_correct [OF this, of 3 89] show ?thesis
    by (auto simp: mmem_block_def read_at_def)
qed

end
