(* ===== verification/Process.thy ===== *)
theory Process
  imports Interfaces ContikiList
begin

text \<open>
  The process kernel (\<open>core/sys/process.c\<close>): the list of processes, the ring of queued events,
  and the scheduler that polls processes and delivers events. The process threads are code
  outside the kernel: \<open>thr p ev d k\<close> is what running the thread of process \<open>p\<close> on event \<open>ev\<close> with
  data \<open>d\<close> returns and does to the state. The state is an extensible record, so that a component
  with a process of its own (the event timers) adds its fields. \<open>nevents\<close> and \<open>fevent\<close> are
  natural numbers: \<open>k_events_ok\<close> shows that they stay far below the range of \<open>unsigned char\<close>.
  \<open>p_pt\<close> is the continuation of a process's protothread (\<open>PT_INIT\<close> sets it to 0).
  \<open>call_process\<close> and \<open>exit_process\<close> call each other, as deeply as the threads make them; they
  take fuel, and \<open>None\<close> means that it ran out.
\<close>

datatype pt_ret = PT_WAITING | PT_YIELDED | PT_EXITED | PT_ENDED

definition PROCESS_CONF_NUMEVENTS :: nat where
  "PROCESS_CONF_NUMEVENTS = 16"

abbreviation (input) PROCESS_EVENT_INIT :: u8 where "PROCESS_EVENT_INIT \<equiv> 0x81"
abbreviation (input) PROCESS_EVENT_POLL :: u8 where "PROCESS_EVENT_POLL \<equiv> 0x82"
abbreviation (input) PROCESS_EVENT_EXIT :: u8 where "PROCESS_EVENT_EXIT \<equiv> 0x83"
abbreviation (input) PROCESS_EVENT_EXITED :: u8 where "PROCESS_EVENT_EXITED \<equiv> 0x87"
abbreviation (input) PROCESS_EVENT_TIMER :: u8 where "PROCESS_EVENT_TIMER \<equiv> 0x88"
abbreviation (input) PROCESS_EVENT_MAX :: u8 where "PROCESS_EVENT_MAX \<equiv> 0x8a"
abbreviation (input) PROCESS_STATE_NONE :: u8 where "PROCESS_STATE_NONE \<equiv> 0"
abbreviation (input) PROCESS_STATE_RUNNING :: u8 where "PROCESS_STATE_RUNNING \<equiv> 1"
abbreviation (input) PROCESS_STATE_CALLED :: u8 where "PROCESS_STATE_CALLED \<equiv> 2"
abbreviation (input) PROCESS_BROADCAST :: ptr where "PROCESS_BROADCAST \<equiv> 0"

datatype process_err = PROCESS_ERR_OK | PROCESS_ERR_FULL

record event_data =
  ed_ev :: u8
  ed_data :: nat
  ed_p :: ptr

record kernel =
  process_list :: ptr
  process_current :: ptr
  lastevent :: u8
  nevents :: nat
  fevent :: nat
  events :: "event_data list"
  poll_requested :: bool
  p_next :: "ptr \<Rightarrow> ptr"
  p_state :: "ptr \<Rightarrow> u8"
  p_needspoll :: "ptr \<Rightarrow> bool"
  p_has_thread :: "ptr \<Rightarrow> bool"
  p_pt :: "ptr \<Rightarrow> nat"

type_synonym 'a thread = "ptr \<Rightarrow> u8 \<Rightarrow> nat \<Rightarrow> 'a kernel_scheme \<Rightarrow> pt_ret \<times> 'a kernel_scheme"

section \<open>Events and polling\<close>

definition process_alloc_event :: "'a kernel_scheme \<Rightarrow> u8 \<times> 'a kernel_scheme" where
  "process_alloc_event k = (lastevent k, k\<lparr>lastevent := lastevent k + 1\<rparr>)"

definition process_init :: "'a kernel_scheme \<Rightarrow> 'a kernel_scheme" where
  "process_init k = k\<lparr>lastevent := PROCESS_EVENT_MAX, nevents := 0, fevent := 0,
     process_current := NULL, process_list := NULL\<rparr>"

definition process_post :: "ptr \<Rightarrow> u8 \<Rightarrow> nat \<Rightarrow> 'a kernel_scheme \<Rightarrow>
  process_err \<times> 'a kernel_scheme" where
  "process_post p ev d k =
     (if nevents k = PROCESS_CONF_NUMEVENTS then (PROCESS_ERR_FULL, k)
      else let snum = (fevent k + nevents k) mod PROCESS_CONF_NUMEVENTS
        in (PROCESS_ERR_OK,
            k\<lparr>events := (events k)[snum := \<lparr>ed_ev = ev, ed_data = d, ed_p = p\<rparr>],
              nevents := nevents k + 1\<rparr>))"

definition process_is_running :: "ptr \<Rightarrow> 'a kernel_scheme \<Rightarrow> bool" where
  "process_is_running p k \<longleftrightarrow> p_state k p \<noteq> PROCESS_STATE_NONE"

definition process_poll :: "ptr \<Rightarrow> 'a kernel_scheme \<Rightarrow> 'a kernel_scheme" where
  "process_poll p k =
     (if p \<noteq> NULL then
        (if p_state k p = PROCESS_STATE_RUNNING \<or> p_state k p = PROCESS_STATE_CALLED
         then k\<lparr>p_needspoll := (p_needspoll k)(p := True), poll_requested := True\<rparr> else k)
      else k)"

definition process_nevents :: "'a kernel_scheme \<Rightarrow> nat" where
  "process_nevents k = nevents k + (if poll_requested k then 1 else 0)"

section \<open>Calling and exiting processes\<close>

text \<open>\<open>for(q = process_list; q != p && q != NULL; q = q->next);\<close>\<close>

partial_function (option) process_find :: "(ptr \<Rightarrow> ptr) \<Rightarrow> ptr \<Rightarrow> ptr \<Rightarrow> ptr option" where
  "process_find nx p q = (if q \<noteq> p \<and> q \<noteq> NULL then process_find nx p (nx q) else Some q)"

text \<open>The unlinking loop at the end of \<open>exit_process\<close>.\<close>

partial_function (option) process_unlink ::
  "(ptr \<Rightarrow> ptr) \<Rightarrow> ptr \<Rightarrow> ptr \<Rightarrow> (ptr \<Rightarrow> ptr) option" where
  "process_unlink nx p q =
     (if q = NULL then Some nx
      else if nx q = p then Some (nx(q := nx p))
      else process_unlink nx p (nx q))"

function (sequential) call_process :: "nat \<Rightarrow> 'a thread \<Rightarrow> ptr \<Rightarrow> u8 \<Rightarrow> nat \<Rightarrow> 'a kernel_scheme \<Rightarrow>
    'a kernel_scheme option"
  and exit_process :: "nat \<Rightarrow> 'a thread \<Rightarrow> ptr \<Rightarrow> ptr \<Rightarrow> 'a kernel_scheme \<Rightarrow>
    'a kernel_scheme option"
  and notify_exited :: "nat \<Rightarrow> 'a thread \<Rightarrow> ptr \<Rightarrow> ptr \<Rightarrow> 'a kernel_scheme \<Rightarrow>
    'a kernel_scheme option"
where
  "call_process 0 thr p ev d k = None"
| "call_process (Suc n) thr p ev d k =
     (if p_state k p AND PROCESS_STATE_RUNNING \<noteq> 0 \<and> p_has_thread k p then
        let k1 = k\<lparr>process_current := p, p_state := (p_state k)(p := PROCESS_STATE_CALLED)\<rparr>;
            (ret, k2) = thr p ev d k1
        in if ret = PT_EXITED \<or> ret = PT_ENDED \<or> ev = PROCESS_EVENT_EXIT
           then exit_process n thr p p k2
           else Some (k2\<lparr>p_state := (p_state k2)(p := PROCESS_STATE_RUNNING)\<rparr>)
      else Some k)"
| "exit_process 0 thr p fromp k = None"
| "exit_process (Suc n) thr p fromp k = do {
     let old_current = process_current k;
     q \<leftarrow> process_find (p_next k) p (process_list k);
     if q = NULL then Some k
     else do {
       k1 \<leftarrow> (if process_is_running p k then do {
                let ka = k\<lparr>p_state := (p_state k)(p := PROCESS_STATE_NONE)\<rparr>;
                kb \<leftarrow> notify_exited n thr p (process_list ka) ka;
                Some (if p_has_thread kb p \<and> p \<noteq> fromp
                      then snd (thr p PROCESS_EVENT_EXIT 0 (kb\<lparr>process_current := p\<rparr>))
                      else kb)
              } else Some k);
       k2 \<leftarrow> (if p = process_list k1
              then Some (k1\<lparr>process_list := p_next k1 (process_list k1)\<rparr>)
              else map_option (\<lambda>nx. k1\<lparr>p_next := nx\<rparr>)
                     (process_unlink (p_next k1) p (process_list k1)));
       Some (k2\<lparr>process_current := old_current\<rparr>)
     }
   }"
| "notify_exited 0 thr p q k = None"
| "notify_exited (Suc n) thr p q k =
     (if q = NULL then Some k
      else do {
        k1 \<leftarrow> (if p \<noteq> q then call_process n thr q PROCESS_EVENT_EXITED p k else Some k);
        notify_exited n thr p (p_next k1 q) k1
      })"
  by pat_completeness auto
termination
  by (relation "measure (\<lambda>x. case x of
      Inl (n, _) \<Rightarrow> n | Inr (Inl (n, _)) \<Rightarrow> n | Inr (Inr (n, _)) \<Rightarrow> n)") auto

definition process_post_synch :: "nat \<Rightarrow> 'a thread \<Rightarrow> ptr \<Rightarrow> u8 \<Rightarrow> nat \<Rightarrow> 'a kernel_scheme \<Rightarrow>
  'a kernel_scheme option" where
  "process_post_synch n thr p ev d k = do {
     let caller = process_current k;
     k1 \<leftarrow> call_process n thr p ev d k;
     Some (k1\<lparr>process_current := caller\<rparr>)
   }"

text \<open>\<open>arg\<close> is the data pointer of the initialisation event.\<close>

definition process_start :: "nat \<Rightarrow> 'a thread \<Rightarrow> ptr \<Rightarrow> nat \<Rightarrow> 'a kernel_scheme \<Rightarrow>
  'a kernel_scheme option" where
  "process_start n thr p arg k = do {
     q \<leftarrow> process_find (p_next k) p (process_list k);
     if q = p then Some k
     else process_post_synch n thr p PROCESS_EVENT_INIT arg
       (k\<lparr>p_next := (p_next k)(p := process_list k), process_list := p,
         p_state := (p_state k)(p := PROCESS_STATE_RUNNING), p_pt := (p_pt k)(p := 0)\<rparr>)
   }"

definition process_exit :: "nat \<Rightarrow> 'a thread \<Rightarrow> ptr \<Rightarrow> 'a kernel_scheme \<Rightarrow>
  'a kernel_scheme option" where
  "process_exit n thr p k = exit_process n thr p (process_current k) k"

section \<open>The scheduler\<close>

fun do_poll_loop :: "nat \<Rightarrow> 'a thread \<Rightarrow> ptr \<Rightarrow> 'a kernel_scheme \<Rightarrow> 'a kernel_scheme option" where
  "do_poll_loop 0 thr p k = None"
| "do_poll_loop (Suc n) thr p k =
     (if p = NULL then Some k
      else do {
        k1 \<leftarrow> (if p_needspoll k p
               then call_process n thr p PROCESS_EVENT_POLL 0
                 (k\<lparr>p_state := (p_state k)(p := PROCESS_STATE_RUNNING),
                    p_needspoll := (p_needspoll k)(p := False)\<rparr>)
               else Some k);
        do_poll_loop n thr (p_next k1 p) k1
      })"

definition do_poll :: "nat \<Rightarrow> 'a thread \<Rightarrow> 'a kernel_scheme \<Rightarrow> 'a kernel_scheme option" where
  "do_poll n thr k = do_poll_loop n thr (process_list k) (k\<lparr>poll_requested := False\<rparr>)"

fun do_broadcast :: "nat \<Rightarrow> 'a thread \<Rightarrow> u8 \<Rightarrow> nat \<Rightarrow> ptr \<Rightarrow> 'a kernel_scheme \<Rightarrow>
  'a kernel_scheme option" where
  "do_broadcast 0 thr ev d p k = None"
| "do_broadcast (Suc n) thr ev d p k =
     (if p = NULL then Some k
      else do {
        k1 \<leftarrow> (if poll_requested k then do_poll n thr k else Some k);
        k2 \<leftarrow> call_process n thr p ev d k1;
        do_broadcast n thr ev d (p_next k2 p) k2
      })"

text \<open>Taking the first event off the ring.\<close>

definition take_event :: "'a kernel_scheme \<Rightarrow> event_data option \<times> 'a kernel_scheme" where
  "take_event k =
     (if nevents k > 0
      then (Some (events k ! fevent k),
            k\<lparr>fevent := (fevent k + 1) mod PROCESS_CONF_NUMEVENTS, nevents := nevents k - 1\<rparr>)
      else (None, k))"

definition do_event :: "nat \<Rightarrow> 'a thread \<Rightarrow> 'a kernel_scheme \<Rightarrow> 'a kernel_scheme option" where
  "do_event n thr k =
     (case take_event k of
        (None, k1) \<Rightarrow> Some k1
      | (Some e, k1) \<Rightarrow>
          if ed_p e = PROCESS_BROADCAST
          then do_broadcast n thr (ed_ev e) (ed_data e) (process_list k1) k1
          else call_process n thr (ed_p e) (ed_ev e) (ed_data e)
            (if ed_ev e = PROCESS_EVENT_INIT
             then k1\<lparr>p_state := (p_state k1)(ed_p e := PROCESS_STATE_RUNNING)\<rparr> else k1))"

definition process_run :: "nat \<Rightarrow> 'a thread \<Rightarrow> 'a kernel_scheme \<Rightarrow>
  (nat \<times> 'a kernel_scheme) option" where
  "process_run n thr k = do {
     k1 \<leftarrow> (if poll_requested k then do_poll n thr k else Some k);
     k2 \<leftarrow> do_event n thr k1;
     Some (process_nevents k2, k2)
   }"

section \<open>The event ring is a bounded queue\<close>

definition k_events_ok :: "'a kernel_scheme \<Rightarrow> bool" where
  "k_events_ok k \<longleftrightarrow> length (events k) = PROCESS_CONF_NUMEVENTS \<and>
     fevent k < PROCESS_CONF_NUMEVENTS \<and> nevents k \<le> PROCESS_CONF_NUMEVENTS"

definition pending_events :: "'a kernel_scheme \<Rightarrow> event_data list" where
  "pending_events k =
     map (\<lambda>i. events k ! ((fevent k + i) mod PROCESS_CONF_NUMEVENTS)) [0 ..< nevents k]"

definition post_event :: "'a kernel_scheme \<Rightarrow> event_data \<Rightarrow> bool \<times> 'a kernel_scheme" where
  "post_event k e = (let (r, k1) = process_post (ed_p e) (ed_ev e) (ed_data e) k
     in (r = PROCESS_ERR_OK, k1))"

lemma length_pending_events [simp]: "length (pending_events k) = nevents k"
  by (simp add: pending_events_def)

lemma ring_add_inj:
  "i < N \<Longrightarrow> j < N \<Longrightarrow> ((f :: nat) + i) mod N = (f + j) mod N \<longleftrightarrow> i = j"
proof
  assume ij: "i < N" "j < N" and eq: "(f + i) mod N = (f + j) mod N"
  show "i = j"
  proof (rule ccontr)
    assume "i \<noteq> j"
    then consider "i < j" | "j < i" by linarith
    then show False
    proof cases
      case 1
      then have "N dvd (f + j) - (f + i)" using eq mod_eq_dvd_iff_nat [of "f + i" "f + j" N] by simp
      then show False using 1 ij by (auto dest: dvd_imp_le)
    next
      case 2
      then have "N dvd (f + i) - (f + j)" using eq mod_eq_dvd_iff_nat [of "f + j" "f + i" N] by simp
      then show False using 2 ij by (auto dest: dvd_imp_le)
    qed
  qed
qed simp

lemma post_event_law:
  assumes ok: "k_events_ok k" and post: "post_event k e = (b, t)"
  shows "k_events_ok t \<and>
    b = (length (pending_events k) < PROCESS_CONF_NUMEVENTS) \<and>
    pending_events t = (if b then pending_events k @ [e] else pending_events k)"
proof (cases "nevents k = PROCESS_CONF_NUMEVENTS")
  case True
  with post ok show ?thesis by (auto simp: post_event_def process_post_def)
next
  case False
  let ?N = PROCESS_CONF_NUMEVENTS
  let ?s = "(fevent k + nevents k) mod ?N"
  from False ok have lt: "nevents k < ?N" and len: "length (events k) = ?N" "?s < ?N"
    by (auto simp: k_events_ok_def PROCESS_CONF_NUMEVENTS_def)
  have e: "\<lparr>ed_ev = ed_ev e, ed_data = ed_data e, ed_p = ed_p e\<rparr> = e" by simp
  from False post have b: "b" and t: "t = k\<lparr>events := (events k)[?s := e], nevents := nevents k + 1\<rparr>"
    by (auto simp: post_event_def process_post_def Let_def e)
  have "(fevent k + i) mod ?N \<noteq> ?s" if "i < nevents k" for i
    using that lt ring_add_inj [of i ?N "nevents k" "fevent k"] by simp
  then have "map (\<lambda>i. (events k)[?s := e] ! ((fevent k + i) mod ?N)) [0..<nevents k] =
      pending_events k"
    unfolding pending_events_def by (intro map_cong) (auto simp: nth_list_update_if)
  then have "pending_events t = pending_events k @ [e]"
    using len by (simp add: t pending_events_def)
  with b lt ok len show ?thesis by (auto simp: t k_events_ok_def)
qed

lemma take_event_law:
  assumes ok: "k_events_ok k" and get: "take_event k = (r, t)"
  shows "k_events_ok t \<and>
    r = (case pending_events k of [] \<Rightarrow> None | x # xs \<Rightarrow> Some x) \<and>
    pending_events t = tl (pending_events k)"
proof (cases "nevents k")
  case 0
  with get ok show ?thesis by (auto simp: take_event_def pending_events_def)
next
  case (Suc m)
  let ?N = PROCESS_CONF_NUMEVENTS
  have f: "fevent k < ?N" using ok by (simp add: k_events_ok_def)
  from Suc get have r: "r = Some (events k ! fevent k)"
    and t: "t = k\<lparr>fevent := (fevent k + 1) mod ?N, nevents := m\<rparr>"
    by (auto simp: take_event_def)
  have "pending_events k = events k ! fevent k # pending_events t"
    using f Suc by (simp add: pending_events_def t upt_conv_Cons mod_simps o_def
        del: upt_Suc flip: map_Suc_upt)
  with r ok Suc show ?thesis by (auto simp: t k_events_ok_def)
qed

interpretation event_ring: fifo k_events_ok pending_events "\<lambda>_. PROCESS_CONF_NUMEVENTS"
  post_event take_event
proof
  fix k t :: "'a kernel_scheme" and e b r
  assume ok: "k_events_ok k"
  show "length (pending_events k) \<le> PROCESS_CONF_NUMEVENTS"
    using ok by (simp add: k_events_ok_def)
  show "k_events_ok t \<and> PROCESS_CONF_NUMEVENTS = PROCESS_CONF_NUMEVENTS \<and>
      b = (length (pending_events k) < PROCESS_CONF_NUMEVENTS) \<and>
      pending_events t = (if b then pending_events k @ [e] else pending_events k)"
    if "post_event k e = (b, t)"
    using post_event_law [OF ok that] by simp
  show "k_events_ok t \<and> PROCESS_CONF_NUMEVENTS = PROCESS_CONF_NUMEVENTS \<and>
      r = (case pending_events k of [] \<Rightarrow> None | x # xs \<Rightarrow> Some x) \<and>
      pending_events t = tl (pending_events k)"
    if "take_event k = (r, t)"
    using take_event_law [OF ok that] by simp
qed

lemma process_init_events:
  "length (events k) = PROCESS_CONF_NUMEVENTS \<Longrightarrow> k_events_ok (process_init k)"
  "pending_events (process_init k) = []"
  by (simp_all add: k_events_ok_def process_init_def pending_events_def PROCESS_CONF_NUMEVENTS_def)

section \<open>Exiting a process among well-behaved threads\<close>

text \<open>
  A thread is well-behaved when it leaves the kernel's process table alone (it may post events,
  request polls and change everything else) and does not itself exit when it is told that
  another process has exited.
\<close>

definition same_table :: "'a kernel_scheme \<Rightarrow> 'a kernel_scheme \<Rightarrow> bool" where
  "same_table k t \<longleftrightarrow> process_list t = process_list k \<and> p_next t = p_next k \<and>
     p_state t = p_state k \<and> p_has_thread t = p_has_thread k"

definition well_behaved :: "'a thread \<Rightarrow> bool" where
  "well_behaved thr \<longleftrightarrow> (\<forall>p ev d k. same_table k (snd (thr p ev d k)) \<and>
     (ev = PROCESS_EVENT_EXITED \<longrightarrow> fst (thr p ev d k) \<in> {PT_WAITING, PT_YIELDED}))"

definition states_ok :: "'a kernel_scheme \<Rightarrow> bool" where
  "states_ok k \<longleftrightarrow> (\<forall>p. p_state k p \<in>
     {PROCESS_STATE_NONE, PROCESS_STATE_RUNNING, PROCESS_STATE_CALLED})"

lemma same_table_refl [simp]: "same_table k k"
  by (simp add: same_table_def)

lemma same_table_trans: "same_table k l \<Longrightarrow> same_table l t \<Longrightarrow> same_table k t"
  by (simp add: same_table_def)

lemma same_table_states_ok: "same_table k t \<Longrightarrow> states_ok k \<Longrightarrow> states_ok t"
  by (simp add: same_table_def states_ok_def)

lemma call_exited_same_table:
  assumes "well_behaved thr" and "states_ok k"
  shows "\<exists>t. call_process (Suc n) thr q PROCESS_EVENT_EXITED d k = Some t \<and> same_table k t"
proof (cases "p_state k q AND PROCESS_STATE_RUNNING \<noteq> 0 \<and> p_has_thread k q")
  case False
  then show ?thesis by auto
next
  case True
  have "p_state k q = 0 \<or> p_state k q = 1 \<or> p_state k q = 2"
    using assms(2) by (auto simp: states_ok_def)
  with True have st: "p_state k q = PROCESS_STATE_RUNNING" by (elim disjE) simp_all
  let ?k1 = "k\<lparr>process_current := q, p_state := (p_state k)(q := PROCESS_STATE_CALLED)\<rparr>"
  obtain ret k2 where thr: "thr q PROCESS_EVENT_EXITED d ?k1 = (ret, k2)"
    by (cases "thr q PROCESS_EVENT_EXITED d ?k1")
  from assms(1) have "same_table ?k1 (snd (thr q PROCESS_EVENT_EXITED d ?k1)) \<and>
      fst (thr q PROCESS_EVENT_EXITED d ?k1) \<in> {PT_WAITING, PT_YIELDED}"
    unfolding well_behaved_def by blast
  then have "same_table ?k1 k2" and "ret \<in> {PT_WAITING, PT_YIELDED}" by (simp_all add: thr)
  then show ?thesis using True thr st by (auto simp: same_table_def Let_def fun_eq_iff)
qed

lemma notify_exited_same_table:
  assumes "well_behaved thr"
  shows "states_ok k \<Longrightarrow> chain (p_next k) q qs \<Longrightarrow> length qs + 2 \<le> n \<Longrightarrow>
    \<exists>t. notify_exited n thr p q k = Some t \<and> same_table k t"
proof (induction qs arbitrary: q k n)
  case Nil
  then obtain m where "n = Suc m" by (cases n) auto
  with Nil show ?case by simp
next
  case (Cons x qs)
  then obtain m where n: "n = Suc (Suc m)" by (metis add_2_eq_Suc' le_Suc_ex add_Suc)
  obtain k1 where k1: "(if p \<noteq> x then call_process (Suc m) thr x PROCESS_EVENT_EXITED p k
      else Some k) = Some k1" and st: "same_table k k1"
    using call_exited_same_table [OF assms Cons.prems(1), of m x p] by (cases "p = x") auto
  have "states_ok k1" "chain (p_next k1) (p_next k1 x) qs"
    using st Cons.prems same_table_states_ok by (auto simp: same_table_def)
  from Cons.IH [OF this, of "Suc m"] obtain t
    where "notify_exited (Suc m) thr p (p_next k1 x) k1 = Some t" "same_table k1 t"
    using Cons.prems(3) n by auto
  then show ?case using Cons.prems(2) k1 st n by (auto intro: same_table_trans)
qed

lemma process_find_chain:
  "chain nx q qs \<Longrightarrow> p \<noteq> NULL \<Longrightarrow> process_find nx p q = Some (if p \<in> set qs then p else NULL)"
  by (induction qs arbitrary: q) (auto simp: process_find.simps)

lemma process_unlink_chain:
  "seg nx q (ys @ [y]) p \<Longrightarrow> p \<noteq> NULL \<Longrightarrow> distinct (ys @ [y, p]) \<Longrightarrow>
    process_unlink nx p q = Some (nx(y := nx p))"
proof (induction ys arbitrary: q)
  case Nil
  then show ?case by (auto simp: process_unlink.simps [of nx p y])
next
  case (Cons a ys)
  then have "nx a \<noteq> p" by (cases ys) auto
  with Cons show ?case by (auto simp: process_unlink.simps [of nx p a])
qed

text \<open>Unlinking \<open>p\<close> from the process list, as the end of \<open>exit_process\<close> does.\<close>

lemma process_unlink_table:
  assumes ch: "chain (p_next k) (process_list k) (ys @ p # zs)"
  shows "\<exists>t. (if p = process_list k
       then Some (k\<lparr>process_list := p_next k (process_list k)\<rparr>)
       else map_option (\<lambda>nx. k\<lparr>p_next := nx\<rparr>) (process_unlink (p_next k) p (process_list k))) = Some t \<and>
     chain (p_next t) (process_list t) (ys @ zs) \<and> p_state t = p_state k"
proof (cases ys rule: rev_cases)
  case Nil
  with ch show ?thesis by auto
next
  case (snoc ws y)
  have d: "distinct (ys @ p # zs)" using ch by (rule chain_distinct)
  have nn: "NULL \<notin> set (ys @ p # zs)" using ch by (rule seg_not_NULL)
  from ch snoc have sg: "seg (p_next k) (process_list k) (ws @ [y]) p" by auto
  then have hd: "process_list k \<noteq> p" using d snoc by (cases ws) auto
  have un: "process_unlink (p_next k) p (process_list k) = Some ((p_next k)(y := p_next k p))"
    using sg nn d snoc by (intro process_unlink_chain) auto
  have "chain ((p_next k)(y := p_next k p)) (process_list k) (ys @ zs)"
    using ch snoc d by auto
  with hd un show ?thesis by auto
qed

section \<open>Properties\<close>

text \<open>
  C36. The kernel's event queue never loses, duplicates or reorders an event: under any
  sequence of \<open>process_post\<close> and of the scheduler taking events, the events taken are the
  accepted ones in order, the rest is still queued, and a post is refused (\<open>PROCESS_ERR_FULL\<close>)
  only when all 16 slots are taken.
\<close>

theorem event_queue_fifo:
  assumes "length (events k) = PROCESS_CONF_NUMEVENTS"
    and "queue_run post_event take_event (process_init k) ops = (t, acc, del)"
  shows "acc = del @ pending_events t \<and> nevents t \<le> PROCESS_CONF_NUMEVENTS \<and>
    (fst (process_post p ev d t) = PROCESS_ERR_FULL \<longleftrightarrow> nevents t = PROCESS_CONF_NUMEVENTS)"
proof -
  have "acc = del @ pending_events t \<and> length (pending_events t) \<le> PROCESS_CONF_NUMEVENTS"
    using event_ring.run_prefix [OF process_init_events(1) [OF assms(1)] process_init_events(2)
        assms(2)] by simp
  then show ?thesis by (simp add: process_post_def Let_def)
qed

abbreviation kernel0 :: kernel where
  "kernel0 \<equiv> \<lparr>process_list = 5, process_current = 0, lastevent = 0, nevents = 0, fevent = 0,
     events = replicate 16 \<lparr>ed_ev = 0, ed_data = 0, ed_p = 0\<rparr>, poll_requested = False,
     p_next = (\<lambda>_. 0)(5 := 6), p_state = (\<lambda>_. 0)(5 := 1, 6 := 1), p_needspoll = (\<lambda>_. False),
     p_has_thread = (\<lambda>_. True), p_pt = (\<lambda>_. 0)\<rparr>"

theorem event_queue_fifo_witness:
  "\<exists>t. queue_run post_event take_event (process_init kernel0)
       [Put \<lparr>ed_ev = 1, ed_data = 0, ed_p = 5\<rparr>, Get, Put \<lparr>ed_ev = 2, ed_data = 0, ed_p = 6\<rparr>] =
       (t, [\<lparr>ed_ev = 1, ed_data = 0, ed_p = 5\<rparr>, \<lparr>ed_ev = 2, ed_data = 0, ed_p = 6\<rparr>],
        [\<lparr>ed_ev = 1, ed_data = 0, ed_p = 5\<rparr>]) \<and>
     pending_events t = [\<lparr>ed_ev = 2, ed_data = 0, ed_p = 6\<rparr>]"
proof -
  obtain t acc del where run: "queue_run post_event take_event (process_init kernel0)
      [Put \<lparr>ed_ev = 1, ed_data = 0, ed_p = 5\<rparr>, Get, Put \<lparr>ed_ev = 2, ed_data = 0, ed_p = 6\<rparr>] =
      (t, acc, del)" by (metis prod_cases3)
  have "length (events kernel0) = PROCESS_CONF_NUMEVENTS" by (simp add: PROCESS_CONF_NUMEVENTS_def)
  from event_queue_fifo [OF this run] run show ?thesis
    by (auto simp: post_event_def process_post_def take_event_def process_init_def
        PROCESS_CONF_NUMEVENTS_def)
qed

text \<open>
  Among well-behaved threads, exiting a process on the process list returns (with fuel
  for the list's length plus 3), takes exactly that process off the list, leaves the state of
  every other process as it was, marks it not running, and restores the current process.
\<close>

theorem process_exit_removes:
  assumes "well_behaved thr" and "states_ok k"
    and "chain (p_next k) (process_list k) (ys @ p # zs)"
    and "length (ys @ p # zs) + 3 \<le> n"
  shows "\<exists>t. process_exit n thr p k = Some t \<and> chain (p_next t) (process_list t) (ys @ zs) \<and>
    p_state t = (p_state k)(p := PROCESS_STATE_NONE) \<and> \<not> process_is_running p t \<and>
    process_current t = process_current k"
proof -
  let ?xs = "ys @ p # zs" and ?fr = "process_current k"
  obtain m where n: "n = Suc m" "length ?xs + 2 \<le> m" using assms(4) by (cases n) auto
  have p: "p \<noteq> NULL" using seg_not_NULL [OF assms(3)] by auto
  have find: "process_find (p_next k) p (process_list k) = Some p"
    using process_find_chain [OF assms(3) p] by simp
  let ?ka = "k\<lparr>p_state := (p_state k)(p := PROCESS_STATE_NONE)\<rparr>"
  obtain k1 where k1: "(if process_is_running p k then do {
         kb \<leftarrow> notify_exited m thr p (process_list ?ka) ?ka;
         Some (if p_has_thread kb p \<and> p \<noteq> ?fr
               then snd (thr p PROCESS_EVENT_EXIT 0 (kb\<lparr>process_current := p\<rparr>)) else kb)
       } else Some k) = Some k1" and t1: "same_table ?ka k1"
  proof (cases "process_is_running p k")
    case False
    then have "(p_state k)(p := PROCESS_STATE_NONE) = p_state k"
      by (auto simp: process_is_running_def)
    then have "same_table ?ka k" by (simp add: same_table_def)
    with False that show ?thesis by simp
  next
    case True
    have "states_ok ?ka" using assms(2) by (simp add: states_ok_def)
    then obtain kb where kb: "notify_exited m thr p (process_list ?ka) ?ka = Some kb"
      and s: "same_table ?ka kb"
      using notify_exited_same_table [OF assms(1), of ?ka "process_list ?ka" ?xs m p] assms(3) n
      by auto
    have "same_table kb (snd (thr p PROCESS_EVENT_EXIT 0 (kb\<lparr>process_current := p\<rparr>)))"
      using assms(1) unfolding well_behaved_def same_table_def by simp
    with s have "same_table ?ka (if p_has_thread kb p \<and> p \<noteq> ?fr
        then snd (thr p PROCESS_EVENT_EXIT 0 (kb\<lparr>process_current := p\<rparr>)) else kb)"
      by (auto intro: same_table_trans)
    with True kb that show ?thesis by simp
  qed
  have "chain (p_next k1) (process_list k1) ?xs" using t1 assms(3) by (simp add: same_table_def)
  from process_unlink_table [OF this] obtain k2 where
    k2: "(if p = process_list k1
       then Some (k1\<lparr>process_list := p_next k1 (process_list k1)\<rparr>)
       else map_option (\<lambda>nx. k1\<lparr>p_next := nx\<rparr>)
         (process_unlink (p_next k1) p (process_list k1))) = Some k2"
    "chain (p_next k2) (process_list k2) (ys @ zs)" "p_state k2 = p_state k1" by blast
  have "process_exit n thr p k = Some (k2\<lparr>process_current := process_current k\<rparr>)"
    by (simp only: process_exit_def n exit_process.simps Let_def find Option.bind.simps p if_False
        k1 k2(1))
  with k2 t1 show ?thesis by (auto simp: same_table_def process_is_running_def)
qed

theorem process_exit_removes_witness:
  "\<exists>t. process_exit 5 (\<lambda>p ev d k. (PT_YIELDED, k)) 6 kernel0 = Some t \<and>
     chain (p_next t) (process_list t) [5] \<and> p_state t 5 = 1 \<and> p_state t 6 = 0"
proof -
  have wb: "well_behaved (\<lambda>p ev d k. (PT_YIELDED, k))" by (simp add: well_behaved_def)
  have st: "states_ok kernel0" by (simp add: states_ok_def)
  have ch: "chain (p_next kernel0) (process_list kernel0) ([5] @ 6 # [])" by simp
  from process_exit_removes [OF wb st ch, of 5] obtain t where
    "process_exit 5 (\<lambda>p ev d k. (PT_YIELDED, k)) 6 kernel0 = Some t"
    "chain (p_next t) (process_list t) ([5] @ [])"
    "p_state t = (p_state kernel0)(6 := PROCESS_STATE_NONE)" by auto
  then show ?thesis by (intro exI [of _ t]) simp
qed

end
