(* ===== verification/Etimer.thy ===== *)
theory Etimer
  imports Process Timers
begin

text \<open>
  Event timers (\<open>core/sys/etimer.c\<close>): an intrusive list of timers, owned by processes, that
  the process \<open>etimer_process\<close> scans on every poll event, posting \<open>PROCESS_EVENT_TIMER\<close> to
  the owner of each expired timer. The state extends the kernel's. The clock is the argument
  \<open>now\<close> of each operation (it does not tick during one), and the list traversals are
  \<^theory_text>\<open>partial_function (option)\<close>.
\<close>

record etimers = kernel +
  timerlist :: ptr
  next_expiration :: u32
  et_timer :: "ptr \<Rightarrow> timer"
  et_next :: "ptr \<Rightarrow> ptr"
  et_p :: "ptr \<Rightarrow> ptr"

text \<open>The address of the process structure; any non-null constant.\<close>

definition etimer_process :: ptr where
  "etimer_process = 1"

section \<open>The operations\<close>

partial_function (option) update_time_loop ::
  "(ptr \<Rightarrow> ptr) \<Rightarrow> (ptr \<Rightarrow> timer) \<Rightarrow> u32 \<Rightarrow> ptr \<Rightarrow> u32 \<Rightarrow> u32 option" where
  "update_time_loop nx tm now t tdist =
     (if t \<noteq> NULL then
        update_time_loop nx tm now (nx t)
          (if tm_start (tm t) + tm_interval (tm t) - now < tdist
           then tm_start (tm t) + tm_interval (tm t) - now else tdist)
      else Some tdist)"

definition update_time :: "u32 \<Rightarrow> 'a etimers_scheme \<Rightarrow> 'a etimers_scheme option" where
  "update_time now s =
     (if timerlist s = NULL then Some (s\<lparr>next_expiration := 0\<rparr>)
      else do {
        let t = timerlist s;
        let tdist = tm_start (et_timer s t) + tm_interval (et_timer s t) - now;
        tdist \<leftarrow> update_time_loop (et_next s) (et_timer s) now (et_next s t) tdist;
        Some (s\<lparr>next_expiration := now + tdist\<rparr>)
      })"

definition etimer_request_poll :: "'a etimers_scheme \<Rightarrow> 'a etimers_scheme" where
  "etimer_request_poll s = process_poll etimer_process s"

text \<open>The two loops of the \<open>PROCESS_EVENT_EXITED\<close> branch.\<close>

partial_function (option) et_skip_owned :: "(ptr \<Rightarrow> ptr) \<Rightarrow> (ptr \<Rightarrow> ptr) \<Rightarrow> ptr \<Rightarrow> ptr \<Rightarrow> ptr option" where
  "et_skip_owned nx ow p l =
     (if l \<noteq> NULL \<and> ow l = p then et_skip_owned nx ow p (nx l) else Some l)"

partial_function (option) et_unlink_owned ::
  "(ptr \<Rightarrow> ptr) \<Rightarrow> (ptr \<Rightarrow> ptr) \<Rightarrow> ptr \<Rightarrow> ptr \<Rightarrow> (ptr \<Rightarrow> ptr) option" where
  "et_unlink_owned nx ow p t =
     (if nx t \<noteq> NULL then
        (if ow (nx t) = p then et_unlink_owned (nx(t := nx (nx t))) ow p t
         else et_unlink_owned nx ow p (nx t))
      else Some nx)"

definition etimer_exited :: "ptr \<Rightarrow> 'a etimers_scheme \<Rightarrow> 'a etimers_scheme option" where
  "etimer_exited p s = do {
     l \<leftarrow> et_skip_owned (et_next s) (et_p s) p (timerlist s);
     let s1 = s\<lparr>timerlist := l\<rparr>;
     if l \<noteq> NULL
     then map_option (\<lambda>nx. s1\<lparr>et_next := nx\<rparr>) (et_unlink_owned (et_next s1) (et_p s1) p l)
     else Some s1
   }"

text \<open>The scan of the poll branch, with \<open>goto again\<close> as the recursive call from the head.\<close>

partial_function (option) etimer_scan ::
  "u32 \<Rightarrow> ptr \<Rightarrow> ptr \<Rightarrow> 'a etimers_scheme \<Rightarrow> 'a etimers_scheme option" where
  "etimer_scan now u t s =
     (if t = NULL then Some s
      else if timer_expired now (et_timer s t) then
        (let (err, s1) = process_post (et_p s t) PROCESS_EVENT_TIMER t s
         in if err = PROCESS_ERR_OK then do {
              let s2 = s1\<lparr>et_p := (et_p s1)(t := NULL)\<rparr>;
              let s3 = (if u \<noteq> NULL then s2\<lparr>et_next := (et_next s2)(u := et_next s2 t)\<rparr>
                        else s2\<lparr>timerlist := et_next s2 t\<rparr>);
              let s4 = s3\<lparr>et_next := (et_next s3)(t := NULL)\<rparr>;
              s5 \<leftarrow> update_time now s4;
              etimer_scan now NULL (timerlist s5) s5
            }
            else let s2 = etimer_request_poll s1 in etimer_scan now t (et_next s2 t) s2)
      else etimer_scan now t (et_next s t) s)"

text \<open>
  The body of \<open>PROCESS_THREAD(etimer_process, ev, data)\<close> for one event: the first event after
  \<open>PT_INIT\<close> runs the statements before the loop up to the yield.
\<close>

definition etimer_thread :: "u32 \<Rightarrow> u8 \<Rightarrow> nat \<Rightarrow> 'a etimers_scheme \<Rightarrow> 'a etimers_scheme option" where
  "etimer_thread now ev data s =
     (if p_pt s etimer_process = 0
      then Some (s\<lparr>timerlist := NULL, p_pt := (p_pt s)(etimer_process := 1)\<rparr>)
      else if ev = PROCESS_EVENT_EXITED then etimer_exited data s
      else if ev \<noteq> PROCESS_EVENT_POLL then Some s
      else etimer_scan now NULL (timerlist s) s)"

partial_function (option) et_on_list :: "(ptr \<Rightarrow> ptr) \<Rightarrow> ptr \<Rightarrow> ptr \<Rightarrow> bool option" where
  "et_on_list nx timer t =
     (if t \<noteq> NULL then (if t = timer then Some True else et_on_list nx timer (nx t))
      else Some False)"

definition add_timer :: "u32 \<Rightarrow> ptr \<Rightarrow> 'a etimers_scheme \<Rightarrow> 'a etimers_scheme option" where
  "add_timer now timer s = do {
     let s1 = etimer_request_poll s;
     on \<leftarrow> (if et_p s1 timer \<noteq> NULL then et_on_list (et_next s1) timer (timerlist s1)
            else Some False);
     if on then update_time now (s1\<lparr>et_p := (et_p s1)(timer := process_current s1)\<rparr>)
     else update_time now (s1\<lparr>et_p := (et_p s1)(timer := process_current s1),
       et_next := (et_next s1)(timer := timerlist s1), timerlist := timer\<rparr>)
   }"

definition etimer_set :: "u32 \<Rightarrow> ptr \<Rightarrow> u32 \<Rightarrow> 'a etimers_scheme \<Rightarrow> 'a etimers_scheme option" where
  "etimer_set now et interval s =
     add_timer now et (s\<lparr>et_timer := (et_timer s)(et := timer_set now (et_timer s et) interval)\<rparr>)"

definition etimer_reset :: "u32 \<Rightarrow> ptr \<Rightarrow> 'a etimers_scheme \<Rightarrow> 'a etimers_scheme option" where
  "etimer_reset now et s =
     add_timer now et (s\<lparr>et_timer := (et_timer s)(et := timer_reset (et_timer s et))\<rparr>)"

definition etimer_restart :: "u32 \<Rightarrow> ptr \<Rightarrow> 'a etimers_scheme \<Rightarrow> 'a etimers_scheme option" where
  "etimer_restart now et s =
     add_timer now et (s\<lparr>et_timer := (et_timer s)(et := timer_restart now (et_timer s et))\<rparr>)"

definition etimer_adjust :: "u32 \<Rightarrow> ptr \<Rightarrow> u32 \<Rightarrow> 'a etimers_scheme \<Rightarrow> 'a etimers_scheme option" where
  "etimer_adjust now et timediff s = update_time now
     (s\<lparr>et_timer := (et_timer s)(et := (et_timer s et)
         \<lparr>tm_start := tm_start (et_timer s et) + timediff\<rparr>)\<rparr>)"

definition etimer_expired :: "ptr \<Rightarrow> 'a etimers_scheme \<Rightarrow> bool" where
  "etimer_expired et s \<longleftrightarrow> et_p s et = NULL"

definition etimer_expiration_time :: "ptr \<Rightarrow> 'a etimers_scheme \<Rightarrow> u32" where
  "etimer_expiration_time et s = tm_start (et_timer s et) + tm_interval (et_timer s et)"

definition etimer_start_time :: "ptr \<Rightarrow> 'a etimers_scheme \<Rightarrow> u32" where
  "etimer_start_time et s = tm_start (et_timer s et)"

definition etimer_pending :: "'a etimers_scheme \<Rightarrow> bool" where
  "etimer_pending s \<longleftrightarrow> timerlist s \<noteq> NULL"

definition etimer_next_expiration_time :: "'a etimers_scheme \<Rightarrow> u32" where
  "etimer_next_expiration_time s = (if etimer_pending s then next_expiration s else 0)"

text \<open>\<open>for(t = timerlist; t != NULL && t->next != et; t = t->next);\<close>\<close>

partial_function (option) et_find_prev :: "(ptr \<Rightarrow> ptr) \<Rightarrow> ptr \<Rightarrow> ptr \<Rightarrow> ptr option" where
  "et_find_prev nx et t = (if t \<noteq> NULL \<and> nx t \<noteq> et then et_find_prev nx et (nx t) else Some t)"

definition etimer_stop :: "u32 \<Rightarrow> ptr \<Rightarrow> 'a etimers_scheme \<Rightarrow> 'a etimers_scheme option" where
  "etimer_stop now et s = do {
     s1 \<leftarrow> (if et = timerlist s
            then update_time now (s\<lparr>timerlist := et_next s (timerlist s)\<rparr>)
            else do {
              t \<leftarrow> et_find_prev (et_next s) et (timerlist s);
              if t \<noteq> NULL then update_time now (s\<lparr>et_next := (et_next s)(t := et_next s et)\<rparr>)
              else Some s
            });
     Some (s1\<lparr>et_next := (et_next s1)(et := NULL), et_p := (et_p s1)(et := NULL)\<rparr>)
   }"

section \<open>Invariant and the next expiration time\<close>

text \<open>The timers on the list, each with an owner.\<close>

definition et_wf :: "'a etimers_scheme \<Rightarrow> ptr list \<Rightarrow> bool" where
  "et_wf s xs \<longleftrightarrow> chain (et_next s) (timerlist s) xs \<and> (\<forall>x \<in> set xs. et_p s x \<noteq> NULL)"

abbreviation et_left :: "u32 \<Rightarrow> 'a etimers_scheme \<Rightarrow> ptr \<Rightarrow> u32" where
  "et_left now s x \<equiv> tm_start (et_timer s x) + tm_interval (et_timer s x) - now"

lemma update_time_loop_chain:
  "chain nx t xs \<Longrightarrow> update_time_loop nx tm now t d =
     Some (Min (insert d ((\<lambda>x. tm_start (tm x) + tm_interval (tm x) - now) ` set xs)))"
proof (induction xs arbitrary: t d)
  case Nil
  then show ?case by (simp add: update_time_loop.simps)
next
  case (Cons x xs)
  let ?r = "\<lambda>x. tm_start (tm x) + tm_interval (tm x) - now"
  have "Min (insert (if ?r x < d then ?r x else d) (?r ` set xs)) =
      Min (insert d (?r ` set (x # xs)))"
  proof -
    have m: "(if ?r x < d then ?r x else d) = min (?r x) d" by (auto simp: min_def)
    show ?thesis
      unfolding m by (cases "xs = []") (simp_all add: ac_simps)
  qed
  with Cons show ?case by (auto simp: update_time_loop.simps [of nx tm now x])
qed

lemma update_time_chain:
  assumes "chain (et_next s) (timerlist s) xs"
  shows "update_time now s = Some (s\<lparr>next_expiration :=
    (if xs = [] then 0 else now + Min (et_left now s ` set xs))\<rparr>)"
proof (cases xs)
  case Nil
  with assms show ?thesis by (simp add: update_time_def)
next
  case (Cons x ys)
  with assms have "timerlist s = x" "x \<noteq> NULL" "chain (et_next s) (et_next s x) ys" by auto
  then show ?thesis by (simp add: update_time_def Let_def update_time_loop_chain Cons)
qed

section \<open>The scan of expired timers\<close>

lemma etimer_request_poll_simps [simp]:
  "et_timer (etimer_request_poll s) = et_timer s" "et_next (etimer_request_poll s) = et_next s"
  "et_p (etimer_request_poll s) = et_p s" "timerlist (etimer_request_poll s) = timerlist s"
  "nevents (etimer_request_poll s) = nevents s" "events (etimer_request_poll s) = events s"
  "fevent (etimer_request_poll s) = fevent s" "p_state (etimer_request_poll s) = p_state s"
  "process_current (etimer_request_poll s) = process_current s"
  by (simp_all add: etimer_request_poll_def process_poll_def)

lemma etimer_request_poll_idem [simp]:
  "etimer_request_poll (etimer_request_poll s) = etimer_request_poll s"
  by (simp add: etimer_request_poll_def process_poll_def)

lemma scan_skip:
  "seg (et_next s) t ps z \<Longrightarrow> \<forall>x \<in> set ps. \<not> timer_expired now (et_timer s x) \<Longrightarrow>
    etimer_scan now u t s = etimer_scan now (if ps = [] then u else last ps) z s"
proof (induction ps arbitrary: u t)
  case (Cons x ps)
  then show ?case by (auto simp: etimer_scan.simps [of now u x])
qed simp

lemma scan_full:
  "chain (et_next s) t zs \<Longrightarrow> nevents s = PROCESS_CONF_NUMEVENTS \<Longrightarrow>
    etimer_scan now u t s = Some (if \<exists>z \<in> set zs. timer_expired now (et_timer s z)
      then etimer_request_poll s else s)"
proof (induction zs arbitrary: u t s)
  case Nil
  then show ?case by (simp add: etimer_scan.simps)
next
  case (Cons x zs)
  then have t: "t = x" "x \<noteq> NULL" and ch: "chain (et_next s) (et_next s x) zs" by auto
  have full: "process_post p ev d s = (PROCESS_ERR_FULL, s)" for p ev d
    using Cons.prems(2) by (simp add: process_post_def)
  show ?case
  proof (cases "timer_expired now (et_timer s x)")
    case True
    with Cons.IH [of "etimer_request_poll s" "et_next s x" x] ch Cons.prems(2) t full
    show ?thesis by (auto simp: etimer_scan.simps [of now u x] Let_def)
  next
    case False
    with Cons.IH [OF ch Cons.prems(2), of x] t
    show ?thesis by (auto simp: etimer_scan.simps [of now u x])
  qed
qed

text \<open>Posting the first expired timer of the list and starting over.\<close>

lemma scan_post_step:
  assumes "t \<noteq> NULL" and "timer_expired now (et_timer s t)"
    and "process_post (et_p s t) PROCESS_EVENT_TIMER t s = (PROCESS_ERR_OK, s1)"
    and "s2 = s1\<lparr>et_p := (et_p s1)(t := NULL)\<rparr>"
    and "s3 = (if u \<noteq> NULL then s2\<lparr>et_next := (et_next s2)(u := et_next s2 t)\<rparr>
          else s2\<lparr>timerlist := et_next s2 t\<rparr>)"
    and "s4 = s3\<lparr>et_next := (et_next s3)(t := NULL)\<rparr>"
    and "update_time now s4 = Some s5"
  shows "etimer_scan now u t s = etimer_scan now NULL (timerlist s5) s5"
proof -
  have n: "(t = NULL) = False" using assms(1) by simp
  show ?thesis
    by (subst etimer_scan.simps)
      (simp only: n if_False if_True assms(2,3) Let_def prod.case refl
        assms(7) [unfolded assms(6), unfolded assms(5), unfolded assms(4)] Option.bind.simps)
qed


lemma scan_post:
  assumes wf: "et_wf s (ps @ z # zs)" and ok: "k_events_ok s"
    and room: "nevents s < PROCESS_CONF_NUMEVENTS"
    and ps: "\<forall>x \<in> set ps. \<not> timer_expired now (et_timer s x)"
    and z: "timer_expired now (et_timer s z)"
  obtains t where "etimer_scan now NULL (timerlist s) s = etimer_scan now NULL (timerlist t) t"
    "et_wf t (ps @ zs)" "k_events_ok t" "nevents t = Suc (nevents s)"
    "pending_events t = pending_events s @
       [\<lparr>ed_ev = PROCESS_EVENT_TIMER, ed_data = z, ed_p = et_p s z\<rparr>]"
    "et_timer t = et_timer s" "et_p t = (et_p s)(z := NULL)" "p_state t = p_state s"
proof -
  let ?e = "\<lparr>ed_ev = PROCESS_EVENT_TIMER, ed_data = z, ed_p = et_p s z\<rparr>"
  from wf have ch: "chain (et_next s) (timerlist s) (ps @ z # zs)"
    and ow: "\<forall>x \<in> set (ps @ z # zs). et_p s x \<noteq> NULL" by (auto simp: et_wf_def)
  have d: "distinct (ps @ z # zs)" using ch by (rule chain_distinct)
  have nn: "NULL \<notin> set (ps @ z # zs)" using ch by (rule seg_not_NULL)
  let ?u = "if ps = [] then NULL else last ps"
  from ch have sg: "seg (et_next s) (timerlist s) ps z" by auto
  have skip: "etimer_scan now NULL (timerlist s) s = etimer_scan now ?u z s"
    using scan_skip [OF sg ps] by simp
  let ?s1 = "s\<lparr>events := (events s)[(fevent s + nevents s) mod PROCESS_CONF_NUMEVENTS := ?e],
      nevents := nevents s + 1\<rparr>"
  have post: "process_post (et_p s z) PROCESS_EVENT_TIMER z s = (PROCESS_ERR_OK, ?s1)"
    using room by (simp add: process_post_def Let_def)
  have pev: "post_event s ?e = (True, ?s1)" using post by (simp add: post_event_def)
  note law = post_event_law [OF ok pev]
  let ?s2 = "?s1\<lparr>et_p := (et_p s)(z := NULL)\<rparr>"
  let ?s3 = "if ?u \<noteq> NULL then ?s2\<lparr>et_next := (et_next s)(?u := et_next s z)\<rparr>
    else ?s2\<lparr>timerlist := et_next s z\<rparr>"
  let ?s4 = "?s3\<lparr>et_next := (et_next ?s3)(z := NULL)\<rparr>"
  have ch4: "chain (et_next ?s4) (timerlist ?s4) (ps @ zs)"
  proof (cases "ps = []")
    case True
    with ch d show ?thesis by auto
  next
    case False
    have u: "last ps \<in> set ps" using False by simp
    then have u': "last ps \<noteq> NULL" "last ps \<noteq> z" "last ps \<notin> set zs" using nn d by (metis UnCI set_append, auto)
    have "seg ((et_next s)(last ps := et_next s z)) (timerlist s) ps (et_next s z)"
      using sg False d by (intro seg_redirect) auto
    then have "seg ((et_next s)(last ps := et_next s z, z := NULL)) (timerlist s) ps (et_next s z)"
      using d by simp
    with False u' ch d show ?thesis by auto
  qed
  have "update_time now ?s4 = Some (?s4\<lparr>next_expiration :=
      (if ps @ zs = [] then 0 else now + Min (et_left now ?s4 ` set (ps @ zs)))\<rparr>)"
    by (rule update_time_chain [OF ch4])
  then obtain e where up: "update_time now ?s4 = Some (?s4\<lparr>next_expiration := e\<rparr>)" by blast
  let ?t = "?s4\<lparr>next_expiration := e\<rparr>"
  have zn: "z \<noteq> NULL" using nn by auto
  have "etimer_scan now ?u z s = etimer_scan now NULL (timerlist ?t) ?t"
    by (rule scan_post_step [OF zn z post _ _ _ up, of ?s2 ?s3]) simp_all
  moreover have "et_wf ?t (ps @ zs)" using ch4 ow d by (auto simp: et_wf_def)
  moreover have "k_events_ok ?t" "nevents ?t = Suc (nevents s)"
    "pending_events ?t = pending_events s @ [?e]"
    using law by (auto simp: k_events_ok_def pending_events_def)
  ultimately show ?thesis using that [of ?t] skip by auto
qed

text \<open>The events that the scan posts and the timers that it takes off the list.\<close>

definition et_due :: "u32 \<Rightarrow> 'a etimers_scheme \<Rightarrow> ptr list \<Rightarrow> ptr list" where
  "et_due now s xs = filter (\<lambda>x. timer_expired now (et_timer s x)) xs"

abbreviation timer_event :: "'a etimers_scheme \<Rightarrow> ptr \<Rightarrow> event_data" where
  "timer_event s x \<equiv> \<lparr>ed_ev = PROCESS_EVENT_TIMER, ed_data = x, ed_p = et_p s x\<rparr>"

definition et_scanned :: "u32 \<Rightarrow> 'a etimers_scheme \<Rightarrow> ptr list \<Rightarrow> ptr list \<Rightarrow>
  'a etimers_scheme \<Rightarrow> bool" where
  "et_scanned now s xs posted t \<longleftrightarrow>
     posted = take (PROCESS_CONF_NUMEVENTS - nevents s) (et_due now s xs) \<and>
     et_wf t (filter (\<lambda>x. x \<notin> set posted) xs) \<and> k_events_ok t \<and>
     pending_events t = pending_events s @ map (timer_event s) posted \<and>
     et_timer t = et_timer s \<and>
     et_p t = (\<lambda>x. if x \<in> set posted then NULL else et_p s x) \<and>
     p_state t = p_state s \<and>
     (posted \<noteq> et_due now s xs \<longrightarrow>
       p_state s etimer_process = PROCESS_STATE_RUNNING \<or>
       p_state s etimer_process = PROCESS_STATE_CALLED \<longrightarrow>
       p_needspoll t etimer_process \<and> poll_requested t)"

lemma etimer_request_poll_events [simp]:
  "k_events_ok (etimer_request_poll s) = k_events_ok s"
  "pending_events (etimer_request_poll s) = pending_events s"
  "et_wf (etimer_request_poll s) xs = et_wf s xs"
  by (simp_all add: k_events_ok_def pending_events_def et_wf_def)

lemma etimer_request_poll_needspoll:
  "p_state s etimer_process = PROCESS_STATE_RUNNING \<or>
     p_state s etimer_process = PROCESS_STATE_CALLED \<Longrightarrow>
   p_needspoll (etimer_request_poll s) etimer_process \<and> poll_requested (etimer_request_poll s)"
  by (auto simp: etimer_request_poll_def process_poll_def etimer_process_def)

lemma et_scanned_stop:
  assumes "et_wf s xs" and "k_events_ok s"
    and "nevents s = PROCESS_CONF_NUMEVENTS \<or> et_due now s xs = []"
  shows "et_scanned now s xs [] (if et_due now s xs = [] then s else etimer_request_poll s)"
  using assms etimer_request_poll_needspoll [of s] by (auto simp: et_scanned_def)

lemma et_due_first:
  "\<forall>x \<in> set ps. \<not> timer_expired now (et_timer s x) \<Longrightarrow> timer_expired now (et_timer s z) \<Longrightarrow>
    et_due now s (ps @ z # zs) = z # et_due now s zs \<and> et_due now s (ps @ zs) = et_due now s zs"
  by (simp add: et_due_def filter_empty_conv)

lemma et_scanned_post:
  assumes d: "distinct (ps @ z # zs)" and room: "nevents s < PROCESS_CONF_NUMEVENTS"
    and due: "\<forall>x \<in> set ps. \<not> timer_expired now (et_timer s x)" "timer_expired now (et_timer s z)"
    and t: "nevents t = Suc (nevents s)"
      "pending_events t = pending_events s @ [timer_event s z]"
      "et_timer t = et_timer s" "et_p t = (et_p s)(z := NULL)" "p_state t = p_state s"
    and sc: "et_scanned now t (ps @ zs) posted u"
  shows "et_scanned now s (ps @ z # zs) (z # posted) u"
proof -
  have ds: "et_due now s (ps @ z # zs) = z # et_due now s zs"
    "et_due now t (ps @ zs) = et_due now s zs"
    using et_due_first [OF due, of zs] t(3) by (simp_all only: et_due_def)
  have po: "posted = take (PROCESS_CONF_NUMEVENTS - Suc (nevents s)) (et_due now s zs)"
    using sc t(1) ds by (simp add: et_scanned_def)
  then have sub: "set posted \<subseteq> set zs"
    by (auto simp: et_due_def dest: in_set_takeD)
  then have zp: "z \<notin> set posted" using d by auto
  have 1: "z # posted = take (PROCESS_CONF_NUMEVENTS - nevents s) (et_due now s (ps @ z # zs))"
    using po room by (simp only: ds(1)) (simp add: take_Cons' Suc_diff_Suc)
  have 2: "filter (\<lambda>x. x \<notin> set (z # posted)) (ps @ z # zs) = filter (\<lambda>x. x \<notin> set posted) (ps @ zs)"
  proof -
    have "filter (\<lambda>x. x \<noteq> z \<and> x \<notin> set posted) ys = filter (\<lambda>x. x \<notin> set posted) ys"
      if "z \<notin> set ys" for ys
      using that by (auto intro: filter_cong)
    with d show ?thesis by simp
  qed
  have 3: "map (timer_event t) posted = map (timer_event s) posted"
    using zp t(4) by (auto intro!: map_cong)
  have 4: "(\<lambda>x. if x \<in> set posted then NULL else et_p t x) =
      (\<lambda>x. if x \<in> set (z # posted) then NULL else et_p s x)"
    by (auto simp: t(4))
  have 5: "z # posted \<noteq> et_due now s (ps @ z # zs) \<longleftrightarrow> posted \<noteq> et_due now t (ps @ zs)"
    by (simp only: ds list.inject simp_thms)
  have "pending_events u = pending_events s @ map (timer_event s) (z # posted)"
    using sc 3 t(2) by (simp add: et_scanned_def)
  moreover have "et_p u = (\<lambda>x. if x \<in> set (z # posted) then NULL else et_p s x)"
    using sc 4 by (simp only: et_scanned_def)
  moreover have "et_wf u (filter (\<lambda>x. x \<notin> set (z # posted)) (ps @ z # zs))"
    using sc unfolding et_scanned_def 2 by blast
  ultimately show ?thesis
    using sc 1 unfolding et_scanned_def 5 t(3,5) by blast
qed

lemma etimer_scan_scanned:
  assumes "et_wf s xs" and "k_events_ok s"
  shows "\<exists>t posted. etimer_scan now NULL (timerlist s) s = Some t \<and> et_scanned now s xs posted t"
  using assms
proof (induction "length xs" arbitrary: xs s rule: less_induct)
  case less
  then have ch: "chain (et_next s) (timerlist s) xs" by (simp add: et_wf_def)
  show ?case
  proof (cases "nevents s = PROCESS_CONF_NUMEVENTS \<or> et_due now s xs = []")
    case True
    have "etimer_scan now NULL (timerlist s) s =
        Some (if et_due now s xs = [] then s else etimer_request_poll s)"
    proof (cases "et_due now s xs = []")
      case True
      then show ?thesis using scan_skip [OF ch, of now NULL]
        by (simp add: et_due_def filter_empty_conv etimer_scan.simps [of now _ NULL])
    next
      case False
      then show ?thesis using True scan_full [OF ch, of now NULL]
        by (auto simp: et_due_def filter_empty_conv)
    qed
    with et_scanned_stop [OF less.prems True] show ?thesis by blast
  next
    case False
    then obtain ps z zs where xs: "xs = ps @ z # zs" "timer_expired now (et_timer s z)"
        "\<forall>x \<in> set ps. \<not> timer_expired now (et_timer s x)"
      using split_list_first_prop [of xs "\<lambda>x. timer_expired now (et_timer s x)"]
      by (auto simp: et_due_def filter_empty_conv)
    have room: "nevents s < PROCESS_CONF_NUMEVENTS"
      using False less.prems(2) by (simp add: k_events_ok_def)
    from scan_post [OF less.prems(1) [unfolded xs] less.prems(2) room xs(3,2)] obtain t where
      t: "etimer_scan now NULL (timerlist s) s = etimer_scan now NULL (timerlist t) t"
      "et_wf t (ps @ zs)" "k_events_ok t" "nevents t = Suc (nevents s)"
      "pending_events t = pending_events s @ [timer_event s z]"
      "et_timer t = et_timer s" "et_p t = (et_p s)(z := NULL)" "p_state t = p_state s" by blast
    have "length (ps @ zs) < length xs" using xs by simp
    from less.hyps [OF this t(2,3)] obtain u posted where
      u: "etimer_scan now NULL (timerlist t) t = Some u" "et_scanned now t (ps @ zs) posted u" by blast
    have "distinct (ps @ z # zs)" using ch xs by (simp only:) (rule chain_distinct)
    from et_scanned_post [OF this room xs(3,2) t(4-8) u(2)] show ?thesis
      using t(1) u(1) xs(1) by auto
  qed
qed

section \<open>Adding, stopping and the exit of an owner\<close>

lemma et_on_list_chain:
  "chain nx t xs \<Longrightarrow> et_on_list nx e t = Some (e \<in> set xs)"
  by (induction xs arbitrary: t) (auto simp: et_on_list.simps)

lemma et_skip_owned_chain:
  "chain nx l xs \<Longrightarrow> \<exists>h. et_skip_owned nx ow p l = Some h \<and>
    chain nx h (dropWhile (\<lambda>x. ow x = p) xs)"
proof (induction xs arbitrary: l)
  case Nil
  then show ?case by (simp add: et_skip_owned.simps)
next
  case (Cons x xs)
  then show ?case by (cases "ow x = p") (auto simp: et_skip_owned.simps [of nx ow p x])
qed

lemma et_unlink_owned_chain:
  "chain nx t (t # xs) \<Longrightarrow> \<exists>nx'. et_unlink_owned nx ow p t = Some nx' \<and>
    chain nx' t (t # filter (\<lambda>x. ow x \<noteq> p) xs) \<and> (\<forall>y. y \<notin> set (t # xs) \<longrightarrow> nx' y = nx y)"
proof (induction xs arbitrary: nx t)
  case Nil
  then show ?case by (simp add: et_unlink_owned.simps)
next
  case (Cons x xs)
  then have ch: "nx t = x" "x \<noteq> NULL" "t \<noteq> NULL" "chain nx (nx x) xs" by auto
  have d: "distinct (t # x # xs)" using Cons.prems by (rule chain_distinct)
  show ?case
  proof (cases "ow x = p")
    case True
    have "chain (nx(t := nx x)) t (t # xs)" using ch d by auto
    from Cons.IH [OF this] obtain nx' where n: "et_unlink_owned (nx(t := nx x)) ow p t = Some nx'"
      "chain nx' t (t # filter (\<lambda>x. ow x \<noteq> p) xs)"
      "\<forall>y. y \<notin> set (t # xs) \<longrightarrow> nx' y = (nx(t := nx x)) y" by blast
    have "et_unlink_owned nx ow p t = Some nx'"
      using n(1) True ch by (simp only: et_unlink_owned.simps [of nx ow p t] if_True) simp
    moreover have "\<forall>y. y \<notin> set (t # x # xs) \<longrightarrow> nx' y = nx y" using n(3) by simp
    ultimately show ?thesis using n(2) True by simp
  next
    case False
    have "chain nx x (x # xs)" using ch by auto
    from Cons.IH [OF this] obtain nx' where n: "et_unlink_owned nx ow p x = Some nx'"
      "chain nx' x (x # filter (\<lambda>x. ow x \<noteq> p) xs)" "\<forall>y. y \<notin> set (x # xs) \<longrightarrow> nx' y = nx y" by blast
    then have "nx' t = x" using d ch by auto
    with n False ch show ?thesis by (auto simp: et_unlink_owned.simps [of nx ow p t])
  qed
qed

lemma filter_dropWhile: "filter (\<lambda>x. \<not> P x) (dropWhile P xs) = filter (\<lambda>x. \<not> P x) xs"
  by (induction xs) auto

lemma etimer_exited_chain:
  assumes "et_wf s xs"
  shows "\<exists>t. etimer_exited p s = Some t \<and> et_wf t (filter (\<lambda>x. et_p s x \<noteq> p) xs) \<and>
    et_p t = et_p s \<and> et_timer t = et_timer s \<and> kernel.truncate t = kernel.truncate s"
proof -
  let ?ys = "dropWhile (\<lambda>x. et_p s x = p) xs"
  from assms have ch: "chain (et_next s) (timerlist s) xs"
    and ow: "\<forall>x \<in> set xs. et_p s x \<noteq> NULL" by (auto simp: et_wf_def)
  obtain h where h: "et_skip_owned (et_next s) (et_p s) p (timerlist s) = Some h"
    "chain (et_next s) h ?ys" using et_skip_owned_chain [OF ch] by blast
  have fe: "filter (\<lambda>x. et_p s x \<noteq> p) xs = filter (\<lambda>x. et_p s x \<noteq> p) ?ys"
    by (rule filter_dropWhile [symmetric])
  show ?thesis
  proof (cases ?ys)
    case Nil
    with h have "etimer_exited p s = Some (s\<lparr>timerlist := NULL\<rparr>)"
      by (simp add: etimer_exited_def)
    moreover have "filter (\<lambda>x. et_p s x \<noteq> p) xs = []" using fe Nil by simp
    ultimately show ?thesis by (simp add: et_wf_def kernel.truncate_def)
  next
    case (Cons y ys)
    then have y: "et_p s y \<noteq> p" by (metis (mono_tags, lifting) hd_dropWhile list.sel(1) list.discI)
    from h(2) Cons have hy: "h = y" "h \<noteq> NULL" "chain (et_next s) h (h # ys)" by auto
    from et_unlink_owned_chain [OF hy(3), of "et_p s" p] obtain nx' where
      n: "et_unlink_owned (et_next s) (et_p s) p h = Some nx'"
      "chain nx' h (h # filter (\<lambda>x. et_p s x \<noteq> p) ys)" by blast
    have "filter (\<lambda>x. et_p s x \<noteq> p) xs = h # filter (\<lambda>x. et_p s x \<noteq> p) ys"
      using fe Cons y hy by simp
    moreover have "etimer_exited p s = Some (s\<lparr>timerlist := h, et_next := nx'\<rparr>)"
      using h(1) n(1) hy by (simp add: etimer_exited_def)
    moreover have "\<forall>x \<in> set (filter (\<lambda>x. et_p s x \<noteq> p) xs). et_p s x \<noteq> NULL" using ow by simp
    ultimately show ?thesis using n(2) by (auto simp: et_wf_def kernel.truncate_def)
  qed
qed

lemma et_find_prev_chain:
  "chain nx t xs \<Longrightarrow> t \<noteq> e \<Longrightarrow> e \<noteq> NULL \<Longrightarrow> et_find_prev nx e t =
     Some (if e \<in> set xs then last (takeWhile (\<lambda>x. x \<noteq> e) xs) else NULL)"
proof (induction xs arbitrary: t)
  case Nil
  then show ?case by (simp add: et_find_prev.simps)
next
  case (Cons x xs)
  then have c: "t = x" "x \<noteq> NULL" "chain nx (nx x) xs" by auto
  show ?case
  proof (cases "nx x = e")
    case True
    then have "xs \<noteq> [] \<and> hd xs = e" using c Cons.prems(3) by (cases xs) auto
    then have "e \<in> set xs" "takeWhile (\<lambda>x. x \<noteq> e) xs = []" by (cases xs; simp)+
    then show ?thesis using True c Cons.prems(2) by (simp add: et_find_prev.simps [of nx e x])
  next
    case False
    then have "e \<in> set xs \<Longrightarrow> takeWhile (\<lambda>x. x \<noteq> e) xs \<noteq> []" using c by (cases xs) auto
    with Cons.IH [OF c(3) False Cons.prems(3)] c False Cons.prems(2)
    show ?thesis by (auto simp: et_find_prev.simps [of nx e x])
  qed
qed

lemma add_timer_wf:
  assumes wf: "et_wf s xs" and cur: "process_current s \<noteq> NULL" and e: "e \<noteq> NULL"
  shows "\<exists>t. add_timer now e s = Some t \<and>
    et_wf t (if e \<in> set xs \<and> et_p s e \<noteq> NULL then xs else e # xs) \<and>
    et_p t = (et_p s)(e := process_current s) \<and> et_timer t = et_timer s \<and>
    next_expiration t = now + Min (et_left now s ` set (e # xs)) \<and>
    p_state t = p_state s"
proof -
  let ?s1 = "etimer_request_poll s"
  from wf have ch: "chain (et_next s) (timerlist s) xs" and ow: "\<forall>x \<in> set xs. et_p s x \<noteq> NULL"
    by (auto simp: et_wf_def)
  have on: "(if et_p ?s1 e \<noteq> NULL then et_on_list (et_next ?s1) e (timerlist ?s1) else Some False) =
      Some (e \<in> set xs)"
    using ow et_on_list_chain [OF ch] by auto
  show ?thesis
  proof (cases "e \<in> set xs")
    case True
    let ?t = "?s1\<lparr>et_p := (et_p ?s1)(e := process_current ?s1)\<rparr>"
    have c: "chain (et_next ?t) (timerlist ?t) xs" using ch by simp
    have "xs \<noteq> []" "set (e # xs) = set xs" using True by auto
    with update_time_chain [OF c, of now] on True cur ow ch show ?thesis
      by (auto simp: add_timer_def et_wf_def)
  next
    case False
    let ?t = "?s1\<lparr>et_p := (et_p ?s1)(e := process_current ?s1),
       et_next := (et_next ?s1)(e := timerlist ?s1), timerlist := e\<rparr>"
    have c: "chain (et_next ?t) (timerlist ?t) (e # xs)" using ch e False by simp
    with update_time_chain [OF c, of now] on False cur ow show ?thesis
      by (auto simp: add_timer_def et_wf_def Let_def)
  qed
qed

section \<open>Properties\<close>

text \<open>
  C35. One poll of the event-timer process returns; it posts a timer event to the owner of
  the expired timers in list order, as many as the event queue has room for, takes exactly
  these off the list and marks them expired, keeps all others, and when an expired timer had
  to wait for room it asks to be polled again.
\<close>

theorem etimer_poll_delivers:
  assumes "et_wf s xs" and "k_events_ok s" and "p_pt s etimer_process \<noteq> 0"
  shows "\<exists>t posted. etimer_thread now PROCESS_EVENT_POLL d s = Some t \<and>
    posted = take (PROCESS_CONF_NUMEVENTS - nevents s) (et_due now s xs) \<and>
    pending_events t = pending_events s @ map (timer_event s) posted \<and>
    et_wf t (filter (\<lambda>x. x \<notin> set posted) xs) \<and> k_events_ok t \<and>
    (\<forall>x. etimer_expired x t \<longleftrightarrow> x \<in> set posted \<or> etimer_expired x s) \<and>
    (posted \<noteq> et_due now s xs \<longrightarrow> p_state s etimer_process = PROCESS_STATE_CALLED \<longrightarrow>
      p_needspoll t etimer_process \<and> poll_requested t)"
  using etimer_scan_scanned [OF assms(1,2), of now] assms(3)
  by (fastforce simp: etimer_thread_def et_scanned_def etimer_expired_def)

abbreviation etimers0 :: etimers where
  "etimers0 \<equiv> \<lparr>process_list = 1, process_current = 5, lastevent = 0, nevents = 0, fevent = 0,
     events = replicate 16 \<lparr>ed_ev = 0, ed_data = 0, ed_p = 0\<rparr>, poll_requested = False,
     p_next = (\<lambda>_. 0), p_state = (\<lambda>_. 0)(1 := 2), p_needspoll = (\<lambda>_. False),
     p_has_thread = (\<lambda>_. True), p_pt = (\<lambda>_. 1), timerlist = 10, next_expiration = 0,
     et_timer = (\<lambda>_. \<lparr>tm_start = 0, tm_interval = 7\<rparr>)(11 := \<lparr>tm_start = 0, tm_interval = 3\<rparr>),
     et_next = (\<lambda>_. 0)(10 := 11), et_p = (\<lambda>_. 0)(10 := 5, 11 := 6)\<rparr>"

lemma etimers0_wf: "et_wf etimers0 [10, 11]" "k_events_ok etimers0"
  by (simp_all add: et_wf_def k_events_ok_def PROCESS_CONF_NUMEVENTS_def)

theorem etimer_poll_delivers_witness:
  "\<exists>t. etimer_thread 5 PROCESS_EVENT_POLL 0 etimers0 = Some t \<and>
     pending_events t = [\<lparr>ed_ev = PROCESS_EVENT_TIMER, ed_data = 11, ed_p = 6\<rparr>] \<and>
     et_wf t [10] \<and> etimer_expired 11 t \<and> \<not> etimer_expired 10 t"
proof -
  have due: "et_due 5 etimers0 [10, 11] = [11]"
    by (simp add: et_due_def timer_expired_def)
  have e: "pending_events etimers0 = []" by (simp add: pending_events_def)
  from etimer_poll_delivers [OF etimers0_wf, of 5 0]
  show ?thesis unfolding due e
    by (auto simp: PROCESS_CONF_NUMEVENTS_def etimer_expired_def simp flip: neq0_conv)
qed

text \<open>
  A process that sets a timer gets it on the list (once, also when it already was
  there) with itself as the owner, expiring \<open>interval\<close> ticks from now, and the next expiration
  time is the earliest one of the list.
\<close>

theorem etimer_set_correct:
  assumes "et_wf s xs" and "process_current s \<noteq> NULL" and "et \<noteq> NULL"
  shows "\<exists>t ys. etimer_set now et interval s = Some t \<and> et_wf t ys \<and> set ys = insert et (set xs) \<and>
    et_p t et = process_current s \<and> \<not> etimer_expired et t \<and>
    etimer_expiration_time et t = now + interval \<and>
    etimer_next_expiration_time t =
      now + Min ((\<lambda>x. etimer_expiration_time x t - now) ` set ys)"
proof -
  let ?s = "s\<lparr>et_timer := (et_timer s)(et := timer_set now (et_timer s et) interval)\<rparr>"
  have "et_wf ?s xs" "process_current ?s \<noteq> NULL" using assms by (simp_all add: et_wf_def)
  from add_timer_wf [OF this assms(3), of now] obtain t where t:
    "add_timer now et ?s = Some t"
    "et_wf t (if et \<in> set xs \<and> et_p ?s et \<noteq> NULL then xs else et # xs)"
    "et_p t = (et_p ?s)(et := process_current ?s)" "et_timer t = et_timer ?s"
    "next_expiration t = now + Min (et_left now ?s ` set (et # xs))" by blast
  let ?ys = "if et \<in> set xs \<and> et_p ?s et \<noteq> NULL then xs else et # xs"
  have ys: "set ?ys = insert et (set xs)" "?ys \<noteq> []" by auto
  then have "etimer_pending t" using t(2) by (cases ?ys) (auto simp: et_wf_def etimer_pending_def)
  moreover have "(\<lambda>x. etimer_expiration_time x t - now) ` set ?ys = et_left now ?s ` set (et # xs)"
    using ys by (simp add: etimer_expiration_time_def t(4))
  ultimately show ?thesis
    using t assms(2) ys unfolding etimer_set_def
    by (intro exI [of _ t] exI [of _ ?ys])
      (simp add: etimer_expired_def etimer_expiration_time_def etimer_next_expiration_time_def
        timer_set_def)
qed

theorem etimer_set_correct_witness:
  "\<exists>t ys. etimer_set 5 20 100 etimers0 = Some t \<and> et_wf t ys \<and> set ys = {10, 11, 20} \<and>
     etimer_expiration_time 20 t = 105"
  using etimer_set_correct [OF etimers0_wf(1), of 20 5 100] by fastforce

text \<open>
  When a process exits, exactly the timers it owns leave the list.
\<close>

theorem etimer_exited_removes_owned:
  assumes "et_wf s xs" and "p_pt s etimer_process \<noteq> 0"
  shows "\<exists>t. etimer_thread now PROCESS_EVENT_EXITED p s = Some t \<and>
    et_wf t (filter (\<lambda>x. et_p s x \<noteq> p) xs) \<and> pending_events t = pending_events s"
proof -
  from etimer_exited_chain [OF assms(1), of p] obtain t where
    t: "etimer_exited p s = Some t" "et_wf t (filter (\<lambda>x. et_p s x \<noteq> p) xs)"
    "kernel.truncate t = kernel.truncate s" by blast
  then have "pending_events t = pending_events s"
    by (simp add: pending_events_def kernel.truncate_def)
  with t assms(2) show ?thesis by (simp add: etimer_thread_def)
qed

theorem etimer_exited_removes_owned_witness:
  "\<exists>t. etimer_thread 5 PROCESS_EVENT_EXITED 5 etimers0 = Some t \<and> et_wf t [11]"
  using etimer_exited_removes_owned [OF etimers0_wf(1), of 5 5] by auto

text \<open>A traversal of \<open>update_time\<close> returns only on a chain.\<close>

lemma update_time_loop_returns:
  assumes "update_time_loop nx tm now t d = Some r"
  shows "\<exists>xs. chain nx t xs"
proof (rule update_time_loop.raw_induct [where P = "\<lambda>nx tm now t d r. \<exists>xs. chain nx t xs", OF _ assms])
  fix f nx tm now t d r
  assume IH: "\<And>nx tm now t d r. f nx tm now t d = Some r \<Longrightarrow> \<exists>xs. chain nx t xs"
    and eq: "(if t \<noteq> NULL then f nx tm now (nx t)
          (if tm_start (tm t) + tm_interval (tm t) - now < d
           then tm_start (tm t) + tm_interval (tm t) - now else d) else Some d) = Some r"
  show "\<exists>xs. chain nx t xs"
  proof (cases "t = NULL")
    case True
    then show ?thesis by simp
  next
    case False
    with eq have "\<exists>d. f nx tm now (nx t) d = Some r" by auto
    with IH obtain xs where "chain nx (nx t) xs" by blast
    with False show ?thesis by (intro exI [of _ "t # xs"]) simp
  qed
qed

lemma update_time_self:
  assumes "timerlist s = t" and "t \<noteq> NULL" and "et_next s t = t"
  shows "update_time now s = None"
proof -
  have "\<nexists>xs. chain (et_next s) t xs"
  proof
    assume "\<exists>xs. chain (et_next s) t xs"
    then obtain xs where c: "chain (et_next s) t xs" by blast
    then obtain ys where "xs = t # ys" using assms(2) by (cases xs) auto
    with c assms(3) have ys: "chain (et_next s) t ys" "xs = t # ys" by auto
    from chain_unique [OF c ys(1)] ys(2) show False by simp
  qed
  then have "update_time_loop (et_next s) (et_timer s) now t d = None" for d
    using update_time_loop_returns by (metis not_Some_eq)
  with assms show ?thesis by (simp add: update_time_def Let_def)
qed

text \<open>
  A timer set twice while no process is current is linked to itself: the first
  \<open>etimer_set\<close> returns with the timer on the list but without an owner, so the second one
  does not look for it there, and never returns.
\<close>

theorem etimer_set_twice_diverges:
  assumes "process_current s = NULL" and "et \<noteq> NULL" and "et_p s et = NULL" and "et_wf s xs"
  shows "\<exists>t. etimer_set now et i s = Some t \<and> etimer_set later et j t = None"
proof -
  let ?s = "etimer_request_poll (s\<lparr>et_timer := (et_timer s)(et := timer_set now (et_timer s et) i)\<rparr>)"
  let ?t = "?s\<lparr>et_p := (et_p s)(et := NULL), et_next := (et_next s)(et := timerlist s), timerlist := et\<rparr>"
  have "et \<notin> set xs" using assms(3,4) by (auto simp: et_wf_def)
  then have ch: "chain (et_next ?t) (timerlist ?t) (et # xs)"
    using assms(2,4) by (simp add: et_wf_def)
  have "etimer_set now et i s = update_time now ?t"
    using assms(1,3) by (simp add: etimer_set_def add_timer_def)
  with update_time_chain [OF ch, of now] obtain e where
    first: "etimer_set now et i s = Some (?t\<lparr>next_expiration := e\<rparr>)" by auto
  have "etimer_set later et j (?t\<lparr>next_expiration := e\<rparr>) = None"
    using assms(1,2) by (simp add: etimer_set_def add_timer_def update_time_self)
  with first show ?thesis by blast
qed

theorem etimer_set_twice_diverges_witness:
  "\<exists>t. etimer_set 5 20 100 (etimers0\<lparr>process_current := 0\<rparr>) = Some t \<and> etimer_set 6 20 100 t = None"
proof -
  have "et_wf (etimers0\<lparr>process_current := 0\<rparr>) [10, 11]" by (simp add: et_wf_def)
  from etimer_set_twice_diverges [OF _ _ _ this, of 20] show ?thesis by simp
qed

end
