(* ===== verification/Packetbuf.thy ===== *)
theory Packetbuf
  imports Memb
begin

text \<open>
  The packet buffer (\<open>core/net/packetbuf.c\<close>) and the queue buffers that store copies of it
  (\<open>core/net/queuebuf.c\<close>, in the configuration of \<open>platform/contiki-conf.h\<close>: no swapping, no
  statistics). \<open>packetbufptr\<close> points into the buffer itself (\<open>Own\<close>) or to external data
  (\<open>External p\<close>); \<open>ext\<close> is the memory that external pointers refer to. The lengths have the
  widths of the code. Operations that copy to a caller's buffer return the bytes.
\<close>

definition PACKETBUF_SIZE :: nat where
  "PACKETBUF_SIZE = 512"

definition PACKETBUF_HDR_SIZE :: nat where
  "PACKETBUF_HDR_SIZE = 48"

definition PACKETBUF_NUM_ATTRS :: nat where
  "PACKETBUF_NUM_ATTRS = 24"

definition PACKETBUF_NUM_ADDRS :: nat where
  "PACKETBUF_NUM_ADDRS = 4"

type_synonym rimeaddr = "u8 list"

definition rimeaddr_null :: rimeaddr where
  "rimeaddr_null = replicate 8 0"

lemmas packetbuf_consts =
  PACKETBUF_SIZE_def PACKETBUF_HDR_SIZE_def PACKETBUF_NUM_ATTRS_def PACKETBUF_NUM_ADDRS_def

datatype pb_loc = Own | External ptr

record packetbuf =
  buflen :: u16
  bufptr :: u16
  hdrptr :: u8
  pb_mem :: "u8 list"
  packetbufptr :: pb_loc
  packetbuf_attrs :: "u16 list"
  packetbuf_addrs :: "rimeaddr list"

section \<open>The operations of the packet buffer\<close>

definition packetbuf_attr_clear :: "packetbuf \<Rightarrow> packetbuf" where
  "packetbuf_attr_clear p = p\<lparr>packetbuf_attrs := replicate PACKETBUF_NUM_ATTRS 0,
     packetbuf_addrs := replicate PACKETBUF_NUM_ADDRS rimeaddr_null\<rparr>"

definition packetbuf_clear :: "packetbuf \<Rightarrow> packetbuf" where
  "packetbuf_clear p = packetbuf_attr_clear
     (p\<lparr>buflen := 0, bufptr := 0, hdrptr := of_nat PACKETBUF_HDR_SIZE, packetbufptr := Own\<rparr>)"

definition packetbuf_clear_hdr :: "packetbuf \<Rightarrow> packetbuf" where
  "packetbuf_clear_hdr p = p\<lparr>hdrptr := of_nat PACKETBUF_HDR_SIZE\<rparr>"

text \<open>\<open>from\<close> holds at least \<open>len\<close> bytes.\<close>

definition packetbuf_copyfrom :: "u8 list \<Rightarrow> u16 \<Rightarrow> packetbuf \<Rightarrow> nat \<times> packetbuf" where
  "packetbuf_copyfrom from len p =
     (let p1 = packetbuf_clear p;
          l = (if unat len > PACKETBUF_SIZE then of_nat PACKETBUF_SIZE else len);
          p2 = p1\<lparr>pb_mem := write_at PACKETBUF_HDR_SIZE (take (unat l) from) (pb_mem p1)\<rparr>
      in (unat l, p2\<lparr>buflen := l\<rparr>))"

definition packetbuf_datalen :: "packetbuf \<Rightarrow> u16" where
  "packetbuf_datalen p = buflen p"

definition packetbuf_hdrlen :: "packetbuf \<Rightarrow> u8" where
  "packetbuf_hdrlen p = of_nat PACKETBUF_HDR_SIZE - hdrptr p"

definition packetbuf_totlen :: "packetbuf \<Rightarrow> u16" where
  "packetbuf_totlen p = ucast (packetbuf_hdrlen p) + packetbuf_datalen p"

definition packetbuf_is_reference :: "packetbuf \<Rightarrow> bool" where
  "packetbuf_is_reference p \<longleftrightarrow> packetbufptr p \<noteq> Own"

text \<open>The \<open>n\<close> bytes at \<open>packetbufptr + k\<close>.\<close>

definition packetbufptr_bytes :: "(ptr \<Rightarrow> u8) \<Rightarrow> nat \<Rightarrow> nat \<Rightarrow> packetbuf \<Rightarrow> u8 list" where
  "packetbufptr_bytes ext k n p = (case packetbufptr p of
     Own \<Rightarrow> read_at (PACKETBUF_HDR_SIZE + k) n (pb_mem p)
   | External a \<Rightarrow> map ext [a + k ..< a + k + n])"

text \<open>The copying loop of \<open>packetbuf_compact\<close>, one byte at a time.\<close>

definition packetbuf_shift :: "nat \<Rightarrow> nat \<Rightarrow> u8 list \<Rightarrow> u8 list" where
  "packetbuf_shift d len mem =
     foldl (\<lambda>m i. m[i := m ! (d + i)]) mem [PACKETBUF_HDR_SIZE ..< len]"

definition packetbuf_compact :: "(ptr \<Rightarrow> u8) \<Rightarrow> packetbuf \<Rightarrow> packetbuf" where
  "packetbuf_compact ext p =
     (if packetbuf_is_reference p
      then p\<lparr>pb_mem := write_at PACKETBUF_HDR_SIZE
          (packetbufptr_bytes ext 0 (unat (packetbuf_datalen p)) p) (pb_mem p)\<rparr>
      else if bufptr p > 0
      then p\<lparr>pb_mem := packetbuf_shift (unat (bufptr p))
          (unat (packetbuf_datalen p) + PACKETBUF_HDR_SIZE) (pb_mem p), bufptr := 0\<rparr>
      else p)"

text \<open>
  \<open>memcpy\<close> of \<open>PACKETBUF_HDR_SIZE - hdrptr\<close> bytes; the invariant keeps \<open>hdrptr\<close> in range.
\<close>

definition packetbuf_copyto_hdr :: "packetbuf \<Rightarrow> int \<times> u8 list" where
  "packetbuf_copyto_hdr p =
     (let n = int PACKETBUF_HDR_SIZE - uint (hdrptr p)
      in (n, read_at (unat (hdrptr p)) (nat n) (pb_mem p)))"

definition packetbuf_copyto :: "(ptr \<Rightarrow> u8) \<Rightarrow> packetbuf \<Rightarrow> int \<times> u8 list" where
  "packetbuf_copyto ext p =
     (let n = int PACKETBUF_HDR_SIZE - uint (hdrptr p)
      in if n + uint (buflen p) > int PACKETBUF_SIZE then (0, [])
         else (n + uint (buflen p),
           read_at (unat (hdrptr p)) (nat n) (pb_mem p) @
           packetbufptr_bytes ext (unat (bufptr p)) (unat (buflen p)) p))"

definition packetbuf_hdralloc :: "int \<Rightarrow> packetbuf \<Rightarrow> bool \<times> packetbuf" where
  "packetbuf_hdralloc sz p =
     (if uint (hdrptr p) \<ge> sz \<and> uint (packetbuf_totlen p) + sz \<le> int PACKETBUF_SIZE
      then (True, p\<lparr>hdrptr := hdrptr p - of_int sz\<rparr>) else (False, p))"

definition packetbuf_hdr_remove :: "int \<Rightarrow> packetbuf \<Rightarrow> packetbuf" where
  "packetbuf_hdr_remove sz p = p\<lparr>hdrptr := hdrptr p + of_int sz\<rparr>"

definition packetbuf_hdrreduce :: "int \<Rightarrow> packetbuf \<Rightarrow> bool \<times> packetbuf" where
  "packetbuf_hdrreduce sz p =
     (if uint (buflen p) < sz then (False, p)
      else (True, p\<lparr>bufptr := bufptr p + of_int sz, buflen := buflen p - of_int sz\<rparr>))"

definition packetbuf_set_datalen :: "u16 \<Rightarrow> packetbuf \<Rightarrow> packetbuf" where
  "packetbuf_set_datalen len p = p\<lparr>buflen := len\<rparr>"

text \<open>Offsets into the buffer that \<open>packetbuf_dataptr\<close> and \<open>packetbuf_hdrptr\<close> point to.\<close>

definition packetbuf_dataptr :: "packetbuf \<Rightarrow> nat" where
  "packetbuf_dataptr p = unat (bufptr p) + PACKETBUF_HDR_SIZE"

definition packetbuf_hdrptr :: "packetbuf \<Rightarrow> nat" where
  "packetbuf_hdrptr p = unat (hdrptr p)"

definition packetbuf_reference :: "ptr \<Rightarrow> u16 \<Rightarrow> packetbuf \<Rightarrow> packetbuf" where
  "packetbuf_reference a len p =
     (packetbuf_clear p)\<lparr>packetbufptr := External a, buflen := len\<rparr>"

definition packetbuf_attr_copyto :: "packetbuf \<Rightarrow> u16 list \<times> rimeaddr list" where
  "packetbuf_attr_copyto p = (packetbuf_attrs p, packetbuf_addrs p)"

definition packetbuf_attr_copyfrom :: "u16 list \<Rightarrow> rimeaddr list \<Rightarrow> packetbuf \<Rightarrow> packetbuf" where
  "packetbuf_attr_copyfrom attrs addrs p = p\<lparr>packetbuf_attrs := attrs, packetbuf_addrs := addrs\<rparr>"

text \<open>Attribute and address types are below the sizes of their arrays.\<close>

definition packetbuf_set_attr :: "nat \<Rightarrow> u16 \<Rightarrow> packetbuf \<Rightarrow> packetbuf" where
  "packetbuf_set_attr ty val p = p\<lparr>packetbuf_attrs := (packetbuf_attrs p)[ty := val]\<rparr>"

definition packetbuf_attr :: "nat \<Rightarrow> packetbuf \<Rightarrow> u16" where
  "packetbuf_attr ty p = packetbuf_attrs p ! ty"

definition packetbuf_set_addr :: "nat \<Rightarrow> rimeaddr \<Rightarrow> packetbuf \<Rightarrow> packetbuf" where
  "packetbuf_set_addr ty a p =
     p\<lparr>packetbuf_addrs := (packetbuf_addrs p)[ty - PACKETBUF_NUM_ATTRS := a]\<rparr>"

definition packetbuf_addr :: "nat \<Rightarrow> packetbuf \<Rightarrow> rimeaddr" where
  "packetbuf_addr ty p = packetbuf_addrs p ! (ty - PACKETBUF_NUM_ATTRS)"

section \<open>The operations of the queue buffers\<close>

record queuebufs =
  bufmem :: memb
  refbufmem :: memb
  buframmem :: memb
  qb_ram_ptr :: "ptr \<Rightarrow> ptr"
  qd_len :: "ptr \<Rightarrow> u16"
  qd_data :: "ptr \<Rightarrow> u8 list"
  qd_attrs :: "ptr \<Rightarrow> u16 list"
  qd_addrs :: "ptr \<Rightarrow> rimeaddr list"
  qr_len :: "ptr \<Rightarrow> u16"
  qr_ref :: "ptr \<Rightarrow> ptr"
  qr_hdr :: "ptr \<Rightarrow> u8 list"
  qr_hdrlen :: "ptr \<Rightarrow> u8"

definition queuebuf_init :: "queuebufs \<Rightarrow> queuebufs" where
  "queuebuf_init q = q\<lparr>buframmem := memb_init (buframmem q), bufmem := memb_init (bufmem q),
     refbufmem := memb_init (refbufmem q)\<rparr>"

text \<open>
  \<open>refptr\<close> is the address that \<open>packetbuf_reference_ptr\<close> returns for a reference.
\<close>

definition queuebuf_new_from_packetbuf ::
  "(ptr \<Rightarrow> u8) \<Rightarrow> packetbuf \<Rightarrow> queuebufs \<Rightarrow> ptr \<times> queuebufs" where
  "queuebuf_new_from_packetbuf ext p q =
     (case packetbufptr p of
        External refptr \<Rightarrow>
          let (rbuf, m) = memb_alloc (refbufmem q); q1 = q\<lparr>refbufmem := m\<rparr> in
          if rbuf \<noteq> NULL then
            (rbuf, q1\<lparr>qr_len := (qr_len q1)(rbuf := packetbuf_datalen p),
               qr_ref := (qr_ref q1)(rbuf := refptr),
               qr_hdr := (qr_hdr q1)(rbuf := snd (packetbuf_copyto_hdr p)),
               qr_hdrlen := (qr_hdrlen q1)(rbuf := of_int (fst (packetbuf_copyto_hdr p)))\<rparr>)
          else (rbuf, q1)
      | Own \<Rightarrow>
          let (buf, m) = memb_alloc (bufmem q); q1 = q\<lparr>bufmem := m\<rparr> in
          if buf \<noteq> NULL then
            let (ram, m2) = memb_alloc (buframmem q1);
                q2 = q1\<lparr>buframmem := m2, qb_ram_ptr := (qb_ram_ptr q1)(buf := ram)\<rparr> in
            if ram = NULL then (NULL, q2)
            else let (len, bytes) = packetbuf_copyto ext p; (at, ad) = packetbuf_attr_copyto p in
              (buf, q2\<lparr>qd_len := (qd_len q2)(ram := of_int len),
                 qd_data := (qd_data q2)(ram := write_at 0 bytes (qd_data q2 ram)),
                 qd_attrs := (qd_attrs q2)(ram := at), qd_addrs := (qd_addrs q2)(ram := ad)\<rparr>)
          else (buf, q1))"

definition queuebuf_update_attr_from_packetbuf :: "packetbuf \<Rightarrow> ptr \<Rightarrow> queuebufs \<Rightarrow> queuebufs" where
  "queuebuf_update_attr_from_packetbuf p b q =
     (let ram = qb_ram_ptr q b; (at, ad) = packetbuf_attr_copyto p
      in q\<lparr>qd_attrs := (qd_attrs q)(ram := at), qd_addrs := (qd_addrs q)(ram := ad)\<rparr>)"

definition queuebuf_free :: "ptr \<Rightarrow> queuebufs \<Rightarrow> queuebufs" where
  "queuebuf_free b q =
     (if memb_inmemb (bufmem q) b then
        let q1 = q\<lparr>buframmem := snd (memb_free (buframmem q) (qb_ram_ptr q b))\<rparr>
        in q1\<lparr>bufmem := snd (memb_free (bufmem q1) b)\<rparr>
      else if memb_inmemb (refbufmem q) b then q\<lparr>refbufmem := snd (memb_free (refbufmem q) b)\<rparr>
      else q)"

definition queuebuf_to_packetbuf :: "(ptr \<Rightarrow> u8) \<Rightarrow> ptr \<Rightarrow> queuebufs \<Rightarrow> packetbuf \<Rightarrow> packetbuf" where
  "queuebuf_to_packetbuf ext b q p =
     (if memb_inmemb (bufmem q) b then
        let ram = qb_ram_ptr q b; (n, p1) = packetbuf_copyfrom (qd_data q ram) (qd_len q ram) p
        in packetbuf_attr_copyfrom (qd_attrs q ram) (qd_addrs q ram) p1
      else if memb_inmemb (refbufmem q) b then
        let p1 = packetbuf_clear p;
            bytes = map ext [qr_ref q b ..< qr_ref q b + unat (qr_len q b)];
            (n, p2) = packetbuf_copyfrom bytes (qr_len q b) p1;
            (ok, p3) = packetbuf_hdralloc (uint (qr_hdrlen q b)) p2
        in p3\<lparr>pb_mem := write_at (packetbuf_hdrptr p3) (take (unat (qr_hdrlen q b)) (qr_hdr q b))
             (pb_mem p3)\<rparr>
      else p)"

definition queuebuf_datalen :: "ptr \<Rightarrow> queuebufs \<Rightarrow> u16" where
  "queuebuf_datalen b q = qd_len q (qb_ram_ptr q b)"

definition queuebuf_addr :: "ptr \<Rightarrow> nat \<Rightarrow> queuebufs \<Rightarrow> rimeaddr" where
  "queuebuf_addr b ty q = qd_addrs q (qb_ram_ptr q b) ! (ty - PACKETBUF_NUM_ATTRS)"

definition queuebuf_attr :: "ptr \<Rightarrow> nat \<Rightarrow> queuebufs \<Rightarrow> u16" where
  "queuebuf_attr b ty q = qd_attrs q (qb_ram_ptr q b) ! ty"

section \<open>The packet buffer as a frame\<close>

text \<open>
  Within the invariant the buffer is a header and a payload; \<open>pb_header\<close> and \<open>pb_payload\<close> are
  their bytes.
\<close>

definition pb_wf :: "packetbuf \<Rightarrow> bool" where
  "pb_wf p \<longleftrightarrow> PACKETBUF_HDR_SIZE + PACKETBUF_SIZE \<le> length (pb_mem p) \<and>
     unat (hdrptr p) \<le> PACKETBUF_HDR_SIZE \<and> unat (bufptr p) + unat (buflen p) \<le> PACKETBUF_SIZE"

definition pb_header :: "packetbuf \<Rightarrow> u8 list" where
  "pb_header p = read_at (unat (hdrptr p)) (PACKETBUF_HDR_SIZE - unat (hdrptr p)) (pb_mem p)"

definition pb_payload :: "(ptr \<Rightarrow> u8) \<Rightarrow> packetbuf \<Rightarrow> u8 list" where
  "pb_payload ext p = packetbufptr_bytes ext (unat (bufptr p)) (unat (buflen p)) p"

lemma length_pb_header: "pb_wf p \<Longrightarrow> length (pb_header p) = PACKETBUF_HDR_SIZE - unat (hdrptr p)"
  by (simp add: pb_header_def pb_wf_def)

lemma length_pb_payload [simp]: "pb_wf p \<Longrightarrow> length (pb_payload ext p) = unat (buflen p)"
  by (auto simp: pb_payload_def pb_wf_def packetbufptr_bytes_def split: pb_loc.splits)

lemma pb_header_eq:
  "pb_wf p \<Longrightarrow> read_at (unat (hdrptr p)) (length (pb_header p)) (pb_mem p) = pb_header p"
  by (simp add: length_pb_header) (simp add: pb_header_def)

lemma hdr_diff:
  assumes "pb_wf p"
  shows "int PACKETBUF_HDR_SIZE - uint (hdrptr p) = int (length (pb_header p))"
proof -
  have "uint (hdrptr p) = int (unat (hdrptr p))" by simp
  moreover have "unat (hdrptr p) \<le> PACKETBUF_HDR_SIZE" using assms by (simp add: pb_wf_def)
  ultimately show ?thesis using length_pb_header [OF assms] by linarith
qed

lemma packetbuf_copyto_frame:
  assumes "pb_wf p"
  shows "packetbuf_copyto ext p =
    (if length (pb_header p @ pb_payload ext p) \<le> PACKETBUF_SIZE
     then (int (length (pb_header p @ pb_payload ext p)), pb_header p @ pb_payload ext p)
     else (0, []))"
proof -
  have b: "uint (buflen p) = int (length (pb_payload ext p))" using assms by simp
  show ?thesis
    unfolding packetbuf_copyto_def Let_def hdr_diff [OF assms] b nat_int
    by (simp only: length_append of_nat_add [symmetric] of_nat_less_iff not_less [symmetric]
        if_not_P) (simp add: pb_header_eq [OF assms] pb_payload_def)
qed

lemma packetbuf_copyto_hdr_frame:
  assumes "pb_wf p"
  shows "packetbuf_copyto_hdr p = (int (length (pb_header p)), pb_header p)"
  unfolding packetbuf_copyto_hdr_def Let_def hdr_diff [OF assms] nat_int
  by (simp add: pb_header_eq [OF assms])

lemma packetbuf_copyfrom_frame:
  assumes mem: "PACKETBUF_HDR_SIZE + PACKETBUF_SIZE \<le> length (pb_mem p)"
    and len: "unat len \<le> length from" and cf: "packetbuf_copyfrom from len p = (n, t)"
  shows "pb_wf t \<and> n = min (unat len) PACKETBUF_SIZE \<and> pb_header t = [] \<and>
    pb_payload ext t = take n from \<and> packetbufptr t = Own \<and> buflen t = of_nat n"
proof -
  let ?l = "if unat len > PACKETBUF_SIZE then of_nat PACKETBUF_SIZE else len"
  have l: "unat ?l = min (unat len) PACKETBUF_SIZE"
    by (simp add: packetbuf_consts unat_of_nat_small)
  have h: "unat (of_nat PACKETBUF_HDR_SIZE :: u8) = PACKETBUF_HDR_SIZE"
    by (simp add: packetbuf_consts)
  have fit: "PACKETBUF_HDR_SIZE + length (take (unat ?l) from) \<le> length (pb_mem p)"
    using mem l by simp
  have r: "read_at PACKETBUF_HDR_SIZE (unat ?l)
      (write_at PACKETBUF_HDR_SIZE (take (unat ?l) from) (pb_mem p)) = take (unat ?l) from"
    using read_write_same [OF fit] len l by (simp add: min_absorb2)
  have t: "t = (packetbuf_clear p)\<lparr>pb_mem := write_at PACKETBUF_HDR_SIZE (take (unat ?l) from) (pb_mem p),
      buflen := ?l\<rparr>" and n: "n = unat ?l"
    using cf by (auto simp: packetbuf_copyfrom_def Let_def packetbuf_clear_def packetbuf_attr_clear_def)
  show ?thesis
    using fit mem r l h unfolding t n
    by (simp add: pb_wf_def packetbuf_clear_def packetbuf_attr_clear_def pb_header_def read_at_def
        pb_payload_def packetbufptr_bytes_def)
qed

text \<open>The byte-wise loop moves the data although source and target overlap.\<close>

lemma packetbuf_shift_prefix:
  assumes "PACKETBUF_HDR_SIZE + k + d \<le> length mem"
  shows "packetbuf_shift d (PACKETBUF_HDR_SIZE + k) mem =
    write_at PACKETBUF_HDR_SIZE (read_at (PACKETBUF_HDR_SIZE + d) k mem) mem"
  using assms
proof (induction k)
  case 0
  then show ?case by (simp add: packetbuf_shift_def read_at_def write_at_def)
next
  case (Suc k)
  let ?H = PACKETBUF_HDR_SIZE
  let ?m = "write_at ?H (read_at (?H + d) k mem) mem"
  have len: "length (read_at (?H + d) k mem) = k" using Suc.prems by simp
  have "packetbuf_shift d (?H + Suc k) mem = ?m[?H + k := ?m ! (d + (?H + k))]"
    using Suc by (simp add: packetbuf_shift_def)
  also have "?m ! (d + (?H + k)) = mem ! (d + (?H + k))"
    using Suc.prems len by (simp add: write_at_def nth_append ac_simps)
  also have "?m[?H + k := mem ! (d + (?H + k))] =
      write_at ?H (read_at (?H + d) (Suc k) mem) mem"
  proof -
    have "read_at (?H + d) (Suc k) mem = read_at (?H + d) k mem @ [mem ! (d + (?H + k))]"
      using Suc.prems by (simp add: read_at_def take_Suc_conv_app_nth add.commute add.left_commute)
    moreover have "drop (?H + k) mem = mem ! (?H + k) # drop (Suc (?H + k)) mem"
      using Suc.prems by (simp add: Cons_nth_drop_Suc)
    ultimately show ?thesis
      using Suc.prems len by (simp add: write_at_def list_update_append)
  qed
  finally show ?case .
qed

lemma packetbuf_compact_frame:
  assumes "pb_wf p" and "\<not> packetbuf_is_reference p"
  shows "pb_wf (packetbuf_compact ext p) \<and> bufptr (packetbuf_compact ext p) = 0 \<and>
    pb_header (packetbuf_compact ext p) = pb_header p \<and>
    pb_payload ext (packetbuf_compact ext p) = pb_payload ext p"
proof (cases "bufptr p > 0")
  case False
  then have "bufptr p = 0" by (simp add: word_gt_0)
  with assms show ?thesis by (simp add: packetbuf_compact_def)
next
  case True
  let ?H = PACKETBUF_HDR_SIZE and ?n = "unat (buflen p)" and ?d = "unat (bufptr p)"
  let ?b = "read_at (?H + ?d) ?n (pb_mem p)"
  have fit: "?H + ?n + ?d \<le> length (pb_mem p)" "unat (hdrptr p) \<le> ?H" "?d + ?n \<le> PACKETBUF_SIZE"
    using assms(1) by (simp_all add: pb_wf_def)
  have lb: "length ?b = ?n" using fit by simp
  have c: "packetbuf_compact ext p = p\<lparr>pb_mem := write_at ?H ?b (pb_mem p), bufptr := 0\<rparr>"
    using True assms(2) packetbuf_shift_prefix [OF fit(1)]
    by (simp add: packetbuf_compact_def packetbuf_datalen_def add.commute)
  have "read_at ?H ?n (write_at ?H ?b (pb_mem p)) = ?b"
    using read_write_same [of ?H ?b "pb_mem p"] lb fit by simp
  moreover have "read_at (unat (hdrptr p)) (?H - unat (hdrptr p)) (write_at ?H ?b (pb_mem p)) =
      read_at (unat (hdrptr p)) (?H - unat (hdrptr p)) (pb_mem p)"
    using fit by (intro read_write_before) auto
  moreover have "packetbufptr p = Own" using assms(2) by (simp add: packetbuf_is_reference_def)
  ultimately show ?thesis
    using assms(1) fit lb unfolding c
    by (simp add: pb_wf_def pb_header_def pb_payload_def packetbufptr_bytes_def)
qed

lemma packetbuf_hdrlen_wf: "pb_wf p \<Longrightarrow> unat (packetbuf_hdrlen p) = length (pb_header p)"
  by (simp add: packetbuf_hdrlen_def length_pb_header pb_wf_def packetbuf_consts unat_sub
      word_le_nat_alt)

lemma packetbuf_totlen_wf:
  assumes "pb_wf p"
  shows "unat (packetbuf_totlen p) = length (pb_header p) + unat (buflen p)"
proof -
  have "length (pb_header p) \<le> 48" "unat (buflen p) \<le> 512"
    using assms by (auto simp: length_pb_header pb_wf_def packetbuf_consts)
  then show ?thesis
    using packetbuf_hdrlen_wf [OF assms]
    by (simp add: packetbuf_totlen_def packetbuf_datalen_def unat_word_ariths unsigned_ucast_eq
        take_bit_nat_eq_self)
qed

lemma packetbuf_hdralloc_frame:
  assumes "pb_wf p" and "0 \<le> sz" and "packetbuf_hdralloc sz p = (ok, t)"
  shows "pb_wf t \<and> pb_payload ext t = pb_payload ext p \<and>
    ok = (sz \<le> uint (hdrptr p) \<and>
      int (length (pb_header p @ pb_payload ext p)) + sz \<le> int PACKETBUF_SIZE) \<and>
    (if ok then length (pb_header t) = length (pb_header p) + nat sz \<and>
       drop (nat sz) (pb_header t) = pb_header p else t = p)"
proof (cases "sz \<le> uint (hdrptr p) \<and> uint (packetbuf_totlen p) + sz \<le> int PACKETBUF_SIZE")
  case False
  then have "ok = False" "t = p" using assms(3) by (auto simp: packetbuf_hdralloc_def)
  moreover have "uint (packetbuf_totlen p) = int (length (pb_header p @ pb_payload ext p))"
    using packetbuf_totlen_wf [OF assms(1)] assms(1) by (metis length_append length_pb_payload uint_nat)
  ultimately show ?thesis using False assms(1) by (auto simp del: length_append)
next
  case True
  then have ok: "ok" and t: "t = p\<lparr>hdrptr := hdrptr p - of_int sz\<rparr>"
    using assms(3) by (auto simp: packetbuf_hdralloc_def)
  have "uint (hdrptr p) = int (unat (hdrptr p))" by simp
  with True assms(2) have szu: "nat sz \<le> unat (hdrptr p)" by linarith
  moreover have "unat (hdrptr p) < 256" using unat_lt_2p [of "hdrptr p"] by simp
  ultimately have lt: "nat sz < 256" by linarith
  have "(of_int sz :: u8) = of_nat (nat sz)" using assms(2) by simp
  then have u: "unat (hdrptr p - of_int sz) = unat (hdrptr p) - nat sz"
    using szu lt by (simp add: unat_sub word_le_nat_alt unat_of_nat_small)
  have hd: "unat (hdrptr p) \<le> PACKETBUF_HDR_SIZE" using assms(1) by (simp add: pb_wf_def)
  have "drop (nat sz) (pb_header t) = pb_header p"
    using u szu hd by (simp add: t pb_header_def read_at_def drop_take)
  moreover have "unat (hdrptr p) - nat sz \<le> PACKETBUF_HDR_SIZE" using hd by simp
  then have "pb_wf t" using assms(1) u by (simp add: t pb_wf_def)
  moreover from this have "length (pb_header t) = length (pb_header p) + nat sz"
    using u szu hd assms(1) by (simp add: length_pb_header t)
  moreover have "pb_payload ext t = pb_payload ext p"
    by (simp add: t pb_payload_def packetbufptr_bytes_def split: pb_loc.splits)
  moreover have "uint (packetbuf_totlen p) = int (length (pb_header p @ pb_payload ext p))"
    using packetbuf_totlen_wf [OF assms(1)] assms(1) by (metis length_append length_pb_payload uint_nat)
  ultimately show ?thesis
    using True ok by (simp del: length_append)
qed

lemma packetbuf_hdrreduce_frame:
  assumes "pb_wf p" and "0 \<le> sz" and "packetbuf_hdrreduce sz p = (ok, t)"
  shows "pb_wf t \<and> pb_header t = pb_header p \<and>
    ok = (sz \<le> int (length (pb_payload ext p))) \<and>
    pb_payload ext t = (if ok then drop (nat sz) (pb_payload ext p) else pb_payload ext p)"
proof (cases "uint (buflen p) < sz")
  case True
  then have "ok = False" "t = p" using assms(3) by (auto simp: packetbuf_hdrreduce_def)
  then show ?thesis using True assms(1) by auto
next
  case False
  then have ok: "ok"
    and t: "t = p\<lparr>bufptr := bufptr p + of_int sz, buflen := buflen p - of_int sz\<rparr>"
    using assms(3) by (auto simp: packetbuf_hdrreduce_def)
  have "uint (buflen p) = int (unat (buflen p))" by simp
  with False assms(2) have szb: "nat sz \<le> unat (buflen p)" by linarith
  have sum: "unat (bufptr p) + unat (buflen p) \<le> 512"
    using assms(1) by (simp add: pb_wf_def packetbuf_consts)
  have e: "(of_int sz :: u16) = of_nat (nat sz)" using assms(2) by simp
  have u: "unat (of_nat (nat sz) :: u16) = nat sz"
    using szb sum by (intro unat_of_nat_small) simp
  have b: "unat (buflen t) = unat (buflen p) - nat sz"
    using szb u by (simp add: t e unat_sub word_le_nat_alt)
  have a: "unat (bufptr t) = unat (bufptr p) + nat sz"
    using szb sum u by (simp add: t e unat_word_ariths)
  have "pb_wf t" using assms(1) a b szb by (simp add: pb_wf_def) (simp add: t)
  moreover have "pb_payload ext t = drop (nat sz) (pb_payload ext p)"
    using szb unfolding pb_payload_def packetbufptr_bytes_def a b
    by (simp add: t read_at_def drop_take ac_simps drop_map split: pb_loc.splits)
  moreover have "pb_header t = pb_header p" by (simp add: t pb_header_def)
  ultimately show ?thesis using ok False assms(1) by simp
qed

section \<open>The queue buffers as a store of frames\<close>

type_synonym frame = "u8 list \<times> u16 list \<times> rimeaddr list"

text \<open>A frame too large for a queue buffer is stored as an empty one.\<close>

definition pb_frame :: "(ptr \<Rightarrow> u8) \<Rightarrow> packetbuf \<Rightarrow> frame" where
  "pb_frame ext p = (if length (pb_header p @ pb_payload ext p) \<le> PACKETBUF_SIZE
     then pb_header p @ pb_payload ext p else [], packetbuf_attrs p, packetbuf_addrs p)"

definition qb_frames :: "queuebufs \<Rightarrow> ptr \<Rightarrow> frame option" where
  "qb_frames q b = (if b \<in> memb_used (bufmem q)
     then let r = qb_ram_ptr q b
       in Some (take (unat (qd_len q r)) (qd_data q r), qd_attrs q r, qd_addrs q r)
     else None)"

definition qb_wf :: "queuebufs \<Rightarrow> bool" where
  "qb_wf q \<longleftrightarrow> memb_wf (bufmem q) \<and> memb_wf (buframmem q) \<and>
     mb_num (bufmem q) = mb_num (buframmem q) \<and>
     bij_betw (qb_ram_ptr q) (memb_used (bufmem q)) (memb_used (buframmem q)) \<and>
     (\<forall>r. length (qd_data q r) = PACKETBUF_SIZE \<and> unat (qd_len q r) \<le> PACKETBUF_SIZE)"

lemma memb_used_inmemb: "memb_wf m \<Longrightarrow> b \<in> memb_used m \<Longrightarrow> memb_inmemb m b"
  by (auto simp: memb_used_def memb_inmemb_def memb_wf_def)

lemma memb_used_card:
  assumes "memb_wf m" and "memb_wf n" and "mb_num m = mb_num n"
    and "card (memb_used m) = card (memb_used n)"
  shows "memb_used m = memb_blocks m \<longleftrightarrow> memb_used n = memb_blocks n"
proof -
  have "memb_used k = memb_blocks k \<longleftrightarrow> card (memb_used k) = mb_num k" if "memb_wf k" for k
  proof
    assume "card (memb_used k) = mb_num k"
    then show "memb_used k = memb_blocks k"
      using card_memb_blocks [OF that]
      by (intro card_subset_eq memb_pool.finite_blocks [OF that] memb_pool.used_blocks [OF that]) simp
  qed (simp add: card_memb_blocks [OF that])
  with assms show ?thesis by simp
qed

lemma memb_alloc_num: "memb_alloc m = (p, t) \<Longrightarrow> memb_wf m \<Longrightarrow> mb_num t = mb_num m"
  by (erule memb_alloc_cases [rotated]) auto

lemma memb_free_num: "memb_wf m \<Longrightarrow> mb_num (snd (memb_free m p)) = mb_num m"
  using memb_free_law [of m p] card_memb_blocks [of m] card_memb_blocks [of "snd (memb_free m p)"]
  by simp

lemma pb_frame_length: "pb_wf p \<Longrightarrow> length (fst (pb_frame ext p)) \<le> PACKETBUF_SIZE"
  by (simp add: pb_frame_def)

lemma pb_wf_attrs [simp]:
  "pb_wf (p\<lparr>packetbuf_attrs := at, packetbuf_addrs := ad\<rparr>) = pb_wf p"
  "pb_header (p\<lparr>packetbuf_attrs := at, packetbuf_addrs := ad\<rparr>) = pb_header p"
  "pb_payload ext (p\<lparr>packetbuf_attrs := at, packetbuf_addrs := ad\<rparr>) = pb_payload ext p"
  by (simp_all add: pb_wf_def pb_header_def pb_payload_def packetbufptr_bytes_def
      split: pb_loc.splits)

lemma packetbuf_copyto_pb_frame:
  "pb_wf p \<Longrightarrow> packetbuf_copyto ext p =
    (int (length (fst (pb_frame ext p))), fst (pb_frame ext p))"
  by (simp add: packetbuf_copyto_frame pb_frame_def)

lemma queuebuf_new_full:
  assumes "qb_wf q" and "packetbufptr p = Own" and "memb_used (bufmem q) = memb_blocks (bufmem q)"
  shows "queuebuf_new_from_packetbuf ext p q = (NULL, q)"
proof -
  obtain b m where a: "memb_alloc (bufmem q) = (b, m)" by (cases "memb_alloc (bufmem q)")
  from assms(1) have "memb_wf (bufmem q)" by (simp add: qb_wf_def)
  from this a have "b = NULL \<and> m = bufmem q"
  proof (cases rule: memb_alloc_cases)
    case (got k)
    have "block (bufmem q) k \<in> memb_blocks (bufmem q)" using got by (auto simp: memb_blocks_def)
    then have "block (bufmem q) k \<in> memb_used (bufmem q)" using assms(3) by simp
    then show ?thesis using got assms(1) by (auto simp: memb_used_def qb_wf_def memb_wf_def)
  qed simp
  with a assms(2) show ?thesis by (simp add: queuebuf_new_from_packetbuf_def)
qed

lemma queuebuf_new_room:
  assumes wf: "qb_wf q" and own: "packetbufptr p = Own" and p: "pb_wf p"
    and room: "memb_used (bufmem q) \<noteq> memb_blocks (bufmem q)"
    and new: "queuebuf_new_from_packetbuf ext p q = (b, t)"
  shows "b \<noteq> NULL \<and> b \<in> memb_blocks (bufmem q) \<and> qb_frames q b = None \<and> qb_wf t \<and>
    memb_blocks (bufmem t) = memb_blocks (bufmem q) \<and> refbufmem t = refbufmem q \<and>
    qb_frames t = (qb_frames q)(b \<mapsto> pb_frame ext p)"
proof -
  from wf have w: "memb_wf (bufmem q)" "memb_wf (buframmem q)"
    "mb_num (bufmem q) = mb_num (buframmem q)"
    "bij_betw (qb_ram_ptr q) (memb_used (bufmem q)) (memb_used (buframmem q))"
    by (simp_all add: qb_wf_def)
  obtain c m where a1: "memb_alloc (bufmem q) = (c, m)" by (cases "memb_alloc (bufmem q)")
  obtain r n where a2: "memb_alloc (buframmem q) = (r, n)" by (cases "memb_alloc (buframmem q)")
  note l1 = memb_alloc_law [OF w(1) a1]
  have "card (memb_used (bufmem q)) = card (memb_used (buframmem q))"
    using w(4) by (rule bij_betw_same_card)
  from memb_used_card [OF w(1-3) this] room
  have room2: "memb_used (buframmem q) \<noteq> memb_blocks (buframmem q)" by simp
  note l2 = memb_alloc_law [OF w(2) a2]
  have c: "c \<noteq> NULL" "c \<in> memb_blocks (bufmem q)" "c \<notin> memb_used (bufmem q)"
    "memb_used m = insert c (memb_used (bufmem q))"
    using l1 room memb_pool.null_block [OF w(1)] by auto
  have r: "r \<noteq> NULL" "r \<notin> memb_used (buframmem q)" "memb_used n = insert r (memb_used (buframmem q))"
    using l2 room2 memb_pool.null_block [OF w(2)] by auto
  let ?f = "fst (pb_frame ext p)"
  have t: "b = c" "t = q\<lparr>bufmem := m, buframmem := n, qb_ram_ptr := (qb_ram_ptr q)(c := r),
      qd_len := (qd_len q)(r := of_nat (length ?f)),
      qd_data := (qd_data q)(r := write_at 0 ?f (qd_data q r)),
      qd_attrs := (qd_attrs q)(r := packetbuf_attrs p), qd_addrs := (qd_addrs q)(r := packetbuf_addrs p)\<rparr>"
    using new a1 a2 own c(1) r(1)
    by (auto simp: queuebuf_new_from_packetbuf_def packetbuf_copyto_pb_frame [OF p]
        packetbuf_attr_copyto_def)
  have fl: "length ?f \<le> PACKETBUF_SIZE" by (rule pb_frame_length [OF p])
  have len: "unat (of_nat (length ?f) :: u16) = length ?f"
    using fl by (intro unat_of_nat_small) (simp add: packetbuf_consts)
  have dl: "length (qd_data q x) = PACKETBUF_SIZE" for x using wf by (simp add: qb_wf_def)
  have img: "qb_ram_ptr q x \<in> memb_used (buframmem q)" if "x \<in> memb_used (bufmem q)" for x
    using w(4) that by (auto simp: bij_betw_def)
  have "bij_betw ((qb_ram_ptr q)(c := r)) (insert c (memb_used (bufmem q)))
      (insert r (memb_used (buframmem q)))"
    using w(4) c(3) r(2) by (auto simp: bij_betw_def inj_on_def)
  then have "qb_wf t"
    using wf l1 l2 c r fl len dl memb_alloc_num [OF a1 w(1)] memb_alloc_num [OF a2 w(2)]
    by (auto simp: qb_wf_def t(2))
  moreover have "qb_frames t = (qb_frames q)(c \<mapsto> pb_frame ext p)"
  proof
    fix x
    show "qb_frames t x = ((qb_frames q)(c \<mapsto> pb_frame ext p)) x"
      using img [of x] c r len by (auto simp: qb_frames_def t(2) Let_def write_at_def pb_frame_def)
  qed
  moreover have "qb_frames q c = None" using c by (simp add: qb_frames_def)
  moreover have "memb_blocks (bufmem t) = memb_blocks (bufmem q)" "refbufmem t = refbufmem q"
    using l1 by (simp_all add: t(2))
  ultimately show ?thesis using c by (simp add: t(1))
qed

lemma queuebuf_free_frames:
  assumes wf: "qb_wf q" and b: "qb_frames q b \<noteq> None"
  shows "qb_wf (queuebuf_free b q) \<and> qb_frames (queuebuf_free b q) = (qb_frames q)(b := None) \<and>
    memb_blocks (bufmem (queuebuf_free b q)) = memb_blocks (bufmem q)"
proof -
  from wf have w: "memb_wf (bufmem q)" "memb_wf (buframmem q)"
    "mb_num (bufmem q) = mb_num (buframmem q)"
    "bij_betw (qb_ram_ptr q) (memb_used (bufmem q)) (memb_used (buframmem q))"
    by (simp_all add: qb_wf_def)
  have u: "b \<in> memb_used (bufmem q)" using b by (auto simp: qb_frames_def split: if_splits)
  let ?t = "q\<lparr>buframmem := snd (memb_free (buframmem q) (qb_ram_ptr q b)),
      bufmem := snd (memb_free (bufmem q) b)\<rparr>"
  have t: "queuebuf_free b q = ?t"
    using memb_used_inmemb [OF w(1) u] by (simp add: queuebuf_free_def)
  note l1 = memb_free_law [OF w(1), of b] and l2 = memb_free_law [OF w(2), of "qb_ram_ptr q b"]
  have "bij_betw (qb_ram_ptr q) (memb_used (bufmem q) - {b})
      (memb_used (buframmem q) - {qb_ram_ptr q b})"
    using w(4) u by (auto simp: bij_betw_def inj_on_def)
  then have "qb_wf ?t"
    using wf l1 l2 memb_free_num [OF w(1)] memb_free_num [OF w(2)] by (simp add: qb_wf_def)
  moreover have "qb_frames ?t = (qb_frames q)(b := None)"
    using l1 by (auto simp: qb_frames_def fun_eq_iff)
  ultimately show ?thesis using t l1 by simp
qed

lemma queuebuf_to_packetbuf_frame:
  assumes wf: "qb_wf q" and b: "qb_frames q b = Some (bytes, at, ad)"
    and mem: "PACKETBUF_HDR_SIZE + PACKETBUF_SIZE \<le> length (pb_mem p)"
  shows "pb_wf (queuebuf_to_packetbuf ext b q p) \<and>
    pb_header (queuebuf_to_packetbuf ext b q p) = [] \<and>
    pb_payload ext (queuebuf_to_packetbuf ext b q p) = bytes \<and>
    packetbuf_attr_copyto (queuebuf_to_packetbuf ext b q p) = (at, ad)"
proof -
  let ?r = "qb_ram_ptr q b"
  have u: "b \<in> memb_used (bufmem q)" and f: "bytes = take (unat (qd_len q ?r)) (qd_data q ?r)"
    "at = qd_attrs q ?r" "ad = qd_addrs q ?r"
    using b by (auto simp: qb_frames_def Let_def split: if_splits)
  have m: "memb_inmemb (bufmem q) b" using wf u by (auto simp: qb_wf_def intro: memb_used_inmemb)
  obtain n t where cf: "packetbuf_copyfrom (qd_data q ?r) (qd_len q ?r) p = (n, t)"
    by (cases "packetbuf_copyfrom (qd_data q ?r) (qd_len q ?r) p")
  have len: "unat (qd_len q ?r) \<le> length (qd_data q ?r)" "unat (qd_len q ?r) \<le> PACKETBUF_SIZE"
    using wf by (simp_all add: qb_wf_def)
  note c = packetbuf_copyfrom_frame [OF mem len(1) cf, of ext]
  have "queuebuf_to_packetbuf ext b q p = t\<lparr>packetbuf_attrs := at, packetbuf_addrs := ad\<rparr>"
    using m cf f by (simp add: queuebuf_to_packetbuf_def Let_def packetbuf_attr_copyfrom_def)
  with c len f show ?thesis by (simp add: packetbuf_attr_copyto_def min_absorb1)
qed

abbreviation own_frame :: "packetbuf \<Rightarrow> bool" where
  "own_frame p \<equiv> pb_wf p \<and> packetbufptr p = Own"

interpretation queuebuf_store: handle_store qb_wf own_frame "pb_frame (\<lambda>_. 0)" qb_frames
  "queuebuf_new_from_packetbuf (\<lambda>_. 0)" queuebuf_free
proof
  fix q p b t
  assume wf: "qb_wf q" and p: "own_frame p"
    and new: "queuebuf_new_from_packetbuf (\<lambda>_. 0) p q = (b, t)"
  show "qb_wf t \<and> (if b = NULL then qb_frames t = qb_frames q
      else qb_frames q b = None \<and> qb_frames t = (qb_frames q)(b \<mapsto> pb_frame (\<lambda>_. 0) p))"
  proof (cases "memb_used (bufmem q) = memb_blocks (bufmem q)")
    case True
    with queuebuf_new_full [OF wf, of p "\<lambda>_. 0"] p new wf show ?thesis by simp
  next
    case False
    with queuebuf_new_room [OF wf _ _ False new] p show ?thesis by simp
  qed
next
  fix q b
  assume "qb_wf q" "qb_frames q b \<noteq> None"
  then show "qb_wf (queuebuf_free b q) \<and> qb_frames (queuebuf_free b q) = (qb_frames q)(b := None)"
    using queuebuf_free_frames [of q b] by simp
qed

section \<open>Properties\<close>

text \<open>
  A frame survives header allocation, header reduction and compaction: on a well-formed
  packet buffer \<open>packetbuf_hdralloc\<close> extends the header in front of the old one exactly when
  the room is there, \<open>packetbuf_hdrreduce\<close> drops bytes from the front of the payload exactly
  when it has them, and the overlapping byte-wise copy of \<open>packetbuf_compact\<close> changes neither
  header nor payload.
\<close>

theorem packetbuf_frame_ops:
  assumes "pb_wf p" and "0 \<le> sz" and "\<not> packetbuf_is_reference p"
    and "packetbuf_hdralloc sz p = (ok, t)" and "packetbuf_hdrreduce sz p = (ok2, u)"
  shows "ok = (sz \<le> uint (hdrptr p) \<and>
      int (length (pb_header p @ pb_payload ext p)) + sz \<le> int PACKETBUF_SIZE) \<and>
    (if ok then drop (nat sz) (pb_header t) = pb_header p \<and>
       length (pb_header t) = length (pb_header p) + nat sz else t = p) \<and>
    pb_payload ext t = pb_payload ext p \<and>
    ok2 = (sz \<le> int (length (pb_payload ext p))) \<and>
    pb_payload ext u = (if ok2 then drop (nat sz) (pb_payload ext p) else pb_payload ext p) \<and>
    pb_header u = pb_header p \<and>
    pb_payload ext (packetbuf_compact ext u) = pb_payload ext u \<and>
    pb_header (packetbuf_compact ext u) = pb_header u \<and> bufptr (packetbuf_compact ext u) = 0"
proof -
  have "\<not> packetbuf_is_reference u"
    using assms(3,5) by (auto simp: packetbuf_hdrreduce_def packetbuf_is_reference_def split: if_splits)
  with packetbuf_hdralloc_frame [OF assms(1,2,4), of ext]
    packetbuf_hdrreduce_frame [OF assms(1,2,5), of ext] packetbuf_compact_frame [of u ext]
  show ?thesis by (simp split: if_splits)
qed

abbreviation pbuf0 :: packetbuf where
  "pbuf0 \<equiv> \<lparr>buflen = 4, bufptr = 0, hdrptr = 48, pb_mem = replicate 48 0 @ 1 # 2 # 3 # 4 # replicate 510 0,
     packetbufptr = Own, packetbuf_attrs = replicate 24 0, packetbuf_addrs = replicate 4 rimeaddr_null\<rparr>"

lemma pbuf0_wf: "pb_wf pbuf0" "pb_header pbuf0 = []" "pb_payload ext pbuf0 = [1, 2, 3, 4]"
  by (simp_all add: pb_wf_def packetbuf_consts pb_header_def pb_payload_def packetbufptr_bytes_def
      read_at_def)

theorem packetbuf_frame_ops_witness:
  "\<exists>u. packetbuf_hdrreduce 3 pbuf0 = (True, u) \<and>
     pb_payload (\<lambda>_. 0) (packetbuf_compact (\<lambda>_. 0) u) = [4]"
proof -
  obtain a t where al: "packetbuf_hdralloc 3 pbuf0 = (a, t)" by (cases "packetbuf_hdralloc 3 pbuf0")
  obtain b u where re: "packetbuf_hdrreduce 3 pbuf0 = (b, u)" by (cases "packetbuf_hdrreduce 3 pbuf0")
  from packetbuf_frame_ops [OF pbuf0_wf(1) _ _ al re, of "\<lambda>_. 0"] re show ?thesis
    by (simp add: packetbuf_is_reference_def pbuf0_wf)
qed

text \<open>
  C38. Queue buffers keep their frames: after any sequence of storing packet buffers and
  freeing held queue buffers, every queue buffer still held gives back, into any packet buffer,
  the header and payload bytes, the attributes and the addresses that were stored in it
  (an empty packet when header and payload exceed \<open>PACKETBUF_SIZE\<close>).
\<close>

theorem queuebuf_run_roundtrip:
  assumes "qb_wf q" and "\<forall>b. qb_frames q b = None"
    and "list_all (\<lambda>x. \<forall>v. x = New v \<longrightarrow> own_frame v) ops"
    and "store_run (queuebuf_new_from_packetbuf (\<lambda>_. 0)) queuebuf_free (pb_frame (\<lambda>_. 0))
      q Map.empty ops = (t, m)"
    and "m b = Some (bytes, at, ad)" and "pb_wf p"
  shows "pb_payload ext (queuebuf_to_packetbuf ext b t p) = bytes \<and>
    pb_header (queuebuf_to_packetbuf ext b t p) = [] \<and>
    packetbuf_attr_copyto (queuebuf_to_packetbuf ext b t p) = (at, ad)"
proof -
  have "qb_frames q = Map.empty" using assms(2) by auto
  with queuebuf_store.run_contents [OF assms(1,3)] assms(4) have "qb_wf t" "qb_frames t = m"
    by simp_all
  with queuebuf_to_packetbuf_frame [of t b bytes at ad p ext] assms(5,6) show ?thesis
    by (simp add: pb_wf_def)
qed

abbreviation qbufs0 :: queuebufs where
  "qbufs0 \<equiv> \<lparr>bufmem = \<lparr>mb_size = 4, mb_num = 2, mb_count = [0, 0], mb_mem = 100, mb_data = []\<rparr>,
     refbufmem = \<lparr>mb_size = 60, mb_num = 0, mb_count = [], mb_mem = 200, mb_data = []\<rparr>,
     buframmem = \<lparr>mb_size = 600, mb_num = 2, mb_count = [0, 0], mb_mem = 1000, mb_data = []\<rparr>,
     qb_ram_ptr = (\<lambda>_. 0), qd_len = (\<lambda>_. 0), qd_data = (\<lambda>_. replicate 512 0),
     qd_attrs = (\<lambda>_. []), qd_addrs = (\<lambda>_. []), qr_len = (\<lambda>_. 0), qr_ref = (\<lambda>_. 0),
     qr_hdr = (\<lambda>_. []), qr_hdrlen = (\<lambda>_. 0)\<rparr>"

theorem queuebuf_run_roundtrip_witness:
  "\<exists>t m. store_run (queuebuf_new_from_packetbuf (\<lambda>_. 0)) queuebuf_free (pb_frame (\<lambda>_. 0))
      qbufs0 Map.empty [New pbuf0] = (t, m) \<and>
     pb_payload (\<lambda>_. 0) (queuebuf_to_packetbuf (\<lambda>_. 0) 100 t pbuf0) = [1, 2, 3, 4]"
proof -
  have u: "memb_used (bufmem qbufs0) = {}" "memb_used (buframmem qbufs0) = {}"
    by (auto simp: memb_used_def nth_Cons' split: if_splits)
  have wf: "qb_wf qbufs0" using u
    by (simp add: qb_wf_def memb_wf_def packetbuf_consts less_2_cases_iff bij_betw_def)
  have e: "\<forall>b. qb_frames qbufs0 b = None" using u by (simp add: qb_frames_def)
  have ok: "list_all (\<lambda>x. \<forall>v. x = New v \<longrightarrow> own_frame v) [New pbuf0]" using pbuf0_wf by simp
  obtain t m where run: "store_run (queuebuf_new_from_packetbuf (\<lambda>_. 0)) queuebuf_free
      (pb_frame (\<lambda>_. 0)) qbufs0 Map.empty [New pbuf0] = (t, m)"
    by (cases "store_run (queuebuf_new_from_packetbuf (\<lambda>_. 0)) queuebuf_free
      (pb_frame (\<lambda>_. 0)) qbufs0 Map.empty [New pbuf0]")
  have "fst (queuebuf_new_from_packetbuf (\<lambda>_. 0) pbuf0 qbufs0) = 100"
    by (simp add: queuebuf_new_from_packetbuf_def memb_alloc_def memb_alloc_loop.simps Let_def
        split_beta)
  then have m: "m = [100 \<mapsto> pb_frame (\<lambda>_. 0) pbuf0]" using run by (auto simp: split_beta)
  have f: "m 100 = Some ([1, 2, 3, 4], packetbuf_attrs pbuf0, packetbuf_addrs pbuf0)"
    using pbuf0_wf by (simp add: m pb_frame_def PACKETBUF_SIZE_def)
  from queuebuf_run_roundtrip [OF wf e ok run f pbuf0_wf(1)] run show ?thesis by blast
qed

end
