(* ===== verification/NbrTable.thy ===== *)
theory NbrTable
  imports Memb ContikiList Packetbuf
begin

text \<open>
  Neighbour tables (\<open>core/net/nbr_table.c\<close>): several tables indexed by the same set of at most
  four neighbours. A neighbour is a key (its link-layer address) on the list \<open>nbr_table_keys\<close>, in
  insertion order; the item of a neighbour in a table lies at the key's index in the table's
  data. Per neighbour, the bit maps say which tables use and which lock it. A table is the value
  of its struct (\<open>tb_callback\<close> says whether a callback is registered), never null; what the
  callbacks do is the argument \<open>cb\<close>. \<open>nt_bytes\<close> is the memory that holds the items.
\<close>

definition NBR_TABLE_MAX_NEIGHBORS :: nat where
  "NBR_TABLE_MAX_NEIGHBORS = 4"

definition MAX_NUM_TABLES :: nat where
  "MAX_NUM_TABLES = 8"

text \<open>\<open>sizeof(nbr_table_key_t)\<close>: the link and an eight byte address.\<close>

definition NBR_KEY_SIZE :: nat where
  "NBR_KEY_SIZE = 12"

record nbr_table =
  tb_index :: nat
  tb_item_size :: nat
  tb_callback :: bool
  tb_data :: ptr

record nbrs =
  used_map :: "u8 list"
  locked_map :: "u8 list"
  all_tables :: "nbr_table option list"
  num_tables :: nat
  neighbor_addr_mem :: memb
  nbr_table_keys :: lheap
  nt_lladdr :: "ptr \<Rightarrow> rimeaddr"
  nt_bytes :: "ptr \<Rightarrow> u8"

type_synonym nbr_callback = "nbr_table \<Rightarrow> ptr \<Rightarrow> nbrs \<Rightarrow> nbrs"

section \<open>The operations\<close>

definition key_from_index :: "nbrs \<Rightarrow> int \<Rightarrow> ptr" where
  "key_from_index s index =
     (if index \<noteq> -1 then mb_mem (neighbor_addr_mem s) + nat index * NBR_KEY_SIZE else NULL)"

definition item_from_index :: "nbr_table \<Rightarrow> int \<Rightarrow> ptr" where
  "item_from_index tb index =
     (if index \<noteq> -1 then tb_data tb + nat index * tb_item_size tb else NULL)"

definition index_from_key :: "nbrs \<Rightarrow> ptr \<Rightarrow> int" where
  "index_from_key s key =
     (if key \<noteq> NULL then int ((key - mb_mem (neighbor_addr_mem s)) div NBR_KEY_SIZE) else -1)"

definition index_from_item :: "nbr_table \<Rightarrow> ptr \<Rightarrow> int" where
  "index_from_item tb item =
     (if item \<noteq> NULL then int ((item - tb_data tb) div tb_item_size tb) else -1)"

definition item_from_key :: "nbrs \<Rightarrow> nbr_table \<Rightarrow> ptr \<Rightarrow> ptr" where
  "item_from_key s tb key = item_from_index tb (index_from_key s key)"

definition key_from_item :: "nbrs \<Rightarrow> nbr_table \<Rightarrow> ptr \<Rightarrow> ptr" where
  "key_from_item s tb item = key_from_index s (index_from_item tb item)"

partial_function (option) index_from_lladdr_loop :: "nbrs \<Rightarrow> rimeaddr \<Rightarrow> ptr \<Rightarrow> int option" where
  "index_from_lladdr_loop s lladdr key =
     (if key \<noteq> NULL then
        (if lladdr = nt_lladdr s key then Some (index_from_key s key)
         else index_from_lladdr_loop s lladdr (list_item_next (nbr_table_keys s) key))
      else Some (-1))"

text \<open>A null address pointer (\<open>None\<close>) stands for \<open>rimeaddr_null\<close>.\<close>

definition index_from_lladdr :: "nbrs \<Rightarrow> rimeaddr option \<Rightarrow> int option" where
  "index_from_lladdr s lladdr =
     index_from_lladdr_loop s (case lladdr of None \<Rightarrow> rimeaddr_null | Some a \<Rightarrow> a)
       (list_head (nbr_table_keys s))"

definition nbr_get_bit :: "u8 list \<Rightarrow> nbr_table \<Rightarrow> ptr \<Rightarrow> bool" where
  "nbr_get_bit bitmap tb item =
     (let item_index = index_from_item tb item
      in if item_index \<noteq> -1 then bit (bitmap ! nat item_index) (tb_index tb) else False)"

definition nbr_set_bit :: "u8 list \<Rightarrow> nbr_table \<Rightarrow> ptr \<Rightarrow> bool \<Rightarrow> bool \<times> u8 list" where
  "nbr_set_bit bitmap tb item value =
     (let item_index = index_from_item tb item
      in if item_index \<noteq> -1 then
           (True, bitmap[nat item_index := (if value
              then bitmap ! nat item_index OR push_bit (tb_index tb) 1
              else bitmap ! nat item_index AND NOT (push_bit (tb_index tb) 1))])
         else (False, bitmap))"

text \<open>The counting loop, on the value of an \<open>int\<close>.\<close>

function used_count_loop :: "nat \<Rightarrow> nat \<Rightarrow> nat" where
  "used_count_loop used c =
     (if used \<noteq> 0 then used_count_loop (used div 2) (if used mod 2 = 1 then c + 1 else c) else c)"
  by pat_completeness auto
termination by (relation "measure fst") auto

declare used_count_loop.simps [simp del]

definition nbr_used_count :: "nbrs \<Rightarrow> ptr \<Rightarrow> nat" where
  "nbr_used_count s key = used_count_loop (unat (used_map s ! nat (index_from_key s key))) 0"

text \<open>The search for the least used key among those that are not locked.\<close>

partial_function (option) least_used_loop :: "nbrs \<Rightarrow> ptr \<Rightarrow> ptr \<Rightarrow> nat \<Rightarrow> ptr option" where
  "least_used_loop s key luk luc =
     (if key \<noteq> NULL then
        (if locked_map s ! nat (index_from_key s key) = 0 then
           (let c = nbr_used_count s key
            in if luk = NULL \<or> c < luc then
                 (if c = 0 then Some key
                  else least_used_loop s (list_item_next (nbr_table_keys s) key) key c)
               else least_used_loop s (list_item_next (nbr_table_keys s) key) luk luc)
         else least_used_loop s (list_item_next (nbr_table_keys s) key) luk luc)
      else Some luk)"

text \<open>The callbacks of the tables that use the key, in registration order.\<close>

definition run_callback :: "nbr_callback \<Rightarrow> ptr \<Rightarrow> nbrs \<Rightarrow> nat \<Rightarrow> nbrs" where
  "run_callback cb key s i =
     (case all_tables s ! i of
        Some tb \<Rightarrow>
          if tb_callback tb \<and> nbr_get_bit (used_map s) tb (item_from_key s tb key)
          then cb tb (item_from_key s tb key) s else s
      | None \<Rightarrow> s)"

definition nbr_table_allocate :: "nbr_callback \<Rightarrow> nbrs \<Rightarrow> (ptr \<times> nbrs) option" where
  "nbr_table_allocate cb s =
     (let (key, m) = memb_alloc (neighbor_addr_mem s); s1 = s\<lparr>neighbor_addr_mem := m\<rparr>
      in if key \<noteq> NULL then Some (key, s1)
         else do {
           luk \<leftarrow> least_used_loop s1 (list_head (nbr_table_keys s1)) NULL 0;
           if luk = NULL then Some (NULL, s1)
           else do {
             let s2 = foldl (run_callback cb luk) s1 [0 ..< MAX_NUM_TABLES];
             let s3 = s2\<lparr>used_map := (used_map s2)[nat (index_from_key s2 luk) := 0]\<rparr>;
             l \<leftarrow> list_remove (nbr_table_keys s3) luk;
             Some (luk, s3\<lparr>nbr_table_keys := l\<rparr>)
           }
         })"

text \<open>Registration fills in the table's index; the updated struct is returned as well.\<close>

definition nbr_table_register :: "nbr_table \<Rightarrow> bool \<Rightarrow> nbrs \<Rightarrow> bool \<times> nbr_table \<times> nbrs" where
  "nbr_table_register tb callback s =
     (if num_tables s < MAX_NUM_TABLES then
        let tb1 = tb\<lparr>tb_index := num_tables s, tb_callback := callback\<rparr>
        in (True, tb1, s\<lparr>num_tables := num_tables s + 1,
             all_tables := (all_tables s)[num_tables s := Some tb1]\<rparr>)
      else (False, tb, s))"

partial_function (option) nbr_table_next :: "nbrs \<Rightarrow> nbr_table \<Rightarrow> ptr \<Rightarrow> ptr option" where
  "nbr_table_next s tb item =
     (let key = list_item_next (nbr_table_keys s) (key_from_item s tb item);
          item1 = item_from_key s tb key
      in if item1 \<noteq> NULL \<and> \<not> nbr_get_bit (used_map s) tb item1
         then nbr_table_next s tb item1 else Some item1)"

definition nbr_table_head :: "nbrs \<Rightarrow> nbr_table \<Rightarrow> ptr option" where
  "nbr_table_head s tb =
     (let item = item_from_key s tb (list_head (nbr_table_keys s))
      in if nbr_get_bit (used_map s) tb item then Some item else nbr_table_next s tb item)"

definition nbr_table_add_lladdr :: "nbr_callback \<Rightarrow> nbr_table \<Rightarrow> rimeaddr option \<Rightarrow> nbrs \<Rightarrow>
  (ptr \<times> nbrs) option" where
  "nbr_table_add_lladdr cb tb lladdr s = do {
     let a = (case lladdr of None \<Rightarrow> rimeaddr_null | Some a \<Rightarrow> a);
     index \<leftarrow> index_from_lladdr s (Some a);
     (ok, index, s1) \<leftarrow>
       (if index = -1 then do {
          (key, s1) \<leftarrow> nbr_table_allocate cb s;
          if key = NULL then Some (False, -1, s1)
          else do {
            l \<leftarrow> list_add (nbr_table_keys s1) key;
            Some (True, index_from_key s1 key,
              s1\<lparr>nbr_table_keys := l, nt_lladdr := (nt_lladdr s1)(key := a)\<rparr>)
          }
        } else Some (True, index, s));
     if ok then
       let item = item_from_index tb index
       in Some (item, s1\<lparr>
            nt_bytes := (\<lambda>x. if item \<le> x \<and> x < item + tb_item_size tb then 0 else nt_bytes s1 x),
            used_map := snd (nbr_set_bit (used_map s1) tb item True)\<rparr>)
     else Some (NULL, s1)
   }"

definition nbr_table_get_from_lladdr :: "nbrs \<Rightarrow> nbr_table \<Rightarrow> rimeaddr option \<Rightarrow> ptr option" where
  "nbr_table_get_from_lladdr s tb lladdr = do {
     index \<leftarrow> index_from_lladdr s lladdr;
     let item = item_from_index tb index;
     Some (if nbr_get_bit (used_map s) tb item then item else NULL)
   }"

definition nbr_table_remove :: "nbr_table \<Rightarrow> ptr \<Rightarrow> nbrs \<Rightarrow> bool \<times> nbrs" where
  "nbr_table_remove tb item s =
     (let (ret, u) = nbr_set_bit (used_map s) tb item False
      in (ret, s\<lparr>used_map := u, locked_map := snd (nbr_set_bit (locked_map s) tb item False)\<rparr>))"

definition nbr_table_lock :: "nbr_table \<Rightarrow> ptr \<Rightarrow> nbrs \<Rightarrow> bool \<times> nbrs" where
  "nbr_table_lock tb item s =
     (let (ret, l) = nbr_set_bit (locked_map s) tb item True in (ret, s\<lparr>locked_map := l\<rparr>))"

definition nbr_table_unlock :: "nbr_table \<Rightarrow> ptr \<Rightarrow> nbrs \<Rightarrow> bool \<times> nbrs" where
  "nbr_table_unlock tb item s =
     (let (ret, l) = nbr_set_bit (locked_map s) tb item False in (ret, s\<lparr>locked_map := l\<rparr>))"

text \<open>The address of the key that is returned a pointer to; \<open>None\<close> for a null pointer.\<close>

definition nbr_table_get_lladdr :: "nbrs \<Rightarrow> nbr_table \<Rightarrow> ptr \<Rightarrow> rimeaddr option" where
  "nbr_table_get_lladdr s tb item =
     (let key = key_from_item s tb item in if key \<noteq> NULL then Some (nt_lladdr s key) else None)"

section \<open>Invariant\<close>

text \<open>\<open>xs\<close> are the keys, oldest first; a table's data has room for every neighbour's item.\<close>

definition nbr_wf :: "nbrs \<Rightarrow> ptr list \<Rightarrow> bool" where
  "nbr_wf s xs \<longleftrightarrow> memb_wf (neighbor_addr_mem s) \<and> mb_size (neighbor_addr_mem s) = NBR_KEY_SIZE \<and>
     mb_num (neighbor_addr_mem s) = NBR_TABLE_MAX_NEIGHBORS \<and>
     length (used_map s) = NBR_TABLE_MAX_NEIGHBORS \<and>
     length (locked_map s) = NBR_TABLE_MAX_NEIGHBORS \<and>
     repr (nbr_table_keys s) xs \<and> set xs = memb_used (neighbor_addr_mem s) \<and>
     inj_on (nt_lladdr s) (set xs) \<and>
     (\<forall>i < NBR_TABLE_MAX_NEIGHBORS. block (neighbor_addr_mem s) i \<notin> set xs \<longrightarrow>
       used_map s ! i = 0 \<and> locked_map s ! i = 0)"

definition tb_ok :: "nbr_table \<Rightarrow> bool" where
  "tb_ok tb \<longleftrightarrow> tb_data tb \<noteq> NULL \<and> 0 < tb_item_size tb \<and> tb_index tb < MAX_NUM_TABLES"

text \<open>The abstract view of one table: which item belongs to which address.\<close>

definition nbr_map :: "nbrs \<Rightarrow> ptr list \<Rightarrow> nbr_table \<Rightarrow> rimeaddr \<Rightarrow> ptr option" where
  "nbr_map s xs tb a =
     (case find (\<lambda>k. nt_lladdr s k = a \<and> nbr_get_bit (used_map s) tb (item_from_key s tb k)) xs of
        None \<Rightarrow> None | Some k \<Rightarrow> Some (item_from_key s tb k))"

section \<open>Keys, indices and items\<close>

lemma nbr_wf_key:
  assumes "nbr_wf s xs" and "k \<in> memb_blocks (neighbor_addr_mem s)"
  obtains i where "i < NBR_TABLE_MAX_NEIGHBORS" "k = block (neighbor_addr_mem s) i" "k \<noteq> NULL"
    "index_from_key s k = int i"
proof -
  from assms obtain i where i: "i < NBR_TABLE_MAX_NEIGHBORS" "k = block (neighbor_addr_mem s) i"
    by (auto simp: memb_blocks_def nbr_wf_def)
  moreover have "k \<noteq> NULL" using assms(1) i by (simp add: nbr_wf_def memb_wf_def)
  moreover have "index_from_key s k = int i"
    using assms(1) i \<open>k \<noteq> NULL\<close> by (simp add: index_from_key_def nbr_wf_def NBR_KEY_SIZE_def)
  ultimately show ?thesis using that by blast
qed

lemma nbr_wf_blocks: "nbr_wf s xs \<Longrightarrow> k \<in> set xs \<Longrightarrow> k \<in> memb_blocks (neighbor_addr_mem s)"
  using memb_pool.used_blocks [of "neighbor_addr_mem s"] by (auto simp: nbr_wf_def)

lemma index_from_key_cong:
  "mb_mem (neighbor_addr_mem t) = mb_mem (neighbor_addr_mem s) \<Longrightarrow>
    index_from_key t k = index_from_key s k"
  by (simp add: index_from_key_def)

lemma item_from_key_cong:
  "mb_mem (neighbor_addr_mem t) = mb_mem (neighbor_addr_mem s) \<Longrightarrow>
    item_from_key t tb k = item_from_key s tb k"
  by (simp add: item_from_key_def index_from_key_def)

lemma index_from_item_index:
  "tb_ok tb \<Longrightarrow> index_from_item tb (item_from_index tb (int i)) = int i"
  by (simp add: tb_ok_def index_from_item_def item_from_index_def)

lemma item_from_index_NULL: "tb_ok tb \<Longrightarrow> item_from_index tb (int i) \<noteq> NULL"
  by (simp add: tb_ok_def item_from_index_def)

lemma nbr_get_bit_index:
  "tb_ok tb \<Longrightarrow> nbr_get_bit m tb (item_from_index tb (int i)) = bit (m ! i) (tb_index tb)"
  by (simp add: nbr_get_bit_def index_from_item_index)

lemma nbr_get_bit_NULL [simp]: "\<not> nbr_get_bit m tb NULL"
  by (simp add: nbr_get_bit_def index_from_item_def)

lemma nbr_set_bit_index:
  "tb_ok tb \<Longrightarrow> nbr_set_bit m tb (item_from_index tb (int i)) v =
    (True, m[i := (if v then m ! i OR push_bit (tb_index tb) 1
       else m ! i AND NOT (push_bit (tb_index tb) 1))])"
  by (simp add: nbr_set_bit_def index_from_item_index)

lemma bit_set_u8: "n < 8 \<Longrightarrow> bit (w OR 2 ^ n :: u8) j \<longleftrightarrow> bit w j \<or> j = n"
  by (auto simp: bit_simps)

lemma key_from_item_key:
  assumes "nbr_wf s xs" and "tb_ok tb" and "k \<in> memb_blocks (neighbor_addr_mem s)"
  shows "key_from_item s tb (item_from_key s tb k) = k"
proof -
  obtain i where "k = block (neighbor_addr_mem s) i" "index_from_key s k = int i"
    using nbr_wf_key [OF assms(1,3)] by blast
  with assms(1,2) show ?thesis
    by (simp add: key_from_item_def item_from_key_def index_from_item_index key_from_index_def
        nbr_wf_def)
qed

lemma item_from_key_NULL [simp]: "item_from_key s tb NULL = NULL"
  by (simp add: item_from_key_def index_from_key_def item_from_index_def)

lemma key_from_item_NULL [simp]: "key_from_item s tb NULL = NULL"
  by (simp add: key_from_item_def index_from_item_def key_from_index_def)

lemma item_from_key_inj:
  assumes "nbr_wf s xs" and "tb_ok tb" and "k \<in> set xs" and "k' \<in> set xs"
    and "item_from_key s tb k = item_from_key s tb k'"
  shows "k = k'"
  using key_from_item_key [OF assms(1,2)] nbr_wf_blocks [OF assms(1)] assms(3-5) by metis

section \<open>Lookup and iteration\<close>

lemma index_from_lladdr_chain:
  "chain (lh_next (nbr_table_keys s)) key xs \<Longrightarrow> index_from_lladdr_loop s a key =
    Some (case find (\<lambda>k. nt_lladdr s k = a) xs of None \<Rightarrow> -1 | Some k \<Rightarrow> index_from_key s k)"
proof (induction xs arbitrary: key)
  case Nil
  then show ?case by (simp add: index_from_lladdr_loop.simps)
next
  case (Cons x xs)
  then show ?case
    by (auto simp: index_from_lladdr_loop.simps [of s a x] list_item_next_def)
qed

lemma index_from_lladdr_wf:
  "nbr_wf s xs \<Longrightarrow> index_from_lladdr s (Some a) =
    Some (case find (\<lambda>k. nt_lladdr s k = a) xs of None \<Rightarrow> -1 | Some k \<Rightarrow> index_from_key s k)"
  by (auto simp: index_from_lladdr_def list_head_def nbr_wf_def repr_def
      intro!: index_from_lladdr_chain)

lemma find_unique:
  "inj_on f (set xs) \<Longrightarrow> k \<in> set xs \<Longrightarrow> P k \<Longrightarrow> find (\<lambda>x. f x = f k \<and> P x) xs = Some k"
  by (induction xs) auto

lemma find_Some_set: "find P xs = Some k \<Longrightarrow> k \<in> set xs \<and> P k"
  by (induction xs) (auto split: if_splits)

lemma nbr_map_key:
  assumes "nbr_wf s xs" and "k \<in> set xs"
  shows "nbr_map s xs tb (nt_lladdr s k) =
    (if nbr_get_bit (used_map s) tb (item_from_key s tb k) then Some (item_from_key s tb k) else None)"
proof -
  have inj: "inj_on (nt_lladdr s) (set xs)" using assms(1) unfolding nbr_wf_def by blast
  show ?thesis
  proof (cases "nbr_get_bit (used_map s) tb (item_from_key s tb k)")
    case True
    with find_unique [OF inj assms(2), of "\<lambda>k. nbr_get_bit (used_map s) tb (item_from_key s tb k)"]
    show ?thesis by (simp add: nbr_map_def)
  next
    case False
    have "find (\<lambda>x. nt_lladdr s x = nt_lladdr s k \<and>
        nbr_get_bit (used_map s) tb (item_from_key s tb x)) xs = None"
      using False inj assms(2) by (auto simp: find_None_iff dest: inj_onD)
    with False show ?thesis by (simp add: nbr_map_def)
  qed
qed

lemma nbr_map_absent: "a \<notin> nt_lladdr s ` set xs \<Longrightarrow> nbr_map s xs tb a = None"
  by (auto simp: nbr_map_def find_None_iff image_iff split: option.splits dest!: find_Some_set)

lemma nbr_get_lladdr_map:
  assumes wf: "nbr_wf s xs" and tb: "tb_ok tb"
  shows "nbr_table_get_from_lladdr s tb (Some a) =
    Some (case nbr_map s xs tb a of None \<Rightarrow> NULL | Some item \<Rightarrow> item)"
proof (cases "find (\<lambda>k. nt_lladdr s k = a) xs")
  case None
  then have "a \<notin> nt_lladdr s ` set xs" by (auto simp: find_None_iff)
  with None nbr_map_absent [of a s xs tb] show ?thesis
    by (simp add: nbr_table_get_from_lladdr_def index_from_lladdr_wf [OF wf] item_from_index_def)
next
  case (Some k)
  then have k: "k \<in> set xs" "nt_lladdr s k = a" by (auto dest: find_Some_set)
  have "item_from_index tb (index_from_key s k) = item_from_key s tb k"
    by (simp add: item_from_key_def)
  with Some nbr_map_key [OF wf k(1), of tb] k(2) show ?thesis
    by (simp add: nbr_table_get_from_lladdr_def index_from_lladdr_wf [OF wf])
qed

text \<open>The items of a table, in the order of the keys.\<close>

definition nbr_items :: "nbrs \<Rightarrow> ptr list \<Rightarrow> nbr_table \<Rightarrow> ptr list" where
  "nbr_items s xs tb = filter (nbr_get_bit (used_map s) tb) (map (item_from_key s tb) xs)"

lemma nbr_table_next_wf:
  assumes wf: "nbr_wf s xs" and tb: "tb_ok tb" and xs: "xs = ys @ k # zs"
  shows "nbr_table_next s tb (item_from_key s tb k) =
    Some (if nbr_items s zs tb = [] then NULL else hd (nbr_items s zs tb))"
  using xs
proof (induction zs arbitrary: ys k)
  case Nil
  have "list_item_next (nbr_table_keys s) k = NULL"
    using wf Nil repr_item_next [of "nbr_table_keys s" ys k "[]"] by (simp add: nbr_wf_def)
  then show ?case
    using key_from_item_key [OF wf tb nbr_wf_blocks [OF wf], of k] Nil
    by (simp add: nbr_table_next.simps nbr_items_def)
next
  case (Cons z zs)
  have n: "list_item_next (nbr_table_keys s) k = z"
    using wf Cons.prems repr_item_next [of "nbr_table_keys s" ys k "z # zs"] by (simp add: nbr_wf_def)
  have kz: "k \<in> set xs" "z \<in> set xs" using Cons.prems by auto
  obtain i where i: "index_from_key s z = int i"
    using nbr_wf_key [OF wf nbr_wf_blocks [OF wf kz(2)]] by blast
  then have nn: "item_from_key s tb z \<noteq> NULL"
    using item_from_index_NULL [OF tb] by (simp add: item_from_key_def)
  have kk: "key_from_item s tb (item_from_key s tb k) = k"
    by (rule key_from_item_key [OF wf tb nbr_wf_blocks [OF wf kz(1)]])
  have "nbr_table_next s tb (item_from_key s tb k) =
      (if nbr_get_bit (used_map s) tb (item_from_key s tb z) then Some (item_from_key s tb z)
       else nbr_table_next s tb (item_from_key s tb z))"
    using nn by (subst nbr_table_next.simps) (simp add: kk n Let_def)
  also have "\<dots> = Some (if nbr_items s (z # zs) tb = [] then NULL else hd (nbr_items s (z # zs) tb))"
    using Cons.IH [of "ys @ [k]" z] Cons.prems by (simp add: nbr_items_def)
  finally show ?case .
qed

lemma nbr_table_head_wf:
  assumes wf: "nbr_wf s xs" and tb: "tb_ok tb"
  shows "nbr_table_head s tb = Some (if nbr_items s xs tb = [] then NULL else hd (nbr_items s xs tb))"
proof (cases xs)
  case Nil
  then have "list_head (nbr_table_keys s) = NULL"
    using wf repr_head [of "nbr_table_keys s" xs] by (simp add: nbr_wf_def list_head_def)
  with Nil show ?thesis
    by (simp add: nbr_table_head_def nbr_table_next.simps nbr_items_def list_item_next_def)
next
  case (Cons x ys)
  then have "list_head (nbr_table_keys s) = x"
    using wf repr_head [of "nbr_table_keys s" xs] by (simp add: nbr_wf_def list_head_def)
  with nbr_table_next_wf [OF wf tb, of "[]" x ys] Cons show ?thesis
    by (simp add: nbr_table_head_def nbr_items_def)
qed

section \<open>The replacement policy\<close>

abbreviation nbr_unlocked :: "nbrs \<Rightarrow> ptr \<Rightarrow> bool" where
  "nbr_unlocked s k \<equiv> locked_map s ! nat (index_from_key s k) = 0"

text \<open>\<open>k\<close> is the first of the unlocked keys of \<open>xs\<close> with the fewest tables.\<close>

definition least_used :: "nbrs \<Rightarrow> ptr list \<Rightarrow> ptr \<Rightarrow> bool" where
  "least_used s xs k \<longleftrightarrow> nbr_unlocked s k \<and> (\<exists>ys zs. xs = ys @ k # zs \<and>
     (\<forall>y \<in> set ys. nbr_unlocked s y \<longrightarrow> nbr_used_count s k < nbr_used_count s y) \<and>
     (\<forall>z \<in> set zs. nbr_unlocked s z \<longrightarrow> nbr_used_count s k \<le> nbr_used_count s z))"

lemma least_used_hd:
  "nbr_unlocked s x \<Longrightarrow> \<forall>y \<in> set xs. nbr_unlocked s y \<longrightarrow> nbr_used_count s x \<le> nbr_used_count s y \<Longrightarrow>
    least_used s (x # xs) x"
  unfolding least_used_def by (rule conjI, simp, rule exI [of _ "[]"], rule exI [of _ xs]) simp

lemma least_used_Cons:
  assumes "least_used s xs r" and "nbr_unlocked s x \<Longrightarrow> nbr_used_count s r < nbr_used_count s x"
  shows "least_used s (x # xs) r"
proof -
  obtain ys zs where "xs = ys @ r # zs" "nbr_unlocked s r"
    "\<forall>y \<in> set ys. nbr_unlocked s y \<longrightarrow> nbr_used_count s r < nbr_used_count s y"
    "\<forall>z \<in> set zs. nbr_unlocked s z \<longrightarrow> nbr_used_count s r \<le> nbr_used_count s z"
    using assms(1) unfolding least_used_def by blast
  with assms(2) show ?thesis
    unfolding least_used_def
    by (intro conjI, simp, intro exI [of _ "x # ys"] exI [of _ zs]) simp
qed

lemma least_used_loop_found:
  assumes "chain (lh_next (nbr_table_keys s)) key xs" and "luk \<noteq> NULL"
  shows "\<exists>r. least_used_loop s key luk luc = Some r \<and>
    (r = luk \<and> (\<forall>x \<in> set xs. nbr_unlocked s x \<longrightarrow> luc \<le> nbr_used_count s x) \<or>
     least_used s xs r \<and> nbr_used_count s r < luc)"
  using assms
proof (induction xs arbitrary: key luk luc)
  case Nil
  then show ?case by (simp add: least_used_loop.simps)
next
  case (Cons x xs)
  let ?c = "nbr_used_count s x"
  from Cons.prems have key: "key = x" "x \<noteq> NULL"
    and ch: "chain (lh_next (nbr_table_keys s)) (list_item_next (nbr_table_keys s) x) xs"
    by (auto simp: list_item_next_def)
  show ?case
  proof (cases "nbr_unlocked s x \<and> ?c < luc")
    case True
    show ?thesis
    proof (cases "?c = 0")
      case True': True
      have "least_used s (x # xs) x" using True True' by (intro least_used_hd) auto
      with True True' key show ?thesis
        by (intro exI [of _ x]) (simp add: least_used_loop.simps [of s x] Let_def)
    next
      case False
      from Cons.IH [OF ch key(2), of ?c] obtain r where
        r: "least_used_loop s (list_item_next (nbr_table_keys s) x) x ?c = Some r"
        "r = x \<and> (\<forall>y \<in> set xs. nbr_unlocked s y \<longrightarrow> ?c \<le> nbr_used_count s y) \<or>
         least_used s xs r \<and> nbr_used_count s r < ?c" by blast
      then have "least_used s (x # xs) r" "nbr_used_count s r < luc"
        using True by (auto intro: least_used_hd least_used_Cons)
      with r(1) True False key show ?thesis
        by (intro exI [of _ r]) (simp add: least_used_loop.simps [of s x] Let_def)
    qed
  next
    case False
    from Cons.IH [OF ch Cons.prems(2), of luc] obtain r where
      r: "least_used_loop s (list_item_next (nbr_table_keys s) x) luk luc = Some r"
      "r = luk \<and> (\<forall>y \<in> set xs. nbr_unlocked s y \<longrightarrow> luc \<le> nbr_used_count s y) \<or>
       least_used s xs r \<and> nbr_used_count s r < luc" by blast
    have "least_used_loop s key luk luc = Some r"
      using r(1) False key Cons.prems(2) by (simp add: least_used_loop.simps [of s x] Let_def)
    moreover have "least_used s (x # xs) r" if "least_used s xs r \<and> nbr_used_count s r < luc"
      using that False by (intro least_used_Cons) auto
    ultimately show ?thesis using r(2) False by (intro exI [of _ r]) auto
  qed
qed

lemma least_used_loop_chain:
  assumes "chain (lh_next (nbr_table_keys s)) key xs"
  shows "\<exists>r. least_used_loop s key NULL 0 = Some r \<and>
    (if \<exists>x \<in> set xs. nbr_unlocked s x then least_used s xs r else r = NULL)"
  using assms
proof (induction xs arbitrary: key)
  case Nil
  then show ?case by (simp add: least_used_loop.simps)
next
  case (Cons x xs)
  let ?c = "nbr_used_count s x"
  from Cons.prems have key: "key = x" "x \<noteq> NULL"
    and ch: "chain (lh_next (nbr_table_keys s)) (list_item_next (nbr_table_keys s) x) xs"
    by (auto simp: list_item_next_def)
  show ?case
  proof (cases "nbr_unlocked s x")
    case True
    have "\<exists>r. least_used_loop s key NULL 0 = Some r \<and> least_used s (x # xs) r"
    proof (cases "?c = 0")
      case c0: True
      have "least_used s (x # xs) x" using True c0 by (intro least_used_hd) auto
      with True c0 key show ?thesis by (simp add: least_used_loop.simps [of s x] Let_def)
    next
      case False
      from least_used_loop_found [OF ch key(2), of ?c] obtain r where
        "least_used_loop s (list_item_next (nbr_table_keys s) x) x ?c = Some r"
        "r = x \<and> (\<forall>y \<in> set xs. nbr_unlocked s y \<longrightarrow> ?c \<le> nbr_used_count s y) \<or>
         least_used s xs r \<and> nbr_used_count s r < ?c" by blast
      then have "least_used_loop s key NULL 0 = Some r" "least_used s (x # xs) r"
        using True False key
        by (auto intro: least_used_hd least_used_Cons simp: least_used_loop.simps [of s x] Let_def)
      then show ?thesis by blast
    qed
    with True show ?thesis by auto
  next
    case False
    from Cons.IH [OF ch] obtain r where
      "least_used_loop s key NULL 0 = Some r"
      "if \<exists>x \<in> set xs. nbr_unlocked s x then least_used s xs r else r = NULL"
      using False key by (auto simp: least_used_loop.simps [of s x])
    with False show ?thesis by (auto intro: least_used_Cons split: if_splits)
  qed
qed

text \<open>
  What the registered callbacks may do: release the removed neighbour in the tables (clear its
  bits) and change items.
\<close>

definition cb_ok :: "nbr_callback \<Rightarrow> bool" where
  "cb_ok cb \<longleftrightarrow> (\<forall>tb item s. \<exists>u l b. let i = nat (index_from_item tb item) in
     cb tb item s = s\<lparr>used_map := (used_map s)[i := u], locked_map := (locked_map s)[i := l],
       nt_bytes := b\<rparr> \<and> (locked_map s ! i = 0 \<longrightarrow> l = 0))"

text \<open>States that differ only in the bits of neighbour \<open>i\<close> and in items.\<close>

definition nbr_same_but :: "nat \<Rightarrow> nbrs \<Rightarrow> nbrs \<Rightarrow> bool" where
  "nbr_same_but i s t \<longleftrightarrow> (\<exists>u l b. t = s\<lparr>used_map := (used_map s)[i := u],
     locked_map := (locked_map s)[i := l], nt_bytes := b\<rparr> \<and> (locked_map s ! i = 0 \<longrightarrow> l = 0))"

lemma nbr_same_but_refl: "nbr_same_but i s s"
  unfolding nbr_same_but_def
  by (rule exI [of _ "used_map s ! i"], rule exI [of _ "locked_map s ! i"], rule exI [of _ "nt_bytes s"])
    simp

lemma nbr_same_but_trans:
  assumes "nbr_same_but i s t" and "nbr_same_but i t r" and "i < length (locked_map s)"
  shows "nbr_same_but i s r"
proof -
  from assms(1) obtain u l b where t: "t = s\<lparr>used_map := (used_map s)[i := u],
      locked_map := (locked_map s)[i := l], nt_bytes := b\<rparr>" "locked_map s ! i = 0 \<longrightarrow> l = 0"
    unfolding nbr_same_but_def by blast
  from assms(2) obtain u' l' b' where r: "r = t\<lparr>used_map := (used_map t)[i := u'],
      locked_map := (locked_map t)[i := l'], nt_bytes := b'\<rparr>" "locked_map t ! i = 0 \<longrightarrow> l' = 0"
    unfolding nbr_same_but_def by blast
  have "r = s\<lparr>used_map := (used_map s)[i := u'], locked_map := (locked_map s)[i := l'],
      nt_bytes := b'\<rparr>"
    by (simp add: r(1) t(1))
  moreover have "locked_map s ! i = 0 \<longrightarrow> l' = 0" using t r(2) assms(3) by simp
  ultimately show ?thesis unfolding nbr_same_but_def by blast
qed

lemma run_callback_same:
  assumes cb: "cb_ok cb" and tabs: "\<forall>tb. Some tb \<in> set (all_tables s) \<longrightarrow> tb_ok tb"
    and key: "index_from_key s key = int i" and j: "j < length (all_tables s)"
  shows "nbr_same_but i s (run_callback cb key s j)"
proof (cases "all_tables s ! j")
  case None
  then show ?thesis by (simp add: run_callback_def nbr_same_but_refl)
next
  case (Some tb)
  then have "tb_ok tb" using tabs j by (metis nth_mem)
  then have "index_from_item tb (item_from_key s tb key) = int i"
    by (simp add: item_from_key_def key index_from_item_index)
  with cb [unfolded cb_ok_def, rule_format, of tb "item_from_key s tb key" s]
  have "nbr_same_but i s (cb tb (item_from_key s tb key) s)"
    by (simp add: nbr_same_but_def Let_def)
  with Some show ?thesis by (simp add: run_callback_def nbr_same_but_refl)
qed

lemma run_callbacks_same:
  assumes cb: "cb_ok cb" and tabs: "\<forall>tb. Some tb \<in> set (all_tables s) \<longrightarrow> tb_ok tb"
    and key: "index_from_key s key = int i" and n: "\<forall>j \<in> set js. j < length (all_tables s)"
    and i: "i < length (locked_map s)"
  shows "nbr_same_but i s (foldl (run_callback cb key) s js)"
  using assms
proof (induction js arbitrary: s)
  case Nil
  then show ?case by (simp add: nbr_same_but_refl)
next
  case (Cons j js)
  let ?t = "run_callback cb key s j"
  have st: "nbr_same_but i s ?t" using run_callback_same Cons.prems by simp
  then obtain u l b where t: "?t = s\<lparr>used_map := (used_map s)[i := u],
      locked_map := (locked_map s)[i := l], nt_bytes := b\<rparr>"
    unfolding nbr_same_but_def by blast
  have "nbr_same_but i ?t (foldl (run_callback cb key) ?t js)"
    using Cons.prems index_from_key_cong [of ?t s] by (intro Cons.IH) (simp_all add: t)
  from nbr_same_but_trans [OF st this Cons.prems(5)] show ?case by simp
qed

definition tables_ok :: "nbrs \<Rightarrow> bool" where
  "tables_ok s \<longleftrightarrow> length (all_tables s) = MAX_NUM_TABLES \<and>
     (\<forall>tb. Some tb \<in> set (all_tables s) \<longrightarrow> tb_ok tb)"

text \<open>The state after a key was allocated, entered in the list and given its address.\<close>

definition nbr_enter :: "ptr \<Rightarrow> rimeaddr \<Rightarrow> nbrs \<Rightarrow> nbrs option" where
  "nbr_enter key a s1 = map_option (\<lambda>l. s1\<lparr>nbr_table_keys := l, nt_lladdr := (nt_lladdr s1)(key := a)\<rparr>)
     (list_add (nbr_table_keys s1) key)"

definition nbr_entered :: "nbrs \<Rightarrow> ptr list \<Rightarrow> ptr \<Rightarrow> rimeaddr \<Rightarrow> nbrs \<Rightarrow> bool" where
  "nbr_entered s xs key a t \<longleftrightarrow> key \<noteq> NULL \<and> nbr_wf t (filter (\<lambda>x. x \<noteq> key) xs @ [key]) \<and>
     nt_lladdr t = (nt_lladdr s)(key := a) \<and>
     mb_mem (neighbor_addr_mem t) = mb_mem (neighbor_addr_mem s) \<and>
     used_map t ! nat (index_from_key s key) = 0 \<and>
     (\<forall>x \<in> set xs. x \<noteq> key \<longrightarrow>
       used_map t ! nat (index_from_key s x) = used_map s ! nat (index_from_key s x)) \<and>
     (key \<in> set xs \<longrightarrow> least_used s xs key \<and> length xs = NBR_TABLE_MAX_NEIGHBORS)"

lemma nbr_wf_length:
  assumes "nbr_wf s xs"
  shows "length xs = NBR_TABLE_MAX_NEIGHBORS \<longleftrightarrow>
    memb_used (neighbor_addr_mem s) = memb_blocks (neighbor_addr_mem s)"
proof -
  have "distinct xs" and e: "set xs = memb_used (neighbor_addr_mem s)"
    and w: "memb_wf (neighbor_addr_mem s)" and n: "mb_num (neighbor_addr_mem s) = NBR_TABLE_MAX_NEIGHBORS"
    using assms repr_distinct by (auto simp: nbr_wf_def)
  then have l: "length xs = card (memb_used (neighbor_addr_mem s))"
    using distinct_card by metis
  show ?thesis
  proof
    assume "length xs = NBR_TABLE_MAX_NEIGHBORS"
    then show "memb_used (neighbor_addr_mem s) = memb_blocks (neighbor_addr_mem s)"
      using l card_memb_blocks [OF w] n
      by (intro card_subset_eq memb_pool.finite_blocks [OF w] memb_pool.used_blocks [OF w]) simp
  qed (use l card_memb_blocks [OF w] n in simp)
qed

lemma block_inj_key: "0 < NBR_KEY_SIZE" "i * NBR_KEY_SIZE = j * NBR_KEY_SIZE \<longleftrightarrow> i = j"
  by (simp_all add: NBR_KEY_SIZE_def)

lemma nbr_allocate_fresh:
  assumes wf: "nbr_wf s xs" and a: "a \<notin> nt_lladdr s ` set xs"
    and al: "memb_alloc (neighbor_addr_mem s) = (key, m)" and key: "key \<noteq> NULL"
  shows "\<exists>t. nbr_enter key a (s\<lparr>neighbor_addr_mem := m\<rparr>) = Some t \<and> nbr_entered s xs key a t"
proof -
  from wf have w: "memb_wf (neighbor_addr_mem s)" and r: "repr (nbr_table_keys s) xs"
    and e: "set xs = memb_used (neighbor_addr_mem s)"
    and inj: "inj_on (nt_lladdr s) (set xs)"
    unfolding nbr_wf_def by blast+
  from w al key obtain k where k: "k < mb_num (neighbor_addr_mem s)"
    "key = block (neighbor_addr_mem s) k" "m = (neighbor_addr_mem s)\<lparr>mb_count := (mb_count (neighbor_addr_mem s))[k := 1]\<rparr>"
    by (cases rule: memb_alloc_cases) auto
  note law = memb_alloc_law [OF w al]
  have nk: "key \<notin> set xs" and um: "memb_used m = insert key (set xs)" and wm: "memb_wf m"
    using law key e by (auto split: if_splits)
  obtain l where l: "list_add (nbr_table_keys s) key = Some l" "repr l (remove1 key xs @ [key])"
    using list_add_repr [OF r key] by blast
  let ?t = "s\<lparr>neighbor_addr_mem := m, nbr_table_keys := l, nt_lladdr := (nt_lladdr s)(key := a)\<rparr>"
  have ix: "index_from_key s key = int k"
    using k key wf by (simp add: index_from_key_def nbr_wf_def NBR_KEY_SIZE_def)
  have z: "used_map s ! k = 0" using wf k nk by (simp add: nbr_wf_def)
  have "inj_on ((nt_lladdr s)(key := a)) (insert key (set xs))"
    using inj a nk by (auto simp: inj_on_def image_iff)
  then have "nbr_wf ?t (xs @ [key])"
    using wf k l(2) nk um wm a by (auto simp: nbr_wf_def)
  moreover have "filter (\<lambda>x. x \<noteq> key) xs = xs" using nk by (simp add: filter_id_conv) metis
  ultimately have "nbr_entered s xs key a ?t"
    using key z ix nk k by (simp add: nbr_entered_def)
  then show ?thesis using l(1) by (simp add: nbr_enter_def)
qed

lemma nbr_evict:
  assumes wf: "nbr_wf s xs" and a: "a \<notin> nt_lladdr s ` set xs" and cb: "cb_ok cb" and tabs: "tables_ok s"
    and lu: "least_used s xs key" and full: "length xs = NBR_TABLE_MAX_NEIGHBORS"
    and s2: "s2 = foldl (run_callback cb key) s [0 ..< MAX_NUM_TABLES]"
    and s3: "s3 = s2\<lparr>used_map := (used_map s2)[nat (index_from_key s2 key) := 0]\<rparr>"
  shows "\<exists>l t. list_remove (nbr_table_keys s3) key = Some l \<and>
    nbr_enter key a (s3\<lparr>nbr_table_keys := l\<rparr>) = Some t \<and> nbr_entered s xs key a t"
proof -
  have kx: "key \<in> set xs" using lu by (auto simp: least_used_def)
  from wf have r: "repr (nbr_table_keys s) xs" and inj: "inj_on (nt_lladdr s) (set xs)"
    and len: "length (locked_map s) = NBR_TABLE_MAX_NEIGHBORS" "length (used_map s) = NBR_TABLE_MAX_NEIGHBORS"
    and e: "set xs = memb_used (neighbor_addr_mem s)"
    unfolding nbr_wf_def by blast+
  obtain i where i: "i < NBR_TABLE_MAX_NEIGHBORS" "key = block (neighbor_addr_mem s) i" "key \<noteq> NULL"
    "index_from_key s key = int i" using nbr_wf_key [OF wf nbr_wf_blocks [OF wf kx]] by blast
  have "nbr_same_but i s s2"
    unfolding s2 using tabs cb i len
    by (intro run_callbacks_same) (auto simp: tables_ok_def)
  then obtain u l b where t2: "s2 = s\<lparr>used_map := (used_map s)[i := u],
      locked_map := (locked_map s)[i := l], nt_bytes := b\<rparr>" "locked_map s ! i = 0 \<longrightarrow> l = 0"
    unfolding nbr_same_but_def by blast
  have ix2: "index_from_key s2 key = int i"
    using i(4) index_from_key_cong [of s2 s key] by (simp add: t2(1))
  have l0: "l = 0" using t2(2) lu i(4) by (simp add: least_used_def)
  have t3: "s3 = s\<lparr>used_map := (used_map s)[i := 0], locked_map := (locked_map s)[i := 0], nt_bytes := b\<rparr>"
    by (simp add: s3 ix2) (simp add: t2(1) l0)
  obtain l1 where l1: "list_remove (nbr_table_keys s3) key = Some l1" "repr l1 (remove1 key xs)"
    using list_remove_repr [OF r, of key] by (auto simp: t3 removed_def)
  have d: "distinct xs" using r by (rule repr_distinct)
  obtain l2 where l2: "list_add l1 key = Some l2" "repr l2 (filter (\<lambda>x. x \<noteq> key) xs @ [key])"
    using list_add_repr [OF l1(2) i(3)] d by (auto simp: filter_remove1_distinct)
  let ?ys = "filter (\<lambda>x. x \<noteq> key) xs @ [key]"
  let ?t = "s3\<lparr>nbr_table_keys := l2, nt_lladdr := (nt_lladdr s)(key := a)\<rparr>"
  have ys: "set ?ys = set xs" using kx by auto
  have "inj_on ((nt_lladdr s)(key := a)) (set xs)"
    using inj a kx by (auto simp: inj_on_def image_iff)
  then have "nbr_wf ?t ?ys"
    using wf l2(2) ys i(1) unfolding nbr_wf_def by (simp add: t3 nth_list_update_if)
  moreover have "used_map ?t ! nat (index_from_key s x) = used_map s ! nat (index_from_key s x)"
    if x: "x \<in> set xs" "x \<noteq> key" for x
  proof -
    obtain j where "x = block (neighbor_addr_mem s) j" "index_from_key s x = int j"
      using nbr_wf_key [OF wf nbr_wf_blocks [OF wf x(1)]] by blast
    with x i show ?thesis by (auto simp: t3 nth_list_update_if)
  qed
  ultimately have "nbr_entered s xs key a ?t"
    using i lu full len by (simp add: nbr_entered_def) (simp add: t3)
  then show ?thesis using l1(1) l2(1) by (simp add: nbr_enter_def t3)
qed

lemma nbr_allocate_enter:
  assumes wf: "nbr_wf s xs" and a: "a \<notin> nt_lladdr s ` set xs" and cb: "cb_ok cb" and tabs: "tables_ok s"
  shows "\<exists>key s1. nbr_table_allocate cb s = Some (key, s1) \<and>
    (if key = NULL then s1 = s \<and> length xs = NBR_TABLE_MAX_NEIGHBORS \<and> (\<forall>x \<in> set xs. \<not> nbr_unlocked s x)
     else \<exists>t. nbr_enter key a s1 = Some t \<and> nbr_entered s xs key a t)"
proof -
  obtain key m where al: "memb_alloc (neighbor_addr_mem s) = (key, m)"
    by (cases "memb_alloc (neighbor_addr_mem s)")
  from wf have w: "memb_wf (neighbor_addr_mem s)" by (simp add: nbr_wf_def)
  show ?thesis
  proof (cases "key = NULL")
    case False
    with nbr_allocate_fresh [OF wf a al False] al show ?thesis by (simp add: nbr_table_allocate_def)
  next
    case True
    from w al have m: "m = neighbor_addr_mem s \<and> memb_used (neighbor_addr_mem s) = memb_blocks (neighbor_addr_mem s)"
    proof (cases rule: memb_alloc_cases)
      case (got k)
      with True w show ?thesis by (simp add: memb_wf_def)
    qed simp
    then have full: "length xs = NBR_TABLE_MAX_NEIGHBORS" using nbr_wf_length [OF wf] by simp
    have al0: "memb_alloc (neighbor_addr_mem s) = (NULL, neighbor_addr_mem s)"
      using al True m by simp
    have "chain (lh_next (nbr_table_keys s)) (list_head (nbr_table_keys s)) xs"
      using wf by (simp add: nbr_wf_def repr_def list_head_def)
    from least_used_loop_chain [OF this] obtain r where r:
      "least_used_loop s (list_head (nbr_table_keys s)) NULL 0 = Some r"
      "if \<exists>x \<in> set xs. nbr_unlocked s x then least_used s xs r else r = NULL" by blast
    show ?thesis
    proof (cases "\<exists>x \<in> set xs. nbr_unlocked s x")
      case False
      with r al0 full show ?thesis by (simp add: nbr_table_allocate_def Let_def)
    next
      case some: True
      with r(2) have lu: "least_used s xs r" by (simp only: if_True)
      then have "r \<in> set xs" by (auto simp: least_used_def)
      then have rn: "r \<noteq> NULL" using wf repr_not_NULL [of "nbr_table_keys s" xs]
        unfolding nbr_wf_def by metis
      let ?s2 = "foldl (run_callback cb r) s [0 ..< MAX_NUM_TABLES]"
      let ?s3 = "?s2\<lparr>used_map := (used_map ?s2)[nat (index_from_key ?s2 r) := 0]\<rparr>"
      from nbr_evict [OF wf a cb tabs lu full refl refl] obtain l t where
        l: "list_remove (nbr_table_keys ?s3) r = Some l"
        "nbr_enter r a (?s3\<lparr>nbr_table_keys := l\<rparr>) = Some t" "nbr_entered s xs r a t" by blast
      have same: "s\<lparr>neighbor_addr_mem := neighbor_addr_mem s\<rparr> = s" by simp
      have rf: "(r = NULL) = False" using rn by simp
      have al1: "nbr_table_allocate cb s = Some (r, ?s3\<lparr>nbr_table_keys := l\<rparr>)"
        by (simp only: nbr_table_allocate_def al0 prod.case Let_def same r(1) refl rf if_False if_True
            simp_thms Option.bind.simps l(1))
      have "\<exists>t. nbr_enter r a (?s3\<lparr>nbr_table_keys := l\<rparr>) = Some t \<and> nbr_entered s xs r a t"
        using l(2,3) by (intro exI conjI)
      then show ?thesis using al1 rn by (intro exI [of _ r] exI conjI [OF al1]) (simp only: rf if_False)
    qed
  qed
qed

section \<open>Adding a neighbour\<close>

text \<open>Marking the neighbour with key \<open>k\<close> as used by a table.\<close>

definition nbr_mark :: "nbr_table \<Rightarrow> ptr \<Rightarrow> nbrs \<Rightarrow> nbrs" where
  "nbr_mark tb item s = s\<lparr>
     nt_bytes := (\<lambda>x. if item \<le> x \<and> x < item + tb_item_size tb then 0 else nt_bytes s x),
     used_map := snd (nbr_set_bit (used_map s) tb item True)\<rparr>"

lemma nbr_mark_wf:
  assumes wf: "nbr_wf s xs" and tb: "tb_ok tb" and k: "k \<in> set xs"
  shows "nbr_wf (nbr_mark tb (item_from_key s tb k) s) xs"
    and "x \<in> set xs \<Longrightarrow> tb_ok tb' \<Longrightarrow>
      nbr_get_bit (used_map (nbr_mark tb (item_from_key s tb k) s)) tb' (item_from_key s tb' x) \<longleftrightarrow>
      nbr_get_bit (used_map s) tb' (item_from_key s tb' x) \<or> x = k \<and> tb_index tb' = tb_index tb"
proof -
  obtain i where i: "i < NBR_TABLE_MAX_NEIGHBORS" "k = block (neighbor_addr_mem s) i"
    "index_from_key s k = int i" using nbr_wf_key [OF wf nbr_wf_blocks [OF wf k]] by blast
  have u: "used_map (nbr_mark tb (item_from_key s tb k) s) =
      (used_map s)[i := used_map s ! i OR push_bit (tb_index tb) 1]"
    by (simp add: nbr_mark_def item_from_key_def i(3) nbr_set_bit_index [OF tb])
  show "nbr_wf (nbr_mark tb (item_from_key s tb k) s) xs"
    using wf i k unfolding nbr_wf_def u by (auto simp: nbr_mark_def nth_list_update_if)
  assume x: "x \<in> set xs" and tb': "tb_ok tb'"
  obtain j where j: "j < NBR_TABLE_MAX_NEIGHBORS" "x = block (neighbor_addr_mem s) j"
    "index_from_key s x = int j" using nbr_wf_key [OF wf nbr_wf_blocks [OF wf x]] by blast
  have len: "length (used_map s) = NBR_TABLE_MAX_NEIGHBORS" using wf by (simp add: nbr_wf_def)
  have xk: "x = k \<longleftrightarrow> j = i" using i j wf by (simp add: nbr_wf_def NBR_KEY_SIZE_def)
  have "tb_index tb' < 8" "tb_index tb < 8" using tb tb' by (simp_all add: tb_ok_def MAX_NUM_TABLES_def)
  then show "nbr_get_bit (used_map (nbr_mark tb (item_from_key s tb k) s)) tb' (item_from_key s tb' x) \<longleftrightarrow>
      nbr_get_bit (used_map s) tb' (item_from_key s tb' x) \<or> x = k \<and> tb_index tb' = tb_index tb"
    unfolding u unfolding item_from_key_def j(3) nbr_get_bit_index [OF tb'] xk
    using i(1) len by (simp add: nth_list_update_if bit_set_u8)
qed

lemma nbr_add_present:
  assumes wf: "nbr_wf s xs" and k: "k \<in> set xs" and a: "nt_lladdr s k = a"
  shows "nbr_table_add_lladdr cb tb (Some a) s =
    Some (item_from_key s tb k, nbr_mark tb (item_from_key s tb k) s)"
proof -
  have inj: "inj_on (nt_lladdr s) (set xs)" using wf unfolding nbr_wf_def by blast
  have "find (\<lambda>x. nt_lladdr s x = a) xs = Some k"
    using find_unique [OF inj k, of "\<lambda>_. True"] a by simp
  then have ix: "index_from_lladdr s (Some a) = Some (index_from_key s k)"
    by (simp add: index_from_lladdr_wf [OF wf])
  obtain i where "index_from_key s k = int i"
    using nbr_wf_key [OF wf nbr_wf_blocks [OF wf k]] by blast
  then have "index_from_key s k \<noteq> -1" by simp
  with ix show ?thesis
    by (simp add: nbr_table_add_lladdr_def item_from_key_def nbr_mark_def Let_def)
qed

lemma nbr_add_absent:
  assumes wf: "nbr_wf s xs" and a: "a \<notin> nt_lladdr s ` set xs" and al: "nbr_table_allocate cb s = Some (key, s1)"
  shows "nbr_table_add_lladdr cb tb (Some a) s =
    (if key = NULL then Some (NULL, s1)
     else map_option (\<lambda>t. (item_from_index tb (index_from_key s1 key),
       nbr_mark tb (item_from_index tb (index_from_key s1 key)) t)) (nbr_enter key a s1))"
proof -
  have "find (\<lambda>x. nt_lladdr s x = a) xs = None" using a by (auto simp: find_None_iff)
  then have "index_from_lladdr s (Some a) = Some (-1)"
    by (simp add: index_from_lladdr_wf [OF wf])
  then show ?thesis
    by (cases "list_add (nbr_table_keys s1) key")
      (simp_all add: nbr_table_add_lladdr_def al nbr_enter_def nbr_mark_def Let_def)
qed

lemma nbr_mark_keys [simp]:
  "nt_lladdr (nbr_mark tb item s) = nt_lladdr s"
  "neighbor_addr_mem (nbr_mark tb item s) = neighbor_addr_mem s"
  by (simp_all add: nbr_mark_def)

lemma nbr_map_mark:
  assumes wf: "nbr_wf s xs" and tb: "tb_ok tb" and k: "k \<in> set xs"
  defines "t \<equiv> nbr_mark tb (item_from_key s tb k) s"
  shows "nbr_map t xs tb (nt_lladdr s k) = Some (item_from_key s tb k)"
    and "tb_ok tb' \<Longrightarrow> b \<noteq> nt_lladdr s k \<Longrightarrow> nbr_map t xs tb' b = nbr_map s xs tb' b"
proof -
  note mark = nbr_mark_wf [OF wf tb k, folded t_def]
  have it: "item_from_key t tb' x = item_from_key s tb' x" for tb' x
    by (rule item_from_key_cong) (simp add: t_def)
  have la: "nt_lladdr t = nt_lladdr s" by (simp add: t_def)
  show "nbr_map t xs tb (nt_lladdr s k) = Some (item_from_key s tb k)"
    using nbr_map_key [OF mark(1) k, of tb] mark(2) [OF k tb] by (simp add: it la)
  assume tb': "tb_ok tb'" and b: "b \<noteq> nt_lladdr s k"
  show "nbr_map t xs tb' b = nbr_map s xs tb' b"
  proof (cases "b \<in> nt_lladdr s ` set xs")
    case True
    then obtain x where x: "x \<in> set xs" "b = nt_lladdr s x" by auto
    with b have "x \<noteq> k" by auto
    with nbr_map_key [OF mark(1) x(1), of tb'] nbr_map_key [OF wf x(1), of tb'] mark(2) [OF x(1) tb']
    show ?thesis by (simp add: it la x(2))
  qed (simp add: nbr_map_absent la)
qed

lemma nbr_map_entered:
  assumes wf: "nbr_wf s xs" and en: "nbr_entered s xs key a t" and tb: "tb_ok tb"
    and a: "a \<notin> nt_lladdr s ` set xs" and b: "b \<noteq> a"
  shows "nbr_map t (filter (\<lambda>x. x \<noteq> key) xs @ [key]) tb b =
    (if key \<in> set xs \<and> b = nt_lladdr s key then None else nbr_map s xs tb b)"
proof -
  let ?ys = "filter (\<lambda>x. x \<noteq> key) xs @ [key]"
  from en have wt: "nbr_wf t ?ys" and la: "nt_lladdr t = (nt_lladdr s)(key := a)"
    and mm: "mb_mem (neighbor_addr_mem t) = mb_mem (neighbor_addr_mem s)"
    and um: "\<forall>x \<in> set xs. x \<noteq> key \<longrightarrow>
       used_map t ! nat (index_from_key s x) = used_map s ! nat (index_from_key s x)"
    by (simp_all add: nbr_entered_def)
  have inj: "inj_on (nt_lladdr s) (set xs)" using wf unfolding nbr_wf_def by blast
  show ?thesis
  proof (cases "\<exists>x \<in> set xs. x \<noteq> key \<and> b = nt_lladdr s x")
    case True
    then obtain x where x: "x \<in> set xs" "x \<noteq> key" "b = nt_lladdr s x" by blast
    obtain j where j: "index_from_key s x = int j"
      using nbr_wf_key [OF wf nbr_wf_blocks [OF wf x(1)]] by blast
    have "used_map t ! j = used_map s ! j" using um x(1,2) j by (metis nat_int)
    then have "nbr_get_bit (used_map t) tb (item_from_key s tb x) =
        nbr_get_bit (used_map s) tb (item_from_key s tb x)"
      by (simp add: item_from_key_def j nbr_get_bit_index [OF tb])
    moreover have "x \<in> set ?ys" "nt_lladdr t x = b" using x by (auto simp: la)
    moreover have "\<not> (key \<in> set xs \<and> b = nt_lladdr s key)" using x inj by (auto dest: inj_onD)
    ultimately show ?thesis
      using nbr_map_key [OF wt, of x tb] nbr_map_key [OF wf x(1), of tb] item_from_key_cong [OF mm]
      by (simp add: x(3) [symmetric])
  next
    case False
    have "b \<notin> nt_lladdr t ` set ?ys" using False b by (auto simp: la)
    then have "nbr_map t ?ys tb b = None" by (rule nbr_map_absent)
    moreover have "key \<in> set xs \<and> b = nt_lladdr s key \<or> b \<notin> nt_lladdr s ` set xs" using False by auto
    ultimately show ?thesis using nbr_map_absent by auto
  qed
qed

text \<open>
  What a successful addition leaves: the address maps to its zeroed item, and all other
  addresses keep theirs in every table, but those of one evicted neighbour when all were taken.
\<close>

definition nbr_added :: "nbrs \<Rightarrow> ptr list \<Rightarrow> nbr_table \<Rightarrow> rimeaddr \<Rightarrow> ptr \<Rightarrow> nbrs \<Rightarrow> ptr list \<Rightarrow> bool" where
  "nbr_added s xs tb a item t ys \<longleftrightarrow> nbr_wf t ys \<and> nbr_map t ys tb a = Some item \<and>
     nbr_table_get_lladdr t tb item = Some a \<and>
     (\<forall>i < tb_item_size tb. nt_bytes t (item + i) = 0) \<and>
     (\<exists>evicted. (\<forall>b tb'. tb_ok tb' \<longrightarrow> b \<noteq> a \<longrightarrow> nbr_map t ys tb' b =
          (if b \<in> evicted then None else nbr_map s xs tb' b)) \<and>
        (evicted = {} \<or> (\<exists>k. evicted = {nt_lladdr s k} \<and> least_used s xs k \<and>
          length xs = NBR_TABLE_MAX_NEIGHBORS)))"

lemma nbr_added_mark:
  assumes wf: "nbr_wf t ys" and tb: "tb_ok tb" and k: "key \<in> set ys" and a: "nt_lladdr t key = a"
    and ev: "\<forall>b tb'. tb_ok tb' \<longrightarrow> b \<noteq> a \<longrightarrow> nbr_map t ys tb' b =
          (if b \<in> evicted then None else nbr_map s xs tb' b)"
    and lu: "evicted = {} \<or> (\<exists>k. evicted = {nt_lladdr s k} \<and> least_used s xs k \<and>
          length xs = NBR_TABLE_MAX_NEIGHBORS)"
  shows "item_from_key t tb key \<noteq> NULL \<and>
    nbr_added s xs tb a (item_from_key t tb key) (nbr_mark tb (item_from_key t tb key) t) ys"
proof -
  let ?item = "item_from_key t tb key"
  let ?u = "nbr_mark tb ?item t"
  obtain i where i: "key \<noteq> NULL" "index_from_key t key = int i"
    using nbr_wf_key [OF wf nbr_wf_blocks [OF wf k]] by blast
  then have nn: "?item \<noteq> NULL" using item_from_index_NULL [OF tb] by (simp add: item_from_key_def)
  have "key_from_item ?u tb ?item = key_from_item t tb ?item"
    by (simp add: key_from_item_def key_from_index_def)
  also have "\<dots> = key" by (rule key_from_item_key [OF wf tb nbr_wf_blocks [OF wf k]])
  finally have "nbr_table_get_lladdr ?u tb ?item = Some a"
    using a i(1) by (simp add: nbr_table_get_lladdr_def)
  moreover have "nbr_map ?u ys tb a = Some ?item"
    using nbr_map_mark(1) [OF wf tb k] a by simp
  moreover have "\<forall>b tb'. tb_ok tb' \<longrightarrow> b \<noteq> a \<longrightarrow> nbr_map ?u ys tb' b =
          (if b \<in> evicted then None else nbr_map s xs tb' b)"
    using nbr_map_mark(2) [OF wf tb k] a ev by simp
  moreover have "\<forall>i < tb_item_size tb. nt_bytes ?u (?item + i) = 0" by (simp add: nbr_mark_def)
  ultimately show ?thesis
    using nn nbr_mark_wf(1) [OF wf tb k] lu unfolding nbr_added_def by blast
qed

section \<open>Properties\<close>

text \<open>
  C37. The tables behave as maps from link-layer addresses to items over at most four shared
  neighbours. \<open>nbr_table_add_lladdr\<close> always returns. It fails only for a new address when all
  four neighbours are locked, and then changes nothing. Otherwise the address maps to the
  returned item in the table, the item is zeroed and belongs to the address, and in every table
  every other address keeps its item - except, when all four neighbours were in use, those of
  one evicted neighbour: an unlocked one used by the fewest tables, the oldest of these.
\<close>

theorem nbr_table_add_spec:
  assumes wf: "nbr_wf s xs" and tb: "tb_ok tb" and cb: "cb_ok cb" and tabs: "tables_ok s"
  shows "\<exists>item t. nbr_table_add_lladdr cb tb (Some a) s = Some (item, t) \<and>
    (if item = NULL
     then t = s \<and> a \<notin> nt_lladdr s ` set xs \<and> length xs = NBR_TABLE_MAX_NEIGHBORS \<and>
       (\<forall>x \<in> set xs. \<not> nbr_unlocked s x)
     else \<exists>ys. nbr_added s xs tb a item t ys)"
proof (cases "a \<in> nt_lladdr s ` set xs")
  case True
  then obtain k where k: "k \<in> set xs" "nt_lladdr s k = a" by auto
  from nbr_added_mark [OF wf tb k, of "{}" s xs] have
    "item_from_key s tb k \<noteq> NULL \<and>
      nbr_added s xs tb a (item_from_key s tb k) (nbr_mark tb (item_from_key s tb k) s) xs" by simp
  with nbr_add_present [OF wf k, of cb tb] show ?thesis by auto
next
  case False
  from nbr_allocate_enter [OF wf False cb tabs] obtain key s1 where
    al: "nbr_table_allocate cb s = Some (key, s1)"
    "if key = NULL then s1 = s \<and> length xs = NBR_TABLE_MAX_NEIGHBORS \<and> (\<forall>x \<in> set xs. \<not> nbr_unlocked s x)
     else \<exists>t. nbr_enter key a s1 = Some t \<and> nbr_entered s xs key a t" by blast
  show ?thesis
  proof (cases "key = NULL")
    case True
    with al False nbr_add_absent [OF wf False al(1), of tb] show ?thesis by simp
  next
    case kn: False
    with al(2) obtain t where t: "nbr_enter key a s1 = Some t" "nbr_entered s xs key a t" by auto
    let ?ys = "filter (\<lambda>x. x \<noteq> key) xs @ [key]" and ?ev = "if key \<in> set xs then {nt_lladdr s key} else {}"
    have "mb_mem (neighbor_addr_mem s1) = mb_mem (neighbor_addr_mem t)"
      using t(1) by (auto simp: nbr_enter_def)
    then have it: "item_from_index tb (index_from_key s1 key) = item_from_key t tb key"
      by (simp add: item_from_key_def index_from_key_def)
    have en: "nbr_wf t ?ys" "nt_lladdr t key = a" "key \<in> set ?ys"
      "key \<in> set xs \<Longrightarrow> least_used s xs key \<and> length xs = NBR_TABLE_MAX_NEIGHBORS"
      using t(2) by (simp_all add: nbr_entered_def)
    have "item_from_key t tb key \<noteq> NULL \<and>
        nbr_added s xs tb a (item_from_key t tb key) (nbr_mark tb (item_from_key t tb key) t) ?ys"
      using en tb nbr_map_entered [OF wf t(2) _ False]
      by (intro nbr_added_mark [where evicted = ?ev]) auto
    with nbr_add_absent [OF wf False al(1), of tb] kn t(1) it show ?thesis by auto
  qed
qed

abbreviation nbrs0 :: nbrs where
  "nbrs0 \<equiv> \<lparr>used_map = [0, 0, 0, 0], locked_map = [0, 0, 0, 0], all_tables = replicate 8 None,
     num_tables = 0, neighbor_addr_mem = \<lparr>mb_size = 12, mb_num = 4, mb_count = [0, 0, 0, 0],
     mb_mem = 100, mb_data = []\<rparr>, nbr_table_keys = \<lparr>lh_head = 0, lh_next = (\<lambda>_. 0)\<rparr>,
     nt_lladdr = (\<lambda>_. []), nt_bytes = (\<lambda>_. 7)\<rparr>"

abbreviation tab0 :: nbr_table where
  "tab0 \<equiv> \<lparr>tb_index = 0, tb_item_size = 3, tb_callback = False, tb_data = 500\<rparr>"

lemma nbrs0_wf: "nbr_wf nbrs0 []" "tb_ok tab0" "tables_ok nbrs0"
  by (auto simp: nbr_wf_def tb_ok_def tables_ok_def memb_wf_def memb_used_def repr_def NBR_KEY_SIZE_def
      NBR_TABLE_MAX_NEIGHBORS_def MAX_NUM_TABLES_def nth_Cons')

lemma cb_none_ok: "cb_ok (\<lambda>tb item s. s)"
  unfolding cb_ok_def Let_def
proof (intro allI)
  fix tb item s
  show "\<exists>u l b. s = s\<lparr>used_map := (used_map s)[nat (index_from_item tb item) := u],
      locked_map := (locked_map s)[nat (index_from_item tb item) := l], nt_bytes := b\<rparr> \<and>
      (locked_map s ! nat (index_from_item tb item) = 0 \<longrightarrow> l = 0)"
    by (rule exI [of _ "used_map s ! nat (index_from_item tb item)"],
        rule exI [of _ "locked_map s ! nat (index_from_item tb item)"],
        rule exI [of _ "nt_bytes s"]) simp
qed

theorem nbr_table_add_spec_witness:
  "\<exists>item t ys. nbr_table_add_lladdr (\<lambda>tb item s. s) tab0 (Some [1]) nbrs0 = Some (item, t) \<and>
     item \<noteq> NULL \<and> nbr_wf t ys \<and> nbr_map t ys tab0 [1] = Some item"
  using nbr_table_add_spec [OF nbrs0_wf(1,2) cb_none_ok nbrs0_wf(3), of "[1]"]
  by (auto simp: NBR_TABLE_MAX_NEIGHBORS_def nbr_added_def split: if_splits)

text \<open>
  Lookup and iteration agree with the map: \<open>nbr_table_get_from_lladdr\<close> returns the item of
  the address or a null pointer, \<open>nbr_table_head\<close> is the first of the table's items in the order
  in which the neighbours were added, and \<open>nbr_table_next\<close> the one that follows.
\<close>

theorem nbr_table_iterates:
  assumes "nbr_wf s xs" and "tb_ok tb" and "xs = ys @ k # zs"
  shows "nbr_table_get_from_lladdr s tb (Some a) =
      Some (case nbr_map s xs tb a of None \<Rightarrow> NULL | Some item \<Rightarrow> item) \<and>
    nbr_table_head s tb = Some (if nbr_items s xs tb = [] then NULL else hd (nbr_items s xs tb)) \<and>
    nbr_table_next s tb (item_from_key s tb k) =
      Some (if nbr_items s zs tb = [] then NULL else hd (nbr_items s zs tb))"
  using nbr_get_lladdr_map [OF assms(1,2)] nbr_table_head_wf [OF assms(1,2)]
    nbr_table_next_wf [OF assms] by simp

abbreviation nbrs2 :: nbrs where
  "nbrs2 \<equiv> nbrs0\<lparr>used_map := [1, 1, 0, 0],
     neighbor_addr_mem := \<lparr>mb_size = 12, mb_num = 4, mb_count = [1, 1, 0, 0], mb_mem = 100, mb_data = []\<rparr>,
     nbr_table_keys := \<lparr>lh_head = 112, lh_next = (\<lambda>_. 0)(112 := 100)\<rparr>,
     nt_lladdr := (\<lambda>_. [])(100 := [1], 112 := [2])\<rparr>"

lemma nbrs2_wf: "nbr_wf nbrs2 [112, 100]"
proof -
  have "memb_used (neighbor_addr_mem nbrs2) = {112, 100}"
    by (auto simp: memb_used_def nth_Cons' image_iff split: if_splits)
  moreover have "(\<forall>i < (4 :: nat). P i) \<longleftrightarrow> P 0 \<and> P 1 \<and> P 2 \<and> P 3" for P
    by (auto simp: numeral_eq_Suc less_Suc_eq)
  ultimately show ?thesis
    by (simp add: nbr_wf_def memb_wf_def repr_def NBR_KEY_SIZE_def NBR_TABLE_MAX_NEIGHBORS_def
        inj_on_def)
qed

theorem nbr_table_iterates_witness:
  "nbr_table_head nbrs2 tab0 = Some 503 \<and> nbr_table_next nbrs2 tab0 503 = Some 500 \<and>
   nbr_table_get_from_lladdr nbrs2 tab0 (Some [1]) = Some 500"
  using nbr_table_iterates [OF nbrs2_wf nbrs0_wf(2), of "[]" 112 "[100]" "[1]"]
  by (simp add: nbr_items_def item_from_key_def index_from_key_def item_from_index_def NBR_KEY_SIZE_def
      nbr_get_bit_def index_from_item_def nbr_map_def)

end
