(* ===== verification/LinkedList.thy ===== *)
theory LinkedList
  imports Prelude
begin

text \<open>
  The heap-allocated singly linked list of the 802.11 code (\<open>cpu/linked_list.h\<close>). A list is a
  pointer to its root node, which is never freed by the last removal: an empty list is a root
  with a null value. Nodes and the values they point to live on the C heap; a dereference of or
  a \<open>free\<close> of memory that is not allocated is undefined behaviour, and makes the result \<open>None\<close>,
  as does a traversal that does not end. What \<open>malloc\<close> returns is the argument \<open>m\<close> of the
  operations that allocate: null or an address that is not allocated. The \<open>atomic\<close> flag of the
  code only selects an allocator with interrupts disabled.
\<close>

record mheap =
  nodes :: "ptr \<Rightarrow> (ptr \<times> ptr) option"
  objs :: "ptr set"

section \<open>The operations\<close>

definition mem_free :: "ptr \<Rightarrow> mheap \<Rightarrow> mheap option" where
  "mem_free v h = (if v = NULL then Some h
     else if v \<in> objs h then Some (h\<lparr>objs := objs h - {v}\<rparr>) else None)"

definition node_free :: "ptr \<Rightarrow> mheap \<Rightarrow> mheap option" where
  "node_free p h = (if nodes h p = None then None else Some (h\<lparr>nodes := (nodes h)(p := None)\<rparr>))"

definition linked_list_init :: "ptr \<Rightarrow> ptr \<Rightarrow> mheap \<Rightarrow> ptr \<times> mheap" where
  "linked_list_init l m h =
     (if l \<noteq> NULL then (l, h)
      else if m \<noteq> NULL then (m, h\<lparr>nodes := (nodes h)(m \<mapsto> (NULL, NULL))\<rparr>) else (m, h))"

definition linked_list_is_empty :: "ptr \<Rightarrow> mheap \<Rightarrow> bool option" where
  "linked_list_is_empty l h =
     (if l = NULL then Some True else do { (v, n) \<leftarrow> nodes h l; Some (v = NULL) })"

partial_function (option) linked_list_len_loop :: "mheap \<Rightarrow> ptr \<Rightarrow> u16 \<Rightarrow> u16 option" where
  "linked_list_len_loop h l len =
     (if l = NULL then Some len
      else case nodes h l of
        None \<Rightarrow> None
      | Some (v, n) \<Rightarrow> if v \<noteq> NULL then linked_list_len_loop h n (len + 1) else Some len)"

definition linked_list_get_len :: "ptr \<Rightarrow> mheap \<Rightarrow> u32 option" where
  "linked_list_get_len l h =
     (if l = NULL then Some 0
      else do {
        (v, n) \<leftarrow> nodes h l;
        if v = NULL then Some 0 else map_option ucast (linked_list_len_loop h l 0)
      })"

text \<open>The walk to the last node, counting the nodes.\<close>

partial_function (option) linked_list_last :: "mheap \<Rightarrow> ptr \<Rightarrow> int \<Rightarrow> (ptr \<times> int) option" where
  "linked_list_last h p counter =
     (case nodes h p of
        None \<Rightarrow> None
      | Some (v, n) \<Rightarrow> if n \<noteq> NULL then linked_list_last h n (counter + 1) else Some (p, counter))"

definition linked_list_add_tail :: "ptr \<Rightarrow> ptr \<Rightarrow> int \<Rightarrow> ptr \<Rightarrow> mheap \<Rightarrow> (int \<times> mheap) option" where
  "linked_list_add_tail l val max_position m h =
     (if val = NULL then Some (-1, h)
      else if l = NULL then Some (-1, h)
      else do {
        (v, n) \<leftarrow> nodes h l;
        if v = NULL then
          Some (if n \<noteq> NULL then -1 else 0, h\<lparr>nodes := (nodes h)(l \<mapsto> (val, n))\<rparr>)
        else do {
          (pos, counter) \<leftarrow> linked_list_last h l 1;
          if counter \<ge> max_position then Some (-1, h)
          else do {
            (pv, pn) \<leftarrow> nodes h pos;
            let h1 = h\<lparr>nodes := (nodes h)(pos \<mapsto> (pv, m))\<rparr>;
            if m = NULL then Some (-1, h1)
            else Some (counter, h1\<lparr>nodes := (nodes h1)(m \<mapsto> (val, NULL))\<rparr>)
          }
        }
      })"

definition linked_list_add_to_front :: "ptr \<Rightarrow> ptr \<Rightarrow> ptr \<Rightarrow> mheap \<Rightarrow> (ptr \<times> mheap) option" where
  "linked_list_add_to_front l val m h =
     (if val = NULL then Some (l, h)
      else if l = NULL then Some (NULL, h)
      else do {
        (v, n) \<leftarrow> nodes h l;
        if v = NULL then
          (if n \<noteq> NULL then Some (NULL, h) else Some (l, h\<lparr>nodes := (nodes h)(l \<mapsto> (val, n))\<rparr>))
        else if m = NULL then Some (NULL, h)
        else Some (m, h\<lparr>nodes := (nodes h)(m \<mapsto> (val, l))\<rparr>)
      })"

definition linked_list_get :: "ptr \<Rightarrow> mheap \<Rightarrow> ptr option" where
  "linked_list_get l h = (if l = NULL then Some NULL else map_option fst (nodes h l))"

fun linked_list_walk :: "mheap \<Rightarrow> ptr \<Rightarrow> nat \<Rightarrow> ptr option" where
  "linked_list_walk h p 0 = (case nodes h p of None \<Rightarrow> None | Some (v, n) \<Rightarrow> Some v)"
| "linked_list_walk h p (Suc k) =
     (case nodes h p of None \<Rightarrow> None | Some (v, n) \<Rightarrow> linked_list_walk h n k)"

text \<open>The index is compared with the length as an unsigned number.\<close>

definition linked_list_get_element_at :: "ptr \<Rightarrow> u32 \<Rightarrow> mheap \<Rightarrow> ptr option" where
  "linked_list_get_element_at l index h =
     (if l = NULL then Some NULL
      else do {
        len \<leftarrow> linked_list_get_len l h;
        if index \<ge> len then Some NULL else linked_list_walk h l (unat index)
      })"

definition linked_list_remove_first :: "ptr \<Rightarrow> mheap \<Rightarrow> (ptr \<times> mheap) option" where
  "linked_list_remove_first l h =
     (if l = NULL then Some (NULL, h)
      else do {
        e \<leftarrow> linked_list_is_empty l h;
        if e then Some (l, h)
        else do {
          (v, n) \<leftarrow> nodes h l;
          if n = NULL then do {
            h1 \<leftarrow> mem_free v h;
            Some (l, h1\<lparr>nodes := (nodes h1)(l \<mapsto> (NULL, n))\<rparr>)
          }
          else do {
            h1 \<leftarrow> mem_free v h;
            h2 \<leftarrow> node_free l h1;
            Some (n, h2)
          }
        }
      })"

text \<open>With a single element the list is returned as it is.\<close>

definition linked_list_pop_first :: "ptr \<Rightarrow> mheap \<Rightarrow> (ptr \<times> mheap) option" where
  "linked_list_pop_first l h =
     (if l = NULL then Some (NULL, h)
      else do {
        e \<leftarrow> linked_list_is_empty l h;
        if e then Some (l, h)
        else do {
          (v, n) \<leftarrow> nodes h l;
          if n = NULL then Some (l, h)
          else do {
            h1 \<leftarrow> mem_free v h;
            h2 \<leftarrow> node_free l h1;
            Some (n, h2)
          }
        }
      })"

definition linked_list_remove_first_deep :: "ptr \<Rightarrow> mheap \<Rightarrow> (ptr \<times> mheap) option" where
  "linked_list_remove_first_deep l h =
     (if l = NULL then Some (NULL, h)
      else do {
        e \<leftarrow> linked_list_is_empty l h;
        if e then Some (l, h)
        else do {
          (v, n) \<leftarrow> nodes h l;
          if n = NULL then do {
            h1 \<leftarrow> mem_free v h;
            Some (l, h1\<lparr>nodes := (nodes h1)(l \<mapsto> (NULL, n))\<rparr>)
          }
          else do {
            h1 \<leftarrow> mem_free v h;
            h2 \<leftarrow> node_free l h1;
            Some (n, h2)
          }
        }
      })"

partial_function (option) linked_list_erase_loop :: "ptr \<Rightarrow> mheap \<Rightarrow> mheap option" where
  "linked_list_erase_loop l h = do {
     e \<leftarrow> linked_list_is_empty l h;
     if e then Some h
     else do {
       (l1, h1) \<leftarrow> linked_list_remove_first l h;
       linked_list_erase_loop l1 h1
     }
   }"

text \<open>The caller's pointer is passed by value, so it keeps the old root.\<close>

definition linked_list_erase :: "ptr \<Rightarrow> mheap \<Rightarrow> mheap option" where
  "linked_list_erase l h =
     (if l = NULL then Some h
      else do { e \<leftarrow> linked_list_is_empty l h; if e then Some h else linked_list_erase_loop l h })"

text \<open>Here the caller's pointer is passed by reference: the result is its new value.\<close>

partial_function (option) linked_list_erase_deep_loop :: "ptr \<Rightarrow> mheap \<Rightarrow> (ptr \<times> mheap) option" where
  "linked_list_erase_deep_loop l h = do {
     e \<leftarrow> linked_list_is_empty l h;
     if e then Some (l, h)
     else do {
       (l1, h1) \<leftarrow> linked_list_remove_first_deep l h;
       linked_list_erase_deep_loop l1 h1
     }
   }"

definition linked_list_erase_deep :: "ptr \<Rightarrow> mheap \<Rightarrow> (ptr \<times> mheap) option" where
  "linked_list_erase_deep l h =
     (if l = NULL then Some (l, h)
      else do { e \<leftarrow> linked_list_is_empty l h; if e then Some (l, h) else linked_list_erase_deep_loop l h })"

fun linked_list_pair_at :: "mheap \<Rightarrow> ptr \<Rightarrow> ptr \<Rightarrow> nat \<Rightarrow> (ptr \<times> ptr) option" where
  "linked_list_pair_at h pr p 0 = Some (pr, p)"
| "linked_list_pair_at h pr p (Suc k) =
     (case nodes h p of None \<Rightarrow> None | Some (v, n) \<Rightarrow> linked_list_pair_at h p n k)"

definition linked_list_remove_element_at :: "ptr \<Rightarrow> u32 \<Rightarrow> mheap \<Rightarrow> (ptr \<times> mheap) option" where
  "linked_list_remove_element_at l index h =
     (if l = NULL then Some (NULL, h)
      else do {
        len \<leftarrow> linked_list_get_len l h;
        if index \<ge> len then Some (NULL, h)
        else if index = 0 then linked_list_pop_first l h
        else do {
          (pr, p) \<leftarrow> linked_list_pair_at h NULL l (unat index);
          if pr = NULL then Some (NULL, h)
          else do {
            (v, n) \<leftarrow> nodes h p;
            (pv, pn) \<leftarrow> nodes h pr;
            h2 \<leftarrow> node_free p (h\<lparr>nodes := (nodes h)(pr \<mapsto> (pv, n))\<rparr>);
            Some (l, h2)
          }
        }
      })"

definition linked_list_move_to_front :: "ptr \<Rightarrow> u32 \<Rightarrow> ptr \<Rightarrow> mheap \<Rightarrow> (ptr \<times> mheap) option" where
  "linked_list_move_to_front l index m h =
     (if l = NULL then Some (NULL, h)
      else if index = 0 then Some (l, h)
      else do {
        len \<leftarrow> linked_list_get_len l h;
        if index \<ge> len then Some (NULL, h)
        else do {
          v \<leftarrow> linked_list_get_element_at l index h;
          (l1, h1) \<leftarrow> linked_list_remove_element_at l index h;
          linked_list_add_to_front l1 v m h1
        }
      })"

section \<open>Abstraction\<close>

text \<open>A path of nodes with non-null values, as (node, value) pairs.\<close>

fun nseg :: "(ptr \<Rightarrow> (ptr \<times> ptr) option) \<Rightarrow> ptr \<Rightarrow> (ptr \<times> ptr) list \<Rightarrow> ptr \<Rightarrow> bool" where
  "nseg f p [] q \<longleftrightarrow> p = q"
| "nseg f p (e # es) q \<longleftrightarrow> p = fst e \<and> p \<noteq> NULL \<and> snd e \<noteq> NULL \<and>
     (\<exists>n. f p = Some (snd e, n) \<and> nseg f n es q)"

text \<open>
  The list at root \<open>l\<close> with elements \<open>es\<close>: all values are allocated objects, and they are
  pairwise different (each value is owned by one element).
\<close>

definition ll_rep :: "mheap \<Rightarrow> ptr \<Rightarrow> (ptr \<times> ptr) list \<Rightarrow> bool" where
  "ll_rep h l es \<longleftrightarrow> l \<noteq> NULL \<and>
     (if es = [] then nodes h l = Some (NULL, NULL) else nseg (nodes h) l es NULL) \<and>
     distinct (map snd es) \<and> set (map snd es) \<subseteq> objs h"

lemma nseg_append [simp]:
  "nseg f p (xs @ ys) q \<longleftrightarrow> (\<exists>r. nseg f p xs r \<and> nseg f r ys q)"
  by (induction xs arbitrary: p) auto

lemma nseg_dom: "nseg f p es q \<Longrightarrow> e \<in> set es \<Longrightarrow> fst e \<noteq> NULL \<and> f (fst e) \<noteq> None \<and> snd e \<noteq> NULL"
  by (induction es arbitrary: p) auto

lemma nseg_unique: "nseg f p xs NULL \<Longrightarrow> nseg f p ys NULL \<Longrightarrow> xs = ys"
proof (induction xs arbitrary: p ys)
  case Nil
  then show ?case by (cases ys) auto
next
  case (Cons x xs)
  then show ?case by (cases ys) (auto simp: prod_eq_iff)
qed

lemma nseg_distinct: "nseg f p es NULL \<Longrightarrow> distinct (map fst es)"
proof (induction es arbitrary: p)
  case (Cons e es)
  have "fst e \<notin> set (map fst es)"
  proof
    assume "fst e \<in> set (map fst es)"
    then obtain e' where "e' \<in> set es" "fst e' = fst e" by auto
    then obtain ys zs where es: "es = ys @ e' # zs" by (meson split_list)
    with Cons.prems \<open>fst e' = fst e\<close> have "nseg f p (e # es) NULL" "nseg f p (e' # zs) NULL" by auto
    then have "e # es = e' # zs" by (rule nseg_unique)
    with es show False by simp
  qed
  with Cons show ?case by auto
qed simp

lemma nseg_upd [simp]: "p \<notin> fst ` set es \<Longrightarrow> nseg (f(p := x)) q es r = nseg f q es r"
  by (induction es arbitrary: q) auto

section \<open>Each operation on a proper list\<close>

lemma ll_rep_root: "ll_rep h l es \<Longrightarrow> l \<noteq> NULL \<and>
    (\<exists>v n. nodes h l = Some (v, n) \<and> (v = NULL \<longleftrightarrow> es = []))"
  by (cases es) (auto simp: ll_rep_def)

lemma linked_list_is_empty_rep: "ll_rep h l es \<Longrightarrow> linked_list_is_empty l h = Some (es = [])"
  using ll_rep_root [of h l es] by (auto simp: linked_list_is_empty_def)

lemma linked_list_len_loop_seg:
  "nseg (nodes h) l es NULL \<Longrightarrow> linked_list_len_loop h l c = Some (c + of_nat (length es))"
proof (induction es arbitrary: l c)
  case Nil
  then show ?case by (simp add: linked_list_len_loop.simps)
next
  case (Cons e es)
  then show ?case by (auto simp: linked_list_len_loop.simps [of h "fst e"] ac_simps)
qed

lemma linked_list_get_len_rep:
  assumes "ll_rep h l es" and "length es < 65536"
  shows "linked_list_get_len l h = Some (of_nat (length es))"
proof (cases "es = []")
  case True
  with assms show ?thesis by (simp add: linked_list_get_len_def ll_rep_def)
next
  case False
  then have sg: "nseg (nodes h) l es NULL" "l \<noteq> NULL" using assms(1) by (simp_all add: ll_rep_def)
  obtain v n where "nodes h l = Some (v, n)" "v \<noteq> NULL" using ll_rep_root [OF assms(1)] False by blast
  moreover have "(ucast (of_nat (length es) :: u16) :: u32) = of_nat (length es)"
    using assms(2) by (simp add: unsigned_of_nat take_bit_nat_eq_self)
  ultimately show ?thesis
    using linked_list_len_loop_seg [OF sg(1), of 0] sg(2) by (simp add: linked_list_get_len_def)
qed

lemma linked_list_last_seg:
  "nseg (nodes h) p (es @ [e]) NULL \<Longrightarrow>
    linked_list_last h p c = Some (fst e, c + int (length es)) \<and> nodes h (fst e) = Some (snd e, NULL)"
proof (induction es arbitrary: p c)
  case Nil
  then show ?case by (auto simp: linked_list_last.simps)
next
  case (Cons x es)
  from Cons.prems obtain n where n: "nodes h p = Some (snd x, n)" "nseg (nodes h) n (es @ [e]) NULL"
    by auto
  moreover have "n \<noteq> NULL" using n(2) by (cases es) auto
  ultimately show ?case using Cons.IH [of n "c + 1"] by (simp add: linked_list_last.simps [of h p])
qed

lemma linked_list_add_tail_rep:
  assumes rep: "ll_rep h l es" and v: "v \<in> objs h" "v \<notin> snd ` set es" "v \<noteq> NULL"
    and m: "m \<noteq> NULL \<Longrightarrow> nodes h m = None"
  shows "\<exists>h'. objs h' = objs h \<and> (if es = [] then
      linked_list_add_tail l v mx m h = Some (0, h') \<and> ll_rep h' l [(l, v)]
    else if int (length es) < mx \<and> m \<noteq> NULL then
      linked_list_add_tail l v mx m h = Some (int (length es), h') \<and> ll_rep h' l (es @ [(m, v)])
    else linked_list_add_tail l v mx m h = Some (-1, h') \<and> ll_rep h' l es)"
proof (cases es rule: rev_cases)
  case Nil
  then have "nodes h l = Some (NULL, NULL)" "l \<noteq> NULL" using rep by (simp_all add: ll_rep_def)
  with Nil v show ?thesis
    by (intro exI [of _ "h\<lparr>nodes := (nodes h)(l \<mapsto> (v, NULL))\<rparr>"])
      (simp add: linked_list_add_tail_def ll_rep_def)
next
  case (snoc xs e)
  then have ne: "es \<noteq> []" by simp
  have sg: "nseg (nodes h) l (xs @ [e]) NULL" using rep snoc by (simp add: ll_rep_def)
  note la = linked_list_last_seg [OF sg, of 1]
  obtain rv rn where root: "l \<noteq> NULL" "nodes h l = Some (rv, rn)" "rv \<noteq> NULL"
    using ll_rep_root [OF rep] ne by blast
  have d: "distinct (map fst (xs @ [e]))" using sg by (rule nseg_distinct)
  have same: "(nodes h)(fst e \<mapsto> (snd e, NULL)) = nodes h" using la by (auto simp: fun_upd_idem_iff)
  show ?thesis
  proof (cases "int (length es) < mx \<and> m \<noteq> NULL")
    case True
    then have nm: "nodes h m = None" using m by blast
    have mf: "m \<notin> fst ` set (xs @ [e])" using nseg_dom [OF sg] nm by force
    let ?n = "(nodes h)(fst e \<mapsto> (snd e, m), m \<mapsto> (v, NULL))"
    from sg obtain r where r: "nseg (nodes h) l xs r" "r = fst e" "r \<noteq> NULL" "snd e \<noteq> NULL" by auto
    have "nseg ?n l xs r" using r(1) d mf by auto
    then have "nseg ?n l (xs @ [e, (m, v)]) NULL" using r True v(3) mf by auto
    then have "ll_rep (h\<lparr>nodes := ?n\<rparr>) l (es @ [(m, v)])"
      using rep snoc v root(1) by (auto simp: ll_rep_def)
    moreover have "linked_list_add_tail l v mx m h = Some (int (length es), h\<lparr>nodes := ?n\<rparr>)"
      using root la True v(3) snoc by (simp add: linked_list_add_tail_def)
    ultimately show ?thesis using ne True by auto
  next
    case False
    have "linked_list_add_tail l v mx m h = Some (-1, h)"
    proof (cases "int (length es) < mx")
      case True
      then show ?thesis using False root la v(3) snoc same by (simp add: linked_list_add_tail_def)
    next
      case False
      then show ?thesis using root la v(3) snoc by (simp add: linked_list_add_tail_def)
    qed
    with ne False rep show ?thesis by (intro exI [of _ h]) auto
  qed
qed

lemma linked_list_get_rep: "ll_rep h l es \<Longrightarrow>
    linked_list_get l h = Some (if es = [] then NULL else snd (hd es))"
  by (cases es) (auto simp: linked_list_get_def ll_rep_def)

lemma linked_list_walk_seg:
  "nseg (nodes h) p es NULL \<Longrightarrow> k < length es \<Longrightarrow> linked_list_walk h p k = Some (snd (es ! k))"
proof (induction es arbitrary: p k)
  case (Cons e es)
  then show ?case by (cases k) auto
qed simp

lemma linked_list_get_element_at_rep:
  assumes "ll_rep h l es" and "length es < 65536"
  shows "linked_list_get_element_at l index h =
    Some (if unat index < length es then snd (es ! unat index) else NULL)"
proof -
  have u: "unat (of_nat (length es) :: u32) = length es" using assms(2) by (simp add: unat_of_nat_u32)
  have le: "index \<ge> of_nat (length es) \<longleftrightarrow> length es \<le> unat index"
    by (simp add: word_le_nat_alt u)
  have ln: "l \<noteq> NULL" using ll_rep_root [OF assms(1)] by blast
  show ?thesis
  proof (cases "unat index < length es")
    case True
    then have "nseg (nodes h) l es NULL" using assms(1) by (auto simp: ll_rep_def split: if_splits)
    from linked_list_walk_seg [OF this True] True ln linked_list_get_len_rep [OF assms]
    show ?thesis by (simp add: linked_list_get_element_at_def le)
  next
    case False
    then show ?thesis using linked_list_get_len_rep [OF assms]
      by (simp add: linked_list_get_element_at_def le)
  qed
qed

lemma linked_list_remove_first_one:
  assumes "ll_rep h l [(l, v)]"
  shows "\<exists>h'. linked_list_remove_first l h = Some (l, h') \<and> ll_rep h' l [] \<and> objs h' = objs h - {v} \<and>
    nodes h' = (nodes h)(l \<mapsto> (NULL, NULL))"
  using assms
  by (auto simp: linked_list_remove_first_def linked_list_is_empty_def ll_rep_def mem_free_def)

lemma linked_list_remove_first_more:
  assumes rep: "ll_rep h l ((l, v) # e # es)"
  shows "\<exists>h'. linked_list_remove_first l h = Some (fst e, h') \<and> ll_rep h' (fst e) (e # es) \<and>
    objs h' = objs h - {v} \<and> nodes h' = (nodes h)(l := None)"
proof -
  let ?h = "h\<lparr>objs := objs h - {v}, nodes := (nodes h)(l := None)\<rparr>"
  from rep have r: "l \<noteq> NULL" "v \<noteq> NULL" "nodes h l = Some (v, fst e)" "fst e \<noteq> NULL"
    "nseg (nodes h) (fst e) (e # es) NULL" "v \<in> objs h"
    and d: "distinct (map snd ((l, v) # e # es))" "set (map snd (e # es)) \<subseteq> objs h"
    by (auto simp: ll_rep_def)
  have "nseg (nodes h) l ((l, v) # e # es) NULL" using r by simp
  then have "distinct (map fst ((l, v) # e # es))" by (rule nseg_distinct)
  then have "l \<notin> fst ` set (e # es)" by auto
  then have sg: "nseg (nodes ?h) (fst e) (e # es) NULL" using r(5) by (simp del: nseg.simps)
  have sub: "set (map snd (e # es)) \<subseteq> objs h - {v}" using d by auto
  have "ll_rep ?h (fst e) (e # es)"
    unfolding ll_rep_def using sg sub d(1) r(4) by (simp del: nseg.simps)
  moreover have "linked_list_remove_first l h = Some (fst e, ?h)"
    using r by (simp add: linked_list_remove_first_def linked_list_is_empty_def mem_free_def node_free_def)
  ultimately show ?thesis by auto
qed

lemma linked_list_remove_first_deep_eq:
  "linked_list_remove_first_deep l h = linked_list_remove_first l h"
  by (simp add: linked_list_remove_first_deep_def linked_list_remove_first_def)

lemma linked_list_erase_loop_rep:
  "ll_rep h l es \<Longrightarrow> \<exists>h' r. linked_list_erase_loop l h = Some h' \<and>
    linked_list_erase_deep_loop l h = Some (r, h') \<and>
    ll_rep h' r [] \<and> objs h' = objs h - snd ` set es \<and> r = (if es = [] then l else fst (last es)) \<and>
    (\<forall>p \<in> fst ` set (butlast es). nodes h' p = None) \<and>
    (\<forall>p. nodes h p = None \<longrightarrow> nodes h' p = None)"
proof (induction es arbitrary: h l)
  case Nil
  then show ?case
    using linked_list_is_empty_rep [OF Nil]
    by (simp add: linked_list_erase_loop.simps [of l] linked_list_erase_deep_loop.simps [of l])
next
  case (Cons e es)
  have el: "fst e = l" using Cons.prems by (auto simp: ll_rep_def)
  have ne: "linked_list_is_empty l h = Some False" using linked_list_is_empty_rep [OF Cons.prems] by simp
  show ?case
  proof (cases es)
    case Nil
    have "ll_rep h l [(l, snd e)]" using Cons.prems Nil el by (metis prod.collapse)
    from linked_list_remove_first_one [OF this] obtain h1 where h1:
      "linked_list_remove_first l h = Some (l, h1)" "ll_rep h1 l []" "objs h1 = objs h - {snd e}" "nodes h1 = (nodes h)(l \<mapsto> (NULL, NULL))" by blast
    have root: "nodes h l \<noteq> None" "nodes h1 l \<noteq> None" using ll_rep_root [OF Cons.prems] ll_rep_root [OF h1(2)] by auto
    have same: "\<forall>p. nodes h p = None \<longrightarrow> nodes h1 p = None" using root(1) h1(4) by auto
    show ?thesis
      using Nil h1 ne el same linked_list_is_empty_rep [OF h1(2)]
      by (simp add: linked_list_erase_loop.simps [of l] linked_list_erase_deep_loop.simps [of l]
          linked_list_remove_first_deep_eq)
  next
    case (Cons e2 es2)
    have "ll_rep h l ((l, snd e) # e2 # es2)" using Cons.prems Cons el by (metis prod.collapse)
    from linked_list_remove_first_more [OF this] obtain h1 where h1:
      "linked_list_remove_first l h = Some (fst e2, h1)" "ll_rep h1 (fst e2) (e2 # es2)"
      "objs h1 = objs h - {snd e}" "nodes h1 = (nodes h)(l := None)" by blast
    from Cons.IH [of h1 "fst e2"] h1(2) Cons obtain h' r where IH:
      "linked_list_erase_loop (fst e2) h1 = Some h'" "linked_list_erase_deep_loop (fst e2) h1 = Some (r, h')"
      "ll_rep h' r []" "objs h' = objs h1 - snd ` set es" "r = fst (last es)"
      "\<forall>p \<in> fst ` set (butlast es). nodes h' p = None" "\<forall>p. nodes h1 p = None \<longrightarrow> nodes h' p = None"
      by auto
    show ?thesis
      using IH h1 ne el Cons
      by (intro exI [of _ h'] exI [of _ r])
        (auto simp: linked_list_erase_loop.simps [of l] linked_list_erase_deep_loop.simps [of l]
          linked_list_remove_first_deep_eq)
  qed
qed

lemma linked_list_pair_at_seg:
  "nseg (nodes h) p (xs @ e # es) NULL \<Longrightarrow>
    linked_list_pair_at h pr p (length xs) =
      Some (if xs = [] then pr else fst (last xs), fst e)"
proof (induction xs arbitrary: p pr)
  case (Cons x xs)
  then show ?case by (auto simp del: linked_list_pair_at.simps(2) simp: linked_list_pair_at.simps(2))
qed simp

lemma nseg_unlink:
  assumes "nseg f l (xs @ [x, e] @ ys) NULL" and "f (fst e) = Some (snd e, n)"
  shows "nseg (f(fst x \<mapsto> (snd x, n), fst e := None)) l (xs @ [x] @ ys) NULL"
proof -
  from assms(1) obtain r where r: "nseg f l xs r" "r = fst x" "r \<noteq> NULL" "snd x \<noteq> NULL"
    "nseg f n ys NULL" using assms(2) by auto
  have d: "distinct (map fst (xs @ [x, e] @ ys))" using assms(1) by (rule nseg_distinct)
  let ?f = "f(fst x \<mapsto> (snd x, n), fst e := None)"
  have "nseg ?f l xs r" "nseg ?f n ys NULL" using r d by auto
  with r d show ?thesis by auto
qed

lemma linked_list_remove_element_at_rep:
  assumes rep: "ll_rep h l (xs @ e # ys)" and xs: "xs \<noteq> []" and len: "length (xs @ e # ys) < 65536"
  shows "\<exists>h'. linked_list_remove_element_at l (of_nat (length xs)) h = Some (l, h') \<and>
    ll_rep h' l (xs @ ys) \<and> objs h' = objs h \<and> (\<forall>p. nodes h p = None \<longrightarrow> nodes h' p = None)"
proof -
  obtain us x where us: "xs = us @ [x]" using xs by (cases xs rule: rev_cases) auto
  from rep have sg: "nseg (nodes h) l (us @ [x, e] @ ys) NULL" and ln: "l \<noteq> NULL"
    by (auto simp: ll_rep_def us split: if_splits)
  let ?i = "of_nat (length xs) :: u32"
  have ui: "unat ?i = length xs" using len by (simp add: unat_of_nat_u32)
  have i0: "?i \<noteq> 0" using ui xs by (metis length_0_conv unat_0)
  have ge: "\<not> ?i \<ge> of_nat (length (xs @ e # ys))"
    using len ui by (simp add: word_le_nat_alt unat_of_nat_u32 del: of_nat_add of_nat_Suc length_append list.size)
      simp
  note gl = linked_list_get_len_rep [OF rep len]
  have pa: "linked_list_pair_at h NULL l (length xs) = Some (fst x, fst e)"
    using linked_list_pair_at_seg [of h l xs e ys NULL] sg us by simp
  obtain n where ne: "nodes h (fst e) = Some (snd e, n)" and nx: "nodes h (fst x) = Some (snd x, fst e)"
    and x0: "fst x \<noteq> NULL" using sg by auto
  have d: "distinct (map fst (us @ [x, e] @ ys))" using sg by (rule nseg_distinct)
  let ?f = "(nodes h)(fst x \<mapsto> (snd x, n), fst e := None)"
  have sg2: "nseg ?f l (us @ [x] @ ys) NULL" by (rule nseg_unlink [OF sg ne])
  have "linked_list_remove_element_at l ?i h = Some (l, h\<lparr>nodes := ?f\<rparr>)"
    using ln gl ge i0 pa ui ne nx x0 d
    by (simp add: linked_list_remove_element_at_def node_free_def)
  moreover have "ll_rep (h\<lparr>nodes := ?f\<rparr>) l (xs @ ys)"
    using sg2 rep ln unfolding ll_rep_def us by (simp del: nseg.simps nseg_append)
  ultimately show ?thesis using nx by auto
qed

lemma linked_list_add_to_front_rep:
  assumes rep: "ll_rep h l es" and es: "es \<noteq> []" and v: "v \<in> objs h" "v \<notin> snd ` set es" "v \<noteq> NULL"
  shows "m = NULL \<Longrightarrow> linked_list_add_to_front l v m h = Some (NULL, h)"
    and "m \<noteq> NULL \<Longrightarrow> nodes h m = None \<Longrightarrow>
      \<exists>h'. linked_list_add_to_front l v m h = Some (m, h') \<and> ll_rep h' m ((m, v) # es) \<and> objs h' = objs h"
proof -
  obtain w n where r: "l \<noteq> NULL" "nodes h l = Some (w, n)" "w \<noteq> NULL"
    using ll_rep_root [OF rep] es by blast
  then show "m = NULL \<Longrightarrow> linked_list_add_to_front l v m h = Some (NULL, h)"
    using v(3) by (simp add: linked_list_add_to_front_def)
  assume m: "m \<noteq> NULL" "nodes h m = None"
  have sg: "nseg (nodes h) l es NULL" using rep es by (simp add: ll_rep_def)
  then have "m \<notin> fst ` set es" using nseg_dom [OF sg] m(2) by (metis imageE)
  then have "ll_rep (h\<lparr>nodes := (nodes h)(m \<mapsto> (v, l))\<rparr>) m ((m, v) # es)"
    using sg m(1) v rep es by (auto simp: ll_rep_def simp del: fun_upd_apply) (simp add: fun_upd_same)
  then show "\<exists>h'. linked_list_add_to_front l v m h = Some (m, h') \<and> ll_rep h' m ((m, v) # es) \<and> objs h' = objs h"
    using r v(3) m(1) by (simp add: linked_list_add_to_front_def)
qed

lemma linked_list_move_to_front_rep:
  assumes rep: "ll_rep h l (xs @ e # ys)" and xs: "xs \<noteq> []"
    and len: "length (xs @ e # ys) < 65536"
  shows "m \<noteq> NULL \<Longrightarrow> nodes h m = None \<Longrightarrow>
      \<exists>h'. linked_list_move_to_front l (of_nat (length xs)) m h = Some (m, h') \<and>
      ll_rep h' m ((m, snd e) # xs @ ys) \<and> objs h' = objs h"
    and "\<exists>h'. linked_list_move_to_front l (of_nat (length xs)) NULL h = Some (NULL, h') \<and>
      ll_rep h' l (xs @ ys) \<and> objs h' = objs h"
proof -
  let ?i = "of_nat (length xs) :: u32"
  have ui: "unat ?i = length xs" using len by (simp add: unat_of_nat_u32)
  have c: "(l = NULL) = False" "(?i = 0) = False" "(?i \<ge> of_nat (length (xs @ e # ys))) = False"
    using ll_rep_root [OF rep] ui xs len by (auto simp: word_le_nat_alt unat_of_nat_u32 simp del: of_nat_add of_nat_Suc length_append list.size)
       simp
  note gl = linked_list_get_len_rep [OF rep len]
  have ge_at: "linked_list_get_element_at l ?i h = Some (snd e)"
    using linked_list_get_element_at_rep [OF rep len, of ?i] by (simp add: ui)
  obtain h1 where h1: "linked_list_remove_element_at l ?i h = Some (l, h1)" "ll_rep h1 l (xs @ ys)"
      "objs h1 = objs h" "\<And>p. nodes h p = None \<Longrightarrow> nodes h1 p = None"
    using linked_list_remove_element_at_rep [OF rep xs len] by blast
  have eq: "linked_list_move_to_front l ?i m h = linked_list_add_to_front l (snd e) m h1" for m
    by (simp only: linked_list_move_to_front_def c if_False gl ge_at h1(1) Option.bind.simps prod.case)
  have v: "snd e \<in> objs h1" "snd e \<notin> snd ` set (xs @ ys)" "snd e \<noteq> NULL"
    using rep h1(3) by (auto simp: ll_rep_def)
  have ne: "xs @ ys \<noteq> []" using xs by simp
  show "\<exists>h'. linked_list_move_to_front l ?i NULL h = Some (NULL, h') \<and> ll_rep h' l (xs @ ys) \<and> objs h' = objs h"
    using linked_list_add_to_front_rep(1) [OF h1(2) ne v] h1(2,3) unfolding eq by auto
  assume m: "m \<noteq> NULL" "nodes h m = None"
  show "\<exists>h'. linked_list_move_to_front l ?i m h = Some (m, h') \<and> ll_rep h' m ((m, snd e) # xs @ ys) \<and> objs h' = objs h"
    using linked_list_add_to_front_rep(2) [OF h1(2) ne v m(1) h1(4) [OF m(2)]] h1(3) unfolding eq by auto
qed

section \<open>Properties\<close>

text \<open>
  On a proper list the operations the packet queues use behave like those of a bounded
  sequence, without touching unallocated memory: \<open>linked_list_add_tail\<close> appends and returns the
  position (an empty list accepts the element without memory for a node; otherwise it refuses
  at the maximum and when \<open>malloc\<close> fails, and leaves the list), \<open>linked_list_get_element_at\<close>
  returns the element at an index and null outside, \<open>linked_list_move_to_front\<close> puts the chosen
  element first and keeps the order of the others, and \<open>linked_list_erase_deep\<close> empties the
  list and frees exactly its values.
\<close>

theorem linked_list_queue_ops:
  assumes "ll_rep h l es" and "length es < 65536"
    and "v \<in> objs h" and "v \<notin> snd ` set es" and "v \<noteq> NULL"
    and "m \<noteq> NULL" and "nodes h m = None"
  shows "(\<exists>h' pos. linked_list_add_tail l v mx m h = Some (pos, h') \<and>
       (if es = [] then pos = 0 \<and> ll_rep h' l [(l, v)]
        else if int (length es) < mx then pos = int (length es) \<and> ll_rep h' l (es @ [(m, v)])
        else pos = -1 \<and> ll_rep h' l es)) \<and>
    linked_list_get_element_at l index h =
      Some (if unat index < length es then snd (es ! unat index) else NULL) \<and>
    (0 < unat index \<and> unat index < length es \<longrightarrow>
      (\<exists>h'. linked_list_move_to_front l index m h = Some (m, h') \<and>
        ll_rep h' m ((m, snd (es ! unat index)) # take (unat index) es @ drop (Suc (unat index)) es))) \<and>
    (\<exists>h' r. linked_list_erase_deep l h = Some (r, h') \<and> ll_rep h' r [] \<and>
      objs h' = objs h - snd ` set es)"
proof (intro conjI impI)
  show "\<exists>h' pos. linked_list_add_tail l v mx m h = Some (pos, h') \<and>
       (if es = [] then pos = 0 \<and> ll_rep h' l [(l, v)]
        else if int (length es) < mx then pos = int (length es) \<and> ll_rep h' l (es @ [(m, v)])
        else pos = -1 \<and> ll_rep h' l es)"
    using linked_list_add_tail_rep [OF assms(1,3,4,5), of m mx] assms(6,7) by (auto split: if_splits)
  show "linked_list_get_element_at l index h =
      Some (if unat index < length es then snd (es ! unat index) else NULL)"
    by (rule linked_list_get_element_at_rep [OF assms(1,2)])
  show "\<exists>h' r. linked_list_erase_deep l h = Some (r, h') \<and> ll_rep h' r [] \<and>
      objs h' = objs h - snd ` set es"
  proof (cases "es = []")
    case True
    with assms(1) linked_list_is_empty_rep [OF assms(1)] show ?thesis
      by (auto simp: linked_list_erase_deep_def)
  next
    case False
    with linked_list_erase_loop_rep [OF assms(1)] linked_list_is_empty_rep [OF assms(1)]
      ll_rep_root [OF assms(1)]
    show ?thesis by (auto simp: linked_list_erase_deep_def)
  qed
  assume i: "0 < unat index \<and> unat index < length es"
  let ?i = "unat index"
  have es: "es = take ?i es @ es ! ?i # drop (Suc ?i) es" using i by (simp add: id_take_nth_drop)
  have len: "length (take ?i es) = ?i" and idx: "of_nat (length (take ?i es)) = index" using i by simp_all
  have "take ?i es \<noteq> []" using i by auto
  from linked_list_move_to_front_rep(1) [of h l "take ?i es" "es ! ?i" "drop (Suc ?i) es" m, folded es,
      OF assms(1) this assms(2,6,7)]
  show "\<exists>h'. linked_list_move_to_front l index m h = Some (m, h') \<and>
        ll_rep h' m ((m, snd (es ! ?i)) # take ?i es @ drop (Suc ?i) es)"
    unfolding idx by blast
qed

abbreviation heap3 :: mheap where
  "heap3 \<equiv> \<lparr>nodes = [1 \<mapsto> (10, 2), 2 \<mapsto> (20, 3), 3 \<mapsto> (30, 0)], objs = {10, 20, 30, 40}\<rparr>"

lemma heap3_rep: "ll_rep heap3 1 [(1, 10), (2, 20), (3, 30)]"
  by (simp add: ll_rep_def)

theorem linked_list_queue_ops_witness:
  "(\<exists>h'. linked_list_move_to_front 1 2 7 heap3 = Some (7, h') \<and>
      ll_rep h' 7 [(7, 30), (1, 10), (2, 20)]) \<and>
   linked_list_get_element_at 1 2 heap3 = Some 30"
proof -
  from linked_list_queue_ops [OF heap3_rep, of 40 7 32 2] show ?thesis
    by simp
qed

text \<open>
  \<open>linked_list_erase\<close> leaves its caller's pointer dangling. On a list of two or more elements
  it returns and frees every value, but also the root node, and the caller, whose pointer is
  passed by value, still points to it: the next look at the list is an access to freed memory.
\<close>

theorem linked_list_erase_dangles:
  assumes "ll_rep h l es" and "2 \<le> length es"
  shows "\<exists>h'. linked_list_erase l h = Some h' \<and> objs h' = objs h - snd ` set es \<and>
    nodes h' l = None \<and> linked_list_is_empty l h' = None"
proof -
  obtain e es' where es: "es = e # es'" "es' \<noteq> []" using assms(2) by (cases es; cases "tl es") auto
  then have "fst e = l" using assms(1) by (auto simp: ll_rep_def)
  then have "l \<in> fst ` set (butlast es)" using es by auto
  with linked_list_erase_loop_rep [OF assms(1)] obtain h' where
    "linked_list_erase_loop l h = Some h'" "objs h' = objs h - snd ` set es" "nodes h' l = None" by blast
  moreover have "l \<noteq> NULL" using ll_rep_root [OF assms(1)] by blast
  moreover have "linked_list_is_empty l h = Some False"
    using linked_list_is_empty_rep [OF assms(1)] es by simp
  ultimately show ?thesis
    by (simp add: linked_list_erase_def linked_list_is_empty_def)
qed

theorem linked_list_erase_dangles_witness:
  "\<exists>h'. linked_list_erase 1 heap3 = Some h' \<and> linked_list_is_empty 1 h' = None"
  using linked_list_erase_dangles [OF heap3_rep] by auto

end
