(* ===== verification/UsbLock.thy ===== *)
theory UsbLock
  imports Prelude
begin

text \<open>
  The connection status of the USB stick (\<open>platform/dev/ar9170_driver/ar9170_usb/usb_lock.c\<close>).
  The stick first appears as a mass storage device (MSC), is told to eject, comes back as a
  WLAN device, and is then allocated and added as a network interface. The status is a byte of
  flags; each operation checks the flags and refuses (prints an error and leaves the status)
  what is out of order. The second part are the semaphore and the completion flags by which
  the driver waits for the stick; the interrupts that complete a flag while
  \<open>__wait_for_completion\<close> sleeps are the argument \<open>wake\<close>, the values of the flag it sees after
  each sleep.
\<close>

abbreviation (input) AR9170_MSC_DEVICE_PLUGGED :: u8 where "AR9170_MSC_DEVICE_PLUGGED \<equiv> 1"
abbreviation (input) AR9170_WLAN_DEVICE_PLUGGED :: u8 where "AR9170_WLAN_DEVICE_PLUGGED \<equiv> 2"
abbreviation (input) AR9170_MSC_DEVICE_EJECT_SENT :: u8 where "AR9170_MSC_DEVICE_EJECT_SENT \<equiv> 4"
abbreviation (input) AR9170_WLAN_DEVICE_ALLOCATED :: u8 where "AR9170_WLAN_DEVICE_ALLOCATED \<equiv> 8"
abbreviation (input) AR9170_WLAN_DEVICE_ADDED :: u8 where "AR9170_WLAN_DEVICE_ADDED \<equiv> 16"

section \<open>The connection status\<close>

definition ar9170_is_mass_storage_device_plugged :: "u8 \<Rightarrow> bool" where
  "ar9170_is_mass_storage_device_plugged s \<longleftrightarrow> s AND AR9170_MSC_DEVICE_PLUGGED \<noteq> 0"

definition ar9170_is_wlan_device_plugged :: "u8 \<Rightarrow> bool" where
  "ar9170_is_wlan_device_plugged s \<longleftrightarrow> s AND AR9170_WLAN_DEVICE_PLUGGED \<noteq> 0"

definition ar9170_is_wlan_device_allocated :: "u8 \<Rightarrow> bool" where
  "ar9170_is_wlan_device_allocated s \<longleftrightarrow> s AND AR9170_WLAN_DEVICE_ALLOCATED \<noteq> 0"

definition ar9170_is_wlan_device_added :: "u8 \<Rightarrow> bool" where
  "ar9170_is_wlan_device_added s \<longleftrightarrow> s AND AR9170_WLAN_DEVICE_ADDED \<noteq> 0"

definition ar9170_is_eject_command_sent :: "u8 \<Rightarrow> bool" where
  "ar9170_is_eject_command_sent s \<longleftrightarrow> s AND AR9170_MSC_DEVICE_EJECT_SENT \<noteq> 0"

definition ar9170_set_eject_command_not_sent :: "u8 \<Rightarrow> u8" where
  "ar9170_set_eject_command_not_sent s = s AND NOT AR9170_MSC_DEVICE_EJECT_SENT"

definition ar9170_set_device_off :: "u8 \<Rightarrow> u8" where
  "ar9170_set_device_off s = 0"

definition ar9170_set_mass_storage_device_plugged :: "u8 \<Rightarrow> u8" where
  "ar9170_set_mass_storage_device_plugged s =
     (if s AND AR9170_MSC_DEVICE_PLUGGED \<noteq> 0 then s
      else if s AND AR9170_WLAN_DEVICE_PLUGGED \<noteq> 0 then s
      else if s AND AR9170_MSC_DEVICE_EJECT_SENT \<noteq> 0 then s
      else s OR AR9170_MSC_DEVICE_PLUGGED)"

definition ar9170_set_mass_storage_device_unplugged :: "u8 \<Rightarrow> u8" where
  "ar9170_set_mass_storage_device_unplugged s =
     (if s AND AR9170_MSC_DEVICE_PLUGGED = 0 then s
      else if s AND AR9170_WLAN_DEVICE_PLUGGED \<noteq> 0 then s
      else s AND NOT AR9170_MSC_DEVICE_PLUGGED)"

definition ar9170_set_wlan_device_plugged :: "u8 \<Rightarrow> u8" where
  "ar9170_set_wlan_device_plugged s =
     (if s AND AR9170_MSC_DEVICE_PLUGGED \<noteq> 0 then s
      else if s AND AR9170_WLAN_DEVICE_PLUGGED \<noteq> 0 then s
      else (s OR AR9170_WLAN_DEVICE_PLUGGED) AND NOT AR9170_MSC_DEVICE_EJECT_SENT)"

definition ar9170_set_wlan_device_unplugged :: "u8 \<Rightarrow> u8" where
  "ar9170_set_wlan_device_unplugged s =
     (if s AND AR9170_MSC_DEVICE_PLUGGED \<noteq> 0 then s
      else if s AND AR9170_WLAN_DEVICE_PLUGGED = 0 then s
      else if s AND AR9170_MSC_DEVICE_EJECT_SENT \<noteq> 0 then s
      else s AND NOT AR9170_WLAN_DEVICE_PLUGGED)"

definition ar9170_set_eject_command_sent :: "u8 \<Rightarrow> u8" where
  "ar9170_set_eject_command_sent s =
     (if s AND AR9170_MSC_DEVICE_PLUGGED = 0 then s
      else if s AND AR9170_WLAN_DEVICE_PLUGGED \<noteq> 0 then s
      else if s AND AR9170_MSC_DEVICE_EJECT_SENT \<noteq> 0 then s
      else s OR AR9170_MSC_DEVICE_EJECT_SENT)"

definition ar9170_set_wlan_device_allocated :: "u8 \<Rightarrow> u8" where
  "ar9170_set_wlan_device_allocated s =
     (if s AND AR9170_MSC_DEVICE_PLUGGED \<noteq> 0 then s
      else if s AND AR9170_WLAN_DEVICE_PLUGGED = 0 then s
      else if s AND AR9170_WLAN_DEVICE_ALLOCATED \<noteq> 0 then s
      else s OR AR9170_WLAN_DEVICE_ALLOCATED)"

definition ar9170_set_wlan_device_non_allocated :: "u8 \<Rightarrow> u8" where
  "ar9170_set_wlan_device_non_allocated s =
     (if s AND AR9170_MSC_DEVICE_PLUGGED \<noteq> 0 then s
      else if s AND AR9170_WLAN_DEVICE_ALLOCATED = 0 then s
      else s AND NOT AR9170_WLAN_DEVICE_ALLOCATED)"

definition ar9170_set_wlan_device_added :: "u8 \<Rightarrow> u8" where
  "ar9170_set_wlan_device_added s =
     (if s AND AR9170_MSC_DEVICE_PLUGGED \<noteq> 0 then s
      else if s AND AR9170_WLAN_DEVICE_PLUGGED = 0 then s
      else if s AND AR9170_WLAN_DEVICE_ALLOCATED = 0 then s
      else if s AND AR9170_WLAN_DEVICE_ADDED \<noteq> 0 then s
      else s OR AR9170_WLAN_DEVICE_ADDED)"

definition ar9170_set_wlan_device_not_added :: "u8 \<Rightarrow> u8" where
  "ar9170_set_wlan_device_not_added s =
     (if s AND AR9170_MSC_DEVICE_PLUGGED \<noteq> 0 then s
      else if s AND AR9170_WLAN_DEVICE_PLUGGED \<noteq> 0 then s
      else if s AND AR9170_WLAN_DEVICE_ALLOCATED \<noteq> 0 then s
      else if s AND AR9170_WLAN_DEVICE_ADDED = 0 then s
      else s AND NOT AR9170_WLAN_DEVICE_ADDED)"

section \<open>Semaphore and completion flags\<close>

definition ar9170_usb_ctrl_out_lock :: "bool \<Rightarrow> bool" where
  "ar9170_usb_ctrl_out_lock sem = (if sem = False then True else sem)"

definition ar9170_usb_ctrl_out_release_lock :: "bool \<Rightarrow> bool" where
  "ar9170_usb_ctrl_out_release_lock sem = (if sem = True then False else sem)"

definition complete_flag :: "bool \<Rightarrow> bool" where
  "complete_flag flag = (if flag = False then flag else False)"

definition start_flag :: "bool \<Rightarrow> bool" where
  "start_flag flag = (if flag = True then flag else True)"

text \<open>The number of sleeps until the flag is seen cleared; \<open>None\<close> if that never happens.\<close>

partial_function (option) wait_for_completion :: "(nat \<Rightarrow> bool) \<Rightarrow> nat \<Rightarrow> nat option" where
  "wait_for_completion wake n =
     (if wake n = False then Some (Suc n) else wait_for_completion wake (Suc n))"

definition read_lock :: "(nat \<Rightarrow> bool) \<Rightarrow> bool option" where
  "read_lock wake = do { n \<leftarrow> wait_for_completion wake 0; Some True }"

section \<open>Reachable states\<close>

datatype usb_event =
  MscPlugged | MscUnplugged | WlanPlugged | WlanUnplugged | EjectSent | EjectNotSent |
  Allocated | NonAllocated | Added | NotAdded | DeviceOff

fun usb_handle :: "usb_event \<Rightarrow> u8 \<Rightarrow> u8" where
  "usb_handle MscPlugged s = ar9170_set_mass_storage_device_plugged s"
| "usb_handle MscUnplugged s = ar9170_set_mass_storage_device_unplugged s"
| "usb_handle WlanPlugged s = ar9170_set_wlan_device_plugged s"
| "usb_handle WlanUnplugged s = ar9170_set_wlan_device_unplugged s"
| "usb_handle EjectSent s = ar9170_set_eject_command_sent s"
| "usb_handle EjectNotSent s = ar9170_set_eject_command_not_sent s"
| "usb_handle Allocated s = ar9170_set_wlan_device_allocated s"
| "usb_handle NonAllocated s = ar9170_set_wlan_device_non_allocated s"
| "usb_handle Added s = ar9170_set_wlan_device_added s"
| "usb_handle NotAdded s = ar9170_set_wlan_device_not_added s"
| "usb_handle DeviceOff s = ar9170_set_device_off s"

inductive usb_reach :: "u8 \<Rightarrow> bool" where
  start: "usb_reach 0"
| step: "usb_reach s \<Longrightarrow> usb_reach (usb_handle e s)"

lemmas usb_handle_defs =
  ar9170_set_mass_storage_device_plugged_def ar9170_set_mass_storage_device_unplugged_def
  ar9170_set_wlan_device_plugged_def ar9170_set_wlan_device_unplugged_def
  ar9170_set_eject_command_sent_def ar9170_set_eject_command_not_sent_def
  ar9170_set_wlan_device_allocated_def ar9170_set_wlan_device_non_allocated_def
  ar9170_set_wlan_device_added_def ar9170_set_wlan_device_not_added_def ar9170_set_device_off_def

lemmas usb_flag_defs =
  ar9170_is_mass_storage_device_plugged_def ar9170_is_wlan_device_plugged_def
  ar9170_is_wlan_device_allocated_def ar9170_is_wlan_device_added_def
  ar9170_is_eject_command_sent_def

lemma flag_0: "(w :: u8) AND 1 = 0 \<longleftrightarrow> \<not> bit w 0"
  using and_exp_eq_0_iff_not_bit [of w 0] by (simp only: power_0)

lemma flag_1: "(w :: u8) AND 2 = 0 \<longleftrightarrow> \<not> bit w 1"
  using and_exp_eq_0_iff_not_bit [of w 1] by (simp only: power_one_right)

lemma flag_2: "(w :: u8) AND 4 = 0 \<longleftrightarrow> \<not> bit w 2"
  and flag_3: "(w :: u8) AND 8 = 0 \<longleftrightarrow> \<not> bit w 3"
  and flag_4: "(w :: u8) AND 16 = 0 \<longleftrightarrow> \<not> bit w 4"
proof -
  have p: "(2 :: u8) ^ 2 = 4" "(2 :: u8) ^ 3 = 8" "(2 :: u8) ^ 4 = 16" by simp_all
  show "w AND 4 = 0 \<longleftrightarrow> \<not> bit w 2" "w AND 8 = 0 \<longleftrightarrow> \<not> bit w 3" "w AND 16 = 0 \<longleftrightarrow> \<not> bit w 4"
    using and_exp_eq_0_iff_not_bit [of w 2] and_exp_eq_0_iff_not_bit [of w 3]
      and_exp_eq_0_iff_not_bit [of w 4] by (simp_all only: p)
qed

lemmas flag_bits = flag_0 flag_1 flag_2 flag_3 flag_4

lemma bit_numerals_u8:
  "bit (1 :: u8) i \<longleftrightarrow> i = 0" and "bit (2 :: u8) i \<longleftrightarrow> i = 1" "bit (4 :: u8) i \<longleftrightarrow> i = 2"
  "bit (8 :: u8) i \<longleftrightarrow> i = 3" "bit (16 :: u8) i \<longleftrightarrow> i = 4"
proof -
  have p: "(2 :: u8) ^ 0 = 1" "(2 :: u8) ^ 1 = 2" "(2 :: u8) ^ 2 = 4" "(2 :: u8) ^ 3 = 8" "(2 :: u8) ^ 4 = 16"
    by simp_all
  have b: "bit ((2 :: u8) ^ k) i \<longleftrightarrow> k < 8 \<and> i = k" for k i
    by (auto simp: bit_exp_iff possible_bit_def)
  show "bit (1 :: u8) i \<longleftrightarrow> i = 0" "bit (2 :: u8) i \<longleftrightarrow> i = 1" "bit (4 :: u8) i \<longleftrightarrow> i = 2"
    "bit (8 :: u8) i \<longleftrightarrow> i = 3" "bit (16 :: u8) i \<longleftrightarrow> i = 4"
    using b [of 0 i] b [of 1 i] b [of 2 i] b [of 3 i] b [of 4 i] unfolding p by simp_all
qed

lemmas usb_bits = flag_bits bit_or_iff bit_and_iff bit_not_iff bit_numerals_u8 possible_bit_def

text \<open>The flags as a tuple: MSC, WLAN, eject sent, allocated, added.\<close>

definition usb_flags :: "u8 \<Rightarrow> bool \<times> bool \<times> bool \<times> bool \<times> bool" where
  "usb_flags s = (bit s 0, bit s 1, bit s 2, bit s 3, bit s 4)"

text \<open>The same machine on flags, one line per operation.\<close>

fun usb_spec :: "usb_event \<Rightarrow> bool \<times> bool \<times> bool \<times> bool \<times> bool \<Rightarrow>
  bool \<times> bool \<times> bool \<times> bool \<times> bool" where
  "usb_spec MscPlugged (m, w, e, a, d) = (m \<or> \<not> w \<and> \<not> e, w, e, a, d)"
| "usb_spec MscUnplugged (m, w, e, a, d) = (m \<and> w, w, e, a, d)"
| "usb_spec WlanPlugged (m, w, e, a, d) = (m, w \<or> \<not> m, e \<and> (m \<or> w), a, d)"
| "usb_spec WlanUnplugged (m, w, e, a, d) = (m, w \<and> (m \<or> e), e, a, d)"
| "usb_spec EjectSent (m, w, e, a, d) = (m, w, e \<or> m \<and> \<not> w, a, d)"
| "usb_spec EjectNotSent (m, w, e, a, d) = (m, w, False, a, d)"
| "usb_spec Allocated (m, w, e, a, d) = (m, w, e, a \<or> \<not> m \<and> w, d)"
| "usb_spec NonAllocated (m, w, e, a, d) = (m, w, e, a \<and> m, d)"
| "usb_spec Added (m, w, e, a, d) = (m, w, e, a, d \<or> \<not> m \<and> w \<and> a)"
| "usb_spec NotAdded (m, w, e, a, d) = (m, w, e, a, d \<and> (m \<or> w \<or> a))"
| "usb_spec DeviceOff (m, w, e, a, d) = (False, False, False, False, False)"

lemma usb_handle_spec: "usb_flags (usb_handle e s) = usb_spec e (usb_flags s)"
  by (cases e) (auto simp: usb_handle_defs usb_flags_def usb_bits)

lemma usb_flags_is:
  "ar9170_is_mass_storage_device_plugged s \<longleftrightarrow> bit s 0"
  "ar9170_is_wlan_device_plugged s \<longleftrightarrow> bit s 1"
  "ar9170_is_eject_command_sent s \<longleftrightarrow> bit s 2"
  "ar9170_is_wlan_device_allocated s \<longleftrightarrow> bit s 3"
  "ar9170_is_wlan_device_added s \<longleftrightarrow> bit s 4"
  by (simp_all add: usb_flag_defs flag_bits)

lemma usb_reach_excl:
  "usb_reach s \<Longrightarrow> \<not> (bit s 0 \<and> bit s 1) \<and> \<not> (bit s 1 \<and> bit s 2)"
proof (induction rule: usb_reach.induct)
  case (step s e)
  have "usb_flags (usb_handle e s) = usb_spec e (usb_flags s)" by (rule usb_handle_spec)
  with step.IH show ?case by (cases e) (auto simp: usb_flags_def)
qed simp

lemma usb_flags_run: "usb_flags (foldl (\<lambda>s e. usb_handle e s) s es) =
    foldl (\<lambda>f e. usb_spec e f) (usb_flags s) es"
  by (induction es arbitrary: s) (simp_all add: usb_handle_spec)

section \<open>Properties\<close>

text \<open>
  Whatever order the connection events come in, the stick is never recorded as mass storage
  and WLAN device at once, nor as a WLAN device with an eject command outstanding; and from every
  recorded status a reset followed by the normal sequence (storage plugged, ejected, unplugged,
  WLAN plugged, allocated, added) ends in a plugged, allocated and added interface.
\<close>

theorem usb_status_exclusive:
  assumes "usb_reach s"
  shows "\<not> (ar9170_is_mass_storage_device_plugged s \<and> ar9170_is_wlan_device_plugged s) \<and>
    \<not> (ar9170_is_wlan_device_plugged s \<and> ar9170_is_eject_command_sent s) \<and>
    (let t = foldl (\<lambda>s e. usb_handle e s) s
       [DeviceOff, MscPlugged, EjectSent, MscUnplugged, WlanPlugged, Allocated, Added]
     in ar9170_is_wlan_device_plugged t \<and> ar9170_is_wlan_device_allocated t \<and>
       ar9170_is_wlan_device_added t \<and> \<not> ar9170_is_mass_storage_device_plugged t \<and>
       \<not> ar9170_is_eject_command_sent t)"
proof -
  have "usb_flags (foldl (\<lambda>s e. usb_handle e s) s
      [DeviceOff, MscPlugged, EjectSent, MscUnplugged, WlanPlugged, Allocated, Added]) =
      (False, True, False, True, True)"
    unfolding usb_flags_run by (cases "usb_flags s") simp
  with usb_reach_excl [OF assms] show ?thesis
    unfolding usb_flags_is Let_def by (simp add: usb_flags_def)
qed

theorem usb_status_exclusive_witness:
  "usb_reach (usb_handle WlanPlugged (usb_handle MscUnplugged
     (usb_handle EjectSent (usb_handle MscPlugged 0)))) \<and>
   usb_handle WlanPlugged (usb_handle MscUnplugged (usb_handle EjectSent (usb_handle MscPlugged 0))) = 2 \<and>
   \<not> ar9170_is_mass_storage_device_plugged 2"
proof -
  have r: "usb_reach (usb_handle WlanPlugged (usb_handle MscUnplugged
      (usb_handle EjectSent (usb_handle MscPlugged 0))))" by (intro usb_reach.intros)
  have e: "usb_handle WlanPlugged (usb_handle MscUnplugged
      (usb_handle EjectSent (usb_handle MscPlugged 0))) = 2" by (simp add: usb_handle_defs)
  have "ar9170_is_wlan_device_plugged 2" by (simp add: usb_flag_defs)
  with usb_status_exclusive [OF r] r e show ?thesis by simp
qed

text \<open>
  A stick that is ejected and comes back as mass storage again is never noticed: after the
  eject command was sent and the storage unplugged, plugging the storage in is refused and the
  eject command cannot be sent again, until the eject flag is cleared.
\<close>

theorem usb_eject_lost:
  assumes "ar9170_is_mass_storage_device_plugged s" and "\<not> ar9170_is_wlan_device_plugged s"
    and "ar9170_is_eject_command_sent s"
  shows "\<not> ar9170_is_mass_storage_device_plugged (usb_handle MscPlugged (usb_handle MscUnplugged s)) \<and>
    usb_handle EjectSent (usb_handle MscPlugged (usb_handle MscUnplugged s)) = usb_handle MscUnplugged s \<and>
    ar9170_is_mass_storage_device_plugged
      (usb_handle MscPlugged (usb_handle EjectNotSent (usb_handle MscUnplugged s)))"
  using assms by (auto simp: usb_handle_defs usb_flags_is usb_bits)

theorem usb_eject_lost_witness:
  "\<not> ar9170_is_mass_storage_device_plugged (usb_handle MscPlugged (usb_handle MscUnplugged 5))"
  using usb_eject_lost [of 5] by (simp add: usb_flag_defs)

end
