(* ===== verification/PktQueue.thy ===== *)
theory PktQueue
  imports LinkedList
begin

text \<open>
  The packet queues as the 802.11 code uses them. A queue variable (\<open>ar9170_tx_queue *\<close>) is null,
  refers to a list of \<open>cpu/linked_list.h\<close>, or dangles after its root node was freed; using a
  dangling queue is undefined behaviour (\<open>None\<close>). The operations are those of \<open>LinkedList\<close> on the
  values of the list; \<open>pq_refines\<close> shows that the heap operations implement them. The argument
  \<open>ok\<close> says whether \<open>malloc\<close> succeeds.
\<close>

datatype 'a pq = PQNull | PQFreed | PQ "'a list"

section \<open>The operations on the values\<close>

definition pq_is_empty :: "'a pq \<Rightarrow> bool option" where
  "pq_is_empty q = (case q of PQNull \<Rightarrow> Some True | PQFreed \<Rightarrow> None | PQ xs \<Rightarrow> Some (xs = []))"

definition pq_len :: "'a pq \<Rightarrow> nat option" where
  "pq_len q = (case q of PQNull \<Rightarrow> Some 0 | PQFreed \<Rightarrow> None | PQ xs \<Rightarrow> Some (length xs))"

text \<open>Whether the element was added, and the queue.\<close>

definition pq_add_tail :: "'a \<Rightarrow> nat \<Rightarrow> bool \<Rightarrow> 'a pq \<Rightarrow> (bool \<times> 'a pq) option" where
  "pq_add_tail x mx ok q = (case q of PQNull \<Rightarrow> Some (False, q) | PQFreed \<Rightarrow> None
     | PQ xs \<Rightarrow> if xs = [] then Some (True, PQ [x])
         else if length xs < mx \<and> ok then Some (True, PQ (xs @ [x])) else Some (False, q))"

definition pq_get :: "'a pq \<Rightarrow> 'a option option" where
  "pq_get q = (case q of PQNull \<Rightarrow> Some None | PQFreed \<Rightarrow> None
     | PQ xs \<Rightarrow> Some (case xs of [] \<Rightarrow> None | x # _ \<Rightarrow> Some x))"

definition pq_get_at :: "nat \<Rightarrow> 'a pq \<Rightarrow> 'a option option" where
  "pq_get_at i q = (case q of PQNull \<Rightarrow> Some None | PQFreed \<Rightarrow> None
     | PQ xs \<Rightarrow> Some (if i < length xs then Some (xs ! i) else None))"

definition pq_remove_first :: "'a pq \<Rightarrow> 'a pq option" where
  "pq_remove_first q = (case q of PQFreed \<Rightarrow> None | PQNull \<Rightarrow> Some PQNull | PQ xs \<Rightarrow> Some (PQ (tl xs)))"

text \<open>
  The returned queue and what the caller's variable refers to: when \<open>malloc\<close> fails, null is
  returned and the element is no longer on the list.
\<close>

definition pq_move_to_front :: "nat \<Rightarrow> bool \<Rightarrow> 'a pq \<Rightarrow> ('a pq \<times> 'a pq) option" where
  "pq_move_to_front i ok q = (case q of PQNull \<Rightarrow> Some (PQNull, PQNull) | PQFreed \<Rightarrow> None
     | PQ xs \<Rightarrow>
         if i = 0 then Some (q, q)
         else if i \<ge> length xs then Some (PQNull, q)
         else let r = take i xs @ drop (Suc i) xs
              in Some (if ok then PQ (xs ! i # r) else PQNull, PQ r))"

text \<open>What the caller's variable refers to afterwards.\<close>

definition pq_erase :: "'a pq \<Rightarrow> 'a pq option" where
  "pq_erase q = (case q of PQNull \<Rightarrow> Some PQNull | PQFreed \<Rightarrow> None
     | PQ xs \<Rightarrow> Some (if length xs \<ge> 2 then PQFreed else PQ []))"

definition pq_erase_deep :: "'a pq \<Rightarrow> 'a pq option" where
  "pq_erase_deep q = (case q of PQNull \<Rightarrow> Some PQNull | PQFreed \<Rightarrow> None | PQ xs \<Rightarrow> Some (PQ []))"

lemmas pq_defs = pq_is_empty_def pq_len_def pq_add_tail_def pq_get_def pq_get_at_def
  pq_remove_first_def pq_move_to_front_def pq_erase_def pq_erase_deep_def

section \<open>The heap operations implement them\<close>

definition pq_rep :: "mheap \<Rightarrow> ptr \<Rightarrow> ptr pq \<Rightarrow> bool" where
  "pq_rep h l q = (case q of PQNull \<Rightarrow> l = NULL | PQFreed \<Rightarrow> l \<noteq> NULL \<and> nodes h l = None
     | PQ xs \<Rightarrow> length xs < 65536 \<and> (\<exists>es. ll_rep h l es \<and> map snd es = xs))"

lemma pq_rep_PQ: "pq_rep h l (PQ xs) \<Longrightarrow> \<exists>es. ll_rep h l es \<and> map snd es = xs \<and> length es < 65536"
  by (auto simp: pq_rep_def)

lemma ll_rep_pq: "ll_rep h l es \<Longrightarrow> length es < 65536 \<Longrightarrow> pq_rep h l (PQ (map snd es))"
  by (auto simp: pq_rep_def)

text \<open>A result of the abstract operation is matched; an undefined one promises nothing.\<close>

lemma pq_is_empty_refines:
  "pq_rep h l q \<Longrightarrow> pq_is_empty q = Some e \<Longrightarrow> linked_list_is_empty l h = Some e"
  by (cases q) (auto simp: pq_rep_def pq_is_empty_def linked_list_is_empty_rep linked_list_is_empty_def [of 0])

lemma pq_len_refines:
  "pq_rep h l q \<Longrightarrow> pq_len q = Some n \<Longrightarrow> linked_list_get_len l h = Some (of_nat n)"
  by (cases q) (auto simp: pq_rep_def pq_len_def linked_list_get_len_rep linked_list_get_len_def [of 0])

lemma pq_get_at_refines:
  assumes "pq_rep h l q" and "pq_get_at i q = Some r" and "i < 2 ^ 32"
  shows "linked_list_get_element_at l (of_nat i) h = Some (case r of None \<Rightarrow> NULL | Some x \<Rightarrow> x)"
proof (cases q)
  case PQNull then show ?thesis using assms by (auto simp: pq_rep_def pq_get_at_def linked_list_get_element_at_def)
next
  case PQFreed then show ?thesis using assms by (simp add: pq_get_at_def)
next
  case (PQ xs)
  then obtain es where es: "ll_rep h l es" "map snd es = xs" "length es < 65536"
    using assms(1) pq_rep_PQ by blast
  have "unat (of_nat i :: u32) = i" using assms(3) by (simp add: unat_of_nat_u32)
  then show ?thesis
    using linked_list_get_element_at_rep [OF es(1,3), of "of_nat i"] es(2) assms(2) PQ
    by (auto simp: pq_get_at_def)
qed

lemma pq_get_refines:
  "pq_rep h l q \<Longrightarrow> pq_get q = Some r \<Longrightarrow>
    linked_list_get l h = Some (case r of None \<Rightarrow> NULL | Some x \<Rightarrow> x)"
  by (cases q) (auto simp: pq_rep_def pq_get_def linked_list_get_rep linked_list_get_def [of 0]
      split: list.splits)

lemma pq_add_tail_refines:
  assumes rep: "pq_rep h l q" and op: "pq_add_tail v mx ok q = Some (added, q')"
    and v: "v \<in> objs h" "v \<notin> (case q of PQ xs \<Rightarrow> set xs | _ \<Rightarrow> {})" "v \<noteq> NULL"
    and m: "ok \<longleftrightarrow> m \<noteq> NULL" "m \<noteq> NULL \<Longrightarrow> nodes h m = None" and mx: "mx < 65536"
  shows "\<exists>h' pos. linked_list_add_tail l v (int mx) m h = Some (pos, h') \<and> pq_rep h' l q' \<and>
    (added \<longleftrightarrow> 0 \<le> pos) \<and> objs h' = objs h"
proof (cases q)
  case PQNull then show ?thesis using assms by (auto simp: pq_rep_def pq_add_tail_def linked_list_add_tail_def)
next
  case PQFreed then show ?thesis using op by (simp add: pq_add_tail_def)
next
  case (PQ xs)
  then obtain es where es: "ll_rep h l es" "map snd es = xs" "length es < 65536"
    using rep pq_rep_PQ by blast
  have "v \<notin> snd ` set es" using v(2) unfolding PQ es(2) [symmetric] by simp
  from linked_list_add_tail_rep [OF es(1) v(1) this v(3) m(2), of "int mx"] obtain h' where h': "objs h' = objs h"
    "if es = [] then
      linked_list_add_tail l v (int mx) m h = Some (0, h') \<and> ll_rep h' l [(l, v)]
    else if int (length es) < int mx \<and> m \<noteq> NULL then
      linked_list_add_tail l v (int mx) m h = Some (int (length es), h') \<and> ll_rep h' l (es @ [(m, v)])
    else linked_list_add_tail l v (int mx) m h = Some (-1, h') \<and> ll_rep h' l es" by blast
  show ?thesis
    using h' op PQ es m(1) mx ll_rep_pq [of h' l "[(l, v)]"] ll_rep_pq [of h' l "es @ [(m, v)]"]
      ll_rep_pq [of h' l es]
    by (intro exI [of _ h']) (auto simp: pq_add_tail_def split: if_splits)
qed

lemma pq_remove_first_refines:
  assumes rep: "pq_rep h l q" and op: "pq_remove_first q = Some q'"
  shows "\<exists>h' l'. linked_list_remove_first l h = Some (l', h') \<and> pq_rep h' l' q'"
proof (cases q)
  case PQNull then show ?thesis using assms by (auto simp: pq_rep_def pq_remove_first_def linked_list_remove_first_def)
next
  case PQFreed then show ?thesis using op by (simp add: pq_remove_first_def)
next
  case (PQ xs)
  then obtain es where es: "ll_rep h l es" "map snd es = xs" "length es < 65536"
    using rep pq_rep_PQ by blast
  then have q': "q' = PQ (map snd (tl es))" using op PQ by (auto simp: pq_remove_first_def map_tl)
  show ?thesis
  proof (cases es)
    case Nil
    then have "linked_list_remove_first l h = Some (l, h)"
      using es(1) linked_list_is_empty_rep [OF es(1)] ll_rep_root [OF es(1)]
      by (auto simp: linked_list_remove_first_def)
    then show ?thesis using es(1) ll_rep_pq [OF es(1)] Nil q' by auto
  next
    case (Cons e es')
    obtain v where e: "e = (l, v)" using es(1) Cons by (cases e) (auto simp: ll_rep_def)
    show ?thesis
    proof (cases es')
      case Nil
      then show ?thesis
        using linked_list_remove_first_one [of h l v] es(1) Cons e q' by (auto simp: pq_rep_def)
    next
      case c2: (Cons f fs)
      then obtain h' where "linked_list_remove_first l h = Some (fst f, h')" "ll_rep h' (fst f) (f # fs)"
        using linked_list_remove_first_more [of h l v f fs] es(1) Cons e by auto
      then show ?thesis using ll_rep_pq [of h' "fst f" "f # fs"] q' Cons c2 es(3) by auto
    qed
  qed
qed

lemma pq_move_to_front_refines:
  assumes rep: "pq_rep h l (PQ xs)" and i: "0 < i" "i < length xs"
    and op: "pq_move_to_front i ok (PQ xs) = Some (r, q')"
    and m: "ok \<longleftrightarrow> m \<noteq> NULL" "m \<noteq> NULL \<Longrightarrow> nodes h m = None"
  shows "\<exists>h' l'. linked_list_move_to_front l (of_nat i) m h = Some (l', h') \<and> pq_rep h' l' r \<and>
    (\<not> ok \<longrightarrow> pq_rep h' l q')"
proof -
  obtain es where es: "ll_rep h l es" "map snd es = xs" "length es < 65536"
    using rep pq_rep_PQ by blast
  have i': "i < length es" using i es(2) by auto
  then have split: "es = take i es @ es ! i # drop (Suc i) es" by (simp add: id_take_nth_drop)
  have ne: "take i es \<noteq> []" and li: "length (take i es) = i" using i i' by auto
  have r: "r = (if ok then PQ (map snd ((m, snd (es ! i)) # take i es @ drop (Suc i) es)) else PQNull)"
    "q' = PQ (map snd (take i es @ drop (Suc i) es))"
    using op i es(2) i' by (auto simp: pq_move_to_front_def Let_def take_map drop_map)
  have len: "length (take i es @ drop (Suc i) es) < 65535" using i' es(3) by auto
  show ?thesis
  proof (cases "m = NULL")
    case True
    obtain h' where h': "linked_list_move_to_front l (of_nat i) NULL h = Some (NULL, h')"
        "ll_rep h' l (take i es @ drop (Suc i) es)"
      using linked_list_move_to_front_rep(2) [of h l "take i es" "es ! i" "drop (Suc i) es", folded split,
          OF es(1) ne es(3)] li by auto
    have "pq_rep h' l q'" using ll_rep_pq [OF h'(2)] len r(2) by simp
    then show ?thesis using h'(1) True m(1) r(1) by (auto simp: pq_rep_def)
  next
    case False
    then show ?thesis
      using linked_list_move_to_front_rep(1) [of h l "take i es" "es ! i" "drop (Suc i) es" m, folded split,
          OF es(1) ne es(3) False m(2)] r m(1) len li ll_rep_pq [of _ m "(m, snd (es ! i)) # take i es @ drop (Suc i) es"]
      by auto
  qed
qed

lemma pq_erase_refines:
  assumes rep: "pq_rep h l q" and op: "pq_erase q = Some q'"
  shows "\<exists>h'. linked_list_erase l h = Some h' \<and> pq_rep h' l q'"
proof (cases q)
  case PQNull then show ?thesis using assms by (auto simp: pq_rep_def pq_erase_def linked_list_erase_def)
next
  case PQFreed then show ?thesis using op by (simp add: pq_erase_def)
next
  case (PQ xs)
  then obtain es where es: "ll_rep h l es" "map snd es = xs" "length es < 65536"
    using rep pq_rep_PQ by blast
  have l: "l \<noteq> NULL" using ll_rep_root [OF es(1)] by blast
  note em = linked_list_is_empty_rep [OF es(1)]
  obtain h' r where h': "linked_list_erase_loop l h = Some h'" "ll_rep h' r []"
      "r = (if es = [] then l else fst (last es))" "\<forall>p \<in> fst ` set (butlast es). nodes h' p = None"
    using linked_list_erase_loop_rep [OF es(1)] by blast
  have er: "linked_list_erase l h = Some (if es = [] then h else h')"
    using l em h'(1) by (simp add: linked_list_erase_def)
  show ?thesis
  proof (cases "2 \<le> length es")
    case True
    then obtain e f fs where c: "es = e # f # fs" by (cases es; cases "tl es") auto
    then have "fst e = l" using es(1) by (auto simp: ll_rep_def)
    then have "nodes h' l = None" using h'(4) c by auto
    moreover have "q' = PQFreed" using op PQ es(2) True by (auto simp: pq_erase_def)
    ultimately show ?thesis using er l c by (auto simp: pq_rep_def)
  next
    case False
    then have q': "q' = PQ []" using op PQ es(2) by (auto simp: pq_erase_def)
    show ?thesis
    proof (cases es)
      case Nil then show ?thesis using er es(1) q' by (auto simp: pq_rep_def)
    next
      case (Cons e es')
      moreover have "es' = []" using False Cons by (cases es') auto
      ultimately have "es = [e]" "fst e = l" using es(1) by (auto simp: ll_rep_def)
      then have "r = l" using h'(3) by simp
      then show ?thesis using er h'(2) q' Cons by (auto simp: pq_rep_def)
    qed
  qed
qed

lemma pq_erase_deep_refines:
  assumes rep: "pq_rep h l q" and op: "pq_erase_deep q = Some q'"
  shows "\<exists>h' l'. linked_list_erase_deep l h = Some (l', h') \<and> pq_rep h' l' q'"
proof (cases q)
  case PQNull then show ?thesis using assms by (auto simp: pq_rep_def pq_erase_deep_def linked_list_erase_deep_def)
next
  case PQFreed then show ?thesis using op by (simp add: pq_erase_deep_def)
next
  case (PQ xs)
  then obtain es where es: "ll_rep h l es" "map snd es = xs" "length es < 65536"
    using rep pq_rep_PQ by blast
  have l: "l \<noteq> NULL" using ll_rep_root [OF es(1)] by blast
  note em = linked_list_is_empty_rep [OF es(1)]
  obtain h' r where h': "linked_list_erase_deep_loop l h = Some (r, h')" "ll_rep h' r []"
    using linked_list_erase_loop_rep [OF es(1)] by blast
  have q': "q' = PQ []" using op PQ by (simp add: pq_erase_deep_def)
  show ?thesis
    using l em h' es(1) q' by (cases "es = []") (auto simp: linked_list_erase_deep_def pq_rep_def)
qed

section \<open>Property\<close>

text \<open>
  The list of \<open>cpu/linked_list.h\<close> implements the packet queue: from a heap that represents a
  queue, each heap operation returns what the queue operation on the sequence of values returns
  and leaves a heap that represents the resulting queue, dangling after \<open>linked_list_erase\<close> of
  two or more elements and without the moved element when \<open>linked_list_move_to_front\<close> gets no
  memory.
\<close>

theorem pq_refines:
  assumes rep: "pq_rep h l q" and m: "ok \<longleftrightarrow> m \<noteq> NULL" "m \<noteq> NULL \<Longrightarrow> nodes h m = None"
  shows "(\<forall>e. pq_is_empty q = Some e \<longrightarrow> linked_list_is_empty l h = Some e) \<and>
    (\<forall>n. pq_len q = Some n \<longrightarrow> linked_list_get_len l h = Some (of_nat n)) \<and>
    (\<forall>i r. i < 2 ^ 32 \<and> pq_get_at i q = Some r \<longrightarrow>
      linked_list_get_element_at l (of_nat i) h = Some (case r of None \<Rightarrow> NULL | Some x \<Rightarrow> x)) \<and>
    (\<forall>v mx added q'. v \<in> objs h \<and> v \<notin> (case q of PQ xs \<Rightarrow> set xs | _ \<Rightarrow> {}) \<and> v \<noteq> NULL \<and> mx < 65536 \<and>
      pq_add_tail v mx ok q = Some (added, q') \<longrightarrow>
      (\<exists>h' pos. linked_list_add_tail l v (int mx) m h = Some (pos, h') \<and> pq_rep h' l q' \<and> (added \<longleftrightarrow> 0 \<le> pos))) \<and>
    (\<forall>q'. pq_remove_first q = Some q' \<longrightarrow>
      (\<exists>h' l'. linked_list_remove_first l h = Some (l', h') \<and> pq_rep h' l' q')) \<and>
    (\<forall>i xs r q'. q = PQ xs \<and> 0 < i \<and> i < length xs \<and> pq_move_to_front i ok q = Some (r, q') \<longrightarrow>
      (\<exists>h' l'. linked_list_move_to_front l (of_nat i) m h = Some (l', h') \<and> pq_rep h' l' r \<and>
        (\<not> ok \<longrightarrow> pq_rep h' l q'))) \<and>
    (\<forall>q'. pq_erase q = Some q' \<longrightarrow> (\<exists>h'. linked_list_erase l h = Some h' \<and> pq_rep h' l q')) \<and>
    (\<forall>q'. pq_erase_deep q = Some q' \<longrightarrow>
      (\<exists>h' l'. linked_list_erase_deep l h = Some (l', h') \<and> pq_rep h' l' q'))"
proof -
  have 1: "\<forall>e. pq_is_empty q = Some e \<longrightarrow> linked_list_is_empty l h = Some e"
    using pq_is_empty_refines [OF rep] by blast
  have 2: "\<forall>n. pq_len q = Some n \<longrightarrow> linked_list_get_len l h = Some (of_nat n)"
    using pq_len_refines [OF rep] by blast
  have 3: "\<forall>i r. i < 2 ^ 32 \<and> pq_get_at i q = Some r \<longrightarrow>
      linked_list_get_element_at l (of_nat i) h = Some (case r of None \<Rightarrow> NULL | Some x \<Rightarrow> x)"
    using pq_get_at_refines [OF rep] by blast
  have 4: "\<forall>v mx added q'. v \<in> objs h \<and> v \<notin> (case q of PQ xs \<Rightarrow> set xs | _ \<Rightarrow> {}) \<and> v \<noteq> NULL \<and> mx < 65536 \<and>
      pq_add_tail v mx ok q = Some (added, q') \<longrightarrow>
      (\<exists>h' pos. linked_list_add_tail l v (int mx) m h = Some (pos, h') \<and> pq_rep h' l q' \<and> (added \<longleftrightarrow> 0 \<le> pos))"
    using pq_add_tail_refines [OF rep _ _ _ _ m] by blast
  have 5: "\<forall>q'. pq_remove_first q = Some q' \<longrightarrow>
      (\<exists>h' l'. linked_list_remove_first l h = Some (l', h') \<and> pq_rep h' l' q')"
    using pq_remove_first_refines [OF rep] by blast
  have 6: "\<forall>i xs r q'. q = PQ xs \<and> 0 < i \<and> i < length xs \<and> pq_move_to_front i ok q = Some (r, q') \<longrightarrow>
      (\<exists>h' l'. linked_list_move_to_front l (of_nat i) m h = Some (l', h') \<and> pq_rep h' l' r \<and>
        (\<not> ok \<longrightarrow> pq_rep h' l q'))"
    using pq_move_to_front_refines [OF _ _ _ _ m] rep by blast
  have 7: "\<forall>q'. pq_erase q = Some q' \<longrightarrow> (\<exists>h'. linked_list_erase l h = Some h' \<and> pq_rep h' l q')"
    using pq_erase_refines [OF rep] by blast
  have 8: "\<forall>q'. pq_erase_deep q = Some q' \<longrightarrow>
      (\<exists>h' l'. linked_list_erase_deep l h = Some (l', h') \<and> pq_rep h' l' q')"
    using pq_erase_deep_refines [OF rep] by blast
  show ?thesis by (intro conjI 1 2 3 4 5 6 7 8)
qed

lemma heap3_pq: "pq_rep heap3 1 (PQ [10, 20, 30])"
  using heap3_rep by (auto simp: pq_rep_def)

theorem pq_refines_witness:
  "(\<exists>h' l'. linked_list_move_to_front 1 2 7 heap3 = Some (l', h') \<and> pq_rep h' l' (PQ [30, 10, 20])) \<and>
   (\<exists>h'. linked_list_erase 1 heap3 = Some h' \<and> pq_rep h' 1 PQFreed)"
proof -
  have m: "True \<longleftrightarrow> (7 :: ptr) \<noteq> NULL" "nodes heap3 7 = None" by simp_all
  note p = pq_refines [OF heap3_pq m]
  have a: "pq_move_to_front 2 True (PQ [10, 20, 30 :: ptr]) = Some (PQ [30, 10, 20], PQ [10, 20])"
    by (simp add: pq_move_to_front_def Let_def)
  have b: "pq_erase (PQ [10, 20, 30 :: ptr]) = Some PQFreed" by (simp add: pq_erase_def)
  have "\<forall>i xs r q'. PQ [10, 20, 30 :: ptr] = PQ xs \<and> 0 < i \<and> i < length xs \<and>
      pq_move_to_front i True (PQ [10, 20, 30]) = Some (r, q') \<longrightarrow>
      (\<exists>h' l'. linked_list_move_to_front 1 (of_nat i) 7 heap3 = Some (l', h') \<and> pq_rep h' l' r \<and>
        (\<not> True \<longrightarrow> pq_rep h' 1 q'))"
    using p by (elim conjE) assumption
  from this [rule_format, of "[10, 20, 30]" 2] a
  have 1: "\<exists>h' l'. linked_list_move_to_front 1 2 7 heap3 = Some (l', h') \<and> pq_rep h' l' (PQ [30, 10, 20])"
    by auto
  have "\<forall>q'. pq_erase (PQ [10, 20, 30]) = Some q' \<longrightarrow>
      (\<exists>h'. linked_list_erase 1 heap3 = Some h' \<and> pq_rep h' 1 q')"
    using p by (elim conjE) assumption
  then show ?thesis using 1 b by blast
qed

end
