(* ===== verification/InfoElems.thy ===== *)
theory InfoElems
  imports Prelude
begin

text \<open>
  Information elements of management frames (\<open>core/net/mac/ieee80211_ibss/ibss_util.c\<close>): the
  parser that walks the elements (identifier, length, body) of a beacon and records where each
  known element lies. A pointer into the buffer is its offset; reading outside the buffer is
  undefined, so a parse that did so would be \<open>None\<close>. The pointer members of \<open>struct
  ieee802_11_elems\<close> are the values of \<open>ie_slot\<close>. The checksum argument is unused by the code.
\<close>

datatype ie_slot = Ssid | SuppRates | FhParams | DsParams | CfParams | Tim | IbssParams
  | Challenge | Wpa | Rsn | ErpInfo | ExtSuppRates | WmmInfo | WmmParam | HtCapElem | HtOperation
  | MeshConfig | MeshId | Peering | Preq | Prep | Perr | Rann | ChSwitchElem | CountryElem
  | PwrConstrElem | QuietElem | TimeoutInt

record ie_elems =
  ie_ptr :: "ie_slot \<Rightarrow> nat option"
  ie_len :: "ie_slot \<Rightarrow> u8"
  num_of_quiet_elem :: u8
  parse_error :: bool

definition elems0 :: ie_elems where
  "elems0 = \<lparr>ie_ptr = (\<lambda>_. None), ie_len = (\<lambda>_. 0), num_of_quiet_elem = 0, parse_error = False\<rparr>"

abbreviation (input) WLAN_EID_QUIET :: u8 where "WLAN_EID_QUIET \<equiv> 40"
abbreviation (input) WLAN_EID_VENDOR_SPECIFIC :: u8 where "WLAN_EID_VENDOR_SPECIFIC \<equiv> 221"

section \<open>The parser\<close>

text \<open>
  The plain cases of the switch: the member an identifier sets, the size of the structure its
  body must hold (0 when the code does not check) and whether the length is recorded too.
\<close>

definition ie_member :: "u8 \<Rightarrow> (ie_slot \<times> nat \<times> bool) option" where
  "ie_member i =
     (if i = 0 then Some (Ssid, 0, True)
      else if i = 1 then Some (SuppRates, 0, True)
      else if i = 2 then Some (FhParams, 0, True)
      else if i = 3 then Some (DsParams, 0, True)
      else if i = 4 then Some (CfParams, 0, True)
      else if i = 5 then Some (Tim, 4, True)
      else if i = 6 then Some (IbssParams, 0, True)
      else if i = 16 then Some (Challenge, 0, True)
      else if i = 48 then Some (Rsn, 0, True)
      else if i = 42 then Some (ErpInfo, 0, True)
      else if i = 50 then Some (ExtSuppRates, 0, True)
      else if i = 45 then Some (HtCapElem, 26, False)
      else if i = 61 then Some (HtOperation, 22, False)
      else if i = 114 then Some (MeshId, 0, True)
      else if i = 113 then Some (MeshConfig, 7, False)
      else if i = 117 then Some (Peering, 0, True)
      else if i = 130 then Some (Preq, 0, True)
      else if i = 131 then Some (Prep, 0, True)
      else if i = 132 then Some (Perr, 0, True)
      else if i = 126 then Some (Rann, 21, False)
      else if i = 37 then Some (ChSwitchElem, 0, True)
      else if i = 7 then Some (CountryElem, 0, True)
      else if i = 32 then Some (PwrConstrElem, 0, True)
      else if i = 56 then Some (TimeoutInt, 0, True)
      else None)"

definition ie_set :: "ie_slot \<Rightarrow> nat \<Rightarrow> u8 \<Rightarrow> ie_elems \<Rightarrow> ie_elems" where
  "ie_set sl pos elen e =
     e\<lparr>ie_ptr := (ie_ptr e)(sl \<mapsto> pos), ie_len := (ie_len e)(sl := elen)\<rparr>"

lemma ie_set_simps [simp]:
  "ie_ptr (ie_set sl pos elen e) = (ie_ptr e)(sl \<mapsto> pos)"
  "ie_len (ie_set sl pos elen e) = (ie_len e)(sl := elen)"
  "parse_error (ie_set sl pos elen e) = parse_error e"
  by (simp_all add: ie_set_def)

definition byte_at :: "u8 list \<Rightarrow> nat \<Rightarrow> u8 option" where
  "byte_at b k = (if k < length b then Some (b ! k) else None)"

text \<open>The vendor specific element: \<open>&&\<close> evaluates from left to right.\<close>

definition ie_vendor :: "u8 list \<Rightarrow> nat \<Rightarrow> u8 \<Rightarrow> ie_elems \<Rightarrow> ie_elems option" where
  "ie_vendor b pos elen e =
     (if elen < 4 then Some e else do {
        b0 \<leftarrow> byte_at b pos; b1 \<leftarrow> byte_at b (pos + 1); b2 \<leftarrow> byte_at b (pos + 2);
        b3 \<leftarrow> byte_at b (pos + 3);
        if \<not> (b0 = 0x00 \<and> b1 = 0x50 \<and> b2 = 0xf2) then Some e
        else if b3 = 1 then Some (ie_set Wpa pos elen e)
        else if elen \<ge> 5 \<and> b3 = 2 then do {
          b4 \<leftarrow> byte_at b (pos + 4);
          Some (if b4 = 0 then ie_set WmmInfo pos elen e
                else if b4 = 1 then ie_set WmmParam pos elen e else e)
        }
        else Some e
      })"

text \<open>The switch: the updated elements and \<open>elem_parse_failed\<close>.\<close>

definition ie_switch :: "u8 list \<Rightarrow> u8 \<Rightarrow> nat \<Rightarrow> u8 \<Rightarrow> ie_elems \<Rightarrow> (ie_elems \<times> bool) option" where
  "ie_switch b i pos elen e =
     (if i = WLAN_EID_VENDOR_SPECIFIC then map_option (\<lambda>e. (e, False)) (ie_vendor b pos elen e)
      else if i = WLAN_EID_QUIET then
        (let e1 = (if ie_ptr e QuietElem = None then ie_set QuietElem pos elen e else e)
         in Some (e1\<lparr>num_of_quiet_elem := num_of_quiet_elem e1 + 1\<rparr>, False))
      else (case ie_member i of
          None \<Rightarrow> Some (e, False)
        | Some (sl, n, recorded) \<Rightarrow>
            if unat elen \<ge> n then
              Some (if recorded then ie_set sl pos elen e
                    else e\<lparr>ie_ptr := (ie_ptr e)(sl \<mapsto> pos)\<rparr>, False)
            else Some (e, True)))"

function ie_loop :: "u8 list \<Rightarrow> nat \<Rightarrow> nat \<Rightarrow> (u8 \<Rightarrow> bool) \<Rightarrow> ie_elems \<Rightarrow> ie_elems option" where
  "ie_loop b left pos seen e =
     (if left < 2 then Some (if left \<noteq> 0 then e\<lparr>parse_error := True\<rparr> else e)
      else do {
        i \<leftarrow> byte_at b pos; elen \<leftarrow> byte_at b (pos + 1);
        if unat elen > left - 2 then Some (e\<lparr>parse_error := True\<rparr>)
        else if i \<noteq> WLAN_EID_VENDOR_SPECIFIC \<and> i \<noteq> WLAN_EID_QUIET \<and> seen i then
          ie_loop b (left - 2 - unat elen) (pos + 2 + unat elen) seen (e\<lparr>parse_error := True\<rparr>)
        else do {
          (e1, failed) \<leftarrow> ie_switch b i (pos + 2) elen e;
          if failed then ie_loop b (left - 2 - unat elen) (pos + 2 + unat elen) seen
            (e1\<lparr>parse_error := True\<rparr>)
          else ie_loop b (left - 2 - unat elen) (pos + 2 + unat elen) (seen(i := True)) e1
        }
      })"
  by pat_completeness auto
termination by (relation "measure (\<lambda>(b, left, pos, seen, e). left)") auto

declare ie_loop.simps [simp del]

definition ieee802_11_parse_elems :: "u8 list \<Rightarrow> nat \<Rightarrow> ie_elems option" where
  "ieee802_11_parse_elems start len = ie_loop start len 0 (\<lambda>_. False) elems0"


section \<open>Every recorded element lies inside the buffer\<close>

text \<open>The number of bytes of an element that its users may read.\<close>

definition ie_extent :: "ie_elems \<Rightarrow> ie_slot \<Rightarrow> nat" where
  "ie_extent e sl =
     (if sl = HtCapElem then 26 else if sl = HtOperation then 22 else if sl = MeshConfig then 7
      else if sl = Rann then 21 else max (if sl = Tim then 4 else 0) (unat (ie_len e sl)))"

definition ie_inside :: "nat \<Rightarrow> ie_elems \<Rightarrow> bool" where
  "ie_inside n e \<longleftrightarrow> (\<forall>sl p. ie_ptr e sl = Some p \<longrightarrow> 2 \<le> p \<and> p + ie_extent e sl \<le> n)"

lemma ie_inside_parse_error [simp]: "ie_inside n (e\<lparr>parse_error := x\<rparr>) = ie_inside n e"
  by (simp add: ie_inside_def ie_extent_def)

lemma ie_inside_quiet [simp]: "ie_inside n (e\<lparr>num_of_quiet_elem := x\<rparr>) = ie_inside n e"
  by (simp add: ie_inside_def ie_extent_def)

lemma ie_inside_0: "ie_inside n elems0"
  by (simp add: ie_inside_def elems0_def)

lemma ie_extent_set_other: "sl \<noteq> sl' \<Longrightarrow> ie_extent (ie_set sl p l e) sl' = ie_extent e sl'"
  by (simp add: ie_extent_def)

lemma ie_extent_ptr: "ie_extent (e\<lparr>ie_ptr := f\<rparr>) sl = ie_extent e sl"
  by (simp add: ie_extent_def)

lemma ie_inside_set:
  assumes "ie_inside n e" and "2 \<le> p" and "p + ie_extent (ie_set sl p l e) sl \<le> n"
  shows "ie_inside n (ie_set sl p l e)"
  unfolding ie_inside_def
proof (intro allI impI)
  fix sl' p' assume a: "ie_ptr (ie_set sl p l e) sl' = Some p'"
  show "2 \<le> p' \<and> p' + ie_extent (ie_set sl p l e) sl' \<le> n"
  proof (cases "sl' = sl")
    case True then show ?thesis using a assms by (simp add: ie_set_def)
  next
    case False
    then have "ie_ptr e sl' = Some p'" using a by (simp add: ie_set_def)
    then have "2 \<le> p' \<and> p' + ie_extent e sl' \<le> n" using assms(1) unfolding ie_inside_def by blast
    then show ?thesis using False by (metis ie_extent_set_other)
  qed
qed

lemma ie_member_extent:
  assumes "ie_member i = Some (sl, n, r)" and "n \<le> unat l"
  shows "r \<Longrightarrow> ie_extent (ie_set sl p l e) sl \<le> unat l"
    and "\<not> r \<Longrightarrow> ie_extent e sl \<le> unat l"
  using assms by (auto simp: ie_member_def ie_extent_def split: if_splits)

lemma ie_vendor_cases:
  assumes "p + unat l \<le> length b"
  shows "ie_vendor b p l e \<in> {Some e, Some (ie_set Wpa p l e), Some (ie_set WmmInfo p l e),
    Some (ie_set WmmParam p l e)}"
proof (cases "l < 4")
  case True then show ?thesis by (simp add: ie_vendor_def)
next
  case False
  then have l4: "4 \<le> unat l" by (simp add: word_less_nat_alt)
  have rd: "byte_at b p = Some (b ! p)" "byte_at b (p + 1) = Some (b ! (p + 1))"
    "byte_at b (p + 2) = Some (b ! (p + 2))" "byte_at b (p + 3) = Some (b ! (p + 3))"
    using l4 assms by (auto simp: byte_at_def)
  have rd4: "byte_at b (p + 4) = Some (b ! (p + 4))" if "5 \<le> l"
    using that assms by (auto simp: byte_at_def word_le_nat_alt)
  show ?thesis using False rd rd4 by (auto simp: ie_vendor_def)
qed

lemma ie_vendor_inside:
  assumes "ie_inside n e" and "2 \<le> p" and "p + unat l \<le> n" and "n \<le> length b"
  shows "\<exists>e1. ie_vendor b p l e = Some e1 \<and> ie_inside n e1 \<and> parse_error e1 = parse_error e \<and>
    (\<forall>sl. sl \<notin> {Wpa, WmmInfo, WmmParam} \<longrightarrow> ie_ptr e1 sl = ie_ptr e sl)"
proof -
  have ins: "ie_inside n (ie_set Wpa p l e)" "ie_inside n (ie_set WmmInfo p l e)"
    "ie_inside n (ie_set WmmParam p l e)"
    using assms by (auto intro!: ie_inside_set simp: ie_extent_def)
  show ?thesis using ie_vendor_cases [of p l b e] assms ins by auto
qed

lemma ie_switch_inside:
  assumes "ie_inside n e" and "2 \<le> p" and "p + unat l \<le> n" and "n \<le> length b"
  shows "\<exists>e1 f. ie_switch b i p l e = Some (e1, f) \<and> ie_inside n e1"
proof -
  have q: "ie_inside n (ie_set QuietElem p l e)"
    using assms by (auto intro!: ie_inside_set simp: ie_extent_def)
  have m: "ie_inside n (if r then ie_set sl p l e else e\<lparr>ie_ptr := (ie_ptr e)(sl \<mapsto> p)\<rparr>)"
    if "ie_member i = Some (sl, k, r)" "k \<le> unat l" for sl k r
  proof (cases r)
    case True
    then have "ie_extent (ie_set sl p l e) sl \<le> unat l" using ie_member_extent(1) that by blast
    then have "ie_inside n (ie_set sl p l e)" using assms by (intro ie_inside_set) auto
    then show ?thesis using True by simp
  next
    case False
    then have "ie_extent e sl \<le> unat l" using ie_member_extent(2) that by blast
    then have "ie_inside n (e\<lparr>ie_ptr := (ie_ptr e)(sl \<mapsto> p)\<rparr>)"
      using assms unfolding ie_inside_def ie_extent_ptr by auto
    then show ?thesis using False by simp
  qed
  show ?thesis
    using ie_vendor_inside [OF assms] q m assms(1)
    by (auto simp: ie_switch_def Let_def split: option.splits)
qed

lemma ie_loop_inside:
  "pos + left \<le> n \<Longrightarrow> n \<le> length b \<Longrightarrow> ie_inside n e \<Longrightarrow>
    \<exists>e1. ie_loop b left pos seen e = Some e1 \<and> ie_inside n e1"
proof (induction b left pos seen e rule: ie_loop.induct)
  case (1 b left pos seen e)
  show ?case
  proof (cases "left < 2")
    case True then show ?thesis using "1.prems" by (subst ie_loop.simps) simp
  next
    case False
    define i l where "i = b ! pos" and "l = b ! (pos + 1)"
    have rd: "byte_at b pos = Some i" "byte_at b (pos + 1) = Some l"
      using False "1.prems" by (auto simp: byte_at_def i_def l_def)
    show ?thesis
    proof (cases "unat l > left - 2")
      case True
      then have "ie_loop b left pos seen e = Some (e\<lparr>parse_error := True\<rparr>)"
        using False rd by (subst ie_loop.simps) simp
      then show ?thesis using "1.prems" by simp
    next
      case fits: False
      have bd: "pos + 2 + unat l + (left - 2 - unat l) \<le> n" "pos + 2 + unat l \<le> n"
        using False fits "1.prems" by linarith+
      show ?thesis
      proof (cases "i \<noteq> WLAN_EID_VENDOR_SPECIFIC \<and> i \<noteq> WLAN_EID_QUIET \<and> seen i")
        case True
        have "ie_loop b left pos seen e = ie_loop b (left - 2 - unat l) (pos + 2 + unat l) seen
            (e\<lparr>parse_error := True\<rparr>)"
          using False fits True rd by (subst ie_loop.simps) simp
        moreover have "\<exists>e1. ie_loop b (left - 2 - unat l) (pos + 2 + unat l) seen
            (e\<lparr>parse_error := True\<rparr>) = Some e1 \<and> ie_inside n e1"
          using "1.IH"(1) [OF False rd fits True] bd "1.prems" by simp
        ultimately show ?thesis by simp
      next
        case new: False
        obtain e1 f where sw: "ie_switch b i (pos + 2) l e = Some (e1, f)" "ie_inside n e1"
          using ie_switch_inside [of n e "pos + 2" l b i] bd "1.prems" by auto
        have eq: "ie_loop b left pos seen e = (if f
            then ie_loop b (left - 2 - unat l) (pos + 2 + unat l) seen (e1\<lparr>parse_error := True\<rparr>)
            else ie_loop b (left - 2 - unat l) (pos + 2 + unat l) (seen(i := True)) e1)"
          using False fits new rd sw by (subst ie_loop.simps) auto
        show ?thesis
          using "1.IH"(2) [OF False rd fits new sw(1) refl] "1.IH"(3) [OF False rd fits new sw(1) refl]
            bd "1.prems" sw(2) unfolding eq by (cases f) (simp_all del: fun_upd_apply)
      qed
    qed
  qed
qed

section \<open>Parsing what was composed\<close>

text \<open>Elements as they are laid out in a frame.\<close>

fun ie_encode :: "(u8 \<times> u8 list) list \<Rightarrow> u8 list" where
  "ie_encode [] = []"
| "ie_encode ((i, body) # es) = i # of_nat (length body) # body @ ie_encode es"

lemma ie_encode_append: "ie_encode (xs @ ys) = ie_encode xs @ ie_encode ys"
  by (induction xs rule: ie_encode.induct) auto

definition ie_repeatable :: "u8 \<Rightarrow> bool" where
  "ie_repeatable i \<longleftrightarrow> i = WLAN_EID_VENDOR_SPECIFIC \<or> i = WLAN_EID_QUIET"

text \<open>A body that fits its length byte and is large enough for the structure it holds.\<close>

definition ie_body_ok :: "u8 \<times> u8 list \<Rightarrow> bool" where
  "ie_body_ok x \<longleftrightarrow> length (snd x) \<le> 255 \<and>
     (case ie_member (fst x) of None \<Rightarrow> True | Some (sl, n, r) \<Rightarrow> n \<le> length (snd x))"

definition ie_plain :: "ie_slot \<Rightarrow> bool" where
  "ie_plain sl \<longleftrightarrow> sl \<notin> {Wpa, WmmInfo, WmmParam, QuietElem}"

definition ie_sets :: "u8 \<Rightarrow> ie_slot \<Rightarrow> bool" where
  "ie_sets i sl \<longleftrightarrow> (case ie_member i of None \<Rightarrow> False | Some (sl', n, r) \<Rightarrow> sl' = sl)"

lemma ie_sets_plain: "ie_sets i sl \<Longrightarrow> ie_plain sl \<and> \<not> ie_repeatable i"
  by (auto simp: ie_sets_def ie_plain_def ie_repeatable_def ie_member_def split: if_splits)

definition ie_id :: "ie_slot \<Rightarrow> u8" where
  "ie_id sl = (case sl of Ssid \<Rightarrow> 0 | SuppRates \<Rightarrow> 1 | FhParams \<Rightarrow> 2 | DsParams \<Rightarrow> 3 | CfParams \<Rightarrow> 4
     | Tim \<Rightarrow> 5 | IbssParams \<Rightarrow> 6 | Challenge \<Rightarrow> 16 | Rsn \<Rightarrow> 48 | ErpInfo \<Rightarrow> 42 | ExtSuppRates \<Rightarrow> 50
     | HtCapElem \<Rightarrow> 45 | HtOperation \<Rightarrow> 61 | MeshId \<Rightarrow> 114 | MeshConfig \<Rightarrow> 113 | Peering \<Rightarrow> 117
     | Preq \<Rightarrow> 130 | Prep \<Rightarrow> 131 | Perr \<Rightarrow> 132 | Rann \<Rightarrow> 126 | ChSwitchElem \<Rightarrow> 37 | CountryElem \<Rightarrow> 7
     | PwrConstrElem \<Rightarrow> 32 | TimeoutInt \<Rightarrow> 56 | _ \<Rightarrow> 255)"

lemma ie_sets_id: "ie_sets i sl \<Longrightarrow> i = ie_id sl"
  by (auto simp: ie_sets_def ie_member_def ie_id_def split: if_splits)

lemma ie_switch_encoded:
  assumes "ie_body_ok (i, body)" and "p + length body \<le> length b" and "2 \<le> p"
  shows "\<exists>e1. ie_switch b i p (of_nat (length body)) e = Some (e1, False) \<and>
    parse_error e1 = parse_error e \<and>
    (\<forall>sl. ie_plain sl \<longrightarrow> ie_ptr e1 sl = (if ie_sets i sl then Some p else ie_ptr e sl))"
proof -
  have l: "unat (of_nat (length body) :: u8) = length body"
    using assms(1) by (simp add: ie_body_ok_def unat_of_nat_u8)
  show ?thesis
  proof (cases "i = WLAN_EID_VENDOR_SPECIFIC")
    case True
    define l :: u8 where "l = of_nat (length body)"
    have s: "\<not> ie_sets i sl" for sl
      using True ie_sets_plain [of i sl] by (auto simp: ie_repeatable_def)
    have "\<exists>e1. ie_vendor b p l e = Some e1 \<and> parse_error e1 = parse_error e \<and>
        (\<forall>sl. sl \<notin> {Wpa, WmmInfo, WmmParam} \<longrightarrow> ie_ptr e1 sl = ie_ptr e sl)"
      using ie_vendor_cases [of p l b e] assms(2) l by (auto simp: l_def)
    then show ?thesis using True s by (auto simp: ie_switch_def ie_plain_def l_def)
  next
    case nv: False
    show ?thesis
    proof (cases "i = WLAN_EID_QUIET")
      case True
      have s: "\<not> ie_sets i sl" for sl
        using True ie_sets_plain [of i sl] by (auto simp: ie_repeatable_def)
      then show ?thesis using True by (auto simp: ie_switch_def ie_plain_def Let_def)
    next
      case False
      then show ?thesis using nv assms(1) l
        by (auto simp: ie_switch_def ie_body_ok_def ie_sets_def split: option.splits)
    qed
  qed
qed

text \<open>Well-formed elements in front of arbitrary bytes are taken in turn.\<close>

lemma ie_loop_prefix:
  assumes "\<forall>x \<in> set es. ie_body_ok x" and "distinct (filter (\<lambda>i. \<not> ie_repeatable i) (map fst es))"
    and "\<forall>i \<in> fst ` set es. ie_repeatable i \<or> \<not> seen i" and "b = pre @ ie_encode es @ post"
  shows "\<exists>e1 seen1. ie_loop b (length (ie_encode es) + length post) (length pre) seen e =
      ie_loop b (length post) (length pre + length (ie_encode es)) seen1 e1 \<and>
    parse_error e1 = parse_error e \<and> (\<forall>i. seen i \<or> i \<in> fst ` set es \<longrightarrow> seen1 i) \<and>
    (\<forall>sl. ie_plain sl \<and> (\<forall>i \<in> fst ` set es. \<not> ie_sets i sl) \<longrightarrow> ie_ptr e1 sl = ie_ptr e sl) \<and>
    (\<forall>es1 i body es2 sl. es = es1 @ (i, body) # es2 \<and> ie_sets i sl \<longrightarrow>
       ie_ptr e1 sl = Some (length pre + length (ie_encode es1) + 2))"
  using assms
proof (induction es arbitrary: pre seen e)
  case Nil
  then show ?case by (intro exI [of _ e] exI [of _ seen]) simp
next
  case (Cons x es)
  obtain i body where x: "x = (i, body)" by (cases x)
  define l :: u8 where "l = of_nat (length body)"
  have ok: "ie_body_ok (i, body)" using Cons.prems(1) x by simp
  have l: "unat l = length body" using ok by (simp add: l_def ie_body_ok_def unat_of_nat_u8)
  have b: "b = pre @ i # l # body @ ie_encode es @ post" using Cons.prems(4) x by (simp add: l_def)
  have rd: "byte_at b (length pre) = Some i" "byte_at b (length pre + 1) = Some l"
    by (simp_all add: byte_at_def b nth_append)
  have new: "(i \<noteq> WLAN_EID_VENDOR_SPECIFIC \<and> i \<noteq> WLAN_EID_QUIET \<and> seen i) = False"
    using Cons.prems(3) x by (auto simp: ie_repeatable_def)
  obtain e1 where sw: "ie_switch b i (length pre + 2) l e = Some (e1, False)"
      "parse_error e1 = parse_error e"
      "\<forall>sl. ie_plain sl \<longrightarrow> ie_ptr e1 sl = (if ie_sets i sl then Some (length pre + 2) else ie_ptr e sl)"
    using ie_switch_encoded [OF ok, of "length pre + 2" b e] by (auto simp: b l_def)
  define pre' where "pre' = pre @ i # l # body"
  have len: "length (ie_encode (x # es)) = 2 + length body + length (ie_encode es)"
    by (simp add: x)
  have step: "ie_loop b (length (ie_encode (x # es)) + length post) (length pre) seen e =
      ie_loop b (length (ie_encode es) + length post) (length pre') (seen(i := True)) e1"
    unfolding len
    by (subst ie_loop.simps)
      (simp add: new rd rd(2) [simplified] sw(1) sw(1) [simplified] l pre'_def del: not_less)
  have ih: "\<exists>e2 seen1. ie_loop b (length (ie_encode es) + length post) (length pre') (seen(i := True)) e1 =
        ie_loop b (length post) (length pre' + length (ie_encode es)) seen1 e2 \<and>
      parse_error e2 = parse_error e1 \<and> (\<forall>j. (seen(i := True)) j \<or> j \<in> fst ` set es \<longrightarrow> seen1 j) \<and>
      (\<forall>sl. ie_plain sl \<and> (\<forall>i \<in> fst ` set es. \<not> ie_sets i sl) \<longrightarrow> ie_ptr e2 sl = ie_ptr e1 sl) \<and>
      (\<forall>es1 i body es2 sl. es = es1 @ (i, body) # es2 \<and> ie_sets i sl \<longrightarrow>
         ie_ptr e2 sl = Some (length pre' + length (ie_encode es1) + 2))"
  proof (rule Cons.IH)
    show "\<forall>x \<in> set es. ie_body_ok x" using Cons.prems(1) by simp
    show "distinct (filter (\<lambda>i. \<not> ie_repeatable i) (map fst es))"
      using Cons.prems(2) by (auto split: if_splits)
    show "\<forall>j \<in> fst ` set es. ie_repeatable j \<or> \<not> (seen(i := True)) j"
    proof
      fix j assume j: "j \<in> fst ` set es"
      show "ie_repeatable j \<or> \<not> (seen(i := True)) j"
      proof (cases "j = i")
        case True
        then show ?thesis using Cons.prems(2) j x by (auto split: if_splits)
      next
        case False then show ?thesis using Cons.prems(3) j by auto
      qed
    qed
    show "b = pre' @ ie_encode es @ post" by (simp add: b pre'_def)
  qed
  then obtain e2 seen1 where e2: "ie_loop b (length (ie_encode es) + length post) (length pre') (seen(i := True)) e1 =
        ie_loop b (length post) (length pre' + length (ie_encode es)) seen1 e2"
      "parse_error e2 = parse_error e1"
      "\<forall>sl. ie_plain sl \<and> (\<forall>i \<in> fst ` set es. \<not> ie_sets i sl) \<longrightarrow> ie_ptr e2 sl = ie_ptr e1 sl"
      "\<forall>es1 i body es2 sl. es = es1 @ (i, body) # es2 \<and> ie_sets i sl \<longrightarrow>
         ie_ptr e2 sl = Some (length pre' + length (ie_encode es1) + 2)"
      "\<forall>j. (seen(i := True)) j \<or> j \<in> fst ` set es \<longrightarrow> seen1 j"
    by (elim exE conjE) (rule that)
  have once: "\<not> ie_sets j sl" if "ie_sets i sl" "j \<in> fst ` set es" for j sl
  proof
    assume "ie_sets j sl"
    then have "j = i" using ie_sets_id [of j sl] ie_sets_id [of i sl] that(1) by simp
    then show False using Cons.prems(2) that x ie_sets_plain [OF that(1)] by (auto split: if_splits)
  qed
  show ?case
  proof (intro exI conjI allI impI)
    show "ie_loop b (length (ie_encode (x # es)) + length post) (length pre) seen e =
        ie_loop b (length post) (length pre + length (ie_encode (x # es))) seen1 e2"
    proof -
      have "length pre + length (ie_encode (x # es)) = length pre' + length (ie_encode es)"
        by (simp add: x pre'_def)
      then show ?thesis using step e2(1) by simp
    qed
    show "seen1 j" if "seen j \<or> j \<in> fst ` set (x # es)" for j using that x e2(5) by auto
    show "parse_error e2 = parse_error e" using e2(2) sw(2) by simp
    fix sl assume "ie_plain sl \<and> (\<forall>i \<in> fst ` set (x # es). \<not> ie_sets i sl)"
    then show "ie_ptr e2 sl = ie_ptr e sl" using e2(3) sw(3) x by auto
  next
    fix es1 j bd es2 sl assume a: "x # es = es1 @ (j, bd) # es2 \<and> ie_sets j sl"
    show "ie_ptr e2 sl = Some (length pre + length (ie_encode es1) + 2)"
    proof (cases es1)
      case Nil
      then have j: "j = i" "bd = body" using a x by auto
      then have "ie_ptr e2 sl = ie_ptr e1 sl" using e2(3) a once ie_sets_plain by blast
      then show ?thesis using sw(3) a j Nil ie_sets_plain by auto
    next
      case (Cons y es1')
      then have "es = es1' @ (j, bd) # es2" "y = x" using a by auto
      then show ?thesis using e2(4) a Cons x by (simp add: pre'_def)
    qed
  qed
qed

lemma ie_loop_encoded:
  assumes "\<forall>x \<in> set es. ie_body_ok x" and "distinct (filter (\<lambda>i. \<not> ie_repeatable i) (map fst es))"
  shows "\<exists>e1. ie_loop (ie_encode es) (length (ie_encode es)) 0 (\<lambda>_. False) e = Some e1 \<and>
    parse_error e1 = parse_error e \<and>
    (\<forall>sl. ie_plain sl \<and> (\<forall>i \<in> fst ` set es. \<not> ie_sets i sl) \<longrightarrow> ie_ptr e1 sl = ie_ptr e sl) \<and>
    (\<forall>es1 i body es2 sl. es = es1 @ (i, body) # es2 \<and> ie_sets i sl \<longrightarrow>
       ie_ptr e1 sl = Some (length (ie_encode es1) + 2))"
proof -
  have "ie_loop (ie_encode es) 0 n seen e1 = Some e1" for n seen e1
    by (subst ie_loop.simps) simp
  then show ?thesis
    using ie_loop_prefix [OF assms, of "\<lambda>_. False" "ie_encode es" "[]" "[]" e] by fastforce
qed

text \<open>An element that was seen is not replaced, whatever follows.\<close>

lemma ie_switch_other:
  assumes "ie_switch b i p l e = Some (e1, f)" and "ie_plain sl" and "i \<noteq> ie_id sl"
  shows "ie_ptr e1 sl = ie_ptr e sl"
proof -
  have "ie_sets i sl' \<Longrightarrow> sl' \<noteq> sl" for sl' using ie_sets_id assms(3) by blast
  then show ?thesis
    using assms
    by (auto simp: ie_switch_def ie_vendor_def ie_plain_def Let_def ie_sets_def bind_eq_Some_conv
        split: if_splits option.splits)
qed

lemma ie_id_plain: "ie_plain sl \<Longrightarrow> \<not> ie_repeatable (ie_id sl)"
  by (cases sl) (auto simp: ie_plain_def ie_id_def ie_repeatable_def)

lemma ie_loop_keeps:
  assumes "ie_loop b left pos seen e = Some e1" and "ie_plain sl" and "seen (ie_id sl)"
  shows "ie_ptr e1 sl = ie_ptr e sl"
  using assms
proof (induction b left pos seen e rule: ie_loop.induct)
  case (1 b left pos seen e)
  show ?case
  proof (cases "left < 2")
    case True
    then have "e1 = (if left \<noteq> 0 then e\<lparr>parse_error := True\<rparr> else e)"
      using "1.prems"(1) by (subst (asm) ie_loop.simps) simp
    then show ?thesis by simp
  next
    case False
    then obtain i l where rd: "byte_at b pos = Some i" "byte_at b (pos + 1) = Some l"
      using "1.prems"(1) by (subst (asm) ie_loop.simps) (auto simp: bind_eq_Some_conv)
    show ?thesis
    proof (cases "unat l > left - 2")
      case True
      then have "e1 = e\<lparr>parse_error := True\<rparr>"
        using False rd "1.prems"(1) by (subst (asm) ie_loop.simps) simp
      then show ?thesis by simp
    next
      case fits: False
      show ?thesis
      proof (cases "i \<noteq> WLAN_EID_VENDOR_SPECIFIC \<and> i \<noteq> WLAN_EID_QUIET \<and> seen i")
        case True
        have "ie_loop b left pos seen e = ie_loop b (left - 2 - unat l) (pos + 2 + unat l) seen
            (e\<lparr>parse_error := True\<rparr>)"
          using False fits True rd by (subst ie_loop.simps) simp
        then show ?thesis using "1.IH"(1) [OF False rd fits True] "1.prems" by simp
      next
        case new: False
        have "i \<noteq> ie_id sl" using new "1.prems"(2,3) ie_id_plain [of sl] by (auto simp: ie_repeatable_def)
        obtain e2 f where sw: "ie_switch b i (pos + 2) l e = Some (e2, f)"
        proof (cases "ie_switch b i (pos + 2) l e")
          case None
          then have "ie_loop b left pos seen e = None"
            using False fits new rd by (subst ie_loop.simps) auto
          then show ?thesis using "1.prems"(1) by simp
        next
          case (Some z) then show ?thesis using that by (cases z) simp
        qed
        have eq: "ie_loop b left pos seen e = (if f
            then ie_loop b (left - 2 - unat l) (pos + 2 + unat l) seen (e2\<lparr>parse_error := True\<rparr>)
            else ie_loop b (left - 2 - unat l) (pos + 2 + unat l) (seen(i := True)) e2)"
          using False fits new rd sw by (subst ie_loop.simps) auto
        have "ie_ptr e2 sl = ie_ptr e sl" using ie_switch_other [OF sw "1.prems"(2) \<open>i \<noteq> ie_id sl\<close>] .
        then show ?thesis
          using "1.IH"(2) [OF False rd fits new sw refl] "1.IH"(3) [OF False rd fits new sw refl]
            "1.prems" fun_upd_apply [of seen i True "ie_id sl"] unfolding eq by (cases f) (simp_all del: fun_upd_apply)
      qed
    qed
  qed
qed

text \<open>Elements are found whatever bytes follow them.\<close>

lemma ie_parse_prefix:
  assumes "\<forall>x \<in> set es. ie_body_ok x" and "distinct (filter (\<lambda>i. \<not> ie_repeatable i) (map fst es))"
  shows "\<exists>e. ieee802_11_parse_elems (ie_encode es @ post) (length (ie_encode es @ post)) = Some e \<and>
    (\<forall>es1 i body es2 sl. es = es1 @ (i, body) # es2 \<and> ie_sets i sl \<longrightarrow>
       ie_ptr e sl = Some (length (ie_encode es1) + 2))"
proof -
  define b where "b = ie_encode es @ post"
  obtain e where e: "ie_loop b (length b) 0 (\<lambda>_. False) elems0 = Some e"
    using ie_loop_inside [of 0 "length b" "length b" b elems0 "\<lambda>_. False"] ie_inside_0 by auto
  have beq: "b = [] @ ie_encode es @ post" and new: "\<forall>i \<in> fst ` set es. ie_repeatable i \<or> \<not> False"
    by (simp_all add: b_def)
  obtain e1 seen1 where p: "ie_loop b (length (ie_encode es) + length post) (length ([] :: u8 list)) (\<lambda>_. False) elems0 =
      ie_loop b (length post) (length ([] :: u8 list) + length (ie_encode es)) seen1 e1"
    "\<forall>i. False \<or> i \<in> fst ` set es \<longrightarrow> seen1 i"
    "\<forall>es1 i body es2 sl. es = es1 @ (i, body) # es2 \<and> ie_sets i sl \<longrightarrow>
       ie_ptr e1 sl = Some (length ([] :: u8 list) + length (ie_encode es1) + 2)"
    using ie_loop_prefix [OF assms new beq, of elems0] by (elim exE conjE) (rule that)
  have l: "ie_loop b (length post) (length (ie_encode es)) seen1 e1 = Some e"
    using e p(1) by (simp add: b_def)
  have "ie_ptr e sl = Some (length (ie_encode es1) + 2)"
    if h: "es = es1 @ (i, body) # es2" "ie_sets i sl" for es1 i body es2 sl
  proof -
    have "seen1 (ie_id sl)" using p(2) h ie_sets_id [OF h(2)] by auto
    then have "ie_ptr e sl = ie_ptr e1 sl" using ie_loop_keeps [OF l] ie_sets_plain [OF h(2)] by blast
    then show ?thesis using p(3) h by simp
  qed
  then show ?thesis using e by (auto simp: ieee802_11_parse_elems_def b_def)
qed

section \<open>Properties\<close>

text \<open>
  C24. The parser never reads outside a buffer that holds \<open>len\<close> bytes, whatever they are, it
  always ends, and every element it records, with the length it records or the size of the
  structure it is cast to, lies inside these \<open>len\<close> bytes.
\<close>

theorem ie_parse_inside:
  assumes "len \<le> length start"
  shows "\<exists>e. ieee802_11_parse_elems start len = Some e \<and>
    (\<forall>sl p. ie_ptr e sl = Some p \<longrightarrow> 2 \<le> p \<and> p + ie_extent e sl \<le> len)"
  using ie_loop_inside [of 0 len len start elems0 "\<lambda>_. False"] assms ie_inside_0
  by (auto simp: ieee802_11_parse_elems_def ie_inside_def)

theorem ie_parse_inside_witness:
  "\<exists>e. ieee802_11_parse_elems [0, 2, 97, 98, 6, 9, 0] 7 = Some e \<and>
    (\<forall>sl p. ie_ptr e sl = Some p \<longrightarrow> 2 \<le> p \<and> p + ie_extent e sl \<le> 7)"
  using ie_parse_inside [of 7 "[0, 2, 97, 98, 6, 9, 0]"] by simp

text \<open>
  Composed elements are found again: a sequence of elements with distinct identifiers
  (vendor and quiet elements may repeat), whose bodies are at most 255 bytes long and large
  enough for their structure, is parsed without error; the member of each element points to its
  body, and the members of absent elements are null.
\<close>

theorem ie_parse_encoded:
  assumes "\<forall>x \<in> set es. ie_body_ok x" and "distinct (filter (\<lambda>i. \<not> ie_repeatable i) (map fst es))"
  shows "\<exists>e. ieee802_11_parse_elems (ie_encode es) (length (ie_encode es)) = Some e \<and>
    \<not> parse_error e \<and>
    (\<forall>sl. ie_plain sl \<and> (\<forall>i \<in> fst ` set es. \<not> ie_sets i sl) \<longrightarrow> ie_ptr e sl = None) \<and>
    (\<forall>es1 i body es2 sl. es = es1 @ (i, body) # es2 \<and> ie_sets i sl \<longrightarrow>
       (\<exists>p. ie_ptr e sl = Some p \<and> read_at p (length body) (ie_encode es) = body))"
proof -
  have rd: "read_at (length (ie_encode es1) + 2) (length body) (ie_encode (es1 @ (i, body) # es2)) = body"
    for es1 i body es2
    by (simp add: ie_encode_append read_at_def)
  show ?thesis
    using ie_loop_encoded [OF assms, of elems0] rd
    unfolding ieee802_11_parse_elems_def by (auto simp: elems0_def)
qed

theorem ie_parse_encoded_witness:
  "let es = [(0, [97, 98]), (221, []), (6, [7, 0])] in
    \<exists>e. ieee802_11_parse_elems (ie_encode es) (length (ie_encode es)) = Some e \<and>
      \<not> parse_error e \<and> (\<exists>p. ie_ptr e IbssParams = Some p \<and> read_at p 2 (ie_encode es) = [7, 0])"
proof -
  let ?es = "[(0, [97, 98]), (221, []), (6, [7, 0])] :: (u8 \<times> u8 list) list"
  have a: "\<forall>x \<in> set ?es. ie_body_ok x"
    by (simp add: ie_body_ok_def ie_member_def)
  have b: "distinct (filter (\<lambda>i. \<not> ie_repeatable i) (map fst ?es))"
    by (simp add: ie_repeatable_def)
  from ie_parse_encoded [OF a b] obtain e where e:
      "ieee802_11_parse_elems (ie_encode ?es) (length (ie_encode ?es)) = Some e" "\<not> parse_error e"
      "\<forall>es1 i body es2 sl. ?es = es1 @ (i, body) # es2 \<and> ie_sets i sl \<longrightarrow>
         (\<exists>p. ie_ptr e sl = Some p \<and> read_at p (length body) (ie_encode ?es) = body)"
    by (elim exE conjE) (rule that)
  have "ie_sets 6 IbssParams" by (simp add: ie_sets_def ie_member_def)
  then have "\<exists>p. ie_ptr e IbssParams = Some p \<and> read_at p 2 (ie_encode ?es) = [7, 0]"
    using e(3) [rule_format, of "[(0, [97, 98]), (221, [])]" 6 "[7, 0]" "[]" IbssParams]
    by (simp add: numeral_2_eq_2 del: ie_encode.simps)
  then show ?thesis using e(1,2) unfolding Let_def by blast
qed

end
