(* ===== verification/Wlan.thy ===== *)
theory Wlan
  imports PktQueue Packetbuf InfoElems
begin

text \<open>
  The IBSS side of the WiFi driver, transmission: the state of the driver and the path of a packet
  from the MAC driver to the USB pipe (\<open>core/net/mac/ieee80211_ibss/ibss_main.c\<close>,
  \<open>ieee80211_tx.c\<close>, \<open>ar9170_main.c\<close>, \<open>ar9170tx.c\<close>, \<open>usb_data_wrapper.c\<close>, \<open>usb_wrapper.c\<close>).

  A socket buffer is its length, the bytes allocated for its data and whether they are heap
  memory. \<open>mallocs\<close> holds the outcomes of the coming allocations (success when exhausted),
  \<open>stack_words\<close> what the coming calls of \<open>ar9170_tx_prepare\<close> find in their uninitialised pointers and
  \<open>usb_runs\<close> those of \<open>uhi_vendor_bulk_out_run\<close>; \<open>usb_out\<close> is what was handed to the USB
  pipe. \<open>None\<close> is undefined behaviour: a null or dangling pointer, a read past the data or a
  \<open>free\<close> of memory that is not on the heap. The functions are atomic: an interrupt runs between
  them.
\<close>

datatype psm_window = PRE_TBTT | ATIM_WINDOW | TX_WINDOW | SOFT_BCN_WINDOW

datatype ibss_ps_mode = IBSS_NULL_PSM | IBSS_STD_PSM | IBSS_MH_PSM

type_synonym ether = "u8 list"

definition ETH_ALEN :: nat where "ETH_ALEN = 6"
definition FCS_LEN :: nat where "FCS_LEN = 4"
definition ENCAPS_LEN :: nat where "ENCAPS_LEN = 6"
definition AR9170_MAX_PENDING_TX_PKT_QUEUE_LEN :: nat where "AR9170_MAX_PENDING_TX_PKT_QUEUE_LEN = 16"
definition AR9170_MAX_PENDING_RX_PKT_QUEUE_LEN :: nat where "AR9170_MAX_PENDING_RX_PKT_QUEUE_LEN = 8"
definition AR9170_PSM_MAX_AWAKE_NODES_LIST_LEN :: nat where "AR9170_PSM_MAX_AWAKE_NODES_LIST_LEN = 32"
definition BULK_ENDPOINT_MAX_OUT_SIZE :: nat where "BULK_ENDPOINT_MAX_OUT_SIZE = 1024"
definition SUPERFRAME_LEN :: nat where "SUPERFRAME_LEN = 32"

lemmas wlan_consts = ETH_ALEN_def FCS_LEN_def ENCAPS_LEN_def AR9170_MAX_PENDING_TX_PKT_QUEUE_LEN_def
  AR9170_MAX_PENDING_RX_PKT_QUEUE_LEN_def AR9170_PSM_MAX_AWAKE_NODES_LIST_LEN_def
  BULK_ENDPOINT_MAX_OUT_SIZE_def SUPERFRAME_LEN_def

abbreviation (input) PS_OFF_BCN :: u32 where "PS_OFF_BCN \<equiv> 2"
abbreviation (input) PS_OFF_ATIM :: u32 where "PS_OFF_ATIM \<equiv> 4"
abbreviation (input) PS_OFF_DATA :: u32 where "PS_OFF_DATA \<equiv> 8"

abbreviation (input) eth_broadcast :: ether where
  "eth_broadcast \<equiv> [0xff, 0xff, 0xff, 0xff, 0xff, 0xff]"

record sk_buff =
  skb_data :: "u8 list option"
  skb_len :: u32
  skb_heap :: bool

datatype queue_id = DataQ | AtimQ | RxQ

text \<open>
  \<open>ar9170_tx_prepare\<close> works with two pointers, \<open>txrate\<close> and \<open>info\<close>, that it never sets: the lines
  that allocate them stand in a comment. What the two words of the stack hold is an input: \<open>Spare b\<close>
  is the address of a heap block of its own with contents \<open>b\<close> that nothing else uses, \<open>Wild\<close> is every
  other value, null included. Through a wild pointer each access is undefined behaviour.
\<close>

record tx_rate =
  rate_idx :: u8
  rate_count :: u8
  rate_flags :: u8

record tx_info =
  info_band :: u8

datatype 'b stack_ptr = Wild | Spare 'b

record wlan =
  ps_mode :: ibss_ps_mode
  vif_addr :: ether
  bssid :: ether
  use_short_preamble :: bool
  band_5ghz :: bool
  beacon_int :: u16
  atim_window :: u16
  conf_ps :: bool
  ibss_joined :: bool
  is_started :: bool
  ibss_beacon_buf :: "sk_buff option"
  tbtt_counter :: u8
  vif_id :: u8
  tx_dropped :: u32
  tx_packets_sent :: u16
  tx_pending_pkts :: "sk_buff pq"
  tx_pending_atims :: "sk_buff pq"
  rx_pending_pkts :: "sk_buff pq"
  wake_neighbors :: "ether pq"
  mh_psm_addr_map :: "(ether \<times> ether) pq"
  psm_state :: psm_window
  ps_state :: bool
  off_override :: u32
  update_mask :: u32
  create_atims_flag :: bool
  send_soft_bcn_flag :: bool
  psm_transit_to_sleep :: bool
  psm_transit_to_wake :: bool
  last_ATIM_DA :: ether
  last_ATIM_A3 :: ether
  erase_awake_nodes_flag :: bool
  tx_data_wait :: bool
  tx_atim_wait :: bool
  tx_async_lock :: bool
  cmd_async_lock :: bool
  clear_tx_data_wait :: bool
  clear_tx_async_lock :: bool
  clear_cmd_async_lock :: bool
  atim_wait_cleared_count :: u8
  tx_list :: "u8 list list"
  usb_out :: "u8 list list"
  usb_runs :: "bool list"
  mallocs :: "bool list"
  stack_words :: "(tx_rate stack_ptr \<times> tx_info stack_ptr) list"

section \<open>Allocation and frame headers\<close>

definition smalloc :: "'a wlan_scheme \<Rightarrow> bool \<times> 'a wlan_scheme" where
  "smalloc s = (case mallocs s of [] \<Rightarrow> (True, s) | b # bs \<Rightarrow> (b, s\<lparr>mallocs := bs\<rparr>))"

definition le16_bytes :: "u16 \<Rightarrow> u8 list" where
  "le16_bytes w = [ucast w, ucast (drop_bit 8 w)]"

definition le16_of :: "u8 list \<Rightarrow> u16" where
  "le16_of b = ucast (b ! 0) OR push_bit 8 (ucast (b ! 1))"

text \<open>\<open>n\<close> bytes at offset \<open>off\<close> of the data of a buffer.\<close>

definition skb_bytes :: "nat \<Rightarrow> nat \<Rightarrow> sk_buff \<Rightarrow> u8 list option" where
  "skb_bytes off n skb = (case skb_data skb of None \<Rightarrow> None
     | Some d \<Rightarrow> if off + n \<le> length d then Some (read_at off n d) else None)"

definition skb_write :: "nat \<Rightarrow> u8 list \<Rightarrow> sk_buff \<Rightarrow> sk_buff option" where
  "skb_write off bs skb = (case skb_data skb of None \<Rightarrow> None
     | Some d \<Rightarrow> if off + length bs \<le> length d then Some (skb\<lparr>skb_data := Some (write_at off bs d)\<rparr>) else None)"

definition frame_control :: "sk_buff \<Rightarrow> u16 option" where
  "frame_control skb = map_option le16_of (skb_bytes 0 2 skb)"

definition addr1 :: "sk_buff \<Rightarrow> ether option" where "addr1 skb = skb_bytes 4 6 skb"
definition addr2 :: "sk_buff \<Rightarrow> ether option" where "addr2 skb = skb_bytes 10 6 skb"
definition addr3 :: "sk_buff \<Rightarrow> ether option" where "addr3 skb = skb_bytes 16 6 skb"
definition seq_ctrl :: "sk_buff \<Rightarrow> u16 option" where
  "seq_ctrl skb = map_option le16_of (skb_bytes 22 2 skb)"

definition ether_addr_equal :: "ether \<Rightarrow> ether \<Rightarrow> bool" where
  "ether_addr_equal a b \<longleftrightarrow> a = b"

definition ieee80211_is_mgmt :: "u16 \<Rightarrow> bool" where
  "ieee80211_is_mgmt fc \<longleftrightarrow> fc AND 0x000c = 0x0000"
definition ieee80211_is_ctl :: "u16 \<Rightarrow> bool" where
  "ieee80211_is_ctl fc \<longleftrightarrow> fc AND 0x000c = 0x0004"
definition ieee80211_is_data :: "u16 \<Rightarrow> bool" where
  "ieee80211_is_data fc \<longleftrightarrow> fc AND 0x000c = 0x0008"
definition ieee80211_is_data_qos :: "u16 \<Rightarrow> bool" where
  "ieee80211_is_data_qos fc \<longleftrightarrow> fc AND (0x000c OR 0x0080) = 0x0008 OR 0x0080"
definition ieee80211_is_beacon :: "u16 \<Rightarrow> bool" where
  "ieee80211_is_beacon fc \<longleftrightarrow> fc AND (0x000c OR 0x00f0) = 0x0080"
definition ieee80211_is_atim :: "u16 \<Rightarrow> bool" where
  "ieee80211_is_atim fc \<longleftrightarrow> fc AND (0x000c OR 0x00f0) = 0x0090"
definition ieee80211_is_probe_req :: "u16 \<Rightarrow> bool" where
  "ieee80211_is_probe_req fc \<longleftrightarrow> fc AND (0x000c OR 0x00f0) = 0x0040"
definition ieee80211_is_probe_resp :: "u16 \<Rightarrow> bool" where
  "ieee80211_is_probe_resp fc \<longleftrightarrow> fc AND (0x000c OR 0x00f0) = 0x0050"
definition ieee80211_has_a4 :: "u16 \<Rightarrow> bool" where
  "ieee80211_has_a4 fc \<longleftrightarrow> fc AND (0x0100 OR 0x0200) = 0x0100 OR 0x0200"

lemmas frame_type_defs = ieee80211_is_mgmt_def ieee80211_is_ctl_def ieee80211_is_data_def
  ieee80211_is_data_qos_def ieee80211_is_beacon_def ieee80211_is_atim_def ieee80211_is_probe_req_def
  ieee80211_is_probe_resp_def ieee80211_has_a4_def

text \<open>The offset of the QoS control bytes.\<close>

definition ieee80211_get_qos_ctl :: "u16 \<Rightarrow> nat" where
  "ieee80211_get_qos_ctl fc = (if ieee80211_has_a4 fc then 30 else 24)"

definition hdr_3addr :: "u16 \<Rightarrow> u16 \<Rightarrow> ether \<Rightarrow> ether \<Rightarrow> ether \<Rightarrow> u16 \<Rightarrow> u8 list" where
  "hdr_3addr fc dur a1 a2 a3 seq =
     le16_bytes fc @ le16_bytes dur @ take ETH_ALEN a1 @ take ETH_ALEN a2 @ take ETH_ALEN a3 @ le16_bytes seq"

section \<open>Frame durations\<close>

definition DIV_ROUND_UP :: "nat \<Rightarrow> nat \<Rightarrow> nat" where
  "DIV_ROUND_UP a b = (a + b - 1) div b"

definition ieee80211_frame_duration :: "bool \<Rightarrow> nat \<Rightarrow> nat \<Rightarrow> bool \<Rightarrow> bool \<Rightarrow> nat" where
  "ieee80211_frame_duration band5 len rate erp short_preamble =
     (if band5 \<or> erp then
        16 + 16 + 4 + 4 * DIV_ROUND_UP ((16 + 8 * (len + 4) + 6) * 10) (4 * rate) + 20
      else 10 + (if short_preamble then 72 + 24 else 144 + 48) + DIV_ROUND_UP (8 * (len + 4) * 10) rate)"

definition ieee80211_duration :: "sk_buff \<Rightarrow> bool \<Rightarrow> 'a wlan_scheme \<Rightarrow> u16 option" where
  "ieee80211_duration skb group_addr s = do {
     fc \<leftarrow> frame_control skb;
     if ieee80211_is_ctl fc then Some 0
     else if group_addr then Some 0
     else do {
       noack \<leftarrow> (if ieee80211_is_data_qos fc
                 then map_option (\<lambda>b. b ! 0 AND 0x20 \<noteq> 0) (skb_bytes (ieee80211_get_qos_ctl fc) 1 skb)
                 else Some False);
       Some (if noack then 0
             else of_nat (ieee80211_frame_duration (band_5ghz s) 10 10 False (use_short_preamble s)))
     }
   }"

section \<open>The pending queues\<close>

definition get_queue :: "queue_id \<Rightarrow> 'a wlan_scheme \<Rightarrow> sk_buff pq" where
  "get_queue i s = (case i of DataQ \<Rightarrow> tx_pending_pkts s | AtimQ \<Rightarrow> tx_pending_atims s | RxQ \<Rightarrow> rx_pending_pkts s)"

definition set_queue :: "queue_id \<Rightarrow> sk_buff pq \<Rightarrow> 'a wlan_scheme \<Rightarrow> 'a wlan_scheme" where
  "set_queue i q s = (case i of DataQ \<Rightarrow> s\<lparr>tx_pending_pkts := q\<rparr> | AtimQ \<Rightarrow> s\<lparr>tx_pending_atims := q\<rparr>
     | RxQ \<Rightarrow> s\<lparr>rx_pending_pkts := q\<rparr>)"

text \<open>\<open>linked_list_init\<close> on a null list, and \<open>linked_list_add_tail\<close>, which allocates a node when
  the list is not empty and not full.\<close>

definition queue_init :: "'a wlan_scheme \<Rightarrow> 'b pq \<times> 'a wlan_scheme" where
  "queue_init s = (let (ok, s1) = smalloc s in (if ok then PQ [] else PQNull, s1))"

definition queue_add_tail :: "'b \<Rightarrow> nat \<Rightarrow> 'b pq \<Rightarrow> 'a wlan_scheme \<Rightarrow> (bool \<times> 'b pq \<times> 'a wlan_scheme) option" where
  "queue_add_tail x mx q s =
     (let (ok, s1) = (case q of PQ xs \<Rightarrow> if xs \<noteq> [] \<and> length xs < mx then smalloc s else (True, s)
                        | _ \<Rightarrow> (True, s))
      in map_option (\<lambda>(added, q1). (added, q1, s1)) (pq_add_tail x mx ok q))"

definition ar9170_op_add_pending_pkt :: "queue_id \<Rightarrow> sk_buff option \<Rightarrow> 'a wlan_scheme \<Rightarrow> (bool \<times> 'a wlan_scheme) option" where
  "ar9170_op_add_pending_pkt i skb s =
     (let (q, s1) = (if get_queue i s = PQNull then queue_init s else (get_queue i s, s));
          s2 = set_queue i q s1
      in if q = PQNull then Some (False, s2)
         else (case skb of
             None \<Rightarrow> Some (False, s2)
           | Some p \<Rightarrow>
               if skb_data p = None then Some (False, s2)
               else if skb_len p = 0 then Some (False, s2)
               else do {
                 (added, q1, s3) \<leftarrow> queue_add_tail p (if i = RxQ then AR9170_MAX_PENDING_RX_PKT_QUEUE_LEN
                    else AR9170_MAX_PENDING_TX_PKT_QUEUE_LEN) q s2;
                 Some (added, set_queue i q1 s3)
               }))"


section \<open>Building and queueing frames\<close>

text \<open>\<open>free(skb->data)\<close>: only heap memory may be freed; freeing null does nothing.\<close>

definition skb_free_data :: "sk_buff \<Rightarrow> sk_buff option" where
  "skb_free_data skb = (if skb_data skb = None \<or> skb_heap skb then Some (skb\<lparr>skb_data := None\<rparr>) else None)"

definition ieee80211_tx_atim_queue :: "sk_buff \<Rightarrow> 'a wlan_scheme \<Rightarrow> 'a wlan_scheme option" where
  "ieee80211_tx_atim_queue atim s = map_option snd (ar9170_op_add_pending_pkt AtimQ (Some atim) s)"

definition ieee80211_tx_queue :: "sk_buff \<Rightarrow> 'a wlan_scheme \<Rightarrow> (bool \<times> 'a wlan_scheme) option" where
  "ieee80211_tx_queue skb s = do {
     (added, s1) \<leftarrow> ar9170_op_add_pending_pkt DataQ (Some skb) s;
     if added then Some (True, s1)
     else do {
       freed \<leftarrow> skb_free_data skb;
       Some (False, s1)
     }
   }"

definition ieee80211_tx :: "sk_buff \<Rightarrow> 'a wlan_scheme \<Rightarrow> (bool \<times> 'a wlan_scheme) option" where
  "ieee80211_tx skb s = do {
     let seq = tx_packets_sent s + 0x10;
     skb1 \<leftarrow> skb_write 22 (le16_bytes seq) skb;
     let s1 = s\<lparr>tx_packets_sent := seq\<rparr>;
     d \<leftarrow> ieee80211_duration skb1 (use_short_preamble s1) s1;
     skb2 \<leftarrow> skb_write 2 (le16_bytes d) skb1;
     ieee80211_tx_queue skb2 s1
   }"

text \<open>\<open>a3\<close> is \<open>None\<close> for a null pointer.\<close>

definition ieee80211_create_atim_pkt :: "ether \<Rightarrow> ether option \<Rightarrow> 'a wlan_scheme \<Rightarrow> 'a wlan_scheme option" where
  "ieee80211_create_atim_pkt da a3 s =
     (let (ok1, s1) = smalloc s in
      if \<not> ok1 then Some s1
      else let (ok2, s2) = smalloc s1 in
      if \<not> ok2 then Some s2
      else
        let a = (if ps_mode s2 = IBSS_MH_PSM then (case a3 of None \<Rightarrow> replicate ETH_ALEN 0 | Some x \<Rightarrow> x)
                 else bssid s2);
            seq = tx_packets_sent s2 + 0x10;
            hdr = hdr_3addr (0x0000 OR 0x0090) 0 da (vif_addr s2) a seq;
            s3 = s2\<lparr>tx_packets_sent := seq\<rparr>;
            skb = \<lparr>skb_data = Some hdr, skb_len = 24, skb_heap = True\<rparr>
        in do {
          d \<leftarrow> ieee80211_duration skb (use_short_preamble s3) s3;
          skb1 \<leftarrow> skb_write 2 (le16_bytes d) skb;
          ieee80211_tx_atim_queue skb1 s3
        })"

text \<open>
  The header of a data frame has two more zero bytes for the QoS control field. The data of the
  socket buffer is released when \<open>free_buf\<close> asks for it and when there is no memory.
\<close>

definition ieee80211_start_xmit ::
  "sk_buff \<Rightarrow> ether \<Rightarrow> ether \<Rightarrow> bool \<Rightarrow> 'a wlan_scheme \<Rightarrow> (bool \<times> 'a wlan_scheme) option" where
  "ieee80211_start_xmit skb da next_hop free_buf s =
     (let a3 = (if ps_mode s = IBSS_MH_PSM then da else bssid s);
          hdr = hdr_3addr (0x0008 OR 0x0000 OR 0x0080) 0 next_hop (vif_addr s) a3 0;
          hdrlen = (26 :: u16);
          encaps = [0xaa, 0xaa, 0x03, 0x00, 0x00, 0x00];
          (ok, s1) = smalloc s
      in if \<not> ok then do {
           freed \<leftarrow> skb_free_data skb;
           Some (False, s1)
         } else if unat (skb_len skb) + 32 \<ge> 2 ^ 32 then None
         else do {
           payload \<leftarrow> skb_bytes 0 (unat (skb_len skb)) skb;
           let mac_pkt_len = (ucast (skb_len skb) + of_nat ENCAPS_LEN + hdrlen :: u16);
           freed \<leftarrow> (if free_buf then skb_free_data skb else Some skb);
           ieee80211_tx \<lparr>skb_data = Some (hdr @ [0, 0] @ encaps @ payload),
             skb_len = ucast mac_pkt_len, skb_heap = True\<rparr> s1
         })"

text \<open>
  The packet is in the packet buffer, whose data is not heap memory. The result is the status
  passed to the \<open>sent\<close> callback.
\<close>

definition ieee80211_drv_tx :: "packetbuf \<Rightarrow> 'a wlan_scheme \<Rightarrow> (bool \<times> 'a wlan_scheme) option" where
  "ieee80211_drv_tx p s =
     (if \<not> ibss_joined s then Some (False, s)
      else let (ok, s1) = smalloc s in
        if \<not> ok then Some (False, s1)
        else ieee80211_start_xmit
          \<lparr>skb_data = Some (drop (packetbuf_dataptr p) (pb_mem p)), skb_len = ucast (packetbuf_datalen p),
           skb_heap = False\<rparr>
          (packetbuf_addr 25 p) (packetbuf_addr 25 p) False s1)"

section \<open>Handing a frame to the USB pipe\<close>

text \<open>
  \<open>tx_list\<close> is the chain of chunks; the empty chain is the root node with a null buffer. A chunk is
  submitted only when the chain is empty. The bulk endpoint is available.
\<close>

definition ar9170_usb_send_data :: "u8 list \<Rightarrow> 'a wlan_scheme \<Rightarrow> bool \<times> 'a wlan_scheme" where
  "ar9170_usb_send_data data s =
     (let (ok, s1) = (case usb_runs s of [] \<Rightarrow> (True, s) | b # bs \<Rightarrow> (b, s\<lparr>usb_runs := bs\<rparr>))
      in if ok then (True, s1\<lparr>usb_out := usb_out s1 @ [data]\<rparr>) else (False, s1))"

definition ar9170_write_data :: "u8 list \<Rightarrow> 'a wlan_scheme \<Rightarrow> bool \<times> 'a wlan_scheme" where
  "ar9170_write_data data s =
     (if length data > BULK_ENDPOINT_MAX_OUT_SIZE then (False, s)
      else if tx_list s = [] then
        let s1 = s\<lparr>tx_list := [data], tx_async_lock := True\<rparr>;
            (result, s2) = ar9170_usb_send_data data s1
        in if \<not> result then (False, s2\<lparr>tx_async_lock := False\<rparr>) else (True, s2)
      else
        let (ok, s1) = smalloc s
        in if \<not> ok then (False, s1) else (True, s1\<lparr>tx_list := tx_list s1 @ [data]\<rparr>))"

text \<open>\<open>status_ok\<close> is \<open>status == UHD_TRANS_NOERROR\<close>.\<close>

definition ar9170_bulk_out_transfer_done :: "bool \<Rightarrow> 'a wlan_scheme \<Rightarrow> 'a wlan_scheme" where
  "ar9170_bulk_out_transfer_done status_ok s =
     (let s1 = s\<lparr>tx_async_lock := False\<rparr>
      in if status_ok then s1\<lparr>tx_list := tl (tx_list s1)\<rparr> else s1)"

definition ar9170_tx_drop :: "'a wlan_scheme \<Rightarrow> 'a wlan_scheme" where
  "ar9170_tx_drop s = s\<lparr>tx_dropped := tx_dropped s + 1\<rparr>"

text \<open>The firmware has no transmission stream (\<open>fw.tx_stream\<close>).\<close>

definition ar9170_usb_tx :: "sk_buff \<Rightarrow> 'a wlan_scheme \<Rightarrow> (sk_buff \<times> 'a wlan_scheme) option" where
  "ar9170_usb_tx skb s =
     (let (ok, s1) = smalloc s in
      if \<not> ok then Some (skb, s1)
      else if \<not> is_started s1 then map_option (\<lambda>k. (k, ar9170_tx_drop s1)) (skb_free_data skb)
      else if skb_data skb = None then Some (skb, s1)
      else do {
        data \<leftarrow> skb_bytes 0 (unat (skb_len skb)) skb;
        if unat (skb_len skb) > BULK_ENDPOINT_MAX_OUT_SIZE
        then map_option (\<lambda>k. (k, ar9170_tx_drop s1)) (skb_free_data skb)
        else Some (skb, snd (ar9170_write_data data s1))
      })"

definition ar9170_tx :: "sk_buff \<Rightarrow> 'a wlan_scheme \<Rightarrow> (sk_buff \<times> 'a wlan_scheme) option" where
  "ar9170_tx skb s = (if \<not> is_started s then Some (skb, s) else ar9170_usb_tx skb s)"

definition le32_bytes :: "u32 \<Rightarrow> u8 list" where
  "le32_bytes w = [ucast w, ucast (drop_bit 8 w), ucast (drop_bit 16 w), ucast (drop_bit 24 w)]"

text \<open>The super frame: its descriptor, the hardware descriptor and the MAC frame.\<close>

definition ar9170_superframe :: "u8 \<Rightarrow> u32 \<Rightarrow> u8 list \<Rightarrow> u8 list" where
  "ar9170_superframe vif tot mac =
     (let len = (of_nat (length mac) :: u16);
          fc = le16_of (read_at 0 2 mac);
          misc = (1 AND 0x3) OR (push_bit 3 vif AND 0x38) OR 0x4 OR (if ieee80211_is_probe_resp fc then 0x40 else 0);
          mac_tmp = (0x0200 OR 0x0008) OR (push_bit 10 1 AND 0x0c00)
            OR (if ether_addr_equal eth_broadcast (read_at 4 6 mac) then 0x0004 else 0)
      in le16_bytes (ucast tot) @ [0, 0, 0x01, 0, misc, 0]
         @ [1 AND 0x7, 0, 0, 0] @ replicate 12 0
         @ le16_bytes (len + of_nat FCS_LEN) @ le16_bytes mac_tmp
         @ le32_bytes (if length mac < 75 then 0x002ec001 else 0x0002c400) @ mac)"

text \<open>
  What the code does with \<open>txrate\<close> and \<open>info\<close>: the store of the count, the reads of
  \<open>ar9170_tx_physet\<close>, which looks up the rate in a table of twelve entries unless the flag for MCS rates
  is set (its result is overwritten), and the two calls of \<open>free\<close>. Nothing is known of the words of a
  call that \<open>stack_words\<close> does not reach.
\<close>

definition physet_reads :: "tx_rate \<Rightarrow> tx_info \<Rightarrow> bool" where
  "physet_reads r i =
     (if rate_flags r AND 0x08 \<noteq> 0 then True
      else let idx = (scast (rate_idx r) :: u32) in (if info_band i = 0 then idx else idx + 4) < 12)"

definition stray_pointers :: "'a wlan_scheme \<Rightarrow> 'a wlan_scheme option" where
  "stray_pointers s = (case stack_words s of
       (Spare r, Spare i) # ws \<Rightarrow> if physet_reads (r\<lparr>rate_count := 1\<rparr>) i then Some (s\<lparr>stack_words := ws\<rparr>) else None
     | _ \<Rightarrow> None)"

definition pointers_harmless :: "'a wlan_scheme \<Rightarrow> bool" where
  "pointers_harmless s = (case stack_words s of (Spare r, Spare i) # ws \<Rightarrow> physet_reads r i | _ \<Rightarrow> False)"

lemma stray_pointers_eq:
  "stray_pointers s = (if pointers_harmless s then Some (s\<lparr>stack_words := tl (stack_words s)\<rparr>) else None)"
  by (simp add: stray_pointers_def pointers_harmless_def physet_reads_def split: list.split prod.split stack_ptr.split)

text \<open>
  Whether it failed, and the socket buffer. The read of the receiver address needs ten bytes of
  the frame.
\<close>

definition ar9170_tx_prepare :: "sk_buff \<Rightarrow> 'a wlan_scheme \<Rightarrow> (bool \<times> sk_buff \<times> 'a wlan_scheme) option" where
  "ar9170_tx_prepare skb s =
     (let len = (ucast (skb_len skb) :: u16); (ok, s1) = smalloc s in
      if \<not> ok then Some (True, skb, s1)
      else do {
        mac \<leftarrow> skb_bytes 0 (unat len) skb;
        freed \<leftarrow> skb_free_data skb;
        let tot = skb_len skb + of_nat SUPERFRAME_LEN;
        if unat len < 10 then None
        else do {
          s2 \<leftarrow> stray_pointers s1;
          Some (False, \<lparr>skb_data = Some (ar9170_superframe (vif_id s1) tot mac),
               skb_len = tot, skb_heap = True\<rparr>, s2)
        }
      })"

definition ar9170_op_tx :: "sk_buff \<Rightarrow> 'a wlan_scheme \<Rightarrow> (bool \<times> sk_buff \<times> 'a wlan_scheme) option" where
  "ar9170_op_tx skb s =
     (if \<not> is_started s then Some (False, skb, s)
      else do {
        (err, skb1, s1) \<leftarrow> ar9170_tx_prepare skb s;
        if err then Some (False, skb1, s1)
        else do {
          (skb2, s2) \<leftarrow> ar9170_tx skb1 s1;
          Some (True, skb2, s2)
        }
      })"

text \<open>In multi-hop power saving the third address becomes the BSSID before the frame leaves.\<close>

definition restore_a3 :: "sk_buff \<Rightarrow> 'a wlan_scheme \<Rightarrow> sk_buff option" where
  "restore_a3 skb s = do {
     a \<leftarrow> addr3 skb;
     if ether_addr_equal a (bssid s) then Some skb else skb_write 16 (take ETH_ALEN (bssid s)) skb
   }"

text \<open>The returned queue is the one the state then holds.\<close>

definition ar9170_async_tx :: "queue_id \<Rightarrow> 'a wlan_scheme \<Rightarrow> 'a wlan_scheme option" where
  "ar9170_async_tx i s =
     (if tx_async_lock s then Some s
      else do {
        next_skb \<leftarrow> pq_get (get_queue i s);
        skb \<leftarrow> next_skb;
        if ps_state s \<or> (psm_state s \<noteq> TX_WINDOW \<and> psm_state s \<noteq> ATIM_WINDOW) then Some s
        else do {
          skb1 \<leftarrow> (if ps_mode s = IBSS_MH_PSM \<and> i = DataQ then restore_a3 skb s else Some skb);
          (result, skb2, s1) \<leftarrow> ar9170_op_tx skb1 s;
          freed \<leftarrow> skb_free_data skb2;
          q \<leftarrow> pq_remove_first (get_queue i s1);
          Some (set_queue i q s1)
        }
      })"

section \<open>A concrete state\<close>

text \<open>
  A joined node in the transmission window, with allocated empty queues, whose uninitialised pointers
  happen to be harmless twice.
\<close>

definition spare_words :: "tx_rate stack_ptr \<times> tx_info stack_ptr" where
  "spare_words = (Spare \<lparr>rate_idx = 0, rate_count = 0, rate_flags = 0\<rparr>, Spare \<lparr>info_band = 0\<rparr>)"

definition wlan0 :: wlan where
  "wlan0 = \<lparr>ps_mode = IBSS_STD_PSM, vif_addr = [2, 0, 0, 0, 0, 1], bssid = [6, 5, 4, 3, 2, 1],
     use_short_preamble = False, band_5ghz = False, beacon_int = 100, atim_window = 20, conf_ps = True,
     ibss_joined = True, is_started = True, ibss_beacon_buf = None, tbtt_counter = 0, vif_id = 0, tx_dropped = 0,
     tx_packets_sent = 0, tx_pending_pkts = PQ [], tx_pending_atims = PQ [], rx_pending_pkts = PQ [],
     wake_neighbors = PQ [], mh_psm_addr_map = PQ [], psm_state = TX_WINDOW, ps_state = False,
     off_override = 0, update_mask = 0, create_atims_flag = False, send_soft_bcn_flag = False,
     psm_transit_to_sleep = False, psm_transit_to_wake = False, last_ATIM_DA = replicate 6 0,
     last_ATIM_A3 = replicate 6 0, erase_awake_nodes_flag = False, tx_data_wait = False, tx_atim_wait = False,
     tx_async_lock = False, cmd_async_lock = False, clear_tx_data_wait = False, clear_tx_async_lock = False,
     clear_cmd_async_lock = False, atim_wait_cleared_count = 0, tx_list = [], usb_out = [], usb_runs = [],
     mallocs = [], stack_words = [spare_words, spare_words]\<rparr>"

end
