(* ===== verification/WlanTx.thy ===== *)
theory WlanTx
  imports Wlan
begin

text \<open>
  The transmission path: what a queued packet looks like on the air, when a frame reaches the USB
  pipe and in which order, and what a failed submission does to the pipe.
\<close>

section \<open>Frame conditions\<close>

lemma smalloc_empty [simp]: "mallocs s = [] \<Longrightarrow> smalloc s = (True, s)"
  by (simp add: smalloc_def)

text \<open>The fields that the way from \<open>ar9170_op_tx\<close> to the pipe changes.\<close>

definition usb_erase :: "'a wlan_scheme \<Rightarrow> 'a wlan_scheme" where
  "usb_erase s = s\<lparr>mallocs := [], tx_list := [], tx_async_lock := False, usb_out := [], usb_runs := [],
     tx_dropped := 0, stack_words := []\<rparr>"

definition usb_part :: "'a wlan_scheme \<Rightarrow> 'a wlan_scheme \<Rightarrow> bool" where
  "usb_part s t \<longleftrightarrow> usb_erase s = usb_erase t"

lemma usb_part_refl [simp]: "usb_part s s"
  by (simp add: usb_part_def)

lemma usb_part_trans: "usb_part s t \<Longrightarrow> usb_part t u \<Longrightarrow> usb_part s u"
  by (simp add: usb_part_def)

lemma usb_part_fields:
  assumes "usb_part s t"
  shows "tx_pending_pkts t = tx_pending_pkts s" and "tx_pending_atims t = tx_pending_atims s"
    and "rx_pending_pkts t = rx_pending_pkts s" and "is_started t = is_started s"
    and "ps_state t = ps_state s" and "psm_state t = psm_state s" and "vif_id t = vif_id s"
proof -
  have e: "usb_erase s = usb_erase t" using assms by (simp add: usb_part_def)
  show "tx_pending_pkts t = tx_pending_pkts s" using arg_cong [OF e, of tx_pending_pkts] by (simp add: usb_erase_def)
  show "tx_pending_atims t = tx_pending_atims s" using arg_cong [OF e, of tx_pending_atims] by (simp add: usb_erase_def)
  show "rx_pending_pkts t = rx_pending_pkts s" using arg_cong [OF e, of rx_pending_pkts] by (simp add: usb_erase_def)
  show "is_started t = is_started s" using arg_cong [OF e, of is_started] by (simp add: usb_erase_def)
  show "ps_state t = ps_state s" using arg_cong [OF e, of ps_state] by (simp add: usb_erase_def)
  show "psm_state t = psm_state s" using arg_cong [OF e, of psm_state] by (simp add: usb_erase_def)
  show "vif_id t = vif_id s" using arg_cong [OF e, of vif_id] by (simp add: usb_erase_def)
qed

lemma usb_part_get_queue: "usb_part s t \<Longrightarrow> get_queue i t = get_queue i s"
  by (simp add: get_queue_def usb_part_fields split: queue_id.split)

text \<open>A step that touches neither the pipe nor the chain.\<close>

definition usb_quiet :: "'a wlan_scheme \<Rightarrow> 'a wlan_scheme \<Rightarrow> bool" where
  "usb_quiet s t \<longleftrightarrow> usb_out t = usb_out s \<and> tx_list t = tx_list s \<and> tx_async_lock t = tx_async_lock s \<and>
     usb_runs t = usb_runs s"

lemma usb_quiet_refl [simp]: "usb_quiet s s"
  by (simp add: usb_quiet_def)

lemma smalloc_usb: "smalloc s = (b, t) \<Longrightarrow> usb_part s t \<and> usb_quiet s t"
  by (cases "mallocs s") (auto simp: smalloc_def usb_part_def usb_erase_def usb_quiet_def)

lemma skb_free_data_Some: "skb_free_data k = Some k' \<Longrightarrow> k' = k\<lparr>skb_data := None\<rparr>"
  by (simp add: skb_free_data_def split: if_splits)

lemma stray_pointers_usb: "stray_pointers s = Some t \<Longrightarrow> usb_part s t \<and> usb_quiet s t"
  by (auto simp: stray_pointers_eq usb_part_def usb_erase_def usb_quiet_def split: if_splits)

lemma tx_prepare_usb:
  assumes "ar9170_tx_prepare skb s = Some (r, k, t)"
  shows "usb_part s t \<and> usb_quiet s t"
proof -
  obtain ok s1 where m: "smalloc s = (ok, s1)" by force
  have "t = s1 \<or> stray_pointers s1 = Some t" using assms m
    by (cases ok) (auto simp: ar9170_tx_prepare_def Let_def bind_eq_Some_conv split: if_splits)
  then show ?thesis using smalloc_usb [OF m] stray_pointers_usb [of s1 t] usb_part_trans [of s s1 t]
    by (auto simp: usb_quiet_def)
qed

text \<open>
  A write either hands exactly its chunk to the pipe, when the chain was empty and the pipe took
  it, or leaves the pipe alone.
\<close>

lemma write_data_usb:
  assumes w: "ar9170_write_data d s = (r, t)"
  shows "usb_part s t \<and>
    (usb_out t = usb_out s \<or>
     usb_out t = usb_out s @ [d] \<and> tx_list s = [] \<and> tx_async_lock t \<and> tx_list t = [d] \<and>
     length d \<le> BULK_ENDPOINT_MAX_OUT_SIZE) \<and>
    (tx_list s \<noteq> [] \<longrightarrow> usb_out t = usb_out s \<and> tx_list t \<noteq> [] \<and> tx_async_lock t = tx_async_lock s)"
proof (cases "length d > BULK_ENDPOINT_MAX_OUT_SIZE")
  case True then show ?thesis using w by (auto simp: ar9170_write_data_def)
next
  case len: False
  show ?thesis
  proof (cases "tx_list s = []")
    case True
    then show ?thesis using w len
      by (cases "usb_runs s")
        (auto simp: ar9170_write_data_def ar9170_usb_send_data_def Let_def usb_part_def usb_erase_def split: if_splits)
  next
    case False
    obtain ok s1 where m: "smalloc s = (ok, s1)" by force
    from smalloc_usb [OF m] have q: "usb_part s s1" "usb_quiet s s1" by simp_all
    then have "usb_part s (s1\<lparr>tx_list := tx_list s1 @ [d]\<rparr>)" by (simp add: usb_part_def usb_erase_def)
    then show ?thesis using w len False m q
      by (auto simp: ar9170_write_data_def usb_quiet_def split: if_splits)
  qed
qed

lemma usb_tx_usb:
  assumes "ar9170_usb_tx skb s = Some (k, t)"
  shows "usb_part s t \<and>
    (usb_out t = usb_out s \<or>
     (\<exists>d. usb_out t = usb_out s @ [d] \<and> skb_bytes 0 (unat (skb_len skb)) skb = Some d \<and> tx_list s = [] \<and>
       is_started s \<and> tx_async_lock t \<and> tx_list t = [d] \<and> length d \<le> BULK_ENDPOINT_MAX_OUT_SIZE)) \<and>
    (tx_list s \<noteq> [] \<longrightarrow> usb_out t = usb_out s \<and> tx_list t \<noteq> [] \<and> tx_async_lock t = tx_async_lock s)"
proof -
  obtain ok s1 where m: "smalloc s = (ok, s1)" by force
  note q = smalloc_usb [OF m]
  have drop: "usb_part s (ar9170_tx_drop s1) \<and> usb_quiet s (ar9170_tx_drop s1)"
    using q by (simp add: ar9170_tx_drop_def usb_part_def usb_erase_def usb_quiet_def)
  have cs: "t = s1 \<or> t = ar9170_tx_drop s1 \<or>
      (\<exists>d. skb_bytes 0 (unat (skb_len skb)) skb = Some d \<and> is_started s1 \<and> t = snd (ar9170_write_data d s1))"
    using assms m by (auto simp: ar9170_usb_tx_def bind_eq_Some_conv split: if_splits)
  then consider "t = s1 \<or> t = ar9170_tx_drop s1"
    | d where "skb_bytes 0 (unat (skb_len skb)) skb = Some d" "is_started s1" "t = snd (ar9170_write_data d s1)"
    by blast
  then show ?thesis
  proof cases
    case 1 then show ?thesis using q drop by (auto simp: usb_quiet_def)
  next
    case (2 d)
    have w: "ar9170_write_data d s1 = (fst (ar9170_write_data d s1), t)" using 2(3) by simp
    show ?thesis using write_data_usb [OF w] q 2(1,2) usb_part_trans usb_part_fields(4) [of s s1]
      by (auto simp: usb_quiet_def)
  qed
qed

lemma op_tx_usb:
  assumes "ar9170_op_tx skb s = Some (r, k, t)"
  shows "usb_part s t \<and>
    (usb_out t = usb_out s \<or>
     (\<exists>d. usb_out t = usb_out s @ [d] \<and> tx_list s = [] \<and> is_started s \<and> tx_async_lock t \<and> tx_list t = [d] \<and>
       length d \<le> BULK_ENDPOINT_MAX_OUT_SIZE)) \<and>
    (tx_list s \<noteq> [] \<longrightarrow> usb_out t = usb_out s \<and> tx_list t \<noteq> [] \<and> tx_async_lock t = tx_async_lock s)"
proof (cases "is_started s")
  case False then show ?thesis using assms by (auto simp: ar9170_op_tx_def)
next
  case True
  then obtain err k1 s1 where p: "ar9170_tx_prepare skb s = Some (err, k1, s1)"
    and rest: "(if err then Some (False, k1, s1) else do {(k2, s2) \<leftarrow> ar9170_tx k1 s1; Some (True, k2, s2)}) = Some (r, k, t)"
    using assms by (auto simp: ar9170_op_tx_def bind_eq_Some_conv)
  note q = tx_prepare_usb [OF p]
  show ?thesis
  proof (cases err)
    case True then show ?thesis using rest q by (auto simp: usb_quiet_def)
  next
    case False
    have st: "is_started s1" using q usb_part_fields(4) [of s s1] True by simp
    then have "ar9170_usb_tx k1 s1 = Some (k, t)"
      using rest False by (auto simp: ar9170_tx_def bind_eq_Some_conv)
    from usb_tx_usb [OF this] q st True show ?thesis
      by (auto simp: usb_quiet_def intro: usb_part_trans)
  qed
qed


lemma set_queue_usb [simp]: "usb_quiet s (set_queue i q t) = usb_quiet s t"
  by (simp add: usb_quiet_def set_queue_def split: queue_id.split)

lemma set_queue_usb2 [simp]: "usb_quiet (set_queue i q s) t = usb_quiet s t"
  by (simp add: usb_quiet_def set_queue_def split: queue_id.split)

lemma get_set_queue [simp]: "get_queue i (set_queue i q s) = q"
  by (simp add: get_queue_def set_queue_def split: queue_id.split)

lemma usb_quiet_trans: "usb_quiet s t \<Longrightarrow> usb_quiet t u \<Longrightarrow> usb_quiet s u"
  by (simp add: usb_quiet_def)

lemma async_tx_cases:
  assumes "ar9170_async_tx i s = Some t"
  obtains (locked) "tx_async_lock s" "t = s"
  | (closed) "\<not> tx_async_lock s" "t = s" "ps_state s \<or> (psm_state s \<noteq> TX_WINDOW \<and> psm_state s \<noteq> ATIM_WINDOW)"
  | (sent) skb rest skb1 r k s1 where "\<not> tx_async_lock s" "\<not> ps_state s"
      "psm_state s = TX_WINDOW \<or> psm_state s = ATIM_WINDOW" "get_queue i s = PQ (skb # rest)"
      "(if ps_mode s = IBSS_MH_PSM \<and> i = DataQ then restore_a3 skb s else Some skb) = Some skb1"
      "ar9170_op_tx skb1 s = Some (r, k, s1)" "t = set_queue i (PQ rest) s1"
proof (cases "tx_async_lock s")
  case True
  then have "t = s" using assms by (simp add: ar9170_async_tx_def)
  then show thesis using True locked by blast
next
  case l: False
  show thesis
  proof (cases "ps_state s \<or> (psm_state s \<noteq> TX_WINDOW \<and> psm_state s \<noteq> ATIM_WINDOW)")
    case True
    have "do {next_skb \<leftarrow> pq_get (get_queue i s); skb \<leftarrow> next_skb; Some s} = Some t"
      using assms unfolding ar9170_async_tx_def if_not_P [OF l] if_P [OF True] .
    then have "t = s" by (auto simp: bind_eq_Some_conv)
    then show thesis using l True closed by blast
  next
    case False
    define K where "K skb = (if ps_mode s = IBSS_MH_PSM \<and> i = DataQ then restore_a3 skb s else Some skb)" for skb
    have "do {
        next_skb \<leftarrow> pq_get (get_queue i s);
        skb \<leftarrow> next_skb;
        skb1 \<leftarrow> K skb;
        (result, skb2, s1) \<leftarrow> ar9170_op_tx skb1 s;
        freed \<leftarrow> skb_free_data skb2;
        q \<leftarrow> pq_remove_first (get_queue i s1);
        Some (set_queue i q s1)} = Some t"
      using assms unfolding ar9170_async_tx_def if_not_P [OF l] if_not_P [OF False] K_def .
    then obtain skb skb1 r k s1 q where a: "pq_get (get_queue i s) = Some (Some skb)" "K skb = Some skb1"
      "ar9170_op_tx skb1 s = Some (r, k, s1)" "pq_remove_first (get_queue i s1) = Some q" "t = set_queue i q s1"
      by (auto simp: bind_eq_Some_conv)
    obtain rest where g: "get_queue i s = PQ (skb # rest)"
      using a(1) by (auto simp: pq_get_def split: pq.splits list.splits)
    have "q = PQ rest"
      using a(4) g usb_part_get_queue [of s s1 i] op_tx_usb [OF a(3)] by (simp add: pq_remove_first_def)
    then show thesis using sent [OF l _ _ g a(2) [unfolded K_def] a(3)] a(5) False by blast
  qed
qed

section \<open>When a frame reaches the pipe\<close>

text \<open>
  The transmitter hands at most one chunk to the USB pipe per run, and only when no transfer is
  outstanding, the radio is awake, the driver is in the ATIM or the transmission window, the device
  is started and no chunk waits on the chain; the chunk fits the bulk endpoint, stems from the head
  of the queue, which leaves the queue, and blocks further runs until the transfer is done.
\<close>

theorem async_tx_gate:
  assumes "ar9170_async_tx i s = Some t"
  shows "usb_out t = usb_out s \<or>
    (\<exists>skb rest chunk. \<not> tx_async_lock s \<and> \<not> ps_state s \<and> psm_state s \<in> {TX_WINDOW, ATIM_WINDOW} \<and>
      is_started s \<and> tx_list s = [] \<and> get_queue i s = PQ (skb # rest) \<and> get_queue i t = PQ rest \<and>
      usb_out t = usb_out s @ [chunk] \<and> length chunk \<le> BULK_ENDPOINT_MAX_OUT_SIZE \<and> tx_async_lock t)"
  using assms
proof (cases rule: async_tx_cases)
  case (sent skb rest skb1 r k s1)
  have "usb_quiet s1 t" using sent(7) by simp
  then show ?thesis using op_tx_usb [OF sent(6)] sent by (auto simp: usb_quiet_def)
qed simp_all

section \<open>A failed submission\<close>

lemma add_pending_usb:
  assumes "ar9170_op_add_pending_pkt i skb s = Some (r, t)"
  shows "usb_quiet s t"
proof -
  have qi: "usb_quiet u (snd (queue_init u :: 'b pq \<times> _))" for u :: "'a wlan_scheme"
    using smalloc_usb [of u] by (auto simp: queue_init_def split: prod.splits)
  have qa: "usb_quiet u u'" if "queue_add_tail x mx q u = Some (b, q', u')"
    for u u' :: "'a wlan_scheme" and x :: sk_buff and mx q b q'
    using that smalloc_usb [of u] by (auto simp: queue_add_tail_def split: pq.splits if_splits prod.splits)
  have qb: "usb_quiet s b" if "queue_add_tail x mx q (set_queue i q s1) = Some (r, a, b)" "usb_quiet s s1"
    for b s1 :: "'a wlan_scheme" and x :: sk_buff and mx q r a
    using qa [OF that(1)] that(2) by (auto intro: usb_quiet_trans)
  define q s1 where "q = fst (if get_queue i s = PQNull then queue_init s else (get_queue i s, s))"
    and "s1 = snd (if get_queue i s = PQNull then queue_init s else (get_queue i s, s))"
  have e: "(if get_queue i s = PQNull then queue_init s else (get_queue i s, s)) = (q, s1)"
    by (simp add: q_def s1_def)
  have s1: "usb_quiet s s1" using qi [of s] by (auto simp: s1_def)
  show ?thesis using assms s1
    by (auto simp: ar9170_op_add_pending_pkt_def e Let_def bind_eq_Some_conv split: if_splits option.splits
        intro: qb)
qed

datatype tx_event = TxQueue queue_id sk_buff | TxRun queue_id

fun tx_event_step :: "wlan \<Rightarrow> tx_event \<Rightarrow> wlan option" where
  "tx_event_step s (TxQueue i skb) = map_option snd (ar9170_op_add_pending_pkt i (Some skb) s)"
| "tx_event_step s (TxRun i) = ar9170_async_tx i s"

definition usb_jammed :: "'a wlan_scheme \<Rightarrow> bool" where
  "usb_jammed s \<longleftrightarrow> tx_list s \<noteq> [] \<and> \<not> tx_async_lock s"

lemma usb_jammed_step:
  assumes "tx_event_step s e = Some t" and "usb_jammed s"
  shows "usb_jammed t \<and> usb_out t = usb_out s"
proof (cases e)
  case (TxQueue i skb)
  then obtain r where "ar9170_op_add_pending_pkt i (Some skb) s = Some (r, t)" using assms(1) by auto
  from add_pending_usb [OF this] show ?thesis using assms(2) by (simp add: usb_quiet_def usb_jammed_def)
next
  case (TxRun i)
  then have "ar9170_async_tx i s = Some t" using assms(1) by simp
  then show ?thesis
  proof (cases rule: async_tx_cases)
    case (sent skb rest skb1 r k s1)
    have "usb_quiet s1 t" using sent(7) by simp
    then show ?thesis using op_tx_usb [OF sent(6)] assms(2) by (auto simp: usb_quiet_def usb_jammed_def)
  qed (use assms(2) in simp_all)
qed

lemma usb_jammed_run:
  "run_ops tx_event_step s es = Some t \<Longrightarrow> usb_jammed s \<Longrightarrow> usb_jammed t \<and> usb_out t = usb_out s"
proof (induction es arbitrary: s)
  case Nil then show ?case by simp
next
  case (Cons e es)
  then obtain u where "tx_event_step s e = Some u" "run_ops tx_event_step u es = Some t"
    by (auto simp: bind_eq_Some_conv)
  with usb_jammed_step [OF this(1) Cons.prems(2)] Cons.IH show ?case by auto
qed

text \<open>
  C32. A submission that the USB stack refuses, or a transfer that ends with an error, jams the
  pipe for good: the chunk stays at the head of the chain while the transmission lock is released,
  so whatever is queued and however often the transmitter runs, no further frame reaches the pipe,
  although every run takes a packet off its queue.
\<close>

theorem usb_out_jams:
  assumes "run_ops tx_event_step t es = Some u" and "length d \<le> BULK_ENDPOINT_MAX_OUT_SIZE"
    and "t = snd (ar9170_write_data d s) \<and> tx_list s = [] \<and> usb_runs s = False # rs \<or>
      t = ar9170_bulk_out_transfer_done False s \<and> tx_list s = [d]"
  shows "usb_out u = usb_out s \<and>
    (\<forall>skb rest v. get_queue DataQ u = PQ (skb # rest) \<and> \<not> ps_state u \<and> psm_state u = TX_WINDOW \<and>
      ar9170_async_tx DataQ u = Some v \<longrightarrow> get_queue DataQ v = PQ rest \<and> usb_out v = usb_out s)"
proof -
  have j: "usb_jammed t \<and> usb_out t = usb_out s"
    using assms(2,3)
    by (auto simp: usb_jammed_def ar9170_write_data_def ar9170_usb_send_data_def ar9170_bulk_out_transfer_done_def Let_def)
  then have u: "usb_jammed u" "usb_out u = usb_out s" using usb_jammed_run [OF assms(1)] by auto
  have "get_queue DataQ v = PQ rest \<and> usb_out v = usb_out s"
    if h: "get_queue DataQ u = PQ (skb # rest)" "\<not> ps_state u" "psm_state u = TX_WINDOW" "ar9170_async_tx DataQ u = Some v"
    for skb rest v
  proof -
    have "usb_out v = usb_out s"
      using usb_jammed_step [of u "TxRun DataQ" v] h(4) u by simp
    moreover have "get_queue DataQ v = PQ rest"
      using h(4)
    proof (cases rule: async_tx_cases)
      case locked then show ?thesis using u(1) by (simp add: usb_jammed_def)
    next
      case closed then show ?thesis using h(2,3) by simp
    next
      case (sent skb' rest' skb1 r k s1)
      then show ?thesis using h(1) by simp
    qed
    ultimately show ?thesis by blast
  qed
  then show ?thesis using u(2) by blast
qed


section \<open>The data frame\<close>

lemma length_le16_bytes [simp]: "length (le16_bytes w) = 2"
  by (simp add: le16_bytes_def)

lemma le16_of_le16_bytes: "le16_of (le16_bytes w @ r) = w" for w :: u16 and r :: "u8 list"
  by (rule bit_word_eqI)
    (auto simp: le16_of_def le16_bytes_def bit_simps nth_append)

lemma length_hdr_3addr [simp]:
  "length a1 \<ge> 6 \<Longrightarrow> length a2 \<ge> 6 \<Longrightarrow> length a3 \<ge> 6 \<Longrightarrow> length (hdr_3addr fc dur a1 a2 a3 seq) = 24"
  by (simp add: hdr_3addr_def ETH_ALEN_def)

lemma hdr_3addr_at:
  assumes "length a1 \<ge> 6" "length a2 \<ge> 6" "length a3 \<ge> 6"
  shows "write_at 2 (le16_bytes dur) (hdr_3addr fc x a1 a2 a3 seq @ r) = hdr_3addr fc dur a1 a2 a3 seq @ r"
    "read_at 0 2 (hdr_3addr fc x a1 a2 a3 y @ r) = le16_bytes fc"
    "read_at 4 6 (hdr_3addr fc x a1 a2 a3 y @ r) = take 6 a1"
    "read_at 10 6 (hdr_3addr fc x a1 a2 a3 y @ r) = take 6 a2"
    "read_at 16 6 (hdr_3addr fc x a1 a2 a3 y @ r) = take 6 a3"
    "read_at 22 2 (hdr_3addr fc x a1 a2 a3 y @ r) = le16_bytes y"
    "length b \<ge> 6 \<Longrightarrow> write_at 16 (take 6 b) (hdr_3addr fc x a1 a2 a3 y @ r) = hdr_3addr fc x a1 a2 b y @ r"
  using assms by (simp_all add: write_at_def read_at_def hdr_3addr_def ETH_ALEN_def)

definition tx_duration :: "'a wlan_scheme \<Rightarrow> u16" where
  "tx_duration s = (if use_short_preamble s then 0
     else of_nat (ieee80211_frame_duration (band_5ghz s) 10 10 False (use_short_preamble s)))"

definition data_frame :: "ether \<Rightarrow> ether \<Rightarrow> ether \<Rightarrow> u16 \<Rightarrow> u16 \<Rightarrow> u8 list \<Rightarrow> u8 list" where
  "data_frame a1 a2 a3 dur seq payload = hdr_3addr 0x0088 dur a1 a2 a3 seq @
     [0, 0] @ [0xaa, 0xaa, 0x03, 0x00, 0x00, 0x00] @ payload"

lemma duration_data:
  assumes "length a1 \<ge> 6" "length a2 \<ge> 6" "length a3 \<ge> 6"
  shows "ieee80211_duration \<lparr>skb_data = Some (data_frame a1 a2 a3 dur seq p), skb_len = l, skb_heap = h\<rparr>
    (use_short_preamble s) s = Some (tx_duration s)"
proof -
  have fc: "frame_control \<lparr>skb_data = Some (data_frame a1 a2 a3 dur seq p), skb_len = l, skb_heap = h\<rparr> = Some 0x88"
    using assms le16_of_le16_bytes [of "0x88" "[]"] by (simp add: frame_control_def skb_bytes_def data_frame_def hdr_3addr_at)
  have qos: "skb_bytes 24 1 \<lparr>skb_data = Some (data_frame a1 a2 a3 dur seq p), skb_len = l, skb_heap = h\<rparr> = Some [0]"
    using assms by (simp add: skb_bytes_def data_frame_def read_at_def)
  show ?thesis
    using qos by (simp add: ieee80211_duration_def fc frame_type_defs ieee80211_get_qos_ctl_def tx_duration_def)
qed

lemma ieee80211_tx_data:
  assumes "length a1 \<ge> 6" "length a2 \<ge> 6" "length a3 \<ge> 6"
  shows "ieee80211_tx \<lparr>skb_data = Some (data_frame a1 a2 a3 0 0 p), skb_len = l, skb_heap = h\<rparr> s =
    ieee80211_tx_queue \<lparr>skb_data = Some (data_frame a1 a2 a3 (tx_duration s) (tx_packets_sent s + 0x10) p),
      skb_len = l, skb_heap = h\<rparr> (s\<lparr>tx_packets_sent := tx_packets_sent s + 0x10\<rparr>)"
proof -
  have 1: "skb_write 22 (le16_bytes q) \<lparr>skb_data = Some (data_frame a1 a2 a3 0 0 p), skb_len = l, skb_heap = h\<rparr> =
      Some \<lparr>skb_data = Some (data_frame a1 a2 a3 0 q p), skb_len = l, skb_heap = h\<rparr>" for q
    using assms by (simp add: skb_write_def data_frame_def write_at_def hdr_3addr_def ETH_ALEN_def)
  have 2: "skb_write 2 (le16_bytes q) \<lparr>skb_data = Some (data_frame a1 a2 a3 0 r p), skb_len = l, skb_heap = h\<rparr> =
      Some \<lparr>skb_data = Some (data_frame a1 a2 a3 q r p), skb_len = l, skb_heap = h\<rparr>" for q r
    using assms by (simp add: skb_write_def data_frame_def hdr_3addr_at)
  have d: "tx_duration (s\<lparr>tx_packets_sent := q\<rparr>) = tx_duration s" for q by (simp add: tx_duration_def)
  have 3: "ieee80211_duration \<lparr>skb_data = Some (data_frame a1 a2 a3 0 r p), skb_len = l, skb_heap = h\<rparr>
     (use_short_preamble s) (s\<lparr>tx_packets_sent := q\<rparr>) = Some (tx_duration s)" for q r
    using duration_data [OF assms, of 0 r p l h "s\<lparr>tx_packets_sent := q\<rparr>"] by (simp add: d)
  show ?thesis by (simp add: ieee80211_tx_def Let_def 1 2 3)
qed

lemma unat_ucast_u16: "unat (ucast (w :: u16) :: u32) = unat w"
  using unat_lt_2p [of w] by (simp add: unsigned_ucast_eq take_bit_nat_eq_self)

lemma ucast_of_nat_u16: "n < 65536 \<Longrightarrow> ucast (of_nat n :: u16) = (of_nat n :: u32)"
  by (simp add: word_unat_eq_iff unat_ucast_u16 unat_of_nat_u16 unat_of_nat_u32)

lemma ucast_u16_u32_u16: "ucast (ucast (w :: u16) :: u32) = w"
  by (rule bit_word_eqI) (auto simp: bit_simps dest: bit_imp_le_length)

lemma tx_queue_ok:
  assumes "tx_pending_pkts s = PQ q" "mallocs s = []" "skb_data skb \<noteq> None" "skb_len skb \<noteq> 0" "length q < 16"
  shows "ieee80211_tx_queue skb s = Some (True, s\<lparr>tx_pending_pkts := PQ (q @ [skb])\<rparr>)"
  using assms by (auto simp: ieee80211_tx_queue_def ar9170_op_add_pending_pkt_def get_queue_def set_queue_def
      queue_add_tail_def pq_add_tail_def wlan_consts Let_def)

lemma tx_queue_full:
  assumes "tx_pending_pkts s = PQ q" "mallocs s = []" "skb_data skb \<noteq> None" "skb_len skb \<noteq> 0" "length q \<ge> 16" "skb_heap skb"
  shows "ieee80211_tx_queue skb s = Some (False, s)"
proof -
  have "q \<noteq> []" using assms(5) by auto
  then show ?thesis
    using assms by (auto simp: ieee80211_tx_queue_def ar9170_op_add_pending_pkt_def get_queue_def set_queue_def
      queue_add_tail_def pq_add_tail_def wlan_consts Let_def skb_free_data_def)
qed

lemma drv_tx_ok:
  assumes wf: "pb_wf p" "packetbufptr p = Own" and len: "length (packetbuf_addr 25 p) \<ge> 6" "length (vif_addr s) \<ge> 6" "length (bssid s) \<ge> 6"
    and j: "ibss_joined s" and q: "tx_pending_pkts s = PQ q" and m: "mallocs s = []"
  shows "ieee80211_drv_tx p s =
      (let rcv = packetbuf_addr 25 p; seq = tx_packets_sent s + 0x10;
           a3 = (if ps_mode s = IBSS_MH_PSM then rcv else bssid s);
           frame = data_frame rcv (vif_addr s) a3 (tx_duration s) seq (pb_payload ext p);
           skb = \<lparr>skb_data = Some frame, skb_len = of_nat (length frame), skb_heap = True\<rparr>
       in if length q < 16
          then Some (True, s\<lparr>tx_packets_sent := seq, tx_pending_pkts := PQ (q @ [skb])\<rparr>)
          else Some (False, s\<lparr>tx_packets_sent := seq\<rparr>))"
proof -
  define pay where "pay = pb_payload ext p"
  have pl: "length pay = unat (buflen p)" "unat (buflen p) \<le> 512"
    using wf(1) by (simp_all add: pay_def pb_wf_def packetbuf_consts)
  define skb where "skb = \<lparr>skb_data = Some (drop (packetbuf_dataptr p) (pb_mem p)), skb_len = ucast (packetbuf_datalen p),
           skb_heap = False\<rparr>"
  define rcv where "rcv = packetbuf_addr 25 p"
  define a3 where "a3 = (if ps_mode s = IBSS_MH_PSM then rcv else bssid s)"
  have l3: "length rcv \<ge> 6" "length (vif_addr s) \<ge> 6" "length a3 \<ge> 6" using len by (simp_all add: a3_def rcv_def)
  have ul: "unat (skb_len skb) = unat (buflen p)" by (simp add: unat_ucast_u16 skb_def packetbuf_datalen_def)
  have room: "unat (buflen p) \<le> length (pb_mem p) - packetbuf_dataptr p"
    using wf(1) unfolding pb_wf_def packetbuf_dataptr_def by linarith
  have rd: "skb_bytes 0 (unat (skb_len skb)) skb = Some pay"
    using wf(2) room unfolding ul by (simp add: pay_def pb_payload_def packetbufptr_bytes_def read_at_def packetbuf_dataptr_def
        skb_bytes_def skb_def add.commute)
  have small: "\<not> unat (skb_len skb) + 32 \<ge> 2 ^ 32" using pl(2) by (simp add: ul)
  have n: "buflen p = of_nat (length pay)" by (simp add: pl(1))
  have u2: "ucast (ucast (skb_len skb) + of_nat ENCAPS_LEN + 26 :: u16) = (of_nat (32 + length pay) :: u32)"
    using pl ucast_of_nat_u16 [of "32 + length pay"]
    by (simp add: skb_def packetbuf_datalen_def n ucast_u16_u32_u16 ENCAPS_LEN_def add.commute)
  have df: "hdr_3addr (0x0008 OR 0x0000 OR 0x0080) 0 rcv (vif_addr s) a3 0 @ [0, 0] @ [0xaa, 0xaa, 0x03, 0x00, 0x00, 0x00] @ pay =
      data_frame rcv (vif_addr s) a3 0 0 pay"
    by (simp add: data_frame_def)
  have drv: "ieee80211_drv_tx p s = (let (ok, s1) = smalloc s in if \<not> ok then Some (False, s1)
      else ieee80211_start_xmit skb rcv rcv False s1)"
    unfolding ieee80211_drv_tx_def skb_def rcv_def using j by simp
  have xmit: "ieee80211_start_xmit skb rcv rcv False s =
      ieee80211_tx_queue \<lparr>skb_data = Some (data_frame rcv (vif_addr s) a3 (tx_duration s) (tx_packets_sent s + 0x10) pay),
      skb_len = of_nat (32 + length pay), skb_heap = True\<rparr> (s\<lparr>tx_packets_sent := tx_packets_sent s + 0x10\<rparr>)"
    unfolding ieee80211_start_xmit_def Let_def smalloc_empty [OF m] prod.case rd u2
      a3_def [symmetric] df ieee80211_tx_data [OF l3, symmetric]
    using small by (simp add: data_frame_def)
  have lf: "length (data_frame rcv (vif_addr s) a3 (tx_duration s) (tx_packets_sent s + 0x10) pay) = 32 + length pay"
    using l3 by (simp add: data_frame_def)
  have 0: "(of_nat (32 + length pay) :: u32) \<noteq> 0"
    using pl unat_of_nat_u32 [of "32 + length pay"] by (intro notI) simp
  have 1: "ieee80211_drv_tx p s =
      (let seq = tx_packets_sent s + 0x10; frame = data_frame rcv (vif_addr s) a3 (tx_duration s) seq pay;
           skb = \<lparr>skb_data = Some frame, skb_len = of_nat (length frame), skb_heap = True\<rparr>
       in if length q < 16 then Some (True, s\<lparr>tx_packets_sent := seq, tx_pending_pkts := PQ (q @ [skb])\<rparr>)
          else Some (False, s\<lparr>tx_packets_sent := seq\<rparr>))"
    unfolding drv smalloc_empty [OF m] prod.case Let_def lf
    using m q 0 xmit tx_queue_ok [of "s\<lparr>tx_packets_sent := tx_packets_sent s + 0x10\<rparr>" q]
      tx_queue_full [of "s\<lparr>tx_packets_sent := tx_packets_sent s + 0x10\<rparr>" q]
    by simp
  show ?thesis using 1 by (simp add: Let_def rcv_def a3_def pay_def)
qed

text \<open>
  C21. Sending the packet of the packet buffer appends to the data queue one frame with the receiver's
  address, the node's own address, the BSSID or, in multi-hop power saving, the receiver again, the
  next sequence number, a zero QoS field, the encapsulation bytes and exactly the payload, and
  reports success; when sixteen packets wait, the packet is dropped and failure reported. Without
  an IBSS or without memory for the socket buffer nothing changes but the pending allocations; with
  memory for the socket buffer and none for the frame, the packet buffer itself is passed to
  \<open>free\<close>.
\<close>

theorem drv_tx_frame:
  assumes wf: "pb_wf p" "packetbufptr p = Own" and len: "length (packetbuf_addr 25 p) \<ge> 6" "length (vif_addr s) \<ge> 6" "length (bssid s) \<ge> 6"
    and j: "ibss_joined s" and q: "tx_pending_pkts s = PQ q"
  shows "(mallocs s = [] \<longrightarrow> ieee80211_drv_tx p s =
      (let rcv = packetbuf_addr 25 p; seq = tx_packets_sent s + 0x10;
           a3 = (if ps_mode s = IBSS_MH_PSM then rcv else bssid s);
           frame = data_frame rcv (vif_addr s) a3 (tx_duration s) seq (pb_payload ext p);
           skb = \<lparr>skb_data = Some frame, skb_len = of_nat (length frame), skb_heap = True\<rparr>
       in if length q < 16
          then Some (True, s\<lparr>tx_packets_sent := seq, tx_pending_pkts := PQ (q @ [skb])\<rparr>)
          else Some (False, s\<lparr>tx_packets_sent := seq\<rparr>))) \<and>
    (mallocs s = False # ms \<longrightarrow> ieee80211_drv_tx p s = Some (False, s\<lparr>mallocs := ms\<rparr>)) \<and>
    (mallocs s = True # False # ms \<longrightarrow> ieee80211_drv_tx p s = None)"
proof -
  have 1: "mallocs s = [] \<longrightarrow> ieee80211_drv_tx p s =
      (let rcv = packetbuf_addr 25 p; seq = tx_packets_sent s + 0x10;
           a3 = (if ps_mode s = IBSS_MH_PSM then rcv else bssid s);
           frame = data_frame rcv (vif_addr s) a3 (tx_duration s) seq (pb_payload ext p);
           skb = \<lparr>skb_data = Some frame, skb_len = of_nat (length frame), skb_heap = True\<rparr>
       in if length q < 16
          then Some (True, s\<lparr>tx_packets_sent := seq, tx_pending_pkts := PQ (q @ [skb])\<rparr>)
          else Some (False, s\<lparr>tx_packets_sent := seq\<rparr>))"
    using drv_tx_ok [OF wf len j q] by blast
  have 2: "mallocs s = False # ms \<longrightarrow> ieee80211_drv_tx p s = Some (False, s\<lparr>mallocs := ms\<rparr>)"
    using j by (simp add: ieee80211_drv_tx_def smalloc_def)
  have 3: "mallocs s = True # False # ms \<longrightarrow> ieee80211_drv_tx p s = None"
    using j by (simp add: ieee80211_drv_tx_def smalloc_def ieee80211_start_xmit_def skb_free_data_def)
  show ?thesis using 1 2 3 by blast
qed


section \<open>The super frame\<close>

lemma skb_bytes_all: "skb_data k = Some d \<Longrightarrow> n = length d \<Longrightarrow> skb_bytes 0 n k = Some d"
  by (simp add: skb_bytes_def read_at_def)

lemma length_superframe [simp]: "length (ar9170_superframe v n d) = 32 + length d"
  by (simp add: ar9170_superframe_def Let_def le32_bytes_def)

lemma drop_superframe [simp]: "drop 32 (ar9170_superframe v n d) = d"
  by (simp add: ar9170_superframe_def Let_def le32_bytes_def)

lemma superframe_fields:
  "le16_of (read_at 0 2 (ar9170_superframe v n d)) = ucast n"
  "le16_of (read_at 24 2 (ar9170_superframe v n d)) = of_nat (length d) + 4"
  "(le16_of (read_at 26 2 (ar9170_superframe v n d)) AND 4 \<noteq> 0) = (read_at 4 6 d = eth_broadcast)"
  using le16_of_le16_bytes [of _ "[]"]
  by (simp_all add: ar9170_superframe_def Let_def read_at_def FCS_LEN_def ether_addr_equal_def)

lemma tx_prepare_eq:
  assumes k: "k = \<lparr>skb_data = Some d, skb_len = of_nat (length d), skb_heap = True\<rparr>"
    and d: "10 \<le> length d" "length d + 32 \<le> 1024" and m: "mallocs s = []"
  shows "ar9170_tx_prepare k s = map_option (\<lambda>t. (False, \<lparr>skb_data =
    Some (ar9170_superframe (vif_id s) (of_nat (length d + 32)) d), skb_len = of_nat (length d + 32), skb_heap = True\<rparr>, t))
    (stray_pointers s)"
proof -
  have b: "length d < 65536" using d by simp
  have u: "unat (ucast (of_nat (length d) :: u32) :: u16) = length d"
    by (simp add: ucast_of_nat_u16 [OF b, symmetric] ucast_u16_u32_u16 unat_of_nat_u16 [OF b])
  show ?thesis
    using d(1) m
    by (simp add: ar9170_tx_prepare_def k u skb_bytes_all skb_free_data_def SUPERFRAME_LEN_def Let_def
        map_option_case split: option.split)
qed

lemma op_tx_superframe:
  assumes k: "k = \<lparr>skb_data = Some d, skb_len = of_nat (length d), skb_heap = True\<rparr>"
    and d: "10 \<le> length d" "length d + 32 \<le> 1024"
    and s: "is_started s" "tx_list s = []" "usb_runs s = []" "mallocs s = []"
    and h: "pointers_harmless s"
    and c: "c = ar9170_superframe (vif_id s) (of_nat (length d + 32)) d"
  shows "ar9170_op_tx k s = Some (True, \<lparr>skb_data = Some c, skb_len = of_nat (length d + 32), skb_heap = True\<rparr>,
    s\<lparr>tx_list := [c], tx_async_lock := True, usb_out := usb_out s @ [c], stack_words := tl (stack_words s)\<rparr>)"
proof -
  define s1 where "s1 = s\<lparr>stack_words := tl (stack_words s)\<rparr>"
  have s1: "is_started s1" "tx_list s1 = []" "usb_runs s1 = []" "mallocs s1 = []" "usb_out s1 = usb_out s"
    using s by (simp_all add: s1_def)
  have b: "length d < 65536" "length d + 32 < 4294967296" using d by simp_all
  have u2: "unat (of_nat (length d + 32) :: u32) = length d + 32" by (rule unat_of_nat_u32 [OF b(2)])
  have lc: "length c = length d + 32" by (simp add: c)
  have prep: "ar9170_tx_prepare k s = Some (False, \<lparr>skb_data = Some c, skb_len = of_nat (length d + 32), skb_heap = True\<rparr>, s1)"
    by (simp add: tx_prepare_eq [OF k d s(4)] stray_pointers_eq h c s1_def)
  have "skb_bytes 0 (unat (of_nat (length d + 32) :: u32))
      \<lparr>skb_data = Some c, skb_len = of_nat (length d + 32), skb_heap = True\<rparr> = Some c"
    by (rule skb_bytes_all) (simp_all only: lc u2 sk_buff.select_convs)
  then have "ar9170_tx \<lparr>skb_data = Some c, skb_len = of_nat (length d + 32), skb_heap = True\<rparr> s1 =
      Some (\<lparr>skb_data = Some c, skb_len = of_nat (length d + 32), skb_heap = True\<rparr>,
        s1\<lparr>tx_list := [c], tx_async_lock := True, usb_out := usb_out s @ [c]\<rparr>)"
    using s1 d(2) lc u2
    by (simp add: ar9170_tx_def ar9170_usb_tx_def ar9170_write_data_def ar9170_usb_send_data_def
        BULK_ENDPOINT_MAX_OUT_SIZE_def Let_def)
  then show ?thesis by (simp add: ar9170_op_tx_def s prep s1_def)
qed

lemma op_tx_stray:
  assumes "10 \<le> length d" "length d + 32 \<le> 1024" "is_started s" "mallocs s = []" "\<not> pointers_harmless s"
  shows "ar9170_op_tx \<lparr>skb_data = Some d, skb_len = of_nat (length d), skb_heap = True\<rparr> s = None"
  using assms by (simp add: ar9170_op_tx_def tx_prepare_eq stray_pointers_eq)

lemma write_read_same: "k + n \<le> length d \<Longrightarrow> write_at k (read_at k n d) d = d"
proof -
  assume "k + n \<le> length d"
  moreover have "take n (drop k d) @ drop (k + n) d = drop k d"
    using append_take_drop_id [of n "drop k d"] by (simp add: add.commute)
  ultimately show ?thesis by (simp add: write_at_def read_at_def)
qed

lemma restore_a3_at:
  assumes "k = \<lparr>skb_data = Some d, skb_len = n, skb_heap = h\<rparr>" "24 \<le> length d" "length (bssid s) = 6"
  shows "restore_a3 k s = Some \<lparr>skb_data = Some (write_at 16 (bssid s) d), skb_len = n, skb_heap = h\<rparr>"
proof -
  have "write_at 16 (read_at 16 6 d) d = d"
    using assms(2) by (simp add: write_read_same)
  then show ?thesis
    using assms by (auto simp: restore_a3_def addr3_def skb_bytes_def skb_write_def ether_addr_equal_def ETH_ALEN_def)
qed

text \<open>What a queued frame becomes on its way to the pipe.\<close>

definition tx_chunk :: "queue_id \<Rightarrow> 'a wlan_scheme \<Rightarrow> u8 list \<Rightarrow> u8 list" where
  "tx_chunk i s d = ar9170_superframe (vif_id s) (of_nat (length d + 32))
     (if ps_mode s = IBSS_MH_PSM \<and> i = DataQ then write_at 16 (bssid s) d else d)"

lemma async_tx_head:
  assumes q: "get_queue i s = PQ (\<lparr>skb_data = Some d, skb_len = of_nat (length d), skb_heap = True\<rparr> # rest)"
    and d: "24 \<le> length d" and b: "length (bssid s) = 6"
    and w: "\<not> tx_async_lock s" "\<not> ps_state s" "psm_state s = TX_WINDOW \<or> psm_state s = ATIM_WINDOW"
    and d': "d' = (if ps_mode s = IBSS_MH_PSM \<and> i = DataQ then write_at 16 (bssid s) d else d)"
  shows "ar9170_async_tx i s = do {
      (result, skb2, s1) \<leftarrow> ar9170_op_tx \<lparr>skb_data = Some d', skb_len = of_nat (length d'), skb_heap = True\<rparr> s;
      freed \<leftarrow> skb_free_data skb2;
      q \<leftarrow> pq_remove_first (get_queue i s1);
      Some (set_queue i q s1)
    }"
proof -
  define k where "k = \<lparr>skb_data = Some d, skb_len = of_nat (length d), skb_heap = True\<rparr>"
  have l: "length d' = length d" using d b by (simp add: d')
  have "(if ps_mode s = IBSS_MH_PSM \<and> i = DataQ then restore_a3 k s else Some k) =
      Some \<lparr>skb_data = Some d', skb_len = of_nat (length d'), skb_heap = True\<rparr>"
    using restore_a3_at [OF k_def d b] l by (simp add: d' k_def)
  then show ?thesis using w q by (auto simp: ar9170_async_tx_def pq_get_def k_def [symmetric])
qed

lemma async_tx_sends:
  assumes q: "get_queue i s = PQ (\<lparr>skb_data = Some d, skb_len = of_nat (length d), skb_heap = True\<rparr> # rest)"
    and d: "24 \<le> length d" "length d + 32 \<le> 1024" and b: "length (bssid s) = 6"
    and w: "\<not> tx_async_lock s" "\<not> ps_state s" "psm_state s = TX_WINDOW \<or> psm_state s = ATIM_WINDOW"
    and s: "is_started s" "tx_list s = []" "usb_runs s = []" "mallocs s = []" and h: "pointers_harmless s"
  shows "ar9170_async_tx i s = Some (set_queue i (PQ rest)
    (s\<lparr>tx_list := [tx_chunk i s d], tx_async_lock := True, usb_out := usb_out s @ [tx_chunk i s d],
       stack_words := tl (stack_words s)\<rparr>))"
proof -
  define d' where "d' = (if ps_mode s = IBSS_MH_PSM \<and> i = DataQ then write_at 16 (bssid s) d else d)"
  define c where "c = tx_chunk i s d"
  have c_eq: "c = ar9170_superframe (vif_id s) (of_nat (length d + 32)) d'" by (simp add: c_def tx_chunk_def d'_def)
  have l: "length d' = length d" using d(1) b by (simp add: d'_def)
  have "ar9170_op_tx \<lparr>skb_data = Some d', skb_len = of_nat (length d'), skb_heap = True\<rparr> s =
      Some (True, \<lparr>skb_data = Some c, skb_len = of_nat (length d' + 32), skb_heap = True\<rparr>,
        s\<lparr>tx_list := [c], tx_async_lock := True, usb_out := usb_out s @ [c], stack_words := tl (stack_words s)\<rparr>)"
    by (rule op_tx_superframe) (use d s l h in \<open>simp_all add: c_eq\<close>)
  moreover have "get_queue i (s\<lparr>tx_list := [c], tx_async_lock := True, usb_out := usb_out s @ [c],
      stack_words := tl (stack_words s)\<rparr>) = get_queue i s"
    by (simp add: get_queue_def split: queue_id.split)
  ultimately show ?thesis
    using q by (simp add: async_tx_head [OF q d(1) b w d'_def] pq_remove_first_def skb_free_data_def c_def)
qed

lemma async_tx_stray:
  assumes q: "get_queue i s = PQ (\<lparr>skb_data = Some d, skb_len = of_nat (length d), skb_heap = True\<rparr> # rest)"
    and d: "24 \<le> length d" "length d + 32 \<le> 1024" and b: "length (bssid s) = 6"
    and w: "\<not> tx_async_lock s" "\<not> ps_state s" "psm_state s = TX_WINDOW \<or> psm_state s = ATIM_WINDOW"
    and s: "is_started s" "mallocs s = []" "\<not> pointers_harmless s"
  shows "ar9170_async_tx i s = None"
proof -
  define d' where "d' = (if ps_mode s = IBSS_MH_PSM \<and> i = DataQ then write_at 16 (bssid s) d else d)"
  have l: "length d' = length d" using d(1) b by (simp add: d'_def)
  then show ?thesis unfolding async_tx_head [OF q d(1) b w d'_def] using op_tx_stray [of d' s] d s by simp
qed

text \<open>
  C22. When the transmitter is idle and may send, and what the code does through its two uninitialised
  pointers is harmless, a run takes the head of the queue and hands the pipe
  one super frame: a descriptor of 32 bytes followed by exactly the queued frame, whose third
  address has become the BSSID when it is a data frame in multi-hop power saving. The descriptor
  holds the total length, the length of the frame with its checksum, and asks for no
  acknowledgement just for broadcast frames. The pipe is then busy until the transfer is done. When
  one of the pointers does not happen to hold the address of a spare block, or the block the first one
  refers to holds a rate outside of the table, the run is undefined behaviour.
\<close>

theorem async_tx_superframe:
  assumes q: "get_queue i s = PQ (\<lparr>skb_data = Some d, skb_len = of_nat (length d), skb_heap = True\<rparr> # rest)"
    and d: "24 \<le> length d" "length d + 32 \<le> 1024" and b: "length (bssid s) = 6"
    and w: "\<not> tx_async_lock s" "\<not> ps_state s" "psm_state s = TX_WINDOW \<or> psm_state s = ATIM_WINDOW"
    and s: "is_started s" "tx_list s = []" "usb_runs s = []" "mallocs s = []"
  shows "(pointers_harmless s \<longrightarrow> (\<exists>c. ar9170_async_tx i s =
        Some (set_queue i (PQ rest) (s\<lparr>tx_list := [c], tx_async_lock := True, usb_out := usb_out s @ [c],
          stack_words := tl (stack_words s)\<rparr>)) \<and>
      length c = length d + 32 \<and>
      drop 32 c = (if ps_mode s = IBSS_MH_PSM \<and> i = DataQ then write_at 16 (bssid s) d else d) \<and>
      le16_of (read_at 0 2 c) = of_nat (length d + 32) \<and>
      le16_of (read_at 24 2 c) = of_nat (length d + 4) \<and>
      (le16_of (read_at 26 2 c) AND 4 \<noteq> 0) = (read_at 4 6 d = eth_broadcast))) \<and>
    (\<not> pointers_harmless s \<longrightarrow> ar9170_async_tx i s = None)"
proof (intro conjI impI)
  define d' where "d' = (if ps_mode s = IBSS_MH_PSM \<and> i = DataQ then write_at 16 (bssid s) d else d)"
  have l: "length d' = length d" using d(1) b by (simp add: d'_def)
  have r: "read_at 4 6 d' = read_at 4 6 d"
    using d(1) by (simp add: d'_def read_write_before)
  have "ucast (of_nat (length d + 32) :: u32) = (of_nat (length d + 32) :: u16)"
    using d(2) ucast_of_nat_u16 [of "length d + 32"] ucast_u16_u32_u16 [of "of_nat (length d + 32)"] by simp
  then show "\<exists>c. ar9170_async_tx i s =
        Some (set_queue i (PQ rest) (s\<lparr>tx_list := [c], tx_async_lock := True, usb_out := usb_out s @ [c],
          stack_words := tl (stack_words s)\<rparr>)) \<and>
      length c = length d + 32 \<and>
      drop 32 c = (if ps_mode s = IBSS_MH_PSM \<and> i = DataQ then write_at 16 (bssid s) d else d) \<and>
      le16_of (read_at 0 2 c) = of_nat (length d + 32) \<and>
      le16_of (read_at 24 2 c) = of_nat (length d + 4) \<and>
      (le16_of (read_at 26 2 c) AND 4 \<noteq> 0) = (read_at 4 6 d = eth_broadcast)" if "pointers_harmless s"
    using superframe_fields [of "vif_id s" "of_nat (length d + 32)" d'] r l
      async_tx_sends [OF q d b w s that]
    by (intro exI [of _ "tx_chunk i s d"]) (simp add: tx_chunk_def d'_def)
  show "ar9170_async_tx i s = None" if "\<not> pointers_harmless s"
    by (rule async_tx_stray [OF q d b w s(1,4) that])
qed

section \<open>Witnesses\<close>

definition frame1 :: "u8 list" where
  "frame1 = data_frame [2, 0, 0, 0, 0, 2] [2, 0, 0, 0, 0, 1] [6, 5, 4, 3, 2, 1] 314 16 [1, 2, 3]"

definition skb1 :: sk_buff where
  "skb1 = \<lparr>skb_data = Some frame1, skb_len = of_nat (length frame1), skb_heap = True\<rparr>"

definition wlan1 :: wlan where
  "wlan1 = wlan0\<lparr>tx_pending_pkts := PQ [skb1]\<rparr>"

lemma length_frame1 [simp]: "length frame1 = 35"
  by (simp add: frame1_def data_frame_def)

lemma pointers_harmless_wlan0: "stack_words s = [spare_words, spare_words] \<Longrightarrow> pointers_harmless s"
  by (simp add: pointers_harmless_def spare_words_def physet_reads_def)

theorem async_tx_superframe_witness:
  "(\<exists>c t. ar9170_async_tx DataQ wlan1 = Some t \<and> usb_out t = [c] \<and> drop 32 c = frame1) \<and>
   ar9170_async_tx DataQ (wlan1\<lparr>stack_words := [(Wild, Wild)]\<rparr>) = None"
proof -
  have 2: "\<not> pointers_harmless (wlan1\<lparr>stack_words := [(Wild, Wild)]\<rparr>)" by (simp add: pointers_harmless_def)
  have "ar9170_async_tx DataQ (wlan1\<lparr>stack_words := [(Wild, Wild)]\<rparr>) = None"
    by (rule async_tx_superframe [THEN conjunct2, THEN mp, OF _ _ _ _ _ _ _ _ _ _ _ 2, of DataQ frame1 "[]"])
      (simp_all add: wlan1_def wlan0_def get_queue_def skb1_def)
  moreover   have "\<exists>c. ar9170_async_tx DataQ wlan1 =
      Some (set_queue DataQ (PQ []) (wlan1\<lparr>tx_list := [c], tx_async_lock := True, usb_out := usb_out wlan1 @ [c],
        stack_words := tl (stack_words wlan1)\<rparr>)) \<and>
    length c = length frame1 + 32 \<and>
    drop 32 c = (if ps_mode wlan1 = IBSS_MH_PSM \<and> DataQ = DataQ then write_at 16 (bssid wlan1) frame1 else frame1) \<and>
    le16_of (read_at 0 2 c) = of_nat (length frame1 + 32) \<and>
    le16_of (read_at 24 2 c) = of_nat (length frame1 + 4) \<and>
    (le16_of (read_at 26 2 c) AND 4 \<noteq> 0) = (read_at 4 6 frame1 = eth_broadcast)"
    by (rule async_tx_superframe [THEN conjunct1, THEN mp])
      (simp_all add: wlan1_def wlan0_def get_queue_def skb1_def pointers_harmless_wlan0)
  ultimately show ?thesis by (auto simp: wlan1_def wlan0_def set_queue_def)
qed

lemma async_tx_wlan1: "ar9170_async_tx DataQ wlan1 = Some (set_queue DataQ (PQ [])
    (wlan1\<lparr>tx_list := [tx_chunk DataQ wlan1 frame1], tx_async_lock := True,
      usb_out := usb_out wlan1 @ [tx_chunk DataQ wlan1 frame1], stack_words := tl (stack_words wlan1)\<rparr>))"
  by (rule async_tx_sends) (simp_all add: wlan1_def wlan0_def get_queue_def skb1_def pointers_harmless_wlan0)

theorem async_tx_gate_witness:
  "\<exists>t. ar9170_async_tx DataQ wlan1 = Some t \<and> \<not> ps_state wlan1 \<and> get_queue DataQ t = PQ [] \<and> tx_async_lock t \<and>
     usb_out t \<noteq> []"
  using async_tx_gate [OF async_tx_wlan1] async_tx_wlan1
  by (auto simp: wlan1_def wlan0_def set_queue_def get_queue_def)

definition wlan_jam :: wlan where
  "wlan_jam = wlan1\<lparr>usb_runs := [False]\<rparr>"

lemma jam_run: "run_ops tx_event_step (snd (ar9170_write_data [7, 7] wlan_jam)) [TxQueue DataQ skb1, TxRun DataQ] \<noteq> None"
  by code_simp

lemma jam_start: "tx_list wlan_jam = []" "usb_runs wlan_jam = [False]" "usb_out wlan_jam = []"
  by (simp_all add: wlan_jam_def wlan1_def wlan0_def)

theorem usb_out_jams_witness:
  "\<exists>u. run_ops tx_event_step (snd (ar9170_write_data [7, 7] wlan_jam)) [TxQueue DataQ skb1, TxRun DataQ] = Some u \<and>
     usb_out u = []"
proof -
  obtain u where u: "run_ops tx_event_step (snd (ar9170_write_data [7, 7] wlan_jam)) [TxQueue DataQ skb1, TxRun DataQ] = Some u"
    using jam_run by blast
  have "usb_out u = usb_out wlan_jam"
    by (rule usb_out_jams [OF u, of "[7, 7]" wlan_jam "[]", THEN conjunct1])
      (simp add: BULK_ENDPOINT_MAX_OUT_SIZE_def, intro disjI1 conjI refl jam_start)
  then show ?thesis using u jam_start(3) by auto
qed

definition packetbuf1 :: packetbuf where
  "packetbuf1 = \<lparr>buflen = 3, bufptr = 0, hdrptr = 48, pb_mem = replicate 48 0 @ [1, 2, 3] @ replicate 509 0,
     packetbufptr = Own, packetbuf_attrs = replicate 24 0,
     packetbuf_addrs = [replicate 8 0, [2, 0, 0, 0, 0, 2, 0, 0], replicate 8 0, replicate 8 0]\<rparr>"

theorem drv_tx_frame_witness:
  "\<exists>t skb. ieee80211_drv_tx packetbuf1 wlan0 = Some (True, t) \<and> tx_pending_pkts t = PQ [skb] \<and>
     (\<exists>d. skb_data skb = Some d \<and> drop 32 d = [1, 2, 3])"
proof -
  have pay: "pb_payload (\<lambda>_. 0) packetbuf1 = [1, 2, 3]"
    by (simp add: pb_payload_def packetbufptr_bytes_def packetbuf1_def read_at_def packetbuf_consts)
  have 1: "pb_wf packetbuf1" "packetbufptr packetbuf1 = Own" "6 \<le> length (packetbuf_addr 25 packetbuf1)"
    by (simp_all add: pb_wf_def packetbuf1_def packetbuf_consts packetbuf_addr_def)
  have 2: "6 \<le> length (vif_addr wlan0)" "6 \<le> length (bssid wlan0)" "ibss_joined wlan0" "tx_pending_pkts wlan0 = PQ []"
    "mallocs wlan0 = []"
    by (simp_all add: wlan0_def)
  have l: "drop 32 (data_frame (packetbuf_addr 25 packetbuf1) (vif_addr wlan0) a3 d q p) = p" if "6 \<le> length a3" for a3 d q p
    using 1(3) 2(1) that by (simp add: data_frame_def)
  show ?thesis
    using drv_tx_frame [OF 1 2(1-4), of "\<lambda>_. 0" "[]"] 1(3) 2(2,5) pay l by (auto simp: Let_def)
qed

end
