(* ===== verification/PsmLists.thy ===== *)
theory PsmLists
  imports WlanTx
begin

text \<open>
  Power saving in the IBSS, the lists: the awake neighbours, the creation of ATIM frames for the
  receivers of pending packets and the choice of the next frame to send
  (\<open>core/net/mac/ieee80211_ibss/ieee80211_psm.c\<close>, \<open>ieee80211_mh_psm.c\<close>), and the two transmission
  handlers of \<open>ar9170_psm.c\<close> that use them. The address map of multi-hop power saving pairs an end
  address with a next hop.
\<close>

section \<open>Pending ATIM frames\<close>

fun atim_da_loop :: "ether \<Rightarrow> sk_buff list \<Rightarrow> bool option" where
  "atim_da_loop da [] = Some False"
| "atim_da_loop da (p # ps) =
     (if skb_data p = None then Some False
      else do { a \<leftarrow> addr1 p; if ether_addr_equal a da then Some True else atim_da_loop da ps })"

definition ieee80211_psm_atim_list_contains_DA :: "ether \<Rightarrow> 'a wlan_scheme \<Rightarrow> (bool \<times> 'a wlan_scheme) option" where
  "ieee80211_psm_atim_list_contains_DA da s = (case tx_pending_atims s of
     PQNull \<Rightarrow> let (q, s1) = queue_init s in Some (False, s1\<lparr>tx_pending_atims := q\<rparr>)
   | PQFreed \<Rightarrow> None
   | PQ ps \<Rightarrow> map_option (\<lambda>b. (b, s)) (atim_da_loop da ps))"

fun atim_a3_loop :: "ether \<Rightarrow> sk_buff list \<Rightarrow> bool option" where
  "atim_a3_loop a3 [] = Some False"
| "atim_a3_loop a3 (p # ps) = do {
     a \<leftarrow> addr3 p; if ether_addr_equal a a3 then Some True else atim_a3_loop a3 ps }"

definition ieee80211_mh_psm_atim_list_contains_A3 :: "ether \<Rightarrow> 'a wlan_scheme \<Rightarrow> (bool \<times> 'a wlan_scheme) option" where
  "ieee80211_mh_psm_atim_list_contains_A3 a3 s = (case tx_pending_atims s of
     PQNull \<Rightarrow> let (q, s1) = queue_init s in Some (False, s1\<lparr>tx_pending_atims := q\<rparr>)
   | PQFreed \<Rightarrow> None
   | PQ ps \<Rightarrow> map_option (\<lambda>b. (b, s)) (atim_a3_loop a3 ps))"

text \<open>The walks along the pending data packets: in multi-hop mode a packet without data is skipped.\<close>

fun create_atims_mh :: "sk_buff list \<Rightarrow> 'a wlan_scheme \<Rightarrow> 'a wlan_scheme option" where
  "create_atims_mh [] s = Some s"
| "create_atims_mh (p # ps) s =
     (if skb_data p = None then create_atims_mh ps s
      else do {
        a1 \<leftarrow> addr1 p;
        a3 \<leftarrow> addr3 p;
        (found, s1) \<leftarrow> ieee80211_mh_psm_atim_list_contains_A3 a3 s;
        s2 \<leftarrow> (if \<not> found then ieee80211_create_atim_pkt a1 (Some a3) s1 else Some s1);
        create_atims_mh ps s2
      })"

fun create_atims_std :: "sk_buff list \<Rightarrow> 'a wlan_scheme \<Rightarrow> 'a wlan_scheme option" where
  "create_atims_std [] s = Some s"
| "create_atims_std (p # ps) s = do {
     da \<leftarrow> addr1 p;
     (found, s1) \<leftarrow> ieee80211_psm_atim_list_contains_DA da s;
     s2 \<leftarrow> (if \<not> found then ieee80211_create_atim_pkt da None s1 else Some s1);
     create_atims_std ps s2
   }"

definition ieee80211_psm_create_atim_pkts :: "'a wlan_scheme \<Rightarrow> 'a wlan_scheme option" where
  "ieee80211_psm_create_atim_pkts s = (case tx_pending_pkts s of
     PQNull \<Rightarrow> let (q, s1) = queue_init s in Some (s1\<lparr>tx_pending_pkts := q\<rparr>)
   | PQFreed \<Rightarrow> None
   | PQ ps \<Rightarrow>
       if ps = [] then Some s
       else (case ps_mode s of IBSS_MH_PSM \<Rightarrow> create_atims_mh ps s
         | IBSS_STD_PSM \<Rightarrow> create_atims_std ps s
         | IBSS_NULL_PSM \<Rightarrow> Some s))"

section \<open>Awake neighbours\<close>

definition ieee80211_psm_add_awake_node :: "ether \<Rightarrow> 'a wlan_scheme \<Rightarrow> 'a wlan_scheme option" where
  "ieee80211_psm_add_awake_node sa s =
     (let (ok, s1) = smalloc s in
      if \<not> ok then Some s1
      else
        let (l, s2) = (if wake_neighbors s1 = PQNull then queue_init s1 else (wake_neighbors s1, s1));
            s3 = s2\<lparr>wake_neighbors := l\<rparr>
        in do {
          (added, l1, s4) \<leftarrow> queue_add_tail (take ETH_ALEN sa) AR9170_PSM_MAX_AWAKE_NODES_LIST_LEN l s3;
          Some (s4\<lparr>wake_neighbors := l1\<rparr>)
        })"

definition ieee80211_psm_erase_awake_neighbors :: "'a wlan_scheme \<Rightarrow> 'a wlan_scheme option" where
  "ieee80211_psm_erase_awake_neighbors s = do {
     e \<leftarrow> pq_is_empty (wake_neighbors s);
     if \<not> e then map_option (\<lambda>l. s\<lparr>wake_neighbors := l\<rparr>) (pq_erase_deep (wake_neighbors s)) else Some s
   }"

definition ieee80211_psm_is_remote_da_awake :: "ether \<Rightarrow> 'a wlan_scheme \<Rightarrow> bool option" where
  "ieee80211_psm_is_remote_da_awake da s =
     (if psm_state s = PRE_TBTT then Some False
      else (case wake_neighbors s of PQNull \<Rightarrow> Some False | PQFreed \<Rightarrow> None
        | PQ ns \<Rightarrow> Some (list_ex (\<lambda>n. ether_addr_equal n da) ns)))"

definition ieee80211_psm_is_DA_awake :: "sk_buff \<Rightarrow> 'a wlan_scheme \<Rightarrow> bool option" where
  "ieee80211_psm_is_DA_awake skb s =
     (if skb_data skb = None then Some False
      else do {
        da \<leftarrow> addr1 skb;
        awake \<leftarrow> ieee80211_psm_is_remote_da_awake da s;
        Some (awake \<and> psm_state s \<noteq> PRE_TBTT)
      })"

section \<open>The next frame to send\<close>

text \<open>The index of the first element that satisfies the test.\<close>

fun first_index :: "('b \<Rightarrow> bool option) \<Rightarrow> 'b list \<Rightarrow> nat option option" where
  "first_index P [] = Some None"
| "first_index P (x # xs) = do {
     b \<leftarrow> P x; if b then Some (Some 0) else map_option (map_option Suc) (first_index P xs) }"

text \<open>
  The returned queue, null for none, and the state. When frames in front are removed, the root that
  \<open>tx_pending_atims\<close> refers to is freed; when all receivers are awake the list is erased and
  \<open>tx_pending_atims\<close> is not updated.
\<close>

definition ieee80211_psm_can_send_first_atim :: "'a wlan_scheme \<Rightarrow> (sk_buff pq \<times> 'a wlan_scheme) option" where
  "ieee80211_psm_can_send_first_atim s = (case tx_pending_atims s of
     PQNull \<Rightarrow> Some (PQNull, s)
   | PQFreed \<Rightarrow> None
   | PQ ps \<Rightarrow>
       if ps = [] then Some (PQNull, s)
       else do {
         found \<leftarrow> first_index (\<lambda>p. map_option Not (ieee80211_psm_is_DA_awake p s)) ps;
         (case found of
            Some i \<Rightarrow>
              if list_ex (\<lambda>p. skb_data p \<noteq> None \<and> \<not> skb_heap p) (take i ps) then None
              else Some (PQ (drop i ps), if i = 0 then s else s\<lparr>tx_pending_atims := PQFreed\<rparr>)
          | None \<Rightarrow> do {
              freed \<leftarrow> skb_free_data (hd ps);
              q \<leftarrow> pq_erase (PQ ps);
              Some (PQNull, s\<lparr>tx_pending_atims := q\<rparr>)
            })
       })"

definition ieee80211_psm_can_send_first_pkt :: "'a wlan_scheme \<Rightarrow> (sk_buff pq \<times> 'a wlan_scheme) option" where
  "ieee80211_psm_can_send_first_pkt s = (case tx_pending_pkts s of
     PQNull \<Rightarrow> Some (PQNull, s)
   | PQFreed \<Rightarrow> None
   | PQ ps \<Rightarrow>
       if ps = [] then Some (PQNull, s)
       else do {
         found \<leftarrow> first_index (\<lambda>p. ieee80211_psm_is_DA_awake p s) ps;
         (case found of
            Some i \<Rightarrow>
              if i = 0 then Some (PQ ps, s)
              else let (ok, s1) = smalloc s in
                map_option (\<lambda>(r, q). (r, s1\<lparr>tx_pending_pkts := q\<rparr>)) (pq_move_to_front i ok (PQ ps))
          | None \<Rightarrow> Some (PQNull, s))
       })"

section \<open>The transmission handlers\<close>

definition ar9170_psm_async_tx_data :: "'a wlan_scheme \<Rightarrow> 'a wlan_scheme option" where
  "ar9170_psm_async_tx_data s =
     (if psm_state s = TX_WINDOW then
        if tx_data_wait s \<or> tx_atim_wait s then Some s
        else do {
          (queue, s1) \<leftarrow> ieee80211_psm_can_send_first_pkt s;
          if queue \<noteq> PQNull
          then ar9170_async_tx DataQ (s1\<lparr>tx_data_wait := True, tx_pending_pkts := queue\<rparr>)
          else Some s1
        }
      else Some s)"

definition ar9170_psm_async_tx_mgmt :: "'a wlan_scheme \<Rightarrow> 'a wlan_scheme option" where
  "ar9170_psm_async_tx_mgmt s = do {
     (queue, s1) \<leftarrow> ieee80211_psm_can_send_first_atim s;
     if queue \<noteq> PQNull then
       let s2 = s1\<lparr>tx_pending_atims := queue\<rparr> in
       if tx_data_wait s2 \<or> tx_atim_wait s2 then Some s2
       else do {
         first \<leftarrow> pq_get queue;
         atim \<leftarrow> first;
         da \<leftarrow> addr1 atim;
         a3 \<leftarrow> (if ps_mode s2 = IBSS_MH_PSM then addr3 atim else Some (last_ATIM_A3 s2));
         s3 \<leftarrow> ar9170_async_tx AtimQ (s2\<lparr>tx_atim_wait := True, last_ATIM_DA := da, last_ATIM_A3 := a3\<rparr>);
         Some (s3\<lparr>off_override := off_override s3 OR PS_OFF_ATIM\<rparr>)
       }
     else Some s1
   }"

section \<open>Multi-hop power saving\<close>

definition ieee80211_mh_psm_init_address_map :: "'a wlan_scheme \<Rightarrow> bool \<times> 'a wlan_scheme" where
  "ieee80211_mh_psm_init_address_map s =
     (if mh_psm_addr_map s \<noteq> PQNull then (True, s)
      else let (q, s1) = queue_init s in (False, s1\<lparr>mh_psm_addr_map := q\<rparr>))"

definition ieee80211_mh_psm_resolve_next_hop :: "ether \<Rightarrow> 'a wlan_scheme \<Rightarrow> ether option option" where
  "ieee80211_mh_psm_resolve_next_hop a s = (case mh_psm_addr_map s of
     PQNull \<Rightarrow> Some None
   | PQFreed \<Rightarrow> None
   | PQ ms \<Rightarrow> Some (map_option snd (find (\<lambda>m. ether_addr_equal (fst m) a) ms)))"

text \<open>The argument is the third address of the received frame.\<close>

definition ieee80211_mh_psm_handle_atim_packet :: "ether \<Rightarrow> 'a wlan_scheme \<Rightarrow> 'a wlan_scheme option" where
  "ieee80211_mh_psm_handle_atim_packet a3 s =
     (if ether_addr_equal a3 (bssid s) then Some s
      else if ether_addr_equal a3 (vif_addr s) then Some s
      else do {
        awake \<leftarrow> ieee80211_psm_is_remote_da_awake a3 s;
        if awake then Some s
        else do {
          (pending, s1) \<leftarrow> ieee80211_mh_psm_atim_list_contains_A3 a3 s;
          if pending then Some s1
          else do {
            hop \<leftarrow> ieee80211_mh_psm_resolve_next_hop a3 s1;
            (case hop of None \<Rightarrow> Some s1 | Some h \<Rightarrow> ieee80211_create_atim_pkt h (Some a3) s1)
          }
        }
      })"


section \<open>One ATIM frame for every receiver\<close>

definition atim_skb :: "ether \<Rightarrow> ether \<Rightarrow> u16 \<Rightarrow> 'a wlan_scheme \<Rightarrow> sk_buff" where
  "atim_skb da a3 seq s =
     \<lparr>skb_data = Some (hdr_3addr 0x0090 (tx_duration s) da (vif_addr s) a3 seq), skb_len = 24, skb_heap = True\<rparr>"

definition atim_a3 :: "ether option \<Rightarrow> 'a wlan_scheme \<Rightarrow> ether" where
  "atim_a3 a3 s = (if ps_mode s = IBSS_MH_PSM then (case a3 of None \<Rightarrow> replicate 6 0 | Some x \<Rightarrow> x) else bssid s)"

lemma create_atim_pkt_eq:
  assumes m: "mallocs s = []" and q: "tx_pending_atims s = PQ as" "length as < 16"
    and l: "length da \<ge> 6" "length (vif_addr s) \<ge> 6" "length (atim_a3 a3 s) \<ge> 6"
  shows "ieee80211_create_atim_pkt da a3 s = Some (s\<lparr>tx_packets_sent := tx_packets_sent s + 0x10,
    tx_pending_atims := PQ (as @ [atim_skb da (atim_a3 a3 s) (tx_packets_sent s + 0x10) s])\<rparr>)"
proof -
  define seq where "seq = tx_packets_sent s + 0x10"
  define a where "a = atim_a3 a3 s"
  define skb where "skb = \<lparr>skb_data = Some (hdr_3addr (0x0000 OR 0x0090) 0 da (vif_addr s) a seq), skb_len = 24, skb_heap = True\<rparr>"
  have la: "length a \<ge> 6" using l(3) by (simp add: a_def)
  have a: "(if ps_mode s = IBSS_MH_PSM then (case a3 of None \<Rightarrow> replicate ETH_ALEN 0 | Some x \<Rightarrow> x) else bssid s) = a"
    by (simp add: a_def atim_a3_def ETH_ALEN_def split: option.split)
  have fc: "frame_control skb = Some 0x90"
    using l la le16_of_le16_bytes [of "0x90" "[]"] hdr_3addr_at(2) [of da "vif_addr s" a "0x90" 0 seq "[]"]
    by (simp add: frame_control_def skb_bytes_def skb_def)
  have dur: "ieee80211_duration skb (use_short_preamble s) (s\<lparr>tx_packets_sent := seq\<rparr>) = Some (tx_duration s)"
    by (simp add: ieee80211_duration_def fc frame_type_defs tx_duration_def)
  have w: "skb_write 2 (le16_bytes (tx_duration s)) skb = Some (atim_skb da a seq s)"
    using l la hdr_3addr_at(1) [of da "vif_addr s" a "tx_duration s" "0x90" 0 seq "[]"]
    by (simp add: skb_write_def skb_def atim_skb_def)
  have add: "ieee80211_tx_atim_queue (atim_skb da a seq s) (s\<lparr>tx_packets_sent := seq\<rparr>) =
      Some (s\<lparr>tx_packets_sent := seq, tx_pending_atims := PQ (as @ [atim_skb da a seq s])\<rparr>)"
    using m q by (auto simp: ieee80211_tx_atim_queue_def ar9170_op_add_pending_pkt_def get_queue_def set_queue_def
        atim_skb_def queue_add_tail_def pq_add_tail_def wlan_consts Let_def)
  have "ieee80211_create_atim_pkt da a3 s = do {
          d \<leftarrow> ieee80211_duration skb (use_short_preamble s) (s\<lparr>tx_packets_sent := seq\<rparr>);
          skb1 \<leftarrow> skb_write 2 (le16_bytes d) skb;
          ieee80211_tx_atim_queue skb1 (s\<lparr>tx_packets_sent := seq\<rparr>)}"
    unfolding ieee80211_create_atim_pkt_def smalloc_empty [OF m] prod.case Let_def
    by (simp add: a skb_def seq_def)
  then have "ieee80211_create_atim_pkt da a3 s = Some (s\<lparr>tx_packets_sent := seq,
      tx_pending_atims := PQ (as @ [atim_skb da a seq s])\<rparr>)"
    by (simp add: dur w add)
  then show ?thesis by (simp add: a_def seq_def)
qed

lemma atim_skb_addr:
  assumes "length da = 6" "length (vif_addr s) \<ge> 6" "length a3 = 6"
  shows "addr1 (atim_skb da a3 seq s) = Some da" "addr3 (atim_skb da a3 seq s) = Some a3"
    "skb_data (atim_skb da a3 seq s) \<noteq> None"
  using assms hdr_3addr_at(3,5) [of da "vif_addr s" a3 "0x90" "tx_duration s" seq "[]"]
  by (simp_all add: addr1_def addr3_def skb_bytes_def atim_skb_def)

lemma atim_da_loop_eq:
  assumes "\<forall>p \<in> set ps. skb_data p \<noteq> None \<and> addr1 p = Some (f p)"
  shows "atim_da_loop da ps = Some (da \<in> f ` set ps)"
  using assms by (induction ps) (auto simp: ether_addr_equal_def)

lemma atim_a3_loop_eq:
  assumes "\<forall>p \<in> set ps. addr3 p = Some (f p)"
  shows "atim_a3_loop da ps = Some (da \<in> f ` set ps)"
  using assms by (induction ps) (auto simp: ether_addr_equal_def)

text \<open>The address a pending packet is announced by, and that of an ATIM frame.\<close>

definition dest :: "'a wlan_scheme \<Rightarrow> sk_buff \<Rightarrow> ether" where
  "dest s p = the (if ps_mode s = IBSS_MH_PSM then addr3 p else addr1 p)"

definition frame_ok :: "sk_buff \<Rightarrow> bool" where
  "frame_ok p \<longleftrightarrow> (case skb_data p of None \<Rightarrow> False | Some d \<Rightarrow> 24 \<le> length d)"

lemma frame_ok_addrs:
  assumes "frame_ok p"
  shows "\<exists>a. addr1 p = Some a \<and> length a = 6" "\<exists>a. addr3 p = Some a \<and> length a = 6" "skb_data p \<noteq> None"
  using assms by (auto simp: frame_ok_def addr1_def addr3_def skb_bytes_def split: option.splits)


definition atim_part :: "'a wlan_scheme \<Rightarrow> 'a wlan_scheme \<Rightarrow> bool" where
  "atim_part s t \<longleftrightarrow> (\<exists>n q. t = s\<lparr>tx_packets_sent := n, tx_pending_atims := q\<rparr>)"

lemma atim_part_self: "atim_part s s"
  unfolding atim_part_def by (intro exI [of _ "tx_packets_sent s"] exI [of _ "tx_pending_atims s"]) simp

lemma atim_partI: "atim_part s (s\<lparr>tx_packets_sent := n, tx_pending_atims := q\<rparr>)"
  unfolding atim_part_def by blast

lemma atim_part_trans: "atim_part s t \<Longrightarrow> atim_part t u \<Longrightarrow> atim_part s u"
  unfolding atim_part_def by fastforce

lemma atim_part_fields:
  "atim_part s t \<Longrightarrow> mallocs t = mallocs s \<and> ps_mode t = ps_mode s \<and> vif_addr t = vif_addr s \<and>
    bssid t = bssid s \<and> tx_pending_pkts t = tx_pending_pkts s \<and> dest t = dest s"
  unfolding atim_part_def by (auto simp: dest_def)

text \<open>What a walk along the pending packets achieves, for any walk whose step announces one packet.\<close>

definition own_atim :: "ether \<Rightarrow> sk_buff \<Rightarrow> bool" where
  "own_atim v p \<longleftrightarrow> frame_ok p \<and> skb_heap p \<and> frame_control p = Some 0x0090 \<and> addr2 p = Some v"

text \<open>The state with one more frame announced.\<close>

definition add_atim :: "sk_buff list \<Rightarrow> sk_buff list \<Rightarrow> 'a wlan_scheme \<Rightarrow> 'a wlan_scheme" where
  "add_atim as news s = s\<lparr>tx_packets_sent := tx_packets_sent s + 0x10 * of_nat (length news), tx_pending_atims := PQ (as @ news)\<rparr>"

lemma add_atim_Nil: "tx_pending_atims s = PQ as \<Longrightarrow> add_atim as [] s = s"
  by (simp add: add_atim_def)

lemma add_atim_Cons: "add_atim (as @ [k]) news (add_atim as [k] s) = add_atim as (k # news) s"
  by (simp add: add_atim_def algebra_simps)

lemma add_atim_part: "atim_part s (add_atim as news s)"
  by (simp add: add_atim_def atim_partI)

lemma add_atim_sel [simp]: "tx_pending_atims (add_atim as news s) = PQ (as @ news)"
  by (simp add: add_atim_def)

definition announced :: "'a wlan_scheme \<Rightarrow> sk_buff list \<Rightarrow> sk_buff list \<Rightarrow> 'a wlan_scheme \<Rightarrow> bool" where
  "announced s as ps t \<longleftrightarrow> (\<exists>news. t = add_atim as news s \<and>
     length news \<le> length ps \<and> (\<forall>p \<in> set news. own_atim (vif_addr s) p) \<and> distinct (map (dest s) news) \<and>
     dest s ` set news \<inter> dest s ` set as = {} \<and> dest s ` set (as @ news) = dest s ` set (as @ ps))"

lemma announce_walk:
  assumes nil: "\<And>u. C [] u = Some u"
    and step: "\<And>p ps u as. \<lbrakk>frame_ok p; \<forall>p \<in> set as. frame_ok p; atim_part s u; tx_pending_atims u = PQ as; length as < 16\<rbrakk> \<Longrightarrow>
      \<exists>k. C (p # ps) u = C ps (if dest s p \<in> dest s ` set as then u else add_atim as [k] u) \<and>
        own_atim (vif_addr s) k \<and> dest s k = dest s p"
    and pre: "\<forall>p \<in> set ps. frame_ok p" "\<forall>p \<in> set as. frame_ok p" "length as + length ps \<le> 16"
      "atim_part s u" "tx_pending_atims u = PQ as"
  shows "\<exists>t. C ps u = Some t \<and> announced u as ps t"
  using pre
proof (induction ps arbitrary: u as)
  case Nil then show ?case using nil by (auto simp: announced_def add_atim_Nil intro!: exI [of _ "[]"])
next
  case (Cons p ps)
  have du: "dest u = dest s" "vif_addr u = vif_addr s" using atim_part_fields [OF Cons.prems(4)] by simp_all
  obtain k where k: "C (p # ps) u = C ps (if dest s p \<in> dest s ` set as then u else add_atim as [k] u)"
    "own_atim (vif_addr s) k" "dest s k = dest s p"
    using step [of p as u ps] Cons.prems by auto
  show ?case
  proof (cases "dest s p \<in> dest s ` set as")
    case True
    then obtain t where t: "C ps u = Some t" "announced u as ps t" using Cons.IH [of as u] Cons.prems by auto
    obtain news where n: "t = add_atim as news u" "length news \<le> length ps" "\<forall>p \<in> set news. own_atim (vif_addr s) p"
      "distinct (map (dest s) news)" "dest s ` set news \<inter> dest s ` set as = {}"
      "dest s ` set (as @ news) = dest s ` set (as @ ps)" using t(2) unfolding announced_def du by blast
    have "dest s ` set (as @ news) = dest s ` set (as @ p # ps)" using n(6) True by auto
    then have "announced u as (p # ps) t"
      unfolding announced_def du using n(1-5) by (intro exI [of _ news]) simp
    then show ?thesis using k(1) t(1) True by auto
  next
    case False
    define v where "v = add_atim as [k] u"
    have uv: "atim_part u v" by (simp add: v_def add_atim_part)
    have "\<exists>t. C ps v = Some t \<and> announced v (as @ [k]) ps t"
      by (rule Cons.IH) (use Cons.prems k(2) atim_part_trans [OF Cons.prems(4) uv] in \<open>auto simp: v_def own_atim_def\<close>)
    then obtain t where t: "C ps v = Some t" "announced v (as @ [k]) ps t" by blast
    have dv: "dest v = dest s" "vif_addr v = vif_addr s" using atim_part_fields [OF uv] du by simp_all
    obtain news where n: "t = add_atim (as @ [k]) news v" "length news \<le> length ps" "\<forall>p \<in> set news. own_atim (vif_addr s) p"
      "distinct (map (dest s) news)" "dest s ` set news \<inter> dest s ` set (as @ [k]) = {}"
      "dest s ` set ((as @ [k]) @ news) = dest s ` set ((as @ [k]) @ ps)" using t(2) unfolding announced_def dv by blast
    have e: "t = add_atim as (k # news) u" using n(1) by (simp add: v_def add_atim_Cons)
    have "dest s ` set (as @ k # news) = dest s ` set (as @ p # ps)" using n(6) k(3) by auto
    moreover have "distinct (map (dest s) (k # news))" "dest s ` set (k # news) \<inter> dest s ` set as = {}"
      using n(4,5) k(3) False by auto
    ultimately have "announced u as (p # ps) t"
      unfolding announced_def du using e n(2,3) k(2) by (intro exI [of _ "k # news"]) simp
    then show ?thesis using k(1) t(1) False by (auto simp: v_def)
  qed
qed


lemma own_atim_skb:
  assumes "length da = 6" "length (vif_addr s) = 6" "length a3 = 6"
  shows "own_atim (vif_addr s) (atim_skb da a3 seq s)"
  using assms le16_of_le16_bytes [of "0x90" "[]"] hdr_3addr_at(2,4) [of da "vif_addr s" a3 "0x90" "tx_duration s" seq "[]"]
  by (simp add: own_atim_def frame_ok_def atim_skb_def frame_control_def addr2_def skb_bytes_def)

lemma std_step:
  assumes m: "mallocs u = []" "ps_mode u = IBSS_STD_PSM" "length (vif_addr u) = 6" "length (bssid u) = 6"
    and p: "frame_ok p" "\<forall>p \<in> set as. frame_ok p" "tx_pending_atims u = PQ as" "length as < 16"
  shows "\<exists>k. create_atims_std (p # ps) u = create_atims_std ps (if dest u p \<in> dest u ` set as then u else add_atim as [k] u) \<and>
    own_atim (vif_addr u) k \<and> dest u k = dest u p"
proof -
  obtain da where da: "addr1 p = Some da" "length da = 6" using frame_ok_addrs(1) [OF p(1)] by blast
  have dp: "dest u p = da" by (simp add: dest_def m da)
  have "\<forall>p \<in> set as. skb_data p \<noteq> None \<and> addr1 p = Some (dest u p)"
    using p(2) frame_ok_addrs by (fastforce simp: dest_def m)
  then have c: "ieee80211_psm_atim_list_contains_DA da u = Some (da \<in> dest u ` set as, u)"
    by (simp add: ieee80211_psm_atim_list_contains_DA_def p(3) atim_da_loop_eq)
  define k where "k = atim_skb da (bssid u) (tx_packets_sent u + 0x10) u"
  have a3: "atim_a3 None u = bssid u" by (simp add: atim_a3_def m)
  have new: "ieee80211_create_atim_pkt da None u = Some (u\<lparr>tx_packets_sent := tx_packets_sent u + 0x10,
      tx_pending_atims := PQ (as @ [k])\<rparr>)"
    using create_atim_pkt_eq [OF m(1) p(3,4), of da None] da m by (simp add: a3 k_def)
  have k: "own_atim (vif_addr u) k" "dest u k = da"
    using own_atim_skb [of da u "bssid u"] atim_skb_addr [of da u "bssid u"] da m by (simp_all add: k_def dest_def)
  show ?thesis using da c k dp new by (intro exI [of _ k]) (simp add: add_atim_def)
qed

lemma mh_step:
  assumes m: "mallocs u = []" "ps_mode u = IBSS_MH_PSM" "length (vif_addr u) = 6"
    and p: "frame_ok p" "\<forall>p \<in> set as. frame_ok p" "tx_pending_atims u = PQ as" "length as < 16"
  shows "\<exists>k. create_atims_mh (p # ps) u = create_atims_mh ps (if dest u p \<in> dest u ` set as then u else add_atim as [k] u) \<and>
    own_atim (vif_addr u) k \<and> dest u k = dest u p"
proof -
  obtain da a3 where da: "addr1 p = Some da" "length da = 6" "addr3 p = Some a3" "length a3 = 6"
    using frame_ok_addrs(1,2) [OF p(1)] by blast
  have dp: "dest u p = a3" by (simp add: dest_def m da)
  have "\<forall>p \<in> set as. addr3 p = Some (dest u p)"
    using p(2) frame_ok_addrs(2) by (fastforce simp: dest_def m)
  then have c: "ieee80211_mh_psm_atim_list_contains_A3 a3 u = Some (a3 \<in> dest u ` set as, u)"
    by (simp add: ieee80211_mh_psm_atim_list_contains_A3_def p(3) atim_a3_loop_eq)
  define k where "k = atim_skb da a3 (tx_packets_sent u + 0x10) u"
  have at: "atim_a3 (Some a3) u = a3" by (simp add: atim_a3_def m)
  have new: "ieee80211_create_atim_pkt da (Some a3) u = Some (u\<lparr>tx_packets_sent := tx_packets_sent u + 0x10,
      tx_pending_atims := PQ (as @ [k])\<rparr>)"
    using create_atim_pkt_eq [OF m(1) p(3,4), of da "Some a3"] da m by (simp add: at k_def)
  have k: "own_atim (vif_addr u) k" "dest u k = a3"
    using own_atim_skb [of da u a3] atim_skb_addr [of da u a3] da m by (simp_all add: k_def dest_def)
  show ?thesis using da c k dp new frame_ok_addrs(3) [OF p(1)] by (intro exI [of _ k]) (auto simp: add_atim_def)
qed

text \<open>
  C15. In a power saving mode every receiver of a pending packet is announced exactly once: when memory
  can be allocated and the queue of announcements has room for one frame per packet, the creation of
  ATIM frames appends frames of the node's own that are ATIMs, no two
  for the same receiver and none for a receiver that already has one, so that the receivers with an
  ATIM are those that had one and those of the pending packets. The receiver is the first address, in
  multi-hop power saving the third. Nothing else of the driver's state changes but the sequence
  number, which advances by 16 for each new frame.
\<close>

theorem create_atims_one_per_receiver:
  assumes m: "mallocs s = []" and q: "tx_pending_pkts s = PQ ps" and a: "tx_pending_atims s = PQ as"
    and ok: "\<forall>p \<in> set (as @ ps). frame_ok p" and len: "length as + length ps \<le> 16"
    and l: "length (vif_addr s) = 6" "length (bssid s) = 6" and mode: "ps_mode s \<noteq> IBSS_NULL_PSM"
  shows "\<exists>news. ieee80211_psm_create_atim_pkts s = Some (s\<lparr>tx_packets_sent := tx_packets_sent s + 0x10 * of_nat (length news),
        tx_pending_atims := PQ (as @ news)\<rparr>) \<and>
    length news \<le> length ps \<and> (\<forall>p \<in> set news. own_atim (vif_addr s) p) \<and>
    distinct (map (dest s) news) \<and> dest s ` set news \<inter> dest s ` set as = {} \<and>
    dest s ` set (as @ news) = dest s ` set (as @ ps)"
proof -
  have pre: "\<forall>p \<in> set ps. frame_ok p" "\<forall>p \<in> set as. frame_ok p" using ok by auto
  have "\<exists>t. ieee80211_psm_create_atim_pkts s = Some t \<and> announced s as ps t"
  proof (cases "ps = []")
    case True
    then show ?thesis using q a by (auto simp: ieee80211_psm_create_atim_pkts_def announced_def add_atim_Nil intro!: exI [of _ "[]"])
  next
    case ne: False
    show ?thesis
    proof (cases "ps_mode s")
      case IBSS_NULL_PSM then show ?thesis using mode by simp
    next
      case IBSS_STD_PSM
      have "\<exists>t. create_atims_std ps s = Some t \<and> announced s as ps t"
      proof (rule announce_walk [OF _ _ pre len atim_part_self a])
        show "create_atims_std [] u = Some u" for u :: "'a wlan_scheme" by simp
        fix p ps' as' and u :: "'a wlan_scheme"
        assume h: "frame_ok p" "\<forall>p \<in> set as'. frame_ok p" "atim_part s u" "tx_pending_atims u = PQ as'" "length as' < 16"
        note f = atim_part_fields [OF h(3)]
        show "\<exists>k. create_atims_std (p # ps') u =
            create_atims_std ps' (if dest s p \<in> dest s ` set as' then u else add_atim as' [k] u) \<and>
          own_atim (vif_addr s) k \<and> dest s k = dest s p"
          using std_step [of u p as' ps'] f h m l IBSS_STD_PSM by simp
      qed
      then show ?thesis using q ne IBSS_STD_PSM by (simp add: ieee80211_psm_create_atim_pkts_def)
    next
      case IBSS_MH_PSM
      have "\<exists>t. create_atims_mh ps s = Some t \<and> announced s as ps t"
      proof (rule announce_walk [OF _ _ pre len atim_part_self a])
        show "create_atims_mh [] u = Some u" for u :: "'a wlan_scheme" by simp
        fix p ps' as' and u :: "'a wlan_scheme"
        assume h: "frame_ok p" "\<forall>p \<in> set as'. frame_ok p" "atim_part s u" "tx_pending_atims u = PQ as'" "length as' < 16"
        note f = atim_part_fields [OF h(3)]
        show "\<exists>k. create_atims_mh (p # ps') u =
            create_atims_mh ps' (if dest s p \<in> dest s ` set as' then u else add_atim as' [k] u) \<and>
          own_atim (vif_addr s) k \<and> dest s k = dest s p"
          using mh_step [of u p as' ps'] f h m l IBSS_MH_PSM by simp
      qed
      then show ?thesis using q ne IBSS_MH_PSM by (simp add: ieee80211_psm_create_atim_pkts_def)
    qed
  qed
  then obtain t where "ieee80211_psm_create_atim_pkts s = Some t" "announced s as ps t" by blast
  then show ?thesis unfolding announced_def add_atim_def by auto
qed


section \<open>Choosing the next frame\<close>

lemma first_index_eq:
  "\<forall>x \<in> set xs. P x = Some (f x) \<Longrightarrow>
    first_index P xs = Some (if \<exists>x \<in> set xs. f x then Some (length (takeWhile (\<lambda>x. \<not> f x) xs)) else None)"
  by (induction xs) auto

definition rcv_awake :: "'a wlan_scheme \<Rightarrow> ether list \<Rightarrow> sk_buff \<Rightarrow> bool" where
  "rcv_awake s ns p \<longleftrightarrow> the (addr1 p) \<in> set ns"

lemma is_DA_awake_eq:
  assumes "frame_ok p" "wake_neighbors s = PQ ns" "psm_state s \<noteq> PRE_TBTT"
  shows "ieee80211_psm_is_DA_awake p s = Some (rcv_awake s ns p)"
proof -
  obtain a where "addr1 p = Some a" using frame_ok_addrs(1) [OF assms(1)] by blast
  moreover have "list_ex (\<lambda>n. n = a) ns = (a \<in> set ns)" by (auto simp: list_ex_iff)
  ultimately show ?thesis
    using assms frame_ok_addrs(3) [OF assms(1)]
    by (auto simp: ieee80211_psm_is_DA_awake_def ieee80211_psm_is_remote_da_awake_def rcv_awake_def ether_addr_equal_def)
qed

text \<open>
  C33. When every receiver of two or more pending ATIM frames is awake already, the choice of the first
  ATIM frame erases the queue and leaves the driver's pointer to it dangling: the next handling of ATIM
  frames, and the next creation of one, uses freed memory. With one frame the queue is empty
  afterwards.
\<close>

theorem first_atim_dangles:
  assumes a: "tx_pending_atims s = PQ as" "as \<noteq> []" "\<forall>p \<in> set as. frame_ok p \<and> skb_heap p"
    and w: "wake_neighbors s = PQ ns" "psm_state s \<noteq> PRE_TBTT" "\<forall>p \<in> set as. rcv_awake s ns p"
  shows "\<exists>t. ieee80211_psm_can_send_first_atim s = Some (PQNull, t) \<and> ar9170_psm_async_tx_mgmt s = Some t \<and>
    (length as = 1 \<longrightarrow> tx_pending_atims t = PQ []) \<and>
    (2 \<le> length as \<longrightarrow> tx_pending_atims t = PQFreed \<and> ar9170_psm_async_tx_mgmt t = None \<and>
      ieee80211_psm_atim_list_contains_DA da t = None \<and>
      (mallocs t = [] \<longrightarrow> ieee80211_create_atim_pkt da a3 t = None))"
proof -
  have "first_index (\<lambda>p. map_option Not (ieee80211_psm_is_DA_awake p s)) as =
      Some (if \<exists>p \<in> set as. \<not> rcv_awake s ns p then Some (length (takeWhile (\<lambda>p. \<not> \<not> rcv_awake s ns p) as)) else None)"
    by (rule first_index_eq) (use a(3) w(1,2) in \<open>simp add: is_DA_awake_eq\<close>)
  then have f: "first_index (\<lambda>p. map_option Not (ieee80211_psm_is_DA_awake p s)) as = Some None"
    using w(3) by simp
  have "skb_heap (hd as)" using a(2,3) by simp
  then obtain k where k: "skb_free_data (hd as) = Some k" by (simp add: skb_free_data_def)
  define t where "t = s\<lparr>tx_pending_atims := if 2 \<le> length as then PQFreed else PQ []\<rparr>"
  have 1: "ieee80211_psm_can_send_first_atim s = Some (PQNull, t)"
    using a(1,2) by (simp add: ieee80211_psm_can_send_first_atim_def f k pq_erase_def t_def)
  have 2: "ar9170_psm_async_tx_mgmt s = Some t"
    by (simp add: ar9170_psm_async_tx_mgmt_def 1)
  have 3: "tx_pending_atims u = PQFreed \<Longrightarrow> ar9170_psm_async_tx_mgmt u = None" for u :: "'a wlan_scheme"
    by (simp add: ar9170_psm_async_tx_mgmt_def ieee80211_psm_can_send_first_atim_def)
  have add: "ar9170_op_add_pending_pkt AtimQ (Some p) u = None"
    if "tx_pending_atims u = PQFreed" "skb_data p \<noteq> None" "skb_len p \<noteq> 0" for u :: "'a wlan_scheme" and p
    using that by (auto simp: ar9170_op_add_pending_pkt_def get_queue_def set_queue_def queue_add_tail_def pq_add_tail_def Let_def)
  have 4: "ieee80211_create_atim_pkt da a3 u = None" if u: "tx_pending_atims u = PQFreed" "mallocs u = []" for u :: "'a wlan_scheme"
  proof -
    have qn: "ieee80211_tx_atim_queue k1 v = None" if "skb_write 2 x k0 = Some k1" "skb_len k0 = 24" "tx_pending_atims v = PQFreed"
      for k0 k1 x and v :: "'a wlan_scheme"
      using that add [of v k1] by (auto simp: ieee80211_tx_atim_queue_def skb_write_def split: option.splits if_splits)
    have b: "do {d \<leftarrow> A; k1 \<leftarrow> skb_write 2 (le16_bytes d) k0; ieee80211_tx_atim_queue k1 v} = None"
      if "skb_len k0 = 24" "tx_pending_atims v = PQFreed" for A k0 and v :: "'a wlan_scheme"
    proof (cases A)
      case (Some d)
      have "Option.bind (skb_write 2 (le16_bytes d) k0) (\<lambda>k1. ieee80211_tx_atim_queue k1 v) = None"
        using qn that by (cases "skb_write 2 (le16_bytes d) k0") auto
      then show ?thesis using Some by simp
    qed simp
    show ?thesis
      unfolding ieee80211_create_atim_pkt_def smalloc_empty [OF u(2)] prod.case Let_def
      using u(1) by (simp add: b)
  qed
  show ?thesis
    using 1 2 3 [of t] 4 [of t] by (intro exI [of _ t]) (auto simp: t_def ieee80211_psm_atim_list_contains_DA_def)
qed


text \<open>
  C16. The choice of the next data packet: none when no receiver of a pending packet is awake; otherwise
  the first packet whose receiver is awake moves to the front, ahead of the packets whose receivers
  sleep, and the others keep their order. When the packet has to move and there is no memory, no packet
  is chosen and the packet is lost.
\<close>

theorem first_pkt_choice:
  assumes q: "tx_pending_pkts s = PQ ps" "ps \<noteq> []" "\<forall>p \<in> set ps. frame_ok p"
    and w: "wake_neighbors s = PQ ns" "psm_state s \<noteq> PRE_TBTT"
  shows "((\<forall>p \<in> set ps. \<not> rcv_awake s ns p) \<longrightarrow> ieee80211_psm_can_send_first_pkt s = Some (PQNull, s)) \<and>
    (\<forall>xs p ys. ps = xs @ p # ys \<and> (\<forall>x \<in> set xs. \<not> rcv_awake s ns x) \<and> rcv_awake s ns p \<longrightarrow>
      (mallocs s = [] \<longrightarrow> (\<exists>t. ieee80211_psm_can_send_first_pkt s = Some (PQ (p # xs @ ys), t))) \<and>
      (mallocs s = False # ms \<and> xs \<noteq> [] \<longrightarrow>
        ieee80211_psm_can_send_first_pkt s = Some (PQNull, s\<lparr>mallocs := ms, tx_pending_pkts := PQ (xs @ ys)\<rparr>)))"
proof -
  have f: "first_index (\<lambda>p. ieee80211_psm_is_DA_awake p s) ps =
      Some (if \<exists>p \<in> set ps. rcv_awake s ns p then Some (length (takeWhile (\<lambda>p. \<not> rcv_awake s ns p) ps)) else None)"
    by (rule first_index_eq) (use q(3) w(1,2) in \<open>simp add: is_DA_awake_eq\<close>)
  have 1: "(\<forall>p \<in> set ps. \<not> rcv_awake s ns p) \<longrightarrow> ieee80211_psm_can_send_first_pkt s = Some (PQNull, s)"
    using q by (simp add: ieee80211_psm_can_send_first_pkt_def f)
  have "(mallocs s = [] \<longrightarrow> (\<exists>t. ieee80211_psm_can_send_first_pkt s = Some (PQ (p # xs @ ys), t))) \<and>
      (mallocs s = False # ms \<and> xs \<noteq> [] \<longrightarrow>
        ieee80211_psm_can_send_first_pkt s = Some (PQNull, s\<lparr>mallocs := ms, tx_pending_pkts := PQ (xs @ ys)\<rparr>))"
    if h: "ps = xs @ p # ys" "\<forall>x \<in> set xs. \<not> rcv_awake s ns x" "rcv_awake s ns p" for xs p ys
  proof -
    have "takeWhile (\<lambda>p. \<not> rcv_awake s ns p) ps = xs" using h by (simp add: takeWhile_append)
    then have i: "first_index (\<lambda>p. ieee80211_psm_is_DA_awake p s) ps = Some (Some (length xs))"
      using f h(1,3) by simp
    show ?thesis
    proof (cases "xs = []")
      case True
      then have "ieee80211_psm_can_send_first_pkt s = Some (PQ ps, s)"
        using q(1,2) i by (simp add: ieee80211_psm_can_send_first_pkt_def)
      moreover have "ps = p # xs @ ys" using True h(1) by simp
      ultimately show ?thesis using True by blast
    next
      case False
      have mv: "pq_move_to_front (length xs) ok (PQ ps) =
          Some (if ok then PQ (p # xs @ ys) else PQNull, PQ (xs @ ys))" for ok
        using False h(1) by (simp add: pq_move_to_front_def Let_def)
      have e: "ieee80211_psm_can_send_first_pkt s = (let (ok, s1) = smalloc s in
          map_option (\<lambda>(r, q). (r, s1\<lparr>tx_pending_pkts := q\<rparr>)) (pq_move_to_front (length xs) ok (PQ ps)))"
        using q(1,2) False by (simp add: ieee80211_psm_can_send_first_pkt_def i)
      have 1: "ieee80211_psm_can_send_first_pkt s = Some (PQ (p # xs @ ys), s\<lparr>tx_pending_pkts := PQ (xs @ ys)\<rparr>)"
        if "mallocs s = []"
        unfolding e smalloc_empty [OF that] by (simp add: mv)
      have 2: "ieee80211_psm_can_send_first_pkt s = Some (PQNull, s\<lparr>mallocs := ms, tx_pending_pkts := PQ (xs @ ys)\<rparr>)"
        if "mallocs s = False # ms"
        unfolding e smalloc_def that by (simp add: mv)
      show ?thesis using 1 2 by blast
    qed
  qed
  then show ?thesis using 1 by blast
qed


section \<open>Witnesses\<close>

lemma frame_ok_skb1: "frame_ok skb1" "skb_heap skb1" "addr1 skb1 = Some [2, 0, 0, 0, 0, 2]"
  using hdr_3addr_at(3) [of "[2, 0, 0, 0, 0, 2]" "[2, 0, 0, 0, 0, 1]" "[6, 5, 4, 3, 2, 1]" "0x88" 314 16
      "[0, 0, 0xaa, 0xaa, 0x03, 0x00, 0x00, 0x00, 1, 2, 3]"]
  by (simp_all add: frame_ok_def skb1_def addr1_def skb_bytes_def)
    (simp add: frame1_def data_frame_def)

definition skb2 :: sk_buff where
  "skb2 = \<lparr>skb_data = Some (data_frame [2, 0, 0, 0, 0, 9] [2, 0, 0, 0, 0, 1] [6, 5, 4, 3, 2, 1] 314 32 [4]),
     skb_len = 33, skb_heap = True\<rparr>"

lemma frame_ok_skb2: "frame_ok skb2" "addr1 skb2 = Some [2, 0, 0, 0, 0, 9]"
  using hdr_3addr_at(3) [of "[2, 0, 0, 0, 0, 9]" "[2, 0, 0, 0, 0, 1]" "[6, 5, 4, 3, 2, 1]" "0x88" 314 32
      "[0, 0, 0xaa, 0xaa, 0x03, 0x00, 0x00, 0x00, 4]"]
  by (simp_all add: frame_ok_def skb2_def addr1_def skb_bytes_def data_frame_def)

theorem create_atims_one_per_receiver_witness:
  "\<exists>t news. ieee80211_psm_create_atim_pkts (wlan0\<lparr>tx_pending_pkts := PQ [skb1, skb1]\<rparr>) = Some t \<and>
     tx_pending_atims t = PQ news \<and> length news = 1"
proof -
  define s where "s = wlan0\<lparr>tx_pending_pkts := PQ [skb1, skb1]\<rparr>"
  have h: "mallocs s = []" "tx_pending_pkts s = PQ [skb1, skb1]" "tx_pending_atims s = PQ []"
    "\<forall>p \<in> set ([] @ [skb1, skb1]). frame_ok p" "length ([] :: sk_buff list) + length [skb1, skb1] \<le> 16"
    "length (vif_addr s) = 6" "length (bssid s) = 6" "ps_mode s \<noteq> IBSS_NULL_PSM"
    using frame_ok_skb1 by (simp_all add: s_def wlan0_def)
  obtain t news where t: "ieee80211_psm_create_atim_pkts s = Some t" "tx_pending_atims t = PQ ([] @ news)"
    "distinct (map (dest s) news)" "dest s ` set ([] @ news) = dest s ` set ([] @ [skb1, skb1])"
    using create_atims_one_per_receiver [OF h] by (elim exE conjE) (rule that, assumption, simp_all add: s_def)
  have "card (set (map (dest s) news)) = 1" using t(4) by simp
  then have "length news = 1" using distinct_card [OF t(3)] by simp
  then show ?thesis using t(1,2) by (auto simp: s_def)
qed

theorem first_atim_dangles_witness:
  "\<exists>t. ieee80211_psm_can_send_first_atim
      (wlan0\<lparr>tx_pending_atims := PQ [skb1, skb1], wake_neighbors := PQ [[2, 0, 0, 0, 0, 2]]\<rparr>) = Some (PQNull, t) \<and>
    tx_pending_atims t = PQFreed"
proof -
  define s where "s = wlan0\<lparr>tx_pending_atims := PQ [skb1, skb1], wake_neighbors := PQ [[2, 0, 0, 0, 0, 2]]\<rparr>"
  have h: "tx_pending_atims s = PQ [skb1, skb1]" "[skb1, skb1] \<noteq> []" "\<forall>p \<in> set [skb1, skb1]. frame_ok p \<and> skb_heap p"
    "wake_neighbors s = PQ [[2, 0, 0, 0, 0, 2]]" "psm_state s \<noteq> PRE_TBTT"
    "\<forall>p \<in> set [skb1, skb1]. rcv_awake s [[2, 0, 0, 0, 0, 2]] p"
    using frame_ok_skb1 by (simp_all add: s_def wlan0_def rcv_awake_def)
  show ?thesis using first_atim_dangles [OF h] by (auto simp: s_def)
qed

theorem first_pkt_choice_witness:
  "\<exists>t. ieee80211_psm_can_send_first_pkt
      (wlan0\<lparr>tx_pending_pkts := PQ [skb2, skb1], wake_neighbors := PQ [[2, 0, 0, 0, 0, 2]]\<rparr>) = Some (PQ [skb1, skb2], t)"
proof -
  define s where "s = wlan0\<lparr>tx_pending_pkts := PQ [skb2, skb1], wake_neighbors := PQ [[2, 0, 0, 0, 0, 2]]\<rparr>"
  have h: "tx_pending_pkts s = PQ [skb2, skb1]" "[skb2, skb1] \<noteq> []" "\<forall>p \<in> set [skb2, skb1]. frame_ok p"
    "wake_neighbors s = PQ [[2, 0, 0, 0, 0, 2]]" "psm_state s \<noteq> PRE_TBTT"
    using frame_ok_skb1 frame_ok_skb2 by (simp_all add: s_def wlan0_def)
  have m: "mallocs s = []" by (simp add: s_def wlan0_def)
  have "[skb2, skb1] = [skb2] @ skb1 # [] \<and> (\<forall>x \<in> set [skb2]. \<not> rcv_awake s [[2, 0, 0, 0, 0, 2]] x) \<and>
      rcv_awake s [[2, 0, 0, 0, 0, 2]] skb1"
    using frame_ok_skb1 frame_ok_skb2 by (simp add: rcv_awake_def)
  then have "\<exists>t. ieee80211_psm_can_send_first_pkt s = Some (PQ (skb1 # [skb2] @ []), t)"
    using first_pkt_choice [OF h, of "[]", THEN conjunct2] m by blast
  then show ?thesis by (simp add: s_def)
qed

end
