(* ===== verification/Ibss.thy ===== *)
theory Ibss
  imports PsmLists
begin

text \<open>
  Creating, joining and advertising the network (\<open>core/net/mac/ieee80211_ibss/ieee80211_ibss.c\<close>) and
  the handling of received beacons (\<open>ieee80211_rx.c\<close>): the beacon the node builds, what a node that
  hears one takes over, and that it takes over the parameters of the sender.

  The device configuration commands are those of the driver: their outcome is \<open>hw_config_ok\<close>, and
  \<open>bss_notified\<close> collects the change flags passed to \<open>ar9170_op_bss_info_changed\<close>.
\<close>

record inode = wlan +
  ibss_name :: ether
  ibss_initialized :: bool
  started_beaconing :: bool
  channel_type :: u8
  channel_hw_value :: u16
  hw_queues :: u16
  sta_addr :: ether
  enable_beacon :: bool
  beacon_enabled :: bool
  hw_config_ok :: bool
  bss_notified :: "u32 list"
  setup_continued :: nat
  pbuf :: packetbuf
  received_seqnos :: "(rimeaddr \<times> u16) list"
  net_input :: "(u8 list \<times> rimeaddr) list"

definition AR9170_MAC_BCN_LENGTH_MAX :: nat where "AR9170_MAC_BCN_LENGTH_MAX = 256"

section \<open>The beacon\<close>

text \<open>\<open>supp_rates\<close> after the loop that marks the basic rates.\<close>

definition supp_rates :: "u32 \<Rightarrow> u16 list" where
  "supp_rates basic_rates = map (\<lambda>i. (if bit basic_rates i then 0x80 else 0)
     OR ucast (of_nat ([10, 20, 55, 110, 60, 90, 120, 180, 240, 360, 480, 540] ! i div 5) :: u8)) [0..<12]"

definition beacon_header :: "u16 \<Rightarrow> u8 list \<Rightarrow> ether \<Rightarrow> ether \<Rightarrow> u8 list \<Rightarrow> u8 list \<Rightarrow> u16 \<Rightarrow> u16 \<Rightarrow> u8 list" where
  "beacon_header fc dur sa bid seq timestamp bi capab =
     le16_bytes fc @ dur @ eth_broadcast @ sa @ bid @ seq @ timestamp @ le16_bytes bi @ le16_bytes capab"

definition beacon_elements :: "u32 \<Rightarrow> 'a inode_scheme \<Rightarrow> (u8 \<times> u8 list) list" where
  "beacon_elements basic_rates s =
     [(0, take ETH_ALEN (ibss_name s)), (1, map ucast (take 8 (supp_rates basic_rates)))] @
     (if channel_type s = 0 then [(3, [ucast (channel_hw_value s + 1)])] else []) @
     [(6, [ucast (atim_window s), 0]), (50, map ucast (drop 8 (supp_rates basic_rates)))] @
     (if hw_queues s \<ge> 4 then [(221, [0x00, 0x50, 0xf2, 2, 0, 1, 0])] else [])"

definition build_beacon :: "u32 \<Rightarrow> u16 \<Rightarrow> 'a inode_scheme \<Rightarrow> u8 list" where
  "build_beacon basic_rates capability s =
     beacon_header (0x0000 OR 0x0050) [0, 0] (take ETH_ALEN (vif_addr s)) (take ETH_ALEN (bssid s)) [0, 0]
       (replicate 8 0) (beacon_int s) capability @ ie_encode (beacon_elements basic_rates s)"

text \<open>
  When memory runs out the function returns with the beacon buffer null, or with a beacon buffer
  whose data is null and whose length is not set.
\<close>

definition sta_join_ibss_core :: "u32 \<Rightarrow> u16 \<Rightarrow> u32 \<Rightarrow> 'a inode_scheme \<Rightarrow> 'a inode_scheme" where
  "sta_join_ibss_core basic_rates capability junk s =
     (if \<not> hw_config_ok s then s
      else let (ok1, s1) = smalloc s in
        if \<not> ok1 then s1\<lparr>ibss_beacon_buf := None\<rparr>
        else let (ok2, s2) = smalloc s1 in
          if \<not> ok2 then s2\<lparr>ibss_beacon_buf := Some \<lparr>skb_data = None, skb_len = junk, skb_heap = False\<rparr>\<rparr>
          else
            let b = build_beacon basic_rates capability s2;
                buf = b @ replicate (AR9170_MAC_BCN_LENGTH_MAX - length b) 0
            in s2\<lparr>ibss_beacon_buf := Some \<lparr>skb_data = Some buf, skb_len = of_nat (length b), skb_heap = True\<rparr>,
                  enable_beacon := True, beacon_enabled := True,
                  bss_notified := bss_notified s2 @
                    [push_bit 6 1 OR push_bit 8 1 OR push_bit 9 1 OR push_bit 5 1 OR push_bit 4 1
                      OR push_bit 11 1 OR push_bit 3 1]\<rparr>)"

definition ieee80211_sta_update_info :: "'a inode_scheme \<Rightarrow> 'a inode_scheme" where
  "ieee80211_sta_update_info s = s\<lparr>sta_addr := take ETH_ALEN (vif_addr s)\<rparr>"

definition ieee80211_sta_create_ibss :: "u32 \<Rightarrow> 'a inode_scheme \<Rightarrow> 'a inode_scheme" where
  "ieee80211_sta_create_ibss junk s =
     (let s1 = sta_join_ibss_core 1 (push_bit 1 1 OR push_bit 4 1) junk (ieee80211_sta_update_info s)
      in s1\<lparr>ibss_initialized := True, ibss_joined := True\<rparr>)"

definition ieee80211_sta_join_ibss :: "u16 \<Rightarrow> u16 \<Rightarrow> u8 list \<Rightarrow> u32 \<Rightarrow> 'a inode_scheme \<Rightarrow> 'a inode_scheme" where
  "ieee80211_sta_join_ibss beacon_interval atim_w name junk s =
     (let s1 = (ieee80211_sta_update_info s)\<lparr>beacon_int := beacon_interval, atim_window := atim_w,
              ibss_name := take ETH_ALEN name\<rparr>;
          s2 = sta_join_ibss_core 1 (push_bit 1 1 OR push_bit 4 1) junk s1
      in s2\<lparr>ibss_initialized := True, ibss_joined := True, setup_continued := setup_continued s2 + 1\<rparr>)"

text \<open>The interface is an ad-hoc interface; the frame control becomes that of a beacon.\<close>

definition ieee80211_beacon_get_tim :: "'a inode_scheme \<Rightarrow> (sk_buff option \<times> 'a inode_scheme) option" where
  "ieee80211_beacon_get_tim s = (case ibss_beacon_buf s of
     None \<Rightarrow> Some (None, s)
   | Some presp \<Rightarrow> map_option (\<lambda>k. (Some k, s\<lparr>ibss_beacon_buf := Some k\<rparr>))
       (skb_write 0 (le16_bytes (0x0000 OR 0x0080)) presp))"

definition ieee80211_set_ibss_join_state :: "bool \<Rightarrow> 'a inode_scheme \<Rightarrow> 'a inode_scheme" where
  "ieee80211_set_ibss_join_state new_state s = s\<lparr>ibss_joined := new_state\<rparr>"

definition ieee80211_set_ibss_started_beaconing :: "'a inode_scheme \<Rightarrow> 'a inode_scheme" where
  "ieee80211_set_ibss_started_beaconing s = (if \<not> started_beaconing s then s\<lparr>started_beaconing := True\<rparr> else s)"

definition ieee80211_has_ibss_just_started_beaconing :: "'a inode_scheme \<Rightarrow> bool \<times> 'a inode_scheme" where
  "ieee80211_has_ibss_just_started_beaconing s =
     (if started_beaconing s then (True, s\<lparr>started_beaconing := False\<rparr>) else (False, s))"

section \<open>A received beacon\<close>

text \<open>\<open>n\<close> bytes at the element \<open>sl\<close>; a null element is dereferenced.\<close>

definition elem_bytes :: "ie_elems \<Rightarrow> ie_slot \<Rightarrow> nat \<Rightarrow> sk_buff \<Rightarrow> u8 list option" where
  "elem_bytes e sl n skb = do { p \<leftarrow> ie_ptr e sl; skb_bytes (36 + p) n skb }"

definition ieee80211_rx_process_beacon :: "sk_buff \<Rightarrow> u32 \<Rightarrow> u32 \<Rightarrow> 'a inode_scheme \<Rightarrow> 'a inode_scheme option" where
  "ieee80211_rx_process_beacon skb len junk s =
     (if psm_state s \<noteq> PRE_TBTT \<and> ibss_joined s then Some s
      else do {
        bid \<leftarrow> addr3 skb;
        if \<not> ether_addr_equal bid (bssid s) then Some s
        else if 36 > unat len then Some s
        else do {
          var \<leftarrow> skb_bytes 36 (unat len - 36) skb;
          e \<leftarrow> ieee802_11_parse_elems var (unat len - 36);
          bi \<leftarrow> map_option le16_of (skb_bytes 32 2 skb);
          atim \<leftarrow> map_option le16_of (elem_bytes e IbssParams 2 skb);
          if \<not> ibss_joined s then do {
            name \<leftarrow> elem_bytes e Ssid 6 skb;
            Some (ieee80211_sta_join_ibss bi atim name junk s)
          }
          else if beacon_int s \<noteq> bi \<or> atim_window s \<noteq> atim then
            Some (s\<lparr>beacon_int := bi, atim_window := atim, bss_notified := bss_notified s @ [push_bit 6 1]\<rparr>)
          else Some s
        }
      })"


section \<open>A node takes over what another advertises\<close>

lemma length_beacon_header [simp]:
  "length dur = 2 \<Longrightarrow> length sa = 6 \<Longrightarrow> length bid = 6 \<Longrightarrow> length seq = 2 \<Longrightarrow> length ts = 8 \<Longrightarrow>
    length (beacon_header fc dur sa bid seq ts bi cap) = 36"
  by (simp add: beacon_header_def)

lemma beacon_header_at:
  assumes "length dur = 2" "length sa = 6" "length bid = 6" "length seq = 2" "length ts = 8"
  shows "read_at 16 6 (beacon_header fc dur sa bid seq ts bi cap @ r) = bid"
    "read_at 32 2 (beacon_header fc dur sa bid seq ts bi cap @ r) = le16_bytes bi"
    "read_at (36 + k) n (beacon_header fc dur sa bid seq ts bi cap @ r) = read_at k n r"
    "read_at 36 n (beacon_header fc dur sa bid seq ts bi cap @ r) = read_at 0 n r"
proof -
  have l: "length (beacon_header fc dur sa bid seq ts bi cap) = 36" using assms by simp
  show "read_at 16 6 (beacon_header fc dur sa bid seq ts bi cap @ r) = bid"
    "read_at 32 2 (beacon_header fc dur sa bid seq ts bi cap @ r) = le16_bytes bi"
    using assms by (simp_all add: read_at_def beacon_header_def)
  show "read_at (36 + k) n (beacon_header fc dur sa bid seq ts bi cap @ r) = read_at k n r" for k
    using l by (simp add: read_at_def)
  from this [of 0] show "read_at 36 n (beacon_header fc dur sa bid seq ts bi cap @ r) = read_at 0 n r" by simp
qed

lemma length_supp_rates [simp]: "length (supp_rates b) = 12"
  by (simp add: supp_rates_def)

lemma beacon_elements_ok:
  "\<forall>x \<in> set (beacon_elements b s). ie_body_ok x"
  "distinct (filter (\<lambda>i. \<not> ie_repeatable i) (map fst (beacon_elements b s)))"
  by (auto simp: beacon_elements_def ie_body_ok_def ie_member_def ie_repeatable_def ETH_ALEN_def)

text \<open>The two elements a receiver uses are where the sender put them, whatever follows.\<close>

lemma beacon_parsed:
  assumes "length (ibss_name s) = 6"
  shows "\<exists>e p q. ieee802_11_parse_elems (ie_encode (beacon_elements b s) @ fcs)
      (length (ie_encode (beacon_elements b s) @ fcs)) = Some e \<and>
    ie_ptr e Ssid = Some p \<and> ie_ptr e IbssParams = Some q \<and>
    p + 6 \<le> length (ie_encode (beacon_elements b s)) \<and> q + 2 \<le> length (ie_encode (beacon_elements b s)) \<and>
    read_at p 6 (ie_encode (beacon_elements b s) @ fcs) = ibss_name s \<and>
    read_at q 2 (ie_encode (beacon_elements b s) @ fcs) = [ucast (atim_window s), 0]"
proof -
  define es where "es = beacon_elements b s"
  define es1 :: "(u8 \<times> u8 list) list" where "es1 = [(0, take ETH_ALEN (ibss_name s)), (1, map ucast (take 8 (supp_rates b)))] @
     (if channel_type s = 0 then [(3, [ucast (channel_hw_value s + 1)])] else [])"
  define es2 :: "(u8 \<times> u8 list) list" where "es2 = (50, map ucast (drop 8 (supp_rates b))) #
     (if hw_queues s \<ge> 4 then [(221, [0x00, 0x50, 0xf2, 2, 0, 1, 0])] else [])"
  have ok: "\<forall>x \<in> set es. ie_body_ok x" "distinct (filter (\<lambda>i. \<not> ie_repeatable i) (map fst es))"
    unfolding es_def by (rule beacon_elements_ok)+
  have s1: "es = [] @ (0, ibss_name s) # tl es"
    using assms by (simp add: es_def beacon_elements_def ETH_ALEN_def)
  have s2: "es = es1 @ (6, [ucast (atim_window s), 0]) # es2"
    by (simp add: es_def beacon_elements_def es1_def es2_def)
  obtain e where e: "ieee802_11_parse_elems (ie_encode es @ fcs) (length (ie_encode es @ fcs)) = Some e"
    "\<forall>es1 i body es2 sl. es = es1 @ (i, body) # es2 \<and> ie_sets i sl \<longrightarrow>
       ie_ptr e sl = Some (length (ie_encode es1) + 2)"
    using ie_parse_prefix [OF ok, of fcs] by blast
  have sets: "ie_sets 0 Ssid" "ie_sets 6 IbssParams" by (simp_all add: ie_sets_def ie_member_def)
  have 1: "ie_ptr e Ssid = Some 2" using e(2) s1 sets(1) by fastforce
  have 2: "ie_ptr e IbssParams = Some (length (ie_encode es1) + 2)" using e(2) s2 sets(2) by blast
  have 3: "read_at 2 6 (ie_encode es @ fcs) = ibss_name s \<and> 2 + 6 \<le> length (ie_encode es)"
    by (subst (1 2) s1) (simp add: read_at_def assms)
  have 4: "read_at (length (ie_encode es1) + 2) 2 (ie_encode es @ fcs) = [ucast (atim_window s), 0] \<and>
      length (ie_encode es1) + 2 + 2 \<le> length (ie_encode es)"
    by (simp add: s2 ie_encode_append read_at_def numeral_2_eq_2)
  show ?thesis using e(1) 1 2 3 4 unfolding es_def by blast
qed

lemma le16_of_low: "le16_of [ucast (w :: u16), 0] = take_bit 8 w"
  by (rule bit_word_eqI) (auto simp: le16_of_def bit_simps)


text \<open>
  C23. A node that hears a beacon of its network takes over what the sender advertises: whatever the
  hardware fills in (duration, sequence number, time stamp) and whatever checksum ends the frame, a node
  that has not joined joins with the sender's beacon interval, its network name and the low eight bits
  of its ATIM window; a node that has joined, and waits for the beacon, updates interval and window.
  A beacon of another network changes nothing.
\<close>

theorem beacon_adopted:
  assumes s: "length (ibss_name s) = 6" "length (bssid s) = 6"
    and hw: "length dur = 2" "length sa = 6" "length seq = 2" "length ts = 8"
    and d: "skb_data skb = Some (frame @ pad)" "len = of_nat (length frame)" "length frame < 2 ^ 32"
    and frame: "frame = beacon_header 0x0080 dur sa (bssid s) seq ts (beacon_int s) cap @
      ie_encode (beacon_elements 1 s) @ fcs"
  shows "\<exists>t. ieee80211_rx_process_beacon skb len junk r = Some t \<and>
    (bssid r = bssid s \<and> \<not> ibss_joined r \<longrightarrow> ibss_joined t \<and> beacon_int t = beacon_int s \<and>
      ibss_name t = ibss_name s \<and> atim_window t = take_bit 8 (atim_window s)) \<and>
    (bssid r = bssid s \<and> ibss_joined r \<and> psm_state r = PRE_TBTT \<longrightarrow> beacon_int t = beacon_int s \<and>
      atim_window t = take_bit 8 (atim_window s)) \<and>
    (bssid r \<noteq> bssid s \<longrightarrow> t = r)"
proof -
  define es where "es = ie_encode (beacon_elements 1 s)"
  define hdr where "hdr = beacon_header 0x0080 dur sa (bssid s) seq ts (beacon_int s) cap"
  have fp: "frame @ pad = hdr @ es @ fcs @ pad" by (simp add: frame hdr_def es_def)
  have lh: "length hdr = 36" using hw s(2) by (simp add: hdr_def)
  have "length frame = 36 + length (es @ fcs)" using lh by (simp add: frame hdr_def es_def)
  moreover have "unat len = length frame" unfolding d(2) by (rule unat_of_nat_u32) (use d(3) in simp)
  ultimately have ll: "unat len = 36 + length (es @ fcs)" by simp
  note at = beacon_header_at [OF hw(1,2) s(2) hw(3,4), where fc = "0x0080" and bi = "beacon_int s" and cap = cap, folded hdr_def]
  have a3: "addr3 skb = Some (bssid s)"
    using d(1) fp lh at(1) by (simp add: addr3_def skb_bytes_def)
  have bi: "map_option le16_of (skb_bytes 32 2 skb) = Some (beacon_int s)"
    using d(1) fp lh at(2) le16_of_le16_bytes [of _ "[]"] by (simp add: skb_bytes_def)
  have var: "skb_bytes 36 (length (es @ fcs)) skb = Some (es @ fcs)"
    using d(1) fp lh at(4) by (simp add: skb_bytes_def) (simp add: read_at_def)
  obtain e p q where e: "ieee802_11_parse_elems (es @ fcs) (length (es @ fcs)) = Some e"
    "ie_ptr e Ssid = Some p" "ie_ptr e IbssParams = Some q" "p + 6 \<le> length es" "q + 2 \<le> length es"
    "read_at p 6 (es @ fcs) = ibss_name s" "read_at q 2 (es @ fcs) = [ucast (atim_window s), 0]"
    using beacon_parsed [OF s(1), of 1 fcs] unfolding es_def by blast
  have in_es: "read_at k n (es @ fcs @ pad) = read_at k n (es @ fcs)" if "k + n \<le> length es" for k n
    using that by (simp add: read_at_def)
  have name: "elem_bytes e Ssid 6 skb = Some (ibss_name s)"
    using d(1) fp lh at(3) e(2,4,6) in_es [of p 6] by (simp add: elem_bytes_def skb_bytes_def)
  have atim: "map_option le16_of (elem_bytes e IbssParams 2 skb) = Some (take_bit 8 (atim_window s))"
    using d(1) fp lh at(3) e(3,5,7) in_es [of q 2] by (simp add: elem_bytes_def skb_bytes_def le16_of_low)
  have core: "beacon_int (sta_join_ibss_core b c junk v) = beacon_int v \<and> atim_window (sta_join_ibss_core b c junk v) = atim_window v \<and>
      ibss_name (sta_join_ibss_core b c junk v) = ibss_name v" for b c and v :: "'b inode_scheme"
    by (auto simp: sta_join_ibss_core_def smalloc_def Let_def split: list.splits)
  show ?thesis
    using ll e(1) s(1)
    by (auto simp: ieee80211_rx_process_beacon_def a3 bi var name atim ether_addr_equal_def
        ieee80211_sta_join_ibss_def Let_def core ETH_ALEN_def simp del: length_append)
qed


definition inode0 :: inode where
  "inode0 = wlan.extend wlan0 (inode.fields [0x44, 0x69, 0x73, 0x6e, 0x65, 0x79] True False 0 0 4
     [2, 0, 0, 0, 0, 1] True True True [] 0 packetbuf1 (replicate 8 (replicate 8 0, 0)) [])"

theorem beacon_adopted_witness:
  "\<exists>skb len t. skb_len skb = len \<and>
     ieee80211_rx_process_beacon skb len 0 (inode0\<lparr>ibss_joined := False, beacon_int := 7, ibss_name := replicate 6 0\<rparr>) = Some t \<and>
     ibss_joined t \<and> beacon_int t = 100 \<and> ibss_name t = [0x44, 0x69, 0x73, 0x6e, 0x65, 0x79] \<and> atim_window t = 20"
proof -
  define frame where "frame = beacon_header 0x0080 [0, 0] [2, 0, 0, 0, 0, 1] (bssid inode0) [0, 0] (replicate 8 7)
    (beacon_int inode0) 18 @ ie_encode (beacon_elements 1 inode0) @ [6, 2, 9, 9]"
  define skb where "skb = \<lparr>skb_data = Some (frame @ []), skb_len = of_nat (length frame), skb_heap = True\<rparr>"
  define r where "r = inode0\<lparr>ibss_joined := False, beacon_int := 7, ibss_name := replicate 6 0\<rparr>"
  have 1: "length (ibss_name inode0) = 6" "length (bssid inode0) = 6"
    by (simp_all add: inode0_def inode.defs wlan.defs wlan0_def)
  have 2: "length [0 :: u8, 0] = 2" "length [2 :: u8, 0, 0, 0, 0, 1] = 6" "length [0 :: u8, 0] = 2"
    "length (replicate 8 (7 :: u8)) = 8" by simp_all
  have lf: "length frame < 2 ^ 32"
    using 1 by (simp add: frame_def beacon_elements_def ETH_ALEN_def supp_rates_def)
  have "bssid r = bssid inode0 \<and> \<not> ibss_joined r" "atim_window inode0 = 20" "beacon_int inode0 = 100"
    "ibss_name inode0 = [0x44, 0x69, 0x73, 0x6e, 0x65, 0x79]"
    by (simp_all add: r_def inode0_def inode.defs wlan.defs wlan0_def)
  with beacon_adopted [OF 1 2, of skb frame "[]" "of_nat (length frame)" 18 "[6, 2, 9, 9]" 0 r] lf
  show ?thesis unfolding r_def [symmetric] by (intro exI [of _ skb]) (auto simp: skb_def frame_def)
qed

end
