(* ===== verification/WlanRx.thy ===== *)
theory WlanRx
  imports Ibss
begin

text \<open>
  Reception: from the device to the queue of received frames (\<open>ar9170_schedule_handle_mpdu\<close>,
  \<open>ar9170_async_rx\<close>), through the 802.11 handlers (\<open>core/net/mac/ieee80211_ibss/ieee80211_rx.c\<close>) and the
  MAC driver (\<open>core/net/mac/ieee80211_driver.c\<close>) to the input of the network layer, of which
  \<open>net_input\<close> lists the payloads with their senders.
\<close>

definition MAX_SEQNOS :: nat where "MAX_SEQNOS = 8"

section \<open>The MAC driver\<close>

definition net_deliver :: "'a inode_scheme \<Rightarrow> 'a inode_scheme" where
  "net_deliver s = s\<lparr>net_input := net_input s @
     [(read_at (packetbuf_dataptr (pbuf s)) (unat (packetbuf_datalen (pbuf s))) (pb_mem (pbuf s)),
       packetbuf_addr 24 (pbuf s))]\<rparr>"

text \<open>The copying loop that makes room in the history.\<close>

definition seqnos_shift :: "(rimeaddr \<times> u16) list \<Rightarrow> (rimeaddr \<times> u16) list" where
  "seqnos_shift h = foldl (\<lambda>h i. h[i := h ! (i - 1)]) h (rev [1..<MAX_SEQNOS])"

definition mac_frame_input :: "'a inode_scheme \<Rightarrow> 'a inode_scheme" where
  "mac_frame_input s =
     (let (hdr, p) = packetbuf_hdrreduce (24 + 2 + 6) (pbuf s); s1 = s\<lparr>pbuf := p\<rparr> in
      if \<not> hdr then s1
      else if packetbuf_totlen p > 0 \<and> packetbuf_datalen p > 0 then
        if list_ex (\<lambda>i. packetbuf_attr 13 p = snd (received_seqnos s ! i) \<and>
              packetbuf_addr 24 p = fst (received_seqnos s ! i)) [0..<MAX_SEQNOS] then s1
        else net_deliver (s1\<lparr>received_seqnos :=
               (seqnos_shift (received_seqnos s))[MAX_SEQNOS - 1 := (packetbuf_addr 24 p, packetbuf_attr 13 p)]\<rparr>)
      else net_deliver s1)"

section \<open>Data frames\<close>

text \<open>
  The comparison \<open>skb->len-32-4 > 0\<close> is one of unsigned numbers. \<open>junk\<close> are the last two bytes of
  the receiver's address, which the code does not set.
\<close>

definition ieee80211_rx_process_data_mpdu ::
  "sk_buff \<Rightarrow> u16 \<Rightarrow> u8 list \<Rightarrow> 'a inode_scheme \<Rightarrow> 'a inode_scheme option" where
  "ieee80211_rx_process_data_mpdu skb now junk s =
     (if skb_data skb = None \<or> skb_len skb = 0 then Some s
      else do {
        a1 \<leftarrow> addr1 skb;
        if \<not> ether_addr_equal a1 (vif_addr s) \<and> \<not> ether_addr_equal a1 eth_broadcast then Some s
        else do {
          a3 \<leftarrow> addr3 skb;
          if \<not> ether_addr_equal a3 (bssid s) then Some s
          else if skb_len skb - 32 - 4 > 0 then do {
            seq \<leftarrow> seq_ctrl skb;
            a2 \<leftarrow> addr2 skb;
            data \<leftarrow> skb_bytes 0 (unat (skb_len skb - of_nat FCS_LEN)) skb;
            let p = packetbuf_set_addr 25 (a1 @ junk) (packetbuf_set_addr 24 (a2 @ [0, 0])
                 (packetbuf_set_attr 13 seq (packetbuf_set_attr 5 now (packetbuf_clear (pbuf s)))));
            if packetbuf_dataptr p + length data > length (pb_mem p) then None
            else Some (mac_frame_input (s\<lparr>pbuf := packetbuf_set_datalen (ucast (skb_len skb - of_nat FCS_LEN))
                   (p\<lparr>pb_mem := write_at (packetbuf_dataptr p) data (pb_mem p)\<rparr>)\<rparr>))
          }
          else Some s
        }
      })"

section \<open>ATIM frames\<close>

definition ieee80211_rx_handle_ATIM_pkt :: "ether \<Rightarrow> ether \<Rightarrow> ether \<Rightarrow> 'a wlan_scheme \<Rightarrow> 'a wlan_scheme option" where
  "ieee80211_rx_handle_ATIM_pkt da sa a3 s =
     (let s1 = s\<lparr>off_override := off_override s OR PS_OFF_ATIM\<rparr> in do {
        awake \<leftarrow> ieee80211_psm_is_remote_da_awake sa s1;
        s2 \<leftarrow> (if \<not> awake then ieee80211_psm_add_awake_node sa s1 else Some s1);
        if ether_addr_equal eth_broadcast da then Some s2
        else if ps_mode s2 = IBSS_MH_PSM then ieee80211_mh_psm_handle_atim_packet a3 s2
        else Some s2
      })"

definition ieee80211_rx_process_atim :: "sk_buff \<Rightarrow> 'a wlan_scheme \<Rightarrow> 'a wlan_scheme option" where
  "ieee80211_rx_process_atim skb s =
     (if psm_state s \<noteq> ATIM_WINDOW \<and> psm_state s \<noteq> PRE_TBTT then Some s
      else do {
        da \<leftarrow> addr1 skb;
        if \<not> ether_addr_equal da (vif_addr s) \<and> \<not> ether_addr_equal da eth_broadcast then Some s
        else if conf_ps s then do {
          sa \<leftarrow> addr2 skb;
          a3 \<leftarrow> addr3 skb;
          ieee80211_rx_handle_ATIM_pkt da sa a3 s
        }
        else Some s
      })"

text \<open>The memory for the new neighbour is used without a check.\<close>

definition add_awake_unchecked :: "ether \<Rightarrow> 'a wlan_scheme \<Rightarrow> 'a wlan_scheme option" where
  "add_awake_unchecked a s =
     (let (ok, s1) = smalloc s in
      if \<not> ok then None
      else do {
        (added, l, s2) \<leftarrow> queue_add_tail a AR9170_PSM_MAX_AWAKE_NODES_LIST_LEN (wake_neighbors s1) s1;
        Some (s2\<lparr>wake_neighbors := l\<rparr>)
      })"

definition ieee80211_handle_ATIM_status_rsp :: "bool \<Rightarrow> 'a wlan_scheme \<Rightarrow> 'a wlan_scheme option" where
  "ieee80211_handle_ATIM_status_rsp success s =
     (if \<not> success \<and> \<not> ether_addr_equal eth_broadcast (last_ATIM_DA s) then Some s
      else if ps_mode s = IBSS_STD_PSM \<or> ps_mode s = IBSS_MH_PSM then do {
        awake \<leftarrow> ieee80211_psm_is_remote_da_awake (last_ATIM_DA s) s;
        if awake then Some s
        else do {
          s1 \<leftarrow> add_awake_unchecked (last_ATIM_DA s) s;
          let s2 = s1\<lparr>last_ATIM_DA := replicate ETH_ALEN 0\<rparr>;
          if ps_mode s2 = IBSS_MH_PSM then do {
            s3 \<leftarrow> add_awake_unchecked (last_ATIM_A3 s2) s2;
            Some (s3\<lparr>last_ATIM_A3 := replicate ETH_ALEN 0\<rparr>)
          }
          else Some s2
        }
      }
      else Some s)"

section \<open>Dispatch\<close>

definition ieee80211_rx_process_mgmt_mpdu :: "sk_buff \<Rightarrow> u32 \<Rightarrow> 'a inode_scheme \<Rightarrow> 'a inode_scheme option" where
  "ieee80211_rx_process_mgmt_mpdu skb junk s = do {
     fc \<leftarrow> frame_control skb;
     if ieee80211_is_beacon fc then ieee80211_rx_process_beacon skb (skb_len skb) junk s
     else if ieee80211_is_atim fc then ieee80211_rx_process_atim skb s
     else Some s
   }"

definition ieee80211_rx :: "sk_buff \<Rightarrow> u16 \<Rightarrow> u8 list \<Rightarrow> u32 \<Rightarrow> 'a inode_scheme \<Rightarrow> 'a inode_scheme option" where
  "ieee80211_rx skb now junk junk_len s = do {
     fc \<leftarrow> frame_control skb;
     if ieee80211_is_mgmt fc then ieee80211_rx_process_mgmt_mpdu skb junk_len s
     else if ieee80211_is_data fc then ieee80211_rx_process_data_mpdu skb now junk s
     else Some s
   }"

text \<open>
  \<open>buf\<close> are the bytes from the start of the frame on; whole words are copied, which needs the bytes
  up to the next multiple of four.
\<close>

definition ar9170_schedule_handle_mpdu :: "u8 list \<Rightarrow> int \<Rightarrow> 'a wlan_scheme \<Rightarrow> 'a wlan_scheme option" where
  "ar9170_schedule_handle_mpdu buf len s =
     (if len \<le> 0 then Some s
      else do {
        n \<leftarrow> pq_len (rx_pending_pkts s);
        if n \<ge> AR9170_MAX_PENDING_RX_PKT_QUEUE_LEN then Some s
        else
          let (ok1, s1) = smalloc s in
          if \<not> ok1 then Some s1
          else let words = DIV_ROUND_UP (nat len) 4; (ok2, s2) = smalloc s1 in
          if \<not> ok2 then Some s2
          else if words * 4 > length buf then None
          else map_option snd (ar9170_op_add_pending_pkt RxQ
            (Some \<lparr>skb_data = Some (take (words * 4) buf), skb_len = of_int len, skb_heap = True\<rparr>) s2)
      })"

definition ar9170_async_rx :: "u16 \<Rightarrow> u8 list \<Rightarrow> u32 \<Rightarrow> 'a inode_scheme \<Rightarrow> 'a inode_scheme option" where
  "ar9170_async_rx now junk junk_len s = do {
     next_skb \<leftarrow> pq_get (rx_pending_pkts s);
     s1 \<leftarrow> (case next_skb of
         None \<Rightarrow> Some s
       | Some skb \<Rightarrow> do {
           t \<leftarrow> ieee80211_rx skb now junk junk_len s;
           freed \<leftarrow> skb_free_data skb;
           Some t
         });
     q \<leftarrow> pq_remove_first (rx_pending_pkts s1);
     Some (s1\<lparr>rx_pending_pkts := q\<rparr>)
   }"


section \<open>The history of sequence numbers\<close>

text \<open>A frame of the packet buffer that passes the length checks, its key and its payload.\<close>

definition mac_ok :: "packetbuf \<Rightarrow> bool" where
  "mac_ok p \<longleftrightarrow> 32 < unat (buflen p) \<and> unat (buflen p) + unat (bufptr p) < 65536 \<and> hdrptr p = 48"

definition mac_key :: "packetbuf \<Rightarrow> rimeaddr \<times> u16" where
  "mac_key p = (packetbuf_addr 24 p, packetbuf_attr 13 p)"

definition mac_payload :: "packetbuf \<Rightarrow> u8 list" where
  "mac_payload p = read_at (PACKETBUF_HDR_SIZE + unat (bufptr p) + 32) (unat (buflen p) - 32) (pb_mem p)"

lemma seqnos_shift_eq: "seqnos_shift [a, b, c, d, e, f, g, h] = [a, a, b, c, d, e, f, g]"
  by (simp add: seqnos_shift_def MAX_SEQNOS_def upt_rec numeral_2_eq_2)

lemma list8: "length h = 8 \<Longrightarrow> \<exists>a b c d e f g i. h = [a, b, c, d, e, f, g, i]"
  by (simp add: eval_nat_numeral length_Suc_conv) blast

lemma mac_frame_input_eq:
  assumes p: "mac_ok (pbuf s)" and h: "length (received_seqnos s) = 8"
  shows "\<exists>q. mac_frame_input s = (if mac_key (pbuf s) \<in> set (received_seqnos s) then s\<lparr>pbuf := q\<rparr>
    else s\<lparr>pbuf := q, received_seqnos := (seqnos_shift (received_seqnos s))[7 := mac_key (pbuf s)],
      net_input := net_input s @ [(mac_payload (pbuf s), fst (mac_key (pbuf s)))]\<rparr>)"
proof -
  define p where "p = pbuf s"
  define q where "q = p\<lparr>bufptr := bufptr p + 32, buflen := buflen p - 32\<rparr>"
  have pk: "32 < unat (buflen p)" "unat (buflen p) + unat (bufptr p) < 65536" "hdrptr p = 48"
    using assms(1) by (simp_all add: mac_ok_def p_def)
  have le: "(32 :: u16) \<le> buflen p" using pk(1) by (simp add: word_le_nat_alt)
  have u1: "unat (buflen p - 32) = unat (buflen p) - 32" using le by (simp add: unat_sub)
  have u2: "unat (bufptr p + 32) = unat (bufptr p) + 32"
    using pk(1,2) unfolding unat_word_ariths(1) by simp
  have red: "packetbuf_hdrreduce (24 + 2 + 6) p = (True, q)"
  proof -
    have "uint (buflen p) = int (unat (buflen p))" by simp
    with pk(1) have "\<not> uint (buflen p) < 24 + 2 + 6" by linarith
    then show ?thesis by (simp add: packetbuf_hdrreduce_def q_def)
  qed
  have pos: "packetbuf_datalen q > 0" "packetbuf_totlen q > 0"
    using pk u1 by (simp_all add: packetbuf_datalen_def packetbuf_totlen_def packetbuf_hdrlen_def q_def
        PACKETBUF_HDR_SIZE_def word_less_nat_alt)
  have key: "packetbuf_attr 13 q = snd (mac_key p)" "packetbuf_addr 24 q = fst (mac_key p)"
    by (simp_all add: mac_key_def q_def packetbuf_attr_def packetbuf_addr_def)
  have dup: "list_ex (\<lambda>i. packetbuf_attr 13 q = snd (received_seqnos s ! i) \<and>
      packetbuf_addr 24 q = fst (received_seqnos s ! i)) [0..<MAX_SEQNOS] = (mac_key p \<in> set (received_seqnos s))"
    using h unfolding key by (simp add: list_ex_iff MAX_SEQNOS_def in_set_conv_nth prod_eq_iff Bex_def) metis
  have pay: "read_at (packetbuf_dataptr q) (unat (packetbuf_datalen q)) (pb_mem q) = mac_payload p"
    by (simp add: mac_payload_def packetbuf_dataptr_def packetbuf_datalen_def q_def u1 u2 ac_simps)
  have "mac_frame_input s = (if mac_key p \<in> set (received_seqnos s) then s\<lparr>pbuf := q\<rparr>
    else s\<lparr>pbuf := q, received_seqnos := (seqnos_shift (received_seqnos s))[7 := mac_key p],
      net_input := net_input s @ [(mac_payload p, fst (mac_key p))]\<rparr>)"
    unfolding mac_frame_input_def p_def [symmetric] red Let_def prod.case dup
    using pos by (simp add: net_deliver_def pay key MAX_SEQNOS_def)
  then show ?thesis unfolding p_def by blast
qed


text \<open>What the packets after a first one become when only the last accepted key is remembered.\<close>

fun accept_new :: "rimeaddr \<times> u16 \<Rightarrow> packetbuf list \<Rightarrow> packetbuf list" where
  "accept_new k [] = []"
| "accept_new k (p # ps) = (if mac_key p = k then accept_new k ps else p # accept_new (mac_key p) ps)"

definition mac_inputs :: "packetbuf list \<Rightarrow> 'a inode_scheme \<Rightarrow> 'a inode_scheme" where
  "mac_inputs ps s = foldl (\<lambda>s p. mac_frame_input (s\<lparr>pbuf := p\<rparr>)) s ps"

lemma mac_inputs_accept:
  assumes "\<forall>p \<in> set ps. mac_ok p \<and> mac_key p \<noteq> z" and "received_seqnos s = replicate 7 z @ [k]"
  shows "net_input (mac_inputs ps s) = net_input s @ map (\<lambda>p. (mac_payload p, fst (mac_key p))) (accept_new k ps)"
  using assms
proof (induction ps arbitrary: s k)
  case Nil then show ?case by (simp add: mac_inputs_def)
next
  case (Cons p ps)
  define s1 where "s1 = mac_frame_input (s\<lparr>pbuf := p\<rparr>)"
  have st: "mac_inputs (p # ps) s = mac_inputs ps s1" by (simp add: mac_inputs_def s1_def)
  have h: "received_seqnos s = [z, z, z, z, z, z, z, k]" using Cons.prems(2) by (simp add: eval_nat_numeral)
  have sh: "(seqnos_shift [z, z, z, z, z, z, z, k])[7 := mac_key p] = [z, z, z, z, z, z, z, mac_key p]"
    unfolding seqnos_shift_eq by (simp add: eval_nat_numeral)
  have nz: "mac_key p \<noteq> z" using Cons.prems(1) by simp
  have ok: "mac_ok (pbuf (s\<lparr>pbuf := p\<rparr>))" "length (received_seqnos (s\<lparr>pbuf := p\<rparr>)) = 8"
    using Cons.prems(1) h by simp_all
  have mem: "mac_key p \<in> set [z, z, z, z, z, z, z, k] \<longleftrightarrow> mac_key p = k" using nz by simp
  have e: "pbuf (s\<lparr>pbuf := p\<rparr>) = p" "received_seqnos (s\<lparr>pbuf := p\<rparr>) = [z, z, z, z, z, z, z, k]"
    "net_input (s\<lparr>pbuf := p\<rparr>) = net_input s" using h by simp_all
  obtain q where q: "s1 = (if mac_key p \<in> set [z, z, z, z, z, z, z, k] then s\<lparr>pbuf := p\<rparr>\<lparr>pbuf := q\<rparr>
    else s\<lparr>pbuf := p\<rparr>\<lparr>pbuf := q, received_seqnos := (seqnos_shift [z, z, z, z, z, z, z, k])[7 := mac_key p],
      net_input := net_input s @ [(mac_payload p, fst (mac_key p))]\<rparr>)"
    using mac_frame_input_eq [OF ok, unfolded e, folded s1_def] by (elim exE) (rule that)
  then have s1: "s1 = (if mac_key p = k then s\<lparr>pbuf := q\<rparr>
    else s\<lparr>pbuf := q, received_seqnos := [z, z, z, z, z, z, z, mac_key p],
      net_input := net_input s @ [(mac_payload p, fst (mac_key p))]\<rparr>)"
    unfolding mem sh by simp
  have rs: "received_seqnos s1 = replicate 7 z @ [if mac_key p = k then k else mac_key p]"
    using s1 h by (simp add: eval_nat_numeral)
  show ?case using Cons.IH [OF _ rs] Cons.prems(1) s1 by (auto simp: st)
qed

text \<open>
  The history of sequence numbers remembers one packet instead of eight: with the history the
  driver starts from, the network layer receives every frame but those that repeat the frame accepted
  last, so that an older frame that arrives again is delivered twice.
\<close>

theorem mac_history_is_last:
  assumes "\<forall>p \<in> set ps. mac_ok p \<and> mac_key p \<noteq> (rimeaddr_null, 0)"
    and "received_seqnos s = replicate MAX_SEQNOS (rimeaddr_null, 0)"
  shows "net_input (mac_inputs ps s) =
      net_input s @ map (\<lambda>p. (mac_payload p, fst (mac_key p))) (accept_new (rimeaddr_null, 0) ps) \<and>
    (\<forall>a b. ps = [a, b, a] \<and> mac_key a \<noteq> mac_key b \<longrightarrow>
      map fst (net_input (mac_inputs ps s)) = map fst (net_input s) @ map mac_payload [a, b, a])"
proof -
  have "received_seqnos s = replicate 7 (rimeaddr_null, 0) @ [(rimeaddr_null, 0)]"
    using assms(2) by (simp add: MAX_SEQNOS_def eval_nat_numeral)
  from mac_inputs_accept [OF assms(1) this] assms(1) show ?thesis by auto
qed

definition mac_packet :: "u16 \<Rightarrow> packetbuf" where
  "mac_packet n = packetbuf1\<lparr>buflen := 34, pb_mem := replicate PACKETBUF_HDR_SIZE 0 @ replicate 32 0 @ [1, ucast n],
     packetbuf_attrs := (replicate 24 0)[13 := n], packetbuf_addrs := replicate 4 [2, 0, 0, 0, 0, 9, 0, 0]\<rparr>"

lemmas mac_packet_defs = mac_ok_def mac_key_def mac_payload_def mac_packet_def packetbuf1_def packetbuf_consts
  packetbuf_attr_def packetbuf_addr_def read_at_def rimeaddr_null_def

theorem mac_history_is_last_witness:
  "map fst (net_input (mac_inputs [mac_packet 1, mac_packet 2, mac_packet 1] inode0)) = [[1, 1], [1, 2], [1, 1]]"
proof -
  have ok: "\<forall>p \<in> set [mac_packet 1, mac_packet 2, mac_packet 1]. mac_ok p \<and> mac_key p \<noteq> (rimeaddr_null, 0)"
    by (simp add: mac_packet_defs)
  have k: "mac_key (mac_packet 1) \<noteq> mac_key (mac_packet 2)"
    and pay: "map mac_payload [mac_packet 1, mac_packet 2, mac_packet 1] = [[1, 1], [1, 2], [1, 1]]"
    by (simp_all add: mac_packet_defs)
  have acc: "map fst (map (\<lambda>p. (mac_payload p, fst (mac_key p))) (accept_new (rimeaddr_null, 0)
    [mac_packet 1, mac_packet 2, mac_packet 1])) = [[1, 1], [1, 2], [1, 1]]"
    using ok k pay by simp
  have s0: "received_seqnos inode0 = replicate MAX_SEQNOS (rimeaddr_null, 0)" "net_input inode0 = []"
    by (simp_all add: inode0_def inode.defs wlan.defs wlan0_def MAX_SEQNOS_def rimeaddr_null_def)
  from mac_history_is_last [OF ok s0(1)] k show ?thesis by (simp only: acc s0(2) append_Nil)
qed

section \<open>From one node to the next\<close>

lemmas pb_simps = packetbuf_set_attr_def packetbuf_set_addr_def packetbuf_clear_def packetbuf_attr_clear_def
  packetbuf_set_datalen_def packetbuf_dataptr_def packetbuf_consts packetbuf_attr_def packetbuf_addr_def

lemma data_frame_received:
  assumes d: "skb_data skb = Some (data_frame a1 a2 a3 dur seq pay @ fcs @ ext)"
      "skb_len skb = of_nat (length (data_frame a1 a2 a3 dur seq pay @ fcs))" "length fcs = 4"
    and l: "length a1 = 6" "length a2 = 6" "length a3 = 6" "length pay < 2 ^ 31" "pay \<noteq> []"
  shows "length (data_frame a1 a2 a3 dur seq pay) = 32 + length pay"
    "skb_len skb = of_nat (36 + length pay)" "skb_len skb \<noteq> 0" "skb_len skb - 32 - 4 > 0"
    "unat (skb_len skb - 4) = length (data_frame a1 a2 a3 dur seq pay)"
    "frame_control skb = Some 0x88" "addr1 skb = Some a1" "addr2 skb = Some a2" "addr3 skb = Some a3"
    "seq_ctrl skb = Some seq"
    "skb_bytes 0 (length (data_frame a1 a2 a3 dur seq pay)) skb = Some (data_frame a1 a2 a3 dur seq pay)"
proof -
  define f where "f = data_frame a1 a2 a3 dur seq pay"
  show lf: "length (data_frame a1 a2 a3 dur seq pay) = 32 + length pay" using l by (simp add: data_frame_def)
  show skl: "skb_len skb = of_nat (36 + length pay)" using d(2,3) lf by simp
  have len: "unat (skb_len skb) = 36 + length pay" unfolding skl using l(4) by (subst unat_of_nat_u32) simp_all
  then show "skb_len skb \<noteq> 0" by auto
  have e: "skb_len skb - 4 = of_nat (32 + length pay)" "skb_len skb - 32 - 4 = of_nat (length pay)"
    by (simp_all add: skl)
  show "unat (skb_len skb - 4) = length (data_frame a1 a2 a3 dur seq pay)"
    unfolding e lf using l(4) by (subst unat_of_nat_u32) simp_all
  have "unat (skb_len skb - 32 - 4) = length pay"
    unfolding e using l(4) by (subst unat_of_nat_u32) simp_all
  with l(5) show "skb_len skb - 32 - 4 > 0" by (simp add: word_less_nat_alt)
  show "skb_bytes 0 (length (data_frame a1 a2 a3 dur seq pay)) skb = Some (data_frame a1 a2 a3 dur seq pay)"
    using d(1) by (simp add: skb_bytes_def read_at_def)
qed (use d(1) l le16_of_le16_bytes [of "0x88" "[]"] le16_of_le16_bytes [of seq "[]"] in
    \<open>simp_all add: frame_control_def addr1_def addr2_def addr3_def seq_ctrl_def skb_bytes_def data_frame_def hdr_3addr_at\<close>)

lemma rx_data_delivers:
  assumes d: "skb_data skb = Some (data_frame a1 a2 a3 dur seq pay @ fcs @ ext)"
      "skb_len skb = of_nat (length (data_frame a1 a2 a3 dur seq pay @ fcs))" "length fcs = 4"
    and l: "length a1 = 6" "length a2 = 6" "length a3 = 6" "pay \<noteq> []" "length pay + 80 \<le> length (pb_mem (pbuf s))"
      "length (pb_mem (pbuf s)) < 65536"
    and a: "a1 = vif_addr s \<or> a1 = eth_broadcast" "a3 = bssid s"
    and h: "length (received_seqnos s) = 8" "(a2 @ [0, 0], seq) \<notin> set (received_seqnos s)"
  shows "\<exists>t. ieee80211_rx skb now junk jl s = Some t \<and> net_input t = net_input s @ [(pay, a2 @ [0, 0])] \<and>
    rx_pending_pkts t = rx_pending_pkts s \<and>
    (a2 @ [0, 0], seq) \<in> set (received_seqnos t)"
proof -
  define f where "f = data_frame a1 a2 a3 dur seq pay"
  have lf: "length f = 32 + length pay" using l by (simp add: f_def data_frame_def)
  have l': "length pay < 2 ^ 31" using l(5,6) by simp
  note R = data_frame_received [OF d l(1-3) l' l(4)]
  note fields = R(6-10) R(11) [folded f_def] and skl = R(2) and g = R(3,4) and sub = R(5) [folded f_def]
  define p where "p = packetbuf_set_addr 25 (a1 @ junk) (packetbuf_set_addr 24 (a2 @ [0, 0])
     (packetbuf_set_attr 13 seq (packetbuf_set_attr 5 now (packetbuf_clear (pbuf s)))))"
  define q where "q = packetbuf_set_datalen (ucast (skb_len skb - of_nat FCS_LEN))
     (p\<lparr>pb_mem := write_at (packetbuf_dataptr p) f (pb_mem p)\<rparr>)"
  have rx: "ieee80211_rx skb now junk jl s = Some (mac_frame_input (s\<lparr>pbuf := q\<rparr>))"
  proof -
    have room: "\<not> packetbuf_dataptr p + length f > length (pb_mem p)"
      using l(5) lf by (simp add: p_def pb_simps)
    have "ieee80211_rx_process_data_mpdu skb now junk s = Some (mac_frame_input (s\<lparr>pbuf := q\<rparr>))"
      using d(1) g a room by (auto simp: ieee80211_rx_process_data_mpdu_def fields sub FCS_LEN_def ether_addr_equal_def Let_def
          p_def [symmetric] q_def)
    then show ?thesis by (simp add: ieee80211_rx_def fields frame_type_defs)
  qed
  have bl: "unat (buflen q) = length f"
  proof -
    have "skb_len skb - 4 = of_nat (length f)" using lf by (simp add: skl)
    then have "buflen q = of_nat (length f)"
      using l(5,6) lf ucast_of_nat_u16 [of "length f"] ucast_u16_u32_u16 [of "of_nat (length f)"]
      by (simp add: q_def packetbuf_set_datalen_def FCS_LEN_def)
    then show ?thesis using l(5,6) lf by (simp only: unat_of_nat_u16)
  qed
  have m: "read_at (PACKETBUF_HDR_SIZE + 32) (length pay) (pb_mem q) = pay"
  proof -
    have "pb_mem q = write_at PACKETBUF_HDR_SIZE f (pb_mem (pbuf s))" by (simp add: q_def p_def pb_simps)
    moreover have "drop 32 f = pay" using l by (simp add: f_def data_frame_def)
    ultimately show ?thesis
      using read_write_inside [of PACKETBUF_HDR_SIZE "pb_mem (pbuf s)" 32 "length pay" f] l(5) lf
      by (simp add: packetbuf_consts read_at_def)
  qed
  have q: "mac_ok q" "mac_key q = (a2 @ [0, 0], seq)" "mac_payload q = pay"
    using bl m lf l(4-6) by (simp_all add: mac_ok_def mac_key_def mac_payload_def)
      (simp_all add: q_def p_def pb_simps)
  have "\<exists>q'. mac_frame_input (s\<lparr>pbuf := q\<rparr>) = s\<lparr>pbuf := q', received_seqnos :=
      (seqnos_shift (received_seqnos s))[7 := (a2 @ [0, 0], seq)], net_input := net_input s @ [(pay, a2 @ [0, 0])]\<rparr>"
    using mac_frame_input_eq [of "s\<lparr>pbuf := q\<rparr>"] q h by auto
  moreover have "(a2 @ [0, 0], seq) \<in> set ((seqnos_shift (received_seqnos s))[7 := (a2 @ [0, 0], seq)])"
    using list8 [OF h(1)] by (auto simp: seqnos_shift_eq eval_nat_numeral)
  ultimately show ?thesis using rx by auto
qed

lemma schedule_empty:
  assumes r: "rx_pending_pkts r = PQ []" "mallocs r = []" and b: "b \<noteq> []" "length b < 65536"
    and room: "DIV_ROUND_UP (length b) 4 * 4 \<le> length (b @ pad)"
  shows "\<exists>ext. ar9170_schedule_handle_mpdu (b @ pad) (int (length b)) r =
    Some (r\<lparr>rx_pending_pkts := PQ [\<lparr>skb_data = Some (b @ ext), skb_len = of_nat (length b), skb_heap = True\<rparr>]\<rparr>)"
proof -
  define n where "n = DIV_ROUND_UP (length b) 4 * 4"
  have n: "length b \<le> n" by (simp add: n_def DIV_ROUND_UP_def)
  then have t: "take n (b @ pad) = b @ take (n - length b) pad" by simp
  have l: "(of_nat (length b) :: u32) \<noteq> 0"
  proof
    assume "(of_nat (length b) :: u32) = 0"
    then have "unat (of_nat (length b) :: u32) = 0" by simp
    then show False using b by (subst (asm) unat_of_nat_u32) simp_all
  qed
  have "ar9170_op_add_pending_pkt RxQ (Some \<lparr>skb_data = Some (take n (b @ pad)), skb_len = of_nat (length b), skb_heap = True\<rparr>) r =
    Some (True, r\<lparr>rx_pending_pkts := PQ [\<lparr>skb_data = Some (take n (b @ pad)), skb_len = of_nat (length b), skb_heap = True\<rparr>]\<rparr>)"
    using r l by (simp add: ar9170_op_add_pending_pkt_def get_queue_def set_queue_def queue_add_tail_def pq_add_tail_def
        AR9170_MAX_PENDING_RX_PKT_QUEUE_LEN_def Let_def)
  then have "ar9170_schedule_handle_mpdu (b @ pad) (int (length b)) r =
    Some (r\<lparr>rx_pending_pkts := PQ [\<lparr>skb_data = Some (take n (b @ pad)), skb_len = of_nat (length b), skb_heap = True\<rparr>]\<rparr>)"
    using r b(1) room by (simp add: ar9170_schedule_handle_mpdu_def pq_len_def AR9170_MAX_PENDING_RX_PKT_QUEUE_LEN_def
        Let_def n_def [symmetric] del: take_append)
  then show ?thesis unfolding t by blast
qed

lemma async_rx_runs:
  assumes "rx_pending_pkts r = PQ [k]" "skb_heap k" "ieee80211_rx k now junk jl r = Some t" "rx_pending_pkts t = rx_pending_pkts r"
  shows "ar9170_async_rx now junk jl r = Some (t\<lparr>rx_pending_pkts := PQ []\<rparr>)"
  using assms by (simp add: ar9170_async_rx_def pq_get_def pq_remove_first_def skb_free_data_def)

text \<open>
  C1. A packet that one node's network layer hands to its MAC driver is a frame in the packet queue, a
  super frame on the USB pipe when the transmitter runs and its two uninitialised pointers happen to
  be harmless (the run is undefined behaviour when they are not), and, when the device of another node of the
  same IBSS delivers the bytes with the checksum after them, exactly that payload with the sender's
  address at that node's network layer, whether the frame was for the node or for all, and in
  multi-hop power saving too.
\<close>

theorem wlan_end_to_end:
  assumes p: "pb_wf p" "packetbufptr p = Own" "buflen p \<noteq> 0" "6 \<le> length (packetbuf_addr 25 p)"
    and s: "length (vif_addr s) = 6" "length (bssid s) = 6" "ibss_joined s" "tx_pending_pkts s = PQ []" "mallocs s = []"
      "\<not> tx_async_lock s" "\<not> ps_state s" "psm_state s = TX_WINDOW" "is_started s" "tx_list s = []" "usb_runs s = []"
    and r: "take 6 (packetbuf_addr 25 p) \<in> {vif_addr r, eth_broadcast}" "bssid r = bssid s"
      "rx_pending_pkts r = PQ []" "mallocs r = []" "length (received_seqnos r) = 8"
      "(vif_addr s @ [0, 0], tx_packets_sent s + 0x10) \<notin> set (received_seqnos r)"
      "unat (buflen p) + 80 \<le> length (pb_mem (pbuf r))" "length (pb_mem (pbuf r)) < 65536"
    and air: "length fcs = 4" "3 \<le> length pad"
  shows "\<exists>s1. ieee80211_drv_tx p s = Some (True, s1) \<and>
    (pointers_harmless s \<longrightarrow> (\<exists>s2 c r1 r2. ar9170_async_tx DataQ s1 = Some s2 \<and> usb_out s2 = usb_out s @ [c] \<and>
      ar9170_schedule_handle_mpdu (drop 32 c @ fcs @ pad) (int (length (drop 32 c @ fcs))) r = Some r1 \<and>
      ar9170_async_rx now junk jl r1 = Some r2 \<and>
      net_input r2 = net_input r @ [(pb_payload ext p, vif_addr s @ [0, 0])] \<and> rx_pending_pkts r2 = PQ [])) \<and>
    (\<not> pointers_harmless s \<longrightarrow> ar9170_async_tx DataQ s1 = None)"
proof -
  define rcv where "rcv = packetbuf_addr 25 p"
  define seq where "seq = tx_packets_sent s + 0x10"
  define pay where "pay = pb_payload ext p"
  define a3 where "a3 = (if ps_mode s = IBSS_MH_PSM then rcv else bssid s)"
  define d where "d = data_frame rcv (vif_addr s) a3 (tx_duration s) seq pay"
  define f where "f = data_frame (take 6 rcv) (vif_addr s) (bssid s) (tx_duration s) seq pay"
  define s1 where "s1 = s\<lparr>tx_packets_sent := seq,
    tx_pending_pkts := PQ [\<lparr>skb_data = Some d, skb_len = of_nat (length d), skb_heap = True\<rparr>]\<rparr>"
  define c where "c = tx_chunk DataQ s1 d"
  have lr: "6 \<le> length rcv" "6 \<le> length a3" using p(4) s(2) by (simp_all add: rcv_def a3_def)
  have lp: "length pay = unat (buflen p)" "unat (buflen p) \<le> 512"
    using p(1) by (simp_all add: pay_def) (simp add: pb_wf_def packetbuf_consts)
  have ld: "length d = 32 + length pay" "length f = 32 + length pay"
    using lr s(1,2) by (simp_all add: d_def f_def data_frame_def)
  have tx: "ieee80211_drv_tx p s = Some (True, s1)"
    using drv_tx_ok [OF p(1,2,4) _ _ s(3,4,5), of ext] s(1,2)
    by (simp add: Let_def s1_def d_def a3_def rcv_def seq_def pay_def)
  define s2 where "s2 = set_queue DataQ (PQ []) (s1\<lparr>tx_list := [c], tx_async_lock := True, usb_out := usb_out s1 @ [c],
    stack_words := tl (stack_words s1)\<rparr>)"
  have h: "pointers_harmless s1 = pointers_harmless s" by (simp add: s1_def pointers_harmless_def)
  have async: "ar9170_async_tx DataQ s1 = Some s2" if "pointers_harmless s"
    unfolding c_def s2_def
    by (rule async_tx_sends) (use s lp(2) h that in \<open>simp_all add: s1_def get_queue_def ld(1) lp(1)\<close>)
  have stray: "ar9170_async_tx DataQ s1 = None" if "\<not> pointers_harmless s"
    by (rule async_tx_stray [of DataQ s1 d "[]"]) (use s lp(2) h that in \<open>simp_all add: s1_def get_queue_def ld(1) lp(1)\<close>)
  have dc: "drop 32 c = f"
  proof -
    have "write_at 16 (take 6 (bssid s)) d = data_frame rcv (vif_addr s) (bssid s) (tx_duration s) seq pay"
      unfolding d_def data_frame_def using lr s(1,2) by (intro hdr_3addr_at(7)) simp_all
    moreover have "data_frame rcv (vif_addr s) (bssid s) (tx_duration s) seq pay = f"
      by (simp add: f_def data_frame_def hdr_3addr_def ETH_ALEN_def)
    ultimately show ?thesis
      using s(2) by (simp add: c_def tx_chunk_def s1_def) (simp add: d_def a3_def)
  qed
  have "\<exists>ext'. ar9170_schedule_handle_mpdu ((f @ fcs) @ pad) (int (length (f @ fcs))) r =
    Some (r\<lparr>rx_pending_pkts := PQ [\<lparr>skb_data = Some ((f @ fcs) @ ext'), skb_len = of_nat (length (f @ fcs)), skb_heap = True\<rparr>]\<rparr>)"
  proof (rule schedule_empty [OF r(3,4)])
    show "DIV_ROUND_UP (length (f @ fcs)) 4 * 4 \<le> length ((f @ fcs) @ pad)"
      using air(2) by (simp add: DIV_ROUND_UP_def)
  qed (use ld lp air(1) in auto)
  then obtain e k where k: "k = \<lparr>skb_data = Some (f @ fcs @ e), skb_len = of_nat (length (f @ fcs)), skb_heap = True\<rparr>"
    and sch: "ar9170_schedule_handle_mpdu (f @ fcs @ pad) (int (length (f @ fcs))) r = Some (r\<lparr>rx_pending_pkts := PQ [k]\<rparr>)"
    by auto
  have pay0: "pay \<noteq> []" using lp(1) p(3) by (auto simp: unat_eq_0)
  have "\<exists>t. ieee80211_rx k now junk jl (r\<lparr>rx_pending_pkts := PQ [k]\<rparr>) = Some t \<and>
      net_input t = net_input (r\<lparr>rx_pending_pkts := PQ [k]\<rparr>) @ [(pay, vif_addr s @ [0, 0])] \<and>
      rx_pending_pkts t = rx_pending_pkts (r\<lparr>rx_pending_pkts := PQ [k]\<rparr>) \<and>
      (vif_addr s @ [0, 0], seq) \<in> set (received_seqnos t)"
    by (rule rx_data_delivers [of _ "take 6 rcv" _ "bssid s" "tx_duration s" _ _ fcs e])
       (use r s(1,2) lr(1) air(1) lp(1) pay0 in \<open>auto simp: k f_def rcv_def seq_def\<close>)
  then obtain t where t: "ieee80211_rx k now junk jl (r\<lparr>rx_pending_pkts := PQ [k]\<rparr>) = Some t"
      "net_input t = net_input r @ [(pay, vif_addr s @ [0, 0])]" "rx_pending_pkts t = PQ [k]"
    by auto
  have "ar9170_async_rx now junk jl (r\<lparr>rx_pending_pkts := PQ [k]\<rparr>) = Some (t\<lparr>rx_pending_pkts := PQ []\<rparr>)"
    by (rule async_rx_runs [of _ k]) (use t in \<open>simp_all add: k\<close>)
  moreover have "usb_out s2 = usb_out s @ [c]" by (simp add: s2_def set_queue_def s1_def)
  moreover have "net_input (t\<lparr>rx_pending_pkts := PQ []\<rparr>) = net_input r @ [(pb_payload ext p, vif_addr s @ [0, 0])]"
    using t(2) by (simp add: pay_def)
  moreover have "rx_pending_pkts (t\<lparr>rx_pending_pkts := PQ []\<rparr>) = PQ []" by simp
  ultimately have "\<exists>c r1 r2. usb_out s2 = usb_out s @ [c] \<and>
      ar9170_schedule_handle_mpdu (drop 32 c @ fcs @ pad) (int (length (drop 32 c @ fcs))) r = Some r1 \<and>
      ar9170_async_rx now junk jl r1 = Some r2 \<and>
      net_input r2 = net_input r @ [(pb_payload ext p, vif_addr s @ [0, 0])] \<and> rx_pending_pkts r2 = PQ []"
    using sch unfolding dc [symmetric] by blast
  then show ?thesis using tx async stray by blast
qed

text \<open>
  A frame of the data type that reaches a joined node and holds more bytes than the packet buffer
  has room for is copied over its end: nothing checks its length, whoever sent it.
\<close>

theorem rx_data_overruns:
  assumes "skb_data skb = Some (data_frame a1 a2 (bssid s) dur seq pay @ fcs)"
      "skb_len skb = of_nat (length (data_frame a1 a2 (bssid s) dur seq pay @ fcs))" "length fcs = 4"
    and "length a1 = 6" "length a2 = 6" "length (bssid s) = 6" "a1 \<in> {vif_addr s, eth_broadcast}"
    and "length (pb_mem (pbuf s)) < length pay + 80" "pay \<noteq> []" "length pay < 2 ^ 31"
  shows "ieee80211_rx skb now junk jl s = None"
proof -
  have d: "skb_data skb = Some (data_frame a1 a2 (bssid s) dur seq pay @ fcs @ [])" using assms(1) by simp
  have l: "length pay < 2 ^ 31" using assms(10) by simp
  note R = data_frame_received [OF d assms(2-6) l assms(9)]
  have "ieee80211_rx_process_data_mpdu skb now junk s = None"
    using R assms(1,7,8) by (auto simp: ieee80211_rx_process_data_mpdu_def FCS_LEN_def ether_addr_equal_def Let_def pb_simps)
  then show ?thesis using R(6) by (simp add: ieee80211_rx_def frame_type_defs)
qed

theorem rx_data_overruns_witness:
  "ieee80211_rx \<lparr>skb_data = Some (data_frame eth_broadcast [2, 0, 0, 0, 0, 7] (bssid inode0) 0 16 (replicate 600 1) @ [1, 2, 3, 4]),
     skb_len = 636, skb_heap = True\<rparr> 0 [0, 0] 0 inode0 = None"
proof -
  have "length (bssid inode0) = 6" "length (pb_mem (pbuf inode0)) = 560" "length eth_broadcast = 6"
    by (simp_all add: inode0_def inode.defs wlan.defs wlan0_def packetbuf1_def ETH_ALEN_def)
  then show ?thesis
    by (intro rx_data_overruns [of _ eth_broadcast "[2, 0, 0, 0, 0, 7]" _ 0 16 "replicate 600 1" "[1, 2, 3, 4]"])
      (simp_all add: data_frame_def)
qed

definition node2 :: inode where
  "node2 = inode0\<lparr>vif_addr := [2, 0, 0, 0, 0, 2], pbuf := packetbuf1\<rparr>"

theorem wlan_end_to_end_witness:
  "\<exists>s1 s2 r1 r2 bs n. ieee80211_drv_tx packetbuf1 wlan0 = Some (True, s1) \<and> ar9170_async_tx DataQ s1 = Some s2 \<and>
     ar9170_schedule_handle_mpdu bs n node2 = Some r1 \<and> ar9170_async_rx 7 [0, 0] 0 r1 = Some r2 \<and>
     net_input r2 = [([1, 2, 3], [2, 0, 0, 0, 0, 1, 0, 0])]"
proof -
  have pay: "pb_payload (\<lambda>_. 0) packetbuf1 = [1, 2, 3]"
    by (simp add: pb_payload_def packetbufptr_bytes_def packetbuf1_def read_at_def packetbuf_consts)
  have 1: "pb_wf packetbuf1" "packetbufptr packetbuf1 = Own" "buflen packetbuf1 \<noteq> 0" "6 \<le> length (packetbuf_addr 25 packetbuf1)"
    by (simp_all add: pb_wf_def packetbuf1_def packetbuf_consts packetbuf_addr_def)
  have 2: "length (vif_addr wlan0) = 6" "length (bssid wlan0) = 6" "ibss_joined wlan0" "tx_pending_pkts wlan0 = PQ []"
    "mallocs wlan0 = []" "\<not> tx_async_lock wlan0" "\<not> ps_state wlan0" "psm_state wlan0 = TX_WINDOW" "is_started wlan0"
    "tx_list wlan0 = []" "usb_runs wlan0 = []"
    by (simp_all add: wlan0_def)
  have 3: "take 6 (packetbuf_addr 25 packetbuf1) \<in> {vif_addr node2, eth_broadcast}" "bssid node2 = bssid wlan0"
    "rx_pending_pkts node2 = PQ []" "mallocs node2 = []" "length (received_seqnos node2) = 8"
    "(vif_addr wlan0 @ [0, 0], tx_packets_sent wlan0 + 0x10) \<notin> set (received_seqnos node2)"
    "unat (buflen packetbuf1) + 80 \<le> length (pb_mem (pbuf node2))" "length (pb_mem (pbuf node2)) < 65536"
    by (simp_all add: node2_def inode0_def inode.defs wlan.defs wlan0_def packetbuf1_def packetbuf_addr_def packetbuf_consts)
  have h: "pointers_harmless wlan0" by (rule pointers_harmless_wlan0) (simp add: wlan0_def)
  have n: "net_input node2 = []" "vif_addr wlan0 = [2, 0, 0, 0, 0, 1]"
    by (simp_all add: node2_def inode0_def inode.defs wlan.defs wlan0_def)
  show ?thesis
    using wlan_end_to_end [OF 1 2 3, of "[1, 2, 3, 4]" "[0, 0, 0]" 7 "[0, 0]" 0 "\<lambda>_. 0"] h unfolding pay n by auto
qed

end
