(* ===== verification/Rtimer.thy ===== *)
theory Rtimer
  imports Prelude
begin

text \<open>
  The real-time timer (\<open>core/sys/rtimer.c\<close>) over the two timer channels of the SAM3X
  (\<open>cpu/rtimer-arch.c\<close>). Channel 0 counts the time, whose upper half is \<open>rt_msb\<close>; channel 1 runs
  with the compare value \<open>rt_rc\<close> when it is armed. All users share one \<open>struct rtimer\<close>, whose
  callback and time are \<open>rt_func\<close> and \<open>rt_time\<close>; \<open>rt_pending\<close> tells whether \<open>next_rtimer\<close> refers to
  it. Readings of the clock within one call return the same value.
\<close>

type_synonym u64 = "64 word"

record 'f rtimers =
  rt_msb :: u64
  rt_tc :: u32
  rt_next_time :: u64
  rt_rc :: "u32 option"
  rt_func :: 'f
  rt_time :: u64
  rt_pending :: bool

definition RTIMER_MILLISECOND :: int where "RTIMER_MILLISECOND = 10500000 div 1000"

definition rtimer_arch_now :: "'f rtimers \<Rightarrow> u64" where
  "rtimer_arch_now r = push_bit 32 (rt_msb r) OR ucast (rt_tc r)"

definition rtimer_arch_schedule :: "u64 \<Rightarrow> 'f rtimers \<Rightarrow> 'f rtimers" where
  "rtimer_arch_schedule t r =
     (let r1 = r\<lparr>rt_next_time := t\<rparr>; clock_to_wait = t - rtimer_arch_now r1 in
      if clock_to_wait \<le> 0x100000000 then r1\<lparr>rt_rc := Some (ucast clock_to_wait)\<rparr> else r1)"

definition rtimer_set :: "u64 \<Rightarrow> 'f \<Rightarrow> 'f rtimers \<Rightarrow> 'f rtimers" where
  "rtimer_set time func r =
     (let first = \<not> rt_pending r; r1 = r\<lparr>rt_func := func, rt_time := time, rt_pending := True\<rparr> in
      if first then rtimer_arch_schedule time r1 else r1)"

text \<open>
  The callback runs on the state of its user, and fails where that does; of it, \<open>get\<close> and \<open>put\<close> read and write the timer.
\<close>

definition rtimer_run_next ::
  "('s \<Rightarrow> 'f rtimers) \<Rightarrow> ('f rtimers \<Rightarrow> 's \<Rightarrow> 's) \<Rightarrow> ('f \<Rightarrow> 's \<Rightarrow> 's option) \<Rightarrow> 's \<Rightarrow> 's option" where
  "rtimer_run_next get put call s =
     (if \<not> rt_pending (get s) then Some s
      else do {
        s1 \<leftarrow> call (rt_func (get s)) (put ((get s)\<lparr>rt_pending := False\<rparr>) s);
        Some (if rt_pending (get s1) then put (rtimer_arch_schedule (rt_time (get s1)) (get s1)) s1 else s1)
      })"

text \<open>The interrupts: the counter has overflown; channel 1 has reached its compare value.\<close>

definition TC0_Handler :: "'f rtimers \<Rightarrow> 'f rtimers" where
  "TC0_Handler r =
     (let r1 = r\<lparr>rt_msb := rt_msb r + 1\<rparr>; clock_to_wait = rt_next_time r1 - rtimer_arch_now r1 in
      if clock_to_wait \<le> 0x100000000 \<and> clock_to_wait > 0 then r1\<lparr>rt_rc := Some (ucast clock_to_wait)\<rparr> else r1)"

definition TC1_Handler ::
  "('s \<Rightarrow> 'f rtimers) \<Rightarrow> ('f rtimers \<Rightarrow> 's \<Rightarrow> 's) \<Rightarrow> ('f \<Rightarrow> 's \<Rightarrow> 's option) \<Rightarrow> 's \<Rightarrow> 's option" where
  "TC1_Handler get put call s = rtimer_run_next get put call (put ((get s)\<lparr>rt_rc := None\<rparr>) s)"

section \<open>When the timer fires\<close>

text \<open>A time that is not more than \<open>2 ^ 32\<close> ticks ahead arms the channel with the ticks left.\<close>

lemma now_simps [simp]:
  "rtimer_arch_now (r\<lparr>rt_next_time := t\<rparr>) = rtimer_arch_now r"
  "rtimer_arch_now (r\<lparr>rt_rc := c\<rparr>) = rtimer_arch_now r"
  "rtimer_arch_now (r\<lparr>rt_func := f\<rparr>) = rtimer_arch_now r"
  "rtimer_arch_now (r\<lparr>rt_time := t\<rparr>) = rtimer_arch_now r"
  "rtimer_arch_now (r\<lparr>rt_pending := b\<rparr>) = rtimer_arch_now r"
  by (simp_all add: rtimer_arch_now_def)

lemma rtimer_set_arms:
  assumes "\<not> rt_pending r" "d < 0x100000000"
  shows "rtimer_set (rtimer_arch_now r + d) f r = r\<lparr>rt_func := f, rt_time := rtimer_arch_now r + d,
    rt_pending := True, rt_next_time := rtimer_arch_now r + d, rt_rc := Some (ucast d)\<rparr>"
  using assms by (simp add: rtimer_set_def rtimer_arch_schedule_def Let_def less_imp_le)

text \<open>A timer that is set while another is pending takes its callback, at the time of the other.\<close>

lemma rtimer_set_pending:
  "rt_pending r \<Longrightarrow> rtimer_set t f r = r\<lparr>rt_func := f, rt_time := t, rt_pending := True\<rparr>"
  by (simp add: rtimer_set_def)

text \<open>
  Time as the timer sees it: the counter moves on, it overflows, and timers are set. While the time
  of the pending timer is more than \<open>2 ^ 32\<close> ticks ahead of the clock, channel 1 stays unarmed.
\<close>

datatype 'f rt_event = RtClock u32 | RtOverflow u32 | RtSet u64 'f

fun rt_event_step :: "'f rtimers \<Rightarrow> 'f rt_event \<Rightarrow> 'f rtimers" where
  "rt_event_step r (RtClock c) = r\<lparr>rt_tc := c\<rparr>"
| "rt_event_step r (RtOverflow c) = TC0_Handler (r\<lparr>rt_tc := c\<rparr>)"
| "rt_event_step r (RtSet t f) = rtimer_set t f r"

definition rt_stuck :: "'f rtimers \<Rightarrow> bool" where
  "rt_stuck r \<longleftrightarrow> rt_pending r \<and> rt_rc r = None"

lemma rt_stuck_set: "rt_stuck r \<Longrightarrow> rt_stuck (rtimer_set t f r) \<and> rt_next_time (rtimer_set t f r) = rt_next_time r \<and>
    rtimer_arch_now (rtimer_set t f r) = rtimer_arch_now r"
  by (simp add: rt_stuck_def rtimer_set_pending)

lemma rt_stuck_overflow:
  assumes "rt_stuck r" "rt_next_time r - rtimer_arch_now (r\<lparr>rt_msb := rt_msb r + 1\<rparr>) > 0x100000000"
  shows "rt_stuck (TC0_Handler r)"
  using assms by (simp add: rt_stuck_def TC0_Handler_def Let_def not_le)

lemma rtimer_set_past:
  assumes "\<not> rt_pending r" "rt_rc r = None" "t - rtimer_arch_now r > 0x100000000"
  shows "rt_stuck (rtimer_set t f r)"
  using assms by (simp add: rt_stuck_def rtimer_set_def rtimer_arch_schedule_def Let_def not_le)

lemma past_far:
  fixes d now :: u64
  assumes "0 < d" "d < 0xFFFFFFFF00000000 - 1"
  shows "(now - d) - now > 0x100000000"
proof -
  have d: "0 < uint d" "uint d < 0xFFFFFFFF00000000 - 1"
    using assms by (simp_all add: word_less_def)
  have "uint (- d) = (- uint d) mod 2 ^ 64" by (simp add: uint_word_ariths)
  also have "\<dots> = 2 ^ 64 - uint d" using d by (subst zmod_zminus1_eq_if) simp
  finally have "uint (- d) > 0x100000000" using d by simp
  then show ?thesis by (simp add: word_less_def)
qed

end
