(* ===== verification/UsbCmd.thy ===== *)
theory UsbCmd
  imports WlanRx Rtimer
begin

text \<open>
  Commands to the device: the interrupt-out pipe with its list of pending commands
  (\<open>ar9170_usb/usb_wrapper.c\<close>), the commands of \<open>ar9170_usb/usb_cmd_wrapper.c\<close> and the upload of the
  beacon (\<open>ar9170_wifi/ar9170tx.c\<close>), with the state of the device object that they and the handlers
  of its responses share.

  \<open>cmd_list\<close> are the buffers of the C list, of which the first is being transferred (a list whose
  root has no buffer is empty); \<open>int_runs\<close> are the results of the coming calls of
  \<open>uhi_vendor_int_out_run\<close> (success when exhausted) and \<open>int_out\<close> what the pipe was handed. \<open>readbuf\<close>
  are the bytes at the caller's response buffer. A synchronous command waits until an interrupt clears
  \<open>cmd_wait\<close>: \<open>irq\<close> is what the interrupts of that time do.
\<close>

datatype psm_cb = AtimWindowStart | AtimWindowEnd | SoftBeaconTx

datatype iftype = NL80211_IFTYPE_STATION | NL80211_IFTYPE_AP | NL80211_IFTYPE_ADHOC | NL80211_IFTYPE_OTHER

record dev = inode +
  rt :: "psm_cb rtimers"
  main_vif :: "iftype option"
  soft_beacon_int :: u16
  accepting_cmd :: bool
  beacon_ctrl :: bool
  beacon_cancel :: bool
  clear_filtering :: bool
  cmd_list :: "u8 list list"
  int_runs :: "bool list"
  int_out :: "u8 list list"
  cmd_wait :: bool
  readbuf :: "u8 list option"
  readlen :: u32
  fw_beacon_addr :: u32
  fw_beacon_max_len :: u32
  vif_beacon :: "sk_buff option"
  cmd_seq :: int
  fw_cmd_bufs :: int
  fw_boot_wait :: bool
  err_counter :: nat
  bug_counter :: nat
  rx_plcp :: "u8 list"
  rx_has_plcp :: bool
  rx_dropped :: u32
  tx_fcs_errors :: u32
  sniffer_enabled :: bool
  filter_state :: u32
  channel_band :: "bool option"
  bulk_pool :: "u8 list"
  bulk_listening :: bool

definition INTR_ENDPOINT_MAX_SIZE :: nat where "INTR_ENDPOINT_MAX_SIZE = 64"
definition AR9170_MAX_CMD_BUFFER_LEN :: nat where "AR9170_MAX_CMD_BUFFER_LEN = 8"
definition AR9170_MAX_CMD_PAYLOAD_LEN :: nat where "AR9170_MAX_CMD_PAYLOAD_LEN = 60"
definition AR9170_CMD_HDR_LEN :: nat where "AR9170_CMD_HDR_LEN = 4"

abbreviation (input) CARL9170_CMD_WREG_ASYNC :: u8 where "CARL9170_CMD_WREG_ASYNC \<equiv> 0x41"
abbreviation (input) CARL9170_CMD_BCN_CTRL_ASYNC :: u8 where "CARL9170_CMD_BCN_CTRL_ASYNC \<equiv> 0x45"
abbreviation (input) CARL9170_CMD_RX_FILTER :: u8 where "CARL9170_CMD_RX_FILTER \<equiv> 0x07"
abbreviation (input) CARL9170_CMD_ASYNC_FLAG :: u8 where "CARL9170_CMD_ASYNC_FLAG \<equiv> 0x40"

definition le32_of :: "u8 list \<Rightarrow> u32" where
  "le32_of b = ucast (b ! 0) OR push_bit 8 (ucast (b ! 1)) OR push_bit 16 (ucast (b ! 2)) OR push_bit 24 (ucast (b ! 3))"

section \<open>The interrupt-out pipe\<close>

definition uhi_int_run :: "'a dev_scheme \<Rightarrow> bool \<times> 'a dev_scheme" where
  "uhi_int_run s = (case int_runs s of [] \<Rightarrow> (True, s) | b # bs \<Rightarrow> (b, s\<lparr>int_runs := bs\<rparr>))"

definition ar9170_usb_send_cmd :: "u8 list \<Rightarrow> 'a dev_scheme \<Rightarrow> bool \<times> 'a dev_scheme" where
  "ar9170_usb_send_cmd cmd s =
     (let (ok, s1) = uhi_int_run (s\<lparr>cmd_async_lock := True\<rparr>)
      in (ok, if ok then s1\<lparr>int_out := int_out s1 @ [cmd]\<rparr> else s1))"

definition ar9170_usb_write_reg :: "u8 list \<Rightarrow> 'a dev_scheme \<Rightarrow> bool \<times> 'a dev_scheme" where
  "ar9170_usb_write_reg cmd s =
     (if length cmd > INTR_ENDPOINT_MAX_SIZE then (False, s)
      else if cmd_list s = [] then ar9170_usb_send_cmd cmd (s\<lparr>cmd_list := [cmd]\<rparr>)
      else if length (cmd_list s) - 1 > AR9170_MAX_CMD_BUFFER_LEN then (False, s)
      else let (ok, s1) = smalloc s in
        if ok then (True, s1\<lparr>cmd_list := cmd_list s1 @ [cmd]\<rparr>) else (False, s1))"

definition ar9170_interrupt_out_transfer_done :: "bool \<Rightarrow> 'a dev_scheme \<Rightarrow> 'a dev_scheme" where
  "ar9170_interrupt_out_transfer_done noerror s =
     (if noerror then s\<lparr>cmd_list := tl (cmd_list s), cmd_async_lock := False\<rparr> else s)"

section \<open>Commands\<close>

definition exec_cmd :: "u8 \<Rightarrow> u8 list \<Rightarrow> 'a dev_scheme \<Rightarrow> bool \<times> 'a dev_scheme" where
  "exec_cmd cmd data s =
     (let (ok, s1) = smalloc s in
      if \<not> ok then (False, s1)
      else ar9170_usb_write_reg ([of_nat (length data), cmd, 0, 0] @ data) s1)"

definition ar9170_exec_cmd :: "('a dev_scheme \<Rightarrow> 'a dev_scheme option) \<Rightarrow> u8 \<Rightarrow> u8 list \<Rightarrow> u32 \<Rightarrow>
    u8 list option \<Rightarrow> 'a dev_scheme \<Rightarrow> (bool \<times> 'a dev_scheme) option" where
  "ar9170_exec_cmd irq cmd payload outlen out s =
     (if length payload > AR9170_MAX_CMD_PAYLOAD_LEN then None
      else
        let (result, s1) = exec_cmd cmd payload (s\<lparr>readbuf := out, readlen := outlen, cmd_wait := True\<rparr>) in
        if cmd AND CARL9170_CMD_ASYNC_FLAG = 0 then do {
          s2 \<leftarrow> irq s1;
          if cmd_wait s2 then None else Some (result, s2)
        }
        else Some (result, s1\<lparr>cmd_wait := False\<rparr>))"

text \<open>The response \<open>buf\<close> of \<open>len\<close> bytes; what does not fit in the caller's buffer is written past it.\<close>

definition ar9170_cmd_callback :: "nat \<Rightarrow> u8 list \<Rightarrow> 'a dev_scheme \<Rightarrow> 'a dev_scheme option" where
  "ar9170_cmd_callback len buf s = (case readbuf s of
     None \<Rightarrow> Some (s\<lparr>cmd_wait := False\<rparr>)
   | Some b \<Rightarrow>
       if len \<ge> AR9170_CMD_HDR_LEN then
         if length buf < len \<or> len - AR9170_CMD_HDR_LEN > length b then None
         else Some (s\<lparr>readbuf := Some (write_at 0 (read_at AR9170_CMD_HDR_LEN (len - AR9170_CMD_HDR_LEN) buf) b),
                      cmd_wait := False\<rparr>)
       else Some (s\<lparr>cmd_wait := False\<rparr>))"

definition ar9170_bcn_ctrl :: "u32 \<Rightarrow> u32 \<Rightarrow> u32 \<Rightarrow> u32 \<Rightarrow> 'a dev_scheme \<Rightarrow> bool \<times> 'a dev_scheme" where
  "ar9170_bcn_ctrl vifid mode addr len s =
     (let (ok, s1) = smalloc s in
      if \<not> ok then (True, s1)
      else let (done, s2) = exec_cmd CARL9170_CMD_BCN_CTRL_ASYNC
        (le32_bytes vifid @ le32_bytes mode @ le32_bytes addr @ le32_bytes len) s1 in (\<not> done, s2))"

definition ar9170_flush_cab :: "u32 \<Rightarrow> 'a dev_scheme \<Rightarrow> bool \<times> 'a dev_scheme" where
  "ar9170_flush_cab vifid s = ar9170_bcn_ctrl vifid 0 0 0 s"

definition ar9170_rx_filter :: "('a dev_scheme \<Rightarrow> 'a dev_scheme option) \<Rightarrow> u32 \<Rightarrow> 'a dev_scheme \<Rightarrow>
    (bool \<times> 'a dev_scheme) option" where
  "ar9170_rx_filter irq f s = map_option (\<lambda>(ok, s1). (\<not> ok, s1))
     (ar9170_exec_cmd irq CARL9170_CMD_RX_FILTER (le32_bytes f) 0 None s)"

section \<open>Asynchronous register writes\<close>

text \<open>
  The macros \<open>ar9170_async_regwrite_*\<close>: registers are collected in a command of at most seven. The
  collected registers are \<open>None\<close> when there is no command buffer. A write returns whether the code
  jumps to the end of the sequence. At the end, a device that does not accept commands while
  registers are collected makes the code jump to the same place again and again.
\<close>

definition PAYLOAD_MAX :: nat where "PAYLOAD_MAX = 64 div 4 - 1"

type_synonym regwrites = "(u32 \<times> u32) list option"

definition regwrite_get_buf :: "'a dev_scheme \<Rightarrow> bool \<times> regwrites \<times> 'a dev_scheme" where
  "regwrite_get_buf s = (let (ok, s1) = smalloc s in (ok, if ok then Some [] else None, s1))"

definition regwrite_flush :: "(u32 \<times> u32) list \<Rightarrow> 'a dev_scheme \<Rightarrow> bool \<times> 'a dev_scheme" where
  "regwrite_flush regs s = (let (ok, s1) = exec_cmd CARL9170_CMD_WREG_ASYNC
     (concat (map (\<lambda>(r, v). le32_bytes r @ le32_bytes v) regs)) s in (\<not> ok, s1))"

fun regwrite_all :: "(u32 \<times> u32) list \<Rightarrow> regwrites \<Rightarrow> bool \<Rightarrow> 'a dev_scheme \<Rightarrow> regwrites \<times> bool \<times> 'a dev_scheme" where
  "regwrite_all [] buf err s = (buf, err, s)"
| "regwrite_all (rv # rvs) buf err s =
     (case (case buf of None \<Rightarrow> regwrite_get_buf s | Some regs \<Rightarrow> (True, buf, s)) of
        (_, None, s1) \<Rightarrow> (None, True, s1)
      | (_, Some regs, s1) \<Rightarrow>
          if Suc (length regs) \<ge> PAYLOAD_MAX div 2 then
            if accepting_cmd s1
            then let (e, s2) = regwrite_flush (regs @ [rv]) s1 in regwrite_all rvs None e s2
            else (Some (regs @ [rv]), err, s1)
          else regwrite_all rvs (Some (regs @ [rv])) err s1)"

definition regwrite_finish :: "regwrites \<Rightarrow> bool \<Rightarrow> 'a dev_scheme \<Rightarrow> (bool \<times> 'a dev_scheme) option" where
  "regwrite_finish buf err s = (case buf of
     None \<Rightarrow> Some (err, s)
   | Some regs \<Rightarrow> if err \<or> regs = [] then Some (err, s)
       else if accepting_cmd s then Some (regwrite_flush regs s) else None)"

definition async_regwrites :: "(u32 \<times> u32) list \<Rightarrow> 'a dev_scheme \<Rightarrow> (bool \<times> 'a dev_scheme) option" where
  "async_regwrites rvs s =
     (case regwrite_get_buf s of
        (_, None, s1) \<Rightarrow> Some (True, s1)
      | (_, Some regs, s1) \<Rightarrow>
          case regwrite_all rvs (Some regs) False s1 of (buf, err, s2) \<Rightarrow> regwrite_finish buf err s2)"

section \<open>The beacon\<close>

text \<open>
  The registers of a beacon: two for the modulation, then the words of the frame. A word is left out
  when the byte of the new frame at the index of the word is that of the frame uploaded before.
\<close>

definition beacon_regs :: "u32 \<Rightarrow> u32 \<Rightarrow> u8 list \<Rightarrow> u8 list option \<Rightarrow> (u32 \<times> u32) list" where
  "beacon_regs addr len data old =
     (let ht1 = (push_bit 8 1 OR 0x70) OR (push_bit 21 34 AND 0x7e00000) OR (push_bit 27 5 AND 0x38000000) OR push_bit 7 1;
          plcp = push_bit 19 (len + of_nat FCS_LEN) + 0x0400
      in [(0x1c3000 + 0xda0, ht1), (0x1c3000 + 0xd90, plcp)] @
         map (\<lambda>i. (addr + 4 * of_nat i, le32_of (read_at (4 * i) 4 data)))
           (filter (\<lambda>i. case old of None \<Rightarrow> True | Some b \<Rightarrow> data ! i \<noteq> b ! i) [0..<DIV_ROUND_UP (unat len) 4]))"

definition beacon_store :: "u8 list \<Rightarrow> u32 \<Rightarrow> 'a dev_scheme \<Rightarrow> bool \<times> 'a dev_scheme" where
  "beacon_store data len s =
     (let (ok1, s1) = smalloc s in
      if \<not> ok1 then (False, s1\<lparr>vif_beacon := None\<rparr>)
      else let (ok2, s2) = smalloc s1 in
        if \<not> ok2 then (False, s2\<lparr>vif_beacon := Some \<lparr>skb_data = None, skb_len = 0, skb_heap = False\<rparr>\<rparr>)
        else (True, s2\<lparr>vif_beacon := Some \<lparr>skb_data = Some (take (unat len) data @
            replicate (AR9170_MAC_BCN_LENGTH_MAX - unat len) 0), skb_len = len, skb_heap = True\<rparr>\<rparr>))"

definition beacon_write :: "u32 \<Rightarrow> u32 \<Rightarrow> u8 list \<Rightarrow> 'a dev_scheme \<Rightarrow> (bool \<times> 'a dev_scheme) option" where
  "beacon_write addr len data s =
     (let old = Option.bind (vif_beacon s) skb_data in
      if 4 * DIV_ROUND_UP (unat len) 4 > length data then None
      else do {
        (err, s1) \<leftarrow> async_regwrites (beacon_regs addr len data old) s;
        let (ok, s2) = (if old = None then beacon_store data len s1 else (True, s1));
        Some (err \<or> \<not> ok, s2)
      })"

definition ar9170_update_beacon :: "bool \<Rightarrow> 'a dev_scheme \<Rightarrow> (bool \<times> 'a dev_scheme) option" where
  "ar9170_update_beacon submit s =
     (if \<not> beacon_enabled s then Some (False, s)
      else do {
        (skb, s1) \<leftarrow> ieee80211_beacon_get_tim s;
        (case skb of None \<Rightarrow> Some (True, s1)
         | Some k \<Rightarrow> (case skb_data k of None \<Rightarrow> Some (True, s1)
           | Some data \<Rightarrow>
               let off = ucast (vif_id s1) * of_nat AR9170_MAC_BCN_LENGTH_MAX;
                   addr = fw_beacon_addr s1 + off;
                   len = ((skb_len k + of_nat FCS_LEN + 3) div 4) * 4
               in if off + len > fw_beacon_max_len s1 then Some (True, s1)
               else if len > of_nat AR9170_MAC_BCN_LENGTH_MAX then Some (True, s1)
               else if submit then
                 Some (ar9170_bcn_ctrl (ucast (vif_id s1)) 1 addr (skb_len k + of_nat FCS_LEN) s1)
               else beacon_write addr (skb_len k) data s1))
      })"

definition ar9170_send_beacon_cmd :: "'a dev_scheme \<Rightarrow> (bool \<times> 'a dev_scheme) option" where
  "ar9170_send_beacon_cmd s = do {
     b \<leftarrow> ibss_beacon_buf s;
     Some (ar9170_bcn_ctrl (ucast (vif_id s)) 1 (fw_beacon_addr s) (skb_len b + of_nat FCS_LEN) s)
   }"

section \<open>What the device is told\<close>

text \<open>Register writes grouped as the macros group them, and the bytes of the commands.\<close>

fun groups :: "nat \<Rightarrow> 'b list \<Rightarrow> 'b list list" where
  "groups n xs = (if n = 0 \<or> xs = [] then [] else take n xs # groups n (drop n xs))"

declare groups.simps [simp del]

definition wreg_cmd :: "(u32 \<times> u32) list \<Rightarrow> u8 list" where
  "wreg_cmd regs = (let d = concat (map (\<lambda>(r, v). le32_bytes r @ le32_bytes v) regs) in
     [of_nat (length d), CARL9170_CMD_WREG_ASYNC, 0, 0] @ d)"

lemma length_wreg [simp]: "length (concat (map (\<lambda>(r, v). le32_bytes r @ le32_bytes v) regs)) = 8 * length regs"
  by (induction regs) (auto simp: le32_bytes_def)

text \<open>A command that is accepted: transferred at once when none is pending, else queued.\<close>

definition cmd_accept :: "u8 list list \<Rightarrow> 'a dev_scheme \<Rightarrow> 'a dev_scheme" where
  "cmd_accept cs s = (if cs = [] then s
     else if cmd_list s = [] then s\<lparr>cmd_list := cs, cmd_async_lock := True, int_out := int_out s @ [hd cs]\<rparr>
     else s\<lparr>cmd_list := cmd_list s @ cs\<rparr>)"

lemma cmd_accept_fields [simp]:
  "mallocs (cmd_accept cs s) = mallocs s" "int_runs (cmd_accept cs s) = int_runs s"
  "accepting_cmd (cmd_accept cs s) = accepting_cmd s" "cmd_list (cmd_accept cs s) = cmd_list s @ cs"
  "vif_beacon (cmd_accept cs s) = vif_beacon s"
  by (simp_all add: cmd_accept_def)

lemma cmd_accept_append: "cmd_accept ds (cmd_accept cs s) = cmd_accept (cs @ ds) s"
  by (simp add: cmd_accept_def)

lemma regwrite_flush_ok:
  assumes "mallocs s = []" "int_runs s = []" "length (cmd_list s) \<le> 9" "length regs \<le> 7"
  shows "regwrite_flush regs s = (False, cmd_accept [wreg_cmd regs] s)"
  using assms by (simp add: regwrite_flush_def exec_cmd_def wreg_cmd_def ar9170_usb_write_reg_def
      ar9170_usb_send_cmd_def uhi_int_run_def cmd_accept_def INTR_ENDPOINT_MAX_SIZE_def
      AR9170_MAX_CMD_BUFFER_LEN_def Let_def)

lemma groups_Nil [simp]: "groups n [] = []"
  by (simp add: groups.simps)

lemma groups_short: "xs \<noteq> [] \<Longrightarrow> length xs \<le> n \<Longrightarrow> groups n xs = [xs]"
  by (subst groups.simps) (cases xs; auto)

lemma groups_long: "length xs = n \<Longrightarrow> 0 < n \<Longrightarrow> groups n (xs @ ys) = xs # groups n ys"
  by (subst groups.simps) auto

lemma regwrite_all_sends:
  assumes "accepting_cmd s" "mallocs s = []" "int_runs s = []"
    and "length regs < 7" "length (cmd_list s) + (length regs + length rvs + 6) div 7 \<le> 10"
    and "regwrite_all rvs (if regs = [] \<and> fresh then None else Some regs) False s = (buf, err, t)"
  shows "\<exists>u. regwrite_finish buf err t = Some (False, u) \<and> u = cmd_accept (map wreg_cmd (groups 7 (regs @ rvs))) s"
  using assms
proof (induction rvs arbitrary: regs s fresh)
  case Nil
  then have buf: "buf = (if regs = [] \<and> fresh then None else Some regs)" "\<not> err" "t = s" by simp_all
  show ?case
  proof (cases "regs = []")
    case True then show ?thesis using buf by (simp add: regwrite_finish_def cmd_accept_def)
  next
    case False
    then have "length (cmd_list s) \<le> 9" using Nil.prems(5) by (cases regs) auto
    then show ?thesis using False buf Nil.prems by (simp add: regwrite_finish_def regwrite_flush_ok groups_short)
  qed
next
  case (Cons rv rvs)
  have st: "(case (if regs = [] \<and> fresh then None else Some regs) of None \<Rightarrow> regwrite_get_buf s
      | Some regs' \<Rightarrow> (True, if regs = [] \<and> fresh then None else Some regs, s)) = (True, Some regs, s)"
    using Cons.prems(2) by (simp add: regwrite_get_buf_def)
  show ?case
  proof (cases "length regs = 6")
    case True
    define s1 where "s1 = cmd_accept [wreg_cmd (regs @ [rv])] s"
    have l: "length (cmd_list s) \<le> 9" using Cons.prems(5) True by simp
    have "regwrite_all (rv # rvs) (if regs = [] \<and> fresh then None else Some regs) False s =
        regwrite_all rvs None False s1"
      unfolding regwrite_all.simps st
      using True Cons.prems(1-4) l regwrite_flush_ok [of s "regs @ [rv]"] by (simp add: PAYLOAD_MAX_def s1_def)
    then have "regwrite_all rvs (if [] = [] \<and> True then None else Some []) False s1 = (buf, err, t)"
      using Cons.prems(6) by simp
    from Cons.IH [OF _ _ _ _ _ this] obtain u where
      "regwrite_finish buf err t = Some (False, u)" "u = cmd_accept (map wreg_cmd (groups 7 rvs)) s1"
      using Cons.prems True by (auto simp: s1_def)
    moreover have "groups 7 (regs @ rv # rvs) = (regs @ [rv]) # groups 7 rvs"
      using groups_long [of "regs @ [rv]" 7 rvs] True by simp
    ultimately show ?thesis by (simp add: s1_def cmd_accept_append)
  next
    case False
    then have "regwrite_all (rv # rvs) (if regs = [] \<and> fresh then None else Some regs) False s =
        regwrite_all rvs (Some (regs @ [rv])) False s"
      unfolding regwrite_all.simps st using Cons.prems(4) by (simp add: PAYLOAD_MAX_def)
    then have "regwrite_all rvs (if regs @ [rv] = [] \<and> False then None else Some (regs @ [rv])) False s = (buf, err, t)"
      using Cons.prems(6) by simp
    from Cons.IH [OF Cons.prems(1-3) _ _ this] show ?thesis using Cons.prems(4,5) False by simp
  qed
qed

lemma async_regwrites_sends:
  assumes "accepting_cmd s" "mallocs s = []" "int_runs s = []" "length (cmd_list s) + (length rvs + 6) div 7 \<le> 10"
  shows "async_regwrites rvs s = Some (False, cmd_accept (map wreg_cmd (groups 7 rvs)) s)"
proof -
  obtain buf err t where r: "regwrite_all rvs (Some []) False s = (buf, err, t)" by (metis prod_cases3)
  have "regwrite_all rvs (if [] = [] \<and> False then None else Some []) False s = (buf, err, t)" using r by simp
  from regwrite_all_sends [OF assms(1-3) _ _ this] assms(2,4) show ?thesis
    by (simp add: async_regwrites_def regwrite_get_buf_def r)
qed

text \<open>
  The firmware's side of a register write command: the words are stored at their addresses, least
  byte first.
\<close>

definition dev_write :: "u32 \<times> u32 \<Rightarrow> (u32 \<Rightarrow> u8) \<Rightarrow> u32 \<Rightarrow> u8" where
  "dev_write rv m = (\<lambda>a. if a - fst rv < 4 then le32_bytes (snd rv) ! unat (a - fst rv) else m a)"

definition wreg_regs :: "u8 list \<Rightarrow> (u32 \<times> u32) list" where
  "wreg_regs cmd = (if cmd ! 1 = CARL9170_CMD_WREG_ASYNC
     then map (\<lambda>g. (le32_of (take 4 g), le32_of (drop 4 g))) (groups 8 (drop 4 cmd)) else [])"

definition dev_run :: "u8 list list \<Rightarrow> (u32 \<Rightarrow> u8) \<Rightarrow> u32 \<Rightarrow> u8" where
  "dev_run cmds = fold dev_write (concat (map wreg_regs cmds))"

lemma le32_of_bytes [simp]: "le32_of (le32_bytes w) = w"
proof (rule bit_word_eqI)
  fix n :: nat assume "n < LENGTH(32)"
  then have "n < 8 \<or> 8 \<le> n \<and> n < 16 \<or> 16 \<le> n \<and> n < 24 \<or> 24 \<le> n \<and> n < 32" by simp linarith
  then show "bit (le32_of (le32_bytes w)) n = bit w n"
    by (elim disjE conjE) (auto simp: le32_of_def le32_bytes_def bit_simps)
qed

lemma u8_high: "8 \<le> n \<Longrightarrow> \<not> bit (p :: u8) n"
  using bit_imp_le_length [of p n] by auto

lemma le32_bytes_of:
  assumes "length b = 4"
  shows "le32_bytes (le32_of b) = b"
proof -
  obtain p q r s where b: "b = [p, q, r, s]"
    using assms by (auto simp: length_Suc_conv numeral_eq_Suc)
  show ?thesis unfolding b le32_bytes_def le32_of_def
    by (auto intro!: bit_word_eqI simp: bit_simps u8_high)
qed

lemma length_le32_bytes [simp]: "length (le32_bytes w) = 4"
  by (simp add: le32_bytes_def)

lemma wreg_regs_cmd [simp]: "wreg_regs (wreg_cmd regs) = regs"
proof -
  have "map (\<lambda>g. (le32_of (take 4 g), le32_of (drop 4 g)))
      (groups 8 (concat (map (\<lambda>(r, v). le32_bytes r @ le32_bytes v) regs))) = regs"
  proof (induction regs)
    case (Cons rv regs)
    obtain r v where rv: "rv = (r, v)" by (cases rv)
    have "groups 8 ((le32_bytes r @ le32_bytes v) @ concat (map (\<lambda>(r, v). le32_bytes r @ le32_bytes v) regs)) =
        (le32_bytes r @ le32_bytes v) # groups 8 (concat (map (\<lambda>(r, v). le32_bytes r @ le32_bytes v) regs))"
      by (rule groups_long) simp_all
    then show ?case using Cons by (simp add: rv)
  qed simp
  then show ?thesis by (simp add: wreg_regs_def wreg_cmd_def Let_def)
qed

lemma concat_groups [simp]: "0 < n \<Longrightarrow> concat (groups n xs) = xs"
  by (induction n xs rule: groups.induct) (subst groups.simps, auto)

lemma dev_run_groups: "dev_run (map wreg_cmd (groups 7 regs)) = fold dev_write regs"
  by (simp add: dev_run_def comp_def)

lemma unat_minus_small:
  assumes "0 < n" "n < 2 ^ 32"
  shows "unat (- of_nat n :: u32) = 2 ^ 32 - n"
proof -
  have u: "uint (of_nat n :: u32) = int n" using assms by (simp add: unsigned_of_nat take_bit_nat_eq_self)
  have "uint (- of_nat n :: u32) = (- int n) mod 2 ^ 32" by (simp add: uint_word_ariths u)
  also have "\<dots> = 2 ^ 32 - int n" using assms by (subst zmod_zminus1_eq_if) auto
  finally show ?thesis using assms by (simp add: unat_eq_nat_uint nat_diff_distrib)
qed

lemma dev_write_below:
  assumes "a < r" "r < 0x80000000"
  shows "dev_write (r, v) m a = m a"
proof -
  have "a - r = - of_nat (unat r - unat a)" using assms(1) by (simp add: of_nat_diff word_less_nat_alt)
  moreover have "unat (- of_nat (unat r - unat a) :: u32) = 2 ^ 32 - (unat r - unat a)"
    using assms by (intro unat_minus_small) (simp_all add: word_less_nat_alt)
  ultimately have "\<not> a - r < 4" using assms by (simp add: word_less_nat_alt)
  then show ?thesis by (simp add: dev_write_def)
qed

text \<open>Words at distinct multiples of four from \<open>addr\<close>.\<close>

lemma fold_dev_write_words:
  assumes "distinct is" "\<forall>i \<in> set is. i < 64" "k < 256"
  shows "fold dev_write (map (\<lambda>i. (addr + 4 * of_nat i, w i)) is) m (addr + of_nat k) =
    (if k div 4 \<in> set is then le32_bytes (w (k div 4)) ! (k mod 4) else m (addr + of_nat k))"
  using assms(1,2)
proof (induction "is" arbitrary: m)
  case (Cons i "is")
  have e: "addr + of_nat k - (addr + 4 * of_nat i) = (of_nat k - of_nat (4 * i) :: u32)" by simp
  have hit: "(of_nat k - of_nat (4 * i) :: u32) < 4 \<longleftrightarrow> i = k div 4"
  proof (cases "4 * i \<le> k")
    case True
    then have "(of_nat k - of_nat (4 * i) :: u32) = of_nat (k - 4 * i)" by (simp add: of_nat_diff)
    moreover have "unat (of_nat (k - 4 * i) :: u32) = k - 4 * i" using assms(3) by (simp add: unat_of_nat_u32)
    ultimately show ?thesis using True by (auto simp: word_less_nat_alt)
  next
    case False
    then have "(of_nat k - of_nat (4 * i) :: u32) = - of_nat (4 * i - k)" by (simp add: of_nat_diff)
    moreover have "unat (- of_nat (4 * i - k) :: u32) = 2 ^ 32 - (4 * i - k)"
      using False Cons.prems(2) by (intro unat_minus_small) auto
    ultimately show ?thesis using False Cons.prems(2) by (auto simp: word_less_nat_alt)
  qed
  have off: "unat (of_nat k - of_nat (4 * (k div 4)) :: u32) = k mod 4"
  proof -
    have "(of_nat k - of_nat (4 * (k div 4)) :: u32) = of_nat (k - 4 * (k div 4))" by (rule of_nat_diff [symmetric]) simp
    moreover have "k - 4 * (k div 4) = k mod 4" by presburger
    ultimately show ?thesis by (simp add: unat_of_nat_u32)
  qed
  show ?case
  proof (cases "i = k div 4")
    case True
    have "fold dev_write (map (\<lambda>i. (addr + 4 * of_nat i, w i)) is) (dev_write (addr + 4 * of_nat i, w i) m) (addr + of_nat k) =
        dev_write (addr + 4 * of_nat i, w i) m (addr + of_nat k)"
      using Cons.IH [of "dev_write (addr + 4 * of_nat i, w i) m"] Cons.prems True by auto
    also have "\<dots> = le32_bytes (w (k div 4)) ! (k mod 4)"
      using hit off True unfolding dev_write_def fst_conv snd_conv e by simp
    finally show ?thesis using True by simp
  next
    case False
    then have "dev_write (addr + 4 * of_nat i, w i) m (addr + of_nat k) = m (addr + of_nat k)"
      using hit unfolding dev_write_def fst_conv snd_conv e by simp
    then show ?thesis using Cons.IH [of "dev_write (addr + 4 * of_nat i, w i) m"] Cons.prems False by auto
  qed
qed simp

lemma dev_run_beacon:
  assumes "n \<le> 252" "j < n" "length data = 256" "addr < 0x1c0000" "unat len = n"
  shows "dev_run (map wreg_cmd (groups 7 (beacon_regs addr len data old))) m (addr + of_nat j) =
    (case old of None \<Rightarrow> data ! j | Some b \<Rightarrow> if data ! (j div 4) = b ! (j div 4) then m (addr + of_nat j) else data ! j)"
proof -
  define ws where "ws = filter (\<lambda>i. case old of None \<Rightarrow> True | Some b \<Rightarrow> data ! i \<noteq> b ! i) [0..<DIV_ROUND_UP n 4]"
  have up: "DIV_ROUND_UP n 4 \<le> 63" using assms(1) by (simp add: DIV_ROUND_UP_def)
  have a: "addr + of_nat j < 0x1c3000"
  proof -
    have "unat (addr + of_nat j) = unat addr + j"
      using assms(1,2,4) by (subst unat_plus_simple [THEN iffD1])
        (simp_all add: word_le_nat_alt word_less_nat_alt unat_word_ariths unat_of_nat_u32)
    then show ?thesis using assms(1,2,4) by (simp add: word_less_nat_alt)
  qed
  have below: "dev_write (0x1c3da0, v) m (addr + of_nat j) = m (addr + of_nat j)"
    "dev_write (0x1c3d90, v) m (addr + of_nat j) = m (addr + of_nat j)" for v m
    by (rule dev_write_below, use a in \<open>auto intro: less_trans\<close>)+
  have read: "le32_bytes (le32_of (read_at (4 * (j div 4)) 4 data)) ! (j mod 4) = data ! j"
  proof -
    have l: "4 * (j div 4) + 4 \<le> length data" using assms(1-3) by presburger
    then have "le32_bytes (le32_of (read_at (4 * (j div 4)) 4 data)) = read_at (4 * (j div 4)) 4 data"
      by (intro le32_bytes_of) simp
    moreover have "read_at (4 * (j div 4)) 4 data ! (j mod 4) = data ! j" using l by (simp add: read_at_def)
    ultimately show ?thesis by simp
  qed
  have mem: "j div 4 \<in> set ws \<longleftrightarrow> (case old of None \<Rightarrow> True | Some b \<Rightarrow> data ! (j div 4) \<noteq> b ! (j div 4))"
    using assms(2) by (auto simp: ws_def DIV_ROUND_UP_def split: option.split)
  have words: "fold dev_write (map (\<lambda>i. (addr + 4 * of_nat i, le32_of (read_at (4 * i) 4 data))) ws) m (addr + of_nat j) =
      (if j div 4 \<in> set ws then data ! j else m (addr + of_nat j))" for m
    using up assms(1,2) by (subst fold_dev_write_words) (auto simp: ws_def read)
  show ?thesis
    unfolding dev_run_groups beacon_regs_def Let_def assms(5) ws_def [symmetric] fold_append comp_def
    by (simp add: words below mem split: option.split)
qed

text \<open>
  C18. After the commands of an upload have reached the device, its beacon memory holds the whole beacon
  when it is the first one. When an earlier beacon has been uploaded, a word is rewritten only if the
  byte at the index of the word, not one of its four bytes, has changed: a beacon that differs from the
  earlier one past the first quarter of its length leaves the old bytes in the device.
\<close>

theorem beacon_upload:
  assumes on: "beacon_enabled s" "vif_id s = 0" "256 \<le> fw_beacon_max_len s" "fw_beacon_addr s < 0x1c0000"
    and b: "ibss_beacon_buf s = Some k" "skb_data k = Some d" "length d = 256" "unat (skb_len k) \<le> 252"
    and cmd: "accepting_cmd s" "mallocs s = []" "int_runs s = []" "cmd_list s = []"
  shows "\<exists>t. ar9170_update_beacon False s = Some (False, t) \<and> int_out t = int_out s @ [hd (cmd_list t)] \<and>
    (\<forall>j < unat (skb_len k). \<forall>m. dev_run (cmd_list t) m (fw_beacon_addr s + of_nat j) =
      (let new = write_at 0 (le16_bytes 0x80) d in
       case Option.bind (vif_beacon s) skb_data of None \<Rightarrow> new ! j
       | Some old \<Rightarrow> if new ! (j div 4) = old ! (j div 4) then m (fw_beacon_addr s + of_nat j) else new ! j))"
proof -
  define n where "n = unat (skb_len k)"
  define new where "new = write_at 0 (le16_bytes 0x80) d"
  define old where "old = Option.bind (vif_beacon s) skb_data"
  define k' where "k' = k\<lparr>skb_data := Some new\<rparr>"
  define s1 where "s1 = s\<lparr>ibss_beacon_buf := Some k'\<rparr>"
  define regs where "regs = beacon_regs (fw_beacon_addr s) (skb_len k) new old"
  have ln: "length new = 256" using b(3) by (simp add: new_def)
  have tim: "ieee80211_beacon_get_tim s = Some (Some k', s1)"
    using b(1-3) by (simp add: ieee80211_beacon_get_tim_def skb_write_def new_def k'_def s1_def)
  have lr: "length regs \<le> 65"
    using b(4) by (auto simp: regs_def beacon_regs_def Let_def DIV_ROUND_UP_def intro!: order_trans [OF length_filter_le])
  have sends: "async_regwrites regs s1 = Some (False, cmd_accept (map wreg_cmd (groups 7 regs)) s1)"
    using cmd lr by (intro async_regwrites_sends) (simp_all add: s1_def)
  have len: "unat (((skb_len k + of_nat FCS_LEN + 3) div 4) * 4) \<le> 256"
  proof -
    have "unat (skb_len k + of_nat FCS_LEN + 3) = unat (skb_len k) + 7"
      using b(4) by (simp add: FCS_LEN_def unat_word_ariths)
    then have "unat ((skb_len k + of_nat FCS_LEN + 3) div 4) = (unat (skb_len k) + 7) div 4" by (simp add: unat_div)
    then show ?thesis using b(4) by (simp add: unat_word_ariths)
  qed
  have fits: "\<not> ((skb_len k + of_nat FCS_LEN + 3) div 4) * 4 > of_nat AR9170_MAC_BCN_LENGTH_MAX"
    "\<not> ((skb_len k + of_nat FCS_LEN + 3) div 4) * 4 > fw_beacon_max_len s"
    using len on(3) by (simp_all add: word_less_nat_alt word_le_nat_alt AR9170_MAC_BCN_LENGTH_MAX_def)
  define t where "t = snd (if old = None then beacon_store new (skb_len k) (cmd_accept (map wreg_cmd (groups 7 regs)) s1)
    else (True, cmd_accept (map wreg_cmd (groups 7 regs)) s1))"
  have room: "\<not> 4 * DIV_ROUND_UP (unat (skb_len k)) 4 > length new"
    using b(4) ln by (simp add: DIV_ROUND_UP_def)
  have vb: "vif_beacon s1 = vif_beacon s" by (simp add: s1_def)
  have bw: "beacon_write (fw_beacon_addr s) (skb_len k) new s1 = Some (False, t)"
    unfolding beacon_write_def Let_def vb old_def [symmetric] if_not_P [OF room] regs_def [symmetric] sends
    using cmd(2) by (simp add: t_def beacon_store_def s1_def)
  have up: "ar9170_update_beacon False s = Some (False, t)"
    using on(1,2) fits bw unfolding ar9170_update_beacon_def tim
    by (simp add: k'_def s1_def Let_def)
  have ct: "cmd_list t = map wreg_cmd (groups 7 regs)" "int_out t = int_out s @ [hd (cmd_list t)]"
  proof -
    have ne: "groups 7 regs \<noteq> []" by (subst groups.simps) (simp add: regs_def beacon_regs_def Let_def)
    have "cmd_list t = map wreg_cmd (groups 7 regs)" "int_out t = int_out s @ [hd (map wreg_cmd (groups 7 regs))]"
      using cmd(2,4) ne by (auto simp: t_def beacon_store_def s1_def cmd_accept_def)
    then show "cmd_list t = map wreg_cmd (groups 7 regs)" "int_out t = int_out s @ [hd (cmd_list t)]" by simp_all
  qed
  have "dev_run (cmd_list t) m (fw_beacon_addr s + of_nat j) =
      (case old of None \<Rightarrow> new ! j | Some b \<Rightarrow> if new ! (j div 4) = b ! (j div 4)
        then m (fw_beacon_addr s + of_nat j) else new ! j)" if "j < unat (skb_len k)" for j m
    unfolding ct regs_def by (rule dev_run_beacon [OF b(4) that ln on(4) refl])
  then show ?thesis using up ct(2) by (intro exI [of _ t]) (simp add: Let_def new_def [symmetric] old_def [symmetric])
qed

definition dev0 :: dev where
  "dev0 = inode.extend inode0 (dev.fields \<lparr>rt_msb = 0, rt_tc = 0, rt_next_time = 0, rt_rc = None,
      rt_func = AtimWindowStart, rt_time = 0, rt_pending = False\<rparr> (Some NL80211_IFTYPE_ADHOC) 20 True False False False
      [] [] [] False None 0 0x117000 256 None (-1) 4 False 0 0 (replicate 12 0) False 0 0 False 0 (Some False)
      [] True)"

definition bcn_buf :: "u8 \<Rightarrow> sk_buff" where
  "bcn_buf x = \<lparr>skb_data = Some (0x80 # 0 # replicate 98 0 @ x # replicate 155 0), skb_len = 120, skb_heap = True\<rparr>"

theorem beacon_upload_witness:
  "\<exists>t. ar9170_update_beacon False (dev0\<lparr>ibss_beacon_buf := Some (bcn_buf 9), vif_beacon := Some (bcn_buf 3)\<rparr>) = Some (False, t) \<and>
     dev_run (cmd_list t) (\<lambda>_. 3) (0x117000 + 100) = 3 \<and>
     (\<exists>d. skb_data (bcn_buf 9) = Some d \<and> write_at 0 (le16_bytes 0x80) d ! 100 = 9)"
proof -
  define s where "s = dev0\<lparr>ibss_beacon_buf := Some (bcn_buf 9), vif_beacon := Some (bcn_buf 3)\<rparr>"
  define d where "d = (0x80 :: u8) # 0 # replicate 98 0 @ 9 # replicate 155 0"
  have 1: "beacon_enabled s" "vif_id s = 0" "256 \<le> fw_beacon_max_len s" "fw_beacon_addr s < 0x1c0000"
    and 3: "accepting_cmd s" "mallocs s = []" "int_runs s = []" "cmd_list s = []"
    and v: "Option.bind (vif_beacon s) skb_data = Some ((0x80 # 0 # replicate 98 0 @ 3 # replicate 155 0))" "fw_beacon_addr s = 0x117000"
    by (simp_all add: s_def dev0_def inode0_def dev.defs inode.defs wlan.defs wlan0_def bcn_buf_def)
  have 2: "ibss_beacon_buf s = Some (bcn_buf 9)" "skb_data (bcn_buf 9) = Some d" "length d = 256"
    "unat (skb_len (bcn_buf 9)) \<le> 252"
    by (simp_all add: s_def bcn_buf_def d_def)
  have n: "write_at 0 (le16_bytes 0x80) d = d" "d ! 100 = 9" "d ! 25 = 0"
    by (simp_all add: d_def write_at_def le16_bytes_def nth_append nth_Cons')
  obtain t where t: "ar9170_update_beacon False s = Some (False, t)"
    "\<forall>j < 120. \<forall>m. dev_run (cmd_list t) m (0x117000 + of_nat j) =
       (if d ! (j div 4) = (0x80 # 0 # replicate 98 0 @ 3 # replicate 155 0) ! (j div 4) then m (0x117000 + of_nat j) else d ! j)"
    using beacon_upload [OF 1 2 3] by (auto simp: v n(1) Let_def bcn_buf_def)
  have "dev_run (cmd_list t) (\<lambda>_. 3) (0x117000 + of_nat 100) = 3"
    using t(2) [rule_format, of 100 "\<lambda>_. 3"] n(3) by (simp add: nth_append)
  then show ?thesis using t(1) 2(2) n(1,2) unfolding s_def by auto
qed

end
