(* ===== verification/PsmState.thy ===== *)
theory PsmState
  imports UsbCmd
begin

text \<open>
  The power-saving state machine: the windows of a beacon interval (\<open>ar9170_psm.c\<close>), the decision to
  sleep (\<open>ar9170_ps_update\<close>), the responses of the device (\<open>ar9170rx.c\<close>, \<open>ar9170tx.c\<close>) and the
  scheduler that runs outside interrupt context (\<open>ar9170_scheduler.c\<close>, \<open>ibss_main.c\<close>).

  The build does not define \<open>WITH_SOFT_BEACON_GENERATION\<close>. The code assumes that the device object
  exists.
\<close>

section \<open>Sleeping and waking\<close>

definition AR9170_PRETBTT_KUS :: int where "AR9170_PRETBTT_KUS = 8"
definition AR9170_ATIM_WINDOW_OFFSET_KUS :: int where "AR9170_ATIM_WINDOW_OFFSET_KUS = 8"

abbreviation (input) AR9170_PS_UPDATE_TRANSITION_FLAG :: u32 where "AR9170_PS_UPDATE_TRANSITION_FLAG \<equiv> 0x0f"
abbreviation (input) AR9170_PS_UPDATE_ACTION_SLEEP :: u32 where "AR9170_PS_UPDATE_ACTION_SLEEP \<equiv> 0xf0"

definition ar9170_psm_schedule_powersave :: "bool \<Rightarrow> 'a wlan_scheme \<Rightarrow> 'a wlan_scheme" where
  "ar9170_psm_schedule_powersave new_state s =
     (if new_state \<noteq> ps_state s
      then s\<lparr>update_mask := AR9170_PS_UPDATE_TRANSITION_FLAG OR (if new_state then AR9170_PS_UPDATE_ACTION_SLEEP else 0)\<rparr>
      else s)"

definition ar9170_ps_update :: "'a wlan_scheme \<Rightarrow> 'a wlan_scheme" where
  "ar9170_ps_update s =
     (let ps = (off_override s = 0 \<and> conf_ps s) in
      if ps \<noteq> ps_state s then
        let s1 = ar9170_psm_schedule_powersave ps s in
        if ps then s1\<lparr>psm_transit_to_sleep := True\<rparr> else s1\<lparr>psm_transit_to_wake := True\<rparr>
      else s)"

text \<open>The command itself is not sent; the flag of a transition to wake is set, not cleared.\<close>

definition ar9170_powersave :: "bool \<Rightarrow> 'a wlan_scheme \<Rightarrow> 'a wlan_scheme" where
  "ar9170_powersave ps s =
     (let (ok, s1) = smalloc s in
      if \<not> ok then s1
      else if psm_transit_to_sleep s1 then s1\<lparr>psm_transit_to_sleep := False\<rparr>
      else if psm_transit_to_wake s1 then s1\<lparr>psm_transit_to_wake := True\<rparr>
      else s1)"

definition ar9170_handle_ps :: "'a wlan_scheme \<Rightarrow> 'a wlan_scheme" where
  "ar9170_handle_ps s =
     (if psm_transit_to_wake s \<and> psm_transit_to_sleep s then s
      else if psm_transit_to_sleep s then s\<lparr>psm_transit_to_sleep := False, ps_state := True\<rparr>
      else if psm_transit_to_wake s then s\<lparr>psm_transit_to_wake := False, ps_state := False\<rparr>
      else s)"

section \<open>The windows of a beacon interval\<close>

definition set_rtimer :: "u64 \<Rightarrow> int \<Rightarrow> psm_cb \<Rightarrow> 'a dev_scheme \<Rightarrow> 'a dev_scheme" where
  "set_rtimer from kus cb s = s\<lparr>rt := rtimer_set (from + of_int (RTIMER_MILLISECOND * kus)) cb (rt s)\<rparr>"

definition ar9170_psm_soft_beacon_tx :: "'a dev_scheme \<Rightarrow> 'a dev_scheme" where
  "ar9170_psm_soft_beacon_tx s =
     (if psm_state s = SOFT_BCN_WINDOW
      then set_rtimer (rtimer_arch_now (rt s)) (uint (soft_beacon_int s)) SoftBeaconTx (s\<lparr>send_soft_bcn_flag := True\<rparr>)
      else s)"

definition ar9170_psm_start_soft_beaconing :: "u64 \<Rightarrow> 'a dev_scheme \<Rightarrow> 'a dev_scheme" where
  "ar9170_psm_start_soft_beaconing current_time s =
     set_rtimer current_time (uint (soft_beacon_int s)) SoftBeaconTx (s\<lparr>psm_state := SOFT_BCN_WINDOW\<rparr>)"

definition ar9170_psm_atim_window_end :: "'a dev_scheme \<Rightarrow> 'a dev_scheme" where
  "ar9170_psm_atim_window_end s = ar9170_ps_update (s\<lparr>psm_state := TX_WINDOW\<rparr>)"

definition ar9170_psm_atim_window_start :: "'a dev_scheme \<Rightarrow> 'a dev_scheme option" where
  "ar9170_psm_atim_window_start s =
     (let s1 = (if psm_state s = PRE_TBTT then s\<lparr>psm_state := ATIM_WINDOW\<rparr> else s);
          s2 = set_rtimer (rtimer_arch_now (rt s)) (uint (atim_window s1) - AR9170_ATIM_WINDOW_OFFSET_KUS) AtimWindowEnd s1
      in do {
        e \<leftarrow> pq_is_empty (tx_pending_pkts s2);
        Some (if \<not> e then s2\<lparr>off_override := off_override s2 OR PS_OFF_DATA\<rparr> else s2)
      })"

definition ar9170_psm_schedule_atim_window_start_interrupt :: "u64 \<Rightarrow> 'a dev_scheme \<Rightarrow> 'a dev_scheme" where
  "ar9170_psm_schedule_atim_window_start_interrupt pre_tbtt_time s =
     set_rtimer pre_tbtt_time (AR9170_PRETBTT_KUS + AR9170_ATIM_WINDOW_OFFSET_KUS) AtimWindowStart s"

definition psm_callback :: "psm_cb \<Rightarrow> 'a dev_scheme \<Rightarrow> 'a dev_scheme option" where
  "psm_callback cb s = (case cb of AtimWindowStart \<Rightarrow> ar9170_psm_atim_window_start s
     | AtimWindowEnd \<Rightarrow> Some (ar9170_psm_atim_window_end s)
     | SoftBeaconTx \<Rightarrow> Some (ar9170_psm_soft_beacon_tx s))"

definition psm_irq :: "'a dev_scheme \<Rightarrow> 'a dev_scheme option" where
  "psm_irq s = TC1_Handler rt (\<lambda>r s. s\<lparr>rt := r\<rparr>) psm_callback s"

section \<open>Responses of the device\<close>

text \<open>The workarounds that clear the wait flags and locks at a pre-TBTT interrupt.\<close>

definition tbtt_clear_waits :: "'a wlan_scheme \<Rightarrow> 'a wlan_scheme" where
  "tbtt_clear_waits s =
     (let s1 = (if tx_atim_wait s
                then s\<lparr>atim_wait_cleared_count := atim_wait_cleared_count s + 1, tx_atim_wait := False\<rparr> else s);
          s2 = (if tx_data_wait s1 then
                  if clear_tx_data_wait s1 then s1\<lparr>tx_data_wait := False, clear_tx_data_wait := False\<rparr>
                  else s1\<lparr>clear_tx_data_wait := True\<rparr>
                else s1);
          s3 = (if cmd_async_lock s2 then
                  if clear_cmd_async_lock s2 then s2\<lparr>cmd_async_lock := False, clear_cmd_async_lock := False\<rparr>
                  else s2\<lparr>clear_cmd_async_lock := True\<rparr>
                else s2)
      in if tx_async_lock s3 then
           if clear_tx_async_lock s3 then s3\<lparr>tx_async_lock := False, clear_tx_async_lock := False\<rparr>
           else s3\<lparr>clear_tx_async_lock := True\<rparr>
         else s3)"

definition ar9170_schedule_bcn_ctrl :: "'a dev_scheme \<Rightarrow> 'a dev_scheme" where
  "ar9170_schedule_bcn_ctrl s = s\<lparr>beacon_ctrl := True\<rparr>"

definition tbtt_adhoc :: "u64 \<Rightarrow> 'a dev_scheme \<Rightarrow> 'a dev_scheme" where
  "tbtt_adhoc current_time s =
     (let s1 = (if tbtt_counter s = 1 then ar9170_schedule_bcn_ctrl s else s);
          s2 = (if conf_ps s1
                then (ar9170_psm_schedule_atim_window_start_interrupt current_time (s1\<lparr>off_override := 0\<rparr>))
                       \<lparr>psm_state := PRE_TBTT, create_atims_flag := True, erase_awake_nodes_flag := True\<rparr>
                else s1)
      in tbtt_clear_waits s2)"

text \<open>\<open>received\<close> is the power-saving state that the interrupt carries, 0 for awake.\<close>

definition rsp_pretbtt :: "u64 \<Rightarrow> u32 \<Rightarrow> 'a dev_scheme \<Rightarrow> 'a dev_scheme option" where
  "rsp_pretbtt current_time received s =
     (let s1 = s\<lparr>tbtt_counter := tbtt_counter s + 1\<rparr>;
          s2 = (if received = 0 then s1\<lparr>ps_state := False\<rparr> else s1)
      in case main_vif s2 of
           None \<Rightarrow> Some s2
         | Some ty \<Rightarrow> (case ty of
             NL80211_IFTYPE_STATION \<Rightarrow> Some (ar9170_handle_ps s2)
           | NL80211_IFTYPE_AP \<Rightarrow> map_option snd (ar9170_update_beacon True s2)
           | NL80211_IFTYPE_ADHOC \<Rightarrow> Some (tbtt_adhoc current_time s2)
           | NL80211_IFTYPE_OTHER \<Rightarrow> Some s2))"

definition tx_status :: "bool \<Rightarrow> 'a wlan_scheme \<Rightarrow> 'a wlan_scheme option" where
  "tx_status success s =
     (if \<not> tx_data_wait s \<and> \<not> tx_atim_wait s then
        Some (if atim_wait_cleared_count s > 0
              then s\<lparr>atim_wait_cleared_count := atim_wait_cleared_count s - 1\<rparr> else s)
      else if conf_ps s then
        if psm_state s = ATIM_WINDOW then
          if tx_atim_wait s then ieee80211_handle_ATIM_status_rsp success (s\<lparr>tx_atim_wait := False\<rparr>)
          else if tx_data_wait s then Some (s\<lparr>tx_data_wait := False, clear_tx_data_wait := False\<rparr>)
          else Some s
        else
          if tx_atim_wait s then ieee80211_handle_ATIM_status_rsp success (s\<lparr>tx_atim_wait := False\<rparr>)
          else if tx_data_wait s then
            let s1 = s\<lparr>tx_data_wait := False\<rparr> in
            Some (if clear_tx_data_wait s1 then s1\<lparr>clear_tx_data_wait := False\<rparr> else s1)
          else Some s
      else
        if tx_atim_wait s then Some s
        else if tx_data_wait s then
          let s1 = s\<lparr>tx_data_wait := False\<rparr> in
          Some (if clear_tx_data_wait s1 then s1\<lparr>clear_tx_data_wait := False\<rparr> else s1)
        else Some s)"

text \<open>
  The entries of two bytes, the cookie and the information, follow the header; \<open>ext\<close> counts them, but
  up to two entries past the payload of \<open>hlen\<close> bytes are read.
\<close>

definition ar9170_tx_process_status :: "u8 list \<Rightarrow> 'a wlan_scheme \<Rightarrow> 'a wlan_scheme option" where
  "ar9170_tx_process_status rsp s =
     (let hlen = unat (rsp ! 0); ext = unat (rsp ! 3) in
      run_ops (\<lambda>s i. if 4 + 2 * i + 1 < length rsp then tx_status (bit (rsp ! (4 + 2 * i + 1)) 7) s else None)
        s [0..<min ext (hlen div 2 + 2)])"

definition rsp_txcomp :: "u8 list \<Rightarrow> 'a wlan_scheme \<Rightarrow> 'a wlan_scheme option" where
  "rsp_txcomp rsp s = do {
     s1 \<leftarrow> ar9170_tx_process_status rsp s;
     Some (if tx_async_lock s1 then
             let s2 = s1\<lparr>tx_async_lock := False\<rparr>;
                 s3 = (if clear_tx_async_lock s2 then s2\<lparr>clear_tx_async_lock := False\<rparr> else s2)
             in if cmd_async_lock s3 then s3\<lparr>cmd_async_lock := False, clear_cmd_async_lock := False\<rparr> else s3
           else s1)
   }"

definition rsp_beacon_config :: "u8 list \<Rightarrow> 'a dev_scheme \<Rightarrow> 'a dev_scheme option" where
  "rsp_beacon_config rsp s =
     (let s1 = (if conf_ps s then s\<lparr>off_override := off_override s OR PS_OFF_BCN\<rparr> else s) in
      if length rsp < 6 then None
      else Some (if rsp ! 4 = 1 \<and> rsp ! 5 = 0 \<and> \<not> clear_filtering s1
        then ieee80211_set_ibss_started_beaconing (s1\<lparr>clear_filtering := True\<rparr>) else s1))"

definition ar9170_dbg_message :: "u8 list \<Rightarrow> 'a dev_scheme \<Rightarrow> 'a dev_scheme" where
  "ar9170_dbg_message msg s =
     (if length msg > 3 then
        if take 3 msg = [0x45, 0x52, 0x52] then s\<lparr>err_counter := err_counter s + 1\<rparr>
        else if take 3 msg = [0x42, 0x55, 0x47] then s\<lparr>bug_counter := bug_counter s + 1\<rparr>
        else s
      else s)"

text \<open>Whether the sequence number is wrong.\<close>

definition ar9170_check_sequence :: "int \<Rightarrow> 'a dev_scheme \<Rightarrow> bool \<times> 'a dev_scheme" where
  "ar9170_check_sequence seq s =
     (if cmd_seq s < -1 then (False, s)
      else let s1 = (if cmd_seq s < 0 then s\<lparr>cmd_seq := seq\<rparr> else s) in
        if seq \<noteq> cmd_seq s1 then (True, s1)
        else (False, s1\<lparr>cmd_seq := (cmd_seq s1 + 1) mod fw_cmd_bufs s1\<rparr>))"

text \<open>\<open>rsp\<close> are the bytes from the response on, of which \<open>len\<close> belong to it.\<close>

definition ar9170_handle_command_response :: "u8 list \<Rightarrow> nat \<Rightarrow> 'a dev_scheme \<Rightarrow> 'a dev_scheme option" where
  "ar9170_handle_command_response rsp len s =
     (let current_time = rtimer_arch_now (rt s); cmd = rsp ! 1 in
      if length rsp < 4 then None
      else let (broken, s1) = ar9170_check_sequence (uint (rsp ! 2)) s in
      if broken then Some s1
      else if cmd AND 0xc0 \<noteq> 0xc0 then
        if cmd AND 0x40 = 0 then ar9170_cmd_callback len rsp s1
        else if cmd = 0x64 then Some (ar9170_handle_ps s1)
        else Some s1
      else if (of_nat (unat (rsp ! 0)) :: u32) \<noteq> of_nat len - of_nat AR9170_CMD_HDR_LEN then Some s1
      else if cmd = 0xc0 then
        if length rsp < 8 then None else rsp_pretbtt current_time (le32_of (read_at 4 4 rsp)) s1
      else if cmd = 0xc1 then rsp_txcomp rsp s1
      else if cmd = 0xc2 then rsp_beacon_config rsp s1
      else if cmd = 0xca then
        if length rsp < len then None else Some (ar9170_dbg_message (read_at 4 (len - 4) rsp) s1)
      else if cmd = 0xcf then Some (s1\<lparr>fw_boot_wait := False\<rparr>)
      else Some s1)"

section \<open>The scheduler\<close>

definition ieee80211_op_scheduler :: "'a wlan_scheme \<Rightarrow> 'a wlan_scheme option" where
  "ieee80211_op_scheduler s =
     (if create_atims_flag s then ieee80211_psm_create_atim_pkts (s\<lparr>create_atims_flag := False\<rparr>) else Some s)"

definition ar9170_sch_erase_nodes_check :: "'a wlan_scheme \<Rightarrow> 'a wlan_scheme option" where
  "ar9170_sch_erase_nodes_check s =
     (if erase_awake_nodes_flag s then
        let s1 = s\<lparr>erase_awake_nodes_flag := False\<rparr> in
        if psm_state s1 = PRE_TBTT then ieee80211_psm_erase_awake_neighbors s1 else Some s1
      else Some s)"

definition ar9170_sch_powersave_check :: "'a wlan_scheme \<Rightarrow> 'a wlan_scheme" where
  "ar9170_sch_powersave_check s =
     (if update_mask s AND AR9170_PS_UPDATE_TRANSITION_FLAG \<noteq> 0 then
        (if update_mask s AND AR9170_PS_UPDATE_ACTION_SLEEP \<noteq> 0
         then ar9170_powersave True (s\<lparr>ps_state := True\<rparr>)
         else ar9170_powersave False s)\<lparr>update_mask := 0\<rparr>
      else s)"

definition ar9170_sch_beacon_ctrl_check :: "'a dev_scheme \<Rightarrow> 'a dev_scheme option" where
  "ar9170_sch_beacon_ctrl_check s =
     (if beacon_ctrl s then
        if \<not> cmd_async_lock s then do {
          (err, s1) \<leftarrow> ar9170_update_beacon True s;
          Some (s1\<lparr>beacon_ctrl := False\<rparr>)
        }
        else Some s
      else Some s)"

definition ar9170_sch_beacon_cancel_check :: "'a dev_scheme \<Rightarrow> 'a dev_scheme" where
  "ar9170_sch_beacon_cancel_check s =
     (if beacon_cancel s then snd (ar9170_flush_cab (ucast (vif_id s)) (s\<lparr>beacon_cancel := False\<rparr>)) else s)"

definition ar9170_sch_rx_filter_disable_check ::
  "('a dev_scheme \<Rightarrow> 'a dev_scheme option) \<Rightarrow> 'a dev_scheme \<Rightarrow> 'a dev_scheme option" where
  "ar9170_sch_rx_filter_disable_check irq s =
     (if clear_filtering s
      then map_option snd (ar9170_rx_filter irq (0x02 OR 0x08 OR 0x01 OR 0x20 OR 0x04) (s\<lparr>clear_filtering := False\<rparr>))
      else Some s)"

definition ar9170_sch_async_cmd_check :: "'a dev_scheme \<Rightarrow> 'a dev_scheme" where
  "ar9170_sch_async_cmd_check s = (case cmd_list s of [] \<Rightarrow> s
     | c # _ \<Rightarrow> if \<not> cmd_async_lock s then snd (ar9170_usb_send_cmd c s) else s)"

definition ar9170_sch_async_rx_check :: "u16 \<Rightarrow> u8 list \<Rightarrow> u32 \<Rightarrow> 'a inode_scheme \<Rightarrow> 'a inode_scheme option" where
  "ar9170_sch_async_rx_check now junk junk_len s = do {
     e \<leftarrow> pq_is_empty (rx_pending_pkts s);
     if \<not> e \<and> psm_state s \<noteq> PRE_TBTT then ar9170_async_rx now junk junk_len s else Some s
   }"

text \<open>
  A soft beacon is a copy of the beacon of its exact length, to which whole words are copied.
\<close>

definition ar9170_async_tx_soft_beacon :: "'a wlan_scheme \<Rightarrow> (bool \<times> 'a wlan_scheme) option" where
  "ar9170_async_tx_soft_beacon s =
     (if tx_async_lock s then Some (False, s)
      else (case ibss_beacon_buf s of None \<Rightarrow> Some (False, s)
        | Some b \<Rightarrow>
            if skb_len b = 0 then Some (False, s)
            else let (ok1, s1) = smalloc s in
            if \<not> ok1 then Some (False, s1)
            else let (ok2, s2) = smalloc s1 in
            if \<not> ok2 then Some (False, s2)
            else if 4 * DIV_ROUND_UP (unat (skb_len b)) 4 > unat (skb_len b) then None
            else do {
              data \<leftarrow> skb_bytes 0 (unat (skb_len b)) b;
              (r, skb, s3) \<leftarrow> ar9170_op_tx \<lparr>skb_data = Some data, skb_len = skb_len b, skb_heap = True\<rparr> s2;
              Some (r, s3)
            }))"

definition ar9170_sch_async_tx_check :: "'a wlan_scheme \<Rightarrow> 'a wlan_scheme option" where
  "ar9170_sch_async_tx_check s =
     (if ps_state s \<or> psm_transit_to_sleep s then Some s
      else do {
        no_pkts \<leftarrow> pq_is_empty (tx_pending_pkts s);
        none \<leftarrow> (if no_pkts then pq_is_empty (tx_pending_atims s) else Some False);
        if none then Some s
        else (case psm_state s of
            ATIM_WINDOW \<Rightarrow> do {
              e \<leftarrow> pq_is_empty (tx_pending_atims s);
              if \<not> e \<and> \<not> tx_data_wait s \<and> \<not> tx_atim_wait s then ar9170_psm_async_tx_mgmt s else Some s
            }
          | TX_WINDOW \<Rightarrow>
              if \<not> no_pkts \<and> \<not> tx_data_wait s \<and> \<not> tx_atim_wait s then
                if conf_ps s then ar9170_psm_async_tx_data s else ar9170_async_tx DataQ s
              else Some s
          | SOFT_BCN_WINDOW \<Rightarrow>
              if send_soft_bcn_flag s then do {
                (result, s1) \<leftarrow> ar9170_async_tx_soft_beacon s;
                Some (if result then s1\<lparr>send_soft_bcn_flag := False\<rparr> else s1)
              }
              else Some s
          | PRE_TBTT \<Rightarrow> Some s)
      })"

definition ar9170_op_scheduler ::
  "('a dev_scheme \<Rightarrow> 'a dev_scheme option) \<Rightarrow> u16 \<Rightarrow> u8 list \<Rightarrow> u32 \<Rightarrow> 'a dev_scheme \<Rightarrow> 'a dev_scheme option" where
  "ar9170_op_scheduler irq now junk junk_len s = do {
     s1 \<leftarrow> ar9170_sch_erase_nodes_check s;
     let s2 = ar9170_sch_powersave_check s1;
     s3 \<leftarrow> ar9170_sch_beacon_ctrl_check s2;
     let s4 = ar9170_sch_beacon_cancel_check s3;
     s5 \<leftarrow> ar9170_sch_rx_filter_disable_check irq s4;
     let s6 = ar9170_sch_async_cmd_check s5;
     s7 \<leftarrow> ar9170_sch_async_tx_check s6;
     ar9170_sch_async_rx_check now junk junk_len s7
   }"

end
