(* ===== verification/DevRx.thy ===== *)
theory DevRx
  imports PsmState
begin

text \<open>
  What arrives on the bulk-in pipe (\<open>ar9170_usb/usb_wrapper.c\<close>): the separation of command responses
  from received frames and the checks of a received frame before it is queued
  (\<open>ar9170_wifi/ar9170rx.c\<close>).

  \<open>bulk_pool\<close> are the bytes of the buffer of 2048 bytes that the driver parses, in which the bytes of
  earlier transfers stay behind those of the last one. Positions are offsets in it; accesses outside of
  it fail. \<open>ar9170_ps_beacon\<close>, which only reads, is left out, as are the frequency and the signal
  strength of the status. A frame's \<open>channel_band\<close> tells whether it is in the band of 5 GHz.
\<close>

definition BULK_ENDPOINT_MAX_SIZE :: nat where "BULK_ENDPOINT_MAX_SIZE = 2048"
definition AR9170_MAGIC_RSP_HDR_LENGTH :: int where "AR9170_MAGIC_RSP_HDR_LENGTH = 15"
definition AR9170_MAGIC_RSP_0XFF_HDR_LEN :: int where "AR9170_MAGIC_RSP_0XFF_HDR_LEN = 12"
definition AR9170_MAGIC_RSP_NON_FF_LEN :: int where "AR9170_MAGIC_RSP_NON_FF_LEN = 3"
definition AR9170_MIN_HDR_LEN :: int where "AR9170_MIN_HDR_LEN = 4"
definition AR9170_RX_MAX_PACKET_LENGTH :: int where "AR9170_RX_MAX_PACKET_LENGTH = 512"

definition magic_command_header :: "u8 list" where
  "magic_command_header = [0, 0, 0x4e] @ replicate 12 0xff"

definition pool_bytes :: "int \<Rightarrow> nat \<Rightarrow> 'a dev_scheme \<Rightarrow> u8 list option" where
  "pool_bytes i n s = (if 0 \<le> i \<and> nat i + n \<le> length (bulk_pool s) then Some (read_at (nat i) n (bulk_pool s)) else None)"

definition pool_byte :: "int \<Rightarrow> 'a dev_scheme \<Rightarrow> u8 option" where
  "pool_byte i s = map_option hd (pool_bytes i 1 s)"

section \<open>The status of a frame\<close>

record rx_status =
  rs_flag :: u32
  rs_band :: bool
  rs_rate_idx :: int
  rs_antenna :: u32

abbreviation (input) RX_FLAG_MMIC_ERROR :: u32 where "RX_FLAG_MMIC_ERROR \<equiv> 1"
abbreviation (input) RX_FLAG_DECRYPTED :: u32 where "RX_FLAG_DECRYPTED \<equiv> 2"
abbreviation (input) RX_FLAG_FAILED_FCS_CRC :: u32 where "RX_FLAG_FAILED_FCS_CRC \<equiv> 32"
abbreviation (input) RX_FLAG_FAILED_PLCP_CRC :: u32 where "RX_FLAG_FAILED_PLCP_CRC \<equiv> 64"
abbreviation (input) RX_FLAG_SHORTPRE :: u32 where "RX_FLAG_SHORTPRE \<equiv> 256"
abbreviation (input) RX_FLAG_HT :: u32 where "RX_FLAG_HT \<equiv> 512"
abbreviation (input) RX_FLAG_40MHZ :: u32 where "RX_FLAG_40MHZ \<equiv> 1024"
abbreviation (input) RX_FLAG_SHORT_GI :: u32 where "RX_FLAG_SHORT_GI \<equiv> 2048"

definition ar9170_get_decrypt_type :: "u8 list \<Rightarrow> u8" where
  "ar9170_get_decrypt_type mac = drop_bit 4 (mac ! 0 AND 0xc0) OR drop_bit 6 (mac ! 1 AND 0xc0)"

text \<open>The flags and the rate that the modulation and the header of the frame give; none is an error.\<close>

definition rx_rate :: "u8 \<Rightarrow> u8 list \<Rightarrow> bool \<Rightarrow> (u32 \<times> int) option" where
  "rx_rate st plcp band =
     (if st AND 3 = 0 then
        map_option (\<lambda>r. (if st AND 8 \<noteq> 0 then RX_FLAG_SHORTPRE else 0, r))
          (map_of [(0x0a, 0), (0x14, 1), (0x37, 2), (0x6e, 3)] (plcp ! 0))
      else if st AND 3 = 2 then
        Some ((if plcp ! 3 AND 0x80 \<noteq> 0 then RX_FLAG_40MHZ else 0) OR (if plcp ! 6 AND 0x80 \<noteq> 0 then RX_FLAG_SHORT_GI else 0)
          OR RX_FLAG_HT, min 75 (uint (plcp ! 3 AND 0x7f)))
      else map_option (\<lambda>r. (0, if band then r else r + 4))
        (map_of [(0xb, 0), (0xf, 1), (0xa, 2), (0xe, 3), (0x9, 4), (0xd, 5), (0x8, 6), (0xc, 7)] (plcp ! 0 AND 0xf)))"

definition ar9170_rx_mac_status ::
  "u8 list \<Rightarrow> u8 list \<Rightarrow> rx_status \<Rightarrow> 'a dev_scheme \<Rightarrow> rx_status option \<times> 'a dev_scheme" where
  "ar9170_rx_mac_status head mac status s =
     (let error = mac ! 2; st = mac ! 3 in
      if error AND 0x10 \<noteq> 0 \<and> \<not> sniffer_enabled s then (None, s)
      else if error AND 0x20 \<noteq> 0 \<and> filter_state s AND 8 = 0 then (None, s)
      else
        let st1 = (if error AND 0x20 \<noteq> 0 then status\<lparr>rs_flag := rs_flag status OR RX_FLAG_FAILED_PLCP_CRC\<rparr> else status);
            s1 = (if error AND 0x08 \<noteq> 0 then s\<lparr>tx_fcs_errors := tx_fcs_errors s + 1\<rparr> else s) in
        if error AND 0x08 \<noteq> 0 \<and> filter_state s1 AND 4 = 0 then (None, s1)
        else
          let st2 = (if error AND 0x08 \<noteq> 0 then st1\<lparr>rs_flag := rs_flag st1 OR RX_FLAG_FAILED_FCS_CRC\<rparr> else st1);
              decrypt = ar9170_get_decrypt_type mac;
              st3 = (if decrypt AND 8 = 0 \<and> decrypt \<noteq> 0 then
                  st2\<lparr>rs_flag := rs_flag st2 OR (if decrypt = 2 \<and> error AND 0x40 \<noteq> 0 then RX_FLAG_MMIC_ERROR else 0) OR RX_FLAG_DECRYPTED\<rparr>
                else st2) in
          if error AND 0x04 \<noteq> 0 \<and> \<not> sniffer_enabled s1 then (None, s1)
          else if error AND NOT (0x40 OR 0x08 OR 0x10 OR 0x04 OR 0x20) \<noteq> 0 then (None, s1)
          else
            let st4 = (case channel_band s1 of None \<Rightarrow> st3 | Some b \<Rightarrow> st3\<lparr>rs_band := b\<rparr>) in
            (map_option (\<lambda>(f, r). st4\<lparr>rs_flag := rs_flag st4 OR f, rs_rate_idx := r\<rparr>) (rx_rate st head (rs_band st4)), s1))"

definition ieee80211_is_data_present :: "u16 \<Rightarrow> bool" where
  "ieee80211_is_data_present fc \<longleftrightarrow> fc AND (0x000c OR 0x40) = 0x0008"
definition ieee80211_is_action :: "u16 \<Rightarrow> bool" where
  "ieee80211_is_action fc \<longleftrightarrow> fc AND (0x000c OR 0x00f0) = 0x00d0"
definition ieee80211_is_back_req :: "u16 \<Rightarrow> bool" where
  "ieee80211_is_back_req fc \<longleftrightarrow> fc AND (0x000c OR 0x00f0) = 0x0004 OR 0x0080"
definition ieee80211_is_back :: "u16 \<Rightarrow> bool" where
  "ieee80211_is_back fc \<longleftrightarrow> fc AND (0x000c OR 0x00f0) = 0x0004 OR 0x0090"
definition ieee80211_is_ack :: "u16 \<Rightarrow> bool" where
  "ieee80211_is_ack fc \<longleftrightarrow> fc AND (0x000c OR 0x00f0) = 0x0004 OR 0x00d0"

definition ar9170_ampdu_check :: "nat \<Rightarrow> u8 \<Rightarrow> 'a dev_scheme \<Rightarrow> bool option" where
  "ar9170_ampdu_check buf ms s =
     (if ms AND 0x30 = 0 then Some True
      else map_option (\<lambda>b. let fc = le16_of b in
        (ieee80211_is_data_qos fc \<and> ieee80211_is_data_present fc) \<or> ieee80211_is_ack fc \<or> ieee80211_is_back fc \<or>
        ieee80211_is_back_req fc \<or> ieee80211_is_action fc \<or> ieee80211_is_atim fc) (pool_bytes (int buf) 2 s))"

text \<open>The signal strengths are brought into their range in place.\<close>

definition ar9170_rx_phy_status :: "int \<Rightarrow> rx_status \<Rightarrow> 'a dev_scheme \<Rightarrow> (rx_status \<times> 'a dev_scheme) option" where
  "ar9170_rx_phy_status phy status s = do {
     rssi \<leftarrow> pool_bytes phy 7 s;
     let antenna = fold (\<lambda>i a. if rssi ! i \<noteq> 0x80 then a OR push_bit i 1 else a) [0..<3] (rs_antenna status);
     let rssi' = map (\<lambda>r. if r AND 0x80 \<noteq> 0 then ((r AND 0x7f) + 1) AND 0x7f else r) rssi;
     Some (status\<lparr>rs_antenna := antenna\<rparr>, s\<lparr>bulk_pool := write_at (nat phy) rssi' (bulk_pool s)\<rparr>)
   }"

section \<open>Received frames\<close>

text \<open>
  The search for the bytes \<open>3f 3f\<close> of the MAC status from the end of the frame backwards, with the
  counter that it stops at. Where they are found the 13 bytes before them are compared with zeros, for
  a message only. The addresses wrap around at \<open>2 ^ 32\<close>.
\<close>

fun mpdu_pattern :: "nat \<Rightarrow> nat \<Rightarrow> 'a dev_scheme \<Rightarrow> nat option option" where
  "mpdu_pattern buf counter s =
     (if counter = 0 then Some None
      else do {
        b \<leftarrow> pool_bytes (uint (of_nat buf + of_nat counter + 12 - 4 :: u32)) 2 s;
        if b = [0x3f, 0x3f] then do {
          phy \<leftarrow> pool_bytes (uint (of_nat buf + (of_nat counter - 13) + 12 - 4 :: u32)) 13 s;
          Some (Some counter)
        }
        else mpdu_pattern buf (counter - 1) s
      })"

declare mpdu_pattern.simps [simp del]

text \<open>
  The header, the position of the frame, its length and the position of its PHY status, according to
  the place of the frame in its aggregate; none is a frame to be dropped.
\<close>

definition mpdu_parts :: "u8 \<Rightarrow> nat \<Rightarrow> int \<Rightarrow> 'a dev_scheme \<Rightarrow>
    ((u8 list \<times> nat \<times> int \<times> int option) option \<times> 'a dev_scheme) option" where
  "mpdu_parts status buf len s =
     (if status AND 0x30 = 0x20 then
        if (of_int len :: u32) \<ge> 12 then do {
          head \<leftarrow> pool_bytes (int buf) 12 s;
          Some (Some (head, buf + 12, len - 12, None), s\<lparr>rx_plcp := head, rx_has_plcp := True\<rparr>)
        }
        else Some (None, s)
      else if status AND 0x30 = 0 then do {
        head \<leftarrow> pool_bytes (int buf) 12 s;
        Some (Some (head, buf + 12, len - 12 - 20, Some (int (buf + 12) + (len - 12 - 20))), s)
      }
      else if status AND 0x30 = 0x10 then
        if (of_int len :: u32) \<ge> 20 then
          Some (if rx_has_plcp s then Some (rx_plcp s, buf, len - 20, Some (int buf + (len - 20))) else None, s)
        else Some (None, s)
      else Some (if rx_has_plcp s then Some (rx_plcp s, buf, len, None) else None, s))"

definition rx_drop :: "'a dev_scheme \<Rightarrow> 'a dev_scheme" where
  "rx_drop s = s\<lparr>rx_dropped := rx_dropped s + 1\<rparr>"

definition ar9170_handle_mpdu :: "nat \<Rightarrow> int \<Rightarrow> 'a dev_scheme \<Rightarrow> 'a dev_scheme option" where
  "ar9170_handle_mpdu buf len s =
     (if len > AR9170_RX_MAX_PACKET_LENGTH then Some s
      else if \<not> is_started s then Some s
      else if (of_int len :: u32) < 4 then Some (rx_drop s)
      else do {
        let counter = unat (of_int len - 12 :: u32);
        found \<leftarrow> mpdu_pattern buf counter s;
        let len1 = (case found of None \<Rightarrow> len | Some c \<Rightarrow> sint (of_int len - of_nat (counter - c) :: u32));
        let mpdu_len = len1 - 4;
        let mac_at = int buf + mpdu_len;
        mac \<leftarrow> pool_bytes mac_at 4 s;
        (parts, s1) \<leftarrow> mpdu_parts (mac ! 3) buf mpdu_len s;
        (case parts of
           None \<Rightarrow> Some (rx_drop s1)
         | Some (head, buf1, len2, phy) \<Rightarrow>
             if len2 < 2 + 2 + int ETH_ALEN + int FCS_LEN then Some (rx_drop s1)
             else
               let (status, s2) = ar9170_rx_mac_status head mac \<lparr>rs_flag = 0, rs_band = False, rs_rate_idx = 0, rs_antenna = 0\<rparr> s1 in
               (case status of
                  None \<Rightarrow> Some (rx_drop s2)
                | Some st \<Rightarrow> do {
                    ok \<leftarrow> ar9170_ampdu_check buf1 (mac ! 3) s2;
                    if \<not> ok then Some (rx_drop s2)
                    else do {
                      (st1, s3) \<leftarrow> (case phy of None \<Rightarrow> Some (st, s2) | Some p \<Rightarrow> ar9170_rx_phy_status p st s2);
                      a1 \<leftarrow> pool_bytes (int buf1 + 4) 6 s3;
                      if ether_addr_equal a1 (vif_addr s3) \<or> ether_addr_equal a1 (replicate 6 0xff)
                      then ar9170_schedule_handle_mpdu (drop buf1 (bulk_pool s3)) len2 s3
                      else Some (rx_drop s3)
                    }
                  }))
      })"

section \<open>Command responses and frames in one transfer\<close>

function ar9170_rx_untie_cmds :: "nat \<Rightarrow> nat \<Rightarrow> nat \<Rightarrow> 'a dev_scheme \<Rightarrow> 'a dev_scheme option" where
  "ar9170_rx_untie_cmds buffer len i s =
     (if i < len then do {
        hlen \<leftarrow> pool_byte (int (buffer + i)) s;
        let j = i + unat hlen + AR9170_CMD_HDR_LEN;
        if j > len then Some s
        else do {
          s1 \<leftarrow> ar9170_handle_command_response (drop (buffer + i) (bulk_pool s)) (unat hlen + AR9170_CMD_HDR_LEN) s;
          ar9170_rx_untie_cmds buffer len j s1
        }
      }
      else Some s)"
  by pat_completeness auto
termination
  by (relation "measure (\<lambda>(buffer, len, i, s). len - i)") (auto simp: AR9170_CMD_HDR_LEN_def)

declare ar9170_rx_untie_cmds.simps [simp del]

definition magic_at :: "int \<Rightarrow> 'a dev_scheme \<Rightarrow> bool option" where
  "magic_at i s = map_option (\<lambda>b. b = magic_command_header) (pool_bytes i 15 s)"

text \<open>
  The position of the pattern that starts a command response. Every twelfth byte is looked at: one of
  the twelve bytes \<open>ff\<close> of the pattern is among them.
\<close>

function rx_find :: "u32 \<Rightarrow> int \<Rightarrow> 'a dev_scheme \<Rightarrow> int option option" where
  "rx_find len remaining s =
     (if remaining < AR9170_MIN_HDR_LEN then Some None
      else let pos = uint len - remaining in do {
        b \<leftarrow> pool_byte pos s;
        if b \<noteq> 0xff then rx_find len (remaining - AR9170_MAGIC_RSP_0XFF_HDR_LEN) s
        else do {
          found \<leftarrow> first_index (\<lambda>k. magic_at (pos - AR9170_MAGIC_RSP_NON_FF_LEN - int k) s) [0..<12];
          (case found of
             Some k \<Rightarrow> Some (Some (pos - AR9170_MAGIC_RSP_NON_FF_LEN - int k))
           | None \<Rightarrow> rx_find len (remaining - AR9170_MAGIC_RSP_0XFF_HDR_LEN) s)
        }
      })"
  by pat_completeness auto
termination
  by (relation "measure (\<lambda>(len, remaining, s). nat remaining)")
    (auto simp: AR9170_MIN_HDR_LEN_def AR9170_MAGIC_RSP_0XFF_HDR_LEN_def)

declare rx_find.simps [simp del]

definition rx_mixed :: "u32 \<Rightarrow> int \<Rightarrow> 'a dev_scheme \<Rightarrow> 'a dev_scheme option" where
  "rx_mixed len p s = do {
     let remaining = uint len - p;
     let cmd = nat (p + AR9170_MAGIC_RSP_HDR_LENGTH);
     hlen \<leftarrow> pool_byte (int cmd) s;
     let cmd_len = unat hlen + AR9170_CMD_HDR_LEN;
     let rest = (of_int (remaining - AR9170_MAGIC_RSP_HDR_LENGTH) :: u32);
     s1 \<leftarrow> ar9170_rx_untie_cmds cmd cmd_len 0 s;
     s2 \<leftarrow> (if p \<noteq> 1 \<and> \<not> (of_int (p - 1) :: u32) \<le> 4 then ar9170_handle_mpdu 4 (p - 4 - 1) s1 else Some s1);
     if of_nat cmd_len < rest then do {
       again \<leftarrow> magic_at (int (cmd + cmd_len + 1)) s2;
       if again then do {
         let new_cmd = cmd + cmd_len + 1 + nat AR9170_MAGIC_RSP_HDR_LENGTH;
         new_len \<leftarrow> pool_byte (int new_cmd) s2;
         ar9170_rx_untie_cmds new_cmd (unat new_len + AR9170_CMD_HDR_LEN) 0 s2
       }
       else ar9170_handle_mpdu (cmd + cmd_len) (remaining - AR9170_MAGIC_RSP_HDR_LENGTH - int cmd_len) s2
     }
     else Some s2
   }"

definition ar9170_rx :: "u32 \<Rightarrow> 'a dev_scheme \<Rightarrow> 'a dev_scheme option" where
  "ar9170_rx len s = do {
     found \<leftarrow> rx_find len (sint (len - 4)) s;
     (case found of
        Some p \<Rightarrow> rx_mixed len p s
      | None \<Rightarrow> ar9170_handle_mpdu 4 (sint (len - 4)) s)
   }"

section \<open>The pipes\<close>

datatype uhd_trans_status = UHD_TRANS_NOERROR | UHD_TRANS_DISCONNECT | UHD_TRANS_CRC | UHD_TRANS_DT_MISMATCH
  | UHD_TRANS_STALL | UHD_TRANS_NOTRESPONDING | UHD_TRANS_PIDFAILURE | UHD_TRANS_TIMEOUT | UHD_TRANS_ABORTED

text \<open>
  \<open>avail\<close> tells whether the host controller takes the next transfer; \<open>data\<close> are the words of the
  transfer buffer.
\<close>

definition ar9170_listen_on_bulk_in :: "bool \<Rightarrow> 'a dev_scheme \<Rightarrow> 'a dev_scheme" where
  "ar9170_listen_on_bulk_in avail s = (if avail then s\<lparr>bulk_listening := True\<rparr> else s)"

definition ar9170_bulk_in_transfer_done ::
  "bool \<Rightarrow> uhd_trans_status \<Rightarrow> u8 list \<Rightarrow> nat \<Rightarrow> 'a dev_scheme \<Rightarrow> 'a dev_scheme option" where
  "ar9170_bulk_in_transfer_done avail status data nb s =
     (let s0 = s\<lparr>bulk_listening := False\<rparr> in
      case status of
        UHD_TRANS_NOERROR \<Rightarrow>
          if nb \<ge> BULK_ENDPOINT_MAX_SIZE then Some (ar9170_listen_on_bulk_in avail s0)
          else ar9170_rx (of_nat nb) (ar9170_listen_on_bulk_in avail
            (s0\<lparr>bulk_pool := write_at 0 (take (4 * DIV_ROUND_UP nb 4) data) (bulk_pool s0)\<rparr>))
      | UHD_TRANS_TIMEOUT \<Rightarrow> Some (ar9170_listen_on_bulk_in avail s0)
      | _ \<Rightarrow> Some s0)"

text \<open>The response on the interrupt pipe is copied to a new buffer, which is not freed.\<close>

definition ar9170_interrupt_in_transfer_done ::
  "uhd_trans_status \<Rightarrow> u8 list \<Rightarrow> nat \<Rightarrow> 'a dev_scheme \<Rightarrow> 'a dev_scheme option" where
  "ar9170_interrupt_in_transfer_done status data nb s =
     (if status = UHD_TRANS_NOERROR then
        let (ok, s1) = smalloc s in
        if ok then ar9170_handle_command_response (take nb data) nb s1 else None
      else Some s)"

section \<open>A frame of its own\<close>

lemma pool_bytes_at:
  assumes "bulk_pool s = pre @ b @ post" "i = int (length pre)" "n = length b"
  shows "pool_bytes i n s = Some b"
  using assms by (simp add: pool_bytes_def read_at_def)

definition rssi_fix :: "u8 list \<Rightarrow> u8 list" where
  "rssi_fix phy = map (\<lambda>r. if r AND 0x80 \<noteq> 0 then ((r AND 0x7f) + 1) AND 0x7f else r) (take 7 phy) @ drop 7 phy"

lemma length_rssi_fix [simp]: "length (rssi_fix phy) = length phy"
  by (simp add: rssi_fix_def)

lemma rx_phy_status_at:
  assumes "bulk_pool s = pre @ phy @ post" "p = int (length pre)" "7 \<le> length phy"
  shows "\<exists>st'. ar9170_rx_phy_status p st s = Some (st', s\<lparr>bulk_pool := pre @ rssi_fix phy @ post\<rparr>)"
proof -
  have "pool_bytes p 7 s = Some (take 7 phy)"
    by (rule pool_bytes_at [of _ pre _ "drop 7 phy @ post"]) (use assms in \<open>simp_all flip: append_assoc\<close>)
  moreover have "write_at (nat p) (map f (take 7 phy)) (bulk_pool s) = pre @ (map f (take 7 phy) @ drop 7 phy) @ post" for f
    using assms by (simp add: write_at_def)
  ultimately show ?thesis by (simp add: ar9170_rx_phy_status_def rssi_fix_def)
qed

definition rx_pool :: "u8 list \<Rightarrow> u8 list \<Rightarrow> u8 list \<Rightarrow> u8 list \<Rightarrow> u8 \<Rightarrow> u8 list \<Rightarrow> u8 list" where
  "rx_pool pre head frame phy st post = pre @ head @ frame @ phy @ [0x3f, 0x3f, 0, st] @ post"

text \<open>The band that the rate of a frame is decoded for.\<close>

definition rx_band :: "'a dev_scheme \<Rightarrow> bool" where
  "rx_band s = (case channel_band s of None \<Rightarrow> False | Some b \<Rightarrow> b)"

lemma mac_status_good:
  assumes "rx_rate st head (rx_band s) \<noteq> None"
  shows "\<exists>r. ar9170_rx_mac_status head [0x3f, 0x3f, 0, st] \<lparr>rs_flag = 0, rs_band = False, rs_rate_idx = 0, rs_antenna = 0\<rparr> s = (Some r, s)"
  using assms by (auto simp: ar9170_rx_mac_status_def Let_def ar9170_get_decrypt_type_def rx_band_def
      split: option.splits)

lemma handle_mpdu_single:
  assumes pool: "bulk_pool s = rx_pool pre head frame phy st post" "length pre < 2048"
    and l: "length head = 12" "length phy = 20" "14 \<le> length frame" "length frame \<le> 476"
    and ok: "is_started s" "st AND 0x30 = 0" "rx_rate st head (rx_band s) \<noteq> None"
  shows "ar9170_handle_mpdu (length pre) (36 + int (length frame)) s =
    (let s1 = s\<lparr>bulk_pool := rx_pool pre head frame (rssi_fix phy) st post\<rparr> in
     if take 6 (drop 4 frame) \<in> {vif_addr s, eth_broadcast}
     then ar9170_schedule_handle_mpdu (frame @ rssi_fix phy @ [0x3f, 0x3f, 0, st] @ post) (int (length frame)) s1
     else Some (rx_drop s1))"
proof -
  define n where "n = length frame"
  define mac where "mac = [0x3f, 0x3f, 0, st]"
  define s1 where "s1 = s\<lparr>bulk_pool := rx_pool pre head frame (rssi_fix phy) st post\<rparr>"
  have n: "14 \<le> n" "n \<le> 476" using l by (simp_all add: n_def)
  have c: "unat (of_int (36 + int n) - 12 :: u32) = n + 24"
  proof -
    have "(of_int (36 + int n) - 12 :: u32) = of_nat (n + 24)" by simp
    then show ?thesis using n by (simp only: unat_of_nat_u32)
  qed
  have a: "uint (of_nat (length pre) + of_nat (n + 24) + 12 - 4 :: u32) = int (length pre + n + 32)"
  proof -
    have "(of_nat (length pre) + of_nat (n + 24) + 12 - 4 :: u32) = of_nat (length pre + n + 32)" by simp
    moreover have "unat (of_nat (length pre + n + 32) :: u32) = length pre + n + 32"
      using n pool(2) by (subst unat_of_nat_u32) simp_all
    ultimately show ?thesis by (metis uint_nat)
  qed
  have found: "mpdu_pattern (length pre) (n + 24) s = Some (Some (n + 24))"
  proof -
    have "pool_bytes (int (length pre + n + 32)) 2 s = Some [0x3f, 0x3f]"
      by (rule pool_bytes_at [of _ "pre @ head @ frame @ phy" _ "[0, st] @ post"])
         (use l in \<open>simp_all add: pool rx_pool_def n_def\<close>)
    moreover have "pool_bytes (int (length pre + n + 19)) 13 s \<noteq> None"
      using l by (simp add: pool_bytes_def pool rx_pool_def n_def)
    moreover have "uint (of_nat (length pre) + (of_nat (n + 24) - 13) + 12 - 4 :: u32) = int (length pre + n + 19)"
    proof -
      have "(of_nat (length pre) + (of_nat (n + 24) - 13) + 12 - 4 :: u32) = of_nat (length pre + n + 19)" by simp
      moreover have "unat (of_nat (length pre + n + 19) :: u32) = length pre + n + 19"
        using n pool(2) by (subst unat_of_nat_u32) simp_all
      ultimately show ?thesis by (metis uint_nat)
    qed
    ultimately show ?thesis by (subst mpdu_pattern.simps) (simp only: a, auto)
  qed
  have len: "sint (of_int (36 + int n) - of_nat 0 :: u32) = 36 + int n"
  proof -
    have "sint (word_of_int k :: u32) = k" if "0 \<le> k" "k < 1000" for k
      using that by (simp add: signed_of_int signed_take_bit_int_eq_self)
    from this [of "36 + int n"] n show ?thesis by simp
  qed
  have mac: "pool_bytes (int (length pre) + (36 + int n - 4)) 4 s = Some mac"
    by (rule pool_bytes_at [of _ "pre @ head @ frame @ phy" _ post]) (use l in \<open>simp_all add: pool rx_pool_def n_def mac_def\<close>)
  have hd: "pool_bytes (int (length pre)) 12 s = Some head"
    by (rule pool_bytes_at [of _ pre]) (use l in \<open>simp_all add: pool rx_pool_def\<close>)
  have parts: "mpdu_parts (mac ! 3) (length pre) (36 + int n - 4) s =
    Some (Some (head, length pre + 12, int n, Some (int (length pre + 12) + int n)), s)"
    using ok(2) by (simp add: mpdu_parts_def mac_def hd)
  obtain r where r: "ar9170_rx_mac_status head mac \<lparr>rs_flag = 0, rs_band = False, rs_rate_idx = 0, rs_antenna = 0\<rparr> s = (Some r, s)"
    using mac_status_good [OF ok(3)] unfolding mac_def by blast
  obtain r' where r': "ar9170_rx_phy_status (int (length pre + 12) + int n) r s = Some (r', s1)"
    using rx_phy_status_at [of s "pre @ head @ frame" phy "[0x3f, 0x3f, 0, st] @ post" "int (length pre + 12) + int n" r] l
    by (auto simp: pool rx_pool_def n_def s1_def)
  have a1: "pool_bytes (int (length pre + 12) + 4) 6 s1 = Some (take 6 (drop 4 frame))"
  proof (rule pool_bytes_at [of _ "pre @ head @ take 4 frame" _ "drop 10 frame @ rssi_fix phy @ [0x3f, 0x3f, 0, st] @ post"])
    have "frame = take 4 frame @ take 6 (drop 4 frame) @ drop 6 (drop 4 frame)"
      by (simp only: append_take_drop_id)
    then have "frame = take 4 frame @ take 6 (drop 4 frame) @ drop 10 frame" by simp
    then show "bulk_pool s1 = (pre @ head @ take 4 frame) @ take 6 (drop 4 frame) @ drop 10 frame @ rssi_fix phy @ [0x3f, 0x3f, 0, st] @ post"
      by (simp add: s1_def rx_pool_def)
  qed (use l in simp_all)
  have d: "drop (length pre + 12) (bulk_pool s1) = frame @ rssi_fix phy @ [0x3f, 0x3f, 0, st] @ post" "vif_addr s1 = vif_addr s"
    using l by (simp_all add: s1_def rx_pool_def)
  have g: "\<not> 36 + int n > AR9170_RX_MAX_PACKET_LENGTH" "\<not> \<not> is_started s" "\<not> (of_int (36 + int n) :: u32) < 4"
    "\<not> int n < 2 + 2 + int ETH_ALEN + int FCS_LEN"
    using n ok(1) by (simp_all add: AR9170_RX_MAX_PACKET_LENGTH_def ETH_ALEN_def FCS_LEN_def word_less_nat_alt)
      (subst unat_word_ariths, subst unat_of_nat_u32, simp_all)
  have amp: "ar9170_ampdu_check (length pre + 12) (mac ! 3) s = Some True"
    using ok(2) by (simp add: ar9170_ampdu_check_def mac_def)
  have g5: "(ether_addr_equal a (vif_addr s) \<or> ether_addr_equal a (replicate 6 0xff)) = (a \<in> {vif_addr s, eth_broadcast})" for a
    by (auto simp: ether_addr_equal_def ETH_ALEN_def numeral_eq_Suc)
  have "ar9170_handle_mpdu (length pre) (36 + int n) s =
     (if take 6 (drop 4 frame) \<in> {vif_addr s, eth_broadcast}
     then ar9170_schedule_handle_mpdu (frame @ rssi_fix phy @ [0x3f, 0x3f, 0, st] @ post) (int n) s1
     else Some (rx_drop s1))"
    unfolding ar9170_handle_mpdu_def if_not_P [OF g(1)] if_not_P [OF g(2)] if_not_P [OF g(3)] Let_def c found
      Option.bind.bind_lunit option.case diff_self_eq_0 len mac parts prod.case if_not_P [OF g(4)] r amp r' a1 d g5
    by simp
  then show ?thesis by (simp add: n_def s1_def)
qed

lemma schedule_appends:
  assumes "rx_pending_pkts r = PQ xs" "length xs < 8" "mallocs r = []" "b \<noteq> []" "length b < 65536"
    and "DIV_ROUND_UP (length b) 4 * 4 \<le> length (b @ pad)"
  shows "\<exists>ext. ar9170_schedule_handle_mpdu (b @ pad) (int (length b)) r =
    Some (r\<lparr>rx_pending_pkts := PQ (xs @ [\<lparr>skb_data = Some (b @ ext), skb_len = of_nat (length b), skb_heap = True\<rparr>])\<rparr>)"
proof -
  define n where "n = DIV_ROUND_UP (length b) 4 * 4"
  define k where "k = \<lparr>skb_data = Some (take n (b @ pad)), skb_len = of_nat (length b), skb_heap = True\<rparr>"
  have n: "length b \<le> n" by (simp add: n_def DIV_ROUND_UP_def)
  then have t: "take n (b @ pad) = b @ take (n - length b) pad" by simp
  have l: "(of_nat (length b) :: u32) \<noteq> 0"
  proof
    assume "(of_nat (length b) :: u32) = 0"
    then have "unat (of_nat (length b) :: u32) = 0" by simp
    then show False using assms(4,5) by (subst (asm) unat_of_nat_u32) simp_all
  qed
  have "ar9170_op_add_pending_pkt RxQ (Some k) r = Some (True, r\<lparr>rx_pending_pkts := PQ (xs @ [k])\<rparr>)"
    using assms(1-3) l by (auto simp: ar9170_op_add_pending_pkt_def get_queue_def set_queue_def queue_add_tail_def pq_add_tail_def
        AR9170_MAX_PENDING_RX_PKT_QUEUE_LEN_def Let_def smalloc_def k_def)
  then have "ar9170_schedule_handle_mpdu (b @ pad) (int (length b)) r = Some (r\<lparr>rx_pending_pkts := PQ (xs @ [k])\<rparr>)"
    using assms by (simp add: ar9170_schedule_handle_mpdu_def pq_len_def AR9170_MAX_PENDING_RX_PKT_QUEUE_LEN_def
        Let_def n_def [symmetric] k_def smalloc_def del: take_append)
  then show ?thesis unfolding k_def t by blast
qed

text \<open>
  C14. A frame that the device delivers alone, with a good status, of 14 to 476 bytes with the checksum
  and in a known rate, is appended to the queue of received frames exactly as it was sent, when it is
  for this node or for all and the queue has room; a frame for another node is counted as dropped.
\<close>

theorem rx_frame_queued:
  assumes pool: "bulk_pool s = rx_pool pre head frame phy st post" "length pre < 2048"
    and l: "length head = 12" "length phy = 20" "14 \<le> length frame" "length frame \<le> 476"
    and ok: "is_started s" "st AND 0x30 = 0" "rx_rate st head (rx_band s) \<noteq> None"
    and q: "rx_pending_pkts s = PQ xs" "length xs < 8" "mallocs s = []"
  shows "\<exists>pool ext. ar9170_handle_mpdu (length pre) (36 + int (length frame)) s =
    Some (if take 6 (drop 4 frame) \<in> {vif_addr s, eth_broadcast}
      then s\<lparr>bulk_pool := pool, rx_pending_pkts :=
        PQ (xs @ [\<lparr>skb_data = Some (frame @ ext), skb_len = of_nat (length frame), skb_heap = True\<rparr>])\<rparr>
      else s\<lparr>bulk_pool := pool, rx_dropped := rx_dropped s + 1\<rparr>)"
proof -
  define s1 where "s1 = s\<lparr>bulk_pool := rx_pool pre head frame (rssi_fix phy) st post\<rparr>"
  have "\<exists>ext. ar9170_schedule_handle_mpdu (frame @ rssi_fix phy @ [0x3f, 0x3f, 0, st] @ post) (int (length frame)) s1 =
    Some (s1\<lparr>rx_pending_pkts := PQ (xs @ [\<lparr>skb_data = Some (frame @ ext), skb_len = of_nat (length frame), skb_heap = True\<rparr>])\<rparr>)"
    by (rule schedule_appends) (use q l in \<open>auto simp: s1_def DIV_ROUND_UP_def\<close>)
  then show ?thesis
    using handle_mpdu_single [OF pool l ok] unfolding Let_def s1_def [symmetric]
    by (auto simp: rx_drop_def s1_def)
qed

text \<open>A broadcast frame of 14 bytes at the rate of 1 Mbit/s, in a pool that starts with its stream header.\<close>

definition dev_frame :: "dev" where
  "dev_frame = dev0\<lparr>is_started := True, bulk_pool := rx_pool [54, 0, 0, 0x4e] (0x0a # replicate 11 0)
    ([8, 0, 0, 0] @ eth_broadcast @ [1, 2, 3, 4]) (replicate 20 0) 0 (replicate 8 0)\<rparr>"

lemma rx_frame_queued_witness:
  "\<exists>pool ext. ar9170_handle_mpdu 4 50 dev_frame = Some (dev_frame\<lparr>bulk_pool := pool, rx_pending_pkts :=
    PQ [\<lparr>skb_data = Some (([8, 0, 0, 0] @ eth_broadcast @ [1, 2, 3, 4]) @ ext), skb_len = 14, skb_heap = True\<rparr>]\<rparr>)"
  using rx_frame_queued [of dev_frame "[54, 0, 0, 0x4e]" "0x0a # replicate 11 0" "[8, 0, 0, 0] @ eth_broadcast @ [1, 2, 3, 4]"
      "replicate 20 0" 0 "replicate 8 0" "[]"]
  by (simp add: dev_frame_def dev0_def inode0_def dev.defs inode.defs wlan.defs wlan0_def numeral_eq_Suc
      rx_rate_def rx_band_def)

section \<open>The separation of a transfer\<close>

lemma magic_at_iff:
  assumes "0 \<le> i" "nat i + 15 \<le> length (bulk_pool s)"
  shows "magic_at i s = Some (take 15 (drop (nat i) (bulk_pool s)) = magic_command_header)"
  using assms by (simp add: magic_at_def pool_bytes_def read_at_def)

definition magic_occurs :: "nat \<Rightarrow> 'a dev_scheme \<Rightarrow> bool" where
  "magic_occurs p s \<longleftrightarrow> take 15 (drop p (bulk_pool s)) = magic_command_header"

lemma magic_bytes:
  assumes "magic_occurs p s" "i < 15"
  shows "p + 15 \<le> length (bulk_pool s)" "bulk_pool s ! (p + i) = magic_command_header ! i"
proof -
  have l: "length (take 15 (drop p (bulk_pool s))) = 15" using assms(1) by (simp add: magic_occurs_def magic_command_header_def)
  then show "p + 15 \<le> length (bulk_pool s)" by simp
  then show "bulk_pool s ! (p + i) = magic_command_header ! i"
    using assms by (simp add: magic_occurs_def [symmetric] flip: assms(1) [unfolded magic_occurs_def])
qed

text \<open>Two occurrences cannot overlap.\<close>

lemma magic_apart:
  assumes "magic_occurs p s" "magic_occurs q s" "p < q"
  shows "p + 15 \<le> q"
proof (rule ccontr)
  assume "\<not> p + 15 \<le> q"
  then obtain d where d: "q = p + d" "0 < d" "d < 15" using assms(3) less_imp_add_positive [of p q] by auto
  have 0: "bulk_pool s ! (p + d) = 0" "bulk_pool s ! (p + d) = magic_command_header ! d"
    using magic_bytes(2) [OF assms(2), of 0] magic_bytes(2) [OF assms(1) d(3)] d(1)
    by (simp_all add: magic_command_header_def)
  have 1: "bulk_pool s ! (p + Suc d) = 0"
    using magic_bytes(2) [OF assms(2), of 1] d(1) by (simp add: magic_command_header_def)
  show False
  proof (cases "d = 1")
    case True
    then show False using 1 magic_bytes(2) [OF assms(1), of 2] by (simp add: magic_command_header_def)
  next
    case False
    then have "d = 2 \<or> (\<exists>e. d = 3 + e \<and> e < 12)" using d(2,3) by presburger
    then show False using 0 by (auto simp: magic_command_header_def nth_append)
  qed
qed

lemma first_index_find:
  assumes "\<And>k. k < n \<Longrightarrow> P k = Some (Q k)"
  shows "first_index P [0..<n] = Some (find Q [0..<n])"
proof -
  have "first_index P [a..<n] = Some (map_option (\<lambda>x. x - a) (find Q [a..<n]))" if "a \<le> n" for a
    using that
  proof (induction "n - a" arbitrary: a)
    case (Suc m)
    then have a: "[a..<n] = a # [Suc a..<n]" "a < n" by (simp_all add: upt_conv_Cons)
    have "first_index P [Suc a..<n] = Some (map_option (\<lambda>x. x - Suc a) (find Q [Suc a..<n]))"
      using Suc a(2) by (intro Suc.hyps(1)) simp_all
    moreover have "x - a = Suc (x - Suc a)" if "find Q [Suc a..<n] = Some x" for x
      using that by (auto simp: find_Some_iff)
    ultimately show ?case using a assms
      by (cases "find Q [Suc a..<n]") auto
  qed simp
  from this [of 0] show ?thesis by (simp add: map_option.id [unfolded id_def])
qed

lemma pool_byte_in: "0 \<le> i \<Longrightarrow> nat i < length (bulk_pool s) \<Longrightarrow> pool_byte i s = Some (bulk_pool s ! nat i)"
  by (simp add: pool_byte_def pool_bytes_def read_at_def hd_drop_conv_nth)

text \<open>
  One look at position \<open>i\<close>: the twelve places where the pattern could begin with a byte \<open>ff\<close> there.
\<close>

lemma rx_find_step:
  assumes "4 \<le> i" "i + 4 \<le> n" "n + 8 \<le> length (bulk_pool s)" "n = unat len"
    and stride: "i = 4 \<or> 14 \<le> i" and low: "i = 4 \<Longrightarrow> bulk_pool s ! 4 = 0xff \<Longrightarrow> magic_occurs 1 s"
  shows "rx_find len (int n - int i) s =
    (if \<exists>p. magic_occurs p s \<and> p + 3 \<le> i \<and> i \<le> p + 14
     then Some (Some (int (THE p. magic_occurs p s \<and> p + 3 \<le> i \<and> i \<le> p + 14)))
     else rx_find len (int n - int (i + 12)) s)"
proof -
  have pos: "uint len - (int n - int i) = int i" using assms(4) by simp
  have byte: "pool_byte (int i) s = Some (bulk_pool s ! i)" using assms by (simp add: pool_byte_in)
  have go: "\<not> int n - int i < AR9170_MIN_HDR_LEN" using assms(2) by (simp add: AR9170_MIN_HDR_LEN_def)
  have next_i: "int n - int i - AR9170_MAGIC_RSP_0XFF_HDR_LEN = int n - int (i + 12)"
    by (simp add: AR9170_MAGIC_RSP_0XFF_HDR_LEN_def)
  have ff: "bulk_pool s ! i = 0xff" if "magic_occurs p s" "p + 3 \<le> i" "i \<le> p + 14" for p
  proof -
    have "i - p < 15" "i = p + (i - p)" using that(2,3) by simp_all
    then have "bulk_pool s ! i = magic_command_header ! (i - p)" using magic_bytes(2) [OF that(1), of "i - p"] by simp
    also have "\<dots> = 0xff" using that(2,3) by (auto simp: magic_command_header_def nth_append nth_Cons')
    finally show ?thesis .
  qed
  have uniq: "p = q" if "magic_occurs p s" "p + 3 \<le> i" "i \<le> p + 14" "magic_occurs q s" "q + 3 \<le> i" "i \<le> q + 14" for p q
    using magic_apart [of p s q] magic_apart [of q s p] that by (cases p q rule: linorder_cases) auto
  show ?thesis
  proof (cases "bulk_pool s ! i = 0xff")
    case False
    then have "\<not> (\<exists>p. magic_occurs p s \<and> p + 3 \<le> i \<and> i \<le> p + 14)" using ff by blast
    then show ?thesis using False by (subst rx_find.simps) (simp only: if_not_P [OF go] Let_def pos byte, simp add: next_i)
  next
    case True
    have m: "magic_at (int i - AR9170_MAGIC_RSP_NON_FF_LEN - int k) s = Some (magic_occurs (i - 3 - k) s)"
      if "k < 12" "k + 3 \<le> i" for k
    proof -
      have "int i - AR9170_MAGIC_RSP_NON_FF_LEN - int k = int (i - 3 - k)"
        using that(2) by (simp add: AR9170_MAGIC_RSP_NON_FF_LEN_def)
      moreover have "nat (int (i - 3 - k)) + 15 \<le> length (bulk_pool s)" using assms(2,3) that(2) by simp
      ultimately show ?thesis by (simp only: magic_at_iff of_nat_0_le_iff nat_int magic_occurs_def)
    qed
    have f: "first_index (\<lambda>k. magic_at (int i - AR9170_MAGIC_RSP_NON_FF_LEN - int k) s) [0..<12] =
        Some (find (\<lambda>k. magic_occurs (i - 3 - k) s) [0..<12])"
    proof (cases "14 \<le> i")
      case True then show ?thesis by (intro first_index_find m) simp_all
    next
      case False
      then have "i = 4" using assms(1) stride by blast
      then have o: "magic_occurs 1 s" using low True by simp
      have u: "[0..<12] = 0 # [1..<12::nat]" by (simp add: upt_conv_Cons)
      show ?thesis unfolding u using m [of 0] \<open>i = 4\<close> o by simp
    qed
    define Q where "Q = (\<lambda>k. magic_occurs (i - 3 - k) s)"
    have at: "(\<exists>p. magic_occurs p s \<and> p + 3 \<le> i \<and> i \<le> p + 14) = (find Q [0..<12] \<noteq> None)"
    proof -
      have "(\<exists>p. magic_occurs p s \<and> p + 3 \<le> i \<and> i \<le> p + 14) = (\<exists>k < 12. Q k)"
      proof (intro iffI; elim exE conjE)
        fix p assume p: "magic_occurs p s" "p + 3 \<le> i" "i \<le> p + 14"
        then have "i - 3 - (i - 3 - p) = p" "i - 3 - p < 12" by simp_all
        then show "\<exists>k < 12. Q k" unfolding Q_def using p(1) by metis
      next
        fix k assume k: "k < 12" "Q k"
        show "\<exists>p. magic_occurs p s \<and> p + 3 \<le> i \<and> i \<le> p + 14"
        proof (cases "14 \<le> i")
          case True then show ?thesis using k by (intro exI [of _ "i - 3 - k"]) (simp add: Q_def)
        next
          case False
          then have "i = 4" using assms(1) stride by blast
          then show ?thesis using low True by (intro exI [of _ 1]) simp
        qed
      qed
      then show ?thesis by (auto simp: find_None_iff)
    qed
    show ?thesis
    proof (cases "find Q [0..<12]")
      case None
      then show ?thesis using at True f unfolding Q_def [symmetric]
        by (subst rx_find.simps) (simp only: if_not_P [OF go] Let_def pos byte, simp add: next_i)
    next
      case (Some k)
      then have k: "k < 12" "Q k" by (auto simp: find_Some_iff)
      have k3: "k + 3 \<le> i"
      proof (cases "14 \<le> i")
        case False
        then have "i = 4" using assms(1) stride by blast
        then have "Q 0" using low True by (simp add: Q_def)
        then have "find Q [0..<12] = Some 0" by (simp add: upt_conv_Cons)
        then show ?thesis using Some \<open>i = 4\<close> by simp
      qed (use k(1) in simp)
      define p where "p = i - 3 - k"
      have p: "magic_occurs p s \<and> p + 3 \<le> i \<and> i \<le> p + 14" using k k3 by (simp add: Q_def p_def)
      have "(THE p. magic_occurs p s \<and> p + 3 \<le> i \<and> i \<le> p + 14) = p"
        using p uniq by (intro the_equality) blast+
      moreover have "int i - AR9170_MAGIC_RSP_NON_FF_LEN - int k = int p"
        using k3 by (simp add: p_def AR9170_MAGIC_RSP_NON_FF_LEN_def)
      ultimately show ?thesis using p True f Some unfolding Q_def [symmetric]
        by (subst rx_find.simps) (simp only: if_not_P [OF go] Let_def pos byte, auto)
    qed
  qed
qed

lemma rx_find_from:
  assumes "magic_occurs p s" "\<forall>q < p. \<not> magic_occurs q s" "p + 19 \<le> n" "n + 8 \<le> length (bulk_pool s)" "n = unat len"
    and "4 \<le> i" "i = 4 \<or> 14 \<le> i" "i \<le> p + 14" "bulk_pool s ! 4 = 0xff \<Longrightarrow> magic_occurs 1 s"
  shows "rx_find len (int n - int i) s = Some (Some (int p))"
  using assms(6-8)
proof (induction "p + 14 - i" arbitrary: i rule: less_induct)
  case less
  have step: "rx_find len (int n - int i) s =
    (if \<exists>p. magic_occurs p s \<and> p + 3 \<le> i \<and> i \<le> p + 14
     then Some (Some (int (THE p. magic_occurs p s \<and> p + 3 \<le> i \<and> i \<le> p + 14)))
     else rx_find len (int n - int (i + 12)) s)"
    using less.prems assms by (intro rx_find_step) auto
  show ?case
  proof (cases "p + 3 \<le> i")
    case True
    have only: "q = p" if "magic_occurs q s" "q + 3 \<le> i" for q
    proof (rule ccontr)
      assume "q \<noteq> p"
      then have "p < q" using assms(2) that(1) by (meson linorder_neqE_nat)
      from magic_apart [OF assms(1) that(1) this] show False using that(2) less.prems(3) by simp
    qed
    then have "(THE p. magic_occurs p s \<and> p + 3 \<le> i \<and> i \<le> p + 14) = p"
      using True less.prems(3) assms(1) by (intro the_equality) blast+
    then show ?thesis using step True less.prems(3) assms(1) by auto
  next
    case False
    then have no: "\<not> (\<exists>q. magic_occurs q s \<and> q + 3 \<le> i \<and> i \<le> q + 14)" using assms(2) by fastforce
    have "rx_find len (int n - int i) s = rx_find len (int n - int (i + 12)) s" by (rule step [unfolded if_not_P [OF no]])
    also have "\<dots> = Some (Some (int p))" using less.prems False by (intro less.hyps) auto
    finally show ?thesis .
  qed
qed

lemma rx_find_none:
  assumes "\<forall>p. p + 7 \<le> n \<longrightarrow> \<not> magic_occurs p s" "n + 8 \<le> length (bulk_pool s)" "n = unat len" "bulk_pool s ! 4 \<noteq> 0xff"
    and "4 \<le> i" "i = 4 \<or> 14 \<le> i"
  shows "rx_find len (int n - int i) s = Some None"
  using assms(5,6)
proof (induction "n - i" arbitrary: i rule: less_induct)
  case less
  show ?case
  proof (cases "i + 4 \<le> n")
    case True
    have step: "rx_find len (int n - int i) s =
      (if \<exists>p. magic_occurs p s \<and> p + 3 \<le> i \<and> i \<le> p + 14
       then Some (Some (int (THE p. magic_occurs p s \<and> p + 3 \<le> i \<and> i \<le> p + 14)))
       else rx_find len (int n - int (i + 12)) s)"
      using less.prems assms True by (intro rx_find_step) auto
    have no: "\<not> (\<exists>p. magic_occurs p s \<and> p + 3 \<le> i \<and> i \<le> p + 14)"
    proof
      assume "\<exists>p. magic_occurs p s \<and> p + 3 \<le> i \<and> i \<le> p + 14"
      then obtain p where "magic_occurs p s" "p + 3 \<le> i" by blast
      moreover have "p + 7 \<le> n" using \<open>p + 3 \<le> i\<close> True by simp
      ultimately show False using assms(1) by blast
    qed
    have "rx_find len (int n - int i) s = rx_find len (int n - int (i + 12)) s" by (rule step [unfolded if_not_P [OF no]])
    also have "\<dots> = Some None" using less.prems True by (intro less.hyps) auto
    finally show ?thesis .
  qed (subst rx_find.simps, simp add: AR9170_MIN_HDR_LEN_def)
qed

text \<open>
  A fifth byte \<open>ff\<close> makes the search compare from three bytes before it backwards, and so before the
  buffer, unless the pattern starts at its first or second byte.
\<close>

lemma rx_find_before:
  assumes "bulk_pool s ! 4 = 0xff" "\<not> magic_occurs 0 s" "\<not> magic_occurs 1 s" "8 \<le> n" "n + 8 \<le> length (bulk_pool s)" "n = unat len"
  shows "rx_find len (int n - 4) s = None"
proof -
  have u: "[0..<12] = 0 # 1 # 2 # [3..<12::nat]" by (simp add: upt_conv_Cons)
  have m: "magic_at (1 - int 0) s = Some False" "magic_at (1 - int 1) s = Some False" "magic_at (1 - int 2) s = None"
    using assms(2-5) magic_at_iff [of 1 s] magic_at_iff [of 0 s]
    by (simp_all add: magic_occurs_def) (simp add: magic_at_def pool_bytes_def)
  have pos: "uint len - (int n - 4) = 4" using assms(6) by simp
  have b: "pool_byte 4 s = Some 0xff" using assms(1,4,5) by (simp add: pool_byte_in)
  have f: "first_index (\<lambda>k. magic_at (4 - AR9170_MAGIC_RSP_NON_FF_LEN - int k) s) [0..<12] = None"
    unfolding u using m by (simp add: AR9170_MAGIC_RSP_NON_FF_LEN_def)
  have "\<not> int n - 4 < AR9170_MIN_HDR_LEN" using assms(4) by (simp add: AR9170_MIN_HDR_LEN_def)
  then show ?thesis by (subst rx_find.simps) (simp only: if_False Let_def pos b f, simp)
qed

lemma sint_len:
  assumes "4 \<le> n" "n < 65536"
  shows "sint (of_nat n - 4 :: u32) = int n - 4" "unat (of_nat n :: u32) = n"
proof -
  have "(of_nat n - 4 :: u32) = word_of_int (int n - 4)" by simp
  also have "sint (word_of_int (int n - 4) :: u32) = int n - 4"
    using assms by (simp only: signed_of_int) (simp add: signed_take_bit_int_eq_self)
  finally show "sint (of_nat n - 4 :: u32) = int n - 4" .
  show "unat (of_nat n :: u32) = n" using assms by (simp add: unat_of_nat_u32)
qed

text \<open>
  C7. A transfer with a frame before a command response, which the device merges into one, is taken
  apart exactly: the response is handled first and the bytes before its pattern then as the frame; a
  transfer without the pattern is one frame. The stride of twelve bytes misses no pattern. With one
  exception: when the fifth byte of the transfer, the first behind the length, is \<open>ff\<close>, the search
  compares with bytes before the buffer, in both cases.
\<close>

theorem rx_transfer_split:
  assumes n: "4 \<le> n" "n + 8 \<le> length (bulk_pool s)" "length (bulk_pool s) \<le> 2048"
  shows "(\<forall>p hl. 5 < p \<and> magic_occurs p s \<and> (\<forall>q < p. \<not> magic_occurs q s) \<and>
        hl = unat (bulk_pool s ! (p + 15)) \<and> n = p + 15 + hl + 4 \<longrightarrow>
      ar9170_rx (of_nat n) s = (if bulk_pool s ! 4 = 0xff then None else Option.bind
        (ar9170_handle_command_response (drop (p + 15) (bulk_pool s)) (hl + 4) s) (ar9170_handle_mpdu 4 (int (p - 5))))) \<and>
    ((\<forall>p. p + 7 \<le> n \<longrightarrow> \<not> magic_occurs p s) \<longrightarrow> ar9170_rx (of_nat n) s =
      (if 8 \<le> n \<and> bulk_pool s ! 4 = 0xff then None else ar9170_handle_mpdu 4 (int (n - 4)) s))"
proof (intro conjI allI impI; (elim conjE)?)
  have n': "n < 65536" using n(2,3) by simp
  note L = sint_len [OF n(1) n']
  { fix p hl assume a: "5 < p" "magic_occurs p s" "\<forall>q < p. \<not> magic_occurs q s"
      "hl = unat (bulk_pool s ! (p + 15))" "n = p + 15 + hl + 4"
    have before: "ar9170_rx (of_nat n) s = None" if "bulk_pool s ! 4 = 0xff"
    proof -
      have "\<not> magic_occurs 0 s" "\<not> magic_occurs 1 s" "8 \<le> n" using a(1,3,5) by simp_all
      from rx_find_before [OF that this n(2) L(2) [symmetric]] show ?thesis by (simp add: ar9170_rx_def L(1))
    qed
    have "rx_find (of_nat n) (int n - int 4) s = Some (Some (int p))" if ff: "bulk_pool s ! 4 \<noteq> 0xff"
      by (rule rx_find_from [OF a(2,3) _ n(2) L(2) [symmetric]]) (use a(1,5) ff in simp_all)
    then have f: "rx_find (of_nat n) (sint (of_nat n - 4 :: u32)) s = Some (Some (int p))"
      if "bulk_pool s ! 4 \<noteq> 0xff" using that by (simp add: L)
    have cmd: "nat (int p + AR9170_MAGIC_RSP_HDR_LENGTH) = p + 15" by (simp add: AR9170_MAGIC_RSP_HDR_LENGTH_def)
    have hb: "pool_byte (int (p + 15)) s = Some (bulk_pool s ! (p + 15))"
      using pool_byte_in [of "int (p + 15)" s] a(5) n(2) unfolding nat_int by simp
    have un: "ar9170_rx_untie_cmds (p + 15) (hl + 4) 0 s =
        ar9170_handle_command_response (drop (p + 15) (bulk_pool s)) (hl + 4) s"
    proof -
      have fin: "ar9170_rx_untie_cmds b m m = Some" for b m by (rule ext) (simp add: ar9170_rx_untie_cmds.simps)
      show ?thesis unfolding ar9170_rx_untie_cmds.simps [of _ _ 0] using hb
        by (simp add: AR9170_CMD_HDR_LEN_def a(4) fin)
    qed
    have rest: "(of_int (uint (of_nat n :: u32) - int p - AR9170_MAGIC_RSP_HDR_LENGTH) :: u32) = of_nat (hl + 4)"
    proof -
      have "uint (of_nat n :: u32) = int n" using L(2) by (metis uint_nat)
      then have "uint (of_nat n :: u32) - int p - AR9170_MAGIC_RSP_HDR_LENGTH = int (hl + 4)"
        using a(5) by (simp add: AR9170_MAGIC_RSP_HDR_LENGTH_def)
      then show ?thesis by simp
    qed
    have big: "int p \<noteq> 1 \<and> \<not> (of_int (int p - 1) :: u32) \<le> 4"
    proof -
      have "(of_int (int p - 1) :: u32) = of_nat (p - 1)" using a(1) by (simp add: of_nat_diff)
      moreover have "unat (of_nat (p - 1) :: u32) = p - 1" using a(5) n' by (subst unat_of_nat_u32) simp_all
      ultimately show ?thesis using a(1) by (simp add: word_le_nat_alt)
    qed
    have len: "int p - 4 - 1 = int (p - 5)" using a(1) by simp
    have cl: "unat (bulk_pool s ! (p + 15)) + AR9170_CMD_HDR_LEN = hl + 4" using a(4) by (simp add: AR9170_CMD_HDR_LEN_def)
    have "ar9170_rx (of_nat n) s = Option.bind
        (ar9170_handle_command_response (drop (p + 15) (bulk_pool s)) (hl + 4) s) (ar9170_handle_mpdu 4 (int (p - 5)))"
      if "bulk_pool s ! 4 \<noteq> 0xff"
      unfolding ar9170_rx_def f [OF that] rx_mixed_def Let_def Option.bind.bind_lunit option.case cmd hb cl un rest if_P [OF big] len
      by (simp cong: option.case_cong)
    then show "ar9170_rx (of_nat n) s = (if bulk_pool s ! 4 = 0xff then None else Option.bind
        (ar9170_handle_command_response (drop (p + 15) (bulk_pool s)) (hl + 4) s) (ar9170_handle_mpdu 4 (int (p - 5))))"
      using before by simp
  }
  assume no: "\<forall>p. p + 7 \<le> n \<longrightarrow> \<not> magic_occurs p s"
  show "ar9170_rx (of_nat n) s = (if 8 \<le> n \<and> bulk_pool s ! 4 = 0xff then None else ar9170_handle_mpdu 4 (int (n - 4)) s)"
  proof (cases "8 \<le> n \<and> bulk_pool s ! 4 = 0xff")
    case True
    have "rx_find (of_nat n) (int n - 4) s = None"
      by (rule rx_find_before [OF _ _ _ _ n(2) L(2) [symmetric]]) (use no True in auto)
    then show ?thesis using True by (simp add: ar9170_rx_def L)
  next
    case False
    have "rx_find (of_nat n) (int n - int 4) s = Some None"
    proof (cases "8 \<le> n")
      case True
      then show ?thesis using False by (intro rx_find_none [OF no n(2) L(2) [symmetric]]) simp_all
    next
      case False then show ?thesis by (subst rx_find.simps) (simp add: AR9170_MIN_HDR_LEN_def)
    qed
    then show ?thesis using n(1) False by (auto simp: ar9170_rx_def L of_nat_diff)
  qed
qed

text \<open>A frame of two bytes before an empty command response.\<close>

definition dev_mixed :: "dev" where
  "dev_mixed = dev0\<lparr>bulk_pool := replicate 7 0 @ magic_command_header @ [0, 0xc0, 0, 0] @ replicate 10 0\<rparr>"

lemma rx_transfer_split_witness:
  "ar9170_rx 26 dev_mixed = Option.bind (ar9170_handle_command_response ([0, 0xc0, 0, 0] @ replicate 10 0) 4 dev_mixed)
    (ar9170_handle_mpdu 4 2) \<and>
   ar9170_rx 16 (dev0\<lparr>bulk_pool := replicate 24 0xff\<rparr>) = None"
proof -
  have pool: "bulk_pool dev_mixed = replicate 7 0 @ magic_command_header @ [0, 0xc0, 0, 0] @ replicate 10 0"
    by (simp add: dev_mixed_def)
  have m: "magic_occurs 7 dev_mixed" "\<forall>q < 7. \<not> magic_occurs q dev_mixed"
    unfolding magic_occurs_def pool by code_simp+
  have l: "length (bulk_pool dev_mixed) = 36" "bulk_pool dev_mixed ! 4 \<noteq> 0xff" "bulk_pool dev_mixed ! 22 = 0"
    "drop 22 (bulk_pool dev_mixed) = [0, 0xc0, 0, 0] @ replicate 10 0"
    unfolding pool by code_simp+
  have "ar9170_rx (of_nat 26) dev_mixed = (if bulk_pool dev_mixed ! 4 = 0xff then None else Option.bind
      (ar9170_handle_command_response (drop (7 + 15) (bulk_pool dev_mixed)) (0 + 4) dev_mixed) (ar9170_handle_mpdu 4 (int (7 - 5))))"
    by (rule rx_transfer_split [THEN conjunct1, rule_format]) (use m l in simp_all)
  then have "ar9170_rx (of_nat 26) dev_mixed = Option.bind
      (ar9170_handle_command_response (drop (7 + 15) (bulk_pool dev_mixed)) (0 + 4) dev_mixed) (ar9170_handle_mpdu 4 (int (7 - 5)))"
    using l(2) by (simp only: if_False)
  then have 1: "ar9170_rx 26 dev_mixed = Option.bind (ar9170_handle_command_response ([0, 0xc0, 0, 0] @ replicate 10 0) 4 dev_mixed)
      (ar9170_handle_mpdu 4 2)" using l(4) by simp
  define d where "d = dev0\<lparr>bulk_pool := replicate 24 0xff\<rparr>"
  have no: "\<not> magic_occurs p d" for p
  proof
    assume "magic_occurs p d"
    then have "take 15 (drop p (replicate 24 (0xff :: u8))) ! 0 = magic_command_header ! 0" by (simp add: magic_occurs_def d_def)
    moreover have "p + 15 \<le> 24" using magic_bytes(1) [OF \<open>magic_occurs p d\<close>, of 0] by (simp add: d_def)
    ultimately show False by (simp add: magic_command_header_def)
  qed
  have "ar9170_rx (of_nat 16) d = (if 8 \<le> (16 :: nat) \<and> bulk_pool d ! 4 = 0xff then None else ar9170_handle_mpdu 4 (int (16 - 4)) d)"
    using rx_transfer_split [THEN conjunct2, of 16 d] no by (simp add: d_def)
  then have "ar9170_rx 16 d = None" by (simp add: d_def)
  then show ?thesis using 1 by (simp add: d_def)
qed

section \<open>Frames that are too short\<close>

lemma u32_wrap:
  assumes "a < 4096" "buf < 2048"
  shows "uint (of_nat buf + of_nat (2 ^ 32 + a - buf - 8) + 12 - 4 :: u32) = int a"
proof -
  have "(of_nat buf + of_nat (2 ^ 32 + a - buf - 8) + 12 - 4 :: u32) = of_nat (buf + (2 ^ 32 + a - buf - 8) + 8)"
    by (simp only: of_nat_add) simp
  also have "buf + (2 ^ 32 + a - buf - 8) + 8 = 2 ^ 32 + a" using assms by simp
  also have "(of_nat (2 ^ 32 + a) :: u32) = of_nat a" by simp
  finally show ?thesis using assms(1) by (simp add: unsigned_of_nat take_bit_nat_eq_self)
qed

lemma mpdu_pattern_below:
  assumes "\<forall>b \<le> a. read_at b 2 (bulk_pool s) \<noteq> [0x3f, 0x3f]" "a + 2 \<le> length (bulk_pool s)" "length (bulk_pool s) \<le> 2048"
    and "buf < 2048"
  shows "mpdu_pattern buf (2 ^ 32 + a - buf - 8) s = None"
  using assms(1,2)
proof (induction a)
  case 0
  have e: "pool_bytes (uint (of_nat buf + of_nat (2 ^ 32 + 0 - buf - 8) + 12 - 4 :: u32)) 2 s = Some (read_at 0 2 (bulk_pool s))"
    using u32_wrap [of 0 buf] assms(4) 0 by (simp only: pool_bytes_def) simp
  have w: "(of_nat buf + of_nat (2 ^ 32 + 0 - buf - 8 - 1) + 12 - 4 :: u32) = - 1"
  proof -
    have "(of_nat buf + of_nat (2 ^ 32 + 0 - buf - 8 - 1) + 12 - 4 :: u32) = of_nat (buf + (2 ^ 32 + 0 - buf - 8 - 1) + 8)"
      by (simp only: of_nat_add) simp
    also have "buf + (2 ^ 32 + 0 - buf - 8 - 1) + 8 = 2 ^ 32 - 1" using assms(4) by simp
    finally show ?thesis by simp
  qed
  have out: "pool_bytes (uint (- 1 :: u32)) 2 s = None" using assms(3) unat_minus_small [of 1] by (simp add: pool_bytes_def)
  have p: "2 ^ 32 + 0 - buf - 8 \<noteq> 0" "2 ^ 32 + 0 - buf - 8 - 1 \<noteq> (0 :: nat)" using assms(4) by simp_all
  have "mpdu_pattern buf (2 ^ 32 + 0 - buf - 8 - 1) s = None"
    unfolding mpdu_pattern.simps [of _ "2 ^ 32 + 0 - buf - 8 - 1"] w out using p(2) by simp
  then show ?case
    unfolding mpdu_pattern.simps [of _ "2 ^ 32 + 0 - buf - 8"] e if_not_P [OF p(1)] using 0(1) by simp
next
  case (Suc a)
  have e: "pool_bytes (uint (of_nat buf + of_nat (2 ^ 32 + Suc a - buf - 8) + 12 - 4 :: u32)) 2 s =
      Some (read_at (Suc a) 2 (bulk_pool s))"
  proof -
    have "Suc a < 4096" using Suc.prems(2) assms(3) by simp
    from u32_wrap [OF this assms(4)] show ?thesis using Suc.prems(2) by (simp only: pool_bytes_def nat_int) simp
  qed
  have p: "2 ^ 32 + Suc a - buf - 8 \<noteq> 0" and nx: "2 ^ 32 + Suc a - buf - 8 - 1 = 2 ^ 32 + a - buf - 8"
    using assms(4) by simp_all
  have "mpdu_pattern buf (2 ^ 32 + a - buf - 8) s = None" using Suc by simp
  then show ?case
    unfolding mpdu_pattern.simps [of _ "2 ^ 32 + Suc a - buf - 8"] e if_not_P [OF p] nx using Suc.prems(1) by simp
qed

text \<open>
  C28. A frame of four to eleven bytes is not dropped for its length: the counter of the search for the
  MAC status starts below zero, wraps around, and the search runs backwards out of the buffer unless
  the two bytes happen to lie before the frame.
\<close>

theorem rx_short_mpdu_overruns:
  assumes "is_started s" "4 \<le> len" "len < 12" "buf + len \<le> length (bulk_pool s)" "length (bulk_pool s) \<le> 2048"
    and "\<forall>a \<le> buf + len - 4. read_at a 2 (bulk_pool s) \<noteq> [0x3f, 0x3f]"
  shows "ar9170_handle_mpdu buf (int len) s = None"
proof -
  have c: "unat (of_int (int len) - 12 :: u32) = 2 ^ 32 + (buf + len - 4) - buf - 8"
  proof -
    have "(of_int (int len) - 12 :: u32) = - of_nat (12 - len)" using assms(3) by (simp add: of_nat_diff)
    then show ?thesis using unat_minus_small [of "12 - len"] assms(2,3) by simp
  qed
  have "mpdu_pattern buf (2 ^ 32 + (buf + len - 4) - buf - 8) s = None"
    by (rule mpdu_pattern_below) (use assms in auto)
  moreover have "\<not> int len > AR9170_RX_MAX_PACKET_LENGTH" using assms(3) by (simp add: AR9170_RX_MAX_PACKET_LENGTH_def)
  moreover have "\<not> (of_int (int len) :: u32) < 4"
    using assms(2,3) by (simp add: word_less_nat_alt unat_of_nat_u32)
  ultimately show ?thesis using assms(1) unfolding ar9170_handle_mpdu_def Let_def c by simp
qed

lemma rx_short_mpdu_overruns_witness:
  "ar9170_handle_mpdu 4 (int 4) (dev0\<lparr>is_started := True, bulk_pool := replicate 16 0\<rparr>) = None"
proof (rule rx_short_mpdu_overruns)
  have two: "replicate 2 0 \<noteq> [0x3f, 0x3f :: u8]" by code_simp
  show "\<forall>a \<le> 4 + 4 - 4. read_at a 2 (bulk_pool (dev0\<lparr>is_started := True, bulk_pool := replicate 16 0\<rparr>)) \<noteq> [0x3f, 0x3f]"
    using two by (auto simp: read_at_def take_replicate drop_replicate)
qed simp_all

end
