(* ===== verification/PsmFrame.thy ===== *)
theory PsmFrame
  imports DevRx
begin

text \<open>
  What each operation leaves of the power-saving state machine as it is, in three steps: \<open>wl_frame\<close> for
  the operations of the 802.11 code, \<open>ino_frame\<close> and \<open>dev_frame\<close> for those that also change the IBSS or
  the device object, \<open>win_frame\<close> for those that put the device to sleep, wake it, or queue received
  frames; all of them keep the queues bounded and the received frames well-formed.
\<close>

section \<open>Operations that leave the state machine alone\<close>

definition psm_core :: "'a wlan_scheme \<Rightarrow> psm_window \<times> bool \<times> bool \<times> bool \<times> bool \<times> u32 \<times> bool \<times> ether" where
  "psm_core s = (psm_state s, ps_state s, conf_ps s, psm_transit_to_sleep s, psm_transit_to_wake s, update_mask s,
     is_started s, vif_addr s)"

definition pq_within :: "nat \<Rightarrow> 'b pq \<Rightarrow> bool" where
  "pq_within n q = (case q of PQ xs \<Rightarrow> length xs \<le> n | _ \<Rightarrow> True)"

definition queues_bounded :: "'a wlan_scheme \<Rightarrow> bool" where
  "queues_bounded s \<longleftrightarrow>
     pq_within AR9170_MAX_PENDING_TX_PKT_QUEUE_LEN (tx_pending_pkts s) \<and>
     pq_within AR9170_MAX_PENDING_TX_PKT_QUEUE_LEN (tx_pending_atims s) \<and>
     pq_within AR9170_MAX_PENDING_RX_PKT_QUEUE_LEN (rx_pending_pkts s) \<and>
     pq_within AR9170_PSM_MAX_AWAKE_NODES_LIST_LEN (wake_neighbors s)"

text \<open>At most one of the two statuses is awaited.\<close>

definition one_wait :: "'a wlan_scheme \<Rightarrow> bool" where
  "one_wait s \<longleftrightarrow> \<not> (tx_data_wait s \<and> tx_atim_wait s)"

definition wl_frame :: "'a wlan_scheme \<Rightarrow> 'a wlan_scheme \<Rightarrow> bool" where
  "wl_frame s t \<longleftrightarrow> psm_core t = psm_core s \<and> wlan.more t = wlan.more s \<and> rx_pending_pkts t = rx_pending_pkts s \<and>
     (queues_bounded s \<longrightarrow> queues_bounded t) \<and> (one_wait s \<longrightarrow> one_wait t)"

lemma wl_frame_refl [simp, intro!]: "wl_frame s s"
  by (simp add: wl_frame_def)

lemma wl_frame_trans [trans]: "wl_frame s t \<Longrightarrow> wl_frame t u \<Longrightarrow> wl_frame s u"
  by (simp add: wl_frame_def)

lemma pq_within_simps [simp]:
  "pq_within n PQNull" "pq_within n PQFreed" "pq_within n (PQ xs) \<longleftrightarrow> length xs \<le> n"
  by (simp_all add: pq_within_def)

text \<open>Updates of single fields, and what the way to the pipe changes.\<close>

lemma wl_frame_updates [simp]:
  "wl_frame s (t\<lparr>mallocs := x1\<rparr>) = wl_frame s t"
  "wl_frame s (t\<lparr>tx_packets_sent := x2\<rparr>) = wl_frame s t"
  "wl_frame s (t\<lparr>tx_dropped := x3\<rparr>) = wl_frame s t"
  "wl_frame s (t\<lparr>off_override := x4\<rparr>) = wl_frame s t"
  "wl_frame s (t\<lparr>last_ATIM_DA := x5\<rparr>) = wl_frame s t"
  "wl_frame s (t\<lparr>last_ATIM_A3 := x6\<rparr>) = wl_frame s t"
  "wl_frame s (t\<lparr>tx_async_lock := x7\<rparr>) = wl_frame s t"
  "wl_frame s (t\<lparr>cmd_async_lock := x7\<rparr>) = wl_frame s t"
  "wl_frame s (t\<lparr>clear_tx_data_wait := x7\<rparr>) = wl_frame s t"
  "wl_frame s (t\<lparr>clear_tx_async_lock := x7\<rparr>) = wl_frame s t"
  "wl_frame s (t\<lparr>clear_cmd_async_lock := x7\<rparr>) = wl_frame s t"
  "wl_frame s (t\<lparr>create_atims_flag := x7\<rparr>) = wl_frame s t"
  "wl_frame s (t\<lparr>erase_awake_nodes_flag := x7\<rparr>) = wl_frame s t"
  "wl_frame s (t\<lparr>send_soft_bcn_flag := x7\<rparr>) = wl_frame s t"
  "wl_frame s (t\<lparr>atim_wait_cleared_count := x8\<rparr>) = wl_frame s t"
  "wl_frame s (t\<lparr>tx_list := x9\<rparr>) = wl_frame s t"
  "wl_frame s (t\<lparr>beacon_int := x10\<rparr>) = wl_frame s t"
  "wl_frame s (t\<lparr>atim_window := x11\<rparr>) = wl_frame s t"
  "wl_frame s (t\<lparr>mh_psm_addr_map := x12\<rparr>) = wl_frame s t"
  "wl_frame s (t\<lparr>tbtt_counter := x13\<rparr>) = wl_frame s t"
  "wl_frame s (t\<lparr>ibss_beacon_buf := x14\<rparr>) = wl_frame s t"
  "wl_frame s (t\<lparr>ibss_joined := x15\<rparr>) = wl_frame s t"
  by (simp_all add: wl_frame_def psm_core_def queues_bounded_def one_wait_def)

lemma wl_frame_waits [simp]:
  "wl_frame s t \<Longrightarrow> wl_frame s (t\<lparr>tx_data_wait := False\<rparr>)" "wl_frame s t \<Longrightarrow> wl_frame s (t\<lparr>tx_atim_wait := False\<rparr>)"
  "wl_frame s t \<Longrightarrow> \<not> tx_atim_wait t \<Longrightarrow> wl_frame s (t\<lparr>tx_data_wait := True\<rparr>)"
  "wl_frame s t \<Longrightarrow> \<not> tx_data_wait t \<Longrightarrow> wl_frame s (t\<lparr>tx_atim_wait := True\<rparr>)"
  by (simp_all add: wl_frame_def psm_core_def queues_bounded_def one_wait_def)

lemma wl_frame_queues:
  assumes "wl_frame s t"
  shows "(queues_bounded s \<Longrightarrow> queues_bounded t \<Longrightarrow> pq_within 16 q) \<Longrightarrow> wl_frame s (t\<lparr>tx_pending_pkts := q\<rparr>)"
    "(queues_bounded s \<Longrightarrow> queues_bounded t \<Longrightarrow> pq_within 16 q) \<Longrightarrow> wl_frame s (t\<lparr>tx_pending_atims := q\<rparr>)"
    "(queues_bounded s \<Longrightarrow> queues_bounded t \<Longrightarrow> pq_within 32 w) \<Longrightarrow> wl_frame s (t\<lparr>wake_neighbors := w\<rparr>)"
  using assms by (auto simp: wl_frame_def psm_core_def queues_bounded_def wlan_consts one_wait_def)

lemma queues_boundedD:
  "queues_bounded s \<Longrightarrow> pq_within 16 (tx_pending_pkts s)" "queues_bounded s \<Longrightarrow> pq_within 16 (tx_pending_atims s)"
  "queues_bounded s \<Longrightarrow> pq_within 8 (rx_pending_pkts s)" "queues_bounded s \<Longrightarrow> pq_within 32 (wake_neighbors s)"
  by (simp_all add: queues_bounded_def wlan_consts)

definition queue_cap :: "queue_id \<Rightarrow> nat" where
  "queue_cap i = (if i = RxQ then AR9170_MAX_PENDING_RX_PKT_QUEUE_LEN else AR9170_MAX_PENDING_TX_PKT_QUEUE_LEN)"

lemma queue_cap_pos: "0 < queue_cap i"
  by (simp add: queue_cap_def wlan_consts)

lemma queues_bounded_get: "queues_bounded s \<Longrightarrow> pq_within (queue_cap i) (get_queue i s)"
  by (cases i) (simp_all add: queues_bounded_def get_queue_def queue_cap_def)

lemma wl_frame_set_queue:
  "i \<noteq> RxQ \<Longrightarrow> wl_frame s t \<Longrightarrow> (queues_bounded t \<Longrightarrow> pq_within (queue_cap i) q) \<Longrightarrow> wl_frame s (set_queue i q t)"
  by (cases i) (simp_all add: set_queue_def queue_cap_def wlan_consts wl_frame_queues)

lemma smalloc_mallocs: "smalloc s = (ok, t) \<Longrightarrow> \<exists>m. t = s\<lparr>mallocs := m\<rparr>"
  by (cases "mallocs s") (auto simp: smalloc_def intro: exI [of _ "[]"])

lemma wl_frame_smalloc: "smalloc s = (ok, t) \<Longrightarrow> wl_frame s t"
  by (auto dest: smalloc_mallocs)

lemma queues_bounded_mallocs [simp]: "queues_bounded (s\<lparr>mallocs := m\<rparr>) = queues_bounded s"
  by (simp add: queues_bounded_def)

lemma wl_frame_usb_part:
  assumes "usb_part s t"
  shows "wl_frame s t"
proof -
  have e: "usb_erase s = usb_erase t" using assms by (simp add: usb_part_def)
  have c: "psm_core s = psm_core t" using arg_cong [OF e, of psm_core] by (simp add: usb_erase_def psm_core_def)
  have r: "rx_pending_pkts s = rx_pending_pkts t" using arg_cong [OF e, of rx_pending_pkts] by (simp add: usb_erase_def)
  have m: "wlan.more s = wlan.more t" using arg_cong [OF e, of wlan.more] by (simp add: usb_erase_def)
  have q: "queues_bounded s = queues_bounded t"
    using arg_cong [OF e, of queues_bounded] by (simp add: usb_erase_def queues_bounded_def)
  have o: "one_wait s = one_wait t" using arg_cong [OF e, of one_wait] by (simp add: usb_erase_def one_wait_def)
  show ?thesis using c m q r o by (simp add: wl_frame_def)
qed

lemma queue_init_frame:
  assumes "queue_init s = (q, t)"
  shows "wl_frame s t" "q = PQ [] \<or> q = PQNull"
  using assms wl_frame_smalloc [of s] by (auto simp: queue_init_def split: prod.splits if_splits)

lemma queue_add_tail_frame:
  assumes "queue_add_tail x mx q s = Some (a, q', t)"
  shows "\<exists>m. t = s\<lparr>mallocs := m\<rparr>" "pq_within mx q \<Longrightarrow> 0 < mx \<Longrightarrow> pq_within mx q'"
proof -
  define r where "r = (case q of PQ xs \<Rightarrow> if xs \<noteq> [] \<and> length xs < mx then smalloc s else (True, s) | _ \<Rightarrow> (True, s))"
  obtain ok s1 where m: "r = (ok, s1)" by force
  have "smalloc s = (ok, s1) \<or> s1 = s\<lparr>mallocs := mallocs s\<rparr>" using m by (auto simp: r_def split: pq.splits if_splits)
  then have f: "\<exists>m. s1 = s\<lparr>mallocs := m\<rparr>" by (blast dest: smalloc_mallocs)
  have e: "map_option (\<lambda>(added, q1). (added, q1, s1)) (pq_add_tail x mx ok q) = Some (a, q', t)"
    using assms unfolding queue_add_tail_def r_def [symmetric] m by simp
  then show "\<exists>m. t = s\<lparr>mallocs := m\<rparr>" using f by auto
  show "pq_within mx q \<Longrightarrow> 0 < mx \<Longrightarrow> pq_within mx q'"
    using e by (cases q) (auto simp: pq_add_tail_def split: if_splits)
qed

lemma op_add_pending_frame:
  assumes "ar9170_op_add_pending_pkt i skb s = Some (r, t)" and i: "i \<noteq> RxQ"
  shows "wl_frame s t"
proof -
  define p where "p = (if get_queue i s = PQNull then queue_init s else (get_queue i s, s))"
  obtain q s1 where q: "p = (q, s1)" by force
  have f1: "wl_frame s s1" and b: "pq_within (queue_cap i) q" if "queues_bounded s1"
    using q queue_init_frame [of s q s1] queues_bounded_get [of s i] that
    by (auto simp: p_def split: if_splits)
  have f1: "wl_frame s s1" using q queue_init_frame(1) [of s q s1] by (auto simp: p_def split: if_splits)
  define s2 where "s2 = set_queue i q s1"
  have f2: "wl_frame s s2" unfolding s2_def by (rule wl_frame_set_queue [OF i f1 b])
  have "t = s2 \<or> (\<exists>k a q' s3. queue_add_tail k (queue_cap i) q s2 = Some (a, q', s3) \<and> t = set_queue i q' s3)"
    using assms(1) unfolding ar9170_op_add_pending_pkt_def p_def [symmetric] q queue_cap_def [symmetric]
    by (auto simp: bind_eq_Some_conv s2_def Let_def split: if_splits option.splits)
  then show ?thesis
  proof (elim disjE exE conjE)
    assume "t = s2" then show ?thesis using f2 by simp
  next
    fix k a q' s3 assume a: "queue_add_tail k (queue_cap i) q s2 = Some (a, q', s3)" and t: "t = set_queue i q' s3"
    obtain m where m: "s3 = s2\<lparr>mallocs := m\<rparr>" using queue_add_tail_frame(1) [OF a] by blast
    have "pq_within (queue_cap i) q'" if "queues_bounded s3"
      using queue_add_tail_frame(2) [OF a] queues_bounded_get [of s2 i] that queue_cap_pos by (simp add: m s2_def)
    then show ?thesis unfolding t using f2 m i by (intro wl_frame_set_queue) simp_all
  qed
qed

lemma wl_frame_smalloc_trans: "wl_frame s t \<Longrightarrow> smalloc t = (ok, u) \<Longrightarrow> wl_frame s u"
  by (blast intro: wl_frame_trans wl_frame_smalloc)

lemma ieee80211_tx_frame:
  assumes "ieee80211_tx skb s = Some (r, t)"
  shows "wl_frame s t"
proof -
  obtain k q where "ieee80211_tx_queue k (s\<lparr>tx_packets_sent := q\<rparr>) = Some (r, t)"
    using assms by (auto simp: ieee80211_tx_def Let_def bind_eq_Some_conv)
  then obtain a where "ar9170_op_add_pending_pkt DataQ (Some k) (s\<lparr>tx_packets_sent := q\<rparr>) = Some (a, t)"
    by (auto simp: ieee80211_tx_queue_def bind_eq_Some_conv split: if_splits)
  from op_add_pending_frame [OF this] show ?thesis by (rule wl_frame_trans [rotated]) simp_all
qed

lemma drv_tx_frame_psm:
  assumes "ieee80211_drv_tx p s = Some (r, t)"
  shows "wl_frame s t"
proof -
  obtain ok s1 where m: "smalloc s = (ok, s1)" by force
  obtain ok2 s2 where m2: "smalloc s1 = (ok2, s2)" by force
  note f = wl_frame_smalloc [OF m] wl_frame_smalloc_trans [OF wl_frame_smalloc [OF m] m2]
  have "t = s \<or> t = s1 \<or> t = s2 \<or> (\<exists>k. ieee80211_tx k s2 = Some (r, t))"
    using assms m m2 by (auto simp: ieee80211_drv_tx_def ieee80211_start_xmit_def Let_def bind_eq_Some_conv split: if_splits)
  then show ?thesis using f by (auto intro: wl_frame_trans dest: ieee80211_tx_frame)
qed

lemma create_atim_frame:
  assumes "ieee80211_create_atim_pkt da a3 s = Some t"
  shows "wl_frame s t"
proof -
  obtain ok s1 where m: "smalloc s = (ok, s1)" by force
  obtain ok2 s2 where m2: "smalloc s1 = (ok2, s2)" by force
  note f = wl_frame_smalloc [OF m] wl_frame_smalloc_trans [OF wl_frame_smalloc [OF m] m2]
  have "t = s1 \<or> t = s2 \<or> (\<exists>k q a. ar9170_op_add_pending_pkt AtimQ (Some k) (s2\<lparr>tx_packets_sent := q\<rparr>) = Some (a, t))"
    using assms m m2
    by (auto simp: ieee80211_create_atim_pkt_def ieee80211_tx_atim_queue_def Let_def bind_eq_Some_conv split: if_splits)
  then show ?thesis
  proof (elim disjE exE)
    fix k q a assume "ar9170_op_add_pending_pkt AtimQ (Some k) (s2\<lparr>tx_packets_sent := q\<rparr>) = Some (a, t)"
    from op_add_pending_frame [OF this] f(2) show ?thesis
      using wl_frame_trans [of s "s2\<lparr>tx_packets_sent := q\<rparr>" t] by simp
  qed (use f in simp_all)
qed

lemma async_tx_frame:
  assumes "ar9170_async_tx i s = Some t" and i: "i \<noteq> RxQ"
  shows "wl_frame s t"
  using assms(1)
proof (cases rule: async_tx_cases)
  case (sent skb rest skb1 r k s1)
  have u: "usb_part s s1" using op_tx_usb [OF sent(6)] by simp
  have "pq_within (queue_cap i) (PQ rest)" if "queues_bounded s1"
    using queues_bounded_get [OF that, of i] sent(4) usb_part_get_queue [OF u, of i] by simp
  then show ?thesis unfolding sent(7) using wl_frame_usb_part [OF u] i by (intro wl_frame_set_queue)
qed simp_all

lemma atim_contains_frame:
  assumes "ieee80211_psm_atim_list_contains_DA a s = Some (b, t) \<or> ieee80211_mh_psm_atim_list_contains_A3 a s = Some (b, t)"
  shows "wl_frame s t"
proof (cases "tx_pending_atims s")
  case PQNull
  obtain q :: "sk_buff pq" and s1 where q: "queue_init s = (q, s1)" by force
  then have "t = s1\<lparr>tx_pending_atims := q\<rparr>"
    using assms PQNull by (auto simp: ieee80211_psm_atim_list_contains_DA_def ieee80211_mh_psm_atim_list_contains_A3_def)
  then show ?thesis using queue_init_frame [OF q] by (auto intro: wl_frame_queues)
next
  case PQFreed then show ?thesis using assms
    by (auto simp: ieee80211_psm_atim_list_contains_DA_def ieee80211_mh_psm_atim_list_contains_A3_def)
next
  case PQ then show ?thesis using assms
    by (auto simp: ieee80211_psm_atim_list_contains_DA_def ieee80211_mh_psm_atim_list_contains_A3_def)
qed

lemma create_atims_frame:
  "create_atims_mh ps s = Some t \<Longrightarrow> wl_frame s t" "create_atims_std ps s = Some t \<Longrightarrow> wl_frame s t"
proof (induction ps arbitrary: s)
  case (Cons p ps)
  { case 1
    show ?case
    proof (cases "skb_data p = None")
      case True then show ?thesis using 1 Cons.IH(1) by simp
    next
      case False
      then obtain a1 a3 b s1 s2 where a: "ieee80211_mh_psm_atim_list_contains_A3 a3 s = Some (b, s1)"
        "(if \<not> b then ieee80211_create_atim_pkt a1 (Some a3) s1 else Some s1) = Some s2" "create_atims_mh ps s2 = Some t"
        using 1 by (auto simp: bind_eq_Some_conv)
      have "wl_frame s s1" using a(1) atim_contains_frame by blast
      moreover have "wl_frame s1 s2" using a(2) create_atim_frame by (auto split: if_splits)
      ultimately show ?thesis using Cons.IH(1) [OF a(3)] by (blast intro: wl_frame_trans)
    qed }
  { case 2
    then obtain a1 b s1 s2 where a: "ieee80211_psm_atim_list_contains_DA a1 s = Some (b, s1)"
      "(if \<not> b then ieee80211_create_atim_pkt a1 None s1 else Some s1) = Some s2" "create_atims_std ps s2 = Some t"
      by (auto simp: bind_eq_Some_conv)
    have "wl_frame s s1" using a(1) atim_contains_frame by blast
    moreover have "wl_frame s1 s2" using a(2) create_atim_frame by (auto split: if_splits)
    ultimately show ?case using Cons.IH(2) [OF a(3)] by (blast intro: wl_frame_trans) }
qed simp_all

lemma create_atim_pkts_frame:
  assumes "ieee80211_psm_create_atim_pkts s = Some t"
  shows "wl_frame s t"
proof (cases "tx_pending_pkts s")
  case PQNull
  obtain q :: "sk_buff pq" and s1 where q: "queue_init s = (q, s1)" by force
  then have "t = s1\<lparr>tx_pending_pkts := q\<rparr>" using assms PQNull by (simp add: ieee80211_psm_create_atim_pkts_def)
  then show ?thesis using queue_init_frame [OF q] by (auto intro: wl_frame_queues)
qed (use assms in \<open>auto simp: ieee80211_psm_create_atim_pkts_def create_atims_frame split: if_splits ibss_ps_mode.splits\<close>)

lemma add_awake_frame:
  assumes "ieee80211_psm_add_awake_node a s = Some t"
  shows "wl_frame s t"
proof -
  obtain ok s1 where m: "smalloc s = (ok, s1)" by force
  define p where "p = (if wake_neighbors s1 = PQNull then queue_init s1 else (wake_neighbors s1, s1))"
  obtain l s2 where p: "p = (l, s2)" by force
  have f2: "wl_frame s s2" using wl_frame_smalloc [OF m] p queue_init_frame(1) [of s1 l s2]
    by (auto simp: p_def intro: wl_frame_trans split: if_splits)
  have l: "pq_within 32 l" if "queues_bounded s2"
    using p queue_init_frame(2) [of s1 l s2] that by (auto simp: p_def dest: queues_boundedD split: if_splits)
  have "t = s1 \<or> (\<exists>x l1 s4. queue_add_tail (take ETH_ALEN a) AR9170_PSM_MAX_AWAKE_NODES_LIST_LEN l (s2\<lparr>wake_neighbors := l\<rparr>) =
      Some (x, l1, s4) \<and> t = s4\<lparr>wake_neighbors := l1\<rparr>)"
    using assms unfolding ieee80211_psm_add_awake_node_def m prod.case Let_def p_def [symmetric] p
    by (auto simp: bind_eq_Some_conv split: if_splits)
  then show ?thesis
  proof (elim disjE exE conjE)
    assume "t = s1" then show ?thesis using wl_frame_smalloc [OF m] by simp
  next
    fix x l1 s4 assume a: "queue_add_tail (take ETH_ALEN a) AR9170_PSM_MAX_AWAKE_NODES_LIST_LEN l (s2\<lparr>wake_neighbors := l\<rparr>) =
      Some (x, l1, s4)" and t: "t = s4\<lparr>wake_neighbors := l1\<rparr>"
    obtain m where s4: "s4 = s2\<lparr>wake_neighbors := l, mallocs := m\<rparr>" using queue_add_tail_frame(1) [OF a] by blast
    have "pq_within 32 l1" if "queues_bounded s4"
      using queue_add_tail_frame(2) [OF a] queues_boundedD(4) [OF that] by (simp add: s4 wlan_consts)
    then show ?thesis unfolding t using f2 l s4 by (intro wl_frame_queues(3)) (simp_all add: wl_frame_queues(3))
  qed
qed

lemma add_awake_unchecked_frame:
  assumes "add_awake_unchecked a s = Some t"
  shows "wl_frame s t"
proof -
  obtain ok s1 where m: "smalloc s = (ok, s1)" by force
  obtain x l1 s4 where a: "queue_add_tail a AR9170_PSM_MAX_AWAKE_NODES_LIST_LEN (wake_neighbors s1) s1 = Some (x, l1, s4)"
    and t: "t = s4\<lparr>wake_neighbors := l1\<rparr>"
    using assms m by (auto simp: add_awake_unchecked_def bind_eq_Some_conv split: if_splits)
  obtain m2 where s4: "s4 = s1\<lparr>mallocs := m2\<rparr>" using queue_add_tail_frame(1) [OF a] by blast
  have "pq_within 32 l1" if "queues_bounded s4"
    using queue_add_tail_frame(2) [OF a] queues_boundedD(4) [of s1] that by (simp add: s4 wlan_consts)
  then show ?thesis unfolding t using wl_frame_smalloc [OF m] s4 by (intro wl_frame_queues(3)) simp_all
qed

lemma erase_awake_frame:
  assumes "ieee80211_psm_erase_awake_neighbors s = Some t"
  shows "wl_frame s t"
  using assms by (cases "wake_neighbors s")
    (auto simp: ieee80211_psm_erase_awake_neighbors_def pq_defs intro!: wl_frame_queues split: if_splits)

lemma atim_status_frame:
  assumes "ieee80211_handle_ATIM_status_rsp ok s = Some t"
  shows "wl_frame s t"
proof -
  have "t = s \<or> (\<exists>s1. add_awake_unchecked (last_ATIM_DA s) s = Some s1 \<and>
      (t = s1\<lparr>last_ATIM_DA := replicate ETH_ALEN 0\<rparr> \<or>
       (\<exists>s3 a. add_awake_unchecked a (s1\<lparr>last_ATIM_DA := replicate ETH_ALEN 0\<rparr>) = Some s3 \<and>
         t = s3\<lparr>last_ATIM_A3 := replicate ETH_ALEN 0\<rparr>)))"
    using assms by (auto simp: ieee80211_handle_ATIM_status_rsp_def Let_def bind_eq_Some_conv split: if_splits)
  then show ?thesis
  proof (elim disjE exE conjE)
    fix s1 s3 a assume a: "add_awake_unchecked (last_ATIM_DA s) s = Some s1"
      "add_awake_unchecked a (s1\<lparr>last_ATIM_DA := replicate ETH_ALEN 0\<rparr>) = Some s3" "t = s3\<lparr>last_ATIM_A3 := replicate ETH_ALEN 0\<rparr>"
    have "wl_frame s (s1\<lparr>last_ATIM_DA := replicate ETH_ALEN 0\<rparr>)" using add_awake_unchecked_frame [OF a(1)] by simp
    from wl_frame_trans [OF this add_awake_unchecked_frame [OF a(2)]] show ?thesis using a(3) by simp
  qed (use add_awake_unchecked_frame in simp_all)
qed

lemma first_atim_frame:
  assumes "ieee80211_psm_can_send_first_atim s = Some (q, t)"
  shows "wl_frame s t \<and> (queues_bounded s \<longrightarrow> pq_within 16 q)"
proof (cases "tx_pending_atims s")
  case (PQ ps)
  have b: "length ps \<le> 16" if "queues_bounded s" using PQ queues_boundedD(2) [OF that] by simp
  show ?thesis
  proof (cases "ps = []")
    case True then show ?thesis using assms PQ by (simp add: ieee80211_psm_can_send_first_atim_def)
  next
    case False
    obtain found where f: "first_index (\<lambda>p. map_option Not (ieee80211_psm_is_DA_awake p s)) ps = Some found"
      using assms PQ False unfolding ieee80211_psm_can_send_first_atim_def
      by (cases "first_index (\<lambda>p. map_option Not (ieee80211_psm_is_DA_awake p s)) ps") simp_all
    show ?thesis
    proof (cases found)
      case None
      have "q = PQNull" "t = s\<lparr>tx_pending_atims := (if length ps \<ge> 2 then PQFreed else PQ [])\<rparr>"
        using assms PQ False f None unfolding ieee80211_psm_can_send_first_atim_def
        by (simp_all add: bind_eq_Some_conv pq_erase_def)
      then show ?thesis by (simp add: wl_frame_queues)
    next
      case (Some i)
      have e: "(if list_ex (\<lambda>p. skb_data p \<noteq> None \<and> \<not> skb_heap p) (take i ps) then None
          else Some (PQ (drop i ps), if i = 0 then s else s\<lparr>tx_pending_atims := PQFreed\<rparr>)) = Some (q, t)"
        using assms PQ False f Some unfolding ieee80211_psm_can_send_first_atim_def by simp
      define u where "u = s\<lparr>tx_pending_atims := PQFreed\<rparr>"
      have "q = PQ (drop i ps)" "t = (if i = 0 then s else u)"
        using e unfolding u_def [symmetric] by (auto split: if_split_asm)
      moreover have "wl_frame s u" unfolding u_def by (intro wl_frame_queues(2)) simp_all
      ultimately show ?thesis using b by (cases "i = 0") fastforce+
    qed
  qed
qed (use assms in \<open>auto simp: ieee80211_psm_can_send_first_atim_def\<close>)

lemma first_pkt_frame:
  assumes "ieee80211_psm_can_send_first_pkt s = Some (q, t)"
  shows "wl_frame s t \<and> (queues_bounded s \<longrightarrow> pq_within 16 q) \<and> tx_atim_wait t = tx_atim_wait s"
proof (cases "tx_pending_pkts s")
  case (PQ ps)
  obtain ok s1 where m: "smalloc s = (ok, s1)" by force
  have b: "length ps \<le> 16" if "queues_bounded s" using PQ queues_boundedD(1) [OF that] by simp
  show ?thesis
  proof (cases "ps = []")
    case True then show ?thesis using assms PQ by (simp add: ieee80211_psm_can_send_first_pkt_def)
  next
    case False
    obtain found where f: "first_index (\<lambda>p. ieee80211_psm_is_DA_awake p s) ps = Some found"
      using assms PQ False unfolding ieee80211_psm_can_send_first_pkt_def
      by (cases "first_index (\<lambda>p. ieee80211_psm_is_DA_awake p s) ps") simp_all
    have "(q = PQNull \<and> t = s) \<or> (q = PQ ps \<and> t = s) \<or>
        (\<exists>i r. pq_move_to_front i ok (PQ ps) = Some (q, r) \<and> t = s1\<lparr>tx_pending_pkts := r\<rparr>)"
      using assms PQ False f m unfolding ieee80211_psm_can_send_first_pkt_def
      by (cases found) (auto split: if_splits)
    then show ?thesis
    proof (elim disjE exE conjE)
      fix i r assume a: "pq_move_to_front i ok (PQ ps) = Some (q, r)" and t: "t = s1\<lparr>tx_pending_pkts := r\<rparr>"
      have w: "pq_within 16 q \<and> pq_within 16 r" if "queues_bounded s"
        using a b [OF that] by (auto simp: pq_move_to_front_def Let_def split: if_splits)
      obtain m2 where "s1 = s\<lparr>mallocs := m2\<rparr>" using smalloc_mallocs [OF m] by blast
      then show ?thesis unfolding t using w by (auto intro!: wl_frame_queues)
    qed (use b in auto)
  qed
qed (use assms in \<open>auto simp: ieee80211_psm_can_send_first_pkt_def\<close>)

lemma psm_async_tx_data_frame:
  assumes "ar9170_psm_async_tx_data s = Some t"
  shows "wl_frame s t"
proof -
  have "t = s \<or> (\<exists>q s1. \<not> tx_atim_wait s \<and> ieee80211_psm_can_send_first_pkt s = Some (q, s1) \<and>
      (t = s1 \<or> ar9170_async_tx DataQ (s1\<lparr>tx_data_wait := True, tx_pending_pkts := q\<rparr>) = Some t))"
    using assms by (auto simp: ar9170_psm_async_tx_data_def bind_eq_Some_conv split: if_splits)
  then show ?thesis
  proof (elim disjE exE conjE)
    fix q s1 assume a: "ieee80211_psm_can_send_first_pkt s = Some (q, s1)"
      "ar9170_async_tx DataQ (s1\<lparr>tx_data_wait := True, tx_pending_pkts := q\<rparr>) = Some t" and w: "\<not> tx_atim_wait s"
    have f: "wl_frame s (s1\<lparr>tx_data_wait := True, tx_pending_pkts := q\<rparr>)"
      using first_pkt_frame [OF a(1)] w by (intro wl_frame_queues(1)) simp_all
    show ?thesis using wl_frame_trans [OF f async_tx_frame [OF a(2) queue_id.distinct(3)]] .
  qed (use first_pkt_frame in auto)
qed

lemma psm_async_tx_mgmt_frame:
  assumes "ar9170_psm_async_tx_mgmt s = Some t"
  shows "wl_frame s t"
proof -
  obtain q s1 where a: "ieee80211_psm_can_send_first_atim s = Some (q, s1)"
    using assms by (auto simp: ar9170_psm_async_tx_mgmt_def bind_eq_Some_conv)
  have f: "wl_frame s (s1\<lparr>tx_pending_atims := q\<rparr>)"
    using first_atim_frame [OF a] by (intro wl_frame_queues(2)) simp_all
  define s2 where "s2 = s1\<lparr>tx_pending_atims := q\<rparr>"
  have "t = s1 \<or> t = s2 \<or> (\<exists>d u s3. (\<exists>x. u = s2\<lparr>tx_atim_wait := True, last_ATIM_DA := d, last_ATIM_A3 := x\<rparr>) \<and>
      \<not> tx_data_wait s2 \<and> ar9170_async_tx AtimQ u = Some s3 \<and> t = s3\<lparr>off_override := off_override s3 OR PS_OFF_ATIM\<rparr>)"
  proof (cases "q = PQNull \<or> tx_data_wait s2 \<or> tx_atim_wait s2")
    case True
    show ?thesis
    proof (cases "q = PQNull")
      case True
      have "t = s1" using assms True unfolding ar9170_psm_async_tx_mgmt_def a by simp
      then show ?thesis by simp
    next
      case False
      then have "tx_data_wait s2 \<or> tx_atim_wait s2" using True by simp
      then have "t = s2" using assms False unfolding ar9170_psm_async_tx_mgmt_def a by (simp add: Let_def s2_def)
      then show ?thesis by simp
    qed
  next
    case False
    have w: "tx_data_wait s2 = tx_data_wait s1" "tx_atim_wait s2 = tx_atim_wait s1" by (simp_all add: s2_def)
    from False have "do {
         first \<leftarrow> pq_get q;
         atim \<leftarrow> first;
         da \<leftarrow> addr1 atim;
         a3 \<leftarrow> (if ps_mode s2 = IBSS_MH_PSM then addr3 atim else Some (last_ATIM_A3 s2));
         s3 \<leftarrow> ar9170_async_tx AtimQ (s2\<lparr>tx_atim_wait := True, last_ATIM_DA := da, last_ATIM_A3 := a3\<rparr>);
         Some (s3\<lparr>off_override := off_override s3 OR PS_OFF_ATIM\<rparr>)} = Some t"
      using assms unfolding ar9170_psm_async_tx_mgmt_def a
      by (simp add: s2_def [symmetric] w [symmetric] del: bind_eq_Some_conv)
    then show ?thesis using False unfolding bind_eq_Some_conv by blast
  qed
  then show ?thesis
  proof (elim disjE exE conjE)
    fix d u s3 x assume w: "\<not> tx_data_wait s2" and b: "u = s2\<lparr>tx_atim_wait := True, last_ATIM_DA := d, last_ATIM_A3 := x\<rparr>"
      "ar9170_async_tx AtimQ u = Some s3" "t = s3\<lparr>off_override := off_override s3 OR PS_OFF_ATIM\<rparr>"
    have "wl_frame s s2" using f by (simp add: s2_def)
    then have "wl_frame s u" using b(1) w by simp
    from wl_frame_trans [OF this async_tx_frame [OF b(2) queue_id.distinct(5)]] show ?thesis using b(3) by simp
  qed (use f first_atim_frame [OF a] in \<open>simp_all add: s2_def\<close>)
qed

lemma mh_atim_frame:
  assumes "ieee80211_mh_psm_handle_atim_packet a3 s = Some t"
  shows "wl_frame s t"
proof -
  have "t = s \<or> (\<exists>b s1. ieee80211_mh_psm_atim_list_contains_A3 a3 s = Some (b, s1) \<and>
      (t = s1 \<or> (\<exists>h. ieee80211_create_atim_pkt h (Some a3) s1 = Some t)))"
    using assms by (auto simp: ieee80211_mh_psm_handle_atim_packet_def bind_eq_Some_conv split: if_splits option.splits)
  then show ?thesis by (metis atim_contains_frame create_atim_frame wl_frame_refl wl_frame_trans)
qed

lemma handle_atim_frame:
  assumes "ieee80211_rx_handle_ATIM_pkt da sa a3 s = Some t"
  shows "wl_frame s t"
proof -
  define s1 where "s1 = s\<lparr>off_override := off_override s OR PS_OFF_ATIM\<rparr>"
  have "\<exists>b s2. (if \<not> b then ieee80211_psm_add_awake_node sa s1 else Some s1) = Some s2 \<and>
      (if ether_addr_equal eth_broadcast da then Some s2
       else if ps_mode s2 = IBSS_MH_PSM then ieee80211_mh_psm_handle_atim_packet a3 s2 else Some s2) = Some t"
    using assms unfolding ieee80211_rx_handle_ATIM_pkt_def Let_def s1_def [symmetric] bind_eq_Some_conv by blast
  then obtain b s2 where a: "(if \<not> b then ieee80211_psm_add_awake_node sa s1 else Some s1) = Some s2"
    "(if ether_addr_equal eth_broadcast da then Some s2
       else if ps_mode s2 = IBSS_MH_PSM then ieee80211_mh_psm_handle_atim_packet a3 s2 else Some s2) = Some t"
    by blast
  have "wl_frame s s1" by (simp add: s1_def)
  moreover have "wl_frame s1 s2" using a(1) add_awake_frame by (auto split: if_splits)
  moreover have "wl_frame s2 t" using a(2) mh_atim_frame by (auto split: if_splits)
  ultimately show ?thesis by (blast intro: wl_frame_trans)
qed

lemma rx_atim_frame:
  assumes "ieee80211_rx_process_atim skb s = Some t"
  shows "wl_frame s t"
  using assms handle_atim_frame
  by (auto simp: ieee80211_rx_process_atim_def bind_eq_Some_conv split: if_splits)

lemma tx_status_frame:
  assumes "tx_status ok s = Some t"
  shows "wl_frame s t"
proof -
  have "wl_frame s t \<or> ieee80211_handle_ATIM_status_rsp ok (s\<lparr>tx_atim_wait := False\<rparr>) = Some t"
    using assms by (auto simp: tx_status_def Let_def split: if_splits)
  then show ?thesis using atim_status_frame [of ok "s\<lparr>tx_atim_wait := False\<rparr>" t] wl_frame_trans [of s "s\<lparr>tx_atim_wait := False\<rparr>" t]
    by auto
qed

lemma run_ops_frame:
  "(\<And>s x t. f s x = Some t \<Longrightarrow> wl_frame s t) \<Longrightarrow> run_ops f s xs = Some t \<Longrightarrow> wl_frame s t"
proof (induction xs arbitrary: s)
  case (Cons x xs)
  then obtain u where "f s x = Some u" "run_ops f u xs = Some t" by (auto simp: bind_eq_Some_conv)
  then show ?case using Cons by (blast intro: wl_frame_trans)
qed simp

lemma rsp_txcomp_frame:
  assumes "rsp_txcomp rsp s = Some t"
  shows "wl_frame s t"
proof -
  obtain s1 where a: "ar9170_tx_process_status rsp s = Some s1" using assms by (auto simp: rsp_txcomp_def bind_eq_Some_conv)
  have "wl_frame s s1"
    using a tx_status_frame unfolding ar9170_tx_process_status_def Let_def
    by (rule run_ops_frame [rotated]) (auto split: if_splits)
  moreover have "wl_frame s1 t"
    using assms a by (auto simp: rsp_txcomp_def Let_def split: if_splits)
  ultimately show ?thesis by (rule wl_frame_trans)
qed

lemma tbtt_clear_waits_frame: "wl_frame s (tbtt_clear_waits s)"
  by (simp add: tbtt_clear_waits_def Let_def)

section \<open>The operations of the IBSS and of the device\<close>

definition ino_frame :: "'a inode_scheme \<Rightarrow> 'a inode_scheme \<Rightarrow> bool" where
  "ino_frame s t \<longleftrightarrow> psm_core t = psm_core s \<and> inode.more t = inode.more s \<and> rx_pending_pkts t = rx_pending_pkts s \<and>
     (queues_bounded s \<longrightarrow> queues_bounded t) \<and> (one_wait s \<longrightarrow> one_wait t)"

definition dev_frame :: "'a dev_scheme \<Rightarrow> 'a dev_scheme \<Rightarrow> bool" where
  "dev_frame s t \<longleftrightarrow> psm_core t = psm_core s \<and> rt t = rt s \<and> main_vif t = main_vif s \<and> bulk_pool t = bulk_pool s \<and>
     rx_pending_pkts t = rx_pending_pkts s \<and> (queues_bounded s \<longrightarrow> queues_bounded t) \<and> (one_wait s \<longrightarrow> one_wait t)"

lemma ino_frame_refl [simp, intro!]: "ino_frame s s"
  by (simp add: ino_frame_def)

lemma dev_frame_refl [simp, intro!]: "dev_frame s s"
  by (simp add: dev_frame_def)

lemma ino_frame_trans [trans]: "ino_frame s t \<Longrightarrow> ino_frame t u \<Longrightarrow> ino_frame s u"
  by (simp add: ino_frame_def)

lemma dev_frame_trans [trans]: "dev_frame s t \<Longrightarrow> dev_frame t u \<Longrightarrow> dev_frame s u"
  by (simp add: dev_frame_def)

lemma wl_ino_frame: "wl_frame s t \<Longrightarrow> ino_frame s t"
  by (cases s; cases t) (simp add: ino_frame_def wl_frame_def one_wait_def)

lemma ino_dev_frame: "ino_frame s t \<Longrightarrow> dev_frame s t"
  by (cases s; cases t) (simp add: ino_frame_def dev_frame_def one_wait_def)

lemma wl_dev_frame: "wl_frame s t \<Longrightarrow> dev_frame s t"
  by (rule ino_dev_frame [OF wl_ino_frame])

lemma ino_frame_updates [simp]:
  "ino_frame s (t\<lparr>ibss_name := x1\<rparr>) = ino_frame s t"
  "ino_frame s (t\<lparr>ibss_initialized := x2\<rparr>) = ino_frame s t"
  "ino_frame s (t\<lparr>ibss_joined := x2\<rparr>) = ino_frame s t"
  "ino_frame s (t\<lparr>started_beaconing := x2\<rparr>) = ino_frame s t"
  "ino_frame s (t\<lparr>sta_addr := x1\<rparr>) = ino_frame s t"
  "ino_frame s (t\<lparr>enable_beacon := x2\<rparr>) = ino_frame s t"
  "ino_frame s (t\<lparr>beacon_enabled := x2\<rparr>) = ino_frame s t"
  "ino_frame s (t\<lparr>bss_notified := x3\<rparr>) = ino_frame s t"
  "ino_frame s (t\<lparr>setup_continued := x4\<rparr>) = ino_frame s t"
  "ino_frame s (t\<lparr>pbuf := x5\<rparr>) = ino_frame s t"
  "ino_frame s (t\<lparr>received_seqnos := x6\<rparr>) = ino_frame s t"
  "ino_frame s (t\<lparr>net_input := x7\<rparr>) = ino_frame s t"
  "ino_frame s (t\<lparr>ibss_beacon_buf := x8\<rparr>) = ino_frame s t"
  "ino_frame s (t\<lparr>beacon_int := x9\<rparr>) = ino_frame s t"
  "ino_frame s (t\<lparr>atim_window := x9\<rparr>) = ino_frame s t"
  by (simp_all add: ino_frame_def psm_core_def queues_bounded_def one_wait_def)

lemma dev_frame_updates [simp]:
  "dev_frame s (t\<lparr>accepting_cmd := x1\<rparr>) = dev_frame s t"
  "dev_frame s (t\<lparr>beacon_ctrl := x1\<rparr>) = dev_frame s t"
  "dev_frame s (t\<lparr>beacon_cancel := x1\<rparr>) = dev_frame s t"
  "dev_frame s (t\<lparr>clear_filtering := x1\<rparr>) = dev_frame s t"
  "dev_frame s (t\<lparr>cmd_list := x2\<rparr>) = dev_frame s t"
  "dev_frame s (t\<lparr>int_runs := x3\<rparr>) = dev_frame s t"
  "dev_frame s (t\<lparr>int_out := x2\<rparr>) = dev_frame s t"
  "dev_frame s (t\<lparr>cmd_wait := x1\<rparr>) = dev_frame s t"
  "dev_frame s (t\<lparr>readbuf := x4\<rparr>) = dev_frame s t"
  "dev_frame s (t\<lparr>readlen := x5\<rparr>) = dev_frame s t"
  "dev_frame s (t\<lparr>vif_beacon := x6\<rparr>) = dev_frame s t"
  "dev_frame s (t\<lparr>cmd_seq := x7\<rparr>) = dev_frame s t"
  "dev_frame s (t\<lparr>fw_boot_wait := x1\<rparr>) = dev_frame s t"
  "dev_frame s (t\<lparr>err_counter := x8\<rparr>) = dev_frame s t"
  "dev_frame s (t\<lparr>bug_counter := x8\<rparr>) = dev_frame s t"
  "dev_frame s (t\<lparr>rx_plcp := x9\<rparr>) = dev_frame s t"
  "dev_frame s (t\<lparr>rx_has_plcp := x1\<rparr>) = dev_frame s t"
  "dev_frame s (t\<lparr>rx_dropped := x5\<rparr>) = dev_frame s t"
  "dev_frame s (t\<lparr>tx_fcs_errors := x5\<rparr>) = dev_frame s t"
  "dev_frame s (t\<lparr>bulk_listening := x1\<rparr>) = dev_frame s t"
  "dev_frame s (t\<lparr>cmd_async_lock := x1\<rparr>) = dev_frame s t"
  "dev_frame s (t\<lparr>tx_list := x2\<rparr>) = dev_frame s t"
  "dev_frame s (t\<lparr>tx_async_lock := x1\<rparr>) = dev_frame s t"
  "dev_frame s (t\<lparr>mallocs := x3\<rparr>) = dev_frame s t"
  "dev_frame s (t\<lparr>off_override := x5\<rparr>) = dev_frame s t"
  "dev_frame s (t\<lparr>tbtt_counter := x10\<rparr>) = dev_frame s t"
  "dev_frame s (t\<lparr>started_beaconing := x1\<rparr>) = dev_frame s t"
  by (simp_all add: dev_frame_def psm_core_def queues_bounded_def one_wait_def)

lemma dev_frame_smalloc: "dev_frame s t \<Longrightarrow> smalloc t = (ok, u) \<Longrightarrow> dev_frame s u"
  by (blast intro: dev_frame_trans wl_dev_frame wl_frame_smalloc)

lemma ino_frame_smalloc: "ino_frame s t \<Longrightarrow> smalloc t = (ok, u) \<Longrightarrow> ino_frame s u"
  by (blast intro: ino_frame_trans wl_ino_frame wl_frame_smalloc)

lemma send_cmd_frame: "ar9170_usb_send_cmd cmd s = (ok, t) \<Longrightarrow> dev_frame s t"
  by (cases "int_runs s") (auto simp: ar9170_usb_send_cmd_def uhi_int_run_def Let_def split: if_splits)

lemma write_reg_frame:
  assumes "ar9170_usb_write_reg cmd s = (ok, t)"
  shows "dev_frame s t"
proof -
  obtain m s1 where m: "smalloc s = (m, s1)" by force
  show ?thesis using assms m dev_frame_smalloc [OF dev_frame_refl m] send_cmd_frame [of cmd "s\<lparr>cmd_list := [cmd]\<rparr>" ok t]
      dev_frame_trans [of s "s\<lparr>cmd_list := [cmd]\<rparr>" t]
    by (auto simp: ar9170_usb_write_reg_def Let_def split: if_splits)
qed

lemma exec_cmd_frame:
  assumes "exec_cmd c data s = (ok, t)"
  shows "dev_frame s t"
proof -
  obtain m s1 where m: "smalloc s = (m, s1)" by force
  note f = dev_frame_smalloc [OF dev_frame_refl m]
  show ?thesis using assms m f dev_frame_trans [OF f write_reg_frame]
    by (auto simp: exec_cmd_def Let_def split: if_splits)
qed

lemma bcn_ctrl_frame: "dev_frame s (snd (ar9170_bcn_ctrl v m a l s))"
proof -
  obtain ok s1 where m: "smalloc s = (ok, s1)" by force
  obtain d s2 where e: "exec_cmd 0x45 (le32_bytes v @ le32_bytes m @ le32_bytes a @ le32_bytes l) s1 = (d, s2)" by force
  show ?thesis using m e dev_frame_smalloc [OF dev_frame_refl m] exec_cmd_frame [OF e]
    by (auto simp: ar9170_bcn_ctrl_def Let_def intro: dev_frame_trans)
qed

lemma beacon_get_tim_frame: "ieee80211_beacon_get_tim s = Some (k, t) \<Longrightarrow> ino_frame s t"
  by (auto simp: ieee80211_beacon_get_tim_def split: option.splits)

lemma update_beacon_frame:
  assumes "ar9170_update_beacon True s = Some (err, t)"
  shows "dev_frame s t"
proof (cases "beacon_enabled s")
  case True
  then obtain k s1 where k: "ieee80211_beacon_get_tim s = Some (k, s1)"
    and t: "t = s1 \<or> (\<exists>v m a l. t = snd (ar9170_bcn_ctrl v m a l s1))"
    using assms by (auto simp: ar9170_update_beacon_def bind_eq_Some_conv Let_def split: option.splits if_splits)
       (metis snd_conv)+
  note f = ino_dev_frame [OF beacon_get_tim_frame [OF k]]
  show ?thesis using f t dev_frame_trans [OF f bcn_ctrl_frame] by auto
qed (use assms in \<open>simp add: ar9170_update_beacon_def\<close>)

lemma cmd_callback_frame: "ar9170_cmd_callback len buf s = Some t \<Longrightarrow> dev_frame s t"
  by (auto simp: ar9170_cmd_callback_def split: option.splits if_splits)

lemma check_sequence_frame: "ar9170_check_sequence q s = (b, t) \<Longrightarrow> dev_frame s t"
  by (auto simp: ar9170_check_sequence_def Let_def split: if_splits)

lemma dbg_message_frame: "dev_frame s (ar9170_dbg_message m s)"
  by (simp add: ar9170_dbg_message_def)

lemma beacon_config_frame: "rsp_beacon_config rsp s = Some t \<Longrightarrow> dev_frame s t"
  by (auto simp: rsp_beacon_config_def ieee80211_set_ibss_started_beaconing_def Let_def split: if_splits)

section \<open>The windows and the types of the queues\<close>

definition rx_ok :: "sk_buff \<Rightarrow> bool" where
  "rx_ok k \<longleftrightarrow> skb_heap k \<and> 14 \<le> unat (skb_len k) \<and> unat (skb_len k) \<le> 508 \<and>
     (\<exists>d. skb_data k = Some d \<and> length d = 4 * DIV_ROUND_UP (unat (skb_len k)) 4)"

definition rx_typed :: "'a wlan_scheme \<Rightarrow> bool" where
  "rx_typed s \<longleftrightarrow> (case rx_pending_pkts s of PQ ks \<Rightarrow> (\<forall>k \<in> set ks. rx_ok k) \<and> length ks \<le> AR9170_MAX_PENDING_RX_PKT_QUEUE_LEN
     | _ \<Rightarrow> True)"

definition queues_typed :: "'a dev_scheme \<Rightarrow> bool" where
  "queues_typed s \<longleftrightarrow> queues_bounded s \<and> rx_typed s \<and> length (bulk_pool s) \<le> BULK_ENDPOINT_MAX_SIZE"

text \<open>What the windows depend on.\<close>

definition win_frame :: "'a dev_scheme \<Rightarrow> 'a dev_scheme \<Rightarrow> bool" where
  "win_frame s t \<longleftrightarrow> psm_state t = psm_state s \<and> rt t = rt s \<and> conf_ps t = conf_ps s \<and> main_vif t = main_vif s \<and>
     (queues_typed s \<longrightarrow> queues_typed t) \<and> (one_wait s \<longrightarrow> one_wait t)"

lemma win_frame_refl [simp, intro!]: "win_frame s s"
  by (simp add: win_frame_def)

lemma win_frame_trans [trans]: "win_frame s t \<Longrightarrow> win_frame t u \<Longrightarrow> win_frame s u"
  by (simp add: win_frame_def)

lemma dev_win_frame: "dev_frame s t \<Longrightarrow> win_frame s t"
  by (simp add: win_frame_def dev_frame_def psm_core_def queues_typed_def rx_typed_def)

lemmas wl_win_frame = dev_win_frame [OF wl_dev_frame]

lemma win_frame_updates [simp]:
  "win_frame s (t\<lparr>ps_state := x1\<rparr>) = win_frame s t"
  "win_frame s (t\<lparr>psm_transit_to_sleep := x1\<rparr>) = win_frame s t"
  "win_frame s (t\<lparr>psm_transit_to_wake := x1\<rparr>) = win_frame s t"
  "win_frame s (t\<lparr>update_mask := x2\<rparr>) = win_frame s t"
  by (simp_all add: win_frame_def queues_typed_def queues_bounded_def rx_typed_def one_wait_def)

lemma handle_ps_frame: "win_frame s (ar9170_handle_ps s)"
  by (simp add: ar9170_handle_ps_def)

lemma rx_typed_frame:
  assumes "dev_frame s t" "queues_typed s \<Longrightarrow> pq_within 8 q"
    "queues_typed s \<Longrightarrow> (case q of PQ ks \<Rightarrow> \<forall>k \<in> set ks. rx_ok k | _ \<Rightarrow> True)"
  shows "win_frame s (t\<lparr>rx_pending_pkts := q\<rparr>)"
proof -
  have f: "psm_state t = psm_state s" "rt t = rt s" "conf_ps t = conf_ps s" "main_vif t = main_vif s"
    "bulk_pool t = bulk_pool s" "queues_bounded s \<Longrightarrow> queues_bounded t" "one_wait s \<Longrightarrow> one_wait t"
    using assms(1) by (simp_all add: dev_frame_def psm_core_def)
  have "queues_typed (t\<lparr>rx_pending_pkts := q\<rparr>)" if qt: "queues_typed s"
  proof -
    have b: "queues_bounded t" "length (bulk_pool s) \<le> BULK_ENDPOINT_MAX_SIZE" using qt f(6) by (simp_all add: queues_typed_def)
    have r: "rx_typed (t\<lparr>rx_pending_pkts := q\<rparr>)"
      using assms(2,3) [OF qt] by (cases q) (simp_all add: rx_typed_def AR9170_MAX_PENDING_RX_PKT_QUEUE_LEN_def)
    have "queues_bounded (t\<lparr>rx_pending_pkts := q\<rparr>)"
      using b(1) assms(2) [OF qt] by (simp add: queues_bounded_def AR9170_MAX_PENDING_RX_PKT_QUEUE_LEN_def)
    then show ?thesis using r b(2) f(5) by (simp add: queues_typed_def)
  qed
  then show ?thesis using f by (simp add: win_frame_def one_wait_def)
qed

subsection \<open>Received frames\<close>

lemma pattern_reads:
  assumes "mpdu_pattern buf n s = Some (Some c)"
  shows "c \<le> n \<and> 0 < c \<and> (\<forall>m. c \<le> m \<and> m \<le> n \<longrightarrow> pool_bytes (uint (of_nat buf + of_nat m + 12 - 4 :: u32)) 2 s \<noteq> None)"
  using assms
proof (induction n)
  case (Suc n)
  obtain b where b: "pool_bytes (uint (of_nat buf + of_nat (Suc n) + 12 - 4 :: u32)) 2 s = Some b"
    "(if b = [0x3f, 0x3f] then c = Suc n else mpdu_pattern buf n s = Some (Some c))"
    using Suc.prems unfolding mpdu_pattern.simps [of _ "Suc n"] diff_Suc_1
    by (auto simp: bind_eq_Some_conv simp del: of_nat_Suc split: if_splits)
  show ?case
  proof (cases "b = [0x3f, 0x3f]")
    case False
    then have "mpdu_pattern buf n s = Some (Some c)" using b(2) by simp
    from Suc.IH [OF this] show ?thesis using b(1) by (metis le_Suc_eq option.distinct(1))
  qed (use b in \<open>auto simp: le_antisym simp del: of_nat_Suc\<close>)
qed (simp add: mpdu_pattern.simps)

lemma pattern_near:
  assumes "mpdu_pattern buf n s = Some (Some c)" "length (bulk_pool s) \<le> 2048"
  shows "n - c \<le> 2048"
proof (rule ccontr)
  assume far: "\<not> n - c \<le> 2048"
  note r = pattern_reads [OF assms(1)]
  define a where "a = (of_nat buf + of_nat n + 12 - 4 :: u32)"
  have "pool_bytes (uint a) 2 s \<noteq> None" using r by (simp add: a_def)
  then have "nat (uint a) + 2 \<le> length (bulk_pool s)" by (auto simp: pool_bytes_def split: if_splits)
  then have ua: "unat a + 2 \<le> 2048" using assms(2) by simp
  define m where "m = n - (unat a + 1)"
  have m: "c \<le> m" "m \<le> n" "n = m + (unat a + 1)" using far ua by (simp_all add: m_def)
  have "(of_nat buf + of_nat m + 12 - 4 :: u32) = a - of_nat (unat a + 1)"
  proof -
    have "(of_nat n :: u32) = of_nat m + of_nat (unat a + 1)" using m(3) by (metis of_nat_add)
    then have "a = of_nat buf + (of_nat m + of_nat (unat a + 1)) + 12 - 4" by (simp only: a_def)
    moreover have "x + y + 12 - 4 = b - z" if "b = x + (y + z) + 12 - 4" for x y z b :: u32 using that by simp
    ultimately show ?thesis by blast
  qed
  also have "\<dots> = - 1" by simp
  finally have "pool_bytes (uint (- 1 :: u32)) 2 s \<noteq> None" using r m(1,2) by metis
  then show False using assms(2) unat_minus_small [of 1] by (auto simp: pool_bytes_def split: if_splits)
qed

lemma op_add_pending_rx:
  assumes "ar9170_op_add_pending_pkt RxQ (Some k) s = Some (r, t)"
  shows "\<exists>m q. t = s\<lparr>mallocs := m, rx_pending_pkts := q\<rparr> \<and> (pq_within 8 (rx_pending_pkts s) \<longrightarrow> pq_within 8 q) \<and>
    (case q of PQ ks \<Rightarrow> set ks \<subseteq> insert k (case rx_pending_pkts s of PQ js \<Rightarrow> set js | _ \<Rightarrow> {}) | _ \<Rightarrow> True)"
proof -
  define p where "p = (if rx_pending_pkts s = PQNull then queue_init s else (rx_pending_pkts s, s))"
  obtain q s1 where q: "p = (q, s1)" by force
  have p1: "\<exists>m. s1 = s\<lparr>mallocs := m\<rparr>"
  proof (cases "rx_pending_pkts s = PQNull")
    case True
    obtain ok u where u: "smalloc s = (ok, u)" by force
    then have "s1 = u" using q True by (simp add: p_def queue_init_def)
    then show ?thesis using smalloc_mallocs [OF u] by simp
  next
    case False then show ?thesis using q by (auto simp: p_def intro: exI [of _ "mallocs s"])
  qed
  have p2: "q = rx_pending_pkts s \<or> (rx_pending_pkts s = PQNull \<and> (q = PQ [] \<or> q = PQNull))"
  proof (cases "rx_pending_pkts s = PQNull")
    case True
    then have "queue_init s = (q, s1)" using q by (simp add: p_def)
    then show ?thesis using queue_init_frame(2) True by blast
  next
    case False then show ?thesis using q by (auto simp: p_def)
  qed
  obtain m where s1: "s1 = s\<lparr>mallocs := m\<rparr>" using p1 by blast
  define s2 where "s2 = s\<lparr>mallocs := m, rx_pending_pkts := q\<rparr>"
  have "t = s2 \<or> (\<exists>a q' s3. queue_add_tail k 8 q s2 = Some (a, q', s3) \<and> t = s3\<lparr>rx_pending_pkts := q'\<rparr>)"
    using assms unfolding ar9170_op_add_pending_pkt_def get_queue_def set_queue_def queue_id.case p_def [symmetric] q s1
      Let_def prod.case if_P [OF refl] AR9170_MAX_PENDING_RX_PKT_QUEUE_LEN_def
    by (auto simp: bind_eq_Some_conv s2_def split: if_splits)
  then show ?thesis
  proof (elim disjE exE conjE)
    assume "t = s2"
    then show ?thesis unfolding s2_def using p2 by (intro exI [of _ m] exI [of _ q]) (auto split: pq.splits)
  next
    fix a q' s3 assume a: "queue_add_tail k 8 q s2 = Some (a, q', s3)" and t: "t = s3\<lparr>rx_pending_pkts := q'\<rparr>"
    obtain m2 where m2: "s3 = s2\<lparr>mallocs := m2\<rparr>" using queue_add_tail_frame(1) [OF a] by blast
    have w: "pq_within 8 q \<longrightarrow> pq_within 8 q'" using queue_add_tail_frame(2) [OF a] by simp
    have e: "case q' of PQ ks \<Rightarrow> set ks \<subseteq> insert k (case q of PQ js \<Rightarrow> set js | _ \<Rightarrow> {}) | _ \<Rightarrow> True"
      using a by (cases q) (auto simp: queue_add_tail_def pq_add_tail_def split: prod.splits if_splits)
    show ?thesis
      using w e p2 unfolding t m2 s2_def by (intro exI [of _ m2] exI [of _ q']) (auto split: pq.splits)
  qed
qed

lemma schedule_frame:
  assumes "ar9170_schedule_handle_mpdu b len s = Some t" "14 \<le> len" "len \<le> 508"
  shows "win_frame s t"
proof -
  obtain ok1 s1 where m1: "smalloc s = (ok1, s1)" by force
  obtain ok2 s2 where m2: "smalloc s1 = (ok2, s2)" by force
  define k where "k = \<lparr>skb_data = Some (take (DIV_ROUND_UP (nat len) 4 * 4) b), skb_len = (of_int len :: u32), skb_heap = True\<rparr>"
  have f: "dev_frame s s1" "dev_frame s s2"
    using dev_frame_smalloc [OF dev_frame_refl m1] dev_frame_smalloc [OF dev_frame_smalloc [OF dev_frame_refl m1] m2] by simp_all
  have "t = s \<or> t = s1 \<or> t = s2 \<or> (DIV_ROUND_UP (nat len) 4 * 4 \<le> length b \<and> (\<exists>r. ar9170_op_add_pending_pkt RxQ (Some k) s2 = Some (r, t)))"
    using assms(1) m1 m2 by (auto simp: ar9170_schedule_handle_mpdu_def k_def bind_eq_Some_conv Let_def split: if_splits)
  then show ?thesis
  proof (elim disjE exE conjE)
    fix r assume a: "DIV_ROUND_UP (nat len) 4 * 4 \<le> length b" "ar9170_op_add_pending_pkt RxQ (Some k) s2 = Some (r, t)"
    have e: "rx_pending_pkts s2 = rx_pending_pkts s" using f(2) by (simp add: dev_frame_def)
    obtain m q where q: "t = s2\<lparr>mallocs := m, rx_pending_pkts := q\<rparr>" "pq_within 8 (rx_pending_pkts s) \<longrightarrow> pq_within 8 q"
      "case q of PQ ks \<Rightarrow> set ks \<subseteq> insert k (case rx_pending_pkts s of PQ js \<Rightarrow> set js | _ \<Rightarrow> {}) | _ \<Rightarrow> True"
      using op_add_pending_rx [OF a(2), unfolded e] by blast
    have lk: "unat (skb_len k) = nat len"
    proof -
      have "(of_int len :: u32) = of_nat (nat len)" using assms(2) by simp
      moreover have "unat (of_nat (nat len) :: u32) = nat len" by (rule unat_of_nat_u32) (use assms(3) in simp)
      ultimately show ?thesis by (metis k_def sk_buff.select_convs(2))
    qed
    have "14 \<le> nat len" "nat len \<le> 508" using assms(2,3) by (simp_all add: le_nat_iff nat_le_iff)
    then have ok: "rx_ok k" unfolding rx_ok_def lk using a(1) by (simp add: k_def)
    show ?thesis unfolding q(1)
    proof (rule rx_typed_frame)
      show "dev_frame s (s2\<lparr>mallocs := m\<rparr>)" using f(2) by simp
      show "pq_within 8 q" if "queues_typed s"
        using that q(2) queues_boundedD(3) by (auto simp: queues_typed_def)
      show "case q of PQ ks \<Rightarrow> \<forall>k \<in> set ks. rx_ok k | _ \<Rightarrow> True" if "queues_typed s"
        using that q(3) ok by (auto simp: queues_typed_def rx_typed_def split: pq.splits)
    qed
  qed (use dev_win_frame f in auto)
qed

lemma mpdu_parts_frame:
  assumes "mpdu_parts st buf len s = Some (p, t)"
  shows "dev_frame s t" "\<And>head buf1 len2 phy. p = Some (head, buf1, len2, phy) \<Longrightarrow> len2 \<le> len"
  using assms by (auto simp: mpdu_parts_def bind_eq_Some_conv split: if_splits)

lemma mac_status_frame: "ar9170_rx_mac_status head mac st s = (r, t) \<Longrightarrow> dev_frame s t"
  by (auto simp: ar9170_rx_mac_status_def Let_def split: if_splits)

lemma phy_status_frame:
  assumes "ar9170_rx_phy_status p st s = Some (r, t)"
  shows "win_frame s t"
proof -
  obtain rssi where r: "pool_bytes p 7 s = Some rssi" "t = s\<lparr>bulk_pool := write_at (nat p)
      (map (\<lambda>r. if r AND 0x80 \<noteq> 0 then ((r AND 0x7f) + 1) AND 0x7f else r) rssi) (bulk_pool s)\<rparr>"
    using assms by (auto simp: ar9170_rx_phy_status_def bind_eq_Some_conv)
  have "0 \<le> p" "nat p + 7 \<le> length (bulk_pool s)" "length rssi = 7"
    using r(1) by (auto simp: pool_bytes_def read_at_def split: if_splits)
  then have "length (bulk_pool t) = length (bulk_pool s)" by (simp add: r(2))
  then show ?thesis
    by (simp add: r(2) win_frame_def queues_typed_def queues_bounded_def rx_typed_def one_wait_def)
qed

lemma rx_drop_frame: "dev_frame s (rx_drop s)"
  by (simp add: rx_drop_def)

lemma handle_mpdu_frame:
  assumes "ar9170_handle_mpdu buf len s = Some t" "length (bulk_pool s) \<le> 2048" "- 65536 \<le> len"
  shows "win_frame s t"
proof (cases "len > AR9170_RX_MAX_PACKET_LENGTH \<or> \<not> is_started s \<or> (of_int len :: u32) < 4")
  case True then show ?thesis using assms(1) dev_win_frame [OF rx_drop_frame] by (auto simp: ar9170_handle_mpdu_def split: if_splits)
next
  case False
  then have l: "len \<le> 512" and g: "\<not> len > AR9170_RX_MAX_PACKET_LENGTH" "\<not> \<not> is_started s" "\<not> (of_int len :: u32) < 4"
    by (simp_all add: AR9170_RX_MAX_PACKET_LENGTH_def)
  define counter where "counter = unat (of_int len - 12 :: u32)"
  have "\<exists>found. mpdu_pattern buf counter s = Some found"
    using assms(1) unfolding ar9170_handle_mpdu_def if_not_P [OF g(1)] if_not_P [OF g(2)] if_not_P [OF g(3)] Let_def
      counter_def [symmetric] by (auto simp: bind_eq_Some_conv)
  then obtain found where found: "mpdu_pattern buf counter s = Some found" by blast
  define len1 where "len1 = (case found of None \<Rightarrow> len | Some c \<Rightarrow> sint (of_int len - of_nat (counter - c) :: u32))"
  have l1: "len1 \<le> 512"
  proof (cases found)
    case (Some c)
    define d where "d = counter - c"
    have d: "d \<le> 2048" using pattern_near [of buf counter s c] found Some assms(2) by (simp add: d_def)
    have "(of_int len - of_nat d :: u32) = word_of_int (len - int d)" by simp
    then have "len1 = sint (word_of_int (len - int d) :: u32)" by (simp only: len1_def Some option.case d_def)
    also have "\<dots> = len - int d"
      using l d assms(3) by (simp only: signed_of_int) (simp add: signed_take_bit_int_eq_self)
    finally show ?thesis using l by simp
  qed (simp add: len1_def l)
  obtain mac where mac: "pool_bytes (int buf + (len1 - 4)) 4 s = Some mac"
    using assms(1) unfolding ar9170_handle_mpdu_def if_not_P [OF g(1)] if_not_P [OF g(2)] if_not_P [OF g(3)] Let_def
      counter_def [symmetric] found Option.bind.bind_lunit len1_def [symmetric] bind_eq_Some_conv by blast
  obtain parts s1 where parts: "mpdu_parts (mac ! 3) buf (len1 - 4) s = Some (parts, s1)"
    using assms(1) unfolding ar9170_handle_mpdu_def if_not_P [OF g(1)] if_not_P [OF g(2)] if_not_P [OF g(3)] Let_def
      counter_def [symmetric] found Option.bind.bind_lunit len1_def [symmetric] mac bind_eq_Some_conv by fastforce
  note f1 = dev_win_frame [OF mpdu_parts_frame(1) [OF parts]]
  note run = assms(1) [unfolded ar9170_handle_mpdu_def if_not_P [OF g(1)] if_not_P [OF g(2)] if_not_P [OF g(3)] Let_def
      counter_def [symmetric] found Option.bind.bind_lunit len1_def [symmetric] mac parts prod.case]
  note drop = dev_win_frame [OF rx_drop_frame]
  show ?thesis
  proof (cases parts)
    case None then show ?thesis using run f1 win_frame_trans [OF f1 drop] by simp
  next
    case (Some q)
    obtain head buf1 len2 phy where q: "parts = Some (head, buf1, len2, phy)" using Some by (cases q) auto
    have l2: "len2 \<le> 508" using mpdu_parts_frame(2) [OF parts q] l1 by simp
    obtain r s2 where m: "ar9170_rx_mac_status head mac \<lparr>rs_flag = 0, rs_band = False, rs_rate_idx = 0, rs_antenna = 0\<rparr> s1 = (r, s2)"
      by force
    note f2 = win_frame_trans [OF f1 dev_win_frame [OF mac_status_frame [OF m]]]
    note run2 = run [unfolded q option.case prod.case m]
    consider "t = rx_drop s1" | "t = rx_drop s2" | st st1 s3 where "\<not> len2 < 14"
        "(case phy of None \<Rightarrow> Some (st, s2) | Some p \<Rightarrow> ar9170_rx_phy_status p st s2) = Some (st1, s3)"
        "t = rx_drop s3 \<or> ar9170_schedule_handle_mpdu (drop buf1 (bulk_pool s3)) len2 s3 = Some t"
      using run2 by (cases "len2 < 14"; cases r) (auto simp: bind_eq_Some_conv ETH_ALEN_def FCS_LEN_def split: if_splits)
    then show ?thesis
    proof cases
      case (3 st st1 s3)
      have f3: "win_frame s s3" using 3(2) f2 win_frame_trans [OF f2 phy_status_frame] by (auto split: option.splits)
      show ?thesis using 3(3)
      proof
        assume "t = rx_drop s3" then show ?thesis using win_frame_trans [OF f3 drop] by simp
      next
        assume "ar9170_schedule_handle_mpdu (drop buf1 (bulk_pool s3)) len2 s3 = Some t"
        from win_frame_trans [OF f3 schedule_frame [OF this]] show ?thesis using 3(1) l2 by simp
      qed
    qed (use win_frame_trans [OF f1 drop] win_frame_trans [OF f2 drop] in simp_all)
  qed
qed

subsection \<open>Reception outside interrupts\<close>

lemma ino_frame_update2 [simp]: "ino_frame s (t\<lparr>off_override := x\<rparr>) = ino_frame s t"
  by (simp add: ino_frame_def psm_core_def queues_bounded_def one_wait_def)

lemma sta_join_core_frame: "ino_frame s (sta_join_ibss_core b c junk s)"
proof -
  obtain ok s1 where m: "smalloc s = (ok, s1)" by force
  obtain ok2 s2 where m2: "smalloc s1 = (ok2, s2)" by force
  note f1 = ino_frame_smalloc [OF ino_frame_refl m]
  note f2 = ino_frame_smalloc [OF f1 m2]
  show ?thesis using f1 f2 by (simp add: sta_join_ibss_core_def m m2 Let_def)
qed

lemma sta_join_frame: "ino_frame s (ieee80211_sta_join_ibss bi aw name junk s)"
proof -
  define s1 where "s1 = (ieee80211_sta_update_info s)\<lparr>beacon_int := bi, atim_window := aw, ibss_name := take ETH_ALEN name\<rparr>"
  have "ino_frame s s1" by (simp add: s1_def ieee80211_sta_update_info_def)
  from ino_frame_trans [OF this sta_join_core_frame] show ?thesis
    by (simp add: ieee80211_sta_join_ibss_def Let_def s1_def)
qed

lemma bind_SomeE: "Option.bind x f = Some t \<Longrightarrow> (\<And>a. x = Some a \<Longrightarrow> f a = Some t \<Longrightarrow> P) \<Longrightarrow> P"
  by (auto simp: bind_eq_Some_conv)

lemma if_eqE: "(if b then x else y) = z \<Longrightarrow> (b \<Longrightarrow> x = z \<Longrightarrow> P) \<Longrightarrow> (\<not> b \<Longrightarrow> y = z \<Longrightarrow> P) \<Longrightarrow> P"
  by (simp split: if_splits)

lemma rx_beacon_frame: "ieee80211_rx_process_beacon skb len junk s = Some t \<Longrightarrow> ino_frame s t"
  unfolding ieee80211_rx_process_beacon_def
  by (elim if_eqE bind_SomeE; simp add: sta_join_frame; (erule subst)?; simp add: sta_join_frame)

lemma mac_frame_input_frame: "ino_frame s (mac_frame_input s)"
  by (simp add: mac_frame_input_def net_deliver_def Let_def split: prod.split)

lemma rx_data_frame:
  assumes "ieee80211_rx_process_data_mpdu skb now junk s = Some t"
  shows "ino_frame s t"
proof -
  have "t = s \<or> (\<exists>p. t = mac_frame_input (s\<lparr>pbuf := p\<rparr>))"
    using assms by (auto simp: ieee80211_rx_process_data_mpdu_def bind_eq_Some_conv Let_def split: if_splits)
  then show ?thesis
  proof (elim disjE exE)
    fix p assume "t = mac_frame_input (s\<lparr>pbuf := p\<rparr>)"
    then show ?thesis using ino_frame_trans [OF _ mac_frame_input_frame, of s "s\<lparr>pbuf := p\<rparr>"] by simp
  qed simp
qed

lemma ieee80211_rx_frame: "ieee80211_rx skb now junk jl s = Some t \<Longrightarrow> ino_frame s t"
  by (auto simp: ieee80211_rx_def ieee80211_rx_process_mgmt_mpdu_def bind_eq_Some_conv
      dest: rx_beacon_frame rx_data_frame wl_ino_frame [OF rx_atim_frame] split: if_splits)

lemma set_tl: "x \<in> set (tl xs) \<Longrightarrow> x \<in> set xs"
  by (cases xs) auto

lemma async_rx_frame:
  assumes "ar9170_async_rx now junk jl s = Some t"
  shows "win_frame s t"
proof -
  obtain k where k: "pq_get (rx_pending_pkts s) = Some k"
    using assms by (auto simp: ar9170_async_rx_def bind_eq_Some_conv)
  have "\<exists>s1 q. ino_frame s s1 \<and> pq_remove_first (rx_pending_pkts s1) = Some q \<and> t = s1\<lparr>rx_pending_pkts := q\<rparr>"
    using assms k by (cases k) (auto simp: ar9170_async_rx_def bind_eq_Some_conv dest: ieee80211_rx_frame)
  then obtain s1 q where q: "ino_frame s s1" "pq_remove_first (rx_pending_pkts s1) = Some q" "t = s1\<lparr>rx_pending_pkts := q\<rparr>" by blast
  have e: "rx_pending_pkts s1 = rx_pending_pkts s" using q(1) by (simp add: ino_frame_def)
  show ?thesis unfolding q(3)
  proof (rule rx_typed_frame [OF ino_dev_frame [OF q(1)]])
    assume t: "queues_typed s"
    then show "pq_within 8 q" using q(2) queues_boundedD(3) [of s] unfolding e
      by (auto simp: queues_typed_def pq_remove_first_def split: pq.splits)
    show "case q of PQ ks \<Rightarrow> \<forall>k \<in> set ks. rx_ok k | _ \<Rightarrow> True" using t q(2) unfolding e
      by (auto simp: queues_typed_def rx_typed_def pq_remove_first_def split: pq.splits dest: set_tl)
  qed
qed

end
