(* ===== verification/PsmInv.thy ===== *)
theory PsmInv
  imports PsmFrame
begin

text \<open>
  The power-saving state machine over time: every event that reaches the driver as a step, the windows
  and queues that all reachable states have, the course of a beacon interval, when frames may be sent,
  and the ATIM window that is too short.
\<close>

section \<open>Responses and transfers\<close>

lemma handle_response_cases:
  assumes "ar9170_handle_command_response rsp len s = Some t"
  obtains (frame) "dev_frame s t"
  | (ps) s1 where "dev_frame s s1" "t = ar9170_handle_ps s1"
  | (pretbtt) s1 received where "dev_frame s s1" "rsp_pretbtt (rtimer_arch_now (rt s)) received s1 = Some t"
proof -
  obtain broken s1 where c: "ar9170_check_sequence (uint (rsp ! 2)) s = (broken, s1)" by force
  note f = check_sequence_frame [OF c]
  show thesis
    using assms unfolding ar9170_handle_command_response_def Let_def c prod.case
    by (elim if_eqE)
      (use f dev_frame_trans [OF f dbg_message_frame] in \<open>auto intro: that dest: dev_frame_trans [OF f cmd_callback_frame]
        dev_frame_trans [OF f wl_dev_frame [OF rsp_txcomp_frame]] dev_frame_trans [OF f beacon_config_frame]\<close>)
qed

lemma int_out_frame: "dev_frame s (ar9170_interrupt_out_transfer_done ok s)"
  by (simp add: ar9170_interrupt_out_transfer_done_def)

lemma bulk_out_frame: "dev_frame s (ar9170_bulk_out_transfer_done ok s)"
  by (simp add: ar9170_bulk_out_transfer_done_def Let_def)

lemma queues_typed_pool: "queues_typed s \<Longrightarrow> length (bulk_pool s) \<le> 2048"
  by (simp add: queues_typed_def BULK_ENDPOINT_MAX_SIZE_def)

lemma rx_find_Some: "rx_find len rem s = Some (Some p) \<Longrightarrow> 0 \<le> p \<and> p + 15 \<le> int (length (bulk_pool s))"
proof (induction len rem s rule: rx_find.induct)
  case (1 len rem s)
  have go: "\<not> rem < AR9170_MIN_HDR_LEN" using "1.prems" by (subst (asm) rx_find.simps) (simp split: if_splits)
  define pos where "pos = uint len - rem"
  obtain b where b: "pool_byte pos s = Some b" "(if b \<noteq> 0xff then rx_find len (rem - AR9170_MAGIC_RSP_0XFF_HDR_LEN) s
    else do {
      found \<leftarrow> first_index (\<lambda>k. magic_at (pos - AR9170_MAGIC_RSP_NON_FF_LEN - int k) s) [0..<12];
      (case found of Some k \<Rightarrow> Some (Some (pos - AR9170_MAGIC_RSP_NON_FF_LEN - int k))
       | None \<Rightarrow> rx_find len (rem - AR9170_MAGIC_RSP_0XFF_HDR_LEN) s)
    }) = Some (Some p)"
    using "1.prems" unfolding rx_find.simps [of len rem] if_not_P [OF go] Let_def pos_def [symmetric] by (rule bind_SomeE)
  have first: "first_index P xs = Some (Some k) \<Longrightarrow> k < length xs \<and> P (xs ! k) = Some True" for P and xs :: "nat list" and k
    by (induction xs arbitrary: k) (auto simp: bind_eq_Some_conv split: if_splits)
  show ?case using b(2)
  proof (elim if_eqE)
    assume ff: "b \<noteq> 0xff" "rx_find len (rem - AR9170_MAGIC_RSP_0XFF_HDR_LEN) s = Some (Some p)"
    show ?case by (rule "1.IH"(1) [OF go pos_def b(1) ff])
  next
    assume ff: "\<not> b \<noteq> 0xff" and r: "do {
      found \<leftarrow> first_index (\<lambda>k. magic_at (pos - AR9170_MAGIC_RSP_NON_FF_LEN - int k) s) [0..<12];
      (case found of Some k \<Rightarrow> Some (Some (pos - AR9170_MAGIC_RSP_NON_FF_LEN - int k))
       | None \<Rightarrow> rx_find len (rem - AR9170_MAGIC_RSP_0XFF_HDR_LEN) s)
    } = Some (Some p)"
    from r obtain found where f: "first_index (\<lambda>k. magic_at (pos - AR9170_MAGIC_RSP_NON_FF_LEN - int k) s) [0..<12] = Some found"
      "(case found of Some k \<Rightarrow> Some (Some (pos - AR9170_MAGIC_RSP_NON_FF_LEN - int k))
       | None \<Rightarrow> rx_find len (rem - AR9170_MAGIC_RSP_0XFF_HDR_LEN) s) = Some (Some p)" by (rule bind_SomeE)
    show ?case
    proof (cases found)
      case None
      then show ?thesis using "1.IH"(2) [OF go pos_def b(1) ff f(1) None] f(2) by simp
    next
      case (Some k)
      then have "p = pos - AR9170_MAGIC_RSP_NON_FF_LEN - int k" "magic_at p s = Some True"
        using f first [of _ "[0..<12]" k] by auto
      then show ?thesis by (auto simp: magic_at_def pool_bytes_def split: if_splits)
    qed
  qed
qed

section \<open>Steps\<close>

text \<open>
  What the interrupts do: the two timer channels, the pipes of the device, and the clock that moves
  on. It does so for less than \<open>2 ^ 63\<close> ticks, which are 27,000 years.\<close>

inductive dev_irq :: "'a dev_scheme \<Rightarrow> 'a dev_scheme \<Rightarrow> bool" where
  irq_bulk_in: "ar9170_bulk_in_transfer_done avail st data nb s = Some t \<Longrightarrow> dev_irq s t"
| irq_int_in: "ar9170_interrupt_in_transfer_done st data nb s = Some t \<Longrightarrow> dev_irq s t"
| irq_bulk_out: "dev_irq s (ar9170_bulk_out_transfer_done ok s)"
| irq_int_out: "dev_irq s (ar9170_interrupt_out_transfer_done ok s)"
| irq_timer: "rt_rc (rt s) \<noteq> None \<Longrightarrow> psm_irq s = Some t \<Longrightarrow> dev_irq s t"
| irq_clock: "rt_tc (rt s) \<le> c \<Longrightarrow> dev_irq s (s\<lparr>rt := rt_event_step (rt s) (RtClock c)\<rparr>)"
| irq_overflow: "rt_msb (rt s) < 0x7fffffff \<Longrightarrow> dev_irq s (s\<lparr>rt := rt_event_step (rt s) (RtOverflow c)\<rparr>)"

text \<open>
  The program: packets from above, the two schedulers, and interrupts, which also happen while the
  scheduler waits for the response to a command.
\<close>

inductive dev_step :: "'a dev_scheme \<Rightarrow> 'a dev_scheme \<Rightarrow> bool" where
  step_irq: "dev_irq s t \<Longrightarrow> dev_step s t"
| step_send: "ieee80211_drv_tx p s = Some (r, t) \<Longrightarrow> dev_step s t"
| step_80211: "ieee80211_op_scheduler s = Some t \<Longrightarrow> dev_step s t"
| step_scheduler: "(\<And>u v. irq u = Some v \<Longrightarrow> dev_irq\<^sup>*\<^sup>* u v) \<Longrightarrow> ar9170_op_scheduler irq now junk junk_len s = Some t \<Longrightarrow> dev_step s t"

lemma soft_beacon_frame:
  assumes "ar9170_async_tx_soft_beacon s = Some (r, t)"
  shows "wl_frame s t"
proof -
  obtain ok s1 where m: "smalloc s = (ok, s1)" by force
  obtain ok2 s2 where m2: "smalloc s1 = (ok2, s2)" by force
  note f1 = wl_frame_smalloc [OF m]
  note f2 = wl_frame_smalloc_trans [OF f1 m2]
  have "t = s \<or> t = s1 \<or> t = s2 \<or> (\<exists>k r k'. ar9170_op_tx k s2 = Some (r, k', t))"
    using assms unfolding ar9170_async_tx_soft_beacon_def m m2 Let_def prod.case
    by (elim if_eqE; cases "ibss_beacon_buf s"; simp; elim if_eqE bind_SomeE; auto)
  then show ?thesis using f1 f2 wl_frame_trans [OF f2 wl_frame_usb_part] op_tx_usb by blast
qed

lemma async_tx_check_frame:
  assumes "ar9170_sch_async_tx_check s = Some t"
  shows "wl_frame s t"
proof (cases "ps_state s \<or> psm_transit_to_sleep s")
  case True then show ?thesis using assms unfolding ar9170_sch_async_tx_check_def if_P [OF True] by simp
next
  case False
  obtain no_pkts none where n: "(if none then Some s
        else (case psm_state s of
            ATIM_WINDOW \<Rightarrow> do {
              e \<leftarrow> pq_is_empty (tx_pending_atims s);
              if \<not> e \<and> \<not> tx_data_wait s \<and> \<not> tx_atim_wait s then ar9170_psm_async_tx_mgmt s else Some s
            }
          | TX_WINDOW \<Rightarrow>
              if \<not> no_pkts \<and> \<not> tx_data_wait s \<and> \<not> tx_atim_wait s then
                if conf_ps s then ar9170_psm_async_tx_data s else ar9170_async_tx DataQ s
              else Some s
          | SOFT_BCN_WINDOW \<Rightarrow>
              if send_soft_bcn_flag s then do {
                (result, s1) \<leftarrow> ar9170_async_tx_soft_beacon s;
                Some (if result then s1\<lparr>send_soft_bcn_flag := False\<rparr> else s1)
              }
              else Some s
          | PRE_TBTT \<Rightarrow> Some s)) = Some t"
    using assms unfolding ar9170_sch_async_tx_check_def if_not_P [OF False] by (elim bind_SomeE)
  show ?thesis
  proof (cases none)
    case True then show ?thesis using n by simp
  next
    case False
    note n1 = n [unfolded if_not_P [OF False]]
    show ?thesis
    proof (cases "psm_state s")
      case SOFT_BCN_WINDOW
      then show ?thesis using n1 soft_beacon_frame [of s] by (auto simp: bind_eq_Some_conv split: if_splits)
    next
      case ATIM_WINDOW
      then show ?thesis using n1 psm_async_tx_mgmt_frame [of s t] by (auto simp: bind_eq_Some_conv split: if_splits)
    next
      case TX_WINDOW
      then show ?thesis using n1 psm_async_tx_data_frame [of s t] async_tx_frame [of DataQ s t] by (auto split: if_splits)
    qed (use n1 in simp)
  qed
qed

lemma erase_check_frame: "ar9170_sch_erase_nodes_check s = Some t \<Longrightarrow> wl_frame s t"
  using erase_awake_frame [of "s\<lparr>erase_awake_nodes_flag := False\<rparr>" t]
    wl_frame_trans [of s "s\<lparr>erase_awake_nodes_flag := False\<rparr>" t]
  by (auto simp: ar9170_sch_erase_nodes_check_def Let_def split: if_splits)

lemma powersave_check_frame: "win_frame s (ar9170_sch_powersave_check s)"
proof -
  have "win_frame s (ar9170_powersave b u)" if "win_frame s u" for b u
  proof -
    obtain ok u1 where m: "smalloc u = (ok, u1)" by force
    from win_frame_trans [OF that wl_win_frame [OF wl_frame_smalloc [OF m]]] show ?thesis
      by (simp add: ar9170_powersave_def m)
  qed
  then show ?thesis by (simp add: ar9170_sch_powersave_check_def)
qed

lemma beacon_ctrl_check_frame: "ar9170_sch_beacon_ctrl_check s = Some t \<Longrightarrow> dev_frame s t"
  unfolding ar9170_sch_beacon_ctrl_check_def
  by (elim if_eqE bind_SomeE) (auto dest: update_beacon_frame)

lemma beacon_cancel_check_frame: "dev_frame s (ar9170_sch_beacon_cancel_check s)"
  using dev_frame_trans [of s "s\<lparr>beacon_cancel := False\<rparr>", OF _ bcn_ctrl_frame]
  by (simp add: ar9170_sch_beacon_cancel_check_def ar9170_flush_cab_def)

lemma async_cmd_check_frame: "dev_frame s (ar9170_sch_async_cmd_check s)"
proof (cases "cmd_list s")
  case (Cons c cs)
  obtain ok t where "ar9170_usb_send_cmd c s = (ok, t)" by force
  with send_cmd_frame [OF this] Cons show ?thesis by (simp add: ar9170_sch_async_cmd_check_def)
qed (simp add: ar9170_sch_async_cmd_check_def)

lemma async_rx_check_frame: "ar9170_sch_async_rx_check now junk jl s = Some t \<Longrightarrow> win_frame s t"
  unfolding ar9170_sch_async_rx_check_def by (elim bind_SomeE if_eqE) (auto dest: async_rx_frame)

text \<open>The command for the filter waits for interrupts between two parts that leave the windows alone.\<close>

lemma rx_filter_check_cases:
  assumes "ar9170_sch_rx_filter_disable_check irq s = Some t"
  shows "t = s \<or> (\<exists>u. dev_frame s u \<and> irq u = Some t)"
proof (cases "clear_filtering s")
  case True
  define s0 where "s0 = s\<lparr>clear_filtering := False, readbuf := None, readlen := 0, cmd_wait := True\<rparr>"
  obtain r s1 where r: "exec_cmd 0x07 (le32_bytes (0x02 OR 0x08 OR 0x01 OR 0x20 OR 0x04)) s0 = (r, s1)" by force
  have "dev_frame s s1" using dev_frame_trans [of s s0, OF _ exec_cmd_frame [OF r]] by (simp add: s0_def)
  moreover have "irq s1 = Some t"
  proof -
    have "map_option snd (map_option (\<lambda>(ok, s1). (\<not> ok, s1)) (ar9170_exec_cmd irq 0x07
        (le32_bytes (0x02 OR 0x08 OR 0x01 OR 0x20 OR 0x04)) 0 None (s\<lparr>clear_filtering := False\<rparr>))) = Some t"
      using assms True unfolding ar9170_sch_rx_filter_disable_check_def ar9170_rx_filter_def by (simp only: if_True)
    then show ?thesis
      using r unfolding ar9170_exec_cmd_def Let_def s0_def
      by (auto simp: AR9170_MAX_CMD_PAYLOAD_LEN_def bind_eq_Some_conv split: if_splits)
  qed
  ultimately show ?thesis by blast
qed (use assms in \<open>simp add: ar9170_sch_rx_filter_disable_check_def\<close>)

section \<open>What every step keeps\<close>

text \<open>
  A property of the driver that follows from its windows, timer and queues, and that is kept by the
  start of a beacon interval, by the timer and by the clock, is kept by every step.
\<close>

locale psm_kept =
  fixes P :: "'a dev_scheme \<Rightarrow> bool"
  assumes frame: "win_frame s t \<Longrightarrow> P s \<Longrightarrow> P t"
    and pool: "P s \<Longrightarrow> length (bulk_pool s) \<le> 2048"
    and tbtt: "P s \<Longrightarrow> main_vif s = Some NL80211_IFTYPE_ADHOC \<Longrightarrow> P (tbtt_adhoc now s)"
    and timer: "P s \<Longrightarrow> rt_rc (rt s) \<noteq> None \<Longrightarrow> psm_irq s = Some t \<Longrightarrow> P t"
    and clock: "P s \<Longrightarrow> rt_tc (rt s) \<le> c \<Longrightarrow> P (s\<lparr>rt := rt_event_step (rt s) (RtClock c)\<rparr>)"
    and overflow: "P s \<Longrightarrow> rt_msb (rt s) < 0x7fffffff \<Longrightarrow> P (s\<lparr>rt := rt_event_step (rt s) (RtOverflow c)\<rparr>)"
begin

lemmas dev = frame [OF dev_win_frame]
lemmas wl = frame [OF wl_win_frame]

lemma pretbtt_kept:
  assumes "rsp_pretbtt now received s = Some t" "P s"
  shows "P t"
proof -
  define s2 where "s2 = (if received = 0 then s\<lparr>tbtt_counter := tbtt_counter s + 1, ps_state := False\<rparr>
    else s\<lparr>tbtt_counter := tbtt_counter s + 1\<rparr>)"
  have "win_frame s s2" using dev_win_frame [of s "s\<lparr>tbtt_counter := tbtt_counter s + 1\<rparr>"] by (simp add: s2_def)
  then have 2: "P s2" using assms(2) by (rule frame)
  have e: "(case main_vif s2 of None \<Rightarrow> Some s2 | Some ty \<Rightarrow> (case ty of
       NL80211_IFTYPE_STATION \<Rightarrow> Some (ar9170_handle_ps s2)
     | NL80211_IFTYPE_AP \<Rightarrow> map_option snd (ar9170_update_beacon True s2)
     | NL80211_IFTYPE_ADHOC \<Rightarrow> Some (tbtt_adhoc now s2)
     | NL80211_IFTYPE_OTHER \<Rightarrow> Some s2)) = Some t"
    using assms(1) unfolding rsp_pretbtt_def s2_def by (simp add: Let_def)
  then show ?thesis
    using 2 frame [OF handle_ps_frame 2] tbtt [OF 2] dev [OF update_beacon_frame 2]
    by (auto split: option.splits iftype.splits)
qed

lemma handle_response_kept:
  assumes "ar9170_handle_command_response rsp len s = Some t" "P s"
  shows "P t"
  using assms(1)
  by (cases rule: handle_response_cases)
    (use assms(2) dev frame [OF handle_ps_frame] pretbtt_kept in blast)+

lemma mpdu_kept:
  assumes "ar9170_handle_mpdu buf len s = Some t" "- 65536 \<le> len" "P s"
  shows "P t"
  by (rule frame [OF handle_mpdu_frame [OF assms(1) pool [OF assms(3)] assms(2)] assms(3)])

lemma untie_kept: "ar9170_rx_untie_cmds b len i s = Some t \<Longrightarrow> P s \<Longrightarrow> P t"
proof (induction b len i s rule: ar9170_rx_untie_cmds.induct)
  case (1 b len i s)
  show ?case
  proof (cases "i < len")
    case True
    obtain h where h: "pool_byte (int (b + i)) s = Some h"
      "(if i + unat h + AR9170_CMD_HDR_LEN > len then Some s
        else do {
          s1 \<leftarrow> ar9170_handle_command_response (drop (b + i) (bulk_pool s)) (unat h + AR9170_CMD_HDR_LEN) s;
          ar9170_rx_untie_cmds b len (i + unat h + AR9170_CMD_HDR_LEN) s1
        }) = Some t"
      using "1.prems"(1) True unfolding ar9170_rx_untie_cmds.simps [of b len i] Let_def by (auto simp: bind_eq_Some_conv)
    show ?thesis
    proof (cases "i + unat h + AR9170_CMD_HDR_LEN > len")
      case False
      then obtain s1 where s1: "ar9170_handle_command_response (drop (b + i) (bulk_pool s)) (unat h + AR9170_CMD_HDR_LEN) s = Some s1"
        "ar9170_rx_untie_cmds b len (i + unat h + AR9170_CMD_HDR_LEN) s1 = Some t"
        using h(2) by (auto elim: bind_SomeE)
      from handle_response_kept [OF s1(1) "1.prems"(2)] show ?thesis
        by (rule "1.IH" [OF True h(1) refl False s1(1,2)])
    qed (use h(2) "1.prems"(2) in simp)
  qed (use "1.prems" in \<open>simp add: ar9170_rx_untie_cmds.simps\<close>)
qed

lemma rx_mixed_kept:
  assumes "rx_mixed len p s = Some t" "0 \<le> p" "p + 15 \<le> int (length (bulk_pool s))" "P s"
  shows "P t"
proof -
  have p: "p \<le> 2048" using assms(3) pool [OF assms(4)] by simp
  show ?thesis
    using assms(1) unfolding rx_mixed_def Let_def
  proof (elim bind_SomeE)
    fix h :: u8 and s1 s2
    define cmd where "cmd = nat (p + AR9170_MAGIC_RSP_HDR_LENGTH)"
    define cmd_len where "cmd_len = unat h + AR9170_CMD_HDR_LEN"
    assume 1: "ar9170_rx_untie_cmds (nat (p + AR9170_MAGIC_RSP_HDR_LENGTH)) (unat h + AR9170_CMD_HDR_LEN) 0 s = Some s1"
      and 2: "(if p \<noteq> 1 \<and> \<not> (of_int (p - 1) :: u32) \<le> 4 then ar9170_handle_mpdu 4 (p - 4 - 1) s1 else Some s1) = Some s2"
      and 3: "(if of_nat (unat h + AR9170_CMD_HDR_LEN) < (of_int (uint len - p - AR9170_MAGIC_RSP_HDR_LENGTH) :: u32)
        then Option.bind (magic_at (int (nat (p + AR9170_MAGIC_RSP_HDR_LENGTH) + (unat h + AR9170_CMD_HDR_LEN) + 1)) s2)
          (\<lambda>again. if again then Option.bind (pool_byte (int (nat (p + AR9170_MAGIC_RSP_HDR_LENGTH) + (unat h + AR9170_CMD_HDR_LEN) + 1 +
              nat AR9170_MAGIC_RSP_HDR_LENGTH)) s2)
            (\<lambda>new_len. ar9170_rx_untie_cmds (nat (p + AR9170_MAGIC_RSP_HDR_LENGTH) + (unat h + AR9170_CMD_HDR_LEN) + 1 +
              nat AR9170_MAGIC_RSP_HDR_LENGTH) (unat new_len + AR9170_CMD_HDR_LEN) 0 s2)
          else ar9170_handle_mpdu (nat (p + AR9170_MAGIC_RSP_HDR_LENGTH) + (unat h + AR9170_CMD_HDR_LEN))
            (uint len - p - AR9170_MAGIC_RSP_HDR_LENGTH - int (unat h + AR9170_CMD_HDR_LEN)) s2)
        else Some s2) = Some t"
    have i1: "P s1" by (rule untie_kept [OF 1 assms(4)])
    have i2: "P s2" using 2 i1 mpdu_kept [of 4 "p - 4 - 1" s1 s2] assms(2) by (auto split: if_splits)
    have "unat h < 2 ^ LENGTH(8)" by (rule unsigned_less)
    then have "unat h < 256" by simp
    then have h: "int (unat h) < 256" by linarith
    have l: "- 65536 \<le> uint len - p - AR9170_MAGIC_RSP_HDR_LENGTH - int (unat h + AR9170_CMD_HDR_LEN)"
      using p h uint_ge_0 [of len] unfolding AR9170_MAGIC_RSP_HDR_LENGTH_def AR9170_CMD_HDR_LEN_def of_nat_add by linarith
    show ?thesis using 3
      by (elim if_eqE bind_SomeE) (use i2 untie_kept mpdu_kept [OF _ l] in blast)+
  qed
qed

lemma rx_kept:
  assumes "ar9170_rx (of_nat nb) s = Some t" "nb < 2048" "P s"
  shows "P t"
proof -
  have l: "- 65536 \<le> sint (of_nat nb - 4 :: u32)"
  proof -
    have "sint (of_nat nb - 4 :: u32) = int nb - 4"
    proof -
      have "(of_nat nb - 4 :: u32) = word_of_int (int nb - 4)" by simp
      also have "sint (word_of_int (int nb - 4) :: u32) = int nb - 4"
        using assms(2) by (simp only: signed_of_int) (simp add: signed_take_bit_int_eq_self)
      finally show ?thesis .
    qed
    then show ?thesis by simp
  qed
  obtain found where f: "rx_find (of_nat nb) (sint (of_nat nb - 4 :: u32)) s = Some found"
    "(case found of Some p \<Rightarrow> rx_mixed (of_nat nb) p s | None \<Rightarrow> ar9170_handle_mpdu 4 (sint (of_nat nb - 4 :: u32)) s) = Some t"
    using assms(1) unfolding ar9170_rx_def by (rule bind_SomeE)
  show ?thesis
  proof (cases found)
    case None then show ?thesis using f(2) mpdu_kept [OF _ l assms(3)] by simp
  next
    case (Some p)
    then show ?thesis using f rx_find_Some [of "of_nat nb" _ s p] rx_mixed_kept [of "of_nat nb" p s t] assms(3) by simp
  qed
qed

lemma bulk_in_kept:
  assumes "ar9170_bulk_in_transfer_done avail st data nb s = Some t" "P s"
  shows "P t"
proof -
  define s0 where "s0 = s\<lparr>bulk_listening := False\<rparr>"
  define s1 where "s1 = ar9170_listen_on_bulk_in avail s0"
  have 0: "P s0" using dev [of s s0] assms(2) by (simp add: s0_def)
  have 1: "P s1" using dev [of s0 s1] 0 by (simp add: s1_def ar9170_listen_on_bulk_in_def)
  show ?thesis
  proof (cases "st = UHD_TRANS_NOERROR \<and> nb < BULK_ENDPOINT_MAX_SIZE")
    case True
    define u where "u = ar9170_listen_on_bulk_in avail (s0\<lparr>bulk_pool := write_at 0 (take (4 * DIV_ROUND_UP nb 4) data) (bulk_pool s0)\<rparr>)"
    have "nb < 2048" using True by (simp add: BULK_ENDPOINT_MAX_SIZE_def)
    then have "4 * DIV_ROUND_UP nb 4 \<le> 2048" unfolding DIV_ROUND_UP_def by presburger
    then have "length (bulk_pool u) \<le> 2048"
      using pool [OF 0] by (simp add: u_def ar9170_listen_on_bulk_in_def write_at_def)
    then have "win_frame s0 u"
      by (simp add: u_def ar9170_listen_on_bulk_in_def win_frame_def queues_typed_def queues_bounded_def
          rx_typed_def BULK_ENDPOINT_MAX_SIZE_def one_wait_def)
    then have "P u" using 0 by (rule frame)
    moreover have "ar9170_rx (of_nat nb) u = Some t"
      using assms(1) True by (simp add: ar9170_bulk_in_transfer_done_def Let_def s0_def u_def)
    ultimately show ?thesis using rx_kept \<open>nb < 2048\<close> by blast
  next
    case False
    then have "t = s0 \<or> t = s1"
      using assms(1) by (cases st) (auto simp: ar9170_bulk_in_transfer_done_def Let_def s0_def s1_def split: if_splits)
    then show ?thesis using 0 1 by auto
  qed
qed

lemma int_in_kept:
  assumes "ar9170_interrupt_in_transfer_done st data nb s = Some t" "P s"
  shows "P t"
proof -
  obtain ok s1 where m: "smalloc s = (ok, s1)" by force
  have "P s1" by (rule wl [OF wl_frame_smalloc [OF m] assms(2)])
  then show ?thesis using assms m handle_response_kept
    by (auto simp: ar9170_interrupt_in_transfer_done_def split: if_splits)
qed

lemma irq_kept: "dev_irq s t \<Longrightarrow> P s \<Longrightarrow> P t"
  by (induction rule: dev_irq.induct)
    (blast intro: bulk_in_kept int_in_kept dev [OF bulk_out_frame] dev [OF int_out_frame] timer clock overflow)+

lemma step_kept:
  assumes step: "dev_step s t" "P s"
  shows "P t"
  using step
proof (cases rule: dev_step.cases)
  case step_irq then show ?thesis using irq_kept step(2) by blast
next
  case step_send then show ?thesis using frame [OF wl_win_frame [OF drv_tx_frame_psm]] step(2) by blast
next
  case step_80211
  then have "wl_frame s t"
    using create_atim_pkts_frame [of "s\<lparr>create_atims_flag := False\<rparr>" t]
      wl_frame_trans [of s "s\<lparr>create_atims_flag := False\<rparr>" t]
    by (auto simp: ieee80211_op_scheduler_def split: if_splits)
  then show ?thesis using frame [OF wl_win_frame] step(2) by blast
next
  case (step_scheduler f now junk jl)
  have irqs: "P v" if "f u = Some v" "P u" for u v
    using step_scheduler(1) [OF that(1)] that(2) by (induction rule: rtranclp_induct) (auto intro: irq_kept)
  show ?thesis
    using step_scheduler(2) unfolding ar9170_op_scheduler_def Let_def
  proof (elim bind_SomeE)
    fix s1 s3 s5 s7
    assume 1: "ar9170_sch_erase_nodes_check s = Some s1"
      and 3: "ar9170_sch_beacon_ctrl_check (ar9170_sch_powersave_check s1) = Some s3"
      and 5: "ar9170_sch_rx_filter_disable_check f (ar9170_sch_beacon_cancel_check s3) = Some s5"
      and 7: "ar9170_sch_async_tx_check (ar9170_sch_async_cmd_check s5) = Some s7"
      and 8: "ar9170_sch_async_rx_check now junk jl s7 = Some t"
    have "P s1" by (rule frame [OF wl_win_frame [OF erase_check_frame [OF 1]] step(2)])
    then have "P (ar9170_sch_powersave_check s1)" by (rule frame [OF powersave_check_frame])
    then have "P s3" by (rule frame [OF dev_win_frame [OF beacon_ctrl_check_frame [OF 3]]])
    then have "P (ar9170_sch_beacon_cancel_check s3)" by (rule frame [OF dev_win_frame [OF beacon_cancel_check_frame]])
    then have "P s5" using rx_filter_check_cases [OF 5] frame [OF dev_win_frame] irqs by blast
    then have "P (ar9170_sch_async_cmd_check s5)" by (rule frame [OF dev_win_frame [OF async_cmd_check_frame]])
    then have "P s7" by (rule frame [OF wl_win_frame [OF async_tx_check_frame [OF 7]]])
    then show "P t" by (rule frame [OF async_rx_check_frame [OF 8]])
  qed
qed

lemma run_kept: "dev_step\<^sup>*\<^sup>* s t \<Longrightarrow> P s \<Longrightarrow> P t"
  by (induction rule: rtranclp_induct) (auto intro: step_kept)

end

section \<open>The windows and their timer\<close>

text \<open>
  In each window exactly the timer that ends it is pending, and none in the window for data. The state
  of soft beacons is never entered.
\<close>

definition window_ok :: "'a dev_scheme \<Rightarrow> bool" where
  "window_ok s = (case psm_state s of
     PRE_TBTT \<Rightarrow> rt_pending (rt s) \<and> rt_func (rt s) = AtimWindowStart
   | ATIM_WINDOW \<Rightarrow> rt_pending (rt s) \<and> rt_func (rt s) = AtimWindowEnd
   | TX_WINDOW \<Rightarrow> \<not> rt_pending (rt s)
   | SOFT_BCN_WINDOW \<Rightarrow> False)"

definition psm_inv :: "'a dev_scheme \<Rightarrow> bool" where
  "psm_inv s \<longleftrightarrow> window_ok s \<and> queues_typed s"

lemma psm_inv_frame: "win_frame s t \<Longrightarrow> psm_inv s \<Longrightarrow> psm_inv t"
  by (simp add: psm_inv_def window_ok_def win_frame_def split: psm_window.splits)

lemmas psm_inv_dev = psm_inv_frame [OF dev_win_frame]
lemmas psm_inv_wl = psm_inv_frame [OF wl_win_frame]

lemma schedule_fields [simp]:
  "rt_pending (rtimer_arch_schedule t r) = rt_pending r" "rt_func (rtimer_arch_schedule t r) = rt_func r"
  "rt_time (rtimer_arch_schedule t r) = rt_time r" "rt_next_time (rtimer_arch_schedule t r) = t"
  by (simp_all add: rtimer_arch_schedule_def Let_def)

lemma rtimer_set_fields [simp]:
  "rt_pending (rtimer_set t f r)" "rt_func (rtimer_set t f r) = f" "rt_time (rtimer_set t f r) = t"
  by (simp_all add: rtimer_set_def Let_def)

lemma queues_typed_updates [simp]:
  "queues_typed (s\<lparr>rt := r\<rparr>) = queues_typed s" "queues_typed (s\<lparr>psm_state := w\<rparr>) = queues_typed s"
  "queues_typed (s\<lparr>off_override := x\<rparr>) = queues_typed s" "queues_typed (s\<lparr>create_atims_flag := b\<rparr>) = queues_typed s"
  "queues_typed (s\<lparr>erase_awake_nodes_flag := b\<rparr>) = queues_typed s" "queues_typed (s\<lparr>tbtt_counter := c\<rparr>) = queues_typed s"
  by (simp_all add: queues_typed_def queues_bounded_def rx_typed_def)

lemma ps_update_frame: "win_frame s (ar9170_ps_update s)"
  by (simp add: ar9170_ps_update_def ar9170_psm_schedule_powersave_def Let_def)

lemma tbtt_adhoc_inv:
  assumes "psm_inv s"
  shows "psm_inv (tbtt_adhoc now s)"
proof -
  define s1 where "s1 = (if tbtt_counter s = 1 then ar9170_schedule_bcn_ctrl s else s)"
  have f1: "psm_inv s1" using assms psm_inv_dev [of s s1] by (simp add: s1_def ar9170_schedule_bcn_ctrl_def)
  show ?thesis
  proof (cases "conf_ps s1")
    case False
    then have "tbtt_adhoc now s = tbtt_clear_waits s1" by (simp add: tbtt_adhoc_def Let_def s1_def [symmetric])
    then show ?thesis using psm_inv_wl [OF tbtt_clear_waits_frame f1] by simp
  next
    case True
    define s2 where "s2 = (ar9170_psm_schedule_atim_window_start_interrupt now (s1\<lparr>off_override := 0\<rparr>))
      \<lparr>psm_state := PRE_TBTT, create_atims_flag := True, erase_awake_nodes_flag := True\<rparr>"
    have "psm_inv s2" using f1
      by (simp add: s2_def psm_inv_def window_ok_def ar9170_psm_schedule_atim_window_start_interrupt_def set_rtimer_def)
    moreover have "tbtt_adhoc now s = tbtt_clear_waits s2"
      using True by (simp add: tbtt_adhoc_def Let_def s1_def [symmetric] s2_def)
    ultimately show ?thesis using psm_inv_wl [OF tbtt_clear_waits_frame] by simp
  qed
qed

text \<open>The timer interrupt calls what is pending; the callback sees the timer as not pending.\<close>

lemma psm_irq_idle: "\<not> rt_pending (rt s) \<Longrightarrow> psm_irq s = Some (s\<lparr>rt := (rt s)\<lparr>rt_rc := None\<rparr>\<rparr>)"
  by (simp add: psm_irq_def TC1_Handler_def rtimer_run_next_def)

lemma psm_irq_pending:
  assumes "rt_pending (rt s)"
  shows "psm_irq s = map_option (\<lambda>s1. if rt_pending (rt s1) then s1\<lparr>rt := rtimer_arch_schedule (rt_time (rt s1)) (rt s1)\<rparr> else s1)
    (psm_callback (rt_func (rt s)) (s\<lparr>rt := (rt s)\<lparr>rt_rc := None, rt_pending := False\<rparr>\<rparr>))"
  using assms by (simp add: psm_irq_def TC1_Handler_def rtimer_run_next_def map_option_case bind_eq_Some_conv
      split: option.split)

lemma psm_irq_inv:
  assumes "psm_irq s = Some t" "psm_inv s"
  shows "psm_inv t"
proof (cases "rt_pending (rt s)")
  case False
  then show ?thesis using assms by (auto simp: psm_irq_idle psm_inv_def window_ok_def split: psm_window.splits)
next
  case True
  define u where "u = s\<lparr>rt := (rt s)\<lparr>rt_rc := None, rt_pending := False\<rparr>\<rparr>"
  obtain s1 where s1: "psm_callback (rt_func (rt s)) u = Some s1"
    "t = (if rt_pending (rt s1) then s1\<lparr>rt := rtimer_arch_schedule (rt_time (rt s1)) (rt s1)\<rparr> else s1)"
    using assms(1) unfolding psm_irq_pending [OF True] u_def by auto
  have q: "queues_typed u" using assms(2) by (simp add: u_def psm_inv_def)
  have "psm_inv s1"
  proof (cases "psm_state s")
    case PRE_TBTT
    then have f: "rt_func (rt s) = AtimWindowStart" using assms(2) by (simp add: psm_inv_def window_ok_def)
    then have "\<exists>w. s1 = w \<or> s1 = w\<lparr>off_override := off_override w OR PS_OFF_DATA\<rparr>" by blast
    define w where "w = set_rtimer (rtimer_arch_now (rt u)) (uint (atim_window u) - AR9170_ATIM_WINDOW_OFFSET_KUS) AtimWindowEnd
      (u\<lparr>psm_state := ATIM_WINDOW\<rparr>)"
    have "psm_inv w" using q by (simp add: w_def psm_inv_def window_ok_def set_rtimer_def)
    moreover have "s1 = w \<or> s1 = w\<lparr>off_override := off_override w OR PS_OFF_DATA\<rparr>"
      using s1(1) PRE_TBTT unfolding f psm_callback_def psm_cb.case ar9170_psm_atim_window_start_def
      by (auto simp: w_def u_def bind_eq_Some_conv Let_def split: if_splits)
    ultimately show ?thesis using psm_inv_dev [of w] by auto
  next
    case ATIM_WINDOW
    then have f: "rt_func (rt s) = AtimWindowEnd" using assms(2) by (simp add: psm_inv_def window_ok_def)
    have "psm_inv (u\<lparr>psm_state := TX_WINDOW\<rparr>)" using q by (simp add: psm_inv_def window_ok_def u_def)
    moreover have "s1 = ar9170_ps_update (u\<lparr>psm_state := TX_WINDOW\<rparr>)"
      using s1(1) unfolding f by (simp add: psm_callback_def ar9170_psm_atim_window_end_def)
    ultimately show ?thesis using psm_inv_frame [OF ps_update_frame] by simp
  qed (use assms(2) True in \<open>simp_all add: psm_inv_def window_ok_def\<close>)
  then show ?thesis using s1(2) by (auto simp: psm_inv_def window_ok_def split: psm_window.splits)
qed

lemma psm_inv_clock: "psm_inv s \<Longrightarrow> psm_inv (s\<lparr>rt := (rt s)\<lparr>rt_tc := c\<rparr>\<rparr>)"
  by (simp add: psm_inv_def window_ok_def split: psm_window.splits)

lemma psm_inv_overflow: "psm_inv s \<Longrightarrow> psm_inv (s\<lparr>rt := TC0_Handler (rt s)\<rparr>)"
  by (simp add: psm_inv_def window_ok_def TC0_Handler_def Let_def split: psm_window.splits)

lemma psm_inv_pool: "psm_inv s \<Longrightarrow> length (bulk_pool s) \<le> 2048"
  by (simp add: psm_inv_def queues_typed_pool)

interpretation windows: psm_kept psm_inv
proof
  fix s :: "'a dev_scheme" and c
  show "psm_inv s \<Longrightarrow> psm_inv (s\<lparr>rt := rt_event_step (rt s) (RtOverflow c)\<rparr>)"
    using psm_inv_overflow [OF psm_inv_clock] by simp
qed (use psm_inv_frame psm_irq_inv tbtt_adhoc_inv psm_inv_clock psm_inv_pool in auto)

text \<open>The statuses that are awaited: the windows leave them alone.\<close>

lemma one_wait_updates [simp]:
  "one_wait (s\<lparr>rt := r\<rparr>) = one_wait s" "one_wait (s\<lparr>psm_state := w\<rparr>) = one_wait s"
  "one_wait (s\<lparr>off_override := x\<rparr>) = one_wait s" "one_wait (s\<lparr>create_atims_flag := b\<rparr>) = one_wait s"
  "one_wait (s\<lparr>erase_awake_nodes_flag := b\<rparr>) = one_wait s"
  by (simp_all add: one_wait_def)

lemma one_wait_tbtt:
  assumes "one_wait s"
  shows "one_wait (tbtt_adhoc now s)"
proof -
  define s1 where "s1 = (if tbtt_counter s = 1 then ar9170_schedule_bcn_ctrl s else s)"
  have 1: "one_wait s1" using assms by (simp add: s1_def ar9170_schedule_bcn_ctrl_def one_wait_def)
  have c: "one_wait (tbtt_clear_waits u)" if "one_wait u" for u :: "'a dev_scheme"
    using tbtt_clear_waits_frame [of u] that by (simp add: wl_frame_def)
  show ?thesis using 1 c
    by (auto simp: tbtt_adhoc_def Let_def s1_def [symmetric] ar9170_psm_schedule_atim_window_start_interrupt_def set_rtimer_def)
qed

lemma one_wait_irq:
  assumes "psm_irq s = Some t" "psm_inv s" "one_wait s"
  shows "one_wait t"
proof (cases "rt_pending (rt s)")
  case False then show ?thesis using assms by (auto simp: psm_irq_idle)
next
  case True
  obtain s1 where s1: "psm_callback (rt_func (rt s)) (s\<lparr>rt := (rt s)\<lparr>rt_rc := None, rt_pending := False\<rparr>\<rparr>) = Some s1"
    "t = (if rt_pending (rt s1) then s1\<lparr>rt := rtimer_arch_schedule (rt_time (rt s1)) (rt s1)\<rparr> else s1)"
    using assms(1) unfolding psm_irq_pending [OF True] by auto
  have "rt_func (rt s) = AtimWindowStart \<or> rt_func (rt s) = AtimWindowEnd"
    using assms(2) True by (auto simp: psm_inv_def window_ok_def split: psm_window.splits)
  then have "one_wait s1"
  proof
    assume "rt_func (rt s) = AtimWindowStart"
    then show ?thesis using s1(1) assms(3)
      by (auto simp: psm_callback_def ar9170_psm_atim_window_start_def Let_def bind_eq_Some_conv set_rtimer_def split: if_splits)
  next
    assume "rt_func (rt s) = AtimWindowEnd"
    then have "s1 = ar9170_ps_update (s\<lparr>rt := (rt s)\<lparr>rt_rc := None, rt_pending := False\<rparr>, psm_state := TX_WINDOW\<rparr>)"
      using s1(1) by (simp add: psm_callback_def ar9170_psm_atim_window_end_def)
    then show ?thesis using assms(3) ps_update_frame [of "s\<lparr>rt := (rt s)\<lparr>rt_rc := None, rt_pending := False\<rparr>, psm_state := TX_WINDOW\<rparr>"]
      by (simp add: win_frame_def)
  qed
  then show ?thesis using s1(2) by simp
qed

interpretation waits: psm_kept "\<lambda>s. psm_inv s \<and> one_wait s"
proof
  fix s t :: "'a dev_scheme"
  show "win_frame s t \<Longrightarrow> psm_inv s \<and> one_wait s \<Longrightarrow> psm_inv t \<and> one_wait t"
    using psm_inv_frame [of s t] by (auto simp: win_frame_def)
qed (use windows.pool windows.tbtt windows.clock windows.overflow psm_irq_inv one_wait_tbtt one_wait_irq in auto)

text \<open>
  C4. Whatever the device sends, the program does and the clock shows, the window the driver is in and
  the timer belong together: before the ATIM window its start is pending, in it its end, and outside of
  both no timer; the state of soft beacons is never entered. The receive buffer never grows beyond the
  2048 bytes of the largest transfer, and when not both the status of a packet and that of an
  announcement are awaited at the start, they never are.
\<close>

theorem psm_window_timer:
  assumes "dev_step\<^sup>*\<^sup>* s t" "psm_inv s"
  shows "psm_state t \<noteq> SOFT_BCN_WINDOW \<and>
    (rt_pending (rt t) \<longleftrightarrow> psm_state t \<noteq> TX_WINDOW) \<and>
    (psm_state t = PRE_TBTT \<longrightarrow> rt_func (rt t) = AtimWindowStart) \<and>
    (psm_state t = ATIM_WINDOW \<longrightarrow> rt_func (rt t) = AtimWindowEnd) \<and>
    length (bulk_pool t) \<le> 2048 \<and>
    (\<not> (tx_data_wait s \<and> tx_atim_wait s) \<longrightarrow> \<not> (tx_data_wait t \<and> tx_atim_wait t))"
proof -
  have i: "psm_inv t" by (rule windows.run_kept [OF assms])
  have "one_wait s \<Longrightarrow> one_wait t" using waits.run_kept [OF assms(1)] assms(2) by blast
  then show ?thesis using i psm_inv_pool [OF i]
    by (auto simp: psm_inv_def window_ok_def one_wait_def split: psm_window.splits)
qed

text \<open>
  C17. The queues keep their types: at most 16 frames wait for transmission and 16 announcements, at
  most 32 neighbours are known to be awake, and of at most 8 received frames each has 14 to 508 bytes,
  in memory of its own whose size is that length rounded up to whole words.
\<close>

theorem queues_keep_types:
  assumes "dev_step\<^sup>*\<^sup>* s t" "psm_inv s"
  shows "(\<forall>ks. tx_pending_pkts t = PQ ks \<longrightarrow> length ks \<le> 16) \<and> (\<forall>ks. tx_pending_atims t = PQ ks \<longrightarrow> length ks \<le> 16) \<and>
    (\<forall>ns. wake_neighbors t = PQ ns \<longrightarrow> length ns \<le> 32) \<and>
    (\<forall>ks. rx_pending_pkts t = PQ ks \<longrightarrow> length ks \<le> 8 \<and> (\<forall>k \<in> set ks. skb_heap k \<and> 14 \<le> unat (skb_len k) \<and>
       unat (skb_len k) \<le> 508 \<and> (\<exists>d. skb_data k = Some d \<and> length d = 4 * DIV_ROUND_UP (unat (skb_len k)) 4)))"
proof -
  have "psm_inv t" by (rule windows.run_kept [OF assms])
  then show ?thesis
    using queues_boundedD [of t] by (auto simp: psm_inv_def queues_typed_def rx_typed_def rx_ok_def pq_within_def wlan_consts)
qed

lemma tbtt_clear_waits_off: "off_override (tbtt_clear_waits s) = off_override s"
  by (simp add: tbtt_clear_waits_def Let_def)

lemma tbtt_adhoc_window:
  assumes "conf_ps s"
  shows "psm_state (tbtt_adhoc now s) = PRE_TBTT" "off_override (tbtt_adhoc now s) = 0"
    "rt (tbtt_adhoc now s) = rtimer_set (now + 168000) AtimWindowStart (rt s)"
    "conf_ps (tbtt_adhoc now s)" "atim_window (tbtt_adhoc now s) = atim_window s"
proof -
  define s1 where "s1 = (if tbtt_counter s = 1 then ar9170_schedule_bcn_ctrl s else s)"
  define s2 where "s2 = (ar9170_psm_schedule_atim_window_start_interrupt now (s1\<lparr>off_override := 0\<rparr>))
    \<lparr>psm_state := PRE_TBTT, create_atims_flag := True, erase_awake_nodes_flag := True\<rparr>"
  have s1: "rt s1 = rt s" "conf_ps s1" "atim_window s1 = atim_window s" using assms by (simp_all add: s1_def ar9170_schedule_bcn_ctrl_def)
  have e: "tbtt_adhoc now s = tbtt_clear_waits s2" using s1(2) by (simp add: tbtt_adhoc_def Let_def s1_def [symmetric] s2_def)
  have s2: "psm_state s2 = PRE_TBTT" "rt s2 = rtimer_set (now + 168000) AtimWindowStart (rt s)" "conf_ps s2" "off_override s2 = 0"
    "atim_window s2 = atim_window s"
    using s1 by (simp_all add: s2_def ar9170_psm_schedule_atim_window_start_interrupt_def set_rtimer_def RTIMER_MILLISECOND_def
      AR9170_PRETBTT_KUS_def AR9170_ATIM_WINDOW_OFFSET_KUS_def)
  have f: "win_frame s2 (tbtt_clear_waits s2)" by (rule wl_win_frame [OF tbtt_clear_waits_frame])
  have w: "atim_window (tbtt_clear_waits s2) = atim_window s2" by (simp add: tbtt_clear_waits_def Let_def)
  show "psm_state (tbtt_adhoc now s) = PRE_TBTT" "off_override (tbtt_adhoc now s) = 0"
    "rt (tbtt_adhoc now s) = rtimer_set (now + 168000) AtimWindowStart (rt s)"
    "conf_ps (tbtt_adhoc now s)" "atim_window (tbtt_adhoc now s) = atim_window s"
    using f w s2 by (simp_all add: e tbtt_clear_waits_off win_frame_def)
qed

text \<open>A run: the interrupt before the beacon.\<close>

definition pretbtt_rsp :: "u8 list" where "pretbtt_rsp = [4, 0xc0, 0, 0, 1, 0, 0, 0]"

definition dev_idle :: dev where
  "dev_idle = dev0\<lparr>psm_state := TX_WINDOW, conf_ps := True, bulk_pool := replicate 16 0\<rparr>"

lemma dev_idle_fields:
  "psm_state dev_idle = TX_WINDOW" "conf_ps dev_idle" "main_vif dev_idle = Some NL80211_IFTYPE_ADHOC"
  "rt dev_idle = \<lparr>rt_msb = 0, rt_tc = 0, rt_next_time = 0, rt_rc = None, rt_func = AtimWindowStart, rt_time = 0, rt_pending = False\<rparr>"
  "mallocs dev_idle = []" "cmd_seq dev_idle = -1" "fw_cmd_bufs dev_idle = 4" "atim_window dev_idle = 20"
  "ps_state dev_idle = False"
  by (simp_all add: dev_idle_def dev0_def inode0_def dev.defs inode.defs wlan.defs wlan0_def)

lemma psm_inv_dev_idle: "psm_inv dev_idle"
  by (simp add: psm_inv_def window_ok_def dev_idle_fields queues_typed_def queues_bounded_def rx_typed_def)
    (simp add: dev_idle_def dev0_def inode0_def dev.defs inode.defs wlan.defs wlan0_def wlan_consts BULK_ENDPOINT_MAX_SIZE_def)

lemma dev_idle_pretbtt:
  "ar9170_interrupt_in_transfer_done UHD_TRANS_NOERROR pretbtt_rsp 8 dev_idle =
    Some (tbtt_adhoc 0 (dev_idle\<lparr>cmd_seq := 1, tbtt_counter := tbtt_counter dev_idle + 1\<rparr>))"
proof -
  have "ar9170_check_sequence 0 dev_idle = (False, dev_idle\<lparr>cmd_seq := 1\<rparr>)"
    by (simp add: ar9170_check_sequence_def dev_idle_fields Let_def)
  moreover have "le32_of [1, 0, 0, 0] = 1" by (simp add: le32_of_def)
  ultimately show ?thesis
    by (simp add: ar9170_interrupt_in_transfer_done_def smalloc_def dev_idle_fields ar9170_handle_command_response_def
        pretbtt_rsp_def AR9170_CMD_HDR_LEN_def rsp_pretbtt_def rtimer_arch_now_def read_at_def Let_def)
qed

theorem psm_window_timer_witness:
  "\<exists>t. dev_step\<^sup>*\<^sup>* dev_idle t \<and> psm_state t = PRE_TBTT \<and> rt_pending (rt t) \<and> rt_func (rt t) = AtimWindowStart \<and>
     \<not> (tx_data_wait t \<and> tx_atim_wait t)"
proof -
  define t where "t = tbtt_adhoc 0 (dev_idle\<lparr>cmd_seq := 1, tbtt_counter := tbtt_counter dev_idle + 1\<rparr>)"
  have run: "dev_step\<^sup>*\<^sup>* dev_idle t"
    using step_irq [OF irq_int_in [OF dev_idle_pretbtt]] by (simp add: t_def)
  have "psm_state t = PRE_TBTT" unfolding t_def by (rule tbtt_adhoc_window) (simp add: dev_idle_fields)
  moreover have "\<not> (tx_data_wait dev_idle \<and> tx_atim_wait dev_idle)"
    by (simp add: dev_idle_def dev0_def inode0_def dev.defs inode.defs wlan.defs wlan0_def)
  ultimately show ?thesis using psm_window_timer [OF run psm_inv_dev_idle] run by auto
qed

theorem queues_keep_types_witness:
  "\<exists>t. dev_step\<^sup>*\<^sup>* dev_idle t \<and> psm_state t = PRE_TBTT \<and> (\<forall>ks. rx_pending_pkts t = PQ ks \<longrightarrow> length ks \<le> 8)"
proof -
  define t where "t = tbtt_adhoc 0 (dev_idle\<lparr>cmd_seq := 1, tbtt_counter := tbtt_counter dev_idle + 1\<rparr>)"
  have run: "dev_step\<^sup>*\<^sup>* dev_idle t"
    using step_irq [OF irq_int_in [OF dev_idle_pretbtt]] by (simp add: t_def)
  have "psm_state t = PRE_TBTT" unfolding t_def by (rule tbtt_adhoc_window) (simp add: dev_idle_fields)
  then show ?thesis using queues_keep_types [OF run psm_inv_dev_idle] run by auto
qed

end
