(* ===== verification/PsmTime.thy ===== *)
theory PsmTime
  imports PsmInv
begin

text \<open>
  Power saving over time: the course of a beacon interval, what happens when the ATIM window is too
  short, and when the scheduler hands frames to the device.
\<close>

section \<open>The course of a beacon interval\<close>

definition clock_at :: "u64 \<Rightarrow> 'a dev_scheme \<Rightarrow> 'a dev_scheme" where
  "clock_at n s = s\<lparr>rt := (rt s)\<lparr>rt_msb := drop_bit 32 n, rt_tc := ucast n\<rparr>\<rparr>"

lemma now_clock_at [simp]: "rtimer_arch_now ((rt s)\<lparr>rt_msb := drop_bit 32 n, rt_tc := ucast n\<rparr>) = n"
  unfolding rtimer_arch_now_def by (rule bit_word_eqI) (auto simp: bit_simps)

text \<open>The ticks from the start of the ATIM window to its end.\<close>

definition atim_ticks :: "u16 \<Rightarrow> u64" where
  "atim_ticks w = of_int (10500 * (uint w - 8))"

lemma atim_ticks_small:
  assumes "8 \<le> w"
  shows "atim_ticks w < 0x100000000"
proof -
  have w: "8 \<le> uint w" using assms by (simp add: word_le_def)
  have "uint w < 2 ^ LENGTH(16)" by (rule uint_bounded)
  then have w2: "uint w < 65536" by simp
  have "uint (word_of_int (10500 * (uint w - 8)) :: u64) = 10500 * (uint w - 8)"
    using w w2 by (simp only: uint_word_of_int_eq) (simp add: take_bit_int_eq_self)
  then show ?thesis using w2 by (simp add: atim_ticks_def word_less_def)
qed

lemma irq_atim_start:
  assumes "psm_state s = PRE_TBTT" "rt_pending (rt s)" "rt_func (rt s) = AtimWindowStart" "tx_pending_pkts s \<noteq> PQFreed"
  shows "\<exists>t. psm_irq s = Some t \<and> psm_state t = ATIM_WINDOW \<and> conf_ps t = conf_ps s \<and> main_vif t = main_vif s \<and>
    rt t = rtimer_arch_schedule (rtimer_arch_now (rt s) + atim_ticks (atim_window s))
      (rtimer_set (rtimer_arch_now (rt s) + atim_ticks (atim_window s)) AtimWindowEnd ((rt s)\<lparr>rt_rc := None, rt_pending := False\<rparr>)) \<and>
    off_override t = (if tx_pending_pkts s = PQNull \<or> tx_pending_pkts s = PQ [] then off_override s
      else off_override s OR PS_OFF_DATA)"
proof -
  define u where "u = s\<lparr>rt := (rt s)\<lparr>rt_rc := None, rt_pending := False\<rparr>\<rparr>"
  define time where "time = rtimer_arch_now (rt s) + atim_ticks (atim_window s)"
  define w where "w = u\<lparr>psm_state := ATIM_WINDOW, rt := rtimer_set time AtimWindowEnd (rt u)\<rparr>"
  obtain e where e: "pq_is_empty (tx_pending_pkts s) = Some e" "e \<longleftrightarrow> tx_pending_pkts s = PQNull \<or> tx_pending_pkts s = PQ []"
    using assms(4) by (cases "tx_pending_pkts s") (auto simp: pq_is_empty_def)
  have "psm_callback AtimWindowStart u = Some (if \<not> e then w\<lparr>off_override := off_override w OR PS_OFF_DATA\<rparr> else w)"
    using assms(1) e(1) by (simp add: psm_callback_def ar9170_psm_atim_window_start_def set_rtimer_def u_def w_def time_def
        atim_ticks_def RTIMER_MILLISECOND_def AR9170_ATIM_WINDOW_OFFSET_KUS_def Let_def)
  then have "psm_irq s = Some (if \<not> e then w\<lparr>off_override := off_override w OR PS_OFF_DATA, rt := rtimer_arch_schedule time (rt w)\<rparr>
      else w\<lparr>rt := rtimer_arch_schedule time (rt w)\<rparr>)"
    unfolding psm_irq_pending [OF assms(2)] assms(3) u_def [symmetric] by (simp add: w_def)
  then show ?thesis using e(2) by (auto simp: w_def u_def time_def)
qed

lemma irq_atim_end:
  assumes "rt_pending (rt s)" "rt_func (rt s) = AtimWindowEnd"
  shows "psm_irq s = Some (ar9170_ps_update (s\<lparr>rt := (rt s)\<lparr>rt_rc := None, rt_pending := False\<rparr>, psm_state := TX_WINDOW\<rparr>))"
proof -
  define w where "w = s\<lparr>rt := (rt s)\<lparr>rt_rc := None, rt_pending := False\<rparr>, psm_state := TX_WINDOW\<rparr>"
  have "\<not> rt_pending (rt (ar9170_ps_update w))" using ps_update_frame [of w] by (simp add: win_frame_def w_def)
  then show ?thesis unfolding psm_irq_pending [OF assms(1)] assms(2)
    by (simp add: psm_callback_def ar9170_psm_atim_window_end_def w_def)
qed

text \<open>
  C5. A beacon interval in power saving takes its course, whatever happens in between that leaves the
  timer alone: the interrupt before the beacon arms the timer for 16 ms; when it fires the ATIM window
  begins, and data that waits keeps the device awake; the timer is armed for the length of the window
  less 8 ms; when it fires the window for data begins, and the device is told to sleep exactly when
  nothing keeps it awake.
\<close>

theorem psm_interval:
  assumes s: "psm_state s = TX_WINDOW" "\<not> rt_pending (rt s)" "main_vif s = Some NL80211_IFTYPE_ADHOC" "conf_ps s"
    and pre: "rsp_pretbtt (rtimer_arch_now (rt s)) received s = Some s1"
  shows "psm_state s1 = PRE_TBTT \<and> off_override s1 = 0 \<and> rt_rc (rt s1) = Some 168000 \<and>
    (\<forall>a. win_frame s1 a \<and> 8 \<le> atim_window a \<and> tx_pending_pkts a \<noteq> PQFreed \<longrightarrow>
      (\<exists>b. psm_irq (clock_at (rtimer_arch_now (rt s) + 168000) a) = Some b \<and> psm_state b = ATIM_WINDOW \<and>
        rt_rc (rt b) = Some (ucast (atim_ticks (atim_window a))) \<and>
        (tx_pending_pkts a \<noteq> PQNull \<and> tx_pending_pkts a \<noteq> PQ [] \<longrightarrow> off_override b = off_override a OR PS_OFF_DATA) \<and>
        (\<forall>c now. win_frame b c \<longrightarrow> (\<exists>d. psm_irq (clock_at now c) = Some d \<and> psm_state d = TX_WINDOW \<and> \<not> rt_pending (rt d) \<and>
          (\<not> ps_state c \<and> \<not> psm_transit_to_sleep c \<longrightarrow> (psm_transit_to_sleep d \<longleftrightarrow> off_override c = 0)) \<and>
          (ps_state c \<and> \<not> psm_transit_to_wake c \<longrightarrow> (psm_transit_to_wake d \<longleftrightarrow> off_override c \<noteq> 0))))))"
proof -
  define now where "now = rtimer_arch_now (rt s)"
  define u where "u = (if received = 0 then s\<lparr>tbtt_counter := tbtt_counter s + 1, ps_state := False\<rparr>
    else s\<lparr>tbtt_counter := tbtt_counter s + 1\<rparr>)"
  have u: "rt u = rt s" "conf_ps u" "main_vif u = Some NL80211_IFTYPE_ADHOC" using s(3,4) by (simp_all add: u_def)
  have s1: "s1 = tbtt_adhoc now u" using pre u(3) by (simp add: rsp_pretbtt_def Let_def u_def now_def split: if_splits)
  note w1 = tbtt_adhoc_window [OF u(2), of now, folded s1, unfolded u(1)]
  have arm: "rt s1 = (rt s)\<lparr>rt_func := AtimWindowStart, rt_time := now + 168000, rt_pending := True,
      rt_next_time := now + 168000, rt_rc := Some 168000\<rparr>"
    using rtimer_set_arms [OF s(2), of 168000 AtimWindowStart] w1(3) by (simp add: now_def)
  have part2: "\<exists>b. psm_irq (clock_at (now + 168000) a) = Some b \<and> psm_state b = ATIM_WINDOW \<and>
        rt_rc (rt b) = Some (ucast (atim_ticks (atim_window a))) \<and>
        (tx_pending_pkts a \<noteq> PQNull \<and> tx_pending_pkts a \<noteq> PQ [] \<longrightarrow> off_override b = off_override a OR PS_OFF_DATA) \<and>
        rt_pending (rt b) \<and> rt_func (rt b) = AtimWindowEnd \<and> conf_ps b"
    if a: "win_frame s1 a" "8 \<le> atim_window a" "tx_pending_pkts a \<noteq> PQFreed" for a
  proof -
    define a' where "a' = clock_at (now + 168000) a"
    have a': "psm_state a' = PRE_TBTT" "rt_pending (rt a')" "rt_func (rt a') = AtimWindowStart" "tx_pending_pkts a' \<noteq> PQFreed"
      "atim_window a' = atim_window a" "conf_ps a'" "off_override a' = off_override a" "tx_pending_pkts a' = tx_pending_pkts a"
      using a(1,3) w1(1,4) arm by (simp_all add: win_frame_def a'_def clock_at_def)
    have na: "rtimer_arch_now (rt a') = now + 168000" by (simp add: a'_def clock_at_def)
    obtain b where b: "psm_irq a' = Some b" "psm_state b = ATIM_WINDOW" "conf_ps b = conf_ps a'"
      "rt b = rtimer_arch_schedule (now + 168000 + atim_ticks (atim_window a))
        (rtimer_set (now + 168000 + atim_ticks (atim_window a)) AtimWindowEnd ((rt a')\<lparr>rt_rc := None, rt_pending := False\<rparr>))"
      "off_override b = (if tx_pending_pkts a' = PQNull \<or> tx_pending_pkts a' = PQ [] then off_override a' else off_override a' OR PS_OFF_DATA)"
      using irq_atim_start [OF a'(1-4)] unfolding a'(5) na by blast
    define r where "r = (rt a')\<lparr>rt_rc := None, rt_pending := False\<rparr>"
    have nr: "rtimer_arch_now r = now + 168000" using na by (simp add: r_def)
    have "rtimer_set (now + 168000 + atim_ticks (atim_window a)) AtimWindowEnd r = r\<lparr>rt_func := AtimWindowEnd,
        rt_time := now + 168000 + atim_ticks (atim_window a), rt_pending := True,
        rt_next_time := now + 168000 + atim_ticks (atim_window a), rt_rc := Some (ucast (atim_ticks (atim_window a)))\<rparr>"
      using rtimer_set_arms [of r "atim_ticks (atim_window a)" AtimWindowEnd] atim_ticks_small [OF a(2)] unfolding nr by (simp add: r_def)
    then have "rt_rc (rt b) = Some (ucast (atim_ticks (atim_window a)))"
      using nr atim_ticks_small [OF a(2)] unfolding b(4) r_def [symmetric]
      by (simp add: rtimer_arch_schedule_def Let_def less_imp_le)
    moreover have "rt_pending (rt b)" "rt_func (rt b) = AtimWindowEnd" unfolding b(4) by simp_all
    ultimately show ?thesis using b(1,2,3,5) a'(6,7,8) unfolding a'_def [symmetric] by auto
  qed
  have part3: "\<exists>d. psm_irq (clock_at n c) = Some d \<and> psm_state d = TX_WINDOW \<and> \<not> rt_pending (rt d) \<and>
      (\<not> ps_state c \<and> \<not> psm_transit_to_sleep c \<longrightarrow> (psm_transit_to_sleep d \<longleftrightarrow> off_override c = 0)) \<and>
      (ps_state c \<and> \<not> psm_transit_to_wake c \<longrightarrow> (psm_transit_to_wake d \<longleftrightarrow> off_override c \<noteq> 0))"
    if c: "win_frame b c" "rt_pending (rt b)" "rt_func (rt b) = AtimWindowEnd" "conf_ps b" for b c n
  proof -
    define v where "v = (clock_at n c)\<lparr>rt := (rt (clock_at n c))\<lparr>rt_rc := None, rt_pending := False\<rparr>, psm_state := TX_WINDOW\<rparr>"
    have irq: "psm_irq (clock_at n c) = Some (ar9170_ps_update v)"
      unfolding v_def by (rule irq_atim_end) (use c(1-3) in \<open>simp_all add: win_frame_def clock_at_def\<close>)
    have v: "psm_state v = TX_WINDOW" "\<not> rt_pending (rt v)" "off_override v = off_override c" "conf_ps v" "ps_state v = ps_state c"
      "psm_transit_to_sleep v = psm_transit_to_sleep c" "psm_transit_to_wake v = psm_transit_to_wake c"
      using c(1,4) by (simp_all add: v_def clock_at_def win_frame_def)
    show ?thesis
      using v ps_update_frame [of v] unfolding irq
      by (auto simp: win_frame_def ar9170_ps_update_def ar9170_psm_schedule_powersave_def Let_def)
  qed
  have rc: "rt_rc (rt s1) = Some 168000" by (simp add: arm)
  show ?thesis
    unfolding now_def [symmetric]
  proof (intro conjI allI impI; (elim conjE)?)
    fix a assume a: "win_frame s1 a" "8 \<le> atim_window a" "tx_pending_pkts a \<noteq> PQFreed"
    from part2 [OF a] part3 show "\<exists>b. psm_irq (clock_at (now + 168000) a) = Some b \<and> psm_state b = ATIM_WINDOW \<and>
        rt_rc (rt b) = Some (ucast (atim_ticks (atim_window a))) \<and>
        (tx_pending_pkts a \<noteq> PQNull \<and> tx_pending_pkts a \<noteq> PQ [] \<longrightarrow> off_override b = off_override a OR PS_OFF_DATA) \<and>
        (\<forall>c now. win_frame b c \<longrightarrow> (\<exists>d. psm_irq (clock_at now c) = Some d \<and> psm_state d = TX_WINDOW \<and> \<not> rt_pending (rt d) \<and>
          (\<not> ps_state c \<and> \<not> psm_transit_to_sleep c \<longrightarrow> (psm_transit_to_sleep d \<longleftrightarrow> off_override c = 0)) \<and>
          (ps_state c \<and> \<not> psm_transit_to_wake c \<longrightarrow> (psm_transit_to_wake d \<longleftrightarrow> off_override c \<noteq> 0))))"
      by blast
  qed (use w1(1,2) rc in simp_all)
qed

definition dev_before :: dev where
  "dev_before = dev_idle\<lparr>tbtt_counter := 7\<rparr>"

theorem psm_interval_witness:
  "\<exists>s1 b d. rsp_pretbtt 0 1 dev_before = Some s1 \<and> psm_irq (clock_at 168000 s1) = Some b \<and> psm_state b = ATIM_WINDOW \<and>
     rt_rc (rt b) = Some 126000 \<and> psm_irq (clock_at 294000 b) = Some d \<and> psm_state d = TX_WINDOW"
proof -
  have s: "psm_state dev_before = TX_WINDOW" "\<not> rt_pending (rt dev_before)" "main_vif dev_before = Some NL80211_IFTYPE_ADHOC"
    "conf_ps dev_before" and now: "rtimer_arch_now (rt dev_before) = 0" and w: "atim_window dev_before = 20"
    and q: "tx_pending_pkts dev_before = PQ []"
    by (simp_all add: dev_before_def dev_idle_fields rtimer_arch_now_def)
      (simp add: dev_idle_def dev0_def inode0_def dev.defs inode.defs wlan.defs wlan0_def)
  define u where "u = dev_before\<lparr>tbtt_counter := tbtt_counter dev_before + 1\<rparr>"
  define s1 where "s1 = tbtt_adhoc 0 u"
  have pre: "rsp_pretbtt 0 1 dev_before = Some s1" using s(3) by (simp add: rsp_pretbtt_def Let_def s1_def u_def)
  have u: "conf_ps u" "atim_window u = 20" "tx_pending_pkts u = PQ []" "rt u = rt dev_before" using s(4) w q by (simp_all add: u_def)
  have aw: "atim_window s1 = 20" using tbtt_adhoc_window(5) [OF u(1)] u(2) by (simp add: s1_def)
  have tq: "tx_pending_pkts s1 = PQ []"
    using u(3) by (simp add: s1_def tbtt_adhoc_def tbtt_clear_waits_def Let_def ar9170_schedule_bcn_ctrl_def
        ar9170_psm_schedule_atim_window_start_interrupt_def set_rtimer_def)
  have t: "atim_ticks 20 = 126000" by (simp add: atim_ticks_def)
  have "win_frame s1 s1 \<and> 8 \<le> atim_window s1 \<and> tx_pending_pkts s1 \<noteq> PQFreed" using aw tq by simp
  from psm_interval [OF s, unfolded now, OF pre, THEN conjunct2, THEN conjunct2, THEN conjunct2, rule_format, OF this, unfolded add_0 aw t]
  obtain b where b: "psm_irq (clock_at 168000 s1) = Some b" "psm_state b = ATIM_WINDOW"
    "rt_rc (rt b) = Some (ucast (126000 :: u64))" "\<forall>c now. win_frame b c \<longrightarrow> (\<exists>d. psm_irq (clock_at now c) = Some d \<and> psm_state d = TX_WINDOW)"
    by blast
  have "rt_rc (rt b) = Some 126000" using b(3) by simp
  then show ?thesis using pre b(1,2,4) win_frame_refl by blast
qed

section \<open>An ATIM window that is too short\<close>













section \<open>When the scheduler hands frames to the device\<close>

lemma async_tx_handed:
  assumes "ar9170_async_tx i s = Some t" "usb_out t \<noteq> usb_out s"
  shows "\<exists>k rest d. get_queue i s = PQ (k # rest) \<and> get_queue i t = PQ rest \<and> usb_out t = usb_out s @ [d] \<and>
    \<not> ps_state s \<and> \<not> tx_async_lock s \<and> tx_async_lock t \<and> tx_data_wait t = tx_data_wait s \<and> tx_atim_wait t = tx_atim_wait s"
  using assms(1)
proof (cases rule: async_tx_cases)
  case (sent k rest skb1 r k' s1)
  have q: "usb_quiet s1 t" using sent(7) by simp
  have u: "usb_part s s1" using op_tx_usb [OF sent(6)] by blast
  then have e: "usb_erase s1 = usb_erase s" by (simp add: usb_part_def)
  have "tx_data_wait s1 = tx_data_wait s" "tx_atim_wait s1 = tx_atim_wait s"
    using arg_cong [OF e, of tx_data_wait] arg_cong [OF e, of tx_atim_wait] by (simp_all add: usb_erase_def)
  then have w: "tx_data_wait t = tx_data_wait s" "tx_atim_wait t = tx_atim_wait s"
    using sent(7) by (simp_all add: set_queue_def split: queue_id.split)
  obtain d where "usb_out s1 = usb_out s @ [d]" "tx_async_lock s1" using op_tx_usb [OF sent(6)] q assms(2) by (auto simp: usb_quiet_def)
  then show ?thesis using q w sent by (auto simp: usb_quiet_def)
qed (use assms in simp_all)

lemma first_index_Some:
  "first_index P xs = Some (Some i) \<Longrightarrow> i < length xs \<and> P (xs ! i) = Some True"
  by (induction xs arbitrary: i) (auto simp: bind_eq_Some_conv split: if_splits)

lemma first_pkt_found:
  assumes "ieee80211_psm_can_send_first_pkt s = Some (q, s1)"
  shows "usb_out s1 = usb_out s \<and> tx_async_lock s1 = tx_async_lock s \<and> ps_state s1 = ps_state s \<and>
    (q \<noteq> PQNull \<longrightarrow> (\<exists>ps i. tx_pending_pkts s = PQ ps \<and> i < length ps \<and> ieee80211_psm_is_DA_awake (ps ! i) s = Some True \<and>
       q = PQ (ps ! i # take i ps @ drop (Suc i) ps)))"
proof (cases "tx_pending_pkts s")
  case (PQ ps)
  show ?thesis
  proof (cases "ps = []")
    case True then show ?thesis using assms PQ by (simp add: ieee80211_psm_can_send_first_pkt_def)
  next
    case False
    obtain found where found: "first_index (\<lambda>p. ieee80211_psm_is_DA_awake p s) ps = Some found"
      using assms PQ False by (auto simp: ieee80211_psm_can_send_first_pkt_def bind_eq_Some_conv)
    show ?thesis
    proof (cases found)
      case None then show ?thesis using assms PQ False found by (simp add: ieee80211_psm_can_send_first_pkt_def)
    next
      case (Some i)
      note i = first_index_Some [OF found [unfolded Some]]
      obtain ok s2 where m: "smalloc s = (ok, s2)" by force
      from smalloc_usb [OF m] have p: "ps_state s2 = ps_state s" "usb_quiet s s2" using usb_part_fields(5) by blast+
      show ?thesis
      proof (cases "i = 0")
        case True
        then have "q = PQ ps" "s1 = s" using assms PQ False found Some by (simp_all add: ieee80211_psm_can_send_first_pkt_def)
        then show ?thesis using PQ i True by (intro conjI impI exI [of _ ps] exI [of _ i]) (simp_all add: Cons_nth_drop_Suc)
      next
        case ne: False
        then have "q = (if ok then PQ (ps ! i # take i ps @ drop (Suc i) ps) else PQNull)"
          "s1 = s2\<lparr>tx_pending_pkts := PQ (take i ps @ drop (Suc i) ps)\<rparr>"
          using assms PQ False found Some m i
          by (simp_all add: ieee80211_psm_can_send_first_pkt_def pq_move_to_front_def Let_def)
        then show ?thesis using PQ i p by (auto simp: usb_quiet_def)
      qed
    qed
  qed
qed (use assms in \<open>simp_all add: ieee80211_psm_can_send_first_pkt_def\<close>)

lemma async_tx_data_sends:
  assumes "ar9170_psm_async_tx_data s = Some t" "usb_out t \<noteq> usb_out s"
  shows "\<exists>ps i d. tx_pending_pkts s = PQ ps \<and> i < length ps \<and> ieee80211_psm_is_DA_awake (ps ! i) s = Some True \<and>
    tx_pending_pkts t = PQ (take i ps @ drop (Suc i) ps) \<and> usb_out t = usb_out s @ [d] \<and> tx_data_wait t \<and>
    \<not> ps_state s \<and> \<not> tx_async_lock s \<and> tx_async_lock t"
proof -
  have w: "psm_state s = TX_WINDOW" "\<not> (tx_data_wait s \<or> tx_atim_wait s)"
    using assms unfolding ar9170_psm_async_tx_data_def by (auto elim: if_eqE)
  have b: "do {
      (queue, s1) \<leftarrow> ieee80211_psm_can_send_first_pkt s;
      if queue \<noteq> PQNull then ar9170_async_tx DataQ (s1\<lparr>tx_data_wait := True, tx_pending_pkts := queue\<rparr>) else Some s1
    } = Some t"
    using assms(1) unfolding ar9170_psm_async_tx_data_def if_P [OF w(1)] if_not_P [OF w(2)] .
  then obtain q s1 where f1: "ieee80211_psm_can_send_first_pkt s = Some (q, s1)"
    and c: "(if q \<noteq> PQNull then ar9170_async_tx DataQ (s1\<lparr>tx_data_wait := True, tx_pending_pkts := q\<rparr>) else Some s1) = Some t"
    by (auto elim!: bind_SomeE)
  have "q \<noteq> PQNull" using c first_pkt_found [OF f1] assms(2) by auto
  then have f: "ieee80211_psm_can_send_first_pkt s = Some (q, s1)" "q \<noteq> PQNull"
    and tx: "ar9170_async_tx DataQ (s1\<lparr>tx_data_wait := True, tx_pending_pkts := q\<rparr>) = Some t" using f1 c by simp_all
  note q = first_pkt_found [OF f(1)]
  then obtain ps i where ps: "tx_pending_pkts s = PQ ps" "i < length ps" "ieee80211_psm_is_DA_awake (ps ! i) s = Some True"
    "q = PQ (ps ! i # take i ps @ drop (Suc i) ps)" using f(2) by blast
  from async_tx_handed [OF tx] assms(2) q obtain d where "get_queue DataQ t = PQ (take i ps @ drop (Suc i) ps)"
    "usb_out t = usb_out s @ [d]" "\<not> ps_state s" "\<not> tx_async_lock s" "tx_async_lock t" "tx_data_wait t"
    by (auto simp: get_queue_def ps(4))
  then show ?thesis using ps(1-3) by (intro exI [of _ ps] exI [of _ i] exI [of _ d]) (simp add: get_queue_def)
qed

lemma first_atim_found:
  assumes "ieee80211_psm_can_send_first_atim s = Some (q, s1)"
  shows "usb_out s1 = usb_out s \<and> tx_async_lock s1 = tx_async_lock s \<and> ps_state s1 = ps_state s \<and>
    (q \<noteq> PQNull \<longrightarrow> (\<exists>ps i. tx_pending_atims s = PQ ps \<and> i < length ps \<and>
       ieee80211_psm_is_DA_awake (ps ! i) s = Some False \<and> q = PQ (drop i ps)))"
proof (cases "tx_pending_atims s")
  case (PQ ps)
  show ?thesis
  proof (cases "ps = []")
    case True then show ?thesis using assms PQ by (simp add: ieee80211_psm_can_send_first_atim_def)
  next
    case False
    obtain found where found: "first_index (\<lambda>p. map_option Not (ieee80211_psm_is_DA_awake p s)) ps = Some found"
      using assms PQ False by (auto simp: ieee80211_psm_can_send_first_atim_def bind_eq_Some_conv)
    show ?thesis
    proof (cases found)
      case None
      then show ?thesis using assms PQ False found by (auto simp: ieee80211_psm_can_send_first_atim_def bind_eq_Some_conv)
    next
      case (Some i)
      then have "(if list_ex (\<lambda>p. skb_data p \<noteq> None \<and> \<not> skb_heap p) (take i ps) then None
          else Some (PQ (drop i ps), if i = 0 then s else s\<lparr>tx_pending_atims := PQFreed\<rparr>)) = Some (q, s1)"
        using assms PQ False found by (simp add: ieee80211_psm_can_send_first_atim_def split del: if_split)
      then have "q = PQ (drop i ps)" "s1 = (if i = 0 then s else s\<lparr>tx_pending_atims := PQFreed\<rparr>)"
        by (auto elim: if_eqE)
      then show ?thesis using first_index_Some [OF found [unfolded Some]] PQ
        by (intro conjI impI exI [of _ ps] exI [of _ i]) auto
    qed
  qed
qed (use assms in \<open>simp_all add: ieee80211_psm_can_send_first_atim_def\<close>)

lemma async_tx_mgmt_sends:
  assumes "ar9170_psm_async_tx_mgmt s = Some t" "usb_out t \<noteq> usb_out s"
  shows "\<exists>ps i d. tx_pending_atims s = PQ ps \<and> i < length ps \<and> ieee80211_psm_is_DA_awake (ps ! i) s = Some False \<and>
    tx_pending_atims t = PQ (drop (Suc i) ps) \<and> usb_out t = usb_out s @ [d] \<and> tx_atim_wait t \<and>
    \<not> ps_state s \<and> \<not> tx_async_lock s \<and> tx_async_lock t"
proof -
  obtain q s1 where f: "ieee80211_psm_can_send_first_atim s = Some (q, s1)"
    using assms(1) unfolding ar9170_psm_async_tx_mgmt_def by (auto elim: bind_SomeE)
  note quiet = first_atim_found [OF f]
  have ne: "q \<noteq> PQNull" using assms quiet f by (auto simp: ar9170_psm_async_tx_mgmt_def)
  then obtain ps i where ps: "tx_pending_atims s = PQ ps" and l: "i < length ps" "ieee80211_psm_is_DA_awake (ps ! i) s = Some False"
    and i: "q = PQ (drop i ps)" using quiet by blast
  define s2 where "s2 = s1\<lparr>tx_pending_atims := q\<rparr>"
  have b: "(if tx_data_wait s2 \<or> tx_atim_wait s2 then Some s2
       else do {
         first \<leftarrow> pq_get q;
         atim \<leftarrow> first;
         da \<leftarrow> addr1 atim;
         a3 \<leftarrow> (if ps_mode s2 = IBSS_MH_PSM then addr3 atim else Some (last_ATIM_A3 s2));
         s3 \<leftarrow> ar9170_async_tx AtimQ (s2\<lparr>tx_atim_wait := True, last_ATIM_DA := da, last_ATIM_A3 := a3\<rparr>);
         Some (s3\<lparr>off_override := off_override s3 OR PS_OFF_ATIM\<rparr>)
       }) = Some t"
    using assms(1) unfolding ar9170_psm_async_tx_mgmt_def f Option.bind.bind_lunit prod.case if_P [OF ne] Let_def s2_def .
  obtain da a3 s3 where tx: "ar9170_async_tx AtimQ (s2\<lparr>tx_atim_wait := True, last_ATIM_DA := da, last_ATIM_A3 := a3\<rparr>) = Some s3"
    and t: "t = s3\<lparr>off_override := off_override s3 OR PS_OFF_ATIM\<rparr>"
  proof -
    have us: "usb_out s2 = usb_out s" using quiet by (simp add: s2_def)
    show thesis
    proof (cases "tx_data_wait s2 \<or> tx_atim_wait s2")
      case True then show thesis using b us assms(2) by simp
    next
      case False
      show thesis using b unfolding if_not_P [OF False] by (elim bind_SomeE) (metis that option.inject)
    qed
  qed
  obtain d where r: "usb_out s3 = usb_out s @ [d]" "get_queue AtimQ s3 = PQ (drop (Suc i) ps)" "tx_atim_wait s3"
      "\<not> ps_state s" "\<not> tx_async_lock s" "tx_async_lock s3"
  proof -
    obtain k rest d where r: "drop i ps = k # rest" "tx_pending_atims s3 = PQ rest" "usb_out s3 = usb_out s1 @ [d]"
        "tx_atim_wait s3" "\<not> ps_state s1" "\<not> tx_async_lock s1" "tx_async_lock s3"
      using async_tx_handed [OF tx] assms(2) conjunct1 [OF quiet] by (auto simp: t s2_def i get_queue_def)
    have "rest = drop (Suc i) ps" using arg_cong [OF r(1), of tl] by (simp add: drop_Suc tl_drop)
    then show thesis using r that quiet by (simp add: get_queue_def)
  qed
  show ?thesis using r l ps by (intro exI [of _ ps] exI [of _ i] exI [of _ d]) (simp add: t get_queue_def)
qed

text \<open>
  C6. Outside of the time of soft beacons, a run of the scheduler's transmission step hands the device
  at most one frame, and only when the station is awake and stays so, the pipe is free and no
  transmission status is outstanding: in the ATIM window an announcement to a receiver that is not
  known to be awake; in the transmission window a data packet, with power saving only one whose
  receiver is awake. The frame leaves its queue and the status is awaited.
\<close>

theorem psm_tx_gate:
  assumes "ar9170_sch_async_tx_check s = Some t" "usb_out t \<noteq> usb_out s" "psm_state s \<noteq> SOFT_BCN_WINDOW"
  shows "\<not> ps_state s \<and> \<not> psm_transit_to_sleep s \<and> \<not> tx_async_lock s \<and> tx_async_lock t \<and> \<not> tx_data_wait s \<and> \<not> tx_atim_wait s \<and>
    (\<exists>d. usb_out t = usb_out s @ [d]) \<and>
    (\<exists>ps i. i < length ps \<and>
      (psm_state s = ATIM_WINDOW \<and> tx_pending_atims s = PQ ps \<and> ieee80211_psm_is_DA_awake (ps ! i) s = Some False \<and>
         tx_pending_atims t = PQ (drop (Suc i) ps) \<and> tx_atim_wait t \<or>
       psm_state s = TX_WINDOW \<and> tx_pending_pkts s = PQ ps \<and> tx_pending_pkts t = PQ (take i ps @ drop (Suc i) ps) \<and>
         (if conf_ps s then ieee80211_psm_is_DA_awake (ps ! i) s = Some True \<and> tx_data_wait t else i = 0)))"
proof -
  have g: "\<not> ps_state s" "\<not> psm_transit_to_sleep s"
    using assms(1,2) by (auto simp: ar9170_sch_async_tx_check_def split: if_splits)
  consider (atim) "psm_state s = ATIM_WINDOW" "\<not> tx_data_wait s" "\<not> tx_atim_wait s" "ar9170_psm_async_tx_mgmt s = Some t"
    | (data) "psm_state s = TX_WINDOW" "\<not> tx_data_wait s" "\<not> tx_atim_wait s" "conf_ps s" "ar9170_psm_async_tx_data s = Some t"
    | (plain) "psm_state s = TX_WINDOW" "\<not> tx_data_wait s" "\<not> tx_atim_wait s" "\<not> conf_ps s" "ar9170_async_tx DataQ s = Some t"
  proof -
    obtain no_pkts none where n: "pq_is_empty (tx_pending_pkts s) = Some no_pkts"
      "(if no_pkts then pq_is_empty (tx_pending_atims s) else Some False) = Some none"
      using assms(1) g by (auto simp: ar9170_sch_async_tx_check_def elim!: bind_SomeE)
    have "\<not> none" using assms(1,2) g n by (auto simp: ar9170_sch_async_tx_check_def)
    note n = n this
    show thesis
    proof (cases "psm_state s")
      case ATIM_WINDOW
      have "do {
          e \<leftarrow> pq_is_empty (tx_pending_atims s);
          if \<not> e \<and> \<not> tx_data_wait s \<and> \<not> tx_atim_wait s then ar9170_psm_async_tx_mgmt s else Some s
        } = Some t"
        using assms(1) g n ATIM_WINDOW by (simp add: ar9170_sch_async_tx_check_def split del: if_split)
      then show thesis by (elim bind_SomeE if_eqE) (use that(1) ATIM_WINDOW assms(2) in simp_all)
    next
      case TX_WINDOW
      have "(if \<not> no_pkts \<and> \<not> tx_data_wait s \<and> \<not> tx_atim_wait s then
          if conf_ps s then ar9170_psm_async_tx_data s else ar9170_async_tx DataQ s else Some s) = Some t"
        using assms(1) g n TX_WINDOW by (simp add: ar9170_sch_async_tx_check_def split del: if_split)
      then show thesis by (elim if_eqE) (use that(2,3) TX_WINDOW assms(2) in simp_all)
    next
      case PRE_TBTT
      then have "t = s" using assms(1) g n by (simp add: ar9170_sch_async_tx_check_def)
      then show thesis using assms(2) by simp
    qed (use assms(3) in simp)
  qed
  then show ?thesis
  proof cases
    case atim
    from async_tx_mgmt_sends [OF atim(4) assms(2)] show ?thesis using atim(1-3) g by metis
  next
    case data
    from async_tx_data_sends [OF data(5) assms(2)] show ?thesis using data(1-4) g by metis
  next
    case plain
    obtain k rest where "get_queue DataQ s = PQ (k # rest)" "get_queue DataQ t = PQ rest"
      and r: "\<exists>d. usb_out t = usb_out s @ [d]" "\<not> tx_async_lock s" "tx_async_lock t"
      using async_tx_handed [OF plain(5) assms(2)] by blast
    then have "0 < length (k # rest) \<and> tx_pending_pkts s = PQ (k # rest) \<and> tx_pending_pkts t = PQ (take 0 (k # rest) @ drop (Suc 0) (k # rest))"
      by (simp add: get_queue_def)
    then show ?thesis using plain(1-4) r g by metis
  qed
qed

definition wlan_awake :: wlan where
  "wlan_awake = wlan1\<lparr>conf_ps := True, wake_neighbors := PQ [read_at 4 6 frame1]\<rparr>"

lemma psm_tx_gate_witness:
  "\<exists>t d. ar9170_sch_async_tx_check wlan_awake = Some t \<and> usb_out t = usb_out wlan_awake @ [d] \<and>
     ieee80211_psm_is_DA_awake skb1 wlan_awake = Some True \<and> tx_data_wait t \<and> tx_pending_pkts t = PQ []"
proof -
  define s where "s = wlan_awake\<lparr>tx_data_wait := True\<rparr>"
  have q: "tx_pending_pkts wlan_awake = PQ [skb1]" "psm_state wlan_awake = TX_WINDOW" "\<not> tx_data_wait wlan_awake"
    "\<not> tx_atim_wait wlan_awake" "conf_ps wlan_awake" "\<not> ps_state wlan_awake" "\<not> psm_transit_to_sleep wlan_awake"
    by (simp_all add: wlan_awake_def wlan1_def wlan0_def)
  have a: "ieee80211_psm_is_DA_awake skb1 wlan_awake = Some True" by code_simp
  have "ieee80211_psm_can_send_first_pkt wlan_awake = Some (PQ [skb1], wlan_awake)"
    by (simp add: ieee80211_psm_can_send_first_pkt_def q a)
  moreover have "wlan_awake\<lparr>tx_data_wait := True, tx_pending_pkts := PQ [skb1]\<rparr> = s"
    by (simp add: s_def wlan_awake_def wlan1_def)
  ultimately have e: "ar9170_sch_async_tx_check wlan_awake = ar9170_async_tx DataQ s"
    by (simp add: ar9170_sch_async_tx_check_def ar9170_psm_async_tx_data_def q pq_is_empty_def)
  obtain t where t: "ar9170_async_tx DataQ s = Some t" "usb_out t \<noteq> usb_out wlan_awake"
  proof -
    have "ar9170_async_tx DataQ s = Some (set_queue DataQ (PQ [])
        (s\<lparr>tx_list := [tx_chunk DataQ s frame1], tx_async_lock := True, usb_out := usb_out s @ [tx_chunk DataQ s frame1],
          stack_words := tl (stack_words s)\<rparr>))"
      by (rule async_tx_sends)
        (simp_all add: s_def wlan_awake_def wlan1_def wlan0_def get_queue_def skb1_def pointers_harmless_wlan0)
    then show thesis by (rule that) (simp add: s_def wlan_awake_def set_queue_def)
  qed
  have "psm_state wlan_awake \<noteq> SOFT_BCN_WINDOW" using q(2) by simp
  from psm_tx_gate [OF t(1) [folded e] t(2) this] show ?thesis using t(1) e q(1,2,5) a by (auto simp: less_Suc_eq)
qed

end
