(* ===== verification/Firmware.thy ===== *)
theory Firmware
  imports UsbCmd
begin

text \<open>
  The firmware of the device (\<open>ar9170_usb/usb_fw_wrapper.c\<close>, \<open>usb_fw_wrapper.h\<close>, \<open>fwdesc.h\<close>): the search
  for the descriptors in the image, their verification, what the driver learns from them, and the
  upload of the image in chunks.

  A position is an offset in the image; reading a descriptor that does not lie in the image fails. The
  release string and debug output are left out, as is the comparison of the checksums, which the code
  has commented out.
\<close>

datatype fw_err = FwENODATA | FwE2BIG | FwEBADMSG | FwEOVERFLOW | FwEMSGSIZE | FwEINVAL | FwEIO | FwECANCELED

definition LAST_MAGIC :: "u8 list" where "LAST_MAGIC = [0x4c, 0x41, 0x53, 0x54]"
definition OTUS_MAGIC :: "u8 list" where "OTUS_MAGIC = [0x4f, 0x54, 0x41, 0x52]"
definition MOTD_MAGIC :: "u8 list" where "MOTD_MAGIC = [0x4d, 0x4f, 0x54, 0x44]"
definition CHK_MAGIC :: "u8 list" where "CHK_MAGIC = [0x43, 0x48, 0x4b, 0]"
definition TXSQ_MAGIC :: "u8 list" where "TXSQ_MAGIC = [0x54, 0x58, 0x53, 0x51]"
definition CARL9170FW_DESC_MAX_LENGTH :: nat where "CARL9170FW_DESC_MAX_LENGTH = 8192"
definition FW_CHUNK_SIZE :: nat where "FW_CHUNK_SIZE = 4096"
definition FW_MINIBOOT_SIZE :: nat where "FW_MINIBOOT_SIZE = 12"

section \<open>The search for the descriptors\<close>

definition ar9170fw_size_check :: "nat \<Rightarrow> bool" where
  "ar9170fw_size_check len \<longleftrightarrow> len \<le> 16384 \<and> len \<ge> 32"

function fw_scan :: "u8 list \<Rightarrow> nat \<Rightarrow> nat \<Rightarrow> nat \<times> nat" where
  "fw_scan d scan found =
     (if scan < length d - 8 then
        let found' = (if d ! scan = OTUS_MAGIC ! found then found + 1 else 0) in
        if scan + 1 \<ge> length d \<or> found' = 4 then (scan + 1, found') else fw_scan d (scan + 1) found'
      else (scan, found))"
  by pat_completeness auto
termination by (relation "measure (\<lambda>(d, scan, found). length d - scan)") auto

declare fw_scan.simps [simp del]

definition ar9170_find_fw_desc :: "u8 list \<Rightarrow> nat option" where
  "ar9170_find_fw_desc d =
     (if \<not> ar9170fw_size_check (length d) then None
      else let (scan, found) = fw_scan d 0 0 in if found \<noteq> 4 then None else Some (scan - found))"

section \<open>Descriptors\<close>

definition fw_head :: "u8 list \<Rightarrow> nat \<Rightarrow> u8 list option" where
  "fw_head d p = (if p + 8 \<le> length d then Some (read_at p 8 d) else None)"

definition desc_length :: "u8 list \<Rightarrow> nat" where
  "desc_length h = unat (le16_of (read_at 4 2 h))"

definition ar9170fw_desc_cmp :: "u8 list \<Rightarrow> u8 list \<Rightarrow> nat \<Rightarrow> u8 \<Rightarrow> bool" where
  "ar9170fw_desc_cmp h magic min_len revision \<longleftrightarrow>
     take 4 h = magic \<and> \<not> (h ! 7 < revision \<or> h ! 6 > revision) \<and> desc_length h \<ge> min_len"

text \<open>The result is the error, or none for success.\<close>

function fw_verify_loop :: "u8 list \<Rightarrow> nat \<Rightarrow> nat \<Rightarrow> nat \<Rightarrow> fw_err option option" where
  "fw_verify_loop d pos max_len fin =
     (if pos < fin then
        if pos + 8 > fin then Some (Some FwE2BIG)
        else (case fw_head d pos of
            None \<Rightarrow> None
          | Some h \<Rightarrow>
              if desc_length h < 8 then Some (Some FwEBADMSG)
              else if desc_length h > max_len then Some (Some FwEOVERFLOW)
              else if pos + desc_length h > fin then Some (Some FwEMSGSIZE)
              else if ar9170fw_desc_cmp h LAST_MAGIC 8 2 then Some None
              else fw_verify_loop d (pos + desc_length h) (max_len - desc_length h) fin)
      else Some (Some FwEINVAL))"
  by pat_completeness auto
termination by (relation "measure (\<lambda>(d, pos, max_len, fin). fin - pos)") auto

declare fw_verify_loop.simps [simp del]

definition ar9170_fw_verify_descs :: "u8 list \<Rightarrow> nat \<Rightarrow> nat \<Rightarrow> fw_err option option" where
  "ar9170_fw_verify_descs d head max_len =
     (if max_len < 8 then Some (Some FwENODATA)
      else let m = min CARL9170FW_DESC_MAX_LENGTH max_len in fw_verify_loop d head m (head + m))"

function fw_find_loop :: "u8 list \<Rightarrow> nat \<Rightarrow> u8 list \<Rightarrow> nat \<Rightarrow> u8 \<Rightarrow> nat option option" where
  "fw_find_loop d pos magic len revision = (case fw_head d pos of
     None \<Rightarrow> None
   | Some h \<Rightarrow>
       if take 4 h \<noteq> LAST_MAGIC \<and> desc_length h \<ge> 8 \<and> desc_length h < CARL9170FW_DESC_MAX_LENGTH then
         if ar9170fw_desc_cmp h magic len revision then Some (Some pos)
         else fw_find_loop d (pos + desc_length h) magic len revision
       else Some (if ar9170fw_desc_cmp h magic len revision then Some pos else None))"
  by pat_completeness auto
termination
  by (relation "measure (\<lambda>(d, pos, magic, len, revision). length d - pos)") (auto simp: fw_head_def split: if_splits)

declare fw_find_loop.simps [simp del]

section \<open>What the driver learns from the image\<close>

record fw_state =
  fwc_data :: "u8 list option"
  fwc_desc :: "nat option"
  fwc_api_version :: u32
  fwc_offset :: u32
  fwc_vif_num :: u32
  fwc_cmd_bufs :: u32
  fwc_address :: u32
  fwc_rx_size :: u32
  fwc_mem_blocks :: u32
  fwc_mem_free_blocks :: u32
  fwc_mem_block_size :: u32
  fwc_beacon_addr :: u32
  fwc_beacon_max_len :: u32
  fwc_tx_stream :: bool
  fwc_rx_stream :: bool
  fwc_rx_filter :: bool
  fwc_hw_counters :: bool
  fwc_ba_filter :: bool
  fwc_tx_seq_table :: u32
  fwc_rx_filter_caps :: u32
  fwc_disable_offload :: bool
  fwc_hw_flags :: u32
  fwc_tx_headroom :: u32
  fwc_interface_modes :: u32
  fwc_if_types :: u32
  fwc_version :: "u8 list"

definition ar9170_fw_find_desc :: "u8 list \<Rightarrow> nat \<Rightarrow> u8 \<Rightarrow> fw_state \<Rightarrow> nat option option" where
  "ar9170_fw_find_desc descid len revision c = (case (fwc_data c, fwc_desc c) of
     (Some d, Some p) \<Rightarrow> fw_find_loop d p descid len revision
   | _ \<Rightarrow> None)"

text \<open>
  The release string of the image becomes the version of the firmware, cut to the 31 characters of its
  buffer; \<open>strlcpy\<close> reads it to its end all the same, which is the next zero byte, wherever it is.
\<close>

definition c_string :: "nat \<Rightarrow> u8 list \<Rightarrow> u8 list option" where
  "c_string i d = (if 0 \<in> set (drop i d) then Some (takeWhile (\<lambda>b. b \<noteq> 0) (drop i d)) else None)"

definition ar9170_fw_info :: "fw_state \<Rightarrow> fw_state option" where
  "ar9170_fw_info c = do {
     motd \<leftarrow> ar9170_fw_find_desc MOTD_MAGIC 56 2 c;
     (case motd of
        None \<Rightarrow> Some c
      | Some m \<Rightarrow> do {
          d \<leftarrow> fwc_data c;
          release \<leftarrow> c_string (m + 36) d;
          Some (c\<lparr>fwc_version := take 31 release\<rparr>)
        })
   }"

definition valid_dma_addr :: "u32 \<Rightarrow> bool" where
  "valid_dma_addr a \<longleftrightarrow> a \<ge> 0x100000 \<and> a < 0x100000 + 0x18000"

definition valid_cpu_addr :: "u32 \<Rightarrow> bool" where
  "valid_cpu_addr a \<longleftrightarrow> valid_dma_addr a \<or> (a \<ge> 0x200000 \<and> a < 0x200000 + 0x8000)"

definition ar9170_fw_checksum :: "u32 \<Rightarrow> fw_state \<Rightarrow> fw_err option option" where
  "ar9170_fw_checksum len c = do {
     lst \<leftarrow> ar9170_fw_find_desc LAST_MAGIC 8 2 c;
     (case lst of None \<Rightarrow> Some (Some FwEINVAL) | Some l \<Rightarrow> do {
        otus \<leftarrow> ar9170_fw_find_desc OTUS_MAGIC 32 7 c;
        (case otus of None \<Rightarrow> Some (Some FwENODATA) | Some p \<Rightarrow> do {
           chk \<leftarrow> ar9170_fw_find_desc CHK_MAGIC 16 2 c;
           (case chk of None \<Rightarrow> Some None | Some _ \<Rightarrow>
              let diff = of_nat (l + 8) - of_nat p; len' = (if diff < len then len - diff else len) in
              Some (if len' < 256 then Some FwEIO else None))
         })
      })
   }"

definition ar9170_fw_tx_sequence :: "fw_state \<Rightarrow> (fw_err option \<times> fw_state) option" where
  "ar9170_fw_tx_sequence c = do {
     txsq \<leftarrow> ar9170_fw_find_desc TXSQ_MAGIC 12 1 c;
     (case txsq of
        Some p \<Rightarrow> do {
          d \<leftarrow> fwc_data c;
          if p + 12 > length d then None
          else
            let c1 = c\<lparr>fwc_tx_seq_table := le32_of (read_at (p + 8) 4 d)\<rparr> in
            Some (if valid_cpu_addr (fwc_tx_seq_table c1) then None else Some FwEINVAL, c1)
        }
      | None \<Rightarrow> Some (None, c\<lparr>fwc_tx_seq_table := 0\<rparr>))
   }"

definition ar9170fw_supports :: "u32 \<Rightarrow> nat \<Rightarrow> bool" where
  "ar9170fw_supports list feature \<longleftrightarrow> list AND push_bit feature 1 \<noteq> 0"

abbreviation (input) CARL9170FW_DUMMY_FEATURE :: nat where "CARL9170FW_DUMMY_FEATURE \<equiv> 0"
abbreviation (input) CARL9170FW_MINIBOOT :: nat where "CARL9170FW_MINIBOOT \<equiv> 1"
abbreviation (input) CARL9170FW_USB_INIT_FIRMWARE :: nat where "CARL9170FW_USB_INIT_FIRMWARE \<equiv> 2"
abbreviation (input) CARL9170FW_USB_DOWN_STREAM :: nat where "CARL9170FW_USB_DOWN_STREAM \<equiv> 4"
abbreviation (input) CARL9170FW_USB_UP_STREAM :: nat where "CARL9170FW_USB_UP_STREAM \<equiv> 5"
abbreviation (input) CARL9170FW_UNUSABLE :: nat where "CARL9170FW_UNUSABLE \<equiv> 6"
abbreviation (input) CARL9170FW_COMMAND_PHY :: nat where "CARL9170FW_COMMAND_PHY \<equiv> 7"
abbreviation (input) CARL9170FW_COMMAND_CAM :: nat where "CARL9170FW_COMMAND_CAM \<equiv> 8"
abbreviation (input) CARL9170FW_WLANTX_CAB :: nat where "CARL9170FW_WLANTX_CAB \<equiv> 9"
abbreviation (input) CARL9170FW_HANDLE_BACK_REQ :: nat where "CARL9170FW_HANDLE_BACK_REQ \<equiv> 10"
abbreviation (input) CARL9170FW_PSM :: nat where "CARL9170FW_PSM \<equiv> 12"
abbreviation (input) CARL9170FW_RX_FILTER :: nat where "CARL9170FW_RX_FILTER \<equiv> 13"
abbreviation (input) CARL9170FW_WOL :: nat where "CARL9170FW_WOL \<equiv> 14"
abbreviation (input) CARL9170FW_FIXED_5GHZ_PSM :: nat where "CARL9170FW_FIXED_5GHZ_PSM \<equiv> 15"
abbreviation (input) CARL9170FW_HW_COUNTERS :: nat where "CARL9170FW_HW_COUNTERS \<equiv> 16"
abbreviation (input) CARL9170FW_RX_BA_FILTER :: nat where "CARL9170FW_RX_BA_FILTER \<equiv> 17"

text \<open>
  The features of the descriptor \<open>b\<close>. The statement after the test for \<open>CARL9170FW_WOL\<close> is commented
  out, so that the next one depends on this test.
\<close>

definition fw_features :: "u8 list \<Rightarrow> fw_state \<Rightarrow> fw_state" where
  "fw_features b c =
     (let SUPP = ar9170fw_supports (le32_of (read_at 8 4 b));
          c1 = (if SUPP CARL9170FW_MINIBOOT then c\<lparr>fwc_offset := ucast (le16_of (read_at 22 2 b))\<rparr> else c\<lparr>fwc_offset := 0\<rparr>);
          c2 = (if SUPP CARL9170FW_USB_DOWN_STREAM then c1\<lparr>fwc_tx_headroom := fwc_tx_headroom c1 + 4, fwc_tx_stream := True\<rparr> else c1);
          c3 = (if SUPP CARL9170FW_USB_UP_STREAM then c2\<lparr>fwc_rx_stream := True\<rparr> else c2);
          c4 = (if SUPP CARL9170FW_RX_FILTER then c3\<lparr>fwc_rx_filter := True, fwc_rx_filter_caps := 0xed\<rparr> else c3);
          c5 = (if SUPP CARL9170FW_HW_COUNTERS then c4\<lparr>fwc_hw_counters := True\<rparr> else c4)
      in if SUPP CARL9170FW_WOL \<and> SUPP CARL9170FW_RX_BA_FILTER then c5\<lparr>fwc_ba_filter := True\<rparr> else c5)"

definition fw_limits :: "u8 list \<Rightarrow> fw_state \<Rightarrow> fw_state" where
  "fw_limits b c =
     (let c1 = c\<lparr>fwc_vif_num := ucast (b ! 31), fwc_cmd_bufs := ucast (b ! 29), fwc_address := le32_of (read_at 12 4 b),
          fwc_rx_size := ucast (le16_of (read_at 26 2 b)), fwc_mem_blocks := min (ucast (b ! 28)) 0xfe\<rparr>
      in c1\<lparr>fwc_mem_free_blocks := fwc_mem_blocks c1, fwc_mem_block_size := ucast (le16_of (read_at 24 2 b))\<rparr>)"

definition fw_tampered :: "fw_state \<Rightarrow> bool" where
  "fw_tampered c \<longleftrightarrow> fwc_vif_num c \<ge> 7 \<or> fwc_vif_num c = 0 \<or> fwc_mem_blocks c < 16 \<or> fwc_cmd_bufs c = 0 \<or>
     fwc_mem_block_size c < 64 \<or> fwc_mem_block_size c > 512 \<or> fwc_rx_size c > 32768 \<or> fwc_rx_size c < 4096 \<or>
     \<not> valid_cpu_addr (fwc_address c)"

definition fw_modes :: "u8 list \<Rightarrow> fw_state \<Rightarrow> fw_state" where
  "fw_modes b c =
     (let c1 = c\<lparr>fwc_beacon_addr := le32_of (read_at 16 4 b), fwc_beacon_max_len := ucast (le16_of (read_at 20 2 b))\<rparr>;
          types = push_bit 2 1 OR push_bit 8 1;
          beacons = valid_dma_addr (fwc_beacon_addr c1) \<and> fwc_beacon_max_len c1 \<ge> 256;
          types1 = (if beacons \<and> ar9170fw_supports (le32_of (read_at 8 4 b)) CARL9170FW_WLANTX_CAB
            then types OR push_bit 3 1 OR push_bit 9 1 else types);
          c2 = (if beacons then c1\<lparr>fwc_interface_modes := fwc_interface_modes c1 OR push_bit 1 1\<rparr> else c1)
      in c2\<lparr>fwc_if_types := types1, fwc_interface_modes := fwc_interface_modes c2 OR types1\<rparr>)"

definition fw_flags :: "u8 list \<Rightarrow> fw_state \<Rightarrow> fw_state" where
  "fw_flags b c =
     (let SUPP = ar9170fw_supports (le32_of (read_at 8 4 b));
          c1 = (if \<not> SUPP CARL9170FW_COMMAND_CAM then c\<lparr>fwc_disable_offload := True\<rparr> else c)
      in if SUPP CARL9170FW_PSM \<and> SUPP CARL9170FW_FIXED_5GHZ_PSM
         then c1\<lparr>fwc_hw_flags := fwc_hw_flags c1 OR push_bit 10 1\<rparr> else c1)"

definition fw_otus :: "u8 list \<Rightarrow> fw_state \<Rightarrow> (fw_err option \<times> fw_state) option" where
  "fw_otus b c =
     (let SUPP = ar9170fw_supports (le32_of (read_at 8 4 b)) in
      if \<not> SUPP CARL9170FW_DUMMY_FEATURE then Some (Some FwEINVAL, c)
      else
        let c1 = c\<lparr>fwc_api_version := ucast (b ! 30)\<rparr> in
        if fwc_api_version c1 < 1 \<or> fwc_api_version c1 > 1 then Some (Some FwEINVAL, c1)
        else if \<not> SUPP CARL9170FW_COMMAND_PHY \<or> SUPP CARL9170FW_UNUSABLE \<or> \<not> SUPP CARL9170FW_HANDLE_BACK_REQ
        then Some (Some FwECANCELED, c1)
        else
          let c2 = fw_flags b c1 in
          if \<not> SUPP CARL9170FW_USB_INIT_FIRMWARE then Some (Some FwEINVAL, c2)
          else
            let c3 = fw_limits b (fw_features b c2) in
            if fw_tampered c3 then Some (Some FwEINVAL, c3) else ar9170_fw_tx_sequence (fw_modes b c3))"

definition ar9170_fw :: "u32 \<Rightarrow> fw_state \<Rightarrow> (fw_err option \<times> fw_state) option" where
  "ar9170_fw len c = do {
     err \<leftarrow> ar9170_fw_checksum len c;
     (case err of Some e \<Rightarrow> Some (Some e, c) | None \<Rightarrow> do {
        otus \<leftarrow> ar9170_fw_find_desc OTUS_MAGIC 32 7 c;
        (case otus of None \<Rightarrow> Some (Some FwENODATA, c) | Some p \<Rightarrow> do {
           d \<leftarrow> fwc_data c;
           if p + 32 > length d then None else fw_otus (read_at p 32 d) c
         })
      })
   }"

definition ar9170_parse_firmware :: "fw_state \<Rightarrow> (fw_err option \<times> fw_state) option" where
  "ar9170_parse_firmware c = (case fwc_data c of
     None \<Rightarrow> Some (Some FwEINVAL, c)
   | Some d \<Rightarrow> (case ar9170_find_fw_desc d of
       None \<Rightarrow> Some (Some FwENODATA, c)
     | Some p \<Rightarrow> do {
         err \<leftarrow> ar9170_fw_verify_descs d p (length d - p);
         (case err of Some e \<Rightarrow> Some (Some e, c) | None \<Rightarrow> do {
            let c1 = c\<lparr>fwc_desc := Some p\<rparr>;
            c2 \<leftarrow> ar9170_fw_info c1;
            ar9170_fw (of_nat (length d)) c2
          })
       }))"

section \<open>The upload\<close>

text \<open>
  A transfer is a request with its value and its data; \<open>ok\<close> tells for each transfer whether the host
  stack takes it (true when exhausted). The result is the transfers handed over and the outcome.
\<close>

function fw_upload_loop :: "u8 list \<Rightarrow> nat \<Rightarrow> nat \<Rightarrow> u32 \<Rightarrow> bool list \<Rightarrow> (u8 \<times> u16 \<times> u8 list) list \<times> bool" where
  "fw_upload_loop d remaining index addr ok =
     (if remaining > 0 then
        let n = min remaining FW_CHUNK_SIZE; t = (0x30, ucast (drop_bit 8 addr), read_at index n d) in
        if ok \<noteq> [] \<and> \<not> hd ok then ([t], False)
        else let (ts, r) = fw_upload_loop d (remaining - n) (index + n) (addr + of_nat n) (tl ok) in (t # ts, r)
      else ([(0x31, 0, [])], ok = [] \<or> hd ok))"
  by pat_completeness auto
termination by (relation "measure (\<lambda>(d, remaining, index, addr, ok). remaining)") (auto simp: FW_CHUNK_SIZE_def)

declare fw_upload_loop.simps [simp del]

definition ar9170_upload_firmware :: "u8 list \<Rightarrow> bool list \<Rightarrow> (u8 \<times> u16 \<times> u8 list) list \<times> bool" where
  "ar9170_upload_firmware d ok = fw_upload_loop d (length d - FW_MINIBOOT_SIZE) FW_MINIBOOT_SIZE 0x200000 ok"

section \<open>The search\<close>

lemma read_at_append: "i + m \<le> length d \<Longrightarrow> read_at i (m + n) d = read_at i m d @ read_at (i + m) n d"
  by (simp add: read_at_def take_add add.commute)

lemma read_at_one: "i < length d \<Longrightarrow> read_at i 1 d = [d ! i]"
  by (simp add: read_at_def take_Suc_conv_app_nth hd_drop_conv_nth take_Suc)

lemma otus_take: "k < 4 \<Longrightarrow> take k OTUS_MAGIC @ [OTUS_MAGIC ! k] = take (k + 1) OTUS_MAGIC"
  by (simp add: take_Suc_conv_app_nth OTUS_MAGIC_def del: take_Cons_numeral take_Suc_Cons nth_Cons_numeral)

text \<open>The bytes before the position are the first ones of the magic.\<close>

definition scan_ok :: "u8 list \<Rightarrow> nat \<Rightarrow> nat \<Rightarrow> bool" where
  "scan_ok d scan found \<longleftrightarrow> found \<le> scan \<and> found < 4 \<and> read_at (scan - found) found d = take found OTUS_MAGIC"

lemma scan_step:
  assumes "scan_ok d scan found" "scan < length d"
  shows "d ! scan = OTUS_MAGIC ! found \<Longrightarrow> read_at (scan - found) (found + 1) d = take (found + 1) OTUS_MAGIC"
  using assms read_at_append [of "scan - found" found d 1] read_at_one [of scan d] otus_take [of found]
  by (simp add: scan_ok_def)

lemma fw_scan_sound:
  assumes "scan_ok d scan found" "fw_scan d scan found = (s, f)" "f = 4"
  shows "4 \<le> s \<and> s + 8 \<le> length d \<and> read_at (s - 4) 4 d = OTUS_MAGIC"
  using assms
proof (induction d scan found rule: fw_scan.induct)
  case (1 d scan found)
  define g where "g = (if d ! scan = OTUS_MAGIC ! found then found + 1 else 0)"
  show ?case
  proof (cases "scan < length d - 8")
    case False
    then show ?thesis using 1(2-4) by (subst (asm) fw_scan.simps) (simp add: scan_ok_def)
  next
    case True
    note e = 1(3) [unfolded fw_scan.simps [of d scan found] if_P [OF True] Let_def g_def [symmetric]]
    show ?thesis
    proof (cases "g = 4")
      case g: True
      then have f: "found = 3" "d ! scan = OTUS_MAGIC ! 3" by (auto simp: g_def split: if_splits)
      then show ?thesis using e g True scan_step [OF 1(2)] 1(2) by (auto simp: scan_ok_def OTUS_MAGIC_def)
    next
      case g: False
      have ok: "scan_ok d (scan + 1) g"
        using 1(2) scan_step [OF 1(2)] True g by (auto simp: scan_ok_def g_def read_at_def split: if_splits)
      have l: "\<not> (length d \<le> scan + 1 \<or> g = 4)" using True g by auto
      show ?thesis
        using 1(1) [OF True g_def _ ok _ 1(4)] l e by simp
    qed
  qed
qed

lemma fw_scan_reaches:
  assumes "scan_ok d scan found" "scan \<le> p" "p + 4 \<le> length d - 8" "\<forall>q < p. read_at q 4 d \<noteq> OTUS_MAGIC"
  shows "\<exists>k. scan_ok d p k \<and> fw_scan d scan found = fw_scan d p k"
  using assms(1,2)
proof (induction "p - scan" arbitrary: scan found)
  case 0 then show ?case by auto
next
  case (Suc n)
  define g where "g = (if d ! scan = OTUS_MAGIC ! found then found + 1 else 0)"
  have lt: "scan < p" "scan < length d - 8" "\<not> length d \<le> scan + 1" using Suc(2,4) assms(3) by auto
  have "g \<noteq> 4"
  proof
    assume "g = 4"
    then have "found = 3" "d ! scan = OTUS_MAGIC ! found" by (auto simp: g_def split: if_splits)
    then have "read_at (scan - 3) 4 d = OTUS_MAGIC" using scan_step [OF Suc(3)] lt(2) by (simp add: OTUS_MAGIC_def)
    then show False using assms(4) lt(1) by auto
  qed
  then have ok: "scan_ok d (scan + 1) g"
    using Suc(3) scan_step [OF Suc(3)] lt by (auto simp: scan_ok_def g_def read_at_def split: if_splits)
  have "fw_scan d scan found = fw_scan d (scan + 1) g"
    unfolding fw_scan.simps [of d scan found] if_P [OF lt(2)] Let_def g_def [symmetric] using lt(3) \<open>g \<noteq> 4\<close> by simp
  moreover have "\<exists>k. scan_ok d p k \<and> fw_scan d (scan + 1) g = fw_scan d p k"
    using Suc(1) [of "scan + 1" g] Suc(2) ok lt(1) by simp
  ultimately show ?case by simp
qed

lemma fw_scan_match:
  assumes "p + 4 \<le> length d - 8" "read_at p 4 d = OTUS_MAGIC"
  shows "fw_scan d p 0 = (p + 4, 4)"
proof -
  have b: "d ! (p + i) = OTUS_MAGIC ! i" if "i < 4" for i
  proof -
    have "read_at p 4 d ! i = d ! (p + i)" using that assms(1) by (simp add: read_at_def)
    then show ?thesis using assms(2) by simp
  qed
  have "fw_scan d (p + i) i = (p + 4, 4)" if "i < 4" for i
    using that
  proof (induction "4 - i" arbitrary: i)
    case (Suc n)
    show ?case
    proof (cases "i = 3")
      case True
      then show ?thesis using b [of i] assms(1) by (subst fw_scan.simps) simp
    next
      case False
      then have "fw_scan d (p + (i + 1)) (i + 1) = (p + 4, 4)" using Suc(1) [of "i + 1"] Suc(2,3) by simp
      then show ?thesis using b [of i] assms(1) Suc(3) False by (subst fw_scan.simps) auto
    qed
  qed simp
  from this [of 0] show ?thesis by simp
qed

text \<open>No \<open>O\<close> is the start of the magic.\<close>

lemma fw_scan_none:
  assumes "\<forall>i. scan \<le> i \<and> i < length d - 8 \<longrightarrow> d ! i \<noteq> 0x4f"
  shows "snd (fw_scan d scan 0) = 0"
  using assms
proof (induction "length d - scan" arbitrary: scan)
  case 0 then show ?case by (subst fw_scan.simps) auto
next
  case (Suc n)
  show ?case
  proof (cases "scan < length d - 8")
    case True
    then have "fw_scan d scan 0 = fw_scan d (scan + 1) 0"
      using Suc(3) by (subst fw_scan.simps) (auto simp: OTUS_MAGIC_def)
    then show ?thesis using Suc(1) [of "scan + 1"] Suc(2,3) by simp
  qed (subst fw_scan.simps, simp)
qed

lemma fw_scan_skip:
  assumes "\<forall>i < n. d ! i \<noteq> 0x4f" "scan \<le> n" "n \<le> length d - 8"
  shows "fw_scan d scan 0 = fw_scan d n 0"
  using assms(2)
proof (induction "n - scan" arbitrary: scan)
  case (Suc m)
  then have "scan < n" by simp
  then have lt: "scan < length d - 8" "\<not> length d \<le> scan + 1" "d ! scan \<noteq> OTUS_MAGIC ! 0"
    using assms(1,3) by (auto simp: OTUS_MAGIC_def)
  have "fw_scan d scan 0 = fw_scan d (scan + 1) 0"
    unfolding fw_scan.simps [of d scan] if_P [OF lt(1)] Let_def using lt(2,3) by simp
  then show ?case using Suc(1) [of "scan + 1"] Suc(2,3) by simp
qed simp

lemma fw_scan_doubled:
  assumes "d = pre @ [0x4f] @ OTUS_MAGIC @ post" "0x4f \<notin> set pre \<union> set post"
  shows "snd (fw_scan d 0 0) \<noteq> 4"
proof -
  define n where "n = length pre"
  have at: "d ! n = 0x4f" "d ! (n + 1) = 0x4f" by (simp_all add: assms(1) n_def OTUS_MAGIC_def nth_append)
  have pre: "\<forall>i < n. d ! i \<noteq> 0x4f" using assms by (auto simp: n_def nth_append dest: nth_mem)
  have post: "d ! i \<noteq> 0x4f" if "n + 2 \<le> i" "i < length d" for i
  proof -
    have dr: "d = (pre @ [0x4f, 0x4f]) @ ([0x54, 0x41, 0x52] @ post)" using assms(1) by (simp add: OTUS_MAGIC_def)
    define xs where "xs = [0x54, 0x41, 0x52] @ post"
    have l: "length (pre @ [0x4f, 0x4f]) \<le> i" "i < length (pre @ [0x4f, 0x4f]) + length xs"
      using that dr by (simp_all add: n_def xs_def)
    have "d ! i = xs ! (i - length (pre @ [0x4f, 0x4f]))"
      unfolding dr xs_def [symmetric] nth_append using l(1) by simp
    then have "d ! i \<in> set xs" using l by simp
    then show ?thesis using assms(2) by (auto simp: xs_def)
  qed
  show ?thesis
  proof (cases "n < length d - 8")
    case False
    then have "snd (fw_scan d 0 0) = 0" using pre by (intro fw_scan_none) auto
    then show ?thesis by simp
  next
    case True
    have n1: "fw_scan d n 0 = fw_scan d (n + 1) 1"
      using True at(1) by (subst fw_scan.simps) (auto simp: OTUS_MAGIC_def)
    have "snd (fw_scan d (n + 1) 1) \<noteq> 4"
    proof (cases "n + 1 < length d - 8")
      case in1: True
      have "fw_scan d (n + 1) 1 = fw_scan d (n + 2) 0"
        using in1 at(2) by (subst fw_scan.simps) (auto simp: OTUS_MAGIC_def)
      moreover have "snd (fw_scan d (n + 2) 0) = 0" by (rule fw_scan_none) (use post in auto)
      ultimately show ?thesis by simp
    qed (subst fw_scan.simps, simp)
    then show ?thesis using n1 fw_scan_skip [OF pre, of 0] True by simp
  qed
qed

text \<open>
  What the search for the descriptors returns is a position of the magic with room for a descriptor;
  it finds the first one when none of the beginnings \<open>O\<close>, \<open>OT\<close> and \<open>OTA\<close> of the magic stands directly
  before it. It does not start over at the byte that did not match: an image in which an additional \<open>O\<close>
  precedes the magic is refused.
\<close>

theorem fw_magic_search:
  assumes "ar9170fw_size_check (length d)"
  shows "(\<forall>p. ar9170_find_fw_desc d = Some p \<longrightarrow> p + 12 \<le> length d \<and> read_at p 4 d = OTUS_MAGIC) \<and>
    (\<forall>p. p + 12 \<le> length d \<and> read_at p 4 d = OTUS_MAGIC \<and> (\<forall>q < p. read_at q 4 d \<noteq> OTUS_MAGIC) \<and>
       (\<forall>k \<in> {1, 2, 3}. k \<le> p \<longrightarrow> read_at (p - k) k d \<noteq> take k OTUS_MAGIC) \<longrightarrow> ar9170_find_fw_desc d = Some p) \<and>
    (\<forall>pre post. d = pre @ [0x4f] @ OTUS_MAGIC @ post \<and> 0x4f \<notin> set pre \<union> set post \<longrightarrow> ar9170_find_fw_desc d = None)"
proof (intro conjI allI impI; (elim conjE)?)
  fix p assume a: "ar9170_find_fw_desc d = Some p"
  obtain s f where s: "fw_scan d 0 0 = (s, f)" by force
  with a have f: "f = 4" "p = s - 4" by (auto simp: ar9170_find_fw_desc_def split: if_splits)
  have "scan_ok d 0 0" by (simp add: scan_ok_def read_at_def)
  from fw_scan_sound [OF this s f(1)] f(2) show "p + 12 \<le> length d" "read_at p 4 d = OTUS_MAGIC" by auto
next
  fix p assume p: "p + 12 \<le> length d" "read_at p 4 d = OTUS_MAGIC" "\<forall>q < p. read_at q 4 d \<noteq> OTUS_MAGIC"
    and c: "\<forall>k \<in> {1, 2, 3}. k \<le> p \<longrightarrow> read_at (p - k) k d \<noteq> take k OTUS_MAGIC"
  have l: "p + 4 \<le> length d - 8" using p(1) by simp
  have "scan_ok d 0 0" by (simp add: scan_ok_def read_at_def)
  from fw_scan_reaches [OF this _ l p(3)] obtain k where k: "scan_ok d p k" "fw_scan d 0 0 = fw_scan d p k" by auto
  have "k = 0"
  proof (rule ccontr)
    assume "k \<noteq> 0"
    then have "k \<in> {1, 2, 3}" using k(1) by (auto simp: scan_ok_def)
    then show False using c k(1) by (auto simp: scan_ok_def)
  qed
  then show "ar9170_find_fw_desc d = Some p"
    using k(2) fw_scan_match [OF l p(2)] assms by (simp add: ar9170_find_fw_desc_def)
next
  fix pre post assume "d = pre @ [0x4f] @ OTUS_MAGIC @ post" "0x4f \<notin> set pre \<union> set post"
  from fw_scan_doubled [OF this] show "ar9170_find_fw_desc d = None"
    by (auto simp: ar9170_find_fw_desc_def split: prod.split)
qed

section \<open>Verified descriptors\<close>

lemma fw_verify_total:
  assumes "fin \<le> length d"
  shows "fw_verify_loop d pos m fin \<noteq> None"
  using assms
proof (induction d pos m fin rule: fw_verify_loop.induct)
  case (1 d pos m fin)
  show ?case
  proof (cases "pos < fin \<and> \<not> pos + 8 > fin")
    case True
    then have h: "fw_head d pos = Some (read_at pos 8 d)" using 1(2) by (simp add: fw_head_def)
    show ?thesis using True 1(1) [OF _ _ h] 1(2) by (subst fw_verify_loop.simps) (auto simp: h)
  qed (subst fw_verify_loop.simps, auto)
qed

definition desc_inside :: "u8 list \<Rightarrow> nat \<Rightarrow> u8 list \<Rightarrow> nat \<Rightarrow> u8 \<Rightarrow> nat \<Rightarrow> bool" where
  "desc_inside d fin magic len rv p \<longleftrightarrow> p + desc_length (read_at p 8 d) \<le> fin \<and>
     ar9170fw_desc_cmp (read_at p 8 d) magic len rv"

lemma fw_verified_find:
  assumes "fw_verify_loop d pos m fin = Some None" "fin \<le> length d"
  shows "\<exists>r. fw_find_loop d pos magic len rv = Some r \<and> (\<forall>p. r = Some p \<longrightarrow> desc_inside d fin magic len rv p)"
  using assms
proof (induction d pos m fin rule: fw_verify_loop.induct)
  case (1 d pos m fin)
  have g: "pos < fin" "\<not> pos + 8 > fin"
    using 1(2) by (auto simp: fw_verify_loop.simps [of d pos] split: if_splits)
  define h where "h = read_at pos 8 d"
  have h: "fw_head d pos = Some h" using g 1(3) by (simp add: fw_head_def h_def)
  have c: "\<not> desc_length h < 8" "\<not> desc_length h > m" "\<not> pos + desc_length h > fin"
    and step: "\<not> ar9170fw_desc_cmp h LAST_MAGIC 8 2 \<Longrightarrow>
      fw_verify_loop d (pos + desc_length h) (m - desc_length h) fin = Some None"
    using 1(2) g by (auto simp: fw_verify_loop.simps [of d pos] h split: if_splits)
  have here: "desc_inside d fin magic len rv pos" if "ar9170fw_desc_cmp h magic len rv"
    using that c(3) by (simp add: desc_inside_def h_def)
  show ?case
  proof (cases "take 4 h \<noteq> LAST_MAGIC \<and> desc_length h \<ge> 8 \<and> desc_length h < CARL9170FW_DESC_MAX_LENGTH \<and>
      \<not> ar9170fw_desc_cmp h magic len rv")
    case False
    then show ?thesis using here by (subst fw_find_loop.simps) (auto simp: h)
  next
    case True
    then have nl: "\<not> ar9170fw_desc_cmp h LAST_MAGIC 8 2" by (simp add: ar9170fw_desc_cmp_def)
    have "fw_find_loop d pos magic len rv = fw_find_loop d (pos + desc_length h) magic len rv"
      using True by (subst fw_find_loop.simps) (simp add: h)
    then show ?thesis using 1(1) [OF g h c nl step [OF nl] 1(3)] by simp
  qed
qed

lemma desc_inside_room: "desc_inside d fin magic len rv p \<Longrightarrow> fin \<le> length d \<Longrightarrow> p + len \<le> length d"
  by (auto simp: desc_inside_def ar9170fw_desc_cmp_def)

text \<open>A state whose descriptors are verified: looking for one neither fails nor leaves the image.\<close>

definition fw_verified :: "fw_state \<Rightarrow> bool" where
  "fw_verified c \<longleftrightarrow> (\<exists>d p m fin. fwc_data c = Some d \<and> fwc_desc c = Some p \<and> fin \<le> length d \<and>
     fw_verify_loop d p m fin = Some None)"

lemma fw_verified_cases:
  assumes "fw_verified c"
  obtains (none) "ar9170_fw_find_desc magic len rv c = Some None"
  | (found) d p where "ar9170_fw_find_desc magic len rv c = Some (Some p)" "fwc_data c = Some d" "p + len \<le> length d"
proof -
  obtain d q m fin where v: "fwc_data c = Some d" "fwc_desc c = Some q" "fin \<le> length d" "fw_verify_loop d q m fin = Some None"
    using assms by (auto simp: fw_verified_def)
  obtain r where r: "fw_find_loop d q magic len rv = Some r" "\<forall>p. r = Some p \<longrightarrow> desc_inside d fin magic len rv p"
    using fw_verified_find [OF v(4,3)] by blast
  then have e: "ar9170_fw_find_desc magic len rv c = Some r" using v(1,2) by (simp add: ar9170_fw_find_desc_def)
  show thesis
  proof (cases r)
    case None then show thesis using none e by simp
  next
    case (Some p) then show thesis using found e r(2) v(1) desc_inside_room [OF _ v(3)] by blast
  qed
qed

lemma fw_find_total: "fw_verified c \<Longrightarrow> \<exists>r. ar9170_fw_find_desc magic len rv c = Some r"
  by (rule fw_verified_cases [of c magic len rv]) auto

lemma fw_checksum_total:
  assumes "fw_verified c"
  shows "\<exists>e. ar9170_fw_checksum len c = Some e"
proof -
  obtain a b d where "ar9170_fw_find_desc LAST_MAGIC 8 2 c = Some a" "ar9170_fw_find_desc OTUS_MAGIC 32 7 c = Some b"
    "ar9170_fw_find_desc CHK_MAGIC 16 2 c = Some d" using fw_find_total [OF assms] by metis
  then show ?thesis by (simp add: ar9170_fw_checksum_def Let_def split: option.split)
qed

lemma fw_tx_sequence_total:
  assumes "fw_verified c"
  shows "\<exists>e t. ar9170_fw_tx_sequence c = Some (e, c\<lparr>fwc_tx_seq_table := t\<rparr>) \<and> (e = None \<longrightarrow> t = 0 \<or> valid_cpu_addr t)"
  by (rule fw_verified_cases [OF assms, of TXSQ_MAGIC 12 1]) (auto simp: ar9170_fw_tx_sequence_def Let_def)

text \<open>The parts of the state that the descriptors of the features do not touch.\<close>

lemma fw_features_same:
  "fwc_data (fw_features b c) = fwc_data c" "fwc_desc (fw_features b c) = fwc_desc c"
  "fwc_api_version (fw_features b c) = fwc_api_version c"
  by (simp_all add: fw_features_def Let_def)

lemma fw_flags_same:
  "fwc_data (fw_flags b c) = fwc_data c" "fwc_desc (fw_flags b c) = fwc_desc c"
  "fwc_api_version (fw_flags b c) = fwc_api_version c"
  by (simp_all add: fw_flags_def Let_def)

lemma fw_limits_same:
  "fwc_data (fw_limits b c) = fwc_data c" "fwc_desc (fw_limits b c) = fwc_desc c"
  "fwc_api_version (fw_limits b c) = fwc_api_version c"
  by (simp_all add: fw_limits_def Let_def)

lemma fw_modes_same:
  "fwc_data (fw_modes b c) = fwc_data c" "fwc_desc (fw_modes b c) = fwc_desc c"
  "fwc_api_version (fw_modes b c) = fwc_api_version c" "fw_tampered (fw_modes b c) = fw_tampered c"
  "fwc_beacon_addr (fw_modes b c) = le32_of (read_at 16 4 b)"
  by (simp_all add: fw_modes_def Let_def fw_tampered_def)

lemma fw_otus_total:
  assumes "fw_verified c"
  shows "\<exists>e c'. fw_otus b c = Some (e, c') \<and> (e = None \<longrightarrow> \<not> fw_tampered c' \<and> fwc_api_version c' = 1 \<and>
    fwc_beacon_addr c' = le32_of (read_at 16 4 b) \<and> (fwc_tx_seq_table c' = 0 \<or> valid_cpu_addr (fwc_tx_seq_table c')))"
proof -
  define c1 where "c1 = c\<lparr>fwc_api_version := ucast (b ! 30)\<rparr>"
  define c4 where "c4 = fw_limits b (fw_features b (fw_flags b c1))"
  have c4: "fwc_data c4 = fwc_data c" "fwc_desc c4 = fwc_desc c" "fwc_api_version c4 = ucast (b ! 30)"
    by (simp_all add: c4_def c1_def fw_limits_same fw_features_same fw_flags_same)
  have v: "fw_verified (fw_modes b c4)"
    using assms by (simp add: fw_verified_def fw_modes_same c4)
  obtain e t where t: "ar9170_fw_tx_sequence (fw_modes b c4) = Some (e, (fw_modes b c4)\<lparr>fwc_tx_seq_table := t\<rparr>)"
    "e = None \<longrightarrow> t = 0 \<or> valid_cpu_addr t" using fw_tx_sequence_total [OF v] by blast
  have same: "fw_tampered (x\<lparr>fwc_tx_seq_table := t\<rparr>) = fw_tampered x" for x by (simp add: fw_tampered_def)
  have one: "x = 1" if "\<not> x < 1" "\<not> x > 1" for x :: u32 using that by (meson linorder_neqE)
  consider (err) e' c' where "fw_otus b c = Some (Some e', c')"
    | (ok) "fw_otus b c = ar9170_fw_tx_sequence (fw_modes b c4)" "\<not> fw_tampered c4" "(ucast (b ! 30) :: u32) = 1"
  proof -
    let ?S = "ar9170fw_supports (le32_of (read_at 8 4 b))"
    note e = fw_otus_def [of b c, unfolded Let_def, folded c1_def, folded c4_def]
    show thesis
    proof (cases "?S 0 \<and> \<not> (fwc_api_version c1 < 1 \<or> fwc_api_version c1 > 1) \<and> \<not> (\<not> ?S 7 \<or> ?S 6 \<or> \<not> ?S 10) \<and> ?S 2 \<and> \<not> fw_tampered c4")
      case True
      have "fw_otus b c = ar9170_fw_tx_sequence (fw_modes b c4)" using e True by simp
      moreover have "fwc_api_version c1 = 1" using one True by blast
      ultimately show thesis using ok True by (simp add: c1_def)
    next
      case False
      then have "\<exists>e' c'. fw_otus b c = Some (Some e', c')" unfolding e by auto
      then show thesis using err by blast
    qed
  qed
  then show ?thesis
  proof cases
    case err then show ?thesis by auto
  next
    case ok
    then show ?thesis using t c4 by (auto simp: same fw_modes_same)
  qed
qed

lemma find_fw_desc_room:
  assumes "ar9170_find_fw_desc d = Some p"
  shows "p + 12 \<le> length d"
proof -
  obtain s f where s: "fw_scan d 0 0 = (s, f)" by force
  with assms have f: "f = 4" "p = s - 4" by (auto simp: ar9170_find_fw_desc_def split: if_splits)
  have "scan_ok d 0 0" by (simp add: scan_ok_def read_at_def)
  from fw_scan_sound [OF this s f(1)] f(2) show ?thesis by auto
qed

text \<open>An image that passes the verification and whose release string has no end.\<close>

definition release_open :: "u8 list \<Rightarrow> bool" where
  "release_open d = (case ar9170_find_fw_desc d of
     None \<Rightarrow> False
   | Some p \<Rightarrow> ar9170_fw_verify_descs d p (length d - p) = Some None \<and>
       (case fw_find_loop d p MOTD_MAGIC 56 2 of Some (Some m) \<Rightarrow> 0 \<notin> set (drop (m + 36) d) | _ \<Rightarrow> False))"

lemma fw_info_result:
  assumes "fwc_data c = Some d" "fwc_desc c = Some p" "fw_find_loop d p MOTD_MAGIC 56 2 = Some motd"
    "ar9170_find_fw_desc d = Some p" "ar9170_fw_verify_descs d p (length d - p) = Some None"
  shows "(release_open d \<longrightarrow> ar9170_fw_info c = None) \<and>
    (\<not> release_open d \<longrightarrow> (\<exists>v. ar9170_fw_info c = Some (c\<lparr>fwc_version := v\<rparr>)))"
proof -
  have find: "ar9170_fw_find_desc MOTD_MAGIC 56 2 c = Some motd" using assms(1-3) by (simp add: ar9170_fw_find_desc_def)
  show ?thesis
  proof (cases motd)
    case None
    have "ar9170_fw_info c = Some (c\<lparr>fwc_version := fwc_version c\<rparr>)" using find None by (simp add: ar9170_fw_info_def)
    moreover have "\<not> release_open d" using assms(3,4) None by (simp add: release_open_def)
    ultimately show ?thesis by blast
  next
    case (Some m)
    have r: "release_open d = (0 \<notin> set (drop (m + 36) d))" using assms(3-5) Some by (simp add: release_open_def)
    have i: "ar9170_fw_info c = Option.bind (c_string (m + 36) d) (\<lambda>v. Some (c\<lparr>fwc_version := take 31 v\<rparr>))"
      using find Some assms(1) by (simp add: ar9170_fw_info_def)
    show ?thesis unfolding r i c_string_def by (simp, blast)
  qed
qed

text \<open>What an image has to satisfy to be accepted.\<close>

definition fw_accepted :: "u8 list \<Rightarrow> fw_state \<Rightarrow> bool" where
  "fw_accepted d c \<longleftrightarrow>
    fwc_api_version c = 1 \<and> 0 < fwc_vif_num c \<and> fwc_vif_num c < 7 \<and> 0 < fwc_cmd_bufs c \<and> 16 \<le> fwc_mem_blocks c \<and>
    64 \<le> fwc_mem_block_size c \<and> fwc_mem_block_size c \<le> 512 \<and> 4096 \<le> fwc_rx_size c \<and> fwc_rx_size c \<le> 32768 \<and>
    valid_cpu_addr (fwc_address c) \<and> (fwc_tx_seq_table c = 0 \<or> valid_cpu_addr (fwc_tx_seq_table c)) \<and>
    (\<exists>p. p + 32 \<le> length d \<and> read_at p 4 d = OTUS_MAGIC \<and> fwc_beacon_addr c = le32_of (read_at (p + 16) 4 d))"

lemma fw_checked:
  assumes c: "fwc_data c = Some d" "fwc_desc c = Some p" and ver: "fw_verify_loop d p m (p + m) = Some None" "p + m \<le> length d"
  shows "\<exists>r c'. ar9170_fw (of_nat (length d)) c = Some (r, c') \<and> (r = None \<longrightarrow> fw_accepted d c')"
proof -
  have v: "fw_verified c" using c ver unfolding fw_verified_def by blast
  obtain chk where chk: "ar9170_fw_checksum (of_nat (length d)) c = Some chk" using fw_checksum_total [OF v] by blast
  obtain r where r: "fw_find_loop d p OTUS_MAGIC 32 7 = Some r"
    "\<forall>q. r = Some q \<longrightarrow> desc_inside d (p + m) OTUS_MAGIC 32 7 q" using fw_verified_find [OF ver] by blast
  have o: "ar9170_fw_find_desc OTUS_MAGIC 32 7 c = Some r" using r(1) c by (simp add: ar9170_fw_find_desc_def)
  show ?thesis
  proof (cases "chk = None \<and> r \<noteq> None")
    case False
    then show ?thesis using chk o by (auto simp: ar9170_fw_def split: option.splits)
  next
    case True
    then obtain q where q: "r = Some q" by blast
    then have i: "desc_inside d (p + m) OTUS_MAGIC 32 7 q" using r(2) by blast
    note q32 = desc_inside_room [OF i ver(2)]
    have "take 4 (read_at q 8 d) = OTUS_MAGIC" using i by (simp add: desc_inside_def ar9170fw_desc_cmp_def)
    then have magic: "read_at q 4 d = OTUS_MAGIC" by (simp add: read_at_def)
    have fw: "ar9170_fw (of_nat (length d)) c = fw_otus (read_at q 32 d) c"
      using chk o True q q32 c(1) by (simp add: ar9170_fw_def)
    have "read_at 16 4 (read_at q 32 d) = read_at (q + 16) 4 d" by (simp add: read_read)
    then show ?thesis using fw_otus_total [OF v, of "read_at q 32 d"] q32 magic
      unfolding fw by (auto simp: fw_tampered_def fw_accepted_def not_less not_le word_gt_0)
  qed
qed

text \<open>
  C19. Whatever the image is, parsing it returns without reading outside of it, with one exception: when
  no zero byte follows the start of the release string, copying the string reads over the end of the
  image. An image that is
  accepted has passed every check: the interface of the firmware is the one the driver knows, the
  numbers of virtual interfaces, command buffers, memory blocks and the sizes of blocks and frames are
  within their limits, the addresses lie in the device's memory, and the address of the beacon is the
  one of the image's descriptor.
\<close>

theorem fw_parse_safe:
  assumes "fwc_data c = Some d"
  shows "(release_open d \<longrightarrow> ar9170_parse_firmware c = None) \<and>
    (\<not> release_open d \<longrightarrow> (\<exists>r c'. ar9170_parse_firmware c = Some (r, c') \<and> (r = None \<longrightarrow>
      fwc_api_version c' = 1 \<and> 0 < fwc_vif_num c' \<and> fwc_vif_num c' < 7 \<and> 0 < fwc_cmd_bufs c' \<and> 16 \<le> fwc_mem_blocks c' \<and>
      64 \<le> fwc_mem_block_size c' \<and> fwc_mem_block_size c' \<le> 512 \<and> 4096 \<le> fwc_rx_size c' \<and> fwc_rx_size c' \<le> 32768 \<and>
      valid_cpu_addr (fwc_address c') \<and> (fwc_tx_seq_table c' = 0 \<or> valid_cpu_addr (fwc_tx_seq_table c')) \<and>
      (\<exists>p. p + 32 \<le> length d \<and> read_at p 4 d = OTUS_MAGIC \<and> fwc_beacon_addr c' = le32_of (read_at (p + 16) 4 d)))))"
proof (cases "ar9170_find_fw_desc d")
  case None then show ?thesis using assms by (simp add: ar9170_parse_firmware_def release_open_def)
next
  case (Some p)
  note room = find_fw_desc_room [OF Some]
  define m where "m = min CARL9170FW_DESC_MAX_LENGTH (length d - p)"
  have fin: "p + m \<le> length d" using room by (simp add: m_def)
  have ver: "ar9170_fw_verify_descs d p (length d - p) = fw_verify_loop d p m (p + m)"
  proof -
    have "\<not> length d - p < 8" using room by simp
    then show ?thesis by (simp add: ar9170_fw_verify_descs_def m_def Let_def)
  qed
  obtain err where err: "fw_verify_loop d p m (p + m) = Some err" using fw_verify_total [OF fin] by blast
  show ?thesis
  proof (cases err)
    case e: (Some e) then show ?thesis using assms Some ver err by (simp add: ar9170_parse_firmware_def release_open_def)
  next
    case ok: None
    define c0 where "c0 = c\<lparr>fwc_desc := Some p\<rparr>"
    have c0: "fwc_data c0 = Some d" "fwc_desc c0 = Some p" using assms by (simp_all add: c0_def)
    note v = err [unfolded ok]
    obtain motd where motd: "fw_find_loop d p MOTD_MAGIC 56 2 = Some motd" using fw_verified_find [OF v fin] by blast
    note info = fw_info_result [OF c0 motd Some ver [unfolded v]]
    have parse: "ar9170_parse_firmware c = Option.bind (ar9170_fw_info c0) (ar9170_fw (of_nat (length d)))"
      using assms Some ver v by (simp add: ar9170_parse_firmware_def c0_def)
    have "\<exists>r c'. ar9170_parse_firmware c = Some (r, c') \<and> (r = None \<longrightarrow> fw_accepted d c')" if ended: "\<not> release_open d"
    proof -
      obtain vs where vs: "ar9170_fw_info c0 = Some (c0\<lparr>fwc_version := vs\<rparr>)" using info ended by blast
      show ?thesis using fw_checked [of "c0\<lparr>fwc_version := vs\<rparr>" d p m] v fin c0 by (simp add: parse vs)
    qed
    then show ?thesis using info parse by (auto simp: fw_accepted_def)
  qed
qed

text \<open>An image with a descriptor of its features and the last one.\<close>

definition fw_image :: "u8 list" where
  "fw_image = replicate 12 0 @ OTUS_MAGIC @ [32, 0, 6, 7, 0x85, 0x05, 0, 0, 0, 0, 0x20, 0, 0, 0x70, 0x11, 0, 0, 1, 12, 0,
     0, 2, 0, 0x20, 100, 4, 1, 1] @ LAST_MAGIC @ [8, 0, 1, 2]"

definition fw0 :: fw_state where
  "fw0 = \<lparr>fwc_data = None, fwc_desc = None, fwc_api_version = 0, fwc_offset = 0, fwc_vif_num = 0, fwc_cmd_bufs = 0,
     fwc_address = 0, fwc_rx_size = 0, fwc_mem_blocks = 0, fwc_mem_free_blocks = 0, fwc_mem_block_size = 0, fwc_beacon_addr = 0,
     fwc_beacon_max_len = 0, fwc_tx_stream = False, fwc_rx_stream = False, fwc_rx_filter = False, fwc_hw_counters = False,
     fwc_ba_filter = False, fwc_tx_seq_table = 0, fwc_rx_filter_caps = 0, fwc_disable_offload = False, fwc_hw_flags = 0,
     fwc_tx_headroom = 0, fwc_interface_modes = 0, fwc_if_types = 0, fwc_version = []\<rparr>"

lemma fw_image_accepted: "map_option fst (ar9170_parse_firmware (fw0\<lparr>fwc_data := Some fw_image\<rparr>)) = Some None"
  by code_simp

text \<open>An image without a zero byte behind its release string: the last descriptor is 264 bytes long.\<close>

definition fw_image_open :: "u8 list" where
  "fw_image_open = take 44 fw_image @ MOTD_MAGIC @ [56, 0, 1, 2] @ replicate 48 0x31 @ LAST_MAGIC @ [8, 1, 1, 2] @ replicate 256 0x31"

lemma fw_images_release: "\<not> release_open fw_image" "release_open fw_image_open"
  by code_simp+

lemma fw_parse_safe_witness:
  "ar9170_parse_firmware (fw0\<lparr>fwc_data := Some fw_image_open\<rparr>) = None \<and>
   (\<exists>c. ar9170_parse_firmware (fw0\<lparr>fwc_data := Some fw_image\<rparr>) = Some (None, c) \<and> 0 < fwc_vif_num c \<and> valid_cpu_addr (fwc_address c))"
  using fw_parse_safe [of "fw0\<lparr>fwc_data := Some fw_image\<rparr>" fw_image] fw_image_accepted
    fw_parse_safe [of "fw0\<lparr>fwc_data := Some fw_image_open\<rparr>" fw_image_open] fw_images_release by auto

lemma fw_magic_search_witness: "ar9170_find_fw_desc fw_image = Some 12 \<and> ar9170_find_fw_desc (replicate 12 0 @ 0x4f # drop 12 fw_image) = None"
proof -
  define d where "d = replicate 12 0 @ 0x4f # drop 12 fw_image"
  have a: "ar9170fw_size_check (length fw_image)" "read_at 12 4 fw_image = OTUS_MAGIC" by code_simp+
  have a3: "list_all (\<lambda>q. read_at q 4 fw_image \<noteq> OTUS_MAGIC) [0..<12]" by code_simp
  have a4: "list_all (\<lambda>k. read_at (12 - k) k fw_image \<noteq> take k OTUS_MAGIC) [1, 2, 3]" by code_simp
  have l: "length fw_image = 52" by code_simp
  have b: "ar9170fw_size_check (length d)" unfolding d_def by code_simp
  have c: "replicate 12 0 @ 0x4f # drop 12 fw_image = replicate 12 0 @ [0x4f] @ OTUS_MAGIC @ drop 16 fw_image" by code_simp
  have m: "list_all (\<lambda>x. x \<noteq> 0x4f) (replicate 12 0 @ drop 16 fw_image)" by code_simp
  have "ar9170_find_fw_desc fw_image = Some 12"
    by (rule fw_magic_search [OF a(1), THEN conjunct2, THEN conjunct1, rule_format])
      (use a(2) a3 a4 l in \<open>auto simp: list_all_iff\<close>)
  moreover have "ar9170_find_fw_desc d = None"
    by (rule fw_magic_search [OF b, THEN conjunct2, THEN conjunct2, rule_format])
      (use c m in \<open>auto simp: d_def list_all_iff\<close>)
  ultimately show ?thesis by (simp add: d_def)
qed

section \<open>The image in the device\<close>

text \<open>What the device's memory holds after the transfers: the data of a request 30 goes to 256 times its value.\<close>

fun fw_memory :: "(u8 \<times> u16 \<times> u8 list) list \<Rightarrow> nat \<Rightarrow> u8 option" where
  "fw_memory [] a = None"
| "fw_memory ((r, v, b) # ts) a = (case fw_memory ts a of Some x \<Rightarrow> Some x
     | None \<Rightarrow> if r = 0x30 \<and> 256 * unat v \<le> a \<and> a < 256 * unat v + length b then Some (b ! (a - 256 * unat v)) else None)"

lemma chunk_addr:
  assumes "unat addr = A" "A < 2 ^ 24" "256 dvd A"
  shows "256 * unat (ucast (drop_bit 8 addr) :: u16) = A"
proof -
  have "unat (drop_bit 8 addr) = A div 256" using assms(1) unfolding unat_drop_bit_eq by (simp add: drop_bit_eq_div)
  moreover have "A div 256 < 2 ^ 16" using assms(2) by simp
  ultimately have "unat (ucast (drop_bit 8 addr) :: u16) = A div 256"
    by (simp add: unsigned_ucast_eq take_bit_nat_eq_self)
  then show ?thesis using assms(3) by simp
qed

lemma fw_upload_memory:
  assumes "remaining + index = length d" "unat addr = A" "A + remaining < 2 ^ 24" "256 dvd A"
  shows "\<exists>ts. fw_upload_loop d remaining index addr [] = (ts @ [(0x31, 0, [])], True) \<and> (\<forall>a. fw_memory (ts @ [(0x31, 0, [])]) a =
      (if A \<le> a \<and> a < A + remaining then Some (d ! (index + (a - A))) else None))"
  using assms
proof (induction remaining arbitrary: index addr A rule: less_induct)
  case (less remaining)
  define n where "n = min remaining FW_CHUNK_SIZE"
  define v where "v = (ucast (drop_bit 8 addr) :: u16)"
  show ?case
  proof (cases "remaining = 0")
    case True
    then show ?thesis by (intro exI [of _ "[]"]) (simp add: fw_upload_loop.simps [of d 0])
  next
    case False
    have n: "0 < n" "n \<le> remaining" "n \<le> 4096" "n < remaining \<Longrightarrow> n = 4096"
      using False by (auto simp: n_def FW_CHUNK_SIZE_def)
    have v: "256 * unat v = A" using chunk_addr [of addr A] less.prems by (simp add: v_def)
    have addr: "unat (addr + of_nat n) = A + n"
      using less.prems(2,3) n by (simp add: unat_word_ariths unat_of_nat_u32)
    have al: "n < remaining \<Longrightarrow> 256 dvd (A + n)" using n(4) less.prems(4) by (auto intro: dvd_add)
    have step: "fw_upload_loop d remaining index addr [] =
        (let (ts, r) = fw_upload_loop d (remaining - n) (index + n) (addr + of_nat n) [] in ((0x30, v, read_at index n d) # ts, r))"
      using False by (subst fw_upload_loop.simps) (simp add: n_def v_def Let_def)
    have here: "read_at index n d ! k = d ! (index + k)" "length (read_at index n d) = n" if "k < n" for k
      using that less.prems(1) n(2) by (simp_all add: read_at_def)
    have len: "length (read_at index n d) = n" using less.prems(1) n(2) by (simp add: read_at_def)
    show ?thesis
    proof (cases "n < remaining")
      case True
      obtain ts where ts: "fw_upload_loop d (remaining - n) (index + n) (addr + of_nat n) [] = (ts @ [(0x31, 0, [])], True)"
        "\<forall>a. fw_memory (ts @ [(0x31, 0, [])]) a =
          (if A + n \<le> a \<and> a < A + n + (remaining - n) then Some (d ! (index + n + (a - (A + n)))) else None)"
        using less.IH [of "remaining - n" "index + n" "addr + of_nat n" "A + n"] less.prems n addr al [OF True] by auto
      have "fw_memory (((0x30, v, read_at index n d) # ts) @ [(0x31, 0, [])]) a =
          (if A \<le> a \<and> a < A + remaining then Some (d ! (index + (a - A))) else None)" for a
        using ts(2) n(2) here(1) len by (auto simp: v)
      then show ?thesis using step ts(1) by (intro exI [of _ "(0x30, v, read_at index n d) # ts"]) simp
    next
      case False
      then have nr: "n = remaining" using n(2) by simp
      have "fw_upload_loop d 0 (index + n) (addr + of_nat n) [] = ([(0x31, 0, [])], True)"
        by (simp add: fw_upload_loop.simps [of d 0])
      moreover have "fw_memory ([(0x30, v, read_at index n d)] @ [(0x31, 0, [])]) a =
          (if A \<le> a \<and> a < A + remaining then Some (d ! (index + (a - A))) else None)" for a
        using here(1) len nr by (auto simp: v)
      ultimately show ?thesis using step nr by (intro exI [of _ "[(0x30, v, read_at index n d)]"]) simp
    qed
  qed
qed

lemma fw_upload_stops:
  assumes "False \<in> set (take k ok)" "k * FW_CHUNK_SIZE \<le> remaining + FW_CHUNK_SIZE - 1"
  shows "\<not> snd (fw_upload_loop d remaining index addr ok) \<and> (\<forall>t \<in> set (fst (fw_upload_loop d remaining index addr ok)). fst t = 0x30)"
  using assms
proof (induction k arbitrary: remaining index addr ok)
  case (Suc k)
  define n where "n = min remaining FW_CHUNK_SIZE"
  have r: "remaining > 0" using Suc.prems(2) by (simp add: FW_CHUNK_SIZE_def)
  obtain b bs where ok: "ok = b # bs" using Suc.prems(1) by (cases ok) auto
  show ?case
  proof (cases b)
    case False then show ?thesis using r ok by (subst (1 2) fw_upload_loop.simps) (simp add: Let_def)
  next
    case True
    have "False \<in> set (take k bs)" using Suc.prems(1) ok True by auto
    moreover have "k * FW_CHUNK_SIZE \<le> remaining - n + FW_CHUNK_SIZE - 1"
      using Suc.prems(2) by (auto simp: n_def FW_CHUNK_SIZE_def)
    ultimately have ih: "\<not> snd (fw_upload_loop d (remaining - n) (index + n) (addr + of_nat n) bs) \<and>
        (\<forall>t \<in> set (fst (fw_upload_loop d (remaining - n) (index + n) (addr + of_nat n) bs)). fst t = 0x30)"
      by (rule Suc.IH)
    have "fw_upload_loop d remaining index addr ok =
        (let (ts, r) = fw_upload_loop d (remaining - n) (index + n) (addr + of_nat n) bs in
         ((0x30, ucast (drop_bit 8 addr), read_at index n d) # ts, r))"
      using r ok True by (subst fw_upload_loop.simps) (simp add: n_def Let_def)
    then show ?thesis using ih by (simp split: prod.splits)
  qed
qed simp

text \<open>
  C20. After an upload in which every transfer is taken the device's memory holds, from address \<open>0x200000\<close> on,
  exactly the image without its first twelve bytes, and the last transfer starts it. When one of the
  transfers of the image is refused, the upload fails and the image is not started.
\<close>

theorem fw_upload_exact:
  assumes "ar9170fw_size_check (length d)"
  shows "(\<exists>ts. ar9170_upload_firmware d [] = (ts @ [(0x31, 0, [])], True) \<and>
      (\<forall>a. fw_memory ts a = (if 0x200000 \<le> a \<and> a < 0x200000 + (length d - 12) then Some (d ! (12 + (a - 0x200000))) else None))) \<and>
    (\<forall>k ok. False \<in> set (take k ok) \<and> k * FW_CHUNK_SIZE < length d - 12 + FW_CHUNK_SIZE \<longrightarrow>
      \<not> snd (ar9170_upload_firmware d ok) \<and> (\<forall>t \<in> set (fst (ar9170_upload_firmware d ok)). fst t \<noteq> 0x31))"
proof (intro conjI allI impI ballI)
  have l: "12 \<le> length d" "length d \<le> 16384" using assms by (simp_all add: ar9170fw_size_check_def)
  have app: "fw_memory (ts @ [(0x31, 0, [])]) a = fw_memory ts a" for ts a
    by (induction ts) (auto split: option.splits)
  have "unat (0x200000 :: u32) = 0x200000" "256 dvd (0x200000 :: nat)" by simp_all
  from fw_upload_memory [OF _ this(1) _ this(2), of "length d - 12" 12 d] l
  show "\<exists>ts. ar9170_upload_firmware d [] = (ts @ [(0x31, 0, [])], True) \<and>
      (\<forall>a. fw_memory ts a = (if 0x200000 \<le> a \<and> a < 0x200000 + (length d - 12) then Some (d ! (12 + (a - 0x200000))) else None))"
    unfolding ar9170_upload_firmware_def FW_MINIBOOT_SIZE_def app by simp
next
  fix k ok assume "False \<in> set (take k ok) \<and> k * FW_CHUNK_SIZE < length d - 12 + FW_CHUNK_SIZE"
  then have *: "False \<in> set (take k ok)" "k * FW_CHUNK_SIZE \<le> length d - FW_MINIBOOT_SIZE + FW_CHUNK_SIZE - 1"
    by (simp_all add: FW_MINIBOOT_SIZE_def FW_CHUNK_SIZE_def)
  show "\<not> snd (ar9170_upload_firmware d ok)" "\<And>t. t \<in> set (fst (ar9170_upload_firmware d ok)) \<Longrightarrow> fst t \<noteq> 0x31"
    using fw_upload_stops [OF *] by (auto simp: ar9170_upload_firmware_def)
qed

lemma fw_upload_exact_witness:
  "(\<exists>ts. ar9170_upload_firmware fw_image [] = (ts @ [(0x31, 0, [])], True) \<and> fw_memory ts 0x200000 = Some 0x4f) \<and>
   \<not> snd (ar9170_upload_firmware fw_image [False])"
proof -
  have "ar9170fw_size_check (length fw_image)" "length fw_image = 52" "fw_image ! 12 = 0x4f" by code_simp+
  from fw_upload_exact [OF this(1)] this(2,3)
  have "\<exists>ts. ar9170_upload_firmware fw_image [] = (ts @ [(0x31, 0, [])], True) \<and> fw_memory ts 0x200000 = Some 0x4f"
    "False \<in> set (take 1 [False]) \<Longrightarrow> \<not> snd (ar9170_upload_firmware fw_image [False])"
    by (fastforce simp: FW_CHUNK_SIZE_def)+
  then show ?thesis by simp
qed

end
