(* ===== verification/Hc06.thy ===== *)
theory Hc06
  imports Timers
begin

text \<open>
  IPv6 header compression (\<open>core/net/sicslowpan.c\<close>, HC06 as \<open>platform/contiki-conf.h\<close> selects it): the
  compression of the IPv6 and UDP headers of a packet, their decompression, and the address tests of
  \<open>uip.h\<close>, \<open>uip-ds6.c\<close> and \<open>sicslowpan.h\<close> they use.

  A packet is the list of its bytes. The compressed header is built by appending to a list where the code
  writes behind \<open>hc06_ptr\<close>; the decompression reads at an offset in the received bytes (reading outside of
  the packet buffer fails) and writes into the reassembly buffer, where the code overlays its
  \<open>struct uip_ip_hdr\<close>.
\<close>

section \<open>Addresses\<close>

abbreviation (input) UIP_PROTO_UDP :: u8 where "UIP_PROTO_UDP \<equiv> 17"
abbreviation (input) UIP_PROTO_TCP :: u8 where "UIP_PROTO_TCP \<equiv> 6"

definition be16_of :: "u8 list \<Rightarrow> u16" where
  "be16_of b = push_bit 8 (ucast (b ! 0)) OR ucast (b ! 1)"

definition be16_bytes :: "u16 \<Rightarrow> u8 list" where
  "be16_bytes w = [ucast (drop_bit 8 w), ucast w]"

definition u16_zero :: "nat \<Rightarrow> u8 list \<Rightarrow> bool" where
  "u16_zero i a \<longleftrightarrow> a ! (2 * i) = 0 \<and> a ! (2 * i + 1) = 0"

definition uip_is_addr_unspecified :: "u8 list \<Rightarrow> bool" where
  "uip_is_addr_unspecified a \<longleftrightarrow> u16_zero 0 a \<and> u16_zero 1 a \<and> u16_zero 2 a \<and> u16_zero 3 a \<and>
     u16_zero 4 a \<and> u16_zero 5 a \<and> u16_zero 6 a \<and> u16_zero 7 a"

definition uip_is_addr_link_local :: "u8 list \<Rightarrow> bool" where
  "uip_is_addr_link_local a \<longleftrightarrow> a ! 0 = 0xFE \<and> a ! 1 = 0x80"

definition uip_is_addr_mcast :: "u8 list \<Rightarrow> bool" where
  "uip_is_addr_mcast a \<longleftrightarrow> a ! 0 = 0xFF"

definition uip_is_addr_mac_addr_based :: "u8 list \<Rightarrow> u8 list \<Rightarrow> bool" where
  "uip_is_addr_mac_addr_based a m \<longleftrightarrow> a ! 8 = (m ! 0 OR 2) \<and> a ! 9 = m ! 1 \<and> a ! 10 = m ! 2 \<and> a ! 11 = 0xff \<and>
     a ! 12 = 0xfe \<and> a ! 13 = m ! 3 \<and> a ! 14 = m ! 4 \<and> a ! 15 = m ! 5"

text \<open>The interface identifier of the address at \<open>pos\<close> of the buffer.\<close>

definition uip_ds6_set_addr_iid :: "nat \<Rightarrow> u8 list \<Rightarrow> u8 list \<Rightarrow> u8 list" where
  "uip_ds6_set_addr_iid pos m buf =
     (let b1 = write_at (pos + 8) (take 3 m) buf; b2 = b1[pos + 11 := 0xff, pos + 12 := 0xfe];
          b3 = write_at (pos + 13) (read_at 3 3 m) b2
      in b3[pos + 8 := b3 ! (pos + 8) XOR 2])"

definition sicslowpan_is_iid_16_bit_compressable :: "u8 list \<Rightarrow> bool" where
  "sicslowpan_is_iid_16_bit_compressable a \<longleftrightarrow>
     u16_zero 4 a \<and> a ! 10 = 0 \<and> a ! 11 = 0xff \<and> a ! 12 = 0xfe \<and> a ! 13 = 0"

definition sicslowpan_is_mcast_addr_compressable48 :: "u8 list \<Rightarrow> bool" where
  "sicslowpan_is_mcast_addr_compressable48 a \<longleftrightarrow> u16_zero 1 a \<and> u16_zero 2 a \<and> u16_zero 3 a \<and> u16_zero 4 a \<and> a ! 10 = 0"

definition sicslowpan_is_mcast_addr_compressable32 :: "u8 list \<Rightarrow> bool" where
  "sicslowpan_is_mcast_addr_compressable32 a \<longleftrightarrow>
     u16_zero 1 a \<and> u16_zero 2 a \<and> u16_zero 3 a \<and> u16_zero 4 a \<and> u16_zero 5 a \<and> a ! 12 = 0"

definition sicslowpan_is_mcast_addr_compressable8 :: "u8 list \<Rightarrow> bool" where
  "sicslowpan_is_mcast_addr_compressable8 a \<longleftrightarrow> a ! 1 = 2 \<and>
     u16_zero 1 a \<and> u16_zero 2 a \<and> u16_zero 3 a \<and> u16_zero 4 a \<and> u16_zero 5 a \<and> u16_zero 6 a \<and> a ! 14 = 0"

section \<open>Contexts\<close>

record addr_context =
  ctx_used :: u8
  ctx_number :: u8
  ctx_prefix :: "u8 list"

definition addr_context_lookup_by_prefix :: "addr_context list \<Rightarrow> u8 list \<Rightarrow> addr_context option" where
  "addr_context_lookup_by_prefix ctxs a = find (\<lambda>c. ctx_used c = 1 \<and> ctx_prefix c = take 8 a) ctxs"

definition addr_context_lookup_by_number :: "addr_context list \<Rightarrow> u8 \<Rightarrow> addr_context option" where
  "addr_context_lookup_by_number ctxs number = find (\<lambda>c. ctx_used c = 1 \<and> ctx_number c = number) ctxs"

text \<open>The contexts that \<open>sicslowpan_init\<close> sets up.\<close>

definition sicslowpan_init_contexts :: "addr_context list" where
  "sicslowpan_init_contexts =
     [\<lparr>ctx_used = 1, ctx_number = 0, ctx_prefix = [0xaa, 0xaa, 0, 0, 0, 0, 0, 0]\<rparr>,
      \<lparr>ctx_used = 0, ctx_number = 0, ctx_prefix = replicate 8 0\<rparr>]"

section \<open>Compression\<close>

definition ip_src :: "u8 list \<Rightarrow> u8 list" where "ip_src p = read_at 8 16 p"
definition ip_dst :: "u8 list \<Rightarrow> u8 list" where "ip_dst p = read_at 24 16 p"

definition compress_addr_64 :: "nat \<Rightarrow> u8 list \<Rightarrow> u8 list \<Rightarrow> u8 \<times> u8 list" where
  "compress_addr_64 bitpos a m =
     (if uip_is_addr_mac_addr_based a m then (push_bit bitpos 3, [])
      else if sicslowpan_is_iid_16_bit_compressable a then (push_bit bitpos 2, read_at 14 2 a)
      else (push_bit bitpos 1, read_at 8 8 a))"

text \<open>Traffic class and flow label: the bits of the first byte of the encoding and the inline bytes.\<close>

definition hc06_tf :: "u8 list \<Rightarrow> u8 \<times> u8 list" where
  "hc06_tf p =
     (let t = push_bit 4 (p ! 0) OR drop_bit 4 (p ! 1); tmp = push_bit 6 (t AND 3) OR drop_bit 2 t;
          no_tc = (p ! 0 AND 0x0f = 0 \<and> p ! 1 AND 0xf0 = 0)
      in if p ! 1 AND 0x0f = 0 \<and> u16_zero 1 p then if no_tc then (0x18, []) else (0x10, [tmp])
         else if no_tc then (0x08, ((tmp AND 0xc0) OR (p ! 1 AND 0x0f)) # read_at 2 2 p)
         else (0, tmp # read_at 1 3 p))"

definition hc06_nh :: "u8 list \<Rightarrow> u8 \<times> u8 list" where
  "hc06_nh p = (if p ! 6 = UIP_PROTO_UDP then (4, []) else (0, [p ! 6]))"

definition hc06_ttl :: "u8 list \<Rightarrow> u8 \<times> u8 list" where
  "hc06_ttl p = (if p ! 7 = 1 then (1, []) else if p ! 7 = 64 then (2, []) else if p ! 7 = 255 then (3, []) else (0, [p ! 7]))"

text \<open>
  Addresses: the bits of the second byte of the encoding, those of the byte of contexts, and the inline
  bytes. The test of a link-local source looks at the destination's words.
\<close>

definition hc06_src :: "addr_context list \<Rightarrow> u8 list \<Rightarrow> u8 list \<Rightarrow> u8 \<times> u8 \<times> u8 list" where
  "hc06_src ctxs lladdr p =
     (if uip_is_addr_unspecified (ip_src p) then (0x40, 0, [])
      else case addr_context_lookup_by_prefix ctxs (ip_src p) of
        Some c \<Rightarrow> let (m, bs) = compress_addr_64 4 (ip_src p) lladdr in (0x80 OR 0x40 OR m, push_bit 4 (ctx_number c), bs)
      | None \<Rightarrow>
          if uip_is_addr_link_local (ip_src p) \<and> u16_zero 1 (ip_dst p) \<and> u16_zero 2 (ip_dst p) \<and> u16_zero 3 (ip_dst p)
          then let (m, bs) = compress_addr_64 4 (ip_src p) lladdr in (m, 0, bs)
          else (0, 0, ip_src p))"

definition hc06_dst :: "addr_context list \<Rightarrow> u8 list \<Rightarrow> u8 list \<Rightarrow> u8 \<times> u8 \<times> u8 list" where
  "hc06_dst ctxs dest p =
     (let a = ip_dst p in
      if uip_is_addr_mcast a then
        if sicslowpan_is_mcast_addr_compressable8 a then (0x08 OR 3, 0, [a ! 15])
        else if sicslowpan_is_mcast_addr_compressable32 a then (0x08 OR 2, 0, a ! 1 # read_at 13 3 a)
        else if sicslowpan_is_mcast_addr_compressable48 a then (0x08 OR 1, 0, a ! 1 # read_at 11 5 a)
        else (0x08, 0, a)
      else case addr_context_lookup_by_prefix ctxs a of
        Some c \<Rightarrow> let (m, bs) = compress_addr_64 0 a dest in (0x04 OR m, ctx_number c, bs)
      | None \<Rightarrow>
          if uip_is_addr_link_local a \<and> u16_zero 1 a \<and> u16_zero 2 a \<and> u16_zero 3 a
          then let (m, bs) = compress_addr_64 0 a dest in (m, 0, bs)
          else (0, 0, a))"

text \<open>The UDP header; the checksum is always inline.\<close>

definition hc06_udp :: "u8 list \<Rightarrow> u8 list" where
  "hc06_udp p =
     (let sp = be16_of (read_at 40 2 p); dp = be16_of (read_at 42 2 p) in
      (if sp AND 0xfff0 = 0xf0b0 \<and> dp AND 0xfff0 = 0xf0b0
       then [0xf3, ucast (push_bit 4 (sp - 0xf0b0)) + ucast (dp - 0xf0b0)]
       else if dp AND 0xff00 = 0xf000 then [0xf1] @ read_at 40 2 p @ [ucast (dp - 0xf000)]
       else if sp AND 0xff00 = 0xf000 then [0xf2, ucast (sp - 0xf000)] @ read_at 42 2 p
       else [0xf0] @ read_at 40 4 p) @ read_at 46 2 p)"

text \<open>The compressed header and the length of the headers it stands for.\<close>

definition compress_hdr_hc06 :: "addr_context list \<Rightarrow> u8 list \<Rightarrow> u8 list \<Rightarrow> u8 list \<Rightarrow> u8 list \<times> nat" where
  "compress_hdr_hc06 ctxs lladdr dest p =
     (let cid = addr_context_lookup_by_prefix ctxs (ip_dst p) \<noteq> None \<or> addr_context_lookup_by_prefix ctxs (ip_src p) \<noteq> None;
          (tf, tfs) = hc06_tf p; (nh, nhs) = hc06_nh p; (ttl, ttls) = hc06_ttl p;
          (src, sctx, srcs) = hc06_src ctxs lladdr p; (dst, dctx, dsts) = hc06_dst ctxs dest p
      in ([0x60 OR tf OR nh OR ttl, (if cid then 0x80 else 0) OR src OR dst] @ (if cid then [sctx OR dctx] else []) @
            tfs @ nhs @ ttls @ srcs @ dsts @ (if p ! 6 = UIP_PROTO_UDP then hc06_udp p else []),
          if p ! 6 = UIP_PROTO_UDP then 48 else 40))"

section \<open>Decompression\<close>

definition byte_at :: "nat \<Rightarrow> u8 list \<Rightarrow> u8 option" where
  "byte_at i rime = (if i < length rime then Some (rime ! i) else None)"

definition bytes_at :: "nat \<Rightarrow> nat \<Rightarrow> u8 list \<Rightarrow> u8 list option" where
  "bytes_at i n rime = (if i + n \<le> length rime then Some (read_at i n rime) else None)"

definition unc_llconf :: "u8 list" where "unc_llconf = [0x0f, 0x28, 0x22, 0x20]"
definition unc_ctxconf :: "u8 list" where "unc_ctxconf = [0x00, 0x88, 0x82, 0x80]"
definition unc_mxconf :: "u8 list" where "unc_mxconf = [0x0f, 0x25, 0x23, 0x21]"
definition llprefix :: "u8 list" where "llprefix = [0xfe, 0x80]"
definition ttl_values :: "u8 list" where "ttl_values = [0, 1, 64, 255]"

text \<open>The state is the buffer and \<open>hc06_ptr\<close>; \<open>pos\<close> is where the address lies in the buffer.\<close>

definition uncompress_addr :: "nat \<Rightarrow> u8 list \<Rightarrow> u8 \<Rightarrow> u8 list option \<Rightarrow> u8 list \<Rightarrow> u8 list \<times> nat \<Rightarrow> (u8 list \<times> nat) option" where
  "uncompress_addr pos pre pref_post_count lladdr rime = (\<lambda>(buf, ptr).
     let pc = unat (drop_bit 4 pref_post_count); qc = unat (pref_post_count AND 0x0f);
         prefcount = (if pc = 15 then 16 else pc); postcount = (if qc = 15 then 16 else qc);
         b1 = (if prefcount > 0 then write_at pos (take prefcount pre) buf else buf);
         b2 = (if prefcount + postcount < 16 then write_at (pos + prefcount) (replicate (16 - (prefcount + postcount)) 0) b1 else b1)
     in if postcount > 0 then
          (case bytes_at ptr postcount rime of
             None \<Rightarrow> None
           | Some bs \<Rightarrow>
               let b3 = write_at (pos + 16 - postcount) bs b2 in
               Some (if postcount = 2 \<and> prefcount < 11 then b3[pos + 11 := 0xff, pos + 12 := 0xfe] else b3, ptr + postcount))
        else if prefcount > 0 then map_option (\<lambda>m. (uip_ds6_set_addr_iid pos m b2, ptr)) lladdr
        else Some (b2, ptr))"

definition uncompress_tf :: "u8 \<Rightarrow> u8 list \<Rightarrow> u8 list \<times> nat \<Rightarrow> (u8 list \<times> nat) option" where
  "uncompress_tf iphc0 rime = (\<lambda>(buf, ptr).
     if iphc0 AND 0x10 = 0 then
       if iphc0 AND 0x08 = 0 then do {
         bs \<leftarrow> bytes_at (ptr + 1) 3 rime;
         tmp \<leftarrow> byte_at ptr rime;
         let b1 = write_at 1 bs buf;
         let b2 = b1[0 := 0x60 OR (drop_bit 2 tmp AND 0x0f)];
         Some (b2[1 := (drop_bit 2 tmp AND 0x30) OR push_bit 6 tmp OR (b2 ! 1 AND 0x0f)], ptr + 4)
       } else do {
         t \<leftarrow> byte_at ptr rime;
         bs \<leftarrow> bytes_at (ptr + 1) 2 rime;
         Some (write_at 2 bs (buf[0 := 0x60, 1 := (t AND 0x0f) OR (drop_bit 2 t AND 0x30)]), ptr + 3)
       }
     else if iphc0 AND 0x08 = 0 then do {
       t \<leftarrow> byte_at ptr rime;
       Some (buf[0 := 0x60 OR (drop_bit 2 t AND 0x0f), 1 := (push_bit 6 t AND 0xc0) OR (drop_bit 2 t AND 0x30), 2 := 0, 3 := 0], ptr + 1)
     } else Some (buf[0 := 0x60, 1 := 0, 2 := 0, 3 := 0], ptr))"

definition uncompress_nh :: "u8 \<Rightarrow> u8 list \<Rightarrow> u8 list \<times> nat \<Rightarrow> (u8 list \<times> nat) option" where
  "uncompress_nh iphc0 rime = (\<lambda>(buf, ptr).
     if iphc0 AND 4 = 0 then map_option (\<lambda>b. (buf[6 := b], ptr + 1)) (byte_at ptr rime) else Some (buf, ptr))"

definition uncompress_ttl :: "u8 \<Rightarrow> u8 list \<Rightarrow> u8 list \<times> nat \<Rightarrow> (u8 list \<times> nat) option" where
  "uncompress_ttl iphc0 rime = (\<lambda>(buf, ptr).
     if iphc0 AND 3 \<noteq> 0 then Some (buf[7 := ttl_values ! unat (iphc0 AND 3)], ptr)
     else map_option (\<lambda>b. (buf[7 := b], ptr + 1)) (byte_at ptr rime))"

text \<open>\<open>h\<close> is \<open>rime_hdr_len\<close> at the start, where the encoding lies. A context that is not known ends the
  decompression: the inner option.\<close>

definition uncompress_src ::
  "addr_context list \<Rightarrow> u8 list \<Rightarrow> nat \<Rightarrow> u8 \<Rightarrow> u8 list \<Rightarrow> u8 list \<times> nat \<Rightarrow> (u8 list \<times> nat) option option" where
  "uncompress_src ctxs sender h iphc1 rime st =
     (let tmp = unat (drop_bit 4 (iphc1 AND 0x30) AND 3) in
      if iphc1 AND 0x40 \<noteq> 0 then do {
        sci \<leftarrow> (if iphc1 AND 0x80 \<noteq> 0 then map_option (drop_bit 4) (byte_at (h + 2) rime) else Some 0);
        if tmp \<noteq> 0 then
          (case addr_context_lookup_by_number ctxs sci of
             None \<Rightarrow> Some None
           | Some c \<Rightarrow> map_option Some (uncompress_addr 8 (ctx_prefix c) (unc_ctxconf ! tmp) (Some sender) rime st))
        else map_option Some (uncompress_addr 8 [] (unc_ctxconf ! tmp) (Some sender) rime st)
      } else map_option Some (uncompress_addr 8 llprefix (unc_llconf ! tmp) (Some sender) rime st))"

definition uncompress_dst ::
  "addr_context list \<Rightarrow> u8 list \<Rightarrow> nat \<Rightarrow> u8 \<Rightarrow> u8 list \<Rightarrow> u8 list \<times> nat \<Rightarrow> (u8 list \<times> nat) option option" where
  "uncompress_dst ctxs receiver h iphc1 rime st =
     (let tmp = unat (iphc1 AND 3) in
      if iphc1 AND 0x08 \<noteq> 0 then
        if iphc1 AND 0x04 \<noteq> 0 then Some (Some st)
        else if 0 < tmp \<and> tmp < 3 then do {
          b \<leftarrow> byte_at (snd st) rime;
          map_option Some (uncompress_addr 24 [0xff, b] (unc_mxconf ! tmp) None rime (fst st, snd st + 1))
        } else map_option Some (uncompress_addr 24 [0xff, 2] (unc_mxconf ! tmp) None rime st)
      else if iphc1 AND 0x04 \<noteq> 0 then do {
        dci \<leftarrow> (if iphc1 AND 0x80 \<noteq> 0 then map_option (\<lambda>b. b AND 0x0f) (byte_at (h + 2) rime) else Some 0);
        (case addr_context_lookup_by_number ctxs dci of
           None \<Rightarrow> Some None
         | Some c \<Rightarrow> map_option Some (uncompress_addr 24 (ctx_prefix c) (unc_ctxconf ! tmp) (Some receiver) rime st))
      } else map_option Some (uncompress_addr 24 llprefix (unc_llconf ! tmp) (Some receiver) rime st))"

definition uncompress_udp :: "u8 list \<Rightarrow> u8 list \<times> nat \<Rightarrow> (u8 list \<times> nat) option" where
  "uncompress_udp rime = (\<lambda>(buf, ptr). do {
     b \<leftarrow> byte_at ptr rime;
     let b0 = buf[6 := UIP_PROTO_UDP];
     (b1, ptr1) \<leftarrow>
       (if b AND 0xf3 = 0xf0 then do {
          sp \<leftarrow> bytes_at (ptr + 1) 2 rime;
          dp \<leftarrow> bytes_at (ptr + 3) 2 rime;
          Some (write_at 42 dp (write_at 40 sp b0), ptr + 5)
        } else if b AND 0xf3 = 0xf1 then do {
          sp \<leftarrow> bytes_at (ptr + 1) 2 rime;
          d \<leftarrow> byte_at (ptr + 3) rime;
          Some (write_at 42 (be16_bytes (0xf000 + ucast d)) (write_at 40 sp b0), ptr + 4)
        } else if b AND 0xf3 = 0xf2 then do {
          s \<leftarrow> byte_at (ptr + 1) rime;
          dp \<leftarrow> bytes_at (ptr + 2) 2 rime;
          Some (write_at 42 dp (write_at 40 (be16_bytes (0xf000 + ucast s)) b0), ptr + 4)
        } else do {
          x \<leftarrow> byte_at (ptr + 1) rime;
          Some (write_at 42 (be16_bytes (0xf0b0 + ucast (x AND 0x0f)))
            (write_at 40 (be16_bytes (0xf0b0 + ucast (drop_bit 4 x))) b0), ptr + 2)
        });
     if b AND 0x04 = 0 then map_option (\<lambda>c. (write_at 46 c b1, ptr1 + 2)) (bytes_at ptr1 2 rime)
     else Some (b1, ptr1)
   })"

text \<open>The length fields.\<close>

definition hc06_lengths :: "u16 \<Rightarrow> nat \<Rightarrow> nat \<Rightarrow> nat \<Rightarrow> u8 list \<Rightarrow> u8 list" where
  "hc06_lengths ip_len datalen hdr_len uncomp buf =
     (let len = (if ip_len = 0 then of_int (int datalen - int hdr_len + int uncomp - 40) else ip_len - 40);
          b1 = write_at 4 (be16_bytes len) buf
      in if b1 ! 6 = UIP_PROTO_UDP then write_at 44 (read_at 4 2 b1) b1 else b1)"

text \<open>
  The result is the buffer, \<open>rime_hdr_len\<close> and \<open>uncomp_hdr_len\<close>; \<open>ip_len\<close> is 0 for a packet that is not a
  fragment. The early return leaves the two lengths as they were.
\<close>

definition uncompress_hdr_hc06 ::
  "addr_context list \<Rightarrow> u8 list \<Rightarrow> u8 list \<Rightarrow> u16 \<Rightarrow> nat \<Rightarrow> u8 list \<Rightarrow> nat \<Rightarrow> u8 list \<Rightarrow> (u8 list \<times> nat \<times> nat) option" where
  "uncompress_hdr_hc06 ctxs sender receiver ip_len datalen rime h buf = do {
     iphc0 \<leftarrow> byte_at h rime;
     iphc1 \<leftarrow> byte_at (h + 1) rime;
     st0 \<leftarrow> uncompress_tf iphc0 rime (buf, h + 2 + (if iphc1 AND 0x80 \<noteq> 0 then 1 else 0));
     st1 \<leftarrow> uncompress_nh iphc0 rime st0;
     st2 \<leftarrow> uncompress_ttl iphc0 rime st1;
     src \<leftarrow> uncompress_src ctxs sender h iphc1 rime st2;
     (case src of
        None \<Rightarrow> Some (fst st2, h, 0)
      | Some st3 \<Rightarrow> do {
          dst \<leftarrow> uncompress_dst ctxs receiver h iphc1 rime st3;
          (case dst of
             None \<Rightarrow> Some (fst st3, h, 0)
           | Some st4 \<Rightarrow> do {
               nhc \<leftarrow> (if iphc0 AND 4 \<noteq> 0 then map_option (\<lambda>b. b AND 0xf8 = 0xf0) (byte_at (snd st4) rime) else Some False);
               st5 \<leftarrow> (if nhc then uncompress_udp rime st4 else Some st4);
               let uncomp = (if nhc then 48 else 40);
               Some (hc06_lengths ip_len datalen (snd st5) uncomp (fst st5), snd st5, uncomp)
             })
        })
   }"

section \<open>Fields of a buffer\<close>

lemma write_at_join:
  "pos + length A + length Z \<le> length buf \<Longrightarrow> length A = k \<Longrightarrow>
     write_at (pos + k) Z (write_at pos A buf) = write_at pos (A @ Z) buf"
  by (simp add: write_at_def add_ac)

lemma write_at_inner:
  "pos + length A \<le> length buf \<Longrightarrow> k + length Z \<le> length A \<Longrightarrow>
     write_at (pos + k) Z (write_at pos A buf) = write_at pos (write_at k Z A) buf"
  by (simp add: write_at_def)

lemma update_inner:
  "pos + length A \<le> length buf \<Longrightarrow> k < length A \<Longrightarrow> (write_at pos A buf)[pos + k := v] = write_at pos (A[k := v]) buf"
  by (simp add: write_at_def list_update_append)

lemma nth_inner: "pos + length A \<le> length buf \<Longrightarrow> k < length A \<Longrightarrow> write_at pos A buf ! (pos + k) = A ! k"
  by (simp add: write_at_def nth_append)

lemma list16: "length a = 16 \<Longrightarrow>
    a = [a ! 0, a ! 1, a ! 2, a ! 3, a ! 4, a ! 5, a ! 6, a ! 7, a ! 8, a ! 9, a ! 10, a ! 11, a ! 12, a ! 13, a ! 14, a ! 15]"
proof -
  assume "length a = 16"
  then have "a = map ((!) a) [0..<16]" by (metis map_nth)
  then show ?thesis by (simp add: upt_rec numeral_eq_Suc)
qed

text \<open>The bytes at a position of the input.\<close>

definition inline :: "u8 list \<Rightarrow> nat \<Rightarrow> u8 list \<Rightarrow> bool" where
  "inline bs ptr rime \<longleftrightarrow> (\<exists>A C. rime = A @ bs @ C \<and> length A = ptr)"

lemma inline_sub: "inline bs ptr rime \<Longrightarrow> k + n \<le> length bs \<Longrightarrow> bytes_at (ptr + k) n rime = Some (read_at k n bs)"
  by (auto simp: inline_def bytes_at_def read_at_def)

lemma inline_appD: "inline (bs @ cs) ptr rime \<Longrightarrow> inline bs ptr rime \<and> inline cs (ptr + length bs) rime"
  unfolding inline_def by (metis append.assoc length_append)

lemma inline_byte: "inline bs ptr rime \<Longrightarrow> k < length bs \<Longrightarrow> byte_at (ptr + k) rime = Some (bs ! k)"
  by (auto simp: inline_def byte_at_def nth_append)

lemma inline_all: "inline bs ptr rime \<Longrightarrow> n = length bs \<Longrightarrow> bytes_at ptr n rime = Some bs"
  using inline_sub [of bs ptr rime 0 n] by (simp add: read_at_def)

lemma inline_hd: "inline bs ptr rime \<Longrightarrow> bs \<noteq> [] \<Longrightarrow> byte_at ptr rime = Some (bs ! 0)"
  using inline_byte [of bs ptr rime 0] by simp

section \<open>Addresses come back\<close>

lemma uncompress_full:
  assumes "length a = 16" "inline a ptr rime"
  shows "uncompress_addr pos pre 0x0f ll rime (buf, ptr) = Some (write_at pos a buf, ptr + 16)"
  using inline_all [OF assms(2), of 16] assms(1) by (simp add: uncompress_addr_def)

lemma uncompress_unspecified: "uncompress_addr pos pre 0 ll rime (buf, ptr) = Some (write_at pos (replicate 16 0) buf, ptr)"
  by (simp add: uncompress_addr_def)

text \<open>A prefix of \<open>k\<close> bytes, zeroes, and \<open>n\<close> bytes of the input.\<close>

lemma uncompress_prefixed:
  assumes "pos + 16 \<le> length buf" "inline bs ptr rime" "length bs = n" "k \<le> length pre"
    and "unat (drop_bit 4 ppc) = k" "unat (ppc AND 0x0f) = n" "k \<noteq> 0" "n \<noteq> 0" "n \<noteq> 2" "k + n \<le> 16" "k < 15" "n < 15"
  shows "uncompress_addr pos pre ppc ll rime (buf, ptr) =
    Some (write_at pos (take k pre @ replicate (16 - (k + n)) 0 @ bs) buf, ptr + n)"
proof -
  have b: "bytes_at ptr n rime = Some bs" using inline_all assms(2,3) by blast
  have "pos + 16 - n = pos + (16 - n)" using assms by simp
  then show ?thesis
    using assms b write_at_join [of pos "take k pre" "replicate (16 - (k + n)) 0" buf k]
      write_at_join [of pos "take k pre @ replicate (16 - (k + n)) 0" bs buf "16 - n"]
    by (auto simp: uncompress_addr_def Let_def)
qed

lemma replicate_3: "replicate (n + 3) x = replicate n x @ [x, x, x]"
  unfolding numeral_3_eq_3 replicate_add replicate.simps ..

lemma uncompress_16:
  assumes "pos + 16 \<le> length buf" "inline bs ptr rime" "length bs = 2" "k \<le> length pre"
    and "unat (drop_bit 4 ppc) = k" "unat (ppc AND 0x0f) = 2" "k \<noteq> 0" "k \<le> 8"
  shows "uncompress_addr pos pre ppc ll rime (buf, ptr) =
    Some (write_at pos (take k pre @ replicate (11 - k) 0 @ [0xff, 0xfe, 0] @ bs) buf, ptr + 2)"
proof -
  have b: "bytes_at ptr 2 rime = Some bs" using inline_all [OF assms(2), of 2] assms(3) by simp
  have e: "(take k pre @ replicate (14 - k) 0 @ bs)[11 := 0xff, 12 := 0xfe] = take k pre @ replicate (11 - k) 0 @ [0xff, 0xfe, 0] @ bs"
  proof -
    have "replicate (14 - k) (0::u8) = replicate (11 - k) 0 @ [0, 0, 0]" using assms(8) replicate_3 [of "11 - k" "0 :: u8"] by simp
    then show ?thesis using assms by (simp add: list_update_append)
  qed
  show ?thesis
    using assms b e write_at_join [of pos "take k pre" "replicate (14 - k) 0" buf k]
      write_at_join [of pos "take k pre @ replicate (14 - k) 0" bs buf 14, unfolded add.commute [of pos 14]]
      update_inner [of pos "take k pre @ replicate (14 - k) 0 @ bs" buf 11] update_inner [of pos "(take k pre @ replicate (14 - k) 0 @ bs)[11 := 0xff]" buf 12]
    by (auto simp: uncompress_addr_def Let_def)
qed

lemma set_addr_iid_inner:
  assumes "pos + 16 \<le> length buf" "length A = 8" "6 \<le> length m"
  shows "uip_ds6_set_addr_iid pos m (write_at pos (A @ replicate 8 0) buf) =
    write_at pos (A @ [m ! 0 XOR 2, m ! 1, m ! 2, 0xff, 0xfe, m ! 3, m ! 4, m ! 5]) buf"
proof -
  obtain m0 m1 m2 m3 m4 m5 ms where m: "m = m0 # m1 # m2 # m3 # m4 # m5 # ms"
    using assms(3) by (auto simp: numeral_eq_Suc Suc_le_length_iff)
  obtain a0 a1 a2 a3 a4 a5 a6 a7 where A: "A = [a0, a1, a2, a3, a4, a5, a6, a7]"
    using assms(2) by (auto simp: numeral_eq_Suc length_Suc_conv)
  show ?thesis using assms(1)
    by (simp add: uip_ds6_set_addr_iid_def m A write_at_inner update_inner nth_inner read_at_def) (simp add: write_at_def numeral_eq_Suc)
qed

lemma uncompress_mac:
  assumes "pos + 16 \<le> length buf" "k \<le> length pre" "6 \<le> length m"
    and "unat (drop_bit 4 ppc) = k" "unat (ppc AND 0x0f) = 0" "k \<noteq> 0" "k \<le> 8"
  shows "uncompress_addr pos pre ppc (Some m) rime (buf, ptr) =
    Some (write_at pos (take k pre @ replicate (8 - k) 0 @ [m ! 0 XOR 2, m ! 1, m ! 2, 0xff, 0xfe, m ! 3, m ! 4, m ! 5]) buf, ptr)"
proof -
  have "replicate (16 - k) (0::u8) = replicate (8 - k) 0 @ replicate 8 0" using assms by (simp flip: replicate_add)
  then show ?thesis
    using assms write_at_join [of pos "take k pre" "replicate (16 - k) 0" buf k]
      set_addr_iid_inner [of pos buf "take k pre @ replicate (8 - k) 0" m]
    by (auto simp: uncompress_addr_def Let_def)
qed

lemma addr_parts: "length a = 16 \<Longrightarrow> a = take 8 a @ read_at 8 8 a"
  by (simp add: read_at_def)

lemma addr_mac_based:
  assumes "length a = 16" "uip_is_addr_mac_addr_based a m" "m ! 0 AND 2 = 0"
  shows "read_at 8 8 a = [m ! 0 XOR 2, m ! 1, m ! 2, 0xff, 0xfe, m ! 3, m ! 4, m ! 5]"
proof -
  have x: "m ! 0 OR 2 = (m ! 0 XOR 2)"
    using assms(3) by (metis bit.conj_zero_right or.commute xor.commute disjunctive_xor_eq_or)
  show ?thesis using assms(2) unfolding uip_is_addr_mac_addr_based_def x
    by (subst list16 [OF assms(1)]) (simp add: read_at_def)
qed

lemma addr_16_bit:
  assumes "length a = 16" "sicslowpan_is_iid_16_bit_compressable a"
  shows "read_at 8 8 a = [0, 0, 0, 0xff, 0xfe, 0] @ read_at 14 2 a"
  using assms(2) by (subst (1 2) list16 [OF assms(1)]) (simp add: read_at_def sicslowpan_is_iid_16_bit_compressable_def u16_zero_def)

text \<open>The other node knows the address \<open>m\<close>, which is universally administered.\<close>

definition lladdr_known :: "u8 list \<Rightarrow> u8 list \<Rightarrow> bool" where
  "lladdr_known m m' \<longleftrightarrow> m ! 0 AND 2 = 0 \<and> 6 \<le> length m \<and> 6 \<le> length m' \<and> take 6 m' = take 6 m"

lemma compress_addr_64_back:
  assumes a: "length a = 16" "pos + 16 \<le> length buf"
    and pre: "k \<le> length pre" "take 8 a = take k pre @ replicate (8 - k) 0" "(k, conf) \<in> {(2, unc_llconf), (8, unc_ctxconf)}"
    and c: "compress_addr_64 bp a m = (bits, bs)" and i: "inline bs ptr rime"
    and known: "lladdr_known m m'"
  obtains mode where "mode \<in> {1, 2, 3}" "bits = push_bit bp (of_nat mode)"
    "uncompress_addr pos pre (conf ! mode) (Some m') rime (buf, ptr) = Some (write_at pos a buf, ptr + length bs)"
proof -
  have k: "k \<noteq> 0" "k \<le> 8" "k = 2 \<and> conf = unc_llconf \<or> k = 8 \<and> conf = unc_ctxconf" using pre(3) by auto
  have m: "m ! 0 AND 2 = 0" "6 \<le> length m" "6 \<le> length m'" "take 6 m' = take 6 m" using known by (auto simp: lladdr_known_def)
  have mm: "m' ! j = m ! j" if "j < 6" for j using m(4) that by (metis nth_take)
  have ap: "a = take k pre @ replicate (8 - k) 0 @ read_at 8 8 a" using addr_parts [OF a(1)] pre(2) by simp
  consider (mac) "uip_is_addr_mac_addr_based a m" | (short) "\<not> uip_is_addr_mac_addr_based a m" "sicslowpan_is_iid_16_bit_compressable a"
    | (full) "\<not> uip_is_addr_mac_addr_based a m" "\<not> sicslowpan_is_iid_16_bit_compressable a" by blast
  then show thesis
  proof cases
    case mac
    have e: "bits = push_bit bp 3" "bs = []" using c mac by (auto simp: compress_addr_64_def)
    have "write_at pos a buf = write_at pos (take k pre @ replicate (8 - k) 0 @ [m' ! 0 XOR 2, m' ! 1, m' ! 2, 0xff, 0xfe, m' ! 3, m' ! 4, m' ! 5]) buf"
      using ap addr_mac_based [OF a(1) mac m(1)] by (simp add: mm)
    then show thesis using uncompress_mac [OF a(2) pre(1) m(3), of "conf ! 3" rime ptr] k e
      by (intro that [of 3]) (auto simp: unc_llconf_def unc_ctxconf_def)
  next
    case short
    have e: "bits = push_bit bp 2" "bs = read_at 14 2 a" using c short by (auto simp: compress_addr_64_def)
    have "write_at pos a buf = write_at pos (take k pre @ replicate (11 - k) 0 @ [0xff, 0xfe, 0] @ bs) buf"
    proof -
      have "replicate (8 - k) (0::u8) @ [0, 0, 0] = replicate (11 - k) 0"
        using k(2) replicate_3 [of "8 - k" "0 :: u8"] by simp
      moreover have "a = take k pre @ (replicate (8 - k) 0 @ [0, 0, 0]) @ [0xff, 0xfe, 0] @ bs"
        by (subst ap) (simp add: addr_16_bit [OF a(1) short(2)] e)
      ultimately show ?thesis by metis
    qed
    then show thesis using uncompress_16 [OF a(2) i _ pre(1), of "conf ! 2" "Some m'"] k e a(1)
      by (intro that [of 2]) (auto simp: unc_llconf_def unc_ctxconf_def)
  next
    case full
    have e: "bits = push_bit bp 1" "bs = read_at 8 8 a" using c full by (auto simp: compress_addr_64_def)
    have "write_at pos a buf = write_at pos (take k pre @ replicate (16 - (k + 8)) 0 @ bs) buf" using ap e by simp
    then show thesis using uncompress_prefixed [OF a(2) i, of 8 k pre "conf ! 1" "Some m'"] k e a(1) pre(1)
      by (intro that [of 1]) (auto simp: unc_llconf_def unc_ctxconf_def)
  qed
qed

section \<open>The encoding bytes\<close>

definition tf_bits :: "u8 set" where "tf_bits = {0, 0x08, 0x10, 0x18}"
definition src_bits :: "u8 set" where "src_bits = {0, 0x10, 0x20, 0x30, 0x40, 0xd0, 0xe0, 0xf0}"
definition dst_bits :: "u8 set" where "dst_bits = {0, 1, 2, 3, 5, 6, 7, 8, 9, 10, 11}"

lemma iphc0_bits:
  assumes "tf \<in> tf_bits" "nh \<in> {0, 4}" "ttl \<in> {0, 1, 2, 3}" "iphc0 = 0x60 OR tf OR nh OR ttl"
  shows "iphc0 AND 0x10 = tf AND 0x10" "iphc0 AND 0x08 = tf AND 0x08" "iphc0 AND 4 = nh" "iphc0 AND 3 = ttl" "iphc0 AND 0xe0 = 0x60"
  using assms by (auto simp: tf_bits_def)

lemma enc_masks:
  "src \<in> src_bits \<Longrightarrow> src AND 3 = 0 \<and> src AND 4 = 0 \<and> src AND 8 = 0"
  "dst \<in> dst_bits \<Longrightarrow> dst AND 0x40 = 0 \<and> dst AND 0x30 = 0 \<and> dst AND 0x80 = 0"
  "c \<in> {0, 0x80 :: u8} \<Longrightarrow> c AND 0x40 = 0 \<and> c AND 0x30 = 0 \<and> c AND 0x80 = c \<and> c AND 3 = 0 \<and> c AND 4 = 0 \<and> c AND 8 = 0"
  by (auto simp: src_bits_def dst_bits_def)

lemma iphc1_bits:
  assumes "src \<in> src_bits" "dst \<in> dst_bits" "c \<in> {0, 0x80}" "iphc1 = c OR src OR dst"
  shows "iphc1 AND 0x40 = src AND 0x40" "iphc1 AND 0x30 = src AND 0x30" "iphc1 AND 0x80 = c OR (src AND 0x80)"
    "iphc1 AND 3 = dst AND 3" "iphc1 AND 4 = dst AND 4" "iphc1 AND 8 = dst AND 8"
  using enc_masks(1) [OF assms(1)] enc_masks(2) [OF assms(2)] enc_masks(3) [OF assms(3)]
  unfolding assms(4) word_ao_dist by simp_all

text \<open>Contexts with different numbers.\<close>

definition ctxs_ok :: "addr_context list \<Rightarrow> bool" where
  "ctxs_ok ctxs \<longleftrightarrow> (\<forall>c \<in> set ctxs. ctx_used c = 1 \<longrightarrow> unat (ctx_number c) < 16 \<and> length (ctx_prefix c) = 8 \<and>
     addr_context_lookup_by_number ctxs (ctx_number c) = Some c)"

lemma lookup_by_prefix:
  "addr_context_lookup_by_prefix ctxs a = Some c \<Longrightarrow> c \<in> set ctxs \<and> ctx_used c = 1 \<and> ctx_prefix c = take 8 a"
  unfolding addr_context_lookup_by_prefix_def by (auto simp: find_Some_iff)

text \<open>What the byte of contexts gives for a number below 16.\<close>

lemma nibbles_all:
  "list_all (\<lambda>s. list_all (\<lambda>d. drop_bit 4 (push_bit 4 s OR d :: u8) = s \<and> (push_bit 4 s OR d) AND 0x0f = d) (map of_nat [0..<16])) (map of_nat [0..<16])"
  by code_simp

lemma nibbles:
  assumes "unat s < 16" "unat d < 16"
  shows "drop_bit 4 (push_bit 4 s OR d :: u8) = s" "(push_bit 4 s OR d :: u8) AND 0x0f = d"
proof -
  have in16: "x \<in> set (map of_nat [0..<16])" if "unat x < 16" for x :: u8
    using that by (auto intro!: image_eqI [where x = "unat x"])
  show "drop_bit 4 (push_bit 4 s OR d :: u8) = s" "(push_bit 4 s OR d :: u8) AND 0x0f = d"
    using nibbles_all in16 [OF assms(1)] in16 [OF assms(2)] unfolding list_all_iff by blast+
qed

section \<open>Source and destination come back\<close>

text \<open>
  A link-local source whose words 1 to 3 are not zero is compressed wrongly when those of the
  destination are: the code tests the wrong address.
\<close>

definition hc06_src_ok :: "u8 list \<Rightarrow> bool" where
  "hc06_src_ok p \<longleftrightarrow> (uip_is_addr_link_local (ip_src p) \<and> u16_zero 1 (ip_dst p) \<and> u16_zero 2 (ip_dst p) \<and> u16_zero 3 (ip_dst p) \<longrightarrow>
     u16_zero 1 (ip_src p) \<and> u16_zero 2 (ip_src p) \<and> u16_zero 3 (ip_src p))"

lemma link_local_prefix:
  assumes "length a = 16" "uip_is_addr_link_local a" "u16_zero 1 a" "u16_zero 2 a" "u16_zero 3 a"
  shows "take 8 a = take 2 llprefix @ replicate (8 - 2) 0"
  using assms(2-) by (subst list16 [OF assms(1)]) (simp add: uip_is_addr_link_local_def u16_zero_def llprefix_def numeral_eq_Suc)

lemma unspecified_addr: "length a = 16 \<Longrightarrow> uip_is_addr_unspecified a \<Longrightarrow> a = replicate 16 0"
  by (subst list16, assumption) (simp add: uip_is_addr_unspecified_def u16_zero_def numeral_eq_Suc)

lemma length_ip_addrs: "40 \<le> length p \<Longrightarrow> length (ip_src p) = 16 \<and> length (ip_dst p) = 16"
  by (simp add: ip_src_def ip_dst_def)

lemma mode_bits:
  assumes "mode \<in> {1, 2, 3 :: nat}"
  shows "push_bit 4 (of_nat mode) \<in> {0x10, 0x20, 0x30 :: u8}" "unat (drop_bit 4 (push_bit 4 (of_nat mode) :: u8) AND 3) = mode"
    "unat (drop_bit 4 ((0x80 OR 0x40 OR push_bit 4 (of_nat mode) :: u8) AND 0x30) AND 3) = mode"
    "unat (drop_bit 4 ((push_bit 4 (of_nat mode) :: u8) AND 0x30) AND 3) = mode"
    "(0x80 OR 0x40 OR push_bit 4 (of_nat mode) :: u8) \<in> {0xd0, 0xe0, 0xf0}" "push_bit 4 (of_nat mode :: u8) AND 0x40 = 0"
  using assms by auto

lemma src_back:
  assumes p: "40 \<le> length p" "24 \<le> length buf" and ok: "ctxs_ok ctxs" "hc06_src_ok p"
    and c: "hc06_src ctxs lladdr p = (src, sctx, bs)" and i: "inline bs ptr rime"
    and m: "lladdr_known lladdr sender"
    and b: "iphc1 AND 0x40 = src AND 0x40" "iphc1 AND 0x30 = src AND 0x30"
    and ctx: "src AND 0x80 \<noteq> 0 \<Longrightarrow> iphc1 AND 0x80 \<noteq> 0 \<and> (\<exists>d. unat d < 16 \<and> byte_at (h + 2) rime = Some (sctx OR d))"
      "iphc1 AND 0x80 \<noteq> 0 \<Longrightarrow> h + 2 < length rime"
  shows "src \<in> src_bits" "uncompress_src ctxs sender h iphc1 rime (buf, ptr) = Some (Some (write_at 8 (ip_src p) buf, ptr + length bs))"
proof -
  note l = conjunct1 [OF length_ip_addrs [OF p(1)]]
  note P = compress_addr_64_back [OF l]
  consider (u) "uip_is_addr_unspecified (ip_src p)"
    | (ctx) x where "\<not> uip_is_addr_unspecified (ip_src p)" "addr_context_lookup_by_prefix ctxs (ip_src p) = Some x"
    | (ll) "\<not> uip_is_addr_unspecified (ip_src p)" "addr_context_lookup_by_prefix ctxs (ip_src p) = None"
      "uip_is_addr_link_local (ip_src p)" "u16_zero 1 (ip_dst p)" "u16_zero 2 (ip_dst p)" "u16_zero 3 (ip_dst p)"
    | (full) "\<not> uip_is_addr_unspecified (ip_src p)" "addr_context_lookup_by_prefix ctxs (ip_src p) = None"
      "\<not> (uip_is_addr_link_local (ip_src p) \<and> u16_zero 1 (ip_dst p) \<and> u16_zero 2 (ip_dst p) \<and> u16_zero 3 (ip_dst p))"
    by (cases "addr_context_lookup_by_prefix ctxs (ip_src p)") blast+
  then have "src \<in> src_bits \<and> uncompress_src ctxs sender h iphc1 rime (buf, ptr) = Some (Some (write_at 8 (ip_src p) buf, ptr + length bs))"
  proof cases
    case u
    then have e: "src = 0x40" "bs = []" using c by (auto simp: hc06_src_def)
    have "byte_at (h + 2) rime \<noteq> None \<or> iphc1 AND 0x80 = 0" using ctx(2) by (auto simp: byte_at_def)
    then show ?thesis using e b unspecified_addr [OF l u] uncompress_unspecified [of 8 "[]" "Some sender" rime buf ptr]
      by (auto simp: uncompress_src_def src_bits_def unc_ctxconf_def Let_def)
  next
    case (ctx x)
    note x = lookup_by_prefix [OF ctx(2)]
    obtain m0 where c1: "compress_addr_64 4 (ip_src p) lladdr = (m0, bs)" "src = 0x80 OR 0x40 OR m0" "sctx = push_bit 4 (ctx_number x)"
      using c ctx by (auto simp: hc06_src_def split: prod.splits)
    have px: "8 \<le> length (ctx_prefix x)" "take 8 (ip_src p) = take 8 (ctx_prefix x) @ replicate (8 - 8) 0"
      "unat (ctx_number x) < 16" "addr_context_lookup_by_number ctxs (ctx_number x) = Some x"
      using ok(1) x by (auto simp: ctxs_ok_def)
    obtain mode where mode: "mode \<in> {1, 2, 3}" "m0 = push_bit 4 (of_nat mode)"
      "uncompress_addr 8 (ctx_prefix x) (unc_ctxconf ! mode) (Some sender) rime (buf, ptr) = Some (write_at 8 (ip_src p) buf, ptr + length bs)"
      using P [OF _ px(1,2) _ c1(1) i m, of 8 buf unc_ctxconf] p(2) by auto
    have m2: "src AND 0x40 \<noteq> 0" "src AND 0x80 \<noteq> 0" using mode_bits(5) [OF mode(1)] c1(2) mode(2) by auto
    then obtain d where d: "unat d < 16" "byte_at (h + 2) rime = Some (sctx OR d)" "iphc1 AND 0x80 \<noteq> 0" using assms(10) by blast
    have "unat (drop_bit 4 (iphc1 AND 0x30) AND 3) = mode" using mode_bits(3) [OF mode(1)] b(2) c1(2) mode(2) by simp
    then show ?thesis using m2 d b mode mode_bits(5) [OF mode(1)] c1(2,3) nibbles(1) [OF px(3) d(1)] px(4)
      by (auto simp: uncompress_src_def src_bits_def)
  next
    case ll
    obtain m0 where c1: "compress_addr_64 4 (ip_src p) lladdr = (m0, bs)" "src = m0"
      using c ll by (auto simp: hc06_src_def split: prod.splits)
    have "take 8 (ip_src p) = take 2 llprefix @ replicate (8 - 2) 0"
      using link_local_prefix [OF l] ll ok(2) by (auto simp: hc06_src_ok_def)
    then obtain mode where mode: "mode \<in> {1, 2, 3}" "m0 = push_bit 4 (of_nat mode)"
      "uncompress_addr 8 llprefix (unc_llconf ! mode) (Some sender) rime (buf, ptr) = Some (write_at 8 (ip_src p) buf, ptr + length bs)"
      using P [OF _ _ _ _ c1(1) i m, of 8 buf 2 llprefix unc_llconf] p(2) by (auto simp: llprefix_def)
    have "unat (drop_bit 4 (iphc1 AND 0x30) AND 3) = mode" "iphc1 AND 0x40 = 0"
      using mode_bits(4,6) [OF mode(1)] b c1(2) mode(2) by simp_all
    then show ?thesis using mode mode_bits(1) [OF mode(1)] c1(2) by (auto simp: uncompress_src_def src_bits_def)
  next
    case full
    then have e: "src = 0" "bs = ip_src p" using c by (auto simp: hc06_src_def)
    then show ?thesis using b uncompress_full [OF l, of ptr rime 8 llprefix "Some sender" buf] i l
      by (simp add: uncompress_src_def src_bits_def unc_llconf_def)
  qed
  then show "src \<in> src_bits" "uncompress_src ctxs sender h iphc1 rime (buf, ptr) = Some (Some (write_at 8 (ip_src p) buf, ptr + length bs))"
    by blast+
qed

lemma dst_masks: "(8 OR 3 :: u8) = 11" "(8 OR 2 :: u8) = 10" "(8 OR 1 :: u8) = 9"
  by simp_all

lemma dst_mode:
  assumes "mode \<in> {1, 2, 3 :: nat}"
  shows "unat ((4 OR push_bit 0 (of_nat mode) :: u8) AND 3) = mode" "unat ((push_bit 0 (of_nat mode) :: u8) AND 3) = mode"
    "(4 OR push_bit 0 (of_nat mode) :: u8) \<in> {5, 6, 7}" "(push_bit 0 (of_nat mode) :: u8) \<in> {1, 2, 3}"
  using assms by auto

lemma zeros:
  "replicate 13 (0 :: u8) = [0, 0, 0, 0, 0, 0, 0, 0, 0, 0, 0, 0, 0]"
  "replicate 11 (0 :: u8) = [0, 0, 0, 0, 0, 0, 0, 0, 0, 0, 0]"
  "replicate 9 (0 :: u8) = [0, 0, 0, 0, 0, 0, 0, 0, 0]"
  by (simp_all add: numeral_eq_Suc)

lemma mcast_addr:
  assumes "length a = 16" "uip_is_addr_mcast a"
  shows "sicslowpan_is_mcast_addr_compressable8 a \<Longrightarrow> a = take 2 [0xff, 2] @ replicate (16 - (2 + 1)) 0 @ [a ! 15]"
    and "sicslowpan_is_mcast_addr_compressable32 a \<Longrightarrow> a = take 2 [0xff, a ! 1] @ replicate (16 - (2 + 3)) 0 @ read_at 13 3 a"
    and "sicslowpan_is_mcast_addr_compressable48 a \<Longrightarrow> a = take 2 [0xff, a ! 1] @ replicate (16 - (2 + 5)) 0 @ read_at 11 5 a"
proof -
  obtain a0 a1 a2 a3 a4 a5 a6 a7 a8 a9 a10 a11 a12 a13 a14 a15
    where a: "a = [a0, a1, a2, a3, a4, a5, a6, a7, a8, a9, a10, a11, a12, a13, a14, a15]"
    using list16 [OF assms(1)] by blast
  have z: "a0 = 0xff" using assms(2) by (simp add: a uip_is_addr_mcast_def)
  show "sicslowpan_is_mcast_addr_compressable8 a \<Longrightarrow> a = take 2 [0xff, 2] @ replicate (16 - (2 + 1)) 0 @ [a ! 15]"
    by (simp add: a z sicslowpan_is_mcast_addr_compressable8_def u16_zero_def zeros)
  show "sicslowpan_is_mcast_addr_compressable32 a \<Longrightarrow> a = take 2 [0xff, a ! 1] @ replicate (16 - (2 + 3)) 0 @ read_at 13 3 a"
    by (simp add: a z sicslowpan_is_mcast_addr_compressable32_def u16_zero_def read_at_def zeros)
  show "sicslowpan_is_mcast_addr_compressable48 a \<Longrightarrow> a = take 2 [0xff, a ! 1] @ replicate (16 - (2 + 5)) 0 @ read_at 11 5 a"
    by (simp add: a z sicslowpan_is_mcast_addr_compressable48_def u16_zero_def read_at_def zeros)
qed

lemma inline_tl: "inline (b # bs) ptr rime \<Longrightarrow> inline bs (ptr + 1) rime"
  unfolding inline_def by (metis append.assoc append_Cons append_Nil length_append_singleton Suc_eq_plus1)

lemma dst_back:
  assumes p: "40 \<le> length p" "40 \<le> length buf" and ok: "ctxs_ok ctxs"
    and c: "hc06_dst ctxs dest p = (dst, dctx, bs)" and i: "inline bs ptr rime"
    and m: "\<not> uip_is_addr_mcast (ip_dst p) \<Longrightarrow> lladdr_known dest receiver"
    and b: "iphc1 AND 3 = dst AND 3" "iphc1 AND 4 = dst AND 4" "iphc1 AND 8 = dst AND 8"
    and cid: "addr_context_lookup_by_prefix ctxs (ip_dst p) \<noteq> None \<Longrightarrow>
      iphc1 AND 0x80 \<noteq> 0 \<and> (\<exists>s. unat s < 16 \<and> byte_at (h + 2) rime = Some (push_bit 4 s OR dctx))"
  shows "dst \<in> dst_bits" "uncompress_dst ctxs receiver h iphc1 rime (buf, ptr) = Some (Some (write_at 24 (ip_dst p) buf, ptr + length bs))"
proof -
  define a where "a = ip_dst p"
  have l: "length a = 16" using length_ip_addrs [OF p(1)] by (simp add: a_def)
  note P = compress_addr_64_back [OF l]
  have p24: "24 + 16 \<le> length buf" using p by simp
  consider (m8) "uip_is_addr_mcast a" "sicslowpan_is_mcast_addr_compressable8 a"
    | (m32) "uip_is_addr_mcast a" "\<not> sicslowpan_is_mcast_addr_compressable8 a" "sicslowpan_is_mcast_addr_compressable32 a"
    | (m48) "uip_is_addr_mcast a" "\<not> sicslowpan_is_mcast_addr_compressable8 a" "\<not> sicslowpan_is_mcast_addr_compressable32 a"
      "sicslowpan_is_mcast_addr_compressable48 a"
    | (m128) "uip_is_addr_mcast a" "\<not> sicslowpan_is_mcast_addr_compressable8 a" "\<not> sicslowpan_is_mcast_addr_compressable32 a"
      "\<not> sicslowpan_is_mcast_addr_compressable48 a"
    | (ctx) x where "\<not> uip_is_addr_mcast a" "addr_context_lookup_by_prefix ctxs a = Some x"
    | (ll) "\<not> uip_is_addr_mcast a" "addr_context_lookup_by_prefix ctxs a = None"
      "uip_is_addr_link_local a" "u16_zero 1 a" "u16_zero 2 a" "u16_zero 3 a"
    | (full) "\<not> uip_is_addr_mcast a" "addr_context_lookup_by_prefix ctxs a = None"
      "\<not> (uip_is_addr_link_local a \<and> u16_zero 1 a \<and> u16_zero 2 a \<and> u16_zero 3 a)"
    by (cases "addr_context_lookup_by_prefix ctxs a") blast+
  then have "dst \<in> dst_bits \<and> uncompress_dst ctxs receiver h iphc1 rime (buf, ptr) = Some (Some (write_at 24 a buf, ptr + length bs))"
  proof cases
    case m8
    have e: "dst = 11" "bs = [a ! 15]" using c m8 by (auto simp: hc06_dst_def a_def [symmetric])
    have "uncompress_addr 24 [0xff, 2] (unc_mxconf ! 3) None rime (buf, ptr) = Some (write_at 24 a buf, ptr + 1)"
      by (subst mcast_addr(1) [OF l m8(1,2)], rule uncompress_prefixed [OF p24 i [unfolded e]]) (simp_all add: unc_mxconf_def)
    then show ?thesis using e b by (simp add: uncompress_dst_def dst_bits_def)
  next
    case m32
    have e: "dst = 10" "bs = a ! 1 # read_at 13 3 a" using c m32 by (auto simp: hc06_dst_def a_def [symmetric] Let_def)
    have "uncompress_addr 24 [0xff, a ! 1] (unc_mxconf ! 2) None rime (buf, ptr + 1) = Some (write_at 24 a buf, ptr + 1 + 3)"
      by (subst mcast_addr(2) [OF l m32(1,3)], rule uncompress_prefixed [OF p24 inline_tl [OF i [unfolded e]]]) (simp_all add: unc_mxconf_def l)
    then show ?thesis using e b inline_hd [OF i] l by (simp add: uncompress_dst_def dst_bits_def)
  next
    case m48
    have e: "dst = 9" "bs = a ! 1 # read_at 11 5 a" using c m48 by (auto simp: hc06_dst_def a_def [symmetric] Let_def)
    have "uncompress_addr 24 [0xff, a ! 1] (unc_mxconf ! 1) None rime (buf, ptr + 1) = Some (write_at 24 a buf, ptr + 1 + 5)"
      by (subst mcast_addr(3) [OF l m48(1,4)], rule uncompress_prefixed [OF p24 inline_tl [OF i [unfolded e]]]) (simp_all add: unc_mxconf_def l)
    then show ?thesis using e b inline_hd [OF i] l by (simp add: uncompress_dst_def dst_bits_def)
  next
    case m128
    have e: "dst = 8" "bs = a" using c m128 by (auto simp: hc06_dst_def a_def [symmetric] Let_def)
    then show ?thesis using b uncompress_full [OF l, of ptr rime 24 "[0xff, 2]" None buf] i l
      by (simp add: uncompress_dst_def dst_bits_def unc_mxconf_def)
  next
    case (ctx x)
    note x = lookup_by_prefix [OF ctx(2)]
    obtain m0 where c1: "compress_addr_64 0 a dest = (m0, bs)" "dst = 4 OR m0" "dctx = ctx_number x"
      using c ctx by (auto simp: hc06_dst_def a_def [symmetric] Let_def split: prod.splits)
    have px: "8 \<le> length (ctx_prefix x)" "take 8 a = take 8 (ctx_prefix x) @ replicate (8 - 8) 0"
      "unat (ctx_number x) < 16" "addr_context_lookup_by_number ctxs (ctx_number x) = Some x"
      using ok(1) x by (auto simp: ctxs_ok_def)
    obtain mode where mode: "mode \<in> {1, 2, 3}" "m0 = push_bit 0 (of_nat mode)"
      "uncompress_addr 24 (ctx_prefix x) (unc_ctxconf ! mode) (Some receiver) rime (buf, ptr) = Some (write_at 24 a buf, ptr + length bs)"
      using P [OF p24 px(1,2) _ c1(1) i m, of unc_ctxconf] ctx(1) by (auto simp: a_def)
    obtain s where s: "unat s < 16" "byte_at (h + 2) rime = Some (push_bit 4 s OR dctx)" "iphc1 AND 0x80 \<noteq> 0"
      using cid ctx(2) by (auto simp: a_def)
    have d5: "dst = 5 \<or> dst = 6 \<or> dst = 7" "unat (iphc1 AND 3) = mode"
      using dst_mode(1,3) [OF mode(1)] b(1) by (simp_all add: c1(2) mode(2))
    have "iphc1 AND 8 = 0" "iphc1 AND 4 \<noteq> 0" using b d5(1) by auto
    then show ?thesis using d5 s mode(3) c1(3) nibbles(2) [OF s(1) px(3)] px(4)
      by (auto simp: uncompress_dst_def dst_bits_def)
  next
    case ll
    obtain m0 where c1: "compress_addr_64 0 a dest = (m0, bs)" "dst = m0"
      using c ll by (auto simp: hc06_dst_def a_def [symmetric] Let_def split: prod.splits)
    obtain mode where mode: "mode \<in> {1, 2, 3}" "m0 = push_bit 0 (of_nat mode)"
      "uncompress_addr 24 llprefix (unc_llconf ! mode) (Some receiver) rime (buf, ptr) = Some (write_at 24 a buf, ptr + length bs)"
      using P [OF p24 _ link_local_prefix [OF l ll(3-6)] _ c1(1) i m, of unc_llconf] ll(1) by (auto simp: llprefix_def a_def)
    have d5: "dst = 1 \<or> dst = 2 \<or> dst = 3" "unat (iphc1 AND 3) = mode"
      using dst_mode(2,4) [OF mode(1)] b(1) by (simp_all add: c1(2) mode(2))
    have "iphc1 AND 8 = 0" "iphc1 AND 4 = 0" using b d5(1) by auto
    then show ?thesis using d5 mode(3) by (auto simp: uncompress_dst_def dst_bits_def)
  next
    case full
    then have e: "dst = 0" "bs = a" using c by (auto simp: hc06_dst_def a_def [symmetric] Let_def)
    then show ?thesis using b uncompress_full [OF l, of ptr rime 24 llprefix "Some receiver" buf] i l
      by (simp add: uncompress_dst_def dst_bits_def unc_llconf_def)
  qed
  then show "dst \<in> dst_bits" "uncompress_dst ctxs receiver h iphc1 rime (buf, ptr) = Some (Some (write_at 24 (ip_dst p) buf, ptr + length bs))"
    unfolding a_def by blast+
qed

section \<open>Traffic class, next header and hop limit come back\<close>

lemma bit_u8_above: "8 \<le> n \<Longrightarrow> \<not> bit (w :: u8) n"
  using bit_imp_le_length [of w n] by auto

lemma bit_index_u8: "n < LENGTH(8) \<Longrightarrow> n = 0 \<or> n = 1 \<or> n = 2 \<or> n = 3 \<or> n = 4 \<or> n = 5 \<or> n = 6 \<or> n = 7"
  by auto

lemma tc_bits:
  fixes v f :: u8
  defines "t \<equiv> push_bit 4 v OR drop_bit 4 f"
  defines "tmp \<equiv> push_bit 6 (t AND 3) OR drop_bit 2 t"
  assumes v: "v AND 0xf0 = 0x60"
  shows "0x60 OR (drop_bit 2 tmp AND 0x0f) = v" "(drop_bit 2 tmp AND 0x30) OR push_bit 6 tmp OR (f AND 0x0f) = f"
    "(push_bit 6 tmp AND 0xc0) OR (drop_bit 2 tmp AND 0x30) OR (f AND 0x0f) = f"
proof -
  have "bit (v AND 0xf0) n = bit (0x60 :: u8) n" for n using v by simp
  from this [of 4] this [of 5] this [of 6] this [of 7]
  have vb: "\<not> bit v 4" "bit v 5" "bit v 6" "\<not> bit v 7" by (simp_all add: bit_simps)
  have tb: "bit tmp 7 = bit f 5" "bit tmp 6 = bit f 4" "bit tmp 5 = bit v 3" "bit tmp 4 = bit v 2" "bit tmp 3 = bit v 1"
    "bit tmp 2 = bit v 0" "bit tmp 1 = bit f 7" "bit tmp 0 = bit f 6"
    by (simp_all add: tmp_def t_def bit_simps bit_u8_above)
  note n8 = bit_index_u8
  show "0x60 OR (drop_bit 2 tmp AND 0x0f) = v" "(drop_bit 2 tmp AND 0x30) OR push_bit 6 tmp OR (f AND 0x0f) = f"
    "(push_bit 6 tmp AND 0xc0) OR (drop_bit 2 tmp AND 0x30) OR (f AND 0x0f) = f"
    by (rule bit_word_eqI, drule n8, elim disjE, simp_all add: bit_simps tb [unfolded One_nat_def] vb)+
qed

lemma nibble_zero: "f AND 0x0f = 0 \<Longrightarrow> f AND 0xf0 = 0 \<Longrightarrow> f = (0 :: u8)" "v AND 0x0f = 0 \<Longrightarrow> v AND 0xf0 = 0x60 \<Longrightarrow> v = (0x60 :: u8)"
proof -
  have e: "x = (x AND 0x0f) OR (x AND 0xf0)" for x :: u8
  proof -
    have "(0x0f OR 0xf0 :: u8) = - 1" by simp
    then show ?thesis by (metis and.right_neutral bit.conj_disj_distrib)
  qed
  show "f AND 0x0f = 0 \<Longrightarrow> f AND 0xf0 = 0 \<Longrightarrow> f = 0" using e [of f] by simp
  show "v AND 0x0f = 0 \<Longrightarrow> v AND 0xf0 = 0x60 \<Longrightarrow> v = 0x60" using e [of v] by simp
qed

lemma tc_zero:
  fixes f :: u8
  defines "t \<equiv> push_bit 4 0x60 OR drop_bit 4 f"
  defines "x \<equiv> ((push_bit 6 (t AND 3) OR drop_bit 2 t) AND 0xc0) OR (f AND 0x0f)"
  assumes f: "f AND 0xf0 = 0"
  shows "(x AND 0x0f) OR (drop_bit 2 x AND 0x30) = f"
proof -
  have "bit (f AND 0xf0) n = bit (0 :: u8) n" for n using f by simp
  from this [of 4] this [of 5] this [of 6] this [of 7]
  have fb: "\<not> bit f 4" "\<not> bit f 5" "\<not> bit f 6" "\<not> bit f 7" by (simp_all add: bit_simps)
  have "drop_bit 4 f = 0" by (rule bit_word_eqI, drule bit_index_u8, elim disjE, simp_all add: bit_simps fb bit_u8_above)
  then have "x = f AND 0x0f" by (simp add: x_def t_def)
  moreover have "f AND 0x0f = f" by (rule bit_word_eqI, drule bit_index_u8, elim disjE, simp_all add: bit_simps fb)
  moreover have "drop_bit 2 f AND 0x30 = 0" by (rule bit_word_eqI, drule bit_index_u8, elim disjE, simp_all add: bit_simps fb)
  ultimately show ?thesis by simp
qed

lemma list_head4: "4 \<le> length p \<Longrightarrow> take 4 p = [p ! 0, p ! 1, p ! 2, p ! 3]"
  by (auto simp: numeral_eq_Suc Suc_le_length_iff)

lemma head4_update:
  assumes "4 \<le> length buf"
  shows "buf[0 := a, 1 := b, 2 := c, 3 := d] = write_at 0 [a, b, c, d] buf"
    "write_at 2 [c, d] (buf[0 := a, 1 := b]) = write_at 0 [a, b, c, d] buf"
    "(write_at 1 [x, c, d] buf)[0 := a, 1 := b] = write_at 0 [a, b, c, d] buf"
    "write_at 1 [x, c, d] buf ! 1 = x"
  using assms by (auto simp: numeral_eq_Suc Suc_le_length_iff write_at_def)

lemma tf_back:
  assumes p: "40 \<le> length p" "4 \<le> length buf" "p ! 0 AND 0xf0 = 0x60" and c: "hc06_tf p = (tf, bs)" and i: "inline bs ptr rime"
    and b: "iphc0 AND 0x10 = tf AND 0x10" "iphc0 AND 0x08 = tf AND 0x08"
  shows "tf \<in> tf_bits" "uncompress_tf iphc0 rime (buf, ptr) = Some (write_at 0 (take 4 p) buf, ptr + length bs)"
proof -
  define t where "t = push_bit 4 (p ! 0) OR drop_bit 4 (p ! 1)"
  define tmp where "tmp = push_bit 6 (t AND 3) OR drop_bit 2 t"
  note tb = tc_bits [OF p(3), of "p ! 1", folded t_def, folded tmp_def]
  have t4: "take 4 p = [p ! 0, p ! 1, p ! 2, p ! 3]" using list_head4 [of p] p(1) by simp
  have r: "read_at 2 2 p = [p ! 2, p ! 3]" "read_at 1 3 p = [p ! 1, p ! 2, p ! 3]"
    using p(1) by (auto simp: numeral_eq_Suc Suc_le_length_iff read_at_def)
  note h = head4_update [OF p(2), unfolded One_nat_def]
  let ?fl = "p ! 1 AND 0x0f = 0 \<and> u16_zero 1 p" and ?tc = "p ! 0 AND 0x0f = 0 \<and> p ! 1 AND 0xf0 = 0"
  have c': "(tf, bs) = (if ?fl then if ?tc then (0x18, []) else (0x10, [tmp])
      else if ?tc then (0x08, ((tmp AND 0xc0) OR (p ! 1 AND 0x0f)) # read_at 2 2 p) else (0, tmp # read_at 1 3 p))"
    using c unfolding hc06_tf_def t_def [symmetric] Let_def tmp_def [symmetric] by simp
  consider "?fl" "?tc" | "?fl" "\<not> ?tc" | "\<not> ?fl" "?tc" | "\<not> ?fl" "\<not> ?tc" by blast
  then have "tf \<in> tf_bits \<and> uncompress_tf iphc0 rime (buf, ptr) = Some (write_at 0 (take 4 p) buf, ptr + length bs)"
  proof cases
    case 1
    then have e: "tf = 0x18" "bs = []" using c' by simp_all
    have "p ! 0 = 0x60" "p ! 1 = 0" "p ! 2 = 0" "p ! 3 = 0" using nibble_zero 1 p(3) by (auto simp: u16_zero_def)
    then show ?thesis using e b by (simp add: uncompress_tf_def tf_bits_def t4 h)
  next
    case 2
    then have e: "tf = 0x10" "bs = [tmp]" using c' by auto
    have z: "p ! 2 = 0" "p ! 3 = 0" "p ! 1 AND 0x0f = 0" using 2 by (auto simp: u16_zero_def)
    have "(push_bit 6 tmp AND 0xc0) OR (drop_bit 2 tmp AND 0x30) = p ! 1" using tb(3) z by simp
    then show ?thesis using e b z inline_hd [OF i] tb(1) by (simp add: uncompress_tf_def tf_bits_def t4 h)
  next
    case 3
    then have e: "tf = 0x08" "bs = ((tmp AND 0xc0) OR (p ! 1 AND 0x0f)) # read_at 2 2 p" using c' by auto
    have z: "p ! 0 = 0x60" "p ! 1 AND 0xf0 = 0" using nibble_zero 3 p(3) by auto
    define x where "x = (tmp AND 0xc0) OR (p ! 1 AND 0x0f)"
    have "(x AND 0x0f) OR (drop_bit 2 x AND 0x30) = p ! 1"
      using tc_zero z unfolding x_def tmp_def t_def by simp
    moreover have "bytes_at (ptr + 1) 2 rime = Some [p ! 2, p ! 3]"
      using inline_sub [OF i, of 1 2] unfolding e r by (simp add: read_at_def)
    ultimately show ?thesis using e b z inline_hd [OF i] r unfolding x_def
      by (simp add: uncompress_tf_def tf_bits_def t4 h read_at_def)
  next
    case 4
    then have e: "tf = 0" "bs = tmp # read_at 1 3 p" using c' by auto
    moreover have "bytes_at (ptr + 1) 3 rime = Some [p ! 1, p ! 2, p ! 3]"
      using inline_sub [OF i, of 1 3] unfolding e r by (simp add: read_at_def)
    ultimately show ?thesis using e b inline_hd [OF i] r tb
      by (simp add: uncompress_tf_def tf_bits_def t4 h read_at_def Let_def)
  qed
  then show "tf \<in> tf_bits" "uncompress_tf iphc0 rime (buf, ptr) = Some (write_at 0 (take 4 p) buf, ptr + length bs)" by blast+
qed

lemma nh_back:
  assumes "6 < length buf" "hc06_nh p = (nh, bs)" "inline bs ptr rime" "iphc0 AND 4 = nh"
  shows "nh \<in> {0, 4}" "nh = 4 \<longleftrightarrow> p ! 6 = UIP_PROTO_UDP"
    "uncompress_nh iphc0 rime (buf, ptr) = Some (if p ! 6 = UIP_PROTO_UDP then buf else buf[6 := p ! 6], ptr + length bs)"
  using assms inline_hd [OF assms(3)] by (auto simp: hc06_nh_def uncompress_nh_def split: if_splits)

lemma ttl_back:
  assumes "7 < length buf" "hc06_ttl p = (ttl, bs)" "inline bs ptr rime" "iphc0 AND 3 = ttl"
  shows "ttl \<in> {0, 1, 2, 3}" "uncompress_ttl iphc0 rime (buf, ptr) = Some (buf[7 := p ! 7], ptr + length bs)"
  using assms inline_hd [OF assms(3)] by (auto simp: hc06_ttl_def uncompress_ttl_def ttl_values_def split: if_splits)

section \<open>The UDP header comes back\<close>

lemma be16_bytes_of: "be16_bytes (be16_of [a, b]) = [a, b]"
proof -
  have "ucast (drop_bit 8 (push_bit 8 (ucast a) OR ucast b :: u16)) = a"
    by (rule bit_word_eqI) (auto simp: bit_simps dest: bit_imp_le_length)
  moreover have "ucast (push_bit 8 (ucast a) OR ucast b :: u16) = b"
    by (rule bit_word_eqI) (auto simp: bit_simps)
  ultimately show ?thesis by (simp add: be16_bytes_def be16_of_def)
qed

lemma be16_of_bytes: "be16_of (be16_bytes w) = w"
  by (rule bit_word_eqI) (auto simp: be16_of_def be16_bytes_def bit_simps)


lemma mask_split:
  fixes w m n :: "'a::len word"
  assumes "m AND n = 0" "m OR n = - 1"
  shows "w - (w AND m) = w AND n"
proof -
  have "(w AND m) + (w AND n) = ((w AND m) AND (w AND n)) + ((w AND m) OR (w AND n))" by simp
  also have "(w AND m) AND (w AND n) = 0" using assms(1) by (metis and.assoc and.left_commute and_zero_eq)
  also have "(w AND m) OR (w AND n) = w" using assms(2) by (metis and.right_neutral bit.conj_disj_distrib)
  finally show ?thesis by (simp add: algebra_simps)
qed

lemma port_8:
  fixes w :: u16
  assumes "w AND 0xff00 = 0xf000"
  shows "0xf000 + ucast (ucast (w - 0xf000) :: u8) = w"
proof -
  have "w - 0xf000 = w AND 0x00ff" using mask_split [of "0xff00 :: u16" "0x00ff" w] assms by simp
  moreover have "ucast (ucast (w AND 0x00ff) :: u8) = w AND 0x00ff"
  proof -
    have "(0x00ff :: u16) = mask 8" by (simp add: mask_eq_exp_minus_1)
    then show ?thesis by (auto simp: bit_eq_iff bit_simps)
  qed
  ultimately show ?thesis by (metis add_diff_cancel_left' diff_add_cancel add.commute)
qed

lemma port_4:
  fixes w :: u16
  assumes "w AND 0xfff0 = 0xf0b0"
  shows "w - 0xf0b0 \<in> set (map of_nat [0..<16])"
proof -
  have "w - 0xf0b0 = w AND 0x000f" using mask_split [of "0xfff0 :: u16" "0x000f" w] assms by simp
  moreover have "unat (w AND 0x000f) < 16"
  proof -
    have "(0x000f :: u16) = mask 4" by (simp add: mask_eq_exp_minus_1)
    then have "w AND 0x000f = take_bit 4 w" by (simp add: take_bit_eq_mask)
    then show ?thesis using take_bit_nat_less_exp [of 4 "unat w"] by (simp add: unsigned_take_bit_eq)
  qed
  ultimately show ?thesis by (auto intro!: image_eqI [where x = "unat (w - 0xf0b0)"])
qed

lemma port_nibbles_all:
  "list_all (\<lambda>s. list_all (\<lambda>d. let x = ucast (push_bit 4 s) + ucast d :: u8 in ucast (drop_bit 4 x) = s \<and> ucast (x AND 0x0f) = d)
     (map of_nat [0..<16] :: u16 list)) (map of_nat [0..<16] :: u16 list)"
  by code_simp

lemma port_nibbles:
  fixes sp dp :: u16
  assumes "sp AND 0xfff0 = 0xf0b0" "dp AND 0xfff0 = 0xf0b0"
  defines "x \<equiv> ucast (push_bit 4 (sp - 0xf0b0)) + ucast (dp - 0xf0b0) :: u8"
  shows "0xf0b0 + ucast (drop_bit 4 x) = sp" "0xf0b0 + ucast (x AND 0x0f) = dp"
proof -
  have "ucast (drop_bit 4 x) = sp - 0xf0b0 \<and> ucast (x AND 0x0f) = dp - 0xf0b0"
    using port_nibbles_all port_4 [OF assms(1)] port_4 [OF assms(2)] unfolding list_all_iff x_def Let_def by blast
  then show "0xf0b0 + ucast (drop_bit 4 x) = sp" "0xf0b0 + ucast (x AND 0x0f) = dp" by simp_all
qed

lemma udp_back:
  assumes p: "48 \<le> length p" and i: "inline (hc06_udp p) ptr rime"
  shows "uncompress_udp rime (buf, ptr) =
    Some (write_at 46 (read_at 46 2 p) (write_at 42 (read_at 42 2 p) (write_at 40 (read_at 40 2 p) (buf[6 := UIP_PROTO_UDP]))),
      ptr + length (hc06_udp p))"
proof -
  define sp dp where "sp = be16_of (read_at 40 2 p)" and "dp = be16_of (read_at 42 2 p)"
  have r: "read_at k 2 p = [p ! k, p ! (k + 1)]" if "k + 2 \<le> length p" for k
    using that by (simp add: read_at_def list_eq_iff_nth_eq less_Suc_eq numeral_2_eq_2)
  have b: "be16_bytes sp = read_at 40 2 p" "be16_bytes dp = read_at 42 2 p"
    using p by (simp_all add: sp_def dp_def r be16_bytes_of)
  have r4: "read_at 40 4 p = read_at 40 2 p @ read_at 42 2 p" using p by (simp add: read_at_def take_add [of 2 2, simplified])
  let ?c = "read_at 46 2 p"
  have l: "length (read_at k 2 p) = 2" if "k + 2 \<le> length p" for k using that by simp
  have pick: "read_at 1 2 (a # b # c # ds) = [b, c]" "read_at 2 2 (a # b # c # d # ds) = [c, d]"
    "read_at 3 2 (a # b # c # d # e # ds) = [d, e]" "read_at 4 2 (a # b # c # d # e # f # ds) = [e, f]"
    "read_at 5 2 (a # b # c # d # e # f # g # ds) = [f, g]" for a b c d e f g :: u8 and ds by (simp_all add: read_at_def)
  note pick = pick pick(1) [unfolded One_nat_def]
  consider (n4) "sp AND 0xfff0 = 0xf0b0 \<and> dp AND 0xfff0 = 0xf0b0"
    | (d8) "\<not> (sp AND 0xfff0 = 0xf0b0 \<and> dp AND 0xfff0 = 0xf0b0)" "dp AND 0xff00 = 0xf000"
    | (s8) "\<not> (sp AND 0xfff0 = 0xf0b0 \<and> dp AND 0xfff0 = 0xf0b0)" "dp AND 0xff00 \<noteq> 0xf000" "sp AND 0xff00 = 0xf000"
    | (no) "\<not> (sp AND 0xfff0 = 0xf0b0 \<and> dp AND 0xfff0 = 0xf0b0)" "dp AND 0xff00 \<noteq> 0xf000" "sp AND 0xff00 \<noteq> 0xf000" by blast
  then show ?thesis
  proof cases
    case n4
    have e: "hc06_udp p = [0xf3, ucast (push_bit 4 (sp - 0xf0b0)) + ucast (dp - 0xf0b0)] @ ?c"
      using n4 by (simp add: hc06_udp_def sp_def dp_def)
    show ?thesis using port_nibbles [OF conjunct1 [OF n4] conjunct2 [OF n4]] inline_hd [OF i] inline_byte [OF i, of 1]
        inline_sub [OF i, of 2 2] p b unfolding e by (simp add: uncompress_udp_def read_at_def)
  next
    case d8
    have e: "hc06_udp p = [0xf1] @ read_at 40 2 p @ [ucast (dp - 0xf000)] @ ?c"
      using d8 unfolding hc06_udp_def sp_def [symmetric] dp_def [symmetric] Let_def by simp
    show ?thesis using port_8 [OF d8(2)] inline_hd [OF i] inline_sub [OF i, of 1 2] inline_byte [OF i, of 3]
        inline_sub [OF i, of 4 2] p b(2) unfolding e by (simp add: uncompress_udp_def r pick)
  next
    case s8
    have e: "hc06_udp p = [0xf2, ucast (sp - 0xf000)] @ read_at 42 2 p @ ?c"
      using s8 unfolding hc06_udp_def sp_def [symmetric] dp_def [symmetric] Let_def by simp
    show ?thesis using port_8 [OF s8(3)] inline_hd [OF i] inline_byte [OF i, of 1] inline_sub [OF i, of 2 2]
        inline_sub [OF i, of 4 2] p b(1) unfolding e by (simp add: uncompress_udp_def r pick)
  next
    case no
    have e: "hc06_udp p = [0xf0] @ read_at 40 2 p @ read_at 42 2 p @ ?c"
      using no unfolding hc06_udp_def sp_def [symmetric] dp_def [symmetric] Let_def r4 by simp
    show ?thesis using inline_hd [OF i] inline_sub [OF i, of 1 2] inline_sub [OF i, of 3 2]
        inline_sub [OF i, of 5 2] p unfolding e by (simp add: uncompress_udp_def r pick)
  qed
qed

section \<open>The headers come back\<close>

lemma compress_addr_64_bits: "compress_addr_64 bp a m = (bits, bs) \<Longrightarrow> bits \<in> {push_bit bp 1, push_bit bp 2, push_bit bp 3}"
  by (auto simp: compress_addr_64_def split: if_splits)

lemma hc06_src_bits:
  assumes "hc06_src ctxs lladdr p = (src, sctx, bs)" "ctxs_ok ctxs"
  shows "src \<in> src_bits" "\<exists>s. unat s < 16 \<and> sctx = push_bit 4 s" "src AND 0x80 \<noteq> 0 \<Longrightarrow> addr_context_lookup_by_prefix ctxs (ip_src p) \<noteq> None"
proof -
  have z: "\<exists>s :: u8. unat s < 16 \<and> push_bit 4 s = 0" by (rule exI [of _ 0]) simp
  have n: "unat (ctx_number c) < 16" if "addr_context_lookup_by_prefix ctxs a = Some c" for a c
    using lookup_by_prefix [OF that] assms(2) by (auto simp: ctxs_ok_def)
  show "src \<in> src_bits" "\<exists>s. unat s < 16 \<and> sctx = push_bit 4 s" "src AND 0x80 \<noteq> 0 \<Longrightarrow> addr_context_lookup_by_prefix ctxs (ip_src p) \<noteq> None"
    using assms(1) z n compress_addr_64_bits [of 4 "ip_src p" lladdr]
    by (auto simp: hc06_src_def src_bits_def split: if_splits option.splits prod.splits)
qed

lemma hc06_dst_bits:
  assumes "hc06_dst ctxs dest p = (dst, dctx, bs)" "ctxs_ok ctxs"
  shows "dst \<in> dst_bits" "unat dctx < 16"
proof -
  have n: "unat (ctx_number c) < 16" if "addr_context_lookup_by_prefix ctxs a = Some c" for a c
    using lookup_by_prefix [OF that] assms(2) by (auto simp: ctxs_ok_def)
  show "dst \<in> dst_bits" "unat dctx < 16"
    using assms(1) n compress_addr_64_bits [of 0 "ip_dst p" dest]
    by (auto simp: hc06_dst_def dst_bits_def Let_def split: if_splits option.splits prod.splits)
qed

lemma hc06_tf_bits: "hc06_tf p = (tf, bs) \<Longrightarrow> tf \<in> tf_bits"
  by (auto simp: hc06_tf_def tf_bits_def Let_def split: if_splits)

lemma hc06_nh_bits: "hc06_nh p = (nh, bs) \<Longrightarrow> nh = (if p ! 6 = UIP_PROTO_UDP then 4 else 0)"
  by (auto simp: hc06_nh_def split: if_splits)

lemma hc06_ttl_bits: "hc06_ttl p = (ttl, bs) \<Longrightarrow> ttl \<in> {0, 1, 2, 3}"
  by (auto simp: hc06_ttl_def split: if_splits)

lemma hc06_udp_id: "hc06_udp p \<noteq> []" "hc06_udp p ! 0 AND 0xf8 = 0xf0"
  by (auto simp: hc06_udp_def Let_def)

text \<open>The header assembled from its fields.\<close>

lemma header_fields:
  assumes "length A = 4" "length L = 2" "length S = 16" "length D = 16" "40 \<le> length buf"
  shows "write_at 4 L (write_at 24 D (write_at 8 S ((write_at 0 A buf)[6 := x, 7 := y]))) = write_at 0 (A @ L @ [x, y] @ S @ D) buf"
proof -
  obtain a0 a1 a2 a3 where a: "A = [a0, a1, a2, a3]" using assms(1) by (auto simp: numeral_eq_Suc length_Suc_conv)
  obtain l0 l1 where l: "L = [l0, l1]" using assms(2) by (auto simp: numeral_eq_Suc length_Suc_conv)
  obtain b0 b1 b2 b3 b4 b5 b6 b7 bs where b: "buf = b0 # b1 # b2 # b3 # b4 # b5 # b6 # b7 # bs" "32 \<le> length bs"
    using assms(5) by (auto simp: numeral_eq_Suc Suc_le_length_iff)
  show ?thesis using assms(3,4) b(2) by (simp add: a l b(1) write_at_def)
qed

lemma list_of_8: "8 \<le> length xs \<Longrightarrow> \<exists>c0 c1 c2 c3 c4 c5 c6 c7 cs. xs = c0 # c1 # c2 # c3 # c4 # c5 # c6 # c7 # cs"
  by (auto simp: numeral_eq_Suc Suc_le_length_iff)

lemma header_fields_udp:
  assumes "length A = 4" "length L = 2" "length S = 16" "length D = 16" "length U1 = 2" "length U2 = 2" "length U3 = 2" "48 \<le> length buf"
  shows "write_at 44 L (write_at 4 L (write_at 46 U3 (write_at 42 U2 (write_at 40 U1
      ((write_at 24 D (write_at 8 S ((write_at 0 A buf)[7 := y])))[6 := x]))))) =
    write_at 0 (A @ L @ [x, y] @ S @ D @ U1 @ U2 @ L @ U3) buf"
proof -
  obtain a0 a1 a2 a3 where a: "A = [a0, a1, a2, a3]" using assms(1) by (auto simp: numeral_eq_Suc length_Suc_conv)
  obtain l0 l1 u0 u1 u2 u3 u4 u5 where l: "L = [l0, l1]" "U1 = [u0, u1]" "U2 = [u2, u3]" "U3 = [u4, u5]"
    using assms(2,5-7) by (auto simp: numeral_eq_Suc length_Suc_conv)
  obtain b0 b1 b2 b3 b4 b5 b6 b7 bs where b: "buf = b0 # b1 # b2 # b3 # b4 # b5 # b6 # b7 # bs" "40 \<le> length bs"
    using assms(8) by (auto simp: numeral_eq_Suc Suc_le_length_iff)
  define X where "X = take 32 bs"
  obtain c0 c1 c2 c3 c4 c5 c6 c7 cs where c: "drop 32 bs = c0 # c1 # c2 # c3 # c4 # c5 # c6 # c7 # cs"
  proof -
    have "8 \<le> length (drop 32 bs)" using b(2) by simp
    from list_of_8 [OF this] show thesis using that by blast
  qed
  have bs: "bs = X @ c0 # c1 # c2 # c3 # c4 # c5 # c6 # c7 # cs" "length X = 32"
    using c b(2) append_take_drop_id [of 32 bs] by (simp_all add: X_def)
  show ?thesis using assms(3,4) by (simp add: a l b(1) bs write_at_def)
qed

lemma udp_split:
  assumes "48 \<le> length p"
  shows "take 48 p = take 40 p @ read_at 40 2 p @ read_at 42 2 p @ read_at 44 2 p @ read_at 46 2 p"
  unfolding read_at_def using take_add [of 40 8 p] take_add [of 2 6 "drop 40 p"] take_add [of 2 4 "drop 42 p"] take_add [of 2 2 "drop 44 p"]
  by simp

lemma header_split:
  assumes "40 \<le> length p"
  shows "take 40 p = take 4 p @ read_at 4 2 p @ [p ! 6, p ! 7] @ ip_src p @ ip_dst p"
proof -
  have "take 40 p = take 4 p @ read_at 4 2 p @ read_at 6 2 p @ read_at 8 16 p @ read_at 24 16 p"
    unfolding read_at_def using take_add [of 4 36 p] take_add [of 2 34 "drop 4 p"] take_add [of 2 32 "drop 6 p"] take_add [of 16 16 "drop 8 p"]
    by simp
  moreover have "read_at 6 2 p = [p ! 6, p ! 7]" using assms by (auto simp: numeral_eq_Suc Suc_le_length_iff read_at_def)
  ultimately show ?thesis by (simp add: ip_src_def ip_dst_def)
qed

text \<open>
  Packets the compression gets right: version 6, a UDP length that is the one of the IP header, and a source
  that the test of the wrong address does not hit.
\<close>

definition hc06_wf :: "u8 list \<Rightarrow> bool" where
  "hc06_wf p \<longleftrightarrow> 40 \<le> length p \<and> p ! 0 AND 0xf0 = 0x60 \<and> hc06_src_ok p \<and>
     (p ! 6 = UIP_PROTO_UDP \<longrightarrow> 48 \<le> length p \<and> read_at 44 2 p = read_at 4 2 p)"

lemma hc06_back:
  assumes w: "hc06_wf p" and ok: "ctxs_ok ctxs" and c: "compress_hdr_hc06 ctxs lladdr dest p = (hdr, u)"
    and rime: "rime = F @ hdr @ rest" "length F = h" and buf: "48 \<le> length buf"
    and m: "lladdr_known lladdr sender" "\<not> uip_is_addr_mcast (ip_dst p) \<Longrightarrow> lladdr_known dest receiver"
    and len: "be16_of (read_at 4 2 p) = (if ip_len = 0 then of_int (int datalen - int (h + length hdr) + int u - 40) else ip_len - 40)"
  shows "uncompress_hdr_hc06 ctxs sender receiver ip_len datalen rime h buf = Some (write_at 0 (take u p) buf, h + length hdr, u)"
proof -
  define cid where "cid \<longleftrightarrow> addr_context_lookup_by_prefix ctxs (ip_dst p) \<noteq> None \<or> addr_context_lookup_by_prefix ctxs (ip_src p) \<noteq> None"
  obtain tf tfs nh nhs ttl ttls src sctx srcs dst dctx dsts where
    f: "hc06_tf p = (tf, tfs)" "hc06_nh p = (nh, nhs)" "hc06_ttl p = (ttl, ttls)" "hc06_src ctxs lladdr p = (src, sctx, srcs)"
      "hc06_dst ctxs dest p = (dst, dctx, dsts)" by (metis prod.exhaust)
  define iphc0 iphc1 where "iphc0 = 0x60 OR tf OR nh OR ttl" and "iphc1 = (if cid then 0x80 else 0) OR src OR dst"
  define cb where "cb = (if cid then [sctx OR dctx] else [])"
  define udp where "udp = (if p ! 6 = UIP_PROTO_UDP then hc06_udp p else [])"
  have hdr: "hdr = [iphc0, iphc1] @ cb @ tfs @ nhs @ ttls @ srcs @ dsts @ udp" and u: "u = (if p ! 6 = UIP_PROTO_UDP then 48 else 40)"
    using c by (simp_all add: compress_hdr_hc06_def f cid_def iphc0_def iphc1_def cb_def udp_def Let_def)
  have p40: "40 \<le> length p" "p ! 0 AND 0xf0 = 0x60" "hc06_src_ok p" and pu: "p ! 6 = UIP_PROTO_UDP \<Longrightarrow> 48 \<le> length p \<and> read_at 44 2 p = read_at 4 2 p"
    using w by (auto simp: hc06_wf_def)
  note sb = hc06_src_bits [OF f(4) ok] and db = hc06_dst_bits [OF f(5) ok]
  have nh: "nh \<in> {0, 4}" "nh \<noteq> 0 \<longleftrightarrow> p ! 6 = UIP_PROTO_UDP" using hc06_nh_bits [OF f(2)] by auto
  note b0 = iphc0_bits [OF hc06_tf_bits [OF f(1)] nh(1) hc06_ttl_bits [OF f(3)] iphc0_def]
  have "(if cid then 0x80 else 0) \<in> {0, 0x80 :: u8}" by simp
  note b1 = iphc1_bits [OF sb(1) db(1) this iphc1_def]
  have cidb: "iphc1 AND 0x80 \<noteq> 0 \<longleftrightarrow> cid"
  proof -
    have "src AND 0x80 \<noteq> 0 \<Longrightarrow> cid" using sb(3) by (auto simp: cid_def)
    then show ?thesis unfolding b1(3) by auto
  qed
  let ?p0 = "h + 2 + length cb"
  have i: "inline tfs ?p0 rime" "inline nhs (?p0 + length tfs) rime" "inline ttls (?p0 + length tfs + length nhs) rime"
    "inline srcs (?p0 + length tfs + length nhs + length ttls) rime"
    "inline dsts (?p0 + length tfs + length nhs + length ttls + length srcs) rime"
    "inline udp (?p0 + length tfs + length nhs + length ttls + length srcs + length dsts) rime"
    "inline cb (h + 2) rime" "inline [iphc0, iphc1] h rime"
  proof -
    have "inline hdr h rime" using rime unfolding inline_def by blast
    note e = inline_appD [OF this [unfolded hdr]]
    note e1 = inline_appD [OF conjunct2 [OF e]]
    note e2 = inline_appD [OF conjunct2 [OF e1]]
    note e3 = inline_appD [OF conjunct2 [OF e2]]
    note e4 = inline_appD [OF conjunct2 [OF e3]]
    note e5 = inline_appD [OF conjunct2 [OF e4]]
    note e6 = inline_appD [OF conjunct2 [OF e5]]
    show "inline tfs ?p0 rime" "inline nhs (?p0 + length tfs) rime" "inline ttls (?p0 + length tfs + length nhs) rime"
      "inline srcs (?p0 + length tfs + length nhs + length ttls) rime"
      "inline dsts (?p0 + length tfs + length nhs + length ttls + length srcs) rime"
      "inline udp (?p0 + length tfs + length nhs + length ttls + length srcs + length dsts) rime"
      "inline cb (h + 2) rime" "inline [iphc0, iphc1] h rime"
      using e e1 e2 e3 e4 e5 e6 by (simp_all add: add_ac)
  qed
  have enc: "byte_at h rime = Some iphc0" "byte_at (h + 1) rime = Some iphc1"
    using inline_byte [OF i(8), of 0] inline_byte [OF i(8), of 1] by simp_all
  have ptr: "h + 2 + (if iphc1 AND 0x80 \<noteq> 0 then 1 else 0) = ?p0" unfolding cidb by (simp add: cb_def)
  have cbyte: "byte_at (h + 2) rime = Some (sctx OR dctx)" if cid using inline_hd [OF i(7)] that by (simp add: cb_def)
  define B1 where "B1 = write_at 0 (take 4 p) buf"
  define B2 where "B2 = (if p ! 6 = UIP_PROTO_UDP then B1 else B1[6 := p ! 6])[7 := p ! 7]"
  define B4 where "B4 = write_at 24 (ip_dst p) (write_at 8 (ip_src p) B2)"
  have l: "length B1 = length buf" "length B2 = length buf" "length (write_at 8 (ip_src p) B2) = length buf" "length B4 = length buf"
    using buf p40(1) by (auto simp: B1_def B2_def B4_def length_ip_addrs)
  have s0: "uncompress_tf iphc0 rime (buf, ?p0) = Some (B1, ?p0 + length tfs)"
    using tf_back(2) [OF p40(1) _ p40(2) f(1) i(1) b0(1,2)] buf by (simp add: B1_def)
  have s1: "uncompress_nh iphc0 rime (B1, ?p0 + length tfs) =
      Some (if p ! 6 = UIP_PROTO_UDP then B1 else B1[6 := p ! 6], ?p0 + length tfs + length nhs)"
    using nh_back(3) [OF _ f(2) i(2) b0(3)] buf l by simp
  have s2: "uncompress_ttl iphc0 rime (if p ! 6 = UIP_PROTO_UDP then B1 else B1[6 := p ! 6], ?p0 + length tfs + length nhs) =
      Some (B2, ?p0 + length tfs + length nhs + length ttls)"
    using ttl_back(2) [OF _ f(3) i(3) b0(4)] buf l by (simp add: B2_def)
  have s3: "uncompress_src ctxs sender h iphc1 rime (B2, ?p0 + length tfs + length nhs + length ttls) =
      Some (Some (write_at 8 (ip_src p) B2, ?p0 + length tfs + length nhs + length ttls + length srcs))"
  proof (rule src_back(2) [OF p40(1) _ ok p40(3) f(4) i(4) m(1) b1(1,2)])
    show "24 \<le> length B2" using l buf by simp
    show "iphc1 AND 0x80 \<noteq> 0 \<and> (\<exists>d. unat d < 16 \<and> byte_at (h + 2) rime = Some (sctx OR d))" if "src AND 0x80 \<noteq> 0"
      using sb(3) [OF that] cidb cbyte db(2) by (auto simp: cid_def)
    show "h + 2 < length rime" if "iphc1 AND 0x80 \<noteq> 0" using cbyte cidb that by (auto simp: byte_at_def split: if_splits)
  qed
  have s4: "uncompress_dst ctxs receiver h iphc1 rime (write_at 8 (ip_src p) B2, ?p0 + length tfs + length nhs + length ttls + length srcs) =
      Some (Some (B4, ?p0 + length tfs + length nhs + length ttls + length srcs + length dsts))"
    unfolding B4_def
  proof (rule dst_back(2) [OF p40(1) _ ok f(5) i(5) m(2) b1(4,5,6)])
    show "40 \<le> length (write_at 8 (ip_src p) B2)" using l buf by simp
    show "iphc1 AND 0x80 \<noteq> 0 \<and> (\<exists>s. unat s < 16 \<and> byte_at (h + 2) rime = Some (push_bit 4 s OR dctx))"
      if "addr_context_lookup_by_prefix ctxs (ip_dst p) \<noteq> None"
      using that cidb cbyte sb(2) by (auto simp: cid_def)
  qed
  let ?p5 = "?p0 + length tfs + length nhs + length ttls + length srcs + length dsts"
  have lh: "h + length hdr = ?p5 + length udp" by (simp add: hdr)
  have L: "be16_bytes (if ip_len = 0 then of_int (int datalen - int (h + length hdr) + int u - 40) else ip_len - 40) = read_at 4 2 p"
  proof -
    have "read_at 4 2 p = [p ! 4, p ! 5]" using p40(1) by (auto simp: numeral_eq_Suc Suc_le_length_iff read_at_def)
    then show ?thesis using len be16_bytes_of [of "p ! 4" "p ! 5"] by simp
  qed
  have fl: "length (take 4 p) = 4" "length (read_at 4 2 p) = 2" "length (ip_src p) = 16" "length (ip_dst p) = 16" "40 \<le> length buf"
    using p40(1) length_ip_addrs [OF p40(1)] buf by simp_all
  note run = uncompress_hdr_hc06_def enc ptr s0 s1 s2 s3 s4 Option.bind.bind_lunit option.case fst_conv snd_conv b0(3)
  show ?thesis
  proof (cases "p ! 6 = UIP_PROTO_UDP")
    case False
    have n: "nh = 0" using nh(2) False by simp
    have z: "udp = []" "u = 40" using False by (simp_all add: udp_def u)
    have "write_at 4 (read_at 4 2 p) B4 = write_at 0 (take 40 p) buf"
      using header_fields [OF fl(1-5), of "p ! 6" "p ! 7"] False header_split [OF p40(1)] by (simp add: B4_def B2_def B1_def)
    moreover have "write_at 0 (take 40 p) buf ! 6 = p ! 6" using p40(1) by (simp add: write_at_def nth_append)
    ultimately have "hc06_lengths ip_len datalen (h + length hdr) u B4 = write_at 0 (take u p) buf"
      unfolding hc06_lengths_def Let_def L using False z(2) by simp
    then show ?thesis unfolding run n Let_def lh z by simp
  next
    case True
    have n: "nh = 4" using hc06_nh_bits [OF f(2)] True by simp
    have u48: "u = 48" and hu: "udp = hc06_udp p" using True by (simp_all add: udp_def u)
    have p48: "48 \<le> length p" "read_at 44 2 p = read_at 4 2 p" using pu True by auto
    define B5 where "B5 = write_at 46 (read_at 46 2 p) (write_at 42 (read_at 42 2 p) (write_at 40 (read_at 40 2 p) (B4[6 := UIP_PROTO_UDP])))"
    have s5: "uncompress_udp rime (B4, ?p5) = Some (B5, ?p5 + length udp)"
      using udp_back [OF p48(1)] i(6) unfolding hu B5_def by blast
    have bu: "byte_at ?p5 rime = Some (hc06_udp p ! 0)" using inline_hd [OF i(6) [unfolded hu] hc06_udp_id(1)] .
    define B6 where "B6 = write_at 4 (read_at 4 2 p) B5"
    have l5: "length B5 = length buf" using p48 l buf by (simp add: B5_def)
    have fin: "write_at 44 (read_at 4 2 p) B6 = write_at 0 (take 48 p) buf"
      using header_fields_udp [OF fl(1-4) _ _ _ buf, of "read_at 40 2 p" "read_at 42 2 p" "read_at 46 2 p" "p ! 7" "p ! 6"] p48
        header_split [OF p40(1)] udp_split [OF p48(1)] True by (simp add: B6_def B5_def B4_def B2_def B1_def)
    have b6: "B6 ! 6 = UIP_PROTO_UDP"
    proof -
      have "write_at 44 (read_at 4 2 p) B6 ! 6 = B6 ! 6" using l5 buf fl(2) by (simp add: B6_def write_at_def nth_append)
      moreover have "write_at 0 (take 48 p) buf ! 6 = UIP_PROTO_UDP" using p48 True by (simp add: write_at_def nth_append)
      ultimately show ?thesis using fin by simp
    qed
    have r4: "read_at 4 2 B6 = read_at 4 2 p"
      using read_write_same [of 4 "read_at 4 2 p" B5] l5 buf fl(2) by (simp add: B6_def)
    have "hc06_lengths ip_len datalen (h + length hdr) u B5 = write_at 0 (take u p) buf"
      unfolding hc06_lengths_def Let_def L B6_def [symmetric] using b6 r4 fin u48 by simp
    moreover have "hc06_udp p ! 0 AND 0xf8 = 0xf0" by (rule hc06_udp_id)
    ultimately show ?thesis using bu s5 unfolding run n Let_def lh u48 by simp
  qed
qed

text \<open>
  C8. Header compression loses nothing: for every well-formed packet, whatever its traffic class, flow
  label, hop limit, next header, ports and addresses are, the decompression of the compressed header at the
  receiver rebuilds the bytes of the IPv6 header, and of the UDP header if there is one, exactly as they
  were, including both length fields, and reports where the payload starts. The premises on the link-layer
  addresses say that the receiver knows the sender's address, and its own unless the packet is multicast,
  and that these are universally administered.
\<close>

theorem hc06_roundtrip:
  assumes "hc06_wf p" "ctxs_ok ctxs" "compress_hdr_hc06 ctxs lladdr dest p = (hdr, u)"
    and "48 \<le> length buf" "lladdr_known lladdr sender" "\<not> uip_is_addr_mcast (ip_dst p) \<Longrightarrow> lladdr_known dest receiver"
    and "unat (be16_of (read_at 4 2 p)) = length p - 40"
  shows "uncompress_hdr_hc06 ctxs sender receiver 0 (length (hdr @ drop u p)) (hdr @ drop u p @ stale) 0 buf =
    Some (write_at 0 (take u p) buf, length hdr, u)"
proof -
  have u: "40 \<le> u" "u \<le> length p" using assms(1,3) by (auto simp: compress_hdr_hc06_def hc06_wf_def Let_def split: prod.splits if_splits)
  have "be16_of (read_at 4 2 p) = of_nat (length p - 40)" by (simp flip: assms(7))
  also have "\<dots> = of_int (int (length (hdr @ drop u p)) - int (0 + length hdr) + int u - 40)"
    using u by (simp add: of_nat_diff)
  finally have len: "be16_of (read_at 4 2 p) = of_int (int (length (hdr @ drop u p)) - int (0 + length hdr) + int u - 40)" .
  show ?thesis using hc06_back [OF assms(1-3) _ _ assms(4-6), of "hdr @ drop u p @ stale" "[]" "drop u p @ stale" 0 0] len by simp
qed

lemma hc06_ignores_source_words:
  assumes "24 \<le> length p" "length bs = 6"
  defines "q \<equiv> write_at 10 bs p"
  shows "hc06_tf q = hc06_tf p" "hc06_nh q = hc06_nh p" "hc06_ttl q = hc06_ttl p" "hc06_udp q = hc06_udp p" "ip_dst q = ip_dst p"
    "compress_addr_64 k (ip_src q) m = compress_addr_64 k (ip_src p) m" "q ! 6 = p ! 6" "take 2 (ip_src q) = take 2 (ip_src p)"
proof -
  have n: "q ! i = p ! i" if "i < 10 \<or> 16 \<le> i" for i
    using that assms by (auto simp: q_def write_at_def nth_append)
  have r: "read_at i k q = read_at i k p" if "i + k \<le> 10 \<or> 16 \<le> i" for i k
    using that assms(1,2) read_write_before [of i k 10 p bs] read_write_after [of 10 bs i p k] by (auto simp: q_def)
  have u: "u16_zero i q = u16_zero i p" if "i < 5" for i using that by (simp add: u16_zero_def n)
  show "hc06_tf q = hc06_tf p" "hc06_nh q = hc06_nh p" "hc06_ttl q = hc06_ttl p" "hc06_udp q = hc06_udp p" "ip_dst q = ip_dst p" "q ! 6 = p ! 6"
    by (simp_all add: hc06_tf_def hc06_nh_def hc06_ttl_def hc06_udp_def ip_dst_def n r u Let_def cong: if_cong)
  have l: "length q = length p" using assms by simp
  have s: "ip_src q ! i = ip_src p ! i" if "8 \<le> i" "i < 16" for i
    using that l assms(1) n [of "8 + i"] by (simp add: ip_src_def read_at_def)
  have rs: "read_at i k (ip_src q) = read_at i k (ip_src p)" if "8 \<le> i" "i + k \<le> 16" for i k
    using that r [of "8 + i" k] by (simp add: ip_src_def read_read)
  show "compress_addr_64 k (ip_src q) m = compress_addr_64 k (ip_src p) m"
  proof -
    have "uip_is_addr_mac_addr_based (ip_src q) m = uip_is_addr_mac_addr_based (ip_src p) m"
      "sicslowpan_is_iid_16_bit_compressable (ip_src q) = sicslowpan_is_iid_16_bit_compressable (ip_src p)"
      by (simp_all add: uip_is_addr_mac_addr_based_def sicslowpan_is_iid_16_bit_compressable_def u16_zero_def s)
    then show ?thesis by (simp add: compress_addr_64_def rs)
  qed
  show "take 2 (ip_src q) = take 2 (ip_src p)"
    using r [of 8 2] read_read [of 0 2 16 8 q] read_read [of 0 2 16 8 p] by (simp add: ip_src_def read_at_def)
qed

text \<open>
  C31. The test for a link-local source address checks the words of the destination address: when those are
  zero the words 1 to 3 of the source are dropped whatever they are, so that packets from different sources
  get one and the same compressed header.
\<close>

theorem hc06_source_prefix_lost:
  assumes "40 \<le> length p" "length bs = 6" "uip_is_addr_link_local (ip_src p)"
    and "u16_zero 1 (ip_dst p)" "u16_zero 2 (ip_dst p)" "u16_zero 3 (ip_dst p)"
    and "addr_context_lookup_by_prefix ctxs (ip_src p) = None" "addr_context_lookup_by_prefix ctxs (ip_src (write_at 10 bs p)) = None"
  shows "compress_hdr_hc06 ctxs lladdr dest (write_at 10 bs p) = compress_hdr_hc06 ctxs lladdr dest p"
proof -
  define q where "q = write_at 10 bs p"
  have "24 \<le> length p" using assms(1) by simp
  note h = hc06_ignores_source_words [OF this assms(2), folded q_def]
  have "uip_is_addr_link_local (ip_src q)"
    using h(8) assms(3) nth_take [of 0 2 "ip_src q"] nth_take [of 0 2 "ip_src p"] nth_take [of 1 2 "ip_src q"] nth_take [of 1 2 "ip_src p"]
    by (simp add: uip_is_addr_link_local_def)
  moreover have "\<not> uip_is_addr_unspecified a" if "uip_is_addr_link_local a" for a
    using that by (auto simp: uip_is_addr_link_local_def uip_is_addr_unspecified_def u16_zero_def)
  ultimately have "hc06_src ctxs lladdr q = hc06_src ctxs lladdr p"
    using assms h(5,6) by (simp add: hc06_src_def q_def)
  moreover have "hc06_dst ctxs dest q = hc06_dst ctxs dest p" by (simp add: hc06_dst_def h(5))
  ultimately show ?thesis using assms(7,8) h by (simp add: compress_hdr_hc06_def q_def)
qed

text \<open>A UDP packet between two link-local addresses, with contexts as set up at the start.\<close>

definition packet1 :: "u8 list" where
  "packet1 = [0x60, 0, 0, 0, 0, 20, 17, 64] @ [0xfe, 0x80, 0, 0, 0, 0, 0, 0, 2, 1, 2, 0xff, 0xfe, 3, 4, 5] @
     [0xaa, 0xaa, 0, 0, 0, 0, 0, 0, 0, 0, 0, 0xff, 0xfe, 0, 0, 9] @ [0xf0, 0xb1, 0xf0, 0xb2, 0, 20, 0x12, 0x34] @ [1, 2, 3, 4, 5, 6, 7, 8, 9, 10, 11, 12]"

lemma ctxs_init_ok: "ctxs_ok sicslowpan_init_contexts"
  by (simp add: ctxs_ok_def sicslowpan_init_contexts_def addr_context_lookup_by_number_def)

definition mac1 :: "u8 list" where "mac1 = [0, 1, 2, 3, 4, 5]"
definition mac2 :: "u8 list" where "mac2 = [0, 9, 8, 7, 6, 5]"

lemma packet1_wf: "hc06_wf packet1" by code_simp

lemma hc06_roundtrip_witness:
  "\<exists>hdr. length hdr = 9 \<and>
     uncompress_hdr_hc06 sicslowpan_init_contexts mac1 mac2 0 21 (hdr @ drop 48 packet1 @ []) 0 (replicate 400 0) =
       Some (write_at 0 (take 48 packet1) (replicate 400 0), 9, 48)"
proof -
  define c where "c = compress_hdr_hc06 sicslowpan_init_contexts mac1 mac2 packet1"
  have c: "compress_hdr_hc06 sicslowpan_init_contexts mac1 mac2 packet1 = (fst c, 48)" unfolding c_def by code_simp
  have l: "length (fst c @ drop 48 packet1) = 21" "length (fst c) = 9" unfolding c_def by code_simp+
  have m: "lladdr_known mac1 mac1" "lladdr_known mac2 mac2" by (simp_all add: mac1_def mac2_def lladdr_known_def)
  have "unat (be16_of (read_at 4 2 packet1)) = length packet1 - 40" by code_simp
  from hc06_roundtrip [OF packet1_wf ctxs_init_ok c _ m this, of "replicate 400 0" "[]"] l
  show ?thesis by (intro exI [of _ "fst c"]) simp
qed

definition packet2 :: "u8 list" where
  "packet2 = write_at 8 [0xfe, 0x80, 0, 1, 0, 2, 0, 3] (write_at 24 [0xfe, 0x80, 0, 0, 0, 0, 0, 0] packet1)"

lemma hc06_source_prefix_lost_witness:
  "ip_src (write_at 10 (replicate 6 0) packet2) \<noteq> ip_src packet2 \<and>
   compress_hdr_hc06 sicslowpan_init_contexts mac1 mac2 (write_at 10 (replicate 6 0) packet2) =
     compress_hdr_hc06 sicslowpan_init_contexts mac1 mac2 packet2"
proof -
  have p: "40 \<le> length packet2" "length (replicate 6 (0 :: u8)) = 6" "uip_is_addr_link_local (ip_src packet2)"
    "u16_zero 1 (ip_dst packet2)" "u16_zero 2 (ip_dst packet2)" "u16_zero 3 (ip_dst packet2)"
    "addr_context_lookup_by_prefix sicslowpan_init_contexts (ip_src packet2) = None"
    "addr_context_lookup_by_prefix sicslowpan_init_contexts (ip_src (write_at 10 (replicate 6 0) packet2)) = None"
    by code_simp+
  have "ip_src (write_at 10 (replicate 6 0) packet2) \<noteq> ip_src packet2" by code_simp
  then show ?thesis using hc06_source_prefix_lost [OF p] by blast
qed

end
