(* ===== verification/Sicslowpan.thy ===== *)
theory Sicslowpan
  imports Hc06 Packetbuf
begin

text \<open>
  The 6LoWPAN adaptation layer (\<open>core/net/sicslowpan.c\<close>): sending an IPv6 packet in one frame or in
  fragments, and the reassembly of received ones. Frames are handed to the MAC layer as their data with the
  attributes and addresses of the packet buffer; what becomes of each transmission, and whether a queue
  buffer was free for it, are arguments. The current time is the argument \<open>now\<close>. Sniffer callbacks (none is
  registered), the signal strength and debug output are left out.
\<close>

abbreviation (input) PACKETBUF_ATTR_MAX_MAC_TRANSMISSIONS :: nat where "PACKETBUF_ATTR_MAX_MAC_TRANSMISSIONS \<equiv> 9"
abbreviation (input) PACKETBUF_ATTR_PACKET_TYPE :: nat where "PACKETBUF_ATTR_PACKET_TYPE \<equiv> 14"
abbreviation (input) PACKETBUF_ADDR_SENDER :: nat where "PACKETBUF_ADDR_SENDER \<equiv> 24"
abbreviation (input) PACKETBUF_ADDR_RECEIVER :: nat where "PACKETBUF_ADDR_RECEIVER \<equiv> 25"
abbreviation (input) SICSLOWPAN_FRAG1_HDR_LEN :: nat where "SICSLOWPAN_FRAG1_HDR_LEN \<equiv> 4"
abbreviation (input) SICSLOWPAN_FRAGN_HDR_LEN :: nat where "SICSLOWPAN_FRAGN_HDR_LEN \<equiv> 5"

definition UIP_BUFSIZE :: nat where "UIP_BUFSIZE = 400"
definition COMPRESSION_THRESHOLD :: u16 where "COMPRESSION_THRESHOLD = 63"
definition MAC_MAX_PAYLOAD :: int where "MAC_MAX_PAYLOAD = 102"
definition SICSLOWPAN_MAX_MAC_TRANSMISSIONS :: u16 where "SICSLOWPAN_MAX_MAC_TRANSMISSIONS = 4"
definition SICSLOWPAN_REASS_MAXAGE :: u32 where "SICSLOWPAN_REASS_MAXAGE = 2"
definition CLOCK_SECOND :: u32 where "CLOCK_SECOND = 1000"

record lowpan =
  addr_contexts :: "addr_context list"
  uip_lladdr :: "u8 list"
  sicslowpan_buf :: "u8 list"
  sicslowpan_len :: u16
  processed_ip_in_len :: u16
  my_tag :: u16
  reass_tag :: u16
  frag_sender :: rimeaddr
  reass_timer :: timer
  lp_uip_buf :: "u8 list"
  lp_uip_len :: u16
  tcpip_inputs :: "u8 list list"

section \<open>The framer (\<open>core/net/mac/framer-nullmac.c\<close>)\<close>

definition framer_nullmac_create :: "rimeaddr \<Rightarrow> packetbuf \<Rightarrow> int \<times> packetbuf" where
  "framer_nullmac_create node p =
     (let (ok, q) = packetbuf_hdralloc 16 p in
      if ok then (16, q\<lparr>pb_mem := write_at (packetbuf_hdrptr q) (packetbuf_addr PACKETBUF_ADDR_RECEIVER q @ node) (pb_mem q)\<rparr>)
      else (-1, q))"

definition framer_nullmac_parse :: "packetbuf \<Rightarrow> int \<times> packetbuf" where
  "framer_nullmac_parse p =
     (let hdr = read_at (packetbuf_dataptr p) 16 (pb_mem p); (ok, q) = packetbuf_hdrreduce 16 p in
      if ok then (16, packetbuf_set_addr PACKETBUF_ADDR_RECEIVER (take 8 hdr) (packetbuf_set_addr PACKETBUF_ADDR_SENDER (drop 8 hdr) q))
      else (-1, q))"

section \<open>Sending\<close>

text \<open>\<open>uip_len\<close> bytes of the packet follow its uncompressed IPv6 header, behind the dispatch byte.\<close>

definition compress_hdr_ipv6 :: "u8 list \<Rightarrow> u8 list \<times> nat" where
  "compress_hdr_ipv6 p = (0x41 # take 40 p, 40)"

definition set16 :: "u16 \<Rightarrow> u8 list" where
  "set16 v = be16_bytes v"

text \<open>\<open>last_tx_status\<close> after which the rest of the packet is dropped: collision and the two errors.\<close>

definition mac_tx_failed :: "nat \<Rightarrow> bool" where
  "mac_tx_failed st \<longleftrightarrow> st = 1 \<or> st = 4 \<or> st = 5"

text \<open>The payload of a fragment behind a header of \<open>hdr\<close> bytes, a multiple of eight.\<close>

definition frag_payload :: "int \<Rightarrow> nat \<Rightarrow> nat" where
  "frag_payload framer_hdrlen hdr = unat ((of_int (MAC_MAX_PAYLOAD - framer_hdrlen - int hdr) :: u32) AND 0xfffffff8)"

text \<open>
  \<open>tx\<close> tells for each fragment whether a queue buffer was free and the status of its transmission (free
  and \<open>MAC_TX_OK\<close> when exhausted). The result is the fragments sent and the return value.
\<close>

function frag_loop :: "u8 list \<Rightarrow> nat \<Rightarrow> u8 list \<Rightarrow> nat \<Rightarrow> nat \<Rightarrow> (bool \<times> nat) list \<Rightarrow> u8 list list \<times> nat" where
  "frag_loop p len hdr payload processed tx =
     (if processed < len \<and> payload > 0 then
        let n = (if len - processed < payload then len - processed else payload);
            frame = hdr @ [of_nat (processed div 8)] @ read_at processed n p
        in if tx \<noteq> [] \<and> \<not> fst (hd tx) then ([], 0)
           else if tx \<noteq> [] \<and> mac_tx_failed (snd (hd tx)) then ([frame], 0)
           else let (fs, r) = frag_loop p len hdr n (processed + n) (tl tx) in (frame # fs, r)
      else ([], 1))"
  by pat_completeness auto
termination by (relation "measure (\<lambda>(p, len, hdr, payload, processed, tx). len - processed)") auto

declare frag_loop.simps [simp del]

definition frag_send :: "u8 list \<Rightarrow> nat \<Rightarrow> u16 \<Rightarrow> int \<Rightarrow> u8 list \<Rightarrow> nat \<Rightarrow> (bool \<times> nat) list \<Rightarrow> u8 list list \<times> nat" where
  "frag_send p len tag framer_hdrlen hdr uncomp tx =
     (let payload = frag_payload framer_hdrlen (length hdr + SICSLOWPAN_FRAG1_HDR_LEN);
          frame = set16 (0xc000 OR of_nat len) @ set16 tag @ hdr @ read_at uncomp payload p
      in if tx \<noteq> [] \<and> \<not> fst (hd tx) then ([], 0)
         else if tx \<noteq> [] \<and> mac_tx_failed (snd (hd tx)) then ([frame], 0)
         else let (fs, r) = frag_loop p len (set16 (0xe000 OR of_nat len) @ set16 tag) (frag_payload framer_hdrlen SICSLOWPAN_FRAGN_HDR_LEN)
                (payload + uncomp) (tl tx) in (frame # fs, r))"

text \<open>
  The attributes of the frames: the buffer is cleared once more after the type of a TCP packet has been
  set.
\<close>

definition output_attrs :: "u8 list \<Rightarrow> rimeaddr \<Rightarrow> rimeaddr \<Rightarrow> packetbuf \<Rightarrow> int \<times> packetbuf" where
  "output_attrs p node dest pb =
     (let q1 = packetbuf_set_attr PACKETBUF_ATTR_MAX_MAC_TRANSMISSIONS SICSLOWPAN_MAX_MAC_TRANSMISSIONS (packetbuf_clear pb);
          flags = p ! 53;
          q2 = (if p ! 6 = UIP_PROTO_TCP \<and> flags AND 1 = 0 \<and> flags AND 0x3f \<noteq> 0x10 then packetbuf_set_attr PACKETBUF_ATTR_PACKET_TYPE 2 q1
                else if p ! 6 = UIP_PROTO_TCP \<and> flags AND 1 = 1 then packetbuf_set_attr PACKETBUF_ATTR_PACKET_TYPE 3 q1 else q1);
          (f, q3) = framer_nullmac_create node (packetbuf_set_addr PACKETBUF_ADDR_RECEIVER dest (packetbuf_clear q2))
      in (if f < 0 then 21 else f,
          packetbuf_set_addr PACKETBUF_ADDR_RECEIVER dest
            (packetbuf_set_attr PACKETBUF_ATTR_MAX_MAC_TRANSMISSIONS SICSLOWPAN_MAX_MAC_TRANSMISSIONS (packetbuf_clear q3))))"

text \<open>The frames sent, the return value and the state.\<close>

definition sicslowpan_output ::
  "rimeaddr \<Rightarrow> rimeaddr option \<Rightarrow> packetbuf \<Rightarrow> (bool \<times> nat) list \<Rightarrow> lowpan \<Rightarrow> frame list \<times> nat \<times> lowpan" where
  "sicslowpan_output node localdest pb tx s =
     (let p = lp_uip_buf s; len = unat (lp_uip_len s); dest = (case localdest of None \<Rightarrow> rimeaddr_null | Some d \<Rightarrow> d);
          (hdr, uncomp) = (if lp_uip_len s \<ge> COMPRESSION_THRESHOLD then compress_hdr_hc06 (addr_contexts s) (uip_lladdr s) dest p
                           else compress_hdr_ipv6 p);
          (framer_hdrlen, q) = output_attrs p node dest pb;
          frame = (\<lambda>d. (d, packetbuf_attrs q, packetbuf_addrs q))
      in if int len - int uncomp > MAC_MAX_PAYLOAD - framer_hdrlen - int (length hdr) then
           let (fs, r) = frag_send p len (my_tag s) framer_hdrlen hdr uncomp tx in (map frame fs, r, s\<lparr>my_tag := my_tag s + 1\<rparr>)
         else ([frame (hdr @ read_at uncomp (len - uncomp) p)], 1, s))"

section \<open>Receiving\<close>

record frag_info =
  fi_size :: u16
  fi_tag :: u16
  fi_offset :: u8
  fi_hdr :: nat
  fi_first :: bool
  fi_final :: bool
  fi_is :: bool

definition get16 :: "nat \<Rightarrow> u8 list \<Rightarrow> u16 option" where
  "get16 i rime = map_option be16_of (bytes_at i 2 rime)"

text \<open>The fragmentation header.\<close>

definition input_dispatch :: "u8 list \<Rightarrow> nat \<Rightarrow> lowpan \<Rightarrow> frag_info option" where
  "input_dispatch rime datalen s = do {
     w \<leftarrow> get16 0 rime;
     if drop_bit 8 (w AND 0xf800) = 0xc0 then do {
       tag \<leftarrow> get16 2 rime;
       Some \<lparr>fi_size = w AND 0x07ff, fi_tag = tag, fi_offset = 0, fi_hdr = SICSLOWPAN_FRAG1_HDR_LEN, fi_first = True, fi_final = False, fi_is = True\<rparr>
     } else if drop_bit 8 (w AND 0xf800) = 0xe0 then do {
       off \<leftarrow> byte_at 4 rime;
       tag \<leftarrow> get16 2 rime;
       Some \<lparr>fi_size = w AND 0x07ff, fi_tag = tag, fi_offset = off, fi_hdr = SICSLOWPAN_FRAGN_HDR_LEN, fi_first = False,
         fi_final = (int (unat (processed_ip_in_len s)) + int datalen - int SICSLOWPAN_FRAGN_HDR_LEN \<ge> int (unat (w AND 0x07ff))), fi_is = True\<rparr>
     } else Some \<lparr>fi_size = 0, fi_tag = 0, fi_offset = 0, fi_hdr = 0, fi_first = False, fi_final = False, fi_is = False\<rparr>
   }"

definition reass_reset :: "lowpan \<Rightarrow> lowpan" where
  "reass_reset s = s\<lparr>sicslowpan_len := 0, processed_ip_in_len := 0\<rparr>"

text \<open>Whether the frame is taken: it belongs to the packet being put together, or starts a new one.\<close>

definition reass_accept :: "u32 \<Rightarrow> rimeaddr \<Rightarrow> frag_info \<Rightarrow> lowpan \<Rightarrow> bool \<times> lowpan" where
  "reass_accept now sender fi s =
     (let s1 = (if \<not> fi_is fi then reass_reset s
                else if processed_ip_in_len s > 0 \<and> fi_first fi \<and> frag_sender s \<noteq> sender then reass_reset s else s)
      in if processed_ip_in_len s1 > 0 then
           (\<not> (fi_size fi > 0 \<and> (fi_size fi \<noteq> sicslowpan_len s1 \<or> reass_tag s1 \<noteq> fi_tag fi \<or> frag_sender s1 \<noteq> sender) \<or> fi_size fi = 0), s1)
         else if fi_size fi > 0 \<and> unat (fi_size fi) \<le> UIP_BUFSIZE then
           if fi_is fi \<and> \<not> fi_first fi then (False, s1)
           else (True, s1\<lparr>sicslowpan_len := fi_size fi, reass_tag := fi_tag fi,
                  reass_timer := timer_set now (reass_timer s1) (SICSLOWPAN_REASS_MAXAGE * CLOCK_SECOND div 16), frag_sender := sender\<rparr>)
         else (True, s1))"

text \<open>The headers: the buffer, \<open>rime_hdr_len\<close> and \<open>uncomp_hdr_len\<close>; the inner none is an unknown dispatch.\<close>

definition input_headers ::
  "rimeaddr \<Rightarrow> rimeaddr \<Rightarrow> frag_info \<Rightarrow> nat \<Rightarrow> u8 list \<Rightarrow> lowpan \<Rightarrow> (u8 list \<times> nat \<times> nat) option option" where
  "input_headers sender receiver fi datalen rime s =
     (if fi_hdr fi = SICSLOWPAN_FRAGN_HDR_LEN then Some (Some (sicslowpan_buf s, fi_hdr fi, 0))
      else do {
        d \<leftarrow> byte_at (fi_hdr fi) rime;
        if d AND 0xe0 = 0x60 then
          map_option Some (uncompress_hdr_hc06 (addr_contexts s) sender receiver (fi_size fi) datalen rime (fi_hdr fi) (sicslowpan_buf s))
        else if d = 0x41 then
          map_option (\<lambda>h. Some (write_at 0 h (sicslowpan_buf s), fi_hdr fi + 1 + 40, 40)) (bytes_at (fi_hdr fi + 1) 40 rime)
        else Some None
      })"

text \<open>The payload, and the packet when it is complete.\<close>

definition input_deliver :: "lowpan \<Rightarrow> lowpan" where
  "input_deliver s =
     (if processed_ip_in_len s = 0 \<or> processed_ip_in_len s = sicslowpan_len s then
        let n = unat (sicslowpan_len s);
            s1 = s\<lparr>lp_uip_buf := write_at 0 (take n (sicslowpan_buf s)) (lp_uip_buf s), lp_uip_len := sicslowpan_len s\<rparr>
        in (reass_reset s1)\<lparr>tcpip_inputs := tcpip_inputs s1 @ [take n (lp_uip_buf s1)]\<rparr>
      else s)"

definition input_payload :: "frag_info \<Rightarrow> nat \<Rightarrow> u8 list \<Rightarrow> u8 list \<times> nat \<times> nat \<Rightarrow> lowpan \<Rightarrow> lowpan option" where
  "input_payload fi datalen rime = (\<lambda>(buf, hdr_len, uncomp) s0.
     let s = s0\<lparr>sicslowpan_buf := buf\<rparr> in
     if datalen < hdr_len then Some s
     else
       let n = datalen - hdr_len; off = 8 * unat (fi_offset fi) in
       if uncomp + off + n > UIP_BUFSIZE then Some s
       else do {
         bs \<leftarrow> bytes_at hdr_len n rime;
         let s1 = s\<lparr>sicslowpan_buf := write_at (uncomp + off) bs (sicslowpan_buf s)\<rparr>;
         let s2 = (if fi_size fi > 0 then
             let s2 = (if fi_first fi then s1\<lparr>processed_ip_in_len := processed_ip_in_len s1 + of_nat uncomp\<rparr> else s1) in
             s2\<lparr>processed_ip_in_len := (if fi_final fi then fi_size fi else processed_ip_in_len s2 + of_nat n)\<rparr>
           else s1\<lparr>sicslowpan_len := of_nat (n + uncomp)\<rparr>);
         Some (input_deliver s2)
       })"

definition sicslowpan_input :: "u32 \<Rightarrow> packetbuf \<Rightarrow> lowpan \<Rightarrow> lowpan option" where
  "sicslowpan_input now pb s = do {
     let rime = drop (packetbuf_dataptr pb) (pb_mem pb);
     let datalen = unat (packetbuf_datalen pb);
     let sender = packetbuf_addr PACKETBUF_ADDR_SENDER pb;
     let s0 = (if timer_expired now (reass_timer s) then reass_reset s else s);
     fi \<leftarrow> input_dispatch rime datalen s0;
     let (ok, s1) = reass_accept now sender fi s0;
     if \<not> ok then Some s1
     else do {
       h \<leftarrow> input_headers sender (packetbuf_addr PACKETBUF_ADDR_RECEIVER pb) fi datalen rime s1;
       (case h of None \<Rightarrow> Some s1 | Some h \<Rightarrow> input_payload fi datalen rime h s1)
     }
   }"

section \<open>Fragment headers\<close>

lemma sizes_11:
  assumes "n < 2048"
  shows "(of_nat n :: u16) AND 0x07ff = of_nat n" "(of_nat n :: u16) AND 0xf800 = 0"
proof -
  have "take_bit 11 (of_nat n :: u16) = of_nat n" using assms by (simp add: take_bit_of_nat take_bit_nat_eq_self)
  moreover have "(0x07ff :: u16) = mask 11" by (simp add: mask_eq_exp_minus_1)
  ultimately show a: "(of_nat n :: u16) AND 0x07ff = of_nat n" by (simp add: take_bit_eq_mask)
  have "(of_nat n :: u16) AND 0xf800 = (of_nat n AND 0x07ff) AND 0xf800" using a by simp
  also have "\<dots> = 0" unfolding and.assoc by simp
  finally show "(of_nat n :: u16) AND 0xf800 = 0" .
qed

lemma dispatch_bits:
  assumes "n < 2048" "d \<in> {0xc000, 0xe000 :: u16}"
  shows "(d OR of_nat n) AND 0x07ff = of_nat n" "(d OR of_nat n) AND 0xf800 = d"
  using assms(2) by (auto simp: word_ao_dist sizes_11 [OF assms(1)])

lemma dispatch_other: "drop_bit 8 (be16_of [a, b] AND 0xf800) = ucast (a AND 0xf8)"
proof -
  have "drop_bit 8 (be16_of [a, b] AND 0xf800) = (drop_bit 8 (be16_of [a, b])) AND (drop_bit 8 0xf800)" by (rule drop_bit_and)
  also have "drop_bit 8 (be16_of [a, b]) = ucast a"
    by (rule bit_word_eqI) (auto simp: be16_of_def bit_simps dest: bit_imp_le_length)
  also have "drop_bit 8 (0xf800 :: u16) = ucast (0xf8 :: u8)" by simp
  also have "ucast a AND ucast (0xf8 :: u8) = (ucast (a AND 0xf8) :: u16)"
    by (rule bit_word_eqI) (auto simp: bit_simps dest: bit_imp_le_length)
  finally show ?thesis .
qed

lemma dispatch_plain:
  assumes "a AND 0xe0 = 0x60 \<or> a = 0x41"
  shows "drop_bit 8 (be16_of [a, b] AND 0xf800) \<noteq> 0xc0" "drop_bit 8 (be16_of [a, b] AND 0xf800) \<noteq> 0xe0"
proof -
  have f: "a AND 0xf8 \<noteq> k" if "k \<in> {0xc0, 0xe0}" for k
  proof
    assume e: "a AND 0xf8 = k"
    have "a AND 0xe0 = (a AND 0xf8) AND 0xe0" unfolding and.assoc by simp
    then show False using assms e that by auto
  qed
  have "(ucast (a AND 0xf8) :: u16) \<noteq> ucast (0xc0 :: u8)" "(ucast (a AND 0xf8) :: u16) \<noteq> ucast (0xe0 :: u8)"
    using f by (simp_all only: ucast_8_16_inj) simp_all
  then
  show "drop_bit 8 (be16_of [a, b] AND 0xf800) \<noteq> 0xc0" "drop_bit 8 (be16_of [a, b] AND 0xf800) \<noteq> 0xe0"
    unfolding dispatch_other by simp_all
qed

lemma payload_all: "list_all (\<lambda>h. frag_payload 16 h = (86 - h) div 8 * 8) [0..<87]"
  by code_simp

lemma frag_payload_eq: "h \<le> 86 \<Longrightarrow> frag_payload 16 h = (86 - h) div 8 * 8"
  using payload_all by (simp add: list_all_iff)

section \<open>What is sent\<close>

lemma framer_cleared: "fst (framer_nullmac_create node (packetbuf_set_addr i d (packetbuf_clear q))) = 16"
  by (simp add: framer_nullmac_create_def packetbuf_hdralloc_def packetbuf_set_addr_def packetbuf_clear_def packetbuf_attr_clear_def
      packetbuf_totlen_def packetbuf_hdrlen_def packetbuf_datalen_def packetbuf_consts Let_def split: prod.splits)

lemma output_attrs_framer: "fst (output_attrs p node dest pb) = 16"
  using framer_cleared by (auto simp: output_attrs_def Let_def split: prod.splits) (metis fst_conv numeral_One zero_neq_numeral not_numeral_less_zero)+

lemma length_set16 [simp]: "length (set16 v) = 2"
  by (simp add: set16_def be16_bytes_def)

lemma compress_hdr_hc06_head:
  assumes "compress_hdr_hc06 ctxs lladdr dest p = (hdr, u)"
  shows "2 \<le> length hdr" "hdr ! 0 AND 0xe0 = 0x60" "u = (if p ! 6 = UIP_PROTO_UDP then 48 else 40)"
proof -
  obtain tf tfs nh nhs ttl ttls where f: "hc06_tf p = (tf, tfs)" "hc06_nh p = (nh, nhs)" "hc06_ttl p = (ttl, ttls)"
    by (metis prod.exhaust)
  have "nh \<in> {0, 4}" using hc06_nh_bits [OF f(2)] by simp
  from iphc0_bits(5) [OF hc06_tf_bits [OF f(1)] this hc06_ttl_bits [OF f(3)] refl] assms
  show "2 \<le> length hdr" "hdr ! 0 AND 0xe0 = 0x60" "u = (if p ! 6 = UIP_PROTO_UDP then 48 else 40)"
    by (auto simp: compress_hdr_hc06_def f Let_def split: prod.splits)
qed

lemma compress_addr_64_length: "length a = 16 \<Longrightarrow> compress_addr_64 bp a m = (bits, bs) \<Longrightarrow> length bs \<le> 8"
  by (auto simp: compress_addr_64_def split: if_splits)

lemma hc06_src_length: "40 \<le> length p \<Longrightarrow> hc06_src ctxs m p = (src, sctx, bs) \<Longrightarrow> length bs \<le> 16"
  using length_ip_addrs [of p] compress_addr_64_length [of "ip_src p"]
  by (fastforce simp: hc06_src_def split: if_splits option.splits prod.splits)

lemma hc06_dst_length: "40 \<le> length p \<Longrightarrow> hc06_dst ctxs m p = (dst, dctx, bs) \<Longrightarrow> length bs \<le> 16"
  using length_ip_addrs [of p] compress_addr_64_length [of "ip_dst p"]
  by (fastforce simp: hc06_dst_def Let_def split: if_splits option.splits prod.splits)

lemma hc06_udp_length: "48 \<le> length p \<Longrightarrow> length (hc06_udp p) \<le> 7"
  by (auto simp: hc06_udp_def Let_def)

text \<open>The longest compressed header.\<close>

lemma compress_hdr_hc06_length:
  assumes p: "40 \<le> length p" "p ! 6 = UIP_PROTO_UDP \<longrightarrow> 48 \<le> length p" and c: "compress_hdr_hc06 ctxs lladdr dest p = (hdr, u)"
  shows "length hdr \<le> 48"
proof -
  obtain tf tfs nh nhs ttl ttls src sctx srcs dst dctx dsts where
    f: "hc06_tf p = (tf, tfs)" "hc06_nh p = (nh, nhs)" "hc06_ttl p = (ttl, ttls)" "hc06_src ctxs lladdr p = (src, sctx, srcs)"
      "hc06_dst ctxs dest p = (dst, dctx, dsts)" by (metis prod.exhaust)
  have "length tfs \<le> 4" using f(1) p(1) by (auto simp: hc06_tf_def Let_def split: if_splits)
  moreover have "length nhs = (if p ! 6 = UIP_PROTO_UDP then 0 else 1)" using f(2) by (auto simp: hc06_nh_def split: if_splits)
  moreover have "length ttls \<le> 1" using f(3) by (auto simp: hc06_ttl_def split: if_splits)
  moreover note hc06_src_length [OF p(1) f(4)] hc06_dst_length [OF p(1) f(5)]
  moreover have "p ! 6 = UIP_PROTO_UDP \<Longrightarrow> length (hc06_udp p) \<le> 7" using p(2) hc06_udp_length by blast
  ultimately show ?thesis using c by (auto simp: compress_hdr_hc06_def f Let_def)
qed

text \<open>A fragment sent in the loop.\<close>

lemma frag_loop_ok:
  assumes "k < n" "0 < m"
  shows "frag_loop p n hdr m k [] =
    ((hdr @ [of_nat (k div 8)] @ read_at k (min (n - k) m) p) # fst (frag_loop p n hdr (min (n - k) m) (k + min (n - k) m) []),
     snd (frag_loop p n hdr (min (n - k) m) (k + min (n - k) m) []))"
  using assms by (subst frag_loop.simps) (auto simp: Let_def min_def split: prod.splits)

lemma frag_loop_done: "n \<le> k \<Longrightarrow> frag_loop p n hdr m k tx = ([], 1)"
  by (subst frag_loop.simps) simp

section \<open>What is received\<close>

text \<open>The packet buffer holds a frame of a node; whatever is in the buffer behind it stays.\<close>

definition carries :: "u8 list \<Rightarrow> rimeaddr \<Rightarrow> rimeaddr \<Rightarrow> packetbuf \<Rightarrow> bool" where
  "carries data sa ra pb \<longleftrightarrow> unat (packetbuf_datalen pb) = length data \<and> take (length data) (drop (packetbuf_dataptr pb) (pb_mem pb)) = data \<and>
     packetbuf_addr PACKETBUF_ADDR_SENDER pb = sa \<and> packetbuf_addr PACKETBUF_ADDR_RECEIVER pb = ra"

lemma carries_rime:
  assumes "carries data sa ra pb"
  obtains stale where "drop (packetbuf_dataptr pb) (pb_mem pb) = data @ stale"
  using assms by (metis append_take_drop_id carries_def)

definition lp_wf :: "lowpan \<Rightarrow> bool" where
  "lp_wf s \<longleftrightarrow> length (sicslowpan_buf s) = UIP_BUFSIZE \<and> length (lp_uip_buf s) = UIP_BUFSIZE"

text \<open>Packets as the IP layer builds them; only those of 63 bytes and more are compressed.\<close>

definition packet_ok :: "u8 list \<Rightarrow> nat \<Rightarrow> bool" where
  "packet_ok p n \<longleftrightarrow> 40 \<le> n \<and> n \<le> UIP_BUFSIZE \<and> length p = UIP_BUFSIZE \<and>
     (63 \<le> n \<longrightarrow> hc06_wf p \<and> unat (be16_of (read_at 4 2 p)) = n - 40)"

lemma take_write_prefix: "length (take u p) = u \<Longrightarrow> u + m \<le> length buf \<Longrightarrow> u + m \<le> length p \<Longrightarrow>
    write_at u (read_at u m p) (write_at 0 (take u p) buf) = write_at 0 (take (u + m) p) buf"
  using write_at_join [of 0 "take u p" "read_at u m p" buf u] by (simp add: read_at_def take_add)

lemma take_write_all: "n \<le> length p \<Longrightarrow> take n (write_at 0 (take n p) buf) = take n p"
  by (simp add: write_at_def)

text \<open>A packet in one frame.\<close>

lemma input_plain:
  assumes wf: "lp_wf r" and n: "40 \<le> n" "n \<le> UIP_BUFSIZE" "length p = UIP_BUFSIZE" "u \<le> n"
    and pb: "carries (hdr @ read_at u (n - u) p) sa ra pb"
    and h: "2 \<le> length hdr" "hdr ! 0 AND 0xe0 = 0x60 \<or> hdr ! 0 = 0x41"
    and hdrs: "\<And>stale fi s. fi_hdr fi = 0 \<Longrightarrow> fi_size fi = 0 \<Longrightarrow> addr_contexts s = addr_contexts r \<Longrightarrow> length (sicslowpan_buf s) = UIP_BUFSIZE \<Longrightarrow>
      input_headers sa ra fi (length (hdr @ read_at u (n - u) p)) ((hdr @ read_at u (n - u) p) @ stale) s =
        Some (Some (write_at 0 (take u p) (sicslowpan_buf s), length hdr, u))"
  shows "\<exists>r'. sicslowpan_input now pb r = Some r' \<and> tcpip_inputs r' = tcpip_inputs r @ [take n p] \<and> processed_ip_in_len r' = 0 \<and> lp_wf r' \<and>
    addr_contexts r' = addr_contexts r"
proof -
  let ?d = "hdr @ read_at u (n - u) p"
  obtain stale where rime: "drop (packetbuf_dataptr pb) (pb_mem pb) = ?d @ stale" using carries_rime [OF pb] .
  have dl: "unat (packetbuf_datalen pb) = length ?d" "packetbuf_addr PACKETBUF_ADDR_SENDER pb = sa" "packetbuf_addr PACKETBUF_ADDR_RECEIVER pb = ra"
    using pb by (auto simp: carries_def)
  define r0 where "r0 = (if timer_expired now (reass_timer r) then reass_reset r else r)"
  define fi where "fi = \<lparr>fi_size = 0, fi_tag = 0, fi_offset = 0, fi_hdr = 0, fi_first = False, fi_final = False, fi_is = False\<rparr>"
  obtain a b ds where hd: "hdr = a # b # ds" using h(1) by (auto simp: numeral_2_eq_2 Suc_le_length_iff)
  have "get16 0 (?d @ stale) = Some (be16_of [a, b])" by (simp add: get16_def bytes_at_def read_at_def hd)
  then have disp: "input_dispatch (?d @ stale) (length ?d) r0 = Some fi"
    using dispatch_plain [of a b] h(2) by (simp add: input_dispatch_def fi_def hd)
  have acc: "reass_accept now sa fi r0 = (True, reass_reset r0)"
    by (simp add: reass_accept_def fi_def reass_reset_def)
  have r0: "addr_contexts (reass_reset r0) = addr_contexts r" "sicslowpan_buf (reass_reset r0) = sicslowpan_buf r"
    "lp_uip_buf (reass_reset r0) = lp_uip_buf r" "tcpip_inputs (reass_reset r0) = tcpip_inputs r" "processed_ip_in_len (reass_reset r0) = 0"
    "addr_contexts r0 = addr_contexts r" "sicslowpan_buf r0 = sicslowpan_buf r" "lp_uip_buf r0 = lp_uip_buf r" "tcpip_inputs r0 = tcpip_inputs r"
    by (simp_all add: r0_def reass_reset_def)
  have l400: "length (sicslowpan_buf r) = UIP_BUFSIZE" "length (lp_uip_buf r) = UIP_BUFSIZE" using wf by (auto simp: lp_wf_def)
  define B where "B = write_at 0 (take n p) (sicslowpan_buf r)"
  have ld: "length ?d - length hdr = n - u" using n by simp
  have bs: "bytes_at (length hdr) (n - u) (?d @ stale) = Some (read_at u (n - u) p)" using n by (simp add: bytes_at_def read_at_def)
  have B: "write_at u (read_at u (n - u) p) (write_at 0 (take u p) (sicslowpan_buf r)) = B"
    using take_write_prefix [of u p "n - u" "sicslowpan_buf r"] n l400 by (simp add: B_def)
  have un: "unat (of_nat (n - u + u) :: u16) = n" using n by (simp add: unat_of_nat_u16 UIP_BUFSIZE_def)
  define s2 where "s2 = (reass_reset r0)\<lparr>sicslowpan_buf := B, sicslowpan_len := of_nat (n - u + u)\<rparr>"
  have pay: "input_payload fi (length ?d) (?d @ stale) (write_at 0 (take u p) (sicslowpan_buf (reass_reset r0)), length hdr, u) (reass_reset r0) = Some (input_deliver s2)"
  proof -
    have "\<not> length ?d < length hdr" "\<not> u + 8 * unat (fi_offset fi) + (n - u) > UIP_BUFSIZE" using n by (simp_all add: fi_def)
    then show ?thesis unfolding input_payload_def prod.case Let_def ld by (simp add: bs [unfolded append_assoc] B s2_def r0 fi_def)
  qed
  have tk: "take n (write_at 0 (take n B) (lp_uip_buf r)) = take n p"
    using n l400 by (simp add: B_def take_write_all write_at_def)
  have del: "tcpip_inputs (input_deliver s2) = tcpip_inputs r @ [take n p]" "processed_ip_in_len (input_deliver s2) = 0"
    "lp_wf (input_deliver s2)" "addr_contexts (input_deliver s2) = addr_contexts r"
    using tk un n l400 by (simp_all add: input_deliver_def s2_def r0 reass_reset_def lp_wf_def Let_def B_def)
  have "sicslowpan_input now pb r = Some (input_deliver s2)"
    unfolding sicslowpan_input_def rime dl Let_def r0_def [symmetric]
    using disp acc hdrs [of fi "reass_reset r0" stale] r0(1,2) l400 pay by (simp add: fi_def)
  then show ?thesis using del by blast
qed

text \<open>The parts of a frame that starts a fragmented packet.\<close>

lemma be16_of_set16: "be16_of (set16 w) = w"
  by (simp add: set16_def be16_of_bytes)

lemma frag_rime:
  assumes "rime = set16 w @ set16 tag @ rest"
  shows "get16 0 rime = Some w" "get16 2 rime = Some tag"
    "4 + m \<le> length rime \<Longrightarrow> bytes_at 4 m rime = Some (take m rest)" "rest \<noteq> [] \<Longrightarrow> byte_at 4 rime = Some (rest ! 0)"
  using assms by (auto simp: get16_def bytes_at_def read_at_def be16_of_set16 byte_at_def nth_append)

text \<open>
  The state in which the first \<open>k\<close> bytes of the packet \<open>p\<close> of \<open>n\<close> bytes have come from \<open>sa\<close>, the first
  of them at time \<open>t0\<close>.
\<close>

definition reassembling :: "u8 list \<Rightarrow> nat \<Rightarrow> nat \<Rightarrow> u16 \<Rightarrow> rimeaddr \<Rightarrow> u32 \<Rightarrow> lowpan \<Rightarrow> bool" where
  "reassembling p n k tag sa t0 r \<longleftrightarrow> lp_wf r \<and> processed_ip_in_len r = of_nat k \<and> sicslowpan_len r = of_nat n \<and> reass_tag r = tag \<and>
     frag_sender r = sa \<and> reass_timer r = \<lparr>tm_start = t0, tm_interval = 125\<rparr> \<and> take k (sicslowpan_buf r) = take k p"

lemma not_expired: "unat (now - t0) < 125 \<Longrightarrow> \<not> timer_expired now \<lparr>tm_start = t0, tm_interval = 125\<rparr>"
proof -
  assume a: "unat (now - t0) < 125"
  then have "unat (now - t0 + 1) \<le> 125" by (simp add: unat_word_ariths)
  then show ?thesis by (simp add: timer_expired_def Let_def not_less word_le_nat_alt)
qed

text \<open>The first fragment.\<close>

lemma input_first:
  assumes wf: "lp_wf r" "processed_ip_in_len r = 0" "ctxs_ok (addr_contexts r)" and ok: "packet_ok p n" "63 \<le> n"
    and c: "compress_hdr_hc06 (addr_contexts r) lladdr dest p = (hdr, u)"
    and m: "lladdr_known lladdr sa" "\<not> uip_is_addr_mcast (ip_dst p) \<Longrightarrow> lladdr_known dest ra"
    and k: "u + k < n" "0 < k"
    and pb: "carries (set16 (0xc000 OR of_nat n) @ set16 tag @ hdr @ read_at u k p) sa ra pb"
  shows "\<exists>r'. sicslowpan_input now pb r = Some r' \<and> reassembling p n (u + k) tag sa now r' \<and> tcpip_inputs r' = tcpip_inputs r \<and>
    addr_contexts r' = addr_contexts r"
proof -
  let ?d = "set16 (0xc000 OR of_nat n) @ set16 tag @ hdr @ read_at u k p"
  obtain stale where rime: "drop (packetbuf_dataptr pb) (pb_mem pb) = ?d @ stale" using carries_rime [OF pb] .
  have dl: "unat (packetbuf_datalen pb) = length ?d" "packetbuf_addr PACKETBUF_ADDR_SENDER pb = sa" "packetbuf_addr PACKETBUF_ADDR_RECEIVER pb = ra"
    using pb by (auto simp: carries_def)
  have n: "40 \<le> n" "n \<le> 400" "length p = 400" "hc06_wf p" "unat (be16_of (read_at 4 2 p)) = n - 40"
    using ok by (auto simp: packet_ok_def UIP_BUFSIZE_def)
  define r0 where "r0 = (if timer_expired now (reass_timer r) then reass_reset r else r)"
  have r0: "addr_contexts r0 = addr_contexts r" "sicslowpan_buf r0 = sicslowpan_buf r" "lp_uip_buf r0 = lp_uip_buf r" "tcpip_inputs r0 = tcpip_inputs r"
    "processed_ip_in_len r0 = 0" using wf(2) by (simp_all add: r0_def reass_reset_def)
  define fi where "fi = \<lparr>fi_size = of_nat n, fi_tag = tag, fi_offset = 0, fi_hdr = 4, fi_first = True, fi_final = False, fi_is = True\<rparr>"
  have w: "(0xc000 OR of_nat n :: u16) AND 0x07ff = of_nat n" "(0xc000 OR of_nat n :: u16) AND 0xf800 = 0xc000"
    using dispatch_bits [of n "0xc000"] n by simp_all
  note fr = frag_rime [of "?d @ stale" "0xc000 OR of_nat n" tag "hdr @ read_at u k p @ stale", simplified append_assoc, OF refl]
  have disp: "input_dispatch (?d @ stale) (length ?d) r0 = Some fi"
    unfolding input_dispatch_def append_assoc fr(1,2) Option.bind.bind_lunit w by (simp add: fi_def)
  define r1 where "r1 = r0\<lparr>sicslowpan_len := of_nat n, reass_tag := tag,
    reass_timer := timer_set now (reass_timer r0) (SICSLOWPAN_REASS_MAXAGE * CLOCK_SECOND div 16), frag_sender := sa\<rparr>"
  have un: "unat (of_nat n :: u16) = n" using n by (simp add: unat_of_nat_u16)
  then have "(of_nat n :: u16) > 0" using n by (simp add: word_gt_0_no [symmetric] word_less_nat_alt)
  then have acc: "reass_accept now sa fi r0 = (True, r1)"
    using un n r0(5) by (simp add: reass_accept_def fi_def r1_def UIP_BUFSIZE_def)
  note hh = compress_hdr_hc06_head [OF c]
  have u: "40 \<le> u" "u \<le> 48" using hh(3) by simp_all
  have b4: "byte_at 4 (?d @ stale) = Some (hdr ! 0)"
    using fr(4) hh(1) by (cases hdr) simp_all
  have l400: "length (sicslowpan_buf r) = 400" "length (lp_uip_buf r) = 400" using wf(1) by (auto simp: lp_wf_def UIP_BUFSIZE_def)
  have "be16_of (read_at 4 2 p) = of_nat (n - 40)" by (simp flip: n(5))
  then have "be16_of (read_at 4 2 p) = of_nat n - 40" using n by (simp add: of_nat_diff)
  moreover have "(of_nat n :: u16) \<noteq> 0" using un n by auto
  ultimately have hb: "uncompress_hdr_hc06 (addr_contexts r) sa ra (of_nat n) (length ?d) (?d @ stale) 4 (sicslowpan_buf r) =
      Some (write_at 0 (take u p) (sicslowpan_buf r), 4 + length hdr, u)"
    by (intro hc06_back [OF n(4) wf(3) c, of _ "set16 (0xc000 OR of_nat n) @ set16 tag" "read_at u k p @ stale"])
      (use l400 m in simp_all)
  have hdrs: "input_headers sa ra fi (length ?d) (?d @ stale) r1 = Some (Some (write_at 0 (take u p) (sicslowpan_buf r), 4 + length hdr, u))"
    using b4 hh(2) hb r0 by (simp add: input_headers_def fi_def r1_def)
  define B where "B = write_at 0 (take (u + k) p) (sicslowpan_buf r)"
  have ld: "length ?d - (4 + length hdr) = k" using n k by simp
  have bs: "bytes_at (4 + length hdr) k (?d @ stale) = Some (read_at u k p)" using n k by (simp add: bytes_at_def read_at_def)
  have B: "write_at u (read_at u k p) (write_at 0 (take u p) (sicslowpan_buf r)) = B"
    using take_write_prefix [of u p k "sicslowpan_buf r"] n k l400 by (simp add: B_def)
  define r2 where "r2 = r1\<lparr>sicslowpan_buf := B, processed_ip_in_len := of_nat (u + k)\<rparr>"
  have nd: "input_deliver r2 = r2"
  proof -
    have uk: "unat (of_nat (u + k) :: u16) = u + k" by (rule unat_of_nat_u16) (use n k in simp)
    have "(of_nat (u + k) :: u16) \<noteq> 0" by (rule notI) (use uk k in \<open>simp del: of_nat_add\<close>)
    moreover have "(of_nat (u + k) :: u16) \<noteq> of_nat n" by (rule notI) (use uk un k in \<open>simp del: of_nat_add\<close>)
    ultimately show ?thesis by (simp add: input_deliver_def r2_def r1_def)
  qed
  have pay: "input_payload fi (length ?d) (?d @ stale) (write_at 0 (take u p) (sicslowpan_buf r), 4 + length hdr, u) r1 = Some r2"
  proof -
    have g: "\<not> length ?d < 4 + length hdr" "\<not> u + 8 * unat (fi_offset fi) + k > UIP_BUFSIZE" using n k by (simp_all add: fi_def UIP_BUFSIZE_def)
    have f: "fi_size fi > 0" "fi_first fi" "\<not> fi_final fi" "fi_offset fi = 0" using \<open>0 < of_nat n\<close> by (simp_all add: fi_def)
    show ?thesis unfolding input_payload_def prod.case Let_def ld if_not_P [OF g(1)] if_not_P [OF g(2)] bs [unfolded append_assoc] append_assoc
      using f nd by (simp add: B r2_def r1_def r0)
  qed
  have "reassembling p n (u + k) tag sa now r2"
    using l400 n k r0 by (simp add: reassembling_def r2_def r1_def B_def lp_wf_def UIP_BUFSIZE_def take_write_all timer_set_def
        SICSLOWPAN_REASS_MAXAGE_def CLOCK_SECOND_def)
  moreover have "sicslowpan_input now pb r = Some r2"
    unfolding sicslowpan_input_def rime dl Let_def r0_def [symmetric]
    using disp acc hdrs pay by simp
  ultimately show ?thesis using r0 by (auto simp: r2_def r1_def)
qed

text \<open>The fragments that follow.\<close>

lemma input_next:
  assumes r: "reassembling p n k tag sa t0 r" and n: "n \<le> 400" "length p = 400" "0 < k" "k + m \<le> n" "0 < m" "8 dvd k"
    and now: "unat (now - t0) < 125"
    and pb: "carries (set16 (0xe000 OR of_nat n) @ set16 tag @ [of_nat (k div 8)] @ read_at k m p) sa ra pb"
  shows "\<exists>r'. sicslowpan_input now pb r = Some r' \<and> addr_contexts r' = addr_contexts r \<and>
    (if k + m < n then reassembling p n (k + m) tag sa t0 r' \<and> tcpip_inputs r' = tcpip_inputs r
     else lp_wf r' \<and> processed_ip_in_len r' = 0 \<and> tcpip_inputs r' = tcpip_inputs r @ [take n p])"
proof -
  let ?d = "set16 (0xe000 OR of_nat n) @ set16 tag @ [of_nat (k div 8)] @ read_at k m p"
  obtain stale where rime: "drop (packetbuf_dataptr pb) (pb_mem pb) = ?d @ stale" using carries_rime [OF pb] .
  have dl: "unat (packetbuf_datalen pb) = length ?d" "packetbuf_addr PACKETBUF_ADDR_SENDER pb = sa" "packetbuf_addr PACKETBUF_ADDR_RECEIVER pb = ra"
    using pb by (auto simp: carries_def)
  have rf: "lp_wf r" "processed_ip_in_len r = of_nat k" "sicslowpan_len r = of_nat n" "reass_tag r = tag" "frag_sender r = sa"
    "reass_timer r = \<lparr>tm_start = t0, tm_interval = 125\<rparr>" "take k (sicslowpan_buf r) = take k p"
    using r by (auto simp: reassembling_def)
  have t: "\<not> timer_expired now (reass_timer r)" using not_expired [OF now] rf(6) by simp
  have ld: "length ?d = m + 5" using n by simp
  define fi where "fi = \<lparr>fi_size = of_nat n, fi_tag = tag, fi_offset = of_nat (k div 8), fi_hdr = 5, fi_first = False, fi_final = (k + m \<ge> n), fi_is = True\<rparr>"
  have w: "(0xe000 OR of_nat n :: u16) AND 0x07ff = of_nat n" "(0xe000 OR of_nat n :: u16) AND 0xf800 = 0xe000"
    using dispatch_bits [of n "0xe000"] n by simp_all
  have uk: "unat (of_nat k :: u16) = k" "unat (of_nat n :: u16) = n" "unat (of_nat (k + m) :: u16) = k + m"
    using n by (simp_all add: unat_of_nat_u16 del: of_nat_add)
  note fr = frag_rime [of "?d @ stale" "0xe000 OR of_nat n" tag "[of_nat (k div 8)] @ read_at k m p @ stale", simplified append_assoc, OF refl]
  have b4: "byte_at 4 (set16 (0xe000 OR of_nat n) @ set16 tag @ [of_nat (k div 8)] @ read_at k m p @ stale) = Some (of_nat (k div 8))"
    using fr(4) by simp
  have fin: "(int (unat (processed_ip_in_len r)) + int (length ?d) - int SICSLOWPAN_FRAGN_HDR_LEN \<ge> int (unat (of_nat n :: u16))) = (k + m \<ge> n)"
    unfolding rf(2) uk ld by (simp, linarith)
  have c0: "drop_bit 8 (0xe000 :: u16) \<noteq> 0xc0" "drop_bit 8 (0xe000 :: u16) = 0xe0" by simp_all
  have disp: "input_dispatch (?d @ stale) (length ?d) r = Some fi"
    unfolding input_dispatch_def append_assoc fr(1,2) b4 Option.bind.bind_lunit w if_not_P [OF c0(1)] if_P [OF c0(2)] fin by (simp add: fi_def)
  have pos: "(of_nat k :: u16) \<noteq> 0" "(of_nat n :: u16) \<noteq> 0" "(of_nat (k + m) :: u16) \<noteq> 0"
    by (rule notI, use uk n in \<open>simp del: of_nat_add\<close>)+
  have acc: "reass_accept now sa fi r = (True, r)"
    using pos rf by (simp add: reass_accept_def fi_def word_gt_0_no word_neq_0_conv)
  have hdrs: "input_headers sa ra fi (length ?d) (?d @ stale) r = Some (Some (sicslowpan_buf r, 5, 0))"
    by (simp add: input_headers_def fi_def)
  have off: "8 * unat (of_nat (k div 8) :: u8) = k" using n by (simp add: unat_of_nat_u8)
  have bs: "bytes_at 5 m (?d @ stale) = Some (read_at k m p)" using n by (simp add: bytes_at_def read_at_def)
  have l400: "length (sicslowpan_buf r) = 400" "length (lp_uip_buf r) = 400" using rf(1) by (auto simp: lp_wf_def UIP_BUFSIZE_def)
  define B where "B = write_at k (read_at k m p) (sicslowpan_buf r)"
  have B: "take (k + m) B = take (k + m) p" "length B = 400"
  proof -
    have "take (k + m) B = take k p @ read_at k m p" using rf(7) l400 n by (simp add: B_def write_at_def)
    then show "take (k + m) B = take (k + m) p" by (simp add: read_at_def take_add)
    show "length B = 400" using l400 n by (simp add: B_def)
  qed
  define r2 where "r2 = r\<lparr>sicslowpan_buf := B, processed_ip_in_len := of_nat (k + m)\<rparr>"
  have fp: "fi_size fi = of_nat k + of_nat m" if "fi_final fi"
  proof -
    have "n = k + m" using that n(4) by (simp add: fi_def)
    then show ?thesis by (simp add: fi_def)
  qed
  have pay: "input_payload fi (length ?d) (?d @ stale) (sicslowpan_buf r, 5, 0) r = Some (input_deliver r2)"
  proof -
    have g: "\<not> m + 5 < 5" "\<not> 0 + k + (m + 5 - 5) > UIP_BUFSIZE" "m + 5 - 5 = m" "fi_offset fi = of_nat (k div 8)" using n by (simp_all add: fi_def UIP_BUFSIZE_def)
    have f: "fi_size fi > 0" "\<not> fi_first fi" using pos(2) by (simp_all add: fi_def word_gt_0_no word_neq_0_conv)
    show ?thesis unfolding input_payload_def prod.case Let_def ld g(4) off if_not_P [OF g(1)] if_not_P [OF g(2)] g(3) bs [unfolded append_assoc] append_assoc
      using f fp g(2) by (auto simp: B_def [symmetric] r2_def rf)
  qed
  have run: "sicslowpan_input now pb r = Some (input_deliver r2)"
    unfolding sicslowpan_input_def rime dl Let_def if_not_P [OF t] using disp acc hdrs pay by simp
  show ?thesis
  proof (cases "k + m < n")
    case True
    then have "(of_nat (k + m) :: u16) \<noteq> of_nat n" by (intro notI) (use uk in \<open>simp del: of_nat_add\<close>)
    then have "input_deliver r2 = r2" using pos(3) rf by (simp add: input_deliver_def r2_def del: of_nat_add)
    moreover have "reassembling p n (k + m) tag sa t0 r2" using rf B l400 by (simp add: reassembling_def r2_def lp_wf_def UIP_BUFSIZE_def)
    ultimately show ?thesis using run True by (simp add: r2_def)
  next
    case False
    then have e: "k + m = n" using n by simp
    have "take n (write_at 0 (take n B) (lp_uip_buf r)) = take n p" using B e n by (simp add: write_at_def)
    then have "tcpip_inputs (input_deliver r2) = tcpip_inputs r @ [take n p]" "lp_wf (input_deliver r2)" "processed_ip_in_len (input_deliver r2) = 0"
      "addr_contexts (input_deliver r2) = addr_contexts r"
      using e rf uk B(2) l400 n by (simp_all add: input_deliver_def r2_def reass_reset_def lp_wf_def UIP_BUFSIZE_def Let_def del: of_nat_add)
    then show ?thesis using run e by auto
  qed
qed

text \<open>
  A following fragment of another node: it is not taken, neither during the reassembly nor before it.
\<close>

definition foreign :: "rimeaddr \<Rightarrow> packetbuf \<Rightarrow> bool" where
  "foreign sa pb \<longleftrightarrow> packetbuf_addr PACKETBUF_ADDR_SENDER pb \<noteq> sa \<and>
     (\<exists>w tag rest. drop (packetbuf_dataptr pb) (pb_mem pb) = set16 (0xe000 OR of_nat w) @ set16 tag @ rest \<and> rest \<noteq> [] \<and> 0 < w \<and> w \<le> UIP_BUFSIZE)"

lemma foreign_dropped:
  assumes "foreign sa pb"
  shows "processed_ip_in_len r = 0 \<Longrightarrow> \<exists>r'. sicslowpan_input now pb r = Some r' \<and> processed_ip_in_len r' = 0 \<and> lp_wf r' = lp_wf r \<and>
      tcpip_inputs r' = tcpip_inputs r \<and> addr_contexts r' = addr_contexts r"
    and "reassembling p n k tag sa t0 r \<Longrightarrow> 0 < k \<Longrightarrow> k < 65536 \<Longrightarrow> unat (now - t0) < 125 \<Longrightarrow> sicslowpan_input now pb r = Some r"
proof -
  obtain w g rest where rime: "drop (packetbuf_dataptr pb) (pb_mem pb) = set16 (0xe000 OR of_nat w) @ set16 g @ rest" "rest \<noteq> []" "0 < w" "w \<le> 400"
    and sa: "packetbuf_addr PACKETBUF_ADDR_SENDER pb \<noteq> sa" using assms by (auto simp: foreign_def UIP_BUFSIZE_def)
  define fi where "fi = (\<lambda>s :: lowpan. \<lparr>fi_size = of_nat w, fi_tag = g, fi_offset = rest ! 0, fi_hdr = 5, fi_first = False,
    fi_final = (int (unat (processed_ip_in_len s)) + int (unat (packetbuf_datalen pb)) - int SICSLOWPAN_FRAGN_HDR_LEN \<ge> int (unat (of_nat w :: u16))), fi_is = True\<rparr>)"
  have b: "(0xe000 OR of_nat w :: u16) AND 0x07ff = of_nat w" "(0xe000 OR of_nat w :: u16) AND 0xf800 = 0xe000"
    using dispatch_bits [of w "0xe000"] rime by simp_all
  note fr = frag_rime [of "set16 (0xe000 OR of_nat w) @ set16 g @ rest" "0xe000 OR of_nat w" g rest, OF refl]
  have c0: "drop_bit 8 (0xe000 :: u16) \<noteq> 0xc0" "drop_bit 8 (0xe000 :: u16) = 0xe0" by simp_all
  have disp: "input_dispatch (set16 (0xe000 OR of_nat w) @ set16 g @ rest) (unat (packetbuf_datalen pb)) s = Some (fi s)" for s
    unfolding input_dispatch_def fr(1,2) fr(4) [OF rime(2)] Option.bind.bind_lunit b if_not_P [OF c0(1)] if_P [OF c0(2)] by (simp add: fi_def)
  have uw: "unat (of_nat w :: u16) = w" using rime by (simp add: unat_of_nat_u16)
  have pos: "(of_nat w :: u16) > 0" using uw rime by (simp add: word_less_nat_alt)
  define r0 where "r0 = (if timer_expired now (reass_timer r) then reass_reset r else r)"
  have run: "sicslowpan_input now pb r = Some s1" if "reass_accept now (packetbuf_addr PACKETBUF_ADDR_SENDER pb) (fi r0) r0 = (False, s1)" for s1
    unfolding sicslowpan_input_def rime Let_def r0_def [symmetric] using disp that by simp
  show "\<exists>r'. sicslowpan_input now pb r = Some r' \<and> processed_ip_in_len r' = 0 \<and> lp_wf r' = lp_wf r \<and>
      tcpip_inputs r' = tcpip_inputs r \<and> addr_contexts r' = addr_contexts r" if "processed_ip_in_len r = 0"
  proof -
    have r0: "processed_ip_in_len r0 = 0" "lp_wf r0 = lp_wf r" "tcpip_inputs r0 = tcpip_inputs r" "addr_contexts r0 = addr_contexts r"
      using that by (simp_all add: r0_def reass_reset_def lp_wf_def)
    then have "reass_accept now (packetbuf_addr PACKETBUF_ADDR_SENDER pb) (fi r0) r0 = (False, r0)"
      using pos uw rime by (simp add: reass_accept_def fi_def UIP_BUFSIZE_def)
    from run [OF this] r0 show ?thesis by auto
  qed
  show "sicslowpan_input now pb r = Some r" if "reassembling p n k tag sa t0 r" "0 < k" "k < 65536" "unat (now - t0) < 125"
  proof -
    have rf: "processed_ip_in_len r = of_nat k" "frag_sender r = sa" "reass_timer r = \<lparr>tm_start = t0, tm_interval = 125\<rparr>"
      using that by (auto simp: reassembling_def)
    have "r0 = r" using not_expired [OF that(4)] rf(3) by (simp add: r0_def)
    moreover have "(of_nat k :: u16) > 0" using that unat_of_nat_u16 [of k] by (simp add: word_less_nat_alt)
    ultimately have "reass_accept now (packetbuf_addr PACKETBUF_ADDR_SENDER pb) (fi r0) r0 = (False, r)"
      using pos rf sa by (simp add: reass_accept_def fi_def)
    from run [OF this] show ?thesis .
  qed
qed

section \<open>From one node to another\<close>

text \<open>The frames \<open>fs\<close> of a packet arrive in order, with following fragments of other nodes in between.\<close>

fun arrives :: "rimeaddr \<Rightarrow> rimeaddr \<Rightarrow> u8 list list \<Rightarrow> (nat \<times> packetbuf) list \<Rightarrow> bool" where
  "arrives sa ra fs [] \<longleftrightarrow> fs = []"
| "arrives sa ra fs ((d, pb) # rs) \<longleftrightarrow> foreign sa pb \<and> arrives sa ra fs rs \<or>
     (case fs of [] \<Rightarrow> False | f # fs' \<Rightarrow> carries f sa ra pb \<and> arrives sa ra fs' rs)"

definition receive :: "u32 \<Rightarrow> lowpan \<Rightarrow> (nat \<times> packetbuf) list \<Rightarrow> lowpan option" where
  "receive T = run_ops (\<lambda>s (d, pb). sicslowpan_input (T + of_nat d) pb s)"

lemma receive_simps [simp]:
  "receive T s [] = Some s"
  "receive T s ((d, pb) # rs) = Option.bind (sicslowpan_input (T + of_nat d) pb s) (\<lambda>t. receive T t rs)"
  by (simp_all add: receive_def)

lemma receive_foreign:
  "arrives sa ra [] rs \<Longrightarrow> processed_ip_in_len r = 0 \<Longrightarrow>
     \<exists>r'. receive T r rs = Some r' \<and> processed_ip_in_len r' = 0 \<and> tcpip_inputs r' = tcpip_inputs r"
proof (induction rs arbitrary: r)
  case (Cons a rs)
  obtain d pb where a: "a = (d, pb)" by (cases a)
  have f: "foreign sa pb" "arrives sa ra [] rs" using Cons.prems(1) by (auto simp: a)
  obtain r1 where r1: "sicslowpan_input (T + of_nat d) pb r = Some r1" "processed_ip_in_len r1 = 0" "tcpip_inputs r1 = tcpip_inputs r"
    using foreign_dropped(1) [OF f(1) Cons.prems(2)] by blast
  show ?case using Cons.IH [OF f(2) r1(2)] r1 by (simp add: a)
qed simp

lemma clock_apart:
  assumes "d0 \<le> d" "d < d0 + 125"
  shows "unat ((T + of_nat d) - (T + of_nat d0) :: u32) < 125"
proof -
  have e: "(T + of_nat d) - (T + of_nat d0) = (of_nat (d - d0) :: u32)" using assms(1) by (simp add: of_nat_diff)
  show ?thesis unfolding e by (subst unat_of_nat_u32) (use assms in auto)
qed

lemma frag_loop_80:
  assumes "k < n"
  shows "fst (frag_loop p n hdr 80 k []) = (hdr @ [of_nat (k div 8)] @ read_at k (min (n - k) 80) p) # fst (frag_loop p n hdr 80 (k + min (n - k) 80) [])"
    "Product_Type.snd (frag_loop p n hdr 80 k []) = Product_Type.snd (frag_loop p n hdr 80 (k + min (n - k) 80) [])"
  using frag_loop_ok [of k n 80 p hdr] assms frag_loop_done [of n "k + min (n - k) 80" p hdr _ "[]"]
  by (auto simp: min_def split: if_splits)

lemma receive_rest:
  assumes "reassembling p n k tag sa (T + of_nat d0) r" "n \<le> 400" "length p = 400" "0 < k" "k < n" "8 dvd k"
    and "arrives sa ra (fst (frag_loop p n (set16 (0xe000 OR of_nat n) @ set16 tag) 80 k [])) rs"
    and "\<forall>(d, pb) \<in> set rs. d0 \<le> d \<and> d < d0 + 125"
  shows "\<exists>r'. receive T r rs = Some r' \<and> processed_ip_in_len r' = 0 \<and> tcpip_inputs r' = tcpip_inputs r @ [take n p]"
  using assms
proof (induction rs arbitrary: r k)
  case Nil
  then show ?case using frag_loop_80 [of k n p] by simp
next
  case (Cons a rs)
  obtain d pb where a: "a = (d, pb)" by (cases a)
  have now: "unat ((T + of_nat d) - (T + of_nat d0) :: u32) < 125" using clock_apart Cons.prems(8) by (simp add: a)
  have rest: "\<forall>(d, pb) \<in> set rs. d0 \<le> d \<and> d < d0 + 125" using Cons.prems(8) by simp
  let ?h = "set16 (0xe000 OR of_nat n) @ set16 tag"
  let ?m = "min (n - k) 80"
  consider (other) "foreign sa pb" "arrives sa ra (fst (frag_loop p n ?h 80 k [])) rs"
    | (own) "carries (?h @ [of_nat (k div 8)] @ read_at k ?m p) sa ra pb" "arrives sa ra (fst (frag_loop p n ?h 80 (k + ?m) [])) rs"
    using Cons.prems(7) unfolding frag_loop_80(1) [OF Cons.prems(5)] by (auto simp: a)
  then show ?case
  proof cases
    case other
    have "k < 65536" using Cons.prems(2,5) by simp
    from foreign_dropped(2) [OF other(1) Cons.prems(1) Cons.prems(4) this now]
    show ?thesis using Cons.IH [OF Cons.prems(1-6) other(2) rest] by (simp add: a)
  next
    case own
    have m: "k + ?m \<le> n" "0 < ?m" using Cons.prems(5) by auto
    have c: "carries (set16 (0xe000 OR of_nat n) @ set16 tag @ [of_nat (k div 8)] @ read_at k ?m p) sa ra pb" using own(1) by simp
    obtain r1 where r1: "sicslowpan_input (T + of_nat d) pb r = Some r1"
      "if k + ?m < n then reassembling p n (k + ?m) tag sa (T + of_nat d0) r1 \<and> tcpip_inputs r1 = tcpip_inputs r
       else lp_wf r1 \<and> processed_ip_in_len r1 = 0 \<and> tcpip_inputs r1 = tcpip_inputs r @ [take n p]"
      using input_next [OF Cons.prems(1-4) m Cons.prems(6) now c] by blast
    show ?thesis
    proof (cases "k + ?m < n")
      case True
      have dv: "8 dvd k + ?m" using True Cons.prems(6) by (auto simp: min_def)
      note r2 = r1(2) [unfolded if_P [OF True]]
      have "\<exists>r'. receive T r1 rs = Some r' \<and> processed_ip_in_len r' = 0 \<and> tcpip_inputs r' = tcpip_inputs r1 @ [take n p]"
        by (rule Cons.IH [OF conjunct1 [OF r2] Cons.prems(2,3) _ True dv own(2) rest]) (use Cons.prems(4) in simp)
      then show ?thesis using r1(1) r2 by (simp add: a)
    next
      case False
      have "arrives sa ra [] rs" using own(2) False frag_loop_done [of n "k + ?m" p ?h 80 "[]"] by simp
      from receive_foreign [OF this, of r1 T] r1(1) r1(2) [unfolded if_not_P [OF False]] show ?thesis by (auto simp: a)
    qed
  qed
qed

lemma frag_loop_returns: "m = 80 \<or> n \<le> k \<Longrightarrow> Product_Type.snd (frag_loop p n hdr m k []) = 1"
proof (induction "n - k" arbitrary: k m rule: less_induct)
  case less
  show ?case
  proof (cases "n \<le> k")
    case False
    then have "m = 80" "n - (k + min (n - k) 80) < n - k" using less.prems by auto
    then show ?thesis using less.hyps [of "k + min (n - k) 80" 80] frag_loop_80(2) [of k n p hdr] False by simp
  qed (simp add: frag_loop_done)
qed

lemma frag_loop_sizes: "f \<in> set (fst (frag_loop p n hdr m k tx)) \<Longrightarrow> n \<le> length p \<Longrightarrow> m \<le> 80 \<Longrightarrow> length hdr = 4 \<Longrightarrow> length f \<le> 85"
proof (induction "n - k" arbitrary: k m tx rule: less_induct)
  case less
  show ?case
  proof (cases "k < n \<and> 0 < m")
    case True
    define nn where "nn = (if n - k < m then n - k else m)"
    have "f = hdr @ [of_nat (k div 8)] @ read_at k nn p \<or> f \<in> set (fst (frag_loop p n hdr nn (k + nn) (tl tx)))"
      using less.prems(1) True by (subst (asm) frag_loop.simps) (auto simp: Let_def nn_def split: if_splits prod.splits)
    moreover have nn: "nn \<le> 80" "k + nn \<le> length p" "n - (k + nn) < n - k" using True less.prems(2,3) by (auto simp: nn_def)
    moreover note less.hyps [OF nn(3) _ less.prems(2) nn(1) less.prems(4)]
    ultimately show ?thesis using less.prems(4) by auto
  next
    case False
    then show ?thesis using less.prems(1) by (subst (asm) frag_loop.simps) (simp split: if_splits)
  qed
qed

text \<open>A packet in one frame among fragments of others.\<close>

lemma receive_plain:
  assumes "arrives sa ra [f] rs" "lp_wf r" "processed_ip_in_len r = 0"
    and own: "\<And>r now pb. carries f sa ra pb \<Longrightarrow> lp_wf r \<Longrightarrow> addr_contexts r = ctxs \<Longrightarrow>
      \<exists>r'. sicslowpan_input now pb r = Some r' \<and> tcpip_inputs r' = tcpip_inputs r @ [packet] \<and> processed_ip_in_len r' = 0"
    and "addr_contexts r = ctxs"
  shows "\<exists>r'. receive T r rs = Some r' \<and> processed_ip_in_len r' = 0 \<and> tcpip_inputs r' = tcpip_inputs r @ [packet]"
  using assms(1-3,5)
proof (induction rs arbitrary: r)
  case (Cons a rs)
  obtain d pb where a: "a = (d, pb)" by (cases a)
  consider (other) "foreign sa pb" "arrives sa ra [f] rs" | (own) "carries f sa ra pb" "arrives sa ra [] rs"
    using Cons.prems(1) by (auto simp: a)
  then show ?case
  proof cases
    case other
    obtain r1 where r1: "sicslowpan_input (T + of_nat d) pb r = Some r1" "processed_ip_in_len r1 = 0" "lp_wf r1 = lp_wf r"
      "tcpip_inputs r1 = tcpip_inputs r" "addr_contexts r1 = addr_contexts r"
      using foreign_dropped(1) [OF other(1) Cons.prems(3)] by blast
    show ?thesis using Cons.IH [OF other(2), of r1] r1 Cons.prems by (simp add: a)
  next
    case o: own
    obtain r1 where r1: "sicslowpan_input (T + of_nat d) pb r = Some r1" "tcpip_inputs r1 = tcpip_inputs r @ [packet]" "processed_ip_in_len r1 = 0"
      using own [OF o(1) Cons.prems(2,4)] by blast
    from receive_foreign [OF o(2) r1(3), of T] r1 show ?thesis by (auto simp: a)
  qed
qed simp

text \<open>A fragmented packet among fragments of others.\<close>

lemma receive_frags:
  assumes "arrives sa ra ((set16 (0xc000 OR of_nat n) @ set16 tag @ hdr @ read_at u k p) #
      fst (frag_loop p n (set16 (0xe000 OR of_nat n) @ set16 tag) 80 (u + k) [])) rs"
    and "lp_wf r" "processed_ip_in_len r = 0" "addr_contexts r = ctxs" "sorted (map fst rs)" "\<forall>(d, pb) \<in> set rs. d < 125"
    and ok: "ctxs_ok ctxs" "packet_ok p n" "63 \<le> n" "compress_hdr_hc06 ctxs lladdr dest p = (hdr, u)"
      "lladdr_known lladdr sa" "\<not> uip_is_addr_mcast (ip_dst p) \<Longrightarrow> lladdr_known dest ra" "u + k < n" "0 < k" "8 dvd u + k"
  shows "\<exists>r'. receive T r rs = Some r' \<and> processed_ip_in_len r' = 0 \<and> tcpip_inputs r' = tcpip_inputs r @ [take n p]"
  using assms(1-6)
proof (induction rs arbitrary: r)
  case (Cons a rs)
  obtain d pb where a: "a = (d, pb)" by (cases a)
  let ?f = "set16 (0xc000 OR of_nat n) @ set16 tag @ hdr @ read_at u k p"
  let ?fs = "fst (frag_loop p n (set16 (0xe000 OR of_nat n) @ set16 tag) 80 (u + k) [])"
  consider (other) "foreign sa pb" "arrives sa ra (?f # ?fs) rs" | (own) "carries ?f sa ra pb" "arrives sa ra ?fs rs"
    using Cons.prems(1) by (auto simp: a)
  then show ?case
  proof cases
    case other
    obtain r1 where r1: "sicslowpan_input (T + of_nat d) pb r = Some r1" "processed_ip_in_len r1 = 0" "lp_wf r1 = lp_wf r"
      "tcpip_inputs r1 = tcpip_inputs r" "addr_contexts r1 = addr_contexts r"
      using foreign_dropped(1) [OF other(1) Cons.prems(3)] by blast
    show ?thesis using Cons.IH [OF other(2), of r1] r1 Cons.prems(2-) by (simp add: a)
  next
    case own
    have n: "n \<le> 400" "length p = 400" using ok(2) by (auto simp: packet_ok_def UIP_BUFSIZE_def)
    obtain r1 where r1: "sicslowpan_input (T + of_nat d) pb r = Some r1" "reassembling p n (u + k) tag sa (T + of_nat d) r1" "tcpip_inputs r1 = tcpip_inputs r"
      using input_first [OF Cons.prems(2,3) _ ok(2,3) _ ok(5,6) ok(7,8) own(1)] Cons.prems(4) ok(1,4) by blast
    have "\<forall>(d', pb) \<in> set rs. d \<le> d' \<and> d' < d + 125" using Cons.prems(5,6) by (fastforce simp: a)
    from receive_rest [OF r1(2) n _ ok(7,9) own(2) this] ok(8) r1 show ?thesis by (auto simp: a)
  qed
qed simp

lemma output_cases:
  assumes out: "sicslowpan_output node localdest pb [] s = (fs, ret, s')"
    and p: "p = lp_uip_buf s" "n = unat (lp_uip_len s)" "dest = (case localdest of None \<Rightarrow> rimeaddr_null | Some d \<Rightarrow> d)"
    and ok: "packet_ok p n"
  obtains
    (plain) hdr u where "map fst fs = [hdr @ read_at u (n - u) p]" "2 \<le> length hdr" "length hdr + (n - u) \<le> 86" "u \<le> n" "ret = 1"
      "n < 63 \<and> hdr = 0x41 # take 40 p \<and> u = 40 \<or> 63 \<le> n \<and> compress_hdr_hc06 (addr_contexts s) (uip_lladdr s) dest p = (hdr, u)"
  | (frags) hdr u k where "map fst fs = (set16 (0xc000 OR of_nat n) @ set16 (my_tag s) @ hdr @ read_at u k p) #
        fst (frag_loop p n (set16 (0xe000 OR of_nat n) @ set16 (my_tag s)) 80 (u + k) [])"
      "63 \<le> n" "compress_hdr_hc06 (addr_contexts s) (uip_lladdr s) dest p = (hdr, u)" "u + k < n" "0 < k" "8 dvd u + k" "ret = 1"
      "length hdr + 4 + k \<le> 86"
proof -
  obtain q where q: "output_attrs p node dest pb = (16, q)" using output_attrs_framer [of p node dest pb] by (metis prod.collapse)
  have n: "40 \<le> n" "n \<le> 400" "length p = 400" using ok by (auto simp: packet_ok_def UIP_BUFSIZE_def)
  have thr: "lp_uip_len s \<ge> COMPRESSION_THRESHOLD \<longleftrightarrow> 63 \<le> n" by (simp add: p(2) COMPRESSION_THRESHOLD_def word_le_nat_alt)
  show thesis
  proof (cases "63 \<le> n")
    case False
    have "fs = [(0x41 # take 40 p @ read_at 40 (n - 40) p, packetbuf_attrs q, packetbuf_addrs q)]" "ret = 1"
      using out False q n thr unfolding sicslowpan_output_def p(1) [symmetric] p(2) [symmetric] p(3) [symmetric]
      by (simp_all add: Let_def compress_hdr_ipv6_def MAC_MAX_PAYLOAD_def)
    then show ?thesis using False n by (intro plain [of "0x41 # take 40 p" 40]) simp_all
  next
    case True
    obtain hdr u where c: "compress_hdr_hc06 (addr_contexts s) (uip_lladdr s) dest p = (hdr, u)" by fastforce
    note hh = compress_hdr_hc06_head [OF c]
    have u: "40 \<le> u" "u \<le> 48" "8 dvd u" using hh(3) by simp_all
    have l: "length hdr \<le> 48" using compress_hdr_hc06_length [OF _ _ c] n by simp
    have e: "sicslowpan_output node localdest pb [] s =
      (if int n - int u > MAC_MAX_PAYLOAD - 16 - int (length hdr) then
         let (fs, r) = frag_send p n (my_tag s) 16 hdr u [] in (map (\<lambda>d. (d, packetbuf_attrs q, packetbuf_addrs q)) fs, r, s\<lparr>my_tag := my_tag s + 1\<rparr>)
       else ([(hdr @ read_at u (n - u) p, packetbuf_attrs q, packetbuf_addrs q)], 1, s))"
      using True q c thr unfolding sicslowpan_output_def p(1) [symmetric] p(2) [symmetric] p(3) [symmetric] by (simp add: Let_def)
    show ?thesis
    proof (cases "int n - int u > MAC_MAX_PAYLOAD - 16 - int (length hdr)")
      case big: True
      define k where "k = frag_payload 16 (length hdr + 4)"
      have k: "k = (82 - length hdr) div 8 * 8" using frag_payload_eq [of "length hdr + 4"] l by (simp add: k_def)
      have k2: "k \<le> 82 - length hdr" "0 < k" "8 dvd k" using l by (auto simp: k)
      have big': "n > u + (86 - length hdr)" using big l by (simp add: MAC_MAX_PAYLOAD_def)
      obtain r0 where r0: "frag_loop p n (set16 (0xe000 OR of_nat n) @ set16 (my_tag s)) 80 (k + u) [] = r0" by blast
      have r1: "Product_Type.snd r0 = 1" using frag_loop_returns [of 80 n "k + u" p "set16 (0xe000 OR of_nat n) @ set16 (my_tag s)"] r0 by simp
      have "frag_payload 16 5 = 80" using frag_payload_eq [of 5] by simp
      then have "frag_send p n (my_tag s) 16 hdr u [] =
          ((set16 (0xc000 OR of_nat n) @ set16 (my_tag s) @ hdr @ read_at u k p) # fst r0, 1)"
        using r0 r1 by (auto simp: frag_send_def k_def [symmetric] Let_def split: prod.splits)
      then have "map fst fs = (set16 (0xc000 OR of_nat n) @ set16 (my_tag s) @ hdr @ read_at u k p) # fst r0" "ret = 1"
        using out e big by (auto simp: comp_def)
      then show ?thesis using r0 True c big' k2 u l by (intro frags [of hdr u k]) (simp_all add: add.commute)
    next
      case False
      then have "n - u + length hdr \<le> 86" "u \<le> n" using u True by (auto simp: MAC_MAX_PAYLOAD_def)
      then show ?thesis using out e False True c hh by (intro plain [of hdr u]) auto
    qed
  qed
qed

text \<open>
  C3. A packet that is sent through the adaptation layer of one node is delivered to the IP layer of the
  other exactly once and byte for byte, whether it is sent plainly, with compressed headers, or compressed
  and fragmented; every frame fits the 102 bytes of the MAC payload with the 16 bytes of the framer. This
  holds whatever the packet buffer of the receiver contains behind the frames, and when following fragments
  of other nodes arrive in between, provided the frames arrive in order and within 125 ticks.
\<close>

theorem sicslowpan_end_to_end:
  assumes "packet_ok (lp_uip_buf s) (unat (lp_uip_len s))" "sicslowpan_output node localdest pb [] s = (fs, ret, s')"
    and "lladdr_known (uip_lladdr s) sa"
    and "\<not> uip_is_addr_mcast (ip_dst (lp_uip_buf s)) \<Longrightarrow> lladdr_known (case localdest of None \<Rightarrow> rimeaddr_null | Some d \<Rightarrow> d) ra"
    and "lp_wf r" "processed_ip_in_len r = 0" "addr_contexts r = addr_contexts s" "ctxs_ok (addr_contexts s)"
    and "arrives sa ra (map fst fs) rs" "sorted (map fst rs)" "\<forall>(d, pb) \<in> set rs. d < 125"
  shows "ret = 1 \<and> (\<forall>f \<in> set fs. length (fst f) + 16 \<le> 102) \<and>
    (\<exists>r'. receive T r rs = Some r' \<and> tcpip_inputs r' = tcpip_inputs r @ [take (unat (lp_uip_len s)) (lp_uip_buf s)] \<and> processed_ip_in_len r' = 0)"
proof -
  define p n dest where "p = lp_uip_buf s" and "n = unat (lp_uip_len s)" and "dest = (case localdest of None \<Rightarrow> rimeaddr_null | Some d \<Rightarrow> d)"
  note ok = assms(1) [folded p_def n_def]
  have n: "40 \<le> n" "n \<le> 400" "length p = 400" using ok by (auto simp: packet_ok_def UIP_BUFSIZE_def)
  show ?thesis
  proof (rule output_cases [OF assms(2) p_def n_def dest_def ok], goal_cases)
    case (1 hdr u)
    note plain = 1
    have "\<exists>r'. receive T r rs = Some r' \<and> processed_ip_in_len r' = 0 \<and> tcpip_inputs r' = tcpip_inputs r @ [take n p]"
    proof (rule receive_plain [OF _ assms(5,6) _ assms(7)])
      show "arrives sa ra [hdr @ read_at u (n - u) p] rs" using assms(9) plain(1) by simp
    next
      fix q now pb
      assume q: "carries (hdr @ read_at u (n - u) p) sa ra pb" "lp_wf q" "addr_contexts q = addr_contexts s"
      have "\<exists>r'. sicslowpan_input now pb q = Some r' \<and> tcpip_inputs r' = tcpip_inputs q @ [take n p] \<and> processed_ip_in_len r' = 0 \<and> lp_wf r' \<and>
          addr_contexts r' = addr_contexts q"
      proof (rule input_plain [OF q(2) n(1) _ _ plain(4) q(1) plain(2)])
        show "n \<le> UIP_BUFSIZE" "length p = UIP_BUFSIZE" using n by (simp_all add: UIP_BUFSIZE_def)
        show "hdr ! 0 AND 0xe0 = 0x60 \<or> hdr ! 0 = 0x41" using plain(6) compress_hdr_hc06_head(2) by auto
      next
        fix stale and fi :: frag_info and st :: lowpan
        assume a: "fi_hdr fi = 0" "fi_size fi = 0" "addr_contexts st = addr_contexts q" "length (sicslowpan_buf st) = UIP_BUFSIZE"
        let ?d = "hdr @ read_at u (n - u) p"
        show "input_headers sa ra fi (length ?d) (?d @ stale) st = Some (Some (write_at 0 (take u p) (sicslowpan_buf st), length hdr, u))"
        proof (cases "63 \<le> n")
          case False
          then have h: "hdr = 0x41 # take 40 p" "u = 40" using plain(6) by auto
          have "bytes_at 1 40 (?d @ stale) = Some (take 40 p)" using n by (simp add: bytes_at_def read_at_def h)
          moreover have "byte_at 0 (?d @ stale) = Some 0x41" by (simp add: byte_at_def h)
          ultimately show ?thesis using a n by (simp add: input_headers_def h)
        next
          case True
          then have c: "compress_hdr_hc06 (addr_contexts s) (uip_lladdr s) dest p = (hdr, u)" using plain(6) by auto
          have w: "hc06_wf p" "unat (be16_of (read_at 4 2 p)) = n - 40" using ok True by (auto simp: packet_ok_def)
          note hh = compress_hdr_hc06_head [OF c]
          have u: "40 \<le> u" using hh(3) by simp
          have "be16_of (read_at 4 2 p) = of_nat (n - 40)" by (simp flip: w(2))
          also have "\<dots> = of_int (int (length ?d) - int (0 + length hdr) + int u - 40)" using n u plain(4) by (simp add: of_nat_diff)
          finally have len: "be16_of (read_at 4 2 p) = (if fi_size fi = 0 then of_int (int (length ?d) - int (0 + length hdr) + int u - 40) else fi_size fi - 40)"
            using a(2) by simp
          have "uncompress_hdr_hc06 (addr_contexts s) sa ra (fi_size fi) (length ?d) (?d @ stale) 0 (sicslowpan_buf st) =
              Some (write_at 0 (take u p) (sicslowpan_buf st), 0 + length hdr, u)"
            by (rule hc06_back [OF w(1) assms(8) c, of _ "[]" "read_at u (n - u) p @ stale"])
              (use a(4) assms(3,4) len in \<open>simp_all add: UIP_BUFSIZE_def p_def dest_def\<close>)
          moreover have "byte_at 0 (?d @ stale) = Some (hdr ! 0)" using hh(1) by (cases hdr) (simp_all add: byte_at_def)
          ultimately show ?thesis using a hh(2) q(3) by (simp add: input_headers_def)
        qed
      qed
      then show "\<exists>r'. sicslowpan_input now pb q = Some r' \<and> tcpip_inputs r' = tcpip_inputs q @ [take n p] \<and> processed_ip_in_len r' = 0" by blast
    qed
    moreover have "length (fst f) + 16 \<le> 102" if "f \<in> set fs" for f
    proof -
      have "fst f = hdr @ read_at u (n - u) p" using that plain(1) by (metis image_eqI list.set_map set_ConsD set_empty empty_iff)
      then show ?thesis using plain(3,4) n by simp
    qed
    ultimately show ?thesis using plain(5) unfolding p_def n_def by blast
  next
    case (2 hdr u k)
    note frags = 2
    have "\<exists>r'. receive T r rs = Some r' \<and> processed_ip_in_len r' = 0 \<and> tcpip_inputs r' = tcpip_inputs r @ [take n p]"
      by (rule receive_frags [OF assms(9) [unfolded frags(1)] assms(5-7,10,11,8) ok frags(2,3) assms(3) _ frags(4-6)])
        (use assms(4) in \<open>simp add: p_def dest_def\<close>)
    moreover have "length (fst f) + 16 \<le> 102" if "f \<in> set fs" for f
    proof -
      let ?h = "set16 (0xe000 OR of_nat n) @ set16 (my_tag s)"
      have "fst f \<in> set (map fst fs)" using that by simp
      then consider "fst f = set16 (0xc000 OR of_nat n) @ set16 (my_tag s) @ hdr @ read_at u k p" | "fst f \<in> set (fst (frag_loop p n ?h 80 (u + k) []))"
        unfolding frags(1) by auto
      then show ?thesis
      proof cases
        case 1 then show ?thesis using frags(4,8) n by simp
      next
        case 2 then show ?thesis using frag_loop_sizes [OF 2] n by simp
      qed
    qed
    ultimately show ?thesis using frags(7) unfolding p_def n_def by blast
  qed
qed

section \<open>Any frame is safe\<close>

lemma length_set_addr_iid: "pos + 16 \<le> length buf \<Longrightarrow> 6 \<le> length m \<Longrightarrow> length (uip_ds6_set_addr_iid pos m buf) = length buf"
  by (simp add: uip_ds6_set_addr_iid_def Let_def)

text \<open>A step of the decompression that reads at most \<open>c\<close> bytes and keeps the size of the buffer.\<close>

definition within :: "nat \<Rightarrow> u8 list \<times> nat \<Rightarrow> (u8 list \<times> nat) option \<Rightarrow> bool" where
  "within c st r \<longleftrightarrow> (\<exists>buf ptr. r = Some (buf, ptr) \<and> length buf = length (fst st) \<and> ptr \<le> Product_Type.snd st + c)"

lemma withinI: "r = Some (buf, ptr) \<Longrightarrow> length buf = length (fst st) \<Longrightarrow> ptr \<le> Product_Type.snd st + c \<Longrightarrow> within c st r"
  by (auto simp: within_def)

lemma byte_at_some: "i < length rime \<Longrightarrow> byte_at i rime = Some (rime ! i)"
  by (simp add: byte_at_def)

lemma bytes_at_some: "i + n \<le> length rime \<Longrightarrow> bytes_at i n rime = Some (read_at i n rime)"
  by (simp add: bytes_at_def)

lemma uncompress_addr_within:
  assumes "pos + 16 \<le> length buf" "ptr + 16 \<le> length rime"
    and "(pc, n) \<in> {(0x0f, 0), (0x28, 2), (0x22, 2), (0x20, 2), (0, 0), (0x88, 8), (0x82, 8), (0x80, 8), (0x25, 2), (0x23, 2), (0x21, 2)}" "n \<le> length pre"
    and "\<And>m. ll = Some m \<Longrightarrow> 6 \<le> length m" "ll = None \<Longrightarrow> pc AND 0x0f \<noteq> 0"
  shows "within 16 (buf, ptr) (uncompress_addr pos pre pc ll rime (buf, ptr))"
proof (cases ll)
  case None
  then have "pc AND 0x0f \<noteq> 0" using assms(6) by simp
  with assms(1-4) show ?thesis
    by (elim insertE emptyE) (auto intro!: withinI simp: uncompress_addr_def bytes_at_some Let_def)
next
  case (Some m)
  with assms show ?thesis
    by (elim insertE emptyE) (auto intro!: withinI simp: uncompress_addr_def bytes_at_some Let_def length_set_addr_iid)
qed

lemma uncompress_tf_within: "4 \<le> length buf \<Longrightarrow> ptr + 4 \<le> length rime \<Longrightarrow> within 4 (buf, ptr) (uncompress_tf iphc0 rime (buf, ptr))"
  by (auto intro!: withinI simp: uncompress_tf_def byte_at_some bytes_at_some Let_def)

lemma uncompress_nh_within: "ptr + 1 \<le> length rime \<Longrightarrow> within 1 (buf, ptr) (uncompress_nh iphc0 rime (buf, ptr))"
  by (auto intro!: withinI simp: uncompress_nh_def byte_at_some)

lemma uncompress_ttl_within: "ptr + 1 \<le> length rime \<Longrightarrow> within 1 (buf, ptr) (uncompress_ttl iphc0 rime (buf, ptr))"
  by (auto intro!: withinI simp: uncompress_ttl_def byte_at_some)

lemma uncompress_udp_within: "48 \<le> length buf \<Longrightarrow> ptr + 7 \<le> length rime \<Longrightarrow> within 7 (buf, ptr) (uncompress_udp rime (buf, ptr))"
  by (auto intro!: withinI simp: uncompress_udp_def byte_at_some bytes_at_some Let_def be16_bytes_def split: prod.splits)

lemma unat_and_3: "unat ((w :: u8) AND 3) \<in> {0, 1, 2, 3}"
proof -
  have "w AND 3 = take_bit 2 w" by (simp add: take_bit_eq_mask mask_eq_exp_minus_1)
  then have "unat (w AND 3) < 4" using take_bit_nat_less_exp [of 2 "unat w"] by (simp add: unsigned_take_bit_eq)
  then show ?thesis by auto
qed

definition ctxs_long :: "addr_context list \<Rightarrow> bool" where
  "ctxs_long ctxs \<longleftrightarrow> (\<forall>c \<in> set ctxs. 8 \<le> length (ctx_prefix c))"

lemma lookup_by_number_long: "ctxs_long ctxs \<Longrightarrow> addr_context_lookup_by_number ctxs n = Some c \<Longrightarrow> 8 \<le> length (ctx_prefix c)"
  unfolding addr_context_lookup_by_number_def ctxs_long_def by (auto simp: find_Some_iff)

definition within2 :: "nat \<Rightarrow> u8 list \<times> nat \<Rightarrow> (u8 list \<times> nat) option option \<Rightarrow> bool" where
  "within2 c st r \<longleftrightarrow> r = Some None \<or> (\<exists>q. r = map_option Some q \<and> within c st q)"

lemma within2I:
  "within2 c st (Some None)" "within c st q \<Longrightarrow> within2 c st (map_option Some q)" "within c st (Some z) \<Longrightarrow> within2 c st (Some (Some z))"
proof -
  assume "within c st (Some z)"
  then show "within2 c st (Some (Some z))" unfolding within2_def by (intro disjI2 exI [of _ "Some z"]) simp
qed (auto simp: within2_def)

lemma uncompress_src_within:
  assumes "24 \<le> length buf" "ptr + 16 \<le> length rime" "h + 3 \<le> length rime" "ctxs_long ctxs" "6 \<le> length sender"
  shows "within2 16 (buf, ptr) (uncompress_src ctxs sender h iphc1 rime (buf, ptr))"
proof -
  define tmp where "tmp = unat (drop_bit 4 (iphc1 AND 0x30) AND 3)"
  have tmp: "tmp \<in> {0, 1, 2, 3}" unfolding tmp_def by (rule unat_and_3)
  have a: "within 16 (buf, ptr) (uncompress_addr 8 pre pc (Some sender) rime (buf, ptr))"
    if "(pc, n) \<in> {(0x0f, 0), (0x28, 2), (0x22, 2), (0x20, 2), (0, 0), (0x88, 8), (0x82, 8), (0x80, 8), (0x25, 2), (0x23, 2), (0x21, 2)}" "n \<le> length pre" for pc n pre
    by (rule uncompress_addr_within [OF _ assms(2) that]) (use assms in auto)
  have ll: "within 16 (buf, ptr) (uncompress_addr 8 llprefix (unc_llconf ! tmp) (Some sender) rime (buf, ptr))"
    using tmp a [where pc = "0x0f" and n = 0] a [where pc = "0x28" and n = 2] a [where pc = "0x22" and n = 2] a [where pc = "0x20" and n = 2] by (auto simp: unc_llconf_def llprefix_def)
  have cx: "within 16 (buf, ptr) (uncompress_addr 8 (ctx_prefix c) (unc_ctxconf ! tmp) (Some sender) rime (buf, ptr))"
    if "addr_context_lookup_by_number ctxs k = Some c" for c k
    using tmp a [where pc = 0 and n = 0] a [where pc = "0x88" and n = 8] a [where pc = "0x82" and n = 8] a [where pc = "0x80" and n = 8] lookup_by_number_long [OF assms(4) that] by (auto simp: unc_ctxconf_def)
  have un: "within 16 (buf, ptr) (uncompress_addr 8 [] (unc_ctxconf ! 0) (Some sender) rime (buf, ptr))"
    using a [where pc = 0 and n = 0] by (simp add: unc_ctxconf_def)
  have "(if iphc1 AND 0x80 \<noteq> 0 then map_option (drop_bit 4) (byte_at (h + 2) rime) else Some 0) \<noteq> None"
    using assms(3) by (auto simp: byte_at_def)
  then obtain k where k: "(if iphc1 AND 0x80 \<noteq> 0 then map_option (drop_bit 4) (byte_at (h + 2) rime) else Some 0) = Some k" by blast
  show ?thesis unfolding uncompress_src_def tmp_def [symmetric] Let_def k Option.bind.bind_lunit
    by (auto intro!: within2I ll cx split: option.splits) (use ll un in auto)
qed

lemma uncompress_dst_within:
  assumes "40 \<le> length buf" "ptr + 17 \<le> length rime" "h + 3 \<le> length rime" "ctxs_long ctxs" "6 \<le> length receiver"
  shows "within2 17 (buf, ptr) (uncompress_dst ctxs receiver h iphc1 rime (buf, ptr))"
proof -
  define tmp where "tmp = unat (iphc1 AND 3)"
  have tmp: "tmp \<in> {0, 1, 2, 3}" unfolding tmp_def by (rule unat_and_3)
  have a: "within 17 (buf, ptr) (uncompress_addr 24 pre pc ll rime (buf, q))"
    if "(pc, n) \<in> {(0x0f, 0), (0x28, 2), (0x22, 2), (0x20, 2), (0, 0), (0x88, 8), (0x82, 8), (0x80, 8), (0x25, 2), (0x23, 2), (0x21, 2)}" "n \<le> length pre"
      "ll = Some receiver \<or> pc AND 0x0f \<noteq> 0" "ll = Some receiver \<or> ll = None" "q \<in> {ptr, ptr + 1}" for pc n pre ll q
  proof -
    have "within 16 (buf, q) (uncompress_addr 24 pre pc ll rime (buf, q))"
      by (rule uncompress_addr_within [OF _ _ that(1,2)]) (use assms that in auto)
    then show ?thesis using that(5) by (auto simp: within_def)
  qed
  have ll: "within 17 (buf, ptr) (uncompress_addr 24 llprefix (unc_llconf ! tmp) (Some receiver) rime (buf, ptr))"
    using tmp a [where pc = "0x0f" and n = 0] a [where pc = "0x28" and n = 2] a [where pc = "0x22" and n = 2] a [where pc = "0x20" and n = 2] by (auto simp: unc_llconf_def llprefix_def)
  have cx: "within 17 (buf, ptr) (uncompress_addr 24 (ctx_prefix c) (unc_ctxconf ! tmp) (Some receiver) rime (buf, ptr))"
    if "addr_context_lookup_by_number ctxs k = Some c" for c k
    using tmp a [where pc = 0 and n = 0] a [where pc = "0x88" and n = 8] a [where pc = "0x82" and n = 8] a [where pc = "0x80" and n = 8] lookup_by_number_long [OF assms(4) that] by (auto simp: unc_ctxconf_def)
  have mc: "within 17 (buf, ptr) (uncompress_addr 24 [0xff, x] (unc_mxconf ! tmp) None rime (buf, q))" if "q \<in> {ptr, ptr + 1}" for x q
    using tmp a [where pc = "0x0f" and n = 0 and pre = "[0xff, x]" and ll = None and q = q] a [where pc = "0x25" and n = 2 and pre = "[0xff, x]" and ll = None and q = q] a [where pc = "0x23" and n = 2 and pre = "[0xff, x]" and ll = None and q = q] a [where pc = "0x21" and n = 2 and pre = "[0xff, x]" and ll = None and q = q] that
    by (auto simp: unc_mxconf_def)
  have st: "within 17 (buf, ptr) (Some (buf, ptr))" by (simp add: within_def)
  have "(if iphc1 AND 0x80 \<noteq> 0 then map_option (\<lambda>b. b AND 0x0f) (byte_at (h + 2) rime) else Some 0) \<noteq> None"
    using assms(3) by (auto simp: byte_at_def)
  then obtain k where k: "(if iphc1 AND 0x80 \<noteq> 0 then map_option (\<lambda>b. b AND 0x0f) (byte_at (h + 2) rime) else Some 0) = Some k" by blast
  obtain x where x: "byte_at ptr rime = Some x" using assms(2) by (simp add: byte_at_def)
  show ?thesis unfolding uncompress_dst_def tmp_def [symmetric] Let_def k Option.bind.bind_lunit fst_conv snd_conv x
    by (auto intro!: within2I ll cx st mc [of "ptr + 1", simplified] mc [of ptr, simplified] split: option.splits)
      (use ll cx mc in auto)
qed

lemma length_hc06_lengths: "48 \<le> length buf \<Longrightarrow> length (hc06_lengths ip_len datalen hl u buf) = length buf"
  by (simp add: hc06_lengths_def Let_def be16_bytes_def)

lemma uncompress_total:
  assumes "48 \<le> length buf" "h + 52 \<le> length rime" "ctxs_long ctxs" "6 \<le> length sender" "6 \<le> length receiver"
  shows "\<exists>buf' h' u. uncompress_hdr_hc06 ctxs sender receiver ip_len datalen rime h buf = Some (buf', h', u) \<and> length buf' = length buf \<and> u \<le> 48"
proof -
  obtain b0 b1 where b: "byte_at h rime = Some b0" "byte_at (h + 1) rime = Some b1" using assms(2) by (simp add: byte_at_some)
  let ?p = "h + 2 + (if b1 AND 0x80 \<noteq> 0 then 1 else 0)"
  have p: "?p \<le> h + 3" by simp
  obtain B0 q0 where s0: "uncompress_tf b0 rime (buf, ?p) = Some (B0, q0)" "length B0 = length buf" "q0 \<le> h + 7"
    using uncompress_tf_within [of buf ?p rime b0] assms p by (auto simp: within_def)
  obtain B1 q1 where s1: "uncompress_nh b0 rime (B0, q0) = Some (B1, q1)" "length B1 = length buf" "q1 \<le> h + 8"
    using uncompress_nh_within [of q0 rime B0 b0] assms s0 by (auto simp: within_def)
  obtain B2 q2 where s2: "uncompress_ttl b0 rime (B1, q1) = Some (B2, q2)" "length B2 = length buf" "q2 \<le> h + 9"
    using uncompress_ttl_within [of q1 rime B1 b0] assms s1 by (auto simp: within_def)
  note run = uncompress_hdr_hc06_def b Option.bind.bind_lunit s0(1) s1(1) s2(1)
  have src: "within2 16 (B2, q2) (uncompress_src ctxs sender h b1 rime (B2, q2))"
    by (rule uncompress_src_within) (use assms s2 in auto)
  show ?thesis
  proof (cases "uncompress_src ctxs sender h b1 rime (B2, q2) = Some None")
    case True then show ?thesis unfolding run by (simp add: s2)
  next
    case False
    then obtain B3 q3 where s3: "uncompress_src ctxs sender h b1 rime (B2, q2) = Some (Some (B3, q3))" "length B3 = length buf" "q3 \<le> h + 25"
      using src s2 by (auto simp: within2_def within_def)
    have dst: "within2 17 (B3, q3) (uncompress_dst ctxs receiver h b1 rime (B3, q3))"
      by (rule uncompress_dst_within) (use assms s3 in auto)
    show ?thesis
    proof (cases "uncompress_dst ctxs receiver h b1 rime (B3, q3) = Some None")
      case True then show ?thesis unfolding run by (simp add: s3)
    next
      case False
      then obtain B4 q4 where s4: "uncompress_dst ctxs receiver h b1 rime (B3, q3) = Some (Some (B4, q4))" "length B4 = length buf" "q4 \<le> h + 42"
        using dst s3 by (auto simp: within2_def within_def)
      obtain x where x: "byte_at q4 rime = Some x" using s4 assms by (simp add: byte_at_some)
      obtain B5 q5 where s5: "uncompress_udp rime (B4, q4) = Some (B5, q5)" "length B5 = length buf"
        using uncompress_udp_within [of B4 q4 rime] s4 assms by (auto simp: within_def)
      show ?thesis unfolding run using s3 s4 s5 x assms(1) by (auto simp: length_hc06_lengths)
    qed
  qed
qed

text \<open>The state in which no size exceeds its buffer.\<close>

definition lp_inv :: "lowpan \<Rightarrow> bool" where
  "lp_inv r \<longleftrightarrow> lp_wf r \<and> unat (sicslowpan_len r) \<le> UIP_BUFSIZE \<and> ctxs_long (addr_contexts r)"

lemma input_headers_total:
  assumes "lp_inv s" "fi_hdr fi \<in> {0, 4, 5}" "60 \<le> length rime" "6 \<le> length sender" "6 \<le> length receiver"
  shows "\<exists>h. input_headers sender receiver fi datalen rime s = Some h \<and>
    (\<forall>buf hl u. h = Some (buf, hl, u) \<longrightarrow> length buf = UIP_BUFSIZE \<and> u \<le> 48)"
proof (cases "fi_hdr fi = 5")
  case True then show ?thesis using assms(1) by (simp add: input_headers_def lp_inv_def lp_wf_def)
next
  case False
  then have f: "fi_hdr fi \<le> 4" using assms(2) by auto
  have b: "byte_at (fi_hdr fi) rime = Some (rime ! fi_hdr fi)" "bytes_at (fi_hdr fi + 1) 40 rime = Some (read_at (fi_hdr fi + 1) 40 rime)"
    using f assms(3) by (simp_all add: byte_at_some bytes_at_some)
  have l: "length (sicslowpan_buf s) = 400" "ctxs_long (addr_contexts s)" using assms(1) by (simp_all add: lp_inv_def lp_wf_def UIP_BUFSIZE_def)
  have rl: "length (read_at (fi_hdr fi + 1) 40 rime) = 40" using f assms(3) by simp
  obtain buf' h' u where e: "uncompress_hdr_hc06 (addr_contexts s) sender receiver (fi_size fi) datalen rime (fi_hdr fi) (sicslowpan_buf s) = Some (buf', h', u)"
    "length buf' = 400" "u \<le> 48"
    using uncompress_total [of "sicslowpan_buf s" "fi_hdr fi" rime "addr_contexts s" sender receiver "fi_size fi" datalen] f assms(3-5) l by auto
  show ?thesis using False b e rl l by (simp add: input_headers_def UIP_BUFSIZE_def)
qed

lemma input_dispatch_total:
  assumes "60 \<le> length rime"
  shows "\<exists>fi. input_dispatch rime datalen s = Some fi \<and> fi_hdr fi \<in> {0, 4, 5}"
  using assms by (auto simp: input_dispatch_def get16_def bytes_at_some byte_at_some)

lemma reass_accept_inv:
  assumes "lp_inv s" "reass_accept now sender fi s = (ok, s1)"
  shows "lp_inv s1" "tcpip_inputs s1 = tcpip_inputs s"
  using assms by (auto simp: reass_accept_def lp_inv_def lp_wf_def reass_reset_def Let_def split: if_splits)

lemma input_payload_total:
  assumes "lp_inv s" "length buf = UIP_BUFSIZE" "u \<le> 48" "datalen \<le> length rime"
  shows "\<exists>s'. input_payload fi datalen rime (buf, hl, u) s = Some s' \<and> lp_inv s' \<and>
    (tcpip_inputs s' = tcpip_inputs s \<or> (\<exists>q. tcpip_inputs s' = tcpip_inputs s @ [q] \<and> length q \<le> UIP_BUFSIZE))"
proof -
  define s0 where "s0 = s\<lparr>sicslowpan_buf := buf\<rparr>"
  define n off where "n = datalen - hl" and "off = 8 * unat (fi_offset fi)"
  have i0: "lp_inv s0" "tcpip_inputs s0 = tcpip_inputs s" using assms(1,2) by (simp_all add: s0_def lp_inv_def lp_wf_def)
  show ?thesis
  proof (cases "datalen < hl \<or> u + off + n > UIP_BUFSIZE")
    case True
    then have "input_payload fi datalen rime (buf, hl, u) s = Some s0" by (auto simp: input_payload_def s0_def n_def off_def Let_def)
    then show ?thesis using i0 by auto
  next
    case False
    then have b: "bytes_at hl n rime = Some (read_at hl n rime)" using assms(4) by (intro bytes_at_some) (simp add: n_def)
    define s1 where "s1 = s0\<lparr>sicslowpan_buf := write_at (u + off) (read_at hl n rime) (sicslowpan_buf s0)\<rparr>"
    have rl: "length (read_at hl n rime) = n" using assms(4) False by (simp add: n_def)
    then have i1: "lp_inv s1" "tcpip_inputs s1 = tcpip_inputs s" using i0 False by (simp_all add: s1_def lp_inv_def lp_wf_def)
    have un: "unat (of_nat (n + u) :: u16) \<le> UIP_BUFSIZE" using False by (simp add: unat_of_nat_u16 UIP_BUFSIZE_def del: of_nat_add)
    define s2 where "s2 = (if fi_size fi > 0 then
             let s2 = (if fi_first fi then s1\<lparr>processed_ip_in_len := processed_ip_in_len s1 + of_nat u\<rparr> else s1) in
             s2\<lparr>processed_ip_in_len := (if fi_final fi then fi_size fi else processed_ip_in_len s2 + of_nat n)\<rparr>
           else s1\<lparr>sicslowpan_len := of_nat (n + u)\<rparr>)"
    have i2: "lp_inv s2" "tcpip_inputs s2 = tcpip_inputs s"
      using i1 un by (auto simp: s2_def lp_inv_def lp_wf_def Let_def simp del: of_nat_add)
    have g: "\<not> datalen < hl" "\<not> u + off + n > UIP_BUFSIZE" using False by auto
    have "input_payload fi datalen rime (buf, hl, u) s = Some (input_deliver s2)"
      unfolding input_payload_def prod.case Let_def n_def [symmetric] off_def [symmetric] s0_def [symmetric] if_not_P [OF g(1)] if_not_P [OF g(2)] b
      by (simp add: s2_def s1_def Let_def cong: if_cong)
    moreover have "lp_inv (input_deliver s2)"
      using i2(1) by (auto simp: input_deliver_def lp_inv_def lp_wf_def reass_reset_def Let_def)
    moreover have "tcpip_inputs (input_deliver s2) = tcpip_inputs s \<or> (\<exists>q. tcpip_inputs (input_deliver s2) = tcpip_inputs s @ [q] \<and> length q \<le> UIP_BUFSIZE)"
      using i2 by (auto simp: input_deliver_def reass_reset_def Let_def lp_inv_def)
    ultimately show ?thesis by blast
  qed
qed

text \<open>
  C9. Whatever frame arrives and however the packets it belongs to were tampered with, processing it
  returns, reads only within the packet buffer, keeps every buffer at its size and the length of the packet
  being put together within it, and hands at most one packet of at most 400 bytes to the IP layer.
\<close>

theorem sicslowpan_input_safe:
  assumes "lp_inv r" "packetbuf_dataptr pb + 60 \<le> length (pb_mem pb)" "packetbuf_dataptr pb + unat (packetbuf_datalen pb) \<le> length (pb_mem pb)"
    and "6 \<le> length (packetbuf_addr PACKETBUF_ADDR_SENDER pb)" "6 \<le> length (packetbuf_addr PACKETBUF_ADDR_RECEIVER pb)"
  shows "\<exists>r'. sicslowpan_input now pb r = Some r' \<and> lp_inv r' \<and>
    (tcpip_inputs r' = tcpip_inputs r \<or> (\<exists>q. tcpip_inputs r' = tcpip_inputs r @ [q] \<and> length q \<le> UIP_BUFSIZE))"
proof -
  define rime where "rime = drop (packetbuf_dataptr pb) (pb_mem pb)"
  have l: "60 \<le> length rime" "unat (packetbuf_datalen pb) \<le> length rime" using assms(2,3) by (simp_all add: rime_def)
  define r0 where "r0 = (if timer_expired now (reass_timer r) then reass_reset r else r)"
  have i0: "lp_inv r0" "tcpip_inputs r0 = tcpip_inputs r" using assms(1) by (simp_all add: r0_def reass_reset_def lp_inv_def lp_wf_def)
  obtain fi where fi: "input_dispatch rime (unat (packetbuf_datalen pb)) r0 = Some fi" "fi_hdr fi \<in> {0, 4, 5}"
    using input_dispatch_total [OF l(1)] by blast
  obtain ok r1 where a: "reass_accept now (packetbuf_addr PACKETBUF_ADDR_SENDER pb) fi r0 = (ok, r1)" by fastforce
  note i1 = reass_accept_inv [OF i0(1) a]
  obtain h where h: "input_headers (packetbuf_addr PACKETBUF_ADDR_SENDER pb) (packetbuf_addr PACKETBUF_ADDR_RECEIVER pb) fi
      (unat (packetbuf_datalen pb)) rime r1 = Some h" "\<forall>buf hl u. h = Some (buf, hl, u) \<longrightarrow> length buf = UIP_BUFSIZE \<and> u \<le> 48"
    using input_headers_total [OF i1(1) fi(2) l(1) assms(4,5)] by blast
  have e: "sicslowpan_input now pb r = (if \<not> ok then Some r1 else case h of None \<Rightarrow> Some r1 | Some h \<Rightarrow> input_payload fi (unat (packetbuf_datalen pb)) rime h r1)"
    unfolding sicslowpan_input_def rime_def [symmetric] Let_def r0_def [symmetric] using fi(1) a h(1) by simp
  show ?thesis
  proof (cases "ok \<and> h \<noteq> None")
    case False
    then have "sicslowpan_input now pb r = Some r1" unfolding e by (cases h) auto
    then show ?thesis using i1 i0 by auto
  next
    case True
    then obtain buf hl u where hh: "h = Some (buf, hl, u)" by (cases h) auto
    have "length buf = UIP_BUFSIZE" "u \<le> 48" using h(2) hh by auto
    from input_payload_total [OF i1(1) this l(2), of fi hl] show ?thesis unfolding e using True hh i1(2) i0(2) by simp
  qed
qed

section \<open>Witnesses\<close>

text \<open>A UDP packet of 240 bytes between two nodes; it takes three fragments.\<close>

definition packet3 :: "u8 list" where
  "packet3 = [0x60, 0, 0, 0, 0, 200, 17, 64] @ [0xfe, 0x80, 0, 0, 0, 0, 0, 0, 2, 1, 2, 0xff, 0xfe, 3, 4, 5] @
     [0xaa, 0xaa, 0, 0, 0, 0, 0, 0, 0, 0, 0, 0xff, 0xfe, 0, 0, 9] @ [0xf0, 0xb1, 0xf0, 0xb2, 0, 200, 0x12, 0x34] @
     replicate 100 7 @ replicate 92 8 @ replicate 160 0"

definition node1 :: rimeaddr where "node1 = mac1 @ [0, 0]"
definition node2 :: rimeaddr where "node2 = mac2 @ [0, 0]"

definition packetbuf_empty :: packetbuf where
  "packetbuf_empty = \<lparr>buflen = 0, bufptr = 0, hdrptr = 48, pb_mem = replicate 512 0, packetbufptr = Own,
     packetbuf_attrs = replicate PACKETBUF_NUM_ATTRS 0, packetbuf_addrs = replicate PACKETBUF_NUM_ADDRS rimeaddr_null\<rparr>"

definition frame_pb :: "u8 list \<Rightarrow> packetbuf" where
  "frame_pb f = packetbuf_set_addr PACKETBUF_ADDR_RECEIVER node2 (packetbuf_set_addr PACKETBUF_ADDR_SENDER node1
     (packetbuf_empty\<lparr>buflen := of_nat (length f), pb_mem := write_at 48 f (replicate 512 0)\<rparr>))"

definition lowpan_node :: "u8 list \<Rightarrow> lowpan" where
  "lowpan_node m = \<lparr>addr_contexts = sicslowpan_init_contexts, uip_lladdr = m, sicslowpan_buf = replicate 400 0, sicslowpan_len = 0,
     processed_ip_in_len = 0, my_tag = 7, reass_tag = 0, frag_sender = rimeaddr_null, reass_timer = \<lparr>tm_start = 0, tm_interval = 0\<rparr>,
     lp_uip_buf = replicate 400 0, lp_uip_len = 0, tcpip_inputs = []\<rparr>"

lemma carries_frame_pb: "length f \<le> 400 \<Longrightarrow> carries f node1 node2 (frame_pb f)"
  by (simp add: carries_def frame_pb_def packetbuf_empty_def packetbuf_set_addr_def packetbuf_addr_def packetbuf_datalen_def packetbuf_dataptr_def
      PACKETBUF_NUM_ATTRS_def PACKETBUF_NUM_ADDRS_def PACKETBUF_HDR_SIZE_def unat_of_nat_u16
      write_at_def)

lemma arrives_frame_pb: "\<forall>f \<in> set fs. length f \<le> 400 \<Longrightarrow> arrives node1 node2 fs (map (\<lambda>f. (3, frame_pb f)) fs)"
  by (induction fs) (simp_all add: carries_frame_pb)

definition sender1 :: lowpan where
  "sender1 = (lowpan_node mac1)\<lparr>lp_uip_buf := packet3, lp_uip_len := 240\<rparr>"

lemma packet3_ok: "packet_ok packet3 240"
  by code_simp

definition frames1 :: "u8 list list" where
  "frames1 = map fst (fst (sicslowpan_output node1 (Some node2) packetbuf_empty [] sender1))"

lemma frames1_lengths: "map length frames1 = [85, 85, 45]"
  by code_simp

theorem sicslowpan_end_to_end_witness:
  "\<exists>r'. receive 1000 (lowpan_node mac2) (map (\<lambda>f. (3, frame_pb f)) frames1) = Some r' \<and> tcpip_inputs r' = [take 240 packet3]"
proof -
  obtain fs ret s' where out: "sicslowpan_output node1 (Some node2) packetbuf_empty [] sender1 = (fs, ret, s')"
    by (metis prod_cases3)
  have fs: "map fst fs = frames1" using out by (simp add: frames1_def)
  have "length f \<in> set (map length frames1)" if "f \<in> set frames1" for f using that by simp
  then have "length f \<le> 400" if "f \<in> set frames1" for f using that unfolding frames1_lengths by fastforce
  then have a: "arrives node1 node2 (map fst fs) (map (\<lambda>f. (3, frame_pb f)) frames1)" unfolding fs by (intro arrives_frame_pb) blast
  have s: "packet_ok (lp_uip_buf sender1) (unat (lp_uip_len sender1))" using packet3_ok by (simp add: sender1_def)
  have m: "lladdr_known (uip_lladdr sender1) node1" "lladdr_known (case Some node2 of None \<Rightarrow> rimeaddr_null | Some d \<Rightarrow> d) node2"
    by (simp_all add: sender1_def lowpan_node_def node1_def node2_def mac1_def mac2_def lladdr_known_def)
  have r: "lp_wf (lowpan_node mac2)" "processed_ip_in_len (lowpan_node mac2) = 0" "addr_contexts (lowpan_node mac2) = addr_contexts sender1"
    by (simp_all add: lp_wf_def lowpan_node_def sender1_def UIP_BUFSIZE_def)
  have c: "ctxs_ok (addr_contexts sender1)" using ctxs_init_ok by (simp add: sender1_def lowpan_node_def)
  have d: "sorted (map fst (map (\<lambda>f. (3 :: nat, frame_pb f)) frames1))" "\<forall>(d, pb) \<in> set (map (\<lambda>f. (3 :: nat, frame_pb f)) frames1). d < 125"
    by (auto simp: sorted_iff_nth_mono)
  show ?thesis
    using sicslowpan_end_to_end [OF s out m(1) m(2) r c a d, THEN conjunct2, THEN conjunct2, of 1000] by (auto simp: sender1_def lowpan_node_def)
qed

theorem sicslowpan_input_safe_witness:
  "\<exists>r'. sicslowpan_input 0 (frame_pb [0xc1, 0x90, 0, 1]) (lowpan_node mac2) = Some r' \<and> lp_inv r'"
proof -
  have i: "lp_inv (lowpan_node mac2)"
    by (simp add: lp_inv_def lp_wf_def lowpan_node_def UIP_BUFSIZE_def ctxs_long_def sicslowpan_init_contexts_def)
  have b: "packetbuf_dataptr (frame_pb [0xc1, 0x90, 0, 1]) + 60 \<le> length (pb_mem (frame_pb [0xc1, 0x90, 0, 1]))"
    "packetbuf_dataptr (frame_pb [0xc1, 0x90, 0, 1]) + unat (packetbuf_datalen (frame_pb [0xc1, 0x90, 0, 1])) \<le> length (pb_mem (frame_pb [0xc1, 0x90, 0, 1]))"
    "6 \<le> length (packetbuf_addr PACKETBUF_ADDR_SENDER (frame_pb [0xc1, 0x90, 0, 1]))"
    "6 \<le> length (packetbuf_addr PACKETBUF_ADDR_RECEIVER (frame_pb [0xc1, 0x90, 0, 1]))"
    by code_simp+
  from sicslowpan_input_safe [OF i b] show ?thesis by blast
qed

end
