(* ===== verification/UipDs6.thy ===== *)
theory UipDs6
  imports Hc06
begin

text \<open>
  The IPv6 interface (\<open>core/net/uip-ds6.c\<close>): the lists of unicast, multicast, anycast addresses and of
  prefixes, the selection of a source address and the detection of duplicate addresses. The platform is a
  router (\<open>UIP_CONF_ROUTER\<close>) that sends no router advertisements. An entry of a list is used or free; the
  pointer to an entry is its index.
\<close>

section \<open>Data\<close>

definition UIP_DS6_PREFIX_NB :: nat where "UIP_DS6_PREFIX_NB = 3"
definition UIP_DS6_ADDR_NB :: nat where "UIP_DS6_ADDR_NB = 3"
definition UIP_DS6_MADDR_NB :: nat where "UIP_DS6_MADDR_NB = 5"
definition UIP_DS6_AADDR_NB :: nat where "UIP_DS6_AADDR_NB = 2"

abbreviation (input) ADDR_TENTATIVE :: u8 where "ADDR_TENTATIVE \<equiv> 0"
abbreviation (input) ADDR_PREFERRED :: u8 where "ADDR_PREFERRED \<equiv> 1"

record ds6_prefix =
  px_isused :: bool
  px_ipaddr :: "u8 list"
  px_length :: u8
  px_advertise :: u8
  px_vlifetime :: u32
  px_plifetime :: u32
  px_reserved :: u8

record ds6_addr =
  ad_isused :: bool
  ad_ipaddr :: "u8 list"
  ad_state :: u8
  ad_type :: u8
  ad_isinfinite :: bool
  ad_vlifetime :: timer
  ad_dadtimer :: timer
  ad_dadnscount :: u8

record ds6_maddr =
  ma_isused :: bool
  ma_ipaddr :: "u8 list"

record ds6_if =
  cur_hop_limit :: u8
  retrans_timer :: u32
  maxdadns :: u8
  addr_list :: "ds6_addr list"
  aaddr_list :: "ds6_maddr list"
  maddr_list :: "ds6_maddr list"
  prefix_list :: "ds6_prefix list"

section \<open>Addresses\<close>

definition uip_ipaddr_prefixcmp :: "u8 list \<Rightarrow> u8 list \<Rightarrow> u8 \<Rightarrow> bool" where
  "uip_ipaddr_prefixcmp a b len \<longleftrightarrow> take (unat (drop_bit 3 len)) a = take (unat (drop_bit 3 len)) b"

definition uip_is_addr_loopback :: "u8 list \<Rightarrow> bool" where
  "uip_is_addr_loopback a \<longleftrightarrow> u16_zero 0 a \<and> u16_zero 1 a \<and> u16_zero 2 a \<and> u16_zero 3 a \<and>
     u16_zero 4 a \<and> u16_zero 5 a \<and> u16_zero 6 a \<and> a ! 14 = 0 \<and> a ! 15 = 1"

definition uip_create_unspecified :: "u8 list" where
  "uip_create_unspecified = replicate 16 0"

definition uip_create_solicited_node :: "u8 list \<Rightarrow> u8 list" where
  "uip_create_solicited_node a = [0xFF, 0x02, 0, 0, 0, 0, 0, 0, 0, 0, 0, 0x01, 0xFF, a ! 13, a ! 14, a ! 15]"

section \<open>The lists\<close>

text \<open>What the generic loop returns, with the element it points to.\<close>

datatype ds6_result = FOUND nat | FREESPACE nat | NOSPACE

fun uip_ds6_loop :: "(bool \<times> u8 list) list \<Rightarrow> nat \<Rightarrow> u8 list \<Rightarrow> u8 \<Rightarrow> nat option \<Rightarrow> ds6_result" where
  "uip_ds6_loop [] i ipaddr len out = (case out of None \<Rightarrow> NOSPACE | Some j \<Rightarrow> FREESPACE j)"
| "uip_ds6_loop ((isused, a) # es) i ipaddr len out =
     (if isused then
        if uip_ipaddr_prefixcmp a ipaddr len then FOUND i else uip_ds6_loop es (Suc i) ipaddr len out
      else uip_ds6_loop es (Suc i) ipaddr len (Some i))"

definition uip_ds6_list_loop :: "(bool \<times> u8 list) list \<Rightarrow> u8 list \<Rightarrow> u8 \<Rightarrow> ds6_result" where
  "uip_ds6_list_loop es ipaddr len = uip_ds6_loop es 0 ipaddr len None"

abbreviation (input) addr_elems :: "ds6_addr list \<Rightarrow> (bool \<times> u8 list) list" where
  "addr_elems \<equiv> map (\<lambda>a. (ad_isused a, ad_ipaddr a))"

abbreviation (input) maddr_elems :: "ds6_maddr list \<Rightarrow> (bool \<times> u8 list) list" where
  "maddr_elems \<equiv> map (\<lambda>a. (ma_isused a, ma_ipaddr a))"

abbreviation (input) prefix_elems :: "ds6_prefix list \<Rightarrow> (bool \<times> u8 list) list" where
  "prefix_elems \<equiv> map (\<lambda>a. (px_isused a, px_ipaddr a))"

subsection \<open>Prefixes\<close>

definition uip_ds6_prefix_add :: "u8 list \<Rightarrow> u8 \<Rightarrow> u8 \<Rightarrow> u8 \<Rightarrow> u32 \<Rightarrow> u32 \<Rightarrow> ds6_if \<Rightarrow> nat option \<times> ds6_if" where
  "uip_ds6_prefix_add ipaddr len advertise flags vtime ptime s =
     (case uip_ds6_list_loop (prefix_elems (prefix_list s)) ipaddr len of
        FREESPACE i \<Rightarrow> (Some i, s\<lparr>prefix_list := (prefix_list s)[i := \<lparr>px_isused = True, px_ipaddr = ipaddr, px_length = len,
          px_advertise = advertise, px_vlifetime = vtime, px_plifetime = ptime, px_reserved = flags\<rparr>]\<rparr>)
      | _ \<Rightarrow> (None, s))"

definition uip_ds6_prefix_rm :: "nat option \<Rightarrow> ds6_if \<Rightarrow> ds6_if" where
  "uip_ds6_prefix_rm p s = (case p of None \<Rightarrow> s
     | Some i \<Rightarrow> s\<lparr>prefix_list := (prefix_list s)[i := (prefix_list s ! i)\<lparr>px_isused := False\<rparr>]\<rparr>)"

definition uip_ds6_prefix_lookup :: "u8 list \<Rightarrow> u8 \<Rightarrow> ds6_if \<Rightarrow> nat option" where
  "uip_ds6_prefix_lookup ipaddr len s = (case uip_ds6_list_loop (prefix_elems (prefix_list s)) ipaddr len of FOUND i \<Rightarrow> Some i | _ \<Rightarrow> None)"

definition uip_ds6_is_addr_onlink :: "u8 list \<Rightarrow> ds6_if \<Rightarrow> bool" where
  "uip_ds6_is_addr_onlink ipaddr s \<longleftrightarrow>
     list_ex (\<lambda>p. px_isused p \<and> uip_ipaddr_prefixcmp (px_ipaddr p) ipaddr (px_length p)) (prefix_list s)"

subsection \<open>Multicast and anycast addresses\<close>

definition uip_ds6_maddr_add :: "u8 list \<Rightarrow> ds6_if \<Rightarrow> nat option \<times> ds6_if" where
  "uip_ds6_maddr_add ipaddr s =
     (case uip_ds6_list_loop (maddr_elems (maddr_list s)) ipaddr 128 of
        FREESPACE i \<Rightarrow> (Some i, s\<lparr>maddr_list := (maddr_list s)[i := \<lparr>ma_isused = True, ma_ipaddr = ipaddr\<rparr>]\<rparr>)
      | _ \<Rightarrow> (None, s))"

definition uip_ds6_maddr_rm :: "nat option \<Rightarrow> ds6_if \<Rightarrow> ds6_if" where
  "uip_ds6_maddr_rm p s = (case p of None \<Rightarrow> s
     | Some i \<Rightarrow> s\<lparr>maddr_list := (maddr_list s)[i := (maddr_list s ! i)\<lparr>ma_isused := False\<rparr>]\<rparr>)"

definition uip_ds6_maddr_lookup :: "u8 list \<Rightarrow> ds6_if \<Rightarrow> nat option" where
  "uip_ds6_maddr_lookup ipaddr s = (case uip_ds6_list_loop (maddr_elems (maddr_list s)) ipaddr 128 of FOUND i \<Rightarrow> Some i | _ \<Rightarrow> None)"

definition uip_ds6_aaddr_add :: "u8 list \<Rightarrow> ds6_if \<Rightarrow> nat option \<times> ds6_if" where
  "uip_ds6_aaddr_add ipaddr s =
     (case uip_ds6_list_loop (maddr_elems (aaddr_list s)) ipaddr 128 of
        FREESPACE i \<Rightarrow> (Some i, s\<lparr>aaddr_list := (aaddr_list s)[i := \<lparr>ma_isused = True, ma_ipaddr = ipaddr\<rparr>]\<rparr>)
      | _ \<Rightarrow> (None, s))"

definition uip_ds6_aaddr_rm :: "nat option \<Rightarrow> ds6_if \<Rightarrow> ds6_if" where
  "uip_ds6_aaddr_rm p s = (case p of None \<Rightarrow> s
     | Some i \<Rightarrow> s\<lparr>aaddr_list := (aaddr_list s)[i := (aaddr_list s ! i)\<lparr>ma_isused := False\<rparr>]\<rparr>)"

definition uip_ds6_aaddr_lookup :: "u8 list \<Rightarrow> ds6_if \<Rightarrow> nat option" where
  "uip_ds6_aaddr_lookup ipaddr s = (case uip_ds6_list_loop (maddr_elems (aaddr_list s)) ipaddr 128 of FOUND i \<Rightarrow> Some i | _ \<Rightarrow> None)"

subsection \<open>Unicast addresses\<close>

text \<open>\<open>now\<close> are the ticks and \<open>secs\<close> the seconds of the clock, \<open>rnd\<close> is what \<open>random_rand\<close> returns.\<close>

definition ds6_addr_entry :: "u32 \<Rightarrow> u32 \<Rightarrow> u16 \<Rightarrow> u8 list \<Rightarrow> u32 \<Rightarrow> u8 \<Rightarrow> ds6_addr \<Rightarrow> ds6_addr" where
  "ds6_addr_entry now secs rnd ipaddr vlifetime ty old =
     (let a = old\<lparr>ad_isused := True, ad_ipaddr := ipaddr, ad_type := ty\<rparr>;
          a1 = (if vlifetime = 0 then a\<lparr>ad_isinfinite := True\<rparr>
                else a\<lparr>ad_isinfinite := False, ad_vlifetime := stimer_set secs (ad_vlifetime a) vlifetime\<rparr>)
      in a1\<lparr>ad_state := ADDR_TENTATIVE, ad_dadtimer := timer_set now (ad_dadtimer a1) (ucast rnd mod 1000), ad_dadnscount := 0\<rparr>)"

definition uip_ds6_addr_add :: "u32 \<Rightarrow> u32 \<Rightarrow> u16 \<Rightarrow> u8 list \<Rightarrow> u32 \<Rightarrow> u8 \<Rightarrow> ds6_if \<Rightarrow> nat option \<times> ds6_if" where
  "uip_ds6_addr_add now secs rnd ipaddr vlifetime ty s =
     (case uip_ds6_list_loop (addr_elems (addr_list s)) ipaddr 128 of
        FREESPACE i \<Rightarrow>
          let a = ds6_addr_entry now secs rnd ipaddr vlifetime ty (addr_list s ! i);
              (_, s1) = uip_ds6_maddr_add (uip_create_solicited_node ipaddr) (s\<lparr>addr_list := (addr_list s)[i := a]\<rparr>)
          in (Some i, s1)
      | _ \<Rightarrow> (None, s))"

definition uip_ds6_addr_rm :: "nat option \<Rightarrow> ds6_if \<Rightarrow> ds6_if" where
  "uip_ds6_addr_rm p s = (case p of None \<Rightarrow> s
     | Some i \<Rightarrow>
         let s1 = uip_ds6_maddr_rm (uip_ds6_maddr_lookup (uip_create_solicited_node (ad_ipaddr (addr_list s ! i))) s) s
         in s1\<lparr>addr_list := (addr_list s1)[i := (addr_list s1 ! i)\<lparr>ad_isused := False\<rparr>]\<rparr>)"

definition uip_ds6_addr_lookup :: "u8 list \<Rightarrow> ds6_if \<Rightarrow> nat option" where
  "uip_ds6_addr_lookup ipaddr s = (case uip_ds6_list_loop (addr_elems (addr_list s)) ipaddr 128 of FOUND i \<Rightarrow> Some i | _ \<Rightarrow> None)"

definition uip_ds6_is_my_addr :: "u8 list \<Rightarrow> ds6_if \<Rightarrow> bool" where
  "uip_ds6_is_my_addr a s \<longleftrightarrow> uip_ds6_addr_lookup a s \<noteq> None"

definition uip_ds6_is_my_maddr :: "u8 list \<Rightarrow> ds6_if \<Rightarrow> bool" where
  "uip_ds6_is_my_maddr a s \<longleftrightarrow> uip_ds6_maddr_lookup a s \<noteq> None"

definition uip_ds6_is_my_aaddr :: "u8 list \<Rightarrow> ds6_if \<Rightarrow> bool" where
  "uip_ds6_is_my_aaddr a s \<longleftrightarrow> uip_ds6_aaddr_lookup a s \<noteq> None"

text \<open>\<open>None\<close> stands for the state \<open>-1\<close>, any.\<close>

definition uip_ds6_get_link_local :: "u8 option \<Rightarrow> ds6_if \<Rightarrow> ds6_addr option" where
  "uip_ds6_get_link_local st s =
     find (\<lambda>a. ad_isused a \<and> (st = None \<or> st = Some (ad_state a)) \<and> uip_is_addr_link_local (ad_ipaddr a)) (addr_list s)"

definition uip_ds6_get_global :: "u8 option \<Rightarrow> ds6_if \<Rightarrow> ds6_addr option" where
  "uip_ds6_get_global st s =
     find (\<lambda>a. ad_isused a \<and> (st = None \<or> st = Some (ad_state a)) \<and> \<not> uip_is_addr_link_local (ad_ipaddr a)) (addr_list s)"

section \<open>Source address selection\<close>

fun match_bits :: "nat \<Rightarrow> u8 \<Rightarrow> u8 \<Rightarrow> u8" where
  "match_bits 0 x_or len = len"
| "match_bits (Suc k) x_or len = (if x_or AND 0x80 = 0 then match_bits k (push_bit 1 x_or) (len + 1) else len)"

fun match_bytes :: "u8 list \<Rightarrow> u8 list \<Rightarrow> u8 \<Rightarrow> u8" where
  "match_bytes (a # as) (b # bs) len = (if a = b then match_bytes as bs (len + 8) else match_bits 8 (a XOR b) len)"
| "match_bytes _ _ len = len"

definition get_match_length :: "u8 list \<Rightarrow> u8 list \<Rightarrow> u8" where
  "get_match_length src dst = match_bytes (take 16 src) (take 16 dst) 0"

fun select_loop :: "u8 list \<Rightarrow> ds6_addr list \<Rightarrow> u8 \<Rightarrow> ds6_addr option \<Rightarrow> ds6_addr option" where
  "select_loop dst [] best m = m"
| "select_loop dst (a # as) best m =
     (if ad_isused a \<and> ad_state a = ADDR_PREFERRED \<and> \<not> uip_is_addr_link_local (ad_ipaddr a) then
        let n = get_match_length dst (ad_ipaddr a) in
        if n \<ge> best then select_loop dst as n (Some a) else select_loop dst as best m
      else select_loop dst as best m)"

definition uip_ds6_select_src :: "u8 list \<Rightarrow> ds6_if \<Rightarrow> u8 list" where
  "uip_ds6_select_src dst s =
     (let m = (if \<not> uip_is_addr_link_local dst \<and> \<not> uip_is_addr_mcast dst then select_loop dst (addr_list s) 0 None
               else uip_ds6_get_link_local (Some ADDR_PREFERRED) s)
      in case m of None \<Rightarrow> uip_create_unspecified | Some a \<Rightarrow> ad_ipaddr a)"

section \<open>Duplicate address detection\<close>

text \<open>Whether a neighbour solicitation for the address is sent, and the state.\<close>

definition uip_ds6_dad :: "u32 \<Rightarrow> nat \<Rightarrow> ds6_if \<Rightarrow> bool \<times> ds6_if" where
  "uip_ds6_dad now i s =
     (let a = addr_list s ! i in
      if ad_dadnscount a < maxdadns s then
        (True, s\<lparr>addr_list := (addr_list s)[i := a\<lparr>ad_dadnscount := ad_dadnscount a + 1,
           ad_dadtimer := timer_set now (ad_dadtimer a) (retrans_timer s div 1000 * 1000)\<rparr>]\<rparr>)
      else (False, s\<lparr>addr_list := (addr_list s)[i := a\<lparr>ad_state := ADDR_PREFERRED\<rparr>]\<rparr>))"

definition uip_ds6_dad_failed :: "nat \<Rightarrow> ds6_if \<Rightarrow> bool \<times> ds6_if" where
  "uip_ds6_dad_failed i s =
     (if uip_is_addr_link_local (ad_ipaddr (addr_list s ! i)) then (False, s) else (True, uip_ds6_addr_rm (Some i) s))"

text \<open>
  The walk over the addresses that \<open>uip_ds6_periodic\<close> starts with; the third component is the addresses
  a solicitation is sent for. A solicitation fills \<open>uip_buf\<close>, so there is at most one per walk.
\<close>

definition ds6_periodic_step :: "u32 \<Rightarrow> u32 \<Rightarrow> bool \<times> ds6_if \<times> u8 list list \<Rightarrow> nat \<Rightarrow> bool \<times> ds6_if \<times> u8 list list" where
  "ds6_periodic_step now secs = (\<lambda>(idle, s, out) i.
     let a = addr_list s ! i in
     if ad_isused a then
       if \<not> ad_isinfinite a \<and> stimer_expired secs (ad_vlifetime a) then (idle, uip_ds6_addr_rm (Some i) s, out)
       else if ad_state a = ADDR_TENTATIVE \<and> ad_dadnscount a \<le> maxdadns s \<and> timer_expired now (ad_dadtimer a) \<and> idle then
         let (sent, s1) = uip_ds6_dad now i s in (\<not> sent, s1, if sent then out @ [ad_ipaddr a] else out)
       else (idle, s, out)
     else (idle, s, out))"

definition uip_ds6_periodic_addrs :: "u32 \<Rightarrow> u32 \<Rightarrow> bool \<Rightarrow> ds6_if \<Rightarrow> ds6_if \<times> u8 list list" where
  "uip_ds6_periodic_addrs now secs idle s = snd (foldl (ds6_periodic_step now secs) (idle, s, []) [0..<UIP_DS6_ADDR_NB])"

section \<open>The start\<close>

definition uip_ds6_init :: "u32 \<Rightarrow> u32 \<Rightarrow> u16 \<Rightarrow> u8 list \<Rightarrow> ds6_if" where
  "uip_ds6_init now secs rnd lladdr =
     (let fresh = \<lparr>ad_isused = False, ad_ipaddr = replicate 16 0, ad_state = 0, ad_type = 0, ad_isinfinite = False,
            ad_vlifetime = \<lparr>tm_start = 0, tm_interval = 0\<rparr>, ad_dadtimer = \<lparr>tm_start = 0, tm_interval = 0\<rparr>, ad_dadnscount = 0\<rparr>;
          none = \<lparr>ma_isused = False, ma_ipaddr = replicate 16 0\<rparr>;
          s = \<lparr>cur_hop_limit = 64, retrans_timer = 1000, maxdadns = 1, addr_list = replicate UIP_DS6_ADDR_NB fresh,
            aaddr_list = replicate UIP_DS6_AADDR_NB none, maddr_list = replicate UIP_DS6_MADDR_NB none,
            prefix_list = replicate UIP_DS6_PREFIX_NB \<lparr>px_isused = False, px_ipaddr = replicate 16 0, px_length = 0,
              px_advertise = 0, px_vlifetime = 0, px_plifetime = 0, px_reserved = 0\<rparr>\<rparr>;
          ll = [0xfe, 0x80] @ replicate 14 0;
          (_, s1) = uip_ds6_prefix_add ll 64 0 0 0 0 s;
          ll1 = uip_ds6_set_addr_iid 0 lladdr ll;
          (_, s2) = uip_ds6_addr_add now secs rnd ll1 0 1 s1;
          (_, s3) = uip_ds6_maddr_add ([0xff, 0x02] @ replicate 13 0 @ [1]) s2;
          (_, s4) = uip_ds6_maddr_add ([0xff, 0x02] @ replicate 13 0 @ [2]) s3
      in s4)"

section \<open>What the generic loop finds\<close>

abbreviation (input) elem_hit :: "u8 list \<Rightarrow> u8 \<Rightarrow> bool \<times> u8 list \<Rightarrow> bool" where
  "elem_hit a len e \<equiv> fst e \<and> uip_ipaddr_prefixcmp (Product_Type.snd e) a len"

lemma ds6_loop_found:
  "uip_ds6_loop es i a len out = FOUND k \<longleftrightarrow>
     (\<exists>j<length es. k = i + j \<and> elem_hit a len (es ! j) \<and> (\<forall>j'<j. \<not> elem_hit a len (es ! j')))"
proof (induction es i a len out rule: uip_ds6_loop.induct)
  case (1 i ipaddr len out)
  show ?case by (simp split: option.splits)
next
  case (2 isused b es i a len out)
  show ?case
  proof (cases "isused \<and> uip_ipaddr_prefixcmp b a len")
    case True
    have "(\<exists>j<length ((isused, b) # es). k = i + j \<and> elem_hit a len (((isused, b) # es) ! j) \<and>
        (\<forall>j'<j. \<not> elem_hit a len (((isused, b) # es) ! j'))) \<longleftrightarrow> k = i"
    proof
      assume "\<exists>j<length ((isused, b) # es). k = i + j \<and> elem_hit a len (((isused, b) # es) ! j) \<and>
        (\<forall>j'<j. \<not> elem_hit a len (((isused, b) # es) ! j'))"
      then obtain j where j: "k = i + j" "\<forall>j'<j. \<not> elem_hit a len (((isused, b) # es) ! j')" by blast
      have "\<not> 0 < j" using j(2) True by force
      then show "k = i" using j(1) by simp
    next
      assume "k = i"
      then show "\<exists>j<length ((isused, b) # es). k = i + j \<and> elem_hit a len (((isused, b) # es) ! j) \<and>
        (\<forall>j'<j. \<not> elem_hit a len (((isused, b) # es) ! j'))" using True by (intro exI [of _ 0]) simp
    qed
    then show ?thesis using True by auto
  next
    case False
    then have "uip_ds6_loop ((isused, b) # es) i a len out = uip_ds6_loop es (Suc i) a len (if isused then out else Some i)" by simp
    moreover have "\<dots> = FOUND k \<longleftrightarrow> (\<exists>j<length es. k = Suc i + j \<and> elem_hit a len (es ! j) \<and> (\<forall>j'<j. \<not> elem_hit a len (es ! j')))"
      using 2 False by simp
    ultimately show ?thesis using False by (auto simp: Ex_less_Suc2 All_less_Suc2)
  qed
qed

lemma ds6_loop_free:
  "uip_ds6_loop es i a len out = FREESPACE k \<Longrightarrow>
     (\<forall>e \<in> set es. \<not> elem_hit a len e) \<and> (out = Some k \<or> (\<exists>j<length es. k = i + j \<and> \<not> fst (es ! j)))"
proof (induction es i a len out rule: uip_ds6_loop.induct)
  case (1 i ipaddr len out)
  then show ?case by (simp split: option.splits)
next
  case (2 isused b es i a len out)
  then show ?case by (auto simp: Ex_less_Suc2 split: if_splits)
qed

lemma ds6_loop_none:
  "uip_ds6_loop es i a len out \<noteq> NOSPACE \<or> (out = None \<and> (\<forall>e \<in> set es. fst e \<and> \<not> elem_hit a len e))"
  by (induction es i a len out rule: uip_ds6_loop.induct) (auto split: option.splits)

lemma ds6_list_free:
  assumes "uip_ds6_list_loop es a len = FREESPACE k"
  shows "k < length es" "\<not> fst (es ! k)" "\<forall>e \<in> set es. \<not> elem_hit a len e"
  using ds6_loop_free [of es 0 a len None k] assms by (auto simp: uip_ds6_list_loop_def)

lemma ds6_list_found:
  "uip_ds6_list_loop es a len = FOUND k \<longleftrightarrow> k < length es \<and> elem_hit a len (es ! k) \<and> (\<forall>j<k. \<not> elem_hit a len (es ! j))"
  by (auto simp: uip_ds6_list_loop_def ds6_loop_found)

text \<open>Writing an entry of another address does not change what is found.\<close>

lemma ds6_list_other:
  assumes "k < length es" "\<not> elem_hit b len (es ! k)" "\<not> elem_hit b len e"
  shows "uip_ds6_list_loop (es[k := e]) b len = FOUND j \<longleftrightarrow> uip_ds6_list_loop es b len = FOUND j"
  using assms by (auto simp: ds6_list_found nth_list_update_if)

lemma prefixcmp_128: "length a = 16 \<Longrightarrow> uip_ipaddr_prefixcmp a b 128 \<longleftrightarrow> a = take 16 b"
  by (simp add: uip_ipaddr_prefixcmp_def)

abbreviation (input) found_at :: "ds6_result \<Rightarrow> nat option" where
  "found_at r \<equiv> (case r of FOUND i \<Rightarrow> Some i | _ \<Rightarrow> None)"

lemma found_at_some: "found_at r = Some i \<longleftrightarrow> r = FOUND i"
  by (cases r) simp_all

text \<open>What is added to a list is found, and nothing else is found or lost.\<close>

lemma ds6_list_added:
  assumes "uip_ds6_list_loop es a 128 = FREESPACE i" "length a = 16"
  shows "found_at (uip_ds6_list_loop (es[i := (True, a)]) a 128) = Some i"
    "length b = 16 \<Longrightarrow> b \<noteq> a \<Longrightarrow> found_at (uip_ds6_list_loop (es[i := (True, a)]) b 128) = found_at (uip_ds6_list_loop es b 128)"
proof -
  note f = ds6_list_free [OF assms(1)]
  have "\<not> elem_hit a 128 (es ! j)" if "j < length es" for j using f(3) that by (simp add: all_set_conv_all_nth)
  then have "uip_ds6_list_loop (es[i := (True, a)]) a 128 = FOUND i"
    using f(1) assms(2) by (auto simp: ds6_list_found prefixcmp_128)
  then show "found_at (uip_ds6_list_loop (es[i := (True, a)]) a 128) = Some i" by simp
  assume b: "length b = 16" "b \<noteq> a"
  have "uip_ds6_list_loop (es[i := (True, a)]) b 128 = FOUND j \<longleftrightarrow> uip_ds6_list_loop es b 128 = FOUND j" for j
    using f b assms(2) by (intro ds6_list_other) (simp_all add: prefixcmp_128)
  then show "found_at (uip_ds6_list_loop (es[i := (True, a)]) b 128) = found_at (uip_ds6_list_loop es b 128)"
    by (metis found_at_some not_Some_eq)
qed

lemma maddr_add_keeps: "addr_list (Product_Type.snd (uip_ds6_maddr_add a s)) = addr_list s"
  by (simp add: uip_ds6_maddr_add_def split: ds6_result.splits)

section \<open>The longest match\<close>

text \<open>The number of bits two addresses have in common at their start.\<close>

definition byte_bits :: "u8 \<Rightarrow> bool list" where
  "byte_bits b = map (bit b) [7, 6, 5, 4, 3, 2, 1, 0]"

fun common :: "bool list \<Rightarrow> bool list \<Rightarrow> nat" where
  "common (x # xs) (y # ys) = (if x = y then Suc (common xs ys) else 0)"
| "common _ _ = 0"

definition common_bits :: "u8 list \<Rightarrow> u8 list \<Rightarrow> nat" where
  "common_bits a b = common (concat (map byte_bits a)) (concat (map byte_bits b))"

lemma common_append: "length xs = length ys \<Longrightarrow> common (xs @ us) (ys @ vs) = (if xs = ys then length xs + common us vs else common xs ys)"
  by (induction xs ys rule: list_induct2) auto

lemma common_xor: "common (map f is) (map g is) = common (map (\<lambda>i. f i \<noteq> g i) is) (map (\<lambda>_. False) is)"
  by (induction "is") auto

lemma match_bits_add: "match_bits k x len = len + match_bits k x 0"
proof (induction k arbitrary: x len)
  case (Suc k)
  show ?case using Suc [of "push_bit 1 x" "len + 1"] Suc [of "push_bit 1 x" 1] by simp
qed simp

lemma match_bits_all: "list_all (\<lambda>n. match_bits 8 (word_of_nat n) 0 = of_nat (common (byte_bits (word_of_nat n)) (byte_bits 0))) [0..<256]"
  by code_simp

lemma match_bits_xor: "match_bits 8 (a XOR b) len = len + of_nat (common (byte_bits a) (byte_bits b))"
proof -
  have "match_bits 8 x 0 = of_nat (common (byte_bits x) (byte_bits 0))" for x
    using match_bits_all [unfolded list_all_iff, rule_format, of "unat x"] unat_lt_2p [of x] by simp
  moreover have "common (byte_bits (a XOR b)) (byte_bits 0) = common (byte_bits a) (byte_bits b)"
    unfolding byte_bits_def using common_xor [of "bit a" "[7, 6, 5, 4, 3, 2, 1, 0]" "bit b"]
    by (simp add: bit_xor_iff)
  ultimately show ?thesis by (simp add: match_bits_add [of 8 "a XOR b" len])
qed

lemma length_byte_bits: "length (byte_bits b) = 8"
  by (simp add: byte_bits_def)

lemma byte_bits_inj: "byte_bits a = byte_bits b \<longleftrightarrow> a = b"
proof
  assume "byte_bits a = byte_bits b"
  then show "a = b" unfolding byte_bits_def by (intro bit_word_eqI, drule_tac bit_index_u8, elim disjE) simp_all
qed simp

lemma match_bytes_common: "match_bytes a b len = len + of_nat (common_bits a b)"
proof (induction a b len rule: match_bytes.induct)
  case (1 a as b bs len)
  have c: "common_bits (a # as) (b # bs) = (if a = b then 8 + common_bits as bs else common (byte_bits a) (byte_bits b))"
    by (simp add: common_bits_def common_append length_byte_bits byte_bits_inj)
  show ?case using 1 by (simp add: c match_bits_xor)
qed (simp_all add: common_bits_def)

lemma common_le: "common xs ys \<le> length xs"
  by (induction xs ys rule: common.induct) auto

lemma get_match_length_common:
  assumes "length a = 16" "length b = 16"
  shows "unat (get_match_length a b) = common_bits a b"
proof -
  have "length (concat (map byte_bits a)) = 8 * length a" by (induction a) (simp_all add: byte_bits_def)
  then have "common_bits a b \<le> 128" using common_le [of "concat (map byte_bits a)"] assms unfolding common_bits_def by simp
  then show ?thesis using assms by (simp add: get_match_length_def match_bytes_common unat_of_nat_u8)
qed

section \<open>Source addresses\<close>

abbreviation (input) candidate :: "ds6_addr \<Rightarrow> bool" where
  "candidate a \<equiv> ad_isused a \<and> ad_state a = ADDR_PREFERRED \<and> \<not> uip_is_addr_link_local (ad_ipaddr a)"

lemma select_loop_best:
  assumes "case m of None \<Rightarrow> best = 0 | Some a \<Rightarrow> best = get_match_length dst (ad_ipaddr a)"
  shows "case select_loop dst as best m of
      None \<Rightarrow> m = None \<and> (\<forall>a \<in> set as. \<not> candidate a)
    | Some a \<Rightarrow> (m = Some a \<or> a \<in> set as \<and> candidate a) \<and> best \<le> get_match_length dst (ad_ipaddr a) \<and>
        (\<forall>b \<in> set as. candidate b \<longrightarrow> get_match_length dst (ad_ipaddr b) \<le> get_match_length dst (ad_ipaddr a))"
  using assms
proof (induction dst as best m rule: select_loop.induct)
  case (1 dst best m)
  then show ?case by (cases m) simp_all
next
  case (2 dst a as best m)
  let ?n = "get_match_length dst (ad_ipaddr a)"
  show ?case
  proof (cases "candidate a \<and> best \<le> ?n")
    case True
    then have e: "select_loop dst (a # as) best m = select_loop dst as ?n (Some a)" by (simp add: Let_def)
    show ?thesis using 2(1) True unfolding e by (auto split: option.splits dest: order_trans)
  next
    case False
    then have e: "select_loop dst (a # as) best m = select_loop dst as best m" by (auto simp: Let_def)
    have "case select_loop dst as best m of
      None \<Rightarrow> m = None \<and> (\<forall>a \<in> set as. \<not> candidate a)
    | Some a \<Rightarrow> (m = Some a \<or> a \<in> set as \<and> candidate a) \<and> best \<le> get_match_length dst (ad_ipaddr a) \<and>
        (\<forall>b \<in> set as. candidate b \<longrightarrow> get_match_length dst (ad_ipaddr b) \<le> get_match_length dst (ad_ipaddr a))"
      using 2(2,3) 2(4) False by (cases "candidate a") auto
    moreover have "m = None \<Longrightarrow> \<not> candidate a" using False 2(4) by auto
    ultimately show ?thesis unfolding e using False by (auto split: option.splits)
  qed
qed

section \<open>Groups of solicited nodes\<close>

text \<open>The used multicast entries have different addresses, as \<open>uip_ds6_maddr_add\<close> keeps them.\<close>

definition maddr_distinct :: "ds6_if \<Rightarrow> bool" where
  "maddr_distinct s \<longleftrightarrow> (\<forall>i < length (maddr_list s). \<forall>j < length (maddr_list s).
     ma_isused (maddr_list s ! i) \<and> ma_isused (maddr_list s ! j) \<and> ma_ipaddr (maddr_list s ! i) = ma_ipaddr (maddr_list s ! j) \<longrightarrow> i = j) \<and>
     (\<forall>m \<in> set (maddr_list s). length (ma_ipaddr m) = 16)"

lemma maddr_add_distinct:
  assumes "maddr_distinct s" "length a = 16"
  shows "maddr_distinct (Product_Type.snd (uip_ds6_maddr_add a s))"
proof (cases "uip_ds6_list_loop (maddr_elems (maddr_list s)) a 128")
  case (FREESPACE i)
  note f = ds6_list_free [OF FREESPACE]
  have n: "ma_isused (maddr_list s ! j) \<Longrightarrow> ma_ipaddr (maddr_list s ! j) \<noteq> a" if "j < length (maddr_list s)" for j
    using f(3) that assms by (force simp: prefixcmp_128 maddr_distinct_def all_set_conv_all_nth)
  have t: "Product_Type.snd (uip_ds6_maddr_add a s) = s\<lparr>maddr_list := (maddr_list s)[i := \<lparr>ma_isused = True, ma_ipaddr = a\<rparr>]\<rparr>"
    by (simp add: uip_ds6_maddr_add_def FREESPACE)
  show ?thesis unfolding t maddr_distinct_def
  proof (intro conjI allI impI ballI)
    fix j k
    let ?l = "(maddr_list s)[i := \<lparr>ma_isused = True, ma_ipaddr = a\<rparr>]"
    assume "j < length (maddr_list (s\<lparr>maddr_list := ?l\<rparr>))" "k < length (maddr_list (s\<lparr>maddr_list := ?l\<rparr>))"
      "ma_isused (maddr_list (s\<lparr>maddr_list := ?l\<rparr>) ! j) \<and> ma_isused (maddr_list (s\<lparr>maddr_list := ?l\<rparr>) ! k) \<and>
        ma_ipaddr (maddr_list (s\<lparr>maddr_list := ?l\<rparr>) ! j) = ma_ipaddr (maddr_list (s\<lparr>maddr_list := ?l\<rparr>) ! k)"
    then show "j = k" using n [of j] n [of k] assms(1) f(1) by (auto simp: nth_list_update_if maddr_distinct_def split: if_splits)
  next
    fix m assume "m \<in> set (maddr_list (s\<lparr>maddr_list := (maddr_list s)[i := \<lparr>ma_isused = True, ma_ipaddr = a\<rparr>]\<rparr>))"
    then have "m = \<lparr>ma_isused = True, ma_ipaddr = a\<rparr> \<or> m \<in> set (maddr_list s)" using set_update_subset_insert by fastforce
    then show "length (ma_ipaddr m) = 16" using assms by (auto simp: maddr_distinct_def)
  qed
qed (simp_all add: uip_ds6_maddr_add_def assms)

lemma maddr_distinct_cong: "maddr_list t = maddr_list s \<Longrightarrow> maddr_distinct t = maddr_distinct s"
  by (simp add: maddr_distinct_def)

lemma length_solicited_node: "length (uip_create_solicited_node a) = 16"
  by (simp add: uip_create_solicited_node_def)

lemma addr_add_distinct:
  assumes "maddr_distinct s"
  shows "maddr_distinct (Product_Type.snd (uip_ds6_addr_add now secs rnd a life ty s))"
proof (cases "uip_ds6_list_loop (addr_elems (addr_list s)) a 128")
  case (FREESPACE i)
  let ?u = "s\<lparr>addr_list := (addr_list s)[i := ds6_addr_entry now secs rnd a life ty (addr_list s ! i)]\<rparr>"
  have "maddr_distinct ?u" using assms by (simp add: maddr_distinct_def)
  from maddr_add_distinct [OF this length_solicited_node] show ?thesis
    by (simp add: uip_ds6_addr_add_def FREESPACE split: prod.splits) (metis prod.sel(2))
qed (simp_all add: uip_ds6_addr_add_def assms)

lemma prefix_add_keeps: "maddr_list (Product_Type.snd (uip_ds6_prefix_add a len adv flags v p s)) = maddr_list s"
  by (simp add: uip_ds6_prefix_add_def split: ds6_result.splits)

lemma init_distinct: "maddr_distinct (uip_ds6_init now secs rnd lladdr)"
proof -
  have "maddr_distinct (Product_Type.snd (uip_ds6_maddr_add ([0xff, 0x02] @ replicate 13 0 @ [2])
      (Product_Type.snd (uip_ds6_maddr_add ([0xff, 0x02] @ replicate 13 0 @ [1])
        (Product_Type.snd (uip_ds6_addr_add now secs rnd a life ty (Product_Type.snd (uip_ds6_prefix_add b len adv flags v p s))))))))"
    if "maddr_list s = replicate UIP_DS6_MADDR_NB \<lparr>ma_isused = False, ma_ipaddr = replicate 16 0\<rparr>" for a life ty b len adv flags v p s
    by (intro maddr_add_distinct addr_add_distinct) (use that in \<open>simp_all add: maddr_distinct_def prefix_add_keeps\<close>)
  then show ?thesis unfolding uip_ds6_init_def Let_def case_prod_unfold by simp
qed

section \<open>Theorems\<close>

text \<open>
  An address that \<open>uip_ds6_addr_add\<close> takes is found again at the entry returned, tentative, and every
  other address is found where it was, or not found, as before.
\<close>

theorem ds6_addr_added:
  assumes "uip_ds6_addr_add now secs rnd a life ty s = (Some i, t)" "length a = 16"
  shows "uip_ds6_addr_lookup a t = Some i \<and> ad_state (addr_list t ! i) = ADDR_TENTATIVE \<and> i < length (addr_list t) \<and>
    (\<forall>b. length b = 16 \<and> b \<noteq> a \<longrightarrow> uip_ds6_addr_lookup b t = uip_ds6_addr_lookup b s)"
proof -
  let ?e = "ds6_addr_entry now secs rnd a life ty (addr_list s ! i)"
  have f: "uip_ds6_list_loop (addr_elems (addr_list s)) a 128 = FREESPACE i"
    using assms(1) by (auto simp: uip_ds6_addr_add_def Let_def split: ds6_result.splits prod.splits)
  then have "t = Product_Type.snd (uip_ds6_maddr_add (uip_create_solicited_node a) (s\<lparr>addr_list := (addr_list s)[i := ?e]\<rparr>))"
    using assms(1) by (simp add: uip_ds6_addr_add_def split: prod.splits)
  then have t: "addr_list t = (addr_list s)[i := ?e]" by (simp add: maddr_add_keeps)
  have e: "ad_isused ?e" "ad_ipaddr ?e = a" "ad_state ?e = ADDR_TENTATIVE" by (simp_all add: ds6_addr_entry_def Let_def)
  have m: "addr_elems (addr_list t) = (addr_elems (addr_list s))[i := (True, a)]" using e by (simp add: t map_update)
  have "i < length (addr_list s)" using ds6_list_free(1) [OF f] by simp
  then show ?thesis using ds6_list_added [OF f assms(2)] e unfolding uip_ds6_addr_lookup_def m by (simp add: t)
qed

text \<open>An interface with a link-local and two global addresses, the last two with the same last three bytes.\<close>

definition glob1 :: "u8 list" where "glob1 = [0x20, 1, 0xd, 0xb8, 0, 0, 0, 0, 0, 0, 0, 0, 0, 1, 2, 3]"
definition glob2 :: "u8 list" where "glob2 = [0x20, 1, 0xd, 0xb8, 0, 1, 0, 0, 0, 0, 0, 0, 0, 1, 2, 3]"
definition ds6_node0 :: ds6_if where "ds6_node0 = uip_ds6_init 0 0 7 mac1"
definition ds6_node1 :: ds6_if where "ds6_node1 = Product_Type.snd (uip_ds6_addr_add 0 0 7 glob1 0 3 ds6_node0)"
definition ds6_node2 :: ds6_if where "ds6_node2 = Product_Type.snd (uip_ds6_addr_add 0 0 7 glob2 0 3 ds6_node1)"

definition ds6_all_preferred :: "ds6_if \<Rightarrow> ds6_if" where
  "ds6_all_preferred s = s\<lparr>addr_list := map (\<lambda>a. a\<lparr>ad_state := ADDR_PREFERRED\<rparr>) (addr_list s)\<rparr>"

lemma ds6_addr_added_witness: "uip_ds6_addr_lookup glob1 ds6_node1 = Some 1"
proof -
  have "fst (uip_ds6_addr_add 0 0 7 glob1 0 3 ds6_node0) = Some 1" by code_simp
  then have "uip_ds6_addr_add 0 0 7 glob1 0 3 ds6_node0 = (Some 1, ds6_node1)" by (simp add: ds6_node1_def prod_eq_iff)
  from ds6_addr_added [OF this] show ?thesis by (simp add: glob1_def)
qed

text \<open>
  C25. Source address selection: for a destination that is neither link local nor multicast, the address chosen
  is a preferred global address that has the most leading bits in common with the destination, and the
  unspecified address when there is no preferred global address.
\<close>

theorem ds6_select_src_longest:
  assumes "\<not> uip_is_addr_link_local dst" "\<not> uip_is_addr_mcast dst" "length dst = 16" "\<forall>a \<in> set (addr_list s). length (ad_ipaddr a) = 16"
  shows "if \<exists>a \<in> set (addr_list s). candidate a
    then \<exists>a \<in> set (addr_list s). candidate a \<and> uip_ds6_select_src dst s = ad_ipaddr a \<and>
      (\<forall>b \<in> set (addr_list s). candidate b \<longrightarrow> common_bits dst (ad_ipaddr b) \<le> common_bits dst (ad_ipaddr a))
    else uip_ds6_select_src dst s = replicate 16 0"
proof -
  have g: "common_bits dst (ad_ipaddr b) \<le> common_bits dst (ad_ipaddr a) \<longleftrightarrow> get_match_length dst (ad_ipaddr b) \<le> get_match_length dst (ad_ipaddr a)"
    if "a \<in> set (addr_list s)" "b \<in> set (addr_list s)" for a b
    using that assms by (simp add: word_le_nat_alt get_match_length_common)
  show ?thesis
  proof (cases "select_loop dst (addr_list s) 0 None")
    case None
    then show ?thesis using select_loop_best [where m = None and best = 0 and dst = dst and as = "addr_list s", simplified] assms
      by (auto simp: uip_ds6_select_src_def uip_create_unspecified_def)
  next
    case (Some a)
    then show ?thesis using select_loop_best [where m = None and best = 0 and dst = dst and as = "addr_list s", simplified] assms g
      by (auto simp: uip_ds6_select_src_def)
  qed
qed

lemma ds6_select_src_longest_witness:
  "\<exists>a \<in> set (addr_list (ds6_all_preferred ds6_node2)). uip_ds6_select_src (glob2[15 := 9]) (ds6_all_preferred ds6_node2) = ad_ipaddr a"
proof -
  have h: "\<not> uip_is_addr_link_local (glob2[15 := 9])" "\<not> uip_is_addr_mcast (glob2[15 := 9])" "length (glob2[15 := 9]) = 16"
    "\<forall>a \<in> set (addr_list (ds6_all_preferred ds6_node2)). length (ad_ipaddr a) = 16"
    "\<exists>a \<in> set (addr_list (ds6_all_preferred ds6_node2)). candidate a" by code_simp+
  show ?thesis using ds6_select_src_longest [OF h(1-4)] unfolding if_P [OF h(5)] by blast
qed

text \<open>
  C30. Removing an address leaves the group of its solicited node, also when another address of the interface
  has the same last three bytes and needs that group: the other address is still one of the node, but the
  packets to its group, the neighbour solicitations for it, are no longer for this node.
\<close>

theorem ds6_group_lost:
  assumes "maddr_distinct s" "i \<noteq> j" "length b = 16" "uip_ds6_addr_lookup b s = Some j" "i < length (addr_list s)"
    "uip_create_solicited_node (ad_ipaddr (addr_list s ! i)) = uip_create_solicited_node b"
  shows "uip_ds6_is_my_addr b (uip_ds6_addr_rm (Some i) s) \<and> \<not> uip_ds6_is_my_maddr (uip_create_solicited_node b) (uip_ds6_addr_rm (Some i) s)"
proof -
  let ?g = "uip_create_solicited_node b" and ?t = "uip_ds6_addr_rm (Some i) s"
  have lg: "length ?g = 16" by (simp add: uip_create_solicited_node_def)
  have a: "addr_list ?t = (addr_list s)[i := (addr_list s ! i)\<lparr>ad_isused := False\<rparr>]"
    by (simp add: uip_ds6_addr_rm_def Let_def uip_ds6_maddr_rm_def split: option.splits)
  have l: "uip_ds6_list_loop (addr_elems (addr_list s)) b 128 = FOUND j"
    using assms(4) by (simp add: uip_ds6_addr_lookup_def found_at_some)
  have "uip_ds6_list_loop (addr_elems (addr_list ?t)) b 128 = FOUND j"
    using l assms(2) unfolding a by (auto simp: ds6_list_found nth_list_update_if)
  moreover have "uip_ds6_maddr_lookup ?g ?t \<noteq> Some k" for k
  proof
    assume "uip_ds6_maddr_lookup ?g ?t = Some k"
    then have k: "k < length (maddr_list ?t)" "ma_isused (maddr_list ?t ! k)" "take 16 (ma_ipaddr (maddr_list ?t ! k)) = ?g"
      using lg by (auto simp: uip_ds6_maddr_lookup_def found_at_some ds6_list_found uip_ipaddr_prefixcmp_def)
    have m: "maddr_list ?t = (case uip_ds6_maddr_lookup ?g s of None \<Rightarrow> maddr_list s
        | Some n \<Rightarrow> (maddr_list s)[n := (maddr_list s ! n)\<lparr>ma_isused := False\<rparr>])"
      by (simp add: uip_ds6_addr_rm_def Let_def uip_ds6_maddr_rm_def assms(6) split: option.splits)
    have u: "k < length (maddr_list s)" "ma_isused (maddr_list s ! k)" "ma_ipaddr (maddr_list s ! k) = ?g"
      using k assms(1) unfolding m by (auto simp: nth_list_update_if maddr_distinct_def split: option.splits if_splits)
    show False
    proof (cases "uip_ds6_maddr_lookup ?g s")
      case None
      have "(True, ?g) = maddr_elems (maddr_list s) ! k" "k < length (maddr_elems (maddr_list s))" using u by simp_all
      then have "(True, ?g) \<in> set (maddr_elems (maddr_list s))" by (metis nth_mem)
      then have hit: "\<exists>e \<in> set (maddr_elems (maddr_list s)). elem_hit ?g 128 e" using lg by (force simp: prefixcmp_128)
      have "uip_ds6_list_loop (maddr_elems (maddr_list s)) ?g 128 \<noteq> FREESPACE n" for n
        using ds6_list_free(3) [of "maddr_elems (maddr_list s)" ?g 128 n] hit by blast
      moreover have "uip_ds6_list_loop (maddr_elems (maddr_list s)) ?g 128 \<noteq> NOSPACE"
        using ds6_loop_none [of "maddr_elems (maddr_list s)" 0 ?g 128 None] hit unfolding uip_ds6_list_loop_def by blast
      ultimately show False using None by (auto simp: uip_ds6_maddr_lookup_def split: ds6_result.splits)
    next
      case (Some n)
      then have "n < length (maddr_list s)" "ma_isused (maddr_list s ! n)" "take 16 (ma_ipaddr (maddr_list s ! n)) = ?g"
        using lg by (auto simp: uip_ds6_maddr_lookup_def found_at_some ds6_list_found uip_ipaddr_prefixcmp_def)
      then have "k = n" using u assms(1) by (auto simp: maddr_distinct_def)
      then show False using k(1,2) Some unfolding m by (simp add: nth_list_update_if)
    qed
  qed
  ultimately show ?thesis by (simp add: uip_ds6_is_my_addr_def uip_ds6_is_my_maddr_def uip_ds6_addr_lookup_def)
qed

lemma ds6_group_lost_witness: "\<not> uip_ds6_is_my_maddr (uip_create_solicited_node glob2) (uip_ds6_addr_rm (Some 1) ds6_node2)"
proof -
  have d: "maddr_distinct ds6_node2"
    unfolding ds6_node2_def ds6_node1_def ds6_node0_def by (intro addr_add_distinct init_distinct)
  have h: "(1 :: nat) \<noteq> 0" "length glob2 = 16" "uip_ds6_addr_lookup glob2 ds6_node2 = Some 0"
    "1 < length (addr_list ds6_node2)" "uip_create_solicited_node (ad_ipaddr (addr_list ds6_node2 ! 1)) = uip_create_solicited_node glob2"
    by code_simp+
  show ?thesis using ds6_group_lost [OF d h] by simp
qed

end
