(* ===== verification/UipBase.thy ===== *)
theory UipBase
  imports UipDs6
begin

text \<open>
  The state of the IP stack (\<open>core/net/uip6.c\<close>), its packet buffer and its checksums, and the ICMPv6
  messages it sends (\<open>core/net/uip-icmp6.c\<close>). The options are those of \<open>contiki-conf.h\<close>: no header of the
  link layer, 400 bytes of \<open>uip_buf\<close>, checks and checksums on, no reassembly.

  Pointers into \<open>uip_buf\<close> are offsets. Accesses at fixed offsets are within the buffer and written as such;
  where the offset or the length comes from the packet, an access outside of the buffer fails. A
  \<open>uint16_t\<close> of a header is the little-endian value the processor reads.
\<close>

section \<open>State\<close>

record uip_conn =
  c_ripaddr :: "u8 list"
  c_lport :: u16
  c_rport :: u16
  c_rcv_nxt :: "u8 list"
  c_snd_nxt :: "u8 list"
  c_len :: u16
  c_mss :: u16
  c_initialmss :: u16
  c_sa :: u8
  c_sv :: u8
  c_rto :: u8
  c_tcpstateflags :: u8
  c_timer :: u8
  c_nrtx :: u8

record uip_udp_conn =
  u_ripaddr :: "u8 list"
  u_lport :: u16
  u_rport :: u16
  u_ttl :: u8

record 'a uip =
  uip_buf :: "u8 list"
  uip_len :: u16
  uip_slen :: u16
  uip_flags :: u8
  uip_appdata :: nat
  uip_sappdata :: nat
  uip_ext_len :: u8
  uip_ext_bitmap :: u8
  uip_conns :: "uip_conn list"
  uip_conn :: "nat option"
  uip_listenports :: "u16 list"
  uip_udp_conns :: "uip_udp_conn list"
  uip_udp_conn :: nat
  iss :: "u8 list"
  lastport :: u16
  netif :: ds6_if
  app :: 'a

text \<open>What other parts do when they are called: the applications, neighbour discovery and RPL.\<close>

record 'a hooks =
  UIP_APPCALL :: "'a uip \<Rightarrow> 'a uip"
  UIP_UDP_APPCALL :: "'a uip \<Rightarrow> 'a uip"
  uip_nd6_ns_input :: "'a uip \<Rightarrow> 'a uip"
  uip_nd6_na_input :: "'a uip \<Rightarrow> 'a uip"
  uip_rpl_input :: "'a uip \<Rightarrow> 'a uip"
  rpl_verify_header :: "nat \<Rightarrow> 'a uip \<Rightarrow> bool \<times> 'a uip"
  rpl_update_header_empty :: "'a uip \<Rightarrow> 'a uip"
  rpl_insert_header :: "'a uip \<Rightarrow> 'a uip"
  rpl_invert_header :: "'a uip \<Rightarrow> u8 \<times> 'a uip"

definition UIP_BUFSIZE :: nat where "UIP_BUFSIZE = 400"
definition UIP_CONNS :: nat where "UIP_CONNS = 8"
definition UIP_LISTENPORTS :: nat where "UIP_LISTENPORTS = 16"
definition UIP_UDP_CONNS :: nat where "UIP_UDP_CONNS = 8"
definition UIP_LINK_MTU :: u16 where "UIP_LINK_MTU = 1280"
definition UIP_TCP_MSS :: u16 where "UIP_TCP_MSS = 340"

abbreviation (input) UIP_PROTO_ICMP6 :: u8 where "UIP_PROTO_ICMP6 \<equiv> 58"

section \<open>The buffer\<close>

definition get_u16 :: "nat \<Rightarrow> u8 list \<Rightarrow> u16" where
  "get_u16 i b = ucast (b ! i) OR push_bit 8 (ucast (b ! (i + 1)))"

definition u16_bytes :: "u16 \<Rightarrow> u8 list" where
  "u16_bytes v = [ucast v, ucast (drop_bit 8 v)]"

definition put :: "nat \<Rightarrow> u8 list \<Rightarrow> 'a uip \<Rightarrow> 'a uip" where
  "put i bs s = s\<lparr>uip_buf := write_at i bs (uip_buf s)\<rparr>"

definition uip_htons :: "u16 \<Rightarrow> u16" where
  "uip_htons v = push_bit 8 v OR drop_bit 8 v"

definition uip_htonl :: "u32 \<Rightarrow> u8 list" where
  "uip_htonl v = [ucast (drop_bit 24 v), ucast (drop_bit 16 v), ucast (drop_bit 8 v), ucast v]"

definition mem_move :: "nat \<Rightarrow> nat \<Rightarrow> nat \<Rightarrow> u8 list \<Rightarrow> u8 list option" where
  "mem_move d e n b = (if d + n \<le> length b \<and> e + n \<le> length b then Some (write_at d (read_at e n b) b) else None)"

text \<open>The length field of the IP header, from \<open>uip_len\<close>.\<close>

definition put_ip_len :: "'a uip \<Rightarrow> 'a uip" where
  "put_ip_len s = put 4 (be16_bytes (uip_len s - 40)) s"

section \<open>Checksums\<close>

definition chksum_add :: "u16 \<Rightarrow> u16 \<Rightarrow> u16" where
  "chksum_add acc t = (let s = acc + t in if s < t then s + 1 else s)"

fun chksum :: "u16 \<Rightarrow> u8 list \<Rightarrow> u16" where
  "chksum acc (a # b # data) = chksum (chksum_add acc (push_bit 8 (ucast a) + ucast b)) data"
| "chksum acc [a] = chksum_add acc (push_bit 8 (ucast a))"
| "chksum acc [] = acc"

definition uip_chksum :: "u8 list \<Rightarrow> u16" where
  "uip_chksum data = uip_htons (chksum 0 data)"

definition upper_layer_len :: "'a uip \<Rightarrow> u16" where
  "upper_layer_len s = push_bit 8 (ucast (uip_buf s ! 4)) + ucast (uip_buf s ! 5) - ucast (uip_ext_len s)"

definition upper_layer_chksum :: "u8 \<Rightarrow> 'a uip \<Rightarrow> u16 option" where
  "upper_layer_chksum proto s = do {
     bs \<leftarrow> bytes_at (40 + unat (uip_ext_len s)) (unat (upper_layer_len s)) (uip_buf s);
     let acc = chksum (chksum (upper_layer_len s + ucast proto) (read_at 8 32 (uip_buf s))) bs;
     Some (if acc = 0 then 0xffff else uip_htons acc)
   }"

definition uip_icmp6chksum :: "'a uip \<Rightarrow> u16 option" where
  "uip_icmp6chksum = upper_layer_chksum UIP_PROTO_ICMP6"

definition uip_tcpchksum :: "'a uip \<Rightarrow> u16 option" where
  "uip_tcpchksum = upper_layer_chksum UIP_PROTO_TCP"

definition uip_udpchksum :: "'a uip \<Rightarrow> u16 option" where
  "uip_udpchksum = upper_layer_chksum UIP_PROTO_UDP"

section \<open>Extension headers before TCP and UDP\<close>

definition remove_ext_hdr :: "'a uip \<Rightarrow> 'a uip option" where
  "remove_ext_hdr s =
     (if uip_ext_len s > 0 then
        if uint (uip_len s) < 40 + uint (uip_ext_len s) then Some (s\<lparr>uip_ext_len := 0, uip_len := 0\<rparr>)
        else do {
          let e = unat (uip_ext_len s);
          b \<leftarrow> mem_move 40 (40 + e) (unat (uip_len s) - 40 - e) (uip_buf s);
          Some ((put_ip_len (s\<lparr>uip_buf := b, uip_len := uip_len s - ucast (uip_ext_len s)\<rparr>))\<lparr>uip_ext_len := 0\<rparr>)
        }
      else Some s)"

section \<open>ICMPv6\<close>

definition icmp6_chksum_put :: "'a uip \<Rightarrow> 'a uip option" where
  "icmp6_chksum_put s = do {
     let i = 42 + unat (uip_ext_len s);
     let s1 = put i [0, 0] s;
     c \<leftarrow> uip_icmp6chksum s1;
     Some (put i (u16_bytes (NOT c)) s1)
   }"

definition uip_icmp6_echo_request_input :: "'a hooks \<Rightarrow> 'a uip \<Rightarrow> 'a uip option" where
  "uip_icmp6_echo_request_input h s = do {
     let b = uip_buf s;
     let s1 = put 7 [cur_hop_limit (netif s)] s;
     let s2 = (if uip_is_addr_mcast (ip_dst b) then put 8 (uip_ds6_select_src (ip_src b) (netif s)) (put 24 (ip_src b) s1)
               else put 24 (ip_src b) (put 8 (ip_dst b) s1));
     s3 \<leftarrow> (if uip_ext_len s2 > 0 then
              let (temp, s3) = rpl_invert_header h s2; e = uip_ext_len s3 in
              if temp \<noteq> 0 then
                let s4 = put 40 [UIP_PROTO_ICMP6] s3 in
                if e \<noteq> temp then do {
                  let s5 = put_ip_len (s4\<lparr>uip_len := uip_len s4 - (ucast e - ucast temp)\<rparr>);
                  let n = int (unat (uip_len s5)) - 40 - int (unat temp) - 4;
                  if n < 0 then None
                  else map_option (\<lambda>b. s5\<lparr>uip_buf := b, uip_ext_len := temp\<rparr>) (mem_move (44 + unat temp) (44 + unat e) (nat n) (uip_buf s5))
                } else Some (s4\<lparr>uip_ext_len := temp\<rparr>)
              else do {
                let s5 = put_ip_len ((put 6 [UIP_PROTO_ICMP6] s3)\<lparr>uip_len := uip_len s3 - ucast e\<rparr>);
                let n = int (unat (uip_len s5)) - 40 - 4;
                if n < 0 then None
                else map_option (\<lambda>b. s5\<lparr>uip_buf := b, uip_ext_len := 0\<rparr>) (mem_move 44 (44 + unat e) (nat n) (uip_buf s5))
              }
            else Some s2);
     icmp6_chksum_put (put (40 + unat (uip_ext_len s3)) [129, 0] s3)
   }"

text \<open>
  \<open>UIP_EXT_BUF\<close> and \<open>UIP_ICMP_BUF\<close> are at the same place, so with extension headers the test for an ICMP
  error compares one byte with both.
\<close>

definition uip_icmp6_error_output :: "'a hooks \<Rightarrow> u8 \<Rightarrow> u8 \<Rightarrow> u32 \<Rightarrow> 'a uip \<Rightarrow> 'a uip option" where
  "uip_icmp6_error_output h type code param s =
     (let b = uip_buf s; e0 = unat (uip_ext_len s) in
      if (if uip_ext_len s \<noteq> 0 then b ! (40 + e0) = UIP_PROTO_ICMP6 \<and> b ! (40 + e0) < 128
          else b ! 6 = UIP_PROTO_ICMP6 \<and> b ! 40 < 128) then Some (s\<lparr>uip_len := 0\<rparr>)
      else do {
        let (e, s1) = rpl_invert_header h s;
        let tmp = ip_dst (uip_buf s1);
        let len = (if uip_len s1 + 48 > UIP_LINK_MTU then UIP_LINK_MTU else uip_len s1 + 48);
        let s2 = s1\<lparr>uip_ext_len := e, uip_len := len\<rparr>;
        let n = int (unat len) - 44 - int (unat e) - 4;
        b1 \<leftarrow> (if n < 0 then None else mem_move (48 + 2 * unat e) 0 (nat n) (uip_buf s2));
        let s3 = put 0 [0x60, 0, 0, 0] (s2\<lparr>uip_buf := b1\<rparr>);
        let s4 = (if e \<noteq> 0 then put 40 [UIP_PROTO_ICMP6] s3 else put 6 [UIP_PROTO_ICMP6] s3);
        let s5 = put 7 [cur_hop_limit (netif s)] s4;
        if uip_is_addr_unspecified (ip_src (uip_buf s5)) then Some (s5\<lparr>uip_len := 0\<rparr>)
        else do {
          let s6 = put 24 (ip_src (uip_buf s5)) s5;
          if uip_is_addr_mcast tmp \<and> \<not> (type = 4 \<and> code = 2) then Some (s6\<lparr>uip_len := 0\<rparr>)
          else do {
            let s7 = put 8 (uip_ds6_select_src tmp (netif s)) s6;
            let s8 = put (44 + unat e) (uip_htonl param) (put (40 + unat e) [type, code] s7);
            icmp6_chksum_put (put_ip_len s8)
          }
        }
      })"

definition uip_icmp6_send :: "u8 list \<Rightarrow> u8 \<Rightarrow> u8 \<Rightarrow> u16 \<Rightarrow> 'a uip \<Rightarrow> 'a uip option" where
  "uip_icmp6_send dest type code payload_len s = do {
     let s1 = put 0 ([0x60, 0, 0, 0] @ be16_bytes (payload_len + 4) @ [UIP_PROTO_ICMP6, cur_hop_limit (netif s)]) s;
     let s2 = put 8 (uip_ds6_select_src dest (netif s)) (put 24 dest s1);
     s3 \<leftarrow> icmp6_chksum_put (put (40 + unat (uip_ext_len s)) [type, code] s2);
     Some (s3\<lparr>uip_len := 44 + payload_len\<rparr>)
   }"

section \<open>Checksums as sums modulo 65535\<close>

fun word_sum :: "u8 list \<Rightarrow> int" where
  "word_sum (a # b # data) = 256 * uint a + uint b + word_sum data"
| "word_sum [a] = 256 * uint a"
| "word_sum [] = 0"

lemma word_sum_nonneg: "0 \<le> word_sum bs"
  by (induction bs rule: word_sum.induct) simp_all

lemma uint_be16: "uint (push_bit 8 (ucast (a :: u8)) + ucast (b :: u8) :: u16) = 256 * uint a + uint b"
proof -
  have "uint (push_bit 8 (ucast a) :: u16) = 256 * uint a"
  proof -
    have "uint (push_bit 8 (ucast a) :: u16) = take_bit 16 (push_bit 8 (uint (ucast a :: u16)))" by (simp add: unsigned_push_bit_eq)
    also have "\<dots> = 256 * uint a" using uint_lt2p [of a] by (simp add: unsigned_ucast_eq take_bit_eq_mod push_bit_eq_mult)
    finally show ?thesis .
  qed
  moreover have "uint (ucast b :: u16) = uint b" using uint_lt2p [of b] by (simp add: unsigned_ucast_eq take_bit_eq_mod)
  moreover have "256 * uint a + uint b < 65536" using uint_lt2p [of a] uint_lt2p [of b] by simp
  ultimately show ?thesis by (simp add: uint_word_ariths)
qed

lemma chksum_add_mod: "uint (chksum_add a t) mod 65535 = (uint a + uint t) mod 65535"
  and chksum_add_0: "chksum_add a t = 0 \<longleftrightarrow> a = 0 \<and> t = 0"
proof -
  have l: "uint a < 65536" "uint t < 65536" "0 \<le> uint a" "0 \<le> uint t" using uint_lt2p [of a] uint_lt2p [of t] by simp_all
  have s: "uint (a + t) = (uint a + uint t) mod 65536" by (simp add: uint_word_ariths)
  have c: "uint (chksum_add a t) = (if uint a + uint t < 65536 then uint a + uint t else uint a + uint t - 65535)"
  proof (cases "uint a + uint t < 65536")
    case True
    then have "uint (a + t) = uint a + uint t" using s l by simp
    moreover have "\<not> a + t < t" unfolding word_less_def using calculation l by linarith
    ultimately show ?thesis unfolding chksum_add_def Let_def if_P [OF True] by simp
  next
    case False
    have "(uint a + uint t) mod 65536 = (uint a + uint t - 65536) mod 65536" by (rule minus_mod_self2 [symmetric])
    also have "\<dots> = uint a + uint t - 65536" by (rule mod_pos_pos_trivial) (use l False in linarith)+
    finally have u: "uint (a + t) = uint a + uint t - 65536" using s by simp
    have "uint (a + t + 1) = (uint (a + t) + 1) mod 65536" by (simp only: uint_word_ariths) simp
    also have "\<dots> = uint a + uint t - 65535" unfolding u by (subst mod_pos_pos_trivial) (use l False in linarith)+
    finally have "uint (a + t + 1) = uint a + uint t - 65535" .
    moreover have "a + t < t" unfolding word_less_def using u l False by linarith
    ultimately show ?thesis unfolding chksum_add_def Let_def if_not_P [OF False] by simp
  qed
  show "uint (chksum_add a t) mod 65535 = (uint a + uint t) mod 65535"
  proof (cases "uint a + uint t < 65536")
    case False
    show ?thesis unfolding c if_not_P [OF False] by (rule minus_mod_self2)
  qed (simp only: c if_True)
  have "chksum_add a t = 0 \<longleftrightarrow> uint (chksum_add a t) = 0" by (rule uint_0_iff [symmetric])
  also have "\<dots> \<longleftrightarrow> uint a = 0 \<and> uint t = 0" unfolding c using l by (cases "uint a + uint t < 65536") (simp_all only: if_True if_False, linarith+)
  finally show "chksum_add a t = 0 \<longleftrightarrow> a = 0 \<and> t = 0" by (simp only: uint_0_iff)
qed

lemma uint_high: "uint (push_bit 8 (ucast (a :: u8)) :: u16) = 256 * uint a"
  using uint_be16 [of a 0] by simp

lemma chksum_mod: "uint (chksum a bs) mod 65535 = (uint a + word_sum bs) mod 65535"
proof (induction a bs rule: chksum.induct)
  case (1 acc a b data)
  have "uint (chksum acc (a # b # data)) mod 65535 = (uint (chksum_add acc (push_bit 8 (ucast a) + ucast b)) + word_sum data) mod 65535"
    using 1 by simp
  also have "\<dots> = ((uint acc + (256 * uint a + uint b)) + word_sum data) mod 65535"
    by (metis chksum_add_mod mod_add_left_eq uint_be16)
  finally show ?case by (simp add: algebra_simps)
qed (simp_all add: chksum_add_mod uint_high)

lemma be16_zero: "push_bit 8 (ucast (a :: u8)) + ucast (b :: u8) = (0 :: u16) \<longleftrightarrow> a = 0 \<and> b = 0"
proof -
  have "push_bit 8 (ucast a) + ucast b = (0 :: u16) \<longleftrightarrow> uint (push_bit 8 (ucast a) + ucast b :: u16) = 0" by (rule uint_0_iff [symmetric])
  also have "\<dots> \<longleftrightarrow> uint a = 0 \<and> uint b = 0" unfolding uint_be16 using uint_ge_0 [of a] uint_ge_0 [of b] by linarith
  also have "\<dots> \<longleftrightarrow> a = 0 \<and> b = 0" by (simp only: uint_0_iff)
  finally show ?thesis .
qed

lemma chksum_0: "chksum a bs = 0 \<longleftrightarrow> a = 0 \<and> word_sum bs = 0"
proof (induction a bs rule: chksum.induct)
  case (1 acc a b data)
  have "256 * uint a + uint b + word_sum data = 0 \<longleftrightarrow> (a = 0 \<and> b = 0) \<and> word_sum data = 0"
    unfolding uint_0_iff [symmetric] using word_sum_nonneg [of data] uint_ge_0 [of a] uint_ge_0 [of b] by linarith
  then show ?case using 1 by (simp add: chksum_add_0 be16_zero conj_assoc)
next
  case (2 acc a)
  show ?case using be16_zero [of a 0] by (simp add: chksum_add_0 uint_0_iff)
qed simp

lemma word_sum_append: "even (length as) \<Longrightarrow> word_sum (as @ bs) = word_sum as + word_sum bs"
  by (induction as rule: word_sum.induct) simp_all

text \<open>Congruent to 0 and not 0: all ones.\<close>

lemma chksum_ones:
  assumes "(uint a + word_sum bs) mod 65535 = 0"
  shows "chksum a bs = 0xffff \<or> chksum a bs = 0"
proof -
  have "uint (chksum a bs) mod 65535 = 0" by (simp only: chksum_mod assms)
  then obtain q where q: "uint (chksum a bs) = 65535 * q" by (auto simp: mod_eq_0_iff_dvd dvd_def)
  moreover have "0 \<le> uint (chksum a bs)" "uint (chksum a bs) < 65536" using uint_lt2p [of "chksum a bs"] by simp_all
  ultimately have "q = 0 \<or> q = 1" by linarith
  then have "uint (chksum a bs) = uint (0 :: u16) \<or> uint (chksum a bs) = uint (0xffff :: u16)" using q by auto
  then show ?thesis by (elim disjE) (drule word_uint_eqI, simp)+
qed

lemma word_sum_field:
  assumes "even k" "k + 2 \<le> length bs" "length v = 2"
  shows "word_sum (write_at k v bs) = word_sum (write_at k [0, 0] bs) + word_sum v"
proof -
  obtain a b where v: "v = [a, b]" using assms(3) by (auto simp: length_Suc_conv numeral_2_eq_2)
  have "length (take k bs) = k" using assms(2) by simp
  then show ?thesis unfolding write_at_def v using assms(1) by (simp add: word_sum_append)
qed

lemma u16_bytes_htons: "u16_bytes (NOT (uip_htons w)) = be16_bytes (NOT w)"
proof -
  have "ucast (NOT (uip_htons w)) = (ucast (drop_bit 8 (NOT w)) :: u8)"
    by (rule bit_word_eqI) (auto simp: uip_htons_def bit_simps)
  moreover have "ucast (drop_bit 8 (NOT (uip_htons w))) = (ucast (NOT w) :: u8)"
    by (rule bit_word_eqI) (auto simp: uip_htons_def bit_simps dest: bit_imp_le_length)
  ultimately show ?thesis by (simp add: u16_bytes_def be16_bytes_def)
qed

lemma uip_htons_htons: "uip_htons (uip_htons w) = w"
  by (rule bit_word_eqI) (auto simp: uip_htons_def bit_simps dest: bit_imp_le_length)

lemma uint_not_u16: "uint (NOT (w :: u16)) = 65535 - uint w"
  using uint_lt2p [of w] by (simp add: unsigned_not_eq take_bit_not_eq_mask_diff take_bit_int_eq_self mask_eq_exp_minus_1)

lemma be16_of_add: "be16_of [a, b] = push_bit 8 (ucast a) + ucast b"
proof -
  have "push_bit 8 (ucast a) AND ucast b = (0 :: u16)" by (rule bit_word_eqI) (auto simp: bit_simps dest: bit_imp_le_length)
  then show ?thesis by (simp add: be16_of_def disjunctive_add_eq_or)
qed

lemma word_sum_be16: "word_sum (be16_bytes w) = uint w"
proof -
  have "uint (be16_of (be16_bytes w)) = word_sum (be16_bytes w)"
    unfolding be16_bytes_def be16_of_add by (simp add: uint_be16)
  then show ?thesis by (simp only: be16_of_bytes)
qed

lemma upper_layer_len_put: "40 \<le> i \<Longrightarrow> i + length bs \<le> length (uip_buf s) \<Longrightarrow> upper_layer_len (put i bs s) = upper_layer_len s"
  by (simp add: upper_layer_len_def put_def write_at_def nth_append)

text \<open>The sum of the checksum: the pseudo header and the bytes from \<open>40 + uip_ext_len\<close>.\<close>

definition pseudo_sum :: "u8 \<Rightarrow> 'a uip \<Rightarrow> int" where
  "pseudo_sum proto s = uint (upper_layer_len s + ucast proto) + word_sum (read_at 8 32 (uip_buf s))"

definition covered :: "'a uip \<Rightarrow> u8 list" where
  "covered s = read_at (40 + unat (uip_ext_len s)) (unat (upper_layer_len s)) (uip_buf s)"

definition in_buf :: "'a uip \<Rightarrow> bool" where
  "in_buf s \<longleftrightarrow> 40 + unat (uip_ext_len s) + unat (upper_layer_len s) \<le> length (uip_buf s)"

lemma word_sum_read_32: "40 \<le> length b \<Longrightarrow> word_sum (read_at 8 32 b) \<ge> 0" by (rule word_sum_nonneg)

lemma upper_layer_chksum_acc:
  assumes "in_buf s"
  obtains acc where "upper_layer_chksum proto s = Some (if acc = 0 then 0xffff else uip_htons acc)"
    "uint acc mod 65535 = (pseudo_sum proto s + word_sum (covered s)) mod 65535"
    "acc = chksum (chksum (upper_layer_len s + ucast proto) (read_at 8 32 (uip_buf s))) (covered s)"
proof -
  let ?acc = "chksum (chksum (upper_layer_len s + ucast proto) (read_at 8 32 (uip_buf s))) (covered s)"
  have "upper_layer_chksum proto s = Some (if ?acc = 0 then 0xffff else uip_htons ?acc)"
    using assms unfolding upper_layer_chksum_def in_buf_def covered_def by (simp add: bytes_at_def Let_def)
  moreover have "uint ?acc mod 65535 = (pseudo_sum proto s + word_sum (covered s)) mod 65535"
    unfolding pseudo_sum_def by (metis chksum_mod mod_add_left_eq)
  ultimately show ?thesis using that by blast
qed

text \<open>A sum that is congruent to 0 is accepted.\<close>

lemma upper_layer_chksum_good:
  assumes "in_buf s" "(pseudo_sum proto s + word_sum (covered s)) mod 65535 = 0"
  shows "upper_layer_chksum proto s = Some 0xffff"
proof -
  obtain acc where a: "upper_layer_chksum proto s = Some (if acc = 0 then 0xffff else uip_htons acc)"
    "uint acc mod 65535 = (pseudo_sum proto s + word_sum (covered s)) mod 65535"
    by (rule upper_layer_chksum_acc [OF assms(1)])
  have "acc = 0xffff \<or> acc = 0" using chksum_ones [of acc "[]"] a(2) assms(2) by simp
  then show ?thesis using a(1) by (elim disjE) (simp_all add: uip_htons_def)
qed

lemma read_write_within:
  assumes "d \<le> i" "i + length bs \<le> d + n" "d + n \<le> length b"
  shows "read_at d n (write_at i bs b) = write_at (i - d) bs (read_at d n b)"
proof -
  have "take i b = take d b @ take (i - d) (drop d b)" using append_take_drop_id [of d "take i b"] assms by (simp add: take_drop min_def)
  then have "read_at d n (write_at i bs b) = take n (take (i - d) (drop d b) @ bs @ drop (i + length bs) b)"
    using assms by (simp add: read_at_def write_at_def)
  also have "\<dots> = take (i - d) (drop d b) @ bs @ take (n - (i - d) - length bs) (drop (i + length bs) b)"
    using assms by simp
  also have "take (n - (i - d) - length bs) (drop (i + length bs) b) = drop (i - d + length bs) (take n (drop d b))"
    using assms by (simp add: drop_take)
  finally show ?thesis using assms by (simp add: read_at_def write_at_def min_def)
qed

lemma covered_put:
  assumes "in_buf s" "40 + unat (uip_ext_len s) \<le> i" "i + length bs \<le> 40 + unat (uip_ext_len s) + unat (upper_layer_len s)"
  shows "covered (put i bs s) = write_at (i - (40 + unat (uip_ext_len s))) bs (covered s)"
    "pseudo_sum proto (put i bs s) = pseudo_sum proto s" "in_buf (put i bs s)"
proof -
  have l: "upper_layer_len (put i bs s) = upper_layer_len s"
    using assms by (intro upper_layer_len_put) (simp_all add: in_buf_def)
  have r: "read_at 8 32 (uip_buf (put i bs s)) = read_at 8 32 (uip_buf s)"
    unfolding put_def using assms by (simp add: read_write_before in_buf_def)
  show "pseudo_sum proto (put i bs s) = pseudo_sum proto s" unfolding pseudo_sum_def l r ..
  show "in_buf (put i bs s)" using assms unfolding in_buf_def l by (simp add: put_def)
  show "covered (put i bs s) = write_at (i - (40 + unat (uip_ext_len s))) bs (covered s)"
    unfolding covered_def l using assms read_write_within [of "40 + unat (uip_ext_len s)" i bs "unat (upper_layer_len s)" "uip_buf s"]
    by (simp add: put_def in_buf_def)
qed

lemma length_covered: "in_buf s \<Longrightarrow> length (covered s) = unat (upper_layer_len s)"
  by (simp add: covered_def in_buf_def)

text \<open>What a sender writes is accepted: the complement of the sum over the field filled with 0.\<close>

lemma chksum_field:
  assumes b: "in_buf s" and i: "40 + unat (uip_ext_len s) \<le> i" "i + 2 \<le> 40 + unat (uip_ext_len s) + unat (upper_layer_len s)"
    and e: "even (i - (40 + unat (uip_ext_len s)))" and c: "upper_layer_chksum proto (put i [0, 0] s) = Some c"
    and v: "v = NOT c \<or> NOT c = 0 \<and> v = 0xffff"
  shows "upper_layer_chksum proto (put i (u16_bytes v) s) = Some 0xffff"
proof -
  let ?k = "i - (40 + unat (uip_ext_len s))" and ?s0 = "put i [0, 0] s" and ?s1 = "put i (u16_bytes v) s"
  have z: "in_buf ?s0" "pseudo_sum proto ?s0 = pseudo_sum proto s" "covered ?s0 = write_at ?k [0, 0] (covered s)"
    using covered_put [of s i "[0, 0]"] b i by simp_all
  have o: "in_buf ?s1" "pseudo_sum proto ?s1 = pseudo_sum proto s" "covered ?s1 = write_at ?k (u16_bytes v) (covered s)"
    using covered_put [of s i "u16_bytes v"] b i by (simp_all add: u16_bytes_def)
  obtain acc where a: "Some c = Some (if acc = 0 then 0xffff else uip_htons acc)"
    "uint acc mod 65535 = (pseudo_sum proto ?s0 + word_sum (covered ?s0)) mod 65535"
    using upper_layer_chksum_acc [OF z(1), of proto] unfolding c by metis
  have w: "word_sum (covered ?s1) = word_sum (covered ?s0) + word_sum (u16_bytes v)"
    unfolding z(3) o(3) using b i e by (intro word_sum_field) (simp_all add: length_covered u16_bytes_def)
  have "(uint acc + word_sum (u16_bytes v)) mod 65535 = 0"
  proof (cases "acc = 0")
    case True
    then have "v = 0 \<or> v = 0xffff" using a(1) v by auto
    then show ?thesis using True by (elim disjE) (simp_all add: u16_bytes_def)
  next
    case False
    then have h: "c = uip_htons acc" using a(1) by simp
    show ?thesis
    proof (cases "v = NOT c")
      case True
      have "word_sum (u16_bytes v) = uint (NOT acc)" unfolding True h u16_bytes_htons by (rule word_sum_be16)
      also have "\<dots> = 65535 - uint acc" by (simp add: uint_not_u16)
      finally show ?thesis by simp
    next
      case False
      then have n: "NOT c = 0" "v = 0xffff" using v by auto
      have "acc = uip_htons (uip_htons acc)" by (rule uip_htons_htons [symmetric])
      also have "\<dots> = uip_htons (NOT (NOT c))" by (simp add: h)
      also have "\<dots> = 0xffff" unfolding n(1) by (simp add: uip_htons_def)
      finally have "acc = 0xffff" .
      then show ?thesis unfolding n(2) by (simp add: u16_bytes_def)
    qed
  qed
  then have "(pseudo_sum proto ?s1 + word_sum (covered ?s1)) mod 65535 = 0"
    unfolding w o(2) using a(2) z(2) by (metis add.assoc mod_add_left_eq)
  then show ?thesis by (rule upper_layer_chksum_good [OF o(1)])
qed

end
