(* ===== verification/UipTcp.thy ===== *)
theory UipTcp
  imports UipBase
begin

text \<open>
  TCP (\<open>core/net/uip6.c\<close>): connections, the parts of \<open>uip_process\<close> that belong to TCP, one definition per
  label of the code. A definition whose label is reached by \<open>goto\<close> is called in its place; \<open>i\<close> is the index
  of \<open>uip_connr\<close>. The application is called through \<open>UIP_APPCALL\<close> of the hooks, on the state.
\<close>

abbreviation (input) TCP_FIN :: u8 where "TCP_FIN \<equiv> 0x01"
abbreviation (input) TCP_SYN :: u8 where "TCP_SYN \<equiv> 0x02"
abbreviation (input) TCP_RST :: u8 where "TCP_RST \<equiv> 0x04"
abbreviation (input) TCP_ACK :: u8 where "TCP_ACK \<equiv> 0x10"
abbreviation (input) TCP_URG :: u8 where "TCP_URG \<equiv> 0x20"
abbreviation (input) TCP_CTL :: u8 where "TCP_CTL \<equiv> 0x3f"

abbreviation (input) UIP_ACKDATA :: u8 where "UIP_ACKDATA \<equiv> 1"
abbreviation (input) UIP_NEWDATA :: u8 where "UIP_NEWDATA \<equiv> 2"
abbreviation (input) UIP_REXMIT :: u8 where "UIP_REXMIT \<equiv> 4"
abbreviation (input) UIP_POLL :: u8 where "UIP_POLL \<equiv> 8"
abbreviation (input) UIP_CLOSE :: u8 where "UIP_CLOSE \<equiv> 16"
abbreviation (input) UIP_ABORT :: u8 where "UIP_ABORT \<equiv> 32"
abbreviation (input) UIP_CONNECTED :: u8 where "UIP_CONNECTED \<equiv> 64"
abbreviation (input) UIP_TIMEDOUT :: u8 where "UIP_TIMEDOUT \<equiv> 128"

abbreviation (input) UIP_CLOSED :: u8 where "UIP_CLOSED \<equiv> 0"
abbreviation (input) UIP_SYN_RCVD :: u8 where "UIP_SYN_RCVD \<equiv> 1"
abbreviation (input) UIP_SYN_SENT :: u8 where "UIP_SYN_SENT \<equiv> 2"
abbreviation (input) UIP_ESTABLISHED :: u8 where "UIP_ESTABLISHED \<equiv> 3"
abbreviation (input) UIP_FIN_WAIT_1 :: u8 where "UIP_FIN_WAIT_1 \<equiv> 4"
abbreviation (input) UIP_FIN_WAIT_2 :: u8 where "UIP_FIN_WAIT_2 \<equiv> 5"
abbreviation (input) UIP_CLOSING :: u8 where "UIP_CLOSING \<equiv> 6"
abbreviation (input) UIP_TIME_WAIT :: u8 where "UIP_TIME_WAIT \<equiv> 7"
abbreviation (input) UIP_LAST_ACK :: u8 where "UIP_LAST_ACK \<equiv> 8"
abbreviation (input) UIP_TS_MASK :: u8 where "UIP_TS_MASK \<equiv> 15"
abbreviation (input) UIP_STOPPED :: u8 where "UIP_STOPPED \<equiv> 16"

abbreviation (input) UIP_RTO :: u8 where "UIP_RTO \<equiv> 3"
abbreviation (input) UIP_MAXRTX :: u8 where "UIP_MAXRTX \<equiv> 8"
abbreviation (input) UIP_MAXSYNRTX :: u8 where "UIP_MAXSYNRTX \<equiv> 5"
abbreviation (input) UIP_TIME_WAIT_TIMEOUT :: u8 where "UIP_TIME_WAIT_TIMEOUT \<equiv> 120"

definition upd_conn :: "nat \<Rightarrow> (uip_conn \<Rightarrow> uip_conn) \<Rightarrow> 'a uip \<Rightarrow> 'a uip" where
  "upd_conn i f s = s\<lparr>uip_conns := (uip_conns s)[i := f (uip_conns s ! i)]\<rparr>"

section \<open>Sequence numbers\<close>

text \<open>The four bytes of \<open>uip_acc32\<close>.\<close>

definition uip_add32 :: "u8 list \<Rightarrow> u16 \<Rightarrow> u8 list" where
  "uip_add32 op32 op16 =
     (let lo = ucast (op16 AND 0xff); hi = ucast (drop_bit 8 op16);
          a3 = op32 ! 3 + lo; a2 = op32 ! 2 + hi; a1 = op32 ! 1; a0 = op32 ! 0;
          (a0, a1) = (if a2 < hi then (if a1 + 1 = 0 then (a0 + 1, a1 + 1) else (a0, a1 + 1)) else (a0, a1));
          (a0, a1, a2) = (if a3 < lo then
              (if a2 + 1 = 0 then (if a1 + 1 = 0 then (a0 + 1, a1 + 1, a2 + 1) else (a0, a1 + 1, a2 + 1)) else (a0, a1, a2 + 1))
            else (a0, a1, a2))
      in [a0, a1, a2, a3])"

definition uip_add_rcv_nxt :: "nat \<Rightarrow> u16 \<Rightarrow> 'a uip \<Rightarrow> 'a uip" where
  "uip_add_rcv_nxt i n = upd_conn i (\<lambda>c. c\<lparr>c_rcv_nxt := uip_add32 (c_rcv_nxt c) n\<rparr>)"

text \<open>The increment with carry of four bytes, of the initial sequence number and of an acknowledgement.\<close>

definition inc32 :: "u8 list \<Rightarrow> u8 list" where
  "inc32 b = (let a3 = b ! 3 + 1; a2 = b ! 2 + 1; a1 = b ! 1 + 1; a0 = b ! 0 + 1 in
     if a3 = 0 then (if a2 = 0 then (if a1 = 0 then [a0, a1, a2, a3] else [b ! 0, a1, a2, a3]) else [b ! 0, b ! 1, a2, a3])
     else [b ! 0, b ! 1, b ! 2, a3])"

section \<open>Ports and connections\<close>

fun replace_first :: "'b \<Rightarrow> 'b \<Rightarrow> 'b list \<Rightarrow> 'b list" where
  "replace_first x y [] = []"
| "replace_first x y (z # zs) = (if z = x then y # zs else z # replace_first x y zs)"

definition uip_listen :: "u16 \<Rightarrow> 'a uip \<Rightarrow> 'a uip" where
  "uip_listen port s = s\<lparr>uip_listenports := replace_first 0 port (uip_listenports s)\<rparr>"

definition uip_unlisten :: "u16 \<Rightarrow> 'a uip \<Rightarrow> 'a uip" where
  "uip_unlisten port s = s\<lparr>uip_listenports := replace_first port 0 (uip_listenports s)\<rparr>"

text \<open>The search for a connection to use: the first closed one, or the one longest in \<open>TIME_WAIT\<close>.\<close>

fun free_conn :: "uip_conn list \<Rightarrow> nat \<Rightarrow> (nat \<times> u8) option \<Rightarrow> nat option" where
  "free_conn [] c best = map_option fst best"
| "free_conn (k # ks) c best =
     (if c_tcpstateflags k = UIP_CLOSED then Some c
      else if c_tcpstateflags k = UIP_TIME_WAIT then
        (if (case best of None \<Rightarrow> True | Some (_, t) \<Rightarrow> c_timer k > t) then free_conn ks (Suc c) (Some (c, c_timer k))
         else free_conn ks (Suc c) best)
      else free_conn ks (Suc c) best)"

text \<open>The next local port that no connection uses; with all of the ports in use the search does not end.\<close>

partial_function (option) find_port :: "(u16 \<Rightarrow> bool) \<Rightarrow> u16 \<Rightarrow> u16 option" where
  "find_port used p =
     (let p1 = p + 1; p2 = (if p1 \<ge> 32000 then 4096 else p1)
      in if used (uip_htons p2) then find_port used p2 else Some p2)"

definition uip_connect :: "u8 list \<Rightarrow> u16 \<Rightarrow> 'a uip \<Rightarrow> (nat option \<times> 'a uip) option" where
  "uip_connect ripaddr rport s = do {
     port \<leftarrow> find_port (\<lambda>p. list_ex (\<lambda>c. c_tcpstateflags c \<noteq> UIP_CLOSED \<and> c_lport c = p) (uip_conns s)) (lastport s);
     let s1 = s\<lparr>lastport := port\<rparr>;
     (case free_conn (uip_conns s) 0 None of
        None \<Rightarrow> Some (None, s1)
      | Some i \<Rightarrow> Some (Some i, s1\<lparr>uip_conns := (uip_conns s)[i := \<lparr>c_ripaddr = ripaddr, c_lport = uip_htons port, c_rport = rport,
          c_rcv_nxt = [0, 0, 0, 0], c_snd_nxt = iss s, c_len = 1, c_mss = UIP_TCP_MSS, c_initialmss = UIP_TCP_MSS, c_sa = 0, c_sv = 16,
          c_rto = UIP_RTO, c_tcpstateflags = UIP_SYN_SENT, c_timer = 1, c_nrtx = 0\<rparr>]\<rparr>))
   }"

section \<open>Sending\<close>

definition uip_drop :: "'a uip \<Rightarrow> 'a uip" where
  "uip_drop s = s\<lparr>uip_len := 0, uip_ext_len := 0, uip_ext_bitmap := 0, uip_flags := 0\<rparr>"

definition ip_send :: "'a uip \<Rightarrow> 'a uip" where
  "ip_send s = s\<lparr>uip_flags := 0\<rparr>"

definition ip_send_nolen :: "'a uip \<Rightarrow> 'a uip" where
  "ip_send_nolen s = ip_send (put 0 [0x60, 0, 0, 0] s)"

definition tcp_send_noconn :: "'a uip \<Rightarrow> 'a uip option" where
  "tcp_send_noconn s = do {
     let s1 = put 56 [0, 0, 0, 0] (put_ip_len (put 7 [cur_hop_limit (netif s)] s));
     c \<leftarrow> uip_tcpchksum s1;
     Some (ip_send_nolen (put 56 (u16_bytes (NOT c)) s1))
   }"

definition tcp_send :: "nat \<Rightarrow> 'a uip \<Rightarrow> 'a uip option" where
  "tcp_send i s =
     (let c = uip_conns s ! i;
          s1 = put 40 (u16_bytes (c_lport c) @ u16_bytes (c_rport c)) (put 6 [UIP_PROTO_TCP] (put 44 (c_snd_nxt c) (put 48 (c_rcv_nxt c) s)));
          s2 = put 8 (uip_ds6_select_src (c_ripaddr c) (netif s)) (put 24 (c_ripaddr c) s1)
      in tcp_send_noconn (put 54 (if c_tcpstateflags c AND UIP_STOPPED \<noteq> 0 then [0, 0] else be16_bytes UIP_TCP_MSS) s2))"

definition tcp_send_noopts :: "nat \<Rightarrow> 'a uip \<Rightarrow> 'a uip option" where
  "tcp_send_noopts i s = tcp_send i (put 52 [0x50] s)"

definition tcp_send_nodata :: "nat \<Rightarrow> u8 \<Rightarrow> 'a uip \<Rightarrow> 'a uip option" where
  "tcp_send_nodata i flags s = tcp_send_noopts i ((put 53 [flags] s)\<lparr>uip_len := 60\<rparr>)"

definition tcp_send_syn :: "nat \<Rightarrow> u8 \<Rightarrow> 'a uip \<Rightarrow> 'a uip option" where
  "tcp_send_syn i flags s =
     tcp_send i ((put 52 [0x60] (put 60 ([2, 4] @ be16_bytes UIP_TCP_MSS) (put 53 [flags OR TCP_SYN] s)))\<lparr>uip_len := 64\<rparr>)"

definition tcp_reset :: "'a uip \<Rightarrow> 'a uip option" where
  "tcp_reset s =
     (let b = uip_buf s in
      if b ! 53 AND TCP_RST \<noteq> 0 then Some (uip_drop s)
      else let s1 = (put 52 [0x50, TCP_RST OR TCP_ACK] s)\<lparr>uip_len := 60\<rparr>;
               s2 = put 44 (read_at 48 4 b @ inc32 (read_at 44 4 b)) s1;
               s3 = put 40 (read_at 42 2 b @ read_at 40 2 b) s2
           in tcp_send_noconn (put 8 (uip_ds6_select_src (ip_src b) (netif s)) (put 24 (ip_src b) s3)))"

section \<open>What the application asks for\<close>

definition apprexmit :: "nat \<Rightarrow> 'a uip \<Rightarrow> 'a uip option" where
  "apprexmit i s =
     (let s1 = s\<lparr>uip_appdata := uip_sappdata s\<rparr>; c = uip_conns s ! i in
      if uip_slen s > 0 \<and> c_len c > 0 then tcp_send_noopts i ((put 53 [0x18] s1)\<lparr>uip_len := c_len c + 60\<rparr>)
      else if uip_flags s AND UIP_NEWDATA \<noteq> 0 then tcp_send_noopts i ((put 53 [TCP_ACK] s1)\<lparr>uip_len := 60\<rparr>)
      else Some (uip_drop s1))"

definition appsend :: "nat \<Rightarrow> 'a uip \<Rightarrow> 'a uip option" where
  "appsend i s =
     (if uip_flags s AND UIP_ABORT \<noteq> 0 then
        tcp_send_nodata i (TCP_RST OR TCP_ACK) (upd_conn i (\<lambda>c. c\<lparr>c_tcpstateflags := UIP_CLOSED\<rparr>) (s\<lparr>uip_slen := 0\<rparr>))
      else if uip_flags s AND UIP_CLOSE \<noteq> 0 then
        tcp_send_nodata i (TCP_FIN OR TCP_ACK)
          (upd_conn i (\<lambda>c. c\<lparr>c_len := 1, c_tcpstateflags := UIP_FIN_WAIT_1, c_nrtx := 0\<rparr>) (s\<lparr>uip_slen := 0\<rparr>))
      else
        let s1 = (if uip_slen s > 0 then
              let t = (if uip_flags s AND UIP_ACKDATA \<noteq> 0 then upd_conn i (\<lambda>c. c\<lparr>c_len := 0\<rparr>) s else s); c = uip_conns t ! i in
              if c_len c = 0 then
                let t1 = (if uip_slen t > c_mss c then t\<lparr>uip_slen := c_mss c\<rparr> else t) in upd_conn i (\<lambda>c. c\<lparr>c_len := uip_slen t1\<rparr>) t1
              else t\<lparr>uip_slen := c_len c\<rparr>
            else s)
        in apprexmit i (upd_conn i (\<lambda>c. c\<lparr>c_nrtx := 0\<rparr>) s1))"

section \<open>The options of a SYN\<close>

text \<open>The maximum segment size of the option, if there is one; the index is a byte and wraps around.\<close>

partial_function (option) mss_loop :: "u8 list \<Rightarrow> nat \<Rightarrow> u8 \<Rightarrow> u16 option option" where
  "mss_loop b lim c =
     (if unat c < lim then
        let opt = b ! (60 + unat c); n = b ! (61 + unat c) in
        if opt = 0 then Some None
        else if opt = 1 then mss_loop b lim (c + 1)
        else if opt = 2 \<and> n = 4 then
          Some (Some (push_bit 8 (ucast (b ! (62 + unat c))) OR ucast (b ! (63 + unat c))))
        else if n = 0 then Some None
        else mss_loop b lim (c + n)
      else Some None)"

definition tcp_mss_option :: "nat \<Rightarrow> 'a uip \<Rightarrow> 'a uip option" where
  "tcp_mss_option i s =
     (let off = uip_buf s ! 52 in
      if off AND 0xf0 > 0x50 then
        map_option (\<lambda>r. case r of None \<Rightarrow> s
          | Some v \<Rightarrow> let m = (if v > UIP_TCP_MSS then UIP_TCP_MSS else v) in upd_conn i (\<lambda>c. c\<lparr>c_initialmss := m, c_mss := m\<rparr>) s)
          (mss_loop (uip_buf s) ((unat (drop_bit 4 off) - 5) * 4) 0)
      else Some s)"

section \<open>Segments that arrive\<close>

definition tcp_found_listen :: "'a uip \<Rightarrow> 'a uip option" where
  "tcp_found_listen s =
     (case free_conn (uip_conns s) 0 None of
        None \<Rightarrow> Some (uip_drop s)
      | Some i \<Rightarrow> do {
          let b = uip_buf s;
          let s1 = upd_conn i (\<lambda>c. c\<lparr>c_rto := UIP_RTO, c_timer := UIP_RTO, c_sa := 0, c_sv := 4, c_nrtx := 0, c_lport := get_u16 42 b,
              c_rport := get_u16 40 b, c_ripaddr := ip_src b, c_tcpstateflags := UIP_SYN_RCVD, c_snd_nxt := iss s, c_len := 1,
              c_rcv_nxt := read_at 44 4 b\<rparr>) (s\<lparr>uip_conn := Some i\<rparr>);
          s2 \<leftarrow> tcp_mss_option i (uip_add_rcv_nxt i 1 s1);
          tcp_send_syn i TCP_ACK s2
        })"

text \<open>The estimation of the round-trip time; \<open>signed char\<close> arithmetic is modulo 256.\<close>

definition tcp_rtt :: "uip_conn \<Rightarrow> uip_conn" where
  "tcp_rtt c =
     (let m = c_rto c - c_timer c - drop_bit 3 (c_sa c); sa = c_sa c + m;
          m1 = (if bit m 7 then - m else m) - drop_bit 2 (c_sv c); sv = c_sv c + m1
      in c\<lparr>c_sa := sa, c_sv := sv, c_rto := drop_bit 3 sa + sv\<rparr>)"

definition tcp_ack_received :: "nat \<Rightarrow> 'a uip \<Rightarrow> 'a uip" where
  "tcp_ack_received i s =
     (let b = uip_buf s; c = uip_conns s ! i; acc = uip_add32 (c_snd_nxt c) (c_len c) in
      if b ! 53 AND TCP_ACK \<noteq> 0 \<and> c_len c \<noteq> 0 \<and> read_at 48 4 b = acc then
        upd_conn i (\<lambda>c. let c1 = c\<lparr>c_snd_nxt := acc\<rparr>; c2 = (if c_nrtx c1 = 0 then tcp_rtt c1 else c1)
            in c2\<lparr>c_timer := c_rto c2, c_len := 0\<rparr>) (s\<lparr>uip_flags := UIP_ACKDATA\<rparr>)
      else s)"

definition tcp_syn_rcvd :: "'a hooks \<Rightarrow> nat \<Rightarrow> 'a uip \<Rightarrow> 'a uip option" where
  "tcp_syn_rcvd h i s =
     (if uip_flags s AND UIP_ACKDATA \<noteq> 0 then
        let s1 = upd_conn i (\<lambda>c. c\<lparr>c_tcpstateflags := UIP_ESTABLISHED, c_len := 0\<rparr>) (s\<lparr>uip_flags := UIP_CONNECTED\<rparr>);
            s2 = (if uip_len s > 0 then uip_add_rcv_nxt i (uip_len s) (s1\<lparr>uip_flags := UIP_CONNECTED OR UIP_NEWDATA\<rparr>) else s1)
        in appsend i (UIP_APPCALL h (s2\<lparr>uip_slen := 0\<rparr>))
      else if uip_buf s ! 53 AND TCP_CTL = TCP_SYN then tcp_send_syn i TCP_ACK s
      else Some (uip_drop s))"

definition tcp_syn_sent :: "'a hooks \<Rightarrow> nat \<Rightarrow> 'a uip \<Rightarrow> 'a uip option" where
  "tcp_syn_sent h i s =
     (if uip_flags s AND UIP_ACKDATA \<noteq> 0 \<and> uip_buf s ! 53 AND TCP_CTL = TCP_SYN OR TCP_ACK then do {
        s1 \<leftarrow> tcp_mss_option i s;
        let s2 = upd_conn i (\<lambda>c. c\<lparr>c_tcpstateflags := UIP_ESTABLISHED, c_rcv_nxt := read_at 44 4 (uip_buf s1), c_len := 0\<rparr>) s1;
        let s3 = (uip_add_rcv_nxt i 1 s2)\<lparr>uip_flags := UIP_CONNECTED OR UIP_NEWDATA, uip_len := 0, uip_slen := 0\<rparr>;
        appsend i (UIP_APPCALL h s3)
      } else
        let s1 = UIP_APPCALL h (s\<lparr>uip_flags := UIP_ABORT\<rparr>) in
        case uip_conn s1 of None \<Rightarrow> None | Some j \<Rightarrow> tcp_reset (upd_conn j (\<lambda>c. c\<lparr>c_tcpstateflags := UIP_CLOSED\<rparr>) s1))"

definition tcp_established :: "'a hooks \<Rightarrow> nat \<Rightarrow> 'a uip \<Rightarrow> 'a uip option" where
  "tcp_established h i s =
     (let b = uip_buf s; c = uip_conns s ! i; flags = b ! 53; stopped = c_tcpstateflags c AND UIP_STOPPED \<noteq> 0 in
      if flags AND TCP_FIN \<noteq> 0 \<and> \<not> stopped then
        if c_len c \<noteq> 0 then Some (uip_drop s)
        else
          let s1 = uip_add_rcv_nxt i (1 + uip_len s) s;
              s2 = s1\<lparr>uip_flags := uip_flags s1 OR UIP_CLOSE OR (if uip_len s > 0 then UIP_NEWDATA else 0)\<rparr>
          in tcp_send_nodata i (TCP_FIN OR TCP_ACK)
               (upd_conn i (\<lambda>c. c\<lparr>c_len := 1, c_tcpstateflags := UIP_LAST_ACK, c_nrtx := 0\<rparr>) (UIP_APPCALL h s2))
      else
        let urg = be16_of (read_at 58 2 b);
            s1 = (if flags AND TCP_URG \<noteq> 0 then s\<lparr>uip_appdata := uip_appdata s + unat urg, uip_len := uip_len s - urg\<rparr> else s);
            s2 = (if uip_len s1 > 0 \<and> \<not> stopped then uip_add_rcv_nxt i (uip_len s1) (s1\<lparr>uip_flags := uip_flags s1 OR UIP_NEWDATA\<rparr>) else s1);
            wnd = be16_of (read_at 54 2 b);
            s3 = upd_conn i (\<lambda>c. c\<lparr>c_mss := (if wnd > c_initialmss c \<or> wnd = 0 then c_initialmss c else wnd)\<rparr>) s2
        in if uip_flags s3 AND (UIP_NEWDATA OR UIP_ACKDATA) \<noteq> 0 then appsend i (UIP_APPCALL h (s3\<lparr>uip_slen := 0\<rparr>))
           else Some (uip_drop s3))"

definition tcp_last_ack :: "'a hooks \<Rightarrow> nat \<Rightarrow> 'a uip \<Rightarrow> 'a uip option" where
  "tcp_last_ack h i s = Some (uip_drop
     (if uip_flags s AND UIP_ACKDATA \<noteq> 0 then
        UIP_APPCALL h ((upd_conn i (\<lambda>c. c\<lparr>c_tcpstateflags := UIP_CLOSED\<rparr>) s)\<lparr>uip_flags := UIP_CLOSE\<rparr>)
      else s))"

definition tcp_fin_wait_1 :: "'a hooks \<Rightarrow> nat \<Rightarrow> 'a uip \<Rightarrow> 'a uip option" where
  "tcp_fin_wait_1 h i s =
     (let acked = uip_flags s AND UIP_ACKDATA \<noteq> 0; s1 = (if uip_len s > 0 then uip_add_rcv_nxt i (uip_len s) s else s) in
      if uip_buf s ! 53 AND TCP_FIN \<noteq> 0 then
        let s2 = (if acked then upd_conn i (\<lambda>c. c\<lparr>c_tcpstateflags := UIP_TIME_WAIT, c_timer := 0, c_len := 0\<rparr>) s1
                  else upd_conn i (\<lambda>c. c\<lparr>c_tcpstateflags := UIP_CLOSING\<rparr>) s1)
        in tcp_send_nodata i TCP_ACK (UIP_APPCALL h ((uip_add_rcv_nxt i 1 s2)\<lparr>uip_flags := UIP_CLOSE\<rparr>))
      else if acked then Some (uip_drop (upd_conn i (\<lambda>c. c\<lparr>c_tcpstateflags := UIP_FIN_WAIT_2, c_len := 0\<rparr>) s1))
      else if uip_len s > 0 then tcp_send_nodata i TCP_ACK s1
      else Some (uip_drop s1))"

definition tcp_fin_wait_2 :: "'a hooks \<Rightarrow> nat \<Rightarrow> 'a uip \<Rightarrow> 'a uip option" where
  "tcp_fin_wait_2 h i s =
     (let s1 = (if uip_len s > 0 then uip_add_rcv_nxt i (uip_len s) s else s) in
      if uip_buf s ! 53 AND TCP_FIN \<noteq> 0 then
        let s2 = upd_conn i (\<lambda>c. c\<lparr>c_tcpstateflags := UIP_TIME_WAIT, c_timer := 0\<rparr>) s1
        in tcp_send_nodata i TCP_ACK (UIP_APPCALL h ((uip_add_rcv_nxt i 1 s2)\<lparr>uip_flags := UIP_CLOSE\<rparr>))
      else if uip_len s > 0 then tcp_send_nodata i TCP_ACK s1
      else Some (uip_drop s1))"

text \<open>The switch on the state.\<close>

definition tcp_states :: "'a hooks \<Rightarrow> nat \<Rightarrow> 'a uip \<Rightarrow> 'a uip option" where
  "tcp_states h i s =
     (let st = c_tcpstateflags (uip_conns s ! i) AND UIP_TS_MASK in
      if st = UIP_SYN_RCVD then tcp_syn_rcvd h i s
      else if st = UIP_SYN_SENT then tcp_syn_sent h i s
      else if st = UIP_ESTABLISHED then tcp_established h i s
      else if st = UIP_LAST_ACK then tcp_last_ack h i s
      else if st = UIP_FIN_WAIT_1 then tcp_fin_wait_1 h i s
      else if st = UIP_FIN_WAIT_2 then tcp_fin_wait_2 h i s
      else if st = UIP_TIME_WAIT then tcp_send_nodata i TCP_ACK s
      else if st = UIP_CLOSING \<and> uip_flags s AND UIP_ACKDATA \<noteq> 0 then
        Some (uip_drop (upd_conn i (\<lambda>c. c\<lparr>c_tcpstateflags := UIP_TIME_WAIT, c_timer := 0\<rparr>) s))
      else Some (uip_drop s))"

definition tcp_found :: "'a hooks \<Rightarrow> nat \<Rightarrow> 'a uip \<Rightarrow> 'a uip option" where
  "tcp_found h i s0 =
     (let s = s0\<lparr>uip_conn := Some i, uip_flags := 0\<rparr>; b = uip_buf s; flags = b ! 53 in
      if flags AND TCP_RST \<noteq> 0 then
        Some (uip_drop (UIP_APPCALL h ((upd_conn i (\<lambda>c. c\<lparr>c_tcpstateflags := UIP_CLOSED\<rparr>) s)\<lparr>uip_flags := UIP_ABORT\<rparr>)))
      else
        let hlen = push_bit 2 (drop_bit 4 (b ! 52)); s1 = s\<lparr>uip_len := uip_len s - ucast hlen - 40\<rparr>; c = uip_conns s1 ! i;
            st = c_tcpstateflags c AND UIP_TS_MASK
        in if \<not> (st = UIP_SYN_SENT \<and> flags AND TCP_CTL = TCP_SYN OR TCP_ACK \<or> st = UIP_SYN_RCVD \<and> flags AND TCP_CTL = TCP_SYN)
              \<and> (uip_len s1 > 0 \<or> flags AND (TCP_SYN OR TCP_FIN) \<noteq> 0) \<and> read_at 44 4 b \<noteq> c_rcv_nxt c then
             if flags AND TCP_SYN \<noteq> 0 then tcp_send_syn i TCP_ACK s1 else tcp_send_nodata i TCP_ACK s1
           else tcp_states h i (tcp_ack_received i s1))"

definition tcp_match :: "u8 list \<Rightarrow> uip_conn \<Rightarrow> bool" where
  "tcp_match b c \<longleftrightarrow> c_tcpstateflags c \<noteq> UIP_CLOSED \<and> get_u16 42 b = c_lport c \<and> get_u16 40 b = c_rport c \<and> ip_src b = c_ripaddr c"

fun first_match :: "('b \<Rightarrow> bool) \<Rightarrow> 'b list \<Rightarrow> nat \<Rightarrow> nat option" where
  "first_match P [] i = None"
| "first_match P (x # xs) i = (if P x then Some i else first_match P xs (Suc i))"

definition tcp_input :: "'a hooks \<Rightarrow> 'a uip \<Rightarrow> 'a uip option" where
  "tcp_input h s0 = do {
     s \<leftarrow> remove_ext_hdr s0;
     let b = uip_buf s;
     c \<leftarrow> uip_tcpchksum s;
     if c \<noteq> 0xffff then Some (uip_drop s)
     else if get_u16 42 b = 0 \<or> get_u16 40 b = 0 then Some (uip_drop s)
     else case first_match (tcp_match b) (uip_conns s) 0 of
       Some i \<Rightarrow> tcp_found h i s
     | None \<Rightarrow>
         if b ! 53 AND TCP_CTL \<noteq> TCP_SYN then tcp_reset s
         else if get_u16 42 b \<in> set (uip_listenports s) then tcp_found_listen s
         else tcp_reset s
   }"

section \<open>Polls and timeouts\<close>

definition tcp_poll :: "'a hooks \<Rightarrow> nat \<Rightarrow> 'a uip \<Rightarrow> 'a uip option" where
  "tcp_poll h i s =
     (let c = uip_conns s ! i; st = c_tcpstateflags c AND UIP_TS_MASK in
      if st = UIP_ESTABLISHED \<and> c_len c = 0 then appsend i (UIP_APPCALL h (s\<lparr>uip_flags := UIP_POLL\<rparr>))
      else if st = UIP_SYN_SENT then tcp_send_syn i 0 s
      else Some (uip_drop s))"

definition tcp_rexmit :: "'a hooks \<Rightarrow> nat \<Rightarrow> 'a uip \<Rightarrow> 'a uip option" where
  "tcp_rexmit h i s =
     (let c = uip_conns s ! i; st = c_tcpstateflags c AND UIP_TS_MASK in
      if c_nrtx c = UIP_MAXRTX \<or> (c_tcpstateflags c = UIP_SYN_SENT \<or> c_tcpstateflags c = UIP_SYN_RCVD) \<and> c_nrtx c = UIP_MAXSYNRTX then
        tcp_send_nodata i (TCP_RST OR TCP_ACK)
          (UIP_APPCALL h ((upd_conn i (\<lambda>c. c\<lparr>c_tcpstateflags := UIP_CLOSED\<rparr>) s)\<lparr>uip_flags := UIP_TIMEDOUT\<rparr>))
      else
        let s1 = upd_conn i (\<lambda>c. c\<lparr>c_timer := push_bit (if c_nrtx c > 4 then 4 else unat (c_nrtx c)) UIP_RTO, c_nrtx := c_nrtx c + 1\<rparr>) s
        in if st = UIP_SYN_RCVD then tcp_send_syn i TCP_ACK s1
           else if st = UIP_SYN_SENT then tcp_send_syn i 0 s1
           else if st = UIP_ESTABLISHED then apprexmit i (UIP_APPCALL h (s1\<lparr>uip_flags := UIP_REXMIT\<rparr>))
           else if st = UIP_FIN_WAIT_1 \<or> st = UIP_CLOSING \<or> st = UIP_LAST_ACK then tcp_send_nodata i (TCP_FIN OR TCP_ACK) s1
           else Some (uip_drop s1))"

definition tcp_timer :: "'a hooks \<Rightarrow> nat \<Rightarrow> 'a uip \<Rightarrow> 'a uip option" where
  "tcp_timer h i s0 =
     (let s = s0\<lparr>uip_len := 0, uip_slen := 0, iss := inc32 (iss s0)\<rparr>; c = uip_conns s ! i; sf = c_tcpstateflags c in
      if sf = UIP_TIME_WAIT \<or> sf = UIP_FIN_WAIT_2 then
        Some (uip_drop (upd_conn i (\<lambda>c. let c1 = c\<lparr>c_timer := c_timer c + 1\<rparr> in
          if c_timer c1 = UIP_TIME_WAIT_TIMEOUT then c1\<lparr>c_tcpstateflags := UIP_CLOSED\<rparr> else c1) s))
      else if sf \<noteq> UIP_CLOSED then
        if c_len c \<noteq> 0 then
          let s1 = upd_conn i (\<lambda>c. c\<lparr>c_timer := c_timer c - 1\<rparr>) s
          in if c_timer c = 0 then tcp_rexmit h i s1 else Some (uip_drop s1)
        else if sf AND UIP_TS_MASK = UIP_ESTABLISHED then appsend i (UIP_APPCALL h (s\<lparr>uip_flags := UIP_POLL\<rparr>))
        else Some (uip_drop s)
      else Some (uip_drop s))"

section \<open>Sequence numbers as numbers\<close>

text \<open>The number that four bytes of a sequence number stand for.\<close>

definition val32 :: "u8 list \<Rightarrow> int" where
  "val32 b = 16777216 * uint (b ! 0) + 65536 * uint (b ! 1) + 256 * uint (b ! 2) + uint (b ! 3)"

text \<open>The sum of two bytes and its carry.\<close>

lemma byte_carry: "uint ((x :: u8) + y) = uint x + uint y - (if x + y < y then 256 else 0)"
proof -
  have l: "uint x < 256" "uint y < 256" "0 \<le> uint x" "0 \<le> uint y" using uint_lt2p [of x] uint_lt2p [of y] by simp_all
  have s: "uint (x + y) = (uint x + uint y) mod 256" by (simp add: uint_word_ariths)
  show ?thesis
  proof (cases "uint x + uint y < 256")
    case True
    then have "uint (x + y) = uint x + uint y" using s l by simp
    then show ?thesis unfolding word_less_def using l by simp
  next
    case False
    have "(uint x + uint y) mod 256 = (uint x + uint y - 256) mod 256" by (rule minus_mod_self2 [symmetric])
    also have "\<dots> = uint x + uint y - 256" by (rule mod_pos_pos_trivial) (use l False in linarith)+
    finally have "uint (x + y) = uint x + uint y - 256" using s by simp
    then show ?thesis unfolding word_less_def using l by simp
  qed
qed

lemma byte_inc: "uint ((x :: u8) + 1) = uint x + 1 - (if x + 1 = 0 then 256 else 0)"
proof -
  have "x + 1 < 1 \<longleftrightarrow> x + 1 = 0" by (simp add: word_less_1)
  then show ?thesis using byte_carry [of x 1] by simp
qed

lemma val32_range: "0 \<le> val32 b \<and> val32 b < 4294967296"
  unfolding val32_def using uint_lt2p [of "b ! 0"] uint_lt2p [of "b ! 1"] uint_lt2p [of "b ! 2"] uint_lt2p [of "b ! 3"] by simp

lemma val32_mod:
  assumes "val32 b = x - 4294967296 * q"
  shows "val32 b = x mod 4294967296"
proof -
  have "x mod 4294967296 = (val32 b + 4294967296 * q) mod 4294967296" using assms by simp
  also have "\<dots> = val32 b mod 4294967296" by simp
  also have "\<dots> = val32 b" by (rule mod_pos_pos_trivial) (use val32_range [of b] in simp_all)
  finally show ?thesis by simp
qed

lemma uint_halves: "uint (n :: u16) = 256 * uint (ucast (drop_bit 8 n) :: u8) + uint (ucast (n AND 0xff) :: u8)"
proof -
  have "n AND 0xff = take_bit 8 n" by (simp add: take_bit_eq_mask mask_eq_exp_minus_1)
  then have "(ucast (n AND 0xff) :: u8) = ucast n" by (auto intro!: bit_word_eqI simp: bit_simps)
  then show ?thesis using word_sum_be16 [of n] by (simp add: be16_bytes_def)
qed

text \<open>Increments of two and of three bytes, up to a multiple of their range.\<close>

definition carry2 :: "u8 \<Rightarrow> u8 \<Rightarrow> u8 \<times> u8" where
  "carry2 a0 a1 = (if a1 + 1 = 0 then (a0 + 1, a1 + 1) else (a0, a1 + 1))"

definition carry3 :: "u8 \<Rightarrow> u8 \<Rightarrow> u8 \<Rightarrow> u8 \<times> u8 \<times> u8" where
  "carry3 a0 a1 a2 = (if a2 + 1 = 0 then (if a1 + 1 = 0 then (a0 + 1, a1 + 1, a2 + 1) else (a0, a1 + 1, a2 + 1)) else (a0, a1, a2 + 1))"

lemma carry2_val: "carry2 a0 a1 = (x, y) \<Longrightarrow> \<exists>q. 256 * uint x + uint y = 256 * uint a0 + uint a1 + 1 - 65536 * q"
  using byte_inc [of a0] byte_inc [of a1]
  by (cases "a1 + 1 = 0"; cases "a0 + 1 = 0") (auto simp: carry2_def intro: exI [of _ 0] exI [of _ 1])

lemma carry3_val: "carry3 a0 a1 a2 = (x, y, z) \<Longrightarrow>
    \<exists>q. 65536 * uint x + 256 * uint y + uint z = 65536 * uint a0 + 256 * uint a1 + uint a2 + 1 - 16777216 * q"
  using byte_inc [of a0] byte_inc [of a1] byte_inc [of a2]
  by (cases "a2 + 1 = 0"; cases "a1 + 1 = 0"; cases "a0 + 1 = 0") (auto simp: carry3_def intro: exI [of _ 0] exI [of _ 1])

lemma uip_add32_carry:
  "uip_add32 b n =
     (let lo = ucast (n AND 0xff); hi = ucast (drop_bit 8 n); a3 = b ! 3 + lo; a2 = b ! 2 + hi;
          (a0, a1) = (if a2 < hi then carry2 (b ! 0) (b ! 1) else (b ! 0, b ! 1));
          (a0, a1, a2) = (if a3 < lo then carry3 a0 a1 a2 else (a0, a1, a2))
      in [a0, a1, a2, a3])"
  by (simp only: uip_add32_def carry2_def carry3_def Let_def)

lemma uip_add32_val: "val32 (uip_add32 b n) = (val32 b + uint n) mod 4294967296"
proof -
  define lo hi where "lo = (ucast (n AND 0xff) :: u8)" and "hi = (ucast (drop_bit 8 n) :: u8)"
  have n: "uint n = 256 * uint hi + uint lo" unfolding lo_def hi_def by (rule uint_halves)
  obtain x y where xy: "(if b ! 2 + hi < hi then carry2 (b ! 0) (b ! 1) else (b ! 0, b ! 1)) = (x, y)" by (rule prod.exhaust)
  obtain u v w where uvw: "(if b ! 3 + lo < lo then carry3 x y (b ! 2 + hi) else (x, y, b ! 2 + hi)) = (u, v, w)" by (rule prod_cases3)
  have e: "uip_add32 b n = [u, v, w, b ! 3 + lo]"
    unfolding uip_add32_carry Let_def lo_def [symmetric] hi_def [symmetric] xy uvw by (simp add: xy uvw)
  obtain q where "256 * uint x + uint y = 256 * uint (b ! 0) + uint (b ! 1) + (if b ! 2 + hi < hi then 1 else 0) - 65536 * q"
    using xy carry2_val [of "b ! 0" "b ! 1" x y] by (cases "b ! 2 + hi < hi") (auto intro: that [of 0])
  moreover obtain r where "65536 * uint u + 256 * uint v + uint w =
      65536 * uint x + 256 * uint y + uint (b ! 2 + hi) + (if b ! 3 + lo < lo then 1 else 0) - 16777216 * r"
    using uvw carry3_val [of x y "b ! 2 + hi" u v w] by (cases "b ! 3 + lo < lo") (auto intro: that [of 0])
  ultimately have "val32 [u, v, w, b ! 3 + lo] = val32 b + uint n - 4294967296 * (q + r)"
    using byte_carry [of "b ! 3" lo] byte_carry [of "b ! 2" hi] unfolding n val32_def by (simp split: if_splits)
  then show ?thesis unfolding e by (rule val32_mod)
qed

lemma inc32_val: "val32 (inc32 b) = (val32 b + 1) mod 4294967296"
proof -
  have "inc32 b = (if b ! 3 + 1 = 0 then (case carry3 (b ! 0) (b ! 1) (b ! 2) of (x, y, z) \<Rightarrow> [x, y, z, b ! 3 + 1]) else [b ! 0, b ! 1, b ! 2, b ! 3 + 1])"
    by (simp add: inc32_def carry3_def Let_def)
  moreover obtain x y z where c: "carry3 (b ! 0) (b ! 1) (b ! 2) = (x, y, z)" by (rule prod_cases3)
  moreover obtain q where "65536 * uint x + 256 * uint y + uint z = 65536 * uint (b ! 0) + 256 * uint (b ! 1) + uint (b ! 2) + 1 - 16777216 * q"
    using carry3_val [OF c] by blast
  moreover have "b ! 3 + 1 = 0 \<Longrightarrow> uint (b ! 3) = 255" using byte_inc [of "b ! 3"] by simp
  ultimately have "val32 (inc32 b) = val32 b + 1 - 4294967296 * (if b ! 3 + 1 = 0 then q else 0)"
    using byte_inc [of "b ! 3"] unfolding val32_def by (cases "b ! 3 + 1 = 0") simp_all
  then show ?thesis by (rule val32_mod)
qed

section \<open>The segment that is sent\<close>

lemma put_keeps [simp]: "uip_len (put i bs s) = uip_len s" "uip_ext_len (put i bs s) = uip_ext_len s" "netif (put i bs s) = netif s"
  "uip_conns (put i bs s) = uip_conns s" "uip_buf (put i bs s) = write_at i bs (uip_buf s)" "app (put i bs s) = app s"
  by (simp_all add: put_def)

lemma put_ip_len_eq: "put_ip_len s = put 4 (be16_bytes (uip_len s - 40)) s"
  by (simp add: put_ip_len_def)

lemma length_be16 [simp]: "length (be16_bytes w) = 2" "length (u16_bytes w) = 2"
  by (simp_all add: be16_bytes_def u16_bytes_def)

lemma upper_layer_len_tcp:
  assumes "read_at 4 2 (uip_buf s) = be16_bytes (uip_len s - 40)" "uip_ext_len s = 0" "6 \<le> length (uip_buf s)"
  shows "upper_layer_len s = uip_len s - 40"
proof -
  have "uip_buf s ! (4 + k) = read_at 4 2 (uip_buf s) ! k" if "k < 2" for k using that assms(3) by (simp add: read_at_def)
  from this [of 0] this [of 1] have "uip_buf s ! 4 = be16_bytes (uip_len s - 40) ! 0" "uip_buf s ! 5 = be16_bytes (uip_len s - 40) ! 1"
    by (simp_all add: assms(1))
  then show ?thesis using be16_of_bytes [of "uip_len s - 40"] assms(2)
    by (simp add: upper_layer_len_def be16_bytes_def be16_of_add)
qed

text \<open>Bytes that no checksum covers.\<close>

lemma upper_layer_chksum_put:
  assumes "i + length bs \<le> 4 \<or> 6 \<le> i \<and> i + length bs \<le> 8" "40 \<le> length (uip_buf s)"
  shows "upper_layer_chksum proto (put i bs s) = upper_layer_chksum proto s"
proof -
  have n: "write_at i bs (uip_buf s) ! k = uip_buf s ! k" if "k = 4 \<or> k = 5" for k
    using that assms by (auto simp: write_at_def nth_append)
  have l: "upper_layer_len (put i bs s) = upper_layer_len s" by (simp add: upper_layer_len_def n)
  have r: "read_at e m (write_at i bs (uip_buf s)) = read_at e m (uip_buf s)" if "8 \<le> e" for e m
    using that assms by (intro read_write_after) auto
  have w: "length (write_at i bs (uip_buf s)) = length (uip_buf s)" using assms by (intro length_write_at) auto
  show ?thesis by (simp add: upper_layer_chksum_def l r bytes_at_def w)
qed

lemma split_56: "60 \<le> length b \<Longrightarrow> write_at 56 [w, x, y, z] b = write_at 58 [y, z] (write_at 56 [w, x] b)"
  by (simp add: write_at_def min_def)

lemma write_at_twice: "length xs = length ys \<Longrightarrow> d + length xs \<le> length b \<Longrightarrow> write_at d ys (write_at d xs b) = write_at d ys b"
  by (simp add: write_at_def)

lemma write_swap: "i + length xs \<le> j \<Longrightarrow> j + length ys \<le> length b \<Longrightarrow> write_at j ys (write_at i xs b) = write_at i xs (write_at j ys b)"
  by (rule nth_equalityI) (auto simp: write_at_def nth_append)

lemma tcp_send_noconn_form:
  assumes "60 \<le> unat (uip_len s)" "unat (uip_len s) \<le> length (uip_buf s)" "uip_ext_len s = 0"
  obtains ck t where "length ck = 2" "tcp_send_noconn s = Some t" "uip_tcpchksum t = Some 0xffff" "t = s\<lparr>uip_buf := uip_buf t, uip_flags := 0\<rparr>"
    "uip_buf t = write_at 0 [0x60, 0, 0, 0] (write_at 56 ck (write_at 58 [0, 0]
       (write_at 4 (be16_bytes (uip_len s - 40)) (write_at 7 [cur_hop_limit (netif s)] (uip_buf s)))))"
proof -
  let ?s0 = "put_ip_len (put 7 [cur_hop_limit (netif s)] s)" and ?s1 = "put 56 [0, 0, 0, 0] (put_ip_len (put 7 [cur_hop_limit (netif s)] s))"
  have b: "60 \<le> length (uip_buf s)" using assms by simp
  have l0: "length (uip_buf ?s0) = length (uip_buf s)" "length (uip_buf ?s1) = length (uip_buf s)" using b by (simp_all add: put_ip_len_eq)
  have "read_at 4 2 (uip_buf ?s1) = be16_bytes (uip_len s - 40)"
    using b read_write_same [of 4 "be16_bytes (uip_len s - 40)" "write_at 7 [cur_hop_limit (netif s)] (uip_buf s)"]
    by (simp add: put_ip_len_eq read_write_before)
  then have ul: "upper_layer_len ?s1 = uip_len s - 40"
    using upper_layer_len_tcp [of ?s1] b assms(3) by (simp add: put_ip_len_eq)
  have n: "unat (uip_len s - 40) = unat (uip_len s) - 40"
    using assms(1) by (simp add: unat_sub word_le_nat_alt)
  have ib: "in_buf ?s1" unfolding in_buf_def ul n l0 using assms by (simp add: put_ip_len_eq)
  obtain c where c: "uip_tcpchksum ?s1 = Some c"
    using upper_layer_chksum_acc [OF ib] unfolding uip_tcpchksum_def by metis
  let ?v = "NOT c" and ?t = "ip_send_nolen (put 56 (u16_bytes (NOT c)) ?s1)"
  have z: "put 56 [0, 0] ?s1 = ?s1"
    using l0 b unfolding put_def by (simp add: split_56 write_swap write_at_twice)
  have e: "unat (uip_ext_len ?s1) = 0" using assms(3) by (simp add: put_ip_len_eq)
  have k: "uip_tcpchksum (put 56 (u16_bytes (NOT c)) ?s1) = Some 0xffff"
    unfolding uip_tcpchksum_def
  proof (rule chksum_field [OF ib])
    show "upper_layer_chksum 6 (put 56 [0, 0] ?s1) = Some c" unfolding z using c by (simp add: uip_tcpchksum_def)
  qed (use assms(1) in \<open>simp_all only: e ul n, simp_all\<close>)
  have lt: "40 \<le> length (uip_buf (put 56 (u16_bytes (NOT c)) ?s1))" using l0 b by simp
  have ff: "uip_tcpchksum (s\<lparr>uip_flags := 0\<rparr>) = uip_tcpchksum s" for s :: "'a uip"
    by (simp add: uip_tcpchksum_def upper_layer_chksum_def upper_layer_len_def cong: if_cong)
  have "uip_tcpchksum ?t = Some 0xffff"
    unfolding ip_send_nolen_def ip_send_def ff using upper_layer_chksum_put [of 0 "[0x60, 0, 0, 0]" "put 56 (u16_bytes (NOT c)) ?s1" 6] lt k
    by (simp add: uip_tcpchksum_def)
  moreover have "tcp_send_noconn s = Some ?t" using c by (simp add: tcp_send_noconn_def Let_def)
  moreover have "?t = s\<lparr>uip_buf := uip_buf ?t, uip_flags := 0\<rparr>" by (simp add: ip_send_nolen_def ip_send_def put_def put_ip_len_def)
  moreover have "uip_buf ?t = write_at 0 [0x60, 0, 0, 0] (write_at 56 (u16_bytes (NOT c)) (write_at 58 [0, 0]
       (write_at 4 (be16_bytes (uip_len s - 40)) (write_at 7 [cur_hop_limit (netif s)] (uip_buf s)))))"
    using b by (simp add: ip_send_nolen_def ip_send_def put_ip_len_eq split_56 write_swap write_at_twice)
  ultimately show ?thesis using that [of "u16_bytes (NOT c)" ?t] by simp
qed

text \<open>An IPv6 packet with a TCP segment without options.\<close>

definition tcp_bytes :: "u8 \<Rightarrow> u8 list \<Rightarrow> u8 list \<Rightarrow> u16 \<Rightarrow> u16 \<Rightarrow> u8 list \<Rightarrow> u8 list \<Rightarrow> u8 \<Rightarrow> u8 list \<Rightarrow> u8 list \<Rightarrow> u8 list \<Rightarrow> u8 list" where
  "tcp_bytes hop src dst sp dp sq ak fl wnd ck data =
     [0x60, 0, 0, 0] @ be16_bytes (of_nat (20 + length data)) @ [UIP_PROTO_TCP] @ [hop] @ src @ dst @ (u16_bytes sp @ u16_bytes dp) @
     sq @ ak @ [0x50] @ [fl] @ wnd @ ck @ [0, 0] @ data"

lemma take_read: "n = d + m \<Longrightarrow> take n b = take d b @ read_at d m b"
  by (simp add: read_at_def take_add)

lemma header_pieces:
  assumes "60 \<le> n"
  shows "take n b = read_at 0 4 b @ read_at 4 2 b @ read_at 6 1 b @ read_at 7 1 b @ read_at 8 16 b @ read_at 24 16 b @ read_at 40 4 b @
    read_at 44 4 b @ read_at 48 4 b @ read_at 52 1 b @ read_at 53 1 b @ read_at 54 2 b @ read_at 56 2 b @ read_at 58 2 b @ read_at 60 (n - 60) b"
proof -
  have "take n b = take 60 b @ read_at 60 (n - 60) b" using assms by (intro take_read) simp
  also have "take 60 b = take 58 b @ read_at 58 2 b" by (rule take_read) simp
  also have "take 58 b = take 56 b @ read_at 56 2 b" by (rule take_read) simp
  also have "take 56 b = take 54 b @ read_at 54 2 b" by (rule take_read) simp
  also have "take 54 b = take 53 b @ read_at 53 1 b" by (rule take_read) simp
  also have "take 53 b = take 52 b @ read_at 52 1 b" by (rule take_read) simp
  also have "take 52 b = take 48 b @ read_at 48 4 b" by (rule take_read) simp
  also have "take 48 b = take 44 b @ read_at 44 4 b" by (rule take_read) simp
  also have "take 44 b = take 40 b @ read_at 40 4 b" by (rule take_read) simp
  also have "take 40 b = take 24 b @ read_at 24 16 b" by (rule take_read) simp
  also have "take 24 b = take 8 b @ read_at 8 16 b" by (rule take_read) simp
  also have "take 8 b = take 7 b @ read_at 7 1 b" by (rule take_read) simp
  also have "take 7 b = take 6 b @ read_at 6 1 b" by (rule take_read) simp
  also have "take 6 b = take 4 b @ read_at 4 2 b" by (rule take_read) simp
  also have "take 4 b = read_at 0 4 b" by (simp add: read_at_def)
  finally show ?thesis by simp
qed

lemma read_same: "length bs = n \<Longrightarrow> d + n \<le> length mem \<Longrightarrow> read_at d n (write_at d bs mem) = bs"
  using read_write_same by blast

lemma read_write_out: "e + n \<le> d \<or> d + length bs \<le> e \<Longrightarrow> d + length bs \<le> length mem \<Longrightarrow> read_at e n (write_at d bs mem) = read_at e n mem"
  by (elim disjE) (simp_all add: read_write_before read_write_after)

text \<open>A write followed by reads elsewhere and at the same place.\<close>

lemma written:
  assumes "b' = write_at d bs b" "length bs = m" "d + m \<le> length b"
  shows "length b' = length b \<and> read_at d m b' = bs \<and> (\<forall>e n. e + n \<le> d \<or> d + m \<le> e \<longrightarrow> read_at e n b' = read_at e n b)"
  using assms by (simp_all add: read_same read_write_out)

lemma tcp_send_form:
  assumes "60 \<le> unat (uip_len s)" "unat (uip_len s) \<le> length (uip_buf s)" "uip_ext_len s = 0" "c = uip_conns s ! i"
    "length (c_snd_nxt c) = 4" "length (c_rcv_nxt c) = 4" "length (c_ripaddr c) = 16" "length (uip_ds6_select_src (c_ripaddr c) (netif s)) = 16"
    "c_tcpstateflags c AND UIP_STOPPED = 0"
  obtains ck t where "length ck = 2" "tcp_send_noopts i (put 53 [fl] s) = Some t" "uip_tcpchksum t = Some 0xffff" "t = s\<lparr>uip_buf := uip_buf t, uip_flags := 0\<rparr>"
    "length (uip_buf t) = length (uip_buf s)"
    "take (unat (uip_len s)) (uip_buf t) = tcp_bytes (cur_hop_limit (netif s)) (uip_ds6_select_src (c_ripaddr c) (netif s)) (c_ripaddr c)
       (c_lport c) (c_rport c) (c_snd_nxt c) (c_rcv_nxt c) fl (be16_bytes UIP_TCP_MSS) ck (read_at 60 (unat (uip_len s) - 60) (uip_buf s))"
proof -
  let ?src = "uip_ds6_select_src (c_ripaddr c) (netif s)" and ?n = "unat (uip_len s)"
  have lb: "60 \<le> length (uip_buf s)" using assms(1,2) by simp
  define b1 where "b1 = write_at 53 [fl] (uip_buf s)"
  have w1: "length b1 = length (uip_buf s)" "read_at 53 1 b1 = [fl]" "e + n \<le> 53 \<or> 54 \<le> e \<Longrightarrow> read_at e n b1 = read_at e n (uip_buf s)" for e n
    using written [OF b1_def, of 1] lb by auto
  define b2 where "b2 = write_at 52 [0x50] b1"
  have w2: "length b2 = length (uip_buf s)" "read_at 52 1 b2 = [0x50]" "e + n \<le> 52 \<or> 53 \<le> e \<Longrightarrow> read_at e n b2 = read_at e n b1" for e n
    using written [OF b2_def, of 1] lb w1(1) by auto
  define b3 where "b3 = write_at 48 (c_rcv_nxt c) b2"
  have w3: "length b3 = length (uip_buf s)" "read_at 48 4 b3 = c_rcv_nxt c" "e + n \<le> 48 \<or> 52 \<le> e \<Longrightarrow> read_at e n b3 = read_at e n b2" for e n
    using written [OF b3_def, of 4] lb w2(1) assms(6) by auto
  define b4 where "b4 = write_at 44 (c_snd_nxt c) b3"
  have w4: "length b4 = length (uip_buf s)" "read_at 44 4 b4 = c_snd_nxt c" "e + n \<le> 44 \<or> 48 \<le> e \<Longrightarrow> read_at e n b4 = read_at e n b3" for e n
    using written [OF b4_def, of 4] lb w3(1) assms(5) by auto
  define b5 where "b5 = write_at 6 [UIP_PROTO_TCP] b4"
  have w5: "length b5 = length (uip_buf s)" "read_at 6 1 b5 = [UIP_PROTO_TCP]" "e + n \<le> 6 \<or> 7 \<le> e \<Longrightarrow> read_at e n b5 = read_at e n b4" for e n
    using written [OF b5_def, of 1] lb w4(1) by auto
  define b6 where "b6 = write_at 40 (u16_bytes (c_lport c) @ u16_bytes (c_rport c)) b5"
  have w6: "length b6 = length (uip_buf s)" "read_at 40 4 b6 = u16_bytes (c_lport c) @ u16_bytes (c_rport c)"
    "e + n \<le> 40 \<or> 44 \<le> e \<Longrightarrow> read_at e n b6 = read_at e n b5" for e n
    using written [OF b6_def, of 4] lb w5(1) by auto
  define b7 where "b7 = write_at 24 (c_ripaddr c) b6"
  have w7: "length b7 = length (uip_buf s)" "read_at 24 16 b7 = c_ripaddr c" "e + n \<le> 24 \<or> 40 \<le> e \<Longrightarrow> read_at e n b7 = read_at e n b6" for e n
    using written [OF b7_def, of 16] lb w6(1) assms(7) by auto
  define b8 where "b8 = write_at 8 ?src b7"
  have w8: "length b8 = length (uip_buf s)" "read_at 8 16 b8 = ?src" "e + n \<le> 8 \<or> 24 \<le> e \<Longrightarrow> read_at e n b8 = read_at e n b7" for e n
    using written [OF b8_def, of 16] lb w7(1) assms(8) by auto
  define b9 where "b9 = write_at 54 (be16_bytes UIP_TCP_MSS) b8"
  have w9: "length b9 = length (uip_buf s)" "read_at 54 2 b9 = be16_bytes UIP_TCP_MSS" "e + n \<le> 54 \<or> 56 \<le> e \<Longrightarrow> read_at e n b9 = read_at e n b8" for e n
    using written [OF b9_def, of 2] lb w8(1) by auto
  have s1: "tcp_send_noopts i (put 53 [fl] s) = tcp_send_noconn (s\<lparr>uip_buf := b9\<rparr>)"
    by (simp add: tcp_send_noopts_def tcp_send_def Let_def assms(4) [symmetric] assms(9) put_def b1_def b2_def b3_def b4_def b5_def b6_def b7_def b8_def b9_def)
  obtain ck t where t: "length ck = 2" "tcp_send_noconn (s\<lparr>uip_buf := b9\<rparr>) = Some t" "uip_tcpchksum t = Some 0xffff"
    "t = s\<lparr>uip_buf := uip_buf t, uip_flags := 0\<rparr>"
    "uip_buf t = write_at 0 [0x60, 0, 0, 0] (write_at 56 ck (write_at 58 [0, 0]
       (write_at 4 (be16_bytes (uip_len s - 40)) (write_at 7 [cur_hop_limit (netif s)] b9))))"
    using tcp_send_noconn_form [of "s\<lparr>uip_buf := b9\<rparr>"] assms(1-3) w9(1) by auto
  define d1 where "d1 = write_at 7 [cur_hop_limit (netif s)] b9"
  have v1: "length d1 = length (uip_buf s)" "read_at 7 1 d1 = [cur_hop_limit (netif s)]" "e + n \<le> 7 \<or> 8 \<le> e \<Longrightarrow> read_at e n d1 = read_at e n b9" for e n
    using written [OF d1_def, of 1] lb w9(1) by auto
  define d2 where "d2 = write_at 4 (be16_bytes (uip_len s - 40)) d1"
  have v2: "length d2 = length (uip_buf s)" "read_at 4 2 d2 = be16_bytes (uip_len s - 40)" "e + n \<le> 4 \<or> 6 \<le> e \<Longrightarrow> read_at e n d2 = read_at e n d1" for e n
    using written [OF d2_def, of 2] lb v1(1) by auto
  define d3 where "d3 = write_at 58 [0, 0] d2"
  have v3: "length d3 = length (uip_buf s)" "read_at 58 2 d3 = [0, 0]" "e + n \<le> 58 \<or> 60 \<le> e \<Longrightarrow> read_at e n d3 = read_at e n d2" for e n
    using written [OF d3_def, of 2] lb v2(1) by auto
  define d4 where "d4 = write_at 56 ck d3"
  have v4: "length d4 = length (uip_buf s)" "read_at 56 2 d4 = ck" "e + n \<le> 56 \<or> 58 \<le> e \<Longrightarrow> read_at e n d4 = read_at e n d3" for e n
    using written [OF d4_def, of 2] lb v3(1) t(1) by auto
  have t5: "uip_buf t = write_at 0 [0x60, 0, 0, 0] d4" by (simp only: t(5) d1_def d2_def d3_def d4_def)
  have v5: "length (uip_buf t) = length (uip_buf s)" "read_at 0 4 (uip_buf t) = [0x60, 0, 0, 0]" "4 \<le> e \<Longrightarrow> read_at e n (uip_buf t) = read_at e n d4" for e n
    using written [OF t5, of 4] lb v4(1) by auto
  have "(of_nat (20 + (?n - 60)) :: u16) = of_nat ?n - of_nat 40" using assms(1) by (simp add: of_nat_diff)
  moreover have "length (read_at 60 (?n - 60) (uip_buf s)) = ?n - 60" using assms(1,2) by simp
  ultimately have ln: "of_nat (20 + length (read_at 60 (?n - 60) (uip_buf s))) = uip_len s - 40" by simp
  have "take ?n (uip_buf t) = tcp_bytes (cur_hop_limit (netif s)) ?src (c_ripaddr c)
       (c_lport c) (c_rport c) (c_snd_nxt c) (c_rcv_nxt c) fl (be16_bytes UIP_TCP_MSS) ck (read_at 60 (?n - 60) (uip_buf s))"
    unfolding header_pieces [OF assms(1)] tcp_bytes_def ln
    by (simp add: w1 w2 w3 w4 w5 w6 w7 w8 w9 v1 v2 v3 v4 v5 del: One_nat_def)
  then show ?thesis using that t(1-4) v5(1) s1 by simp
qed

end
