(* ===== verification/Uip6.thy ===== *)
theory Uip6
  imports UipTcp
begin

text \<open>
  The IPv6 part of \<open>uip_process\<close> (\<open>core/net/uip6.c\<close>): the checks of the header, extension headers and their
  options, forwarding, ICMPv6, UDP, and the function itself. TCP is in \<open>UipTcp\<close>.
\<close>

abbreviation (input) UIP_DATA :: u8 where "UIP_DATA \<equiv> 1"
abbreviation (input) UIP_TIMER :: u8 where "UIP_TIMER \<equiv> 2"
abbreviation (input) UIP_POLL_REQUEST :: u8 where "UIP_POLL_REQUEST \<equiv> 3"
abbreviation (input) UIP_UDP_SEND_CONN :: u8 where "UIP_UDP_SEND_CONN \<equiv> 4"
abbreviation (input) UIP_UDP_TIMER :: u8 where "UIP_UDP_TIMER \<equiv> 5"

abbreviation (input) UIP_PROTO_HBHO :: u8 where "UIP_PROTO_HBHO \<equiv> 0"
abbreviation (input) UIP_PROTO_DESTO :: u8 where "UIP_PROTO_DESTO \<equiv> 60"
abbreviation (input) UIP_PROTO_ROUTING :: u8 where "UIP_PROTO_ROUTING \<equiv> 43"
abbreviation (input) UIP_PROTO_FRAG :: u8 where "UIP_PROTO_FRAG \<equiv> 44"
abbreviation (input) UIP_PROTO_NONE :: u8 where "UIP_PROTO_NONE \<equiv> 59"

section \<open>Start and connections\<close>

definition uip_init :: "u32 \<Rightarrow> u32 \<Rightarrow> u16 \<Rightarrow> u8 list \<Rightarrow> 'a uip \<Rightarrow> 'a uip" where
  "uip_init now secs rnd lladdr s = s\<lparr>netif := uip_ds6_init now secs rnd lladdr, uip_listenports := replicate UIP_LISTENPORTS 0,
     uip_conns := map (\<lambda>c. c\<lparr>c_tcpstateflags := UIP_CLOSED\<rparr>) (uip_conns s), lastport := 1024,
     uip_udp_conns := map (\<lambda>c. c\<lparr>u_lport := 0\<rparr>) (uip_udp_conns s)\<rparr>"

definition uip_udp_new :: "u8 list option \<Rightarrow> u16 \<Rightarrow> 'a uip \<Rightarrow> (nat option \<times> 'a uip) option" where
  "uip_udp_new ripaddr rport s = do {
     port \<leftarrow> find_port (\<lambda>p. list_ex (\<lambda>c. u_lport c = p) (uip_udp_conns s)) (lastport s);
     let s1 = s\<lparr>lastport := port\<rparr>;
     (case first_match (\<lambda>c. u_lport c = 0) (uip_udp_conns s) 0 of
        None \<Rightarrow> Some (None, s1)
      | Some i \<Rightarrow> Some (Some i, s1\<lparr>uip_udp_conns := (uip_udp_conns s)[i := \<lparr>u_ripaddr = (case ripaddr of None \<Rightarrow> replicate 16 0 | Some a \<Rightarrow> a),
          u_lport = uip_htons port, u_rport = rport, u_ttl = cur_hop_limit (netif s)\<rparr>]\<rparr>))
   }"

text \<open>\<open>data\<close> is none when the application has written to \<open>uip_sappdata\<close> itself.\<close>

definition uip_send :: "u8 list option \<Rightarrow> int \<Rightarrow> 'a uip \<Rightarrow> 'a uip" where
  "uip_send data len s =
     (let copylen = min len (int UIP_BUFSIZE - 60 - (int (uip_sappdata s) - 60)) in
      if copylen > 0 then
        let s1 = s\<lparr>uip_slen := of_int copylen\<rparr> in
        (case data of None \<Rightarrow> s1 | Some d \<Rightarrow> put (uip_sappdata s1) (take (nat copylen) d) s1)
      else s)"

section \<open>Extension headers\<close>

text \<open>What processing the options of a header asks for.\<close>

datatype ext_result = ExtContinue | ExtDiscard | ExtError

partial_function (option) ext_options_loop :: "'a hooks \<Rightarrow> u8 \<Rightarrow> 'a uip \<Rightarrow> (ext_result \<times> 'a uip) option" where
  "ext_options_loop h off s = do {
     len \<leftarrow> byte_at (41 + unat (uip_ext_len s)) (uip_buf s);
     if unat off < unat len * 8 + 8 then do {
       let p = 40 + unat (uip_ext_len s) + unat off;
       ty \<leftarrow> byte_at p (uip_buf s);
       if ty = 0 then ext_options_loop h (off + 1) s
       else if ty = 1 then do {
         n \<leftarrow> byte_at (p + 1) (uip_buf s);
         ext_options_loop h (off + n + 2) s
       } else if ty = 0x63 then
         let (bad, s1) = rpl_verify_header h (unat off) s
         in Some (if bad then ExtDiscard else ExtContinue, s1)
       else if ty AND 0xC0 = 0 then do {
         n \<leftarrow> byte_at (p + 1) (uip_buf s);
         ext_options_loop h (off + n + 2) s
       } else if ty AND 0xC0 = 0x40 then Some (ExtDiscard, s)
       else if ty AND 0xC0 = 0xC0 \<and> uip_is_addr_mcast (ip_dst (uip_buf s)) then Some (ExtDiscard, s)
       else map_option (Pair ExtError) (uip_icmp6_error_output h 4 2 (40 + ucast (uip_ext_len s) + ucast off) s)
     } else Some (ExtContinue, s)
   }"

definition ext_hdr_options_process :: "'a hooks \<Rightarrow> 'a uip \<Rightarrow> (ext_result \<times> 'a uip) option" where
  "ext_hdr_options_process h s = ext_options_loop h 2 s"

text \<open>Behind an extension header: the offset of its next header field, and the length with it.\<close>

definition ext_skip :: "'a uip \<Rightarrow> (nat \<times> 'a uip) option" where
  "ext_skip s = map_option (\<lambda>len. (40 + unat (uip_ext_len s), s\<lparr>uip_ext_len := uip_ext_len s + (push_bit 3 len + 8)\<rparr>))
     (byte_at (41 + unat (uip_ext_len s)) (uip_buf s))"

section \<open>UDP\<close>

definition udp_send :: "'a hooks \<Rightarrow> 'a uip \<Rightarrow> 'a uip option" where
  "udp_send h s =
     (if uip_slen s = 0 then Some (uip_drop s)
      else do {
        let c = uip_udp_conns s ! uip_udp_conn s;
        let s1 = put_ip_len (s\<lparr>uip_len := uip_slen s + 48\<rparr>);
        let s2 = put 44 (be16_bytes (uip_slen s + 8) @ [0, 0]) (put 6 [UIP_PROTO_UDP, u_ttl c] s1);
        let s3 = put 24 (u_ripaddr c) (put 40 (u16_bytes (u_lport c) @ u16_bytes (u_rport c)) s2);
        let s4 = rpl_insert_header h ((put 8 (uip_ds6_select_src (u_ripaddr c) (netif s)) s3)\<lparr>uip_appdata := 60\<rparr>);
        k \<leftarrow> uip_udpchksum s4;
        Some (ip_send_nolen (put 46 (u16_bytes (if NOT k = 0 then 0xffff else NOT k)) s4))
      })"

definition udp_match :: "u8 list \<Rightarrow> uip_udp_conn \<Rightarrow> bool" where
  "udp_match b c \<longleftrightarrow> u_lport c \<noteq> 0 \<and> get_u16 42 b = u_lport c \<and> (u_rport c = 0 \<or> get_u16 40 b = u_rport c) \<and>
     (uip_is_addr_unspecified (u_ripaddr c) \<or> ip_src b = u_ripaddr c)"

definition udp_found :: "'a hooks \<Rightarrow> nat \<Rightarrow> 'a uip \<Rightarrow> 'a uip option" where
  "udp_found h i s = udp_send h (UIP_UDP_APPCALL h (s\<lparr>uip_udp_conn := i, uip_conn := None, uip_flags := UIP_NEWDATA,
     uip_sappdata := 48, uip_appdata := 48, uip_slen := 0\<rparr>))"

definition udp_input :: "'a hooks \<Rightarrow> 'a uip \<Rightarrow> 'a uip option" where
  "udp_input h s0 = do {
     s1 \<leftarrow> remove_ext_hdr s0;
     let s = s1\<lparr>uip_len := uip_len s1 - 48, uip_appdata := 48\<rparr>;
     let b = uip_buf s;
     ok \<leftarrow> (if get_u16 46 b \<noteq> 0 then map_option (\<lambda>c. c = 0xffff) (uip_udpchksum s) else Some True);
     if \<not> ok then Some (uip_drop s)
     else if get_u16 42 b = 0 then Some (uip_drop s)
     else case first_match (udp_match b) (uip_udp_conns s) 0 of
       None \<Rightarrow> Some (uip_drop (s\<lparr>uip_udp_conn := length (uip_udp_conns s)\<rparr>))
     | Some i \<Rightarrow> udp_found h i s
   }"

section \<open>ICMPv6\<close>

definition icmp6_input :: "'a hooks \<Rightarrow> 'a uip \<Rightarrow> 'a uip option" where
  "icmp6_input h s = do {
     c \<leftarrow> uip_icmp6chksum s;
     if c \<noteq> 0xffff then Some (uip_drop s)
     else do {
       ty \<leftarrow> byte_at (40 + unat (uip_ext_len s)) (uip_buf s);
       s1 \<leftarrow> (if ty = 135 then Some (uip_nd6_ns_input h s)
              else if ty = 136 then Some (uip_nd6_na_input h s)
              else if ty = 155 then Some (uip_rpl_input h s)
              else if ty = 128 then uip_icmp6_echo_request_input h s
              else Some (s\<lparr>uip_len := 0\<rparr>));
       Some (if uip_len s1 > 0 then ip_send s1 else uip_drop s1)
     }
   }"

section \<open>The next headers\<close>

text \<open>The answer to a header that is not known or must not stand here; \<open>nh\<close> is \<open>uip_next_hdr\<close>.\<close>

definition bad_hdr :: "'a hooks \<Rightarrow> nat \<Rightarrow> 'a uip \<Rightarrow> 'a uip option" where
  "bad_hdr h nh s = map_option ip_send (uip_icmp6_error_output h 4 1 (of_nat nh) s)"

text \<open>The marks of the headers seen: hop by hop 1, destination options 2 and 64, routing 4.\<close>

partial_function (option) headers_loop :: "'a hooks \<Rightarrow> nat \<Rightarrow> 'a uip \<Rightarrow> 'a uip option" where
  "headers_loop h nh s = do {
     p \<leftarrow> byte_at nh (uip_buf s);
     let m = uip_ext_bitmap s;
     if p = UIP_PROTO_TCP then tcp_input h s
     else if p = UIP_PROTO_UDP then udp_input h s
     else if p = UIP_PROTO_ICMP6 then icmp6_input h s
     else if p = UIP_PROTO_HBHO \<or> p = UIP_PROTO_DESTO then
       if p = UIP_PROTO_HBHO \<and> m AND 1 \<noteq> 0 \<or> p = UIP_PROTO_DESTO \<and> m AND 2 \<noteq> 0 \<and> m AND 0x40 \<noteq> 0 then bad_hdr h nh s
       else do {
         let s1 = s\<lparr>uip_ext_bitmap := m OR (if p = UIP_PROTO_HBHO then 1 else if m AND 2 \<noteq> 0 then 0x40 else 2)\<rparr>;
         (r, s2) \<leftarrow> ext_hdr_options_process h s1;
         (case r of
            ExtContinue \<Rightarrow> Option.bind (ext_skip s2) (\<lambda>(nh1, s3). headers_loop h nh1 s3)
          | ExtDiscard \<Rightarrow> Some (uip_drop s2)
          | ExtError \<Rightarrow> Some (ip_send s2))
       }
     else if p = UIP_PROTO_ROUTING then
       if m AND 4 \<noteq> 0 then bad_hdr h nh s
       else do {
         let s1 = s\<lparr>uip_ext_bitmap := m OR 4\<rparr>;
         left \<leftarrow> byte_at (43 + unat (uip_ext_len s1)) (uip_buf s1);
         if left > 0 then map_option ip_send (uip_icmp6_error_output h 4 0 (40 + ucast (uip_ext_len s1) + 2) s1)
         else Option.bind (ext_skip s1) (\<lambda>(nh1, s3). headers_loop h nh1 s3)
       }
     else if p = UIP_PROTO_FRAG \<or> p = UIP_PROTO_NONE then Some (uip_drop s)
     else bad_hdr h nh s
   }"

section \<open>Packets that arrive\<close>

definition ip_forward :: "'a hooks \<Rightarrow> 'a uip \<Rightarrow> 'a uip option" where
  "ip_forward h s =
     (if uip_len s > UIP_LINK_MTU then map_option ip_send (uip_icmp6_error_output h 2 0 (ucast UIP_LINK_MTU) s)
      else if uip_buf s ! 7 \<le> 1 then map_option ip_send (uip_icmp6_error_output h 3 0 0 s)
      else let s1 = rpl_update_header_empty h s in Some (ip_send (put 7 [uip_buf s1 ! 7 - 1] s1)))"

definition ip_not_mine :: "'a hooks \<Rightarrow> 'a uip \<Rightarrow> 'a uip option" where
  "ip_not_mine h s =
     (let src = ip_src (uip_buf s); dst = ip_dst (uip_buf s) in
      if \<not> uip_is_addr_mcast dst \<and> \<not> uip_is_addr_link_local dst \<and> \<not> uip_is_addr_link_local src \<and>
         \<not> uip_is_addr_unspecified src \<and> \<not> uip_is_addr_loopback dst then ip_forward h s
      else if uip_is_addr_link_local src \<and> \<not> uip_is_addr_unspecified src \<and> \<not> uip_is_addr_loopback dst \<and>
         \<not> uip_is_addr_mcast dst \<and> \<not> uip_ds6_is_addr_onlink dst (netif s) then
        map_option ip_send (uip_icmp6_error_output h 1 2 0 s)
      else Some (uip_drop s))"

definition ip_deliver :: "'a hooks \<Rightarrow> nat \<Rightarrow> 'a uip \<Rightarrow> 'a uip option" where
  "ip_deliver h nh s =
     (let dst = ip_dst (uip_buf s) in
      if \<not> uip_ds6_is_my_addr dst (netif s) \<and> \<not> uip_ds6_is_my_maddr dst (netif s) then ip_not_mine h s
      else headers_loop h nh s)"

definition ip_input :: "'a hooks \<Rightarrow> 'a uip \<Rightarrow> 'a uip option" where
  "ip_input h s0 =
     (let b = uip_buf s0; len = push_bit 8 (ucast (b ! 4)) + ucast (b ! 5) in
      if b ! 0 AND 0xf0 \<noteq> 0x60 then Some (uip_drop s0)
      else if \<not> len \<le> uip_len s0 then Some (uip_drop s0)
      else
        let s = s0\<lparr>uip_len := len + 40\<rparr> in
        if uip_is_addr_mcast (ip_src b) then Some (uip_drop s)
        else
          let s1 = s\<lparr>uip_ext_len := 0, uip_ext_bitmap := 0\<rparr> in
          if b ! 6 = UIP_PROTO_HBHO then do {
            (r, s2) \<leftarrow> ext_hdr_options_process h (s1\<lparr>uip_ext_bitmap := 1\<rparr>);
            (case r of
               ExtContinue \<Rightarrow> Option.bind (ext_skip s2) (\<lambda>(nh, s3). ip_deliver h nh s3)
             | ExtDiscard \<Rightarrow> Some (uip_drop s2)
             | ExtError \<Rightarrow> Some (ip_send s2))
          } else ip_deliver h 6 s1)"

definition uip_process :: "'a hooks \<Rightarrow> u8 \<Rightarrow> 'a uip \<Rightarrow> 'a uip option" where
  "uip_process h flag s0 =
     (if flag = UIP_UDP_SEND_CONN then udp_send h s0
      else
        let s = s0\<lparr>uip_sappdata := 60, uip_appdata := 60\<rparr> in
        if flag = UIP_POLL_REQUEST then (case uip_conn s of None \<Rightarrow> None | Some i \<Rightarrow> tcp_poll h i s)
        else if flag = UIP_TIMER then (case uip_conn s of None \<Rightarrow> None | Some i \<Rightarrow> tcp_timer h i s)
        else if flag = UIP_UDP_TIMER then
          if u_lport (uip_udp_conns s ! uip_udp_conn s) \<noteq> 0 then
            udp_send h (UIP_UDP_APPCALL h (s\<lparr>uip_conn := None, uip_sappdata := 48, uip_appdata := 48, uip_len := 0, uip_slen := 0,
              uip_flags := UIP_POLL\<rparr>))
          else Some (uip_drop s)
        else ip_input h s)"

section \<open>Loops over options\<close>

lemma unat_plus_u8: "unat (c :: u8) + unat n < 256 \<Longrightarrow> unat (c + n) = unat c + unat n"
  by (simp add: unat_word_ariths)

text \<open>An option of kind 3 and length 255 behind a NOP: the index comes back to 0.\<close>

lemma mss_loop_stuck:
  assumes "mss_loop b lim c = Some r" "c = 0 \<or> c = 1" "2 \<le> lim" "b ! 60 = 1" "b ! 61 = 3" "b ! 62 = 255"
  shows False
proof -
  have "b ! 60 = 1 \<and> b ! 61 = 3 \<and> b ! 62 = 255 \<and> 2 \<le> lim \<longrightarrow> c \<noteq> 0 \<and> c \<noteq> 1"
  proof (rule mss_loop.raw_induct [where P = "\<lambda>b lim c r. b ! 60 = 1 \<and> b ! 61 = 3 \<and> b ! 62 = 255 \<and> 2 \<le> lim \<longrightarrow> c \<noteq> 0 \<and> c \<noteq> 1", OF _ assms(1)], goal_cases)
    case (1 f b lim c r)
    show ?case
    proof (intro impI conjI notI)
      assume h: "b ! 60 = 1 \<and> b ! 61 = 3 \<and> b ! 62 = 255 \<and> 2 \<le> lim" and c: "c = 0"
      have "f b lim 1 = Some r" using 1(2) h unfolding c by (simp add: Let_def)
      then show False using 1(1) h by blast
    next
      assume h: "b ! 60 = 1 \<and> b ! 61 = 3 \<and> b ! 62 = 255 \<and> 2 \<le> lim" and c: "c = 1"
      have "f b lim 256 = Some r" using 1(2) h unfolding c by (simp add: Let_def)
      moreover have "(256 :: u8) = 0" by simp
      ultimately have "f b lim 0 = Some r" by (simp only:)
      then show False using 1(1) h by blast
    qed
  qed
  then show False using assms by blast
qed

text \<open>A PadN option of length 254: the offset comes back to 2.\<close>

lemma ext_options_stuck:
  assumes "ext_options_loop h off s = Some r" "off = 2" "44 + unat (uip_ext_len s) \<le> length (uip_buf s)"
    "uip_buf s ! (42 + unat (uip_ext_len s)) = 1" "uip_buf s ! (43 + unat (uip_ext_len s)) = 254"
  shows False
proof -
  let ?H = "\<lambda>s. 44 + unat (uip_ext_len s) \<le> length (uip_buf s) \<and> uip_buf s ! (42 + unat (uip_ext_len s)) = 1 \<and>
    uip_buf s ! (43 + unat (uip_ext_len s)) = 254"
  have "?H s \<longrightarrow> off \<noteq> 2"
  proof (rule ext_options_loop.raw_induct [where P = "\<lambda>h off s r. ?H s \<longrightarrow> off \<noteq> 2", OF _ assms(1)], goal_cases)
    case (1 f h off s r)
    show ?case
    proof (intro impI notI)
      assume g: "?H s" and c: "off = 2"
      let ?e = "unat (uip_ext_len s)"
      have i: "40 + ?e + unat (2 :: u8) = 42 + ?e" "40 + ?e + unat (2 :: u8) + 1 = 43 + ?e" by simp_all
      have l: "byte_at (41 + ?e) (uip_buf s) = Some (uip_buf s ! (41 + ?e))" "byte_at (42 + ?e) (uip_buf s) = Some 1"
        "byte_at (43 + ?e) (uip_buf s) = Some 254"
        using g by (simp_all add: byte_at_def)
      have "f h 258 s = Some r" using 1(2) unfolding c i l Let_def by (simp add: i l)
      moreover have "(258 :: u8) = 2" by simp
      ultimately have "f h 2 s = Some r" by (simp only:)
      then show False using 1(1) g by blast
    qed
  qed
  then show False using assms by blast
qed

section \<open>Stale lengths\<close>

text \<open>A connection and an interface whose addresses have the sizes of the code's types.\<close>

definition conn_wf :: "'a uip \<Rightarrow> nat \<Rightarrow> bool" where
  "conn_wf s i \<longleftrightarrow> i < length (uip_conns s) \<and> length (c_snd_nxt (uip_conns s ! i)) = 4 \<and> length (c_rcv_nxt (uip_conns s ! i)) = 4 \<and>
     length (c_ripaddr (uip_conns s ! i)) = 16 \<and> (\<forall>a \<in> set (addr_list (netif s)). length (ad_ipaddr a) = 16)"

lemma put_len: "(put i bs s)\<lparr>uip_len := n\<rparr> = put i bs (s\<lparr>uip_len := n\<rparr>)"
  by (cases s) (simp add: put_def)

lemma select_loop_in: "select_loop dst as best m = Some a \<Longrightarrow> m = Some a \<or> a \<in> set as"
  by (induction dst as best m rule: select_loop.induct) (auto simp: Let_def split: if_splits)

lemma length_select_src: "\<forall>a \<in> set (addr_list s). length (ad_ipaddr a) = 16 \<Longrightarrow> length (uip_ds6_select_src dst s) = 16"
  using select_loop_in [of dst "addr_list s" 0 None]
  by (auto simp: uip_ds6_select_src_def uip_create_unspecified_def uip_ds6_get_link_local_def find_Some_iff split: option.splits)

end
