(* ===== verification/UipStream.thy ===== *)
theory UipStream
  imports Uip6
begin

text \<open>
  A TCP connection between two nodes that run \<open>uip_process\<close>: what a segment is on the way, what a node does
  with it, and the invariant of the two nodes and of a network that loses, duplicates and reorders packets.
\<close>

section \<open>Packets with a TCP segment\<close>

definition tcp_sum :: "u8 list \<Rightarrow> u16" where
  "tcp_sum p = chksum (chksum (of_nat (length p) - 40 + ucast UIP_PROTO_TCP) (read_at 8 32 p)) (drop 40 p)"

definition tcp_sum_ok :: "u8 list \<Rightarrow> bool" where
  "tcp_sum_ok p \<longleftrightarrow> tcp_sum p = 0 \<or> tcp_sum p = 0xffff"

lemma read_take: "e + m \<le> n \<Longrightarrow> read_at e m (take n b) = read_at e m b"
  by (simp add: read_at_def drop_take min_def)

lemma nth_read: "k < length b \<Longrightarrow> read_at k 1 b = [b ! k]"
  by (simp add: read_at_def take_Suc_conv_app_nth Cons_nth_drop_Suc [symmetric])

lemma uip_htons_ffff: "uip_htons w = 0xffff \<longleftrightarrow> w = 0xffff"
proof
  assume "uip_htons w = 0xffff"
  then have "uip_htons (uip_htons w) = uip_htons 0xffff" by (simp only:)
  then show "w = 0xffff" by (simp add: uip_htons_htons) (simp add: uip_htons_def)
qed (simp add: uip_htons_def)

text \<open>The checksum of the buffer is a matter of the packet in it.\<close>

lemma tcpchksum_packet:
  assumes "take (length p) (uip_buf s) = p" "60 \<le> length p" "uip_ext_len s = 0" "upper_layer_len s = of_nat (length p) - 40" "length p < 65536"
  shows "uip_tcpchksum s = Some (if tcp_sum p = 0 then 0xffff else uip_htons (tcp_sum p))"
proof -
  have lp: "length p \<le> length (uip_buf s)" using assms(1) by (metis length_take min.cobounded1)
  have n: "unat (of_nat (length p) - 40 :: u16) = length p - 40"
    using assms(2,5) by (simp add: unat_sub word_le_nat_alt unat_of_nat_u16 del: of_nat_add)
  have "read_at 40 (length p - 40) (uip_buf s) = drop 40 p"
    using read_take [of 40 "length p - 40" "length p" "uip_buf s"] assms(1,2) by (simp add: read_at_def)
  moreover have "read_at 8 32 (uip_buf s) = read_at 8 32 p"
    using read_take [of 8 32 "length p" "uip_buf s"] assms(1,2) by simp
  ultimately show ?thesis using assms(2-4) lp
    by (simp add: uip_tcpchksum_def upper_layer_chksum_def tcp_sum_def bytes_at_def n Let_def)
qed

lemma length_tcp_bytes:
  "length src = 16 \<Longrightarrow> length dst = 16 \<Longrightarrow> length sq = 4 \<Longrightarrow> length ak = 4 \<Longrightarrow> length wnd = 2 \<Longrightarrow> length ck = 2 \<Longrightarrow>
     length (tcp_bytes hop src dst sp dp sq ak fl wnd ck data) = 60 + length data"
  by (simp add: tcp_bytes_def)

lemma get_u16_bytes: "read_at i 2 b = u16_bytes w \<Longrightarrow> i + 2 \<le> length b \<Longrightarrow> get_u16 i b = w"
proof -
  assume r: "read_at i 2 b = u16_bytes w" and l: "i + 2 \<le> length b"
  have "b ! (i + k) = read_at i 2 b ! k" if "k < 2" for k using that l by (simp add: read_at_def)
  from this [of 0] this [of 1] have "b ! i = ucast w" "b ! (i + 1) = ucast (drop_bit 8 w)" by (simp_all add: r u16_bytes_def)
  then have "get_u16 i b = ucast (ucast w :: u8) OR push_bit 8 (ucast (ucast (drop_bit 8 w) :: u8))" by (simp add: get_u16_def)
  also have "\<dots> = w" by (rule bit_word_eqI) (auto simp: bit_simps)
  finally show ?thesis .
qed

lemma read_skip: "length a \<le> e \<Longrightarrow> read_at e m (a @ b) = read_at (e - length a) m b"
  by (simp add: read_at_def)

lemma read_here: "length a = m \<Longrightarrow> read_at 0 m (a @ b) = a"
  by (simp add: read_at_def)

lemma tcp_bytes_fields:
  assumes "p = tcp_bytes hop src dst sp dp sq ak fl wnd ck data" "length src = 16" "length dst = 16" "length sq = 4" "length ak = 4"
    "length wnd = 2" "length ck = 2"
  shows "read_at 0 1 p = [0x60]" "read_at 4 2 p = be16_bytes (of_nat (20 + length data))" "read_at 6 1 p = [UIP_PROTO_TCP]"
    "read_at 8 16 p = src" "read_at 24 16 p = dst" "read_at 40 2 p = u16_bytes sp" "read_at 42 2 p = u16_bytes dp" "read_at 44 4 p = sq"
    "read_at 48 4 p = ak" "read_at 52 1 p = [0x50]" "read_at 53 1 p = [fl]" "read_at 54 2 p = wnd" "read_at 60 (length data) p = data"
  unfolding assms(1) tcp_bytes_def using assms(2-7)
  by (simp_all add: read_skip read_here del: One_nat_def append_Cons append.simps) (simp_all add: read_at_def)

section \<open>A packet that arrives\<close>

text \<open>The layer below leaves the packet in \<open>uip_buf\<close> and its length in \<open>uip_len\<close>.\<close>

definition load_packet :: "u8 list \<Rightarrow> 'a uip \<Rightarrow> 'a uip" where
  "load_packet p s = s\<lparr>uip_buf := write_at 0 p (uip_buf s), uip_len := of_nat (length p)\<rparr>"

definition arrived :: "u8 list \<Rightarrow> 'a uip \<Rightarrow> 'a uip" where
  "arrived p s = (load_packet p s)\<lparr>uip_sappdata := 60, uip_appdata := 60, uip_ext_len := 0, uip_ext_bitmap := 0\<rparr>"

definition seg :: "u8 list \<Rightarrow> u8 list \<Rightarrow> u8 list \<Rightarrow> u16 \<Rightarrow> u16 \<Rightarrow> u8 list \<Rightarrow> u8 list \<Rightarrow> u8 \<Rightarrow> u8 list \<Rightarrow> bool" where
  "seg p src dst sp dp sq ak fl data \<longleftrightarrow> (\<exists>hop wnd ck. p = tcp_bytes hop src dst sp dp sq ak fl wnd ck data \<and> length wnd = 2 \<and> length ck = 2) \<and>
     length src = 16 \<and> length dst = 16 \<and> length sq = 4 \<and> length ak = 4 \<and> length data \<le> 340 \<and> tcp_sum_ok p"

lemma seg_length: "seg p src dst sp dp sq ak fl data \<Longrightarrow> length p = 60 + length data"
  unfolding seg_def by (elim conjE exE) (simp only: length_tcp_bytes)

lemma seg_len: "seg p src dst sp dp sq ak fl data \<Longrightarrow> 60 \<le> length p \<and> length p \<le> 400"
  using seg_length [of p src dst sp dp sq ak fl data] by (simp add: seg_def)

lemma arrived_simps [simp]: "uip_conns (arrived p s) = uip_conns s" "netif (arrived p s) = netif s" "app (arrived p s) = app s"
  "uip_ext_len (arrived p s) = 0" "uip_len (arrived p s) = of_nat (length p)" "uip_appdata (arrived p s) = 60"
  "uip_buf (arrived p s) = write_at 0 p (uip_buf s)"
  by (simp_all add: arrived_def load_packet_def)

lemma seg_arrived:
  assumes g: "seg p src dst sp dp sq ak fl data" and l: "length (uip_buf s) = 400" and b: "b = write_at 0 p (uip_buf s)"
  shows "length b = 400" "take (length p) b = p" "b ! 0 = 0x60" "push_bit 8 (ucast (b ! 4)) + ucast (b ! 5) = (of_nat (length p) - 40 :: u16)"
    "b ! 6 = UIP_PROTO_TCP" "ip_src b = src" "ip_dst b = dst" "get_u16 40 b = sp" "get_u16 42 b = dp" "read_at 44 4 b = sq"
    "read_at 48 4 b = ak" "b ! 52 = 0x50" "b ! 53 = fl" "read_at 60 (length data) b = data"
proof -
  note lp = seg_length [OF g] seg_len [OF g]
  show lb: "length b = 400" using l lp by (simp add: b)
  show t: "take (length p) b = p" by (simp add: b write_at_def)
  obtain hop wnd ck where e: "p = tcp_bytes hop src dst sp dp sq ak fl wnd ck data" "length wnd = 2" "length ck = 2"
    and ln: "length src = 16" "length dst = 16" "length sq = 4" "length ak = 4" using g by (auto simp: seg_def)
  note f = tcp_bytes_fields [OF e(1) ln e(2,3)]
  have r: "read_at k m b = read_at k m p" if "k + m \<le> length p" for k m using read_take [OF that, of b] t by simp
  have n: "b ! k = v" if "read_at k 1 p = [v]" "k < 60" for k v
    using r [of k 1] that nth_read [of k b] lb lp by simp
  show "b ! 0 = 0x60" "b ! 6 = UIP_PROTO_TCP" "b ! 52 = 0x50" "b ! 53 = fl" by (rule n, rule f, simp)+
  show "ip_src b = src" "ip_dst b = dst" "read_at 44 4 b = sq" "read_at 48 4 b = ak" "read_at 60 (length data) b = data"
    using lp by (simp_all add: ip_src_def ip_dst_def r f)
  show "get_u16 40 b = sp" "get_u16 42 b = dp" using lp lb by (auto intro!: get_u16_bytes simp: r f)
  have w: "(of_nat (20 + length data) :: u16) = of_nat (length p) - 40" by (simp add: lp(1))
  have "b ! (4 + k) = be16_bytes (of_nat (length p) - 40) ! k" if "k < 2" for k
  proof -
    have "b ! (4 + k) = read_at 4 2 b ! k" using that lb by (simp add: read_at_def)
    also have "read_at 4 2 b = be16_bytes (of_nat (length p) - 40)" using lp r [of 4 2] by (simp only: f w)
    finally show ?thesis .
  qed
  from this [of 0] this [of 1] show "push_bit 8 (ucast (b ! 4)) + ucast (b ! 5) = (of_nat (length p) - 40 :: u16)"
    using be16_of_bytes [of "of_nat (length p) - 40"] by (simp add: be16_bytes_def be16_of_add)
qed

lemma seg_chksum:
  assumes "seg p src dst sp dp sq ak fl data" "length (uip_buf s) = 400"
  shows "uip_tcpchksum (arrived p s) = Some 0xffff"
proof -
  note f = seg_arrived [OF assms refl]
  have "upper_layer_len (arrived p s) = of_nat (length p) - 40" by (simp add: upper_layer_len_def f(4))
  moreover have "60 \<le> length p" "length p < 65536" using seg_len [OF assms(1)] by simp_all
  ultimately have "uip_tcpchksum (arrived p s) = Some (if tcp_sum p = 0 then 0xffff else uip_htons (tcp_sum p))"
    using f(2) by (intro tcpchksum_packet) simp_all
  then show ?thesis using assms(1) by (auto simp: seg_def tcp_sum_ok_def uip_htons_ffff)
qed

text \<open>A segment for an address of the node reaches the demultiplexing of TCP.\<close>

lemma process_segment:
  assumes g: "seg p src dst sp dp sq ak fl data" and l: "length (uip_buf s) = 400" and m: "\<not> uip_is_addr_mcast src"
    "uip_ds6_is_my_addr dst (netif s)" "sp \<noteq> 0" "dp \<noteq> 0"
  shows "uip_process h UIP_DATA (load_packet p s) =
    (case first_match (tcp_match (uip_buf (arrived p s))) (uip_conns s) 0 of Some i \<Rightarrow> tcp_found h i (arrived p s)
     | None \<Rightarrow> if fl AND TCP_CTL \<noteq> TCP_SYN then tcp_reset (arrived p s)
         else if dp \<in> set (uip_listenports s) then tcp_found_listen (arrived p s) else tcp_reset (arrived p s))"
proof -
  let ?b = "write_at 0 p (uip_buf s)"
  note f = seg_arrived [OF g l refl]
  have n: "(of_nat (length p) - 40 :: u16) \<le> of_nat (length p)"
    using seg_len [OF g] by (simp add: word_le_nat_alt unat_sub unat_of_nat_u16 del: of_nat_add)
  have v: "(0x60 :: u8) AND 0xf0 = 0x60" by simp
  let ?s1 = "(load_packet p s)\<lparr>uip_sappdata := 60, uip_appdata := 60\<rparr>"
  have b1: "uip_buf ?s1 = ?b" "uip_len ?s1 = of_nat (length p)" "netif ?s1 = netif s" by (simp_all add: load_packet_def)
  have a: "?s1\<lparr>uip_len := of_nat (length p) - 40 + 40, uip_ext_len := 0, uip_ext_bitmap := 0\<rparr> = arrived p s"
    by (simp add: arrived_def load_packet_def)
  have "uip_process h UIP_DATA (load_packet p s) = ip_input h ?s1" by (simp add: uip_process_def)
  also have "\<dots> = ip_deliver h 6 (arrived p s)"
    unfolding ip_input_def Let_def b1 f(3-6) v a using n m(1) by (simp add: a)
  also have "\<dots> = headers_loop h 6 (arrived p s)" using m(2) by (simp add: ip_deliver_def f(7))
  also have "\<dots> = tcp_input h (arrived p s)"
    by (subst headers_loop.simps) (simp add: byte_at_def f(1,5))
  also have "\<dots> = (case first_match (tcp_match ?b) (uip_conns s) 0 of Some i \<Rightarrow> tcp_found h i (arrived p s)
     | None \<Rightarrow> if fl AND TCP_CTL \<noteq> TCP_SYN then tcp_reset (arrived p s)
         else if dp \<in> set (uip_listenports s) then tcp_found_listen (arrived p s) else tcp_reset (arrived p s))"
    using seg_chksum [OF g l] m(3,4) unfolding tcp_input_def
    by (simp add: remove_ext_hdr_def f(8,9,13) arrived_def load_packet_def split: option.splits)
  finally show ?thesis by simp
qed

section \<open>Packets that are sent\<close>

definition emitted :: "'a uip \<Rightarrow> u8 list set" where
  "emitted s = (if uip_len s = 0 then {} else {take (unat (uip_len s)) (uip_buf s)})"

text \<open>A packet whose checksum the sender finds right.\<close>

lemma seg_sent:
  assumes t: "uip_tcpchksum t = Some 0xffff" "uip_ext_len t = 0" "length (uip_buf t) = 400" "uip_len t = of_nat (60 + length data)"
    "take (60 + length data) (uip_buf t) = tcp_bytes hop src dst sp dp sq ak fl wnd ck data"
    and l: "length src = 16" "length dst = 16" "length sq = 4" "length ak = 4" "length wnd = 2" "length ck = 2" "length data \<le> 340"
  shows "\<exists>p. emitted t = {p} \<and> seg p src dst sp dp sq ak fl data"
proof -
  let ?p = "tcp_bytes hop src dst sp dp sq ak fl wnd ck data" and ?b = "uip_buf t"
  note f = tcp_bytes_fields [OF refl l(1-6), where hop = hop and sp = sp and dp = dp and fl = fl and data = data]
  have lp: "length ?p = 60 + length data" using l by (simp add: length_tcp_bytes)
  have u: "unat (uip_len t) = 60 + length data" unfolding t(4) using l(7) by (intro unat_of_nat_u16) simp
  have "uip_len t \<noteq> 0"
  proof
    assume "uip_len t = 0"
    then have "unat (uip_len t) = 0" by (simp only: unat_0)
    then show False using u by simp
  qed
  then have e: "emitted t = {?p}" by (simp add: emitted_def u t(5))
  have w: "(of_nat (20 + length data) :: u16) = of_nat (length ?p) - 40" by (simp add: lp)
  have "?b ! (4 + k) = be16_bytes (of_nat (length ?p) - 40) ! k" if "k < 2" for k
  proof -
    have "?b ! (4 + k) = read_at 4 2 ?b ! k" using that t(3) by (simp add: read_at_def)
    also have "read_at 4 2 ?b = read_at 4 2 (take (60 + length data) ?b)" by (rule read_take [symmetric]) simp
    also have "\<dots> = be16_bytes (of_nat (length ?p) - 40)" by (simp only: t(5) f w)
    finally show ?thesis .
  qed
  from this [of 0] this [of 1] have "upper_layer_len t = of_nat (length ?p) - 40"
    using be16_of_bytes [of "of_nat (length ?p) - 40"] t(2) by (simp add: be16_bytes_def be16_of_add upper_layer_len_def)
  then have "uip_tcpchksum t = Some (if tcp_sum ?p = 0 then 0xffff else uip_htons (tcp_sum ?p))"
    using t(2,5) l(7) lp by (intro tcpchksum_packet) simp_all
  then have "tcp_sum_ok ?p" using t(1) by (auto simp: tcp_sum_ok_def uip_htons_ffff split: if_splits)
  then show ?thesis using e l by (auto simp: seg_def)
qed

lemma tcp_send_seg:
  assumes "uip_len s = of_nat (60 + m)" "m \<le> 340" "length (uip_buf s) = 400" "uip_ext_len s = 0" "c = uip_conns s ! i"
    "length (c_snd_nxt c) = 4" "length (c_rcv_nxt c) = 4" "length (c_ripaddr c) = 16" "length (uip_ds6_select_src (c_ripaddr c) (netif s)) = 16"
    "c_tcpstateflags c AND UIP_STOPPED = 0"
  obtains t p where "tcp_send_noopts i (put 53 [fl] s) = Some t" "t = s\<lparr>uip_buf := uip_buf t, uip_flags := 0\<rparr>" "length (uip_buf t) = 400"
    "emitted t = {p}" "seg p (uip_ds6_select_src (c_ripaddr c) (netif s)) (c_ripaddr c) (c_lport c) (c_rport c) (c_snd_nxt c) (c_rcv_nxt c) fl
      (read_at 60 m (uip_buf s))"
proof -
  have u: "unat (uip_len s) = 60 + m" unfolding assms(1) using assms(2) by (intro unat_of_nat_u16) simp
  obtain ck t where t: "length ck = 2" "tcp_send_noopts i (put 53 [fl] s) = Some t" "uip_tcpchksum t = Some 0xffff"
    "t = s\<lparr>uip_buf := uip_buf t, uip_flags := 0\<rparr>" "length (uip_buf t) = length (uip_buf s)"
    "take (unat (uip_len s)) (uip_buf t) = tcp_bytes (cur_hop_limit (netif s)) (uip_ds6_select_src (c_ripaddr c) (netif s)) (c_ripaddr c)
       (c_lport c) (c_rport c) (c_snd_nxt c) (c_rcv_nxt c) fl (be16_bytes UIP_TCP_MSS) ck (read_at 60 (unat (uip_len s) - 60) (uip_buf s))"
    by (rule tcp_send_form [OF _ _ assms(4-10), of fl]) (use u assms(2,3) in simp_all)
  have k: "uip_ext_len t = 0" "uip_len t = uip_len s" using assms(4) by (subst t(4); simp)+
  let ?d = "read_at 60 m (uip_buf s)"
  have ld: "length ?d = m" using assms(2,3) by simp
  have "\<exists>p. emitted t = {p} \<and> seg p (uip_ds6_select_src (c_ripaddr c) (netif s)) (c_ripaddr c) (c_lport c) (c_rport c) (c_snd_nxt c) (c_rcv_nxt c) fl ?d"
  proof (rule seg_sent [OF t(3) k(1)])
    show "length (uip_buf t) = 400" "uip_len t = of_nat (60 + length ?d)" using t(5) assms(1,3) by (simp_all only: k(2) ld)
    show "take (60 + length ?d) (uip_buf t) = tcp_bytes (cur_hop_limit (netif s)) (uip_ds6_select_src (c_ripaddr c) (netif s)) (c_ripaddr c)
       (c_lport c) (c_rport c) (c_snd_nxt c) (c_rcv_nxt c) fl (be16_bytes UIP_TCP_MSS) ck ?d"
      using t(6) u by (simp add: ld)
  qed (use assms ld t(1) in simp_all)
  then show ?thesis using that t(2,4,5) assms(3) by auto
qed

lemma length_inc32 [simp]: "length (inc32 b) = 4"
  by (simp add: inc32_def Let_def)

lemma u16_of_ports: "i + 2 \<le> length b \<Longrightarrow> u16_bytes (get_u16 i b) = read_at i 2 b"
proof -
  assume l: "i + 2 \<le> length b"
  have "take 2 (drop i b) = [b ! i, b ! (i + 1)]" using l by (simp add: numeral_2_eq_2 take_Suc_conv_app_nth)
  moreover have "ucast (get_u16 i b) = b ! i"
    by (rule bit_word_eqI) (auto simp: get_u16_def bit_simps)
  moreover have "ucast (drop_bit 8 (get_u16 i b)) = b ! (i + 1)"
    by (rule bit_word_eqI) (auto simp: get_u16_def bit_simps dest: bit_imp_le_length)
  ultimately show ?thesis by (simp add: u16_bytes_def read_at_def)
qed

lemma tcp_reset_seg:
  assumes "length (uip_buf s) = 400" "uip_ext_len s = 0" "uip_buf s ! 53 AND TCP_RST = 0" "uip_buf s ! 6 = UIP_PROTO_TCP"
    "\<forall>a \<in> set (addr_list (netif s)). length (ad_ipaddr a) = 16"
  obtains t p where "tcp_reset s = Some t" "t = s\<lparr>uip_len := 60, uip_buf := uip_buf t, uip_flags := 0\<rparr>" "length (uip_buf t) = 400"
    "emitted t = {p}" "seg p (uip_ds6_select_src (ip_src (uip_buf s)) (netif s)) (ip_src (uip_buf s)) (get_u16 42 (uip_buf s)) (get_u16 40 (uip_buf s))
      (read_at 48 4 (uip_buf s)) (inc32 (read_at 44 4 (uip_buf s))) (TCP_RST OR TCP_ACK) []"
proof -
  let ?b = "uip_buf s" and ?src = "uip_ds6_select_src (ip_src (uip_buf s)) (netif s)"
  have p6: "read_at 6 1 ?b = [UIP_PROTO_TCP]" using assms(1,4) by (simp add: nth_read del: One_nat_def)
  have ls: "length ?src = 16" using assms(5) by (rule length_select_src)
  have li: "length (ip_src ?b) = 16" using assms(1) by (simp add: ip_src_def)
  define b1 where "b1 = write_at 52 [0x50, TCP_RST OR TCP_ACK] ?b"
  have w1: "length b1 = 400" "read_at 52 2 b1 = [0x50, TCP_RST OR TCP_ACK]" "e + n \<le> 52 \<or> 54 \<le> e \<Longrightarrow> read_at e n b1 = read_at e n ?b" for e n
    using written [OF b1_def, of 2] assms(1) by auto
  define b2 where "b2 = write_at 44 (read_at 48 4 ?b @ inc32 (read_at 44 4 ?b)) b1"
  have w2: "length b2 = 400" "read_at 44 8 b2 = read_at 48 4 ?b @ inc32 (read_at 44 4 ?b)" "e + n \<le> 44 \<or> 52 \<le> e \<Longrightarrow> read_at e n b2 = read_at e n b1" for e n
    using written [OF b2_def, of 8] w1(1) assms(1) by auto
  define b3 where "b3 = write_at 40 (read_at 42 2 ?b @ read_at 40 2 ?b) b2"
  have w3: "length b3 = 400" "read_at 40 4 b3 = read_at 42 2 ?b @ read_at 40 2 ?b" "e + n \<le> 40 \<or> 44 \<le> e \<Longrightarrow> read_at e n b3 = read_at e n b2" for e n
    using written [OF b3_def, of 4] w2(1) assms(1) by auto
  define b4 where "b4 = write_at 24 (ip_src ?b) b3"
  have w4: "length b4 = 400" "read_at 24 16 b4 = ip_src ?b" "e + n \<le> 24 \<or> 40 \<le> e \<Longrightarrow> read_at e n b4 = read_at e n b3" for e n
    using written [OF b4_def, of 16] w3(1) li by auto
  define b5 where "b5 = write_at 8 ?src b4"
  have w5: "length b5 = 400" "read_at 8 16 b5 = ?src" "e + n \<le> 8 \<or> 24 \<le> e \<Longrightarrow> read_at e n b5 = read_at e n b4" for e n
    using written [OF b5_def, of 16] w4(1) ls by auto
  let ?s5 = "s\<lparr>uip_buf := b5, uip_len := 60\<rparr>"
  have "put 8 ?src (put 24 (ip_src ?b) (put 40 (read_at 42 2 ?b @ read_at 40 2 ?b) (put 44 (read_at 48 4 ?b @ inc32 (read_at 44 4 ?b))
      ((put 52 [0x50, TCP_RST OR TCP_ACK] s)\<lparr>uip_len := 60\<rparr>)))) = ?s5"
    by (cases s) (simp add: put_def b1_def b2_def b3_def b4_def b5_def)
  then have s1: "tcp_reset s = tcp_send_noconn ?s5"
    using assms(3) by (simp add: tcp_reset_def Let_def)
  obtain ck t where t: "length ck = 2" "tcp_send_noconn ?s5 = Some t" "uip_tcpchksum t = Some 0xffff" "t = ?s5\<lparr>uip_buf := uip_buf t, uip_flags := 0\<rparr>"
    "uip_buf t = write_at 0 [0x60, 0, 0, 0] (write_at 56 ck (write_at 58 [0, 0]
       (write_at 4 (be16_bytes (60 - 40)) (write_at 7 [cur_hop_limit (netif s)] b5))))"
    using tcp_send_noconn_form [of ?s5] assms(2) w5(1) by auto
  define d1 where "d1 = write_at 7 [cur_hop_limit (netif s)] b5"
  have v1: "length d1 = 400" "read_at 7 1 d1 = [cur_hop_limit (netif s)]" "e + n \<le> 7 \<or> 8 \<le> e \<Longrightarrow> read_at e n d1 = read_at e n b5" for e n
    using written [OF d1_def, of 1] w5(1) by auto
  define d2 where "d2 = write_at 4 (be16_bytes (60 - 40)) d1"
  have v2: "length d2 = 400" "read_at 4 2 d2 = be16_bytes (60 - 40)" "e + n \<le> 4 \<or> 6 \<le> e \<Longrightarrow> read_at e n d2 = read_at e n d1" for e n
    using written [OF d2_def, of 2] v1(1) by auto
  define d3 where "d3 = write_at 58 [0, 0] d2"
  have v3: "length d3 = 400" "read_at 58 2 d3 = [0, 0]" "e + n \<le> 58 \<or> 60 \<le> e \<Longrightarrow> read_at e n d3 = read_at e n d2" for e n
    using written [OF d3_def, of 2] v2(1) by auto
  define d4 where "d4 = write_at 56 ck d3"
  have v4: "length d4 = 400" "read_at 56 2 d4 = ck" "e + n \<le> 56 \<or> 58 \<le> e \<Longrightarrow> read_at e n d4 = read_at e n d3" for e n
    using written [OF d4_def, of 2] v3(1) t(1) by auto
  have t5: "uip_buf t = write_at 0 [0x60, 0, 0, 0] d4" by (simp only: t(5) d1_def d2_def d3_def d4_def)
  have v5: "length (uip_buf t) = 400" "read_at 0 4 (uip_buf t) = [0x60, 0, 0, 0]" "4 \<le> e \<Longrightarrow> read_at e n (uip_buf t) = read_at e n d4" for e n
    using written [OF t5, of 4] v4(1) by auto
  have k: "uip_ext_len t = 0" "uip_len t = of_nat (60 + length [])" using assms(2) by (subst t(4); simp)+
  have sp: "read_at 44 4 b2 = read_at 48 4 ?b" "read_at 48 4 b2 = inc32 (read_at 44 4 ?b)" "read_at 52 1 b1 = [0x50]" "read_at 53 1 b1 = [TCP_RST OR TCP_ACK]"
  proof -
    have "read_at 44 4 b2 = read_at 0 4 (read_at 44 8 b2)" "read_at 48 4 b2 = read_at 4 4 (read_at 44 8 b2)"
      "read_at 52 1 b1 = read_at 0 1 (read_at 52 2 b1)" "read_at 53 1 b1 = read_at 1 1 (read_at 52 2 b1)" by (simp_all add: read_read)
    then show "read_at 44 4 b2 = read_at 48 4 ?b" "read_at 48 4 b2 = inc32 (read_at 44 4 ?b)" "read_at 52 1 b1 = [0x50]" "read_at 53 1 b1 = [TCP_RST OR TCP_ACK]"
      unfolding w1 w2 using assms(1) by (simp_all add: read_here read_skip) (simp_all add: read_at_def)
  qed
  have wnd: "length (read_at 54 2 ?b) = 2" using assms(1) by simp
  have "take 60 (uip_buf t) = tcp_bytes (cur_hop_limit (netif s)) ?src (ip_src ?b) (get_u16 42 ?b) (get_u16 40 ?b)
      (read_at 48 4 ?b) (inc32 (read_at 44 4 ?b)) (TCP_RST OR TCP_ACK) (read_at 54 2 ?b) ck []"
    using assms(1) unfolding header_pieces [OF order_refl] tcp_bytes_def
    by (simp add: w1(3) w2(3) w3 w4 w5 v1 v2 v3 v4 v5 sp p6 u16_of_ports read_at_def [of 60 0] del: One_nat_def)
  then have "\<exists>p. emitted t = {p} \<and> seg p ?src (ip_src ?b) (get_u16 42 ?b) (get_u16 40 ?b) (read_at 48 4 ?b) (inc32 (read_at 44 4 ?b)) (TCP_RST OR TCP_ACK) []"
    using assms(1) ls li t(1) wnd by (intro seg_sent [OF t(3) k(1) v5(1) k(2), where wnd = "read_at 54 2 ?b" and ck = ck]) simp_all
  moreover have "t = s\<lparr>uip_len := 60, uip_buf := uip_buf t, uip_flags := 0\<rparr>" using t(4) by simp
  ultimately show ?thesis using that t(2) s1 v5(1) by auto
qed

section \<open>A node with one connection\<close>

text \<open>What does not change while the node runs: the interface, and that connection \<open>i\<close> is the only one in use.\<close>

definition node :: "ds6_if \<Rightarrow> nat \<Rightarrow> uip_conn \<Rightarrow> 'a uip \<Rightarrow> bool" where
  "node nf i c s \<longleftrightarrow> netif s = nf \<and> uip_ext_len s = 0 \<and> length (uip_buf s) = UIP_BUFSIZE \<and> i < length (uip_conns s) \<and> uip_conns s ! i = c \<and>
     (\<forall>k < length (uip_conns s). k \<noteq> i \<longrightarrow> c_tcpstateflags (uip_conns s ! k) = UIP_CLOSED)"

text \<open>The two ends of the connection, seen from one of them.\<close>

record ends =
  my_addr :: "u8 list"
  his_addr :: "u8 list"
  my_port :: u16
  his_port :: u16

definition ends_ok :: "ds6_if \<Rightarrow> ends \<Rightarrow> bool" where
  "ends_ok nf e \<longleftrightarrow> uip_ds6_is_my_addr (my_addr e) nf \<and> \<not> uip_is_addr_mcast (his_addr e) \<and> uip_ds6_select_src (his_addr e) nf = my_addr e \<and>
     length (my_addr e) = 16 \<and> length (his_addr e) = 16 \<and> my_port e \<noteq> 0 \<and> his_port e \<noteq> 0 \<and> (\<forall>a \<in> set (addr_list nf). length (ad_ipaddr a) = 16)"

definition conn_ok :: "ends \<Rightarrow> uip_conn \<Rightarrow> bool" where
  "conn_ok e c \<longleftrightarrow> c_ripaddr c = his_addr e \<and> c_lport c = my_port e \<and> c_rport c = his_port e \<and> length (c_snd_nxt c) = 4 \<and>
     length (c_rcv_nxt c) = 4 \<and> (c_tcpstateflags c = UIP_ESTABLISHED \<or> c_tcpstateflags c = UIP_CLOSED) \<and>
     c_mss c \<le> UIP_TCP_MSS \<and> c_initialmss c \<le> UIP_TCP_MSS \<and> c_len c \<le> UIP_TCP_MSS"

abbreviation (input) seg_in :: "ends \<Rightarrow> u8 list \<Rightarrow> u8 list \<Rightarrow> u8 list \<Rightarrow> u8 \<Rightarrow> u8 list \<Rightarrow> bool" where
  "seg_in e p sq ak fl data \<equiv> seg p (his_addr e) (my_addr e) (his_port e) (my_port e) sq ak fl data"

abbreviation (input) seg_out :: "ends \<Rightarrow> u8 list \<Rightarrow> u8 list \<Rightarrow> u8 list \<Rightarrow> u8 \<Rightarrow> u8 list \<Rightarrow> bool" where
  "seg_out e p sq ak fl data \<equiv> seg p (my_addr e) (his_addr e) (my_port e) (his_port e) sq ak fl data"

lemma first_match_nth: "first_match P xs k = Some (k + j) \<longleftrightarrow> j < length xs \<and> P (xs ! j) \<and> (\<forall>m<j. \<not> P (xs ! m))"
proof (induction xs arbitrary: k j)
  case (Cons x xs)
  show ?case
  proof (cases j)
    case (Suc n)
    then show ?thesis using Cons.IH [of "Suc k" n] by (auto simp: All_less_Suc2)
  next
    case 0
    have "first_match P xs (Suc k) \<noteq> Some k"
    proof -
      have "first_match P xs n = Some m \<Longrightarrow> n \<le> m" for n m by (induction xs arbitrary: n) (auto split: if_splits dest: Suc_leD)
      then show ?thesis by fastforce
    qed
    then show ?thesis using 0 by simp
  qed
qed simp

lemma first_match_none: "first_match P xs k = None \<longleftrightarrow> (\<forall>x \<in> set xs. \<not> P x)"
  by (induction xs arbitrary: k) auto

lemma node_match:
  assumes "node nf i c s" "conn_ok e c" "seg_in e p sq ak fl data"
  shows "first_match (tcp_match (uip_buf (arrived p s))) (uip_conns s) 0 = (if c_tcpstateflags c = UIP_CLOSED then None else Some i)"
proof -
  have l: "length (uip_buf s) = 400" using assms(1) by (simp add: node_def UIP_BUFSIZE_def)
  note f = seg_arrived [OF assms(3) l refl]
  have other: "\<not> tcp_match (uip_buf (arrived p s)) (uip_conns s ! k)" if "k < length (uip_conns s)" "k \<noteq> i" for k
    using assms(1) that by (simp add: node_def tcp_match_def)
  have me: "tcp_match (uip_buf (arrived p s)) (uip_conns s ! i) \<longleftrightarrow> c_tcpstateflags c \<noteq> UIP_CLOSED"
    using assms(1,2) by (auto simp: tcp_match_def node_def conn_ok_def f(6,8,9))
  show ?thesis
  proof (cases "c_tcpstateflags c = UIP_CLOSED")
    case True
    then show ?thesis using other me by (auto simp: first_match_none in_set_conv_nth) (metis)
  next
    case False
    then show ?thesis using first_match_nth [of "tcp_match (uip_buf (arrived p s))" "uip_conns s" 0 i] me other assms(1)
      by (auto simp: node_def)
  qed
qed

text \<open>The flags of the segments of a connection without SYN and FIN.\<close>

definition plain_flags :: "u8 \<Rightarrow> bool" where
  "plain_flags fl \<longleftrightarrow> fl = 0x10 \<or> fl = 0x18 \<or> fl = 0x14"

lemma process_open:
  assumes "node nf i c s" "ends_ok nf e" "conn_ok e c" "seg_in e p sq ak fl data" "plain_flags fl"
  shows "uip_process h UIP_DATA (load_packet p s) = (if c_tcpstateflags c = UIP_CLOSED then tcp_reset (arrived p s) else tcp_found h i (arrived p s))"
proof -
  have l: "length (uip_buf s) = 400" "netif s = nf" using assms(1) by (simp_all add: node_def UIP_BUFSIZE_def)
  have "fl AND TCP_CTL \<noteq> TCP_SYN" using assms(5) by (auto simp: plain_flags_def)
  then show ?thesis using assms(2) node_match [OF assms(1,3,4)] process_segment [OF assms(4) l(1)] l(2)
    by (simp add: ends_ok_def)
qed

lemma node_arrived: "node nf i c s \<Longrightarrow> length p \<le> 400 \<Longrightarrow> node nf i c (arrived p s)"
  by (simp add: node_def UIP_BUFSIZE_def)

lemma node_drop [simp]: "node nf i c (uip_drop s) \<longleftrightarrow> node nf i c (s\<lparr>uip_ext_len := 0\<rparr>)" "emitted (uip_drop s) = {}"
  by (simp_all add: node_def uip_drop_def emitted_def)

text \<open>A closed connection: segments are answered by a reset, resets by nothing.\<close>

lemma closed_recv:
  assumes "node nf i c s" "ends_ok nf e" "conn_ok e c" "seg_in e p sq ak fl data" "plain_flags fl" "c_tcpstateflags c = UIP_CLOSED"
  obtains t where "uip_process h UIP_DATA (load_packet p s) = Some t" "node nf i c t" "app t = app s"
    "\<forall>q \<in> emitted t. seg_out e q ak (inc32 sq) (TCP_RST OR TCP_ACK) []"
proof -
  have l: "length (uip_buf s) = 400" "netif s = nf" using assms(1) by (simp_all add: node_def UIP_BUFSIZE_def)
  note f = seg_arrived [OF assms(4) l(1) refl]
  have a: "node nf i c (arrived p s)" using assms(1) seg_len [OF assms(4)] by (simp add: node_arrived)
  have r: "uip_process h UIP_DATA (load_packet p s) = tcp_reset (arrived p s)"
    using process_open [OF assms(1-5)] assms(6) by simp
  show ?thesis
  proof (cases "fl AND TCP_RST = 0")
    case False
    then have "uip_process h UIP_DATA (load_packet p s) = Some (uip_drop (arrived p s))"
      unfolding r tcp_reset_def by (simp add: f(13))
    then show ?thesis by (rule that) (use a in \<open>simp_all add: node_def uip_drop_def emitted_def\<close>)
  next
    case True
    have g: "length (uip_buf (arrived p s)) = 400" "uip_ext_len (arrived p s) = 0" "uip_buf (arrived p s) ! 53 AND TCP_RST = 0"
      "uip_buf (arrived p s) ! 6 = UIP_PROTO_TCP" "\<forall>a \<in> set (addr_list (netif (arrived p s))). length (ad_ipaddr a) = 16"
      using True f assms(2) l(2) by (simp_all add: ends_ok_def)
    obtain t q where t: "tcp_reset (arrived p s) = Some t" "t = (arrived p s)\<lparr>uip_len := 60, uip_buf := uip_buf t, uip_flags := 0\<rparr>"
      "length (uip_buf t) = 400" "emitted t = {q}"
      "seg q (uip_ds6_select_src (ip_src (uip_buf (arrived p s))) (netif (arrived p s))) (ip_src (uip_buf (arrived p s)))
        (get_u16 42 (uip_buf (arrived p s))) (get_u16 40 (uip_buf (arrived p s)))
        (read_at 48 4 (uip_buf (arrived p s))) (inc32 (read_at 44 4 (uip_buf (arrived p s)))) (TCP_RST OR TCP_ACK) []"
      by (rule tcp_reset_seg [OF g])
    have "netif t = netif (arrived p s)" "uip_ext_len t = 0" "uip_conns t = uip_conns s" "app t = app s" by (subst t(2); simp)+
    then have "node nf i c t" "app t = app s" using a t(3) by (simp_all add: node_def UIP_BUFSIZE_def)
    moreover have "seg_out e q ak (inc32 sq) (TCP_RST OR TCP_ACK) []"
      using t(5) assms(2) l(2) f by (simp add: ends_ok_def)
    ultimately show ?thesis using r t(1,4) by (intro that [of t]) simp_all
  qed
qed

lemma closed_timer:
  assumes "node nf i c s" "c_tcpstateflags c = UIP_CLOSED"
  obtains t where "uip_process h UIP_TIMER (s\<lparr>uip_conn := Some i\<rparr>) = Some t" "node nf i c t" "app t = app s" "emitted t = {}"
proof -
  have "uip_process h UIP_TIMER (s\<lparr>uip_conn := Some i\<rparr>) =
      Some (uip_drop (s\<lparr>uip_conn := Some i, uip_sappdata := 60, uip_appdata := 60, uip_len := 0, uip_slen := 0, iss := inc32 (iss s)\<rparr>))"
    using assms by (simp add: uip_process_def tcp_timer_def Let_def node_def)
  then show ?thesis by (rule that) (use assms(1) in \<open>simp_all add: uip_drop_def node_def emitted_def\<close>)
qed

text \<open>A segment of an established connection.\<close>

lemma found_established:
  assumes "node nf i c s" "conn_ok e c" "seg_in e p sq ak fl data" "c_tcpstateflags c = UIP_ESTABLISHED" "fl = 0x10 \<or> fl = 0x18"
    and s1: "s1 = (arrived p s)\<lparr>uip_conn := Some i, uip_flags := 0, uip_len := of_nat (length data)\<rparr>"
  shows "tcp_found h i (arrived p s) =
    (if data \<noteq> [] \<and> sq \<noteq> c_rcv_nxt c then tcp_send_nodata i TCP_ACK s1 else tcp_established h i (tcp_ack_received i s1))"
proof -
  have l: "length (uip_buf s) = 400" "i < length (uip_conns s)" "uip_conns s ! i = c" using assms(1) by (simp_all add: node_def UIP_BUFSIZE_def)
  note f = seg_arrived [OF assms(3) l(1) refl]
  have d: "length data \<le> 340" using assms(3) by (simp add: seg_def)
  have u: "(of_nat (length p) :: u16) - ucast (push_bit 2 (drop_bit 4 (0x50 :: u8))) - 40 = of_nat (length data)"
    by (simp add: seg_length [OF assms(3)])
  have z: "(0 :: u16) < of_nat (length data) \<longleftrightarrow> data \<noteq> []"
  proof -
    have "unat (of_nat (length data) :: u16) = length data" using d by (intro unat_of_nat_u16) simp
    then show ?thesis unfolding word_less_nat_alt by simp
  qed
  let ?t = "(arrived p s)\<lparr>uip_conn := Some i, uip_flags := 0\<rparr>"
  have e: "?t\<lparr>uip_len := uip_len ?t - ucast (push_bit 2 (drop_bit 4 (uip_buf ?t ! 52))) - 40\<rparr> = s1"
    using u by (simp add: s1 f(12))
  have b: "uip_buf ?t = write_at 0 p (uip_buf s)" "uip_conns s1 = uip_conns s" "uip_len s1 = of_nat (length data)" by (simp_all add: s1)
  have fl: "fl AND TCP_RST = 0" "fl AND (TCP_SYN OR TCP_FIN) = 0" "fl AND TCP_SYN = 0" using assms(5) by auto
  have st: "c_tcpstateflags (uip_conns (tcp_ack_received i s1) ! i) = UIP_ESTABLISHED"
    using l assms(4) by (simp add: tcp_ack_received_def Let_def upd_conn_def b tcp_rtt_def)
  have "tcp_states h i (tcp_ack_received i s1) = tcp_established h i (tcp_ack_received i s1)"
    unfolding tcp_states_def st by simp
  then show ?thesis
    unfolding tcp_found_def Let_def e unfolding b(1) f(10,13) fl b l assms(4) by (simp add: z fl)
qed

section \<open>The end that receives\<close>

text \<open>An application that takes what arrives and sends nothing.\<close>

definition collects :: "'a hooks \<Rightarrow> ('a \<Rightarrow> u8 list) \<Rightarrow> bool" where
  "collects h recv \<longleftrightarrow> (\<forall>s. \<exists>a. UIP_APPCALL h s = s\<lparr>app := a\<rparr> \<and>
     recv a = recv (app s) @ (if uip_flags s AND UIP_NEWDATA \<noteq> 0 then read_at (uip_appdata s) (unat (uip_len s)) (uip_buf s) else []))"

text \<open>A segment that the connection sends, with \<open>m\<close> bytes of the buffer.\<close>

lemma node_sends:
  assumes "node nf i c s" "ends_ok nf e" "conn_ok e c" "m \<le> 340" "uip_len s = of_nat (60 + m)"
  obtains t q where "tcp_send_noopts i (put 53 [fl] s) = Some t" "node nf i c t" "app t = app s" "emitted t = {q}"
    "seg_out e q (c_snd_nxt c) (c_rcv_nxt c) fl (read_at 60 m (uip_buf s))"
proof -
  have s: "netif s = nf" "uip_ext_len s = 0" "length (uip_buf s) = 400" "c = uip_conns s ! i" "i < length (uip_conns s)"
    using assms(1) by (simp_all add: node_def UIP_BUFSIZE_def)
  have c: "c_ripaddr c = his_addr e" "c_lport c = my_port e" "c_rport c = his_port e" "length (c_snd_nxt c) = 4" "length (c_rcv_nxt c) = 4"
    "c_tcpstateflags c AND UIP_STOPPED = 0" "uip_ds6_select_src (his_addr e) nf = my_addr e" "length (my_addr e) = 16" "length (his_addr e) = 16"
    using assms(2,3) by (auto simp: conn_ok_def ends_ok_def)
  obtain t q where t: "tcp_send_noopts i (put 53 [fl] s) = Some t" "t = s\<lparr>uip_buf := uip_buf t, uip_flags := 0\<rparr>" "length (uip_buf t) = 400"
    "emitted t = {q}" "seg q (uip_ds6_select_src (c_ripaddr c) (netif s)) (c_ripaddr c) (c_lport c) (c_rport c) (c_snd_nxt c) (c_rcv_nxt c) fl
      (read_at 60 m (uip_buf s))"
    by (rule tcp_send_seg [OF assms(5,4) s(3,2,4), of fl]) (use c s(1) in simp_all)
  have "netif t = netif s" "uip_ext_len t = uip_ext_len s" "uip_conns t = uip_conns s" "app t = app s" by (subst t(2); simp)+
  then show ?thesis using that [OF t(1) _ _ t(4)] t(3,5) c s assms(1) by (simp add: node_def UIP_BUFSIZE_def)
qed

lemma nodata_sends:
  assumes "node nf i c s" "ends_ok nf e" "conn_ok e c"
  obtains t q where "tcp_send_nodata i fl s = Some t" "node nf i c t" "app t = app s" "emitted t = {q}" "seg_out e q (c_snd_nxt c) (c_rcv_nxt c) fl []"
proof -
  have n: "node nf i c (s\<lparr>uip_len := 60\<rparr>)" using assms(1) by (simp add: node_def)
  obtain t q where "tcp_send_noopts i (put 53 [fl] (s\<lparr>uip_len := 60\<rparr>)) = Some t" "node nf i c t" "app t = app s" "emitted t = {q}"
    "seg_out e q (c_snd_nxt c) (c_rcv_nxt c) fl (read_at 60 0 (uip_buf s))"
    by (rule node_sends [OF n assms(2,3), of 0 fl]) simp_all
  then show ?thesis using that by (simp add: tcp_send_nodata_def put_len read_at_def)
qed

text \<open>The window of the other end bounds the segments, up to the size agreed on at the start.\<close>

definition new_mss :: "u16 \<Rightarrow> uip_conn \<Rightarrow> uip_conn" where
  "new_mss wnd c = c\<lparr>c_mss := (if wnd > c_initialmss c \<or> wnd = 0 then c_initialmss c else wnd)\<rparr>"

lemma new_mss_abs: "(\<lambda>c. c\<lparr>c_mss := (if wnd > c_initialmss c \<or> wnd = 0 then c_initialmss c else wnd)\<rparr>) = new_mss wnd"
  by (simp add: new_mss_def fun_eq_iff)

lemma new_mss_ok: "conn_ok e c \<Longrightarrow> conn_ok e (new_mss wnd c)"
  by (auto simp: conn_ok_def new_mss_def)

lemma length_uip_add32 [simp]: "length (uip_add32 b n) = 4"
  by (simp add: uip_add32_def Let_def split: prod.splits)

lemma node_upd: "node nf i c s \<Longrightarrow> node nf i (f c) (upd_conn i f s)"
  by (simp add: node_def upd_conn_def)

lemma recv_in_order:
  assumes n: "node nf i c s" "ends_ok nf e" "conn_ok e c" and g: "seg_in e p sq ak 0x18 data" and c: "c_tcpstateflags c = UIP_ESTABLISHED" "c_len c = 0"
    and d: "data \<noteq> []" "sq = c_rcv_nxt c" and h: "collects h recv"
  obtains t c' q where "uip_process h UIP_DATA (load_packet p s) = Some t" "node nf i c' t" "conn_ok e c'" "c_tcpstateflags c' = UIP_ESTABLISHED"
    "c_len c' = 0" "c_snd_nxt c' = c_snd_nxt c" "c_rcv_nxt c' = uip_add32 (c_rcv_nxt c) (of_nat (length data))"
    "recv (app t) = recv (app s) @ data" "emitted t = {q}" "seg_out e q (c_snd_nxt c) (c_rcv_nxt c') 0x10 []"
proof -
  have l: "length (uip_buf s) = 400" "i < length (uip_conns s)" "uip_conns s ! i = c" using n(1) by (simp_all add: node_def UIP_BUFSIZE_def)
  note f = seg_arrived [OF g l(1) refl]
  have ld: "length data \<le> 340" using g by (simp add: seg_def)
  have ud: "unat (of_nat (length data) :: u16) = length data" using ld by (intro unat_of_nat_u16) simp
  have pos: "(0 :: u16) < of_nat (length data)" unfolding word_less_nat_alt ud using d(1) by simp
  define s1 where "s1 = (arrived p s)\<lparr>uip_conn := Some i, uip_flags := 0, uip_len := of_nat (length data)\<rparr>"
  have s1: "uip_conns s1 = uip_conns s" "uip_buf s1 = write_at 0 p (uip_buf s)" "uip_len s1 = of_nat (length data)" "uip_appdata s1 = 60" "app s1 = app s"
    "uip_flags s1 = 0" by (simp_all add: s1_def)
  have n1: "node nf i c s1" using node_arrived [OF n(1), of p] seg_len [OF g] by (simp add: s1_def node_def)
  define wnd where "wnd = be16_of (read_at 54 2 (write_at 0 p (uip_buf s)))"
  define s3 where "s3 = upd_conn i (new_mss wnd) (uip_add_rcv_nxt i (of_nat (length data)) (s1\<lparr>uip_flags := UIP_NEWDATA\<rparr>))"
  define c3 where "c3 = new_mss wnd (c\<lparr>c_rcv_nxt := uip_add32 (c_rcv_nxt c) (of_nat (length data))\<rparr>)"
  have n3: "node nf i c3 s3"
    unfolding s3_def c3_def uip_add_rcv_nxt_def using n1 by (intro node_upd) (simp add: node_def)
  have c3: "conn_ok e c3" unfolding c3_def using n(3) by (intro new_mss_ok) (simp add: conn_ok_def)
  have k3: "uip_flags s3 = UIP_NEWDATA" "uip_len s3 = of_nat (length data)" "uip_appdata s3 = 60" "uip_buf s3 = write_at 0 p (uip_buf s)" "app s3 = app s"
    by (simp_all add: s3_def uip_add_rcv_nxt_def upd_conn_def s1)
  have ack: "tcp_ack_received i s1 = s1" using l c(2) by (simp add: tcp_ack_received_def Let_def s1)
  have fin: "(0x18 :: u8) AND TCP_FIN = 0" "(0x18 :: u8) AND TCP_URG = 0" "(UIP_ESTABLISHED :: u8) AND UIP_STOPPED = 0" by simp_all
  have "tcp_established h i s1 = appsend i (UIP_APPCALL h (s3\<lparr>uip_slen := 0\<rparr>))"
    unfolding tcp_established_def Let_def s1 l c f(13) fin wnd_def [symmetric] new_mss_abs
    using pos k3 s1(3) by (simp add: s3_def [symmetric] s1(6))
  moreover obtain a where a: "UIP_APPCALL h (s3\<lparr>uip_slen := 0\<rparr>) = s3\<lparr>uip_slen := 0, app := a\<rparr>" "recv a = recv (app s) @ data"
    using h [unfolded collects_def, rule_format, of "s3\<lparr>uip_slen := 0\<rparr>"] k3 f(14) by (auto simp: ud)
  moreover define s4 where "s4 = upd_conn i (\<lambda>c. c\<lparr>c_nrtx := 0\<rparr>) (s3\<lparr>uip_slen := 0, app := a\<rparr>)"
  moreover have k4: "uip_slen s4 = 0" "uip_flags s4 = UIP_NEWDATA" "app s4 = a" by (simp_all add: s4_def upd_conn_def k3)
  moreover have "appsend i (s3\<lparr>uip_slen := 0, app := a\<rparr>) = apprexmit i s4"
    by (simp add: appsend_def k3 s4_def)
  moreover have "apprexmit i s4 = tcp_send_nodata i TCP_ACK (s4\<lparr>uip_appdata := uip_sappdata s4\<rparr>)"
    using k4 by (simp add: apprexmit_def tcp_send_nodata_def Let_def)
  ultimately have r: "tcp_established h i s1 = tcp_send_nodata i TCP_ACK (s4\<lparr>uip_appdata := uip_sappdata s4\<rparr>)" by simp
  have n4: "node nf i (c3\<lparr>c_nrtx := 0\<rparr>) (s4\<lparr>uip_appdata := uip_sappdata s4\<rparr>)"
    using node_upd [of nf i c3 "s3\<lparr>uip_slen := 0, app := a\<rparr>" "\<lambda>c. c\<lparr>c_nrtx := 0\<rparr>"] n3 by (simp add: s4_def node_def)
  have c4: "conn_ok e (c3\<lparr>c_nrtx := 0\<rparr>)" using c3 by (simp add: conn_ok_def)
  obtain t q where t: "tcp_send_nodata i TCP_ACK (s4\<lparr>uip_appdata := uip_sappdata s4\<rparr>) = Some t" "node nf i (c3\<lparr>c_nrtx := 0\<rparr>) t" "app t = a"
    "emitted t = {q}" "seg_out e q (c_snd_nxt c) (uip_add32 (c_rcv_nxt c) (of_nat (length data))) 0x10 []"
    by (rule nodata_sends [OF n4 n(2) c4, of "TCP_ACK"]) (simp add: k4 c3_def new_mss_def)
  have "uip_process h UIP_DATA (load_packet p s) = Some t"
    using process_open [OF n g] found_established [OF n(1,3) g c(1) _ s1_def, of h] c d(2) r t(1) ack
    by (simp add: plain_flags_def)
  then show ?thesis
    by (rule that [OF _ t(2) c4]) (use t a(2) c in \<open>simp_all add: c3_def new_mss_def\<close>)
qed

text \<open>A duplicate, or a segment out of order, is answered by the number that is expected.\<close>

lemma recv_out_of_order:
  assumes n: "node nf i c s" "ends_ok nf e" "conn_ok e c" and g: "seg_in e p sq ak 0x18 data" and c: "c_tcpstateflags c = UIP_ESTABLISHED"
    and d: "data \<noteq> []" "sq \<noteq> c_rcv_nxt c"
  obtains t q where "uip_process h UIP_DATA (load_packet p s) = Some t" "node nf i c t" "app t = app s" "emitted t = {q}"
    "seg_out e q (c_snd_nxt c) (c_rcv_nxt c) 0x10 []"
proof -
  define s1 where "s1 = (arrived p s)\<lparr>uip_conn := Some i, uip_flags := 0, uip_len := of_nat (length data)\<rparr>"
  have n1: "node nf i c s1" "app s1 = app s" using node_arrived [OF n(1), of p] seg_len [OF g] by (simp_all add: s1_def node_def)
  obtain t q where t: "tcp_send_nodata i TCP_ACK s1 = Some t" "node nf i c t" "app t = app s1" "emitted t = {q}" "seg_out e q (c_snd_nxt c) (c_rcv_nxt c) 0x10 []"
    by (rule nodata_sends [OF n1(1) n(2,3)])
  have "uip_process h UIP_DATA (load_packet p s) = Some t"
    using process_open [OF n g] found_established [OF n(1,3) g c _ s1_def, of h] c d t(1) by (simp add: plain_flags_def)
  then show ?thesis by (rule that) (use t n1(2) in simp_all)
qed

text \<open>A reset closes the connection; the application is told and nothing is sent.\<close>

lemma recv_reset:
  assumes n: "node nf i c s" "ends_ok nf e" "conn_ok e c" and g: "seg_in e p sq ak 0x14 []" and c: "c_tcpstateflags c = UIP_ESTABLISHED"
  obtains x where "uip_process h UIP_DATA (load_packet p s) = Some (uip_drop (UIP_APPCALL h x))" "node nf i (c\<lparr>c_tcpstateflags := UIP_CLOSED\<rparr>) x"
    "uip_flags x = UIP_ABORT" "app x = app s"
proof -
  have l: "length (uip_buf s) = 400" using n(1) by (simp add: node_def UIP_BUFSIZE_def)
  note f = seg_arrived [OF g l refl]
  define s1 where "s1 = (arrived p s)\<lparr>uip_conn := Some i, uip_flags := 0\<rparr>"
  have n1: "node nf i c s1" "app s1 = app s" "uip_buf s1 ! 53 = 0x14"
    using node_arrived [OF n(1), of p] seg_len [OF g] f(13) by (simp_all add: s1_def node_def)
  let ?x = "(upd_conn i (\<lambda>c. c\<lparr>c_tcpstateflags := UIP_CLOSED\<rparr>) s1)\<lparr>uip_flags := UIP_ABORT\<rparr>"
  have "tcp_found h i (arrived p s) = Some (uip_drop (UIP_APPCALL h ?x))"
    using n1(3) by (simp add: tcp_found_def s1_def [symmetric] Let_def)
  then have "uip_process h UIP_DATA (load_packet p s) = Some (uip_drop (UIP_APPCALL h ?x))"
    using process_open [OF n g] c by (simp add: plain_flags_def)
  then show ?thesis
  proof (rule that)
    show "node nf i (c\<lparr>c_tcpstateflags := UIP_CLOSED\<rparr>) ?x" using node_upd [OF n1(1)] by (simp add: node_def)
  qed (simp_all add: upd_conn_def n1(2))
qed

text \<open>The state in which the timer of an established connection calls what follows.\<close>

definition ticked :: "nat \<Rightarrow> 'a uip \<Rightarrow> 'a uip" where
  "ticked i s = s\<lparr>uip_conn := Some i, uip_sappdata := 60, uip_appdata := 60, uip_len := 0, uip_slen := 0, iss := inc32 (iss s)\<rparr>"

lemma ticked_simps [simp]: "node nf i c (ticked k s) = node nf i c s" "uip_conns (ticked k s) = uip_conns s" "uip_slen (ticked k s) = 0" "uip_len (ticked k s) = 0"
  "app (ticked k s) = app s" "uip_buf (ticked k s) = uip_buf s" "uip_ext_len (ticked k s) = uip_ext_len s" "netif (ticked k s) = netif s" "uip_sappdata (ticked k s) = 60"
  by (simp_all add: ticked_def node_def)

lemma timer_established:
  assumes "node nf i c s" "c_tcpstateflags c = UIP_ESTABLISHED"
  shows "uip_process h UIP_TIMER (s\<lparr>uip_conn := Some i\<rparr>) =
    (if c_len c = 0 then appsend i (UIP_APPCALL h ((ticked i s)\<lparr>uip_flags := UIP_POLL\<rparr>))
     else let s1 = upd_conn i (\<lambda>c. c\<lparr>c_timer := c_timer c - 1\<rparr>) (ticked i s) in if c_timer c = 0 then tcp_rexmit h i s1 else Some (uip_drop s1))"
  using assms by (simp add: uip_process_def tcp_timer_def ticked_def node_def Let_def)

lemma recv_timer:
  assumes n: "node nf i c s" and c: "c_tcpstateflags c = UIP_ESTABLISHED" "c_len c = 0" and h: "collects h recv"
  obtains t where "uip_process h UIP_TIMER (s\<lparr>uip_conn := Some i\<rparr>) = Some t" "node nf i (c\<lparr>c_nrtx := 0\<rparr>) t" "recv (app t) = recv (app s)" "emitted t = {}"
proof -
  let ?s = "(ticked i s)\<lparr>uip_flags := UIP_POLL\<rparr>"
  obtain a where a: "UIP_APPCALL h ?s = ?s\<lparr>app := a\<rparr>" "recv a = recv (app s)"
    using h [unfolded collects_def, rule_format, of ?s] by auto
  define s4 where "s4 = upd_conn i (\<lambda>c. c\<lparr>c_nrtx := 0\<rparr>) (?s\<lparr>app := a\<rparr>)"
  have k: "uip_slen s4 = 0" "uip_flags s4 = UIP_POLL" "app s4 = a" by (simp_all add: s4_def upd_conn_def)
  have n4: "node nf i (c\<lparr>c_nrtx := 0\<rparr>) s4" unfolding s4_def using n by (intro node_upd) (simp add: node_def)
  have "appsend i (?s\<lparr>app := a\<rparr>) = apprexmit i s4" by (simp add: appsend_def s4_def)
  also have "\<dots> = Some (uip_drop (s4\<lparr>uip_appdata := uip_sappdata s4\<rparr>))" using k by (simp add: apprexmit_def Let_def)
  finally have "uip_process h UIP_TIMER (s\<lparr>uip_conn := Some i\<rparr>) = Some (uip_drop (s4\<lparr>uip_appdata := uip_sappdata s4\<rparr>))"
    using timer_established [OF n c(1), of h] c(2) a by simp
  then show ?thesis by (rule that) (use n4 k a in \<open>simp_all add: node_def uip_drop_def emitted_def\<close>)
qed

section \<open>The end that sends\<close>

text \<open>
  An application that sends a stream of bytes. It keeps how much of the stream is acknowledged and how much
  of it is on the way, sends no more than the maximum segment size, and the same bytes again when it is asked to.
\<close>

definition app_wrote :: "'a \<Rightarrow> u8 list \<Rightarrow> 'a uip \<Rightarrow> 'a uip" where
  "app_wrote a d s = (if d = [] then s\<lparr>app := a\<rparr> else s\<lparr>app := a, uip_slen := of_nat (length d), uip_buf := write_at 60 d (uip_buf s)\<rparr>)"

definition sends :: "'a hooks \<Rightarrow> nat \<Rightarrow> ('a \<Rightarrow> nat) \<Rightarrow> ('a \<Rightarrow> nat) \<Rightarrow> u8 list \<Rightarrow> bool" where
  "sends h i pos out stream \<longleftrightarrow> (\<forall>s.
     (uip_flags s = UIP_ABORT \<or> uip_flags s = UIP_TIMEDOUT \<longrightarrow>
        (\<exists>a. UIP_APPCALL h s = app_wrote a [] s \<and> pos a = pos (app s) \<and> out a = out (app s))) \<and>
     (uip_flags s = UIP_REXMIT \<longrightarrow>
        (\<exists>a. UIP_APPCALL h s = app_wrote a (read_at (pos (app s)) (out (app s)) stream) s \<and> pos a = pos (app s) \<and> out a = out (app s))) \<and>
     (uip_flags s = UIP_POLL \<or> uip_flags s = UIP_ACKDATA \<longrightarrow> pos (app s) + out (app s) \<le> length stream \<longrightarrow>
        (\<exists>a. UIP_APPCALL h s = app_wrote a (read_at (pos a) (out a) stream) s \<and> pos a = pos (app s) + out (app s) \<and>
           pos a + out a \<le> length stream \<and> out a \<le> unat (c_mss (uip_conns s ! i)))))"

lemma wrote_simps [simp]: "uip_conns (app_wrote a d s) = uip_conns s" "netif (app_wrote a d s) = netif s" "app (app_wrote a d s) = a"
  "uip_ext_len (app_wrote a d s) = uip_ext_len s" "uip_flags (app_wrote a d s) = uip_flags s" "uip_sappdata (app_wrote a d s) = uip_sappdata s"
  by (simp_all add: app_wrote_def)

lemma node_wrote: "node nf i c s \<Longrightarrow> length d \<le> 340 \<Longrightarrow> node nf i c (app_wrote a d s)"
  by (simp add: node_def app_wrote_def UIP_BUFSIZE_def)

lemma wrote_slen: "uip_slen s = 0 \<Longrightarrow> uip_slen (app_wrote a d s) = of_nat (length d)"
  by (simp add: app_wrote_def)

lemma wrote_buf: "length d \<le> 340 \<Longrightarrow> length (uip_buf s) = 400 \<Longrightarrow> read_at 60 (length d) (uip_buf (app_wrote a d s)) = d"
  by (simp add: app_wrote_def read_same) (simp add: read_at_def)

lemma upd_conn_id: "uip_conns s ! i = c \<Longrightarrow> f c = c \<Longrightarrow> upd_conn i f s = s"
  by (cases s) (auto simp: upd_conn_def)

lemma small_len: "n \<le> unat m \<Longrightarrow> m \<le> UIP_TCP_MSS \<Longrightarrow> (of_nat n :: u16) \<le> UIP_TCP_MSS"
  using unat_lt_2p [of m] by (simp add: word_le_nat_alt unat_of_nat_u16)

text \<open>New bytes, after an acknowledgement or a poll.\<close>

lemma appsend_new:
  assumes n: "node nf i c s" "ends_ok nf e" "conn_ok e c" and c: "c_len c = 0" "uip_slen s = 0" "uip_flags s = UIP_POLL \<or> uip_flags s = UIP_ACKDATA"
    and d: "length d \<le> unat (c_mss c)"
  obtains t where "appsend i (app_wrote a d s) = Some t" "node nf i (c\<lparr>c_len := of_nat (length d), c_nrtx := 0\<rparr>) t" "app t = a"
    "d = [] \<Longrightarrow> emitted t = {}" "d \<noteq> [] \<Longrightarrow> \<exists>q. emitted t = {q} \<and> seg_out e q (c_snd_nxt c) (c_rcv_nxt c) 0x18 d"
proof -
  have l: "length (uip_buf s) = 400" "i < length (uip_conns s)" "uip_conns s ! i = c" using n(1) by (simp_all add: node_def UIP_BUFSIZE_def)
  have d340: "length d \<le> 340" using d n(3) by (simp add: conn_ok_def UIP_TCP_MSS_def word_le_nat_alt)
  have ud: "unat (of_nat (length d) :: u16) = length d" using d340 by (intro unat_of_nat_u16) simp
  have pos: "(0 :: u16) < of_nat (length d) \<longleftrightarrow> d \<noteq> []" unfolding word_less_nat_alt ud by simp
  have mss: "\<not> (of_nat (length d) :: u16) > c_mss c" using d by (simp add: word_less_nat_alt ud)
  let ?w = "app_wrote a d s"
  have fl: "uip_flags ?w AND UIP_ABORT = 0" "uip_flags ?w AND UIP_CLOSE = 0" "uip_flags ?w AND UIP_NEWDATA = 0" using c(3) by auto
  define s4 where "s4 = upd_conn i (\<lambda>c. c\<lparr>c_nrtx := 0\<rparr>) (upd_conn i (\<lambda>c. c\<lparr>c_len := of_nat (length d)\<rparr>) ?w)"
  have k4: "uip_slen s4 = of_nat (length d)" "uip_flags s4 = uip_flags s" "app s4 = a" "uip_sappdata s4 = uip_sappdata s" "uip_buf s4 = uip_buf ?w"
    using wrote_slen [OF c(2)] by (simp_all add: s4_def upd_conn_def)
  have n4: "node nf i (c\<lparr>c_len := of_nat (length d), c_nrtx := 0\<rparr>) s4"
    unfolding s4_def using node_upd [OF node_upd [OF node_wrote [OF n(1) d340, of a], of "\<lambda>c. c\<lparr>c_len := of_nat (length d)\<rparr>"], of "\<lambda>c. c\<lparr>c_nrtx := 0\<rparr>"] by simp
  have e1: "appsend i ?w = apprexmit i s4"
  proof (cases "d = []")
    case True
    have "c\<lparr>c_len := 0\<rparr> = c" using c(1) by (cases c) simp
    then have "upd_conn i (\<lambda>c. c\<lparr>c_len := of_nat (length d)\<rparr>) ?w = ?w" using True l by (simp add: upd_conn_id)
    then show ?thesis using True wrote_slen [OF c(2), of a d] fl by (simp add: appsend_def s4_def)
  next
    case False
    let ?k = "if uip_flags ?w AND UIP_ACKDATA \<noteq> 0 then upd_conn i (\<lambda>c. c\<lparr>c_len := 0\<rparr>) ?w else ?w"
    have c0: "c\<lparr>c_len := 0\<rparr> = c" using c(1) by (cases c) simp
    then have k: "?k = ?w" using l by (simp add: upd_conn_id)
    show ?thesis
      unfolding appsend_def fl Let_def k using False wrote_slen [OF c(2), of a d] pos mss l c(1) by (simp add: s4_def fl)
  qed
  show ?thesis
  proof (cases "d = []")
    case True
    have "appsend i ?w = Some (uip_drop (s4\<lparr>uip_appdata := uip_sappdata s4\<rparr>))"
      using e1 k4 True fl by (simp add: apprexmit_def Let_def)
    then show ?thesis by (rule that) (use n4 k4 True in \<open>simp_all add: node_def uip_drop_def emitted_def\<close>)
  next
    case False
    let ?s5 = "s4\<lparr>uip_appdata := uip_sappdata s4, uip_len := of_nat (60 + length d)\<rparr>"
    have cl: "c_len (uip_conns s4 ! i) = of_nat (length d)" using n4 by (simp add: node_def)
    have "appsend i ?w = tcp_send_noopts i (put 53 [0x18] ?s5)"
      using e1 k4 False pos cl by (simp add: apprexmit_def Let_def put_len add.commute)
    moreover have n5: "node nf i (c\<lparr>c_len := of_nat (length d), c_nrtx := 0\<rparr>) ?s5" using n4 by (simp add: node_def)
    moreover have c5: "conn_ok e (c\<lparr>c_len := of_nat (length d), c_nrtx := 0\<rparr>)"
      using n(3) small_len [OF d] by (simp add: conn_ok_def)
    moreover obtain t q where "tcp_send_noopts i (put 53 [0x18] ?s5) = Some t" "node nf i (c\<lparr>c_len := of_nat (length d), c_nrtx := 0\<rparr>) t" "app t = a"
      "emitted t = {q}" "seg_out e q (c_snd_nxt c) (c_rcv_nxt c) 0x18 (read_at 60 (length d) (uip_buf ?s5))"
      by (rule node_sends [OF n5 n(2) c5 d340, of "0x18"]) (simp_all add: k4)
    ultimately show ?thesis using that False wrote_buf [OF d340 l(1), of a] by (simp add: k4)
  qed
qed

lemma established_no_data:
  assumes n: "node nf i c s" and c: "c_tcpstateflags c = UIP_ESTABLISHED" and s: "uip_len s = 0" "uip_buf s ! 53 = 0x10" "uip_flags s = 0 \<or> uip_flags s = UIP_ACKDATA"
  shows "\<exists>wnd. tcp_established h i s =
    (if uip_flags s = UIP_ACKDATA then appsend i (UIP_APPCALL h ((upd_conn i (new_mss wnd) s)\<lparr>uip_slen := 0\<rparr>))
     else Some (uip_drop (upd_conn i (new_mss wnd) s)))"
proof -
  define wnd where "wnd = be16_of (read_at 54 2 (uip_buf s))"
  have l: "i < length (uip_conns s)" "uip_conns s ! i = c" using n by (simp_all add: node_def)
  have fin: "(0x10 :: u8) AND TCP_FIN = 0" "(0x10 :: u8) AND TCP_URG = 0" by simp_all
  have "uip_flags (upd_conn i (new_mss wnd) s) = uip_flags s" by (simp add: upd_conn_def)
  then have "tcp_established h i s =
    (if uip_flags s = UIP_ACKDATA then appsend i (UIP_APPCALL h ((upd_conn i (new_mss wnd) s)\<lparr>uip_slen := 0\<rparr>))
     else Some (uip_drop (upd_conn i (new_mss wnd) s)))"
    unfolding tcp_established_def Let_def s(1,2) l c fin wnd_def [symmetric] new_mss_abs using s(1,3) by auto
  then show ?thesis by blast
qed

text \<open>The connection after an acknowledgement of what is outstanding.\<close>

definition acked :: "uip_conn \<Rightarrow> uip_conn" where
  "acked c = (let c1 = c\<lparr>c_snd_nxt := uip_add32 (c_snd_nxt c) (c_len c)\<rparr>; c2 = (if c_nrtx c1 = 0 then tcp_rtt c1 else c1)
     in c2\<lparr>c_timer := c_rto c2, c_len := 0\<rparr>)"

lemma acked_simps [simp]: "c_snd_nxt (acked c) = uip_add32 (c_snd_nxt c) (c_len c)" "c_len (acked c) = 0" "c_rcv_nxt (acked c) = c_rcv_nxt c"
  "c_tcpstateflags (acked c) = c_tcpstateflags c" "c_mss (acked c) = c_mss c" "c_initialmss (acked c) = c_initialmss c"
  "c_ripaddr (acked c) = c_ripaddr c" "c_lport (acked c) = c_lport c" "c_rport (acked c) = c_rport c"
  by (simp_all add: acked_def Let_def tcp_rtt_def)

lemma send_acked:
  assumes n: "node nf i c s" "ends_ok nf e" "conn_ok e c" and g: "seg_in e p sq ak 0x10 []" and c: "c_tcpstateflags c = UIP_ESTABLISHED" "c_len c \<noteq> 0"
    and ak: "ak = uip_add32 (c_snd_nxt c) (c_len c)" and h: "sends h i pos out stream" "pos (app s) + out (app s) \<le> length stream"
  obtains t c' where "uip_process h UIP_DATA (load_packet p s) = Some t" "node nf i c' t" "conn_ok e c'" "c_tcpstateflags c' = UIP_ESTABLISHED"
    "c_snd_nxt c' = ak" "c_rcv_nxt c' = c_rcv_nxt c" "unat (c_len c') = out (app t)" "pos (app t) = pos (app s) + out (app s)"
    "pos (app t) + out (app t) \<le> length stream"
    "\<forall>q \<in> emitted t. out (app t) \<noteq> 0 \<and> seg_out e q ak (c_rcv_nxt c) 0x18 (read_at (pos (app t)) (out (app t)) stream)"
proof -
  have l: "length (uip_buf s) = 400" "i < length (uip_conns s)" "uip_conns s ! i = c" using n(1) by (simp_all add: node_def UIP_BUFSIZE_def)
  note f = seg_arrived [OF g l(1) refl]
  define s1 where "s1 = (arrived p s)\<lparr>uip_conn := Some i, uip_flags := 0, uip_len := of_nat (length ([] :: u8 list))\<rparr>"
  define s2 where "s2 = upd_conn i acked (s1\<lparr>uip_flags := UIP_ACKDATA\<rparr>)"
  have n1: "node nf i c s1" using node_arrived [OF n(1), of p] seg_len [OF g] by (simp add: s1_def node_def)
  have n2: "node nf i (acked c) s2" unfolding s2_def using n1 by (intro node_upd) (simp add: node_def)
  have k2: "uip_len s2 = 0" "uip_buf s2 ! 53 = 0x10" "uip_flags s2 = UIP_ACKDATA" "app s2 = app s"
    using f(13) by (simp_all add: s2_def s1_def upd_conn_def)
  have a: "tcp_ack_received i s1 = s2"
  proof -
    have "uip_conns s1 ! i = c" "uip_buf s1 = write_at 0 p (uip_buf s)" using l by (simp_all add: s1_def)
    then show ?thesis using c(2) f(11,13) ak by (simp add: tcp_ack_received_def Let_def s2_def acked_def upd_conn_def)
  qed
  obtain wnd where w: "tcp_established h i s2 = appsend i (UIP_APPCALL h ((upd_conn i (new_mss wnd) s2)\<lparr>uip_slen := 0\<rparr>))"
    using established_no_data [OF n2 _ k2(1,2), of h] c(1) k2(3) by auto
  define s3 where "s3 = (upd_conn i (new_mss wnd) s2)\<lparr>uip_slen := 0\<rparr>"
  let ?c3 = "new_mss wnd (acked c)"
  have n3: "node nf i ?c3 s3" using node_upd [OF n2, of "new_mss wnd"] by (simp add: s3_def node_def)
  have k3: "uip_flags s3 = UIP_ACKDATA" "uip_slen s3 = 0" "app s3 = app s" using k2 by (simp_all add: s3_def upd_conn_def)
  have c3: "conn_ok e ?c3" using n(3) by (intro new_mss_ok) (simp add: conn_ok_def)
  have m3: "uip_conns s3 ! i = ?c3" using n3 by (simp add: node_def)
  obtain b where b: "UIP_APPCALL h s3 = app_wrote b (read_at (pos b) (out b) stream) s3" "pos b = pos (app s) + out (app s)"
    "pos b + out b \<le> length stream" "out b \<le> unat (c_mss ?c3)"
    using h(1) [unfolded sends_def, rule_format, of s3] h(2) k3 m3 by auto
  have ld: "length (read_at (pos b) (out b) stream) = out b" using b(3) by simp
  obtain t where t: "appsend i (app_wrote b (read_at (pos b) (out b) stream) s3) = Some t"
    "node nf i (?c3\<lparr>c_len := of_nat (length (read_at (pos b) (out b) stream)), c_nrtx := 0\<rparr>) t" "app t = b"
    "read_at (pos b) (out b) stream = [] \<Longrightarrow> emitted t = {}"
    "read_at (pos b) (out b) stream \<noteq> [] \<Longrightarrow> \<exists>q. emitted t = {q} \<and> seg_out e q (c_snd_nxt ?c3) (c_rcv_nxt ?c3) 0x18 (read_at (pos b) (out b) stream)"
    by (rule appsend_new [OF n3 n(2) c3, of "read_at (pos b) (out b) stream" b]) (use k3 b(4) ld in \<open>simp_all add: new_mss_def\<close>)
  have o: "out b < 65536" using b(4) unat_lt_2p [of "c_mss ?c3"] by simp
  have e0: "read_at (pos b) (out b) stream = [] \<longleftrightarrow> out b = 0" using ld by auto
  have r: "uip_process h UIP_DATA (load_packet p s) = Some t"
    using process_open [OF n g] found_established [OF n(1,3) g c(1) _ s1_def, of h] c(1) a w t(1) b(1) s3_def by (simp add: plain_flags_def)
  let ?c' = "?c3\<lparr>c_len := of_nat (length (read_at (pos b) (out b) stream)), c_nrtx := 0\<rparr>"
  have "conn_ok e ?c'" using c3 b(4) small_len [of "out b" "c_mss ?c3"] ld by (simp add: conn_ok_def)
  moreover have "c_len ?c' = of_nat (out b)" by (simp add: ld)
  then have "unat (c_len ?c') = out b" by (simp only: unat_of_nat_u16 [OF o])
  moreover have "\<forall>q \<in> emitted t. out b \<noteq> 0 \<and> seg_out e q ak (c_rcv_nxt c) 0x18 (read_at (pos b) (out b) stream)"
  proof
    fix q assume q: "q \<in> emitted t"
    have k: "c_snd_nxt ?c3 = ak" "c_rcv_nxt ?c3 = c_rcv_nxt c" using ak by (simp_all add: new_mss_def)
    have ne: "read_at (pos b) (out b) stream \<noteq> []" using q t(4) by (metis empty_iff)
    obtain q' where "emitted t = {q'}" "seg_out e q' ak (c_rcv_nxt c) 0x18 (read_at (pos b) (out b) stream)"
      using t(5) [OF ne] unfolding k by (elim exE conjE)
    then show "out b \<noteq> 0 \<and> seg_out e q ak (c_rcv_nxt c) 0x18 (read_at (pos b) (out b) stream)"
      using q ne e0 by simp
  qed
  moreover have "c_tcpstateflags ?c' = UIP_ESTABLISHED" "c_snd_nxt ?c' = ak" "c_rcv_nxt ?c' = c_rcv_nxt c"
    using c(1) ak by (simp_all add: new_mss_def)
  ultimately show ?thesis using that [OF r t(2)] t(3) b(2,3) by blast
qed

lemma send_not_acked:
  assumes n: "node nf i c s" "ends_ok nf e" "conn_ok e c" and g: "seg_in e p sq ak 0x10 []" and c: "c_tcpstateflags c = UIP_ESTABLISHED"
    and ak: "c_len c = 0 \<or> ak \<noteq> uip_add32 (c_snd_nxt c) (c_len c)"
  obtains t wnd where "uip_process h UIP_DATA (load_packet p s) = Some t" "node nf i (new_mss wnd c) t" "app t = app s" "emitted t = {}"
proof -
  have l: "length (uip_buf s) = 400" "i < length (uip_conns s)" "uip_conns s ! i = c" using n(1) by (simp_all add: node_def UIP_BUFSIZE_def)
  note f = seg_arrived [OF g l(1) refl]
  define s1 where "s1 = (arrived p s)\<lparr>uip_conn := Some i, uip_flags := 0, uip_len := of_nat (length ([] :: u8 list))\<rparr>"
  have n1: "node nf i c s1" using node_arrived [OF n(1), of p] seg_len [OF g] by (simp add: s1_def node_def)
  have k1: "uip_len s1 = 0" "uip_buf s1 ! 53 = 0x10" "uip_flags s1 = 0" "app s1 = app s" "uip_conns s1 ! i = c" "uip_buf s1 = write_at 0 p (uip_buf s)"
    using f(13) l by (simp_all add: s1_def)
  have a: "tcp_ack_received i s1 = s1"
    using ak f(11) by (auto simp: tcp_ack_received_def Let_def k1(5,6))
  obtain wnd where w: "tcp_established h i s1 = Some (uip_drop (upd_conn i (new_mss wnd) s1))"
    using established_no_data [OF n1 c k1(1,2), of h] k1(3) by auto
  have "uip_process h UIP_DATA (load_packet p s) = Some (uip_drop (upd_conn i (new_mss wnd) s1))"
    using process_open [OF n g] found_established [OF n(1,3) g c _ s1_def, of h] c a w by (simp add: plain_flags_def)
  then show ?thesis
    by (rule that [where wnd = wnd]) (use node_upd [OF n1, of "new_mss wnd"] k1(4) in \<open>simp_all add: node_def uip_drop_def upd_conn_def emitted_def\<close>)
qed

text \<open>The timer of the sending end: a poll, nothing, the same bytes again, or the end of the connection.\<close>

lemma send_timer:
  assumes n: "node nf i c s" "ends_ok nf e" "conn_ok e c" and c: "c_tcpstateflags c = UIP_ESTABLISHED"
    and h: "sends h i pos out stream" "pos (app s) + out (app s) \<le> length stream" "unat (c_len c) = out (app s)"
  obtains t c' where "uip_process h UIP_TIMER (s\<lparr>uip_conn := Some i\<rparr>) = Some t" "node nf i c' t" "conn_ok e c'"
    "c_snd_nxt c' = c_snd_nxt c" "c_rcv_nxt c' = c_rcv_nxt c" "unat (c_len c') = out (app t)" "pos (app t) = pos (app s)"
    "pos (app t) + out (app t) \<le> length stream" "out (app s) \<noteq> 0 \<longrightarrow> out (app t) = out (app s)"
    "\<forall>q \<in> emitted t. out (app t) \<noteq> 0 \<and> seg_out e q (c_snd_nxt c) (c_rcv_nxt c) 0x18 (read_at (pos (app t)) (out (app t)) stream) \<or>
       seg_out e q (c_snd_nxt c) (c_rcv_nxt c) (TCP_RST OR TCP_ACK) []"
proof (cases "c_len c = 0")
  case True
  let ?s = "(ticked i s)\<lparr>uip_flags := UIP_POLL\<rparr>"
  have ns: "node nf i c ?s" using n(1) by (simp add: node_def)
  have ms: "uip_conns ?s ! i = c" using n(1) by (simp add: node_def)
  have o0: "out (app s) = 0" using True h(3) by simp
  obtain b where b: "UIP_APPCALL h ?s = app_wrote b (read_at (pos b) (out b) stream) ?s" "pos b = pos (app s)"
    "pos b + out b \<le> length stream" "out b \<le> unat (c_mss c)"
    using h(1) [unfolded sends_def, rule_format, of ?s] h(2) ms o0 by auto
  have ld: "length (read_at (pos b) (out b) stream) = out b" using b(3) by simp
  obtain t where t: "appsend i (app_wrote b (read_at (pos b) (out b) stream) ?s) = Some t"
    "node nf i (c\<lparr>c_len := of_nat (length (read_at (pos b) (out b) stream)), c_nrtx := 0\<rparr>) t" "app t = b"
    "read_at (pos b) (out b) stream = [] \<Longrightarrow> emitted t = {}"
    "read_at (pos b) (out b) stream \<noteq> [] \<Longrightarrow> \<exists>q. emitted t = {q} \<and> seg_out e q (c_snd_nxt c) (c_rcv_nxt c) 0x18 (read_at (pos b) (out b) stream)"
    by (rule appsend_new [OF ns n(2,3) True, of "read_at (pos b) (out b) stream" b]) (use b(4) ld in simp_all)
  have o: "out b < 65536" using b(4) unat_lt_2p [of "c_mss c"] by simp
  let ?c' = "c\<lparr>c_len := of_nat (length (read_at (pos b) (out b) stream)), c_nrtx := 0\<rparr>"
  have "uip_process h UIP_TIMER (s\<lparr>uip_conn := Some i\<rparr>) = Some t"
    using timer_established [OF n(1) c, of h] True b(1) t(1) by simp
  moreover have "conn_ok e ?c'" using n(3) b(4) small_len [of "out b" "c_mss c"] ld by (simp add: conn_ok_def)
  moreover have "c_len ?c' = of_nat (out b)" by (simp add: ld)
  then have "unat (c_len ?c') = out b" by (simp only: unat_of_nat_u16 [OF o])
  moreover have "\<forall>q \<in> emitted t. out b \<noteq> 0 \<and> seg_out e q (c_snd_nxt c) (c_rcv_nxt c) 0x18 (read_at (pos b) (out b) stream) \<or>
       seg_out e q (c_snd_nxt c) (c_rcv_nxt c) (TCP_RST OR TCP_ACK) []"
  proof
    fix q assume q: "q \<in> emitted t"
    have ne: "read_at (pos b) (out b) stream \<noteq> []" using q t(4) by (metis empty_iff)
    obtain q' where "emitted t = {q'}" "seg_out e q' (c_snd_nxt c) (c_rcv_nxt c) 0x18 (read_at (pos b) (out b) stream)"
      using t(5) [OF ne] by (elim exE conjE)
    moreover have "out b \<noteq> 0" using ne ld by (metis length_0_conv)
    ultimately show "out b \<noteq> 0 \<and> seg_out e q (c_snd_nxt c) (c_rcv_nxt c) 0x18 (read_at (pos b) (out b) stream) \<or>
        seg_out e q (c_snd_nxt c) (c_rcv_nxt c) (TCP_RST OR TCP_ACK) []" using q by simp
  qed
  moreover have "c_snd_nxt ?c' = c_snd_nxt c" "c_rcv_nxt ?c' = c_rcv_nxt c" by simp_all
  ultimately show ?thesis using that [of t ?c'] t(2,3) b(2,3) o0 by blast
next
  case False
  then have o1: "out (app s) \<noteq> 0" using h(3) by (metis unat_eq_zero)
  define s1 where "s1 = upd_conn i (\<lambda>c. c\<lparr>c_timer := c_timer c - 1\<rparr>) (ticked i s)"
  let ?c1 = "c\<lparr>c_timer := c_timer c - 1\<rparr>"
  have n1: "node nf i ?c1 s1" unfolding s1_def using n(1) by (intro node_upd) simp
  have k1: "app s1 = app s" "uip_slen s1 = 0" "uip_conns s1 ! i = ?c1" "uip_len s1 = 0" using n1 by (simp_all add: s1_def upd_conn_def node_def)
  have r1: "uip_process h UIP_TIMER (s\<lparr>uip_conn := Some i\<rparr>) = (if c_timer c = 0 then tcp_rexmit h i s1 else Some (uip_drop s1))"
    using timer_established [OF n(1) c, of h] False by (simp add: s1_def Let_def)
  show ?thesis
  proof (cases "c_timer c = 0")
    case False
    have c1: "conn_ok e ?c1" using n(3) by (simp add: conn_ok_def)
    show ?thesis
      by (rule that [of "uip_drop s1" ?c1]) (use r1 False n1 c1 k1 h o1 in \<open>simp_all add: node_def uip_drop_def emitted_def\<close>)
  next
    case t0: True
    show ?thesis
    proof (cases "c_nrtx c = UIP_MAXRTX")
      case True
      let ?c2 = "?c1\<lparr>c_tcpstateflags := UIP_CLOSED\<rparr>"
      define s2 where "s2 = (upd_conn i (\<lambda>c. c\<lparr>c_tcpstateflags := UIP_CLOSED\<rparr>) s1)\<lparr>uip_flags := UIP_TIMEDOUT\<rparr>"
      have n2: "node nf i ?c2 s2" using node_upd [OF n1, of "\<lambda>c. c\<lparr>c_tcpstateflags := UIP_CLOSED\<rparr>"] by (simp add: s2_def node_def)
      have c2: "conn_ok e ?c2" using n(3) by (simp add: conn_ok_def)
      have k2: "uip_flags s2 = UIP_TIMEDOUT" "app s2 = app s" by (simp_all add: s2_def upd_conn_def k1)
      obtain b where b: "UIP_APPCALL h s2 = app_wrote b [] s2" "pos b = pos (app s)" "out b = out (app s)"
        using h(1) [unfolded sends_def, rule_format, of s2] k2 by auto
      have n3: "node nf i ?c2 (app_wrote b [] s2)" using n2 by (simp add: node_wrote)
      obtain t q where t: "tcp_send_nodata i (TCP_RST OR TCP_ACK) (app_wrote b [] s2) = Some t" "node nf i ?c2 t" "app t = app (app_wrote b [] s2)"
        "emitted t = {q}" "seg_out e q (c_snd_nxt ?c2) (c_rcv_nxt ?c2) (TCP_RST OR TCP_ACK) []"
        by (rule nodata_sends [OF n3 n(2) c2])
      have "tcp_rexmit h i s1 = tcp_send_nodata i (TCP_RST OR TCP_ACK) (UIP_APPCALL h s2)"
        using True by (simp add: tcp_rexmit_def Let_def k1(3) s2_def)
      then have "uip_process h UIP_TIMER (s\<lparr>uip_conn := Some i\<rparr>) = Some t" using r1 t0 b(1) t(1) by simp
      then show ?thesis by (rule that [OF _ t(2) c2]) (use t b h o1 in simp_all)
    next
      case False
      define f where "f = (\<lambda>c :: uip_conn. c\<lparr>c_timer := push_bit (if c_nrtx c > 4 then 4 else unat (c_nrtx c)) UIP_RTO, c_nrtx := c_nrtx c + 1\<rparr>)"
      let ?c2 = "f ?c1"
      define s2 where "s2 = (upd_conn i f s1)\<lparr>uip_flags := UIP_REXMIT\<rparr>"
      have n2: "node nf i ?c2 s2" using node_upd [OF n1, of f] by (simp add: s2_def node_def)
      have c2: "conn_ok e ?c2" "c_snd_nxt ?c2 = c_snd_nxt c" "c_rcv_nxt ?c2 = c_rcv_nxt c" "c_len ?c2 = c_len c" using n(3) by (simp_all add: conn_ok_def f_def)
      have k2: "uip_flags s2 = UIP_REXMIT" "app s2 = app s" "uip_slen s2 = 0" by (simp_all add: s2_def upd_conn_def k1)
      let ?d = "read_at (pos (app s)) (out (app s)) stream"
      obtain b where b: "UIP_APPCALL h s2 = app_wrote b ?d s2" "pos b = pos (app s)" "out b = out (app s)"
        using h(1) [unfolded sends_def, rule_format, of s2] k2 by auto
      have ld: "length ?d = out (app s)" using h(2) by simp
      have d340: "out (app s) \<le> 340" using n(3) h(3) by (simp add: conn_ok_def UIP_TCP_MSS_def word_le_nat_alt)
      let ?s3 = "(app_wrote b ?d s2)\<lparr>uip_appdata := 60, uip_len := of_nat (60 + out (app s))\<rparr>"
      have n3: "node nf i ?c2 (app_wrote b ?d s2)" using n2 d340 ld by (intro node_wrote) simp_all
      then have n4: "node nf i ?c2 ?s3" by (simp add: node_def)
      have cl: "c_len (uip_conns s2 ! i) = c_len c" using n2 c2(4) by (simp add: node_def)
      have l60: "c_len c + 60 = of_nat (60 + out (app s))" unfolding h(3) [symmetric] by (simp add: add.commute)
      have sl: "0 < uip_slen (app_wrote b ?d s2)"
      proof -
        have "unat (of_nat (out (app s)) :: u16) = out (app s)" using d340 by (intro unat_of_nat_u16) simp
        then show ?thesis unfolding wrote_slen [OF k2(3)] ld word_less_nat_alt using o1 by simp
      qed
      have sd: "uip_sappdata (app_wrote b ?d s2) = 60" by (simp add: s2_def s1_def upd_conn_def)
      have cp: "0 < c_len c" using \<open>c_len c \<noteq> 0\<close> by (simp add: word_neq_0_conv)
      have "tcp_rexmit h i s1 = apprexmit i (UIP_APPCALL h s2)"
        using False n(3) c by (simp add: tcp_rexmit_def Let_def k1(3) s2_def f_def)
      also have "\<dots> = tcp_send_noopts i (put 53 [0x18] ?s3)"
        unfolding b(1) apprexmit_def Let_def using sl cp sd by (simp add: cl put_len l60)
      finally have r2: "tcp_rexmit h i s1 = tcp_send_noopts i (put 53 [0x18] ?s3)" .
      obtain t q where t: "tcp_send_noopts i (put 53 [0x18] ?s3) = Some t" "node nf i ?c2 t" "app t = app ?s3" "emitted t = {q}"
        "seg_out e q (c_snd_nxt ?c2) (c_rcv_nxt ?c2) 0x18 (read_at 60 (out (app s)) (uip_buf ?s3))"
        by (rule node_sends [OF n4 n(2) c2(1) d340, of "0x18"]) simp
      have "length (uip_buf s2) = 400" using n2 by (simp add: node_def UIP_BUFSIZE_def)
      then have bd: "read_at 60 (out (app s)) (uip_buf ?s3) = ?d" using wrote_buf [of ?d s2 b] d340 ld by simp
      have "uip_process h UIP_TIMER (s\<lparr>uip_conn := Some i\<rparr>) = Some t" using r1 t0 r2 t(1) by simp
      then show ?thesis
        by (rule that [OF _ t(2) c2(1-3)]) (use t(3-5) b(2,3) h(2,3) c2 o1 bd in simp_all)
    qed
  qed
qed

section \<open>The two ends and the network\<close>

text \<open>
  The network keeps every packet ever sent: a packet may arrive at any time, any number of times, in any
  order, or never.
\<close>

record ('a, 'b) link =
  sender :: "'a uip"
  receiver :: "'b uip"
  from_s :: "u8 list set"
  from_r :: "u8 list set"

inductive link_step :: "'a hooks \<Rightarrow> nat \<Rightarrow> 'b hooks \<Rightarrow> nat \<Rightarrow> ('a, 'b) link \<Rightarrow> ('a, 'b) link \<Rightarrow> bool"
  for ha i hb j where
  s_timer: "uip_process ha UIP_TIMER ((sender L)\<lparr>uip_conn := Some i\<rparr>) = Some t \<Longrightarrow>
    link_step ha i hb j L (L\<lparr>sender := t, from_s := from_s L \<union> emitted t\<rparr>)"
| s_recv: "p \<in> from_r L \<Longrightarrow> uip_process ha UIP_DATA (load_packet p (sender L)) = Some t \<Longrightarrow>
    link_step ha i hb j L (L\<lparr>sender := t, from_s := from_s L \<union> emitted t\<rparr>)"
| r_timer: "uip_process hb UIP_TIMER ((receiver L)\<lparr>uip_conn := Some j\<rparr>) = Some t \<Longrightarrow>
    link_step ha i hb j L (L\<lparr>receiver := t, from_r := from_r L \<union> emitted t\<rparr>)"
| r_recv: "p \<in> from_s L \<Longrightarrow> uip_process hb UIP_DATA (load_packet p (receiver L)) = Some t \<Longrightarrow>
    link_step ha i hb j L (L\<lparr>receiver := t, from_r := from_r L \<union> emitted t\<rparr>)"

definition flip_ends :: "ends \<Rightarrow> ends" where
  "flip_ends e = \<lparr>my_addr = his_addr e, his_addr = my_addr e, my_port = his_port e, his_port = my_port e\<rparr>"

lemma flip_simps [simp]: "my_addr (flip_ends e) = his_addr e" "his_addr (flip_ends e) = my_addr e" "my_port (flip_ends e) = his_port e"
  "his_port (flip_ends e) = my_port e"
  by (simp_all add: flip_ends_def)

text \<open>What the packets of the two ends can be, when \<open>P\<close> bytes are acknowledged and \<open>Q\<close> more are on the way, and \<open>r\<close> are received.\<close>

definition numbered :: "int \<Rightarrow> nat \<Rightarrow> u8 list \<Rightarrow> bool" where
  "numbered isn k b \<longleftrightarrow> val32 b = (isn + int k) mod 4294967296"

definition from_sender :: "ends \<Rightarrow> int \<Rightarrow> u8 list \<Rightarrow> nat \<Rightarrow> nat \<Rightarrow> u8 list \<Rightarrow> bool" where
  "from_sender e isn stream P Q p \<longleftrightarrow> (\<exists>sq ak. seg_out e p sq ak (TCP_RST OR TCP_ACK) [] \<or>
     (\<exists>k m. m \<noteq> 0 \<and> seg_out e p sq ak 0x18 (read_at k m stream) \<and> numbered isn k sq \<and> (k + m \<le> P \<or> k = P \<and> m = Q)))"

definition from_receiver :: "ends \<Rightarrow> int \<Rightarrow> nat \<Rightarrow> u8 list \<Rightarrow> bool" where
  "from_receiver e isn r p \<longleftrightarrow> (\<exists>sq ak. seg_in e p sq ak (TCP_RST OR TCP_ACK) [] \<or>
     seg_in e p sq ak 0x10 [] \<and> (\<exists>k \<le> r. numbered isn k ak))"

text \<open>The end that sends, the end that receives.\<close>

definition sender_ok :: "ds6_if \<Rightarrow> nat \<Rightarrow> ends \<Rightarrow> int \<Rightarrow> ('a \<Rightarrow> nat) \<Rightarrow> ('a \<Rightarrow> nat) \<Rightarrow> u8 list \<Rightarrow> 'a uip \<Rightarrow> bool" where
  "sender_ok nf i e isn pos out stream s \<longleftrightarrow> (\<exists>c. node nf i c s \<and> conn_ok e c \<and> unat (c_len c) = out (app s) \<and>
     pos (app s) + out (app s) \<le> length stream \<and> numbered isn (pos (app s)) (c_snd_nxt c))"

definition receiver_ok :: "ds6_if \<Rightarrow> nat \<Rightarrow> ends \<Rightarrow> int \<Rightarrow> ('b \<Rightarrow> u8 list) \<Rightarrow> 'b uip \<Rightarrow> bool" where
  "receiver_ok nf j e isn recv s \<longleftrightarrow> (\<exists>c. node nf j c s \<and> conn_ok (flip_ends e) c \<and> c_len c = 0 \<and> numbered isn (length (recv (app s))) (c_rcv_nxt c))"

lemma digits_eq: "256 * x + a = 256 * y + b \<Longrightarrow> 0 \<le> a \<Longrightarrow> a < 256 \<Longrightarrow> 0 \<le> b \<Longrightarrow> b < 256 \<Longrightarrow> x = y \<and> a = (b :: int)"
proof -
  assume e: "256 * x + a = 256 * y + b" and r: "0 \<le> a" "a < 256" "0 \<le> b" "b < 256"
  have "(256 * x + a) mod 256 = a" "(256 * y + b) mod 256 = b" using r by simp_all
  then have "a = b" using e by simp
  then show ?thesis using e by simp
qed

lemma val32_inj:
  assumes "val32 a = val32 b" "length a = 4" "length b = 4"
  shows "a = b"
proof -
  have r: "0 \<le> uint (x :: u8) \<and> uint x < 256" for x using uint_lt2p [of x] by simp
  have v: "val32 x = 256 * (256 * (256 * uint (x ! 0) + uint (x ! 1)) + uint (x ! 2)) + uint (x ! 3)" for x by (simp add: val32_def)
  have "uint (a ! 3) = uint (b ! 3) \<and> 256 * (256 * uint (a ! 0) + uint (a ! 1)) + uint (a ! 2) = 256 * (256 * uint (b ! 0) + uint (b ! 1)) + uint (b ! 2)"
    using digits_eq [OF assms(1) [unfolded v]] r by blast
  moreover from this have "uint (a ! 2) = uint (b ! 2) \<and> 256 * uint (a ! 0) + uint (a ! 1) = 256 * uint (b ! 0) + uint (b ! 1)"
    using digits_eq r by blast
  moreover from this have "uint (a ! 1) = uint (b ! 1) \<and> uint (a ! 0) = uint (b ! 0)"
    using digits_eq r by blast
  ultimately have "a ! k = b ! k" if "k < 4" for k
    using that by (auto simp: less_Suc_eq numeral_eq_Suc intro: word_uint_eqI)
  then show ?thesis using assms(2,3) by (intro nth_equalityI) simp_all
qed

lemma numbered_inj:
  assumes "numbered isn k b" "numbered isn m b" "k < 4294967296" "m < 4294967296"
  shows "k = m"
proof -
  have "(isn + int k) mod 4294967296 = (isn + int m) mod 4294967296" using assms(1,2) by (simp add: numbered_def)
  then have "(isn + int k - isn) mod 4294967296 = (isn + int m - isn) mod 4294967296" by (rule mod_diff_cong) simp
  then show ?thesis using assms(3,4) by simp
qed

lemma numbered_eq: "numbered isn k a \<Longrightarrow> numbered isn k b \<Longrightarrow> length a = 4 \<Longrightarrow> length b = 4 \<Longrightarrow> a = b"
  by (rule val32_inj) (simp_all add: numbered_def)

lemma numbered_add: "numbered isn k b \<Longrightarrow> unat n = m \<Longrightarrow> numbered isn (k + m) (uip_add32 b n)"
proof -
  assume k: "numbered isn k b" and n: "unat n = m"
  have "uint n = int m" using n by (simp add: uint_nat)
  then show ?thesis using k by (simp add: numbered_def uip_add32_val mod_add_left_eq add.assoc)
qed

section \<open>Steps of the sending end\<close>

lemma from_sender_mono:
  assumes "from_sender e isn stream P Q p" "P' = P \<and> (Q \<noteq> 0 \<longrightarrow> Q' = Q) \<or> P' = P + Q"
  shows "from_sender e isn stream P' Q' p"
proof -
  obtain sq ak where "seg_out e p sq ak (TCP_RST OR TCP_ACK) [] \<or>
     (\<exists>k m. m \<noteq> 0 \<and> seg_out e p sq ak 0x18 (read_at k m stream) \<and> numbered isn k sq \<and> (k + m \<le> P \<or> k = P \<and> m = Q))"
    using assms(1) unfolding from_sender_def by blast
  then show ?thesis
  proof (elim disjE exE)
    fix k m
    assume k: "m \<noteq> 0 \<and> seg_out e p sq ak 0x18 (read_at k m stream) \<and> numbered isn k sq \<and> (k + m \<le> P \<or> k = P \<and> m = Q)"
    then have "k + m \<le> P' \<or> k = P' \<and> m = Q'" using assms(2) by auto
    then show ?thesis using k unfolding from_sender_def by blast
  qed (unfold from_sender_def, blast)
qed

lemma sender_timer:
  assumes s: "sender_ok nf i e isn pos out stream s" and e: "ends_ok nf e" and h: "sends h i pos out stream"
  obtains t where "uip_process h UIP_TIMER (s\<lparr>uip_conn := Some i\<rparr>) = Some t" "sender_ok nf i e isn pos out stream t"
    "pos (app t) = pos (app s)" "out (app s) \<noteq> 0 \<longrightarrow> out (app t) = out (app s)"
    "\<forall>q \<in> emitted t. from_sender e isn stream (pos (app t)) (out (app t)) q"
proof -
  obtain c where c: "node nf i c s" "conn_ok e c" "unat (c_len c) = out (app s)" "pos (app s) + out (app s) \<le> length stream"
    "numbered isn (pos (app s)) (c_snd_nxt c)" using s unfolding sender_ok_def by blast
  show ?thesis
  proof (cases "c_tcpstateflags c = UIP_CLOSED")
    case True
    obtain t where t: "uip_process h UIP_TIMER (s\<lparr>uip_conn := Some i\<rparr>) = Some t" "node nf i c t" "app t = app s" "emitted t = {}"
      by (rule closed_timer [OF c(1) True])
    show ?thesis by (rule that [OF t(1)]) (use c t(2-4) in \<open>auto simp: sender_ok_def\<close>)
  next
    case False
    then have st: "c_tcpstateflags c = UIP_ESTABLISHED" using c(2) by (simp add: conn_ok_def)
    obtain t c' where t: "uip_process h UIP_TIMER (s\<lparr>uip_conn := Some i\<rparr>) = Some t" "node nf i c' t" "conn_ok e c'"
      "c_snd_nxt c' = c_snd_nxt c" "c_rcv_nxt c' = c_rcv_nxt c" "unat (c_len c') = out (app t)" "pos (app t) = pos (app s)"
      "pos (app t) + out (app t) \<le> length stream" "out (app s) \<noteq> 0 \<longrightarrow> out (app t) = out (app s)"
      "\<forall>q \<in> emitted t. out (app t) \<noteq> 0 \<and> seg_out e q (c_snd_nxt c) (c_rcv_nxt c) 0x18 (read_at (pos (app t)) (out (app t)) stream) \<or>
         seg_out e q (c_snd_nxt c) (c_rcv_nxt c) (TCP_RST OR TCP_ACK) []"
      by (rule send_timer [OF c(1) e c(2) st h c(4,3)])
    have "sender_ok nf i e isn pos out stream t" unfolding sender_ok_def using t(2-4,6-8) c(5) by (intro exI [of _ c']) simp
    moreover have "\<forall>q \<in> emitted t. from_sender e isn stream (pos (app t)) (out (app t)) q"
      using t(7,10) c(5) unfolding from_sender_def by metis
    ultimately show ?thesis using that [OF t(1)] t(7,9) by blast
  qed
qed

text \<open>A packet of the receiving end, which has \<open>r\<close> bytes of the stream.\<close>

lemma sender_recv:
  assumes s: "sender_ok nf i e isn pos out stream s" and e: "ends_ok nf e" and h: "sends h i pos out stream"
    and p: "from_receiver e isn r p" and r: "r \<le> length stream" "length stream < 4294967296"
  obtains t where "uip_process h UIP_DATA (load_packet p s) = Some t" "sender_ok nf i e isn pos out stream t"
    "pos (app t) = pos (app s) \<and> out (app t) = out (app s) \<or> pos (app t) = pos (app s) + out (app s) \<and> pos (app t) \<le> r"
    "\<forall>q \<in> emitted t. from_sender e isn stream (pos (app t)) (out (app t)) q"
proof -
  obtain c where c: "node nf i c s" "conn_ok e c" "unat (c_len c) = out (app s)" "pos (app s) + out (app s) \<le> length stream"
    "numbered isn (pos (app s)) (c_snd_nxt c)" using s unfolding sender_ok_def by blast
  obtain sq ak fl where g: "seg_in e p sq ak fl []" "fl = 0x14 \<or> fl = 0x10 \<and> (\<exists>k \<le> r. numbered isn k ak)"
    using p unfolding from_receiver_def by auto
  have pf: "plain_flags fl" using g(2) by (auto simp: plain_flags_def)
  have lak: "length ak = 4" using g(1) by (simp add: seg_def)
  show ?thesis
  proof (cases "c_tcpstateflags c = UIP_CLOSED")
    case True
    obtain t where t: "uip_process h UIP_DATA (load_packet p s) = Some t" "node nf i c t" "app t = app s"
      "\<forall>q \<in> emitted t. seg_out e q ak (inc32 sq) (TCP_RST OR TCP_ACK) []"
      by (rule closed_recv [OF c(1) e c(2) g(1) pf True])
    have "\<forall>q \<in> emitted t. from_sender e isn stream (pos (app t)) (out (app t)) q" using t(4) unfolding from_sender_def by blast
    then show ?thesis by (rule that [OF t(1), rotated 2]) (use c t(2,3) in \<open>auto simp: sender_ok_def\<close>)
  next
    case False
    then have st: "c_tcpstateflags c = UIP_ESTABLISHED" using c(2) by (simp add: conn_ok_def)
    show ?thesis
    proof (cases "fl = 0x14")
      case True
      obtain x where x: "uip_process h UIP_DATA (load_packet p s) = Some (uip_drop (UIP_APPCALL h x))" "node nf i (c\<lparr>c_tcpstateflags := UIP_CLOSED\<rparr>) x"
        "uip_flags x = UIP_ABORT" "app x = app s" by (rule recv_reset [OF c(1) e c(2) g(1) [unfolded True] st])
      obtain b where b: "UIP_APPCALL h x = app_wrote b [] x" "pos b = pos (app s)" "out b = out (app s)"
        using h [unfolded sends_def, rule_format, of x] x(3,4) by auto
      let ?c = "c\<lparr>c_tcpstateflags := UIP_CLOSED\<rparr>"
      have n: "node nf i ?c (uip_drop (app_wrote b [] x))" "app (uip_drop (app_wrote b [] x)) = b"
        using x(2) by (simp_all add: node_def app_wrote_def uip_drop_def)
      have "conn_ok e ?c" using c(2) by (simp add: conn_ok_def)
      then have "sender_ok nf i e isn pos out stream (uip_drop (app_wrote b [] x))"
        unfolding sender_ok_def n(2) using n(1) b c by (intro exI [of _ ?c]) simp
      then show ?thesis by (rule that [OF x(1) [unfolded b(1)]]) (use b n(2) in simp_all)
    next
      case False
      then obtain k where k: "fl = 0x10" "k \<le> r" "numbered isn k ak" using g(2) by blast
      note g1 = g(1) [unfolded k(1)]
      show ?thesis
      proof (cases "c_len c \<noteq> 0 \<and> ak = uip_add32 (c_snd_nxt c) (c_len c)")
        case True
        have "numbered isn (pos (app s) + out (app s)) ak" using numbered_add [OF c(5,3)] True by simp
        then have kr: "pos (app s) + out (app s) = k" using k r c(4) by (intro numbered_inj [of isn _ ak]) simp_all
        obtain t c' where t: "uip_process h UIP_DATA (load_packet p s) = Some t" "node nf i c' t" "conn_ok e c'" "c_tcpstateflags c' = UIP_ESTABLISHED"
          "c_snd_nxt c' = ak" "c_rcv_nxt c' = c_rcv_nxt c" "unat (c_len c') = out (app t)" "pos (app t) = pos (app s) + out (app s)"
          "pos (app t) + out (app t) \<le> length stream"
          "\<forall>q \<in> emitted t. out (app t) \<noteq> 0 \<and> seg_out e q ak (c_rcv_nxt c) 0x18 (read_at (pos (app t)) (out (app t)) stream)"
          by (rule send_acked [OF c(1) e c(2) g1 st _ _ h c(4)]) (use True in simp_all)
        have nk: "numbered isn (pos (app t)) ak" using k(3) kr t(8) by simp
        then have "sender_ok nf i e isn pos out stream t" unfolding sender_ok_def using t(2-9) by (intro exI [of _ c']) simp
        moreover have "\<forall>q \<in> emitted t. from_sender e isn stream (pos (app t)) (out (app t)) q"
          using t(10) nk unfolding from_sender_def by metis
        ultimately show ?thesis using that [OF t(1)] t(8) kr k(2) by simp
      next
        case False
        obtain t wnd where t: "uip_process h UIP_DATA (load_packet p s) = Some t" "node nf i (new_mss wnd c) t" "app t = app s" "emitted t = {}"
          by (rule send_not_acked [OF c(1) e c(2) g1 st]) (use False in blast)
        have "c_len (new_mss wnd c) = c_len c" "c_snd_nxt (new_mss wnd c) = c_snd_nxt c" by (simp_all add: new_mss_def)
        then have "sender_ok nf i e isn pos out stream t"
          unfolding sender_ok_def using t(2,3) c new_mss_ok [OF c(2), of wnd] by (intro exI [of _ "new_mss wnd c"]) simp
        then show ?thesis by (rule that [OF t(1)]) (use t(3,4) in simp_all)
      qed
    qed
  qed
qed

section \<open>Steps of the receiving end\<close>

lemma receiver_timer:
  assumes s: "receiver_ok nf j e isn recv s" and e: "ends_ok nf (flip_ends e)" and h: "collects h recv"
  obtains t where "uip_process h UIP_TIMER (s\<lparr>uip_conn := Some j\<rparr>) = Some t" "receiver_ok nf j e isn recv t" "recv (app t) = recv (app s)" "emitted t = {}"
proof -
  obtain c where c: "node nf j c s" "conn_ok (flip_ends e) c" "c_len c = 0" "numbered isn (length (recv (app s))) (c_rcv_nxt c)"
    using s unfolding receiver_ok_def by blast
  show ?thesis
  proof (cases "c_tcpstateflags c = UIP_CLOSED")
    case True
    obtain t where t: "uip_process h UIP_TIMER (s\<lparr>uip_conn := Some j\<rparr>) = Some t" "node nf j c t" "app t = app s" "emitted t = {}"
      by (rule closed_timer [OF c(1) True])
    show ?thesis by (rule that [OF t(1)]) (use c t(2-4) in \<open>auto simp: receiver_ok_def\<close>)
  next
    case False
    then have st: "c_tcpstateflags c = UIP_ESTABLISHED" using c(2) by (simp add: conn_ok_def)
    obtain t where t: "uip_process h UIP_TIMER (s\<lparr>uip_conn := Some j\<rparr>) = Some t" "node nf j (c\<lparr>c_nrtx := 0\<rparr>) t" "recv (app t) = recv (app s)" "emitted t = {}"
      by (rule recv_timer [OF c(1) st c(3) h])
    have "conn_ok (flip_ends e) (c\<lparr>c_nrtx := 0\<rparr>)" using c(2) by (simp add: conn_ok_def)
    then have "receiver_ok nf j e isn recv t" unfolding receiver_ok_def using c t(2,3) by (intro exI [of _ "c\<lparr>c_nrtx := 0\<rparr>"]) simp
    then show ?thesis by (rule that [OF t(1)]) (use t(3,4) in simp_all)
  qed
qed

text \<open>A packet of the sending end: the bytes that come next, or bytes that are here already.\<close>

lemma receiver_recv:
  assumes s: "receiver_ok nf j e isn recv s" and e: "ends_ok nf (flip_ends e)" and h: "collects h recv"
    and p: "from_sender e isn stream P Q p" and r: "length (recv (app s)) = P \<or> length (recv (app s)) = P + Q" "P + Q \<le> length stream"
      "length stream < 4294967296" "recv (app s) = take (length (recv (app s))) stream"
  obtains t where "uip_process h UIP_DATA (load_packet p s) = Some t" "receiver_ok nf j e isn recv t"
    "recv (app t) = recv (app s) \<or> length (recv (app s)) = P \<and> recv (app t) = take (P + Q) stream"
    "\<forall>q \<in> emitted t. from_receiver e isn (length (recv (app t))) q"
proof -
  obtain c where c: "node nf j c s" "conn_ok (flip_ends e) c" "c_len c = 0" "numbered isn (length (recv (app s))) (c_rcv_nxt c)"
    using s unfolding receiver_ok_def by blast
  obtain sq ak fl data where g: "seg_out e p sq ak fl data" "fl = 0x14 \<and> data = [] \<or> fl = 0x18 \<and>
      (\<exists>k m. m \<noteq> 0 \<and> data = read_at k m stream \<and> numbered isn k sq \<and> (k + m \<le> P \<or> k = P \<and> m = Q))"
  proof -
    obtain sq ak where "seg_out e p sq ak 0x14 [] \<or> (\<exists>k m. m \<noteq> 0 \<and> seg_out e p sq ak 0x18 (read_at k m stream) \<and> numbered isn k sq \<and>
        (k + m \<le> P \<or> k = P \<and> m = Q))"
      using p unfolding from_sender_def by auto
    then show ?thesis
    proof (elim disjE exE conjE)
      assume "seg_out e p sq ak 0x14 []"
      then show ?thesis by (rule that) simp
    next
      fix k m
      assume k: "m \<noteq> 0" "seg_out e p sq ak 0x18 (read_at k m stream)" "numbered isn k sq" "k + m \<le> P"
      show ?thesis by (rule that [OF k(2)]) (use k in blast)
    next
      fix k m
      assume k: "m \<noteq> 0" "seg_out e p sq ak 0x18 (read_at k m stream)" "numbered isn k sq" "k = P" "m = Q"
      show ?thesis by (rule that [OF k(2)]) (use k in blast)
    qed
  qed
  have g': "seg_in (flip_ends e) p sq ak fl data" using g(1) by simp
  have pf: "plain_flags fl" using g(2) by (auto simp: plain_flags_def)
  have ls: "length sq = 4" "length (c_rcv_nxt c) = 4" using g(1) c(2) by (simp_all add: seg_def conn_ok_def)
  show ?thesis
  proof (cases "c_tcpstateflags c = UIP_CLOSED")
    case True
    obtain t where t: "uip_process h UIP_DATA (load_packet p s) = Some t" "node nf j c t" "app t = app s"
      "\<forall>q \<in> emitted t. seg_out (flip_ends e) q ak (inc32 sq) (TCP_RST OR TCP_ACK) []"
      by (rule closed_recv [OF c(1) e c(2) g' pf True])
    have "\<forall>q \<in> emitted t. from_receiver e isn (length (recv (app t))) q" using t(4) unfolding from_receiver_def by auto
    then show ?thesis by (rule that [OF t(1), rotated 2]) (use c t(2,3) in \<open>auto simp: receiver_ok_def\<close>)
  next
    case False
    then have st: "c_tcpstateflags c = UIP_ESTABLISHED" using c(2) by (simp add: conn_ok_def)
    show ?thesis
    proof (cases "fl = 0x14")
      case True
      then have d: "data = []" using g(2) by auto
      obtain x where x: "uip_process h UIP_DATA (load_packet p s) = Some (uip_drop (UIP_APPCALL h x))" "node nf j (c\<lparr>c_tcpstateflags := UIP_CLOSED\<rparr>) x"
        "uip_flags x = UIP_ABORT" "app x = app s" by (rule recv_reset [OF c(1) e c(2) g' [unfolded True d] st])
      obtain b where b: "UIP_APPCALL h x = x\<lparr>app := b\<rparr>" "recv b = recv (app s)"
        using h [unfolded collects_def, rule_format, of x] x(3,4) by auto
      let ?c = "c\<lparr>c_tcpstateflags := UIP_CLOSED\<rparr>"
      have n: "node nf j ?c (uip_drop (x\<lparr>app := b\<rparr>))" "app (uip_drop (x\<lparr>app := b\<rparr>)) = b"
        using x(2) by (simp_all add: node_def uip_drop_def)
      have "conn_ok (flip_ends e) ?c" using c(2) by (simp add: conn_ok_def)
      then have "receiver_ok nf j e isn recv (uip_drop (x\<lparr>app := b\<rparr>))"
        unfolding receiver_ok_def n(2) using n(1) b c by (intro exI [of _ ?c]) simp
      then show ?thesis by (rule that [OF x(1) [unfolded b(1)]]) (use b n(2) in simp_all)
    next
      case False
      then obtain k m where k: "fl = 0x18" "m \<noteq> 0" "data = read_at k m stream" "numbered isn k sq" "k + m \<le> P \<or> k = P \<and> m = Q"
        using g(2) by blast
      have km: "k + m \<le> length stream" using k(5) r(2) by auto
      then have ld: "length data = m" using k(3) by simp
      then have ne: "data \<noteq> []" using k(2) by auto
      note g1 = g' [unfolded k(1)]
      show ?thesis
      proof (cases "sq = c_rcv_nxt c")
        case True
        have "length (recv (app s)) = k"
        proof (rule numbered_inj)
          show "numbered isn (length (recv (app s))) sq" using c(4) True by simp
        qed (use k(4) km r in auto)
        then have kP: "k = P" "m = Q" "length (recv (app s)) = P" using k(2,5) r(1) by auto
        obtain t c' q where t: "uip_process h UIP_DATA (load_packet p s) = Some t" "node nf j c' t" "conn_ok (flip_ends e) c'" "c_tcpstateflags c' = UIP_ESTABLISHED"
          "c_len c' = 0" "c_snd_nxt c' = c_snd_nxt c" "c_rcv_nxt c' = uip_add32 (c_rcv_nxt c) (of_nat (length data))"
          "recv (app t) = recv (app s) @ data" "emitted t = {q}" "seg_out (flip_ends e) q (c_snd_nxt c) (c_rcv_nxt c') 0x10 []"
          by (rule recv_in_order [OF c(1) e c(2) g1 st c(3) ne True h])
        have um: "unat (of_nat (length data) :: u16) = m"
          unfolding ld using g(1) ld by (intro unat_of_nat_u16) (simp add: seg_def)
        have nr: "numbered isn (length (recv (app t))) (c_rcv_nxt c')"
          using numbered_add [OF c(4) um] by (simp add: t(7,8) ld)
        have "recv (app t) = take P stream @ read_at P Q stream" using t(8) k(3) kP r(4) by simp
        also have "\<dots> = take (P + Q) stream" by (simp add: read_at_def take_add)
        finally have rt: "recv (app t) = take (P + Q) stream" .
        have "receiver_ok nf j e isn recv t" unfolding receiver_ok_def using t(2,3,5) nr by blast
        moreover have "\<forall>q \<in> emitted t. from_receiver e isn (length (recv (app t))) q"
          using t(9,10) nr unfolding from_receiver_def by auto
        ultimately show ?thesis using that [OF t(1)] rt kP(3) by blast
      next
        case False
        obtain t q where t: "uip_process h UIP_DATA (load_packet p s) = Some t" "node nf j c t" "app t = app s" "emitted t = {q}"
          "seg_out (flip_ends e) q (c_snd_nxt c) (c_rcv_nxt c) 0x10 []"
          by (rule recv_out_of_order [OF c(1) e c(2) g1 st ne False])
        have "receiver_ok nf j e isn recv t" unfolding receiver_ok_def t(3) using t(2) c by blast
        moreover have "\<forall>q \<in> emitted t. from_receiver e isn (length (recv (app t))) q"
          using t(3-5) c(4) unfolding from_receiver_def by auto
        ultimately show ?thesis using that [OF t(1)] t(3) by simp
      qed
    qed
  qed
qed

section \<open>The invariant of the link\<close>

definition link_inv :: "ds6_if \<Rightarrow> nat \<Rightarrow> ds6_if \<Rightarrow> nat \<Rightarrow> ends \<Rightarrow> int \<Rightarrow> ('a \<Rightarrow> nat) \<Rightarrow> ('a \<Rightarrow> nat) \<Rightarrow> u8 list \<Rightarrow> ('b \<Rightarrow> u8 list) \<Rightarrow> ('a, 'b) link \<Rightarrow> bool" where
  "link_inv nfa i nfb j e isn pos out stream recv L \<longleftrightarrow>
     sender_ok nfa i e isn pos out stream (sender L) \<and> receiver_ok nfb j e isn recv (receiver L) \<and>
     (\<forall>p \<in> from_s L. from_sender e isn stream (pos (app (sender L))) (out (app (sender L))) p) \<and>
     (\<forall>p \<in> from_r L. from_receiver e isn (length (recv (app (receiver L)))) p) \<and>
     recv (app (receiver L)) = take (length (recv (app (receiver L)))) stream \<and>
     (length (recv (app (receiver L))) = pos (app (sender L)) \<or> length (recv (app (receiver L))) = pos (app (sender L)) + out (app (sender L)))"

lemma from_receiver_mono: "from_receiver e isn r p \<Longrightarrow> r \<le> r' \<Longrightarrow> from_receiver e isn r' p"
  unfolding from_receiver_def by (meson order_trans)

lemma link_step_inv:
  assumes "link_inv nfa i nfb j e isn pos out stream recv L" "link_step ha i hb j L L'"
    and e: "ends_ok nfa e" "ends_ok nfb (flip_ends e)" and h: "sends ha i pos out stream" "collects hb recv" and l: "length stream < 4294967296"
  shows "link_inv nfa i nfb j e isn pos out stream recv L'"
proof -
  let ?P = "pos (app (sender L))" and ?Q = "out (app (sender L))" and ?R = "recv (app (receiver L))"
  have v: "sender_ok nfa i e isn pos out stream (sender L)" "receiver_ok nfb j e isn recv (receiver L)"
    "\<forall>p \<in> from_s L. from_sender e isn stream ?P ?Q p" "\<forall>p \<in> from_r L. from_receiver e isn (length ?R) p"
    "?R = take (length ?R) stream" "length ?R = ?P \<or> length ?R = ?P + ?Q"
    using assms(1) unfolding link_inv_def by blast+
  have PQ: "?P + ?Q \<le> length stream" using v(1) unfolding sender_ok_def by blast
  have Rl: "length ?R \<le> length stream" using v(6) PQ by auto
  show ?thesis using assms(2)
  proof (cases rule: link_step.cases)
    case (s_timer t)
    obtain t' where t: "uip_process ha UIP_TIMER ((sender L)\<lparr>uip_conn := Some i\<rparr>) = Some t'" "sender_ok nfa i e isn pos out stream t'"
      "pos (app t') = ?P" "?Q \<noteq> 0 \<longrightarrow> out (app t') = ?Q" "\<forall>q \<in> emitted t'. from_sender e isn stream (pos (app t')) (out (app t')) q"
      by (rule sender_timer [OF v(1) e(1) h(1)])
    then have tt: "t' = t" using s_timer(2) by simp
    have "\<forall>p \<in> from_s L. from_sender e isn stream (pos (app t)) (out (app t)) p"
      using v(3) t(3,4) from_sender_mono unfolding tt by blast
    then show ?thesis unfolding link_inv_def s_timer(1) using t v tt by auto
  next
    case (s_recv p t)
    obtain t' where t: "uip_process ha UIP_DATA (load_packet p (sender L)) = Some t'" "sender_ok nfa i e isn pos out stream t'"
      "pos (app t') = ?P \<and> out (app t') = ?Q \<or> pos (app t') = ?P + ?Q \<and> pos (app t') \<le> length ?R"
      "\<forall>q \<in> emitted t'. from_sender e isn stream (pos (app t')) (out (app t')) q"
      by (rule sender_recv [OF v(1) e(1) h(1) bspec [OF v(4) s_recv(2)] Rl l])
    then have tt: "t' = t" using s_recv(3) by simp
    have "\<forall>p \<in> from_s L. from_sender e isn stream (pos (app t)) (out (app t)) p"
      using v(3) t(3) from_sender_mono unfolding tt by blast
    moreover have "length ?R = pos (app t) \<or> length ?R = pos (app t) + out (app t)" using t(3) v(6) tt by auto
    ultimately show ?thesis unfolding link_inv_def s_recv(1) using t v tt by auto
  next
    case (r_timer t)
    obtain t' where t: "uip_process hb UIP_TIMER ((receiver L)\<lparr>uip_conn := Some j\<rparr>) = Some t'" "receiver_ok nfb j e isn recv t'"
      "recv (app t') = ?R" "emitted t' = {}"
      by (rule receiver_timer [OF v(2) e(2) h(2)])
    then have tt: "t' = t" using r_timer(2) by simp
    then show ?thesis unfolding link_inv_def r_timer(1) using t v by simp
  next
    case (r_recv p t)
    obtain t' where t: "uip_process hb UIP_DATA (load_packet p (receiver L)) = Some t'" "receiver_ok nfb j e isn recv t'"
      "recv (app t') = ?R \<or> length ?R = ?P \<and> recv (app t') = take (?P + ?Q) stream"
      "\<forall>q \<in> emitted t'. from_receiver e isn (length (recv (app t'))) q"
      by (rule receiver_recv [OF v(2) e(2) h(2) bspec [OF v(3) r_recv(2)] v(6) PQ l v(5)])
    then have tt: "t' = t" using r_recv(3) by simp
    have lt: "length (take (?P + ?Q) stream) = ?P + ?Q" using PQ by simp
    have "length ?R \<le> length (recv (app t))" using t(3) v(6) lt tt by auto
    then have "\<forall>p \<in> from_r L. from_receiver e isn (length (recv (app t))) p" using v(4) from_receiver_mono by blast
    moreover have "recv (app t) = take (length (recv (app t))) stream \<and> (length (recv (app t)) = ?P \<or> length (recv (app t)) = ?P + ?Q)"
      using t(3) v(5,6) lt tt by (elim disjE) auto
    ultimately show ?thesis unfolding link_inv_def r_recv(1) using t v(1,3) tt by auto
  qed
qed

text \<open>The start: both ends are established, with the same number, nothing is on the way.\<close>

definition link_start :: "ds6_if \<Rightarrow> nat \<Rightarrow> ds6_if \<Rightarrow> nat \<Rightarrow> ends \<Rightarrow> ('a \<Rightarrow> nat) \<Rightarrow> ('a \<Rightarrow> nat) \<Rightarrow> ('b \<Rightarrow> u8 list) \<Rightarrow> ('a, 'b) link \<Rightarrow> bool" where
  "link_start nfa i nfb j e pos out recv L \<longleftrightarrow>
     (let ca = uip_conns (sender L) ! i; cb = uip_conns (receiver L) ! j in
      node nfa i ca (sender L) \<and> node nfb j cb (receiver L) \<and> conn_ok e ca \<and> conn_ok (flip_ends e) cb \<and> ends_ok nfa e \<and> ends_ok nfb (flip_ends e) \<and>
      c_snd_nxt ca = c_rcv_nxt cb \<and> c_len ca = 0 \<and> c_len cb = 0 \<and> pos (app (sender L)) = 0 \<and> out (app (sender L)) = 0 \<and>
      recv (app (receiver L)) = [] \<and> from_s L = {} \<and> from_r L = {})"

lemma link_start_inv:
  assumes "link_start nfa i nfb j e pos out recv L"
  shows "link_inv nfa i nfb j e (val32 (c_snd_nxt (uip_conns (sender L) ! i))) pos out stream recv L"
proof -
  let ?ca = "uip_conns (sender L) ! i" and ?cb = "uip_conns (receiver L) ! j"
  have k: "node nfa i ?ca (sender L)" "node nfb j ?cb (receiver L)" "conn_ok e ?ca" "conn_ok (flip_ends e) ?cb" "c_snd_nxt ?ca = c_rcv_nxt ?cb"
    "c_len ?ca = 0" "c_len ?cb = 0" "pos (app (sender L)) = 0" "out (app (sender L)) = 0" "recv (app (receiver L)) = []" "from_s L = {}" "from_r L = {}"
    using assms unfolding link_start_def Let_def by blast+
  have n: "numbered (val32 b) 0 b" for b using val32_range [of b] by (simp add: numbered_def)
  have "sender_ok nfa i e (val32 (c_snd_nxt ?ca)) pos out stream (sender L)"
    unfolding sender_ok_def using k n by (intro exI [of _ ?ca]) simp
  moreover have "receiver_ok nfb j e (val32 (c_snd_nxt ?ca)) recv (receiver L)"
    unfolding receiver_ok_def using k n by (intro exI [of _ ?cb]) simp
  ultimately show ?thesis using k by (simp add: link_inv_def)
qed

lemma link_reachable:
  assumes "(link_step ha i hb j)\<^sup>*\<^sup>* L0 L" "link_start nfa i nfb j e pos out recv L0" "sends ha i pos out stream" "collects hb recv"
    "length stream < 4294967296"
  shows "link_inv nfa i nfb j e (val32 (c_snd_nxt (uip_conns (sender L0) ! i))) pos out stream recv L"
  using assms(1)
proof (induction rule: rtranclp_induct)
  case base
  show ?case by (rule link_start_inv [OF assms(2)])
next
  case (step L1 L2)
  have "ends_ok nfa e" "ends_ok nfb (flip_ends e)" using assms(2) unfolding link_start_def Let_def by blast+
  then show ?case using link_step_inv [OF step.IH step.hyps(2)] assms(3-5) by blast
qed

end
