(* ===== verification/UipRun.thy ===== *)
theory UipRun
  imports UipStream
begin

text \<open>
  Two nodes, run: they connect, and one of them sends a stream of bytes to the other.
\<close>

declare mss_loop.simps [code] find_port.simps [code] ext_options_loop.simps [code] headers_loop.simps [code]

section \<open>The applications\<close>

definition no_hooks :: "('a uip \<Rightarrow> 'a uip) \<Rightarrow> 'a hooks" where
  "no_hooks f = \<lparr>UIP_APPCALL = f, UIP_UDP_APPCALL = id, uip_nd6_ns_input = (\<lambda>s. s\<lparr>uip_len := 0\<rparr>), uip_nd6_na_input = (\<lambda>s. s\<lparr>uip_len := 0\<rparr>),
     uip_rpl_input = (\<lambda>s. s\<lparr>uip_len := 0\<rparr>), rpl_verify_header = (\<lambda>_ s. (False, s)), rpl_update_header_empty = id, rpl_insert_header = id,
     rpl_invert_header = (\<lambda>s. (0, s))\<rparr>"

definition sender_app :: "nat \<Rightarrow> u8 list \<Rightarrow> (nat \<times> nat) uip \<Rightarrow> (nat \<times> nat) uip" where
  "sender_app i stream s =
     (let (p, q) = app s in
      if uip_flags s = UIP_POLL \<or> uip_flags s = UIP_ACKDATA then
        let n = min (unat (c_mss (uip_conns s ! i))) (length stream - (p + q)) in app_wrote (p + q, n) (read_at (p + q) n stream) s
      else if uip_flags s = UIP_REXMIT then app_wrote (p, q) (read_at p q stream) s
      else s)"

definition receiver_app :: "u8 list uip \<Rightarrow> u8 list uip" where
  "receiver_app s = (if uip_flags s AND UIP_NEWDATA \<noteq> 0 then s\<lparr>app := app s @ read_at (uip_appdata s) (unat (uip_len s)) (uip_buf s)\<rparr> else s)"

lemma sender_app_sends: "sends (no_hooks (sender_app i stream)) i fst Product_Type.snd stream"
proof -
  have w: "app_wrote (app s) [] s = s" for s :: "'a uip" by (cases s) (simp add: app_wrote_def)
  show ?thesis unfolding sends_def
  proof (intro allI conjI impI, goal_cases)
    case (1 s)
    then have "UIP_APPCALL (no_hooks (sender_app i stream)) s = app_wrote (app s) [] s"
      unfolding w by (auto simp: no_hooks_def sender_app_def split: prod.splits)
    then show ?case by blast
  next
    case (2 s)
    then have "UIP_APPCALL (no_hooks (sender_app i stream)) s = app_wrote (app s) (read_at (fst (app s)) (Product_Type.snd (app s)) stream) s"
      by (simp add: no_hooks_def sender_app_def split: prod.splits)
    then show ?case by blast
  next
    case (3 s)
    let ?P = "fst (app s) + Product_Type.snd (app s)"
    let ?n = "min (unat (c_mss (uip_conns s ! i))) (length stream - ?P)"
    have "UIP_APPCALL (no_hooks (sender_app i stream)) s = app_wrote (?P, ?n) (read_at ?P ?n stream) s"
      using 3(1) by (auto simp: no_hooks_def sender_app_def Let_def split: prod.splits)
    then show ?case using 3(2) by (intro exI [of _ "(?P, ?n)"]) simp
  qed
qed

lemma receiver_app_collects: "collects (no_hooks receiver_app) (\<lambda>a. a)"
  unfolding collects_def
proof
  fix s :: "u8 list uip"
  show "\<exists>a. UIP_APPCALL (no_hooks receiver_app) s = s\<lparr>app := a\<rparr> \<and>
      a = app s @ (if uip_flags s AND UIP_NEWDATA \<noteq> 0 then read_at (uip_appdata s) (unat (uip_len s)) (uip_buf s) else [])"
  proof (cases "uip_flags s AND UIP_NEWDATA \<noteq> 0")
    case True
    then show ?thesis by (simp add: no_hooks_def receiver_app_def)
  next
    case False
    have "s\<lparr>app := app s\<rparr> = s" by (cases s) simp
    moreover have "UIP_APPCALL (no_hooks receiver_app) s = s" using False by (simp add: no_hooks_def receiver_app_def)
    ultimately show ?thesis using False by (intro exI [of _ "app s"]) simp
  qed
qed

section \<open>The nodes\<close>

definition glob3 :: "u8 list" where "glob3 = [0x20, 1, 0xd, 0xb8, 0, 0, 0, 0, 0, 0, 0, 0, 0, 0, 0, 9]"

definition iface :: "u8 list \<Rightarrow> u8 list \<Rightarrow> ds6_if" where
  "iface mac a = ds6_all_preferred (Product_Type.snd (uip_ds6_addr_add 0 0 7 a 0 3 (uip_ds6_init 0 0 7 mac)))"

definition conn0 :: uip_conn where
  "conn0 = \<lparr>c_ripaddr = replicate 16 0, c_lport = 0, c_rport = 0, c_rcv_nxt = replicate 4 0, c_snd_nxt = replicate 4 0, c_len = 0, c_mss = 0,
     c_initialmss = 0, c_sa = 0, c_sv = 0, c_rto = 0, c_tcpstateflags = 0, c_timer = 0, c_nrtx = 0\<rparr>"

definition uip_node :: "ds6_if \<Rightarrow> u8 list \<Rightarrow> 'a \<Rightarrow> 'a uip" where
  "uip_node nf number a = \<lparr>uip_buf = replicate UIP_BUFSIZE 0, uip_len = 0, uip_slen = 0, uip_flags = 0, uip_appdata = 60, uip_sappdata = 60,
     uip_ext_len = 0, uip_ext_bitmap = 0, uip_conns = replicate UIP_CONNS conn0, uip_conn = None, uip_listenports = replicate UIP_LISTENPORTS 0,
     uip_udp_conns = [], uip_udp_conn = 0, iss = number, lastport = 1024, netif = nf, app = a\<rparr>"

definition out_packet :: "'a uip \<Rightarrow> u8 list" where
  "out_packet s = take (unat (uip_len s)) (uip_buf s)"

definition stream1 :: "u8 list" where "stream1 = [104, 101, 108, 108, 111]"

definition h_a :: "(nat \<times> nat) hooks" where "h_a = no_hooks (sender_app 0 stream1)"
definition h_b :: "u8 list hooks" where "h_b = no_hooks receiver_app"

text \<open>The node \<open>a\<close> connects to a port of \<open>b\<close>.\<close>

definition a0 :: "(nat \<times> nat) uip" where
  "a0 = Product_Type.snd (the (uip_connect glob3 (uip_htons 80) (uip_node (iface mac1 glob1) [0, 0, 255, 254] (0, 0))))"
definition b0 :: "u8 list uip" where "b0 = uip_listen (uip_htons 80) (uip_node (iface mac2 glob3) [1, 2, 3, 4] [])"
definition timer_of :: "'a hooks \<Rightarrow> 'a uip \<Rightarrow> 'a uip" where "timer_of h s = the (uip_process h UIP_TIMER (s\<lparr>uip_conn := Some 0\<rparr>))"
definition data_to :: "'a hooks \<Rightarrow> u8 list \<Rightarrow> 'a uip \<Rightarrow> 'a uip" where "data_to h p s = the (uip_process h UIP_DATA (load_packet p s))"

text \<open>The three packets of the handshake, and the two that carry the stream and its acknowledgement.\<close>

definition tcp_head :: "u8 \<Rightarrow> u8 list \<Rightarrow> u8 list \<Rightarrow> u8 list" where
  "tcp_head len src dst = [0x60, 0, 0, 0, 0, len, 6, 64] @ src @ dst"

definition pkt_syn :: "u8 list" where
  "pkt_syn = tcp_head 24 glob1 glob3 @ [4, 1, 0, 80, 0, 0, 255, 254, 0, 0, 0, 0, 96, 2, 1, 84, 57, 100, 0, 0, 2, 4, 1, 84]"
definition pkt_synack :: "u8 list" where
  "pkt_synack = tcp_head 24 glob3 glob1 @ [0, 80, 4, 1, 1, 2, 3, 4, 0, 0, 255, 255, 96, 18, 1, 84, 53, 77, 0, 0, 2, 4, 1, 84]"
definition pkt_ack :: "u8 list" where
  "pkt_ack = tcp_head 20 glob1 glob3 @ [4, 1, 0, 80, 0, 0, 255, 255, 1, 2, 3, 5, 80, 16, 1, 84, 72, 170, 0, 0]"
definition pkt_data :: "u8 list" where
  "pkt_data = tcp_head 25 glob1 glob3 @ [4, 1, 0, 80, 0, 0, 255, 255, 1, 2, 3, 5, 80, 24, 1, 84, 4, 203, 0, 0] @ stream1"
definition pkt_ack2 :: "u8 list" where
  "pkt_ack2 = tcp_head 20 glob3 glob1 @ [0, 80, 4, 1, 1, 2, 3, 5, 0, 1, 0, 4, 80, 16, 1, 84, 72, 165, 0, 0]"

definition a1 :: "(nat \<times> nat) uip" where "a1 = timer_of h_a (timer_of h_a a0)"
definition a2 :: "(nat \<times> nat) uip" where "a2 = data_to h_a pkt_synack a1"
definition a3 :: "(nat \<times> nat) uip" where "a3 = timer_of h_a a2"
definition a4 :: "(nat \<times> nat) uip" where "a4 = data_to h_a pkt_ack2 a3"
definition b1 :: "u8 list uip" where "b1 = data_to h_b pkt_syn b0"
definition b2 :: "u8 list uip" where "b2 = data_to h_b pkt_ack b1"
definition b3 :: "u8 list uip" where "b3 = data_to h_b pkt_data b2"

text \<open>What the runs show, one evaluation for each state.\<close>

definition sent :: "u8 list \<Rightarrow> 'a uip \<Rightarrow> bool" where
  "sent p s \<longleftrightarrow> uip_len s \<noteq> 0 \<and> out_packet s = p"

definition alone :: "'a uip \<Rightarrow> bool" where
  "alone s \<longleftrightarrow> uip_ext_len s = 0 \<and> length (uip_buf s) = UIP_BUFSIZE \<and> tl (uip_conns s) = replicate 7 conn0 \<and> uip_conns s \<noteq> []"

lemma alone_node: "alone s \<Longrightarrow> node (netif s) 0 (uip_conns s ! 0) s"
proof -
  assume a: "alone s"
  then obtain c where c: "uip_conns s = c # replicate 7 conn0" unfolding alone_def by (metis list.collapse)
  have "c_tcpstateflags (uip_conns s ! k) = 0" if "k < length (uip_conns s)" "k \<noteq> 0" for k
    using that by (cases k) (simp_all add: c conn0_def)
  then show ?thesis using a c by (simp add: node_def alone_def)
qed

definition ends1 :: ends where
  "ends1 = \<lparr>my_addr = glob1, his_addr = glob3, my_port = uip_htons 1025, his_port = uip_htons 80\<rparr>"

lemma a1_runs: "sent pkt_syn a1" by code_simp
lemma b1_runs: "sent pkt_synack b1" by code_simp

definition end_facts :: "ends \<Rightarrow> u8 list \<Rightarrow> u8 list \<Rightarrow> 'a uip \<Rightarrow> bool" where
  "end_facts e sq rq s \<longleftrightarrow> alone s \<and> conn_ok e (uip_conns s ! 0) \<and> ends_ok (netif s) e \<and> c_len (uip_conns s ! 0) = 0 \<and>
     c_tcpstateflags (uip_conns s ! 0) = UIP_ESTABLISHED \<and> c_snd_nxt (uip_conns s ! 0) = sq \<and> c_rcv_nxt (uip_conns s ! 0) = rq"

lemma a2_runs: "(\<lambda>s. sent pkt_ack s \<and> end_facts ends1 [0, 0, 255, 255] [1, 2, 3, 5] s \<and> app s = (0, 0)) a2" by code_simp
lemma b2_runs: "(\<lambda>s. uip_len s = 0 \<and> end_facts (flip_ends ends1) [1, 2, 3, 5] [0, 0, 255, 255] s \<and> app s = []) b2" by code_simp
lemma a3_runs: "(\<lambda>r. r \<noteq> None \<and> sent pkt_data (the r)) (uip_process h_a UIP_TIMER (a2\<lparr>uip_conn := Some 0\<rparr>))" by code_simp
lemma b3_runs: "(\<lambda>r. r \<noteq> None \<and> sent pkt_ack2 (the r) \<and> app (the r) = stream1) (uip_process h_b UIP_DATA (load_packet pkt_data b2))" by code_simp
lemma a4_runs: "(\<lambda>r. r \<noteq> None \<and> uip_len (the r) = 0 \<and> app (the r) = (5, 0)) (uip_process h_a UIP_DATA (load_packet pkt_ack2 a3))" by code_simp

text \<open>The link from the end of the handshake on: the stream is sent, received and acknowledged.\<close>

definition link1 :: "(nat \<times> nat, u8 list) link" where "link1 = \<lparr>sender = a2, receiver = b2, from_s = {}, from_r = {}\<rparr>"
definition link4 :: "(nat \<times> nat, u8 list) link" where
  "link4 = \<lparr>sender = a4, receiver = b3, from_s = {pkt_data}, from_r = {pkt_ack2}\<rparr>"

lemma sent_emitted: "sent p s \<Longrightarrow> emitted s = {p}"
  by (simp add: sent_def emitted_def out_packet_def)

lemma link1_start: "link_start (netif a2) 0 (netif b2) 0 ends1 fst Product_Type.snd (\<lambda>a. a) link1"
  using a2_runs b2_runs alone_node [of a2] alone_node [of b2] unfolding link_start_def end_facts_def Let_def link1_def by simp

lemma link4_reached: "(link_step h_a 0 h_b 0)\<^sup>*\<^sup>* link1 link4"
proof -
  have p3: "uip_process h_a UIP_TIMER (a2\<lparr>uip_conn := Some 0\<rparr>) = Some a3" and e3: "emitted a3 = {pkt_data}"
    using a3_runs sent_emitted by (auto simp: a3_def timer_of_def)
  have p4: "uip_process h_b UIP_DATA (load_packet pkt_data b2) = Some b3" and e4: "emitted b3 = {pkt_ack2}"
    using b3_runs sent_emitted by (auto simp: b3_def data_to_def)
  have p5: "uip_process h_a UIP_DATA (load_packet pkt_ack2 a3) = Some a4" and e5: "emitted a4 = {}"
    using a4_runs by (auto simp: a4_def data_to_def emitted_def)
  let ?L2 = "\<lparr>sender = a3, receiver = b2, from_s = {pkt_data}, from_r = {}\<rparr>" and ?L3 = "\<lparr>sender = a3, receiver = b3, from_s = {pkt_data}, from_r = {pkt_ack2}\<rparr>"
  have "link_step h_a 0 h_b 0 link1 ?L2" using link_step.s_timer [where L = link1, of h_a 0 a3 h_b 0] p3 by (simp add: link1_def e3)
  moreover have "link_step h_a 0 h_b 0 ?L2 ?L3" using link_step.r_recv [where L = ?L2, of pkt_data h_b b3 h_a 0 0] p4 by (simp add: e4)
  moreover have "link_step h_a 0 h_b 0 ?L3 link4" using link_step.s_recv [where L = ?L3, of pkt_ack2 h_a a4 0 h_b 0] p5 by (simp add: e5 link4_def)
  ultimately show ?thesis by (meson rtranclp.rtrancl_into_rtrancl rtranclp.rtrancl_refl)
qed

text \<open>
  C2. Streams over a network that loses, repeats and reorders packets: whatever the two ends of an established connection send
  each other and whatever of it arrives, in any order and any number of times, while the retransmission timers run, the bytes the
  application of the receiver has been given are the first bytes of the stream, once each and in order, the sender has
  discarded as acknowledged no byte that was not given to it, and every call of \<open>uip_process\<close> returns.
\<close>

theorem tcp_stream_delivered:
  assumes "(link_step ha i hb j)\<^sup>*\<^sup>* L0 L" "link_start nfa i nfb j e pos out recv L0" "sends ha i pos out stream" "collects hb recv"
    "length stream < 4294967296"
  shows "(\<exists>n \<le> length stream. recv (app (receiver L)) = take n stream \<and> pos (app (sender L)) \<le> n) \<and>
    uip_process ha UIP_TIMER ((sender L)\<lparr>uip_conn := Some i\<rparr>) \<noteq> None \<and> uip_process hb UIP_TIMER ((receiver L)\<lparr>uip_conn := Some j\<rparr>) \<noteq> None \<and>
    (\<forall>p \<in> from_r L. uip_process ha UIP_DATA (load_packet p (sender L)) \<noteq> None) \<and>
    (\<forall>p \<in> from_s L. uip_process hb UIP_DATA (load_packet p (receiver L)) \<noteq> None)"
proof -
  let ?P = "pos (app (sender L))" and ?Q = "out (app (sender L))" and ?R = "recv (app (receiver L))"
  obtain isn where "link_inv nfa i nfb j e isn pos out stream recv L" using link_reachable [OF assms] by blast
  then have v: "sender_ok nfa i e isn pos out stream (sender L)" "receiver_ok nfb j e isn recv (receiver L)"
    "\<forall>p \<in> from_s L. from_sender e isn stream ?P ?Q p" "\<forall>p \<in> from_r L. from_receiver e isn (length ?R) p"
    "?R = take (length ?R) stream" "length ?R = ?P \<or> length ?R = ?P + ?Q" unfolding link_inv_def by blast+
  have e: "ends_ok nfa e" "ends_ok nfb (flip_ends e)" using assms(2) unfolding link_start_def Let_def by blast+
  have PQ: "?P + ?Q \<le> length stream" using v(1) unfolding sender_ok_def by blast
  have Rl: "length ?R \<le> length stream" using v(6) PQ by auto
  have "\<exists>n \<le> length stream. ?R = take n stream \<and> ?P \<le> n" using v(5,6) Rl by (intro exI [of _ "length ?R"]) auto
  moreover have "uip_process ha UIP_TIMER ((sender L)\<lparr>uip_conn := Some i\<rparr>) \<noteq> None" using sender_timer [OF v(1) e(1) assms(3)] by blast
  moreover have "uip_process hb UIP_TIMER ((receiver L)\<lparr>uip_conn := Some j\<rparr>) \<noteq> None" using receiver_timer [OF v(2) e(2) assms(4)] by blast
  moreover have "uip_process ha UIP_DATA (load_packet p (sender L)) \<noteq> None" if "p \<in> from_r L" for p
    using sender_recv [OF v(1) e(1) assms(3) bspec [OF v(4) that] Rl assms(5)] by blast
  moreover have "uip_process hb UIP_DATA (load_packet p (receiver L)) \<noteq> None" if "p \<in> from_s L" for p
    using receiver_recv [OF v(2) e(2) assms(4) bspec [OF v(3) that] v(6) PQ assms(5) v(5)] by blast
  ultimately show ?thesis by blast
qed

lemma tcp_stream_delivered_witness:
  "app b3 = stream1 \<and> (\<exists>n \<le> 5. app b3 = take n stream1 \<and> fst (app a4) \<le> n) \<and> fst (app a4) = 5"
proof -
  have "length stream1 < 4294967296" by (simp add: stream1_def)
  from tcp_stream_delivered [OF link4_reached link1_start _ _ this, folded h_a_def] 
  have "\<exists>n \<le> length stream1. app (receiver link4) = take n stream1 \<and> fst (app (sender link4)) \<le> n"
    using sender_app_sends receiver_app_collects unfolding h_a_def h_b_def by blast
  then show ?thesis using b3_runs a4_runs by (auto simp: link4_def stream1_def b3_def data_to_def a4_def)
qed

end
