(* ===== verification/UipFacts.thy ===== *)
theory UipFacts
  imports UipRun
begin

text \<open>
  Facts on the whole stack: the checksums of what it sends, the arithmetic of sequence numbers, the loops over the
  options of packets, the errors it answers with.
\<close>

section \<open>Checksums\<close>

lemma icmp6_chksum_form:
  assumes "uip_ext_len s = 0" "unat (uip_len s) \<le> length (uip_buf s)" "44 \<le> unat (uip_len s)"
  obtains ck where "length ck = 2" "icmp6_chksum_put (put_ip_len s) = Some (put 42 ck (put_ip_len s))"
    "uip_icmp6chksum (put 42 ck (put_ip_len s)) = Some 0xffff"
proof -
  note l = assms(3)
  let ?s = "put_ip_len s" and ?s1 = "put 42 [0, 0] (put_ip_len s)"
  have b: "44 \<le> length (uip_buf s)" using l assms(2) by simp
  have lb: "length (uip_buf ?s) = length (uip_buf s)" using b by (simp add: put_ip_len_eq)
  have "read_at 4 2 (uip_buf ?s) = be16_bytes (uip_len s - 40)"
    using b read_write_same [of 4 "be16_bytes (uip_len s - 40)" "uip_buf s"] by (simp add: put_ip_len_eq)
  then have ul: "upper_layer_len ?s = uip_len s - 40" using upper_layer_len_tcp [of ?s] b assms(1) by (simp add: put_ip_len_eq)
  have n: "unat (uip_len s - 40) = unat (uip_len s) - 40" using l by (simp add: unat_sub word_le_nat_alt)
  have e: "unat (uip_ext_len ?s) = 0" using assms(1) by (simp add: put_ip_len_eq)
  have ib: "in_buf ?s" unfolding in_buf_def ul n lb e using l assms(2) by simp
  have i: "40 + unat (uip_ext_len ?s) \<le> 42" "42 + 2 \<le> 40 + unat (uip_ext_len ?s) + unat (upper_layer_len ?s)" "even (42 - (40 + unat (uip_ext_len ?s)))"
    unfolding e ul n using l by simp_all
  have ib1: "in_buf ?s1" using covered_put(3) [OF ib i(1)] i(2) by simp
  obtain c where c: "uip_icmp6chksum ?s1 = Some c"
    using upper_layer_chksum_acc [OF ib1] unfolding uip_icmp6chksum_def by metis
  have "put 42 (u16_bytes (NOT c)) ?s1 = put 42 (u16_bytes (NOT c)) ?s"
    using lb b by (simp add: put_def write_at_twice)
  then have "icmp6_chksum_put ?s = Some (put 42 (u16_bytes (NOT c)) ?s)"
    unfolding icmp6_chksum_put_def Let_def e using c by simp
  moreover have "uip_icmp6chksum (put 42 (u16_bytes (NOT c)) ?s) = Some 0xffff"
    using chksum_field [OF ib i, where v = "NOT c"] c unfolding uip_icmp6chksum_def by blast
  ultimately show ?thesis using that [of "u16_bytes (NOT c)"] by simp
qed

text \<open>
  C13. Checksums: what \<open>tcp_send_noconn\<close> and the senders of ICMPv6 write into the packet makes the check of the
  receiver succeed, for every content and length of the packet.
\<close>

theorem sent_checksums_accepted:
  assumes "uip_ext_len s = 0" "unat (uip_len s) \<le> length (uip_buf s)"
  shows "(60 \<le> unat (uip_len s) \<longrightarrow> (\<exists>t. tcp_send_noconn s = Some t \<and> uip_tcpchksum t = Some 0xffff)) \<and>
    (44 \<le> unat (uip_len s) \<longrightarrow> (\<exists>t. icmp6_chksum_put (put_ip_len s) = Some t \<and> uip_icmp6chksum t = Some 0xffff))"
proof (intro conjI impI)
  assume "60 \<le> unat (uip_len s)"
  then show "\<exists>t. tcp_send_noconn s = Some t \<and> uip_tcpchksum t = Some 0xffff"
    using tcp_send_noconn_form [of s] assms by metis
next
  assume "44 \<le> unat (uip_len s)"
  then show "\<exists>t. icmp6_chksum_put (put_ip_len s) = Some t \<and> uip_icmp6chksum t = Some 0xffff"
    using icmp6_chksum_form [of s] assms by metis
qed

section \<open>Sequence numbers and options\<close>

text \<open>
  C26. \<open>uip_add32\<close>, carry by carry, adds a 16-bit number to the four bytes of a sequence number modulo \<open>2^32\<close>, and
  the increment of \<open>iss\<close> and of an acknowledgement number adds one.
\<close>

theorem seq_arithmetic:
  "val32 (uip_add32 b n) = (val32 b + uint n) mod 2 ^ 32 \<and> val32 (inc32 b) = (val32 b + 1) mod 2 ^ 32"
  by (simp add: uip_add32_val inc32_val)

text \<open>The indexes at which the loop over the options of a SYN finds an option, counted without wrapping around.\<close>

inductive mss_at :: "u8 list \<Rightarrow> nat \<Rightarrow> nat \<Rightarrow> bool" for b :: "u8 list" and lim :: nat where
  mss_start: "0 < lim \<Longrightarrow> mss_at b lim 0"
| mss_nop: "mss_at b lim k \<Longrightarrow> b ! (60 + k) = 1 \<Longrightarrow> k + 1 < lim \<Longrightarrow> mss_at b lim (k + 1)"
| mss_skip: "mss_at b lim k \<Longrightarrow> b ! (60 + k) \<noteq> 0 \<Longrightarrow> b ! (60 + k) \<noteq> 1 \<Longrightarrow> \<not> (b ! (60 + k) = 2 \<and> b ! (61 + k) = 4) \<Longrightarrow>
    b ! (61 + k) \<noteq> 0 \<Longrightarrow> k + unat (b ! (61 + k)) < lim \<Longrightarrow> mss_at b lim (k + unat (b ! (61 + k)))"

lemma mss_at_inside: "mss_at b lim k \<Longrightarrow> k < lim"
  by (induction rule: mss_at.induct) simp_all

lemma mss_loop_ends:
  assumes "lim < 256" "\<And>k. mss_at b lim k \<Longrightarrow> b ! (60 + k) \<noteq> 0 \<Longrightarrow> b ! (60 + k) \<noteq> 1 \<Longrightarrow> k + unat (b ! (61 + k)) < 256"
    and "lim \<le> unat c \<or> mss_at b lim (unat c)"
  shows "mss_loop b lim c \<noteq> None"
  using assms(3)
proof (induction "lim - unat c" arbitrary: c rule: less_induct)
  case less
  show ?case
  proof (cases "unat c < lim")
    case False
    then show ?thesis by (subst mss_loop.simps) simp
  next
    case True
    then have at: "mss_at b lim (unat c)" using less.prems by simp
    have step: "mss_loop b lim (c + n) \<noteq> None"
      if "unat c + unat n < 256" "n \<noteq> 0" "unat c + unat n < lim \<longrightarrow> mss_at b lim (unat c + unat n)" for n :: u8
    proof (rule less.hyps)
      have "0 < unat n" using that(2) by (simp add: unat_gt_0)
      then show "lim - unat (c + n) < lim - unat c" using True unat_plus_u8 [OF that(1)] by linarith
      show "lim \<le> unat (c + n) \<or> mss_at b lim (unat (c + n))" using that(3) unat_plus_u8 [OF that(1)] by auto
    qed
    have nop: "mss_loop b lim (c + 1) \<noteq> None" if "b ! (60 + unat c) = 1"
      by (rule step) (use True assms(1) mss_nop [OF at that] in auto)
    have skip: "mss_loop b lim (c + b ! (61 + unat c)) \<noteq> None"
      if "b ! (60 + unat c) \<noteq> 0" "b ! (60 + unat c) \<noteq> 1" "\<not> (b ! (60 + unat c) = 2 \<and> b ! (61 + unat c) = 4)" "b ! (61 + unat c) \<noteq> 0"
      by (rule step) (use assms(2) [OF at that(1,2)] that(4) mss_skip [OF at that] in auto)
    show ?thesis
      unfolding mss_loop.simps [of b lim c] Let_def if_P [OF True] using nop skip by simp
  qed
qed

lemma options_length: "(unat (drop_bit 4 (x :: u8)) - 5) * 4 \<le> 40"
proof -
  have "unat (drop_bit 4 x) = unat x div 16" by (simp add: drop_bit_eq_div unat_div)
  moreover have "unat x < 256" using unsigned_less [of x, where ?'a = nat] by simp
  ultimately have "unat (drop_bit 4 x) < 16" by linarith
  then show ?thesis by simp
qed

text \<open>
  C11. The options of a SYN: when none of the options that the loop comes to is so long that the index, a byte,
  wraps around, the loop over the options ends; the bytes inside of options do not matter. A NOP followed by an
  option of length 255 sends the index back to 0: a SYN with these bytes for a listening port stops the node.
\<close>

theorem syn_options_end_or_hang:
  "((\<forall>k. mss_at (uip_buf s) ((unat (drop_bit 4 (uip_buf s ! 52)) - 5) * 4) k \<and> uip_buf s ! (60 + k) \<noteq> 0 \<and> uip_buf s ! (60 + k) \<noteq> 1 \<longrightarrow>
      k + unat (uip_buf s ! (61 + k)) < 256) \<longrightarrow> tcp_mss_option i s \<noteq> None) \<and>
   (uip_ext_len s = 0 \<and> uip_tcpchksum s = Some 0xffff \<and> get_u16 40 (uip_buf s) \<noteq> 0 \<and> get_u16 42 (uip_buf s) \<noteq> 0 \<and>
    get_u16 42 (uip_buf s) \<in> set (uip_listenports s) \<and> (\<forall>c \<in> set (uip_conns s). c_tcpstateflags c = UIP_CLOSED) \<and>
    UIP_CLOSED \<in> c_tcpstateflags ` set (uip_conns s) \<and> uip_buf s ! 52 = 0x60 \<and> uip_buf s ! 53 = TCP_SYN \<and>
    uip_buf s ! 60 = 1 \<and> uip_buf s ! 61 = 3 \<and> uip_buf s ! 62 = 255 \<longrightarrow> tcp_input h s = None)"
proof (intro conjI impI)
  let ?b = "uip_buf s" and ?lim = "(unat (drop_bit 4 (uip_buf s ! 52)) - 5) * 4"
  assume o: "\<forall>k. mss_at ?b ?lim k \<and> ?b ! (60 + k) \<noteq> 0 \<and> ?b ! (60 + k) \<noteq> 1 \<longrightarrow> k + unat (?b ! (61 + k)) < 256"
  have l: "?lim < 256" using options_length [of "?b ! 52"] by simp
  have z: "?lim \<le> unat (0 :: u8) \<or> mss_at ?b ?lim (unat (0 :: u8))" using mss_start [of ?lim ?b] unfolding unat_0 by (meson not_le)
  have "mss_loop ?b ?lim 0 \<noteq> None" by (rule mss_loop_ends [OF l _ z]) (use o in blast)
  then show "tcp_mss_option i s \<noteq> None" by (simp add: tcp_mss_option_def Let_def)
next
  assume a: "uip_ext_len s = 0 \<and> uip_tcpchksum s = Some 0xffff \<and> get_u16 40 (uip_buf s) \<noteq> 0 \<and> get_u16 42 (uip_buf s) \<noteq> 0 \<and>
    get_u16 42 (uip_buf s) \<in> set (uip_listenports s) \<and> (\<forall>c \<in> set (uip_conns s). c_tcpstateflags c = UIP_CLOSED) \<and>
    UIP_CLOSED \<in> c_tcpstateflags ` set (uip_conns s) \<and> uip_buf s ! 52 = 0x60 \<and> uip_buf s ! 53 = TCP_SYN \<and>
    uip_buf s ! 60 = 1 \<and> uip_buf s ! 61 = 3 \<and> uip_buf s ! 62 = 255"
  have m: "first_match (tcp_match (uip_buf s)) (uip_conns s) 0 = None" using a by (auto simp: first_match_none tcp_match_def)
  obtain c cs where cs: "uip_conns s = c # cs" using a by (cases "uip_conns s") auto
  have f: "free_conn (uip_conns s) 0 None = Some 0" using a cs by simp
  have "tcp_input h s = tcp_found_listen s"
    using a m by (simp add: tcp_input_def remove_ext_hdr_def)
  also have "\<dots> = None"
  proof -
    have "mss_loop (uip_buf s) ((unat (drop_bit 4 (0x60 :: u8)) - 5) * 4) 0 = None"
      using mss_loop_stuck [of "uip_buf s" "(unat (drop_bit 4 (0x60 :: u8)) - 5) * 4" 0] a by (cases "mss_loop (uip_buf s) ((unat (drop_bit 4 (0x60 :: u8)) - 5) * 4) 0") auto
    then have "tcp_mss_option 0 t = None" if "uip_buf t = uip_buf s" for t :: "'a uip"
      using a that unfolding tcp_mss_option_def Let_def by simp
    then show ?thesis unfolding tcp_found_listen_def f by (simp add: Let_def uip_add_rcv_nxt_def upd_conn_def)
  qed
  finally show "tcp_input h s = None" .
qed

text \<open>
  The offsets at which the walk finds an option of the extension header at \<open>e\<close> of \<open>n\<close> bytes, counted without wrapping
  around; the types it passes over and those it answers with an error.
\<close>

definition ext_passed :: "u8 \<Rightarrow> bool" where
  "ext_passed ty \<longleftrightarrow> ty \<noteq> 0 \<and> ty AND 0xC0 = 0"

definition ext_reported :: "u8 list \<Rightarrow> u8 \<Rightarrow> bool" where
  "ext_reported b ty \<longleftrightarrow> ty AND 0xC0 \<notin> {0, 0x40} \<and> \<not> (ty AND 0xC0 = 0xC0 \<and> uip_is_addr_mcast (ip_dst b))"

inductive ext_at :: "u8 list \<Rightarrow> nat \<Rightarrow> nat \<Rightarrow> nat \<Rightarrow> bool" for b :: "u8 list" and e n :: nat where
  ext_start: "2 < n \<Longrightarrow> ext_at b e n 2"
| ext_pad1: "ext_at b e n k \<Longrightarrow> b ! (e + k) = 0 \<Longrightarrow> k + 1 < n \<Longrightarrow> ext_at b e n (k + 1)"
| ext_pass: "ext_at b e n k \<Longrightarrow> ext_passed (b ! (e + k)) \<Longrightarrow> k + unat (b ! (e + k + 1)) + 2 < n \<Longrightarrow>
    ext_at b e n (k + unat (b ! (e + k + 1)) + 2)"

lemma ext_at_inside: "ext_at b e n k \<Longrightarrow> k < n"
  by (induction rule: ext_at.induct) simp_all

text \<open>One round of the walk at an offset inside the header.\<close>

lemma ext_options_round:
  assumes "e = 40 + unat (uip_ext_len s)" "n = 8 * (unat (uip_buf s ! (e + 1)) + 1)" "e + n < length (uip_buf s)" "unat off < n"
    "ty = uip_buf s ! (e + unat off)"
  shows "ext_options_loop h off s =
    (if ty = 0 then ext_options_loop h (off + 1) s
     else if ext_passed ty then ext_options_loop h (off + uip_buf s ! (e + unat off + 1) + 2) s
     else if ext_reported (uip_buf s) ty
     then map_option (Pair ExtError) (uip_icmp6_error_output h 4 2 (40 + ucast (uip_ext_len s) + ucast off) s)
     else if ty = 0x63 then Some (let (bad, s1) = rpl_verify_header h (unat off) s in (if bad then ExtDiscard else ExtContinue, s1))
     else Some (ExtDiscard, s))"
proof -
  have l: "byte_at (41 + unat (uip_ext_len s)) (uip_buf s) = Some (uip_buf s ! (e + 1))"
    "byte_at (40 + unat (uip_ext_len s) + unat off) (uip_buf s) = Some ty"
    "byte_at (40 + unat (uip_ext_len s) + unat off + 1) (uip_buf s) = Some (uip_buf s ! (e + unat off + 1))"
    using assms by (simp_all add: byte_at_def)
  have g: "unat off < unat (uip_buf s ! (e + 1)) * 8 + 8" using assms(2,4) by simp
  have k: "(0x63 :: u8) AND 0xC0 = 0x40" "(1 :: u8) AND 0xC0 = 0" by simp_all
  show ?thesis
    unfolding ext_options_loop.simps [of h off s] l Option.bind.bind_lunit Let_def if_P [OF g] ext_passed_def ext_reported_def
    using k by (auto split: prod.splits)
qed

lemma ext_options_past:
  assumes "e = 40 + unat (uip_ext_len s)" "n = 8 * (unat (uip_buf s ! (e + 1)) + 1)" "e + n < length (uip_buf s)" "n \<le> unat off"
  shows "ext_options_loop h off s = Some (ExtContinue, s)"
proof -
  have l: "byte_at (41 + unat (uip_ext_len s)) (uip_buf s) = Some (uip_buf s ! (e + 1))"
    using assms by (simp add: byte_at_def)
  have g: "\<not> unat off < unat (uip_buf s ! (e + 1)) * 8 + 8" using assms(2,4) by simp
  show ?thesis unfolding ext_options_loop.simps [of h off s] l Option.bind.bind_lunit Let_def if_not_P [OF g] ..
qed

text \<open>The walk from the start comes to each of these offsets, and ends at one of them or behind the header.\<close>

lemma ext_options_reach:
  assumes "e = 40 + unat (uip_ext_len s)" "n = 8 * (unat (uip_buf s ! (e + 1)) + 1)" "e + n < length (uip_buf s)" "n < 256"
    and "ext_at (uip_buf s) e n k"
  shows "ext_options_loop h 2 s = ext_options_loop h (of_nat k) s"
  using assms(5)
proof (induction rule: ext_at.induct)
  case (ext_pad1 k)
  have u: "unat (of_nat k :: u8) = k" using ext_at_inside [OF ext_pad1.hyps(1)] assms(4) by (simp add: unat_of_nat)
  show ?case using ext_options_round [OF assms(1-3), of "of_nat k" _ h] ext_pad1 ext_at_inside [OF ext_pad1.hyps(1)]
    unfolding u by (simp add: add.commute)
next
  case (ext_pass k)
  have u: "unat (of_nat k :: u8) = k" using ext_at_inside [OF ext_pass.hyps(1)] assms(4) by (simp add: unat_of_nat)
  have "ext_options_loop h (of_nat k) s = ext_options_loop h (of_nat k + uip_buf s ! (e + k + 1) + 2) s"
    using ext_options_round [OF assms(1-3), of "of_nat k" _ h] ext_pass.hyps(2) ext_at_inside [OF ext_pass.hyps(1)]
    unfolding u by (simp add: ext_passed_def)
  moreover have "of_nat k + uip_buf s ! (e + k + 1) + 2 = of_nat (k + unat (uip_buf s ! (e + k + 1)) + 2)" by simp
  ultimately show ?case using ext_pass.IH by (simp only:)
qed simp

lemma ext_options_stop:
  assumes w: "e = 40 + unat (uip_ext_len s)" "n = 8 * (unat (uip_buf s ! (e + 1)) + 1)" "e + n < length (uip_buf s)" and "n < 256"
    and o: "\<And>k. ext_at (uip_buf s) e n k \<Longrightarrow> ext_passed (uip_buf s ! (e + k)) \<Longrightarrow> k + unat (uip_buf s ! (e + k + 1)) + 2 < 256"
    and at: "n \<le> unat off \<or> ext_at (uip_buf s) e n (unat off)" and none: "ext_options_loop h off s = None"
  shows "\<exists>k. ext_at (uip_buf s) e n k \<and> ext_reported (uip_buf s) (uip_buf s ! (e + k)) \<and>
    uip_icmp6_error_output h 4 2 (40 + ucast (uip_ext_len s) + of_nat k) s = None"
  using at none
proof (induction "n - unat off" arbitrary: off rule: less_induct)
  case less
  show ?case
  proof (cases "unat off < n")
    case False
    then show ?thesis using ext_options_past [OF w, of off h] less.prems(2) by simp
  next
    case True
    define ty where "ty = uip_buf s ! (e + unat off)"
    have at: "ext_at (uip_buf s) e n (unat off)" using True less.prems(1) by simp
    note r = ext_options_round [OF w True ty_def, of h]
    have step: ?thesis if "ext_options_loop h (off + m) s = None" "unat off + unat m < 256" "m \<noteq> 0"
      "unat off + unat m < n \<longrightarrow> ext_at (uip_buf s) e n (unat off + unat m)" for m :: u8
    proof (rule less.hyps [OF _ _ that(1)])
      have "0 < unat m" using that(3) by (simp add: unat_gt_0)
      then show "n - unat (off + m) < n - unat off" using True unat_plus_u8 [OF that(2)] by linarith
      show "n \<le> unat (off + m) \<or> ext_at (uip_buf s) e n (unat (off + m))" using that(4) unat_plus_u8 [OF that(2)] by auto
    qed
    consider (pad) "ty = 0" | (pass) "ty \<noteq> 0" "ext_passed ty" | (rep) "ty \<noteq> 0" "\<not> ext_passed ty" "ext_reported (uip_buf s) ty"
      | (other) "ty \<noteq> 0" "\<not> ext_passed ty" "\<not> ext_reported (uip_buf s) ty" by blast
    then show ?thesis
    proof cases
      case pad
      then have "ext_options_loop h (off + 1) s = None" using r less.prems(2) by simp
      then show ?thesis by (rule step) (use True assms(4) ext_pad1 [OF at] pad in \<open>auto simp: ty_def\<close>)
    next
      case pass
      define m where "m = uip_buf s ! (e + unat off + 1) + 2"
      have k: "unat off + unat (uip_buf s ! (e + unat off + 1)) + 2 < 256" by (rule o [OF at]) (use pass in \<open>simp add: ty_def\<close>)
      then have m: "unat m = unat (uip_buf s ! (e + unat off + 1)) + 2" using unat_plus_u8 [of "uip_buf s ! (e + unat off + 1)" 2]
        by (simp add: m_def)
      have "ext_options_loop h (off + m) s = None" using r pass less.prems(2) by (simp add: m_def add.assoc)
      moreover have "unat off + unat m < 256" using k by (simp add: m add.assoc)
      moreover have "m \<noteq> 0" using m by (metis add_2_eq_Suc' unat_0 nat.distinct(1))
      moreover have "unat off + unat m < n \<longrightarrow> ext_at (uip_buf s) e n (unat off + unat m)"
        using ext_pass [OF at] pass(2) by (simp add: m ty_def add.assoc)
      ultimately show ?thesis by (rule step)
    next
      case rep
      then have "uip_icmp6_error_output h 4 2 (40 + ucast (uip_ext_len s) + ucast off) s = None" using r less.prems(2) by simp
      then show ?thesis using at rep(3) unfolding ty_def by (intro exI [of _ "unat off"]) simp
    next
      case other
      then show ?thesis using r less.prems(2) by (simp split: if_splits)
    qed
  qed
qed

text \<open>
  C12. Extension headers: when the header lies in the buffer, is shorter than 256 bytes and none of the options that the
  walk passes over reaches past offset 255, the walk returns, unless it comes to an option that has to be answered with
  an error and building that error fails (it runs over the end of the buffer when the packet is too long for it).
  The offset is a byte: behind a hop-by-hop header that starts with a padding
  option of 254 bytes it comes back to the same option for ever, before the node has looked at the destination.
\<close>

theorem ext_options_end_or_hang:
  assumes "e = 40 + unat (uip_ext_len s)" "n = 8 * (unat (uip_buf s ! (e + 1)) + 1)" "length (uip_buf s) = UIP_BUFSIZE"
  shows "(e + n < UIP_BUFSIZE \<and> n < 256 \<and> (\<forall>k. ext_at (uip_buf s) e n k \<and> ext_passed (uip_buf s ! (e + k)) \<longrightarrow>
        k + unat (uip_buf s ! (e + k + 1)) + 2 < 256) \<longrightarrow>
      (ext_hdr_options_process h s = None \<longleftrightarrow> (\<exists>k. ext_at (uip_buf s) e n k \<and> ext_reported (uip_buf s) (uip_buf s ! (e + k)) \<and>
        uip_icmp6_error_output h 4 2 (40 + ucast (uip_ext_len s) + of_nat k) s = None))) \<and>
    (uip_buf s ! 0 AND 0xf0 = 0x60 \<and> be16_of [uip_buf s ! 4, uip_buf s ! 5] \<le> uip_len s \<and> \<not> uip_is_addr_mcast (ip_src (uip_buf s)) \<and>
      uip_buf s ! 6 = UIP_PROTO_HBHO \<and> uip_buf s ! 42 = 1 \<and> uip_buf s ! 43 = 254 \<longrightarrow> uip_process h UIP_DATA s = None)"
proof (intro conjI impI)
  assume a: "e + n < UIP_BUFSIZE \<and> n < 256 \<and> (\<forall>k. ext_at (uip_buf s) e n k \<and> ext_passed (uip_buf s ! (e + k)) \<longrightarrow>
    k + unat (uip_buf s ! (e + k + 1)) + 2 < 256)"
  then have w: "e + n < length (uip_buf s)" "n < 256" using assms(3) by simp_all
  have "2 < n" using assms(2) by simp
  then have z: "n \<le> unat (2 :: u8) \<or> ext_at (uip_buf s) e n (unat (2 :: u8))" using ext_start [of n "uip_buf s" e] by simp
  show "ext_hdr_options_process h s = None \<longleftrightarrow> (\<exists>k. ext_at (uip_buf s) e n k \<and> ext_reported (uip_buf s) (uip_buf s ! (e + k)) \<and>
    uip_icmp6_error_output h 4 2 (40 + ucast (uip_ext_len s) + of_nat k) s = None)"
  proof
    assume "ext_hdr_options_process h s = None"
    then have none: "ext_options_loop h 2 s = None" by (simp add: ext_hdr_options_process_def)
    show "\<exists>k. ext_at (uip_buf s) e n k \<and> ext_reported (uip_buf s) (uip_buf s ! (e + k)) \<and>
      uip_icmp6_error_output h 4 2 (40 + ucast (uip_ext_len s) + of_nat k) s = None"
      by (rule ext_options_stop [OF assms(1,2) w _ z none]) (use a in blast)
  next
    assume "\<exists>k. ext_at (uip_buf s) e n k \<and> ext_reported (uip_buf s) (uip_buf s ! (e + k)) \<and>
      uip_icmp6_error_output h 4 2 (40 + ucast (uip_ext_len s) + of_nat k) s = None"
    then obtain k where k: "ext_at (uip_buf s) e n k" "ext_reported (uip_buf s) (uip_buf s ! (e + k))"
      "uip_icmp6_error_output h 4 2 (40 + ucast (uip_ext_len s) + of_nat k) s = None" by blast
    have kn: "k < n" by (rule ext_at_inside [OF k(1)])
    have u: "unat (of_nat k :: u8) = k" using kn w(2) by (simp add: unat_of_nat)
    have "(ucast x :: u32) = of_nat (unat x)" for x :: u8 by simp
    from this [of "of_nat k"] have uc: "(ucast (of_nat k :: u8) :: u32) = of_nat k" unfolding u .
    have t: "uip_buf s ! (e + k) \<noteq> 0" "\<not> ext_passed (uip_buf s ! (e + k))" using k(2) by (auto simp: ext_reported_def ext_passed_def)
    have "ext_options_loop h (of_nat k) s = None"
      using ext_options_round [OF assms(1,2) w(1), of "of_nat k" "uip_buf s ! (e + k)" h] kn t k(2,3) unfolding u uc by simp
    then show "ext_hdr_options_process h s = None"
      using ext_options_reach [OF assms(1,2) w k(1), of h] by (simp add: ext_hdr_options_process_def)
  qed
next
  assume a: "uip_buf s ! 0 AND 0xf0 = 0x60 \<and> be16_of [uip_buf s ! 4, uip_buf s ! 5] \<le> uip_len s \<and> \<not> uip_is_addr_mcast (ip_src (uip_buf s)) \<and>
    uip_buf s ! 6 = UIP_PROTO_HBHO \<and> uip_buf s ! 42 = 1 \<and> uip_buf s ! 43 = 254"
  have "ext_options_loop h 2 t = None" if "uip_buf t = uip_buf s" "uip_ext_len t = 0" for t
    using ext_options_stuck [of h 2 t] a that assms(3) by (cases "ext_options_loop h 2 t") (auto simp: UIP_BUFSIZE_def)
  then show "uip_process h UIP_DATA s = None"
    using a by (simp add: uip_process_def ip_input_def Let_def be16_of_add ext_hdr_options_process_def)
qed

section \<open>Polls\<close>

text \<open>
  C29. A poll for a connection whose application has nothing to send: \<open>uip_process\<close> does not reset the number of bytes to
  send that the last call for another connection left behind, so the connection sends that many bytes of what is in the
  buffer, as data of its own.
\<close>

theorem poll_sends_stale_bytes:
  assumes "conn_wf s i" "c = uip_conns s ! i" "c_tcpstateflags c = UIP_ESTABLISHED" "c_len c = 0" "uip_conn s = Some i"
    "\<And>s. UIP_APPCALL h s = s" "0 < uip_slen s" "uip_slen s \<le> c_mss c" "c_mss c \<le> UIP_TCP_MSS" "length (uip_buf s) = UIP_BUFSIZE" "uip_ext_len s = 0"
  shows "\<exists>t ck. uip_process h UIP_POLL_REQUEST s = Some t \<and> uip_len t = uip_slen s + 60 \<and> c_len (uip_conns t ! i) = uip_slen s \<and>
    take (unat (uip_len t)) (uip_buf t) = tcp_bytes (cur_hop_limit (netif s)) (uip_ds6_select_src (c_ripaddr c) (netif s)) (c_ripaddr c)
      (c_lport c) (c_rport c) (c_snd_nxt c) (c_rcv_nxt c) 0x18 (be16_bytes UIP_TCP_MSS) ck (read_at 60 (unat (uip_slen s)) (uip_buf s))"
proof -
  let ?s1 = "upd_conn i (\<lambda>c. c\<lparr>c_nrtx := 0\<rparr>) (upd_conn i (\<lambda>c. c\<lparr>c_len := uip_slen s\<rparr>) (s\<lparr>uip_sappdata := 60, uip_appdata := 60, uip_flags := UIP_POLL\<rparr>))"
  let ?s2 = "?s1\<lparr>uip_appdata := 60, uip_len := uip_slen s + 60\<rparr>"
  have i: "i < length (uip_conns s)" using assms(1) by (simp add: conn_wf_def)
  have n: "unat (uip_slen s + 60) = unat (uip_slen s) + 60"
    using assms(8,9) by (simp add: word_le_nat_alt UIP_TCP_MSS_def unat_word_ariths)
  have "uip_process h UIP_POLL_REQUEST s = tcp_poll h i (s\<lparr>uip_sappdata := 60, uip_appdata := 60\<rparr>)"
    by (simp add: uip_process_def assms(5))
  also have "\<dots> = appsend i (s\<lparr>uip_sappdata := 60, uip_appdata := 60, uip_flags := UIP_POLL\<rparr>)"
    using assms(2-4) by (simp add: tcp_poll_def assms(6))
  also have "\<dots> = apprexmit i ?s1"
    using assms(2,4,7) assms(8) [folded linorder_not_less] i by (simp add: appsend_def Let_def upd_conn_def)
  also have "\<dots> = tcp_send_noopts i (put 53 [0x18] ?s2)"
    using assms(7) i by (simp add: apprexmit_def upd_conn_def Let_def put_len)
  finally have p: "uip_process h UIP_POLL_REQUEST s = tcp_send_noopts i (put 53 [0x18] ?s2)" .
  define s2 where "s2 = ?s2"
  have f: "uip_conns s2 ! i = c\<lparr>c_len := uip_slen s, c_nrtx := 0\<rparr>" "netif s2 = netif s" "uip_len s2 = uip_slen s + 60"
    "uip_ext_len s2 = 0" "uip_buf s2 = uip_buf s"
    using i assms(2,11) by (simp_all add: s2_def upd_conn_def)
  have l: "60 \<le> unat (uip_len s2)" "unat (uip_len s2) \<le> length (uip_buf s2)"
    using n assms(8-10) by (simp_all add: f word_le_nat_alt UIP_TCP_MSS_def UIP_BUFSIZE_def)
  obtain ck t where t: "tcp_send_noopts i (put 53 [0x18] s2) = Some t" "t = s2\<lparr>uip_buf := uip_buf t, uip_flags := 0\<rparr>"
    "take (unat (uip_len s2)) (uip_buf t) = tcp_bytes (cur_hop_limit (netif s)) (uip_ds6_select_src (c_ripaddr c) (netif s)) (c_ripaddr c)
      (c_lport c) (c_rport c) (c_snd_nxt c) (c_rcv_nxt c) 0x18 (be16_bytes UIP_TCP_MSS) ck (read_at 60 (unat (uip_len s2) - 60) (uip_buf s))"
    by (rule tcp_send_form [OF l f(4) f(1) [symmetric], where fl = "0x18"])
      (use assms(1-3) length_select_src [of "netif s"] in \<open>simp_all add: f conn_wf_def\<close>)
  have "uip_len t = uip_len s2" "uip_conns t = uip_conns s2" by (subst t(2); simp)+
  then have "uip_len t = uip_slen s + 60 \<and> c_len (uip_conns t ! i) = uip_slen s" by (simp add: f)
  then show ?thesis using t(1,3) p n unfolding s2_def [symmetric] by (intro exI [of _ t] exI [of _ ck]) (simp add: f)
qed

section \<open>Errors\<close>






section \<open>The properties at concrete packets\<close>

lemma sent_checksums_accepted_witness:
  "\<exists>t. tcp_send_noconn ((uip_node (iface mac1 glob1) [0, 0, 0, 0] (0, 0))\<lparr>uip_len := 65\<rparr>) = Some t \<and> uip_tcpchksum t = Some 0xffff"
  using sent_checksums_accepted [of "(uip_node (iface mac1 glob1) [0, 0, 0, 0] (0, 0))\<lparr>uip_len := 65\<rparr>"]
  by (auto simp: uip_node_def UIP_BUFSIZE_def)

definition pkt_hang :: "u8 list" where
  "pkt_hang = tcp_head 24 glob1 glob3 @ [4, 1, 0, 80, 0, 0, 255, 254, 0, 0, 0, 0, 96, 2, 1, 84, 60, 184, 0, 0, 1, 3, 255, 0]"

definition syn_at :: "u8 list \<Rightarrow> u8 list uip" where
  "syn_at p = (load_packet p b0)\<lparr>uip_sappdata := 60, uip_appdata := 60\<rparr>"

definition bad_syn :: "'a uip \<Rightarrow> bool" where
  "bad_syn s \<longleftrightarrow> uip_ext_len s = 0 \<and> uip_tcpchksum s = Some 0xffff \<and> get_u16 40 (uip_buf s) \<noteq> 0 \<and> get_u16 42 (uip_buf s) \<noteq> 0 \<and>
    get_u16 42 (uip_buf s) \<in> set (uip_listenports s) \<and> (\<forall>c \<in> set (uip_conns s). c_tcpstateflags c = UIP_CLOSED) \<and>
    UIP_CLOSED \<in> c_tcpstateflags ` set (uip_conns s) \<and> uip_buf s ! 52 = 0x60 \<and> uip_buf s ! 53 = TCP_SYN \<and>
    uip_buf s ! 60 = 1 \<and> uip_buf s ! 61 = 3 \<and> uip_buf s ! 62 = 255"

text \<open>A timestamp of large bytes, of an option that is passed over, and two NOPs.\<close>

definition stamp :: "u8 list" where "stamp = [8, 10, 250, 255, 3, 254, 5, 255, 7, 255, 1, 1]"

definition stamped :: "u8 list uip" where
  "stamped = (syn_at pkt_syn)\<lparr>uip_buf := write_at 52 [0x80] (write_at 60 stamp (uip_buf (syn_at pkt_syn)))\<rparr>"

lemma stamped_options:
  assumes "take 12 (drop 60 b) = stamp" "mss_at b 12 k"
  shows "k \<in> {0, 10, 11} \<and> b ! (60 + k) = stamp ! k \<and> (k < 11 \<longrightarrow> b ! (61 + k) = stamp ! (k + 1))"
proof -
  have l: "72 \<le> length b" using arg_cong [OF assms(1), of length] by (simp add: stamp_def split: if_splits)
  have at: "b ! (60 + j) = stamp ! j" if "j < 12" for j
    using that l by (simp flip: assms(1))
  have "k \<in> {0, 10, 11}" using assms(2)
    by (induction rule: mss_at.induct) (use at [of 0] at [of 1] at [of 10] at [of 11] in \<open>auto simp: stamp_def\<close>)
  then show ?thesis using at [of k] at [of "k + 1"] by auto
qed

lemma syn_options_end_or_hang_witness:
  "tcp_mss_option 0 stamped \<noteq> None \<and> tcp_input h_b (syn_at pkt_hang) = None"
proof -
  have b: "bad_syn (syn_at pkt_hang)" "(\<lambda>s. take 12 (drop 60 (uip_buf s)) = stamp \<and> uip_buf s ! 52 = 0x80) stamped" by code_simp+
  have l: "(unat (drop_bit 4 (uip_buf stamped ! 52)) - 5) * 4 = 12" using b(2) by simp
  have "\<forall>k. mss_at (uip_buf stamped) 12 k \<and> uip_buf stamped ! (60 + k) \<noteq> 0 \<and> uip_buf stamped ! (60 + k) \<noteq> 1 \<longrightarrow>
      k + unat (uip_buf stamped ! (61 + k)) < 256"
    using stamped_options [of "uip_buf stamped"] b(2) by (fastforce simp: stamp_def)
  then show ?thesis
    using b(1) syn_options_end_or_hang [where s = stamped and i = 0, THEN conjunct1, unfolded l]
      syn_options_end_or_hang [where s = "syn_at pkt_hang" and h = h_b, THEN conjunct2]
    unfolding bad_syn_def by blast
qed

definition hbho_packet :: "u8 list \<Rightarrow> u8 list" where
  "hbho_packet opts = [0x60, 0, 0, 0, 0, 8, 0, 64] @ glob1 @ glob3 @ [6, 0] @ opts"

definition bad_hbho :: "'a uip \<Rightarrow> bool" where
  "bad_hbho s \<longleftrightarrow> uip_buf s ! 0 AND 0xf0 = 0x60 \<and> be16_of [uip_buf s ! 4, uip_buf s ! 5] \<le> uip_len s \<and> \<not> uip_is_addr_mcast (ip_src (uip_buf s)) \<and>
      uip_buf s ! 6 = UIP_PROTO_HBHO \<and> uip_buf s ! 42 = 1 \<and> uip_buf s ! 43 = 254 \<and> length (uip_buf s) = UIP_BUFSIZE"

definition short_hbho :: "'a uip \<Rightarrow> bool" where
  "short_hbho s \<longleftrightarrow> uip_ext_len s = 0 \<and> uip_buf s ! 41 = 0 \<and> length (uip_buf s) = UIP_BUFSIZE \<and>
    (\<forall>k \<in> set [0..<8]. uip_buf s ! (40 + k) AND 0xC0 = 0 \<and> k + unat (uip_buf s ! (40 + k + 1)) + 2 < 256)"

definition reported_hbho :: "'a hooks \<Rightarrow> 'a uip \<Rightarrow> bool" where
  "reported_hbho h s \<longleftrightarrow> uip_ext_len s = 0 \<and> uip_buf s ! 41 = 0 \<and> length (uip_buf s) = UIP_BUFSIZE \<and> ext_reported (uip_buf s) (uip_buf s ! 42) \<and>
    uip_icmp6_error_output h 4 2 42 s = None \<and>
    (\<forall>k \<in> set [0..<8]. ext_passed (uip_buf s ! (40 + k)) \<longrightarrow> k + unat (uip_buf s ! (40 + k + 1)) + 2 < 256)"

lemma ext_options_end_or_hang_witness:
  "ext_hdr_options_process h_b (load_packet (hbho_packet [1, 2, 0, 0, 0, 0]) b0) \<noteq> None \<and>
   ext_hdr_options_process h_b ((load_packet (hbho_packet [0x80, 2, 0, 0, 0, 0]) b0)\<lparr>uip_len := 360\<rparr>) = None \<and>
   uip_process h_b UIP_DATA (load_packet (hbho_packet [1, 254, 0, 0, 0, 0]) b0) = None"
proof -
  let ?s = "load_packet (hbho_packet [1, 2, 0, 0, 0, 0]) b0" and ?t = "load_packet (hbho_packet [1, 254, 0, 0, 0, 0]) b0"
  let ?u = "(load_packet (hbho_packet [0x80, 2, 0, 0, 0, 0]) b0)\<lparr>uip_len := 360\<rparr>"
  have r: "short_hbho ?s" "bad_hbho ?t" "reported_hbho h_b ?u" by code_simp+
  have in8: "k < 8" if "ext_at b 40 8 k" for b k using ext_at_inside [OF that] .
  have 1: "ext_hdr_options_process h_b ?s \<noteq> None"
  proof -
    have s: "40 = 40 + unat (uip_ext_len ?s)" "8 = 8 * (unat (uip_buf ?s ! (40 + 1)) + 1)" "length (uip_buf ?s) = UIP_BUFSIZE"
      using r(1) by (simp_all add: short_hbho_def)
    have p: "40 + 8 < UIP_BUFSIZE \<and> (8 :: nat) < 256 \<and> (\<forall>k. ext_at (uip_buf ?s) 40 8 k \<and> ext_passed (uip_buf ?s ! (40 + k)) \<longrightarrow>
        k + unat (uip_buf ?s ! (40 + k + 1)) + 2 < 256)"
      using r(1) in8 unfolding short_hbho_def by (auto simp: UIP_BUFSIZE_def)
    have "\<not> (\<exists>k. ext_at (uip_buf ?s) 40 8 k \<and> ext_reported (uip_buf ?s) (uip_buf ?s ! (40 + k)) \<and>
        uip_icmp6_error_output h_b 4 2 (40 + ucast (uip_ext_len ?s) + of_nat k) ?s = None)"
      using r(1) in8 unfolding short_hbho_def ext_reported_def by auto
    then show ?thesis using mp [OF conjunct1 [OF ext_options_end_or_hang [OF s, of h_b]] p] by blast
  qed
  have 2: "ext_hdr_options_process h_b ?u = None"
  proof -
    have s: "40 = 40 + unat (uip_ext_len ?u)" "8 = 8 * (unat (uip_buf ?u ! (40 + 1)) + 1)" "length (uip_buf ?u) = UIP_BUFSIZE"
      using r(3) by (simp_all add: reported_hbho_def)
    have p: "40 + 8 < UIP_BUFSIZE \<and> (8 :: nat) < 256 \<and> (\<forall>k. ext_at (uip_buf ?u) 40 8 k \<and> ext_passed (uip_buf ?u ! (40 + k)) \<longrightarrow>
        k + unat (uip_buf ?u ! (40 + k + 1)) + 2 < 256)"
      using r(3) in8 unfolding reported_hbho_def by (auto simp: UIP_BUFSIZE_def)
    have "ext_at (uip_buf ?u) 40 8 2" by (rule ext_start) simp
    moreover have "ext_reported (uip_buf ?u) (uip_buf ?u ! (40 + 2))" "uip_icmp6_error_output h_b 4 2 (40 + ucast (uip_ext_len ?u) + of_nat 2) ?u = None"
      using r(3) by (simp_all add: reported_hbho_def)
    ultimately show ?thesis using mp [OF conjunct1 [OF ext_options_end_or_hang [OF s, of h_b]] p] by blast
  qed
  have "length (uip_buf ?t) = UIP_BUFSIZE" using r(2) by (simp add: bad_hbho_def)
  then have 3: "uip_process h_b UIP_DATA ?t = None"
    using conjunct2 [OF ext_options_end_or_hang [OF refl refl, of ?t h_b]] r(2) unfolding bad_hbho_def by blast
  show ?thesis using 1 2 3 by blast
qed

text \<open>The second connection is idle; five bytes that the first one sent are still in the buffer.\<close>

definition idle_conn :: uip_conn where
  "idle_conn = conn0\<lparr>c_ripaddr := glob2, c_lport := 5, c_rport := 7, c_mss := 340, c_tcpstateflags := UIP_ESTABLISHED\<rparr>"

definition stale :: "(nat \<times> nat) uip" where
  "stale = (uip_node (iface mac1 glob1) [0, 0, 0, 0] (0, 0))\<lparr>uip_buf := replicate 60 0 @ stream1 @ replicate 335 0, uip_slen := 5,
     uip_conns := (replicate UIP_CONNS conn0)[1 := idle_conn], uip_conn := Some 1\<rparr>"

lemma stale_runs: "(\<lambda>s. conn_wf s 1 \<and> uip_conns s ! 1 = idle_conn \<and> uip_slen s = 5 \<and> read_at 60 5 (uip_buf s) = stream1 \<and> uip_ext_len s = 0 \<and>
    length (uip_buf s) = UIP_BUFSIZE) stale" by code_simp

lemma poll_sends_stale_bytes_witness:
  "\<exists>t ck. uip_process (no_hooks id) UIP_POLL_REQUEST stale = Some t \<and> uip_len t = 65 \<and>
    take 65 (uip_buf t) = tcp_bytes (cur_hop_limit (netif stale)) (uip_ds6_select_src glob2 (netif stale)) glob2 5 7
      (c_snd_nxt idle_conn) (c_rcv_nxt idle_conn) 0x18 (be16_bytes UIP_TCP_MSS) ck stream1"
proof -
  have i: "c_ripaddr idle_conn = glob2" "c_lport idle_conn = 5" "c_rport idle_conn = 7" "c_mss idle_conn = 340" "c_len idle_conn = 0"
    "c_tcpstateflags idle_conn = UIP_ESTABLISHED" by (simp_all add: idle_conn_def conn0_def)
  have r: "conn_wf stale 1" "idle_conn = uip_conns stale ! 1" "uip_slen stale = 5" "read_at 60 5 (uip_buf stale) = stream1" "uip_ext_len stale = 0"
    "length (uip_buf stale) = UIP_BUFSIZE" using stale_runs by simp_all
  have h: "UIP_APPCALL (no_hooks id) s = s" for s :: "(nat \<times> nat) uip" by (simp add: no_hooks_def)
  have c: "uip_conn stale = Some 1" by (simp add: stale_def)
  have "0 < uip_slen stale" "uip_slen stale \<le> c_mss idle_conn" "c_mss idle_conn \<le> UIP_TCP_MSS" by (simp_all add: r(3) i(4) UIP_TCP_MSS_def)
  from poll_sends_stale_bytes [where h = "no_hooks id", OF r(1,2) i(6,5) c h this r(6,5)]
  obtain t ck where t: "uip_process (no_hooks id) UIP_POLL_REQUEST stale = Some t" "uip_len t = uip_slen stale + 60"
    "take (unat (uip_len t)) (uip_buf t) = tcp_bytes (cur_hop_limit (netif stale)) (uip_ds6_select_src glob2 (netif stale)) glob2 5 7
      (c_snd_nxt idle_conn) (c_rcv_nxt idle_conn) 0x18 (be16_bytes UIP_TCP_MSS) ck (read_at 60 (unat (uip_slen stale)) (uip_buf stale))"
    unfolding i by blast
  have "unat (uip_slen stale) = 5" "uip_len t = 65" "unat (uip_len t) = 65" using t(2) by (simp_all add: r(3))
  then show ?thesis using t(1,3) r(4) by metis
qed






end
