(* ===== verification/Spec2Isabelle.thy ===== *)
theory Spec2Isabelle
  imports Prelude Interfaces ContikiList RingBuf Memb Timers Crc16 Mmem Process Etimer
    Packetbuf NbrTable LinkedList UsbLock PktQueue InfoElems Wlan WlanTx PsmLists Ibss WlanRx Rtimer UsbCmd
    PsmState DevRx PsmFrame PsmInv PsmTime Firmware Hc06 Sicslowpan
    UipDs6 UipBase UipTcp Uip6 UipStream UipRun UipFacts
begin

text \<open>
  A verification development for CALIPSO: the Contiki operating system on the Arduino Due with an
  AR9170 USB WiFi stick, under \<open>src/contiki80211/src\<close>. All file names below are relative to it.

  \<^bold>\<open>The program.\<close> A single-threaded kernel runs event-driven processes (\<open>core/sys\<close>); the libraries
  (\<open>core/lib\<close>) give it lists, pools and rings. The network stack (\<open>core/net\<close>) keeps one packet in
  \<open>uip_buf\<close> and one frame in the packet buffer. Below it, the MAC layer of this project speaks 802.11 in
  an independent basic service set (IBSS) with its power saving (\<open>core/net/mac/ieee80211_ibss\<close>), and a port
  of the Linux driver carl9170 (\<open>platform/dev/ar9170_driver\<close>) drives the stick through the USB host stack.
  Interrupts run the completion callbacks of the pipes and the real-time timer, the main loop runs the
  processes and two schedulers; they share the state of the driver.

  \<^bold>\<open>Conventions.\<close> A C function is a HOL function on explicit state of the same name, or of the name with its
  module in front where the name is static and short. Structures are records, \<open>uint8_t\<close>, \<open>uint16_t\<close>,
  \<open>uint32_t\<close> and \<open>uint64_t\<close> are words, so that arithmetic wraps as it does on the target; \<open>int\<close> is \<open>int\<close> where it
  cannot overflow. Pointers are natural numbers with \<open>NULL\<close> 0; pools and heaps are maps from them. A
  function whose result is an option has the value \<open>None\<close> where the code reads or writes outside of an
  object, uses freed memory, or never returns; loops that may not end are \<open>partial_function (option)\<close>. The
  values that uninitialised locals happen to have are inputs too: \<open>ar9170_tx_prepare\<close> stores, reads and frees
  through two pointers it never sets, \<open>stack_words\<close> of the driver's state says where they point, and unless that
  is a spare block of the heap (\<open>pointers_harmless\<close>) sending has the value \<open>None\<close>. The
  outcomes of allocations, of transmissions and of the device are arguments or lists consumed by the calls,
  so a theorem holds for all of them.

  \<^bold>\<open>Kernel and libraries.\<close>
  \<^item> \<open>Prelude\<close>: machine types, buffers (\<open>read_at\<close>, \<open>write_at\<close>), runs of operations, shared lemmas.
  \<^item> \<open>Interfaces\<close>: the contracts as locales: a bounded queue (interpreted on the byte ring and on the event
    ring) and a pool of blocks (interpreted on \<open>memb.c\<close>).
  \<^item> \<open>ContikiList\<close>: \<open>core/lib/list.c\<close> over a store of links. Every operation is shown to implement one on
    duplicate-free sequences, whole runs included; its facts on chains are used by \<open>Process\<close>, \<open>Etimer\<close>,
    \<open>Mmem\<close> and \<open>NbrTable\<close>.
  \<^item> \<open>RingBuf\<close>, \<open>Memb\<close>, \<open>Mmem\<close>, \<open>Crc16\<close>, \<open>Timers\<close>: \<open>ringbuf.c\<close> (a bounded FIFO), \<open>memb.c\<close> (exclusive hand-out),
    \<open>mmem.c\<close> (compaction keeps the contents), \<open>crc16.c\<close> (equivalence with the bitwise CRC), \<open>timer.c\<close> and \<open>stimer.c\<close>.
  \<^item> \<open>Process\<close>: \<open>core/sys/process.c\<close>. The bodies of the threads are an argument; the mutual recursion of
    \<open>call_process\<close> and \<open>exit_process\<close> has fuel, whose exhaustion is \<open>None\<close>, and the theorems show results that
    are \<open>Some\<close>.
  \<^item> \<open>Etimer\<close>: \<open>core/sys/etimer.c\<close>; one poll delivers every timer that is due. \<open>Rtimer\<close>: \<open>rtimer.c\<close> and the
    counter channels of \<open>cpu/rtimer-arch.c\<close>.
  \<^item> \<open>Packetbuf\<close>: \<open>packetbuf.c\<close> and \<open>queuebuf.c\<close>; \<open>NbrTable\<close>: \<open>nbr_table.c\<close>, whose additions are map updates with
    eviction.

  \<^bold>\<open>6LoWPAN.\<close> The adaptation layer is compiled into the image; with the WiFi stick as the radio
  \<open>contiki-conf.h\<close> selects the plain \<open>null_net.c\<close> instead of it.
  \<^item> \<open>Hc06\<close>: header compression of \<open>sicslowpan.c\<close>. One lemma per header field brings the field back
    (\<open>tf_back\<close>, \<open>src_back\<close>, ...); the round trip composes them.
  \<^item> \<open>Sicslowpan\<close>: \<open>output\<close> and \<open>input\<close> with fragmentation and reassembly; the end-to-end theorem and the bounds
    for arbitrary frames.

  \<^bold>\<open>The IP stack.\<close> Applications, neighbour discovery and RPL are the functions of the record \<open>hooks\<close>.
  \<^item> \<open>UipDs6\<close>: the addresses, groups and prefixes of the interface (\<open>uip-ds6.c\<close>) and source address selection.
  \<^item> \<open>UipBase\<close>: the state of \<open>uip6.c\<close> (record \<open>uip\<close>), the checksums as sums modulo 65535, and ICMPv6
    (\<open>uip-icmp6.c\<close>). \<open>UipTcp\<close>: TCP, one definition per label of \<open>uip_process\<close>; what a segment that is sent
    looks like. \<open>Uip6\<close>: \<open>uip_process\<close> itself with extension headers, UDP and forwarding; the loops over
    options, which end or not.
  \<^item> \<open>UipStream\<close>: a link of two nodes and a network that loses, repeats and reorders packets, as an inductive
    relation; \<open>sends\<close> and \<open>collects\<close> are the contracts of the two applications, and the invariant relates
    sequence numbers, what was sent and what was delivered. The stream is shorter than \<open>2 ^ 32\<close> bytes.
    \<open>UipRun\<close>: the delivery theorem, and two nodes that meet its premises, run from the handshake on.
    \<open>UipFacts\<close>: checksums, sequence numbers, errors and polls, the function of RPL that an error message
    passes through (\<open>rpl_invert_header_of\<close>), and the loops over options: \<open>mss_at\<close> and \<open>ext_at\<close> are the positions they
    reach, on which alone it depends whether they end.

  \<^bold>\<open>The 802.11 layer.\<close>
  \<^item> \<open>LinkedList\<close>: the heap-allocated lists of \<open>cpu/linked_list.h\<close>; \<open>PktQueue\<close>: the packet queues as values of
    lists, and the refinement that the heap lists implement them.
  \<^item> \<open>InfoElems\<close>: the parser of information elements (\<open>ibss_util.c\<close>); \<open>Ibss\<close>: creating and joining the IBSS and
    its beacons (\<open>ieee80211_ibss.c\<close>).
  \<^item> \<open>Wlan\<close>: the state of the driver (record \<open>wlan\<close>, extended by \<open>inode\<close> and \<open>dev\<close>) and the path of a packet from
    \<open>ieee80211_drv_tx\<close> to the pipe; \<open>WlanTx\<close>: what is on the air and when. \<open>WlanRx\<close>: \<open>ieee80211_rx.c\<close> and the
    MAC driver; the end-to-end theorem from the packet buffer of one node to that of another.
  \<^item> \<open>PsmLists\<close>: the lists of the power saving (\<open>ieee80211_psm.c\<close>, \<open>ieee80211_mh_psm.c\<close>). \<open>PsmState\<close>: the windows of
    the beacon interval (\<open>ar9170_psm.c\<close>), the responses of the device and the scheduler (\<open>ar9170_scheduler.c\<close>).
    \<open>PsmFrame\<close>: frame conditions of every operation. \<open>PsmInv\<close>: the steps of the whole driver as an inductive
    relation and the invariants of its reachable states. \<open>PsmTime\<close>: the course of an interval.
  \<^item> \<open>DevRx\<close>: the separation of transfers and the checks of received frames (\<open>usb_wrapper.c\<close>, \<open>ar9170rx.c\<close>).
    \<open>UsbCmd\<close>: commands and the upload of the beacon (\<open>usb_cmd_wrapper.c\<close>, \<open>ar9170tx.c\<close>). \<open>UsbLock\<close>: the status of
    the connection (\<open>usb_lock.c\<close>). \<open>Firmware\<close>: the image of the firmware (\<open>usb_fw_wrapper.c\<close>);
    an image whose release string never ends is read past its end, and its parser is \<open>None\<close> there.

  \<^bold>\<open>Bounds.\<close> The numbers are those of \<open>platform/contiki-conf.h\<close>: a packet buffer of 512 bytes behind 48 of
  header, \<open>uip_buf\<close> of 400 bytes, 16 events, 4 neighbours, 2 queue buffers. The clock of the driver runs for
  less than \<open>2 ^ 63\<close> ticks (27,000 years) in the timing theorems. Fuel occurs in \<open>Process\<close> only.

  \<^bold>\<open>Not modelled.\<close> The Atmel framework and the USB host stack below the pipes (vendored; represented by the
  results of their calls), the tables of the radio and of the regulatory domains, debug output and
  statistics, the other MAC protocols and the Rime stack (compiled in part, not selected), IPv4 (\<open>uip.c\<close>, not
  compiled), neighbour discovery, RPL and the services above the stack (parameters or callers of what is
  modelled), applications and examples. The list of components with the reasons is in the manifest.
\<close>

end
